(* ===== verification/KPrelude.thy ===== *)
theory KPrelude
  imports Main "HOL-Library.Word"
begin

text \<open>
  Shared vocabulary of the kaku development: the fixed-width integer types of
  \<open><stdint.h>\<close>, the outcomes a kernel routine can have besides returning, byte-addressed
  memory with little-endian 32-bit accesses, the common macros of
  \<open>kernel/lib/src/core.h\<close> and \<open>kernel/lib/src/math.h\<close>, and the generic lemmas on words,
  lists and memory that the components use.
\<close>

unbundle bit_operations_syntax

named_theorems mem_simps \<open>reads of updated memory\<close>
named_theorems word_nat \<open>word operations read as natural numbers\<close>

section \<open>Types\<close>

type_synonym u8 = "8 word"
type_synonym u16 = "16 word"
type_synonym u32 = "32 word"
type_synonym u64 = "64 word"

text \<open>
  How a routine ends when it does not return: \<open>KPanic\<close> is a call of \<open>kernel_panic\<close> (the
  machine halts), \<open>KHang\<close> a loop that never ends, \<open>KFault\<close> an access that C leaves
  undefined (a null pointer, an index outside an array).
\<close>

datatype kerr = KPanic string | KHang | KFault string

type_synonym 'a res = "kerr + 'a"

text \<open>Going on with the value when the routine before returned.\<close>

definition and_then :: "'a res \<Rightarrow> ('a \<Rightarrow> 'b res) \<Rightarrow> 'b res" where
  "and_then r f = (case r of Inl e \<Rightarrow> Inl e | Inr v \<Rightarrow> f v)"

lemma and_then_simps [simp]: "and_then (Inr v) f = f v" "and_then (Inl e) f = Inl e"
  by (simp_all add: and_then_def)

lemma and_then_Inr: "and_then r f = Inr w \<longleftrightarrow> (\<exists>v. r = Inr v \<and> f v = Inr w)"
  by (cases r) simp_all

lemma and_then_cong [fundef_cong]:
  "r = r' \<Longrightarrow> (\<And>v. r' = Inr v \<Longrightarrow> f v = f' v) \<Longrightarrow> and_then r f = and_then r' f'"
  by (cases r') simp_all

type_synonym bytes_mem = "u32 \<Rightarrow> u8"

section \<open>Macros of lib/src/core.h and lib/src/math.h\<close>

definition KMIN :: "'a::ord \<Rightarrow> 'a \<Rightarrow> 'a" where
  "KMIN a b = (if a < b then a else b)"

definition KMAX :: "'a::ord \<Rightarrow> 'a \<Rightarrow> 'a" where
  "KMAX a b = (if a > b then a else b)"

definition CEIL_DIV :: "u32 \<Rightarrow> u32 \<Rightarrow> u32" where
  "CEIL_DIV a b = (a + b - 1) div b"

section \<open>Words as numbers\<close>

lemma unat_bound32 [simp]: "unat (x :: u32) < 4294967296"
  using unsigned_less [of x] by simp

lemma unat_bound8 [simp]: "unat (x :: u8) < 256"
  using unsigned_less [of x] by simp

lemma unat_add_small:
  "unat (a :: u32) + unat b < 4294967296 \<Longrightarrow> unat (a + b) = unat a + unat b"
  by (simp add: unat_word_ariths)

lemma unat_mul_small:
  "unat (a :: u32) * unat b < 4294967296 \<Longrightarrow> unat (a * b) = unat a * unat b"
  by (simp add: unat_word_ariths)

lemma unat_add_nat:
  "unat (a :: u32) + n < 4294967296 \<Longrightarrow> unat (a + of_nat n) = unat a + n"
  by (simp add: unat_word_ariths unat_of_nat)

lemma unat_of_nat_small: "n < 4294967296 \<Longrightarrow> unat (of_nat n :: u32) = n"
  by (simp add: unat_of_nat)

lemma unat_of_nat8_small: "n < 256 \<Longrightarrow> unat (of_nat n :: u8) = n"
  by (simp add: unat_of_nat)

lemma of_nat_add_inj:
  assumes "unat (a :: u32) + x < 4294967296" "unat a + y < 4294967296"
  shows "a + of_nat x = a + of_nat y \<longleftrightarrow> x = y"
  using assms by (metis add_left_cancel unat_add_nat)

lemma unat_push_bit32:
  assumes "unat (x :: u32) * 2 ^ n < 4294967296"
  shows "unat (push_bit n x) = unat x * 2 ^ n"
proof -
  have "unat (push_bit n x) = take_bit 32 (push_bit n (unat x))"
    by (simp add: unsigned_push_bit_eq)
  also have "\<dots> = unat x * 2 ^ n"
    using assms by (simp add: push_bit_eq_mult take_bit_nat_eq_self)
  finally show ?thesis .
qed

lemma unat_eq_imp: "unat (a :: 'a::len word) = unat b \<Longrightarrow> a = b"
  by (simp add: word_unat_eq_iff)

section \<open>Flipping one bit: the arithmetic of buddies\<close>

lemma nat_xor_pow2_clear:
  fixes n :: nat
  assumes "\<not> bit n k"
  shows "n XOR 2 ^ k = n + 2 ^ k"
proof -
  have "n XOR 2 ^ k = flip_bit k n" by (simp add: flip_bit_eq_xor push_bit_eq_mult)
  also have "\<dots> = set_bit k n" using assms by (simp add: flip_bit_eq_if)
  also have "\<dots> = n + 2 ^ k" using assms by (simp add: set_bit_eq)
  finally show ?thesis .
qed

lemma nat_xor_pow2_set:
  fixes n :: nat
  assumes "bit n k"
  shows "n XOR 2 ^ k = n - 2 ^ k" and "2 ^ k \<le> n"
proof -
  have ge: "2 ^ k \<le> n"
  proof (rule ccontr)
    assume "\<not> 2 ^ k \<le> n"
    then have "n div 2 ^ k = 0" by simp
    then show False using assms by (simp add: bit_iff_odd)
  qed
  then show "2 ^ k \<le> n" .
  let ?m = "n XOR 2 ^ k"
  have "\<not> bit ?m k" using assms by (simp add: bit_simps)
  then have "?m XOR 2 ^ k = ?m + 2 ^ k" by (rule nat_xor_pow2_clear)
  moreover have "?m XOR 2 ^ k = n" by (simp add: xor.assoc)
  ultimately show "n XOR 2 ^ k = n - 2 ^ k" by simp
qed

lemma dvd_bit_clear_iff:
  fixes n :: nat
  assumes "2 ^ k dvd n"
  shows "bit n k \<longleftrightarrow> \<not> 2 ^ Suc k dvd n"
proof -
  obtain q where "n = 2 ^ k * q" using assms by blast
  then show ?thesis by (simp add: bit_iff_odd)
qed

section \<open>Little-endian 32-bit accesses\<close>

definition byte0 :: "u32 \<Rightarrow> u8" where "byte0 v = ucast v"
definition byte1 :: "u32 \<Rightarrow> u8" where "byte1 v = ucast (drop_bit 8 v)"
definition byte2 :: "u32 \<Rightarrow> u8" where "byte2 v = ucast (drop_bit 16 v)"
definition byte3 :: "u32 \<Rightarrow> u8" where "byte3 v = ucast (drop_bit 24 v)"

definition of_le32 :: "u8 \<Rightarrow> u8 \<Rightarrow> u8 \<Rightarrow> u8 \<Rightarrow> u32" where
  "of_le32 a b c d =
     ucast a OR push_bit 8 (ucast b) OR push_bit 16 (ucast c) OR push_bit 24 (ucast d)"

definition ld32 :: "bytes_mem \<Rightarrow> u32 \<Rightarrow> u32" where
  "ld32 m a = of_le32 (m a) (m (a + 1)) (m (a + 2)) (m (a + 3))"

definition st32 :: "bytes_mem \<Rightarrow> u32 \<Rightarrow> u32 \<Rightarrow> bytes_mem" where
  "st32 m a v = m(a := byte0 v, a + 1 := byte1 v, a + 2 := byte2 v, a + 3 := byte3 v)"

lemma of_le32_bytes [simp]: "of_le32 (byte0 v) (byte1 v) (byte2 v) (byte3 v) = v"
proof (rule bit_word_eqI)
  fix n
  assume "n < LENGTH(32)"
  then consider "n < 8" | "8 \<le> n" "n < 16" | "16 \<le> n" "n < 24" | "24 \<le> n" "n < 32"
    by fastforce
  then show "bit (of_le32 (byte0 v) (byte1 v) (byte2 v) (byte3 v)) n = bit v n"
    by cases (auto simp: of_le32_def byte0_def byte1_def byte2_def byte3_def bit_simps)
qed

lemma byte0_of_le32 [simp]: "byte0 (of_le32 a b c d) = a"
  and byte1_of_le32 [simp]: "byte1 (of_le32 a b c d) = b"
  and byte2_of_le32 [simp]: "byte2 (of_le32 a b c d) = c"
  and byte3_of_le32 [simp]: "byte3 (of_le32 a b c d) = d"
  by (rule bit_word_eqI;
      auto simp: of_le32_def byte0_def byte1_def byte2_def byte3_def bit_simps
        dest: bit_imp_le_length)+

lemma ld32_st32_same [simp, mem_simps]: "ld32 (st32 m a v) a = v"
  by (simp add: ld32_def st32_def)

text \<open>The four byte addresses a 32-bit access touches, and the accesses it leaves alone.\<close>

definition touched :: "u32 \<Rightarrow> u32 set" where
  "touched a = {a, a + 1, a + 2, a + 3}"

lemma st32_other [mem_simps]: "b \<notin> touched a \<Longrightarrow> st32 m a v b = m b"
  by (simp add: st32_def touched_def)

lemma ld32_cong: "(\<And>b. b \<in> touched a \<Longrightarrow> m' b = m b) \<Longrightarrow> ld32 m' a = ld32 m a"
  by (simp add: ld32_def touched_def)

lemma touched_range:
  assumes "unat a + 3 < 4294967296"
  shows "b \<in> touched a \<longleftrightarrow> unat a \<le> unat b \<and> unat b \<le> unat a + 3"
proof
  assume "b \<in> touched a"
  with assms show "unat a \<le> unat b \<and> unat b \<le> unat a + 3"
    by (auto simp: touched_def unat_add_small)
next
  assume b: "unat a \<le> unat b \<and> unat b \<le> unat a + 3"
  define k where "k = unat b - unat a"
  have k: "k \<le> 3" "unat b = unat a + k" using b unfolding k_def by linarith+
  then have "b = a + of_nat k"
    using assms by (intro unat_eq_imp) (simp add: unat_add_nat)
  moreover have "k = 0 \<or> k = 1 \<or> k = 2 \<or> k = 3" using k(1) by arith
  ultimately show "b \<in> touched a" by (auto simp: touched_def)
qed

section \<open>Lists\<close>

lemma take_Suc_update:
  "n < length xs \<Longrightarrow> take (Suc n) (xs[n := x]) = take n xs @ [x]"
  by (simp add: take_Suc_conv_app_nth)

end
