(* ===== verification/Buddy.thy ===== *)
theory Buddy
  imports KPrelude
begin

text \<open>
  The abstract specification of the kernel heap: the 4 MiB region as a set of blocks, each a
  pair of an offset and an order, a block of order \<open>k\<close> being \<open>16 * 2^k\<close> bytes at an offset
  that its size divides. The blocks partition the region; splitting and merging a block keep
  the partition; with no two free buddies left, a fully freed region is one block again.
\<close>

section \<open>Blocks\<close>

type_synonym block = "nat \<times> nat"

abbreviation heap_bytes :: nat where "heap_bytes \<equiv> 4194304"

definition bsize :: "nat \<Rightarrow> nat" where "bsize k = 16 * 2 ^ k"

definition blk :: "block \<Rightarrow> nat set" where
  "blk b = {fst b ..< fst b + bsize (snd b)}"

definition aligned :: "block \<Rightarrow> bool" where
  "aligned b \<longleftrightarrow> snd b < 19 \<and> bsize (snd b) dvd fst b"

definition disj_blocks :: "block set \<Rightarrow> bool" where
  "disj_blocks B \<longleftrightarrow> (\<forall>b\<in>B. \<forall>c\<in>B. b \<noteq> c \<longrightarrow> blk b \<inter> blk c = {})"

definition partition :: "block set \<Rightarrow> bool" where
  "partition B \<longleftrightarrow>
     (\<forall>b\<in>B. aligned b) \<and> disj_blocks B \<and> (\<Union>b\<in>B. blk b) = {0..<heap_bytes}"

text \<open>The buddy of a block: the other half of the block one order up.\<close>

definition buddy :: "nat \<Rightarrow> nat \<Rightarrow> nat" where
  "buddy off k = (if 2 * bsize k dvd off then off + bsize k else off - bsize k)"

definition no_free_buddies :: "block set \<Rightarrow> bool" where
  "no_free_buddies F \<longleftrightarrow> (\<forall>(off, k)\<in>F. k < 18 \<longrightarrow> (buddy off k, k) \<notin> F)"

lemma bsize_pos [simp]: "0 < bsize k"
  by (simp add: bsize_def)

lemma bsize_nonzero [simp]: "bsize k \<noteq> 0"
  by (simp add: bsize_def)

lemma bsize_ge16: "16 \<le> bsize k"
  by (simp add: bsize_def)

lemma bsize_Suc: "bsize (Suc k) = 2 * bsize k"
  by (simp add: bsize_def)

lemma bsize_pow2: "bsize k = 2 ^ (k + 4)"
  by (simp add: bsize_def power_add)

lemma bsize_dvd_mono: "j \<le> k \<Longrightarrow> bsize j dvd bsize k"
  by (simp add: bsize_def le_imp_power_dvd)

lemma bsize_mono: "j \<le> k \<Longrightarrow> bsize j \<le> bsize k"
  by (simp add: bsize_def)

lemma bsize_18: "bsize 18 = heap_bytes"
  by (simp add: bsize_def)

lemma blk_self [simp]: "off \<in> blk (off, k)"
  by (simp add: blk_def)

lemma blk_split: "blk (off, Suc k) = blk (off, k) \<union> blk (off + bsize k, k)"
  by (auto simp: blk_def bsize_Suc)

lemma blk_split_disjoint: "blk (off, k) \<inter> blk (off + bsize k, k) = {}"
  by (auto simp: blk_def)

lemma aligned_split:
  "aligned (off, Suc k) \<Longrightarrow> aligned (off, k) \<and> aligned (off + bsize k, k)"
  by (auto simp: aligned_def bsize_Suc intro: dvd_mult_right dvd_trans)

section \<open>Partitions\<close>

lemma disj_blocks_insert:
  assumes "disj_blocks R" "\<And>c. c \<in> R \<Longrightarrow> blk c \<inter> blk b = {}"
  shows "disj_blocks (insert b R)"
  unfolding disj_blocks_def
proof (intro ballI impI)
  fix c d assume cd: "c \<in> insert b R" "d \<in> insert b R" "c \<noteq> d"
  then consider "c = b" "d \<in> R" | "d = b" "c \<in> R" | "c \<in> R" "d \<in> R" by blast
  then show "blk c \<inter> blk d = {}"
  proof cases
    case 1 then show ?thesis using assms(2) [of d] by blast
  next
    case 2 then show ?thesis using assms(2) [of c] by blast
  next
    case 3 then show ?thesis using assms(1) cd(3) by (simp add: disj_blocks_def)
  qed
qed

lemma disj_blocks_subset: "disj_blocks B \<Longrightarrow> R \<subseteq> B \<Longrightarrow> disj_blocks R"
  unfolding disj_blocks_def by blast

lemma partition_aligned: "partition B \<Longrightarrow> b \<in> B \<Longrightarrow> aligned b"
  by (simp add: partition_def)

lemma partition_disjoint:
  "partition B \<Longrightarrow> b \<in> B \<Longrightarrow> c \<in> B \<Longrightarrow> b \<noteq> c \<Longrightarrow> blk b \<inter> blk c = {}"
  by (simp add: partition_def disj_blocks_def)

lemma partition_bound:
  assumes "partition B" "(off, k) \<in> B"
  shows "off + bsize k \<le> heap_bytes"
proof -
  have "blk (off, k) \<subseteq> {0..<heap_bytes}"
    using assms by (auto simp: partition_def)
  moreover have "off + bsize k - 1 \<in> blk (off, k)"
    using bsize_pos [of k] by (simp add: blk_def del: bsize_pos)
  ultimately have "off + bsize k - 1 < heap_bytes" by auto
  then show ?thesis using bsize_pos [of k] by (simp add: Suc_diff_le)
qed

lemma partition_bound_off: "partition B \<Longrightarrow> (off, k) \<in> B \<Longrightarrow> off + 16 \<le> heap_bytes"
  using partition_bound [of B off k] bsize_ge16 [of k] by linarith

lemma partition_same_off:
  assumes "partition B" "(off, k) \<in> B" "(off, j) \<in> B"
  shows "j = k"
  using partition_disjoint [OF assms] blk_self by blast

lemma partition_init: "partition {(0, 18)}"
  by (simp add: partition_def aligned_def blk_def bsize_18 disj_blocks_def)

text \<open>Splitting one block of a partition into its halves.\<close>

lemma partition_split:
  assumes p: "partition B" and b: "(off, Suc k) \<in> B"
  shows "partition (insert (off, k) (insert (off + bsize k, k) (B - {(off, Suc k)})))"
    and "(off, k) \<notin> B" and "(off + bsize k, k) \<notin> B"
proof -
  have sub: "blk (off, k) \<subseteq> blk (off, Suc k)" "blk (off + bsize k, k) \<subseteq> blk (off, Suc k)"
    using blk_split by blast+
  show n1: "(off, k) \<notin> B" using partition_same_off [OF p b, of k] by auto
  show n2: "(off + bsize k, k) \<notin> B"
    using partition_disjoint [OF p b, of "(off + bsize k, k)"] sub(2) blk_self
    by (metis (no_types, lifting) IntI empty_iff in_mono n_not_Suc_n prod.inject)
  have al: "\<forall>c\<in>insert (off, k) (insert (off + bsize k, k) (B - {(off, Suc k)})). aligned c"
    using aligned_split [OF partition_aligned [OF p b]] partition_aligned [OF p] by auto
  have out: "blk c \<inter> blk (off, Suc k) = {}" if "c \<in> B - {(off, Suc k)}" for c
    using partition_disjoint [OF p _ b] that by blast
  have rest: "disj_blocks (B - {(off, Suc k)})"
    using p by (auto simp: partition_def intro: disj_blocks_subset)
  have dj1: "disj_blocks (insert (off + bsize k, k) (B - {(off, Suc k)}))"
    by (rule disj_blocks_insert [OF rest]) (use out sub in blast)
  have dj: "disj_blocks (insert (off, k) (insert (off + bsize k, k) (B - {(off, Suc k)})))"
    by (rule disj_blocks_insert [OF dj1])
       (use out sub blk_split_disjoint [of off k] in blast)
  have "(\<Union>c\<in>B. blk c) = blk (off, Suc k) \<union> (\<Union>c\<in>B - {(off, Suc k)}. blk c)"
    using b by blast
  then have un: "(\<Union>c\<in>insert (off, k) (insert (off + bsize k, k) (B - {(off, Suc k)})). blk c)
      = {0..<heap_bytes}"
    using p blk_split by (simp add: partition_def Un_assoc)
  show "partition (insert (off, k) (insert (off + bsize k, k) (B - {(off, Suc k)})))"
    unfolding partition_def using al dj un by blast
qed

text \<open>Merging the two halves of an aligned block.\<close>

lemma partition_merge:
  assumes p: "partition B" and l: "(off, k) \<in> B" and r: "(off + bsize k, k) \<in> B"
    and al: "aligned (off, Suc k)"
  shows "partition (insert (off, Suc k) (B - {(off, k), (off + bsize k, k)}))"
proof -
  let ?R = "B - {(off, k), (off + bsize k, k)}"
  have out: "blk c \<inter> blk (off, Suc k) = {}" if "c \<in> ?R" for c
  proof -
    have "blk c \<inter> blk (off, k) = {}" "blk c \<inter> blk (off + bsize k, k) = {}"
      using partition_disjoint [OF p _ l, of c] partition_disjoint [OF p _ r, of c] that
      by blast+
    then show ?thesis by (simp add: blk_split Int_Un_distrib)
  qed
  have un: "(\<Union>c\<in>B. blk c) = blk (off, k) \<union> blk (off + bsize k, k) \<union> (\<Union>c\<in>?R. blk c)"
    using l r by blast
  show ?thesis
    unfolding partition_def
  proof (intro conjI)
    show "\<forall>c\<in>insert (off, Suc k) ?R. aligned c"
      using al partition_aligned [OF p] by auto
    show "disj_blocks (insert (off, Suc k) ?R)"
    proof (rule disj_blocks_insert [OF _ out])
      show "disj_blocks ?R"
        using p by (auto simp: partition_def intro: disj_blocks_subset)
    qed
    show "(\<Union>c\<in>insert (off, Suc k) ?R. blk c) = {0..<heap_bytes}"
      using un p by (simp add: partition_def blk_split)
  qed
qed

section \<open>Buddies\<close>

lemma buddy_xor:
  assumes "bsize k dvd off"
  shows "off XOR bsize k = buddy off k"
proof (cases "2 * bsize k dvd off")
  case True
  then have "\<not> bit off (k + 4)"
    using dvd_bit_clear_iff [of "k + 4" off] assms True by (simp only: bsize_pow2 power_Suc simp_thms)
  then show ?thesis using True nat_xor_pow2_clear [of off "k + 4"]
    by (simp add: buddy_def bsize_pow2)
next
  case False
  then have "bit off (k + 4)"
    using dvd_bit_clear_iff [of "k + 4" off] assms False by (simp only: bsize_pow2 power_Suc simp_thms)
  then show ?thesis using False nat_xor_pow2_set(1) [of off "k + 4"]
    by (simp add: buddy_def bsize_pow2)
qed

lemma buddy_cases:
  assumes "bsize k dvd off"
  obtains (left) "bsize (Suc k) dvd off" "buddy off k = off + bsize k"
    | (right) "bsize k \<le> off" "bsize (Suc k) dvd off - bsize k" "buddy off k = off - bsize k"
proof (cases "2 * bsize k dvd off")
  case True
  then show ?thesis using left by (simp add: buddy_def bsize_Suc)
next
  case False
  obtain q where q: "off = bsize k * q" using assms by blast
  with False have "odd q" by auto
  then obtain r where "q = 2 * r + 1" by (auto elim: oddE)
  with q have "off = bsize k * (2 * r) + bsize k" by (simp add: algebra_simps)
  with False show ?thesis using right by (simp add: buddy_def bsize_Suc)
qed

lemma buddy_aligned:
  assumes "bsize k dvd off"
  shows "bsize k dvd buddy off k"
  using assms by (cases rule: buddy_cases [OF assms]) (auto simp: dvd_diff_nat)

lemma buddy_neq: "bsize k dvd off \<Longrightarrow> buddy off k \<noteq> off"
  by (erule buddy_cases) (use bsize_pos [of k] in \<open>linarith+\<close>)

lemma buddy_min_aligned:
  assumes "aligned (off, k)" "k < 18"
  shows "aligned (min off (buddy off k), Suc k)"
proof -
  have "bsize k dvd off" using assms by (simp add: aligned_def)
  then show ?thesis
  proof (cases rule: buddy_cases)
    case left
    then show ?thesis using assms by (simp add: aligned_def)
  next
    case right
    then have "min off (buddy off k) = off - bsize k" by simp
    then show ?thesis using right assms by (simp add: aligned_def)
  qed
qed

lemma buddy_pair:
  assumes "bsize k dvd off"
  shows "{(off, k), (buddy off k, k)} =
    {(min off (buddy off k), k), (min off (buddy off k) + bsize k, k)}"
  using assms by (cases rule: buddy_cases) (auto simp: min_def)

lemma buddy_invol: "bsize k dvd off \<Longrightarrow> buddy (buddy off k) k = off"
  using buddy_xor [of k off] buddy_xor [OF buddy_aligned, of k off]
  by (simp add: xor.assoc flip: buddy_xor)

lemma buddy_in_region:
  assumes "aligned (off, k)" "k < 18" "off + bsize k \<le> heap_bytes"
  shows "buddy off k + bsize k \<le> heap_bytes"
proof -
  have "bsize k dvd off" using assms by (simp add: aligned_def)
  then show ?thesis
  proof (cases rule: buddy_cases)
    case left
    have "bsize (Suc k) dvd heap_bytes"
      using bsize_dvd_mono [of "Suc k" 18] assms(2) by (simp add: bsize_18)
    then obtain q where "heap_bytes = bsize (Suc k) * q" by blast
    moreover obtain r where "off = bsize (Suc k) * r" using left(1) by blast
    moreover have "off < heap_bytes" using assms(3) bsize_ge16 [of k] by linarith
    ultimately have "r < q" using nat_mult_less_cancel_disj by metis
    then have "bsize (Suc k) * Suc r \<le> bsize (Suc k) * q" by (intro mult_le_mono2) simp
    then show ?thesis
      using \<open>heap_bytes = _\<close> \<open>off = _\<close> left(2) by (simp add: bsize_Suc algebra_simps)
  next
    case right
    then show ?thesis using assms(3) by simp
  qed
qed

section \<open>Complete coalescing\<close>

text \<open>
  Two aligned blocks are nested or disjoint, so in a partition of free blocks a smallest
  block has its buddy beside it.
\<close>

lemma aligned_nested:
  assumes a: "aligned (x, j)" and b: "aligned (y, k)" and jk: "j \<le> k"
    and z: "z \<in> blk (x, j)" "z \<in> blk (y, k)"
  shows "blk (x, j) \<subseteq> blk (y, k)"
proof -
  obtain p where p: "x = bsize j * p" using a by (auto simp: aligned_def)
  have "bsize j dvd y" using b bsize_dvd_mono [OF jk] dvd_trans by (auto simp: aligned_def)
  then obtain q where q: "y = bsize j * q" by blast
  obtain r where r: "bsize k = bsize j * r" using bsize_dvd_mono [OF jk] by blast
  have "bsize j * q \<le> z" "z < bsize j * (q + r)" "bsize j * p \<le> z" "z < bsize j * Suc p"
    using z by (simp_all add: blk_def p q r algebra_simps)
  then have "bsize j * q < bsize j * Suc p" "bsize j * p < bsize j * (q + r)"
    by linarith+
  then have "q < Suc p" "p < q + r"
    using nat_mult_less_cancel_disj by blast+
  then have "q \<le> p" "Suc p \<le> q + r" by simp_all
  then have "bsize j * q \<le> bsize j * p" "bsize j * Suc p \<le> bsize j * (q + r)"
    by (simp_all only: mult_le_mono2)
  then show ?thesis by (auto simp: blk_def p q r algebra_simps)
qed

lemma coalesced_single:
  assumes p: "partition F" and nb: "no_free_buddies F"
  shows "F = {(0, 18)}"
proof -
  have ne: "\<exists>k off. (off, k) \<in> F"
  proof -
    have "0 \<in> (\<Union>b\<in>F. blk b)" using p by (simp add: partition_def)
    then show ?thesis by force
  qed
  define k where "k = (LEAST k. \<exists>off. (off, k) \<in> F)"
  obtain off where b: "(off, k) \<in> F"
    using LeastI_ex [OF ne] by (auto simp: k_def)
  have least: "k \<le> j" if "(x, j) \<in> F" for x j
    unfolding k_def using that by (intro Least_le) blast
  have al: "aligned (off, k)" by (rule partition_aligned [OF p b])
  have "k = 18"
  proof (rule ccontr)
    assume "k \<noteq> 18"
    then have k18: "k < 18" using al by (simp add: aligned_def)
    let ?y = "buddy off k"
    have "?y + bsize k \<le> heap_bytes"
      by (rule buddy_in_region [OF al k18 partition_bound [OF p b]])
    then have "?y < heap_bytes" using bsize_ge16 [of k] by linarith
    then have "?y \<in> (\<Union>b\<in>F. blk b)" using p by (simp add: partition_def)
    then obtain z j where c: "(z, j) \<in> F" "?y \<in> blk (z, j)" by force
    have aly: "aligned (?y, k)"
      using buddy_aligned [of k off] al by (simp add: aligned_def)
    have nest: "blk (?y, k) \<subseteq> blk (z, j)"
      by (rule aligned_nested [OF aly partition_aligned [OF p c(1)] least [OF c(1)] _ c(2)]) simp
    show False
    proof (cases "j = k")
      case True
      have "z = ?y"
      proof -
        have "blk (z, k) \<subseteq> blk (?y, k)"
          using aligned_nested [OF _ aly _ _ , of z k ?y] partition_aligned [OF p c(1)] True c(2)
          by simp
        with nest True have "blk (z, k) = blk (?y, k)" by simp
        then have "{z..<z + bsize k} = {?y..<?y + bsize k}" by (simp add: blk_def)
        then show ?thesis using bsize_pos [of k] by (simp add: atLeastLessThan_eq_iff)
      qed
      then show False using nb b k18 c(1) True by (auto simp: no_free_buddies_def)
    next
      case False
      then have kj: "Suc k \<le> j" using least [OF c(1)] by simp
      let ?m = "min off ?y"
      have alm: "aligned (?m, Suc k)" by (rule buddy_min_aligned [OF al k18])
      have in_m: "off \<in> blk (?m, Suc k)" "?y \<in> blk (?m, Suc k)"
        using buddy_pair [of k off] al
        by (auto simp: aligned_def blk_split doubleton_eq_iff)
      have "blk (?m, Suc k) \<subseteq> blk (z, j)"
        by (rule aligned_nested [OF alm partition_aligned [OF p c(1)] kj in_m(2) c(2)])
      then have "off \<in> blk (z, j)" using in_m(1) by blast
      moreover have "(off, k) \<noteq> (z, j)" using False by simp
      ultimately show False using partition_disjoint [OF p b c(1)] blk_self by blast
    qed
  qed
  then have "off = 0" using partition_bound [OF p b] by (simp add: bsize_18)
  have b18: "(0, 18) \<in> F" using b \<open>k = 18\<close> \<open>off = 0\<close> by simp
  have "c = (0, 18)" if "c \<in> F" for c
  proof (rule ccontr)
    assume "c \<noteq> (0, 18)"
    obtain x j where c: "c = (x, j)" by force
    have "x \<in> blk c" by (simp add: c)
    moreover have "blk c \<inter> blk (0, 18) = {}"
      using partition_disjoint [OF p that b18] \<open>c \<noteq> _\<close> by blast
    moreover have "x < heap_bytes"
      using partition_bound_off [OF p, of x j] that c by simp
    ultimately show False by (auto simp: blk_def bsize_18)
  qed
  with b18 show ?thesis by blast
qed

end
