(* ===== verification/Heap.thy ===== *)
theory Heap
  imports Buddy
begin

text \<open>
  The kernel heap, \<open>kernel/mm/src/heap.c\<close> with its types in \<open>kernel/mm/src/heap.h\<close>: a buddy
  allocator whose free lists are threaded through the free memory itself. The model keeps the
  bytes: \<open>free_block->next\<close> is a 32-bit word stored at the block's address, the order of an
  allocated block is the byte before the pointer handed out.
\<close>

section \<open>State and operations\<close>

text \<open>
  \<open>k_heap\<close> with the file's \<open>heap_initialized\<close> flag and the memory the free lists live in.
  \<open>free_blocks\<close> is the array of \<open>ALLOC_ORDERS\<close> list heads, 0 for an empty list.
\<close>

record k_heap =
  free_blocks :: "nat \<Rightarrow> u32"
  heap_start :: u32
  heap_size :: u32
  heap_initialized :: bool
  kmem :: bytes_mem

definition ALLOC_MIN_BYTES_BLOCK :: u32 where "ALLOC_MIN_BYTES_BLOCK = 16"
definition ALLOC_ORDERS :: nat where "ALLOC_ORDERS = 19"
definition KERNEL_VIRT_BASE :: u32 where "KERNEL_VIRT_BASE = 0xC0000000"

text \<open>
  \<open>kheap_init\<close>, over the linker's \<open>kernel_phys_end\<close> and the usable entry of the BIOS memory map
  (its 64-bit base and length).
\<close>

definition kheap_init :: "u32 \<Rightarrow> u64 \<Rightarrow> u64 \<Rightarrow> k_heap \<Rightarrow> k_heap" where
  "kheap_init kernel_phys_end base_addr region_len h =
     (let start = kernel_phys_end + KERNEL_VIRT_BASE
      in h\<lparr>free_blocks := (\<lambda>i. if i < ALLOC_ORDERS - 1 then 0
                              else if i = ALLOC_ORDERS - 1 then start else free_blocks h i),
           heap_start := start,
           heap_size := ucast (KMIN (base_addr + region_len - ucast kernel_phys_end) (4 * 1024 * 1024)),
           heap_initialized := True,
           kmem := st32 (kmem h) start 0\<rparr>)"

text \<open>
  The loop of \<open>__order_for_size\<close>; \<open>evaluated_order_bytes\<close> is 32 bits wide and may shift to 0,
  after which the loop never ends, so the loop is a partial function.
\<close>

partial_function (option) order_loop :: "u32 \<Rightarrow> u32 \<Rightarrow> u8 \<Rightarrow> u8 option" where
  "order_loop sz evaluated order =
     (if KMAX sz evaluated = sz then order_loop sz (push_bit 1 evaluated) (order + 1)
      else Some order)"

definition order_for_size :: "u32 \<Rightarrow> u8 option" where
  "order_for_size sz = order_loop sz ALLOC_MIN_BYTES_BLOCK 0"

definition size_for_order :: "nat \<Rightarrow> u32" where
  "size_for_order order = push_bit order ALLOC_MIN_BYTES_BLOCK"

text \<open>The search for the first order that has a free block.\<close>

function first_available :: "(nat \<Rightarrow> u32) \<Rightarrow> nat \<Rightarrow> nat option" where
  "first_available fb i =
     (if i < ALLOC_ORDERS then (if fb i \<noteq> 0 then Some i else first_available fb (i + 1)) else None)"
  by pat_completeness auto
termination by (relation "measure (\<lambda>(fb, i). ALLOC_ORDERS - i)") auto

text \<open>\<open>buddy->next = free_blocks[i]; free_blocks[i] = buddy;\<close>\<close>

definition push_free :: "k_heap \<Rightarrow> nat \<Rightarrow> u32 \<Rightarrow> k_heap" where
  "push_free h i addr =
     h\<lparr>kmem := st32 (kmem h) addr (free_blocks h i), free_blocks := (free_blocks h)(i := addr)\<rparr>"

fun split_loop :: "k_heap \<Rightarrow> u32 \<Rightarrow> nat \<Rightarrow> nat \<Rightarrow> k_heap" where
  "split_loop h ptr order 0 = h"
| "split_loop h ptr order (Suc i) =
     (if Suc i > order
      then split_loop (push_free h i (ptr + size_for_order i)) ptr order i
      else h)"

definition kheap_alloc :: "k_heap \<Rightarrow> u32 \<Rightarrow> (u32 \<times> k_heap) res" where
  "kheap_alloc h sz =
     (if \<not> heap_initialized h then Inl (KPanic ''HEAP_NOT_INITIALIZED'')
      else case order_for_size sz of
        None \<Rightarrow> Inl KHang
      | Some order \<Rightarrow>
         (case first_available (free_blocks h) (unat order) of
            None \<Rightarrow> Inl (KPanic ''HEAP_OUT_OF_MEMORY'')
          | Some first \<Rightarrow>
             (let ptr = free_blocks h first;
                  h1 = h\<lparr>free_blocks := (free_blocks h)(first := ld32 (kmem h) ptr)\<rparr>;
                  h2 = split_loop h1 ptr (unat order) first;
                  h3 = h2\<lparr>kmem := (kmem h2)(ptr := order)\<rparr>
              in Inr (ptr + 1, h3))))"

text \<open>
  \<open>kheap_free\<close>. \<open>previous_block\<close> points either at a list head or at the \<open>next\<close> field of a
  block, which is the block's own address. The search follows memory, so a list with a cycle
  is followed forever.
\<close>

datatype link = Head nat | Next u32

definition write_link :: "k_heap \<Rightarrow> link \<Rightarrow> u32 \<Rightarrow> k_heap" where
  "write_link h l v =
     (case l of Head i \<Rightarrow> h\<lparr>free_blocks := (free_blocks h)(i := v)\<rparr>
      | Next a \<Rightarrow> h\<lparr>kmem := st32 (kmem h) a v\<rparr>)"

partial_function (option) find_block :: "bytes_mem \<Rightarrow> u32 \<Rightarrow> link \<Rightarrow> u32 \<Rightarrow> link option option" where
  "find_block m current previous target =
     (if current = 0 then Some None
      else if current = target then Some (Some previous)
      else find_block m (ld32 m current) (Next current) target)"

definition buddy_addr :: "k_heap \<Rightarrow> u32 \<Rightarrow> nat \<Rightarrow> u32" where
  "buddy_addr h addr order = heap_start h + ((addr - heap_start h) XOR size_for_order order)"

function merge_loop :: "k_heap \<Rightarrow> u32 \<Rightarrow> nat \<Rightarrow> (k_heap \<times> u32 \<times> nat) res" where
  "merge_loop h addr order =
     (if order < ALLOC_ORDERS - 1 then
        (case find_block (kmem h) (free_blocks h order) (Head order) (buddy_addr h addr order) of
           None \<Rightarrow> Inl KHang
         | Some None \<Rightarrow> Inr (h, addr, order)
         | Some (Some previous) \<Rightarrow>
             (let b = buddy_addr h addr order
              in merge_loop (write_link h previous (ld32 (kmem h) b))
                   (if b < addr then b else addr) (order + 1)))
      else Inr (h, addr, order))"
  by pat_completeness auto
termination by (relation "measure (\<lambda>(h, addr, order). ALLOC_ORDERS - order)")
    (auto simp: ALLOC_ORDERS_def)

definition kheap_free :: "k_heap \<Rightarrow> u32 \<Rightarrow> k_heap res" where
  "kheap_free h ptr =
     (if ptr = 0 then Inr h
      else case merge_loop h (ptr - 1) (unat (kmem h (ptr - 1))) of
        Inl e \<Rightarrow> Inl e
      | Inr (h1, addr, order) \<Rightarrow>
          (if order < ALLOC_ORDERS then Inr (push_free h1 order addr)
           else Inl (KFault ''free_blocks index'')))"

definition kheap_get_start :: "k_heap \<Rightarrow> u32" where "kheap_get_start h = heap_start h"
definition kheap_get_size :: "k_heap \<Rightarrow> u32" where "kheap_get_size h = heap_size h"

declare first_available.simps [simp del] merge_loop.simps [simp del]
declare order_loop.simps [code] find_block.simps [code]

section \<open>Orders\<close>

lemma KMAX_eq_left: "KMAX (a :: u32) b = a \<longleftrightarrow> b \<le> a"
  by (auto simp: KMAX_def)

lemma bsize_bound: "k < 19 \<Longrightarrow> bsize k \<le> heap_bytes"
  using bsize_mono [of k 18] by (simp add: bsize_18)

lemma unat_size_for_order: "k < 19 \<Longrightarrow> unat (size_for_order k) = bsize k"
  using bsize_bound [of k] unat_push_bit32 [of 16 k]
  by (simp add: size_for_order_def ALLOC_MIN_BYTES_BLOCK_def bsize_def)

text \<open>\<open>__order_for_size\<close> finds the smallest order whose block holds the size and a header byte.\<close>

lemma order_loop_unfold:
  "order_loop sz e k = (if e \<le> sz then order_loop sz (push_bit 1 e) (k + 1) else Some k)"
  by (subst order_loop.simps) (simp add: KMAX_eq_left)

lemma order_loop_result:
  assumes "unat sz < 2147483648" "unat e = bsize (unat k)" "unat k < 28"
    and "unat k = 0 \<or> bsize (unat k - 1) \<le> unat sz"
  shows "\<exists>r. order_loop sz e k = Some r \<and> unat sz < bsize (unat r) \<and>
    (unat r = 0 \<or> bsize (unat r - 1) \<le> unat sz)"
  using assms(2-4)
proof (induction "28 - unat k" arbitrary: e k rule: less_induct)
  case less
  show ?case
  proof (cases "e \<le> sz")
    case False
    then show ?thesis using less.prems
      by (auto simp: order_loop_unfold [of sz e k] word_le_nat_alt)
  next
    case True
    then have le: "bsize (unat k) \<le> unat sz"
      using less.prems(1) by (simp add: word_le_nat_alt)
    have k1: "unat (k + 1) = Suc (unat k)"
      using less.prems(2) by (simp add: unat_word_ariths)
    have e1: "unat (push_bit 1 e) = bsize (Suc (unat k))"
      using unat_push_bit32 [of e 1] le assms(1) less.prems(1) by (simp add: bsize_Suc)
    have lt27: "unat k < 27"
    proof (rule ccontr)
      assume "\<not> unat k < 27"
      then have "unat k = 27" using less.prems(2) by simp
      then show False using le assms(1) by (simp add: bsize_def)
    qed
    have "\<exists>r. order_loop sz (push_bit 1 e) (k + 1) = Some r \<and> unat sz < bsize (unat r) \<and>
      (unat r = 0 \<or> bsize (unat r - 1) \<le> unat sz)"
      by (rule less.hyps) (use k1 e1 lt27 le in auto)
    then show ?thesis using True by (simp add: order_loop_unfold [of sz e k])
  qed
qed

lemma order_for_size_small:
  assumes "unat sz < 2147483648"
  obtains r where "order_for_size sz = Some r" "unat sz < bsize (unat r)"
    "unat r = 0 \<or> bsize (unat r - 1) \<le> unat sz"
  using order_loop_result [of sz 16 0] assms
  by (auto simp: order_for_size_def ALLOC_MIN_BYTES_BLOCK_def bsize_def)

text \<open>For a size of 2 GiB or more the evaluated bytes shift out to 0 and the loop never ends.\<close>

lemma order_loop_zero: "order_loop sz 0 k = None"
proof (rule ccontr)
  assume "order_loop sz 0 k \<noteq> None"
  then obtain r where r: "order_loop sz 0 k = Some r" by auto
  have "(0 :: u32) = 0 \<longrightarrow> False"
  proof (rule order_loop.raw_induct [where P = "\<lambda>sz e k r. e = 0 \<longrightarrow> False", OF _ r])
    fix f sz e k r
    assume IH: "\<And>sz e k r. f sz e k = Some r \<Longrightarrow> e = (0 :: u32) \<longrightarrow> False"
      and eq: "(if KMAX sz e = sz then f sz (push_bit 1 e) (k + 1) else Some k) = Some r"
    show "e = 0 \<longrightarrow> False"
      using eq IH [of sz 0] by (auto simp: KMAX_eq_left)
  qed
  then show False by simp
qed

lemma order_loop_large:
  assumes "2147483648 \<le> unat sz" "e = push_bit n 16" "n \<le> 28"
  shows "order_loop sz e k = None"
  using assms(2,3)
proof (induction "28 - n" arbitrary: n e k)
  case 0
  then have "e = 0" by simp
  then show ?case by (simp add: order_loop_zero)
next
  case (Suc d)
  then have n: "n \<le> 27" by simp
  then have "(2 :: nat) ^ n \<le> 2 ^ 27" by (intro power_increasing) auto
  then have "unat e \<le> 2147483648"
    using Suc.prems(1) unat_push_bit32 [of 16 n] by simp
  then have "e \<le> sz" using assms(1) by (simp add: word_le_nat_alt)
  moreover have "order_loop sz (push_bit 1 e) (k + 1) = None"
    by (rule Suc.hyps(1) [of "Suc n"]) (use Suc in \<open>auto simp: push_bit_push_bit\<close>)
  ultimately show ?case by (simp add: order_loop_unfold [of sz e k])
qed

lemma order_for_size_large: "2147483648 \<le> unat sz \<Longrightarrow> order_for_size sz = None"
  unfolding order_for_size_def ALLOC_MIN_BYTES_BLOCK_def
  by (rule order_loop_large [where n = 0]) auto

end
