(* ===== verification/HeapCorrect.thy ===== *)
theory HeapCorrect
  imports Heap
begin

text \<open>
  The refinement between the byte-level heap of \<open>heap.c\<close> and the abstract partition of
  \<open>Buddy\<close>: the free lists in memory spell out the free blocks, and every operation of the
  allocator keeps that correspondence, the partition and the absence of free buddies.
\<close>

section \<open>Free lists in memory\<close>

fun chain :: "bytes_mem \<Rightarrow> u32 \<Rightarrow> u32 list \<Rightarrow> bool" where
  "chain m p [] \<longleftrightarrow> p = 0"
| "chain m p (x # xs) \<longleftrightarrow> p = x \<and> x \<noteq> 0 \<and> chain m (ld32 m x) xs"

lemma chain_cong:
  "(\<And>x b. x \<in> set xs \<Longrightarrow> b \<in> touched x \<Longrightarrow> m' b = m b) \<Longrightarrow> chain m' p xs = chain m p xs"
proof (induction xs arbitrary: p)
  case (Cons x xs)
  have "ld32 m' x = ld32 m x" by (rule ld32_cong) (use Cons.prems in auto)
  moreover have "chain m' (ld32 m x) xs = chain m (ld32 m x) xs"
    by (rule Cons.IH) (use Cons.prems in auto)
  ultimately show ?case by simp
qed simp

lemma chain_head: "chain m p xs \<Longrightarrow> p = 0 \<longleftrightarrow> xs = []"
  by (cases xs) auto

text \<open>Dropping the node after \<open>z\<close>: the write \<open>*previous_block = current_block->next\<close>.\<close>

lemma chain_unlink:
  assumes "chain m p (us @ z # y # ys)"
    and "\<And>x. x \<in> set (us @ ys) \<Longrightarrow> touched x \<inter> touched z = {}"
  shows "chain (st32 m z (ld32 m y)) p (us @ z # ys)"
  using assms
proof (induction us arbitrary: p)
  case Nil
  have "chain (st32 m z (ld32 m y)) (ld32 m y) ys = chain m (ld32 m y) ys"
  proof (rule chain_cong)
    fix x b assume "x \<in> set ys" "b \<in> touched x"
    then have "b \<notin> touched z" using Nil.prems(2) [of x] by auto
    then show "st32 m z (ld32 m y) b = m b" by (rule st32_other)
  qed
  then show ?case using Nil.prems(1) by simp
next
  case (Cons u us)
  have "ld32 (st32 m z (ld32 m y)) u = ld32 m u"
  proof (rule ld32_cong)
    fix b assume "b \<in> touched u"
    then have "b \<notin> touched z" using Cons.prems(2) [of u] by auto
    then show "st32 m z (ld32 m y) b = m b" by (rule st32_other)
  qed
  then show ?case using Cons by simp
qed

lemma find_block_hit:
  assumes "chain m p (xs @ t # ys)" "t \<notin> set xs"
  shows "find_block m p l t = Some (Some (if xs = [] then l else Next (last xs)))"
  using assms
proof (induction xs arbitrary: p l)
  case Nil
  then show ?case by (subst find_block.simps) simp
next
  case (Cons x xs)
  then have "find_block m p l t = find_block m (ld32 m x) (Next x) t"
    by (subst find_block.simps) auto
  then show ?case using Cons by auto
qed

lemma find_block_miss:
  "chain m p xs \<Longrightarrow> t \<notin> set xs \<Longrightarrow> find_block m p l t = Some None"
proof (induction xs arbitrary: p l)
  case Nil
  then show ?case by (subst find_block.simps) simp
next
  case (Cons x xs)
  then have "find_block m p l t = find_block m (ld32 m x) (Next x) t"
    by (subst find_block.simps) auto
  then show ?case using Cons by auto
qed

section \<open>The correspondence\<close>

definition baddr :: "k_heap \<Rightarrow> nat \<Rightarrow> u32" where
  "baddr h off = heap_start h + of_nat off"

definition free_set :: "(nat \<Rightarrow> nat list) \<Rightarrow> block set" where
  "free_set fl = {(off, k). off \<in> set (fl k)}"

text \<open>The heap does not start at address 0 and does not run past the end of memory.\<close>

definition heap_geom :: "k_heap \<Rightarrow> bool" where
  "heap_geom h \<longleftrightarrow> heap_initialized h \<and> 0 < unat (heap_start h) \<and>
     unat (heap_start h) + heap_bytes \<le> 4294967296"

text \<open>
  \<open>fl\<close> is the contents of the free lists, as offsets; \<open>A\<close> the blocks that are not free. In
  \<open>heap_inv\<close> the blocks of \<open>A\<close> are those handed out, each with its order in its first byte.
\<close>

definition heap_core :: "k_heap \<Rightarrow> (nat \<Rightarrow> nat list) \<Rightarrow> block set \<Rightarrow> bool" where
  "heap_core h fl A \<longleftrightarrow> heap_geom h \<and> (\<forall>k. distinct (fl k)) \<and>
     (\<forall>k<ALLOC_ORDERS. chain (kmem h) (free_blocks h k) (map (baddr h) (fl k))) \<and>
     free_set fl \<inter> A = {} \<and> partition (free_set fl \<union> A)"

definition headers_ok :: "k_heap \<Rightarrow> block set \<Rightarrow> bool" where
  "headers_ok h A \<longleftrightarrow> (\<forall>(off, k)\<in>A. kmem h (baddr h off) = of_nat k)"

definition heap_inv :: "k_heap \<Rightarrow> (nat \<Rightarrow> nat list) \<Rightarrow> block set \<Rightarrow> bool" where
  "heap_inv h fl A \<longleftrightarrow> heap_core h fl A \<and> no_free_buddies (free_set fl) \<and> headers_ok h A"

text \<open>The bytes of the blocks \<open>A\<close>, which the operations on other blocks leave alone.\<close>

definition same_bytes :: "k_heap \<Rightarrow> k_heap \<Rightarrow> block set \<Rightarrow> bool" where
  "same_bytes h h' A \<longleftrightarrow> heap_start h' = heap_start h \<and>
     (\<forall>b\<in>A. \<forall>x\<in>blk b. kmem h' (baddr h x) = kmem h (baddr h x))"

lemma same_bytes_refl [simp]: "same_bytes h h A"
  by (simp add: same_bytes_def)

lemma same_bytes_trans:
  "same_bytes h1 h2 A \<Longrightarrow> same_bytes h2 h3 A \<Longrightarrow> same_bytes h1 h3 A"
  by (simp add: same_bytes_def baddr_def)

lemma same_bytes_mono: "same_bytes h h' B \<Longrightarrow> A \<subseteq> B \<Longrightarrow> same_bytes h h' A"
  by (auto simp: same_bytes_def)

lemma baddr_cong: "heap_start h' = heap_start h \<Longrightarrow> baddr h' = baddr h"
  by (simp add: baddr_def fun_eq_iff)

lemma baddr_simps [simp]:
  "baddr (h\<lparr>kmem := m\<rparr>) = baddr h" "baddr (h\<lparr>free_blocks := f\<rparr>) = baddr h"
  by (simp_all add: baddr_def fun_eq_iff)

lemma unat_baddr:
  "heap_geom h \<Longrightarrow> x < heap_bytes \<Longrightarrow> unat (baddr h x) = unat (heap_start h) + x"
  unfolding baddr_def by (rule unat_add_nat) (simp add: heap_geom_def)

lemma baddr_inj:
  assumes "heap_geom h" "x < heap_bytes" "y < heap_bytes"
  shows "baddr h x = baddr h y \<longleftrightarrow> x = y"
  unfolding baddr_def by (rule of_nat_add_inj) (use assms in \<open>auto simp: heap_geom_def\<close>)

lemma baddr_nonzero: "heap_geom h \<Longrightarrow> x < heap_bytes \<Longrightarrow> baddr h x \<noteq> 0"
  using unat_baddr [of h x] by (auto simp: heap_geom_def)

lemma touched_baddr: "b \<in> touched (baddr h x) \<Longrightarrow> \<exists>i<4. b = baddr h (x + i)"
proof -
  assume "b \<in> touched (baddr h x)"
  then consider "b = baddr h (x + 0)" | "b = baddr h (x + 1)" | "b = baddr h (x + 2)"
    | "b = baddr h (x + 3)"
    by (auto simp: touched_def baddr_def)
  then show ?thesis
    by cases (rule exI [of _ 0], simp, rule exI [of _ 1], simp, rule exI [of _ 2], simp,
      rule exI [of _ 3], simp)
qed

lemma touched_in_blk:
  assumes "b \<in> touched (baddr h x)"
  obtains i where "b = baddr h i" "i \<in> blk (x, k)"
proof -
  obtain i where "i < 4" "b = baddr h (x + i)" using touched_baddr [OF assms] by blast
  moreover then have "x + i \<in> blk (x, k)" using bsize_ge16 [of k] by (simp add: blk_def)
  ultimately show ?thesis using that by blast
qed

lemma blk_in_region: "partition B \<Longrightarrow> b \<in> B \<Longrightarrow> x \<in> blk b \<Longrightarrow> x < heap_bytes"
  by (auto simp: partition_def)

lemma heap_cover: "partition B \<Longrightarrow> x < heap_bytes \<Longrightarrow> \<exists>b\<in>B. x \<in> blk b"
proof -
  assume "partition B" "x < heap_bytes"
  then have "x \<in> (\<Union>b\<in>B. blk b)" by (simp add: partition_def)
  then show ?thesis by blast
qed

text \<open>An address of one block's first word is no address of another block.\<close>

lemma touched_outside:
  assumes "heap_geom h" "partition B" "(x, k) \<in> B" "c \<in> B" "c \<noteq> (x, k)" "y \<in> blk c"
  shows "baddr h y \<notin> touched (baddr h x)"
proof
  assume "baddr h y \<in> touched (baddr h x)"
  then obtain i where i: "baddr h y = baddr h i" "i \<in> blk (x, k)"
    by (rule touched_in_blk)
  then have "y = i"
    using assms baddr_inj blk_in_region by metis
  then show False using partition_disjoint [OF assms(2,4,3,5)] i(2) assms(6) by blast
qed

lemma touched_disjoint:
  assumes "heap_geom h" "partition B" "(x, k) \<in> B" "(y, j) \<in> B" "(x, k) \<noteq> (y, j)"
  shows "touched (baddr h y) \<inter> touched (baddr h x) = {}"
proof -
  have False if t: "b \<in> touched (baddr h y)" "b \<in> touched (baddr h x)" for b
  proof -
    obtain i where "b = baddr h i" "i \<in> blk (y, j)"
      using t(1) by (rule touched_in_blk)
    then show False using touched_outside [OF assms(1-4)] assms(5) t(2) by metis
  qed
  then show ?thesis by blast
qed

section \<open>Steps that keep the correspondence\<close>

lemma heap_coreD:
  assumes "heap_core h fl A"
  shows "heap_geom h" "distinct (fl k)" "free_set fl \<inter> A = {}" "partition (free_set fl \<union> A)"
    "k < ALLOC_ORDERS \<Longrightarrow> chain (kmem h) (free_blocks h k) (map (baddr h) (fl k))"
  using assms by (simp_all add: heap_core_def)

lemma free_order: "heap_core h fl A \<Longrightarrow> off \<in> set (fl k) \<Longrightarrow> k < ALLOC_ORDERS"
  using partition_aligned [of "free_set fl \<union> A" "(off, k)"]
  by (auto simp: heap_core_def free_set_def aligned_def ALLOC_ORDERS_def)

lemma used_order: "heap_core h fl A \<Longrightarrow> (off, k) \<in> A \<Longrightarrow> k < ALLOC_ORDERS"
  using partition_aligned [of "free_set fl \<union> A" "(off, k)"]
  by (auto simp: heap_core_def aligned_def ALLOC_ORDERS_def)

lemma core_bound:
  "heap_core h fl A \<Longrightarrow> (off, k) \<in> free_set fl \<union> A \<Longrightarrow> off + bsize k \<le> heap_bytes"
  by (rule partition_bound) (auto simp: heap_core_def)

lemma core_off: "heap_core h fl A \<Longrightarrow> (off, k) \<in> free_set fl \<union> A \<Longrightarrow> off < heap_bytes"
  using core_bound [of h fl A off k] bsize_ge16 [of k] by linarith

text \<open>Writing inside blocks that are not free.\<close>

lemma core_write:
  assumes c: "heap_core h fl A"
    and m: "\<And>x. x < heap_bytes \<Longrightarrow> (\<And>b. b \<in> A \<Longrightarrow> x \<notin> blk b) \<Longrightarrow>
      m' (baddr h x) = kmem h (baddr h x)"
  shows "heap_core (h\<lparr>kmem := m'\<rparr>) fl A"
proof -
  have "chain m' (free_blocks h k) (map (baddr h) (fl k))" if k: "k < ALLOC_ORDERS" for k
  proof -
    have "m' b = kmem h b" if t: "off \<in> set (fl k)" "b \<in> touched (baddr h off)" for off b
    proof -
      have in_f: "(off, k) \<in> free_set fl" using t by (simp add: free_set_def)
      obtain i where i: "b = baddr h i" "i \<in> blk (off, k)"
        using t(2) by (rule touched_in_blk)
      have "i \<notin> blk d" if "d \<in> A" for d
        using partition_disjoint [OF heap_coreD(4) [OF c], of "(off, k)" d] in_f that i(2)
          heap_coreD(3) [OF c] by blast
      moreover have "i < heap_bytes"
        using blk_in_region [OF heap_coreD(4) [OF c]] in_f i(2) by blast
      ultimately show ?thesis using m i(1) by blast
    qed
    then have "chain m' (free_blocks h k) (map (baddr h) (fl k)) =
      chain (kmem h) (free_blocks h k) (map (baddr h) (fl k))"
      by (intro chain_cong) auto
    then show ?thesis using heap_coreD(5) [OF c k] by simp
  qed
  then show ?thesis using c by (simp add: heap_core_def heap_geom_def)
qed

lemma free_set_upd: "free_set (fl(k := xs)) = {(off, j). if j = k then off \<in> set xs else off \<in> set (fl j)}"
  by (auto simp: free_set_def)

lemma free_set_push: "free_set (fl(k := off # fl k)) = insert (off, k) (free_set fl)"
  by (auto simp: free_set_def split: if_splits)

lemma free_set_drop:
  assumes "fl k = xs @ y # ys" "distinct (fl k)"
  shows "free_set (fl(k := xs @ ys)) = free_set fl - {(y, k)}" "(y, k) \<in> free_set fl"
  using assms by (auto simp: free_set_def split: if_splits)

text \<open>Taking the first block off a list.\<close>

lemma core_pop:
  assumes c: "heap_core h fl A" and f: "fl k = x # xs"
  shows "heap_core (h\<lparr>free_blocks := (free_blocks h)(k := ld32 (kmem h) (free_blocks h k))\<rparr>)
    (fl(k := xs)) (insert (x, k) A)"
    and "free_blocks h k = baddr h x"
    and "free_set (fl(k := xs)) = free_set fl - {(x, k)}"
    and "(x, k) \<in> free_set fl"
proof -
  have k: "k < ALLOC_ORDERS" using free_order [OF c, of x k] f by simp
  have ch: "chain (kmem h) (free_blocks h k) (map (baddr h) (fl k))"
    by (rule heap_coreD(5) [OF c k])
  show hd: "free_blocks h k = baddr h x" using ch f by simp
  show fs: "free_set (fl(k := xs)) = free_set fl - {(x, k)}" and mem: "(x, k) \<in> free_set fl"
    using free_set_drop [of fl k "[]" x xs] f heap_coreD(2) [OF c, of k] by simp_all
  have "free_set fl - {(x, k)} \<union> insert (x, k) A = free_set fl \<union> A" using mem by blast
  then show "heap_core (h\<lparr>free_blocks := (free_blocks h)(k := ld32 (kmem h) (free_blocks h k))\<rparr>)
    (fl(k := xs)) (insert (x, k) A)"
    using c f ch fs heap_coreD(2) [OF c, of k]
    by (auto simp: heap_core_def heap_geom_def)
qed

text \<open>Putting a block that is not free at the head of its list.\<close>

lemma core_push:
  assumes c: "heap_core h fl A" and b: "(off, k) \<in> A"
  shows "heap_core (push_free h k (baddr h off)) (fl(k := off # fl k)) (A - {(off, k)})"
    and "same_bytes h (push_free h k (baddr h off)) (A - {(off, k)})"
proof -
  let ?m = "st32 (kmem h) (baddr h off) (free_blocks h k)"
  have k: "k < ALLOC_ORDERS" by (rule used_order [OF c b])
  note p = heap_coreD(4) [OF c] and g = heap_coreD(1) [OF c]
  have out: "?m (baddr h x) = kmem h (baddr h x)" if "d \<in> free_set fl \<union> A" "d \<noteq> (off, k)" "x \<in> blk d"
    for x d using touched_outside [OF g p _ that(1,2,3)] b by (simp add: st32_other)
  have w: "heap_core (h\<lparr>kmem := ?m\<rparr>) fl A"
  proof (rule core_write [OF c])
    fix x assume x: "x < heap_bytes" "\<And>d. d \<in> A \<Longrightarrow> x \<notin> blk d"
    then obtain d where "d \<in> free_set fl \<union> A" "x \<in> blk d"
      using heap_cover [OF p x(1)] by blast
    moreover have "d \<noteq> (off, k)" using x(2) b calculation(2) by blast
    ultimately show "?m (baddr h x) = kmem h (baddr h x)" using out by blast
  qed
  let ?fl = "fl(k := off # fl k)"
  have new: "off \<notin> set (fl k)" using heap_coreD(3) [OF c] b by (auto simp: free_set_def)
  have part: "free_set ?fl \<union> (A - {(off, k)}) = free_set fl \<union> A" "free_set ?fl \<inter> (A - {(off, k)}) = {}"
    using b heap_coreD(3) [OF c] by (auto simp: free_set_push)
  have nz: "baddr h off \<noteq> 0"
    using baddr_nonzero [OF g core_off [OF c, of off k]] b by simp
  have ch: "chain ?m (((free_blocks h)(k := baddr h off)) j) (map (baddr h) (?fl j))"
    if "j < ALLOC_ORDERS" for j
    using heap_coreD(5) [OF w that] heap_coreD(5) [OF w k] nz by (cases "j = k") simp_all
  show "heap_core (push_free h k (baddr h off)) ?fl (A - {(off, k)})"
    unfolding heap_core_def part
    using ch g heap_coreD(2) [OF c] new p
    by (simp add: push_free_def heap_geom_def)
  show "same_bytes h (push_free h k (baddr h off)) (A - {(off, k)})"
    using out by (auto simp: same_bytes_def push_free_def)
qed

text \<open>Unlinking a block from the middle of its list.\<close>

definition link_to :: "k_heap \<Rightarrow> nat \<Rightarrow> nat list \<Rightarrow> link" where
  "link_to h k us = (if us = [] then Head k else Next (baddr h (last us)))"

lemma core_unlink:
  assumes c: "heap_core h fl A" and f: "fl k = us @ y # ys"
  defines "h' \<equiv> write_link h (link_to h k us) (ld32 (kmem h) (baddr h y))"
  shows "heap_core h' (fl(k := us @ ys)) (insert (y, k) A)" and "same_bytes h h' A"
    and "free_set (fl(k := us @ ys)) = free_set fl - {(y, k)}" and "(y, k) \<in> free_set fl"
proof -
  note p = heap_coreD(4) [OF c] and g = heap_coreD(1) [OF c] and d = heap_coreD(2) [OF c, of k]
  show fs: "free_set (fl(k := us @ ys)) = free_set fl - {(y, k)}" and mem: "(y, k) \<in> free_set fl"
    using free_set_drop [of fl k us y ys] f d by simp_all
  have k: "k < ALLOC_ORDERS" using free_order [OF c, of y k] f by simp
  have "heap_core h' (fl(k := us @ ys)) (insert (y, k) A) \<and> same_bytes h h' A"
  proof (cases "us = []")
    case True
    then show ?thesis
      using core_pop(1,2) [OF c, of k y ys] f
      by (simp add: h'_def link_to_def write_link_def same_bytes_def)
  next
    case False
    then obtain vs z where us: "us = vs @ [z]" by (metis append_butlast_last_id)
    let ?m = "st32 (kmem h) (baddr h z) (ld32 (kmem h) (baddr h y))"
    have h': "h' = h\<lparr>kmem := ?m\<rparr>" by (simp add: h'_def link_to_def write_link_def us)
    have zf: "(z, k) \<in> free_set fl" using f us by (simp add: free_set_def)
    have dj: "touched (baddr h x) \<inter> touched (baddr h z) = {}" if "x \<in> set (fl j)" "(x, j) \<noteq> (z, k)"
      for x j using touched_disjoint [OF g p, of z k x j] that zf by (auto simp: free_set_def)
    have ch: "chain ?m (free_blocks h j) (map (baddr h) ((fl(k := us @ ys)) j))"
      if j: "j < ALLOC_ORDERS" for j
    proof (cases "j = k")
      case True
      have "touched x \<inter> touched (baddr h z) = {}" if "x \<in> set (map (baddr h) vs @ map (baddr h) ys)" for x
        using dj [of _ k] that d f us by auto
      then have "chain ?m (free_blocks h k) (map (baddr h) vs @ baddr h z # map (baddr h) ys)"
        using chain_unlink [of "kmem h" "free_blocks h k" "map (baddr h) vs" "baddr h z" "baddr h y"
            "map (baddr h) ys"] heap_coreD(5) [OF c k] f us by simp
      then show ?thesis using True us by simp
    next
      case False
      have "?m b = kmem h b" if "x \<in> set (fl j)" "b \<in> touched (baddr h x)" for x b
        using dj [OF that(1)] False that(2) by (intro st32_other) blast
      then have "chain ?m (free_blocks h j) (map (baddr h) (fl j)) =
        chain (kmem h) (free_blocks h j) (map (baddr h) (fl j))"
        by (intro chain_cong) auto
      then show ?thesis using False heap_coreD(5) [OF c j] by simp
    qed
    have "free_set fl - {(y, k)} \<union> insert (y, k) A = free_set fl \<union> A" using mem by blast
    moreover have "(free_set fl - {(y, k)}) \<inter> insert (y, k) A = {}" using heap_coreD(3) [OF c] by blast
    ultimately have core: "heap_core h' (fl(k := us @ ys)) (insert (y, k) A)"
      unfolding heap_core_def fs h' using ch g p heap_coreD(2) [OF c] d f
      by (simp add: heap_geom_def)
    have "?m (baddr h x) = kmem h (baddr h x)" if "b \<in> A" "x \<in> blk b" for b x
    proof (rule st32_other)
      have "b \<noteq> (z, k)" using heap_coreD(3) [OF c] that(1) zf by blast
      then show "baddr h x \<notin> touched (baddr h z)"
        using touched_outside [OF g p, of z k b x] zf that by blast
    qed
    then show ?thesis using core by (simp add: same_bytes_def h')
  qed
  then show "heap_core h' (fl(k := us @ ys)) (insert (y, k) A)" "same_bytes h h' A" by simp_all
qed

text \<open>Replacing blocks that are not free by their halves or their union.\<close>

lemma Int_Diff_empty: "F \<inter> A = {} \<Longrightarrow> F \<inter> (A - X) = {}"
  by blast

lemma core_split:
  assumes c: "heap_core h fl A" and b: "(off, Suc k) \<in> A"
  shows "heap_core h fl (insert (off, k) (insert (off + bsize k, k) (A - {(off, Suc k)})))"
    and "(off, k) \<notin> free_set fl \<union> A" and "(off + bsize k, k) \<notin> free_set fl \<union> A"
proof -
  note sp = partition_split [OF heap_coreD(4) [OF c], of off k]
  show n: "(off, k) \<notin> free_set fl \<union> A" "(off + bsize k, k) \<notin> free_set fl \<union> A"
    using sp(2,3) b by blast+
  have "free_set fl \<union> insert (off, k) (insert (off + bsize k, k) (A - {(off, Suc k)})) =
    insert (off, k) (insert (off + bsize k, k) (free_set fl \<union> A - {(off, Suc k)}))"
    using b heap_coreD(3) [OF c] by blast
  then show "heap_core h fl (insert (off, k) (insert (off + bsize k, k) (A - {(off, Suc k)})))"
    using c sp(1) b n Int_Diff_empty [OF heap_coreD(3) [OF c]] unfolding heap_core_def by simp
qed

lemma core_merge:
  assumes c: "heap_core h fl A" and l: "(off, k) \<in> A" and r: "(off + bsize k, k) \<in> A"
    and al: "aligned (off, Suc k)"
  shows "heap_core h fl (insert (off, Suc k) (A - {(off, k), (off + bsize k, k)}))"
    and "(off, Suc k) \<notin> free_set fl \<union> A"
proof -
  note p = heap_coreD(4) [OF c]
  show n: "(off, Suc k) \<notin> free_set fl \<union> A"
    using partition_same_off [OF p, of off k "Suc k"] l by auto
  have "free_set fl \<union> insert (off, Suc k) (A - {(off, k), (off + bsize k, k)}) =
    insert (off, Suc k) (free_set fl \<union> A - {(off, k), (off + bsize k, k)})"
    using l r heap_coreD(3) [OF c] by blast
  then show "heap_core h fl (insert (off, Suc k) (A - {(off, k), (off + bsize k, k)}))"
    using c partition_merge [OF p _ _ al] l r n Int_Diff_empty [OF heap_coreD(3) [OF c]]
    unfolding heap_core_def by simp
qed

section \<open>Free buddies\<close>

lemma no_free_buddies_subset: "no_free_buddies F \<Longrightarrow> G \<subseteq> F \<Longrightarrow> no_free_buddies G"
  unfolding no_free_buddies_def by blast

lemma no_free_buddies_insert:
  assumes "no_free_buddies F" "\<And>x j. (x, j) \<in> F \<Longrightarrow> aligned (x, j)" "aligned (off, k)"
    and "k < 18 \<Longrightarrow> (buddy off k, k) \<notin> F"
  shows "no_free_buddies (insert (off, k) F)"
proof -
  have "(buddy x j, j) \<noteq> (off, k)" if "(x, j) \<in> F" "j < 18" for x j
    using assms(2) [OF that(1)] assms(4) that buddy_invol [of j x] by (auto simp: aligned_def)
  moreover have "buddy off k \<noteq> off" using assms(3) buddy_neq by (simp add: aligned_def)
  ultimately show ?thesis using assms(1,4) by (auto simp: no_free_buddies_def)
qed

lemma core_free_aligned: "heap_core h fl A \<Longrightarrow> (x, j) \<in> free_set fl \<Longrightarrow> aligned (x, j)"
  by (rule partition_aligned [of "free_set fl \<union> A"]) (auto simp: heap_core_def)

lemma core_used_aligned: "heap_core h fl A \<Longrightarrow> (x, j) \<in> A \<Longrightarrow> aligned (x, j)"
  by (rule partition_aligned [of "free_set fl \<union> A"]) (auto simp: heap_core_def)

lemma buddy_addr_baddr:
  assumes "aligned (off, k)" "off + bsize k \<le> heap_bytes" "k < 18"
  shows "buddy_addr h (baddr h off) k = baddr h (buddy off k)"
proof -
  have dvd: "bsize k dvd off" using assms(1) by (simp add: aligned_def)
  have lt: "off < heap_bytes" using assms(2) bsize_ge16 [of k] by linarith
  have "unat ((of_nat off :: u32) XOR size_for_order k) = off XOR bsize k"
    using assms(3) lt by (simp add: unsigned_xor_eq unat_of_nat_small unat_size_for_order)
  also have "\<dots> = buddy off k" by (rule buddy_xor [OF dvd])
  finally have "(of_nat off :: u32) XOR size_for_order k = of_nat (buddy off k)"
    using buddy_in_region [OF assms(1,3,2)] bsize_ge16 [of k]
    by (intro unat_eq_imp) (simp add: unat_of_nat_small)
  then show ?thesis by (simp add: buddy_addr_def baddr_def)
qed

section \<open>The merging loop of kheap_free\<close>

lemma merge_stop:
  assumes "heap_core h fl A" "(off, k) \<in> A" "k < 18" "(buddy off k, k) \<notin> free_set fl"
  shows "merge_loop h (baddr h off) k = Inr (h, baddr h off, k)"
proof -
  note c = assms(1) and g = heap_coreD(1) [OF assms(1)]
  have al: "aligned (off, k)" by (rule core_used_aligned [OF c assms(2)])
  have bd: "off + bsize k \<le> heap_bytes" using core_bound [OF c] assms(2) by blast
  have k: "k < ALLOC_ORDERS" using assms(3) by (simp add: ALLOC_ORDERS_def)
  have ba: "buddy_addr h (baddr h off) k = baddr h (buddy off k)"
    by (rule buddy_addr_baddr [OF al bd assms(3)])
  have lt: "buddy off k < heap_bytes"
    using buddy_in_region [OF al assms(3) bd] bsize_ge16 [of k] by linarith
  have "baddr h (buddy off k) \<notin> set (map (baddr h) (fl k))"
  proof
    assume "baddr h (buddy off k) \<in> set (map (baddr h) (fl k))"
    then obtain x where x: "x \<in> set (fl k)" "baddr h (buddy off k) = baddr h x" by auto
    then have "x < heap_bytes" using core_off [OF c, of x k] by (simp add: free_set_def)
    then show False using x assms(4) baddr_inj [OF g lt] by (auto simp: free_set_def)
  qed
  then show ?thesis
    using find_block_miss [OF heap_coreD(5) [OF c k]] assms(3)
    by (subst merge_loop.simps) (simp add: ba ALLOC_ORDERS_def)
qed

lemma merge_step:
  assumes c: "heap_core h fl A" and b: "(off, k) \<in> A" and k18: "k < 18"
    and free: "(buddy off k, k) \<in> free_set fl"
  obtains h1 fl1 where
    "merge_loop h (baddr h off) k = merge_loop h1 (baddr h1 (min off (buddy off k))) (Suc k)"
    "heap_core h1 fl1 (insert (min off (buddy off k), Suc k) (A - {(off, k)}))"
    "free_set fl1 = free_set fl - {(buddy off k, k)}" "same_bytes h h1 A"
    "(min off (buddy off k), Suc k) \<notin> A"
proof -
  let ?y = "buddy off k" and ?m = "min off (buddy off k)"
  note g = heap_coreD(1) [OF c]
  have al: "aligned (off, k)" by (rule core_used_aligned [OF c b])
  have bd: "off + bsize k \<le> heap_bytes" using core_bound [OF c] b by blast
  have k: "k < ALLOC_ORDERS" using k18 by (simp add: ALLOC_ORDERS_def)
  have lt: "off < heap_bytes" "?y < heap_bytes"
    using core_off [OF c] b free by blast+
  have ba: "buddy_addr h (baddr h off) k = baddr h ?y"
    by (rule buddy_addr_baddr [OF al bd k18])
  obtain us ys where f: "fl k = us @ ?y # ys" "?y \<notin> set us"
    using free split_list_first [of ?y "fl k"] by (auto simp: free_set_def)
  have "x < heap_bytes" if "x \<in> set us" for x
    using core_off [OF c, of x k] that f(1) by (simp add: free_set_def)
  then have "baddr h ?y \<notin> set (map (baddr h) us)"
    using f(2) baddr_inj [OF g lt(2)] by auto
  then have fb: "find_block (kmem h) (free_blocks h k) (Head k) (baddr h ?y) = Some (Some (link_to h k us))"
    using find_block_hit [of "kmem h" "free_blocks h k" "map (baddr h) us" "baddr h ?y"
        "map (baddr h) ys" "Head k"] heap_coreD(5) [OF c k] f(1)
    by (simp add: link_to_def last_map)
  define h1 where "h1 = write_link h (link_to h k us) (ld32 (kmem h) (baddr h ?y))"
  note u = core_unlink [OF c f(1), folded h1_def]
  have st: "heap_start h1 = heap_start h" using u(2) by (simp add: same_bytes_def)
  have lt_iff: "baddr h ?y < baddr h off \<longleftrightarrow> ?y < off"
    using lt by (simp add: word_less_nat_alt unat_baddr [OF g])
  have "merge_loop h (baddr h off) k = merge_loop h1 (baddr h1 ?m) (Suc k)"
    using k18 fb lt_iff
    by (subst merge_loop.simps)
       (simp add: ba ALLOC_ORDERS_def h1_def [symmetric] baddr_cong [OF st] min_def)
  moreover have pair: "{(off, k), (?y, k)} = {(?m, k), (?m + bsize k, k)}"
    using al by (intro buddy_pair) (simp add: aligned_def)
  have "{(?m, k), (?m + bsize k, k)} \<subseteq> insert (?y, k) A"
    unfolding pair [symmetric] using b by blast
  then have "(?m, k) \<in> insert (?y, k) A" "(?m + bsize k, k) \<in> insert (?y, k) A"
    by (simp_all only: insert_subset)
  note mg = core_merge [OF u(1) this buddy_min_aligned [OF al k18]]
  have "insert (?y, k) A - {(?m, k), (?m + bsize k, k)} = A - {(off, k)}"
    using pair [symmetric] heap_coreD(3) [OF c] free by auto
  then have "heap_core h1 (fl(k := us @ ys)) (insert (?m, Suc k) (A - {(off, k)}))"
    using mg(1) by simp
  ultimately show ?thesis using that u(2,3) mg(2) by blast
qed

lemma merge_loop_ok:
  assumes "heap_core h fl A" "(off, k) \<in> A" "no_free_buddies (free_set fl)"
  shows "\<exists>h' fl' off' k'. merge_loop h (baddr h off) k = Inr (h', baddr h' off', k') \<and>
    heap_core h' fl' (insert (off', k') (A - {(off, k)})) \<and> (off', k') \<notin> A - {(off, k)} \<and>
    same_bytes h h' (A - {(off, k)}) \<and> no_free_buddies (insert (off', k') (free_set fl')) \<and>
    k' < ALLOC_ORDERS"
  using assms
proof (induction "19 - k" arbitrary: h fl A off k rule: less_induct)
  case less
  have al: "aligned (off, k)" by (rule core_used_aligned [OF less.prems(1,2)])
  show ?case
  proof (cases "k < 18 \<and> (buddy off k, k) \<in> free_set fl")
    case False
    have "merge_loop h (baddr h off) k = Inr (h, baddr h off, k)"
      using False merge_stop [OF less.prems(1,2)]
      by (cases "k < 18") (auto simp: merge_loop.simps [of h _ k] ALLOC_ORDERS_def)
    moreover have "no_free_buddies (insert (off, k) (free_set fl))"
      by (rule no_free_buddies_insert [OF less.prems(3) core_free_aligned [OF less.prems(1)] al])
         (use False in auto)
    moreover have "insert (off, k) (A - {(off, k)}) = A" using less.prems(2) by blast
    moreover have "k < ALLOC_ORDERS" by (rule used_order [OF less.prems(1,2)])
    ultimately show ?thesis using less.prems(1) by (metis DiffD2 insertI1 same_bytes_refl)
  next
    case True
    let ?m = "min off (buddy off k)"
    obtain h1 fl1 where
      s: "merge_loop h (baddr h off) k = merge_loop h1 (baddr h1 ?m) (Suc k)"
        "heap_core h1 fl1 (insert (?m, Suc k) (A - {(off, k)}))"
        "free_set fl1 = free_set fl - {(buddy off k, k)}" "same_bytes h h1 A" "(?m, Suc k) \<notin> A"
      using merge_step [OF less.prems(1,2)] True by metis
    let ?A = "insert (?m, Suc k) (A - {(off, k)})"
    have lt: "19 - Suc k < 19 - k" using True by arith
    have nb: "no_free_buddies (free_set fl1)"
      using s(3) no_free_buddies_subset [OF less.prems(3)] by blast
    obtain h' fl' off' k' where
      r: "merge_loop h1 (baddr h1 ?m) (Suc k) = Inr (h', baddr h' off', k')"
        "heap_core h' fl' (insert (off', k') (?A - {(?m, Suc k)}))" "(off', k') \<notin> ?A - {(?m, Suc k)}"
        "same_bytes h1 h' (?A - {(?m, Suc k)})" "no_free_buddies (insert (off', k') (free_set fl'))"
        "k' < ALLOC_ORDERS"
      using less.hyps [OF lt s(2) insertI1 nb] by blast
    have A: "?A - {(?m, Suc k)} = A - {(off, k)}" using s(5) by blast
    have "same_bytes h h' (A - {(off, k)})"
      using same_bytes_trans [OF same_bytes_mono [OF s(4) Diff_subset] r(4) [unfolded A]] .
    then show ?thesis using s(1) r(1,5,6) r(2,3) [unfolded A] by auto
  qed
qed

section \<open>The splitting loop of kheap_alloc\<close>

lemma size_for_order_of_nat: "k < 19 \<Longrightarrow> size_for_order k = of_nat (bsize k)"
  by (intro unat_eq_imp)
     (use bsize_bound [of k] in \<open>simp add: unat_size_for_order unat_of_nat_small\<close>)

lemma split_step:
  assumes c: "heap_core h fl A" and b: "(off, Suc i) \<in> A" and nb: "no_free_buddies (free_set fl)"
  defines "h1 \<equiv> push_free h i (baddr h off + size_for_order i)"
  obtains fl1 where "heap_core h1 fl1 (insert (off, i) (A - {(off, Suc i)}))"
    "no_free_buddies (free_set fl1)" "same_bytes h h1 (A - {(off, Suc i)})"
    "(off, i) \<notin> A" "baddr h1 off = baddr h off"
proof -
  let ?r = "off + bsize i" and ?A = "insert (off, i) (A - {(off, Suc i)})"
  have i19: "i < 19" using used_order [OF c b] by (simp add: ALLOC_ORDERS_def)
  have addr: "baddr h off + size_for_order i = baddr h ?r"
    by (simp add: baddr_def size_for_order_of_nat [OF i19])
  note sp = core_split [OF c b]
  have "(?r, i) \<in> insert (off, i) (insert (?r, i) (A - {(off, Suc i)}))" by blast
  note pu = core_push [OF sp(1) this, folded addr, folded h1_def]
  have A: "insert (off, i) (insert (?r, i) (A - {(off, Suc i)})) - {(?r, i)} = ?A"
  proof -
    have "?r \<noteq> off" using bsize_ge16 [of i] by linarith
    then show ?thesis using sp(3) by auto
  qed
  have al: "aligned (off, Suc i)" by (rule core_used_aligned [OF c b])
  have "buddy ?r i = off"
  proof -
    have "bsize i dvd off" "buddy off i = ?r"
      using al by (auto simp: aligned_def bsize_Suc buddy_def intro: dvd_mult_right)
    then show ?thesis using buddy_invol by metis
  qed
  then have "no_free_buddies (insert (?r, i) (free_set fl))"
    using sp(2) aligned_split [OF al]
    by (intro no_free_buddies_insert [OF nb core_free_aligned [OF c]]) auto
  moreover have "same_bytes h h1 (A - {(off, Suc i)})"
    using pu(2) unfolding A by (rule same_bytes_mono) blast
  moreover have "baddr h1 off = baddr h off"
    using pu(2) by (simp add: same_bytes_def baddr_def)
  ultimately show ?thesis
    using that [of "fl(i := ?r # fl i)"] pu(1) sp(2) unfolding A free_set_push by blast
qed

lemma split_loop_ok:
  assumes "heap_core h fl A" "(off, i) \<in> A" "order \<le> i" "no_free_buddies (free_set fl)"
  shows "\<exists>fl'. heap_core (split_loop h (baddr h off) order i) fl' (insert (off, order) (A - {(off, i)})) \<and>
    no_free_buddies (free_set fl') \<and> (off, order) \<notin> A - {(off, i)} \<and>
    same_bytes h (split_loop h (baddr h off) order i) (A - {(off, i)})"
  using assms
proof (induction i arbitrary: h fl A)
  case 0
  then have "insert (off, order) (A - {(off, 0)}) = A" by auto
  then show ?case using 0 by (intro exI [of _ fl]) simp
next
  case (Suc i)
  show ?case
  proof (cases "order = Suc i")
    case True
    then have "insert (off, order) (A - {(off, Suc i)}) = A" using Suc.prems(2) by auto
    then show ?thesis using Suc.prems True by (intro exI [of _ fl]) simp
  next
    case False
    then have le: "order \<le> i" using Suc.prems(3) by simp
    let ?h1 = "push_free h i (baddr h off + size_for_order i)"
    let ?A = "insert (off, i) (A - {(off, Suc i)})"
    obtain fl1 where s: "heap_core ?h1 fl1 ?A" "no_free_buddies (free_set fl1)"
      "same_bytes h ?h1 (A - {(off, Suc i)})" "(off, i) \<notin> A" "baddr ?h1 off = baddr h off"
      using split_step [OF Suc.prems(1,2,4)] by metis
    have A: "?A - {(off, i)} = A - {(off, Suc i)}" using s(4) by blast
    have "split_loop h (baddr h off) order (Suc i) = split_loop ?h1 (baddr ?h1 off) order i"
      using le s(5) by simp
    then show ?thesis
      using Suc.IH [OF s(1) insertI1 le s(2), unfolded A] same_bytes_trans [OF s(3)] by metis
  qed
qed

section \<open>kheap_alloc\<close>

lemma first_available_Some:
  "first_available fb i = Some f \<Longrightarrow> i \<le> f \<and> f < ALLOC_ORDERS \<and> fb f \<noteq> 0"
proof (induction fb i rule: first_available.induct)
  case (1 fb i)
  show ?case
  proof (cases "i < ALLOC_ORDERS \<and> fb i = 0")
    case True
    then have "first_available fb (i + 1) = Some f"
      using "1.prems" by (simp add: first_available.simps [of fb i])
    then show ?thesis using True "1.IH" by fastforce
  next
    case False
    then show ?thesis
      using "1.prems" by (auto simp: first_available.simps [of fb i] split: if_splits)
  qed
qed

lemma first_available_None:
  "first_available fb i = None \<longleftrightarrow> (\<forall>k. i \<le> k \<and> k < ALLOC_ORDERS \<longrightarrow> fb k = 0)"
proof (induction fb i rule: first_available.induct)
  case (1 fb i)
  have "(\<forall>k. i \<le> k \<and> k < ALLOC_ORDERS \<longrightarrow> fb k = 0) \<longleftrightarrow>
    (i < ALLOC_ORDERS \<longrightarrow> fb i = 0) \<and> (\<forall>k. i + 1 \<le> k \<and> k < ALLOC_ORDERS \<longrightarrow> fb k = 0)"
  proof -
    have "i \<le> k \<longleftrightarrow> k = i \<or> i + 1 \<le> k" for k by arith
    then show ?thesis by auto
  qed
  then show ?case using 1 by (auto simp: first_available.simps [of fb i])
qed

lemma same_bytes_header:
  assumes "same_bytes h h' A" "headers_ok h A"
  shows "headers_ok h' A"
  unfolding headers_ok_def
proof clarify
  fix off k assume b: "(off, k) \<in> A"
  then have "kmem h' (baddr h off) = kmem h (baddr h off)"
    using assms(1) blk_self unfolding same_bytes_def by blast
  moreover have "baddr h' = baddr h" using assms(1) by (simp add: same_bytes_def baddr_def fun_eq_iff)
  ultimately show "kmem h' (baddr h' off) = of_nat k"
    using assms(2) b by (auto simp: headers_ok_def)
qed

text \<open>
  Allocation: the block taken is new, large enough for the size and the header byte, the
  pointer is just behind the header, and no byte of another block changes.
\<close>

lemma kheap_alloc_inv:
  assumes inv: "heap_inv h fl A" and ret: "kheap_alloc h sz = Inr (p, h')"
  obtains fl' off k where "heap_inv h' fl' (insert (off, k) A)" "(off, k) \<notin> A"
    "p = baddr h' off + 1" "unat sz < bsize k" "same_bytes h h' A"
proof -
  note c = inv [unfolded heap_inv_def, THEN conjunct1]
  note g = heap_coreD(1) [OF c]
  obtain r f where r: "order_for_size sz = Some r" and f: "first_available (free_blocks h) (unat r) = Some f"
    using ret by (auto simp: kheap_alloc_def Let_def split: if_splits option.splits)
  have fo: "unat r \<le> f" "f < ALLOC_ORDERS" "free_blocks h f \<noteq> 0"
    using first_available_Some [OF f] by auto
  obtain off xs where fl: "fl f = off # xs"
    using heap_coreD(5) [OF c fo(2)] fo(3) by (cases "fl f") auto
  note po = core_pop [OF c fl]
  let ?h1 = "h\<lparr>free_blocks := (free_blocks h)(f := ld32 (kmem h) (free_blocks h f))\<rparr>"
  let ?h2 = "split_loop ?h1 (baddr ?h1 off) (unat r) f"
  have A: "insert (off, f) A - {(off, f)} = A" using po(4) heap_coreD(3) [OF c] by blast
  have nb: "no_free_buddies (free_set (fl(f := xs)))"
    using inv po(3) by (auto simp: heap_inv_def intro: no_free_buddies_subset)
  obtain fl' where s: "heap_core ?h2 fl' (insert (off, unat r) A)" "no_free_buddies (free_set fl')"
    "(off, unat r) \<notin> A" "same_bytes ?h1 ?h2 A"
    using split_loop_ok [OF po(1) insertI1 fo(1) nb, unfolded A] by blast
  let ?h3 = "?h2\<lparr>kmem := (kmem ?h2)(baddr h off := r)\<rparr>"
  have eq: "h' = ?h3" "p = baddr h off + 1"
    using ret r f po(2) by (auto simp: kheap_alloc_def Let_def split: if_splits)
  have b2: "baddr ?h2 = baddr h" using s(4) by (simp add: same_bytes_def baddr_def fun_eq_iff)
  have lt: "off < heap_bytes" using core_off [OF c, of off f] po(4) by blast
  have core: "heap_core ?h3 fl' (insert (off, unat r) A)"
  proof (rule core_write [OF s(1)])
    fix x assume "x < heap_bytes" "\<And>b. b \<in> insert (off, unat r) A \<Longrightarrow> x \<notin> blk b"
    moreover then have "x \<noteq> off" using blk_self by blast
    ultimately show "((kmem ?h2)(baddr h off := r)) (baddr ?h2 x) = kmem ?h2 (baddr ?h2 x)"
      using b2 baddr_inj [OF g _ lt, of x] by simp
  qed
  have same: "same_bytes h h' A"
  proof -
    have "kmem ?h3 (baddr h x) = kmem h (baddr h x)" if "b \<in> A" "x \<in> blk b" for b x
    proof -
      have "b \<noteq> (off, unat r)" using that(1) s(3) by blast
      then have "x \<noteq> off"
        using partition_disjoint [OF heap_coreD(4) [OF s(1)], of b "(off, unat r)"] that blk_self
        by blast
      moreover have "x < heap_bytes"
        using blk_in_region [OF heap_coreD(4) [OF c]] that by blast
      moreover have "kmem ?h2 (baddr h x) = kmem h (baddr h x)"
        using s(4) that unfolding same_bytes_def by simp
      ultimately show ?thesis using baddr_inj [OF g _ lt, of x] by simp
    qed
    then show ?thesis using s(4) by (simp add: same_bytes_def eq(1))
  qed
  have "headers_ok h' A"
    using same_bytes_header [OF same] inv by (simp add: heap_inv_def)
  moreover have "kmem h' (baddr h' off) = of_nat (unat r)" using b2 by (simp add: eq(1))
  ultimately have "headers_ok h' (insert (off, unat r) A)" by (simp add: headers_ok_def)
  then have "heap_inv h' fl' (insert (off, unat r) A)"
    using core s(2) by (simp add: heap_inv_def eq(1))
  moreover have "unat sz < bsize (unat r)"
    using order_for_size_small [of sz] order_for_size_large [of sz] r
    by (metis not_le option.distinct(1) option.inject)
  ultimately show ?thesis
    using that s(3) same eq b2 by simp
qed

section \<open>kheap_free\<close>

lemma kheap_free_inv:
  assumes inv: "heap_inv h fl A" and b: "(off, k) \<in> A"
  obtains h' fl' where "kheap_free h (baddr h off + 1) = Inr h'" "heap_inv h' fl' (A - {(off, k)})"
    "same_bytes h h' (A - {(off, k)})"
proof -
  note c = inv [unfolded heap_inv_def, THEN conjunct1]
  note g = heap_coreD(1) [OF c]
  have k19: "k < 19" using used_order [OF c b] by (simp add: ALLOC_ORDERS_def)
  have bd: "off + bsize k \<le> heap_bytes" using core_bound [OF c] b by blast
  have "baddr h off + 1 = baddr h (off + 1)" by (simp add: baddr_def)
  then have nz: "baddr h off + 1 \<noteq> 0"
    using baddr_nonzero [OF g, of "off + 1"] bd bsize_ge16 [of k] by simp
  have hdr: "unat (kmem h (baddr h off)) = k"
    using inv b k19 by (auto simp: heap_inv_def headers_ok_def unat_of_nat8_small)
  obtain h1 fl1 off' k' where m: "merge_loop h (baddr h off) k = Inr (h1, baddr h1 off', k')"
    "heap_core h1 fl1 (insert (off', k') (A - {(off, k)}))" "(off', k') \<notin> A - {(off, k)}"
    "same_bytes h h1 (A - {(off, k)})" "no_free_buddies (insert (off', k') (free_set fl1))"
    "k' < ALLOC_ORDERS"
    using merge_loop_ok [OF c b] inv by (auto simp: heap_inv_def)
  let ?h' = "push_free h1 k' (baddr h1 off')"
  have A: "insert (off', k') (A - {(off, k)}) - {(off', k')} = A - {(off, k)}" using m(3) by blast
  note pu = core_push [OF m(2) insertI1, unfolded A]
  have same: "same_bytes h ?h' (A - {(off, k)})" by (rule same_bytes_trans [OF m(4) pu(2)])
  have "headers_ok h (A - {(off, k)})"
    using inv by (auto simp: heap_inv_def headers_ok_def)
  then have "headers_ok ?h' (A - {(off, k)})" by (rule same_bytes_header [OF same])
  then have "heap_inv ?h' (fl1(k' := off' # fl1 k')) (A - {(off, k)})"
    using pu(1) m(5) by (simp add: heap_inv_def free_set_push)
  moreover have "kheap_free h (baddr h off + 1) = Inr ?h'"
    using nz hdr m(1,6) by (simp add: kheap_free_def)
  ultimately show ?thesis using that same by blast
qed

end
