(* ===== verification/HeapRun.thy ===== *)
theory HeapRun
  imports HeapCorrect
begin

text \<open>
  The kernel heap as its callers see it: any sequence of allocations, frees of live pointers
  and writes into live allocations, from the state \<open>kheap_init\<close> leaves. The interface the
  rest of the kernel relies on is the locale \<open>allocator\<close>, interpreted on \<open>heap.c\<close>; the
  library's \<open>krealloc\<close> is proved correct inside it.
\<close>

section \<open>The interface of an allocator\<close>

text \<open>
  \<open>inv h A\<close>: \<open>h\<close> is a valid heap whose live blocks are \<open>A\<close>; \<open>ptr h b\<close> the pointer a block was
  handed out as, \<open>cap b\<close> how many bytes it has there.
\<close>

locale allocator =
  fixes alloc :: "'h \<Rightarrow> u32 \<Rightarrow> (u32 \<times> 'h) res"
    and dealloc :: "'h \<Rightarrow> u32 \<Rightarrow> 'h res"
    and mem :: "'h \<Rightarrow> bytes_mem"
    and put :: "bytes_mem \<Rightarrow> 'h \<Rightarrow> 'h"
    and inv :: "'h \<Rightarrow> 'b set \<Rightarrow> bool"
    and ptr :: "'h \<Rightarrow> 'b \<Rightarrow> u32"
    and cap :: "'b \<Rightarrow> nat"
  assumes mem_put: "mem (put m h) = m"
    and put_mem: "put (mem h) h = h"
    and put_put: "put m (put m' h) = put m h"
    and ptr_put: "ptr (put m h) = ptr h"
    and alloc_ok: "inv h A \<Longrightarrow> alloc h sz = Inr (p, h') \<Longrightarrow>
      \<exists>b. b \<notin> A \<and> inv h' (insert b A) \<and> p = ptr h' b \<and> unat sz \<le> cap b \<and> ptr h' = ptr h \<and>
        (\<forall>c\<in>A. \<forall>i<cap c. mem h' (ptr h c + of_nat i) = mem h (ptr h c + of_nat i))"
    and dealloc_ok: "inv h A \<Longrightarrow> b \<in> A \<Longrightarrow>
      \<exists>h'. dealloc h (ptr h b) = Inr h' \<and> inv h' (A - {b}) \<and> ptr h' = ptr h \<and>
        (\<forall>c\<in>A - {b}. \<forall>i<cap c. mem h' (ptr h c + of_nat i) = mem h (ptr h c + of_nat i))"
    and put_ok: "inv h A \<Longrightarrow> b \<in> A \<Longrightarrow> i < cap b \<Longrightarrow>
      inv (put ((mem h)(ptr h b + of_nat i := v)) h) A"
    and payload_disjoint: "inv h A \<Longrightarrow> b \<in> A \<Longrightarrow> c \<in> A \<Longrightarrow> b \<noteq> c \<Longrightarrow> i < cap b \<Longrightarrow> j < cap c \<Longrightarrow>
      ptr h b + of_nat i \<noteq> ptr h c + of_nat j"
    and payload_inj: "inv h A \<Longrightarrow> b \<in> A \<Longrightarrow> i < cap b \<Longrightarrow> j < cap b \<Longrightarrow>
      ptr h b + of_nat i = ptr h b + of_nat j \<Longrightarrow> i = j"

section \<open>stdmem.h over an allocator\<close>

text \<open>\<open>kmemcpy\<close> and \<open>kmemset\<close> of \<open>kernel/lib/src/stdmem.h\<close>, byte by byte and upwards.\<close>

fun kmemcpy :: "bytes_mem \<Rightarrow> u32 \<Rightarrow> u32 \<Rightarrow> nat \<Rightarrow> bytes_mem" where
  "kmemcpy m d s 0 = m"
| "kmemcpy m d s (Suc n) = kmemcpy (m(d := m s)) (d + 1) (s + 1) n"

fun kmemset :: "bytes_mem \<Rightarrow> u32 \<Rightarrow> u8 \<Rightarrow> nat \<Rightarrow> bytes_mem" where
  "kmemset m d v 0 = m"
| "kmemset m d v (Suc n) = kmemset (m(d := v)) (d + 1) v n"

text \<open>\<open>krealloc\<close>: a new block, the old contents copied, the old block freed.\<close>

definition krealloc_with ::
    "('h \<Rightarrow> u32 \<Rightarrow> (u32 \<times> 'h) res) \<Rightarrow> ('h \<Rightarrow> u32 \<Rightarrow> 'h res) \<Rightarrow> ('h \<Rightarrow> bytes_mem) \<Rightarrow>
     (bytes_mem \<Rightarrow> 'h \<Rightarrow> 'h) \<Rightarrow> 'h \<Rightarrow> u32 \<Rightarrow> u32 \<Rightarrow> u32 \<Rightarrow> (u32 \<times> 'h) res" where
  "krealloc_with alloc dealloc mem put h p old_size new_size =
     (case alloc h new_size of
        Inl e \<Rightarrow> Inl e
      | Inr (new_ptr, h1) \<Rightarrow>
          (case dealloc (put (kmemcpy (mem h1) new_ptr p (unat old_size)) h1) p of
             Inl e \<Rightarrow> Inl e
           | Inr h2 \<Rightarrow> Inr (new_ptr, h2)))"

lemma kmemcpy_other:
  "(\<And>i. i < n \<Longrightarrow> a \<noteq> d + of_nat i) \<Longrightarrow> kmemcpy m d s n a = m a"
proof (induction n arbitrary: m d s)
  case (Suc n)
  have "kmemcpy (m(d := m s)) (d + 1) (s + 1) n a = (m(d := m s)) a"
  proof (rule Suc.IH)
    fix i assume "i < n"
    then show "a \<noteq> d + 1 + of_nat i" using Suc.prems [of "Suc i"] by (simp add: algebra_simps)
  qed
  then show ?case using Suc.prems [of 0] by simp
qed simp

lemma kmemcpy_copies:
  assumes "\<And>i j. i < n \<Longrightarrow> j < n \<Longrightarrow> d + of_nat i \<noteq> s + of_nat j"
    and "\<And>i j. i < n \<Longrightarrow> j < n \<Longrightarrow> d + of_nat i = d + of_nat j \<Longrightarrow> i = j"
    and "i < n"
  shows "kmemcpy m d s n (d + of_nat i) = m (s + of_nat i)"
  using assms
proof (induction n arbitrary: m d s i)
  case (Suc n)
  show ?case
  proof (cases i)
    case 0
    have "kmemcpy (m(d := m s)) (d + 1) (s + 1) n d = (m(d := m s)) d"
    proof (rule kmemcpy_other)
      fix j assume "j < n"
      then show "d \<noteq> d + 1 + of_nat j"
        using Suc.prems(2) [of "Suc j" 0] by (auto simp: algebra_simps)
    qed
    then show ?thesis using 0 by simp
  next
    case (Suc i')
    have "kmemcpy (m(d := m s)) (d + 1) (s + 1) n (d + 1 + of_nat i') = (m(d := m s)) (s + 1 + of_nat i')"
    proof (rule Suc.IH)
      fix i j assume "i < n" "j < n"
      then show "d + 1 + of_nat i \<noteq> s + 1 + of_nat j"
        using Suc.prems(1) [of "Suc i" "Suc j"] by (simp add: algebra_simps)
    next
      fix i j assume "i < n" "j < n" "d + 1 + of_nat i = d + 1 + of_nat j"
      then show "i = j" using Suc.prems(2) [of "Suc i" "Suc j"] by (simp add: algebra_simps)
    next
      show "i' < n" using Suc Suc.prems(3) by simp
    qed
    moreover have "s + 1 + of_nat i' \<noteq> d"
      using Suc.prems(1) [of 0 i] Suc Suc.prems(3) by (auto simp: algebra_simps)
    ultimately show ?thesis using Suc by (simp add: algebra_simps)
  qed
qed simp

context allocator
begin

lemma put_copy_ok:
  assumes "inv h A" "b \<in> A" "k + n \<le> cap b"
  shows "inv (put (kmemcpy (mem h) (ptr h b + of_nat k) s n) h) A"
  using assms
proof (induction n arbitrary: h k s)
  case 0
  then show ?case by (simp add: put_mem)
next
  case (Suc n)
  let ?h = "put ((mem h)(ptr h b + of_nat k := mem h s)) h"
  have "inv ?h A" using Suc.prems by (intro put_ok) auto
  then have "inv (put (kmemcpy (mem ?h) (ptr ?h b + of_nat (Suc k)) (s + 1) n) ?h) A"
    using Suc.prems by (intro Suc.IH) auto
  then show ?case by (simp add: mem_put ptr_put put_put algebra_simps)
qed

text \<open>\<open>krealloc\<close> moves the contents to a block of the new size and frees the old one.\<close>

lemma krealloc_ok:
  assumes i: "inv h A" and b: "b \<in> A" and old: "unat old \<le> cap b" "unat old \<le> unat new"
    and ret: "krealloc_with alloc dealloc mem put h (ptr h b) old new = Inr (q, h')"
  shows "\<exists>c. c \<notin> A \<and> inv h' (insert c (A - {b})) \<and> q = ptr h' c \<and> unat new \<le> cap c \<and>
    (\<forall>k<unat old. mem h' (q + of_nat k) = mem h (ptr h b + of_nat k)) \<and>
    (\<forall>d\<in>A - {b}. \<forall>k<cap d. mem h' (ptr h d + of_nat k) = mem h (ptr h d + of_nat k)) \<and>
    ptr h' = ptr h"
proof -
  obtain h1 where al: "alloc h new = Inr (q, h1)"
    using ret by (auto simp: krealloc_with_def split: sum.splits)
  obtain c where c: "c \<notin> A" "inv h1 (insert c A)" "q = ptr h1 c" "unat new \<le> cap c" "ptr h1 = ptr h"
    "\<And>d k. d \<in> A \<Longrightarrow> k < cap d \<Longrightarrow> mem h1 (ptr h d + of_nat k) = mem h (ptr h d + of_nat k)"
    using alloc_ok [OF i al] by auto
  let ?m = "kmemcpy (mem h1) q (ptr h b) (unat old)" and ?h2 = "put (kmemcpy (mem h1) q (ptr h b) (unat old)) h1"
  have i2: "inv ?h2 (insert c A)"
    using put_copy_ok [OF c(2) insertI1, of 0 "unat old"] c(3,4) old by simp
  have pb: "ptr h b = ptr ?h2 b" by (simp add: ptr_put c(5))
  obtain h3 where d: "dealloc ?h2 (ptr h b) = Inr h3" "inv h3 (insert c A - {b})" "ptr h3 = ptr ?h2"
    "\<And>e k. e \<in> insert c A - {b} \<Longrightarrow> k < cap e \<Longrightarrow> mem h3 (ptr ?h2 e + of_nat k) = mem ?h2 (ptr ?h2 e + of_nat k)"
    using dealloc_ok [OF i2, of b] b pb by auto
  have h': "h' = h3" using ret al d(1) by (simp add: krealloc_with_def)
  have cb: "c \<noteq> b" "b \<in> insert c A" "c \<in> insert c A" using c(1) b by auto
  have dj: "q + of_nat k \<noteq> ptr h d + of_nat j" if "d \<in> A" "k < cap c" "j < cap d" for d k j
    using payload_disjoint [OF c(2), of c d k j] c(1,3,5) that by auto
  have copied: "?m (q + of_nat k) = mem h (ptr h b + of_nat k)" if k: "k < unat old" for k
  proof -
    have "?m (q + of_nat k) = mem h1 (ptr h b + of_nat k)"
    proof (rule kmemcpy_copies [OF _ _ k])
      fix i j assume "i < unat old" "j < unat old"
      then show "q + of_nat i \<noteq> ptr h b + of_nat j" using dj [OF b] c(4) old by simp
      assume "q + of_nat i = q + of_nat j"
      with \<open>i < unat old\<close> \<open>j < unat old\<close> show "i = j"
        using payload_inj [OF c(2) cb(3), of i j] c(3,4) old(2) by simp
    qed
    then show ?thesis using c(6) [OF b] k old(1) by simp
  qed
  have kept: "?m (ptr h d + of_nat k) = mem h (ptr h d + of_nat k)" if "d \<in> A" "k < cap d" for d k
  proof -
    have "?m (ptr h d + of_nat k) = mem h1 (ptr h d + of_nat k)"
      by (rule kmemcpy_other) (use dj [OF that(1) _ that(2)] c(4) old(2) in \<open>metis order.strict_trans2 order_trans\<close>)
    then show ?thesis using c(6) that by simp
  qed
  have "insert c A - {b} = insert c (A - {b})" using cb(1) by blast
  moreover have "mem h3 (q + of_nat k) = ?m (q + of_nat k)" if "k < unat old" for k
    using d(4) [of c k] cb(1) that c(3,4) old(2) by (simp add: ptr_put mem_put)
  moreover have "mem h3 (ptr h e + of_nat k) = mem h (ptr h e + of_nat k)" if "e \<in> A - {b}" "k < cap e" for e k
    using d(4) [of e k] kept [of e k] that by (simp add: ptr_put mem_put c(5) d(3))
  ultimately show ?thesis
    using c(1,3,4) d(2,3) copied by (intro exI [of _ c]) (simp add: h' ptr_put c(5))
qed

lemma krealloc_error:
  assumes "inv h A" "b \<in> A" "unat old \<le> cap b" "unat old \<le> unat new" "alloc h new = Inr r"
  shows "\<exists>r'. krealloc_with alloc dealloc mem put h (ptr h b) old new = Inr r'"
proof -
  obtain q h1 where al: "alloc h new = Inr (q, h1)" using assms(5) by (cases r) auto
  obtain c where c: "inv h1 (insert c A)" "q = ptr h1 c" "unat new \<le> cap c" "ptr h1 = ptr h"
    using alloc_ok [OF assms(1) al] by auto
  have "inv (put (kmemcpy (mem h1) q (ptr h b) (unat old)) h1) (insert c A)"
    using put_copy_ok [OF c(1) insertI1, of 0 "unat old"] c(2,3) assms(4) by simp
  then show ?thesis
    using dealloc_ok [of _ "insert c A" b] assms(2) al c(4)
    by (fastforce simp: krealloc_with_def ptr_put)
qed

end

section \<open>The kernel heap is an allocator\<close>

definition kheap_valid :: "k_heap \<Rightarrow> block set \<Rightarrow> bool" where
  "kheap_valid h A \<longleftrightarrow> (\<exists>fl. heap_inv h fl A)"

definition kheap_ptr :: "k_heap \<Rightarrow> block \<Rightarrow> u32" where
  "kheap_ptr h b = baddr h (fst b) + 1"

definition kheap_cap :: "block \<Rightarrow> nat" where
  "kheap_cap b = bsize (snd b) - 1"

lemma kheap_ptr_add: "kheap_ptr h b + of_nat i = baddr h (fst b + 1 + i)"
  by (simp add: kheap_ptr_def baddr_def)

lemma payload_in_blk: "i < kheap_cap b \<Longrightarrow> fst b + 1 + i \<in> blk b"
  by (auto simp: kheap_cap_def blk_def)

lemma kheap_validD:
  assumes "kheap_valid h A"
  obtains fl where "heap_inv h fl A" "heap_core h fl A" "heap_geom h" "partition (free_set fl \<union> A)"
  using assms heap_coreD by (auto simp: kheap_valid_def heap_inv_def)

lemma kheap_payload_neq:
  assumes v: "kheap_valid h A" and bc: "b \<in> A" "c \<in> A" and ij: "i < kheap_cap b" "j < kheap_cap c"
    and eq: "kheap_ptr h b + of_nat i = kheap_ptr h c + of_nat j"
  shows "b = c \<and> i = j"
proof -
  obtain fl where fl: "heap_core h fl A" "heap_geom h" "partition (free_set fl \<union> A)"
    using v by (rule kheap_validD)
  have x: "fst b + 1 + i \<in> blk b" "fst c + 1 + j \<in> blk c" using payload_in_blk ij by blast+
  then have "fst b + 1 + i < heap_bytes" "fst c + 1 + j < heap_bytes"
    using blk_in_region [OF fl(3)] bc by blast+
  then have e: "fst b + 1 + i = fst c + 1 + j"
    using eq baddr_inj [OF fl(2)] by (simp only: kheap_ptr_add)
  then have "b = c" using partition_disjoint [OF fl(3), of b c] bc x by auto
  then show ?thesis using e by simp
qed

lemma kheap_same_payload:
  assumes "same_bytes h h' A" "c \<in> A" "i < kheap_cap c"
  shows "kmem h' (kheap_ptr h c + of_nat i) = kmem h (kheap_ptr h c + of_nat i)"
  using assms(1,2) payload_in_blk [OF assms(3)] unfolding kheap_ptr_add same_bytes_def by blast

interpretation kheap: allocator kheap_alloc kheap_free kmem "\<lambda>m h. h\<lparr>kmem := m\<rparr>" kheap_valid kheap_ptr kheap_cap
proof
  show "kmem (h\<lparr>kmem := m\<rparr>) = m" for m h by simp
  show "h\<lparr>kmem := kmem h\<rparr> = h" for h :: k_heap by simp
  show "h\<lparr>kmem := m', kmem := m\<rparr> = h\<lparr>kmem := m\<rparr>" for m m' and h :: k_heap by simp
  show "kheap_ptr (h\<lparr>kmem := m\<rparr>) = kheap_ptr h" for m h by (simp add: kheap_ptr_def fun_eq_iff)
next
  fix h A sz p h'
  assume v: "kheap_valid h A" and ret: "kheap_alloc h sz = Inr (p, h')"
  obtain fl where "heap_inv h fl A" using v by (auto simp: kheap_valid_def)
  then obtain fl' off k where r: "heap_inv h' fl' (insert (off, k) A)" "(off, k) \<notin> A"
    "p = baddr h' off + 1" "unat sz < bsize k" "same_bytes h h' A"
    using ret by (rule kheap_alloc_inv)
  have bh: "baddr h' = baddr h" using r(5) by (simp add: same_bytes_def baddr_def fun_eq_iff)
  then have "kheap_ptr h' = kheap_ptr h" by (simp add: kheap_ptr_def fun_eq_iff)
  then show "\<exists>b. b \<notin> A \<and> kheap_valid h' (insert b A) \<and> p = kheap_ptr h' b \<and> unat sz \<le> kheap_cap b \<and>
    kheap_ptr h' = kheap_ptr h \<and>
    (\<forall>c\<in>A. \<forall>i<kheap_cap c. kmem h' (kheap_ptr h c + of_nat i) = kmem h (kheap_ptr h c + of_nat i))"
    using r bh kheap_same_payload [OF r(5)]
    by (intro exI [of _ "(off, k)"]) (auto simp: kheap_valid_def kheap_ptr_def kheap_cap_def)
next
  fix h A and b :: block
  assume v: "kheap_valid h A" and b: "b \<in> A"
  obtain fl where inv: "heap_inv h fl A" using v by (auto simp: kheap_valid_def)
  obtain off k where bk: "b = (off, k)" by force
  obtain h' fl' where r: "kheap_free h (baddr h off + 1) = Inr h'" "heap_inv h' fl' (A - {(off, k)})"
    "same_bytes h h' (A - {(off, k)})"
    using kheap_free_inv [OF inv, of off k] b bk by metis
  have "kheap_ptr h' = kheap_ptr h"
    using r(3) by (simp add: same_bytes_def kheap_ptr_def baddr_def fun_eq_iff)
  then show "\<exists>h'. kheap_free h (kheap_ptr h b) = Inr h' \<and> kheap_valid h' (A - {b}) \<and>
    kheap_ptr h' = kheap_ptr h \<and>
    (\<forall>c\<in>A - {b}. \<forall>i<kheap_cap c. kmem h' (kheap_ptr h c + of_nat i) = kmem h (kheap_ptr h c + of_nat i))"
    using r kheap_same_payload [OF r(3)] bk
    by (intro exI [of _ h']) (auto simp: kheap_valid_def kheap_ptr_def)
next
  fix h A b i v
  assume val: "kheap_valid h A" and b: "b \<in> A" and i: "i < kheap_cap b"
  obtain fl where fl: "heap_inv h fl A" "heap_core h fl A" "heap_geom h" "partition (free_set fl \<union> A)"
    using val by (rule kheap_validD)
  let ?x = "fst b + 1 + i" and ?m = "(kmem h)(kheap_ptr h b + of_nat i := v)"
  have x: "?x \<in> blk b" "?x < heap_bytes"
    using payload_in_blk [OF i] blk_in_region [OF fl(4)] b by blast+
  have core: "heap_core (h\<lparr>kmem := ?m\<rparr>) fl A"
  proof (rule core_write [OF fl(2)])
    fix y assume "y < heap_bytes" "\<And>c. c \<in> A \<Longrightarrow> y \<notin> blk c"
    then have "y < heap_bytes" "y \<noteq> ?x" using x(1) b by blast+
    then show "?m (baddr h y) = kmem h (baddr h y)"
      using baddr_inj [OF fl(3) _ x(2), of y] unfolding kheap_ptr_add by simp
  qed
  have "kmem (h\<lparr>kmem := ?m\<rparr>) (baddr h off) = kmem h (baddr h off)" if "(off, k) \<in> A" for off k
  proof -
    have "off \<noteq> ?x"
    proof
      assume "off = ?x"
      then have "off \<in> blk b" using x(1) by simp
      then have "blk b \<inter> blk (off, k) \<noteq> {}" using blk_self by blast
      then have "b = (off, k)" using partition_disjoint [OF fl(4), of b "(off, k)"] that b by blast
      with \<open>off = ?x\<close> show False by simp
    qed
    moreover have "off < heap_bytes" using core_off [OF fl(2)] that by blast
    ultimately show ?thesis using baddr_inj [OF fl(3) _ x(2), of off] unfolding kheap_ptr_add by simp
  qed
  then have "headers_ok (h\<lparr>kmem := ?m\<rparr>) A"
    using fl(1) by (force simp: heap_inv_def headers_ok_def)
  then show "kheap_valid (h\<lparr>kmem := ?m\<rparr>) A"
    using core fl(1) by (auto simp: kheap_valid_def heap_inv_def)
next
  fix h A b c i j
  assume "kheap_valid h A" "b \<in> A" "c \<in> A" "b \<noteq> c" "i < kheap_cap b" "j < kheap_cap c"
  then show "kheap_ptr h b + of_nat i \<noteq> kheap_ptr h c + of_nat j" using kheap_payload_neq by blast
next
  fix h A b i j
  assume "kheap_valid h A" "b \<in> A" "i < kheap_cap b" "j < kheap_cap b"
    "kheap_ptr h b + of_nat i = kheap_ptr h b + of_nat j"
  then show "i = j" using kheap_payload_neq by blast
qed

section \<open>Runs of the heap\<close>

text \<open>
  \<open>heap_run h L\<close>: \<open>h\<close> is reached from the state after \<open>kheap_init\<close> by allocations, frees of live
  pointers and writes into live allocations; \<open>L\<close> maps each live pointer to the size asked for.
\<close>

definition boot_place_ok :: "u32 \<Rightarrow> bool" where
  "boot_place_ok kernel_phys_end \<longleftrightarrow>
     0 < unat (kernel_phys_end + KERNEL_VIRT_BASE) \<and>
     unat (kernel_phys_end + KERNEL_VIRT_BASE) + heap_bytes \<le> 4294967296"

inductive heap_run :: "k_heap \<Rightarrow> (u32 \<rightharpoonup> u32) \<Rightarrow> bool" where
  boot: "boot_place_ok kernel_phys_end \<Longrightarrow>
    heap_run (kheap_init kernel_phys_end base_addr region_len h) Map.empty"
| run_alloc: "heap_run h L \<Longrightarrow> kheap_alloc h sz = Inr (p, h') \<Longrightarrow> heap_run h' (L(p \<mapsto> sz))"
| run_free: "heap_run h L \<Longrightarrow> p \<in> dom L \<Longrightarrow> kheap_free h p = Inr h' \<Longrightarrow> heap_run h' (L(p := None))"
| run_write: "heap_run h L \<Longrightarrow> L p = Some sz \<Longrightarrow> i < unat sz \<Longrightarrow>
    heap_run (h\<lparr>kmem := (kmem h)(p + of_nat i := v)\<rparr>) L"

definition live_blocks :: "k_heap \<Rightarrow> (u32 \<rightharpoonup> u32) \<Rightarrow> block set \<Rightarrow> bool" where
  "live_blocks h L A \<longleftrightarrow> kheap_valid h A \<and> dom L = kheap_ptr h ` A \<and>
     (\<forall>b\<in>A. \<exists>sz. L (kheap_ptr h b) = Some sz \<and> unat sz \<le> kheap_cap b)"

lemma kheap_cap_pos: "0 < kheap_cap b"
  using bsize_ge16 [of "snd b"] by (simp add: kheap_cap_def)

lemma kheap_ptr_inj: "kheap_valid h A \<Longrightarrow> b \<in> A \<Longrightarrow> c \<in> A \<Longrightarrow> kheap_ptr h b = kheap_ptr h c \<longleftrightarrow> b = c"
  using kheap_payload_neq [of h A b c 0 0] kheap_cap_pos by auto

lemma kheap_init_valid:
  assumes "boot_place_ok kpe"
  shows "heap_inv (kheap_init kpe base len h) (\<lambda>k. if k = 18 then [0] else []) {}"
proof -
  have fs: "free_set (\<lambda>k. if k = 18 then [0] else []) = {(0, 18)}"
    by (auto simp: free_set_def split: if_splits)
  have nz: "kpe + KERNEL_VIRT_BASE \<noteq> 0" using assms by (auto simp: boot_place_ok_def)
  show ?thesis
    unfolding heap_inv_def heap_core_def fs using assms partition_init nz
    by (auto simp: heap_geom_def kheap_init_def Let_def boot_place_ok_def ALLOC_ORDERS_def
        baddr_def no_free_buddies_def headers_ok_def)
qed

lemma live_lookup:
  assumes "live_blocks h L A" "L p = Some sz"
  shows "\<exists>b\<in>A. p = kheap_ptr h b \<and> unat sz \<le> kheap_cap b"
proof -
  have "p \<in> kheap_ptr h ` A" using assms unfolding live_blocks_def by blast
  then obtain b where "b \<in> A" "p = kheap_ptr h b" by blast
  moreover then have "unat sz \<le> kheap_cap b" using assms by (fastforce simp: live_blocks_def)
  ultimately show ?thesis by blast
qed

lemma heap_run_live: "heap_run h L \<Longrightarrow> \<exists>A. live_blocks h L A"
proof (induction rule: heap_run.induct)
  case (boot kpe base len h)
  then show ?case
    using kheap_init_valid [of kpe base len h]
    by (intro exI [of _ "{}"]) (auto simp: live_blocks_def kheap_valid_def)
next
  case (run_alloc h L sz p h')
  then obtain A where A: "live_blocks h L A" by blast
  obtain b where b: "b \<notin> A" "kheap_valid h' (insert b A)" "p = kheap_ptr h' b" "unat sz \<le> kheap_cap b"
    "kheap_ptr h' = kheap_ptr h"
    using kheap.alloc_ok run_alloc.hyps(2) A unfolding live_blocks_def by metis
  have "kheap_ptr h' c \<noteq> p" if "c \<in> A" for c
    using kheap_ptr_inj [OF b(2), of c b] that b(1,3) by auto
  then show ?case
    using A b by (intro exI [of _ "insert b A"]) (auto simp: live_blocks_def)
next
  case (run_free h L p h')
  then obtain A where A: "live_blocks h L A" by blast
  then obtain b where b: "b \<in> A" "p = kheap_ptr h b"
    using run_free.hyps(2) by (auto simp: live_blocks_def)
  have v: "kheap_valid h A" using A by (simp add: live_blocks_def)
  obtain h2 where "kheap_free h p = Inr h2" "kheap_valid h2 (A - {b})" "kheap_ptr h2 = kheap_ptr h"
    using kheap.dealloc_ok [OF v b(1)] b(2) by auto
  then have "kheap_valid h' (A - {b})" "kheap_ptr h' = kheap_ptr h" using run_free.hyps(3) by auto
  moreover have "dom (L(p := None)) = kheap_ptr h ` (A - {b})"
    using A b kheap_ptr_inj [OF v _ b(1)] by (auto simp: live_blocks_def)
  moreover have "kheap_ptr h c \<noteq> p" if "c \<in> A - {b}" for c
    using kheap_ptr_inj [OF v, of c b] that b by auto
  moreover have "(L(p := None)) (kheap_ptr h c) = L (kheap_ptr h c)" if "c \<in> A - {b}" for c
    using calculation(4) [OF that] by simp
  ultimately have "live_blocks h' (L(p := None)) (A - {b})"
    using A unfolding live_blocks_def by simp
  then show ?case by blast
next
  case (run_write h L p sz i v)
  then obtain A where A: "live_blocks h L A" by blast
  then obtain b where b: "b \<in> A" "p = kheap_ptr h b" "unat sz \<le> kheap_cap b"
    using live_lookup run_write.hyps(2) by blast
  then have "i < kheap_cap b" using run_write.hyps(3) by simp
  then have "kheap_valid (h\<lparr>kmem := (kmem h)(p + of_nat i := v)\<rparr>) A"
    using kheap.put_ok b A unfolding live_blocks_def by blast
  then show ?case
    using A by (intro exI [of _ A]) (simp add: live_blocks_def kheap_ptr_def)
qed

lemma heap_run_obtain:
  assumes "heap_run h L" "L p = Some sz"
  obtains A b where "live_blocks h L A" "b \<in> A" "p = kheap_ptr h b" "unat sz \<le> kheap_cap b"
proof -
  obtain A where A: "live_blocks h L A" using heap_run_live [OF assms(1)] by blast
  then show ?thesis using live_lookup [OF A assms(2)] that by blast
qed

section \<open>Properties of the kernel heap\<close>

text \<open>
  C1. In every state the heap can reach, the bytes of two live allocations are at different
  addresses: no two callers of \<open>kmalloc\<close> ever share a byte.
\<close>

theorem kheap_live_disjoint:
  assumes "heap_run h L" and "L p = Some s" and "L q = Some t" and "p \<noteq> q"
    and "i < unat s" and "j < unat t"
  shows "p + of_nat i \<noteq> q + of_nat j"
proof -
  obtain A b where b: "live_blocks h L A" "b \<in> A" "p = kheap_ptr h b" "unat s \<le> kheap_cap b"
    using assms(1,2) by (rule heap_run_obtain)
  obtain c where c: "c \<in> A" "q = kheap_ptr h c" "unat t \<le> kheap_cap c"
    using live_lookup [OF b(1) assms(3)] by blast
  have "kheap_valid h A" using b(1) by (simp add: live_blocks_def)
  then show ?thesis
    using kheap.payload_disjoint [of h A b c i j] b c assms(4-6) by auto
qed

lemma kheap_alloc_bytes:
  assumes "heap_run h L" "kheap_alloc h sz = Inr (r, h')" "L q = Some t" "i < unat t"
  shows "kmem h' (q + of_nat i) = kmem h (q + of_nat i)"
proof -
  obtain A where A: "live_blocks h L A" using heap_run_live [OF assms(1)] by blast
  obtain c where c: "c \<in> A" "q = kheap_ptr h c" "unat t \<le> kheap_cap c" using live_lookup [OF A assms(3)] by blast
  have "kheap_valid h A" using A by (simp add: live_blocks_def)
  then have "\<forall>c\<in>A. \<forall>i<kheap_cap c. kmem h' (kheap_ptr h c + of_nat i) = kmem h (kheap_ptr h c + of_nat i)"
    using kheap.alloc_ok [OF _ assms(2)] by blast
  then show ?thesis using c assms(4) by auto
qed

text \<open>
  C2. Freeing a live pointer always succeeds (the list search ends and the order read from the
  header is in range), and neither it nor an allocation that succeeds changes a byte of another live allocation.
\<close>

theorem kheap_free_total:
  assumes "heap_run h L" and "L p = Some s"
  shows "\<exists>h'. kheap_free h p = Inr h' \<and>
    (\<forall>q t i. L q = Some t \<longrightarrow> q \<noteq> p \<longrightarrow> i < unat t \<longrightarrow> kmem h' (q + of_nat i) = kmem h (q + of_nat i)) \<and>
    (\<forall>sz r h'' q t i. kheap_alloc h sz = Inr (r, h'') \<longrightarrow> L q = Some t \<longrightarrow> i < unat t \<longrightarrow>
       kmem h'' (q + of_nat i) = kmem h (q + of_nat i))"
proof -
  obtain A b where b: "live_blocks h L A" "b \<in> A" "p = kheap_ptr h b" "unat s \<le> kheap_cap b"
    using assms by (rule heap_run_obtain)
  then obtain h' where h': "kheap_free h p = Inr h'"
    "\<And>c i. c \<in> A - {b} \<Longrightarrow> i < kheap_cap c \<Longrightarrow> kmem h' (kheap_ptr h c + of_nat i) = kmem h (kheap_ptr h c + of_nat i)"
    using kheap.dealloc_ok [of h A b] by (auto simp: live_blocks_def)
  have "kmem h' (q + of_nat i) = kmem h (q + of_nat i)" if "L q = Some t" "q \<noteq> p" "i < unat t" for q t i
  proof -
    obtain c where "c \<in> A" "q = kheap_ptr h c" "unat t \<le> kheap_cap c"
      using live_lookup [OF b(1)] \<open>L q = Some t\<close> by blast
    then show ?thesis using h'(2) [of c i] that(2,3) b(3) by auto
  qed
  then show ?thesis using h'(1) kheap_alloc_bytes [OF assms(1)] by blast
qed

text \<open>
  C3. No leak and no lasting fragmentation: once every allocation has been freed, the heap is
  again one free block of 4 MiB, and any request below 4 MiB succeeds.
\<close>

theorem kheap_coalesces:
  assumes "heap_run h Map.empty" and "unat sz < heap_bytes"
  shows "free_blocks h 18 = heap_start h \<and> (\<forall>k<18. free_blocks h k = 0) \<and>
    (\<exists>p h'. kheap_alloc h sz = Inr (p, h'))"
proof -
  obtain A where "live_blocks h Map.empty A" using heap_run_live [OF assms(1)] by blast
  then have "kheap_valid h A" "A = {}" by (auto simp: live_blocks_def)
  then have "kheap_valid h {}" by simp
  then obtain fl where fl: "heap_inv h fl {}" by (auto simp: kheap_valid_def)
  then have c: "heap_core h fl {}" and "no_free_buddies (free_set fl)" by (simp_all add: heap_inv_def)
  then have fs: "free_set fl = {(0, 18)}" using heap_coreD(4) [OF c] coalesced_single by simp
  then have mem: "off \<in> set (fl k) \<longleftrightarrow> off = 0 \<and> k = 18" for off k
    by (auto simp: free_set_def set_eq_iff)
  have "fl 18 = [0]" using mem heap_coreD(2) [OF c, of 18]
    by (metis distinct_length_2_or_more empty_iff list.set(1) list.set_intros neq_Nil_conv)
  then have h18: "free_blocks h 18 = heap_start h"
    using heap_coreD(5) [OF c, of 18] by (simp add: ALLOC_ORDERS_def baddr_def)
  have lo: "free_blocks h k = 0" if "k < 18" for k
  proof -
    have "fl k = []" using mem [of _ k] that by (metis empty_iff list.set_sel(1) neq_iff set_empty2)
    then show ?thesis using heap_coreD(5) [OF c, of k] that by (simp add: ALLOC_ORDERS_def)
  qed
  obtain r where r: "order_for_size sz = Some r" "unat r = 0 \<or> bsize (unat r - 1) \<le> unat sz"
    using order_for_size_small [of sz] assms(2) by auto
  have "unat r \<le> 18"
  proof (rule ccontr)
    assume "\<not> unat r \<le> 18"
    then have "bsize 18 \<le> bsize (unat r - 1)" by (intro bsize_mono) simp
    then show False using r(2) assms(2) \<open>\<not> unat r \<le> 18\<close> by (simp add: bsize_18)
  qed
  moreover have "heap_start h \<noteq> 0" using heap_coreD(1) [OF c] by (auto simp: heap_geom_def)
  ultimately obtain f where "first_available (free_blocks h) (unat r) = Some f"
    using first_available_None [of "free_blocks h" "unat r"] h18
    by (cases "first_available (free_blocks h) (unat r)") (auto simp: ALLOC_ORDERS_def)
  moreover have "heap_initialized h" using heap_coreD(1) [OF c] by (simp add: heap_geom_def)
  ultimately show ?thesis using h18 lo r(1) by (simp add: kheap_alloc_def Let_def)
qed

text \<open>
  An allocation of 2 GiB or more never returns: \<open>evaluated_order_bytes\<close> shifts out to 0
  and the loop of \<open>__order_for_size\<close> has no exit. Below 2 GiB an allocation returns, or panics
  when no free list from the needed order up has a block; the pointer then lies behind the
  header, its whole allocation inside the 4 MiB of the heap.
\<close>

theorem kheap_alloc_outcomes:
  assumes "heap_run h L"
  shows "(2147483648 \<le> unat sz \<longrightarrow> kheap_alloc h sz = Inl KHang) \<and>
    (unat sz < 2147483648 \<longrightarrow>
       (\<exists>r. order_for_size sz = Some r \<and> unat sz < 16 * 2 ^ unat r \<and>
          (unat r = 0 \<or> 16 * 2 ^ (unat r - 1) \<le> unat sz) \<and>
          (if \<forall>k. unat r \<le> k \<and> k < 19 \<longrightarrow> free_blocks h k = 0
           then kheap_alloc h sz = Inl (KPanic ''HEAP_OUT_OF_MEMORY'')
           else \<exists>p h'. kheap_alloc h sz = Inr (p, h') \<and> L p = None \<and>
              unat (heap_start h) < unat p \<and> unat p + unat sz \<le> unat (heap_start h) + heap_bytes)))"
proof -
  obtain A where A: "live_blocks h L A" using heap_run_live [OF assms] by blast
  then have v: "kheap_valid h A" by (simp add: live_blocks_def)
  then obtain fl where fl: "heap_inv h fl A" "heap_geom h" by (rule kheap_validD)
  then have hi: "heap_initialized h" by (simp add: heap_geom_def)
  have large: "2147483648 \<le> unat sz \<longrightarrow> kheap_alloc h sz = Inl KHang"
    using hi order_for_size_large by (simp add: kheap_alloc_def)
  have "\<exists>p h'. kheap_alloc h sz = Inr (p, h') \<and> L p = None \<and>
      unat (heap_start h) < unat p \<and> unat p + unat sz \<le> unat (heap_start h) + heap_bytes"
    if r: "order_for_size sz = Some r" and some: "\<not> (\<forall>k. unat r \<le> k \<and> k < 19 \<longrightarrow> free_blocks h k = 0)" for r
  proof -
    obtain f where "first_available (free_blocks h) (unat r) = Some f"
      using first_available_None [of "free_blocks h" "unat r"] some
      by (cases "first_available (free_blocks h) (unat r)") (auto simp: ALLOC_ORDERS_def)
    then obtain p h' where ret: "kheap_alloc h sz = Inr (p, h')"
      using hi r by (simp add: kheap_alloc_def Let_def)
    obtain fl' off k where b: "heap_inv h' fl' (insert (off, k) A)" "(off, k) \<notin> A"
      "p = baddr h' off + 1" "unat sz < bsize k" "same_bytes h h' A"
      using kheap_alloc_inv [OF fl(1) ret] .
    have bh: "baddr h' = baddr h" using b(5) by (simp add: same_bytes_def baddr_def fun_eq_iff)
    have c: "heap_core h' fl' (insert (off, k) A)" using b(1) by (simp add: heap_inv_def)
    have bd: "off + bsize k \<le> heap_bytes" using core_bound [OF c, of off k] by blast
    then have lt: "off + 1 < heap_bytes" using bsize_ge16 [of k] by linarith
    have "p = baddr h (off + 1)" using b(3) bh by (simp add: baddr_def)
    then have "unat p = unat (heap_start h) + (off + 1)" using unat_baddr [OF fl(2) lt] by simp
    moreover have "L p = None"
    proof (rule ccontr)
      assume "L p \<noteq> None"
      then obtain s where "L p = Some s" by auto
      then obtain d where d: "d \<in> A" "p = kheap_ptr h d" using live_lookup [OF A] by blast
      have "kheap_ptr h' (off, k) = kheap_ptr h' d" using d b(3) bh by (simp add: kheap_ptr_def)
      moreover have "kheap_valid h' (insert (off, k) A)" using b(1) by (auto simp: kheap_valid_def)
      ultimately show False using kheap_ptr_inj [of h' "insert (off, k) A" "(off, k)" d] d b(2) by auto
    qed
    ultimately show ?thesis using ret bd b(4) by auto
  qed
  moreover have "kheap_alloc h sz = Inl (KPanic ''HEAP_OUT_OF_MEMORY'')"
    if "order_for_size sz = Some r" "\<forall>k. unat r \<le> k \<and> k < 19 \<longrightarrow> free_blocks h k = 0" for r
    using that hi first_available_None [of "free_blocks h" "unat r"]
    by (simp add: kheap_alloc_def ALLOC_ORDERS_def)
  ultimately have small: "if \<forall>k. unat r \<le> k \<and> k < 19 \<longrightarrow> free_blocks h k = 0
       then kheap_alloc h sz = Inl (KPanic ''HEAP_OUT_OF_MEMORY'')
       else \<exists>p h'. kheap_alloc h sz = Inr (p, h') \<and> L p = None \<and>
         unat (heap_start h) < unat p \<and> unat p + unat sz \<le> unat (heap_start h) + heap_bytes"
    if "order_for_size sz = Some r" for r
    using that by presburger
  show ?thesis
  proof (intro conjI large impI)
    assume "unat sz < 2147483648"
    then obtain r where "order_for_size sz = Some r" "unat sz < bsize (unat r)"
      "unat r = 0 \<or> bsize (unat r - 1) \<le> unat sz" by (rule order_for_size_small)
    then show "\<exists>r. order_for_size sz = Some r \<and> unat sz < 16 * 2 ^ unat r \<and>
      (unat r = 0 \<or> 16 * 2 ^ (unat r - 1) \<le> unat sz) \<and>
      (if \<forall>k. unat r \<le> k \<and> k < 19 \<longrightarrow> free_blocks h k = 0
       then kheap_alloc h sz = Inl (KPanic ''HEAP_OUT_OF_MEMORY'')
       else \<exists>p h'. kheap_alloc h sz = Inr (p, h') \<and> L p = None \<and>
         unat (heap_start h) < unat p \<and> unat p + unat sz \<le> unat (heap_start h) + heap_bytes)"
      using small unfolding bsize_def by blast
  qed
qed

text \<open>\<open>krealloc\<close> on the kernel heap, and \<open>kmalloc\<close> and \<open>kfree\<close>, which are the heap's own calls.\<close>

definition krealloc :: "k_heap \<Rightarrow> u32 \<Rightarrow> u32 \<Rightarrow> u32 \<Rightarrow> (u32 \<times> k_heap) res" where
  "krealloc = krealloc_with kheap_alloc kheap_free kmem (\<lambda>m h. h\<lparr>kmem := m\<rparr>)"

definition kmalloc :: "k_heap \<Rightarrow> u32 \<Rightarrow> (u32 \<times> k_heap) res" where "kmalloc = kheap_alloc"
definition kfree :: "k_heap \<Rightarrow> u32 \<Rightarrow> k_heap res" where "kfree = kheap_free"

text \<open>
  \<open>krealloc\<close> of a live allocation to a size that is not smaller: it returns whenever the
  allocation inside it does, the new allocation starts with the old contents, and every other
  live allocation keeps its bytes.
\<close>

theorem krealloc_preserves:
  assumes "heap_run h L" and "L p = Some old" and "unat old \<le> unat new"
    and "kmalloc h new = Inr r"
  shows "\<exists>q h'. krealloc h p old new = Inr (q, h') \<and>
    (\<forall>i<unat old. kmem h' (q + of_nat i) = kmem h (p + of_nat i)) \<and>
    (\<forall>d t i. L d = Some t \<longrightarrow> d \<noteq> p \<longrightarrow> i < unat t \<longrightarrow> kmem h' (d + of_nat i) = kmem h (d + of_nat i))"
proof -
  obtain A b where b: "live_blocks h L A" "b \<in> A" "p = kheap_ptr h b" "unat old \<le> kheap_cap b"
    using assms(1,2) by (rule heap_run_obtain)
  have v: "kheap_valid h A" using b(1) by (simp add: live_blocks_def)
  obtain q h' where ret: "krealloc h p old new = Inr (q, h')"
    using kheap.krealloc_error [OF v b(2,4) assms(3)] assms(4) b(3)
    by (auto simp: krealloc_def kmalloc_def)
  have c: "\<And>k. k < unat old \<Longrightarrow> kmem h' (q + of_nat k) = kmem h (p + of_nat k)"
    "\<And>d k. d \<in> A - {b} \<Longrightarrow> k < kheap_cap d \<Longrightarrow>
      kmem h' (kheap_ptr h d + of_nat k) = kmem h (kheap_ptr h d + of_nat k)"
    using kheap.krealloc_ok [OF v b(2,4) assms(3)] ret b(3) unfolding krealloc_def by auto
  have "kmem h' (d + of_nat i) = kmem h (d + of_nat i)" if "L d = Some t" "d \<noteq> p" "i < unat t" for d t i
  proof -
    obtain e where "e \<in> A" "d = kheap_ptr h e" "unat t \<le> kheap_cap e"
      using live_lookup [OF b(1)] \<open>L d = Some t\<close> by blast
    then show ?thesis using c(2) [of e i] that(2,3) b(3) by auto
  qed
  then show ?thesis using ret c(1) by blast
qed

section \<open>A concrete heap for the witnesses\<close>

text \<open>
  The heap of the kernel linked as \<open>kernel/kernel.map\<close> records it (\<open>kernel_phys_end\<close> is 0x33f30),
  with one usable memory region of 127 MiB from 1 MiB on; then two allocations.
\<close>

definition demo_heap :: k_heap where
  "demo_heap = kheap_init 0x33f30 0x100000 0x7ee0000
     \<lparr>free_blocks = (\<lambda>_. 0), heap_start = 0, heap_size = 0, heap_initialized = False,
      kmem = (\<lambda>_. 0)\<rparr>"

lemma demo_boot: "heap_run demo_heap Map.empty"
  unfolding demo_heap_def by (rule boot) (simp add: boot_place_ok_def KERNEL_VIRT_BASE_def)

lemma demo_allocs: "\<exists>h1 h2. kheap_alloc demo_heap 64 = Inr (0xC0033F31, h1) \<and>
  kheap_alloc h1 100 = Inr (0xC0033FB1, h2)"
proof -
  have "(case kheap_alloc demo_heap 64 of Inl _ \<Rightarrow> False
    | Inr (p, h) \<Rightarrow> (case kheap_alloc h 100 of Inl _ \<Rightarrow> False
      | Inr (q, _) \<Rightarrow> p = 0xC0033F31 \<and> q = 0xC0033FB1))"
    by code_simp
  moreover then obtain p h1 where "kheap_alloc demo_heap 64 = Inr (p, h1)"
    by (cases "kheap_alloc demo_heap 64") auto
  moreover from calculation obtain q h2 where "kheap_alloc h1 100 = Inr (q, h2)"
    by (cases "kheap_alloc h1 100") auto
  ultimately show ?thesis by simp
qed

lemma demo_run: "\<exists>h L. heap_run h L \<and> L 0xC0033F31 = Some 64 \<and> L 0xC0033FB1 = Some 100"
proof -
  obtain h1 h2 where "kheap_alloc demo_heap 64 = Inr (0xC0033F31, h1)"
    "kheap_alloc h1 100 = Inr (0xC0033FB1, h2)"
    using demo_allocs by blast
  then have "heap_run h2 (Map.empty(0xC0033F31 \<mapsto> 64, 0xC0033FB1 \<mapsto> 100))"
    using demo_boot by (blast intro: run_alloc)
  then show ?thesis by (intro exI conjI, assumption) simp_all
qed

theorem kheap_live_disjoint_witness:
  "\<exists>h L. heap_run h L \<and> L 0xC0033F31 = Some 64 \<and> L 0xC0033FB1 = Some 100 \<and>
    (0xC0033F31 :: u32) + of_nat 63 \<noteq> 0xC0033FB1 + of_nat 99"
proof -
  obtain h L where r: "heap_run h L" "L 0xC0033F31 = Some 64" "L 0xC0033FB1 = Some 100"
    using demo_run by blast
  have "(0xC0033F31 :: u32) + of_nat 63 \<noteq> 0xC0033FB1 + of_nat 99"
    by (rule kheap_live_disjoint [OF r]) simp_all
  then show ?thesis using r by blast
qed

theorem kheap_free_total_witness:
  "\<exists>h L h'. heap_run h L \<and> L 0xC0033F31 = Some 64 \<and> L 0xC0033FB1 = Some 100 \<and> kheap_free h 0xC0033F31 = Inr h' \<and>
     kmem h' (0xC0033FB1 + of_nat 7) = kmem h (0xC0033FB1 + of_nat 7)"
proof -
  obtain h L where r: "heap_run h L" "L 0xC0033F31 = Some 64" "L 0xC0033FB1 = Some 100" using demo_run by blast
  obtain h' where f: "kheap_free h 0xC0033F31 = Inr h'"
    "\<forall>q t i. L q = Some t \<longrightarrow> q \<noteq> 0xC0033F31 \<longrightarrow> i < unat t \<longrightarrow> kmem h' (q + of_nat i) = kmem h (q + of_nat i)"
    using kheap_free_total [OF r(1,2)] by blast
  have "kmem h' (0xC0033FB1 + of_nat 7) = kmem h (0xC0033FB1 + of_nat 7)" using f(2) [rule_format, OF r(3), of 7] by simp
  then show ?thesis using r f(1) by blast
qed

theorem kheap_coalesces_witness:
  "heap_run demo_heap Map.empty \<and> (\<exists>p h'. kheap_alloc demo_heap 0x3FFFFF = Inr (p, h'))"
  using demo_boot kheap_coalesces [OF demo_boot, where sz = "0x3FFFFF"] by simp

theorem kheap_alloc_outcomes_witness:
  "heap_run demo_heap Map.empty \<and> kheap_alloc demo_heap 0x80000000 = Inl KHang"
  using demo_boot kheap_alloc_outcomes [OF demo_boot, where sz = "0x80000000"] by simp

theorem krealloc_preserves_witness:
  "\<exists>h L q h'. heap_run h L \<and> L 0xC0033F31 = Some 64 \<and> krealloc h 0xC0033F31 64 128 = Inr (q, h') \<and>
    kmem h' q = kmem h 0xC0033F31"
proof -
  obtain h1 where a: "kheap_alloc demo_heap 64 = Inr (0xC0033F31, h1)" using demo_allocs by blast
  have run: "heap_run h1 (Map.empty(0xC0033F31 \<mapsto> 64))" by (rule run_alloc [OF demo_boot a])
  have "(case kheap_alloc demo_heap 64 of Inl _ \<Rightarrow> False
    | Inr (p, h) \<Rightarrow> (case kmalloc h 128 of Inl _ \<Rightarrow> False | Inr _ \<Rightarrow> True))"
    by code_simp
  then obtain r where "kmalloc h1 128 = Inr r" using a by (auto split: sum.split_asm)
  then obtain q h' where "krealloc h1 0xC0033F31 64 128 = Inr (q, h')"
    "\<forall>i<unat (64 :: u32). kmem h' (q + of_nat i) = kmem h1 (0xC0033F31 + of_nat i)"
    using krealloc_preserves [OF run, where p = "0xC0033F31" and old = 64 and new = 128] by auto
  moreover from this(2) have "kmem h' q = kmem h1 0xC0033F31" by (auto dest: spec [of _ 0])
  moreover have "(Map.empty(0xC0033F31 \<mapsto> 64)) (0xC0033F31 :: u32) = Some (64 :: u32)" by simp
  ultimately show ?thesis using run by blast
qed

end
