(* ===== verification/Frame.thy ===== *)
theory Frame
  imports Heap
begin

text \<open>
  The physical frame allocator, \<open>kernel/mm/src/frame.c\<close>, and the search of the BIOS memory map,
  \<open>kernel/mm/src/mem.c\<close>: a bitmap with one bit per 4 KiB frame, 1 for used. The bitmap is read
  as a set of free frame numbers; the operations are proved against that set.
\<close>

section \<open>The BIOS memory map\<close>

record mmap_entry =
  base_addr :: u64
  region_len :: u64
  region_type :: u32

definition MMAP_REGTYPE_USABLE :: u32 where "MMAP_REGTYPE_USABLE = 1"

fun mmap_get_usable_entry :: "mmap_entry list \<Rightarrow> mmap_entry" where
  "mmap_get_usable_entry [] = \<lparr>base_addr = 0, region_len = 0, region_type = 0\<rparr>"
| "mmap_get_usable_entry (entry # entries) =
     (if region_type entry = MMAP_REGTYPE_USABLE \<and> base_addr entry \<ge> 0x00100000 then entry
      else mmap_get_usable_entry entries)"

text \<open>\<open>uint32_t end = entry.base_addr + entry.region_len\<close>: a 64-bit sum cut to 32 bits.\<close>

definition end_addr :: "mmap_entry \<Rightarrow> u32" where
  "end_addr entry = ucast (base_addr entry + region_len entry)"

section \<open>State and operations\<close>

record frame_alloc =
  fa_bitmap :: "u8 list"
  fa_bitmap_size :: u32
  fa_initialized :: bool

fun max_end_addr :: "u32 \<Rightarrow> mmap_entry list \<Rightarrow> u32" where
  "max_end_addr m [] = m"
| "max_end_addr m (entry # entries) =
     max_end_addr (if end_addr entry > m then end_addr entry else m) entries"

text \<open>
  \<open>__fa_init_alloc_bitmap\<close> and the first loop of \<open>fa_init\<close>: the bitmap is allocated with one bit
  per frame below the highest end address and every byte set to 0xFF.
\<close>

definition fa_init_alloc_bitmap :: "mmap_entry list \<Rightarrow> frame_alloc \<Rightarrow> frame_alloc res" where
  "fa_init_alloc_bitmap entries fa =
     (case entries of
        [] \<Rightarrow> Inl (KFault ''entries[0]'')
      | e0 # _ \<Rightarrow>
          (let n = max_end_addr (end_addr e0) entries div 4096 div 8
           in Inr (fa\<lparr>fa_bitmap_size := n, fa_bitmap := replicate (unat n) 0xFF\<rparr>)))"

definition clear_frame :: "u8 list \<Rightarrow> nat \<Rightarrow> u8 list res" where
  "clear_frame bm i =
     (if i div 8 < length bm
      then Inr (bm[i div 8 := (bm ! (i div 8)) AND NOT (push_bit (i mod 8) 1)])
      else Inl (KFault ''fa_bitmap index''))"

function clear_frames :: "u8 list \<Rightarrow> nat \<Rightarrow> nat \<Rightarrow> u8 list res" where
  "clear_frames bm i n =
     (if i < n
      then (case clear_frame bm i of Inl e \<Rightarrow> Inl e | Inr bm' \<Rightarrow> clear_frames bm' (i + 1) n)
      else Inr bm)"
  by pat_completeness auto
termination by (relation "measure (\<lambda>(bm, i, n). n - i)") auto

definition fa_init :: "u32 \<Rightarrow> u32 \<Rightarrow> mmap_entry list \<Rightarrow> frame_alloc \<Rightarrow> frame_alloc res" where
  "fa_init kernel_phys_end heap_sz entries fa =
     (case fa_init_alloc_bitmap entries fa of
        Inl e \<Rightarrow> Inl e
      | Inr fa1 \<Rightarrow>
          (let usable_entry = mmap_get_usable_entry entries;
               start_fa_usable = kernel_phys_end + heap_sz;
               frame_index_start = start_fa_usable div 4096;
               end_fa_usable = end_addr usable_entry;
               frame_index_end = end_fa_usable div 4096
           in case clear_frames (fa_bitmap fa1) (unat frame_index_start) (unat frame_index_end) of
                Inl e \<Rightarrow> Inl e
              | Inr bm \<Rightarrow> Inr (fa1\<lparr>fa_bitmap := bm, fa_initialized := True\<rparr>)))"

text \<open>The two loops of \<open>fa_alloc\<close>: the first clear bit of the first byte that has one.\<close>

function free_bit :: "u8 \<Rightarrow> nat \<Rightarrow> nat option" where
  "free_bit byte j = (if j < 8 then (if byte AND push_bit j 1 = 0 then Some j else free_bit byte (j + 1)) else None)"
  by pat_completeness auto
termination by (relation "measure (\<lambda>(b, j). 8 - j)") auto

fun free_found :: "u8 list \<Rightarrow> nat \<Rightarrow> (nat \<times> nat) option" where
  "free_found [] i = None"
| "free_found (byte # bytes) i =
     (case free_bit byte 0 of Some j \<Rightarrow> Some (i, j) | None \<Rightarrow> free_found bytes (i + 1))"

definition fa_alloc :: "frame_alloc \<Rightarrow> (u32 \<times> frame_alloc) res" where
  "fa_alloc fa =
     (if \<not> fa_initialized fa then Inl (KPanic ''FRAME_ALLOCATOR_NOT_INITIALIZED'')
      else case free_found (take (unat (fa_bitmap_size fa)) (fa_bitmap fa)) 0 of
        None \<Rightarrow> Inl (KPanic ''no free frame available'')
      | Some (i, j) \<Rightarrow>
          (let frame_index = of_nat i * 8 + of_nat j :: u32
           in Inr (frame_index * 4096,
                   fa\<lparr>fa_bitmap := (fa_bitmap fa)[i := fa_bitmap fa ! i OR push_bit j 1]\<rparr>)))"

definition fa_free :: "frame_alloc \<Rightarrow> u32 \<Rightarrow> frame_alloc res" where
  "fa_free fa addr =
     (if \<not> fa_initialized fa then Inl (KPanic ''FRAME_ALLOCATOR_NOT_INITIALIZED'')
      else case clear_frame (fa_bitmap fa) (unat (addr div 4096)) of
        Inl e \<Rightarrow> Inl e
      | Inr bm \<Rightarrow> Inr (fa\<lparr>fa_bitmap := bm\<rparr>))"

declare clear_frames.simps [simp del] free_bit.simps [simp del]

section \<open>The bitmap as a set of free frames\<close>

definition frame_free :: "u8 list \<Rightarrow> nat \<Rightarrow> bool" where
  "frame_free bm n \<longleftrightarrow> n div 8 < length bm \<and> \<not> bit (bm ! (n div 8)) (n mod 8)"

text \<open>A 32-bit end address gives at most \<open>2^17\<close> bitmap bytes.\<close>

definition fa_ok :: "frame_alloc \<Rightarrow> bool" where
  "fa_ok fa \<longleftrightarrow> fa_initialized fa \<and> length (fa_bitmap fa) = unat (fa_bitmap_size fa) \<and>
     length (fa_bitmap fa) \<le> 131072"

definition free_frames :: "frame_alloc \<Rightarrow> nat set" where
  "free_frames fa = {n. frame_free (fa_bitmap fa) n}"

lemma and_bit_zero: "(x :: u8) AND push_bit j 1 = 0 \<longleftrightarrow> \<not> (j < 8 \<and> bit x j)"
  by (auto simp: push_bit_of_1 and_exp_eq_0_iff_not_bit bit_iff_odd_drop_bit dest: bit_imp_le_length)

lemma free_bit_unfold:
  "free_bit x j = (if j < 8 then if bit x j then free_bit x (Suc j) else Some j else None)"
  using and_bit_zero [of x j] by (subst free_bit.simps) (simp del: push_bit_of_1)

lemma free_bit_SomeD:
  "free_bit x j = Some k \<Longrightarrow> j \<le> k \<and> k < 8 \<and> \<not> bit x k \<and> (\<forall>i. j \<le> i \<and> i < k \<longrightarrow> bit x i)"
proof (induction "8 - j" arbitrary: j)
  case (Suc d)
  show ?case
  proof (cases "bit x j")
    case True
    then have "free_bit x (Suc j) = Some k"
      using Suc.prems free_bit_unfold [of x j] by (simp split: if_splits)
    moreover have "d = 8 - Suc j" using Suc.hyps(2) by linarith
    ultimately have "Suc j \<le> k \<and> k < 8 \<and> \<not> bit x k \<and> (\<forall>i. Suc j \<le> i \<and> i < k \<longrightarrow> bit x i)"
      by (rule Suc.hyps(1) [rotated])
    then show ?thesis using True by (metis Suc_leD Suc_leI le_neq_implies_less)
  next
    case False
    then show ?thesis using Suc.prems free_bit_unfold [of x j] by (auto split: if_splits)
  qed
qed (simp add: free_bit_unfold [of x])

lemma free_bit_NoneD: "free_bit x j = None \<Longrightarrow> j \<le> i \<Longrightarrow> i < 8 \<Longrightarrow> bit x i"
proof (induction "8 - j" arbitrary: j)
  case (Suc d)
  then have b: "bit x j" "free_bit x (Suc j) = None"
    using free_bit_unfold [of x j] by (simp_all split: if_splits)
  moreover have "d = 8 - Suc j" using Suc.hyps(2) by linarith
  ultimately show ?case using Suc.hyps(1) [of "Suc j"] Suc.prems by (cases "i = j") auto
qed simp

lemma free_bit_None: "free_bit x 0 = None \<longleftrightarrow> (\<forall>i<8. bit x i)"
  using free_bit_SomeD [of x 0] free_bit_NoneD [of x 0] by (cases "free_bit x 0") auto

lemma free_found_Some:
  assumes "free_found bm s = Some (i, j)"
  shows "\<exists>k<length bm. i = s + k \<and> j < 8 \<and> \<not> bit (bm ! k) j \<and>
    (\<forall>l<j. bit (bm ! k) l) \<and> (\<forall>m<k. \<forall>l<8. bit (bm ! m) l)"
  using assms
proof (induction bm arbitrary: s)
  case (Cons x bm)
  show ?case
  proof (cases "free_bit x 0")
    case None
    then have "free_found bm (Suc s) = Some (i, j)" using Cons.prems by simp
    from Cons.IH [OF this] obtain k where "k < length bm" "i = Suc s + k"
      and k: "j < 8 \<and> \<not> bit (bm ! k) j \<and>
        (\<forall>l<j. bit (bm ! k) l) \<and> (\<forall>m<k. \<forall>l<8. bit (bm ! m) l)"
      by blast
    moreover have "\<forall>l<8. bit ((x # bm) ! m) l" if "m < Suc k" for m
      using k None that by (cases m) (auto simp: free_bit_None)
    ultimately show ?thesis by (intro exI [of _ "Suc k"]) auto
  next
    case (Some l)
    then show ?thesis
      using Cons.prems free_bit_SomeD [OF Some] by (intro exI [of _ 0]) auto
  qed
qed simp

lemma free_found_None: "free_found bm s = None \<longleftrightarrow> (\<forall>n. \<not> frame_free bm n)"
proof -
  have "free_found bm s = None \<longleftrightarrow> (\<forall>k<length bm. \<forall>l<8. bit (bm ! k) l)"
  proof (induction bm arbitrary: s)
    case (Cons x bm)
    then show ?case
      using free_bit_None [of x] by (cases "free_bit x 0") (auto simp: All_less_Suc2)
  qed simp
  also have "\<dots> \<longleftrightarrow> (\<forall>n. \<not> frame_free bm n)"
  proof
    assume r: "\<forall>n. \<not> frame_free bm n"
    show "\<forall>k<length bm. \<forall>l<8. bit (bm ! k) l"
    proof (intro allI impI)
      fix k l :: nat assume "k < length bm" "l < 8"
      then show "bit (bm ! k) l" using r [rule_format, of "8 * k + l"] by (simp add: frame_free_def)
    qed
  qed (auto simp: frame_free_def)
  finally show ?thesis .
qed

lemma frame_free_set:
  assumes "i < length bm" "j < 8"
  shows "frame_free (bm[i := bm ! i OR push_bit j 1]) n \<longleftrightarrow> frame_free bm n \<and> n \<noteq> 8 * i + j"
proof -
  have "n = 8 * i + j \<longleftrightarrow> n div 8 = i \<and> n mod 8 = j" using assms(2) by auto
  then show ?thesis using assms by (auto simp: frame_free_def nth_list_update bit_simps)
qed

lemma clear_frame_ok:
  assumes "i div 8 < length bm"
  shows "\<exists>bm'. clear_frame bm i = Inr bm' \<and> length bm' = length bm \<and>
    (\<forall>n. frame_free bm' n \<longleftrightarrow> frame_free bm n \<or> n = i)"
proof -
  have "n = i \<longleftrightarrow> n div 8 = i div 8 \<and> n mod 8 = i mod 8" for n :: nat
    by (metis div_mult_mod_eq)
  then show ?thesis using assms
    by (auto simp: clear_frame_def frame_free_def nth_list_update bit_simps)
qed

lemma clear_frames_ok:
  assumes "e \<le> 8 * length bm \<or> e \<le> i"
  shows "\<exists>bm'. clear_frames bm i e = Inr bm' \<and> length bm' = length bm \<and>
    (\<forall>n. frame_free bm' n \<longleftrightarrow> frame_free bm n \<or> (i \<le> n \<and> n < e))"
  using assms
proof (induction bm i e rule: clear_frames.induct)
  case (1 bm i e)
  show ?case
  proof (cases "i < e")
    case False
    then show ?thesis by (auto simp: clear_frames.simps [of bm i])
  next
    case True
    then have "i div 8 < length bm" using "1.prems" by auto
    then obtain bm1 where b1: "clear_frame bm i = Inr bm1" "length bm1 = length bm"
      "\<And>n. frame_free bm1 n \<longleftrightarrow> frame_free bm n \<or> n = i"
      using clear_frame_ok by blast
    then obtain bm2 where "clear_frames bm1 (i + 1) e = Inr bm2" "length bm2 = length bm1"
      "\<And>n. frame_free bm2 n \<longleftrightarrow> frame_free bm1 n \<or> (i + 1 \<le> n \<and> n < e)"
      using "1.IH" [OF True b1(1)] "1.prems" True by auto
    then show ?thesis using True b1 by (auto simp: clear_frames.simps [of bm i])
  qed
qed

section \<open>Allocation and release\<close>

lemma less_divmod8:
  fixes m i j :: nat
  assumes "j < 8" "m < 8 * i + j"
  shows "m div 8 < i \<or> m div 8 = i \<and> m mod 8 < j"
proof -
  have "m = 8 * (m div 8) + m mod 8" by simp
  then have "\<not> m div 8 > i" using assms by linarith
  moreover have "m mod 8 < j" if "m div 8 = i" using \<open>m = _\<close> assms(2) that by linarith
  ultimately show ?thesis by linarith
qed

lemma fa_alloc_ok:
  assumes ok: "fa_ok fa" and ret: "fa_alloc fa = Inr (addr, fa')"
  shows "\<exists>n. n \<in> free_frames fa \<and> (\<forall>m\<in>free_frames fa. n \<le> m) \<and> n < 1048576 \<and>
    addr = of_nat (n * 4096) \<and> free_frames fa' = free_frames fa - {n} \<and> fa_ok fa'"
proof -
  have tk: "take (unat (fa_bitmap_size fa)) (fa_bitmap fa) = fa_bitmap fa"
    using ok by (simp add: fa_ok_def)
  obtain i j where f: "free_found (fa_bitmap fa) 0 = Some (i, j)"
    and r: "addr = (of_nat i * 8 + of_nat j) * 4096"
      "fa' = fa\<lparr>fa_bitmap := (fa_bitmap fa)[i := fa_bitmap fa ! i OR push_bit j 1]\<rparr>"
    using ret tk by (auto simp: fa_alloc_def Let_def split: if_splits option.splits)
  have ij: "i < length (fa_bitmap fa)" "j < 8" "\<not> bit (fa_bitmap fa ! i) j"
    "\<And>l. l < j \<Longrightarrow> bit (fa_bitmap fa ! i) l" "\<And>m l. m < i \<Longrightarrow> l < 8 \<Longrightarrow> bit (fa_bitmap fa ! m) l"
    using free_found_Some [OF f] by auto
  let ?n = "8 * i + j"
  have "?n \<in> free_frames fa" using ij(1-3) by (simp add: free_frames_def frame_free_def)
  moreover have "?n \<le> m" if "m \<in> free_frames fa" for m
  proof (rule ccontr)
    assume "\<not> ?n \<le> m"
    then have "m div 8 < i \<or> m div 8 = i \<and> m mod 8 < j" using ij(2) by (simp add: less_divmod8)
    then show False using that ij(4,5) by (auto simp: free_frames_def frame_free_def)
  qed
  moreover have "?n < 1048576" using ij(1,2) ok by (simp add: fa_ok_def)
  moreover have "addr = of_nat (?n * 4096)" by (simp add: r(1))
  moreover have "free_frames fa' = free_frames fa - {?n}"
    using frame_free_set [OF ij(1,2)] by (auto simp: free_frames_def r(2))
  moreover have "fa_ok fa'" using ok by (simp add: fa_ok_def r(2))
  ultimately show ?thesis by blast
qed

lemma fa_alloc_fails: "fa_ok fa \<Longrightarrow> (\<exists>e. fa_alloc fa = Inl e) \<longleftrightarrow> free_frames fa = {}"
  using free_found_None [of "fa_bitmap fa" 0]
  by (auto simp: fa_alloc_def fa_ok_def free_frames_def Let_def split: option.splits)

lemma fa_free_ok:
  assumes ok: "fa_ok fa" and n: "n < 8 * length (fa_bitmap fa)"
  shows "\<exists>fa'. fa_free fa (of_nat (n * 4096)) = Inr fa' \<and> free_frames fa' = insert n (free_frames fa) \<and>
    fa_ok fa' \<and> length (fa_bitmap fa') = length (fa_bitmap fa)"
proof -
  have "n < 1048576" using ok n by (simp add: fa_ok_def)
  then have idx: "unat (of_nat (n * 4096) div 4096 :: u32) = n"
    using unat_of_nat_small [of "n * 4096"] by (simp add: unat_div del: of_nat_mult)
  obtain bm where "clear_frame (fa_bitmap fa) n = Inr bm" "length bm = length (fa_bitmap fa)"
    "\<And>m. frame_free bm m \<longleftrightarrow> frame_free (fa_bitmap fa) m \<or> m = n"
    using clear_frame_ok [of n "fa_bitmap fa"] n less_mult_imp_div_less [of n _ 8]
    by (auto simp: mult.commute)
  then show ?thesis
    using ok idx by (auto simp: fa_free_def fa_ok_def free_frames_def)
qed

section \<open>What a client relies on\<close>

text \<open>
  Paging, the ELF loader and \<open>mmap\<close> take frames one by one. They rely on three laws: a frame
  handed out was available and is so no more, a frame is handed out while one is available, and
  releasing a frame makes it available again.
\<close>

locale frame_source =
  fixes alloc :: "'s \<Rightarrow> (u32 \<times> 's) res"
    and release :: "'s \<Rightarrow> u32 \<Rightarrow> 's res"
    and ok :: "'s \<Rightarrow> bool"
    and avail :: "'s \<Rightarrow> nat set"
    and total :: "'s \<Rightarrow> nat"
  assumes alloc_law: "ok s \<Longrightarrow> alloc s = Inr (a, s') \<Longrightarrow>
      \<exists>n\<in>avail s. a = of_nat (n * 4096) \<and> avail s' = avail s - {n} \<and> ok s' \<and> total s' = total s"
    and alloc_total: "ok s \<Longrightarrow> avail s \<noteq> {} \<Longrightarrow> \<exists>a s'. alloc s = Inr (a, s')"
    and release_law: "ok s \<Longrightarrow> n < total s \<Longrightarrow>
      \<exists>s'. release s (of_nat (n * 4096)) = Inr s' \<and> avail s' = insert n (avail s) \<and> ok s' \<and>
        total s' = total s"
    and avail_bound: "ok s \<Longrightarrow> n \<in> avail s \<Longrightarrow> n < total s"
    and total_bound: "ok s \<Longrightarrow> total s \<le> 1048576"

lemma page_addr_inj:
  assumes "n < 1048576" "k < 1048576"
  shows "(of_nat (n * 4096) :: u32) = of_nat (k * 4096) \<longleftrightarrow> n = k"
proof
  assume "(of_nat (n * 4096) :: u32) = of_nat (k * 4096)"
  then have "unat (of_nat (n * 4096) :: u32) = unat (of_nat (k * 4096) :: u32)" by (rule arg_cong)
  moreover have "unat (of_nat (n * 4096) :: u32) = n * 4096"
    by (rule unat_of_nat_small) (use assms in linarith)
  moreover have "unat (of_nat (k * 4096) :: u32) = k * 4096"
    by (rule unat_of_nat_small) (use assms in linarith)
  ultimately show "n = k" by linarith
qed simp

text \<open>A loop that takes \<open>n\<close> frames.\<close>

fun take_frames :: "('s \<Rightarrow> (u32 \<times> 's) res) \<Rightarrow> 's \<Rightarrow> nat \<Rightarrow> (u32 list \<times> 's) res" where
  "take_frames alloc s 0 = Inr ([], s)"
| "take_frames alloc s (Suc n) =
     (case alloc s of
        Inl e \<Rightarrow> Inl e
      | Inr (a, s1) \<Rightarrow>
          (case take_frames alloc s1 n of Inl e \<Rightarrow> Inl e | Inr (as, s2) \<Rightarrow> Inr (a # as, s2)))"

context frame_source begin

lemma avail_finite: "ok s \<Longrightarrow> finite (avail s)"
  by (rule finite_subset [of _ "{..<total s}"]) (auto dest: avail_bound)

lemma take_frames_law:
  assumes "ok s" "n \<le> card (avail s)"
  shows "\<exists>ns s'. take_frames alloc s n = Inr (map (\<lambda>k. of_nat (k * 4096)) ns, s') \<and>
    length ns = n \<and> distinct ns \<and> set ns \<subseteq> avail s \<and> avail s' = avail s - set ns \<and> ok s' \<and>
    total s' = total s"
  using assms
proof (induction n arbitrary: s)
  case (Suc n)
  then have "avail s \<noteq> {}" by auto
  then obtain a s1 where a: "alloc s = Inr (a, s1)" using alloc_total Suc.prems(1) by blast
  then obtain k where k: "k \<in> avail s" "a = of_nat (k * 4096)" "avail s1 = avail s - {k}" "ok s1"
    "total s1 = total s"
    using alloc_law Suc.prems(1) by blast
  have "n \<le> card (avail s1)" using Suc.prems k avail_finite by simp
  from Suc.IH [OF k(4) this] obtain ns s' where
    ns: "take_frames alloc s1 n = Inr (map (\<lambda>k. of_nat (k * 4096)) ns, s')" "length ns = n"
      "distinct ns" "set ns \<subseteq> avail s1" "avail s' = avail s1 - set ns" "ok s'" "total s' = total s1"
    by blast
  then show ?case using a k by (intro exI [of _ "k # ns"] exI [of _ s']) auto
qed simp

lemma frames_distinct:
  assumes "ok s" "n \<in> avail s" "k \<in> avail s" "of_nat (n * 4096) = (of_nat (k * 4096) :: u32)"
  shows "n = k"
proof -
  have "n < 1048576" "k < 1048576" using assms avail_bound total_bound by (meson order_less_le_trans)+
  then show ?thesis using assms(4) by (simp add: page_addr_inj del: of_nat_mult)
qed

end

lemma free_frames_bound: "n \<in> free_frames fa \<Longrightarrow> n < 8 * length (fa_bitmap fa)"
  by (auto simp: free_frames_def frame_free_def)

interpretation fs: frame_source fa_alloc fa_free fa_ok free_frames "\<lambda>fa. 8 * length (fa_bitmap fa)"
proof unfold_locales
  fix s a s' assume "fa_ok s" "fa_alloc s = Inr (a, s')"
  moreover from this have "length (fa_bitmap s') = length (fa_bitmap s)"
    by (auto simp: fa_alloc_def Let_def split: if_splits option.splits)
  ultimately show "\<exists>n\<in>free_frames s. a = of_nat (n * 4096) \<and> free_frames s' = free_frames s - {n} \<and>
      fa_ok s' \<and> 8 * length (fa_bitmap s') = 8 * length (fa_bitmap s)"
    using fa_alloc_ok by fastforce
next
  fix s assume "fa_ok s" "free_frames s \<noteq> {}"
  then show "\<exists>a s'. fa_alloc s = Inr (a, s')"
    using fa_alloc_fails [of s] by (cases "fa_alloc s") auto
next
  fix s n assume "fa_ok s" "n < 8 * length (fa_bitmap s)"
  then show "\<exists>s'. fa_free s (of_nat (n * 4096)) = Inr s' \<and> free_frames s' = insert n (free_frames s) \<and>
      fa_ok s' \<and> 8 * length (fa_bitmap s') = 8 * length (fa_bitmap s)"
    using fa_free_ok by fastforce
qed (simp_all add: free_frames_bound, simp add: fa_ok_def)

section \<open>Runs of the frame allocator\<close>

text \<open>
  The states reachable from \<open>fa0\<close> by allocations and by releases of frames that are held;
  the set holds the frames handed out and not released.
\<close>

inductive frame_run :: "frame_alloc \<Rightarrow> frame_alloc \<Rightarrow> u32 set \<Rightarrow> bool" for fa0 where
  start: "frame_run fa0 fa0 {}"
| alloc: "frame_run fa0 fa H \<Longrightarrow> fa_alloc fa = Inr (a, fa') \<Longrightarrow> frame_run fa0 fa' (insert a H)"
| release: "frame_run fa0 fa H \<Longrightarrow> a \<in> H \<Longrightarrow> fa_free fa a = Inr fa' \<Longrightarrow> frame_run fa0 fa' (H - {a})"

definition frame_addr :: "nat \<Rightarrow> u32" where "frame_addr n = of_nat (n * 4096)"

lemma frame_addr_inj: "n < 1048576 \<Longrightarrow> k < 1048576 \<Longrightarrow> frame_addr n = frame_addr k \<longleftrightarrow> n = k"
  by (simp add: frame_addr_def page_addr_inj del: of_nat_mult)

lemma frame_run_split:
  assumes "frame_run fa0 fa H" and "fa_ok fa0"
  shows "\<exists>N. H = frame_addr ` N \<and> N \<inter> free_frames fa = {} \<and> N \<union> free_frames fa = free_frames fa0 \<and>
    fa_ok fa \<and> length (fa_bitmap fa) = length (fa_bitmap fa0)"
  using assms
proof (induction rule: frame_run.induct)
  case start
  then show ?case by (intro exI [of _ "{}"]) auto
next
  case (alloc fa H a fa')
  then obtain N where N: "H = frame_addr ` N" "N \<inter> free_frames fa = {}"
    "N \<union> free_frames fa = free_frames fa0" "fa_ok fa" "length (fa_bitmap fa) = length (fa_bitmap fa0)"
    by blast
  from fs.alloc_law [OF N(4) alloc.hyps(2)] obtain n where "n \<in> free_frames fa" "a = frame_addr n"
    "free_frames fa' = free_frames fa - {n}" "fa_ok fa'"
    "length (fa_bitmap fa') = length (fa_bitmap fa)"
    by (auto simp: frame_addr_def)
  then show ?case using N by (intro exI [of _ "insert n N"]) auto
next
  case (release fa H a fa')
  then obtain N where N: "H = frame_addr ` N" "N \<inter> free_frames fa = {}"
    "N \<union> free_frames fa = free_frames fa0" "fa_ok fa" "length (fa_bitmap fa) = length (fa_bitmap fa0)"
    by blast
  then obtain n where n: "n \<in> N" "a = frame_addr n" using release.hyps(2) by blast
  have bound: "k < 8 * length (fa_bitmap fa0)" "k < 1048576" if "k \<in> N" for k
  proof -
    show "k < 8 * length (fa_bitmap fa0)" using N(3) that free_frames_bound by blast
    then show "k < 1048576" using release.prems by (simp add: fa_ok_def)
  qed
  from fa_free_ok [OF N(4), of n] bound(1) [OF n(1)] N(5) n(2) release.hyps(3)
  have r: "free_frames fa' = insert n (free_frames fa)" "fa_ok fa'"
    "length (fa_bitmap fa') = length (fa_bitmap fa)"
    by (auto simp: frame_addr_def)
  have "H - {a} = frame_addr ` (N - {n})"
    using N(1) n bound(2) by (auto simp: frame_addr_inj)
  then show ?case using r N n by (intro exI [of _ "N - {n}"]) auto
qed

section \<open>Properties\<close>

text \<open>
  \<open>fa_alloc\<close> returns the lowest free frame and takes it out of the free set, or panics, and it
  panics only when no frame is free.
\<close>

theorem fa_alloc_first_fit:
  assumes "fa_ok fa"
  shows "(free_frames fa = {} \<and> fa_alloc fa = Inl (KPanic ''no free frame available'')) \<or>
    (\<exists>fa'. free_frames fa \<noteq> {} \<and> fa_alloc fa = Inr (frame_addr (LEAST n. n \<in> free_frames fa), fa') \<and>
      fa_ok fa' \<and> free_frames fa' = free_frames fa - {LEAST n. n \<in> free_frames fa})"
proof (cases "fa_alloc fa")
  case (Inl e)
  then have "free_frames fa = {}" using fa_alloc_fails [OF assms] by blast
  then show ?thesis
    using Inl assms by (auto simp: fa_alloc_def fa_ok_def Let_def split: option.splits)
next
  case (Inr r)
  obtain a fa' where r: "r = (a, fa')" by (cases r)
  from fa_alloc_ok [OF assms Inr [unfolded r]] obtain n where
    n: "n \<in> free_frames fa" "\<forall>m\<in>free_frames fa. n \<le> m" "a = frame_addr n"
      "free_frames fa' = free_frames fa - {n}" "fa_ok fa'"
    by (auto simp: frame_addr_def)
  moreover have "(LEAST n. n \<in> free_frames fa) = n" using n(1,2) by (intro Least_equality) auto
  ultimately show ?thesis using Inr r by auto
qed

definition demo_frames :: frame_alloc where
  "demo_frames = \<lparr>fa_bitmap = [0xFF, 0xF7, 0], fa_bitmap_size = 3, fa_initialized = True\<rparr>"

lemma demo_frames_ok: "fa_ok demo_frames"
  by (simp add: fa_ok_def demo_frames_def)

lemma demo_frames_alloc:
  "fa_alloc demo_frames = Inr (0xB000, demo_frames\<lparr>fa_bitmap := [0xFF, 0xFF, 0]\<rparr>)"
  by code_simp

theorem fa_alloc_first_fit_witness:
  "free_frames demo_frames \<noteq> {} \<and> frame_addr (LEAST n. n \<in> free_frames demo_frames) = 0xB000"
  using fa_alloc_first_fit [OF demo_frames_ok] demo_frames_alloc by auto

text \<open>
  C4. Over any sequence of allocations and releases of held frames, no frame is held twice, none is
  lost, and releasing a held frame always succeeds: the frames held and the frames free are a
  partition of the frames \<open>fa_init\<close> left free.
\<close>

theorem frame_run_conserves:
  assumes "frame_run fa0 fa H" and "fa_ok fa0"
  shows "H \<inter> frame_addr ` free_frames fa = {} \<and>
    H \<union> frame_addr ` free_frames fa = frame_addr ` free_frames fa0 \<and>
    card H + card (free_frames fa) = card (free_frames fa0) \<and>
    (\<forall>a\<in>H. \<exists>fa'. fa_free fa a = Inr fa') \<and>
    (\<forall>a fa'. fa_alloc fa = Inr (a, fa') \<longrightarrow> a \<notin> H)"
proof -
  obtain N where N: "H = frame_addr ` N" "N \<inter> free_frames fa = {}"
    "N \<union> free_frames fa = free_frames fa0" "fa_ok fa" "length (fa_bitmap fa) = length (fa_bitmap fa0)"
    using frame_run_split [OF assms] by blast
  have b: "n < 8 * length (fa_bitmap fa)" "n < 1048576" if "n \<in> N \<union> free_frames fa" for n
    using that N(3,5) free_frames_bound [of n fa0] assms(2) by (auto simp: fa_ok_def)
  have inj: "inj_on frame_addr (N \<union> free_frames fa)"
    using b(2) by (auto intro!: inj_onI simp: frame_addr_inj)
  have fin: "finite N" "finite (free_frames fa)"
    using N(3) fs.avail_finite [OF assms(2)] by (metis finite_Un)+
  have disj: "H \<inter> frame_addr ` free_frames fa = {}"
    using inj_on_image_Int [OF inj, of N "free_frames fa"] N(1,2) by simp
  moreover have "H \<union> frame_addr ` free_frames fa = frame_addr ` free_frames fa0"
    using N(1,3) by auto
  moreover have "card H + card (free_frames fa) = card (free_frames fa0)"
  proof -
    have "card H = card N" unfolding N(1) using inj by (intro card_image) (auto intro: inj_on_subset)
    then show ?thesis using card_Un_disjoint [of N "free_frames fa"] N(2,3) fin by simp
  qed
  moreover have "\<exists>fa'. fa_free fa a = Inr fa'" if "a \<in> H" for a
  proof -
    obtain n where n: "n \<in> N" "a = of_nat (n * 4096)" using \<open>a \<in> H\<close> N(1) unfolding frame_addr_def by blast
    then show ?thesis using fa_free_ok [OF N(4) b(1), of n] by blast
  qed
  moreover have "a \<notin> H" if "fa_alloc fa = Inr (a, fa')" for a fa'
    using fs.alloc_law [OF N(4) that] disj by (auto simp: frame_addr_def simp del: of_nat_mult)
  ultimately show ?thesis by blast
qed

lemma demo_frame_run:
  "frame_run demo_frames (demo_frames\<lparr>fa_bitmap := [0xFF, 0xFF, 0]\<rparr>) {0xB000}"
  using frame_run.alloc [OF frame_run.start demo_frames_alloc] by simp

theorem frame_run_conserves_witness:
  "\<exists>fa'. fa_free (demo_frames\<lparr>fa_bitmap := [0xFF, 0xFF, 0]\<rparr>) 0xB000 = Inr fa'"
  using frame_run_conserves [OF demo_frame_run demo_frames_ok] by blast

text \<open>
  What \<open>fa_init\<close> leaves: when it returns, exactly the frames from the end of the heap up to
  the end of the usable region are free, rounded down at both ends. With a usable region that ends
  inside the bitmap it returns.
\<close>

theorem fa_init_free_frames:
  assumes "entries \<noteq> []"
    and "unat (end_addr (mmap_get_usable_entry entries) div 4096) \<le>
      8 * unat (max_end_addr (end_addr (hd entries)) entries div 4096 div 8)"
  shows "\<exists>fa'. fa_init kernel_phys_end heap_sz entries fa = Inr fa' \<and> fa_ok fa' \<and>
    free_frames fa' = {n. unat ((kernel_phys_end + heap_sz) div 4096) \<le> n \<and>
      n < unat (end_addr (mmap_get_usable_entry entries) div 4096)}"
proof -
  let ?n = "max_end_addr (end_addr (hd entries)) entries div 4096 div 8"
  let ?bm = "replicate (unat ?n) (0xFF :: u8)"
  have ff: "bit (0xFF :: u8) j" if "j < 8" for j
  proof -
    have "(0xFF :: u8) = - 1" by simp
    then show ?thesis using that by (simp only: bit_minus_1_iff) simp
  qed
  have none: "\<not> frame_free ?bm k" for k using ff [of "k mod 8"] by (simp add: frame_free_def)
  have len: "unat ?n \<le> 131072"
  proof -
    have "x div 4096 div 8 \<le> 131072" if "x < 4294967296" for x :: nat using that by linarith
    then show ?thesis unfolding unat_div by simp
  qed
  obtain e0 es where es: "entries = e0 # es" using assms(1) by (cases entries) auto
  have "unat (end_addr (mmap_get_usable_entry entries) div 4096) \<le> 8 * length ?bm"
    using assms(2) by simp
  from clear_frames_ok [OF disjI1, OF this, of "unat ((kernel_phys_end + heap_sz) div 4096)"]
  obtain bm where "clear_frames ?bm (unat ((kernel_phys_end + heap_sz) div 4096))
      (unat (end_addr (mmap_get_usable_entry entries) div 4096)) = Inr bm" "length bm = length ?bm"
    "\<And>n. frame_free bm n \<longleftrightarrow> frame_free ?bm n \<or> (unat ((kernel_phys_end + heap_sz) div 4096) \<le> n \<and>
       n < unat (end_addr (mmap_get_usable_entry entries) div 4096))"
    by blast
  then show ?thesis
    using none len by (auto simp: fa_init_def fa_init_alloc_bitmap_def es Let_def fa_ok_def free_frames_def
        simp del: mmap_get_usable_entry.simps)
qed

text \<open>The map of a machine with 128 MiB of memory, and the kernel's image and heap before it.\<close>

definition demo_mmap :: "mmap_entry list" where
  "demo_mmap =
     [\<lparr>base_addr = 0, region_len = 0x9FC00, region_type = 1\<rparr>,
      \<lparr>base_addr = 0x100000, region_len = 0x7EE0000, region_type = 1\<rparr>,
      \<lparr>base_addr = 0x7FE0000, region_len = 0x20000, region_type = 2\<rparr>]"

theorem fa_init_free_frames_witness:
  "\<exists>fa'. fa_init 0x33F30 0x400000 demo_mmap undefined = Inr fa' \<and> 0x433 \<in> free_frames fa' \<and>
     0x433 * 4096 < unat ((0x33F30 :: u32) + 0x400000)"
proof -
  have u: "end_addr (mmap_get_usable_entry demo_mmap) = 0x7FE0000"
    "max_end_addr (end_addr (hd demo_mmap)) demo_mmap = 0x8000000" by code_simp+
  have "\<exists>fa'. fa_init 0x33F30 0x400000 demo_mmap undefined = Inr fa' \<and> fa_ok fa' \<and>
    free_frames fa' = {n. unat (((0x33F30 :: u32) + 0x400000) div 4096) \<le> n \<and>
      n < unat (end_addr (mmap_get_usable_entry demo_mmap) div 4096)}"
    by (rule fa_init_free_frames) (simp_all add: u, simp add: demo_mmap_def)
  then obtain fa' where "fa_init 0x33F30 0x400000 demo_mmap undefined = Inr fa'"
    "free_frames fa' = {n. 0x433 \<le> n \<and> n < 0x7FE0}"
    by (auto simp: u)
  then show ?thesis by simp
qed

text \<open>
  The bitmap can be one byte too short: its size is the highest end address over 32 KiB, rounded
  down, so a usable region that is the highest and does not end on a 32 KiB boundary makes \<open>fa_init\<close>
  clear a bit of the byte behind the bitmap.
\<close>

theorem fa_init_bitmap_overrun:
  assumes "unat ((kernel_phys_end + heap_sz) div 4096) < unat (end_addr e div 4096)"
    and "region_type e = MMAP_REGTYPE_USABLE" and "base_addr e \<ge> 0x100000"
    and "unat (end_addr e div 4096) mod 8 \<noteq> 0"
  shows "fa_init kernel_phys_end heap_sz [e] fa = Inl (KFault ''fa_bitmap index'')"
proof -
  have oob: "clear_frames bm i n = Inl (KFault ''fa_bitmap index'')"
    if "i < n" "length bm * 8 < n" for bm i n
    using that
  proof (induction bm i n rule: clear_frames.induct)
    case (1 bm i n)
    show ?case
    proof (cases "clear_frame bm i")
      case (Inl e)
      then show ?thesis using 1 by (auto simp: clear_frames.simps [of bm i] clear_frame_def split: if_splits)
    next
      case (Inr bm')
      then have "length bm' = length bm" "i < length bm * 8"
        by (auto simp: clear_frame_def split: if_splits)
      then show ?thesis using "1.IH" [OF "1.prems"(1) Inr] Inr "1.prems"
        by (simp add: clear_frames.simps [of bm i])
    qed
  qed
  have "unat (end_addr e div 4096 div 8) * 8 < unat (end_addr e div 4096)"
    using assms(4) by (simp add: unat_div) (metis div_mod_decomp less_add_same_cancel1 not_gr_zero)
  then show ?thesis
    using assms oob [of "unat ((kernel_phys_end + heap_sz) div 4096)"]
    by (simp add: fa_init_def fa_init_alloc_bitmap_def Let_def)
qed

theorem fa_init_bitmap_overrun_witness:
  "fa_init 0x33F30 0x400000 [\<lparr>base_addr = 0x100000, region_len = 0x501000, region_type = 1\<rparr>] undefined =
     Inl (KFault ''fa_bitmap index'')"
  by (rule fa_init_bitmap_overrun)
     (simp_all add: end_addr_def MMAP_REGTYPE_USABLE_def unat_div)

end
