(* ===== verification/Paging.thy ===== *)
theory Paging
  imports Frame
begin

text \<open>
  Paging, \<open>kernel/mm/src/paging.c\<close>: page directories and page tables built in physical frames
  through the direct map at \<open>0xC0000000\<close>. The processor's page walk is the specification the
  tables are checked against: what \<open>paging_map\<close> writes is what the MMU reads.
\<close>

section \<open>State and operations\<close>

text \<open>
  The memory is read and written here in aligned 32-bit words only, by their virtual address.
\<close>

record paging =
  pg_mem :: "u32 \<Rightarrow> u32"
  pg_frames :: frame_alloc
  kernel_pd :: u32
  paging_initialized :: bool
  pg_cr3 :: u32

definition PHYS_TO_VIRT :: "u32 \<Rightarrow> u32" where "PHYS_TO_VIRT addr = addr + KERNEL_VIRT_BASE"
definition VIRT_TO_PHYS :: "u32 \<Rightarrow> u32" where "VIRT_TO_PHYS addr = addr - KERNEL_VIRT_BASE"

definition PAGING_PD_ENTRY_FLAGS_KERNEL_ONLY :: u8 where "PAGING_PD_ENTRY_FLAGS_KERNEL_ONLY = 0x3"
definition PAGING_FLAGS_USER :: u8 where "PAGING_FLAGS_USER = 0x7"

text \<open>\<open>pd->entries[i]\<close> and \<open>pt->entries[i]\<close> are the words at these addresses.\<close>

definition entry_addr :: "u32 \<Rightarrow> u32 \<Rightarrow> u32" where "entry_addr pd i = pd + 4 * i"

definition paging_map :: "paging \<Rightarrow> u32 \<Rightarrow> u32 \<Rightarrow> u32 \<Rightarrow> u8 \<Rightarrow> paging res" where
  "paging_map pg pd paddr vaddr flags =
     (if \<not> paging_initialized pg then Inl (KPanic ''PAGING_NOT_INITIALIZED'')
      else
        let pde = entry_addr pd (drop_bit 22 vaddr)
        in case (if pg_mem pg pde = 0
                 then (case fa_alloc (pg_frames pg) of
                         Inl e \<Rightarrow> Inl e
                       | Inr (frame, fr) \<Rightarrow>
                           Inr (pg\<lparr>pg_mem := (pg_mem pg)(pde := frame OR ucast flags), pg_frames := fr\<rparr>))
                 else Inr pg) of
             Inl e \<Rightarrow> Inl e
           | Inr pg1 \<Rightarrow>
               (let pt_index = drop_bit 12 vaddr AND 0x3FF;
                    pt = PHYS_TO_VIRT (pg_mem pg1 pde AND 0xFFFFF000)
                in Inr (pg1\<lparr>pg_mem := (pg_mem pg1)(entry_addr pt pt_index := paddr OR ucast flags)\<rparr>)))"

fun fill_entries :: "(nat \<Rightarrow> u32) \<Rightarrow> u32 \<Rightarrow> nat \<Rightarrow> nat \<Rightarrow> (u32 \<Rightarrow> u32) \<Rightarrow> u32 \<Rightarrow> u32" where
  "fill_entries v pd i 0 m = m"
| "fill_entries v pd i (Suc n) m = fill_entries v pd (i + 1) n (m(entry_addr pd (of_nat i) := v i))"

definition paging_create_pd :: "paging \<Rightarrow> (u32 \<times> paging) res" where
  "paging_create_pd pg =
     (if \<not> paging_initialized pg then Inl (KPanic ''PAGING_NOT_INITIALIZED'')
      else case fa_alloc (pg_frames pg) of
        Inl e \<Rightarrow> Inl e
      | Inr (pd_phys, fr) \<Rightarrow>
          (let pd = PHYS_TO_VIRT pd_phys;
               m1 = fill_entries (\<lambda>i. 0) pd 0 768 (pg_mem pg);
               m2 = fill_entries (\<lambda>i. m1 (entry_addr (kernel_pd pg) (of_nat i))) pd 768 256 m1
           in Inr (pd, pg\<lparr>pg_mem := m2, pg_frames := fr\<rparr>)))"

definition paging_switch :: "paging \<Rightarrow> u32 \<Rightarrow> paging res" where
  "paging_switch pg pd =
     (if \<not> paging_initialized pg then Inl (KPanic ''PAGING_NOT_INITIALIZED'')
      else Inr (pg\<lparr>pg_cr3 := VIRT_TO_PHYS pd\<rparr>))"

definition paging_get_kernel_pd :: "paging \<Rightarrow> u32 res" where
  "paging_get_kernel_pd pg =
     (if \<not> paging_initialized pg then Inl (KPanic ''PAGING_NOT_INITIALIZED'') else Inr (kernel_pd pg))"

text \<open>
  The loop of \<open>paging_kernel_init\<close>; \<open>phys_end_aligned\<close> is a multiple of 4096, so the loop runs
  \<open>phys_end_aligned / 4096\<close> times and \<open>addr\<close> is \<open>4096 * i\<close>.
\<close>

fun direct_map :: "paging \<Rightarrow> u32 \<Rightarrow> u32 \<Rightarrow> nat \<Rightarrow> paging res" where
  "direct_map pg pd addr 0 = Inr pg"
| "direct_map pg pd addr (Suc n) =
     (case paging_map pg pd addr (PHYS_TO_VIRT addr) PAGING_PD_ENTRY_FLAGS_KERNEL_ONLY of
        Inl e \<Rightarrow> Inl e
      | Inr pg1 \<Rightarrow> direct_map pg1 pd (addr + 4096) n)"

definition paging_kernel_init :: "mmap_entry list \<Rightarrow> paging \<Rightarrow> (u32 \<times> paging) res" where
  "paging_kernel_init entries pg =
     (case fa_alloc (pg_frames pg) of
        Inl e \<Rightarrow> Inl e
      | Inr (pd_phys, fr) \<Rightarrow>
          (let pd = PHYS_TO_VIRT pd_phys;
               pg1 = pg\<lparr>pg_frames := fr, kernel_pd := pd, paging_initialized := True,
                        pg_mem := fill_entries (\<lambda>i. 0) pd 0 1024 (pg_mem pg)\<rparr>;
               phys_end = end_addr (mmap_get_usable_entry entries);
               phys_end_aligned = (phys_end + 0xFFF) AND NOT 0xFFF
           in case direct_map pg1 pd 0 (unat (phys_end_aligned div 4096)) of
                Inl e \<Rightarrow> Inl e
              | Inr pg2 \<Rightarrow> Inr (pd, pg2\<lparr>pg_cr3 := VIRT_TO_PHYS pd\<rparr>)))"

section \<open>The page walk of the processor\<close>

text \<open>
  Two levels, 4 KiB pages. A present entry has bit 0, an entry user code may use bit 2. The result
  is the physical address and whether user mode may access it; \<open>None\<close> is a page fault. Tables are
  read through the direct map, where the kernel writes them. Whether user mode may also write is
  \<open>write_allowed\<close>, bit 1 of both entries; the kernel runs with the write protection of CR0 off.
\<close>

definition translate :: "(u32 \<Rightarrow> u32) \<Rightarrow> u32 \<Rightarrow> u32 \<Rightarrow> (u32 \<times> bool) option" where
  "translate m cr3 va =
     (let pde = m (entry_addr (PHYS_TO_VIRT cr3) (drop_bit 22 va));
          pte = m (entry_addr (PHYS_TO_VIRT (pde AND 0xFFFFF000)) (drop_bit 12 va AND 0x3FF))
      in if bit pde 0 \<and> bit pte 0
         then Some ((pte AND 0xFFFFF000) OR (va AND 0xFFF), bit pde 2 \<and> bit pte 2)
         else None)"

definition write_allowed :: "(u32 \<Rightarrow> u32) \<Rightarrow> u32 \<Rightarrow> u32 \<Rightarrow> bool" where
  "write_allowed m cr3 va =
     (let pde = m (entry_addr (PHYS_TO_VIRT cr3) (drop_bit 22 va));
          pte = m (entry_addr (PHYS_TO_VIRT (pde AND 0xFFFFF000)) (drop_bit 12 va AND 0x3FF))
      in bit pde 1 \<and> bit pte 1)"

section \<open>Slots: words of a frame\<close>

definition slot :: "nat \<Rightarrow> nat \<Rightarrow> u32" where
  "slot n i = entry_addr (PHYS_TO_VIRT (frame_addr n)) (of_nat i)"

lemma slot_inj:
  assumes "n < 1048576" "k < 1048576" "i < 1024" "j < 1024"
  shows "slot n i = slot k j \<longleftrightarrow> n = k \<and> i = j"
proof
  assume "slot n i = slot k j"
  then have "(of_nat (n * 4096 + 4 * i) :: u32) = of_nat (k * 4096 + 4 * j)"
    by (simp add: slot_def entry_addr_def PHYS_TO_VIRT_def frame_addr_def algebra_simps)
  then have "unat (of_nat (n * 4096 + 4 * i) :: u32) = unat (of_nat (k * 4096 + 4 * j) :: u32)"
    by (rule arg_cong)
  moreover have "unat (of_nat (n * 4096 + 4 * i) :: u32) = n * 4096 + 4 * i"
    "unat (of_nat (k * 4096 + 4 * j) :: u32) = k * 4096 + 4 * j"
    by (rule unat_of_nat_small; use assms in linarith)+
  ultimately have eq: "n * 1024 + i = k * 1024 + j" by linarith
  have "n = (n * 1024 + i) div 1024" "k = (k * 1024 + j) div 1024" using assms by simp_all
  then have "n = k" using eq by metis
  then show "n = k \<and> i = j" using eq by simp
qed simp

definition pd_index :: "u32 \<Rightarrow> nat" where "pd_index va = unat (drop_bit 22 va)"
definition pt_index :: "u32 \<Rightarrow> nat" where "pt_index va = unat (drop_bit 12 va AND 0x3FF)"

lemma pd_index_bound [simp]: "pd_index va < 1024"
proof -
  have "unat va div 4194304 < 1024" using unat_bound32 [of va] by linarith
  then show ?thesis by (simp add: pd_index_def drop_bit_eq_div unat_div)
qed

lemma pd_index_half: "pd_index va < 768 \<longleftrightarrow> unat va < 0xC0000000"
proof -
  have "x div 4194304 < 768 \<longleftrightarrow> x < 0xC0000000" for x :: nat by linarith
  from this [of "unat va"] show ?thesis by (simp add: pd_index_def drop_bit_eq_div unat_div)
qed

lemma pt_index_bound [simp]: "pt_index va < 1024"
proof -
  have "(0x3FF :: u32) = mask 10" by (simp add: mask_eq_exp_minus_1)
  then have "drop_bit 12 va AND 0x3FF = take_bit 10 (drop_bit 12 va)" by (simp only: take_bit_eq_mask)
  then have "pt_index va = take_bit 10 (unat (drop_bit 12 va))"
    by (simp add: pt_index_def unsigned_take_bit_eq)
  then show ?thesis using take_bit_nat_less_exp [of 10] by simp
qed

lemma page_mask: "(0xFFFFF000 :: u32) = NOT (mask 12)"
  by (simp add: mask_eq_exp_minus_1)

lemma page_offset_mask: "(0xFFF :: u32) = mask 12"
  by (simp add: mask_eq_exp_minus_1)

text \<open>The frame an entry points at.\<close>

definition entry_frame :: "u32 \<Rightarrow> nat" where "entry_frame e = unat (drop_bit 12 e)"

lemma entry_frame_bound [simp]: "entry_frame e < 1048576"
proof -
  have "unat e div 4096 < 1048576" using unat_bound32 [of e] by linarith
  then show ?thesis by (simp add: entry_frame_def drop_bit_eq_div unat_div)
qed

lemma frame_addr_shift: "frame_addr n = push_bit 12 (of_nat n)"
  by (simp add: frame_addr_def push_bit_eq_mult)

lemma entry_base: "e AND 0xFFFFF000 = frame_addr (entry_frame e)"
proof -
  have "frame_addr (entry_frame e) = push_bit 12 (drop_bit 12 e)"
    by (simp add: frame_addr_shift entry_frame_def)
  also have "\<dots> = e AND NOT (mask 12)"
    by (rule bit_word_eqI) (auto simp: bit_simps)
  finally show ?thesis by (simp only: page_mask)
qed

lemma entry_slot: "entry_addr (PHYS_TO_VIRT (e AND 0xFFFFF000)) (drop_bit 12 va AND 0x3FF)
    = slot (entry_frame e) (pt_index va)"
  by (simp add: slot_def entry_base pt_index_def)

lemma pde_slot: "entry_addr (PHYS_TO_VIRT (frame_addr d)) (drop_bit 22 va) = slot d (pd_index va)"
  by (simp add: slot_def pd_index_def)

lemma entry_frame_flags:
  assumes "n < 1048576"
  shows "entry_frame (frame_addr n OR ucast (fl :: u8)) = n"
proof -
  have "drop_bit 12 (frame_addr n OR ucast fl) = of_nat n"
  proof (rule bit_word_eqI)
    fix b assume "b < LENGTH(32)"
    show "bit (drop_bit 12 (frame_addr n OR ucast fl)) b = bit (of_nat n :: u32) b"
    proof (cases "b < 20")
      case True
      then show ?thesis
        by (auto simp: frame_addr_shift bit_simps dest: bit_imp_le_length)
    next
      case False
      have "n < 2 ^ 20" using assms by simp
      then have "\<not> bit n b"
        using False by (metis bit_take_bit_iff take_bit_nat_eq_self not_less)
      then show ?thesis using False
        by (auto simp: frame_addr_shift bit_simps dest: bit_imp_le_length)
    qed
  qed
  then show ?thesis using assms by (simp add: entry_frame_def unat_of_nat_small)
qed

lemma bit_or_flags: "bit (fl :: u8) k \<Longrightarrow> bit (x OR ucast fl :: u32) k"
  by (auto simp: bit_simps dest: bit_imp_le_length)

lemma page_split: "drop_bit 12 va = drop_bit 12 vb \<longleftrightarrow> pd_index va = pd_index vb \<and> pt_index va = pt_index vb"
proof -
  have pt: "pt_index v = entry_frame v mod 1024" "pd_index v = entry_frame v div 1024" for v
  proof -
    have "(0x3FF :: u32) = mask 10" by (simp add: mask_eq_exp_minus_1)
    then have "drop_bit 12 v AND 0x3FF = take_bit 10 (drop_bit 12 v)" by (simp only: take_bit_eq_mask)
    then show "pt_index v = entry_frame v mod 1024"
      by (simp add: pt_index_def entry_frame_def unsigned_take_bit_eq take_bit_eq_mod unat_mod)
    have "drop_bit 22 v = drop_bit 10 (drop_bit 12 v)" by simp
    then show "pd_index v = entry_frame v div 1024"
      by (simp only: pd_index_def entry_frame_def unat_drop_bit_eq) (simp add: drop_bit_eq_div)
  qed
  have "drop_bit 12 va = drop_bit 12 vb \<longleftrightarrow> entry_frame va = entry_frame vb"
    by (simp add: entry_frame_def word_unat_eq_iff)
  also have "\<dots> \<longleftrightarrow> pd_index va = pd_index vb \<and> pt_index va = pt_index vb"
    unfolding pt by (metis div_mult_mod_eq)
  finally show ?thesis .
qed

text \<open>The page walk over slots.\<close>

definition pde_of :: "(u32 \<Rightarrow> u32) \<Rightarrow> nat \<Rightarrow> nat \<Rightarrow> u32" where "pde_of m d i = m (slot d i)"

lemma translate_slots:
  "translate m (frame_addr d) va =
     (let pde = m (slot d (pd_index va)); pte = m (slot (entry_frame pde) (pt_index va))
      in if bit pde 0 \<and> bit pte 0
         then Some ((pte AND 0xFFFFF000) OR (va AND 0xFFF), bit pde 2 \<and> bit pte 2) else None)"
  by (simp only: translate_def pde_slot entry_slot)

lemma write_allowed_slots:
  "write_allowed m (frame_addr d) va =
     (let pde = m (slot d (pd_index va)); pte = m (slot (entry_frame pde) (pt_index va)) in bit pde 1 \<and> bit pte 1)"
  by (simp only: write_allowed_def pde_slot entry_slot)

section \<open>Address spaces\<close>

text \<open>
  \<open>spaces pg D\<close>: the frames in \<open>D\<close> hold page directories that can be live together. Every table a
  directory points at is a frame that is neither free nor a directory, and two entries point at
  the same table only in the kernel half, at the same index.
\<close>

definition spaces :: "paging \<Rightarrow> nat set \<Rightarrow> bool" where
  "spaces pg D \<longleftrightarrow> paging_initialized pg \<and> fa_ok (pg_frames pg) \<and>
     D \<subseteq> {..<1048576} - free_frames (pg_frames pg) \<and>
     (\<forall>d\<in>D. \<forall>i<1024. pg_mem pg (slot d i) \<noteq> 0 \<longrightarrow> bit (pg_mem pg (slot d i)) 0 \<and>
        entry_frame (pg_mem pg (slot d i)) \<notin> D \<union> free_frames (pg_frames pg)) \<and>
     (\<forall>d\<in>D. \<forall>d'\<in>D. \<forall>i<1024. \<forall>j<1024. pg_mem pg (slot d i) \<noteq> 0 \<longrightarrow> pg_mem pg (slot d' j) \<noteq> 0 \<longrightarrow>
        entry_frame (pg_mem pg (slot d i)) = entry_frame (pg_mem pg (slot d' j)) \<longrightarrow>
        i = j \<and> (d = d' \<or> 768 \<le> i))"

lemma spacesI:
  assumes "paging_initialized pg" "fa_ok (pg_frames pg)"
    and "\<And>d. d \<in> D \<Longrightarrow> d < 1048576 \<and> d \<notin> free_frames (pg_frames pg)"
    and "\<And>d i. d \<in> D \<Longrightarrow> i < 1024 \<Longrightarrow> pg_mem pg (slot d i) \<noteq> 0 \<Longrightarrow> bit (pg_mem pg (slot d i)) 0 \<and>
        entry_frame (pg_mem pg (slot d i)) \<notin> D \<and>
        entry_frame (pg_mem pg (slot d i)) \<notin> free_frames (pg_frames pg)"
    and "\<And>d d' i j. d \<in> D \<Longrightarrow> d' \<in> D \<Longrightarrow> i < 1024 \<Longrightarrow> j < 1024 \<Longrightarrow>
        pg_mem pg (slot d i) \<noteq> 0 \<Longrightarrow> pg_mem pg (slot d' j) \<noteq> 0 \<Longrightarrow>
        entry_frame (pg_mem pg (slot d i)) = entry_frame (pg_mem pg (slot d' j)) \<Longrightarrow>
        i = j \<and> (d = d' \<or> 768 \<le> i)"
  shows "spaces pg D"
  unfolding spaces_def using assms by blast

lemma spacesD:
  assumes "spaces pg D"
  shows "paging_initialized pg" "fa_ok (pg_frames pg)"
    and "d \<in> D \<Longrightarrow> d < 1048576" "d \<in> D \<Longrightarrow> d \<notin> free_frames (pg_frames pg)"
    and "d \<in> D \<Longrightarrow> i < 1024 \<Longrightarrow> pg_mem pg (slot d i) \<noteq> 0 \<Longrightarrow> bit (pg_mem pg (slot d i)) 0"
    and "d \<in> D \<Longrightarrow> i < 1024 \<Longrightarrow> pg_mem pg (slot d i) \<noteq> 0 \<Longrightarrow> entry_frame (pg_mem pg (slot d i)) \<notin> D"
    and "d \<in> D \<Longrightarrow> i < 1024 \<Longrightarrow> pg_mem pg (slot d i) \<noteq> 0 \<Longrightarrow>
        entry_frame (pg_mem pg (slot d i)) \<notin> free_frames (pg_frames pg)"
    and "d \<in> D \<Longrightarrow> d' \<in> D \<Longrightarrow> i < 1024 \<Longrightarrow> j < 1024 \<Longrightarrow>
        pg_mem pg (slot d i) \<noteq> 0 \<Longrightarrow> pg_mem pg (slot d' j) \<noteq> 0 \<Longrightarrow>
        entry_frame (pg_mem pg (slot d i)) = entry_frame (pg_mem pg (slot d' j)) \<Longrightarrow>
        i = j \<and> (d = d' \<or> 768 \<le> i)"
  using assms unfolding spaces_def by blast+

text \<open>The first half of \<open>paging_map\<close>: the directory entry exists afterwards.\<close>

definition with_table :: "paging \<Rightarrow> nat \<Rightarrow> nat \<Rightarrow> u8 \<Rightarrow> paging res" where
  "with_table pg d i flags =
     (if pg_mem pg (slot d i) = 0
      then (case fa_alloc (pg_frames pg) of
              Inl e \<Rightarrow> Inl e
            | Inr (frame, fr) \<Rightarrow>
                Inr (pg\<lparr>pg_mem := (pg_mem pg)(slot d i := frame OR ucast flags), pg_frames := fr\<rparr>))
      else Inr pg)"

lemma paging_map_steps:
  "paging_map pg (PHYS_TO_VIRT (frame_addr d)) paddr va flags =
     (if \<not> paging_initialized pg then Inl (KPanic ''PAGING_NOT_INITIALIZED'')
      else case with_table pg d (pd_index va) flags of
        Inl e \<Rightarrow> Inl e
      | Inr pg1 \<Rightarrow> Inr (pg1\<lparr>pg_mem := (pg_mem pg1)(slot (entry_frame (pg_mem pg1 (slot d (pd_index va))))
            (pt_index va) := paddr OR ucast flags)\<rparr>))"
  by (simp only: paging_map_def with_table_def pde_slot entry_slot Let_def)

lemma with_table_result:
  assumes sp: "spaces pg D" and d: "d \<in> D" and i: "i < 1024" and fl: "bit flags 0"
    and r: "with_table pg d i flags = Inr pg1"
  shows "spaces pg1 D" and "pg_mem pg1 (slot d i) \<noteq> 0"
    and "free_frames (pg_frames pg1) \<subseteq> free_frames (pg_frames pg)"
    and "\<forall>a. a \<noteq> slot d i \<longrightarrow> pg_mem pg1 a = pg_mem pg a"
    and "pg_mem pg (slot d i) \<noteq> 0 \<longrightarrow> pg1 = pg"
    and "pg_mem pg (slot d i) = 0 \<longrightarrow> (\<forall>k. bit flags k \<longrightarrow> bit (pg_mem pg1 (slot d i)) k)"
proof -
  have "spaces pg1 D \<and> pg_mem pg1 (slot d i) \<noteq> 0 \<and>
    free_frames (pg_frames pg1) \<subseteq> free_frames (pg_frames pg) \<and>
    (\<forall>a. a \<noteq> slot d i \<longrightarrow> pg_mem pg1 a = pg_mem pg a) \<and> (pg_mem pg (slot d i) \<noteq> 0 \<longrightarrow> pg1 = pg) \<and>
    (pg_mem pg (slot d i) = 0 \<longrightarrow> (\<forall>k. bit flags k \<longrightarrow> bit (pg_mem pg1 (slot d i)) k))"
  proof (cases "pg_mem pg (slot d i) = 0")
    case False
    then show ?thesis using r sp by (simp add: with_table_def)
  next
    case True
    then obtain frame fr where a: "fa_alloc (pg_frames pg) = Inr (frame, fr)"
      and pg1: "pg1 = pg\<lparr>pg_mem := (pg_mem pg)(slot d i := frame OR ucast flags), pg_frames := fr\<rparr>"
      using r by (auto simp: with_table_def split: sum.splits)
    from fs.alloc_law [OF spacesD(2) [OF sp] a] obtain n where n: "n \<in> free_frames (pg_frames pg)"
      "frame = frame_addr n" "free_frames fr = free_frames (pg_frames pg) - {n}" "fa_ok fr"
      by (auto simp: frame_addr_def)
    have n20: "n < 1048576"
      using n(1) fs.avail_bound fs.total_bound spacesD(2) [OF sp] by (meson order_less_le_trans)
    let ?e = "frame OR ucast flags"
    have e: "bit ?e 0" "entry_frame ?e = n"
      using fl by (auto simp: n(2) entry_frame_flags n20 bit_or_flags)
    then have e0: "?e \<noteq> 0" by auto
    have nD: "n \<notin> D" using n(1) spacesD(4) [OF sp] by blast
    have m1: "pg_mem pg1 (slot d' j) = (if d' = d \<and> j = i then ?e else pg_mem pg (slot d' j))"
      if "d' \<in> D" "j < 1024" for d' j
      using that d i spacesD(3) [OF sp] slot_inj [of d' d j i] by (simp add: pg1)
    have "spaces pg1 D"
    proof (rule spacesI)
      show "paging_initialized pg1" "fa_ok (pg_frames pg1)"
        using spacesD(1) [OF sp] n(4) by (simp_all add: pg1)
      show "d' < 1048576 \<and> d' \<notin> free_frames (pg_frames pg1)" if "d' \<in> D" for d'
        using that spacesD(3,4) [OF sp] n(3) by (simp add: pg1)
      show "bit (pg_mem pg1 (slot d' j)) 0 \<and> entry_frame (pg_mem pg1 (slot d' j)) \<notin> D \<and>
          entry_frame (pg_mem pg1 (slot d' j)) \<notin> free_frames (pg_frames pg1)"
        if "d' \<in> D" "j < 1024" "pg_mem pg1 (slot d' j) \<noteq> 0" for d' j
        using that spacesD(5,6,7) [OF sp that(1,2)] n(3) e nD by (auto simp: m1 pg1 split: if_splits)
      show "j = k \<and> (d1 = d2 \<or> 768 \<le> j)"
        if "d1 \<in> D" "d2 \<in> D" "j < 1024" "k < 1024" "pg_mem pg1 (slot d1 j) \<noteq> 0"
          "pg_mem pg1 (slot d2 k) \<noteq> 0"
          "entry_frame (pg_mem pg1 (slot d1 j)) = entry_frame (pg_mem pg1 (slot d2 k))" for d1 d2 j k
      proof -
        have old: "pg_mem pg1 (slot d' l) = pg_mem pg (slot d' l)"
          if "d' \<in> D" "l < 1024" "\<not> (d' = d \<and> l = i)" for d' l using that by (auto simp: m1)
        have new: "entry_frame (pg_mem pg1 (slot d i)) = n" using m1 [OF d i] e(2) by simp
        have notn: "entry_frame (pg_mem pg1 (slot d' l)) \<noteq> n"
          if "d' \<in> D" "l < 1024" "\<not> (d' = d \<and> l = i)" "pg_mem pg1 (slot d' l) \<noteq> 0" for d' l
          using that(4) spacesD(7) [OF sp that(1,2)] n(1) unfolding old [OF that(1-3)] by metis
        show ?thesis
        proof (cases "d1 = d \<and> j = i \<or> d2 = d \<and> k = i")
          case True
          then show ?thesis
            using that(7) new notn [OF that(1,3) _ that(5)] notn [OF that(2,4) _ that(6)] by metis
        next
          case False
          then have "\<not> (d1 = d \<and> j = i)" "\<not> (d2 = d \<and> k = i)" by blast+
          note o = old [OF that(1,3) this(1)] old [OF that(2,4) this(2)]
          show ?thesis by (rule spacesD(8) [OF sp that(1,2,3,4)]) (use that(5-7) o in simp_all)
        qed
      qed
    qed
    then show ?thesis using True e0 n(3) by (auto simp: pg1 bit_or_flags)
  qed
  then show "spaces pg1 D" "pg_mem pg1 (slot d i) \<noteq> 0"
    "free_frames (pg_frames pg1) \<subseteq> free_frames (pg_frames pg)"
    "\<forall>a. a \<noteq> slot d i \<longrightarrow> pg_mem pg1 a = pg_mem pg a"
    "pg_mem pg (slot d i) \<noteq> 0 \<longrightarrow> pg1 = pg"
    "pg_mem pg (slot d i) = 0 \<longrightarrow> (\<forall>k. bit flags k \<longrightarrow> bit (pg_mem pg1 (slot d i)) k)"
    by blast+
qed

text \<open>A write into a table leaves every directory alone.\<close>

lemma spaces_table_write:
  assumes sp: "spaces pg D" and t: "t \<notin> D" "t < 1048576" and j: "j < 1024"
  shows "spaces (pg\<lparr>pg_mem := (pg_mem pg)(slot t j := v)\<rparr>) D"
proof -
  have same: "((pg_mem pg)(slot t j := v)) (slot d i) = pg_mem pg (slot d i)" if "d \<in> D" "i < 1024" for d i
    using that t j spacesD(3) [OF sp] slot_inj [of d t i j] by auto
  show ?thesis
    using sp unfolding spaces_def by (simp add: same del: fun_upd_apply)
qed

section \<open>Mapping one page\<close>

lemma aligned_flags:
  assumes "paddr AND 0xFFF = 0"
  shows "(paddr OR ucast (fl :: u8)) AND 0xFFFFF000 = (paddr :: u32)"
proof -
  have low: "\<not> bit paddr b" if "b < 12" for b
  proof -
    have "bit (paddr AND mask 12) b = False" using assms by (simp add: page_offset_mask)
    then show ?thesis using that by (auto simp: bit_simps dest: bit_imp_le_length)
  qed
  show ?thesis unfolding page_mask
  proof (rule bit_word_eqI)
    fix b assume "b < LENGTH(32)"
    then show "bit ((paddr OR ucast fl) AND NOT (mask 12)) b = bit paddr b"
      using low [of b] by (cases "b < 12") (auto simp: bit_simps dest: bit_imp_le_length)
  qed
qed

lemma bit_aligned_flags:
  assumes "paddr AND 0xFFF = 0" "k < 8"
  shows "bit (paddr OR ucast (fl :: u8) :: u32) k = bit fl k"
proof -
  have "bit (paddr AND mask 12) k = False" using assms by (simp add: page_offset_mask)
  then have "\<not> bit paddr k" using assms(2) by (simp add: bit_simps)
  then show ?thesis using assms(2) by (simp add: bit_simps)
qed

lemma paging_map_result:
  assumes sp: "spaces pg D" and d: "d \<in> D" and fl: "bit flags 0" and al: "paddr AND 0xFFF = 0"
    and r: "paging_map pg (PHYS_TO_VIRT (frame_addr d)) paddr va flags = Inr pg'"
  obtains pg1 where "with_table pg d (pd_index va) flags = Inr pg1" "spaces pg1 D" "spaces pg' D"
    "pg_mem pg1 (slot d (pd_index va)) \<noteq> 0"
    "pg' = pg1\<lparr>pg_mem := (pg_mem pg1)(slot (entry_frame (pg_mem pg1 (slot d (pd_index va))))
       (pt_index va) := paddr OR ucast flags)\<rparr>"
    "\<And>d' i. d' \<in> D \<Longrightarrow> i < 1024 \<Longrightarrow> pg_mem pg' (slot d' i) = pg_mem pg1 (slot d' i)"
proof -
  have "paging_initialized pg" using spacesD(1) [OF sp] .
  then obtain pg1 where w: "with_table pg d (pd_index va) flags = Inr pg1"
    and pg': "pg' = pg1\<lparr>pg_mem := (pg_mem pg1)(slot (entry_frame (pg_mem pg1 (slot d (pd_index va))))
       (pt_index va) := paddr OR ucast flags)\<rparr>"
    using r by (auto simp: paging_map_steps split: sum.splits)
  note wt = with_table_result [OF sp d pd_index_bound fl w]
  let ?t = "entry_frame (pg_mem pg1 (slot d (pd_index va)))"
  have t: "?t \<notin> D" "?t < 1048576" using spacesD(6) [OF wt(1) d pd_index_bound wt(2)] by simp_all
  have "spaces pg' D" unfolding pg' by (rule spaces_table_write [OF wt(1) t pt_index_bound])
  moreover have "pg_mem pg' (slot d' i) = pg_mem pg1 (slot d' i)" if "d' \<in> D" "i < 1024" for d' i
    using slot_inj [of d' ?t i "pt_index va"] that t spacesD(3) [OF sp] by (auto simp: pg')
  ultimately show ?thesis using that w wt(1,2) pg' by blast
qed

text \<open>A state with two empty directories in frames 1 and 3, and a few free frames.\<close>

definition demo_paging :: paging where
  "demo_paging = \<lparr>pg_mem = (\<lambda>a. 0),
     pg_frames = \<lparr>fa_bitmap = [0x0B], fa_bitmap_size = 1, fa_initialized = True\<rparr>,
     kernel_pd = PHYS_TO_VIRT (frame_addr 1), paging_initialized = True, pg_cr3 = frame_addr 1\<rparr>"

lemma demo_spaces: "spaces demo_paging {1, 3}"
proof -
  have "\<not> frame_free [0x0B] 1" "\<not> frame_free [0x0B] 3" by code_simp+
  then show ?thesis by (simp add: spaces_def demo_paging_def fa_ok_def free_frames_def)
qed

definition demo_mapped :: paging where
  "demo_mapped = (case paging_map demo_paging (PHYS_TO_VIRT (frame_addr 1)) 0x5000 0x8000000 7 of
     Inr pg \<Rightarrow> pg | Inl e \<Rightarrow> demo_paging)"

lemma demo_alloc: "fa_alloc (pg_frames demo_paging) =
    Inr (0x2000, \<lparr>fa_bitmap = [0x0F], fa_bitmap_size = 1, fa_initialized = True\<rparr>)"
  by code_simp

lemma demo_map: "paging_map demo_paging (PHYS_TO_VIRT (frame_addr 1)) 0x5000 0x8000000 7 = Inr demo_mapped"
proof -
  have "\<exists>pg'. paging_map demo_paging (PHYS_TO_VIRT (frame_addr 1)) 0x5000 0x8000000 7 = Inr pg'"
    unfolding paging_map_def demo_alloc by (simp add: Let_def) (simp add: demo_paging_def)
  then show ?thesis by (auto simp: demo_mapped_def)
qed

lemma paging_map_walk:
  assumes "spaces pg D" and "d \<in> D" and "bit flags 0" and "paddr AND 0xFFF = 0"
    and "paging_map pg (PHYS_TO_VIRT (frame_addr d)) paddr va flags = Inr pg'"
    and "drop_bit 12 vb = drop_bit 12 va"
  shows "spaces pg' D \<and> translate (pg_mem pg') (frame_addr d) vb =
     Some (paddr OR (vb AND 0xFFF), bit (pg_mem pg' (slot d (pd_index va))) 2 \<and> bit flags 2) \<and>
     write_allowed (pg_mem pg') (frame_addr d) vb = (bit (pg_mem pg' (slot d (pd_index va))) 1 \<and> bit flags 1) \<and>
     (pg_mem pg (slot d (pd_index va)) = 0 \<longrightarrow> (\<forall>k\<in>{1, 2}. bit flags k \<longrightarrow> bit (pg_mem pg' (slot d (pd_index va))) k))"
proof -
  obtain pg1 where w: "with_table pg d (pd_index va) flags = Inr pg1" and sp1: "spaces pg1 D"
    and sp': "spaces pg' D" and nz: "pg_mem pg1 (slot d (pd_index va)) \<noteq> 0"
    and pg': "pg' = pg1\<lparr>pg_mem := (pg_mem pg1)(slot (entry_frame (pg_mem pg1 (slot d (pd_index va))))
       (pt_index va) := paddr OR ucast flags)\<rparr>"
    and same: "\<And>d' i. d' \<in> D \<Longrightarrow> i < 1024 \<Longrightarrow> pg_mem pg' (slot d' i) = pg_mem pg1 (slot d' i)"
    by (rule paging_map_result [OF assms(1-5)]) blast
  let ?e = "pg_mem pg1 (slot d (pd_index va))"
  have ix: "pd_index vb = pd_index va" "pt_index vb = pt_index va" using assms(6) page_split by auto
  have e: "pg_mem pg' (slot d (pd_index vb)) = ?e" using same [OF assms(2)] ix by simp
  have pte: "pg_mem pg' (slot (entry_frame ?e) (pt_index vb)) = paddr OR ucast flags"
    by (simp add: pg' ix)
  have "bit ?e 0" using spacesD(5) [OF sp1 assms(2) pd_index_bound nz] .
  then have "translate (pg_mem pg') (frame_addr d) vb = Some (paddr OR (vb AND 0xFFF), bit ?e 2 \<and> bit flags 2)"
    using assms(3) by (simp add: translate_slots e pte Let_def aligned_flags [OF assms(4)]
        bit_aligned_flags [OF assms(4)])
  moreover have "write_allowed (pg_mem pg') (frame_addr d) vb = (bit ?e 1 \<and> bit flags 1)"
    by (simp add: write_allowed_slots e pte Let_def bit_aligned_flags [OF assms(4)])
  ultimately show ?thesis
    using sp' e ix with_table_result(6) [OF assms(1,2) pd_index_bound assms(3) w] by simp
qed

text \<open>
  C5. A page mapped by \<open>paging_map\<close> is what the processor translates to: every address of the page
  goes to the same offset of the physical page, user mode may use it, and may write to it, exactly when the
  flags and the directory entry both allow it, as a directory entry made for the page does, and the address
  spaces stay well formed.
\<close>

theorem paging_map_translates:
  assumes "spaces pg D" and "d \<in> D" and "bit flags 0" and "paddr AND 0xFFF = 0"
    and "paging_map pg (PHYS_TO_VIRT (frame_addr d)) paddr va flags = Inr pg'"
    and "drop_bit 12 vb = drop_bit 12 va"
  shows "spaces pg' D \<and> translate (pg_mem pg') (frame_addr d) vb =
     Some (paddr OR (vb AND 0xFFF), bit (pg_mem pg' (slot d (pd_index va))) 2 \<and> bit flags 2) \<and>
     write_allowed (pg_mem pg') (frame_addr d) vb = (bit (pg_mem pg' (slot d (pd_index va))) 1 \<and> bit flags 1) \<and>
     (pg_mem pg (slot d (pd_index va)) = 0 \<longrightarrow> (\<forall>k\<in>{1, 2}. bit flags k \<longrightarrow> bit (pg_mem pg' (slot d (pd_index va))) k))"
  using assms by (rule paging_map_walk)

theorem paging_map_translates_witness:
  "translate (pg_mem demo_mapped) (frame_addr 1) 0x8000123 = Some (0x5123, True) \<and>
   write_allowed (pg_mem demo_mapped) (frame_addr 1) 0x8000123"
proof -
  have "spaces demo_mapped {1, 3} \<and> translate (pg_mem demo_mapped) (frame_addr 1) 0x8000123 =
     Some (0x5000 OR (0x8000123 AND 0xFFF),
       bit (pg_mem demo_mapped (slot 1 (pd_index 0x8000000))) 2 \<and> bit (7 :: u8) 2) \<and>
     write_allowed (pg_mem demo_mapped) (frame_addr 1) 0x8000123 =
       (bit (pg_mem demo_mapped (slot 1 (pd_index 0x8000000))) 1 \<and> bit (7 :: u8) 1) \<and>
     (pg_mem demo_paging (slot 1 (pd_index 0x8000000)) = 0 \<longrightarrow> (\<forall>k\<in>{1, 2}. bit (7 :: u8) k \<longrightarrow>
        bit (pg_mem demo_mapped (slot 1 (pd_index 0x8000000))) k))"
    by (rule paging_map_translates [OF demo_spaces _ _ _ demo_map]) simp_all
  moreover have "bit (7 :: u8) 2" "bit (7 :: u8) 1" by code_simp+
  moreover have "(0x5000 OR (0x8000123 AND 0xFFF) :: u32) = 0x5123" by simp
  moreover have "pg_mem demo_paging a = 0" for a by (simp add: demo_paging_def)
  ultimately show ?thesis by simp
qed

lemma paging_map_others:
  assumes "spaces pg D" and "d \<in> D" and "bit flags 0" and "paddr AND 0xFFF = 0"
    and "paging_map pg (PHYS_TO_VIRT (frame_addr d)) paddr va flags = Inr pg'"
    and "d' \<in> D" and "(d' = d \<longrightarrow> pg_mem pg (slot d (pd_index vb)) \<noteq> 0 \<or> pd_index vb \<noteq> pd_index va)"
    and "drop_bit 12 vb \<noteq> drop_bit 12 va \<or> (d' \<noteq> d \<and> unat vb < 0xC0000000)"
  shows "translate (pg_mem pg') (frame_addr d') vb = translate (pg_mem pg) (frame_addr d') vb"
proof -
  obtain pg1 where w: "with_table pg d (pd_index va) flags = Inr pg1" and sp1: "spaces pg1 D"
    and nz: "pg_mem pg1 (slot d (pd_index va)) \<noteq> 0"
    and pg': "pg' = pg1\<lparr>pg_mem := (pg_mem pg1)(slot (entry_frame (pg_mem pg1 (slot d (pd_index va))))
       (pt_index va) := paddr OR ucast flags)\<rparr>"
    and same: "\<And>d' i. d' \<in> D \<Longrightarrow> i < 1024 \<Longrightarrow> pg_mem pg' (slot d' i) = pg_mem pg1 (slot d' i)"
    by (rule paging_map_result [OF assms(1-5)]) blast
  note wt = with_table_result [OF assms(1,2) pd_index_bound assms(3) w]
  note lt = pd_index_half
  have other: "pg_mem pg1 (slot t j) = pg_mem pg (slot t j)"
    if "t < 1048576" "j < 1024" "t \<noteq> d \<or> j \<noteq> pd_index va \<or> pg_mem pg (slot d (pd_index va)) \<noteq> 0" for t j
    using that wt(4,5) slot_inj [of t d j "pd_index va"] spacesD(3) [OF assms(1,2)] by auto
  let ?e = "pg_mem pg (slot d' (pd_index vb))"
  have d'20: "d' < 1048576" using spacesD(3) [OF assms(1,6)] .
  have e: "pg_mem pg' (slot d' (pd_index vb)) = ?e"
    using same [OF assms(6) pd_index_bound] other [OF d'20 pd_index_bound] assms(7) by metis
  show ?thesis
  proof (cases "?e = 0")
    case True
    then show ?thesis by (simp add: translate_slots e)
  next
    case False
    have e1: "pg_mem pg1 (slot d' (pd_index vb)) = ?e" using e same [OF assms(6) pd_index_bound] by simp
    have "entry_frame ?e \<noteq> d" using spacesD(6) [OF assms(1,6) pd_index_bound False] assms(2) by metis
    then have o: "pg_mem pg1 (slot (entry_frame ?e) (pt_index vb)) = pg_mem pg (slot (entry_frame ?e) (pt_index vb))"
      using other [OF entry_frame_bound pt_index_bound] by metis
    have "slot (entry_frame ?e) (pt_index vb) \<noteq> slot (entry_frame (pg_mem pg1 (slot d (pd_index va)))) (pt_index va)"
    proof
      assume "slot (entry_frame ?e) (pt_index vb) = slot (entry_frame (pg_mem pg1 (slot d (pd_index va)))) (pt_index va)"
      then have eq: "entry_frame ?e = entry_frame (pg_mem pg1 (slot d (pd_index va)))" "pt_index vb = pt_index va"
        using slot_inj [of _ _ "pt_index vb" "pt_index va"] by simp_all
      have "pd_index vb = pd_index va \<and> (d' = d \<or> 768 \<le> pd_index vb)"
        by (rule spacesD(8) [OF sp1 assms(6,2) pd_index_bound pd_index_bound _ nz])
           (use e1 False eq in simp_all)
      then show False using assms(8) eq(2) by (metis lt page_split not_less)
    qed
    then have "pg_mem pg' (slot (entry_frame ?e) (pt_index vb)) = pg_mem pg (slot (entry_frame ?e) (pt_index vb))"
      using o by (simp add: pg')
    then show ?thesis by (simp add: translate_slots e)
  qed
qed

text \<open>
  C6. Mapping a page in one address space changes the translation of no other page of that space outside the
  4 MiB of the page table it needs, and of none inside them when that table was there before; and in another
  address space it changes no translation of the user half at all, and in the kernel half, whose tables the
  spaces share, at most the one of the page itself. A table that \<open>paging_map\<close> has to allocate is not cleared:
  \<open>paging_map_stale_table\<close> below says what the other pages of its 4 MiB are then translated to.
\<close>

theorem paging_map_isolated:
  assumes "spaces pg D" and "d \<in> D" and "bit flags 0" and "paddr AND 0xFFF = 0"
    and "paging_map pg (PHYS_TO_VIRT (frame_addr d)) paddr va flags = Inr pg'"
    and "d' \<in> D" and "(d' = d \<longrightarrow> pg_mem pg (slot d (pd_index vb)) \<noteq> 0 \<or> pd_index vb \<noteq> pd_index va)"
    and "drop_bit 12 vb \<noteq> drop_bit 12 va \<or> (d' \<noteq> d \<and> unat vb < 0xC0000000)"
  shows "translate (pg_mem pg') (frame_addr d') vb = translate (pg_mem pg) (frame_addr d') vb"
  using assms by (rule paging_map_others)

theorem paging_map_isolated_witness:
  "translate (pg_mem demo_mapped) (frame_addr 3) 0x8000123 = translate (pg_mem demo_paging) (frame_addr 3) 0x8000123"
  by (rule paging_map_isolated [OF demo_spaces _ _ _ demo_map]) simp_all

text \<open>
  A page table that \<open>paging_map\<close> allocates is not cleared: the other pages of its 4 MiB are
  translated through whatever words the frame held before.
\<close>

theorem paging_map_stale_table:
  assumes "spaces pg D" and "d \<in> D" and "bit flags 0" and "paddr AND 0xFFF = 0"
    and "paging_map pg (PHYS_TO_VIRT (frame_addr d)) paddr va flags = Inr pg'"
    and "pg_mem pg (slot d (pd_index va)) = 0"
    and "pd_index vb = pd_index va" and "pt_index vb \<noteq> pt_index va"
  shows "let stale = pg_mem pg (slot (LEAST n. n \<in> free_frames (pg_frames pg)) (pt_index vb))
    in translate (pg_mem pg') (frame_addr d) vb =
      (if bit stale 0 then Some ((stale AND 0xFFFFF000) OR (vb AND 0xFFF), bit flags 2 \<and> bit stale 2) else None)"
proof -
  obtain pg1 where w: "with_table pg d (pd_index va) flags = Inr pg1" and sp1: "spaces pg1 D"
    and nz: "pg_mem pg1 (slot d (pd_index va)) \<noteq> 0"
    and pg': "pg' = pg1\<lparr>pg_mem := (pg_mem pg1)(slot (entry_frame (pg_mem pg1 (slot d (pd_index va))))
       (pt_index va) := paddr OR ucast flags)\<rparr>"
    and same: "\<And>d' i. d' \<in> D \<Longrightarrow> i < 1024 \<Longrightarrow> pg_mem pg' (slot d' i) = pg_mem pg1 (slot d' i)"
    by (rule paging_map_result [OF assms(1-5)]) blast
  obtain frame fr where a: "fa_alloc (pg_frames pg) = Inr (frame, fr)"
    and pg1: "pg1 = pg\<lparr>pg_mem := (pg_mem pg)(slot d (pd_index va) := frame OR ucast flags), pg_frames := fr\<rparr>"
    using w assms(6) by (auto simp: with_table_def split: sum.splits)
  obtain n where n: "n \<in> free_frames (pg_frames pg)" "\<forall>m\<in>free_frames (pg_frames pg). n \<le> m"
    "n < 1048576" "frame = frame_addr n"
    using fa_alloc_ok [OF spacesD(2) [OF assms(1)] a] by (auto simp: frame_addr_def)
  have least: "(LEAST n. n \<in> free_frames (pg_frames pg)) = n" using n(1,2) by (intro Least_equality) auto
  have e: "pg_mem pg' (slot d (pd_index vb)) = frame_addr n OR ucast flags"
    using same [OF assms(2) pd_index_bound] assms(7) by (simp add: pg1 n(4))
  have nd: "n \<noteq> d" using n(1) spacesD(4) [OF assms(1,2)] by blast
  have ef: "entry_frame (frame_addr n OR ucast flags) = n" using entry_frame_flags [OF n(3)] .
  have pte: "pg_mem pg' (slot n (pt_index vb)) = pg_mem pg (slot n (pt_index vb))"
    using assms(8) nd n(3) spacesD(3) [OF assms(1,2)] slot_inj [of n n "pt_index vb" "pt_index va"]
      slot_inj [of n d "pt_index vb" "pd_index va"]
    by (simp add: pg' pg1 n(4) ef)
  have al: "frame_addr n AND 0xFFF = 0"
    unfolding page_offset_mask frame_addr_shift by (rule bit_word_eqI) (auto simp: bit_simps)
  show ?thesis
    unfolding least Let_def translate_slots e ef pte using assms(3)
    by (simp add: bit_aligned_flags [OF al])
qed

theorem paging_map_stale_table_witness:
  "let stale = pg_mem demo_paging (slot (LEAST n. n \<in> free_frames (pg_frames demo_paging)) (pt_index 0x8001000))
   in translate (pg_mem demo_mapped) (frame_addr 1) 0x8001000 =
      (if bit stale 0 then Some ((stale AND 0xFFFFF000) OR (0x8001000 AND 0xFFF), bit (7 :: u8) 2 \<and> bit stale 2)
       else None)"
  by (rule paging_map_stale_table [OF demo_spaces _ _ _ demo_map])
     (simp_all add: demo_paging_def pd_index_def pt_index_def)

section \<open>Creating an address space\<close>

lemma fill_entries_slots:
  assumes "n < 1048576" "i + c \<le> 1024"
  shows "\<forall>k<1048576. \<forall>j<1024. fill_entries v (PHYS_TO_VIRT (frame_addr n)) i c m (slot k j) =
    (if k = n \<and> i \<le> j \<and> j < i + c then v j else m (slot k j))"
  using assms(2)
proof (induction c arbitrary: i m)
  case (Suc c)
  have "entry_addr (PHYS_TO_VIRT (frame_addr n)) (of_nat i) = slot n i" by (simp add: slot_def)
  moreover have "slot k j = slot n i \<longleftrightarrow> k = n \<and> j = i" if "k < 1048576" "j < 1024" for k j
    using slot_inj [of k n j i] that assms(1) Suc.prems by simp
  ultimately show ?case using Suc.IH [of "i + 1"] Suc.prems by (auto simp: Suc_le_eq)
qed auto

lemma paging_create_pd_slots:
  assumes sp: "spaces pg D" and k: "k \<in> D" "kernel_pd pg = PHYS_TO_VIRT (frame_addr k)"
    and r: "paging_create_pd pg = Inr (pd, pg')"
  obtains d where "d \<notin> D" "d < 1048576" "pd = PHYS_TO_VIRT (frame_addr d)"
    "d \<in> free_frames (pg_frames pg)" "free_frames (pg_frames pg') = free_frames (pg_frames pg) - {d}"
    "fa_ok (pg_frames pg')" "paging_initialized pg'"
    "\<And>t j. t < 1048576 \<Longrightarrow> j < 1024 \<Longrightarrow> pg_mem pg' (slot t j) =
       (if t = d then if j < 768 then 0 else pg_mem pg (slot k j) else pg_mem pg (slot t j))"
proof -
  obtain pd_phys fr where a: "fa_alloc (pg_frames pg) = Inr (pd_phys, fr)"
    using r by (auto simp: paging_create_pd_def split: if_splits sum.splits)
  obtain d where d: "d \<in> free_frames (pg_frames pg)" "pd_phys = frame_addr d"
    "free_frames fr = free_frames (pg_frames pg) - {d}" "fa_ok fr"
    using fs.alloc_law [OF spacesD(2) [OF sp] a] by (auto simp: frame_addr_def)
  have d20: "d < 1048576"
    using d(1) fs.avail_bound fs.total_bound spacesD(2) [OF sp] by (meson order_less_le_trans)
  let ?m1 = "fill_entries (\<lambda>i. 0) (PHYS_TO_VIRT (frame_addr d)) 0 768 (pg_mem pg)"
  let ?m2 = "fill_entries (\<lambda>i. ?m1 (entry_addr (kernel_pd pg) (of_nat i))) (PHYS_TO_VIRT (frame_addr d)) 768 256 ?m1"
  have pd: "pd = PHYS_TO_VIRT (frame_addr d)" and pg': "pg' = pg\<lparr>pg_mem := ?m2, pg_frames := fr\<rparr>"
    using r a d(2) spacesD(1) [OF sp] by (auto simp: paging_create_pd_def Let_def)
  have kd: "k \<noteq> d" "k < 1048576" using spacesD(3,4) [OF sp k(1)] d(1) by auto
  have m1: "?m1 (slot t j) = (if t = d \<and> j < 768 then 0 else pg_mem pg (slot t j))"
    if "t < 1048576" "j < 1024" for t j
    using fill_entries_slots [OF d20, of 0 768 "\<lambda>i. 0" "pg_mem pg"] that by simp
  have m2: "?m2 (slot t j) = (if t = d then if j < 768 then 0 else pg_mem pg (slot k j) else pg_mem pg (slot t j))"
    if "t < 1048576" "j < 1024" for t j
    using fill_entries_slots [OF d20, of 768 256 "\<lambda>i. ?m1 (entry_addr (kernel_pd pg) (of_nat i))" ?m1]
      that m1 kd by (auto simp: k(2) slot_def [symmetric])
  show ?thesis
    using that [of d] d d20 pd m2 spacesD(1) [OF sp] spacesD(4) [OF sp] by (auto simp: pg')
qed

lemma paging_create_pd_result:
  assumes "spaces pg D" and "k \<in> D" and "kernel_pd pg = PHYS_TO_VIRT (frame_addr k)"
    and "paging_create_pd pg = Inr (pd, pg')"
  shows "\<exists>d. d \<notin> D \<and> pd = PHYS_TO_VIRT (frame_addr d) \<and> spaces pg' (insert d D) \<and>
    (\<forall>va. unat va < 0xC0000000 \<longrightarrow> translate (pg_mem pg') (frame_addr d) va = None) \<and>
    (\<forall>va. 0xC0000000 \<le> unat va \<longrightarrow>
       translate (pg_mem pg') (frame_addr d) va = translate (pg_mem pg) (frame_addr k) va) \<and>
    (\<forall>d'\<in>D. \<forall>va. translate (pg_mem pg') (frame_addr d') va = translate (pg_mem pg) (frame_addr d') va)"
proof -
  obtain d where d: "d \<notin> D" "d < 1048576" "pd = PHYS_TO_VIRT (frame_addr d)"
    "d \<in> free_frames (pg_frames pg)" "free_frames (pg_frames pg') = free_frames (pg_frames pg) - {d}"
    "fa_ok (pg_frames pg')" "paging_initialized pg'"
    and m: "\<And>t j. t < 1048576 \<Longrightarrow> j < 1024 \<Longrightarrow> pg_mem pg' (slot t j) =
       (if t = d then if j < 768 then 0 else pg_mem pg (slot k j) else pg_mem pg (slot t j))"
    by (rule paging_create_pd_slots [OF assms]) blast
  note lt = pd_index_half
  define src where "src = (\<lambda>t. if t = d then k else t)"
  have sD: "src t \<in> D" "t < 1048576" if "t \<in> insert d D" for t
    using that assms(2) d(2) spacesD(3) [OF assms(1)] by (auto simp: src_def)
  have nz: "pg_mem pg' (slot t i) = pg_mem pg (slot (src t) i) \<and> (t = d \<longrightarrow> 768 \<le> i)"
    if "t \<in> insert d D" "i < 1024" "pg_mem pg' (slot t i) \<noteq> 0" for t i
    using that m [OF sD(2) [OF that(1)] that(2)] by (auto simp: src_def split: if_splits)
  have "spaces pg' (insert d D)"
  proof (rule spacesI)
    show "paging_initialized pg'" "fa_ok (pg_frames pg')" using d by simp_all
    show "t < 1048576 \<and> t \<notin> free_frames (pg_frames pg')" if "t \<in> insert d D" for t
      using that d spacesD(3,4) [OF assms(1)] by auto
    show "bit (pg_mem pg' (slot t i)) 0 \<and> entry_frame (pg_mem pg' (slot t i)) \<notin> insert d D \<and>
        entry_frame (pg_mem pg' (slot t i)) \<notin> free_frames (pg_frames pg')"
      if t: "t \<in> insert d D" "i < 1024" "pg_mem pg' (slot t i) \<noteq> 0" for t i
      using nz [OF t] t(3) d(4,5) spacesD(5,6,7) [OF assms(1) sD(1) [OF t(1)] t(2)] by auto
    show "i = j \<and> (t = u \<or> 768 \<le> i)"
      if t: "t \<in> insert d D" and u: "u \<in> insert d D" and i: "i < 1024" and j: "j < 1024"
        and ti: "pg_mem pg' (slot t i) \<noteq> 0" and uj: "pg_mem pg' (slot u j) \<noteq> 0"
        and eq: "entry_frame (pg_mem pg' (slot t i)) = entry_frame (pg_mem pg' (slot u j))" for t u i j
    proof -
      have "i = j \<and> (src t = src u \<or> 768 \<le> i)"
        by (rule spacesD(8) [OF assms(1) sD(1) [OF t] sD(1) [OF u] i j])
           (use nz [OF t i ti] nz [OF u j uj] ti uj eq in simp_all)
      then show ?thesis using nz [OF t i ti] nz [OF u j uj] by (auto simp: src_def split: if_splits)
    qed
  qed
  moreover have "translate (pg_mem pg') (frame_addr d) va = None" if "unat va < 0xC0000000" for va
    using that m [OF d(2) pd_index_bound] by (simp add: translate_slots lt)
  moreover have walk: "translate (pg_mem pg') (frame_addr t) va = translate (pg_mem pg) (frame_addr (src t)) va"
    if t: "t \<in> insert d D" "t = d \<longrightarrow> 768 \<le> pd_index va" for t va
  proof -
    have e: "pg_mem pg' (slot t (pd_index va)) = pg_mem pg (slot (src t) (pd_index va))"
      using m [OF sD(2) [OF t(1)] pd_index_bound [of va]] t(2) by (auto simp: src_def)
    show ?thesis
    proof (cases "pg_mem pg (slot (src t) (pd_index va)) = 0")
      case True
      then show ?thesis by (simp add: translate_slots e)
    next
      case False
      from spacesD(7) [OF assms(1) sD(1) [OF t(1)] pd_index_bound False] d(4)
      have "entry_frame (pg_mem pg (slot (src t) (pd_index va))) \<noteq> d" by auto
      then show ?thesis using m [OF entry_frame_bound pt_index_bound] by (simp add: translate_slots e)
    qed
  qed
  moreover have "translate (pg_mem pg') (frame_addr d) va = translate (pg_mem pg) (frame_addr k) va"
    if "0xC0000000 \<le> unat va" for va
    using walk [of d va] that lt [of va] by (simp add: src_def not_less)
  moreover have "translate (pg_mem pg') (frame_addr d') va = translate (pg_mem pg) (frame_addr d') va"
    if "d' \<in> D" for d' va
  proof -
    have "d' \<noteq> d" using that d(1) by blast
    then show ?thesis using walk [of d' va] that by (simp add: src_def)
  qed
  ultimately show ?thesis using d(1,3) by blast
qed

text \<open>
  A new process' directory: its user half is empty, its kernel half translates as the
  kernel's directory does, and no translation of an existing address space changes.
\<close>

theorem paging_create_pd_correct:
  assumes "spaces pg D" and "k \<in> D" and "kernel_pd pg = PHYS_TO_VIRT (frame_addr k)"
    and "paging_create_pd pg = Inr (pd, pg')"
  shows "\<exists>d. d \<notin> D \<and> pd = PHYS_TO_VIRT (frame_addr d) \<and> spaces pg' (insert d D) \<and>
    (\<forall>va. unat va < 0xC0000000 \<longrightarrow> translate (pg_mem pg') (frame_addr d) va = None) \<and>
    (\<forall>va. 0xC0000000 \<le> unat va \<longrightarrow>
       translate (pg_mem pg') (frame_addr d) va = translate (pg_mem pg) (frame_addr k) va) \<and>
    (\<forall>d'\<in>D. \<forall>va. translate (pg_mem pg') (frame_addr d') va = translate (pg_mem pg) (frame_addr d') va)"
  using assms by (rule paging_create_pd_result)

theorem paging_create_pd_correct_witness:
  "\<exists>pd pg' d. paging_create_pd demo_paging = Inr (pd, pg') \<and> d \<notin> {1, 3} \<and> spaces pg' (insert d {1, 3})"
proof -
  have "\<exists>pd pg'. paging_create_pd demo_paging = Inr (pd, pg')"
    unfolding paging_create_pd_def demo_alloc by (simp add: Let_def demo_paging_def)
  then obtain pd pg' where r: "paging_create_pd demo_paging = Inr (pd, pg')" by blast
  have k: "kernel_pd demo_paging = PHYS_TO_VIRT (frame_addr 1)" by (simp add: demo_paging_def)
  show ?thesis using paging_create_pd_correct [OF demo_spaces _ k r] r by auto
qed

section \<open>The kernel's direct map\<close>

lemma page_of_virt:
  assumes "unat x < 0x40000000"
  shows "entry_frame (PHYS_TO_VIRT x) = entry_frame x + 0xC0000" "PHYS_TO_VIRT x AND 0xFFF = x AND 0xFFF"
    "0xC0000000 \<le> unat (PHYS_TO_VIRT x)"
proof -
  have u: "unat (PHYS_TO_VIRT x) = unat x + 0xC0000000"
    using assms by (simp add: PHYS_TO_VIRT_def KERNEL_VIRT_BASE_def unat_add_small)
  have "(n + 0xC0000000) div 4096 = n div 4096 + 0xC0000" for n :: nat by linarith
  then show "entry_frame (PHYS_TO_VIRT x) = entry_frame x + 0xC0000"
    by (simp add: entry_frame_def drop_bit_eq_div unat_div u)
  show "0xC0000000 \<le> unat (PHYS_TO_VIRT x)" using u by simp
  have "unat (PHYS_TO_VIRT x AND 0xFFF) = unat (x AND 0xFFF)"
  proof -
    have "unat (y AND 0xFFF) = unat y mod 4096" for y :: u32
    proof -
      have "y AND 0xFFF = take_bit 12 y" by (simp only: page_offset_mask take_bit_eq_mask)
      then show ?thesis by (simp only: unsigned_take_bit_eq) (simp add: take_bit_eq_mod)
    qed
    moreover have "(n + 0xC0000000) mod 4096 = n mod 4096" for n :: nat
      using mod_mult_self1 [of n 786432 4096] by simp
    ultimately show ?thesis by (simp only: u)
  qed
  then show "PHYS_TO_VIRT x AND 0xFFF = x AND 0xFFF" by (rule unat_eq_imp)
qed

lemma entry_frame_inj: "drop_bit 12 x = drop_bit 12 y \<longleftrightarrow> entry_frame x = entry_frame y"
  by (simp add: entry_frame_def word_unat_eq_iff)

lemma frame_addr_entry_frame: "n < 1048576 \<Longrightarrow> entry_frame (frame_addr n) = n"
  using entry_frame_flags [of n 0] by simp

lemma frame_addr_aligned: "frame_addr n AND 0xFFF = 0"
  unfolding page_offset_mask frame_addr_shift by (rule bit_word_eqI) (auto simp: bit_simps)

lemma addr_split: "frame_addr (entry_frame x) OR (x AND 0xFFF) = x"
  unfolding entry_base [symmetric] page_mask page_offset_mask
  by (rule bit_word_eqI) (auto simp: bit_simps)

definition maps_identically :: "paging \<Rightarrow> nat \<Rightarrow> nat \<Rightarrow> bool" where
  "maps_identically pg k n \<longleftrightarrow>
     (\<forall>x. entry_frame x < n \<longrightarrow> translate (pg_mem pg) (frame_addr k) (PHYS_TO_VIRT x) = Some (x, False))"

lemma direct_map_result:
  assumes "spaces pg D" "k \<in> D" "a + n \<le> 262144" "maps_identically pg k a"
    and "direct_map pg (PHYS_TO_VIRT (frame_addr k)) (frame_addr a) n = Inr pg'"
  shows "spaces pg' D \<and> maps_identically pg' k (a + n) \<and>
    (\<forall>i<768. pg_mem pg' (slot k i) = pg_mem pg (slot k i))"
  using assms
proof (induction n arbitrary: pg a)
  case (Suc n)
  let ?va = "PHYS_TO_VIRT (frame_addr a)"
  obtain pg1 where m: "paging_map pg (PHYS_TO_VIRT (frame_addr k)) (frame_addr a) ?va 3 = Inr pg1"
    and rest: "direct_map pg1 (PHYS_TO_VIRT (frame_addr k)) (frame_addr a + 4096) n = Inr pg'"
    using Suc.prems(5) by (auto simp: PAGING_PD_ENTRY_FLAGS_KERNEL_ONLY_def split: sum.splits)
  have fl: "bit (3 :: u8) 0" "\<not> bit (3 :: u8) 2" by code_simp+
  have a: "a < 262144" "entry_frame (frame_addr a) = a"
    using Suc.prems(3) frame_addr_entry_frame [of a] by simp_all
  have small: "unat x < 0x40000000" if "entry_frame x < 262144" for x
    using that unfolding entry_frame_def drop_bit_eq_div by (simp add: unat_div)
  note tr = paging_map_walk [OF Suc.prems(1,2) fl(1) frame_addr_aligned m]
  note iso = paging_map_others [OF Suc.prems(1,2) fl(1) frame_addr_aligned m Suc.prems(2)]
  have sp1: "spaces pg1 D" using tr [OF refl] by blast
  have "maps_identically pg1 k (a + 1)" unfolding maps_identically_def
  proof (intro allI impI)
    fix x assume x: "entry_frame x < a + 1"
    have sx: "unat x < 0x40000000" "unat (frame_addr a) < 0x40000000" using x a small by simp_all
    note vx = page_of_virt [OF sx(1)] page_of_virt [OF sx(2)]
    show "translate (pg_mem pg1) (frame_addr k) (PHYS_TO_VIRT x) = Some (x, False)"
    proof (cases "entry_frame x = a")
      case True
      then have "drop_bit 12 (PHYS_TO_VIRT x) = drop_bit 12 ?va"
        unfolding entry_frame_inj vx(1,4) a(2) by simp
      from tr [OF this] fl(2) True show ?thesis
        using addr_split [of x] by (simp add: vx)
    next
      case False
      then have lt: "entry_frame x < a" using x by simp
      have old: "translate (pg_mem pg) (frame_addr k) (PHYS_TO_VIRT x) = Some (x, False)"
        using Suc.prems(4) lt by (simp add: maps_identically_def)
      then have "pg_mem pg (slot k (pd_index (PHYS_TO_VIRT x))) \<noteq> 0"
        by (auto simp: translate_slots Let_def split: if_splits)
      moreover have "drop_bit 12 (PHYS_TO_VIRT x) \<noteq> drop_bit 12 ?va"
        unfolding entry_frame_inj vx(1,4) a(2) using False by simp
      ultimately show ?thesis using iso [of "PHYS_TO_VIRT x"] old by simp
    qed
  qed
  moreover have "frame_addr a + 4096 = frame_addr (a + 1)" by (simp add: frame_addr_def algebra_simps)
  moreover have low: "pg_mem pg1 (slot k i) = pg_mem pg (slot k i)" if "i < 768" for i
  proof -
    obtain pg2 where w: "with_table pg k (pd_index ?va) 3 = Inr pg2"
      and same: "\<And>d' i. d' \<in> D \<Longrightarrow> i < 1024 \<Longrightarrow> pg_mem pg1 (slot d' i) = pg_mem pg2 (slot d' i)"
      by (rule paging_map_result [OF Suc.prems(1,2) fl(1) frame_addr_aligned m]) blast
    have "unat (frame_addr a) < 0x40000000" using a small by simp
    then have "\<not> pd_index ?va < 768" using page_of_virt(3) pd_index_half by force
    then have "slot k i \<noteq> slot k (pd_index ?va)"
      using that slot_inj [of k k i "pd_index ?va"] spacesD(3) [OF Suc.prems(1,2)] by auto
    then show ?thesis
      using same [OF Suc.prems(2), of i] that with_table_result(4) [OF Suc.prems(1,2) pd_index_bound fl(1) w]
      by simp
  qed
  ultimately show ?case
    using Suc.IH [OF sp1 Suc.prems(2), of "a + 1"] rest Suc.prems(3) by simp
qed (simp add: maps_identically_def)

lemma mapped_entries_zero: "(\<And>i. i < 1024 \<Longrightarrow> pg_mem pg (slot k i) = 0) \<Longrightarrow> k < 1048576 \<Longrightarrow>
    k \<notin> free_frames (pg_frames pg) \<Longrightarrow> paging_initialized pg \<Longrightarrow> fa_ok (pg_frames pg) \<Longrightarrow> spaces pg {k}"
  by (simp add: spaces_def)

text \<open>
  After \<open>paging_kernel_init\<close>, with up to 1 GiB of memory, the new directory maps every physical
  address below the end of the usable region at \<open>0xC0000000\<close> above it, for the kernel only, maps
  nothing below \<open>0xC0000000\<close>, and is the one in CR3.
\<close>

theorem paging_kernel_init_direct_map:
  assumes "fa_ok (pg_frames pg)" and "unat (end_addr (mmap_get_usable_entry entries)) \<le> 0x3FFFF000"
    and "paging_kernel_init entries pg = Inr (pd, pg')"
  shows "\<exists>k. pd = PHYS_TO_VIRT (frame_addr k) \<and> pg_cr3 pg' = frame_addr k \<and> spaces pg' {k} \<and>
    kernel_pd pg' = pd \<and>
    (\<forall>x. x < end_addr (mmap_get_usable_entry entries) \<longrightarrow>
       translate (pg_mem pg') (pg_cr3 pg') (PHYS_TO_VIRT x) = Some (x, False)) \<and>
    (\<forall>va. unat va < 0xC0000000 \<longrightarrow> translate (pg_mem pg') (pg_cr3 pg') va = None)"
proof -
  let ?top = "end_addr (mmap_get_usable_entry entries)"
  obtain pd_phys fr where a: "fa_alloc (pg_frames pg) = Inr (pd_phys, fr)"
    using assms(3) by (auto simp: paging_kernel_init_def split: sum.splits)
  obtain k where k: "k \<in> free_frames (pg_frames pg)" "pd_phys = frame_addr k"
    "free_frames fr = free_frames (pg_frames pg) - {k}" "fa_ok fr"
    using fs.alloc_law [OF assms(1) a] by (auto simp: frame_addr_def)
  have k20: "k < 1048576"
    using k(1) fs.avail_bound fs.total_bound assms(1) by (meson order_less_le_trans)
  let ?pg1 = "pg\<lparr>pg_frames := fr, kernel_pd := PHYS_TO_VIRT (frame_addr k), paging_initialized := True,
    pg_mem := fill_entries (\<lambda>i. 0) (PHYS_TO_VIRT (frame_addr k)) 0 1024 (pg_mem pg)\<rparr>"
  let ?n = "unat (((?top + 0xFFF) AND NOT 0xFFF) div 4096)"
  obtain pg2 where d: "direct_map ?pg1 (PHYS_TO_VIRT (frame_addr k)) 0 ?n = Inr pg2"
    and pd: "pd = PHYS_TO_VIRT (frame_addr k)" "pg' = pg2\<lparr>pg_cr3 := VIRT_TO_PHYS (PHYS_TO_VIRT (frame_addr k))\<rparr>"
    using assms(3) a by (auto simp: paging_kernel_init_def Let_def k(2) split: sum.splits)
  have zero: "pg_mem ?pg1 (slot k i) = 0" if "i < 1024" for i
    using fill_entries_slots [OF k20, of 0 1024 "\<lambda>i. 0" "pg_mem pg"] k20 that by simp
  have sp1: "spaces ?pg1 {k}" by (rule mapped_entries_zero) (use zero k k20 in simp_all)
  have n: "?n = (unat ?top + 0xFFF) div 4096"
  proof -
    have "((?top + 0xFFF) AND NOT (mask 12)) div 4096 = drop_bit 12 ((?top + 0xFFF) AND NOT (mask 12))"
      by (simp add: drop_bit_eq_div)
    also have "\<dots> = drop_bit 12 (?top + 0xFFF)"
      by (rule bit_word_eqI) (auto simp: bit_simps dest: bit_imp_le_length)
    finally have "?n = unat (drop_bit 12 (?top + 0xFFF))" by (simp add: page_offset_mask)
    also have "\<dots> = unat (?top + 0xFFF) div 4096" by (simp add: drop_bit_eq_div unat_div)
    also have "unat (?top + 0xFFF) = unat ?top + 0xFFF" using assms(2) by (simp add: unat_add_small)
    finally show ?thesis .
  qed
  have bound: "0 + ?n \<le> 262144" using assms(2) unfolding n by linarith
  have z: "(0 :: u32) = frame_addr 0" by (simp add: frame_addr_def)
  have "maps_identically ?pg1 k 0" by (simp add: maps_identically_def)
  from direct_map_result [OF sp1 _ bound this] d
  have r: "spaces pg2 {k}" "maps_identically pg2 k ?n"
    "\<forall>i<768. pg_mem pg2 (slot k i) = pg_mem ?pg1 (slot k i)" by (simp_all add: z)
  have cr3: "pg_cr3 pg' = frame_addr k" by (simp add: pd(2) VIRT_TO_PHYS_def PHYS_TO_VIRT_def)
  have kpd: "kernel_pd pg2 = PHYS_TO_VIRT (frame_addr k)"
  proof -
    have "kernel_pd q' = kernel_pd q" if "direct_map q p c m = Inr q'" for q q' p c m
      using that
    proof (induction m arbitrary: q c)
      case (Suc m)
      then obtain q1 where q1: "paging_map q p c (PHYS_TO_VIRT c) PAGING_PD_ENTRY_FLAGS_KERNEL_ONLY = Inr q1"
        "direct_map q1 p (c + 4096) m = Inr q'" by (auto split: sum.splits)
      then have "kernel_pd q1 = kernel_pd q"
        by (auto simp: paging_map_def Let_def split: if_splits sum.splits)
      then show ?case using Suc.IH [OF q1(2)] by simp
    qed simp
    from this [OF d] show ?thesis by simp
  qed
  have "translate (pg_mem pg') (pg_cr3 pg') (PHYS_TO_VIRT x) = Some (x, False)" if "x < ?top" for x
  proof -
    have "unat x < unat ?top" using that by (simp add: word_less_nat_alt)
    then have "entry_frame x < ?n"
      unfolding n by (simp add: entry_frame_def drop_bit_eq_div unat_div)
    then show ?thesis using r(2) unfolding cr3 by (simp add: maps_identically_def pd(2))
  qed
  moreover have "translate (pg_mem pg') (pg_cr3 pg') va = None" if "unat va < 0xC0000000" for va
    using r(3) zero that pd_index_half [of va] unfolding cr3
    by (simp add: translate_slots pd(2))
  moreover have "spaces pg' {k}" using r(1) by (simp add: spaces_def pd(2))
  ultimately show ?thesis using pd cr3 kpd by (intro exI [of _ k]) simp
qed

definition demo_boot_paging :: paging where
  "demo_boot_paging = demo_paging\<lparr>paging_initialized := False\<rparr>"

definition demo_small_map :: "mmap_entry list" where
  "demo_small_map = [\<lparr>base_addr = 0x100000, region_len = 0xFFFFFFFFFFF01000, region_type = 1\<rparr>]"

theorem paging_kernel_init_direct_map_witness:
  "\<exists>pd pg'. paging_kernel_init demo_small_map demo_boot_paging = Inr (pd, pg') \<and>
     translate (pg_mem pg') (pg_cr3 pg') 0xC0000123 = Some (0x123, False)"
proof -
  have e: "end_addr (mmap_get_usable_entry demo_small_map) = 0x1000" by code_simp
  have ok: "fa_ok (pg_frames demo_boot_paging)"
    by (simp add: fa_ok_def demo_boot_paging_def demo_paging_def)
  have "\<exists>r. paging_kernel_init demo_small_map demo_boot_paging = Inr r"
  proof -
    have f: "fa_alloc (pg_frames demo_boot_paging) =
        Inr (0x2000, \<lparr>fa_bitmap = [0x0F], fa_bitmap_size = 1, fa_initialized = True\<rparr>)"
      "fa_alloc \<lparr>fa_bitmap = [0x0F], fa_bitmap_size = 1, fa_initialized = True\<rparr> =
        Inr (0x4000, \<lparr>fa_bitmap = [0x1F], fa_bitmap_size = 1, fa_initialized = True\<rparr>)" by code_simp+
    have one: "unat (((0x1000 + 0xFFF) AND NOT 0xFFF) div 4096 :: u32) = Suc 0" by code_simp
    show ?thesis unfolding paging_kernel_init_def f e Let_def prod.case sum.case one
      by (auto simp: paging_map_def Let_def f(2) split: sum.splits)
  qed
  then obtain pd pg' where r: "paging_kernel_init demo_small_map demo_boot_paging = Inr (pd, pg')" by auto
  have "unat (end_addr (mmap_get_usable_entry demo_small_map)) \<le> 0x3FFFF000" by (simp add: e)
  from paging_kernel_init_direct_map [OF ok this r]
  have "translate (pg_mem pg') (pg_cr3 pg') (PHYS_TO_VIRT 0x123) = Some (0x123, False)" by (auto simp: e)
  then show ?thesis using r by (auto simp: PHYS_TO_VIRT_def KERNEL_VIRT_BASE_def)
qed

end
