(* ===== verification/Boot.thy ===== *)
theory Boot
  imports HeapRun Paging
begin

text \<open>
  The start of memory management, \<open>mm_init\<close> of \<open>kernel/mm/mod.h\<close>: the heap, then the frames behind it, then the page
  tables in frames. Each part has its own theory; here they are put together, from the BIOS memory map to the state all
  later code runs in.
\<close>

section \<open>Operations\<close>



section \<open>Mapping never runs out of frames\<close>





section \<open>Each step\<close>




section \<open>The state after the start\<close>








end
