(* ===== verification/Dynarray.thy ===== *)
theory Dynarray
  imports HeapRun
begin

text \<open>
  \<open>kernel/lib/src/dynarray.h\<close>: the growable array of pointers the scheduler, the descriptor table,
  the mapped regions and the directory listings are kept in. Its abstract value is a list; every
  operation is proved to be the list operation as long as the capacity has not wrapped.
\<close>

section \<open>State and operations\<close>

text \<open>
  \<open>data\<close> has one slot per pointer the allocation holds; a slot that was never written is \<open>None\<close>.
  Allocations of the header and of \<open>data\<close> are taken as succeeding (\<open>kmalloc\<close> panics otherwise).
\<close>

record 'a dynarray =
  da_data :: "'a option list"
  da_count :: u32
  da_capacity :: u32

text \<open>\<open>kmalloc(size * sizeof(void*))\<close>: the product is 32 bits wide.\<close>

definition slots_of :: "u32 \<Rightarrow> nat" where "slots_of sz = unat (sz * 4) div 4"

definition dynarray_new :: "u32 \<Rightarrow> 'a dynarray" where
  "dynarray_new sz = \<lparr>da_data = replicate (slots_of sz) None, da_count = 0, da_capacity = sz\<rparr>"

definition dynarray_store :: "'a dynarray \<Rightarrow> u32 \<Rightarrow> 'a \<Rightarrow> 'a dynarray res" where
  "dynarray_store da i elt =
     (if unat i < length (da_data da) then Inr (da\<lparr>da_data := (da_data da)[unat i := Some elt]\<rparr>)
      else Inl (KFault ''dynarray data index''))"

definition dynarray_grow :: "'a dynarray \<Rightarrow> 'a dynarray" where
  "dynarray_grow da =
     (let new = slots_of (da_capacity da * 2);
          old = take (unat (da_capacity da * 4) div 4) (da_data da)
      in da\<lparr>da_data := take new (old @ replicate new None), da_capacity := da_capacity da * 2\<rparr>)"

definition dynarray_add :: "'a dynarray \<Rightarrow> 'a \<Rightarrow> 'a dynarray res" where
  "dynarray_add da elt =
     (let da1 = (if da_count da + 1 > da_capacity da then dynarray_grow da else da)
      in case dynarray_store da1 (da_count da1) elt of
           Inl e \<Rightarrow> Inl e
         | Inr da2 \<Rightarrow> Inr (da2\<lparr>da_count := da_count da2 + 1\<rparr>))"

text \<open>The loop of \<open>dynarray_remove\<close>: \<open>n\<close> is the number of elements still to be moved down.\<close>

fun shift_down :: "'a option list \<Rightarrow> nat \<Rightarrow> nat \<Rightarrow> 'a option list" where
  "shift_down d i 0 = d"
| "shift_down d i (Suc n) = shift_down (d[i := d ! (i + 1)]) (i + 1) n"

definition dynarray_remove :: "'a dynarray \<Rightarrow> u32 \<Rightarrow> 'a dynarray" where
  "dynarray_remove da index =
     (if index \<ge> da_count da then da
      else da\<lparr>da_data := shift_down (da_data da) (unat index) (unat (da_count da - 1 - index)),
              da_count := da_count da - 1\<rparr>)"

definition dynarray_get :: "'a dynarray \<Rightarrow> u32 \<Rightarrow> 'a option" where
  "dynarray_get da index = (if index \<ge> da_count da then None else da_data da ! unat index)"

definition dynarray_remove_last :: "'a dynarray \<Rightarrow> 'a option \<times> 'a dynarray" where
  "dynarray_remove_last da =
     (if da_count da > 0
      then (da_data da ! unat (da_count da - 1), da\<lparr>da_count := da_count da - 1\<rparr>)
      else (None, da))"

text \<open>\<open>dynarray_free_deep\<close> frees the elements in order, then the array: the calls it makes.\<close>

definition dynarray_free_deep :: "'a dynarray \<Rightarrow> ('a option \<Rightarrow> 's \<Rightarrow> 's) \<Rightarrow> 's \<Rightarrow> 's" where
  "dynarray_free_deep da free_callback s =
     fold (\<lambda>i. free_callback (da_data da ! i)) [0..<unat (da_count da)] s"

section \<open>The list it holds\<close>

definition da_ok :: "'a dynarray \<Rightarrow> bool" where
  "da_ok da \<longleftrightarrow> length (da_data da) = unat (da_capacity da) \<and> da_count da \<le> da_capacity da \<and>
     da_capacity da > 0 \<and> unat (da_capacity da) < 1073741824 \<and>
     (\<forall>i<unat (da_count da). da_data da ! i \<noteq> None)"

definition da_list :: "'a dynarray \<Rightarrow> 'a list" where
  "da_list da = map the (take (unat (da_count da)) (da_data da))"

lemma slots_of_small: "unat sz < 1073741824 \<Longrightarrow> slots_of sz = unat sz"
  by (simp add: slots_of_def unat_word_ariths)

lemma da_list_length: "da_ok da \<Longrightarrow> length (da_list da) = unat (da_count da)"
  by (simp add: da_ok_def da_list_def word_le_nat_alt)

lemma da_list_nth: "da_ok da \<Longrightarrow> i < unat (da_count da) \<Longrightarrow> da_data da ! i = Some (da_list da ! i)"
  by (auto simp: da_ok_def da_list_def word_le_nat_alt)

lemma dynarray_new_ok:
  assumes "0 < sz" "unat sz < 1073741824"
  shows "da_ok (dynarray_new sz :: 'a dynarray) \<and> da_list (dynarray_new sz :: 'a dynarray) = []"
  using assms by (simp add: da_ok_def da_list_def dynarray_new_def slots_of_small)

lemma da_list_get:
  assumes "da_ok da"
  shows "dynarray_get da i = (if unat i < length (da_list da) then Some (da_list da ! unat i) else None)"
  using da_list_nth [OF assms] da_list_length [OF assms]
  by (simp add: dynarray_get_def word_le_nat_alt)

lemma da_listI:
  assumes "length d = unat cap" "n \<le> cap" "cap > 0" "unat cap < 1073741824"
    and "take (unat n) d = map Some xs"
  shows "da_ok \<lparr>da_data = d, da_count = n, da_capacity = cap\<rparr> \<and>
    da_list \<lparr>da_data = d, da_count = n, da_capacity = cap\<rparr> = xs"
proof -
  have "d ! i = take (unat n) d ! i" if "i < unat n" for i using that by simp
  moreover have "length xs = unat n"
    using arg_cong [OF assms(5), of length] assms(1,2) by (simp add: word_le_nat_alt)
  ultimately have "d ! i \<noteq> None" if "i < unat n" for i using that assms(5) by simp
  then show ?thesis using assms by (simp add: da_ok_def da_list_def comp_def)
qed

lemma da_take: "da_ok da \<Longrightarrow> take (unat (da_count da)) (da_data da) = map Some (da_list da)"
  by (rule nth_equalityI)
     (simp_all add: da_list_length da_list_nth [symmetric], simp add: da_ok_def word_le_nat_alt)

lemma da_grow:
  assumes "da_ok da" "unat (da_capacity da) < 536870912"
  shows "da_ok (dynarray_grow da) \<and> da_list (dynarray_grow da) = da_list da \<and>
    da_count (dynarray_grow da) = da_count da \<and>
    unat (da_capacity (dynarray_grow da)) = 2 * unat (da_capacity da)"
proof -
  have c: "unat (da_capacity da * 2) = 2 * unat (da_capacity da)" "unat (da_capacity da * 4) = 4 * unat (da_capacity da)"
    using assms(2) by (simp_all add: unat_word_ariths)
  have len: "length (da_data da) = unat (da_capacity da)" "unat (da_count da) \<le> unat (da_capacity da)"
    "0 < unat (da_capacity da)"
    using assms(1) by (simp_all add: da_ok_def word_le_nat_alt word_less_nat_alt)
  have g: "dynarray_grow da = da\<lparr>da_data := da_data da @ replicate (unat (da_capacity da)) None,
      da_capacity := da_capacity da * 2\<rparr>"
    using assms(2) c len(1)
    by (simp add: dynarray_grow_def slots_of_small Let_def take_replicate min_def)
  have "da_ok (dynarray_grow da) \<and> da_list (dynarray_grow da) = da_list da"
    using da_listI [of "da_data da @ replicate (unat (da_capacity da)) None" "da_capacity da * 2"
        "da_count da" "da_list da"] da_take [OF assms(1)] len c assms(2)
    unfolding g by (cases da) (simp add: word_le_nat_alt word_less_nat_alt)
  then show ?thesis using c by (simp add: g)
qed

lemma da_add:
  assumes ok: "da_ok da" and cap: "unat (da_capacity da) < 536870912"
  shows "\<exists>da'. dynarray_add da x = Inr da' \<and> da_ok da' \<and> da_list da' = da_list da @ [x] \<and>
    da_capacity da' = (if da_count da < da_capacity da then da_capacity da else da_capacity da * 2)"
proof -
  have cb: "unat (da_count da) \<le> unat (da_capacity da)" "0 < unat (da_capacity da)"
    using ok by (simp_all add: da_ok_def word_le_nat_alt word_less_nat_alt)
  have c1: "unat (da_count da + 1) = unat (da_count da) + 1"
    using cb cap unat_add_small [of "da_count da" 1] by simp
  let ?d = "if da_count da + 1 > da_capacity da then dynarray_grow da else da"
  have grows: "da_count da + 1 > da_capacity da \<longleftrightarrow> \<not> da_count da < da_capacity da"
    using cb c1 by (auto simp: word_less_nat_alt)
  have d: "da_ok ?d" "da_list ?d = da_list da" "da_count ?d = da_count da"
    using ok da_grow [OF ok cap] by simp_all
  have dc: "da_capacity ?d = (if da_count da < da_capacity da then da_capacity da else da_capacity da * 2)"
    by (simp add: grows dynarray_grow_def Let_def)
  have d5: "unat (da_count da) < unat (da_capacity ?d)"
  proof (cases "da_count da < da_capacity da")
    case True
    then have "da_capacity ?d = da_capacity da" using dc by simp
    then show ?thesis using True by (simp only: word_less_nat_alt)
  next
    case False
    then have "unat (da_capacity ?d) = 2 * unat (da_capacity da)"
      using cap by (simp add: dc unat_word_ariths)
    then show ?thesis using cb by linarith
  qed
  have len: "length (da_data ?d) = unat (da_capacity ?d)" "unat (da_capacity ?d) < 1073741824"
    using d(1) by (simp_all only: da_ok_def)
  have "take (Suc (unat (da_count da))) ((da_data ?d)[unat (da_count da) := Some x]) =
      map Some (da_list da @ [x])"
    using da_take [OF d(1)] d(2,3) d5 len(1) by (subst take_Suc_update) simp_all
  then have r: "da_ok \<lparr>da_data = (da_data ?d)[unat (da_count da) := Some x], da_count = da_count da + 1,
      da_capacity = da_capacity ?d\<rparr> \<and>
    da_list \<lparr>da_data = (da_data ?d)[unat (da_count da) := Some x], da_count = da_count da + 1,
      da_capacity = da_capacity ?d\<rparr> = da_list da @ [x]"
    using len d5 c1 by (intro da_listI) (simp_all add: word_le_nat_alt word_less_nat_alt)
  have "dynarray_add da x = Inr \<lparr>da_data = (da_data ?d)[unat (da_count da) := Some x],
      da_count = da_count da + 1, da_capacity = da_capacity ?d\<rparr>"
    using d(3) d5 len(1) by (simp add: dynarray_add_def dynarray_store_def Let_def)
  then show ?thesis using r dc by auto
qed

lemma shift_down_nth:
  assumes "i + n < length d"
  shows "length (shift_down d i n) = length d \<and>
    (\<forall>j<length d. shift_down d i n ! j = (if i \<le> j \<and> j < i + n then d ! (j + 1) else d ! j))"
  using assms
proof (induction n arbitrary: d i)
  case (Suc n)
  have "length (shift_down (d[i := d ! (i + 1)]) (i + 1) n) = length d \<and>
    (\<forall>j<length d. shift_down (d[i := d ! (i + 1)]) (i + 1) n ! j =
      (if i + 1 \<le> j \<and> j < i + 1 + n then d[i := d ! (i + 1)] ! (j + 1) else d[i := d ! (i + 1)] ! j))"
    using Suc.IH [of "i + 1" "d[i := d ! (i + 1)]"] Suc.prems by simp
  then show ?case using Suc.prems
    by (auto simp: nth_list_update) (metis le_antisym not_less_eq_eq)
qed auto

definition remove_nth :: "nat \<Rightarrow> 'a list \<Rightarrow> 'a list" where
  "remove_nth i xs = take i xs @ drop (Suc i) xs"

lemma da_remove:
  assumes ok: "da_ok da"
  shows "da_ok (dynarray_remove da i) \<and> da_list (dynarray_remove da i) = remove_nth (unat i) (da_list da)"
proof (cases "i \<ge> da_count da")
  case True
  then show ?thesis
    using ok da_list_length [OF ok] by (simp add: dynarray_remove_def remove_nth_def word_le_nat_alt)
next
  case False
  then have i: "unat i < unat (da_count da)" by (simp add: word_le_nat_alt)
  have cb: "unat (da_count da) \<le> unat (da_capacity da)" "length (da_data da) = unat (da_capacity da)"
    using ok by (simp_all add: da_ok_def word_le_nat_alt)
  have u: "unat (da_count da - 1) = unat (da_count da) - 1"
    using i by (metis One_nat_def gr_implies_not_zero unat_minus_one unat_eq_zero)
  have n: "unat (da_count da - 1 - i) = unat (da_count da) - 1 - unat i"
    using u i by (simp add: unat_sub word_le_nat_alt)
  let ?d = "shift_down (da_data da) (unat i) (unat (da_count da - 1 - i))"
  have sd: "length ?d = length (da_data da)"
    "\<And>j. j < length (da_data da) \<Longrightarrow> ?d ! j =
      (if unat i \<le> j \<and> j < unat (da_count da) - 1 then da_data da ! (j + 1) else da_data da ! j)"
    using shift_down_nth [of "unat i" "unat (da_count da) - 1 - unat i" "da_data da"] i cb
    by (auto simp: n)
  have "take (unat (da_count da - 1)) ?d = map Some (remove_nth (unat i) (da_list da))"
  proof (rule nth_equalityI)
    show "length (take (unat (da_count da - 1)) ?d) = length (map Some (remove_nth (unat i) (da_list da)))"
      using i cb sd(1) u da_list_length [OF ok] by (simp add: remove_nth_def)
    fix j assume "j < length (take (unat (da_count da - 1)) ?d)"
    then have j: "j < unat (da_count da) - 1" using u by simp
    then have "j < length (da_data da)" "Suc j < unat (da_count da)" using cb i by simp_all
    then show "take (unat (da_count da - 1)) ?d ! j = map Some (remove_nth (unat i) (da_list da)) ! j"
      using j i u sd(2) [of j] da_list_nth [OF ok, of j] da_list_nth [OF ok, of "Suc j"] da_list_length [OF ok]
      by (auto simp: remove_nth_def nth_append)
  qed
  then have "da_ok \<lparr>da_data = ?d, da_count = da_count da - 1, da_capacity = da_capacity da\<rparr> \<and>
    da_list \<lparr>da_data = ?d, da_count = da_count da - 1, da_capacity = da_capacity da\<rparr> =
      remove_nth (unat i) (da_list da)"
    using ok cb sd(1) u by (intro da_listI) (auto simp: da_ok_def word_le_nat_alt)
  then show ?thesis using False by (cases da) (simp add: dynarray_remove_def)
qed

lemma da_remove_last:
  assumes ok: "da_ok da"
  shows "fst (dynarray_remove_last da) = (if da_list da = [] then None else Some (last (da_list da))) \<and>
    da_list (snd (dynarray_remove_last da)) = butlast (da_list da) \<and> da_ok (snd (dynarray_remove_last da))"
proof (cases "da_count da > 0")
  case False
  then have "da_count da = 0" by (metis word_gt_0)
  then show ?thesis using ok by (simp add: dynarray_remove_last_def da_list_def)
next
  case True
  then have pos: "0 < unat (da_count da)" by (simp add: word_less_nat_alt)
  have u: "unat (da_count da - 1) = unat (da_count da) - 1"
    using pos by (metis One_nat_def gr_implies_not_zero unat_minus_one unat_eq_zero)
  have cb: "unat (da_count da) \<le> length (da_data da)" using ok by (simp add: da_ok_def word_le_nat_alt)
  have ne: "da_list da \<noteq> []" using pos da_list_length [OF ok] by auto
  have "da_list (da\<lparr>da_count := da_count da - 1\<rparr>) = butlast (da_list da)"
    using cb u by (simp add: da_list_def map_butlast [symmetric] butlast_take)
  moreover have "da_ok (da\<lparr>da_count := da_count da - 1\<rparr>)"
    using ok u by (auto simp: da_ok_def word_le_nat_alt)
  moreover have "da_data da ! unat (da_count da - 1) = Some (last (da_list da))"
    using da_list_nth [OF ok, of "unat (da_count da) - 1"] pos u ne da_list_length [OF ok]
    by (simp add: last_conv_nth)
  ultimately show ?thesis using True ne by (simp add: dynarray_remove_last_def)
qed

section \<open>The interface its clients use\<close>

text \<open>
  A sequence: a list value that \<open>add\<close> extends, \<open>get\<close> reads and \<open>remove\<close> shortens. \<open>room\<close> says that
  the growth does not run into the width of the capacity.
\<close>

locale sequence =
  fixes add :: "'s \<Rightarrow> 'a \<Rightarrow> 's res"
    and get :: "'s \<Rightarrow> u32 \<Rightarrow> 'a option"
    and remove :: "'s \<Rightarrow> u32 \<Rightarrow> 's"
    and count :: "'s \<Rightarrow> u32"
    and ok :: "'s \<Rightarrow> bool"
    and elems :: "'s \<Rightarrow> 'a list"
  assumes count_elems: "ok s \<Longrightarrow> unat (count s) = length (elems s)"
    and get_elems: "ok s \<Longrightarrow> get s i = (if unat i < length (elems s) then Some (elems s ! unat i) else None)"
    and add_elems: "ok s \<Longrightarrow> length (elems s) < 268435456 \<Longrightarrow>
      \<exists>s'. add s x = Inr s' \<and> ok s' \<and> elems s' = elems s @ [x]"
    and remove_elems: "ok s \<Longrightarrow> ok (remove s i) \<and> elems (remove s i) = remove_nth (unat i) (elems s)"

text \<open>Adding one element after the other.\<close>

fun add_all :: "('s \<Rightarrow> 'a \<Rightarrow> 's res) \<Rightarrow> 's \<Rightarrow> 'a list \<Rightarrow> 's res" where
  "add_all add s [] = Inr s"
| "add_all add s (x # xs) = (case add s x of Inl e \<Rightarrow> Inl e | Inr s1 \<Rightarrow> add_all add s1 xs)"

context sequence begin

lemma add_all_elems:
  assumes "ok s" "length (elems s) + length xs \<le> 268435456"
  shows "\<exists>s'. add_all add s xs = Inr s' \<and> ok s' \<and> elems s' = elems s @ xs"
  using assms
proof (induction xs arbitrary: s)
  case (Cons x xs)
  then obtain s1 where s1: "add s x = Inr s1" "ok s1" "elems s1 = elems s @ [x]"
    using add_elems [OF Cons.prems(1), of x] by auto
  then show ?case using Cons.IH [OF s1(2)] Cons.prems(2) by auto
qed simp

lemma get_after_add:
  assumes "ok s" "length (elems s) < 268435456" "add s x = Inr s'"
  shows "get s' (of_nat (length (elems s))) = Some x" "i < length (elems s) \<Longrightarrow> get s' (of_nat i) = get s (of_nat i)"
proof -
  have s': "ok s'" "elems s' = elems s @ [x]" using add_elems [OF assms(1,2), of x] assms(3) by auto
  have u: "unat (of_nat k :: u32) = k" if "k \<le> length (elems s)" for k
    using that assms(2) by (intro unat_of_nat_small) simp
  show "get s' (of_nat (length (elems s))) = Some x" by (simp add: get_elems s' u)
  show "get s' (of_nat i) = get s (of_nat i)" if "i < length (elems s)"
    using that by (simp add: get_elems assms(1) s' u nth_append)
qed

text \<open>A walk over the sequence by index, as the kernel's searches do it, visits its elements in order.\<close>

lemma walk_elems: "ok s \<Longrightarrow> map (\<lambda>i. get s (of_nat i)) [0..<unat (count s)] = map Some (elems s)"
proof (rule nth_equalityI)
  assume s: "ok s"
  show "length (map (\<lambda>i. get s (of_nat i)) [0..<unat (count s)]) = length (map Some (elems s))"
    by (simp add: count_elems s)
  fix i assume "i < length (map (\<lambda>i. get s (of_nat i)) [0..<unat (count s)])"
  then have i: "i < length (elems s)" "i < unat (count s)" by (simp_all add: count_elems s)
  then have "unat (of_nat i :: u32) = i" by (intro unat_of_nat_small) (meson less_trans unat_bound32)
  then show "map (\<lambda>i. get s (of_nat i)) [0..<unat (count s)] ! i = map Some (elems s) ! i"
    using i s by (simp add: get_elems)
qed

end

text \<open>
  The array grows only when it is full, so with fewer than \<open>2^28\<close> elements its capacity stays below
  \<open>2^29\<close> and never wraps.
\<close>

definition da_fit :: "'a dynarray \<Rightarrow> bool" where
  "da_fit da \<longleftrightarrow> da_ok da \<and> unat (da_capacity da) < 536870912"

interpretation da: sequence dynarray_add dynarray_get dynarray_remove da_count da_fit da_list
proof unfold_locales
  fix s :: "'a dynarray" and x
  assume s: "da_fit s" "length (da_list s) < 268435456"
  have ok: "da_ok s" and cap: "unat (da_capacity s) < 536870912" using s(1) by (simp_all add: da_fit_def)
  obtain s' where s': "dynarray_add s x = Inr s'" "da_ok s'" "da_list s' = da_list s @ [x]"
    "da_capacity s' = (if da_count s < da_capacity s then da_capacity s else da_capacity s * 2)"
    using da_add [OF ok cap] by blast
  have "unat (da_capacity s') < 536870912"
  proof (cases "da_count s < da_capacity s")
    case False
    then have "unat (da_capacity s) \<le> unat (da_count s)" by (simp add: word_less_nat_alt)
    then have "unat (da_capacity s) < 268435456" using s(2) da_list_length [OF ok] by simp
    then show ?thesis using False by (simp add: s'(4) unat_word_ariths)
  qed (use cap s'(4) in simp)
  then show "\<exists>s'. dynarray_add s x = Inr s' \<and> da_fit s' \<and> da_list s' = da_list s @ [x]"
    using s' by (auto simp: da_fit_def)
next
  fix s :: "'a dynarray" and i
  assume "da_fit s"
  then show "da_fit (dynarray_remove s i) \<and> da_list (dynarray_remove s i) = remove_nth (unat i) (da_list s)"
    using da_remove [of s i] by (auto simp: da_fit_def dynarray_remove_def)
qed (auto simp: da_fit_def da_list_length da_list_get)

section \<open>Properties\<close>

text \<open>
  C8. The growable array refines a list: \<open>dynarray_add\<close> succeeds and appends, \<open>dynarray_remove\<close> deletes
  at its index and keeps the order of the rest, \<open>dynarray_remove_last\<close> takes the last element,
  \<open>dynarray_get\<close> reads by index and gives 0 outside, and each keeps the array well formed.
\<close>

theorem dynarray_refines_list:
  assumes "da_fit da" and "length (da_list da) < 268435456"
  shows "(\<exists>da'. dynarray_add da x = Inr da' \<and> da_fit da' \<and> da_list da' = da_list da @ [x]) \<and>
    da_fit (dynarray_remove da i) \<and>
    da_list (dynarray_remove da i) = take (unat i) (da_list da) @ drop (Suc (unat i)) (da_list da) \<and>
    dynarray_get da i = (if unat i < length (da_list da) then Some (da_list da ! unat i) else None) \<and>
    fst (dynarray_remove_last da) = (if da_list da = [] then None else Some (last (da_list da))) \<and>
    da_list (snd (dynarray_remove_last da)) = butlast (da_list da)"
  using da.add_elems [OF assms] da.remove_elems [OF assms(1)] da.get_elems [OF assms(1)]
    da_remove_last [of da] assms(1)
  by (auto simp: remove_nth_def da_fit_def)

definition demo_array :: "nat dynarray" where
  "demo_array = \<lparr>da_data = [Some 10, Some 20], da_count = 2, da_capacity = 2\<rparr>"

theorem dynarray_refines_list_witness:
  "(\<exists>da'. dynarray_add demo_array 30 = Inr da' \<and> da_list da' = [10, 20, 30]) \<and>
   da_list (dynarray_remove demo_array 0) = [20]"
proof -
  have fit: "da_fit demo_array"
    by (simp add: da_fit_def da_ok_def demo_array_def) (auto simp: less_Suc_eq numeral_2_eq_2)
  have l: "da_list demo_array = [10, 20]" by (simp add: da_list_def demo_array_def)
  show ?thesis using dynarray_refines_list [OF fit, of 30 0] by (auto simp: l)
qed

text \<open>
  An array created with capacity 0 can never hold an element: doubling 0 gives 0, and the first
  \<open>dynarray_add\<close> writes outside the allocation.
\<close>

theorem dynarray_zero_capacity:
  "dynarray_add (dynarray_new 0) x = Inl (KFault ''dynarray data index'')"
  by (simp add: dynarray_add_def dynarray_new_def dynarray_grow_def dynarray_store_def slots_of_def Let_def)

end
