(* ===== verification/Kstring.thy ===== *)
theory Kstring
  imports Dynarray
begin

text \<open>
  \<open>kernel/lib/src/string.h\<close>: NUL-terminated strings in memory (\<open>kstrlen\<close>, \<open>kstrcmp\<close>, \<open>kstrcpy\<close>) and
  the splitting and joining of paths. The memory routines are proved against the string found at an
  address, splitting and joining against a recursive definition and each other.
\<close>

section \<open>Operations on memory\<close>

partial_function (option) strlen_loop :: "bytes_mem \<Rightarrow> u32 \<Rightarrow> u32 \<Rightarrow> u32 option" where
  "strlen_loop m str len = (if m (str + len) \<noteq> 0 then strlen_loop m str (len + 1) else Some len)"

definition kstrlen :: "bytes_mem \<Rightarrow> u32 \<Rightarrow> u32 option" where
  "kstrlen m str = strlen_loop m str 0"

text \<open>\<open>char\<close> is signed: the difference of the two promoted characters, as 32 bits.\<close>

partial_function (option) kstrcmp :: "bytes_mem \<Rightarrow> u32 \<Rightarrow> u32 \<Rightarrow> u32 option" where
  "kstrcmp m first second =
     (if m first \<noteq> 0 \<and> m first = m second then kstrcmp m (first + 1) (second + 1)
      else Some (scast (m first) - scast (m second)))"

partial_function (option) kstrcpy :: "bytes_mem \<Rightarrow> u32 \<Rightarrow> u32 \<Rightarrow> bytes_mem option" where
  "kstrcpy m dst src =
     (if m src \<noteq> 0 then kstrcpy (m(dst := m src)) (dst + 1) (src + 1) else Some (m(dst := m src)))"

declare strlen_loop.simps [code] kstrcmp.simps [code] kstrcpy.simps [code]

section \<open>Splitting and joining\<close>

text \<open>
  Strings here are their bytes up to the NUL, and a segment is what \<open>kmemcpy\<close> puts in its
  allocation. \<open>n\<close> is the number of bytes the loop still has to look at.
\<close>

fun strsplit_loop :: "u8 list \<Rightarrow> u8 \<Rightarrow> nat \<Rightarrow> nat \<Rightarrow> u8 list dynarray \<Rightarrow> nat \<Rightarrow> (nat \<times> u8 list dynarray) res" where
  "strsplit_loop s delim i start da 0 = Inr (start, da)"
| "strsplit_loop s delim i start da (Suc n) =
     (if s ! i = delim
      then (case dynarray_add da (take (i - start) (drop start s)) of
              Inl e \<Rightarrow> Inl e
            | Inr da1 \<Rightarrow> strsplit_loop s delim (i + 1) (i + 1) da1 n)
      else strsplit_loop s delim (i + 1) start da n)"

definition kstrsplit :: "u8 list \<Rightarrow> u8 \<Rightarrow> u8 list dynarray res" where
  "kstrsplit s delim =
     (case strsplit_loop s delim 0 0 (dynarray_new 8) (length s) of
        Inl e \<Rightarrow> Inl e
      | Inr (start, da) \<Rightarrow>
          (if start < length s then dynarray_add da (take (length s - start) (drop start s)) else Inr da))"

text \<open>\<open>put_bytes\<close> writes into the allocation of \<open>room\<close> bytes behind what is already there.\<close>

definition put_bytes :: "nat \<Rightarrow> u8 list \<Rightarrow> u8 list \<Rightarrow> u8 list res" where
  "put_bytes room buf bs = (if length buf + length bs \<le> room then Inr (buf @ bs) else Inl (KFault ''kstrjoin result''))"

text \<open>The sum of the lengths is a 32-bit one, and so is the size asked for.\<close>

fun strs_len :: "u8 list dynarray \<Rightarrow> nat \<Rightarrow> nat \<Rightarrow> u32 res" where
  "strs_len strs i 0 = Inr 0"
| "strs_len strs i (Suc n) =
     (case dynarray_get strs (of_nat i) of
        None \<Rightarrow> Inl (KFault ''kstrlen(0)'')
      | Some str \<Rightarrow> (case strs_len strs (i + 1) n of Inl e \<Rightarrow> Inl e | Inr l \<Rightarrow> Inr (of_nat (length str) + l)))"

fun strjoin_loop :: "u8 list dynarray \<Rightarrow> u8 \<Rightarrow> nat \<Rightarrow> u8 list \<Rightarrow> nat \<Rightarrow> nat \<Rightarrow> u8 list res" where
  "strjoin_loop strs delim room result i 0 = Inr result"
| "strjoin_loop strs delim room result i (Suc n) =
     (case dynarray_get strs (of_nat i) of
        None \<Rightarrow> Inl (KFault ''kstrlen(0)'')
      | Some str \<Rightarrow>
          (case put_bytes room result str of
             Inl e \<Rightarrow> Inl e
           | Inr r1 \<Rightarrow>
               (case (if of_nat i < da_count strs - 1 then put_bytes room r1 [delim] else Inr r1) of
                  Inl e \<Rightarrow> Inl e
                | Inr r2 \<Rightarrow> strjoin_loop strs delim room r2 (i + 1) n)))"

definition kstrjoin :: "u8 list dynarray \<Rightarrow> u8 \<Rightarrow> u8 list res" where
  "kstrjoin strs delim =
     (case strs_len strs 0 (unat (da_count strs)) of
        Inl e \<Rightarrow> Inl e
      | Inr len \<Rightarrow>
          (let room = unat (len + da_count strs)
           in case strjoin_loop strs delim room [] 0 (unat (da_count strs)) of
                Inl e \<Rightarrow> Inl e
              | Inr r \<Rightarrow> (case put_bytes room r [0] of Inl e \<Rightarrow> Inl e | Inr _ \<Rightarrow> Inr r)))"

section \<open>Strings in memory\<close>

definition cstring :: "bytes_mem \<Rightarrow> u32 \<Rightarrow> u8 list \<Rightarrow> bool" where
  "cstring m p s \<longleftrightarrow> (\<forall>i<length s. m (p + of_nat i) = s ! i) \<and> 0 \<notin> set s \<and>
     m (p + of_nat (length s)) = 0 \<and> length s < 4294967296"

lemma cstring_Cons:
  "cstring m p (c # s) \<longleftrightarrow> m p = c \<and> c \<noteq> 0 \<and> cstring m (p + 1) s \<and> length s + 1 < 4294967296"
  by (auto simp: cstring_def All_less_Suc2 add.assoc)

lemma cstring_Nil: "cstring m p [] \<longleftrightarrow> m p = 0"
  by (simp add: cstring_def)

lemma kstrlen_cstring:
  assumes "cstring m p s"
  shows "kstrlen m p = Some (of_nat (length s))"
proof -
  have "strlen_loop m p (of_nat k) = Some (of_nat (length s))" if "k \<le> length s" for k
    using that
  proof (induction "length s - k" arbitrary: k)
    case 0
    then show ?case using assms by (subst strlen_loop.simps) (simp add: cstring_def)
  next
    case (Suc d)
    then have "k < length s" by simp
    then have "m (p + of_nat k) \<noteq> 0" using assms by (metis cstring_def nth_mem)
    moreover have "strlen_loop m p (of_nat (k + 1)) = Some (of_nat (length s))"
      by (rule Suc.hyps(1)) (use Suc in simp_all)
    ultimately show ?case by (subst strlen_loop.simps) (simp add: add.commute)
  qed
  from this [of 0] show ?thesis by (simp add: kstrlen_def)
qed

lemma scast_diff_zero: "scast (a :: u8) - scast b = (0 :: u32) \<longleftrightarrow> a = b"
proof -
  have "scast a = (scast b :: u32) \<longleftrightarrow> a = b"
  proof
    assume "scast a = (scast b :: u32)"
    then have "ucast (scast a :: u32) = (ucast (scast b :: u32) :: u8)" by simp
    moreover have "ucast (scast x :: u32) = x" for x :: u8
      by (rule bit_word_eqI) (auto simp: bit_simps)
    ultimately show "a = b" by simp
  qed simp
  then show ?thesis by simp
qed

lemma kstrcmp_cstring:
  assumes "cstring m p s" "cstring m q t"
  shows "\<exists>r. kstrcmp m p q = Some r \<and> (r = 0 \<longleftrightarrow> s = t)"
  using assms
proof (induction s arbitrary: p q t)
  case Nil
  then show ?case
    using scast_diff_zero [of 0 "m q"]
    by (subst kstrcmp.simps, cases t) (auto simp: cstring_Nil cstring_Cons)
next
  case (Cons c s)
  show ?case
  proof (cases "\<exists>t'. t = c # t'")
    case True
    then obtain t' where t: "t = c # t'" by blast
    then show ?thesis
      using Cons.IH [of "p + 1" "q + 1" t'] Cons.prems
      by (subst kstrcmp.simps) (auto simp: cstring_Cons)
  next
    case False
    then have "m q \<noteq> c" using Cons.prems by (cases t) (auto simp: cstring_Cons cstring_Nil)
    then show ?thesis
      using Cons.prems(1) False scast_diff_zero [of "m p" "m q"]
      by (subst kstrcmp.simps) (auto simp: cstring_Cons)
  qed
qed

text \<open>\<open>kstrcpy\<close> is the \<open>kmemcpy\<close> of the string and its NUL, when the copy does not run into its source.\<close>

lemma kstrcpy_memcpy:
  assumes "cstring m src s"
    and "\<And>i j. i \<le> length s \<Longrightarrow> j \<le> length s \<Longrightarrow> dst + of_nat i \<noteq> src + of_nat j"
  shows "kstrcpy m dst src = Some (kmemcpy m dst src (length s + 1))"
  using assms
proof (induction s arbitrary: m dst src)
  case Nil
  then show ?case by (subst kstrcpy.simps) (simp add: cstring_Nil)
next
  case (Cons c s)
  let ?m = "m(dst := m src)"
  have sep: "dst + of_nat i \<noteq> src + of_nat j" if "i \<le> length s + 1" "j \<le> length s + 1" for i j
    using Cons.prems(2) that by simp
  have same: "?m (src + of_nat j) = m (src + of_nat j)" if "j \<le> length s + 1" for j
    using sep [of 0 j] that by auto
  have "cstring ?m (src + 1) s"
  proof -
    have "cstring m (src + 1) s" using Cons.prems(1) by (simp add: cstring_Cons)
    moreover have "?m (src + 1 + of_nat j) = m (src + 1 + of_nat j)" if "j \<le> length s" for j
      using same [of "Suc j"] that by (simp add: add.assoc)
    ultimately show ?thesis by (simp add: cstring_def)
  qed
  moreover have "dst + 1 + of_nat i \<noteq> src + 1 + of_nat j" if "i \<le> length s" "j \<le> length s" for i j
    using sep [of "Suc i" "Suc j"] that by (simp add: add.assoc)
  ultimately have "kstrcpy ?m (dst + 1) (src + 1) = Some (kmemcpy ?m (dst + 1) (src + 1) (length s + 1))"
    by (rule Cons.IH)
  moreover have "m src \<noteq> 0" using Cons.prems(1) by (simp add: cstring_Cons)
  ultimately show ?case by (subst kstrcpy.simps) simp
qed

section \<open>Splitting\<close>

fun split_on :: "u8 \<Rightarrow> u8 list \<Rightarrow> u8 list \<Rightarrow> u8 list list" where
  "split_on d cur [] = (if cur = [] then [] else [cur])"
| "split_on d cur (c # cs) = (if c = d then cur # split_on d [] cs else split_on d (cur @ [c]) cs)"

fun join_with :: "u8 \<Rightarrow> u8 list list \<Rightarrow> u8 list" where
  "join_with d [] = []"
| "join_with d [x] = x"
| "join_with d (x # y # xs) = x @ [d] @ join_with d (y # xs)"

lemma split_on_length: "length (split_on d cur s) \<le> length s + (if cur = [] then 0 else 1)"
  by (induction d cur s rule: split_on.induct) (auto split: if_splits)

lemma strsplit_loop_split:
  assumes "da_fit da" "i + n = length s" "start \<le> i" "length (da_list da) + n < 268435456"
  shows "\<exists>start' da'. strsplit_loop s d i start da n = Inr (start', da') \<and> da_fit da' \<and>
    start' \<le> length s \<and> length (da_list da') \<le> length (da_list da) + n \<and>
    da_list da' @ (if start' < length s then [drop start' s] else []) =
      da_list da @ split_on d (take (i - start) (drop start s)) (drop i s)"
  using assms
proof (induction n arbitrary: i start da)
  case 0
  then show ?case by auto
next
  case (Suc n)
  then have i: "i < length s" by simp
  then have dr: "drop i s = s ! i # drop (Suc i) s" by (rule Cons_nth_drop_Suc [symmetric])
  show ?case
  proof (cases "s ! i = d")
    case True
    obtain da1 where a: "dynarray_add da (take (i - start) (drop start s)) = Inr da1" "da_fit da1"
      "da_list da1 = da_list da @ [take (i - start) (drop start s)]"
      using da.add_elems [OF Suc.prems(1)] Suc.prems(4) by fastforce
    have len: "Suc (i + n) = length s" "length (da_list da1) + n < 268435456"
      using Suc.prems(2,4) a(3) by simp_all
    from Suc.IH [of da1 "i + 1" "i + 1"] show ?thesis
      using True a dr len by fastforce
  next
    case False
    have "take (Suc i - start) (drop start s) = take (i - start) (drop start s) @ [s ! i]"
      using Suc.prems(3) i by (simp add: Suc_diff_le take_Suc_conv_app_nth)
    then show ?thesis
      using False Suc.IH [of da "i + 1" start] Suc.prems dr by fastforce
  qed
qed

lemma kstrsplit_split:
  assumes "length s < 268435455"
  shows "\<exists>da. kstrsplit s d = Inr da \<and> da_fit da \<and> da_list da = split_on d [] s"
proof -
  have new: "da_fit (dynarray_new 8 :: u8 list dynarray)" "da_list (dynarray_new 8 :: u8 list dynarray) = []"
    using dynarray_new_ok [of 8, where 'a = "u8 list"] by (simp_all add: da_fit_def dynarray_new_def)
  obtain start da where l: "strsplit_loop s d 0 0 (dynarray_new 8) (length s) = Inr (start, da)" "da_fit da"
    "start \<le> length s" "length (da_list da) \<le> length s"
    "da_list da @ (if start < length s then [drop start s] else []) = split_on d [] s"
    using strsplit_loop_split [OF new(1), of 0 "length s" s 0 d] new(2) assms by auto
  show ?thesis
  proof (cases "start < length s")
    case True
    obtain da' where "dynarray_add da (drop start s) = Inr da'" "da_fit da'"
      "da_list da' = da_list da @ [drop start s]"
      using da.add_elems [OF l(2), of "drop start s"] l(4) assms by auto
    then show ?thesis using l True by (simp add: kstrsplit_def)
  next
    case False
    then show ?thesis using l by (simp add: kstrsplit_def)
  qed
qed

section \<open>Joining\<close>

lemma strs_len_sum:
  assumes "da_fit da" "i + n = length (da_list da)"
  shows "strs_len da i n = Inr (of_nat (sum_list (map length (drop i (da_list da)))))"
  using assms
proof (induction n arbitrary: i)
  case (Suc n)
  then have i: "i < length (da_list da)" by simp
  have "i < unat (da_count da)" using i da.count_elems [OF Suc.prems(1)] by simp
  then have "unat (of_nat i :: u32) = i" by (intro unat_of_nat_small) (meson less_trans unat_bound32)
  then have "dynarray_get da (of_nat i) = Some (da_list da ! i)" using i da.get_elems [OF Suc.prems(1)] by simp
  moreover have "drop i (da_list da) = da_list da ! i # drop (Suc i) (da_list da)"
    using i by (rule Cons_nth_drop_Suc [symmetric])
  ultimately show ?case using Suc.IH [of "Suc i"] Suc.prems by simp
qed simp

lemma join_with_length: "xs \<noteq> [] \<Longrightarrow> Suc (length (join_with d xs)) = sum_list (map length xs) + length xs"
  by (induction d xs rule: join_with.induct) auto

lemma strjoin_loop_join:
  assumes "da_fit da" "i + n = length (da_list da)"
    and "length result + length (join_with d (drop i (da_list da))) \<le> room"
  shows "strjoin_loop da d room result i n = Inr (result @ join_with d (drop i (da_list da)))"
  using assms
proof (induction n arbitrary: i result)
  case (Suc n)
  have i: "i < length (da_list da)" using Suc.prems(2) by simp
  have cnt: "unat (da_count da) = length (da_list da)" using da.count_elems [OF Suc.prems(1)] .
  have u: "unat (of_nat i :: u32) = i"
    using i cnt by (intro unat_of_nat_small) (metis less_trans unat_bound32)
  have g: "dynarray_get da (of_nat i) = Some (da_list da ! i)" using i u da.get_elems [OF Suc.prems(1)] by simp
  have dr: "drop i (da_list da) = da_list da ! i # drop (Suc i) (da_list da)"
    using i by (rule Cons_nth_drop_Suc [symmetric])
  have "unat (da_count da - 1) = length (da_list da) - 1"
    using i cnt by (metis One_nat_def gr_implies_not_zero length_greater_0_conv list.size(3) unat_eq_zero unat_minus_one)
  then have cond: "(of_nat i :: u32) < da_count da - 1 \<longleftrightarrow> Suc i < length (da_list da)"
    using u by (auto simp: word_less_nat_alt)
  show ?case
  proof (cases "Suc i < length (da_list da)")
    case True
    then have dr2: "drop (Suc i) (da_list da) = da_list da ! Suc i # drop (Suc (Suc i)) (da_list da)"
      by (rule Cons_nth_drop_Suc [symmetric])
    have j: "join_with d (drop i (da_list da)) = da_list da ! i @ [d] @ join_with d (drop (Suc i) (da_list da))"
      unfolding dr dr2 by simp
    show ?thesis
      using Suc.IH [OF Suc.prems(1), of "Suc i" "result @ da_list da ! i @ [d]"] Suc.prems(2,3) g cond True j
      by (simp add: put_bytes_def)
  next
    case False
    then have "drop (Suc i) (da_list da) = []" by simp
    then have j: "join_with d (drop i (da_list da)) = da_list da ! i" unfolding dr by simp
    have "n = 0" using False Suc.prems(2) by simp
    then show ?thesis using Suc.prems(3) g cond False j by (simp add: put_bytes_def)
  qed
qed simp

lemma kstrjoin_join:
  assumes "da_fit da" "da_list da \<noteq> []" "length (join_with d (da_list da)) + 1 < 4294967296"
  shows "kstrjoin da d = Inr (join_with d (da_list da))"
proof -
  let ?n = "sum_list (map length (da_list da))" and ?c = "length (da_list da)"
  have c: "unat (da_count da) = ?c" by (rule da.count_elems [OF assms(1)])
  then have "da_count da = of_nat ?c" by (simp flip: c)
  then have "unat (of_nat ?n + da_count da) = ?n + ?c"
    using join_with_length [OF assms(2), of d] assms(3) by (simp add: unat_of_nat_small flip: of_nat_add)
  then show ?thesis using strs_len_sum [OF assms(1), of 0] strjoin_loop_join [OF assms(1), of 0 _ "[]" d]
      join_with_length [OF assms(2), of d] c
    by (simp add: kstrjoin_def Let_def put_bytes_def)
qed

lemma join_split:
  assumes "d \<notin> set cur" "cur @ s \<noteq> []"
  shows "split_on d cur s \<noteq> [] \<and> join_with d (split_on d cur s) =
    (if last (cur @ s) = d then butlast (cur @ s) else cur @ s)"
  using assms
proof (induction d cur s rule: split_on.induct)
  case (1 d cur)
  then have "last cur \<noteq> d" using last_in_set by fastforce
  then show ?case using 1 by simp
next
  case (2 d cur c cs)
  show ?case
  proof (cases "c = d")
    case True
    show ?thesis
    proof (cases "cs = []")
      case True
      then show ?thesis using \<open>c = d\<close> by (simp add: butlast_append)
    next
      case False
      obtain y ys where y: "split_on d [] cs = y # ys"
        using "2.IH"(1) [OF True] False by (cases "split_on d [] cs") auto
      then show ?thesis using "2.IH"(1) [OF True] True False by (simp add: butlast_append)
    qed
  next
    case False
    then show ?thesis using "2.IH"(2) [OF False] "2.prems" by simp
  qed
qed

section \<open>Properties\<close>

text \<open>
  On NUL-terminated strings \<open>kstrlen\<close> returns the length, \<open>kstrcmp\<close> returns 0 exactly when the
  strings are equal, and \<open>kstrcpy\<close> to a region apart from the source puts the string there; all of
  them end.
\<close>

theorem kstr_routines_correct:
  assumes "cstring m p s" and "cstring m q t"
    and "\<forall>i\<le>length s. \<forall>j\<le>length s. dst + of_nat i \<noteq> p + of_nat j"
  shows "kstrlen m p = Some (of_nat (length s)) \<and> (\<exists>r. kstrcmp m p q = Some r \<and> (r = 0 \<longleftrightarrow> s = t)) \<and>
    (\<exists>m'. kstrcpy m dst p = Some m' \<and> cstring m' dst s \<and>
       (\<forall>a. (\<forall>i\<le>length s. a \<noteq> dst + of_nat i) \<longrightarrow> m' a = m a))"
proof -
  have c: "kstrcpy m dst p = Some (kmemcpy m dst p (length s + 1))"
    by (rule kstrcpy_memcpy [OF assms(1)]) (use assms(3) in blast)
  have inj: "dst + of_nat i = dst + of_nat j \<longleftrightarrow> i = j" if "i < length s + 1" "j < length s + 1" for i j
  proof -
    have "i < 4294967296" "j < 4294967296" using that assms(1) by (simp_all add: cstring_def)
    then have "(of_nat i :: u32) = of_nat j \<longleftrightarrow> i = j" by (metis unat_of_nat_small)
    then show ?thesis by simp
  qed
  have copied: "kmemcpy m dst p (length s + 1) (dst + of_nat i) = m (p + of_nat i)" if "i < length s + 1" for i
    by (rule kmemcpy_copies [OF _ _ that]) (use inj assms(3) in auto)
  have "cstring (kmemcpy m dst p (length s + 1)) dst s"
    using assms(1) copied by (simp add: cstring_def)
  moreover have "kmemcpy m dst p (length s + 1) a = m a" if "\<forall>i\<le>length s. a \<noteq> dst + of_nat i" for a
    using that by (intro kmemcpy_other) simp
  ultimately show ?thesis
    using kstrlen_cstring [OF assms(1)] kstrcmp_cstring [OF assms(1,2)] c by blast
qed

definition demo_strings :: bytes_mem where
  "demo_strings = (\<lambda>a. if a = 16 then 0x2F else if a = 17 then 0x61 else if a = 32 then 0x2F else 0)"

theorem kstr_routines_correct_witness:
  "kstrlen demo_strings 16 = Some 2 \<and> (\<exists>r. kstrcmp demo_strings 16 32 = Some r \<and> r \<noteq> 0)"
proof -
  have c: "cstring demo_strings 16 [0x2F, 0x61]" "cstring demo_strings 32 [0x2F]"
    by (simp_all add: cstring_Cons cstring_Nil demo_strings_def)
  have "\<forall>i\<le>length [0x2F, 0x61 :: u8]. \<forall>j\<le>length [0x2F, 0x61 :: u8]. (64 + of_nat i :: u32) \<noteq> 16 + of_nat j"
    by (auto simp: le_Suc_eq)
  from kstr_routines_correct [OF c this] show ?thesis by auto
qed

text \<open>
  C9. \<open>kstrsplit\<close> cuts a path at every delimiter, an empty segment between two of them included and
  the empty segment after the last one left out; \<open>kstrjoin\<close> of the segments gives the path back,
  without its last byte when that is a delimiter.
\<close>

theorem kstrsplit_kstrjoin:
  assumes "length s < 268435455"
  shows "\<exists>da. kstrsplit s d = Inr da \<and> da_fit da \<and> da_list da = split_on d [] s \<and>
    (s \<noteq> [] \<longrightarrow> kstrjoin da d = Inr (if last s = d then butlast s else s))"
proof -
  obtain da where da: "kstrsplit s d = Inr da" "da_fit da" "da_list da = split_on d [] s"
    using kstrsplit_split [OF assms, of d] by blast
  have "kstrjoin da d = Inr (if last s = d then butlast s else s)" if "s \<noteq> []"
  proof -
    have j: "split_on d [] s \<noteq> []" "join_with d (split_on d [] s) = (if last s = d then butlast s else s)"
      using join_split [of d "[]" s] that by simp_all
    have "length (join_with d (da_list da)) + 1 < 4294967296" unfolding da(3) j(2) using assms length_butlast [of s] by (auto split: if_splits)
    then show ?thesis using kstrjoin_join [OF da(2), of d] da(3) j by simp
  qed
  then show ?thesis using da by blast
qed

theorem kstrsplit_kstrjoin_witness:
  "\<exists>da. kstrsplit [0x2F, 0x61, 0x2F, 0x62, 0x2F] 0x2F = Inr da \<and> da_list da = [[], [0x61], [0x62]] \<and>
     kstrjoin da 0x2F = Inr [0x2F, 0x61, 0x2F, 0x62]"
  using kstrsplit_kstrjoin [of "[0x2F, 0x61, 0x2F, 0x62, 0x2F]" "0x2F"] by auto

end
