(* ===== verification/Proc.thy ===== *)
theory Proc
  imports Paging Kstring
begin

text \<open>
  Processes, \<open>kernel/proc/src/proc.h\<close> and the creation and destruction of \<open>kernel/proc/src/proc.c\<close>, over
  the kernel state that the scheduler, the system calls and the console share.
\<close>

section \<open>The process control block\<close>

datatype proc_state = RUNNING | READY | BLOCKED | ZOMBIE | STARTING

record proc_registers_state =
  r_edi :: u32
  r_esi :: u32
  r_ebp :: u32
  r_esp :: u32
  r_ebx :: u32
  r_edx :: u32
  r_ecx :: u32
  r_eax :: u32
  r_eip :: u32
  r_cs :: u32
  r_eflags :: u32
  r_user_esp :: u32
  r_user_ss :: u32

record proc_fd_entry =
  global_fd :: u32
  fd_offset :: u32
  fd_flags :: u8

record mmap_region =
  mr_base :: u32
  mr_len :: u32

text \<open>
  \<open>argv\<close> and \<open>env\<close> are the kernel's copies of the strings, \<open>mmap_regions\<close> is \<open>None\<close> for the null
  pointer, \<open>fds\<close> has \<open>MAX_FDS\<close> entries, \<open>None\<close> for 0.
\<close>

record proc =
  proc_id :: u32
  reg_states :: proc_registers_state
  user_stack :: u32
  kernel_stack :: u32
  proc_pd :: u32
  proc_state :: proc_state
  stdin_user_buf :: u32
  stdin_user_buf_size :: u32
  stdin_kernel_buf :: u32
  stdin_kernel_buf_len :: u32
  argv :: "u8 list list"
  env :: "u8 list list"
  program_break :: u32
  mmap_next :: u32
  mmap_regions :: "mmap_region dynarray option"
  parent_pid :: u32
  exit_code :: u32
  waiting_for :: u32
  fds :: "proc_fd_entry option list"

definition PROC_USER_STACK_TOP_VADDR :: u32 where "PROC_USER_STACK_TOP_VADDR = 0x8000000"
definition PROC_USER_FLAGS :: u8 where "PROC_USER_FLAGS = 0x7"
definition MAX_FDS :: nat where "MAX_FDS = 16"
definition REGS_SIZE :: u32 where "REGS_SIZE = 52"

section \<open>The kernel state\<close>

text \<open>
  Objects are found by their address in \<open>ptab\<close>; 0 is the null pointer. Page tables are words of
  \<open>vmm\<close>; the bytes of the kernel half are \<open>kbytes\<close>, those of the user half are \<open>ubytes\<close> by the page
  directory they are seen through.
\<close>

record kstate =
  vmm :: paging
  kbytes :: bytes_mem
  ubytes :: "u32 \<Rightarrow> bytes_mem"
  ptab :: "u32 \<rightharpoonup> proc"
  procs :: "u32 dynarray"
  procs_head :: u32
  current_proc :: u32
  sched_initialized :: bool
  pid_counter :: u32
  idle_proc :: u32
  tss_esp0 :: u32
  stdin_buf :: u32
  stdin_buf_len :: u32
  waiting_stdin :: u32
  waiting_buf :: u32
  waiting_buf_size :: u32

definition lookup :: "kstate \<Rightarrow> u32 \<Rightarrow> proc res" where
  "lookup k p = (case ptab k p of Some pr \<Rightarrow> Inr pr | None \<Rightarrow> Inl (KFault ''proc pointer''))"

definition update :: "kstate \<Rightarrow> u32 \<Rightarrow> proc \<Rightarrow> kstate" where
  "update k p pr = k\<lparr>ptab := (ptab k)(p \<mapsto> pr)\<rparr>"

text \<open>A byte at a virtual address, through a page directory.\<close>

definition vread :: "kstate \<Rightarrow> u32 \<Rightarrow> u32 \<Rightarrow> u8" where
  "vread k pd a = (if a \<ge> KERNEL_VIRT_BASE then kbytes k a else ubytes k pd a)"

definition vwrite :: "kstate \<Rightarrow> u32 \<Rightarrow> u32 \<Rightarrow> u8 \<Rightarrow> kstate" where
  "vwrite k pd a b =
     (if a \<ge> KERNEL_VIRT_BASE then k\<lparr>kbytes := (kbytes k)(a := b)\<rparr>
      else k\<lparr>ubytes := (ubytes k)(pd := (ubytes k pd)(a := b))\<rparr>)"

fun store_bytes :: "bytes_mem \<Rightarrow> u32 \<Rightarrow> u8 list \<Rightarrow> bytes_mem" where
  "store_bytes m a [] = m"
| "store_bytes m a (b # bs) = store_bytes (m(a := b)) (a + 1) bs"

fun store_words :: "bytes_mem \<Rightarrow> u32 \<Rightarrow> u32 list \<Rightarrow> bytes_mem" where
  "store_words m a [] = m"
| "store_words m a (w # ws) = store_words (st32 m a w) (a + 4) ws"

section \<open>Operations\<close>

definition zero_regs :: proc_registers_state where
  "zero_regs = \<lparr>r_edi = 0, r_esi = 0, r_ebp = 0, r_esp = 0, r_ebx = 0, r_edx = 0, r_ecx = 0, r_eax = 0,
     r_eip = 0, r_cs = 0, r_eflags = 0, r_user_esp = 0, r_user_ss = 0\<rparr>"

definition regs_words :: "proc_registers_state \<Rightarrow> u32 list" where
  "regs_words r = [r_edi r, r_esi r, r_ebp r, r_esp r, r_ebx r, r_edx r, r_ecx r, r_eax r,
     r_eip r, r_cs r, r_eflags r, r_user_esp r, r_user_ss r]"

definition zero_proc :: proc where
  "zero_proc = \<lparr>proc_id = 0, reg_states = zero_regs, user_stack = 0, kernel_stack = 0, proc_pd = 0,
     proc_state = RUNNING, stdin_user_buf = 0, stdin_user_buf_size = 0, stdin_kernel_buf = 0,
     stdin_kernel_buf_len = 0, argv = [], env = [], program_break = 0, mmap_next = 0,
     mmap_regions = None, parent_pid = 0, exit_code = 0, waiting_for = 0, fds = replicate MAX_FDS None\<rparr>"

text \<open>The loop that maps the user stack, for \<open>i = 0 .. 3\<close>; \<open>n\<close> pages are left.\<close>

fun map_stack :: "paging \<Rightarrow> u32 \<Rightarrow> u32 \<Rightarrow> nat \<Rightarrow> paging res" where
  "map_stack pg pd i 0 = Inr pg"
| "map_stack pg pd i (Suc n) =
     (case fa_alloc (pg_frames pg) of
        Inl e \<Rightarrow> Inl e
      | Inr (frame, fr) \<Rightarrow>
          (case paging_map (pg\<lparr>pg_frames := fr\<rparr>) pd frame (PROC_USER_STACK_TOP_VADDR - (i + 1) * 4096) PROC_USER_FLAGS of
             Inl e \<Rightarrow> Inl e
           | Inr pg1 \<Rightarrow> map_stack pg1 pd (i + 1) n))"

definition user_ctx :: "u32 \<Rightarrow> proc_registers_state" where
  "user_ctx entry = zero_regs\<lparr>r_eip := entry, r_cs := 0x1B, r_eflags := 0x202,
     r_user_esp := PROC_USER_STACK_TOP_VADDR, r_user_ss := 0x23\<rparr>"

text \<open>\<open>p\<close> is the address \<open>kmalloc\<close> gave for the new \<open>proc\<close>.\<close>

definition proc_create :: "u32 \<Rightarrow> u32 \<Rightarrow> kstate \<Rightarrow> kstate res" where
  "proc_create p entry k =
     (if pid_counter k = 0 then Inl (KPanic ''tried to create a process before kernel idle process was created'')
      else case paging_create_pd (vmm k) of
        Inl e \<Rightarrow> Inl e
      | Inr (pd, pg1) \<Rightarrow>
         (case fa_alloc (pg_frames pg1) of
            Inl e \<Rightarrow> Inl e
          | Inr (ks_phys, fr) \<Rightarrow>
             (let ks_virt = PHYS_TO_VIRT ks_phys + 4096;
                  ks = ks_virt - REGS_SIZE
              in case map_stack (pg1\<lparr>pg_frames := fr\<rparr>) pd 0 4 of
                   Inl e \<Rightarrow> Inl e
                 | Inr pg2 \<Rightarrow>
                    (let parent = (if current_proc k \<noteq> 0
                                   then (case ptab k (current_proc k) of Some c \<Rightarrow> proc_id c | None \<Rightarrow> 0) else 0)
                     in Inr (k\<lparr>vmm := pg2, pid_counter := pid_counter k + 1,
                               kbytes := store_words (kbytes k) ks (regs_words (user_ctx entry)),
                               ptab := (ptab k)(p \<mapsto> zero_proc\<lparr>proc_id := pid_counter k, proc_pd := pd,
                                 kernel_stack := ks, user_stack := PROC_USER_STACK_TOP_VADDR,
                                 proc_state := READY, parent_pid := parent\<rparr>)\<rparr>)))))"

definition proc_create_k_idle :: "u32 \<Rightarrow> u32 \<Rightarrow> u32 \<Rightarrow> kstate \<Rightarrow> kstate res" where
  "proc_create_k_idle p idle_entry idle_stack_top k =
     (case paging_get_kernel_pd (vmm k) of
        Inl e \<Rightarrow> Inl e
      | Inr pd \<Rightarrow>
          (let ctx = zero_regs\<lparr>r_eip := idle_entry, r_cs := 0x08, r_eflags := 0x202,
                 r_user_esp := idle_stack_top, r_user_ss := 0x10\<rparr>;
               ks = idle_stack_top - REGS_SIZE
           in Inr (k\<lparr>pid_counter := pid_counter k + 1, idle_proc := p,
                     kbytes := store_words (kbytes k) ks (regs_words ctx),
                     ptab := (ptab k)(p \<mapsto> zero_proc\<lparr>proc_id := pid_counter k, proc_pd := pd,
                       kernel_stack := ks, proc_state := READY\<rparr>)\<rparr>)))"

text \<open>
  The frames \<open>proc_destroy\<close> frees, in the order it frees them: the kernel stack, then for each present
  directory entry of the user half the present pages of its table and the table, then the directory.
\<close>

fun free_all :: "frame_alloc \<Rightarrow> u32 list \<Rightarrow> frame_alloc res" where
  "free_all fa [] = Inr fa"
| "free_all fa (a # as) = (case fa_free fa a of Inl e \<Rightarrow> Inl e | Inr fa1 \<Rightarrow> free_all fa1 as)"

definition pages_of_table :: "(u32 \<Rightarrow> u32) \<Rightarrow> u32 \<Rightarrow> u32 list" where
  "pages_of_table m pt =
     map (\<lambda>pte. pte AND 0xFFFFF000)
       (filter (\<lambda>pte. pte AND 1 \<noteq> 0) (map (\<lambda>i. m (entry_addr pt (of_nat i))) [0..<1024]))"

definition frames_of_space :: "(u32 \<Rightarrow> u32) \<Rightarrow> u32 \<Rightarrow> u32 list" where
  "frames_of_space m pd =
     concat (map (\<lambda>pde. if pde AND 1 \<noteq> 0
                        then pages_of_table m (PHYS_TO_VIRT (pde AND 0xFFFFF000)) @ [pde AND 0xFFFFF000]
                        else [])
       (map (\<lambda>i. m (entry_addr pd (of_nat i))) [0..<768]))"

definition proc_destroy :: "u32 \<Rightarrow> kstate \<Rightarrow> kstate res" where
  "proc_destroy p k =
     (case lookup k p of
        Inl e \<Rightarrow> Inl e
      | Inr pr \<Rightarrow>
          (case free_all (pg_frames (vmm k))
                  ([VIRT_TO_PHYS (kernel_stack pr + REGS_SIZE - 4096)] @
                   frames_of_space (pg_mem (vmm k)) (proc_pd pr) @ [VIRT_TO_PHYS (proc_pd pr)]) of
             Inl e \<Rightarrow> Inl e
           | Inr fr \<Rightarrow> Inr (k\<lparr>vmm := (vmm k)\<lparr>pg_frames := fr\<rparr>, ptab := (ptab k)(p := None)\<rparr>)))"

end
