(* ===== verification/Sched.thy ===== *)
theory Sched
  imports Proc
begin

text \<open>
  The scheduler, \<open>kernel/proc/src/sched.c\<close>: round robin over the pool of processes, the switch to the
  chosen one, the argument block a starting process finds on its stack, waking and reaping.
\<close>

section \<open>Operations\<close>

definition scheduler_init :: "kstate \<Rightarrow> kstate" where
  "scheduler_init k = k\<lparr>procs := dynarray_new 32, sched_initialized := True\<rparr>"

definition scheduler_add_proc :: "u32 \<Rightarrow> kstate \<Rightarrow> kstate res" where
  "scheduler_add_proc p k =
     (if \<not> sched_initialized k then Inl (KPanic ''SCHEDULER_NOT_INITIALIZED'')
      else if p = 0 then Inr k
      else case dynarray_add (procs k) p of Inl e \<Rightarrow> Inl e | Inr da \<Rightarrow> Inr (k\<lparr>procs := da\<rparr>))"

text \<open>\<open>dynarray_get\<close> gives 0 outside the array.\<close>

definition proc_at :: "kstate \<Rightarrow> u32 \<Rightarrow> u32" where
  "proc_at k i = (case dynarray_get (procs k) i of Some p \<Rightarrow> p | None \<Rightarrow> 0)"

definition waiting_state :: "proc_state \<Rightarrow> bool" where
  "waiting_state s \<longleftrightarrow> s = BLOCKED \<or> s = ZOMBIE"

text \<open>
  \<open>pick_next_ready_proc\<close>: \<open>n\<close> is how many more processes may be tried, \<open>count - tried\<close>. The result is
  the new \<open>procs_head\<close> and the process found, 0 for none.
\<close>

fun pick_loop :: "kstate \<Rightarrow> u32 \<Rightarrow> nat \<Rightarrow> (u32 \<times> u32) res" where
  "pick_loop k head n =
     (let head' = (head + 1) mod da_count (procs k); nxt = proc_at k head'
      in case lookup k nxt of
           Inl e \<Rightarrow> Inl e
         | Inr pr \<Rightarrow>
             (if waiting_state (proc_state pr)
              then (case n of 0 \<Rightarrow> Inr (head', 0) | Suc n' \<Rightarrow> pick_loop k head' n')
              else Inr (head', nxt)))"

declare pick_loop.simps [simp del]

definition pick_next_ready_proc :: "kstate \<Rightarrow> (u32 \<times> kstate) res" where
  "pick_next_ready_proc k =
     (if da_count (procs k) = 0 then Inl (KFault ''division by procs->count'')
      else case pick_loop k (procs_head k) (unat (da_count (procs k)) - 1) of
        Inl e \<Rightarrow> Inl e
      | Inr (head, p) \<Rightarrow> Inr (p, k\<lparr>procs_head := head\<rparr>))"

text \<open>Bytes copied from the kernel to a user address, through the current page directory.\<close>

fun copy_out :: "kstate \<Rightarrow> u32 \<Rightarrow> u32 \<Rightarrow> u32 \<Rightarrow> nat \<Rightarrow> kstate" where
  "copy_out k pd dst src 0 = k"
| "copy_out k pd dst src (Suc n) = copy_out (vwrite k pd dst (vread k pd src)) pd (dst + 1) (src + 1) n"

definition sched_flush_proc_bufs :: "u32 \<Rightarrow> proc \<Rightarrow> kstate \<Rightarrow> proc \<times> kstate" where
  "sched_flush_proc_bufs p pr k =
     (if stdin_kernel_buf pr \<noteq> 0
      then let k1 = copy_out k (proc_pd pr) (stdin_user_buf pr) (stdin_kernel_buf pr) (unat (stdin_kernel_buf_len pr));
               k2 = vwrite k1 (proc_pd pr) (stdin_user_buf pr + stdin_kernel_buf_len pr) 0;
               pr1 = pr\<lparr>stdin_kernel_buf_len := 0, stdin_kernel_buf := 0\<rparr>
           in (pr1, update k2 p pr1)
      else (pr, k))"

text \<open>
  The argument block. Strings are copied downwards from the stack top with their NUL, then the
  environment pointers with a 0 behind them, then the argument pointers with a 0 behind them.
\<close>

fun push_strings :: "u8 list list \<Rightarrow> u32 \<Rightarrow> bytes_mem \<Rightarrow> u32 list \<times> u32 \<times> bytes_mem" where
  "push_strings [] addr m = ([], addr, m)"
| "push_strings (s # ss) addr m =
     (let addr1 = addr - (of_nat (length s) + 1);
          m1 = store_bytes m addr1 (s @ [0]);
          (ptrs, addr2, m2) = push_strings ss addr1 m1
      in (addr1 # ptrs, addr2, m2))"

text \<open>The loops that count down push the last pointer first; a 0 is pushed before them.\<close>

fun push_words :: "u32 list \<Rightarrow> u32 \<Rightarrow> bytes_mem \<Rightarrow> u32 \<times> bytes_mem" where
  "push_words [] addr m = (addr, m)"
| "push_words (w # ws) addr m = (let (addr1, m1) = push_words ws addr m in (addr1 - 4, st32 m1 (addr1 - 4) w))"

definition push_ptrs :: "u32 list \<Rightarrow> u32 \<Rightarrow> bytes_mem \<Rightarrow> u32 \<times> bytes_mem" where
  "push_ptrs ps addr m = push_words ps (addr - 4) (st32 m (addr - 4) 0)"

definition start_stack :: "u8 list list \<Rightarrow> u8 list list \<Rightarrow> bytes_mem \<Rightarrow> u32 \<times> bytes_mem" where
  "start_stack args envs m =
     (let (argv_ptrs, a1, m1) = push_strings args PROC_USER_STACK_TOP_VADDR m;
          (env_ptrs, a2, m2) = push_strings envs a1 m1;
          (a3, m3) = push_ptrs env_ptrs a2 m2
      in push_ptrs argv_ptrs a3 m3)"

text \<open>The last half of \<open>__scheduler_core\<close>: \<open>p_kstack->user_esp\<close> is the word at offset 44.\<close>

definition start_proc :: "u32 \<Rightarrow> proc \<Rightarrow> kstate \<Rightarrow> kstate" where
  "start_proc p pr k =
     (if proc_state pr = STARTING
      then let (esp, m) = start_stack (argv pr) (env pr) (ubytes k (proc_pd pr))
           in update (k\<lparr>ubytes := (ubytes k)(proc_pd pr := m),
                        kbytes := st32 (kbytes k) (kernel_stack pr + 44) esp\<rparr>) p (pr\<lparr>proc_state := READY\<rparr>)
      else k)"

definition switch_to_idle :: "kstate \<Rightarrow> (u32 \<times> kstate) res" where
  "switch_to_idle k =
     (case lookup k (idle_proc k) of
        Inl e \<Rightarrow> Inl e
      | Inr idle \<Rightarrow>
          (case paging_switch (vmm k) (proc_pd idle) of
             Inl e \<Rightarrow> Inl e
           | Inr pg \<Rightarrow> Inr (kernel_stack idle, k\<lparr>current_proc := 0, vmm := pg\<rparr>)))"

text \<open>The state saved for the process that is left; a zombie's is dropped.\<close>

definition save_current :: "u32 \<Rightarrow> kstate \<Rightarrow> kstate res" where
  "save_current regs k =
     (if current_proc k = 0 then Inr k
      else case lookup k (current_proc k) of
        Inl e \<Rightarrow> Inl e
      | Inr cur \<Rightarrow>
          (if proc_state cur = ZOMBIE
           then Inr (k\<lparr>current_proc := 0, procs_head := procs_head k mod da_count (procs k)\<rparr>)
           else Inr (update k (current_proc k) (cur\<lparr>kernel_stack := regs\<rparr>))))"

definition switch_to :: "u32 \<Rightarrow> kstate \<Rightarrow> (proc \<times> kstate) res" where
  "switch_to p k =
     (case lookup k p of
        Inl e \<Rightarrow> Inl e
      | Inr pr \<Rightarrow>
          (case paging_switch (vmm k) (proc_pd pr) of
             Inl e \<Rightarrow> Inl e
           | Inr pg \<Rightarrow> Inr (pr, k\<lparr>current_proc := p, tss_esp0 := kernel_stack pr + REGS_SIZE, vmm := pg\<rparr>)))"

definition scheduler_core :: "u32 \<Rightarrow> kstate \<Rightarrow> (u32 \<times> kstate) res" where
  "scheduler_core regs k =
     (if \<not> sched_initialized k then Inl (KPanic ''SCHEDULER_NOT_INITIALIZED'')
      else if da_count (procs k) = 0 then Inr (regs, k)
      else case save_current regs k of
        Inl e \<Rightarrow> Inl e
      | Inr k1 \<Rightarrow>
         (case pick_next_ready_proc k1 of
            Inl e \<Rightarrow> Inl e
          | Inr (nxt, k2) \<Rightarrow>
             (if nxt = 0 then switch_to_idle k2
              else case switch_to nxt k2 of
                Inl e \<Rightarrow> Inl e
              | Inr (pr, k3) \<Rightarrow>
                 (let (pr1, k4) = sched_flush_proc_bufs nxt pr k3
                  in Inr (kernel_stack pr1, start_proc nxt pr1 k4)))))"

text \<open>\<open>scheduler\<close> sends the end of the timer interrupt to the PIC as well, which is not state here.\<close>

definition scheduler :: "u32 \<Rightarrow> kstate \<Rightarrow> (u32 \<times> kstate) res" where "scheduler = scheduler_core"
definition scheduler_yield :: "u32 \<Rightarrow> kstate \<Rightarrow> (u32 \<times> kstate) res" where "scheduler_yield = scheduler_core"

text \<open>The result is 0 when no process of the pool has the number.\<close>

fun find_pid :: "kstate \<Rightarrow> u32 \<Rightarrow> u32 list \<Rightarrow> u32 res" where
  "find_pid k pid [] = Inr 0"
| "find_pid k pid (p # ps) =
     (if p = 0 then find_pid k pid ps
      else case lookup k p of
        Inl e \<Rightarrow> Inl e
      | Inr pr \<Rightarrow> if proc_id pr = pid then Inr p else find_pid k pid ps)"

definition scheduler_get_proc :: "kstate \<Rightarrow> u32 \<Rightarrow> u32 res" where
  "scheduler_get_proc k pid = find_pid k pid (map (\<lambda>i. proc_at k (of_nat i)) [0..<unat (da_count (procs k))])"

definition scheduler_notify_parent :: "u32 \<Rightarrow> kstate \<Rightarrow> kstate res" where
  "scheduler_notify_parent child k =
     (case lookup k child of
        Inl e \<Rightarrow> Inl e
      | Inr ch \<Rightarrow>
          (if parent_pid ch = 0 then Inr k
           else and_then (scheduler_get_proc k (parent_pid ch)) (\<lambda>parent.
                  (if parent = 0 then Inr k
                   else and_then (lookup k parent) (\<lambda>pa.
                     (if proc_state pa = BLOCKED \<and> waiting_for pa = proc_id ch
                      then Inr (update k parent (pa\<lparr>proc_state := READY, waiting_for := 0\<rparr>))
                      else Inr k))))))"

definition scheduler_on_segfault :: "u32 \<Rightarrow> kstate \<Rightarrow> (u32 \<times> kstate) res" where
  "scheduler_on_segfault regs k =
     (if da_count (procs k) = 0 then Inr (regs, k)
      else case scheduler_notify_parent (current_proc k) k of
        Inl e \<Rightarrow> Inl e
      | Inr k1 \<Rightarrow>
         (case pick_next_ready_proc (k1\<lparr>current_proc := 0, procs_head := procs_head k1 mod da_count (procs k1)\<rparr>) of
            Inl e \<Rightarrow> Inl e
          | Inr (nxt, k2) \<Rightarrow>
             (if nxt = 0 then switch_to_idle k2
              else case switch_to nxt k2 of Inl e \<Rightarrow> Inl e | Inr (pr, k3) \<Rightarrow> Inr (kernel_stack pr, k3))))"

text \<open>The length parameter is a \<open>uint8_t\<close>; the user's buffer and its size are not used.\<close>

definition scheduler_wake_stdin :: "u32 \<Rightarrow> u32 \<Rightarrow> u32 \<Rightarrow> u32 \<Rightarrow> u8 \<Rightarrow> kstate \<Rightarrow> kstate res" where
  "scheduler_wake_stdin p proc_buf proc_buf_size buf len k =
     (case lookup k p of
        Inl e \<Rightarrow> Inl e
      | Inr pr \<Rightarrow> Inr (update k p (pr\<lparr>stdin_kernel_buf := buf, stdin_kernel_buf_len := ucast len,
                                      proc_state := READY\<rparr>)))"

fun find_slot :: "kstate \<Rightarrow> u32 \<Rightarrow> u32 \<Rightarrow> nat \<Rightarrow> u32 option" where
  "find_slot k child i 0 = None"
| "find_slot k child i (Suc n) = (if proc_at k i = child then Some i else find_slot k child (i + 1) n)"

definition scheduler_reap_child :: "u32 \<Rightarrow> kstate \<Rightarrow> (u32 \<times> kstate) res" where
  "scheduler_reap_child child_pid k =
     and_then (scheduler_get_proc k child_pid) (\<lambda>child.
       (if child = 0 then Inr (- 1, k)
        else and_then (lookup k child) (\<lambda>ch.
          (if proc_state ch \<noteq> ZOMBIE then Inr (- 1, k)
           else let k1 = (case find_slot k child 0 (unat (da_count (procs k))) of
                            Some i \<Rightarrow> k\<lparr>procs := dynarray_remove (procs k) i\<rparr> | None \<Rightarrow> k)
                in and_then (proc_destroy child k1) (\<lambda>k2. Inr (exit_code ch, k2))))))"

section \<open>Round robin\<close>

definition pool_ok :: "kstate \<Rightarrow> bool" where
  "pool_ok k \<longleftrightarrow> da_fit (procs k) \<and> (\<forall>p\<in>set (da_list (procs k)). p \<noteq> 0 \<and> ptab k p \<noteq> None)"

definition runnable :: "kstate \<Rightarrow> u32 \<Rightarrow> bool" where
  "runnable k p \<longleftrightarrow> (case ptab k p of Some pr \<Rightarrow> \<not> waiting_state (proc_state pr) | None \<Rightarrow> False)"

text \<open>The process \<open>d\<close> places behind the head.\<close>

definition nth_from :: "kstate \<Rightarrow> u32 \<Rightarrow> nat \<Rightarrow> u32" where
  "nth_from k head d = da_list (procs k) ! ((unat head + d) mod length (da_list (procs k)))"

lemma pool_count: "pool_ok k \<Longrightarrow> unat (da_count (procs k)) = length (da_list (procs k))"
  by (simp add: pool_ok_def da.count_elems)

lemma pool_lookup:
  assumes "pool_ok k" "p \<in> set (da_list (procs k))"
  shows "\<exists>pr. lookup k p = Inr pr \<and> (waiting_state (proc_state pr) \<longleftrightarrow> \<not> runnable k p)"
  using assms by (auto simp: pool_ok_def lookup_def runnable_def)

lemma step_head:
  assumes ok: "pool_ok k" and pos: "da_list (procs k) \<noteq> []" and h: "unat head < 4294967295"
  shows "unat ((head + 1) mod da_count (procs k)) = (unat head + 1) mod length (da_list (procs k))"
    and "proc_at k ((head + 1) mod da_count (procs k)) = nth_from k head 1"
proof -
  have "unat (head + 1) = unat head + 1" using h unat_add_small [of head 1] by simp
  then show u: "unat ((head + 1) mod da_count (procs k)) = (unat head + 1) mod length (da_list (procs k))"
    by (simp add: unat_mod pool_count [OF ok])
  have "(unat head + 1) mod length (da_list (procs k)) < length (da_list (procs k))" using pos by simp
  then show "proc_at k ((head + 1) mod da_count (procs k)) = nth_from k head 1"
    using ok u by (simp add: proc_at_def da.get_elems pool_ok_def nth_from_def)
qed

lemma nth_from_mem: "da_list (procs k) \<noteq> [] \<Longrightarrow> nth_from k head d \<in> set (da_list (procs k))"
  by (simp add: nth_from_def)

lemma pick_loop_result:
  assumes ok: "pool_ok k" and pos: "da_list (procs k) \<noteq> []" and h: "unat head < 4294967295"
  shows "\<exists>head' p. pick_loop k head n = Inr (head', p) \<and> unat head' < length (da_list (procs k)) \<and>
    ((p = 0 \<and> (\<forall>d. 1 \<le> d \<and> d \<le> n + 1 \<longrightarrow> \<not> runnable k (nth_from k head d))) \<or>
     (\<exists>d. 1 \<le> d \<and> d \<le> n + 1 \<and> p = nth_from k head d \<and> p \<noteq> 0 \<and> runnable k p \<and>
        unat head' = (unat head + d) mod length (da_list (procs k)) \<and>
        (\<forall>e. 1 \<le> e \<and> e < d \<longrightarrow> \<not> runnable k (nth_from k head e))))"
  using h
proof (induction n arbitrary: head)
  case (0 head)
  note st = step_head [OF ok pos 0]
  have m: "nth_from k head 1 \<in> set (da_list (procs k))" using pos by (rule nth_from_mem)
  obtain pr where pr: "lookup k (nth_from k head 1) = Inr pr"
    "waiting_state (proc_state pr) \<longleftrightarrow> \<not> runnable k (nth_from k head 1)"
    using pool_lookup [OF ok m] by blast
  have nz: "nth_from k head 1 \<noteq> 0" using ok m by (auto simp: pool_ok_def)
  have one: "1 \<le> d \<and> d \<le> 1 \<longleftrightarrow> d = 1" for d :: nat by arith
  show ?case
    using pr st nz pos by (subst pick_loop.simps) (auto simp: Let_def one simp del: One_nat_def)
next
  case (Suc n head)
  note st = step_head [OF ok pos Suc.prems]
  let ?head1 = "(head + 1) mod da_count (procs k)"
  let ?L = "length (da_list (procs k))"
  have m: "nth_from k head 1 \<in> set (da_list (procs k))" using pos by (rule nth_from_mem)
  obtain pr where pr: "lookup k (nth_from k head 1) = Inr pr"
    "waiting_state (proc_state pr) \<longleftrightarrow> \<not> runnable k (nth_from k head 1)"
    using pool_lookup [OF ok m] by blast
  have nz: "nth_from k head 1 \<noteq> 0" using ok m by (auto simp: pool_ok_def)
  show ?case
  proof (cases "runnable k (nth_from k head 1)")
    case True
    then have "pick_loop k head (Suc n) = Inr (?head1, nth_from k head 1)"
      using pr st by (subst pick_loop.simps) (simp add: Let_def)
    then show ?thesis
      using True nz st(1) pos by (intro exI [of _ ?head1] exI [of _ "nth_from k head 1"]) (auto intro!: exI [of _ 1])
  next
    case False
    then have eq: "pick_loop k head (Suc n) = pick_loop k ?head1 n"
      using pr st by (subst pick_loop.simps) (simp add: Let_def)
    have L: "?L < 4294967296" using pool_count [OF ok] unat_bound32 [of "da_count (procs k)"] by simp
    have "unat ?head1 < ?L" using st(1) pos by simp
    then have h1: "unat ?head1 < 4294967295" using L by linarith
    have sh: "nth_from k ?head1 d = nth_from k head (Suc d)" for d
      by (simp add: nth_from_def st(1) mod_simps)
    have shm: "(unat ?head1 + d) mod ?L = (unat head + Suc d) mod ?L" for d
      by (simp add: st(1) mod_simps)
    obtain head' p where r: "pick_loop k ?head1 n = Inr (head', p)" "unat head' < ?L"
      "(p = 0 \<and> (\<forall>d. 1 \<le> d \<and> d \<le> n + 1 \<longrightarrow> \<not> runnable k (nth_from k ?head1 d))) \<or>
       (\<exists>d. 1 \<le> d \<and> d \<le> n + 1 \<and> p = nth_from k ?head1 d \<and> p \<noteq> 0 \<and> runnable k p \<and>
        unat head' = (unat ?head1 + d) mod ?L \<and>
        (\<forall>e. 1 \<le> e \<and> e < d \<longrightarrow> \<not> runnable k (nth_from k ?head1 e)))"
      using Suc.IH [OF h1] by blast
    have less: "1 \<le> d \<Longrightarrow> d = 1 \<or> (\<exists>e. d = Suc e \<and> 1 \<le> e)" for d :: nat by (cases d) auto
    from r(3) show ?thesis
    proof
      assume a: "p = 0 \<and> (\<forall>d. 1 \<le> d \<and> d \<le> n + 1 \<longrightarrow> \<not> runnable k (nth_from k ?head1 d))"
      have "\<not> runnable k (nth_from k head d)" if "1 \<le> d \<and> d \<le> Suc n + 1" for d
        using less [of d] that a False by (auto simp: sh)
      then show ?thesis using a r(1,2) unfolding eq by blast
    next
      assume "\<exists>d. 1 \<le> d \<and> d \<le> n + 1 \<and> p = nth_from k ?head1 d \<and> p \<noteq> 0 \<and> runnable k p \<and>
        unat head' = (unat ?head1 + d) mod ?L \<and>
        (\<forall>e. 1 \<le> e \<and> e < d \<longrightarrow> \<not> runnable k (nth_from k ?head1 e))"
      then obtain d where d: "1 \<le> d" "d \<le> n + 1" "p = nth_from k ?head1 d" "p \<noteq> 0" "runnable k p"
        "unat head' = (unat ?head1 + d) mod ?L"
        "\<forall>e. 1 \<le> e \<and> e < d \<longrightarrow> \<not> runnable k (nth_from k ?head1 e)" by blast
      have "\<not> runnable k (nth_from k head e)" if "1 \<le> e \<and> e < Suc d" for e
        using less [of e] that d(7) False by (auto simp: sh)
      then have "1 \<le> Suc d \<and> Suc d \<le> Suc n + 1 \<and> p = nth_from k head (Suc d) \<and> p \<noteq> 0 \<and> runnable k p \<and>
        unat head' = (unat head + Suc d) mod ?L \<and>
        (\<forall>e. 1 \<le> e \<and> e < Suc d \<longrightarrow> \<not> runnable k (nth_from k head e))"
        using d(2-6) unfolding sh shm by auto
      then show ?thesis using r(1,2) unfolding eq by blast
    qed
  qed
qed

lemma nth_from_reaches:
  assumes "j < length (da_list (procs k))" "unat head < length (da_list (procs k))"
  shows "\<exists>d. 1 \<le> d \<and> d \<le> length (da_list (procs k)) \<and> (unat head + d) mod length (da_list (procs k)) = j"
proof (cases "unat head < j")
  case True
  then show ?thesis using assms by (intro exI [of _ "j - unat head"]) auto
next
  case False
  then have "unat head + (length (da_list (procs k)) - unat head + j) = length (da_list (procs k)) + j"
    using assms by linarith
  then show ?thesis using assms False
    by (intro exI [of _ "length (da_list (procs k)) - unat head + j"]) auto
qed

section \<open>Properties of the choice\<close>

lemma pick_next_result:
  assumes "pool_ok k" and "da_list (procs k) \<noteq> []" and "unat (procs_head k) < length (da_list (procs k))"
  shows "\<exists>p head'. pick_next_ready_proc k = Inr (p, k\<lparr>procs_head := head'\<rparr>) \<and>
    unat head' < length (da_list (procs k)) \<and>
    (if \<forall>q\<in>set (da_list (procs k)). \<not> runnable k q then p = 0
     else \<exists>d. 1 \<le> d \<and> d \<le> length (da_list (procs k)) \<and> p = nth_from k (procs_head k) d \<and> p \<noteq> 0 \<and> runnable k p \<and>
        unat head' = (unat (procs_head k) + d) mod length (da_list (procs k)) \<and>
        (\<forall>e. 1 \<le> e \<and> e < d \<longrightarrow> \<not> runnable k (nth_from k (procs_head k) e)))"
proof -
  let ?L = "length (da_list (procs k))"
  have c: "da_count (procs k) \<noteq> 0" "unat (da_count (procs k)) - 1 + 1 = ?L"
    using assms(2) pool_count [OF assms(1)] by (auto simp: unat_eq_zero [symmetric] simp del: unat_eq_zero)
  have L: "?L < 4294967296" using pool_count [OF assms(1)] unat_bound32 [of "da_count (procs k)"] by simp
  have h: "unat (procs_head k) < 4294967295" using assms(3) L by linarith
  obtain head' p where r: "pick_loop k (procs_head k) (unat (da_count (procs k)) - 1) = Inr (head', p)" "unat head' < ?L"
    "(p = 0 \<and> (\<forall>d. 1 \<le> d \<and> d \<le> ?L \<longrightarrow> \<not> runnable k (nth_from k (procs_head k) d))) \<or>
     (\<exists>d. 1 \<le> d \<and> d \<le> ?L \<and> p = nth_from k (procs_head k) d \<and> p \<noteq> 0 \<and> runnable k p \<and>
        unat head' = (unat (procs_head k) + d) mod ?L \<and>
        (\<forall>e. 1 \<le> e \<and> e < d \<longrightarrow> \<not> runnable k (nth_from k (procs_head k) e)))"
    using pick_loop_result [OF assms(1,2) h, of "unat (da_count (procs k)) - 1"] unfolding c(2) by blast
  have all: "(\<forall>q\<in>set (da_list (procs k)). \<not> runnable k q) \<longleftrightarrow>
    (\<forall>d. 1 \<le> d \<and> d \<le> ?L \<longrightarrow> \<not> runnable k (nth_from k (procs_head k) d))"
  proof
    assume n: "\<forall>d. 1 \<le> d \<and> d \<le> ?L \<longrightarrow> \<not> runnable k (nth_from k (procs_head k) d)"
    show "\<forall>q\<in>set (da_list (procs k)). \<not> runnable k q"
    proof
      fix q assume "q \<in> set (da_list (procs k))"
      then obtain j where j: "j < ?L" "q = da_list (procs k) ! j" by (auto simp: in_set_conv_nth)
      then show "\<not> runnable k q" using nth_from_reaches [OF j(1) assms(3)] n by (auto simp: nth_from_def)
    qed
  qed (use nth_from_mem [OF assms(2)] in blast)
  have "pick_next_ready_proc k = Inr (p, k\<lparr>procs_head := head'\<rparr>)"
    using r(1) c(1) by (simp add: pick_next_ready_proc_def)
  then show ?thesis using r(2,3) unfolding all by (intro exI [of _ p] exI [of _ head']) auto
qed

text \<open>
  The scheduler picks the first process behind the head, in cyclic order, that is neither blocked
  nor a zombie, makes it the head, and finds none exactly when every process waits.
\<close>

theorem pick_next_ready_first:
  assumes "pool_ok k" and "da_list (procs k) \<noteq> []" and "unat (procs_head k) < length (da_list (procs k))"
  shows "\<exists>p head'. pick_next_ready_proc k = Inr (p, k\<lparr>procs_head := head'\<rparr>) \<and>
    unat head' < length (da_list (procs k)) \<and>
    (if \<forall>q\<in>set (da_list (procs k)). \<not> runnable k q then p = 0
     else \<exists>d. 1 \<le> d \<and> d \<le> length (da_list (procs k)) \<and> p = nth_from k (procs_head k) d \<and> p \<noteq> 0 \<and> runnable k p \<and>
        unat head' = (unat (procs_head k) + d) mod length (da_list (procs k)) \<and>
        (\<forall>e. 1 \<le> e \<and> e < d \<longrightarrow> \<not> runnable k (nth_from k (procs_head k) e)))"
  using assms by (rule pick_next_result)

text \<open>
  C11. No starvation: while no process enters or leaves the pool, a process that stays runnable is picked within as
  many picks as there are processes, whatever happens to the states of the others in between.
\<close>

theorem pick_fair:
  assumes "\<forall>i. pool_ok (ks i) \<and> da_list (procs (ks i)) = da_list (procs (ks 0))"
    and "\<forall>i. pick_next_ready_proc (ks i) = Inr (ps i, ks' i) \<and> procs_head (ks (Suc i)) = procs_head (ks' i)"
    and "unat (procs_head (ks 0)) < length (da_list (procs (ks 0)))"
    and "q \<in> set (da_list (procs (ks 0)))" and "\<forall>i. runnable (ks i) q"
  shows "\<exists>i<length (da_list (procs (ks 0))). ps i = q"
proof -
  let ?xs = "da_list (procs (ks 0))"
  obtain j where j: "j < length ?xs" "q = ?xs ! j" using assms(4) by (auto simp: in_set_conv_nth)
  have step: "\<exists>m<d. ps (i + m) = q"
    if "unat (procs_head (ks i)) < length ?xs" "1 \<le> d" "(unat (procs_head (ks i)) + d) mod length ?xs = j" for i d
    using that
  proof (induction d arbitrary: i rule: less_induct)
    case (less d)
    have ok: "pool_ok (ks i)" and xs: "da_list (procs (ks i)) = ?xs" using assms(1) by blast+
    have ne: "da_list (procs (ks i)) \<noteq> []" using j xs by auto
    have h: "unat (procs_head (ks i)) < length (da_list (procs (ks i)))" using less.prems(1) xs by simp
    have qd: "q = nth_from (ks i) (procs_head (ks i)) d" using less.prems(3) j xs by (simp add: nth_from_def)
    obtain p head' where pick: "pick_next_ready_proc (ks i) = Inr (p, (ks i)\<lparr>procs_head := head'\<rparr>)"
      "unat head' < length (da_list (procs (ks i)))"
      "if \<forall>q\<in>set (da_list (procs (ks i))). \<not> runnable (ks i) q then p = 0
       else \<exists>d. 1 \<le> d \<and> d \<le> length (da_list (procs (ks i))) \<and> p = nth_from (ks i) (procs_head (ks i)) d \<and> p \<noteq> 0 \<and>
          runnable (ks i) p \<and> unat head' = (unat (procs_head (ks i)) + d) mod length (da_list (procs (ks i))) \<and>
          (\<forall>e. 1 \<le> e \<and> e < d \<longrightarrow> \<not> runnable (ks i) (nth_from (ks i) (procs_head (ks i)) e))"
      using pick_next_result [OF ok ne h] by blast
    have some: "\<not> (\<forall>q\<in>set ?xs. \<not> runnable (ks i) q)" using assms(4,5) by blast
    obtain d' where d': "1 \<le> d'" "p = nth_from (ks i) (procs_head (ks i)) d'"
      "unat head' = (unat (procs_head (ks i)) + d') mod length ?xs"
      "\<forall>e. 1 \<le> e \<and> e < d' \<longrightarrow> \<not> runnable (ks i) (nth_from (ks i) (procs_head (ks i)) e)"
      using pick(3) [unfolded xs if_not_P [OF some]] by blast
    have psi: "ps i = p" and "ks' i = (ks i)\<lparr>procs_head := head'\<rparr>"
      using assms(2) [rule_format, of i] pick(1) by auto
    then have hd: "procs_head (ks (Suc i)) = head'" using assms(2) [rule_format, of i] by simp
    have "d' \<le> d" using d'(4) less.prems(2) qd assms(5) by (metis not_le_imp_less)
    show ?case
    proof (cases "d' = d")
      case True
      then have "ps (i + 0) = q" using qd d'(2) psi by simp
      then show ?thesis using less.prems(2) by (intro exI [of _ 0]) simp
    next
      case False
      then have lt: "d' < d" using \<open>d' \<le> d\<close> by simp
      have "(unat (procs_head (ks (Suc i))) + (d - d')) mod length ?xs =
          (unat (procs_head (ks i)) + d' + (d - d')) mod length ?xs"
        unfolding hd d'(3) by (simp only: mod_add_left_eq)
      then have eq: "(unat (procs_head (ks (Suc i))) + (d - d')) mod length ?xs = j" using less.prems(3) lt by simp
      have "unat (procs_head (ks (Suc i))) < length ?xs" using pick(2) xs by (simp add: hd)
      moreover have "d - d' < d" "1 \<le> d - d'" using lt d'(1) by simp_all
      ultimately obtain m where "m < d - d'" "ps (Suc i + m) = q"
        using less.IH [of "d - d'" "Suc i"] eq by blast
      then show ?thesis using lt d'(1) by (intro exI [of _ "Suc m"]) auto
    qed
  qed
  obtain d where d: "1 \<le> d" "d \<le> length ?xs" "(unat (procs_head (ks 0)) + d) mod length ?xs = j"
    using nth_from_reaches [OF j(1) assms(3)] by blast
  obtain m where "m < d" "ps (0 + m) = q" using step [OF assms(3) d(1,3)] by blast
  then show ?thesis using d(2) by (intro exI [of _ m]) auto
qed

definition demo_sched :: kstate where
  "demo_sched = \<lparr>vmm = demo_paging, kbytes = (\<lambda>a. 0), ubytes = (\<lambda>pd a. 0),
     ptab = [0x100 \<mapsto> zero_proc\<lparr>proc_id := 1, proc_state := BLOCKED\<rparr>,
             0x200 \<mapsto> zero_proc\<lparr>proc_id := 2, proc_state := READY\<rparr>],
     procs = \<lparr>da_data = [Some 0x100, Some 0x200], da_count = 2, da_capacity = 2\<rparr>, procs_head = 1,
     current_proc = 0, sched_initialized = True, pid_counter = 3, idle_proc = 0, tss_esp0 = 0,
     stdin_buf = 0, stdin_buf_len = 0, waiting_stdin = 0,
     waiting_buf = 0, waiting_buf_size = 0\<rparr>"

lemma demo_sched_pool: "pool_ok demo_sched" "da_list (procs demo_sched) = [0x100, 0x200]"
proof -
  show l: "da_list (procs demo_sched) = [0x100, 0x200]" by (simp add: da_list_def demo_sched_def)
  have "da_fit (procs demo_sched)"
    by (simp add: da_fit_def da_ok_def demo_sched_def) (auto simp: less_Suc_eq numeral_2_eq_2)
  then show "pool_ok demo_sched" using l by (simp add: pool_ok_def) (simp add: demo_sched_def)
qed

lemma demo_sched_runnable: "runnable demo_sched 0x200" "\<not> runnable demo_sched 0x100"
  by (simp_all add: runnable_def demo_sched_def waiting_state_def zero_proc_def)

lemma demo_sched_pick: "pick_next_ready_proc demo_sched = Inr (0x200, demo_sched\<lparr>procs_head := 1\<rparr>)"
proof -
  have "pick_loop demo_sched (procs_head demo_sched) (unat (da_count (procs demo_sched)) - 1) = Inr (1, 0x200)"
    by code_simp
  then show ?thesis by (simp add: pick_next_ready_proc_def) (simp add: demo_sched_def)
qed

theorem pick_next_ready_first_witness:
  "\<exists>p head'. pick_next_ready_proc demo_sched = Inr (p, demo_sched\<lparr>procs_head := head'\<rparr>) \<and> p \<noteq> 0 \<and>
     runnable demo_sched p"
proof -
  have "unat (procs_head demo_sched) < length (da_list (procs demo_sched))" "da_list (procs demo_sched) \<noteq> []"
    unfolding demo_sched_pool(2) by (simp_all add: demo_sched_def)
  from pick_next_ready_first [OF demo_sched_pool(1) this(2,1)] show ?thesis
    using demo_sched_runnable unfolding demo_sched_pool(2) by (auto split: if_splits)
qed

text \<open>Two processes that are ready, and the head going round.\<close>

definition demo_turn :: "nat \<Rightarrow> kstate" where
  "demo_turn i = demo_sched\<lparr>ptab := [0x100 \<mapsto> zero_proc\<lparr>proc_id := 1, proc_state := READY\<rparr>,
     0x200 \<mapsto> zero_proc\<lparr>proc_id := 2, proc_state := READY\<rparr>], procs_head := of_nat (i mod 2)\<rparr>"

definition demo_next :: "nat \<Rightarrow> u32" where "demo_next i = (if i mod 2 = 0 then 0x200 else 0x100)"

lemma demo_turn_parity: "i mod 2 = j mod 2 \<Longrightarrow> demo_turn i = demo_turn j \<and> demo_next i = demo_next j"
  by (simp add: demo_turn_def demo_next_def)

lemma demo_turn_pick: "pick_next_ready_proc (demo_turn i) = Inr (demo_next i, demo_turn (Suc i))"
proof -
  have e: "pick_loop (demo_turn j) (procs_head (demo_turn j)) (unat (da_count (procs (demo_turn j))) - 1) =
      Inr (of_nat (Suc j mod 2), demo_next j)" if "j = 0 \<or> j = 1" for j
    using that by (elim disjE; simp only:; code_simp)
  have "pick_next_ready_proc (demo_turn j) = Inr (demo_next j, demo_turn (Suc j))" if "j = 0 \<or> j = 1" for j
    using e [OF that] by (simp add: pick_next_ready_proc_def) (simp add: demo_turn_def demo_sched_def)
  then have t: "pick_next_ready_proc (demo_turn (i mod 2)) = Inr (demo_next (i mod 2), demo_turn (Suc (i mod 2)))"
    by (cases "i mod 2 = 0") simp_all
  have "demo_turn i = demo_turn (i mod 2) \<and> demo_next i = demo_next (i mod 2)" by (rule demo_turn_parity) simp
  moreover have "demo_turn (Suc i) = demo_turn (Suc (i mod 2))" by (rule demo_turn_parity [THEN conjunct1]) (rule mod_Suc_eq [symmetric])
  ultimately show ?thesis using t by simp
qed

theorem pick_fair_witness:
  "(\<forall>i. pick_next_ready_proc (demo_turn i) = Inr (demo_next i, demo_turn (Suc i))) \<and> (\<exists>i<2. demo_next i = 0x100)"
proof -
  have l: "procs (demo_turn i) = procs demo_sched" for i by (simp add: demo_turn_def)
  have pool: "pool_ok (demo_turn i)" for i
    using demo_sched_pool unfolding pool_ok_def l by (simp add: demo_turn_def)
  have head: "procs_head (demo_turn 0) = 0" by (simp add: demo_turn_def)
  have "\<exists>i<length (da_list (procs (demo_turn 0))). demo_next i = 0x100"
  proof (rule pick_fair [where ks = demo_turn and ks' = "\<lambda>i. demo_turn (Suc i)"])
    show "\<forall>i. runnable (demo_turn i) 0x100" by (simp add: runnable_def demo_turn_def waiting_state_def zero_proc_def)
  qed (simp_all add: pool l demo_sched_pool(2) demo_turn_pick head)
  then show ?thesis using demo_turn_pick by (simp add: l demo_sched_pool(2) numeral_2_eq_2)
qed

end
