(* ===== verification/StartStack.thy ===== *)
theory StartStack
  imports Sched
begin

text \<open>
  The argument block that \<open>__scheduler_core\<close> builds for a starting process, against what the process
  reads: the walk over \<open>argv\<close> that \<open>user_fs/src/_start.c\<close> makes before it calls \<open>main\<close>.
\<close>

section \<open>The reader: _start\<close>

text \<open>
  The loop counts pointers from \<open>esp\<close> until a 0; \<open>environ\<close> is the address behind that 0. The result is
  \<open>argc\<close>, \<open>argv\<close> and \<open>environ\<close>.
\<close>

partial_function (option) start_count :: "bytes_mem \<Rightarrow> u32 \<Rightarrow> u32 \<Rightarrow> u32 option" where
  "start_count m eax ecx = (if ld32 m (eax + 4 * ecx) = 0 then Some ecx else start_count m eax (ecx + 1))"

definition start_args :: "bytes_mem \<Rightarrow> u32 \<Rightarrow> (u32 \<times> u32 \<times> u32) option" where
  "start_args m esp = map_option (\<lambda>argc. (argc, esp, esp + push_bit 2 (argc + 1))) (start_count m esp 0)"

section \<open>Writes and what they leave alone\<close>

text \<open>\<open>agree lo hi m m'\<close>: the memories differ at addresses from \<open>lo\<close> up to \<open>hi\<close> at most.\<close>

definition agree :: "nat \<Rightarrow> nat \<Rightarrow> bytes_mem \<Rightarrow> bytes_mem \<Rightarrow> bool" where
  "agree lo hi m m' \<longleftrightarrow> (\<forall>a. unat a < lo \<or> hi \<le> unat a \<longrightarrow> m' a = m a)"

lemma agree_refl [simp]: "agree lo hi m m"
  by (simp add: agree_def)

lemma agree_trans: "agree lo mid m1 m2 \<Longrightarrow> agree mid' hi m m1 \<Longrightarrow> lo \<le> mid' \<Longrightarrow> mid \<le> hi \<Longrightarrow> agree lo hi m m2"
  by (simp add: agree_def)

lemma store_bytes_result:
  assumes "unat a + length bs \<le> 4294967296"
  shows "agree (unat a) (unat a + length bs) m (store_bytes m a bs) \<and>
    (\<forall>i<length bs. store_bytes m a bs (a + of_nat i) = bs ! i)"
  using assms
proof (induction bs arbitrary: m a)
  case (Cons b bs)
  show ?case
  proof (cases "bs = []")
    case True
    then show ?thesis by (auto simp: agree_def)
  next
    case False
    then have "unat a + 1 < 4294967296" using Cons.prems by (cases bs) auto
    then have a1: "unat (a + 1) = unat a + 1" using unat_add_small [of a 1] by simp
    have ih: "agree (unat a + 1) (unat a + 1 + length bs) (m(a := b)) (store_bytes (m(a := b)) (a + 1) bs)"
      "\<And>i. i < length bs \<Longrightarrow> store_bytes (m(a := b)) (a + 1) bs (a + 1 + of_nat i) = bs ! i"
    proof -
      have "unat (a + 1) + length bs \<le> 4294967296" using Cons.prems a1 by simp
      from Cons.IH [OF this, of "m(a := b)"] show
        "agree (unat a + 1) (unat a + 1 + length bs) (m(a := b)) (store_bytes (m(a := b)) (a + 1) bs)"
        "\<And>i. i < length bs \<Longrightarrow> store_bytes (m(a := b)) (a + 1) bs (a + 1 + of_nat i) = bs ! i"
        unfolding a1 by blast+
    qed
    have "store_bytes m a (b # bs) (a + of_nat i) = (b # bs) ! i" if "i < length (b # bs)" for i
      using ih that by (cases i) (auto simp: agree_def add.assoc)
    moreover have "agree (unat a) (unat a + length (b # bs)) m (store_bytes m a (b # bs))"
      using ih(1) by (auto simp: agree_def)
    ultimately show ?thesis by blast
  qed
qed simp

lemma st32_result:
  assumes "unat a + 4 \<le> 4294967296"
  shows "agree (unat a) (unat a + 4) m (st32 m a v)" "ld32 (st32 m a v) a = v"
  using assms touched_range [of a] by (auto simp: agree_def intro!: st32_other)

lemma agree_ld32:
  assumes "agree lo hi m m'" "unat a + 4 \<le> lo \<or> hi \<le> unat a" "unat a + 4 \<le> 4294967296"
  shows "ld32 m' a = ld32 m a"
proof (rule ld32_cong)
  fix b assume "b \<in> touched a"
  then have "unat a \<le> unat b \<and> unat b \<le> unat a + 3" using touched_range [of a b] assms(3) by simp
  then show "m' b = m b" using assms(1,2) by (auto simp: agree_def)
qed

lemma agree_cstring:
  assumes "agree lo hi m m'" "cstring m p s" "unat p + length s < lo \<or> hi \<le> unat p" "unat p + length s < 4294967296"
  shows "cstring m' p s"
proof -
  have "m' (p + of_nat i) = m (p + of_nat i)" if "i \<le> length s" for i
  proof -
    have "unat (p + of_nat i) = unat p + i" using that assms(4) by (intro unat_add_nat) simp
    then show ?thesis using assms(1,3) that by (auto simp: agree_def)
  qed
  then show ?thesis using assms(2) by (simp add: cstring_def)
qed

section \<open>Pushing\<close>

lemma unat_minus_small: "unat b \<le> unat (a :: u32) \<Longrightarrow> unat (a - b) = unat a - unat b"
  by (simp add: unat_sub word_le_nat_alt)

definition strings_size :: "u8 list list \<Rightarrow> nat" where
  "strings_size ss = sum_list (map (\<lambda>s. length s + 1) ss)"

lemma push_strings_result:
  assumes "strings_size ss \<le> unat addr" "\<forall>s\<in>set ss. 0 \<notin> set s"
    and "push_strings ss addr m = (ptrs, addr', m')"
  shows "unat addr' = unat addr - strings_size ss \<and> length ptrs = length ss \<and>
    agree (unat addr') (unat addr) m m' \<and>
    (\<forall>i<length ss. cstring m' (ptrs ! i) (ss ! i) \<and> unat addr' \<le> unat (ptrs ! i) \<and>
       unat (ptrs ! i) + length (ss ! i) < unat addr)"
  using assms
proof (induction ss arbitrary: addr m ptrs)
  case Nil
  then show ?case by (simp add: strings_size_def)
next
  case (Cons s ss)
  let ?addr1 = "addr - (of_nat (length s) + 1)"
  let ?m1 = "store_bytes m ?addr1 (s @ [0])"
  obtain ptrs1 where p: "push_strings ss ?addr1 ?m1 = (ptrs1, addr', m')" "ptrs = ?addr1 # ptrs1"
    using Cons.prems(3) by (auto simp: Let_def split: prod.splits)
  have len: "length s + 1 \<le> unat addr" using Cons.prems(1) by (simp add: strings_size_def)
  have u: "unat (of_nat (length s) + 1 :: u32) = length s + 1"
  proof -
    have "length s + 1 < 4294967296" using len unat_bound32 [of addr] by linarith
    from unat_of_nat_small [OF this] show ?thesis by (simp add: add.commute)
  qed
  have a1: "unat ?addr1 = unat addr - (length s + 1)" using len u by (simp add: unat_minus_small)
  have sz: "strings_size ss \<le> unat ?addr1" using Cons.prems(1) a1 by (simp add: strings_size_def)
  have nul: "0 \<notin> set s" "\<forall>s\<in>set ss. 0 \<notin> set s" using Cons.prems(2) by simp_all
  note ih = Cons.IH [OF sz nul(2) p(1)]
  have sb: "agree (unat ?addr1) (unat addr) m ?m1" "\<forall>i<length s + 1. ?m1 (?addr1 + of_nat i) = (s @ [0]) ! i"
    using store_bytes_result [of ?addr1 "s @ [0]" m] a1 len unat_bound32 [of addr] by simp_all
  have c1: "cstring ?m1 ?addr1 s"
  proof -
    have "length s < 4294967296" using len unat_bound32 [of addr] by linarith
    then show ?thesis using sb(2) nul(1) by (auto simp: cstring_def nth_append)
  qed
  have hi: "unat ?addr1 + length s < unat addr" using a1 len by simp
  have "cstring m' ?addr1 s"
  proof (rule agree_cstring [OF _ c1])
    show "agree (unat addr') (unat ?addr1) ?m1 m'" using ih by blast
    show "unat ?addr1 + length s < 4294967296" using hi unat_bound32 [of addr] by linarith
  qed simp
  moreover have "agree (unat addr') (unat addr) m m'"
  proof (rule agree_trans)
    show "agree (unat addr') (unat ?addr1) ?m1 m'" using ih by blast
    show "agree (unat ?addr1) (unat addr) m ?m1" by (rule sb(1))
    show "unat addr' \<le> unat ?addr1" using ih by linarith
  qed (use a1 in linarith)
  ultimately show ?case
    using ih p(2) hi a1 sz by (auto simp: nth_Cons strings_size_def split: nat.splits)
qed

lemma push_words_result:
  assumes "4 * length ws \<le> unat addr" "push_words ws addr m = (addr', m')"
  shows "unat addr' = unat addr - 4 * length ws \<and> agree (unat addr') (unat addr) m m' \<and>
    (\<forall>i<length ws. ld32 m' (addr' + 4 * of_nat i) = ws ! i)"
  using assms
proof (induction ws arbitrary: addr' m')
  case (Cons w ws)
  obtain addr1 m1 where p: "push_words ws addr m = (addr1, m1)" "addr' = addr1 - 4" "m' = st32 m1 (addr1 - 4) w"
    using Cons.prems(2) by (auto simp: Let_def split: prod.splits)
  have ih: "unat addr1 = unat addr - 4 * length ws" "agree (unat addr1) (unat addr) m m1"
    "\<forall>i<length ws. ld32 m1 (addr1 + 4 * of_nat i) = ws ! i"
  proof -
    have "4 * length ws \<le> unat addr" using Cons.prems(1) by simp
    from Cons.IH [OF this p(1)] show "unat addr1 = unat addr - 4 * length ws" "agree (unat addr1) (unat addr) m m1"
      "\<forall>i<length ws. ld32 m1 (addr1 + 4 * of_nat i) = ws ! i" by blast+
  qed
  have a: "unat addr' + 4 = unat addr1" using Cons.prems(1) ih(1) p(2) unat_minus_small [of 4 addr1] by simp
  have st: "agree (unat addr') (unat addr1) m1 m'" "ld32 m' addr' = w"
  proof -
    have "unat addr' + 4 \<le> 4294967296" using a unat_bound32 [of addr1] by linarith
    from st32_result [OF this, of m1 w] show "agree (unat addr') (unat addr1) m1 m'" "ld32 m' addr' = w"
      unfolding p(3) p(2) [symmetric] a by blast+
  qed
  have ag: "agree (unat addr') (unat addr) m m'"
    by (rule agree_trans [OF st(1) ih(2)]) (use a ih(1) in simp_all)
  have "ld32 m' (addr' + 4 * of_nat i) = (w # ws) ! i" if i: "i < length (w # ws)" for i
  proof (cases i)
    case 0
    then show ?thesis using st(2) by simp
  next
    case (Suc j)
    have eq: "addr' + 4 * of_nat i = addr1 + 4 * of_nat j" using Suc p(2) by (simp add: algebra_simps)
    have j: "j < length ws" and len4: "4 * length ws + 4 \<le> unat addr" using i Suc Cons.prems(1) by simp_all
    have "unat (addr1 + of_nat (4 * j)) = unat addr1 + 4 * j"
      by (rule unat_add_nat) (use j ih(1) len4 unat_bound32 [of addr] in linarith)
    then have u: "unat (addr1 + 4 * of_nat j) = unat addr1 + 4 * j" by simp
    have "ld32 m' (addr1 + 4 * of_nat j) = ld32 m1 (addr1 + 4 * of_nat j)"
    proof (rule agree_ld32 [OF st(1)])
      show "unat (addr1 + 4 * of_nat j) + 4 \<le> 4294967296"
        using u j ih(1) len4 unat_bound32 [of addr] by linarith
    qed (use u in simp)
    then show ?thesis using ih(3) j Suc unfolding eq by simp
  qed
  then show ?case using a ih(1) ag by simp
qed simp

lemma push_ptrs_result:
  assumes "4 * length ws + 4 \<le> unat addr" "push_ptrs ws addr m = (addr', m')"
  shows "unat addr' = unat addr - (4 * length ws + 4) \<and> agree (unat addr') (unat addr) m m' \<and>
    (\<forall>i<length ws. ld32 m' (addr' + 4 * of_nat i) = ws ! i) \<and> ld32 m' (addr' + 4 * of_nat (length ws)) = 0"
proof -
  have a4: "unat (addr - 4) = unat addr - 4" using assms(1) by (simp add: unat_minus_small)
  have st: "agree (unat (addr - 4)) (unat addr) m (st32 m (addr - 4) 0)" "ld32 (st32 m (addr - 4) 0) (addr - 4) = 0"
  proof -
    have a: "unat (addr - 4) + 4 = unat addr" using a4 assms(1) by linarith
    then have "unat (addr - 4) + 4 \<le> 4294967296" using unat_bound32 [of addr] by linarith
    from st32_result [OF this, of m 0] show
      "agree (unat (addr - 4)) (unat addr) m (st32 m (addr - 4) 0)" "ld32 (st32 m (addr - 4) 0) (addr - 4) = 0"
      unfolding a by blast+
  qed
  have p: "push_words ws (addr - 4) (st32 m (addr - 4) 0) = (addr', m')" using assms(2) by (simp add: push_ptrs_def)
  have "4 * length ws \<le> unat (addr - 4)" using a4 assms(1) by simp
  note pw = push_words_result [OF this p]
  have u: "unat (addr' + of_nat (4 * length ws)) = unat addr' + 4 * length ws"
  proof (rule unat_add_nat)
    have "unat addr' + 4 * length ws = unat (addr - 4)" using pw a4 assms(1) by linarith
    then show "unat addr' + 4 * length ws < 4294967296" by (metis unat_bound32)
  qed
  have "addr' + 4 * of_nat (length ws) = addr - 4"
    by (rule unat_eq_imp) (use u pw a4 assms(1) in simp)
  moreover have "ld32 m' (addr - 4) = 0"
  proof -
    have "unat (addr - 4) + 4 \<le> 4294967296" using a4 assms(1) unat_bound32 [of addr] by linarith
    then have "ld32 m' (addr - 4) = ld32 (st32 m (addr - 4) 0) (addr - 4)"
      using agree_ld32 [of "unat addr'" "unat (addr - 4)"] pw by blast
    then show ?thesis using st(2) by simp
  qed
  moreover have "agree (unat addr') (unat addr) m m'"
  proof (rule agree_trans [OF _ st(1)])
    show "agree (unat addr') (unat (addr - 4)) (st32 m (addr - 4) 0) m'" using pw by blast
    show "unat addr' \<le> unat (addr - 4)" using pw by linarith
  qed (use a4 in linarith)
  ultimately show ?thesis using pw a4 by simp
qed

section \<open>The whole block\<close>

definition block_size :: "u8 list list \<Rightarrow> u8 list list \<Rightarrow> nat" where
  "block_size args envs = strings_size args + strings_size envs + (4 * length envs + 4) + (4 * length args + 4)"

lemma start_count_result:
  assumes "\<And>i. i < n \<Longrightarrow> ld32 m (esp + 4 * of_nat i) \<noteq> 0" and "ld32 m (esp + 4 * of_nat n) = 0"
  shows "start_count m esp 0 = Some (of_nat n)"
proof -
  have "start_count m esp (of_nat k) = Some (of_nat n)" if "k \<le> n" for k
    using that
  proof (induction "n - k" arbitrary: k)
    case 0
    then show ?case using assms(2) by (subst start_count.simps) simp
  next
    case (Suc d)
    then have "start_count m esp (of_nat (Suc k)) = Some (of_nat n)" by (intro Suc.hyps(1)) simp_all
    then show ?case using assms(1) [of k] Suc by (subst start_count.simps) (simp add: add.commute)
  qed
  from this [of 0] show ?thesis by simp
qed

lemma start_stack_result:
  assumes "block_size args envs \<le> 16384" "\<forall>s\<in>set args \<union> set envs. 0 \<notin> set s"
    and "start_stack args envs m = (esp, m')"
  obtains aptrs eptrs a3 where
    "unat esp = 0x8000000 - block_size args envs" "agree (unat esp) 0x8000000 m m'"
    "length aptrs = length args" "length eptrs = length envs"
    "\<And>i. i < length args \<Longrightarrow> ld32 m' (esp + 4 * of_nat i) = aptrs ! i \<and> cstring m' (aptrs ! i) (args ! i) \<and>
       0x7FFC000 \<le> unat (aptrs ! i)"
    "ld32 m' (esp + 4 * of_nat (length args)) = 0"
    "\<And>i. i < length envs \<Longrightarrow> ld32 m' (a3 + 4 * of_nat i) = eptrs ! i \<and> cstring m' (eptrs ! i) (envs ! i)"
    "ld32 m' (a3 + 4 * of_nat (length envs)) = 0"
    "a3 = esp + 4 * (of_nat (length args) + 1)"
proof -
  obtain aptrs a1 m1 eptrs a2 m2 a3 m3 where
    p1: "push_strings args PROC_USER_STACK_TOP_VADDR m = (aptrs, a1, m1)" and
    p2: "push_strings envs a1 m1 = (eptrs, a2, m2)" and
    p3: "push_ptrs eptrs a2 m2 = (a3, m3)" and p4: "push_ptrs aptrs a3 m3 = (esp, m')"
    using assms(3) by (auto simp: start_stack_def Let_def split: prod.splits)
  have top: "unat PROC_USER_STACK_TOP_VADDR = 0x8000000" by (simp add: PROC_USER_STACK_TOP_VADDR_def)
  have sz: "strings_size args + strings_size envs + (4 * length envs + 4) + (4 * length args + 4) \<le> 16384"
    using assms(1) by (simp add: block_size_def)
  have "strings_size args \<le> unat PROC_USER_STACK_TOP_VADDR" using sz top by linarith
  note r1 = push_strings_result [OF this _ p1]
  have r1: "unat a1 = 0x8000000 - strings_size args" "length aptrs = length args" "agree (unat a1) 0x8000000 m m1"
    "\<And>i. i < length args \<Longrightarrow> cstring m1 (aptrs ! i) (args ! i) \<and> unat a1 \<le> unat (aptrs ! i) \<and>
      unat (aptrs ! i) + length (args ! i) < 0x8000000"
    using r1 assms(2) unfolding top by blast+
  have "strings_size envs \<le> unat a1" using sz r1(1) by linarith
  note r2 = push_strings_result [OF this _ p2]
  have r2: "unat a2 = unat a1 - strings_size envs" "length eptrs = length envs" "agree (unat a2) (unat a1) m1 m2"
    "\<And>i. i < length envs \<Longrightarrow> cstring m2 (eptrs ! i) (envs ! i) \<and> unat a2 \<le> unat (eptrs ! i) \<and>
      unat (eptrs ! i) + length (envs ! i) < unat a1"
    using r2 assms(2) by blast+
  have len3: "4 * length eptrs + 4 \<le> unat a2" using sz r1(1) r2(1,2) by linarith
  note r3 = push_ptrs_result [OF len3 p3]
  have "4 * length aptrs + 4 \<le> unat a3" using sz r1(1,2) r2(1,2) r3 by linarith
  note r4 = push_ptrs_result [OF this p4]
  have a3u: "unat a3 = unat a2 - (4 * length envs + 4)" and e: "unat esp = unat a3 - (4 * length args + 4)"
    using r3 r4 r1(2) r2(2) by simp_all
  have espu: "unat esp = 0x8000000 - block_size args envs" unfolding block_size_def using e a3u r1(1) r2(1) by linarith
  have ag: "agree (unat a3) (unat a2) m2 m3" "agree (unat esp) (unat a3) m3 m'" using r3 r4 by blast+
  have lo: "unat esp \<le> unat a3" "unat a3 \<le> unat a2" "unat a2 \<le> unat a1" "unat a1 \<le> 0x8000000"
    using e a3u r1(1) r2(1) by linarith+
  have agp: "agree (unat esp) (unat a2) m2 m'" by (rule agree_trans [OF ag(2,1)]) (use lo in simp_all)
  have ags: "agree (unat esp) (unat a1) m1 m'" by (rule agree_trans [OF agp r2(3)]) (use lo in simp_all)
  have all: "agree (unat esp) 0x8000000 m m'" by (rule agree_trans [OF ags r1(3)]) (use lo in simp_all)
  have args: "cstring m' (aptrs ! i) (args ! i)" if "i < length args" for i
    by (rule agree_cstring [OF ags]) (use r1(4) [OF that] in \<open>simp_all\<close>)
  have envs: "cstring m' (eptrs ! i) (envs ! i)" if "i < length envs" for i
  proof (rule agree_cstring [OF agp])
    show "unat (eptrs ! i) + length (envs ! i) < 4294967296" using r2(4) [OF that] lo by linarith
  qed (use r2(4) [OF that] in simp_all)
  have eld: "ld32 m' (a3 + 4 * of_nat i) = ld32 m3 (a3 + 4 * of_nat i)" if "i \<le> length envs" for i
  proof -
    have lt: "unat a3 + 4 * i + 4 \<le> 4294967296" using that a3u lo len3 r2(2) by linarith
    have "unat (a3 + of_nat (4 * i)) = unat a3 + 4 * i" by (rule unat_add_nat) (use lt in linarith)
    then have u: "unat (a3 + 4 * of_nat i) = unat a3 + 4 * i" by simp
    show ?thesis by (rule agree_ld32 [OF ag(2)]) (use u lt in linarith)+
  qed
  have aeq: "a3 = esp + 4 * (of_nat (length args) + 1)"
  proof -
    have "unat (esp + of_nat (4 * length args + 4)) = unat esp + (4 * length args + 4)"
      by (rule unat_add_nat) (use e lo sz r1(1) r2(1) a3u in linarith)
    also have "\<dots> = unat a3" using e sz r1(1) r2(1) a3u by linarith
    finally show ?thesis by (intro unat_eq_imp) (simp add: algebra_simps)
  qed
  show ?thesis
  proof (rule that [of aptrs eptrs a3])
    show "ld32 m' (esp + 4 * of_nat i) = aptrs ! i \<and> cstring m' (aptrs ! i) (args ! i) \<and> 0x7FFC000 \<le> unat (aptrs ! i)"
      if "i < length args" for i
    proof -
      have "0x7FFC000 \<le> unat (aptrs ! i)" using r1(4) [OF that] r1(1) sz by linarith
      then show ?thesis using r4 r1(2) args that by simp
    qed
    show "ld32 m' (esp + 4 * of_nat (length args)) = 0" using r4 r1(2) by simp
    show "ld32 m' (a3 + 4 * of_nat i) = eptrs ! i \<and> cstring m' (eptrs ! i) (envs ! i)" if "i < length envs" for i
      using eld [of i] that r3 r2(2) envs by simp
    show "ld32 m' (a3 + 4 * of_nat (length envs)) = 0" using eld [of "length envs"] r3 r2(2) by simp
  qed (use espu all r1(2) r2(2) aeq in simp_all)
qed

text \<open>
  C12. A starting process finds the arguments it was given: with strings that fit in the 16 KiB user
  stack, \<open>_start\<close> counts exactly the arguments, every \<open>argv[i]\<close> and \<open>environ[i]\<close> points at a copy of the
  string, both arrays end in a null pointer, and nothing outside the block is written.
\<close>

theorem start_stack_read_back:
  assumes "block_size args envs \<le> 16384" and "\<forall>s\<in>set args \<union> set envs. 0 \<notin> set s"
    and "start_stack args envs m = (esp, m')"
  shows "\<exists>environ. start_args m' esp = Some (of_nat (length args), esp, environ) \<and>
    (\<forall>i<length args. cstring m' (ld32 m' (esp + 4 * of_nat i)) (args ! i)) \<and>
    ld32 m' (esp + 4 * of_nat (length args)) = 0 \<and>
    (\<forall>i<length envs. cstring m' (ld32 m' (environ + 4 * of_nat i)) (envs ! i)) \<and>
    ld32 m' (environ + 4 * of_nat (length envs)) = 0 \<and>
    (\<forall>a. unat a < 0x7FFC000 \<or> 0x8000000 \<le> unat a \<longrightarrow> m' a = m a)"
proof -
  obtain aptrs eptrs a3 where
    r: "unat esp = 0x8000000 - block_size args envs" "agree (unat esp) 0x8000000 m m'"
    "length aptrs = length args" "length eptrs = length envs"
    "\<And>i. i < length args \<Longrightarrow> ld32 m' (esp + 4 * of_nat i) = aptrs ! i \<and> cstring m' (aptrs ! i) (args ! i) \<and>
       0x7FFC000 \<le> unat (aptrs ! i)"
    "ld32 m' (esp + 4 * of_nat (length args)) = 0"
    "\<And>i. i < length envs \<Longrightarrow> ld32 m' (a3 + 4 * of_nat i) = eptrs ! i \<and> cstring m' (eptrs ! i) (envs ! i)"
    "ld32 m' (a3 + 4 * of_nat (length envs)) = 0"
    "a3 = esp + 4 * (of_nat (length args) + 1)"
    by (rule start_stack_result [OF assms]) blast
  have "start_count m' esp 0 = Some (of_nat (length args))"
  proof (rule start_count_result)
    fix i assume "i < length args"
    then show "ld32 m' (esp + 4 * of_nat i) \<noteq> 0" using r(5) [of i] by auto
  qed (rule r(6))
  then have "start_args m' esp = Some (of_nat (length args), esp, a3)"
    by (simp add: start_args_def r(9) push_bit_eq_mult mult.commute)
  moreover have "m' a = m a" if "unat a < 0x7FFC000 \<or> 0x8000000 \<le> unat a" for a
    using r(1,2) that assms(1) by (auto simp: agree_def)
  ultimately show ?thesis using r(5-8) by (intro exI [of _ a3]) simp
qed

theorem start_stack_read_back_witness:
  "\<exists>esp m' environ. start_stack [[0x6C, 0x73], [0x2F]] [[0x48, 0x3D]] (\<lambda>a. 0) = (esp, m') \<and>
     start_args m' esp = Some (2, esp, environ) \<and>
     cstring m' (ld32 m' (esp + 4 * of_nat 1)) [0x2F] \<and> cstring m' (ld32 m' (environ + 4 * of_nat 0)) [0x48, 0x3D]"
proof -
  obtain esp m' where s: "start_stack [[0x6C, 0x73], [0x2F]] [[0x48, 0x3D]] (\<lambda>a. 0) = (esp, m')"
    by (cases "start_stack [[0x6C, 0x73], [0x2F]] [[0x48, 0x3D]] (\<lambda>a. 0)")
  have b: "block_size [[0x6C, 0x73], [0x2F]] [[0x48, 0x3D]] \<le> 16384"
    "\<forall>s\<in>set [[0x6C, 0x73], [0x2F]] \<union> set [[0x48, 0x3D]]. (0 :: u8) \<notin> set s"
    by (simp_all add: block_size_def strings_size_def)
  from start_stack_read_back [OF b s] s show ?thesis by (auto simp: All_less_Suc2 numeral_2_eq_2)
qed

end
