(* ===== verification/Print.thy ===== *)
theory Print
  imports KPrelude "HOL-Library.Signed_Division"
begin

text \<open>
  \<open>kernel/lib/src/print.h\<close>: the formatter behind every kernel message. The two callbacks are the
  output; a run of \<open>kvprintf_to\<close> is the sequence of calls it makes.
\<close>

section \<open>Operations\<close>

datatype emit = Putchar u8 | Newline

text \<open>A variadic argument: a string, or the 32 bits of an integer.\<close>

datatype va = VaStr "u8 list" | VaInt u32

definition chr :: "int \<Rightarrow> u8" where "chr n = word_of_int n"

text \<open>\<open>\%d\<close>: C division truncates towards zero.\<close>

definition emit_d :: "u32 \<Rightarrow> emit list" where
  "emit_d n = (if sint n \<ge> 10 then [Putchar (chr (48 + sint n sdiv 10))] else []) @
     [Putchar (chr (48 + sint n smod 10))]"

definition hex_digit :: "nat \<Rightarrow> u8" where
  "hex_digit n = (if n < 10 then of_nat (48 + n) else of_nat (55 + n))"

text \<open>The loop over \<open>j = 7 .. 0\<close>; the argument is \<open>j + 1\<close>.\<close>

fun hex_loop :: "u32 \<Rightarrow> bool \<Rightarrow> nat \<Rightarrow> emit list" where
  "hex_loop x started 0 = []"
| "hex_loop x started (Suc j) =
     (let nibble = unat (drop_bit (j * 4) x AND 0xF)
      in if nibble \<noteq> 0 \<or> started then Putchar (hex_digit nibble) # hex_loop x True j
         else hex_loop x started j)"

definition emit_x :: "u32 \<Rightarrow> emit list" where
  "emit_x x = [Putchar 0x30, Putchar 0x78] @ (if x = 0 then [Putchar 0x30] else hex_loop x False 8)"

text \<open>
  \<open>kvprintf_to\<close> over the bytes of the format before its NUL. An unknown conversion drops the \<open>%\<close>
  and goes on with the character after it; a missing or wrong argument is undefined.
\<close>

fun kvprintf_to :: "u8 list \<Rightarrow> va list \<Rightarrow> emit list res" where
  "kvprintf_to [] args = Inr []"
| "kvprintf_to [c] args =
     Inr (if c = 0x0A then [Newline] else if c = 0x09 then replicate 4 (Putchar 0x20) else [Putchar c])"
| "kvprintf_to (c # d # fmt) args =
     (if c = 0x25 then
        if d = 0x73 then
          (case args of VaStr s # args' \<Rightarrow> map_sum id (\<lambda>r. map Putchar s @ r) (kvprintf_to fmt args')
           | _ \<Rightarrow> Inl (KFault ''va_arg''))
        else if d = 0x64 then
          (case args of VaInt n # args' \<Rightarrow> map_sum id (\<lambda>r. emit_d n @ r) (kvprintf_to fmt args')
           | _ \<Rightarrow> Inl (KFault ''va_arg''))
        else if d = 0x78 then
          (case args of VaInt x # args' \<Rightarrow> map_sum id (\<lambda>r. emit_x x @ r) (kvprintf_to fmt args')
           | _ \<Rightarrow> Inl (KFault ''va_arg''))
        else kvprintf_to (d # fmt) args
      else
        map_sum id
          (\<lambda>r. (if c = 0x0A then [Newline] else if c = 0x09 then replicate 4 (Putchar 0x20) else [Putchar c]) @ r)
          (kvprintf_to (d # fmt) args))"

text \<open>
  \<open>snprintf_ctx\<close> and its callbacks. \<open>size - 1\<close> is a 32-bit subtraction; a store outside the buffer
  is a fault.
\<close>

record snprintf_ctx =
  sn_buf :: "u8 list"
  sn_size :: u32
  sn_cursor :: u32

definition snprintf_putchar :: "u8 \<Rightarrow> snprintf_ctx \<Rightarrow> snprintf_ctx res" where
  "snprintf_putchar c ctx =
     (if sn_cursor ctx < sn_size ctx - 1
      then if unat (sn_cursor ctx) < length (sn_buf ctx)
           then Inr (ctx\<lparr>sn_buf := (sn_buf ctx)[unat (sn_cursor ctx) := c], sn_cursor := sn_cursor ctx + 1\<rparr>)
           else Inl (KFault ''snprintf buf'')
      else Inr ctx)"

definition snprintf_newline :: "snprintf_ctx \<Rightarrow> snprintf_ctx res" where
  "snprintf_newline ctx = snprintf_putchar 0x0A ctx"

fun snprintf_emits :: "emit list \<Rightarrow> snprintf_ctx \<Rightarrow> snprintf_ctx res" where
  "snprintf_emits [] ctx = Inr ctx"
| "snprintf_emits (e # es) ctx =
     (case (case e of Putchar c \<Rightarrow> snprintf_putchar c ctx | Newline \<Rightarrow> snprintf_newline ctx) of
        Inl err \<Rightarrow> Inl err
      | Inr ctx1 \<Rightarrow> snprintf_emits es ctx1)"

definition kvsnprintf :: "u8 list \<Rightarrow> u32 \<Rightarrow> u8 list \<Rightarrow> va list \<Rightarrow> u8 list res" where
  "kvsnprintf buf sz fmt args =
     (case kvprintf_to fmt args of
        Inl e \<Rightarrow> Inl e
      | Inr es \<Rightarrow>
          (case snprintf_emits es \<lparr>sn_buf = buf, sn_size = sz, sn_cursor = 0\<rparr> of
             Inl e \<Rightarrow> Inl e
           | Inr ctx \<Rightarrow>
               (let i = (if sn_cursor ctx < sz then sn_cursor ctx else sz - 1)
                in if unat i < length (sn_buf ctx) then Inr ((sn_buf ctx)[unat i := 0])
                   else Inl (KFault ''snprintf buf''))))"

section \<open>Formats piece by piece\<close>

text \<open>Characters that are neither a conversion nor a new line or a tab, and the two conversions messages use.\<close>

definition verbatim :: "u8 list \<Rightarrow> bool" where
  "verbatim s \<longleftrightarrow> 0x25 \<notin> set s \<and> 0x0A \<notin> set s \<and> 0x09 \<notin> set s"

lemma kvprintf_Cons:
  assumes "c \<noteq> 0x25" "c \<noteq> 0x0A" "c \<noteq> 0x09"
  shows "kvprintf_to (c # fmt) args = map_sum id (\<lambda>r. [Putchar c] @ r) (kvprintf_to fmt args)"
  using assms by (cases "kvprintf_to fmt args"; cases fmt) simp_all

lemma kvprintf_verbatim:
  assumes "verbatim s"
  shows "kvprintf_to (s @ fmt) args = map_sum id (\<lambda>r. map Putchar s @ r) (kvprintf_to fmt args)"
  using assms
proof (induction s)
  case Nil
  then show ?case by (cases "kvprintf_to fmt args") simp_all
next
  case (Cons c s)
  then have "kvprintf_to (c # s @ fmt) args = map_sum id (\<lambda>r. [Putchar c] @ r) (kvprintf_to (s @ fmt) args)"
    by (intro kvprintf_Cons) (auto simp: verbatim_def)
  then show ?case using Cons by (cases "kvprintf_to fmt args") (simp_all add: verbatim_def)
qed

lemma kvprintf_all: "verbatim s \<Longrightarrow> kvprintf_to s args = Inr (map Putchar s)"
  using kvprintf_verbatim [of s "[]" args] by simp

lemma kvprintf_pieces:
  "kvprintf_to (0x0A # fmt) args = map_sum id (\<lambda>r. [Newline] @ r) (kvprintf_to fmt args)"
  "kvprintf_to (0x25 # 0x73 # fmt) (VaStr s # args) = map_sum id (\<lambda>r. map Putchar s @ r) (kvprintf_to fmt args)"
  "kvprintf_to (0x25 # 0x78 # fmt) (VaInt x # args) = map_sum id (\<lambda>r. emit_x x @ r) (kvprintf_to fmt args)"
  by (cases "kvprintf_to fmt args"; cases fmt; simp)+

section \<open>Hexadecimal\<close>

definition hex_value :: "u8 \<Rightarrow> nat" where
  "hex_value c = (if unat c < 58 then unat c - 48 else unat c - 55)"

fun emit_char :: "emit \<Rightarrow> u8" where
  "emit_char (Putchar c) = c"
| "emit_char Newline = 0x0A"

definition parse_hex :: "emit list \<Rightarrow> nat" where
  "parse_hex es = foldl (\<lambda>acc e. acc * 16 + hex_value (emit_char e)) 0 es"

lemma hex_value_digit: "n < 16 \<Longrightarrow> hex_value (hex_digit n) = n"
  by (simp add: hex_value_def hex_digit_def unat_of_nat8_small del: of_nat_add)

lemma nibble_value: "unat (drop_bit (j * 4) x AND 0xF :: u32) = unat x div 16 ^ j mod 16"
proof -
  have "drop_bit (j * 4) x AND 0xF = take_bit 4 (drop_bit (j * 4) x)"
    by (simp add: take_bit_eq_mask mask_eq_exp_minus_1)
  then have "unat (drop_bit (j * 4) x AND 0xF) = take_bit 4 (drop_bit (j * 4) (unat x))"
    by (simp only: unsigned_take_bit_eq unat_drop_bit_eq)
  moreover have "(2 :: nat) ^ (j * 4) = 16 ^ j" by (simp add: mult.commute [of j] power_mult)
  ultimately show ?thesis by (simp only: take_bit_eq_mod drop_bit_eq_div) simp
qed

lemma mod_pow16: "(m :: nat) mod 16 ^ Suc j = m div 16 ^ j mod 16 * 16 ^ j + m mod 16 ^ j"
  using mod_mult2_eq [of m "16 ^ j" 16] by (simp add: mult.commute)

abbreviation hex_step :: "nat \<Rightarrow> emit \<Rightarrow> nat" where
  "hex_step \<equiv> \<lambda>acc e. acc * 16 + hex_value (emit_char e)"

lemma hex_loop_started: "foldl hex_step acc (hex_loop x True j) = acc * 16 ^ j + unat x mod 16 ^ j"
proof (induction j arbitrary: acc)
  case (Suc j)
  show ?case
    unfolding mod_pow16
    by (simp add: nibble_value Let_def hex_value_digit Suc.IH) (simp add: algebra_simps)
qed simp

lemma hex_loop_value: "foldl hex_step 0 (hex_loop x False j) = unat x mod 16 ^ j"
proof (induction j)
  case (Suc j)
  show ?case
    unfolding mod_pow16
    by (simp add: nibble_value Let_def hex_value_digit Suc hex_loop_started)
qed simp

lemma hex_loop_first: "hex_loop x False j = e # es \<Longrightarrow> \<exists>n. 0 < n \<and> n < 16 \<and> e = Putchar (hex_digit n)"
  by (induction j) (auto simp: Let_def nibble_value split: if_splits)

section \<open>Decimal\<close>

fun dec_digits :: "nat \<Rightarrow> u8 list" where
  "dec_digits n = (if n < 10 then [of_nat (48 + n)] else dec_digits (n div 10) @ [of_nat (48 + n mod 10)])"

declare dec_digits.simps [simp del]

lemma emit_d_nat:
  assumes "unat n < 2147483648"
  shows "emit_d n = (if unat n \<ge> 10 then [Putchar (of_nat (48 + unat n div 10))] else []) @
    [Putchar (of_nat (48 + unat n mod 10))]"
proof -
  have s: "sint n = int (unat n)"
  proof -
    have "uint n < 2147483648" using assms by (metis uint_nat of_nat_less_numeral_iff)
    then have hi: "uint n < 2 ^ 31" by (rule order_less_le_trans) simp
    have lo: "- (2 ^ 31) \<le> uint n" by (rule order_trans [OF _ unsigned_greater_eq]) simp
    have "signed_take_bit 31 (uint n) = uint n" by (rule signed_take_bit_int_eq_self [OF lo hi])
    then show ?thesis by (simp add: sint_uint)
  qed
  define k where "k = unat n"
  have "int k sdiv 10 = int (k div 10)" "int k smod 10 = int (k mod 10)"
    by (simp_all add: signed_divide_int_def signed_modulo_int_def zdiv_int zmod_int sgn_if)
  then show ?thesis using s unfolding k_def [symmetric] by (simp add: emit_d_def chr_def)
qed

lemma dec_digits_length: "length (dec_digits n) \<le> 2 \<longleftrightarrow> n < 100"
proof -
  have "0 < length (dec_digits k)" for k by (subst dec_digits.simps) simp
  then have "length (dec_digits k) \<le> 1 \<longleftrightarrow> k < 10" for k
    by (subst dec_digits.simps) (simp add: Suc_le_eq)
  moreover have "n div 10 < 10 \<longleftrightarrow> n < 100" by linarith
  ultimately show ?thesis by (subst dec_digits.simps) auto
qed

section \<open>The buffer of kvsnprintf\<close>

lemma snprintf_putchar_ok:
  assumes "sn_buf ctx = take (unat sz - 1) cs @ rest" "length (sn_buf ctx) = unat sz" "sn_size ctx = sz"
    and "unat (sn_cursor ctx) = length (take (unat sz - 1) cs)" "0 < sz"
  shows "\<exists>ctx' rest'. snprintf_putchar c ctx = Inr ctx' \<and> sn_buf ctx' = take (unat sz - 1) (cs @ [c]) @ rest' \<and>
    length (sn_buf ctx') = unat sz \<and> sn_size ctx' = sz \<and>
    unat (sn_cursor ctx') = length (take (unat sz - 1) (cs @ [c]))"
proof -
  have pos: "0 < unat sz" using assms(5) by (simp add: word_less_nat_alt)
  have s1: "unat (sz - 1) = unat sz - 1"
    using pos by (metis One_nat_def gr_implies_not_zero unat_minus_one unat_eq_zero)
  show ?thesis
  proof (cases "length cs < unat sz - 1")
    case True
    then have cur: "unat (sn_cursor ctx) = length cs" "sn_cursor ctx < sn_size ctx - 1"
      using assms(3,4) s1 by (simp_all add: word_less_nat_alt)
    have next_cur: "unat (sn_cursor ctx + 1) = length cs + 1"
    proof -
      have "length cs + 1 < 4294967296" using True unat_bound32 [of sz] by linarith
      then show ?thesis using cur(1) unat_add_small [of "sn_cursor ctx" 1] by simp
    qed
    have "rest \<noteq> []" using assms(1,2) True by auto
    then obtain r rs where "rest = r # rs" by (cases rest) auto
    then have "(sn_buf ctx)[length cs := c] = take (unat sz - 1) (cs @ [c]) @ rs"
      using assms(1) True by (simp add: list_update_append)
    moreover have "unat (sn_cursor ctx) < length (sn_buf ctx)" using cur(1) True assms(2) by simp
    moreover have "length ((sn_buf ctx)[length cs := c]) = unat sz" using assms(2) by simp
    ultimately show ?thesis
      using cur next_cur True assms(2,3) by (auto simp: snprintf_putchar_def)
  next
    case False
    then have "unat (sn_cursor ctx) = unat sz - 1" using assms(4) by simp
    then have "\<not> sn_cursor ctx < sn_size ctx - 1" using assms(3) s1 by (simp add: word_less_nat_alt)
    moreover have "take (unat sz - 1) (cs @ [c]) = take (unat sz - 1) cs" using False by simp
    ultimately show ?thesis using assms by (auto simp: snprintf_putchar_def)
  qed
qed

lemma snprintf_emits_ok:
  assumes "sn_buf ctx = take (unat sz - 1) cs @ rest" "length (sn_buf ctx) = unat sz" "sn_size ctx = sz"
    and "unat (sn_cursor ctx) = length (take (unat sz - 1) cs)" "0 < sz"
  shows "\<exists>ctx' rest'. snprintf_emits es ctx = Inr ctx' \<and>
    sn_buf ctx' = take (unat sz - 1) (cs @ map emit_char es) @ rest' \<and>
    length (sn_buf ctx') = unat sz \<and> unat (sn_cursor ctx') = length (take (unat sz - 1) (cs @ map emit_char es))"
  using assms
proof (induction es arbitrary: ctx cs rest)
  case (Cons e es)
  obtain ctx1 rest1 where c1: "snprintf_putchar (emit_char e) ctx = Inr ctx1"
    "sn_buf ctx1 = take (unat sz - 1) (cs @ [emit_char e]) @ rest1" "length (sn_buf ctx1) = unat sz"
    "sn_size ctx1 = sz" "unat (sn_cursor ctx1) = length (take (unat sz - 1) (cs @ [emit_char e]))"
    using snprintf_putchar_ok [OF Cons.prems, of "emit_char e"] by blast
  have "(case e of Putchar c \<Rightarrow> snprintf_putchar c ctx | Newline \<Rightarrow> snprintf_newline ctx) = Inr ctx1"
    using c1(1) by (cases e) (simp_all add: snprintf_newline_def)
  then show ?case using Cons.IH [OF c1(2-5) Cons.prems(5)] by simp
qed auto

section \<open>Properties\<close>

text \<open>
  \<open>\%x\<close> prints \<open>0x\<close> and the digits of the number: read back they give the number, there are
  between one and eight, and none of them leads with 0 unless the number is 0.
\<close>

theorem emit_x_roundtrip:
  "\<exists>ds. emit_x x = Putchar 0x30 # Putchar 0x78 # ds \<and> parse_hex ds = unat x \<and> ds \<noteq> [] \<and> length ds \<le> 8 \<and>
    (hd ds = Putchar 0x30 \<longleftrightarrow> x = 0)"
proof (cases "x = 0")
  case True
  then show ?thesis by (simp add: emit_x_def parse_hex_def hex_value_def)
next
  case False
  have v: "parse_hex (hex_loop x False 8) = unat x"
    using unat_bound32 [of x] by (simp add: parse_hex_def hex_loop_value)
  moreover have ne: "hex_loop x False 8 \<noteq> []"
  proof
    assume "hex_loop x False 8 = []"
    then have "unat x = 0" using v by (simp add: parse_hex_def)
    then show False using False by (simp add: unat_eq_zero)
  qed
  moreover have "length (hex_loop x st j) \<le> j" for st j
    by (induction j arbitrary: st) (auto simp: Let_def le_SucI)
  moreover have "hd (hex_loop x False 8) \<noteq> Putchar 0x30"
  proof -
    obtain e es where e: "hex_loop x False 8 = e # es" using ne by (cases "hex_loop x False 8") auto
    obtain n where n: "0 < n" "n < 16" "e = Putchar (hex_digit n)" using hex_loop_first [OF e] by blast
    have "hex_value (hex_digit n) \<noteq> hex_value 0x30" using n hex_value_digit [of n] by (simp add: hex_value_def)
    then show ?thesis using e n(3) by auto
  qed
  ultimately show ?thesis using False by (simp add: emit_x_def)
qed

text \<open>
  \<open>\%d\<close> prints the decimal digits of a number from 0 to 99, and of no number above: from 100 on it
  always prints two characters.
\<close>

theorem emit_d_two_digits:
  assumes "unat n < 2147483648"
  shows "emit_d n = map Putchar (dec_digits (unat n)) \<longleftrightarrow> unat n < 100"
proof
  assume "emit_d n = map Putchar (dec_digits (unat n))"
  then have "length (emit_d n) = length (dec_digits (unat n))" by simp
  moreover have "length (emit_d n) \<le> 2" by (simp add: emit_d_def)
  ultimately show "unat n < 100" by (simp add: dec_digits_length [symmetric])
next
  assume "unat n < 100"
  then have "unat n div 10 < 10" by linarith
  then have "dec_digits (unat n div 10) = [of_nat (48 + unat n div 10)]" by (subst dec_digits.simps) simp
  then show "emit_d n = map Putchar (dec_digits (unat n))"
    unfolding emit_d_nat [OF assms] by (subst dec_digits.simps) (simp del: of_nat_add)
qed

theorem emit_d_two_digits_witness:
  "emit_d 42 = map Putchar (dec_digits 42) \<and> emit_d 100 \<noteq> map Putchar (dec_digits 100)"
  using emit_d_two_digits [of 42] emit_d_two_digits [of 100] by simp

text \<open>
  C10. Given a size that is not 0, \<open>kvsnprintf\<close> never writes outside a buffer of that size: it leaves the first
  \<open>size - 1\<close> characters of the output and a NUL behind them. A size of 0 is no bound at all: \<open>size - 1\<close> wraps.
\<close>

theorem kvsnprintf_bounded:
  assumes "length buf = unat sz" and "0 < sz" and "kvprintf_to fmt args = Inr es"
  shows "\<exists>rest. kvsnprintf buf sz fmt args = Inr (take (unat sz - 1) (map emit_char es) @ 0 # rest) \<and>
    length (take (unat sz - 1) (map emit_char es) @ 0 # rest) = unat sz"
proof -
  have pos: "0 < unat sz" using assms(2) by (simp add: word_less_nat_alt)
  obtain ctx rest where c: "snprintf_emits es \<lparr>sn_buf = buf, sn_size = sz, sn_cursor = 0\<rparr> = Inr ctx"
    "sn_buf ctx = take (unat sz - 1) (map emit_char es) @ rest" "length (sn_buf ctx) = unat sz"
    "unat (sn_cursor ctx) = length (take (unat sz - 1) (map emit_char es))"
    using snprintf_emits_ok [of "\<lparr>sn_buf = buf, sn_size = sz, sn_cursor = 0\<rparr>" sz "[]" buf es] assms by auto
  have lt: "unat (sn_cursor ctx) < unat sz" using c(4) pos by simp
  then have "sn_cursor ctx < sz" by (simp add: word_less_nat_alt)
  moreover have "rest \<noteq> []" using c lt by auto
  then obtain r rs where r: "rest = r # rs" by (cases rest) auto
  moreover have "(sn_buf ctx)[unat (sn_cursor ctx) := 0] = take (unat sz - 1) (map emit_char es) @ 0 # rs"
    unfolding c(2) c(4) r by (simp add: list_update_append)
  ultimately show ?thesis
    using assms(3) c lt by (intro exI [of _ rs]) (simp add: kvsnprintf_def Let_def)
qed

theorem kvsnprintf_bounded_witness:
  "\<exists>rest. kvsnprintf [1, 2, 3, 4] 4 [0x70, 0x3D, 0x25, 0x78] [VaInt 0x1F] = Inr ([0x70, 0x3D, 0x30] @ 0 # rest)"
proof -
  have "kvprintf_to [0x70, 0x3D, 0x25, 0x78] [VaInt 0x1F] =
      Inr [Putchar 0x70, Putchar 0x3D, Putchar 0x30, Putchar 0x78, Putchar 0x31, Putchar 0x46]"
    by code_simp
  from kvsnprintf_bounded [OF _ _ this, of "[1, 2, 3, 4]" 4] show ?thesis by auto
qed

end
