(* ===== verification/Vga.thy ===== *)
theory Vga
  imports Print
begin

text \<open>
  VGA text mode, \<open>kernel/dev/src/vga.c\<close>: the cells at \<open>0xB8000\<close>, the cursor, the colour, and the writes to the cursor
  registers of the controller, in order. The controller itself is \<open>crtc\<close>: an index register that selects where the next
  byte for the data port goes.
\<close>

section \<open>Operations\<close>

definition VGA_ADDRESS :: u32 where "VGA_ADDRESS = 0xB8000"
definition VGA_COLS :: u32 where "VGA_COLS = 80"
definition IO_VGA_INDEX_PORT :: u16 where "IO_VGA_INDEX_PORT = 0x3D4"
definition IO_VGA_DATA_PORT :: u16 where "IO_VGA_DATA_PORT = 0x3D5"
definition IO_VGA_DATA_POS_HIGH_BITS :: u8 where "IO_VGA_DATA_POS_HIGH_BITS = 0x0E"
definition IO_VGA_DATA_POS_LOW_BITS :: u8 where "IO_VGA_DATA_POS_LOW_BITS = 0x0F"

lemmas vga_ports = IO_VGA_INDEX_PORT_def IO_VGA_DATA_PORT_def IO_VGA_DATA_POS_HIGH_BITS_def IO_VGA_DATA_POS_LOW_BITS_def

record vga =
  vga_mem :: "u32 \<Rightarrow> u8"
  vga_cursor :: u32
  vga_color :: u8
  vga_outs :: "(u16 \<times> u8) list"

definition vga_outb :: "u16 \<Rightarrow> u8 \<Rightarrow> vga \<Rightarrow> vga" where
  "vga_outb p b v = v\<lparr>vga_outs := vga_outs v @ [(p, b)]\<rparr>"

definition vga_update_cursor :: "vga \<Rightarrow> vga" where
  "vga_update_cursor v =
     (let pos = ucast (vga_cursor v) :: u16
      in vga_outb IO_VGA_DATA_PORT (ucast (drop_bit 8 pos AND 0xFF))
           (vga_outb IO_VGA_INDEX_PORT IO_VGA_DATA_POS_HIGH_BITS
             (vga_outb IO_VGA_DATA_PORT (ucast (pos AND 0xFF))
               (vga_outb IO_VGA_INDEX_PORT IO_VGA_DATA_POS_LOW_BITS v))))"

definition vga_enable_cursor :: "vga \<Rightarrow> vga" where
  "vga_enable_cursor v =
     vga_outb IO_VGA_DATA_PORT 0x0F (vga_outb IO_VGA_INDEX_PORT 0x0B
       (vga_outb IO_VGA_DATA_PORT 0x00 (vga_outb IO_VGA_INDEX_PORT 0x0A v)))"

definition vga_store :: "u32 \<Rightarrow> u8 \<Rightarrow> vga \<Rightarrow> vga" where
  "vga_store i b v = v\<lparr>vga_mem := (vga_mem v)(VGA_ADDRESS + i := b)\<rparr>"

text \<open>The loop of the two ways of clearing: \<open>n\<close> cells from the offset \<open>i\<close> on.\<close>

fun vga_fill :: "nat \<Rightarrow> u32 \<Rightarrow> u8 \<Rightarrow> vga \<Rightarrow> vga" where
  "vga_fill 0 i attr v = v"
| "vga_fill (Suc n) i attr v = vga_fill n (i + 2) attr (vga_store (i + 1) attr (vga_store i 0x20 v))"

definition vga_cclear :: "u8 \<Rightarrow> vga \<Rightarrow> vga" where
  "vga_cclear color v = vga_update_cursor ((vga_fill 2000 0 (push_bit 4 color) v)\<lparr>vga_cursor := 0\<rparr>)"

definition vga_clear :: "vga \<Rightarrow> vga" where
  "vga_clear v = vga_update_cursor ((vga_fill 2000 0 0 v)\<lparr>vga_cursor := 0\<rparr>)"

definition vga_putchar :: "u8 \<Rightarrow> vga \<Rightarrow> vga" where
  "vga_putchar c v =
     (let v1 = vga_store (vga_cursor v * 2 + 1) (vga_color v) (vga_store (vga_cursor v * 2) c v)
      in vga_update_cursor (v1\<lparr>vga_cursor := vga_cursor v1 + 1\<rparr>))"

fun vga_put_all :: "u8 list \<Rightarrow> vga \<Rightarrow> vga" where
  "vga_put_all [] v = v"
| "vga_put_all (c # s) v = vga_put_all s (vga_putchar c v)"

text \<open>A null pointer is no string.\<close>

definition vga_print :: "u8 list option \<Rightarrow> vga \<Rightarrow> vga" where
  "vga_print str v = (case str of None \<Rightarrow> v | Some s \<Rightarrow> vga_put_all s v)"

definition vga_new_line :: "vga \<Rightarrow> vga" where
  "vga_new_line v =
     (let padding = VGA_COLS - vga_cursor v mod VGA_COLS
      in vga_update_cursor (vga_put_all (replicate (unat padding) 0x20) v))"

definition vga_println :: "u8 list option \<Rightarrow> vga \<Rightarrow> vga" where
  "vga_println str v = vga_new_line (vga_print str v)"

definition vga_putint :: "u32 \<Rightarrow> vga \<Rightarrow> vga" where
  "vga_putint num v =
     vga_putchar (chr (48 + sint num smod 10)) (if sint num \<ge> 10 then vga_putchar (chr (48 + sint num sdiv 10)) v else v)"

definition vga_puthex :: "u8 \<Rightarrow> vga \<Rightarrow> vga" where
  "vga_puthex num v = vga_putchar (hex_digit (unat (num AND 0x0F))) (vga_putchar (hex_digit (unat (drop_bit 4 num))) v)"

definition vga_puthex32 :: "u32 \<Rightarrow> vga \<Rightarrow> vga" where
  "vga_puthex32 num v =
     fold (\<lambda>i. vga_putchar (hex_digit (unat (drop_bit (i * 4) num AND 0xF)))) (rev [0..<8]) (vga_print (Some [0x30, 0x78]) v)"

fun vga_emits :: "emit list \<Rightarrow> vga \<Rightarrow> vga" where
  "vga_emits [] v = v"
| "vga_emits (Putchar c # es) v = vga_emits es (vga_putchar c v)"
| "vga_emits (Newline # es) v = vga_emits es (vga_new_line v)"

definition vga_vprintf :: "u8 list \<Rightarrow> va list \<Rightarrow> vga \<Rightarrow> vga res" where
  "vga_vprintf str args v = and_then (kvprintf_to str args) (\<lambda>es. Inr (vga_emits es v))"

definition vga_printf :: "u8 list option \<Rightarrow> va list \<Rightarrow> vga \<Rightarrow> vga res" where
  "vga_printf str args v = (case str of None \<Rightarrow> Inr v | Some s \<Rightarrow> vga_vprintf s args v)"

definition vga_backspace :: "vga \<Rightarrow> vga" where
  "vga_backspace v =
     vga_update_cursor
       (if vga_cursor v > 0
        then (let v1 = vga_putchar 0x20 (v\<lparr>vga_cursor := vga_cursor v - 1\<rparr>) in v1\<lparr>vga_cursor := vga_cursor v1 - 1\<rparr>)
        else v)"

definition vga_setforeground_color :: "u8 \<Rightarrow> vga \<Rightarrow> vga" where
  "vga_setforeground_color fg v = v\<lparr>vga_color := (vga_color v AND 0xF0) OR (fg AND 0x0F)\<rparr>"

definition vga_setbackground_color :: "u8 \<Rightarrow> vga \<Rightarrow> vga" where
  "vga_setbackground_color bg v = v\<lparr>vga_color := (vga_color v AND 0x0F) OR push_bit 4 bg\<rparr>"

section \<open>The cursor of the controller\<close>

type_synonym crtc_state = "u8 \<times> (u8 \<Rightarrow> u8)"

fun crtc :: "(u16 \<times> u8) \<Rightarrow> crtc_state \<Rightarrow> crtc_state" where
  "crtc (p, b) (ix, regs) =
     (if p = IO_VGA_INDEX_PORT then (b, regs) else if p = IO_VGA_DATA_PORT then (ix, regs(ix := b)) else (ix, regs))"

definition crtc_regs :: "crtc_state \<Rightarrow> vga \<Rightarrow> u8 \<Rightarrow> u8" where
  "crtc_regs s v = snd (fold crtc (vga_outs v) s)"

definition hw_cursor :: "crtc_state \<Rightarrow> vga \<Rightarrow> nat" where
  "hw_cursor s v = 256 * unat (crtc_regs s v 0x0E) + unat (crtc_regs s v 0x0F)"

definition cursor_shown :: "crtc_state \<Rightarrow> vga \<Rightarrow> bool" where
  "cursor_shown s v \<longleftrightarrow> hw_cursor s v = unat (vga_cursor v) mod 65536"

lemma vga_outb_simps [simp]: "vga_mem (vga_outb p b v) = vga_mem v" "vga_cursor (vga_outb p b v) = vga_cursor v"
  "vga_color (vga_outb p b v) = vga_color v" "vga_outs (vga_outb p b v) = vga_outs v @ [(p, b)]"
  by (simp_all add: vga_outb_def)

lemma vga_update_cursor_simps [simp]: "vga_mem (vga_update_cursor v) = vga_mem v" "vga_cursor (vga_update_cursor v) = vga_cursor v"
  "vga_color (vga_update_cursor v) = vga_color v"
  by (simp_all add: vga_update_cursor_def Let_def)

lemma vga_update_cursor_shown: "cursor_shown s (vga_update_cursor v)"
proof -
  let ?pos = "ucast (vga_cursor v) :: u16"
  obtain ix regs where s: "fold crtc (vga_outs v) s = (ix, regs)" by (cases "fold crtc (vga_outs v) s")
  have m: "(0xFF :: u16) = mask 8" by (simp add: mask_eq_exp_minus_1)
  have lo: "unat (ucast (?pos AND 0xFF) :: u8) = unat ?pos mod 256"
    unfolding m take_bit_eq_mask [symmetric] unsigned_ucast_eq unsigned_take_bit_eq by (simp add: take_bit_eq_mod unsigned_ucast_eq mod_mod_cancel)
  have pos: "unat ?pos = unat (vga_cursor v) mod 65536" by (simp add: unsigned_ucast_eq take_bit_eq_mod)
  have "unat (vga_cursor v) mod 65536 < 256 * 256" by simp
  then have "unat ?pos div 256 < 256" unfolding pos by (rule less_mult_imp_div_less)
  then have hi: "unat (ucast (drop_bit 8 ?pos AND 0xFF) :: u8) = unat ?pos div 256"
    unfolding m take_bit_eq_mask [symmetric] unsigned_ucast_eq unsigned_take_bit_eq unat_drop_bit_eq
    by (simp add: take_bit_eq_mod drop_bit_eq_div unsigned_ucast_eq)
  then show ?thesis using s lo hi pos
    by (simp add: cursor_shown_def hw_cursor_def crtc_regs_def vga_update_cursor_def Let_def vga_ports)
qed

section \<open>What appears on the screen\<close>

text \<open>From cell \<open>n\<close> on the characters \<open>s\<close> in one colour, and no other byte changed.\<close>

definition vga_at :: "nat \<Rightarrow> u32" where "vga_at i = VGA_ADDRESS + of_nat (2 * i)"

definition painted :: "nat \<Rightarrow> u8 list \<Rightarrow> u8 \<Rightarrow> (u32 \<Rightarrow> u8) \<Rightarrow> (u32 \<Rightarrow> u8) \<Rightarrow> bool" where
  "painted n s col m m' \<longleftrightarrow> (\<forall>i<length s. m' (vga_at (n + i)) = s ! i \<and> m' (vga_at (n + i) + 1) = col) \<and>
     (\<forall>a. (\<forall>i<length s. a \<noteq> vga_at (n + i) \<and> a \<noteq> vga_at (n + i) + 1) \<longrightarrow> m' a = m a)"

text \<open>What the calls of the formatter look like: a new line is made of spaces up to the end of the row.\<close>

fun vga_text :: "emit list \<Rightarrow> nat \<Rightarrow> u8 list" where
  "vga_text [] n = []"
| "vga_text (Putchar c # es) n = c # vga_text es (n + 1)"
| "vga_text (Newline # es) n = replicate (80 - n mod 80) 0x20 @ vga_text es (n + (80 - n mod 80))"

lemma vga_at_unat: "i < 65536 \<Longrightarrow> unat (vga_at i) = 753664 + 2 * i" "i < 65536 \<Longrightarrow> unat (vga_at i + 1) = 753664 + 2 * i + 1"
proof -
  assume i: "i < 65536"
  have "unat (of_nat (2 * i) :: u32) = 2 * i" by (rule unat_of_nat_small) (use i in linarith)
  then have a: "unat (vga_at i) = 753664 + 2 * i"
    unfolding vga_at_def VGA_ADDRESS_def using i by (subst unat_add_small) simp_all
  then show "unat (vga_at i) = 753664 + 2 * i" "unat (vga_at i + 1) = 753664 + 2 * i + 1"
    using i by (simp, subst unat_add_small) simp_all
qed

lemma vga_at_apart: "i < 65536 \<Longrightarrow> j < 65536 \<Longrightarrow> i \<noteq> j \<Longrightarrow>
    vga_at i \<noteq> vga_at j \<and> vga_at i \<noteq> vga_at j + 1 \<and> vga_at i + 1 \<noteq> vga_at j \<and> vga_at i + 1 \<noteq> vga_at j + 1"
  using vga_at_unat [of i] vga_at_unat [of j] by (auto simp: word_unat_eq_iff)

lemma painted_Nil [simp]: "painted n [] col m m"
  by (simp add: painted_def)

lemma painted_append:
  assumes "painted n s col m m1" "painted (n + length s) t col m1 m2" "n + length s + length t \<le> 65536"
  shows "painted n (s @ t) col m m2"
  unfolding painted_def
proof (intro conjI allI impI)
  fix i assume i: "i < length (s @ t)"
  have "m2 (vga_at (n + i)) = (s @ t) ! i \<and> m2 (vga_at (n + i) + 1) = col"
  proof (cases "i < length s")
    case True
    have "vga_at (n + i) \<noteq> vga_at (n + length s + j) \<and> vga_at (n + i) \<noteq> vga_at (n + length s + j) + 1 \<and>
      vga_at (n + i) + 1 \<noteq> vga_at (n + length s + j) \<and> vga_at (n + i) + 1 \<noteq> vga_at (n + length s + j) + 1" if "j < length t" for j
      by (rule vga_at_apart) (use True that assms(3) in linarith)+
    then have "m2 (vga_at (n + i)) = m1 (vga_at (n + i))" "m2 (vga_at (n + i) + 1) = m1 (vga_at (n + i) + 1)"
      using assms(2) unfolding painted_def by blast+
    then show ?thesis using assms(1) True by (simp add: painted_def nth_append)
  next
    case False
    then have "i - length s < length t" "n + length s + (i - length s) = n + i" using i by simp_all
    then show ?thesis using assms(2) False unfolding painted_def by (metis nth_append)
  qed
  then show "m2 (vga_at (n + i)) = (s @ t) ! i" "m2 (vga_at (n + i) + 1) = col" by simp_all
next
  fix a assume a: "\<forall>i<length (s @ t). a \<noteq> vga_at (n + i) \<and> a \<noteq> vga_at (n + i) + 1"
  have "a \<noteq> vga_at (n + length s + j) \<and> a \<noteq> vga_at (n + length s + j) + 1" if "j < length t" for j
    using a [rule_format, of "length s + j"] that by (simp add: add.assoc)
  then have "m2 a = m1 a" using assms(2) unfolding painted_def by blast
  moreover have "m1 a = m a" using a assms(1) unfolding painted_def by simp
  ultimately show "m2 a = m a" by simp
qed

text \<open>A run of the driver that starts at cell \<open>n\<close> and paints \<open>s\<close>.\<close>

definition vga_writes :: "crtc_state \<Rightarrow> vga \<Rightarrow> u8 list \<Rightarrow> vga \<Rightarrow> bool" where
  "vga_writes st v s v' \<longleftrightarrow> painted (unat (vga_cursor v)) s (vga_color v) (vga_mem v) (vga_mem v') \<and>
     unat (vga_cursor v') = unat (vga_cursor v) + length s \<and> vga_color v' = vga_color v \<and> (cursor_shown st v \<longrightarrow> cursor_shown st v')"

lemma vga_writes_refl: "vga_writes st v [] v"
  by (simp add: vga_writes_def)

lemma vga_writes_append:
  assumes "vga_writes st v s v1" "vga_writes st v1 t v2" "unat (vga_cursor v) + length s + length t \<le> 65536"
  shows "vga_writes st v (s @ t) v2"
  using assms painted_append [of "unat (vga_cursor v)" s "vga_color v" "vga_mem v" "vga_mem v1" t "vga_mem v2"]
  by (simp add: vga_writes_def)

lemma vga_writes_update: "vga_writes st v s v' \<Longrightarrow> vga_writes st v s (vga_update_cursor v')"
  by (simp add: vga_writes_def vga_update_cursor_shown)

lemma vga_putchar_writes:
  assumes "unat (vga_cursor v) < 65536"
  shows "vga_writes st v [c] (vga_putchar c v)"
proof -
  let ?n = "unat (vga_cursor v)"
  have a: "VGA_ADDRESS + vga_cursor v * 2 = vga_at ?n" "VGA_ADDRESS + (vga_cursor v * 2 + 1) = vga_at ?n + 1"
    by (simp_all add: vga_at_def)
  have ne: "vga_at ?n + 1 \<noteq> vga_at ?n" by simp
  have "vga_mem (vga_putchar c v) = (vga_mem v)(vga_at ?n := c, vga_at ?n + 1 := vga_color v)"
    by (simp add: vga_putchar_def vga_store_def Let_def add.assoc flip: a)
  then have "painted ?n [c] (vga_color v) (vga_mem v) (vga_mem (vga_putchar c v))" using ne by (simp add: painted_def)
  moreover have "unat (vga_cursor v + 1) = ?n + 1" using assms unat_add_small [of "vga_cursor v" 1] by simp
  ultimately show ?thesis
    by (simp add: vga_writes_def vga_putchar_def Let_def vga_store_def vga_update_cursor_shown)
qed

lemma vga_print_writes:
  "unat (vga_cursor v) + length s \<le> 65536 \<Longrightarrow> vga_writes st v s (vga_put_all s v)"
proof (induction s arbitrary: v)
  case Nil
  then show ?case by (simp add: vga_writes_refl)
next
  case (Cons c s)
  have p: "vga_writes st v [c] (vga_putchar c v)" by (rule vga_putchar_writes) (use Cons.prems in simp)
  then have "unat (vga_cursor (vga_putchar c v)) = unat (vga_cursor v) + 1" by (simp add: vga_writes_def)
  then have "vga_writes st (vga_putchar c v) s (vga_put_all s (vga_putchar c v))" using Cons.IH Cons.prems by simp
  from vga_writes_append [OF p this] Cons.prems show ?case by simp
qed

lemma vga_new_line_writes:
  assumes "unat (vga_cursor v) + (80 - unat (vga_cursor v) mod 80) \<le> 65536"
  shows "vga_writes st v (replicate (80 - unat (vga_cursor v) mod 80) 0x20) (vga_new_line v)"
proof -
  have m: "unat (vga_cursor v mod VGA_COLS) = unat (vga_cursor v) mod 80" by (simp add: VGA_COLS_def unat_mod_distrib)
  have "unat (vga_cursor v) mod 80 < 80" by simp
  then have "vga_cursor v mod VGA_COLS \<le> VGA_COLS" using m by (simp add: word_le_nat_alt VGA_COLS_def)
  then have "unat (VGA_COLS - vga_cursor v mod VGA_COLS) = 80 - unat (vga_cursor v) mod 80"
    using m by (simp add: unat_sub) (simp add: VGA_COLS_def)
  then show ?thesis unfolding vga_new_line_def Let_def
    by (intro vga_writes_update) (use vga_print_writes assms in simp)
qed

lemma vga_emits_writes:
  "unat (vga_cursor v) + length (vga_text es (unat (vga_cursor v))) \<le> 65536 \<Longrightarrow>
     vga_writes st v (vga_text es (unat (vga_cursor v))) (vga_emits es v)"
proof (induction es arbitrary: v)
  case Nil
  then show ?case by (simp add: vga_writes_refl)
next
  case (Cons e es)
  let ?s = "case e of Putchar c \<Rightarrow> [c] | Newline \<Rightarrow> replicate (80 - unat (vga_cursor v) mod 80) 0x20"
  let ?v = "case e of Putchar c \<Rightarrow> vga_putchar c v | Newline \<Rightarrow> vga_new_line v"
  let ?t = "vga_text es (unat (vga_cursor v) + length ?s)"
  have t: "vga_text (e # es) (unat (vga_cursor v)) = ?s @ ?t" by (cases e) simp_all
  have b: "unat (vga_cursor v) + length ?s + length ?t \<le> 65536" using Cons.prems unfolding t by simp
  have s: "vga_writes st v ?s ?v"
  proof (cases e)
    case (Putchar c)
    then show ?thesis using vga_putchar_writes [of v st c] b by simp
  next
    case Newline
    then show ?thesis using vga_new_line_writes [of v st] b by simp
  qed
  then have n: "unat (vga_cursor ?v) = unat (vga_cursor v) + length ?s" by (simp add: vga_writes_def)
  have "vga_writes st ?v ?t (vga_emits es ?v)" using Cons.IH [of ?v] b unfolding n by simp
  from vga_writes_append [OF s this b] show ?case unfolding t by (cases e) simp_all
qed

section \<open>Erasing\<close>

lemma vga_backspace_result:
  assumes "0 < unat (vga_cursor v)" "unat (vga_cursor v) < 65536"
  shows "painted (unat (vga_cursor v) - 1) [0x20] (vga_color v) (vga_mem v) (vga_mem (vga_backspace v)) \<and>
    unat (vga_cursor (vga_backspace v)) = unat (vga_cursor v) - 1 \<and> cursor_shown st (vga_backspace v)"
proof -
  let ?v = "v\<lparr>vga_cursor := vga_cursor v - 1\<rparr>"
  have pos: "vga_cursor v > 0" using assms(1) by (simp add: word_less_nat_alt)
  have n: "unat (vga_cursor ?v) = unat (vga_cursor v) - 1" using assms(1) by (simp add: unat_sub word_le_nat_alt Suc_le_eq)
  have w: "vga_writes st ?v [0x20] (vga_putchar 0x20 ?v)" by (rule vga_putchar_writes) (use n assms(2) in linarith)
  have c: "vga_cursor (vga_putchar 0x20 ?v) - 1 = vga_cursor v - 1" by (simp add: vga_putchar_def Let_def vga_store_def)
  show ?thesis using w pos n c by (simp add: vga_backspace_def vga_writes_def Let_def vga_update_cursor_shown)
qed

lemma vga_backspace_start: "vga_cursor v = 0 \<Longrightarrow> vga_mem (vga_backspace v) = vga_mem v \<and> vga_cursor (vga_backspace v) = 0"
  by (simp add: vga_backspace_def)

text \<open>Clearing blanks every cell.\<close>

lemma vga_fill_result:
  "k + n \<le> 65536 \<Longrightarrow> painted k (replicate n 0x20) attr (vga_mem v) (vga_mem (vga_fill n (of_nat (2 * k)) attr v))"
proof (induction n arbitrary: k v)
  case (Suc n)
  let ?v = "vga_store (of_nat (2 * k) + 1) attr (vga_store (of_nat (2 * k)) 0x20 v)"
  have "vga_mem ?v = (vga_mem v)(vga_at k := 0x20, vga_at k + 1 := attr)" by (simp add: vga_store_def vga_at_def add.assoc)
  then have a: "painted k [0x20] attr (vga_mem v) (vga_mem ?v)" by (simp add: painted_def)
  have "painted (k + 1) (replicate n 0x20) attr (vga_mem ?v) (vga_mem (vga_fill n (of_nat (2 * (k + 1))) attr ?v))"
    by (rule Suc.IH) (use Suc.prems in simp)
  then have "painted (k + length [0x20 :: u8]) (replicate n 0x20) attr (vga_mem ?v) (vga_mem (vga_fill n (of_nat (2 * k) + 2) attr ?v))"
    by (simp add: add.commute)
  from painted_append [OF a this] Suc.prems show ?case by simp
qed simp

lemma vga_cclear_result:
  "painted 0 (replicate 2000 0x20) (push_bit 4 color) (vga_mem v) (vga_mem (vga_cclear color v)) \<and>
     vga_cursor (vga_cclear color v) = 0 \<and> cursor_shown st (vga_cclear color v)"
  using vga_fill_result [of 0 2000 "push_bit 4 color" v] by (simp add: vga_cclear_def vga_update_cursor_shown)

lemma vga_clear_is: "vga_clear v = vga_cclear 0 v"
  by (simp add: vga_clear_def vga_cclear_def)

text \<open>The two halves of the colour are set apart from each other.\<close>

lemma vga_colors: "vga_color (vga_setforeground_color f (vga_setbackground_color b v)) =
    vga_color (vga_setbackground_color b (vga_setforeground_color f v))"
proof -
  have m: "(0x0F :: u8) = mask 4" "(0xF0 :: u8) = push_bit 4 (mask 4)" by (simp_all add: mask_eq_exp_minus_1 push_bit_eq_mult)
  show ?thesis unfolding vga_setforeground_color_def vga_setbackground_color_def m by (auto simp: bit_eq_iff bit_simps)
qed

section \<open>A formatted message\<close>

lemma painted_on_screen:
  assumes "painted n s col m m'" "n + length s \<le> 2000" "unat a < 753664 \<or> 757664 \<le> unat a"
  shows "m' a = m a"
proof -
  have "a \<noteq> vga_at (n + i) \<and> a \<noteq> vga_at (n + i) + 1" if "i < length s" for i
    using vga_at_unat [of "n + i"] that assms(2,3) by auto
  then show ?thesis using assms(1) unfolding painted_def by blast
qed

text \<open>
  C40. What a formatted message puts on the text screen: its characters in the current colour from the cursor on, with a new
  line made of spaces, and not a byte elsewhere; the cursor is behind it, and the controller shows it there. As long as
  the message ends on the screen only the 4000 bytes of the screen change. (A longer one runs on behind it: nothing
  scrolls.) A null pointer for the format does nothing.
\<close>

theorem vga_printf_screen:
  assumes "kvprintf_to fmt args = Inr es" "cursor_shown st v"
    and "unat (vga_cursor v) + length (vga_text es (unat (vga_cursor v))) < 65536"
  shows "vga_printf None args v = Inr v \<and> (\<exists>v'. vga_printf (Some fmt) args v = Inr v' \<and>
    painted (unat (vga_cursor v)) (vga_text es (unat (vga_cursor v))) (vga_color v) (vga_mem v) (vga_mem v') \<and>
    unat (vga_cursor v') = unat (vga_cursor v) + length (vga_text es (unat (vga_cursor v))) \<and> vga_color v' = vga_color v \<and>
    hw_cursor st v' = unat (vga_cursor v') \<and>
    (unat (vga_cursor v') \<le> 2000 \<longrightarrow> (\<forall>a. unat a < 0xB8000 \<or> 0xB8FA0 \<le> unat a \<longrightarrow> vga_mem v' a = vga_mem v a)))"
proof -
  let ?s = "vga_text es (unat (vga_cursor v))" and ?v = "vga_emits es v"
  have w: "vga_writes st v ?s ?v" using vga_emits_writes [of v es st] assms(3) by simp
  then have p: "painted (unat (vga_cursor v)) ?s (vga_color v) (vga_mem v) (vga_mem ?v)"
    "unat (vga_cursor ?v) = unat (vga_cursor v) + length ?s" by (simp_all add: vga_writes_def)
  have "\<forall>a. unat a < 0xB8000 \<or> 0xB8FA0 \<le> unat a \<longrightarrow> vga_mem ?v a = vga_mem v a" if "unat (vga_cursor ?v) \<le> 2000"
    using painted_on_screen [OF p(1)] that p(2) by simp
  then show ?thesis using assms w p by (simp add: vga_printf_def vga_vprintf_def vga_writes_def cursor_shown_def)
qed

text \<open>The format \<open>a\n\%d\<close> at the end of a row: the second line starts a row later.\<close>

definition vga_demo :: vga where "vga_demo = \<lparr>vga_mem = (\<lambda>_. 0), vga_cursor = 78, vga_color = 0x0F, vga_outs = [(0x3D4, 0x0F), (0x3D5, 78)]\<rparr>"

theorem vga_printf_screen_witness:
  "\<exists>v'. vga_printf (Some [0x61, 0x0A, 0x25, 0x64]) [VaInt 7] vga_demo = Inr v' \<and> vga_cursor v' = 81 \<and> vga_mem v' 0xB80A0 = 0x37 \<and>
    hw_cursor (0, \<lambda>_. 0) v' = 81"
proof -
  have f: "kvprintf_to [0x61, 0x0A, 0x25, 0x64] [VaInt 7] = Inr [Putchar 0x61, Newline, Putchar 0x37]"
    by (simp add: emit_d_def chr_def)
  have c: "cursor_shown (0, \<lambda>_. 0) vga_demo"
    by (simp add: cursor_shown_def hw_cursor_def crtc_regs_def vga_demo_def vga_ports)
  have t: "vga_text [Putchar 0x61, Newline, Putchar 0x37] (unat (vga_cursor vga_demo)) = [0x61, 0x20, 0x37]"
    by (simp add: vga_demo_def)
  obtain v' where v: "vga_printf (Some [0x61, 0x0A, 0x25, 0x64]) [VaInt 7] vga_demo = Inr v'"
    "painted 78 [0x61, 0x20, 0x37] 0x0F (vga_mem vga_demo) (vga_mem v')" "unat (vga_cursor v') = 81" "hw_cursor (0, \<lambda>_. 0) v' = 81"
    using vga_printf_screen [OF f c, unfolded t] by (auto simp: vga_demo_def)
  have "vga_mem v' (vga_at (78 + 2)) = 0x37" using v(2) unfolding painted_def by (auto simp: numeral_2_eq_2)
  moreover have "vga_at (78 + 2) = 0xB80A0" by (simp add: vga_at_def VGA_ADDRESS_def)
  moreover have "vga_cursor v' = 81" using v(3) by (simp add: word_unat_eq_iff)
  ultimately show ?thesis using v(1,4) by auto
qed

end
