(* ===== verification/Pages.thy ===== *)
theory Pages
  imports Proc
begin

text \<open>
  A frame taken and mapped for user code, as the loader, \<open>proc_create\<close>, \<open>sbrk\<close> and \<open>mmap\<close> all do, and the
  bytes of a page as the processor finds them: through the page walk and the frame it leads to.
\<close>

section \<open>Taking and mapping a frame\<close>

text \<open>The two calls \<open>mm_alloc_frame\<close> and \<open>mm_paging_map\<close> that stand together wherever user memory grows.\<close>

definition map_new_page :: "paging \<Rightarrow> u32 \<Rightarrow> u32 \<Rightarrow> (u32 \<times> paging) res" where
  "map_new_page pg pd va =
     and_then (fa_alloc (pg_frames pg)) (\<lambda>(frame, fr).
     and_then (paging_map (pg\<lparr>pg_frames := fr\<rparr>) pd frame va PROC_USER_FLAGS) (\<lambda>pg1. Inr (frame, pg1)))"

text \<open>Every page table of the user half of a space may be used by user code.\<close>

definition user_tables :: "paging \<Rightarrow> nat \<Rightarrow> bool" where
  "user_tables pg d \<longleftrightarrow> (\<forall>i<768. pg_mem pg (slot d i) \<noteq> 0 \<longrightarrow> bit (pg_mem pg (slot d i)) 2)"

lemma user_flags [simp]: "bit PROC_USER_FLAGS 0" "bit PROC_USER_FLAGS 2"
  unfolding PROC_USER_FLAGS_def by code_simp+

lemma frames_bound: "fa_ok fa \<Longrightarrow> n \<in> free_frames fa \<Longrightarrow> n < 1048576"
  using fs.avail_bound fs.total_bound by (meson order_less_le_trans)

lemma spaces_take_frame:
  assumes "spaces pg D" "fa_alloc (pg_frames pg) = Inr (frame, fr)"
  obtains n where "n \<in> free_frames (pg_frames pg)" "frame = frame_addr n" "n < 1048576"
    "free_frames fr = free_frames (pg_frames pg) - {n}" "length (fa_bitmap fr) = length (fa_bitmap (pg_frames pg))"
    "spaces (pg\<lparr>pg_frames := fr\<rparr>) D"
proof -
  from fs.alloc_law [OF spacesD(2) [OF assms(1)] assms(2)] obtain n where n: "n \<in> free_frames (pg_frames pg)"
    "frame = frame_addr n" "free_frames fr = free_frames (pg_frames pg) - {n}" "fa_ok fr"
    "length (fa_bitmap fr) = length (fa_bitmap (pg_frames pg))"
    by (auto simp: frame_addr_def)
  moreover have "n < 1048576" using frames_bound [OF spacesD(2) [OF assms(1)] n(1)] .
  moreover have "spaces (pg\<lparr>pg_frames := fr\<rparr>) D"
    using assms(1) n(3,4) unfolding spaces_def by auto
  ultimately show ?thesis using that by blast
qed

lemma translate_present: "translate m (frame_addr d) va \<noteq> None \<Longrightarrow> m (slot d (pd_index va)) \<noteq> 0"
  by (auto simp: translate_slots Let_def split: if_splits)

text \<open>A frame that belongs to pages: neither a directory nor a table of one.\<close>

definition data_frame :: "paging \<Rightarrow> nat set \<Rightarrow> nat \<Rightarrow> bool" where
  "data_frame pg D f \<longleftrightarrow> f \<notin> D \<and> f < 8 * length (fa_bitmap (pg_frames pg)) \<and>
     (\<forall>d\<in>D. \<forall>i<1024. pg_mem pg (slot d i) \<noteq> 0 \<longrightarrow> entry_frame (pg_mem pg (slot d i)) \<noteq> f)"

lemma with_table_frames:
  assumes "spaces pg D" "with_table pg d i flags = Inr pg1"
  shows "length (fa_bitmap (pg_frames pg1)) = length (fa_bitmap (pg_frames pg))"
    and "pg_mem pg (slot d i) = 0 \<longrightarrow> entry_frame (pg_mem pg1 (slot d i)) \<in> free_frames (pg_frames pg)"
proof -
  have "length (fa_bitmap (pg_frames pg1)) = length (fa_bitmap (pg_frames pg)) \<and>
    (pg_mem pg (slot d i) = 0 \<longrightarrow> entry_frame (pg_mem pg1 (slot d i)) \<in> free_frames (pg_frames pg))"
  proof (cases "pg_mem pg (slot d i) = 0")
    case True
    then obtain frame fr where a: "fa_alloc (pg_frames pg) = Inr (frame, fr)"
      and pg1: "pg1 = pg\<lparr>pg_mem := (pg_mem pg)(slot d i := frame OR ucast flags), pg_frames := fr\<rparr>"
      using assms(2) by (auto simp: with_table_def split: sum.splits)
    obtain n where "n \<in> free_frames (pg_frames pg)" "frame = frame_addr n" "n < 1048576"
      "length (fa_bitmap fr) = length (fa_bitmap (pg_frames pg))"
      using spaces_take_frame [OF assms(1) a] .
    then show ?thesis by (simp add: pg1 entry_frame_flags)
  qed (use assms(2) in \<open>simp add: with_table_def\<close>)
  then show "length (fa_bitmap (pg_frames pg1)) = length (fa_bitmap (pg_frames pg))"
    "pg_mem pg (slot d i) = 0 \<longrightarrow> entry_frame (pg_mem pg1 (slot d i)) \<in> free_frames (pg_frames pg)" by blast+
qed

lemma map_new_page_result:
  assumes sp: "spaces pg D" and d: "d \<in> D" and r: "map_new_page pg (PHYS_TO_VIRT (frame_addr d)) va = Inr (frame, pg')"
  obtains n where "frame = frame_addr n" "n \<in> free_frames (pg_frames pg)" "n < 1048576"
    "free_frames (pg_frames pg') \<subseteq> free_frames (pg_frames pg) - {n}" "spaces pg' D"
    "\<And>vb. drop_bit 12 vb = drop_bit 12 va \<Longrightarrow> \<exists>acc. translate (pg_mem pg') (frame_addr d) vb =
       Some (frame_addr n OR (vb AND 0xFFF), acc) \<and> (user_tables pg d \<and> unat va < 0xC0000000 \<longrightarrow> acc)"
    "\<And>e vb. e \<in> D \<Longrightarrow> drop_bit 12 vb \<noteq> drop_bit 12 va \<or> (e \<noteq> d \<and> unat vb < 0xC0000000) \<Longrightarrow>
       translate (pg_mem pg) (frame_addr e) vb \<noteq> None \<Longrightarrow>
       translate (pg_mem pg') (frame_addr e) vb = translate (pg_mem pg) (frame_addr e) vb"
    "user_tables pg d \<Longrightarrow> user_tables pg' d" "kernel_pd pg' = kernel_pd pg" "pg_cr3 pg' = pg_cr3 pg"
    "\<And>e vb. e \<in> D \<Longrightarrow> e \<noteq> d \<Longrightarrow> unat vb < 0xC0000000 \<Longrightarrow>
       translate (pg_mem pg') (frame_addr e) vb = translate (pg_mem pg) (frame_addr e) vb"
    "data_frame pg' D n" "\<And>f. f \<notin> free_frames (pg_frames pg) \<Longrightarrow> data_frame pg D f \<Longrightarrow> data_frame pg' D f"
proof -
  from r obtain fr where a: "fa_alloc (pg_frames pg) = Inr (frame, fr)"
    and m: "paging_map (pg\<lparr>pg_frames := fr\<rparr>) (PHYS_TO_VIRT (frame_addr d)) frame va PROC_USER_FLAGS = Inr pg'"
    by (auto simp: map_new_page_def and_then_Inr)
  obtain n where n: "n \<in> free_frames (pg_frames pg)" "frame = frame_addr n" "n < 1048576"
    "free_frames fr = free_frames (pg_frames pg) - {n}" "length (fa_bitmap fr) = length (fa_bitmap (pg_frames pg))"
    and sp1: "spaces (pg\<lparr>pg_frames := fr\<rparr>) D"
    using spaces_take_frame [OF sp a] .
  have al: "frame AND 0xFFF = 0" unfolding n(2) by (rule frame_addr_aligned)
  note walk = paging_map_walk [OF sp1 d user_flags(1) al m]
  note oth = paging_map_others [OF sp1 d user_flags(1) al m]
  obtain pg1 where w: "with_table (pg\<lparr>pg_frames := fr\<rparr>) d (pd_index va) PROC_USER_FLAGS = Inr pg1"
    and pg': "pg' = pg1\<lparr>pg_mem := (pg_mem pg1)(slot (entry_frame (pg_mem pg1 (slot d (pd_index va))))
       (pt_index va) := frame OR ucast PROC_USER_FLAGS)\<rparr>"
    and same: "\<And>d' i. d' \<in> D \<Longrightarrow> i < 1024 \<Longrightarrow> pg_mem pg' (slot d' i) = pg_mem pg1 (slot d' i)"
    by (rule paging_map_result [OF sp1 d user_flags(1) al m]) blast
  note wt = with_table_result [OF sp1 d pd_index_bound user_flags(1) w]
  have fewer: "free_frames (pg_frames pg') \<subseteq> free_frames (pg_frames pg) - {n}"
    using wt(3) n(4) by (simp add: pg')
  have regs: "kernel_pd pg' = kernel_pd pg" "pg_cr3 pg' = pg_cr3 pg"
    using w by (auto simp: pg' with_table_def split: if_splits sum.splits)
  have ut: "user_tables pg' d" if u: "user_tables pg d"
    unfolding user_tables_def
  proof (intro allI impI)
    fix i :: nat assume i: "i < 768" and nz: "pg_mem pg' (slot d i) \<noteq> 0"
    have e: "pg_mem pg' (slot d i) = pg_mem pg1 (slot d i)" using same [OF d] i by simp
    show "bit (pg_mem pg' (slot d i)) 2"
    proof (cases "i = pd_index va \<and> pg_mem pg (slot d i) = 0")
      case True
      then have "pg_mem (pg\<lparr>pg_frames := fr\<rparr>) (slot d (pd_index va)) = 0" by auto
      from wt(6) [rule_format, OF this user_flags(2)] show ?thesis using e True by simp
    next
      case False
      have "pg_mem pg1 (slot d i) = pg_mem pg (slot d i)"
        using False wt(4,5) slot_inj [of d d i "pd_index va"] spacesD(3) [OF sp d] i by auto
      then show ?thesis using u nz i e by (simp add: user_tables_def)
    qed
  qed
  have low: "pd_index va < 768" if "unat va < 0xC0000000" using that pd_index_half by simp
  have tr: "\<exists>acc. translate (pg_mem pg') (frame_addr d) vb = Some (frame_addr n OR (vb AND 0xFFF), acc) \<and>
      (user_tables pg d \<and> unat va < 0xC0000000 \<longrightarrow> acc)"
    if "drop_bit 12 vb = drop_bit 12 va" for vb
  proof -
    have nz: "pg_mem pg' (slot d (pd_index va)) \<noteq> 0" using wt(2) same [OF d pd_index_bound] by simp
    have "bit (pg_mem pg' (slot d (pd_index va))) 2" if "user_tables pg d" "unat va < 0xC0000000"
      using ut [OF that(1)] low [OF that(2)] nz by (simp add: user_tables_def)
    then show ?thesis using walk [OF that] user_flags(2) n(2) by auto
  qed
  have others: "translate (pg_mem pg') (frame_addr e) vb = translate (pg_mem pg) (frame_addr e) vb"
    if "e \<in> D" "drop_bit 12 vb \<noteq> drop_bit 12 va \<or> (e \<noteq> d \<and> unat vb < 0xC0000000)"
      "translate (pg_mem pg) (frame_addr e) vb \<noteq> None" for e vb
    using oth [OF that(1) _ that(2)] translate_present [OF that(3)] by auto
  have isolated: "translate (pg_mem pg') (frame_addr e) vb = translate (pg_mem pg) (frame_addr e) vb"
    if "e \<in> D" "e \<noteq> d" "unat vb < 0xC0000000" for e vb
    using oth [OF that(1)] that by simp
  have len: "length (fa_bitmap (pg_frames pg')) = length (fa_bitmap (pg_frames pg))"
    using with_table_frames(1) [OF sp1 w] n(5) by (simp add: pg')
  have new: "entry_frame (pg_mem pg' (slot e i)) \<noteq> f"
    if f: "f \<notin> free_frames fr" and old: "\<And>e i. e \<in> D \<Longrightarrow> i < 1024 \<Longrightarrow> pg_mem pg (slot e i) \<noteq> 0 \<Longrightarrow>
        entry_frame (pg_mem pg (slot e i)) \<noteq> f"
      and e: "e \<in> D" "i < 1024" "pg_mem pg' (slot e i) \<noteq> 0" for f e i
  proof (cases "slot e i = slot d (pd_index va) \<and> pg_mem pg (slot d (pd_index va)) = 0")
    case True
    then show ?thesis using with_table_frames(2) [OF sp1 w] same [OF e(1,2)] f by auto
  next
    case False
    then have "pg_mem pg' (slot e i) = pg_mem pg (slot e i)" using wt(4,5) same [OF e(1,2)] by auto
    then show ?thesis using old [OF e(1,2)] e(3) by simp
  qed
  have data: "data_frame pg' D n"
  proof -
    have "n \<notin> D" using spacesD(4) [OF sp] n(1) by blast
    moreover have "entry_frame (pg_mem pg (slot e i)) \<noteq> n" if "e \<in> D" "i < 1024" "pg_mem pg (slot e i) \<noteq> 0" for e i
      using spacesD(7) [OF sp that] n(1) by auto
    moreover have "n < 8 * length (fa_bitmap (pg_frames pg))"
      using fs.avail_bound [OF spacesD(2) [OF sp] n(1)] .
    ultimately show ?thesis using new [of n] n(4) len by (simp add: data_frame_def)
  qed
  have keep: "data_frame pg' D f" if "f \<notin> free_frames (pg_frames pg)" "data_frame pg D f" for f
    using that new [of f] n(4) len by (simp add: data_frame_def)
  show ?thesis using that [OF n(2,1,3) fewer _ tr others ut regs isolated data keep] walk [OF refl] by blast
qed

section \<open>The bytes of a page\<close>

lemma store_bytes_read:
  assumes "length bs \<le> 4294967296"
  shows "store_bytes m a bs b = (if unat (b - a) < length bs then bs ! unat (b - a) else m b)"
  using assms
proof (induction bs arbitrary: m a)
  case (Cons x bs)
  have ih: "store_bytes (m(a := x)) (a + 1) bs b =
      (if unat (b - (a + 1)) < length bs then bs ! unat (b - (a + 1)) else (m(a := x)) b)"
    using Cons by simp
  show ?case
  proof (cases "b = a")
    case True
    then have "b - (a + 1) = - 1" by simp
    then have "unat (b - (a + 1)) = 4294967295" by (simp add: unsigned_minus_1_eq_mask mask_eq_exp_minus_1)
    then show ?thesis using ih Cons.prems True by simp
  next
    case False
    then have "b - a \<noteq> 0" by simp
    then have "unat (b - (a + 1)) = unat (b - a) - 1" "unat (b - a) \<noteq> 0"
      using unat_minus_one [of "b - a"] by (simp_all add: diff_diff_eq unat_eq_zero)
    then show ?thesis using ih False by (auto simp: nth_Cons')
  qed
qed simp

lemma frame_offset:
  "frame_addr n OR (va AND 0xFFF) = frame_addr n + (va AND 0xFFF)"
  by (rule disjunctive_add_eq_or [symmetric])
    (rule bit_word_eqI, auto simp: frame_addr_shift page_offset_mask bit_simps)

lemma unat_page_offset: "unat (va AND 0xFFF :: u32) < 4096"
proof -
  have "unat (take_bit 12 va) < 2 ^ 12" by (simp only: unsigned_take_bit_eq take_bit_nat_less_exp)
  then show ?thesis by (simp add: page_offset_mask take_bit_eq_mask)
qed

lemma entry_frame_offset:
  assumes "n < 1048576"
  shows "entry_frame (frame_addr n + (va AND 0xFFF)) = n"
proof -
  have "n * 4096 < 4294967296" using assms by simp
  then have f: "unat (frame_addr n) = n * 4096" by (simp only: frame_addr_def unat_of_nat_small)
  have "unat (frame_addr n) + unat (va AND 0xFFF) < 4294967296" using f unat_page_offset [of va] assms by linarith
  then have "unat (frame_addr n + (va AND 0xFFF)) = n * 4096 + unat (va AND 0xFFF)"
    using f by (simp only: unat_add_small)
  then show ?thesis using unat_page_offset [of va] by (simp add: entry_frame_def drop_bit_eq_div unat_div)
qed

text \<open>Where a byte of page \<open>f\<close> is in page \<open>n\<close>.\<close>

lemma frame_diff:
  assumes "n < 1048576" "f < 1048576"
  shows "unat (frame_addr f + (va AND 0xFFF) - frame_addr n) < 4096 \<longleftrightarrow> f = n"
proof
  let ?diff = "frame_addr f + (va AND 0xFFF) - frame_addr n"
  assume small: "unat ?diff < 4096"
  have "take_bit 12 ?diff = ?diff"
    by (rule unat_eq_imp) (use small in \<open>simp add: unsigned_take_bit_eq take_bit_nat_eq_self\<close>)
  then have "?diff = ?diff AND 0xFFF" by (simp only: page_offset_mask take_bit_eq_mask)
  then have "frame_addr f + (va AND 0xFFF) = frame_addr n + (?diff AND 0xFFF)" by simp
  then show "f = n" using entry_frame_offset [OF assms(2), of va] entry_frame_offset [OF assms(1), of ?diff] by simp
qed (simp add: unat_page_offset)

text \<open>A page stored in a frame through the direct map: that frame holds it and the others are as before.\<close>

lemma frame_store:
  assumes "n < 1048576" "f < 1048576" "length bs = 4096"
  shows "store_bytes m (PHYS_TO_VIRT (frame_addr n)) bs (PHYS_TO_VIRT (frame_addr f OR (va AND 0xFFF))) =
    (if f = n then bs ! unat (va AND 0xFFF) else m (PHYS_TO_VIRT (frame_addr f OR (va AND 0xFFF))))"
proof -
  have "PHYS_TO_VIRT (frame_addr f + (va AND 0xFFF)) - PHYS_TO_VIRT (frame_addr n) =
      frame_addr f + (va AND 0xFFF) - frame_addr n"
    by (simp add: PHYS_TO_VIRT_def)
  then show ?thesis using frame_diff [OF assms(1,2), of va] assms(3) by (simp add: store_bytes_read frame_offset)
      (auto simp: PHYS_TO_VIRT_def)
qed

text \<open>And a page stored at its own address.\<close>

lemma page_store:
  assumes "length bs = 4096"
  shows "store_bytes m (va AND 0xFFFFF000) bs vb =
    (if entry_frame vb = entry_frame va then bs ! unat (vb AND 0xFFF) else m vb)"
proof -
  have split: "vb = frame_addr (entry_frame vb) + (vb AND 0xFFF)" by (simp only: frame_offset [symmetric] addr_split)
  have iff: "unat (vb - frame_addr (entry_frame va)) < 4096 \<longleftrightarrow> entry_frame vb = entry_frame va"
    using frame_diff [of "entry_frame va" "entry_frame vb" vb] split by simp
  have same: "vb - frame_addr (entry_frame va) = vb AND 0xFFF" if "entry_frame vb = entry_frame va"
    using split that by (metis add_diff_cancel_left')
  show ?thesis unfolding entry_base using iff same assms by (simp add: store_bytes_read)
qed

section \<open>Pages of a space\<close>

text \<open>
  Page \<open>v\<close> of the space whose directory is in frame \<open>d\<close> holds \<open>bs\<close>: every address of it leads, for user
  code too, to the same place of a frame that is not free, and the byte there is the one of \<open>bs\<close>.
\<close>

definition page_maps :: "paging \<Rightarrow> nat \<Rightarrow> nat \<Rightarrow> nat \<Rightarrow> bool" where
  "page_maps pg d v f \<longleftrightarrow> f < 1048576 \<and> f \<notin> free_frames (pg_frames pg) \<and>
     (\<forall>va. entry_frame va = v \<longrightarrow> translate (pg_mem pg) (frame_addr d) va = Some (frame_addr f OR (va AND 0xFFF), True))"

definition page_at :: "kstate \<Rightarrow> nat \<Rightarrow> nat \<Rightarrow> u8 list \<Rightarrow> bool" where
  "page_at k d v bs \<longleftrightarrow> (\<exists>f. page_maps (vmm k) d v f \<and>
     (\<forall>va. entry_frame va = v \<longrightarrow> kbytes k (PHYS_TO_VIRT (frame_addr f OR (va AND 0xFFF))) = bs ! unat (va AND 0xFFF)) \<and>
     (\<forall>va. entry_frame va = v \<longrightarrow> ubytes k (PHYS_TO_VIRT (frame_addr d)) va = bs ! unat (va AND 0xFFF)))"

lemma map_new_page_maps:
  assumes sp: "spaces pg D" and d: "d \<in> D" and u: "user_tables pg d" and low: "unat va < 0xC0000000"
    and r: "map_new_page pg (PHYS_TO_VIRT (frame_addr d)) va = Inr (frame, pg')"
  obtains n where "frame = frame_addr n" "n \<in> free_frames (pg_frames pg)" "spaces pg' D" "user_tables pg' d"
    "page_maps pg' d (entry_frame va) n"
    "\<And>v f. v \<noteq> entry_frame va \<Longrightarrow> page_maps pg d v f \<Longrightarrow> page_maps pg' d v f"
    "free_frames (pg_frames pg') \<subseteq> free_frames (pg_frames pg) - {n}"
    "kernel_pd pg' = kernel_pd pg" "pg_cr3 pg' = pg_cr3 pg"
    "\<And>e vb. e \<in> D \<Longrightarrow> e \<noteq> d \<Longrightarrow> unat vb < 0xC0000000 \<Longrightarrow>
       translate (pg_mem pg') (frame_addr e) vb = translate (pg_mem pg) (frame_addr e) vb"
    "data_frame pg' D n" "\<And>f. f \<notin> free_frames (pg_frames pg) \<Longrightarrow> data_frame pg D f \<Longrightarrow> data_frame pg' D f"
proof -
  obtain n where n: "frame = frame_addr n" "n \<in> free_frames (pg_frames pg)" "n < 1048576"
    "free_frames (pg_frames pg') \<subseteq> free_frames (pg_frames pg) - {n}" "spaces pg' D"
    "\<And>vb. drop_bit 12 vb = drop_bit 12 va \<Longrightarrow> \<exists>acc. translate (pg_mem pg') (frame_addr d) vb =
       Some (frame_addr n OR (vb AND 0xFFF), acc) \<and> (user_tables pg d \<and> unat va < 0xC0000000 \<longrightarrow> acc)"
    "\<And>e vb. e \<in> D \<Longrightarrow> drop_bit 12 vb \<noteq> drop_bit 12 va \<or> (e \<noteq> d \<and> unat vb < 0xC0000000) \<Longrightarrow>
       translate (pg_mem pg) (frame_addr e) vb \<noteq> None \<Longrightarrow>
       translate (pg_mem pg') (frame_addr e) vb = translate (pg_mem pg) (frame_addr e) vb"
    "user_tables pg d \<Longrightarrow> user_tables pg' d" "kernel_pd pg' = kernel_pd pg" "pg_cr3 pg' = pg_cr3 pg"
    "\<And>e vb. e \<in> D \<Longrightarrow> e \<noteq> d \<Longrightarrow> unat vb < 0xC0000000 \<Longrightarrow>
       translate (pg_mem pg') (frame_addr e) vb = translate (pg_mem pg) (frame_addr e) vb"
    "data_frame pg' D n" "\<And>f. f \<notin> free_frames (pg_frames pg) \<Longrightarrow> data_frame pg D f \<Longrightarrow> data_frame pg' D f"
    by (rule map_new_page_result [OF sp d r]) (rule that; assumption)
  have "page_maps pg' d (entry_frame va) n"
    unfolding page_maps_def
  proof (intro conjI allI impI)
    fix vb assume "entry_frame vb = entry_frame va"
    then show "translate (pg_mem pg') (frame_addr d) vb = Some (frame_addr n OR (vb AND 0xFFF), True)"
      using n(6) [of vb] u low by (auto simp: entry_frame_inj)
  qed (use n(3,4) in auto)
  moreover have "page_maps pg' d v f" if "v \<noteq> entry_frame va" "page_maps pg d v f" for v f
    using that n(4,7) d by (fastforce simp: page_maps_def entry_frame_inj)
  ultimately show ?thesis using that [OF n(1,2,5) n(8) [OF u] _ _ n(4,9,10,11,12,13)] by blast
qed

section \<open>Enough frames\<close>

lemma free_frames_finite: "fa_ok fa \<Longrightarrow> finite (free_frames fa)"
  by (rule fs.avail_finite)

lemma fa_alloc_total:
  assumes "spaces pg D" "0 < card (free_frames (pg_frames pg))"
  shows "\<exists>frame fr. fa_alloc (pg_frames pg) = Inr (frame, fr) \<and> spaces (pg\<lparr>pg_frames := fr\<rparr>) D \<and>
    card (free_frames fr) = card (free_frames (pg_frames pg)) - 1"
proof -
  have ok: "fa_ok (pg_frames pg)" by (rule spacesD(2) [OF assms(1)])
  have "free_frames (pg_frames pg) \<noteq> {}" using assms(2) by auto
  then obtain frame fr where a: "fa_alloc (pg_frames pg) = Inr (frame, fr)" using fs.alloc_total [OF ok] by blast
  obtain n where "n \<in> free_frames (pg_frames pg)" "free_frames fr = free_frames (pg_frames pg) - {n}"
    "spaces (pg\<lparr>pg_frames := fr\<rparr>) D"
    using spaces_take_frame [OF assms(1) a] .
  then show ?thesis using a free_frames_finite [OF ok] by (intro exI [of _ frame] exI [of _ fr]) simp
qed

text \<open>A page takes at most two frames, one for itself and one for a table.\<close>

lemma map_new_page_total:
  assumes sp: "spaces pg D" and d: "d \<in> D" and c: "2 \<le> card (free_frames (pg_frames pg))"
  shows "\<exists>frame pg'. map_new_page pg (PHYS_TO_VIRT (frame_addr d)) va = Inr (frame, pg') \<and>
    card (free_frames (pg_frames pg)) \<le> card (free_frames (pg_frames pg')) + 2"
proof -
  obtain frame fr where a: "fa_alloc (pg_frames pg) = Inr (frame, fr)" "spaces (pg\<lparr>pg_frames := fr\<rparr>) D"
    "card (free_frames fr) = card (free_frames (pg_frames pg)) - 1"
    using fa_alloc_total [OF sp] c by auto
  let ?pg = "pg\<lparr>pg_frames := fr\<rparr>"
  have init: "paging_initialized ?pg" by (rule spacesD(1) [OF a(2)])
  show ?thesis
  proof (cases "pg_mem ?pg (slot d (pd_index va)) = 0")
    case True
    obtain t fr2 where b: "fa_alloc (pg_frames ?pg) = Inr (t, fr2)"
      "card (free_frames fr2) = card (free_frames (pg_frames ?pg)) - 1"
      using fa_alloc_total [OF a(2)] a(3) c by auto
    then show ?thesis using a(1,3) init c True
      by (auto simp: map_new_page_def paging_map_steps with_table_def)
  next
    case False
    then show ?thesis using a(1,3) init c by (auto simp: map_new_page_def paging_map_steps with_table_def)
  qed
qed

text \<open>A kernel with one directory, in frame 1, and 30 free frames.\<close>

definition demo_frames30 :: frame_alloc where
  "demo_frames30 = \<lparr>fa_bitmap = [0x03, 0, 0, 0], fa_bitmap_size = 4, fa_initialized = True\<rparr>"

definition demo_kernel :: kstate where
  "demo_kernel = \<lparr>vmm = \<lparr>pg_mem = (\<lambda>a. 0), pg_frames = demo_frames30, kernel_pd = PHYS_TO_VIRT (frame_addr 1),
       paging_initialized = True, pg_cr3 = frame_addr 1\<rparr>,
     kbytes = (\<lambda>a. 0), ubytes = (\<lambda>pd a. 0), ptab = (\<lambda>p. None), procs = dynarray_new 32, procs_head = 0,
     current_proc = 0, sched_initialized = True, pid_counter = 1, idle_proc = 0, tss_esp0 = 0,
     stdin_buf = 0, stdin_buf_len = 0, waiting_stdin = 0, waiting_buf = 0, waiting_buf_size = 0\<rparr>"

lemma demo_frames30_free: "free_frames demo_frames30 = {2..<32}"
proof -
  have "list_all (\<lambda>n. frame_free [0x03, 0, 0, 0] n = (2 \<le> n)) [0..<32]" by code_simp
  then have "frame_free [0x03, 0, 0, 0] n = (2 \<le> n)" if "n < 32" for n
    using that by (auto simp: list_all_iff)
  moreover have "\<not> frame_free [0x03, 0, 0, 0] n" if "32 \<le> n" for n
  proof -
    have "\<not> n div 8 < 4" using that by linarith
    then show ?thesis by (simp add: frame_free_def)
  qed
  ultimately show ?thesis by (auto simp: free_frames_def demo_frames30_def) (metis not_less)+
qed

lemma demo_kernel_spaces:
  "spaces (vmm demo_kernel) {1}" "kernel_pd (vmm demo_kernel) = PHYS_TO_VIRT (frame_addr 1)"
  "card (free_frames (pg_frames (vmm demo_kernel))) = 30"
  "da_fit (procs demo_kernel)" "da_list (procs demo_kernel) = []"
proof -
  show "spaces (vmm demo_kernel) {1}"
    using demo_frames30_free by (auto simp: spaces_def demo_kernel_def fa_ok_def demo_frames30_def)
  show "kernel_pd (vmm demo_kernel) = PHYS_TO_VIRT (frame_addr 1)"
    "card (free_frames (pg_frames (vmm demo_kernel))) = 30"
    by (simp_all add: demo_kernel_def demo_frames30_free)
  show "da_fit (procs demo_kernel)" "da_list (procs demo_kernel) = []"
    using dynarray_new_ok [of 32, where 'a = u32] by (simp_all add: demo_kernel_def da_fit_def dynarray_new_def)
qed

end
