(* ===== verification/Ext2Data.thy ===== *)
theory Ext2Data
  imports KPrelude
begin

text \<open>
  The on-disk structures of \<open>kernel/fs/src/ext2.h\<close>, \<open>inode.h\<close> and \<open>ext2_entry.h\<close>. The C code lays a
  struct over the bytes of a block; here a decoder reads the fields at their offsets and an encoder
  writes them back, little-endian and in declaration order, and the two are inverse.
\<close>

section \<open>Little-endian fields of a byte list\<close>

definition of_le16 :: "u8 \<Rightarrow> u8 \<Rightarrow> u16" where
  "of_le16 a b = ucast a OR push_bit 8 (ucast b)"

definition get8 :: "u8 list \<Rightarrow> nat \<Rightarrow> u8" where "get8 bs i = bs ! i"
definition get16 :: "u8 list \<Rightarrow> nat \<Rightarrow> u16" where "get16 bs i = of_le16 (bs ! i) (bs ! (i + 1))"
definition get32 :: "u8 list \<Rightarrow> nat \<Rightarrow> u32" where
  "get32 bs i = of_le32 (bs ! i) (bs ! (i + 1)) (bs ! (i + 2)) (bs ! (i + 3))"

definition get_bytes :: "u8 list \<Rightarrow> nat \<Rightarrow> nat \<Rightarrow> u8 list" where
  "get_bytes bs i n = map (\<lambda>k. bs ! (i + k)) [0..<n]"

definition put16 :: "u16 \<Rightarrow> u8 list" where "put16 v = [ucast v, ucast (drop_bit 8 v)]"
definition put32 :: "u32 \<Rightarrow> u8 list" where "put32 v = [byte0 v, byte1 v, byte2 v, byte3 v]"

lemma of_le16_bytes [simp]: "of_le16 (ucast v) (ucast (drop_bit 8 v)) = v"
proof (rule bit_word_eqI)
  fix n assume "n < LENGTH(16)"
  then show "bit (of_le16 (ucast v) (ucast (drop_bit 8 v))) n = bit v n"
    by (cases "n < 8") (auto simp: of_le16_def bit_simps)
qed

lemma length_put [simp]: "length (put16 a) = 2" "length (put32 b) = 4"
  by (simp_all add: put16_def put32_def)

text \<open>\<open>overwrite buf i bs\<close> overwrites the bytes of a buffer from \<open>i\<close> on, as \<open>kmemcpy (buf + i, bs, ...)\<close> does.\<close>

definition overwrite :: "u8 list \<Rightarrow> nat \<Rightarrow> u8 list \<Rightarrow> u8 list" where
  "overwrite buf i bs = take i buf @ bs @ drop (i + length bs) buf"

lemma length_overwrite [simp]:
  "i + length bs \<le> length buf \<Longrightarrow> length (overwrite buf i bs) = length buf"
  by (simp add: overwrite_def)

lemma nth_overwrite:
  assumes "i + length bs \<le> length buf" "k < length buf"
  shows "overwrite buf i bs ! k = (if i \<le> k \<and> k < i + length bs then bs ! (k - i) else buf ! k)"
  using assms by (auto simp: overwrite_def nth_append min_def)

text \<open>The bytes of a structure at an offset of a buffer.\<close>

lemma get_cong:
  assumes "\<And>k. k < n \<Longrightarrow> a ! (i + k) = b ! (j + k)"
  shows "k + 4 \<le> n \<Longrightarrow> get32 a (i + k) = get32 b (j + k)"
    and "k + 2 \<le> n \<Longrightarrow> get16 a (i + k) = get16 b (j + k)"
    and "k + m \<le> n \<Longrightarrow> get_bytes a (i + k) m = get_bytes b (j + k) m"
  using assms [of k] assms [of "k + 1"] assms [of "k + 2"] assms [of "k + 3"]
  by (auto simp: get32_def get16_def get_bytes_def add.assoc intro!: assms)

section \<open>The super block\<close>

record sb_base =
  sb_inodes_count :: u32
  sb_blocks_count :: u32
  sb_nb_block_for_su :: u32
  sb_unallocated_blocks_count :: u32
  sb_unallocated_inodes_count :: u32
  sb_block_nb_of_sb :: u32
  sb_log_block_size :: u32
  sb_log_fragment_size :: u32
  sb_nb_blocks_in_group :: u32
  sb_nb_fragments_in_group :: u32
  sb_nb_inodes_in_group :: u32
  sb_last_mount_time :: u32
  sb_last_written_time :: u32
  sb_nb_times_mounted_since_fsck :: u16
  sb_nb_mounts_allowed_before_fsck :: u16
  sb_ext2_signature :: u16
  sb_fs_state :: u16
  sb_error_behavior :: u16
  sb_version_minor :: u16
  sb_posix_time_last_fsck :: u32
  sb_interval_between_forced_fsck :: u32
  sb_opsys_id :: u32
  sb_version_major :: u32
  sb_userid_for_reserved_block_use :: u16
  sb_groupid_for_reserved_block_use :: u16

definition decode_sb_base :: "u8 list \<Rightarrow> nat \<Rightarrow> sb_base" where
  "decode_sb_base bs at = \<lparr>sb_inodes_count = get32 bs at, sb_blocks_count = get32 bs (at + 4),
     sb_nb_block_for_su = get32 bs (at + 8), sb_unallocated_blocks_count = get32 bs (at + 12),
     sb_unallocated_inodes_count = get32 bs (at + 16), sb_block_nb_of_sb = get32 bs (at + 20),
     sb_log_block_size = get32 bs (at + 24), sb_log_fragment_size = get32 bs (at + 28),
     sb_nb_blocks_in_group = get32 bs (at + 32), sb_nb_fragments_in_group = get32 bs (at + 36),
     sb_nb_inodes_in_group = get32 bs (at + 40), sb_last_mount_time = get32 bs (at + 44),
     sb_last_written_time = get32 bs (at + 48), sb_nb_times_mounted_since_fsck = get16 bs (at + 52),
     sb_nb_mounts_allowed_before_fsck = get16 bs (at + 54), sb_ext2_signature = get16 bs (at + 56),
     sb_fs_state = get16 bs (at + 58), sb_error_behavior = get16 bs (at + 60),
     sb_version_minor = get16 bs (at + 62), sb_posix_time_last_fsck = get32 bs (at + 64),
     sb_interval_between_forced_fsck = get32 bs (at + 68), sb_opsys_id = get32 bs (at + 72),
     sb_version_major = get32 bs (at + 76), sb_userid_for_reserved_block_use = get16 bs (at + 80),
     sb_groupid_for_reserved_block_use = get16 bs (at + 82)\<rparr>"

definition encode_sb_base :: "sb_base \<Rightarrow> u8 list" where
  "encode_sb_base s =
     put32 (sb_inodes_count s) @ put32 (sb_blocks_count s) @ put32 (sb_nb_block_for_su s) @
     put32 (sb_unallocated_blocks_count s) @ put32 (sb_unallocated_inodes_count s) @
     put32 (sb_block_nb_of_sb s) @ put32 (sb_log_block_size s) @ put32 (sb_log_fragment_size s) @
     put32 (sb_nb_blocks_in_group s) @ put32 (sb_nb_fragments_in_group s) @
     put32 (sb_nb_inodes_in_group s) @ put32 (sb_last_mount_time s) @ put32 (sb_last_written_time s) @
     put16 (sb_nb_times_mounted_since_fsck s) @ put16 (sb_nb_mounts_allowed_before_fsck s) @
     put16 (sb_ext2_signature s) @ put16 (sb_fs_state s) @ put16 (sb_error_behavior s) @
     put16 (sb_version_minor s) @ put32 (sb_posix_time_last_fsck s) @
     put32 (sb_interval_between_forced_fsck s) @ put32 (sb_opsys_id s) @ put32 (sb_version_major s) @
     put16 (sb_userid_for_reserved_block_use s) @ put16 (sb_groupid_for_reserved_block_use s)"

record sb_extended =
  sbx_first_non_reserved_inode :: u32
  sbx_inode_size :: u16
  sbx_block_group_of_sbx :: u16
  sbx_optional_features_flags :: u32
  sbx_required_features_flags :: u32
  sbx_readonly_features_flags :: u32
  sbx_fs_id :: "u8 list"
  sbx_volume_name :: "u8 list"
  sbx_last_mount_path :: "u8 list"
  sbx_compression_alg :: u32
  sbx_nb_of_blocks_to_prealloc_for_files :: u8
  sbx_nb_of_blocks_to_prealloc_for_directories :: u8
  sbx_unused :: u16
  sbx_journal_id :: "u8 list"
  sbx_journal_inode :: u32
  sbx_journal_device :: u32
  sbx_head_of_orphan_inode_list :: u32

definition decode_sb_extended :: "u8 list \<Rightarrow> nat \<Rightarrow> sb_extended" where
  "decode_sb_extended bs at = \<lparr>sbx_first_non_reserved_inode = get32 bs at, sbx_inode_size = get16 bs (at + 4),
     sbx_block_group_of_sbx = get16 bs (at + 6), sbx_optional_features_flags = get32 bs (at + 8),
     sbx_required_features_flags = get32 bs (at + 12), sbx_readonly_features_flags = get32 bs (at + 16),
     sbx_fs_id = get_bytes bs (at + 20) 16, sbx_volume_name = get_bytes bs (at + 36) 16,
     sbx_last_mount_path = get_bytes bs (at + 52) 64, sbx_compression_alg = get32 bs (at + 116),
     sbx_nb_of_blocks_to_prealloc_for_files = get8 bs (at + 120),
     sbx_nb_of_blocks_to_prealloc_for_directories = get8 bs (at + 121), sbx_unused = get16 bs (at + 122),
     sbx_journal_id = get_bytes bs (at + 124) 16, sbx_journal_inode = get32 bs (at + 140),
     sbx_journal_device = get32 bs (at + 144), sbx_head_of_orphan_inode_list = get32 bs (at + 148)\<rparr>"

section \<open>Group descriptors\<close>

record group_desc =
  dsc_block_bitmap :: u32
  dsc_inode_bitmap :: u32
  dsc_inode_table :: u32
  dsc_unallocated_blocks :: u16
  dsc_unallocated_inodes :: u16
  dsc_directories_count :: u16
  dsc_padding :: "u8 list"

definition decode_desc :: "u8 list \<Rightarrow> nat \<Rightarrow> group_desc" where
  "decode_desc bs at = \<lparr>dsc_block_bitmap = get32 bs at, dsc_inode_bitmap = get32 bs (at + 4),
     dsc_inode_table = get32 bs (at + 8), dsc_unallocated_blocks = get16 bs (at + 12),
     dsc_unallocated_inodes = get16 bs (at + 14), dsc_directories_count = get16 bs (at + 16),
     dsc_padding = get_bytes bs (at + 18) 14\<rparr>"

definition encode_desc :: "group_desc \<Rightarrow> u8 list" where
  "encode_desc d = put32 (dsc_block_bitmap d) @ put32 (dsc_inode_bitmap d) @ put32 (dsc_inode_table d) @
     put16 (dsc_unallocated_blocks d) @ put16 (dsc_unallocated_inodes d) @
     put16 (dsc_directories_count d) @ dsc_padding d"

section \<open>Inodes\<close>

text \<open>
  The twelve direct block pointers are read as an array (\<open>&inode->inode_direct_blk_ptr0 + i\<close>).
  \<open>inode_id\<close> is only in memory: the last word of the struct, which is never written to disk.
\<close>

record inode =
  inode_type_and_permissions :: u16
  inode_user_id :: u16
  inode_size_low_bits :: u32
  inode_last_access_time :: u32
  inode_creation_time :: u32
  inode_last_modification_time :: u32
  inode_deletion_time :: u32
  inode_groupid :: u16
  inode_hard_links_count :: u16
  inode_used_disk_sectors_count :: u32
  inode_flags :: u32
  inode_unused_os_specific :: u32
  inode_direct_blk_ptrs :: "u32 list"
  inode_singly_indirect_blk_ptr :: u32
  inode_doubly_indirect_blk_ptr :: u32
  inode_triply_indirect_blk_ptr :: u32
  inode_generation_number :: u32
  inode_extended_attr_blk :: u32
  inode_size_high_bits :: u32
  inode_block_address_of_fragment :: u32
  inode_unused_os_specific2 :: "u8 list"
  inode_id :: u32

definition FS_EXT2_INODE_FTYPE_DIR :: u16 where "FS_EXT2_INODE_FTYPE_DIR = 0x4000"
definition FS_EXT2_INODE_FTYPE_FILE :: u16 where "FS_EXT2_INODE_FTYPE_FILE = 0x8000"

definition is_inode_dir :: "inode \<Rightarrow> bool" where
  "is_inode_dir ino \<longleftrightarrow> inode_type_and_permissions ino AND 0xF000 = FS_EXT2_INODE_FTYPE_DIR"

definition is_inode_file :: "inode \<Rightarrow> bool" where
  "is_inode_file ino \<longleftrightarrow> inode_type_and_permissions ino AND 0xF000 = FS_EXT2_INODE_FTYPE_FILE"

text \<open>
  The struct has the number of the inode behind the 128 bytes that are on the disk. Reading it, the code copies the whole
  struct out of the block, so it also reads the four bytes behind the 128, for the last inode of a block behind the
  buffer; it puts the number there at once. The model takes the 128 bytes and the number, and has a fault when the 128 do
  not lie in the buffer.
\<close>

definition INODE_BYTES :: nat where "INODE_BYTES = 128"

definition decode_inode :: "u8 list \<Rightarrow> nat \<Rightarrow> u32 \<Rightarrow> inode" where
  "decode_inode bs at ino_id = \<lparr>inode_type_and_permissions = get16 bs at, inode_user_id = get16 bs (at + 2),
     inode_size_low_bits = get32 bs (at + 4), inode_last_access_time = get32 bs (at + 8),
     inode_creation_time = get32 bs (at + 12), inode_last_modification_time = get32 bs (at + 16),
     inode_deletion_time = get32 bs (at + 20), inode_groupid = get16 bs (at + 24),
     inode_hard_links_count = get16 bs (at + 26), inode_used_disk_sectors_count = get32 bs (at + 28),
     inode_flags = get32 bs (at + 32), inode_unused_os_specific = get32 bs (at + 36),
     inode_direct_blk_ptrs = map (\<lambda>k. get32 bs (at + (40 + 4 * k))) [0..<12],
     inode_singly_indirect_blk_ptr = get32 bs (at + 88), inode_doubly_indirect_blk_ptr = get32 bs (at + 92),
     inode_triply_indirect_blk_ptr = get32 bs (at + 96), inode_generation_number = get32 bs (at + 100),
     inode_extended_attr_blk = get32 bs (at + 104), inode_size_high_bits = get32 bs (at + 108),
     inode_block_address_of_fragment = get32 bs (at + 112),
     inode_unused_os_specific2 = get_bytes bs (at + 116) 12, inode_id = ino_id\<rparr>"

definition encode_inode :: "inode \<Rightarrow> u8 list" where
  "encode_inode ino =
     put16 (inode_type_and_permissions ino) @ put16 (inode_user_id ino) @
     put32 (inode_size_low_bits ino) @ put32 (inode_last_access_time ino) @ put32 (inode_creation_time ino) @
     put32 (inode_last_modification_time ino) @ put32 (inode_deletion_time ino) @
     put16 (inode_groupid ino) @ put16 (inode_hard_links_count ino) @
     put32 (inode_used_disk_sectors_count ino) @ put32 (inode_flags ino) @ put32 (inode_unused_os_specific ino) @
     concat (map put32 (inode_direct_blk_ptrs ino)) @
     put32 (inode_singly_indirect_blk_ptr ino) @ put32 (inode_doubly_indirect_blk_ptr ino) @
     put32 (inode_triply_indirect_blk_ptr ino) @ put32 (inode_generation_number ino) @
     put32 (inode_extended_attr_blk ino) @ put32 (inode_size_high_bits ino) @
     put32 (inode_block_address_of_fragment ino) @ inode_unused_os_specific2 ino"

definition zero_inode :: inode where
  "zero_inode = \<lparr>inode_type_and_permissions = 0, inode_user_id = 0, inode_size_low_bits = 0,
     inode_last_access_time = 0, inode_creation_time = 0, inode_last_modification_time = 0,
     inode_deletion_time = 0, inode_groupid = 0, inode_hard_links_count = 0,
     inode_used_disk_sectors_count = 0, inode_flags = 0, inode_unused_os_specific = 0,
     inode_direct_blk_ptrs = replicate 12 0, inode_singly_indirect_blk_ptr = 0,
     inode_doubly_indirect_blk_ptr = 0, inode_triply_indirect_blk_ptr = 0, inode_generation_number = 0,
     inode_extended_attr_blk = 0, inode_size_high_bits = 0, inode_block_address_of_fragment = 0,
     inode_unused_os_specific2 = replicate 12 0, inode_id = 0\<rparr>"

definition inode_shape :: "inode \<Rightarrow> bool" where
  "inode_shape ino \<longleftrightarrow> length (inode_direct_blk_ptrs ino) = 12 \<and> length (inode_unused_os_specific2 ino) = 12"

section \<open>Directory entries\<close>

text \<open>\<open>entry_name\<close> is the name up to the NUL the code puts behind it.\<close>

record dir_ent =
  entry_inode :: u32
  entry_size :: u16
  entry_name_len :: u8
  entry_type :: u8
  entry_name :: "u8 list"

definition encode_entry :: "dir_ent \<Rightarrow> u8 list" where
  "encode_entry e = put32 (entry_inode e) @ put16 (entry_size e) @ [entry_name_len e, entry_type e] @ entry_name e"

section \<open>Encoding and decoding are inverse\<close>

lemmas codec_simps = put16_def put32_def get8_def get16_def get32_def get_bytes_def

lemma length_encode_sb_base: "length (encode_sb_base s) = 84"
  by (simp add: encode_sb_base_def)

lemma length_encode_desc: "length (dsc_padding d) = 14 \<Longrightarrow> length (encode_desc d) = 32"
  by (simp add: encode_desc_def)

lemma length_concat_put32: "length (concat (map put32 ws)) = 4 * length ws"
  by (induction ws) simp_all

lemma length_encode_inode: "inode_shape ino \<Longrightarrow> length (encode_inode ino) = INODE_BYTES"
  by (simp add: encode_inode_def inode_shape_def INODE_BYTES_def length_concat_put32)

lemma get_skip:
  "length xs \<le> n \<Longrightarrow> get32 (xs @ ys) n = get32 ys (n - length xs)"
  "length xs \<le> n \<Longrightarrow> get16 (xs @ ys) n = get16 ys (n - length xs)"
  "length xs \<le> n \<Longrightarrow> get_bytes (xs @ ys) n m = get_bytes ys (n - length xs) m"
  by (simp_all add: get32_def get16_def get_bytes_def nth_append Suc_diff_le)

lemma get_put:
  "get32 (put32 v @ ys) 0 = v" "get32 (put32 v) 0 = v" "get16 (put16 w @ ys) 0 = w" "get16 (put16 w) 0 = w"
  by (simp_all add: codec_simps)

lemma get_bytes_all: "length bs = n \<Longrightarrow> get_bytes bs 0 n = bs"
  by (auto simp: get_bytes_def intro: nth_equalityI)

lemma get32_words:
  "k < length ws \<Longrightarrow> get32 (concat (map put32 ws) @ ys) (4 * k) = ws ! k"
proof (induction ws arbitrary: k)
  case (Cons w ws)
  then show ?case by (cases k) (simp_all add: get_put get_skip)
qed simp

lemmas decode_simps = get_skip get_put get_bytes_all length_concat_put32

lemma decode_encode_sb_base: "decode_sb_base (encode_sb_base s) 0 = s"
  by (cases s) (simp add: decode_sb_base_def encode_sb_base_def decode_simps)

lemma decode_encode_desc: "length (dsc_padding d) = 14 \<Longrightarrow> decode_desc (encode_desc d) 0 = d"
  by (cases d) (simp add: decode_desc_def encode_desc_def decode_simps)

lemma decode_encode_inode:
  assumes "inode_shape ino"
  shows "decode_inode (encode_inode ino) 0 (inode_id ino) = ino"
proof -
  have l: "length (inode_direct_blk_ptrs ino) = 12" "length (inode_unused_os_specific2 ino) = 12"
    using assms by (simp_all add: inode_shape_def)
  have "get32 (encode_inode ino) (40 + 4 * k) = inode_direct_blk_ptrs ino ! k" if "k < 12" for k
    using that l(1) get32_words [of k "inode_direct_blk_ptrs ino"]
    by (simp add: encode_inode_def get_skip)
  then have "map (\<lambda>k. get32 (encode_inode ino) (40 + 4 * k)) [0..<12] = inode_direct_blk_ptrs ino"
    using l(1) by (intro nth_equalityI) simp_all
  moreover have "get_bytes (encode_inode ino) 116 12 = inode_unused_os_specific2 ino"
    using l by (simp add: encode_inode_def decode_simps)
  ultimately show ?thesis
    by (simp add: decode_inode_def) (simp add: encode_inode_def decode_simps l)
qed

end
