(* ===== verification/Fd.thy ===== *)
theory Fd
  imports Proc
begin

text \<open>
  The virtual file system switch, \<open>kernel/fs/src/vfs.c\<close>, the global table of open files,
  \<open>kernel/fs/src/fd.c\<close>, and the descriptors of a process in \<open>kernel/proc/src/proc.c\<close>. The reference
  counts of the table are proved to be exact.
\<close>

section \<open>The switch\<close>

record vfs_node =
  vn_name :: "u8 list"
  vn_size :: u32
  vn_is_dir :: bool
  vn_fs_specific :: u32
  vnode_id :: u32

text \<open>
  A driver is a record of functions over the state \<open>'d\<close> of the file system behind it; \<open>'e\<close> is what
  listing a directory gives. A read returns its count and the bytes it stored.
\<close>

record ('d, 'e) vfs_driver =
  drv_open :: "u8 list \<Rightarrow> 'd \<Rightarrow> (vfs_node option \<times> 'd) res"
  drv_list :: "vfs_node \<Rightarrow> 'd \<Rightarrow> ('e list option \<times> 'd) res"
  drv_read :: "vfs_node \<Rightarrow> u32 \<Rightarrow> 'd \<Rightarrow> (u32 \<times> u8 list \<times> 'd) res"
  drv_write :: "vfs_node \<Rightarrow> u8 list \<Rightarrow> 'd \<Rightarrow> (u32 \<times> 'd) res"
  drv_close :: "vfs_node \<Rightarrow> 'd \<Rightarrow> 'd res"

definition vfs_open :: "('d, 'e) vfs_driver option \<Rightarrow> u8 list \<Rightarrow> 'd \<Rightarrow> (vfs_node option \<times> 'd) res" where
  "vfs_open driver path d = (case driver of None \<Rightarrow> Inr (None, d) | Some drv \<Rightarrow> drv_open drv path d)"

definition vfs_list :: "('d, 'e) vfs_driver option \<Rightarrow> vfs_node \<Rightarrow> 'd \<Rightarrow> ('e list option \<times> 'd) res" where
  "vfs_list driver node d = (case driver of None \<Rightarrow> Inr (None, d) | Some drv \<Rightarrow> drv_list drv node d)"

definition vfs_read :: "('d, 'e) vfs_driver option \<Rightarrow> vfs_node \<Rightarrow> u32 \<Rightarrow> 'd \<Rightarrow> (u32 \<times> u8 list \<times> 'd) res" where
  "vfs_read driver node sz d = (case driver of None \<Rightarrow> Inr (- 1, [], d) | Some drv \<Rightarrow> drv_read drv node sz d)"

definition vfs_write :: "('d, 'e) vfs_driver option \<Rightarrow> vfs_node \<Rightarrow> u8 list \<Rightarrow> 'd \<Rightarrow> (u32 \<times> 'd) res" where
  "vfs_write driver node buf d = (case driver of None \<Rightarrow> Inr (- 1, d) | Some drv \<Rightarrow> drv_write drv node buf d)"

definition vfs_close :: "('d, 'e) vfs_driver option \<Rightarrow> vfs_node \<Rightarrow> 'd \<Rightarrow> 'd res" where
  "vfs_close driver node d = (case driver of None \<Rightarrow> Inr d | Some drv \<Rightarrow> drv_close drv node d)"

definition vfs_register_driver :: "('d, 'e) vfs_driver \<Rightarrow> ('d, 'e) vfs_driver option" where
  "vfs_register_driver drv = Some drv"

section \<open>The table of open files\<close>

definition FD_FLAGS_RO :: u8 where "FD_FLAGS_RO = 1"
definition FD_FLAGS_WO :: u8 where "FD_FLAGS_WO = 2"
definition FD_FLAGS_RW :: u8 where "FD_FLAGS_RW = 4"

record fd_table_entry =
  fte_node :: vfs_node
  ref_count :: u32
  write_lock :: bool

text \<open>The table is an array of pointers; \<open>None\<close> is the null pointer of a free slot.\<close>

type_synonym fd_table = "fd_table_entry option dynarray"

definition fd_init_table :: fd_table where "fd_init_table = dynarray_new 512"

definition fd_get :: "fd_table \<Rightarrow> u32 \<Rightarrow> fd_table_entry option" where
  "fd_get t g = (case dynarray_get t g of Some e \<Rightarrow> e | None \<Rightarrow> None)"

definition fd_set :: "fd_table \<Rightarrow> u32 \<Rightarrow> fd_table_entry option \<Rightarrow> fd_table" where
  "fd_set t g e = t\<lparr>da_data := (da_data t)[unat g := Some e]\<rparr>"

fun fd_free_slot :: "fd_table \<Rightarrow> u32 \<Rightarrow> nat \<Rightarrow> u32 option" where
  "fd_free_slot t i 0 = None"
| "fd_free_slot t i (Suc n) = (case fd_get t i of None \<Rightarrow> Some i | Some e \<Rightarrow> fd_free_slot t (i + 1) n)"

definition fd_add :: "fd_table \<Rightarrow> fd_table_entry \<Rightarrow> (u32 \<times> fd_table) res" where
  "fd_add t entry =
     (case fd_free_slot t 0 (unat (da_count t)) of
        Some i \<Rightarrow> Inr (i, fd_set t i (Some entry))
      | None \<Rightarrow>
          (case dynarray_add t (Some entry) of Inl e \<Rightarrow> Inl e | Inr t1 \<Rightarrow> Inr (da_count t1 - 1, t1)))"

definition fd_new :: "fd_table \<Rightarrow> vfs_node \<Rightarrow> u8 \<Rightarrow> (u32 \<times> fd_table) res" where
  "fd_new t node flags =
     fd_add t \<lparr>fte_node = node, ref_count = 0, write_lock = (flags AND FD_FLAGS_RO = 0)\<rparr>"

fun fd_find_loop :: "fd_table \<Rightarrow> vfs_node \<Rightarrow> u32 \<Rightarrow> nat \<Rightarrow> u32 option" where
  "fd_find_loop t node i 0 = None"
| "fd_find_loop t node i (Suc n) =
     (case fd_get t i of
        Some e \<Rightarrow> if vnode_id (fte_node e) = vnode_id node then Some i else fd_find_loop t node (i + 1) n
      | None \<Rightarrow> fd_find_loop t node (i + 1) n)"

text \<open>\<open>None\<close> is the result -1.\<close>

definition fd_find_by_node :: "fd_table \<Rightarrow> vfs_node \<Rightarrow> u32 option" where
  "fd_find_by_node t node = fd_find_loop t node 0 (unat (da_count t))"

definition fd_remove :: "fd_table \<Rightarrow> u32 \<Rightarrow> fd_table" where
  "fd_remove t g =
     (case fd_get t g of
        None \<Rightarrow> t
      | Some e \<Rightarrow>
          (let e1 = e\<lparr>ref_count := ref_count e - 1\<rparr>
           in if ref_count e1 = 0 then fd_set t g None else fd_set t g (Some e1)))"

section \<open>The descriptors of a process\<close>

fun free_fd :: "proc_fd_entry option list \<Rightarrow> nat \<Rightarrow> nat \<Rightarrow> nat option" where
  "free_fd fs i 0 = None"
| "free_fd fs i (Suc n) = (if fs ! i = None then Some i else free_fd fs (i + 1) n)"

text \<open>The search starts behind the three standard descriptors; -1 when none is free.\<close>

definition proc_alloc_fd :: "proc_fd_entry option list \<Rightarrow> vfs_node \<Rightarrow> u8 \<Rightarrow> fd_table \<Rightarrow>
    (u32 \<times> proc_fd_entry option list \<times> fd_table) res" where
  "proc_alloc_fd fs node flags t =
     (case free_fd fs 3 (MAX_FDS - 3) of
        None \<Rightarrow> Inr (- 1, fs, t)
      | Some i \<Rightarrow>
          (case (case fd_find_by_node t node of Some g \<Rightarrow> Inr (g, t) | None \<Rightarrow> fd_new t node flags) of
             Inl e \<Rightarrow> Inl e
           | Inr (g, t1) \<Rightarrow>
               (case fd_get t1 g of
                  None \<Rightarrow> Inl (KFault ''fd_get(entry_index)'')
                | Some e \<Rightarrow>
                    Inr (of_nat i, fs[i := Some \<lparr>global_fd = g, fd_offset = 0, fd_flags = flags\<rparr>],
                         fd_set t1 g (Some (e\<lparr>ref_count := ref_count e + 1\<rparr>))))))"

definition proc_fd :: "proc_fd_entry option list \<Rightarrow> u32 \<Rightarrow> proc_fd_entry option res" where
  "proc_fd fs fd = (if unat fd < length fs then Inr (fs ! unat fd) else Inl (KFault ''fds index''))"

text \<open>
  Reading and writing a file descriptor: the value returned, the status stored through \<open>sc_ret\<close>, the
  bytes for the buffer, and the file system afterwards.
\<close>

definition proc_fd_read_file :: "('d, 'e) vfs_driver option \<Rightarrow> proc_fd_entry option list \<Rightarrow> u32 \<Rightarrow> u32 \<Rightarrow> fd_table \<Rightarrow>
    'd \<Rightarrow> (u32 \<times> u32 \<times> u8 list \<times> 'd) res" where
  "proc_fd_read_file driver fs fd buf_len t d =
     (case proc_fd fs fd of
        Inl e \<Rightarrow> Inl e
      | Inr None \<Rightarrow> Inr (0, 2, [], d)
      | Inr (Some pfe) \<Rightarrow>
          (if fd_flags pfe AND FD_FLAGS_RO = 0 \<and> fd_flags pfe AND FD_FLAGS_RW = 0 then Inr (0, 2, [], d)
           else case fd_get t (global_fd pfe) of
             None \<Rightarrow> Inl (KFault ''fte->node'')
           | Some fte \<Rightarrow> and_then (vfs_read driver (fte_node fte) buf_len d) (\<lambda>(n, bytes, d1). Inr (n, 0, bytes, d1))))"

definition proc_fd_write_file :: "('d, 'e) vfs_driver option \<Rightarrow> proc_fd_entry option list \<Rightarrow> u32 \<Rightarrow> u8 list \<Rightarrow> fd_table \<Rightarrow>
    'd \<Rightarrow> (u32 \<times> u32 \<times> 'd) res" where
  "proc_fd_write_file driver fs fd buf t d =
     (case proc_fd fs fd of
        Inl e \<Rightarrow> Inl e
      | Inr None \<Rightarrow> Inr (0, 2, d)
      | Inr (Some pfe) \<Rightarrow>
          (if fd_flags pfe AND FD_FLAGS_WO = 0 \<and> fd_flags pfe AND FD_FLAGS_RW = 0 then Inr (0, 2, d)
           else case fd_get t (global_fd pfe) of
             None \<Rightarrow> Inl (KFault ''fte->node'')
           | Some fte \<Rightarrow> and_then (vfs_write driver (fte_node fte) buf d) (\<lambda>(n, d1). Inr (n, 0, d1))))"

definition proc_close_fd :: "proc_fd_entry option list \<Rightarrow> u32 \<Rightarrow> fd_table \<Rightarrow> (proc_fd_entry option list \<times> fd_table) res" where
  "proc_close_fd fs fd t =
     (case proc_fd fs fd of
        Inl e \<Rightarrow> Inl e
      | Inr None \<Rightarrow> Inl (KFault ''fds[fd]->global_fd'')
      | Inr (Some pfe) \<Rightarrow>
          (case fd_get t (global_fd pfe) of
             None \<Rightarrow> Inr (fs, t)
           | Some _ \<Rightarrow> Inr (fs[unat fd := None], fd_remove t (global_fd pfe))))"

section \<open>The table as a list\<close>

lemma fd_get_list:
  "da_fit t \<Longrightarrow> fd_get t g = (if unat g < length (da_list t) then da_list t ! unat g else None)"
  by (simp add: fd_get_def da.get_elems)

lemma fd_set_list:
  assumes "da_fit t" "unat g < length (da_list t)"
  shows "da_fit (fd_set t g e) \<and> da_list (fd_set t g e) = (da_list t)[unat g := e]"
proof -
  have ok: "da_ok t" using assms(1) by (simp add: da_fit_def)
  have c: "unat g < unat (da_count t)" using assms(2) da_list_length [OF ok] by simp
  have "take (unat (da_count t)) ((da_data t)[unat g := Some e]) = map Some ((da_list t)[unat g := e])"
    using da_take [OF ok] by (simp add: take_update_swap map_update)
  then have "da_ok \<lparr>da_data = (da_data t)[unat g := Some e], da_count = da_count t, da_capacity = da_capacity t\<rparr> \<and>
    da_list \<lparr>da_data = (da_data t)[unat g := Some e], da_count = da_count t, da_capacity = da_capacity t\<rparr> =
      (da_list t)[unat g := e]"
    using ok by (intro da_listI) (simp_all add: da_ok_def)
  then show ?thesis using assms(1) by (cases t) (simp add: fd_set_def da_fit_def)
qed

lemma fd_free_slot_list:
  assumes "da_fit t" "unat i + n = length (da_list t)"
  shows "case fd_free_slot t i n of
      Some g \<Rightarrow> unat i \<le> unat g \<and> unat g < length (da_list t) \<and> da_list t ! unat g = None
    | None \<Rightarrow> \<forall>j. unat i \<le> j \<and> j < length (da_list t) \<longrightarrow> da_list t ! j \<noteq> None"
  using assms
proof (induction n arbitrary: i)
  case (Suc n)
  have L: "length (da_list t) < 4294967296"
    using da.count_elems [OF Suc.prems(1)] unat_bound32 [of "da_count t"] by linarith
  show ?case
  proof (cases "da_list t ! unat i")
    case None
    then show ?thesis using Suc.prems by (simp add: fd_get_list)
  next
    case (Some e)
    have n1: "unat (i + 1) + n = length (da_list t)"
    proof (cases "n = 0")
      case True
      show ?thesis
      proof (cases "unat i + 1 < 4294967296")
        case True
        then show ?thesis using Suc.prems(2) unat_add_small [of i 1] by simp
      next
        case False
        then show ?thesis using Suc.prems(2) L by linarith
      qed
    next
      case False
      then have "unat i + 1 < 4294967296" using Suc.prems(2) L by linarith
      then show ?thesis using Suc.prems(2) unat_add_small [of i 1] by simp
    qed
    have i1: "unat (i + 1) = Suc (unat i)" using n1 Suc.prems(2) by linarith
    have "unat i \<le> j \<longleftrightarrow> j = unat i \<or> unat (i + 1) \<le> j" for j unfolding i1 by arith
    then show ?thesis using Suc.IH [OF Suc.prems(1) n1] Some Suc.prems(2) i1
      by (auto simp: fd_get_list [OF Suc.prems(1)] split: option.splits)
  qed
qed auto

lemma fd_find_loop_list:
  assumes "da_fit t" "unat i + n = length (da_list t)"
  shows "case fd_find_loop t node i n of
      Some g \<Rightarrow> unat g < length (da_list t) \<and>
        (\<exists>e. da_list t ! unat g = Some e \<and> vnode_id (fte_node e) = vnode_id node)
    | None \<Rightarrow> \<forall>j e. unat i \<le> j \<and> j < length (da_list t) \<and> da_list t ! j = Some e \<longrightarrow>
        vnode_id (fte_node e) \<noteq> vnode_id node"
  using assms
proof (induction n arbitrary: i)
  case (Suc n)
  have L: "length (da_list t) < 4294967296"
    using da.count_elems [OF Suc.prems(1)] unat_bound32 [of "da_count t"] by linarith
  have i1: "unat (i + 1) = Suc (unat i)"
  proof -
    have "unat i + 1 < 4294967296" using Suc.prems(2) L by linarith
    then show ?thesis using unat_add_small [of i 1] by simp
  qed
  have n1: "unat (i + 1) + n = length (da_list t)" using i1 Suc.prems(2) by simp
  have le: "unat i \<le> j \<longleftrightarrow> j = unat i \<or> unat (i + 1) \<le> j" for j unfolding i1 by arith
  have g: "fd_get t i = da_list t ! unat i" using Suc.prems by (simp add: fd_get_list)
  show ?case
  proof (cases "\<exists>e. da_list t ! unat i = Some e \<and> vnode_id (fte_node e) = vnode_id node")
    case True
    then show ?thesis using Suc.prems(2) g by auto
  next
    case False
    then have "fd_find_loop t node i (Suc n) = fd_find_loop t node (i + 1) n" using g by (auto split: option.splits)
    then show ?thesis using Suc.IH [OF Suc.prems(1) n1] False le by (auto split: option.splits)
  qed
qed auto

lemma fd_get_set:
  assumes "da_fit t" "unat g < length (da_list t)"
  shows "fd_get (fd_set t g e) h = (if h = g then e else fd_get t h)"
  using fd_set_list [OF assms, of e] assms
  by (auto simp: fd_get_list nth_list_update word_unat_eq_iff)

lemma fd_get_Some_range: "da_fit t \<Longrightarrow> fd_get t g = Some e \<Longrightarrow> unat g < length (da_list t)"
  by (simp add: fd_get_list split: if_splits)

lemma fd_add_result:
  assumes fit: "da_fit t" and len: "length (da_list t) < 268435456"
  shows "\<exists>g t'. fd_add t entry = Inr (g, t') \<and> da_fit t' \<and> fd_get t g = None \<and> length (da_list t') \<le> length (da_list t) + 1 \<and>
    unat g < length (da_list t') \<and> (\<forall>h. fd_get t' h = (if h = g then Some entry else fd_get t h))"
proof (cases "fd_free_slot t 0 (unat (da_count t))")
  case (Some g)
  have "unat g < length (da_list t)" "da_list t ! unat g = None"
    using fd_free_slot_list [OF fit, of 0 "unat (da_count t)"] Some da.count_elems [OF fit] by auto
  then show ?thesis using Some fit fd_set_list [OF fit] fd_get_set [OF fit] fd_get_list [OF fit]
    by (simp add: fd_add_def)
next
  case None
  obtain t' where a: "dynarray_add t (Some entry) = Inr t'" "da_fit t'" "da_list t' = da_list t @ [Some entry]"
    using da.add_elems [OF fit len] by blast
  have c: "unat (da_count t') = length (da_list t) + 1" using da.count_elems [OF a(2)] a(3) by simp
  have g: "unat (da_count t' - 1) = length (da_list t)"
    using c by (metis Suc_eq_plus1 One_nat_def diff_Suc_1 nat.distinct(1) unat_eq_zero unat_minus_one)
  have "fd_get t' h = (if h = da_count t' - 1 then Some entry else fd_get t h)" for h
  proof -
    have "h = da_count t' - 1 \<longleftrightarrow> unat h = length (da_list t)" using g by (metis unat_eq_imp)
    then show ?thesis using a fit by (auto simp: fd_get_list nth_append)
  qed
  moreover have "fd_get t (da_count t' - 1) = None" using g fit by (simp add: fd_get_list)
  ultimately show ?thesis using None a g by (auto simp: fd_add_def)
qed

lemma fd_find_by_node_result:
  assumes "da_fit t"
  shows "case fd_find_by_node t node of
      Some g \<Rightarrow> \<exists>e. fd_get t g = Some e \<and> vnode_id (fte_node e) = vnode_id node
    | None \<Rightarrow> \<forall>g e. fd_get t g = Some e \<longrightarrow> vnode_id (fte_node e) \<noteq> vnode_id node"
proof -
  have "unat 0 + unat (da_count t) = length (da_list t)" using da.count_elems [OF assms] by simp
  from fd_find_loop_list [OF assms this, of node] show ?thesis
    by (auto simp: fd_find_by_node_def fd_get_list [OF assms] split: option.splits if_splits)
qed

section \<open>Reference counts\<close>

text \<open>\<open>P\<close> holds the descriptor tables of all processes; \<open>refs P g\<close> counts the descriptors on entry \<open>g\<close>.\<close>

definition points :: "u32 \<Rightarrow> proc_fd_entry option \<Rightarrow> nat" where
  "points g x = (case x of Some e \<Rightarrow> if global_fd e = g then 1 else 0 | None \<Rightarrow> 0)"

definition refs :: "proc_fd_entry option list list \<Rightarrow> u32 \<Rightarrow> nat" where
  "refs P g = sum_list (map (\<lambda>fs. sum_list (map (points g) fs)) P)"

definition fd_inv :: "proc_fd_entry option list list \<Rightarrow> fd_table \<Rightarrow> bool" where
  "fd_inv P t \<longleftrightarrow> da_fit t \<and> (\<forall>fs\<in>set P. length fs = MAX_FDS) \<and>
     (\<forall>g. case fd_get t g of None \<Rightarrow> refs P g = 0 | Some e \<Rightarrow> unat (ref_count e) = refs P g \<and> 0 < refs P g) \<and>
     (\<forall>g h e e'. fd_get t g = Some e \<longrightarrow> fd_get t h = Some e' \<longrightarrow>
        vnode_id (fte_node e) = vnode_id (fte_node e') \<longrightarrow> g = h)"

lemma sum_list_update_nat:
  "k < length xs \<Longrightarrow> sum_list (xs[k := x]) + xs ! k = sum_list xs + (x :: nat)"
proof (induction xs arbitrary: k)
  case (Cons y ys)
  then show ?case by (cases k) simp_all
qed simp

lemma refs_update:
  assumes "i < length P" "j < length (P ! i)"
  shows "refs (P[i := (P ! i)[j := x]]) g + points g (P ! i ! j) = refs P g + points g x"
proof -
  let ?f = "\<lambda>fs. sum_list (map (points g) fs)"
  have "refs (P[i := (P ! i)[j := x]]) g + ?f (P ! i) = refs P g + ?f ((P ! i)[j := x])"
    using sum_list_update_nat [of i "map ?f P" "?f ((P ! i)[j := x])"] assms(1)
    by (simp add: refs_def map_update)
  moreover have "?f ((P ! i)[j := x]) + points g (P ! i ! j) = ?f (P ! i) + points g x"
    using sum_list_update_nat [of j "map (points g) (P ! i)" "points g x"] assms(2) by (simp add: map_update)
  ultimately show ?thesis by linarith
qed

lemma refs_bound: "(\<forall>fs\<in>set P. length fs = MAX_FDS) \<Longrightarrow> refs P g \<le> 16 * length P"
proof (induction P)
  case (Cons fs P)
  have "sum_list (map (points g) ys) \<le> length ys" for ys
    by (induction ys) (auto simp: points_def split: option.splits)
  from this [of fs] show ?case using Cons by (simp add: refs_def MAX_FDS_def)
qed (simp add: refs_def)

lemma free_fd_result:
  "case free_fd fs i n of Some j \<Rightarrow> i \<le> j \<and> j < i + n \<and> fs ! j = None
    | None \<Rightarrow> \<forall>j. i \<le> j \<and> j < i + n \<longrightarrow> fs ! j \<noteq> None"
proof (induction n arbitrary: i)
  case (Suc n)
  have "i \<le> j \<and> j < i + Suc n \<longleftrightarrow> j = i \<or> (i + 1 \<le> j \<and> j < i + 1 + n)" for j by arith
  then show ?case using Suc [of "i + 1"] by (auto split: option.splits)
qed auto

lemma proc_alloc_fd_result:
  assumes inv: "fd_inv P t" and i: "i < length P" and room: "16 * length P < 4294967295"
    and len: "length (da_list t) < 268435456"
  shows "\<exists>r fs' t'. proc_alloc_fd (P ! i) node flags t = Inr (r, fs', t') \<and> fd_inv (P[i := fs']) t' \<and>
    length (da_list t') \<le> length (da_list t) + 1 \<and>
    ((r = - 1 \<and> fs' = P ! i \<and> t' = t \<and> (\<forall>j. 3 \<le> j \<and> j < MAX_FDS \<longrightarrow> P ! i ! j \<noteq> None)) \<or>
     (\<exists>j g e. r = of_nat j \<and> 3 \<le> j \<and> j < MAX_FDS \<and> P ! i ! j = None \<and>
        fs' = (P ! i)[j := Some \<lparr>global_fd = g, fd_offset = 0, fd_flags = flags\<rparr>] \<and>
        fd_get t' g = Some e \<and> vnode_id (fte_node e) = vnode_id node))"
proof (cases "free_fd (P ! i) 3 (MAX_FDS - 3)")
  case None
  then have "\<forall>j. 3 \<le> j \<and> j < MAX_FDS \<longrightarrow> P ! i ! j \<noteq> None"
    using free_fd_result [where fs = "P ! i" and i = 3 and n = "MAX_FDS - 3"] by (simp add: MAX_FDS_def)
  then show ?thesis using None inv i by (simp add: proc_alloc_fd_def)
next
  case (Some j)
  have fit: "da_fit t" and lens: "\<forall>fs\<in>set P. length fs = MAX_FDS"
    and cnt: "\<And>g. case fd_get t g of None \<Rightarrow> refs P g = 0 | Some e \<Rightarrow> unat (ref_count e) = refs P g \<and> 0 < refs P g"
    and uniq: "\<And>g h e e'. fd_get t g = Some e \<Longrightarrow> fd_get t h = Some e' \<Longrightarrow>
        vnode_id (fte_node e) = vnode_id (fte_node e') \<Longrightarrow> g = h"
    using inv unfolding fd_inv_def by blast+
  have j: "3 \<le> j" "j < MAX_FDS" "P ! i ! j = None"
    using free_fd_result [where fs = "P ! i" and i = 3 and n = "MAX_FDS - 3"] Some by (simp_all add: MAX_FDS_def)
  have jl: "j < length (P ! i)" using lens i j(2) by simp
  obtain g t1 e1 where g: "(case fd_find_by_node t node of Some g \<Rightarrow> Inr (g, t) | None \<Rightarrow> fd_new t node flags) = Inr (g, t1)"
    and t1: "da_fit t1" "length (da_list t1) \<le> length (da_list t) + 1" "unat g < length (da_list t1)"
      "fd_get t1 g = Some e1" "vnode_id (fte_node e1) = vnode_id node" "unat (ref_count e1) = refs P g"
      "\<And>h. h \<noteq> g \<Longrightarrow> fd_get t1 h = fd_get t h"
      "\<And>h e. h \<noteq> g \<Longrightarrow> fd_get t1 h = Some e \<Longrightarrow> vnode_id (fte_node e) \<noteq> vnode_id node"
  proof (cases "fd_find_by_node t node")
    case (Some g)
    then obtain e where e: "fd_get t g = Some e" "vnode_id (fte_node e) = vnode_id node"
      using fd_find_by_node_result [OF fit, of node] by auto
    have "vnode_id (fte_node e') \<noteq> vnode_id node" if "h \<noteq> g" "fd_get t h = Some e'" for h e'
      using uniq [OF e(1) that(2)] that(1) e(2) by auto
    then show ?thesis using that [of g t e] Some e fit cnt [of g] fd_get_Some_range [OF fit e(1)] by simp
  next
    case None
    then have nid: "\<And>h e. fd_get t h = Some e \<Longrightarrow> vnode_id (fte_node e) \<noteq> vnode_id node"
      using fd_find_by_node_result [OF fit, of node] by auto
    let ?e = "\<lparr>fte_node = node, ref_count = 0, write_lock = (flags AND FD_FLAGS_RO = 0)\<rparr>"
    obtain g t' where a: "fd_add t ?e = Inr (g, t')" "da_fit t'" "fd_get t g = None"
      "length (da_list t') \<le> length (da_list t) + 1" "unat g < length (da_list t')"
      "\<forall>h. fd_get t' h = (if h = g then Some ?e else fd_get t h)"
      using fd_add_result [OF fit len, of ?e] by blast
    show ?thesis using that [of g t' ?e] None a nid cnt [of g] by (simp add: fd_new_def)
  qed
  let ?fs' = "(P ! i)[j := Some \<lparr>global_fd = g, fd_offset = 0, fd_flags = flags\<rparr>]"
  let ?e' = "e1\<lparr>ref_count := ref_count e1 + 1\<rparr>"
  let ?t' = "fd_set t1 g (Some ?e')"
  have res: "proc_alloc_fd (P ! i) node flags t = Inr (of_nat j, ?fs', ?t')"
    using Some g t1(4) by (simp add: proc_alloc_fd_def)
  have get: "fd_get ?t' h = (if h = g then Some ?e' else fd_get t1 h)" for h
    by (rule fd_get_set [OF t1(1,3)])
  have r1: "unat (ref_count e1 + 1) = refs P g + 1"
  proof -
    have "refs P g + 1 < 4294967296" using refs_bound [OF lens, of g] room by linarith
    then show ?thesis using t1(6) unat_add_small [of "ref_count e1" 1] by simp
  qed
  have rf: "refs (P[i := ?fs']) h = refs P h + (if h = g then 1 else 0)" for h
    using refs_update [OF i jl, of "Some \<lparr>global_fd = g, fd_offset = 0, fd_flags = flags\<rparr>" h] j(3)
    by (auto simp: points_def)
  have "fd_inv (P[i := ?fs']) ?t'"
    unfolding fd_inv_def
  proof (intro conjI allI impI ballI)
    show "da_fit ?t'" using fd_set_list [OF t1(1,3)] by blast
    show "length fs = MAX_FDS" if "fs \<in> set (P[i := ?fs'])" for fs
      using that lens i by (auto dest!: set_update_subset_insert [THEN subsetD])
    show "case fd_get ?t' h of None \<Rightarrow> refs (P[i := ?fs']) h = 0
        | Some e \<Rightarrow> unat (ref_count e) = refs (P[i := ?fs']) h \<and> 0 < refs (P[i := ?fs']) h" for h
      using cnt [of h] r1 t1(7) [of h] by (auto simp: get rf split: option.splits)
    show "h = h'" if "fd_get ?t' h = Some e" "fd_get ?t' h' = Some e'"
      "vnode_id (fte_node e) = vnode_id (fte_node e')" for h h' e e'
      using that t1(5,7) t1(8) [of h e] t1(8) [of h' e'] uniq [of h e h' e']
      by (cases "h = g"; cases "h' = g") (auto simp: get)
  qed
  moreover have "length (da_list ?t') \<le> length (da_list t) + 1" using fd_set_list [OF t1(1,3)] t1(2) by simp
  ultimately show ?thesis using res j t1(5) get [of g] by fastforce
qed

lemma proc_close_fd_result:
  assumes inv: "fd_inv P t" and i: "i < length P" and fd: "unat fd < MAX_FDS" and op: "P ! i ! unat fd = Some pfe"
  shows "\<exists>t'. proc_close_fd (P ! i) fd t = Inr ((P ! i)[unat fd := None], t') \<and>
    fd_inv (P[i := (P ! i)[unat fd := None]]) t' \<and> length (da_list t') = length (da_list t) \<and>
    (fd_get t' (global_fd pfe) = None \<longleftrightarrow> refs (P[i := (P ! i)[unat fd := None]]) (global_fd pfe) = 0)"
proof -
  let ?g = "global_fd pfe" and ?P = "P[i := (P ! i)[unat fd := None]]"
  have fit: "da_fit t" and lens: "\<forall>fs\<in>set P. length fs = MAX_FDS"
    and cnt: "\<And>g. case fd_get t g of None \<Rightarrow> refs P g = 0 | Some e \<Rightarrow> unat (ref_count e) = refs P g \<and> 0 < refs P g"
    and uniq: "\<And>g h e e'. fd_get t g = Some e \<Longrightarrow> fd_get t h = Some e' \<Longrightarrow>
        vnode_id (fte_node e) = vnode_id (fte_node e') \<Longrightarrow> g = h"
    using inv unfolding fd_inv_def by blast+
  have jl: "unat fd < length (P ! i)" using lens i fd by simp
  have rf: "refs ?P h + (if h = ?g then 1 else 0) = refs P h" for h
    using refs_update [OF i jl, of None h] op by (auto simp: points_def)
  have "0 < refs P ?g" using rf [of ?g] by simp
  then obtain e where e: "fd_get t ?g = Some e" "unat (ref_count e) = refs P ?g"
    using cnt [of ?g] by (auto split: option.splits)
  have rng: "unat ?g < length (da_list t)" using fd_get_Some_range [OF fit e(1)] .
  have dec: "unat (ref_count e - 1) = refs ?P ?g"
  proof -
    have "ref_count e \<noteq> 0" using e(2) rf [of ?g] by auto
    then show ?thesis using unat_minus_one [of "ref_count e"] e(2) rf [of ?g] by simp
  qed
  let ?x = "if refs ?P ?g = 0 then None else Some (e\<lparr>ref_count := ref_count e - 1\<rparr>)"
  have rm: "fd_remove t ?g = fd_set t ?g ?x"
    using e dec by (auto simp: fd_remove_def Let_def unat_eq_zero)
  have get: "fd_get (fd_set t ?g ?x) h = (if h = ?g then ?x else fd_get t h)" for h by (rule fd_get_set [OF fit rng])
  have "fd_inv ?P (fd_set t ?g ?x)"
    unfolding fd_inv_def
  proof (intro conjI allI impI ballI)
    show "da_fit (fd_set t ?g ?x)" using fd_set_list [OF fit rng] by blast
    show "length fs = MAX_FDS" if "fs \<in> set ?P" for fs
      using that lens i by (auto dest!: set_update_subset_insert [THEN subsetD])
    show "case fd_get (fd_set t ?g ?x) h of None \<Rightarrow> refs ?P h = 0
        | Some e \<Rightarrow> unat (ref_count e) = refs ?P h \<and> 0 < refs ?P h" for h
      using cnt [of h] rf [of h] dec unfolding get by (auto split: option.splits if_splits)
    show "h = h'" if "fd_get (fd_set t ?g ?x) h = Some a" "fd_get (fd_set t ?g ?x) h' = Some b"
      "vnode_id (fte_node a) = vnode_id (fte_node b)" for h h' a b
      using that e(1) uniq unfolding get by (auto split: if_splits)
  qed
  moreover have "proc_close_fd (P ! i) fd t = Inr ((P ! i)[unat fd := None], fd_set t ?g ?x)"
    using jl op e(1) rm by (simp add: proc_close_fd_def proc_fd_def)
  moreover have "length (da_list (fd_set t ?g ?x)) = length (da_list t)" using fd_set_list [OF fit rng] by simp
  ultimately show ?thesis using get [of ?g] by auto
qed

section \<open>Runs\<close>

text \<open>
  Any interleaving of opens and closes by \<open>n\<close> processes, from the empty table. A close is of an open
  descriptor; \<open>proc_close_fd\<close> follows a null pointer otherwise.
\<close>

inductive fd_run :: "nat \<Rightarrow> proc_fd_entry option list list \<Rightarrow> fd_table \<Rightarrow> nat \<Rightarrow> bool" for n where
  start: "fd_run n (replicate n (replicate MAX_FDS None)) fd_init_table 0"
| opened: "fd_run n P t c \<Longrightarrow> i < n \<Longrightarrow> proc_alloc_fd (P ! i) node flags t = Inr (r, fs', t') \<Longrightarrow>
    fd_run n (P[i := fs']) t' (Suc c)"
| closed: "fd_run n P t c \<Longrightarrow> i < n \<Longrightarrow> unat fd < MAX_FDS \<Longrightarrow> P ! i ! unat fd \<noteq> None \<Longrightarrow>
    proc_close_fd (P ! i) fd t = Inr (fs', t') \<Longrightarrow> fd_run n (P[i := fs']) t' c"

lemma fd_run_inv:
  assumes "fd_run n P t c" "16 * n < 4294967295" "c < 268435456"
  shows "fd_inv P t \<and> length P = n \<and> length (da_list t) \<le> c"
  using assms
proof (induction rule: fd_run.induct)
  case start
  have new: "da_fit fd_init_table" "da_list fd_init_table = []"
    using dynarray_new_ok [of 512, where 'a = "fd_table_entry option"]
    by (simp_all add: da_fit_def fd_init_table_def dynarray_new_def)
  have "refs (replicate n (replicate MAX_FDS None)) g = 0" for g by (simp add: refs_def points_def sum_list_replicate)
  then show ?case using new by (simp add: fd_inv_def fd_get_list)
next
  case (opened P t c i node flags r fs' t')
  then show ?case using proc_alloc_fd_result [of P t i node flags] by fastforce
next
  case (closed P t c i fd fs' t')
  then obtain pfe where "P ! i ! unat fd = Some pfe" by auto
  then show ?case using closed proc_close_fd_result [of P t i fd pfe] by fastforce
qed

text \<open>
  C13. Over any interleaving of opens and closes the count of an open-file entry is the number of
  descriptors of all processes that refer to it; an entry is freed with its last descriptor and not
  before, no descriptor ever refers to a freed entry, and a file has one entry.
\<close>

theorem fd_refcounts_exact:
  assumes "fd_run n P t c" and "16 * n < 4294967295" and "c < 268435456"
  shows "(\<forall>g e. fd_get t g = Some e \<longrightarrow> unat (ref_count e) = refs P g \<and> 0 < refs P g) \<and>
    (\<forall>i<n. \<forall>j<MAX_FDS. \<forall>pfe. P ! i ! j = Some pfe \<longrightarrow> fd_get t (global_fd pfe) \<noteq> None) \<and>
    (\<forall>g h e e'. fd_get t g = Some e \<longrightarrow> fd_get t h = Some e' \<longrightarrow>
       vnode_id (fte_node e) = vnode_id (fte_node e') \<longrightarrow> g = h)"
proof -
  have inv: "fd_inv P t" and len: "length P = n" using fd_run_inv [OF assms] by simp_all
  have "fd_get t (global_fd pfe) \<noteq> None" if "i < n" "j < MAX_FDS" "P ! i ! j = Some pfe" for i j pfe
  proof -
    have "j < length (P ! i)" using inv that(1,2) len by (simp add: fd_inv_def)
    then have "0 < refs P (global_fd pfe)"
      using refs_update [of i P j None "global_fd pfe"] that(1,3) len by (simp add: points_def)
    moreover have "case fd_get t (global_fd pfe) of None \<Rightarrow> refs P (global_fd pfe) = 0 | Some e \<Rightarrow> True"
      using inv unfolding fd_inv_def by (auto split: option.splits dest: spec [of _ "global_fd pfe"])
    ultimately show ?thesis by (cases "fd_get t (global_fd pfe)") auto
  qed
  moreover have "unat (ref_count e) = refs P g \<and> 0 < refs P g" if "fd_get t g = Some e" for g e
  proof -
    have "case fd_get t g of None \<Rightarrow> refs P g = 0 | Some e \<Rightarrow> unat (ref_count e) = refs P g \<and> 0 < refs P g"
      using inv unfolding fd_inv_def by blast
    then show ?thesis using that by simp
  qed
  ultimately show ?thesis using inv unfolding fd_inv_def by blast
qed

definition demo_node :: vfs_node where
  "demo_node = \<lparr>vn_name = [0x2F], vn_size = 0, vn_is_dir = False, vn_fs_specific = 0, vnode_id = 12\<rparr>"

theorem fd_refcounts_exact_witness:
  "\<exists>r fs t. proc_alloc_fd (replicate MAX_FDS None) demo_node 1 fd_init_table = Inr (r, fs, t) \<and>
     (\<forall>g e. fd_get t g = Some e \<longrightarrow> unat (ref_count e) = refs [fs] g)"
proof -
  have st: "fd_run 1 [replicate MAX_FDS None] fd_init_table 0" using fd_run.start [of 1] by simp
  obtain r fs t where a: "proc_alloc_fd ([replicate MAX_FDS None] ! 0) demo_node 1 fd_init_table = Inr (r, fs, t)"
    using proc_alloc_fd_result [of "[replicate MAX_FDS None]" fd_init_table 0 demo_node 1] fd_run_inv [OF st] by auto
  have "fd_run 1 ([replicate MAX_FDS None][0 := fs]) t (Suc 0)" by (rule fd_run.opened [OF st _ a]) simp
  then have "fd_run 1 [fs] t (Suc 0)" by simp
  from fd_refcounts_exact [OF this] a show ?thesis by auto
qed

text \<open>
  Opening a file takes the lowest free descriptor from 3 on, or gives -1 when all are taken and
  then changes nothing; closing it gives the descriptor back and frees the entry when it was the last.
  Closing a descriptor that is not open follows a null pointer, and one from 16 on leaves the array.
\<close>

theorem proc_fd_open_close:
  assumes "fd_inv P t" and "i < length P" and "16 * length P < 4294967295" and "length (da_list t) < 268435456"
  shows "(\<exists>r fs' t'. proc_alloc_fd (P ! i) node flags t = Inr (r, fs', t') \<and> fd_inv (P[i := fs']) t' \<and>
      (if \<forall>j. 3 \<le> j \<and> j < MAX_FDS \<longrightarrow> P ! i ! j \<noteq> None then r = - 1 \<and> fs' = P ! i \<and> t' = t
       else r = of_nat (LEAST j. 3 \<le> j \<and> P ! i ! j = None) \<and>
         (\<exists>g e. fs' = (P ! i)[unat r := Some \<lparr>global_fd = g, fd_offset = 0, fd_flags = flags\<rparr>] \<and>
            fd_get t' g = Some e \<and> vnode_id (fte_node e) = vnode_id node))) \<and>
    (\<forall>fd. proc_close_fd (P ! i) fd t =
      (if MAX_FDS \<le> unat fd then Inl (KFault ''fds index'')
       else case P ! i ! unat fd of None \<Rightarrow> Inl (KFault ''fds[fd]->global_fd'')
         | Some pfe \<Rightarrow> Inr ((P ! i)[unat fd := None], fd_remove t (global_fd pfe))))"
proof (rule conjI)
  have first: "j = (LEAST j. 3 \<le> j \<and> P ! i ! j = None)"
    if "free_fd (P ! i) 3 m = Some j" for j m
  proof -
    have "\<forall>k. s \<le> k \<and> k < j \<longrightarrow> P ! i ! k \<noteq> None" if "free_fd (P ! i) s m = Some j" for s
      using that
    proof (induction m arbitrary: s)
      case (Suc m)
      then show ?case by (cases "P ! i ! s") (auto, metis Suc_leI le_neq_implies_less option.distinct(1))
    qed simp
    from this [OF that] show ?thesis
      using free_fd_result [where fs = "P ! i" and i = 3 and n = m] that by (intro Least_equality [symmetric]) (auto simp: not_le [symmetric])
  qed
  obtain r fs' t' where r: "proc_alloc_fd (P ! i) node flags t = Inr (r, fs', t')" "fd_inv (P[i := fs']) t'"
    "(r = - 1 \<and> fs' = P ! i \<and> t' = t \<and> (\<forall>j. 3 \<le> j \<and> j < MAX_FDS \<longrightarrow> P ! i ! j \<noteq> None)) \<or>
     (\<exists>j g e. r = of_nat j \<and> 3 \<le> j \<and> j < MAX_FDS \<and> P ! i ! j = None \<and>
        fs' = (P ! i)[j := Some \<lparr>global_fd = g, fd_offset = 0, fd_flags = flags\<rparr>] \<and>
        fd_get t' g = Some e \<and> vnode_id (fte_node e) = vnode_id node)"
    using proc_alloc_fd_result [OF assms, of node flags] by blast
  show "\<exists>r fs' t'. proc_alloc_fd (P ! i) node flags t = Inr (r, fs', t') \<and> fd_inv (P[i := fs']) t' \<and>
      (if \<forall>j. 3 \<le> j \<and> j < MAX_FDS \<longrightarrow> P ! i ! j \<noteq> None then r = - 1 \<and> fs' = P ! i \<and> t' = t
       else r = of_nat (LEAST j. 3 \<le> j \<and> P ! i ! j = None) \<and>
         (\<exists>g e. fs' = (P ! i)[unat r := Some \<lparr>global_fd = g, fd_offset = 0, fd_flags = flags\<rparr>] \<and>
            fd_get t' g = Some e \<and> vnode_id (fte_node e) = vnode_id node))"
  proof (cases "free_fd (P ! i) 3 (MAX_FDS - 3)")
    case None
    then have "\<forall>j. 3 \<le> j \<and> j < MAX_FDS \<longrightarrow> P ! i ! j \<noteq> None"
      using free_fd_result [where fs = "P ! i" and i = 3 and n = "MAX_FDS - 3"] by (simp add: MAX_FDS_def)
    then show ?thesis using r by (intro exI [of _ r] exI [of _ fs'] exI [of _ t']) auto
  next
    case (Some j)
    have j: "3 \<le> j" "j < MAX_FDS" "P ! i ! j = None"
      using free_fd_result [where fs = "P ! i" and i = 3 and n = "MAX_FDS - 3"] Some by (simp_all add: MAX_FDS_def)
    then have ex: "\<not> (\<forall>j. 3 \<le> j \<and> j < MAX_FDS \<longrightarrow> P ! i ! j \<noteq> None)" by blast
    have rj: "r = of_nat j" using r(1) Some by (auto simp: proc_alloc_fd_def split: sum.splits option.splits)
    have u: "unat (of_nat k :: u32) = k" if "k < MAX_FDS" for k
      using that by (intro unat_of_nat_small) (simp add: MAX_FDS_def)
    from r(3) ex obtain j' g e where g: "r = of_nat j'" "j' < MAX_FDS"
      "fs' = (P ! i)[j' := Some \<lparr>global_fd = g, fd_offset = 0, fd_flags = flags\<rparr>]"
      "fd_get t' g = Some e" "vnode_id (fte_node e) = vnode_id node" by blast
    have "unat r = j'" using g(1) u [OF g(2)] by simp
    then show ?thesis using r(1,2) g ex first [OF Some] rj
      by (intro exI [of _ r] exI [of _ fs'] exI [of _ t']) auto
  qed
  show "\<forall>fd. proc_close_fd (P ! i) fd t =
      (if MAX_FDS \<le> unat fd then Inl (KFault ''fds index'')
       else case P ! i ! unat fd of None \<Rightarrow> Inl (KFault ''fds[fd]->global_fd'')
         | Some pfe \<Rightarrow> Inr ((P ! i)[unat fd := None], fd_remove t (global_fd pfe)))"
  proof
    fix fd
    have len: "length (P ! i) = MAX_FDS" using assms(1,2) by (simp add: fd_inv_def)
    show "proc_close_fd (P ! i) fd t =
      (if MAX_FDS \<le> unat fd then Inl (KFault ''fds index'')
       else case P ! i ! unat fd of None \<Rightarrow> Inl (KFault ''fds[fd]->global_fd'')
         | Some pfe \<Rightarrow> Inr ((P ! i)[unat fd := None], fd_remove t (global_fd pfe)))"
    proof (cases "unat fd < MAX_FDS")
      case True
      show ?thesis
      proof (cases "P ! i ! unat fd")
        case (Some pfe)
        obtain t' where "proc_close_fd (P ! i) fd t = Inr ((P ! i)[unat fd := None], t')"
          using proc_close_fd_result [OF assms(1,2) True Some] by blast
        moreover have "fd_get t (global_fd pfe) \<noteq> None"
          using calculation Some True len by (auto simp: proc_close_fd_def proc_fd_def list_eq_iff_nth_eq split: option.splits)
        ultimately show ?thesis using Some True len by (auto simp: proc_close_fd_def proc_fd_def)
      qed (use True len in \<open>simp add: proc_close_fd_def proc_fd_def\<close>)
    qed (simp add: proc_close_fd_def proc_fd_def len)
  qed
qed

theorem proc_fd_open_close_witness:
  "proc_close_fd (replicate MAX_FDS None) 3 fd_init_table = Inl (KFault ''fds[fd]->global_fd'') \<and>
   proc_close_fd (replicate MAX_FDS None) 16 fd_init_table = Inl (KFault ''fds index'')"
proof -
  have st: "fd_run 1 [replicate MAX_FDS None] fd_init_table 0" using fd_run.start [of 1] by simp
  have inv: "fd_inv [replicate MAX_FDS None] fd_init_table" "length (da_list fd_init_table) < 268435456"
    using fd_run_inv [OF st] by simp_all
  from proc_fd_open_close [OF inv(1) _ _ inv(2), of 0] show ?thesis by (simp add: MAX_FDS_def)
qed

end
