(* ===== verification/Elf.thy ===== *)
theory Elf
  imports Pages Sched Ext2Data Fd
begin

text \<open>
  The program loader, \<open>kernel/elf/src/elf.c\<close>: the header and the program headers of a 32-bit ELF file,
  the pages of its loadable segments, the kernel's copies of the arguments, and the new process. The
  file comes through the driver of the virtual file system; its buffer is a value.
\<close>

section \<open>Headers\<close>

definition ELF_MAGIC :: u32 where "ELF_MAGIC = 0x464C457F"
definition ELFPH_SEGTYPE_LOAD :: u32 where "ELFPH_SEGTYPE_LOAD = 1"

text \<open>\<open>elf_type\<close> stands at 16: eight unused bytes at 7 and one of padding lie before it.\<close>

record elf_header =
  elf_magic :: u32
  elf_parch :: u8
  elf_header_ver :: u8
  elf_os_abi :: u8
  elf_type :: u16
  elf_inst_set :: u16
  elf_version :: u32
  elf_program_entry_offset :: u32
  elf_program_header_table_offset :: u32
  elf_section_header_table_offset :: u32
  elf_flags :: u32
  elf_header_size :: u16
  elf_program_header_table_entry_size :: u16
  elf_program_header_table_entry_count :: u16
  elf_section_header_table_entry_size :: u16
  elf_section_header_table_entry_count :: u16
  elf_section_index_to_section_header_str_table :: u16

definition decode_elf_header :: "u8 list \<Rightarrow> elf_header" where
  "decode_elf_header bs = \<lparr>elf_magic = get32 bs 0, elf_parch = get8 bs 4, elf_header_ver = get8 bs 5,
     elf_os_abi = get8 bs 6, elf_type = get16 bs 16, elf_inst_set = get16 bs 18, elf_version = get32 bs 20,
     elf_program_entry_offset = get32 bs 24, elf_program_header_table_offset = get32 bs 28,
     elf_section_header_table_offset = get32 bs 32, elf_flags = get32 bs 36, elf_header_size = get16 bs 40,
     elf_program_header_table_entry_size = get16 bs 42, elf_program_header_table_entry_count = get16 bs 44,
     elf_section_header_table_entry_size = get16 bs 46, elf_section_header_table_entry_count = get16 bs 48,
     elf_section_index_to_section_header_str_table = get16 bs 50\<rparr>"

record elf_program_header =
  elfph_segtype :: u32
  elfph_p_offset :: u32
  elfph_p_vaddr :: u32
  elfph_p_paddr :: u32
  elfph_p_filesz :: u32
  elfph_p_memsz :: u32
  elfph_flags :: u32
  elfph_req_alignment :: u32

definition decode_program_header :: "u8 list \<Rightarrow> nat \<Rightarrow> elf_program_header" where
  "decode_program_header bs at = \<lparr>elfph_segtype = get32 bs at, elfph_p_offset = get32 bs (at + 4),
     elfph_p_vaddr = get32 bs (at + 8), elfph_p_paddr = get32 bs (at + 12), elfph_p_filesz = get32 bs (at + 16),
     elfph_p_memsz = get32 bs (at + 20), elfph_flags = get32 bs (at + 24), elfph_req_alignment = get32 bs (at + 28)\<rparr>"

section \<open>Loading segments\<close>

text \<open>The 4096 bytes of the page of a segment that starts at \<open>file_offset\<close> in it.\<close>

definition segment_page :: "u8 list \<Rightarrow> elf_program_header \<Rightarrow> u32 \<Rightarrow> u8 list res" where
  "segment_page buf ph file_offset =
     (if file_offset \<ge> elfph_p_filesz ph then Inr (replicate 4096 0)
      else let to_copy = unat (KMIN (elfph_p_filesz ph - file_offset) 4096);
               src = unat (elfph_p_offset ph + file_offset)
           in if src + to_copy > length buf then Inl (KFault ''read behind the file buffer'')
              else Inr (take to_copy (drop src buf) @ replicate (4096 - to_copy) 0))"

text \<open>
  A page written through the direct map is seen in the space it is mapped in, at the page that
  \<open>va\<close> lies in.
\<close>

definition store_page :: "u32 \<Rightarrow> u32 \<Rightarrow> u32 \<Rightarrow> u8 list \<Rightarrow> kstate \<Rightarrow> kstate" where
  "store_page pd frame va bs k =
     k\<lparr>kbytes := store_bytes (kbytes k) (PHYS_TO_VIRT frame) bs,
       ubytes := (ubytes k)(pd := store_bytes (ubytes k pd) (va AND 0xFFFFF000) bs)\<rparr>"

text \<open>The loop over \<open>j\<close>; \<open>n = pages - j\<close> pages are left.\<close>

fun load_pages :: "u8 list \<Rightarrow> elf_program_header \<Rightarrow> u32 \<Rightarrow> nat \<Rightarrow> nat \<Rightarrow> kstate \<Rightarrow> kstate res" where
  "load_pages buf ph pd j 0 k = Inr k"
| "load_pages buf ph pd j (Suc n) k =
     and_then (map_new_page (vmm k) pd (elfph_p_vaddr ph + of_nat j * 4096)) (\<lambda>(frame, pg1).
     and_then (segment_page buf ph (of_nat j * 4096)) (\<lambda>bs.
       load_pages buf ph pd (j + 1) n
         (store_page pd frame (elfph_p_vaddr ph + of_nat j * 4096) bs (k\<lparr>vmm := pg1\<rparr>))))"

definition segment_pages :: "elf_program_header \<Rightarrow> nat" where
  "segment_pages ph = unat (drop_bit 12 (elfph_p_memsz ph + 0xFFF))"

text \<open>The loop over the program headers; the fields that are read end 24 bytes into each.\<close>

fun load_segments :: "u8 list \<Rightarrow> elf_header \<Rightarrow> u32 \<Rightarrow> nat \<Rightarrow> nat \<Rightarrow> u32 \<Rightarrow> kstate \<Rightarrow> (u32 \<times> kstate) res" where
  "load_segments buf eh pd i 0 image_end k = Inr (image_end, k)"
| "load_segments buf eh pd i (Suc n) image_end k =
     (let at = unat (elf_program_header_table_offset eh + of_nat i * ucast (elf_program_header_table_entry_size eh));
          ph = decode_program_header buf at
      in if at + 24 > length buf then Inl (KFault ''read behind the file buffer'')
         else if elfph_segtype ph = ELFPH_SEGTYPE_LOAD
         then and_then (load_pages buf ph pd 0 (segment_pages ph) k) (\<lambda>k1.
                load_segments buf eh pd (i + 1) n (KMAX (elfph_p_vaddr ph + elfph_p_memsz ph) image_end) k1)
         else load_segments buf eh pd (i + 1) n image_end k)"

section \<open>Arguments\<close>

text \<open>The page directory in use.\<close>

definition active_pd :: "kstate \<Rightarrow> u32" where "active_pd k = PHYS_TO_VIRT (pg_cr3 (vmm k))"

partial_function (option) count_ptrs :: "bytes_mem \<Rightarrow> u32 \<Rightarrow> u32 \<Rightarrow> u32 option" where
  "count_ptrs m a n = (if ld32 m a \<noteq> 0 then count_ptrs m (a + 4) (n + 1) else Some n)"

definition string_at :: "bytes_mem \<Rightarrow> u32 \<Rightarrow> u8 list res" where
  "string_at m a =
     (case kstrlen m a of None \<Rightarrow> Inl KHang | Some len \<Rightarrow> Inr (map (\<lambda>i. m (a + of_nat i)) [0..<unat len]))"

fun copy_strings :: "bytes_mem \<Rightarrow> u32 \<Rightarrow> nat \<Rightarrow> u8 list list res" where
  "copy_strings m a 0 = Inr []"
| "copy_strings m a (Suc n) =
     and_then (string_at m (ld32 m a)) (\<lambda>s. and_then (copy_strings m (a + 4) n) (\<lambda>ss. Inr (s # ss)))"

definition copy_string_array :: "bytes_mem \<Rightarrow> u32 \<Rightarrow> u8 list list res" where
  "copy_string_array m a =
     (if a = 0 then Inr []
      else case count_ptrs m a 0 of None \<Rightarrow> Inl KHang | Some n \<Rightarrow> copy_strings m a (unat n))"

section \<open>The loader\<close>

text \<open>
  \<open>p\<close> is the address \<open>kmalloc\<close> gives for the new process and \<open>fresh\<close> what the new file buffer holds. The
  path is a string of the kernel or of the space in use.
\<close>

definition elf_load :: "('d, 'e) vfs_driver option \<Rightarrow> (nat \<Rightarrow> u8) \<Rightarrow> u32 \<Rightarrow> u8 list \<Rightarrow> u32 \<Rightarrow> u32 \<Rightarrow> kstate \<Rightarrow> 'd \<Rightarrow>
    (u32 \<times> kstate \<times> 'd) res" where
  "elf_load driver fresh p path argv_addr envp_addr k d =
     and_then (vfs_open driver path d) (\<lambda>(node, d1).
       (case node of
          None \<Rightarrow> Inr (- 1, k, d1)
        | Some file \<Rightarrow>
           and_then (vfs_read driver file (vn_size file) d1) (\<lambda>(got_n, got, d2).
             (let sz = unat (vn_size file); buf = got @ map fresh [length got..<sz]; eh = decode_elf_header buf
              in if length got > sz then Inl (KFault ''write behind the file buffer'')
                 else if sz < 4 then Inl (KFault ''read behind the file buffer'')
                 else if elf_magic eh \<noteq> ELF_MAGIC then Inr (- 1, k, d2)
                 else if sz < 46 then Inl (KFault ''read behind the file buffer'')
                 else
                   and_then (proc_create p (elf_program_entry_offset eh) k) (\<lambda>k1.
                   and_then (lookup k1 p) (\<lambda>pr.
                   and_then (load_segments buf eh (proc_pd pr) 0 (unat (elf_program_header_table_entry_count eh)) 0 k1)
                     (\<lambda>(image_end, k2).
                   and_then (copy_string_array (vread k2 (active_pd k2)) argv_addr) (\<lambda>args.
                   and_then (copy_string_array (vread k2 (active_pd k2)) envp_addr) (\<lambda>envs.
                   and_then (vfs_close driver file d2) (\<lambda>d3.
                   and_then (scheduler_add_proc p
                       (update k2 p (pr\<lparr>program_break := (image_end + 0xFFF) AND 0xFFFFF000, mmap_next := 0x7000000,
                          argv := args, env := envs, proc_state := STARTING\<rparr>))) (\<lambda>k3.
                     Inr (proc_id pr, k3, d3)))))))))))) "

end
