(* ===== verification/Disk.thy ===== *)
theory Disk
  imports KPrelude
begin

text \<open>
  What the file system sees of the disk: sectors of 512 bytes, addressed by 28 bits, some of which may
  be unreadable. \<open>disk_read\<close> and \<open>disk_write\<close> are the contract of \<open>ata_read\<close> and \<open>ata_write\<close> of
  \<open>kernel/dev/src/ata.c\<close>: they transfer sector after sector and stop at the first that fails, so a read
  that fails has filled the front of its buffer.
\<close>

section \<open>Sectors\<close>

definition ATA_SECTOR_SIZE :: u32 where "ATA_SECTOR_SIZE = 512"

record disk =
  dk_sector :: "u32 \<Rightarrow> u8 list"
  dk_bad :: "u32 \<Rightarrow> bool"

definition lba28 :: "u32 \<Rightarrow> u32" where "lba28 lba = lba AND 0x0FFFFFFF"

fun read_sectors :: "disk \<Rightarrow> u32 \<Rightarrow> nat \<Rightarrow> bool \<times> u8 list" where
  "read_sectors d lba 0 = (True, [])"
| "read_sectors d lba (Suc n) =
     (if dk_bad d (lba28 lba) then (False, [])
      else (case read_sectors d (lba + 1) n of (ok, bs) \<Rightarrow> (ok, dk_sector d (lba28 lba) @ bs)))"

fun write_sectors :: "disk \<Rightarrow> u32 \<Rightarrow> u8 list \<Rightarrow> nat \<Rightarrow> bool \<times> disk" where
  "write_sectors d lba bs 0 = (True, d)"
| "write_sectors d lba bs (Suc n) =
     (if dk_bad d (lba28 lba) then (False, d)
      else write_sectors (d\<lparr>dk_sector := (dk_sector d)(lba28 lba := take 512 bs)\<rparr>) (lba + 1) (drop 512 bs) n)"

definition disk_read :: "disk \<Rightarrow> u32 \<Rightarrow> u8 \<Rightarrow> bool \<times> u8 list" where
  "disk_read d lba count = read_sectors d lba (unat count)"

definition disk_write :: "disk \<Rightarrow> u32 \<Rightarrow> u8 \<Rightarrow> u8 list \<Rightarrow> bool \<times> disk" where
  "disk_write d lba count bs = write_sectors d lba bs (unat count)"

section \<open>Laws\<close>

definition disk_ok :: "disk \<Rightarrow> bool" where
  "disk_ok d \<longleftrightarrow> (\<forall>l. length (dk_sector d l) = 512)"

text \<open>The sectors of a run that does not reach the end of the 28-bit range.\<close>

definition run_fits :: "u32 \<Rightarrow> nat \<Rightarrow> bool" where
  "run_fits lba n \<longleftrightarrow> unat lba + n \<le> 2 ^ 28"

definition run_good :: "disk \<Rightarrow> u32 \<Rightarrow> nat \<Rightarrow> bool" where
  "run_good d lba n \<longleftrightarrow> (\<forall>i<n. \<not> dk_bad d (lba + of_nat i))"

definition in_run :: "u32 \<Rightarrow> nat \<Rightarrow> u32 \<Rightarrow> bool" where
  "in_run lba n l \<longleftrightarrow> unat lba \<le> unat l \<and> unat l < unat lba + n"

lemma lba28_small: "unat lba < 2 ^ 28 \<Longrightarrow> lba28 lba = lba"
proof -
  assume a: "unat lba < 2 ^ 28"
  have m: "(0x0FFFFFFF :: u32) = mask 28" by (simp add: mask_eq_exp_minus_1)
  have "unat (take_bit 28 lba) = unat lba" using a by (simp add: unsigned_take_bit_eq take_bit_nat_eq_self)
  then show ?thesis unfolding lba28_def m take_bit_eq_mask [symmetric] by (rule unat_eq_imp)
qed

lemma run_step:
  assumes "run_fits lba (Suc n)"
  shows "lba28 lba = lba" and "run_fits (lba + 1) n" and "unat (lba + 1) = unat lba + 1"
proof -
  have "unat lba + Suc n \<le> 2 ^ 28" using assms by (simp add: run_fits_def)
  then have a: "unat lba < 2 ^ 28" "unat lba + 1 < 4294967296" "unat lba + 1 + n \<le> 2 ^ 28" by simp_all
  show "lba28 lba = lba" using a(1) by (rule lba28_small)
  show u: "unat (lba + 1) = unat lba + 1" using a(2) unat_add_small [of lba 1] by simp
  show "run_fits (lba + 1) n" unfolding run_fits_def u using a(3) .
qed

lemma run_good_Suc: "run_good d lba (Suc n) \<longleftrightarrow> \<not> dk_bad d lba \<and> run_good d (lba + 1) n"
  by (auto simp: run_good_def All_less_Suc2 add.assoc)

lemma read_sectors_good:
  assumes "run_fits lba n" "run_good d lba n"
  shows "read_sectors d lba n = (True, concat (map (\<lambda>i. dk_sector d (lba + of_nat i)) [0..<n]))"
  using assms
proof (induction n arbitrary: lba)
  case 0
  show ?case by simp
next
  case (Suc n)
  note s = run_step [OF Suc.prems(1)]
  have g: "\<not> dk_bad d lba" "run_good d (lba + 1) n" using Suc.prems(2) by (simp_all add: run_good_Suc)
  have "[0..<Suc n] = 0 # map Suc [0..<n]" by (simp add: map_Suc_upt upt_conv_Cons del: upt_Suc)
  then have m: "map (\<lambda>i. dk_sector d (lba + of_nat i)) [0..<Suc n] =
      dk_sector d lba # map (\<lambda>i. dk_sector d (lba + 1 + of_nat i)) [0..<n]"
    by (simp add: add.assoc comp_def)
  show ?case unfolding m using Suc.IH [OF s(2) g(2)] s(1) g(1) by simp
qed

lemma concat_sectors_length:
  assumes "disk_ok d"
  shows "length (concat (map (\<lambda>i. dk_sector d (f i)) [0..<n])) = 512 * n"
  using assms by (induction n) (simp_all add: disk_ok_def)

lemma read_sectors_length:
  assumes "disk_ok d" "read_sectors d lba n = (True, bs)"
  shows "length bs = 512 * n"
  using assms by (induction n arbitrary: lba bs) (auto simp: disk_ok_def split: if_splits prod.splits)

lemma read_sectors_le:
  assumes "disk_ok d" "read_sectors d lba n = (ok, bs)"
  shows "length bs \<le> 512 * n"
  using assms by (induction n arbitrary: lba bs ok) (fastforce simp: disk_ok_def split: if_splits prod.splits)+

lemma read_sectors_cong:
  assumes "run_fits lba n" "dk_bad d' = dk_bad d"
    and "\<And>l. in_run lba n l \<Longrightarrow> dk_sector d' l = dk_sector d l"
  shows "read_sectors d' lba n = read_sectors d lba n"
  using assms(1,3)
proof (induction n arbitrary: lba)
  case 0
  show ?case by simp
next
  case (Suc n)
  note s = run_step [OF Suc.prems(1)]
  have "dk_sector d' l = dk_sector d l" if "in_run (lba + 1) n l" for l
    using that by (intro Suc.prems(2)) (auto simp: in_run_def s(3))
  then have "read_sectors d' (lba + 1) n = read_sectors d (lba + 1) n" by (intro Suc.IH [OF s(2)]) auto
  moreover have "dk_sector d' lba = dk_sector d lba" by (rule Suc.prems(2)) (simp add: in_run_def)
  ultimately show ?case by (simp add: s(1) assms(2))
qed

lemma write_sectors_result:
  assumes "run_fits lba n" "run_good d lba n" "length bs = 512 * n" "disk_ok d"
  shows "\<exists>d'. write_sectors d lba bs n = (True, d') \<and> dk_bad d' = dk_bad d \<and> disk_ok d' \<and>
    (\<forall>l. \<not> in_run lba n l \<longrightarrow> dk_sector d' l = dk_sector d l) \<and> read_sectors d' lba n = (True, bs)"
  using assms
proof (induction n arbitrary: d lba bs)
  case 0
  then show ?case by simp
next
  case (Suc n)
  note s = run_step [OF Suc.prems(1)]
  have g: "\<not> dk_bad d lba" "run_good d (lba + 1) n" using Suc.prems(2) by (simp_all add: run_good_Suc)
  let ?d1 = "d\<lparr>dk_sector := (dk_sector d)(lba := take 512 bs)\<rparr>"
  have len: "length (take 512 bs) = 512" "length (drop 512 bs) = 512 * n" using Suc.prems(3) by simp_all
  have ok1: "disk_ok ?d1" using Suc.prems(4) len(1) by (simp add: disk_ok_def)
  have g1: "run_good ?d1 (lba + 1) n" using g(2) by (simp add: run_good_def)
  from Suc.IH [OF s(2) g1 len(2) ok1] obtain d' where
    d': "write_sectors ?d1 (lba + 1) (drop 512 bs) n = (True, d')" "dk_bad d' = dk_bad ?d1" "disk_ok d'"
      "\<And>l. \<not> in_run (lba + 1) n l \<Longrightarrow> dk_sector d' l = dk_sector ?d1 l"
      "read_sectors d' (lba + 1) n = (True, drop 512 bs)" by blast
  have first: "dk_sector d' lba = take 512 bs" using d'(4) [of lba] by (simp add: in_run_def s(3))
  have "dk_sector d' l = dk_sector d l" if "\<not> in_run lba (Suc n) l" for l
  proof -
    have "unat l \<noteq> unat lba" "\<not> in_run (lba + 1) n l" using that by (auto simp: in_run_def s(3))
    then show ?thesis using d'(4) [of l] by auto
  qed
  moreover have "read_sectors d' lba (Suc n) = (True, bs)"
    using d'(2,5) g(1) first by (simp add: s(1))
  ultimately show ?case using d'(1,2,3) g(1) by (simp add: s(1))
qed

text \<open>Whether it succeeds or not, a write changes only the sectors of its run.\<close>

lemma write_sectors_frame:
  assumes "run_fits lba n" "length bs = 512 * n" "disk_ok d" "write_sectors d lba bs n = (ok, d')"
  shows "dk_bad d' = dk_bad d \<and> disk_ok d' \<and> (\<forall>l. \<not> in_run lba n l \<longrightarrow> dk_sector d' l = dk_sector d l)"
  using assms
proof (induction n arbitrary: d lba bs)
  case 0
  then show ?case by simp
next
  case (Suc n)
  note s = run_step [OF Suc.prems(1)]
  let ?d1 = "d\<lparr>dk_sector := (dk_sector d)(lba := take 512 bs)\<rparr>"
  show ?case
  proof (cases "dk_bad d lba")
    case True
    then show ?thesis using Suc.prems by (simp add: s(1))
  next
    case False
    have "write_sectors ?d1 (lba + 1) (drop 512 bs) n = (ok, d')" using Suc.prems(4) False by (simp add: s(1))
    moreover have "disk_ok ?d1" "length (drop 512 bs) = 512 * n" using Suc.prems(2,3) by (simp_all add: disk_ok_def)
    ultimately have ih: "dk_bad d' = dk_bad ?d1" "disk_ok d'"
      "\<And>l. \<not> in_run (lba + 1) n l \<Longrightarrow> dk_sector d' l = dk_sector ?d1 l"
      using Suc.IH [OF s(2)] by blast+
    have "dk_sector d' l = dk_sector d l" if "\<not> in_run lba (Suc n) l" for l
    proof -
      have "unat l \<noteq> unat lba" "\<not> in_run (lba + 1) n l" using that by (auto simp: in_run_def s(3))
      then show ?thesis using ih(3) [of l] by auto
    qed
    then show ?thesis using ih(1,2) by simp
  qed
qed

lemma in_run_disjoint:
  assumes "unat a + n \<le> unat b \<or> unat b + m \<le> unat a" "in_run a n l"
  shows "\<not> in_run b m l"
  using assms by (auto simp: in_run_def)

end
