(* ===== verification/Ext2.thy ===== *)
theory Ext2
  imports Disk Ext2Data Kstring
begin

text \<open>
  The file system driver, \<open>kernel/fs/src/ext2.c\<close>: mounting, inodes, block pointers, directories,
  paths, reading and writing files, the two allocators and the creation of a file. A routine takes the
  driver's static variables with the disk as one record and returns it updated.
\<close>

section \<open>State\<close>

text \<open>
  \<open>x_fresh\<close> is what the bytes of a new allocation hold before they are written; nothing is known of
  them. \<open>x_bgdt\<close> is \<open>fs_ext2_bgdt\<close>, an array of \<open>x_nb_groups\<close> descriptors.
\<close>

record ext2 =
  x_disk :: disk
  x_fresh :: "nat \<Rightarrow> u8"
  x_sb :: sb_base
  x_sbx :: sb_extended
  x_has_extended :: bool
  x_bgdt :: "group_desc list"
  x_sb_read :: bool
  x_bgdt_read :: bool
  x_nb_groups :: u32
  x_block_size :: u32
  x_lba_root :: u32

definition FS_MBR_LBA :: u32 where "FS_MBR_LBA = 0"
definition FS_EXT2_SIGNATURE :: u16 where "FS_EXT2_SIGNATURE = 0xEF53"

definition fresh_bytes :: "ext2 \<Rightarrow> nat \<Rightarrow> u8 list" where
  "fresh_bytes x n = map (x_fresh x) [0..<n]"

definition blk_to_lba :: "ext2 \<Rightarrow> u32 \<Rightarrow> u32" where
  "blk_to_lba x bn = x_lba_root x + bn * x_block_size x div ATA_SECTOR_SIZE"

definition blk_sectors :: "ext2 \<Rightarrow> u8" where
  "blk_sectors x = ucast (x_block_size x div ATA_SECTOR_SIZE)"

text \<open>\<open>kmalloc (block_size)\<close> and \<open>ata_read\<close> of a whole block into it; and \<open>ata_write\<close> of one.\<close>

definition read_run :: "ext2 \<Rightarrow> u32 \<Rightarrow> bool \<times> u8 list" where
  "read_run x lba =
     (case disk_read (x_disk x) lba (blk_sectors x) of
        (ok, got) \<Rightarrow> (ok, got @ drop (length got) (fresh_bytes x (unat (x_block_size x)))))"

definition write_run :: "ext2 \<Rightarrow> u32 \<Rightarrow> u8 list \<Rightarrow> bool \<times> ext2" where
  "write_run x lba buf =
     (case disk_write (x_disk x) lba (blk_sectors x) buf of (ok, d) \<Rightarrow> (ok, x\<lparr>x_disk := d\<rparr>))"

definition read_blk :: "ext2 \<Rightarrow> u32 \<Rightarrow> bool \<times> u8 list" where
  "read_blk x bn = read_run x (blk_to_lba x bn)"

definition write_blk :: "ext2 \<Rightarrow> u32 \<Rightarrow> u8 list \<Rightarrow> bool \<times> ext2" where
  "write_blk x bn buf = write_run x (blk_to_lba x bn) buf"

section \<open>Mounting\<close>

definition fs_ext2_read_superblock :: "ext2 \<Rightarrow> ext2 res" where
  "fs_ext2_read_superblock x =
     (case disk_read (x_disk x) FS_MBR_LBA 1 of
        (False, mbr) \<Rightarrow> Inl (KPanic ''ext2_read_superblock: failed to read MBR'')
      | (True, mbr) \<Rightarrow>
          (let root = get32 mbr (0x1BE + 8)
           in case disk_read (x_disk x) (root + 2) 2 of
                (False, buf) \<Rightarrow> Inl (KPanic ''ext2_read_superblock: failed to read superblock from disk'')
              | (True, buf) \<Rightarrow>
                  (let base = decode_sb_base buf 0;
                       has = (sb_ext2_signature base = FS_EXT2_SIGNATURE);
                       sbx = (if has then decode_sb_extended buf 84
                              else (x_sbx x)\<lparr>sbx_inode_size := 128, sbx_first_non_reserved_inode := 11\<rparr>)
                   in if sb_log_block_size base \<ge> 32 then Inl (KFault ''shift by the block size'')
                      else if sb_nb_blocks_in_group base = 0 then Inl (KFault ''division by zero'')
                      else Inr (x\<lparr>x_lba_root := root, x_sb := base, x_sbx := sbx, x_has_extended := has,
                             x_sb_read := True, x_block_size := push_bit (unat (sb_log_block_size base)) 1024,
                             x_nb_groups := CEIL_DIV (sb_blocks_count base) (sb_nb_blocks_in_group base)\<rparr>))))"

definition DESC_SIZE :: u32 where "DESC_SIZE = 32"

definition bgdt_size :: "ext2 \<Rightarrow> u32" where "bgdt_size x = x_nb_groups x * DESC_SIZE"

definition bgdt_sectors :: "ext2 \<Rightarrow> u8" where
  "bgdt_sectors x = ucast (CEIL_DIV (bgdt_size x) ATA_SECTOR_SIZE)"

text \<open>\<open>ata_read\<close> stores whole sectors: into a buffer of \<open>bgdt_size\<close> bytes they may not fit.\<close>

definition fs_ext2_read_bgdt :: "ext2 \<Rightarrow> ext2 res" where
  "fs_ext2_read_bgdt x =
     (if \<not> x_sb_read x then Inl (KPanic ''FS_EXT2_NO_SB: tried to read BGDT on disk when superblock was not read'')
      else case disk_read (x_disk x) (x_lba_root x + 4) (bgdt_sectors x) of
        (ok, got) \<Rightarrow>
          (if length got > unat (bgdt_size x) then Inl (KFault ''write behind the BGDT buffer'')
           else if \<not> ok then Inl (KPanic ''ext2_read_bgdt: could not read bgdt from disk'')
           else let buf = got @ drop (length got) (fresh_bytes x (unat (bgdt_size x)))
                in Inr (x\<lparr>x_bgdt := map (\<lambda>g. decode_desc buf (32 * g)) [0..<unat (x_nb_groups x)],
                       x_bgdt_read := True\<rparr>)))"

definition fs_ext2_allread :: "ext2 \<Rightarrow> unit res" where
  "fs_ext2_allread x =
     (if \<not> x_sb_read x then Inl (KPanic ''could not do operation, superblock was not read'')
      else if \<not> x_bgdt_read x then Inl (KPanic ''could not do operation, BGDT was not read'')
      else Inr ())"

section \<open>Inodes\<close>

text \<open>Where an inode is: its block and its offset in the block.\<close>

definition inode_slot :: "ext2 \<Rightarrow> u32 \<Rightarrow> (u32 \<times> nat) res" where
  "inode_slot x ino_id =
     (let ipg = sb_nb_inodes_in_group (x_sb x); bs = x_block_size x
      in if ipg = 0 \<or> bs = 0 then Inl (KFault ''division by zero'')
         else let grp = (ino_id - 1) div ipg; idx = (ino_id - 1) mod ipg;
                  pos = idx * ucast (sbx_inode_size (x_sbx x))
              in if unat grp \<ge> length (x_bgdt x) then Inl (KFault ''BGDT index'')
                 else Inr (dsc_inode_table (x_bgdt x ! unat grp) + pos div bs, unat (pos mod bs)))"

definition fs_ext2_read_inode :: "ext2 \<Rightarrow> u32 \<Rightarrow> inode res" where
  "fs_ext2_read_inode x ino_id =
     and_then (fs_ext2_allread x) (\<lambda>_.
     and_then (inode_slot x ino_id) (\<lambda>(bn, off).
       (case read_blk x bn of
          (False, buf) \<Rightarrow> Inr zero_inode
        | (True, buf) \<Rightarrow>
            (if off + INODE_BYTES > length buf then Inl (KFault ''read behind the inode block'')
             else Inr (decode_inode buf off ino_id)))))"

definition fs_ext2_write_inode :: "inode \<Rightarrow> ext2 \<Rightarrow> (bool \<times> ext2) res" where
  "fs_ext2_write_inode ino x =
     and_then (fs_ext2_allread x) (\<lambda>_.
     and_then (inode_slot x (inode_id ino)) (\<lambda>(bn, off).
       (case read_blk x bn of
          (False, buf) \<Rightarrow> Inr (False, x)
        | (True, buf) \<Rightarrow>
            (if off + INODE_BYTES > length buf then Inl (KFault ''write behind the inode block'')
             else Inr (write_blk x bn (overwrite buf off (encode_inode ino)))))))"

section \<open>Writing back the descriptors and the super block\<close>

definition fs_ext2_write_bgdt_to_disk :: "ext2 \<Rightarrow> ext2" where
  "fs_ext2_write_bgdt_to_disk x =
     (let bytes = concat (map encode_desc (x_bgdt x)); n = 512 * unat (bgdt_sectors x)
      in x\<lparr>x_disk := snd (disk_write (x_disk x) (x_lba_root x + 4) (bgdt_sectors x)
                             (bytes @ drop (length bytes) (fresh_bytes x n)))\<rparr>)"

definition fs_ext2_write_sb_base_to_disk :: "ext2 \<Rightarrow> ext2" where
  "fs_ext2_write_sb_base_to_disk x =
     (case read_run x (x_lba_root x + 2) of
        (False, buf) \<Rightarrow> x
      | (True, buf) \<Rightarrow> snd (write_run x (x_lba_root x + 2) (overwrite buf 0 (encode_sb_base (x_sb x)))))"

section \<open>The two allocators\<close>

text \<open>
  The first clear bit of a bitmap: \<open>bit_index\<close> runs over the bits of a byte, \<open>byte_index\<close> over the
  bytes; the last argument is the number of steps left.
\<close>

fun zero_bit :: "u8 \<Rightarrow> nat \<Rightarrow> nat \<Rightarrow> nat option" where
  "zero_bit b bit_index 0 = None"
| "zero_bit b bit_index (Suc n) =
     (if drop_bit bit_index b AND 1 = 0 then Some bit_index else zero_bit b (bit_index + 1) n)"

fun zero_byte :: "u8 list \<Rightarrow> nat \<Rightarrow> nat \<Rightarrow> (nat \<times> nat) option" where
  "zero_byte bm byte_index 0 = None"
| "zero_byte bm byte_index (Suc n) =
     (case zero_bit (bm ! byte_index) 0 8 of
        Some bit_index \<Rightarrow> Some (byte_index, bit_index)
      | None \<Rightarrow> zero_byte bm (byte_index + 1) n)"

definition set_bitmap :: "u8 list \<Rightarrow> nat \<Rightarrow> nat \<Rightarrow> u8 list" where
  "set_bitmap bm byte_index bit_index = bm[byte_index := bm ! byte_index OR push_bit bit_index 1]"

definition take_block :: "ext2 \<Rightarrow> nat \<Rightarrow> ext2" where
  "take_block x grp = x\<lparr>
     x_bgdt := (x_bgdt x)[grp := (x_bgdt x ! grp)\<lparr>dsc_unallocated_blocks := dsc_unallocated_blocks (x_bgdt x ! grp) - 1\<rparr>],
     x_sb := (x_sb x)\<lparr>sb_unallocated_blocks_count := sb_unallocated_blocks_count (x_sb x) - 1\<rparr>\<rparr>"

text \<open>
  When the bitmap cannot be written back the buffer is freed and \<open>continue\<close> goes on with the next bit
  of it: a use after free.
\<close>

fun alloc_block_loop :: "ext2 \<Rightarrow> u32 \<Rightarrow> u32 \<Rightarrow> nat \<Rightarrow> (u32 \<times> ext2) res" where
  "alloc_block_loop x preferred bn 0 = Inr (0, x)"
| "alloc_block_loop x preferred bn (Suc n) =
     (let grp = (preferred + bn) mod x_nb_groups x
      in if unat grp \<ge> length (x_bgdt x) then Inl (KFault ''BGDT index'')
         else let desc = x_bgdt x ! unat grp
              in if dsc_unallocated_blocks desc > 0
                 then (case read_blk x (dsc_block_bitmap desc) of
                         (False, bm) \<Rightarrow> alloc_block_loop x preferred (bn + 1) n
                       | (True, bm) \<Rightarrow>
                          (case zero_byte bm 0 (unat (x_block_size x)) of
                             None \<Rightarrow> alloc_block_loop x preferred (bn + 1) n
                           | Some (byte_index, bit_index) \<Rightarrow>
                              (case write_blk x (dsc_block_bitmap desc) (set_bitmap bm byte_index bit_index) of
                                 (False, x1) \<Rightarrow> Inl (KFault ''block bitmap used after free'')
                               | (True, x1) \<Rightarrow>
                                  Inr (grp * sb_nb_blocks_in_group (x_sb x) + of_nat (byte_index * 8 + bit_index),
                                       fs_ext2_write_sb_base_to_disk (fs_ext2_write_bgdt_to_disk (take_block x1 (unat grp)))))))
                 else alloc_block_loop x preferred (bn + 1) n)"

definition fs_ext2_alloc_block :: "u32 \<Rightarrow> ext2 \<Rightarrow> (u32 \<times> ext2) res" where
  "fs_ext2_alloc_block preferred x = alloc_block_loop x preferred 0 (unat (x_nb_groups x))"

definition take_inode :: "ext2 \<Rightarrow> nat \<Rightarrow> ext2" where
  "take_inode x grp = x\<lparr>
     x_bgdt := (x_bgdt x)[grp := (x_bgdt x ! grp)\<lparr>dsc_unallocated_inodes := dsc_unallocated_inodes (x_bgdt x ! grp) - 1\<rparr>],
     x_sb := (x_sb x)\<lparr>sb_unallocated_inodes_count := sb_unallocated_inodes_count (x_sb x) - 1\<rparr>\<rparr>"

fun alloc_inode_loop :: "ext2 \<Rightarrow> u32 \<Rightarrow> u32 \<Rightarrow> nat \<Rightarrow> (u32 \<times> ext2) res" where
  "alloc_inode_loop x preferred bn 0 = Inr (0, x)"
| "alloc_inode_loop x preferred bn (Suc n) =
     (let grp = (preferred + bn) mod x_nb_groups x
      in if unat grp \<ge> length (x_bgdt x) then Inl (KFault ''BGDT index'')
         else let desc = x_bgdt x ! unat grp; bytes = unat (sb_nb_inodes_in_group (x_sb x) div 8)
              in if dsc_unallocated_inodes desc > 0
                 then (case read_blk x (dsc_inode_bitmap desc) of
                         (False, bm) \<Rightarrow> alloc_inode_loop x preferred (bn + 1) n
                       | (True, bm) \<Rightarrow>
                          (case zero_byte bm 0 (min bytes (length bm)) of
                             None \<Rightarrow> (if bytes > length bm then Inl (KFault ''read behind the inode bitmap'')
                                      else alloc_inode_loop x preferred (bn + 1) n)
                           | Some (byte_index, bit_index) \<Rightarrow>
                              (case write_blk x (dsc_inode_bitmap desc) (set_bitmap bm byte_index bit_index) of
                                 (False, x1) \<Rightarrow> Inl (KFault ''inode bitmap used after free'')
                               | (True, x1) \<Rightarrow>
                                  Inr (grp * sb_nb_inodes_in_group (x_sb x) + of_nat (byte_index * 8 + bit_index) + 1,
                                       fs_ext2_write_sb_base_to_disk (fs_ext2_write_bgdt_to_disk (take_inode x1 (unat grp)))))))
                 else alloc_inode_loop x preferred (bn + 1) n)"

definition fs_ext2_alloc_inode :: "u32 \<Rightarrow> ext2 \<Rightarrow> (u32 \<times> ext2) res" where
  "fs_ext2_alloc_inode preferred x = alloc_inode_loop x preferred 0 (unat (x_nb_groups x))"

end
