(* ===== verification/Ext2File.thy ===== *)
theory Ext2File
  imports Ext2
begin

text \<open>
  The second half of \<open>kernel/fs/src/ext2.c\<close>: the blocks of a file, directories and paths, reading,
  writing and creating files.
\<close>

section \<open>Block pointers\<close>

text \<open>
  \<open>ata_read\<close>'s result is not looked at here: when it fails the pointer is read from what the buffer
  holds.
\<close>

definition get_block_ptr :: "ext2 \<Rightarrow> inode \<Rightarrow> u32 \<Rightarrow> u32" where
  "get_block_ptr x ino i =
     (if i < 12 then inode_direct_blk_ptrs ino ! unat i
      else let j = i - 12
           in if j \<ge> x_block_size x div 4 then 0
              else if inode_singly_indirect_blk_ptr ino = 0 then 0
              else get32 (snd (read_blk x (inode_singly_indirect_blk_ptr ino))) (4 * unat j))"

definition get_or_alloc_block_ptr :: "inode \<Rightarrow> u32 \<Rightarrow> ext2 \<Rightarrow> (u32 \<times> inode \<times> ext2) res" where
  "get_or_alloc_block_ptr ino i x =
     (if i < 12
      then (if inode_direct_blk_ptrs ino ! unat i = 0
            then and_then (fs_ext2_alloc_block 0 x) (\<lambda>(bn, x1).
                   Inr (bn, ino\<lparr>inode_direct_blk_ptrs := (inode_direct_blk_ptrs ino)[unat i := bn]\<rparr>, x1))
            else Inr (inode_direct_blk_ptrs ino ! unat i, ino, x))
      else let j = i - 12
           in if j \<ge> x_block_size x div 4 then Inr (0, ino, x)
              else and_then
                (if inode_singly_indirect_blk_ptr ino = 0
                 then and_then (fs_ext2_alloc_block 0 x) (\<lambda>(bn, x1).
                        Inr (ino\<lparr>inode_singly_indirect_blk_ptr := bn\<rparr>, x1))
                 else Inr (ino, x)) (\<lambda>(ino1, x1).
                (let ptr = inode_singly_indirect_blk_ptr ino1; ind = snd (read_blk x1 ptr)
                 in if get32 ind (4 * unat j) = 0
                    then and_then (fs_ext2_alloc_block 0 x1) (\<lambda>(bn, x2).
                           Inr (bn, ino1, snd (write_blk x2 ptr (overwrite ind (4 * unat j) (put32 bn)))))
                    else Inr (get32 ind (4 * unat j), ino1, x1))))"

section \<open>Directories and paths\<close>

text \<open>
  One block of a directory, from \<open>offset\<close> on. An entry of size 0 keeps \<open>offset\<close> where it is, and the
  loop adds copies of it without end.
\<close>

definition entry_at :: "u8 list \<Rightarrow> nat \<Rightarrow> dir_ent" where
  "entry_at buf offset = \<lparr>entry_inode = get32 buf offset, entry_size = get16 buf (offset + 4),
     entry_name_len = get8 buf (offset + 6), entry_type = get8 buf (offset + 7),
     entry_name = get_bytes buf (offset + 8) (unat (get8 buf (offset + 6)))\<rparr>"

function dir_block :: "u8 list \<Rightarrow> nat \<Rightarrow> dir_ent list res" where
  "dir_block buf offset =
     (if offset < length buf
      then (if offset + 8 > length buf then Inl (KFault ''read behind the directory block'')
            else let e = entry_at buf offset
                 in if offset + 8 + unat (entry_name_len e) > length buf
                    then Inl (KFault ''read behind the directory block'')
                    else if unat (entry_size e) = 0 then Inl KHang
                    else and_then (dir_block buf (offset + unat (entry_size e))) (\<lambda>es. Inr (e # es)))
      else Inr [])"
  by pat_completeness auto

termination
  by (relation "measure (\<lambda>(buf, offset). length buf - offset)") auto

text \<open>The blocks from \<open>i\<close> on, \<open>n\<close> of them. \<open>None\<close> is the null pointer of a failed read.\<close>

fun dir_blocks :: "ext2 \<Rightarrow> inode \<Rightarrow> u32 \<Rightarrow> nat \<Rightarrow> dir_ent list option res" where
  "dir_blocks x ino i 0 = Inr (Some [])"
| "dir_blocks x ino i (Suc n) =
     (case read_blk x (get_block_ptr x ino i) of
        (False, buf) \<Rightarrow> Inr None
      | (True, buf) \<Rightarrow>
          and_then (dir_block buf 0) (\<lambda>es.
          and_then (dir_blocks x ino (i + 1) n) (\<lambda>rest.
            Inr (case rest of None \<Rightarrow> None | Some es' \<Rightarrow> Some (es @ es')))))"

definition nb_blocks :: "ext2 \<Rightarrow> inode \<Rightarrow> u32" where
  "nb_blocks x ino = CEIL_DIV (inode_size_low_bits ino) (x_block_size x)"

definition fs_ext2_list_dir :: "ext2 \<Rightarrow> inode \<Rightarrow> dir_ent list option res" where
  "fs_ext2_list_dir x ino =
     (if \<not> is_inode_dir ino then Inr None
      else if x_block_size x = 0 then Inl (KFault ''division by zero'')
      else dir_blocks x ino 0 (unat (nb_blocks x ino)))"

text \<open>\<open>kstrcmp (name, entry_name) = 0\<close>: names are compared up to the first NUL.\<close>

definition c_str :: "u8 list \<Rightarrow> u8 list" where "c_str bs = takeWhile (\<lambda>b. b \<noteq> 0) bs"

fun find_entry :: "u8 list \<Rightarrow> dir_ent list \<Rightarrow> u32" where
  "find_entry name [] = 0"
| "find_entry name (e # es) = (if c_str name = c_str (entry_name e) then entry_inode e else find_entry name es)"

text \<open>The name is \<open>None\<close> when \<open>dynarray_get\<close> gave the null pointer.\<close>

definition fs_ext2_find_in_dir :: "ext2 \<Rightarrow> inode \<Rightarrow> u8 list option \<Rightarrow> u32 res" where
  "fs_ext2_find_in_dir x dir name =
     and_then (fs_ext2_list_dir x dir) (\<lambda>entries.
       (case entries of
          None \<Rightarrow> Inr 0
        | Some es \<Rightarrow>
            (case name of
               None \<Rightarrow> (if es = [] then Inr 0 else Inl (KFault ''kstrcmp(0)''))
             | Some nm \<Rightarrow> Inr (find_entry nm es))))"

text \<open>The loop over the components from \<open>i\<close> on; \<open>n\<close> of them are left.\<close>

fun resolve_loop :: "ext2 \<Rightarrow> u8 list dynarray \<Rightarrow> u32 \<Rightarrow> inode \<Rightarrow> nat \<Rightarrow> inode res" where
  "resolve_loop x names i ino 0 = Inr ino"
| "resolve_loop x names i ino (Suc n) =
     and_then (fs_ext2_find_in_dir x ino (dynarray_get names i)) (\<lambda>next_id.
       (if next_id = 0 then Inr zero_inode
        else and_then (fs_ext2_read_inode x next_id) (\<lambda>next_inode.
               resolve_loop x names (i + 1) next_inode n)))"

definition SLASH :: u8 where "SLASH = 0x2F"

text \<open>The first component is looked up in the root even when there is none.\<close>

definition fs_ext2_resolve_path :: "ext2 \<Rightarrow> u8 list \<Rightarrow> inode res" where
  "fs_ext2_resolve_path x path =
     and_then (fs_ext2_read_inode x 2) (\<lambda>fs_root.
       (if path = [SLASH] then Inr fs_root
        else and_then (kstrsplit path SLASH) (\<lambda>names.
          (let start = (if path \<noteq> [] \<and> hd path = SLASH then 1 else 0)
           in and_then (fs_ext2_find_in_dir x fs_root (dynarray_get names start)) (\<lambda>next_id.
                (if next_id = 0 then Inr zero_inode
                 else and_then (fs_ext2_read_inode x next_id) (\<lambda>next_inode.
                        resolve_loop x names (1 + start) next_inode (unat (da_count names) - unat (1 + start)))))))))"

section \<open>Reading and writing\<close>

text \<open>
  \<open>while (i < nb_blocks && written_bytes < size)\<close>, with \<open>n = nb_blocks - i\<close> blocks left; the result
  is what was stored in the caller's buffer.
\<close>

fun read_file_loop :: "ext2 \<Rightarrow> inode \<Rightarrow> u32 \<Rightarrow> u32 \<Rightarrow> u32 \<Rightarrow> nat \<Rightarrow> u8 list" where
  "read_file_loop x ino size_wanted i written 0 = []"
| "read_file_loop x ino size_wanted i written (Suc n) =
     (if \<not> written < size_wanted then []
      else let cnt = KMIN (size_wanted - written) (x_block_size x); bn = get_block_ptr x ino i
           in if bn = 0 then []
              else (case read_blk x bn of
                      (False, buf) \<Rightarrow> []
                    | (True, buf) \<Rightarrow> take (unat cnt) buf @ read_file_loop x ino size_wanted (i + 1) (written + cnt) n))"

definition fs_ext2_read_file_contents :: "ext2 \<Rightarrow> inode \<Rightarrow> u32 \<Rightarrow> (u32 \<times> u8 list) res" where
  "fs_ext2_read_file_contents x ino size_wanted =
     (if \<not> is_inode_file ino then Inr (- 1, [])
      else if x_block_size x = 0 then Inl (KFault ''division by zero'')
      else let bytes = read_file_loop x ino size_wanted 0 0 (unat (nb_blocks x ino))
           in Inr (of_nat (length bytes), bytes))"

text \<open>
  The loop of \<open>fs_ext2_write_file\<close> with fuel: every round writes at least one byte of the data, and with
  a block size of 0 the pointers end after twelve, so \<open>length data + 13\<close> rounds are enough.
\<close>

fun write_file_loop :: "nat \<Rightarrow> u8 list \<Rightarrow> inode \<Rightarrow> u32 \<Rightarrow> u32 \<Rightarrow> ext2 \<Rightarrow> (u32 \<times> inode \<times> ext2) res" where
  "write_file_loop 0 data ino i written x = Inl KHang"
| "write_file_loop (Suc fuel) data ino i written x =
     (if \<not> written < of_nat (length data) then Inr (written, ino, x)
      else let cnt = KMIN (of_nat (length data) - written) (x_block_size x)
           in and_then (get_or_alloc_block_ptr ino i x) (\<lambda>(bn, ino1, x1).
                (if bn = 0 then Inr (written, ino1, x1)
                 else (case read_blk x1 bn of
                         (False, buf) \<Rightarrow> Inr (written, ino1, x1)
                       | (True, buf) \<Rightarrow>
                          (case write_blk x1 bn (overwrite buf 0 (take (unat cnt) (drop (unat written) data))) of
                             (False, x2) \<Rightarrow> Inr (written, ino1, x2)
                           | (True, x2) \<Rightarrow> write_file_loop fuel data ino1 (i + 1) (written + cnt) x2)))))"

definition fs_ext2_write_file :: "inode \<Rightarrow> u8 list \<Rightarrow> ext2 \<Rightarrow> (u32 \<times> inode \<times> ext2) res" where
  "fs_ext2_write_file ino data x =
     (if \<not> is_inode_file ino then Inr (- 1, ino, x)
      else and_then (write_file_loop (length data + 13) data
                       (ino\<lparr>inode_size_low_bits := of_nat (length data)\<rparr>) 0 0 x) (\<lambda>(written, ino1, x1).
           and_then (fs_ext2_write_inode ino1 x1) (\<lambda>(ok, x2). Inr (written, ino1, x2))))"

section \<open>Creating a file\<close>

text \<open>The path of the directory the file goes to, and its name.\<close>

definition parent_dir :: "u8 list \<Rightarrow> (u8 list \<times> u8 list option) res" where
  "parent_dir path =
     and_then (kstrsplit path SLASH) (\<lambda>path_names.
       (case dynarray_remove_last path_names of
          (filename, names) \<Rightarrow>
            (if da_count names = 0 then Inr ([SLASH], filename)
             else (case dynarray_get names 0 of
                     None \<Rightarrow> Inl (KFault ''kstrlen(0)'')
                   | Some first \<Rightarrow>
                       (if first = [] then Inr ([SLASH], filename)
                        else and_then (kstrjoin names SLASH) (\<lambda>dir. Inr (dir, filename)))))))"

text \<open>
  The entry that ends with the block: its offset, \<open>None\<close> when the loop meets none (\<open>last_entry\<close> is then
  not initialised).
\<close>

function last_entry :: "u8 list \<Rightarrow> nat \<Rightarrow> nat option \<Rightarrow> nat option res" where
  "last_entry buf offset found =
     (if offset < length buf
      then (if offset + 8 > length buf then Inl (KFault ''read behind the directory block'')
            else let sz = unat (get16 buf (offset + 4))
                 in if sz = 0 then Inl KHang
                    else last_entry buf (offset + sz) (if sz + offset = length buf then Some offset else found))
      else Inr found)"
  by pat_completeness auto

termination
  by (relation "measure (\<lambda>(buf, offset, found). length buf - offset)") auto

text \<open>The name of the entry is what \<open>kstrlen\<close>, cut to 8 bits, says.\<close>

definition append_entry :: "u8 list \<Rightarrow> nat \<Rightarrow> u32 \<Rightarrow> u8 list \<Rightarrow> u8 list res" where
  "append_entry buf last_off ino_id filename =
     (let used = CEIL_DIV (8 + ucast (get8 buf (last_off + 6))) 4 * 4;
          buf1 = overwrite buf (last_off + 4) (put16 (ucast used));
          new_off = last_off + unat (ucast used :: u16);
          len = ucast (of_nat (length filename) :: u32);
          e = encode_entry \<lparr>entry_inode = ino_id, entry_size = of_nat (length buf - new_off),
                entry_name_len = len, entry_type = 1, entry_name = take (unat len) filename\<rparr>
      in if new_off + length e > length buf then Inl (KFault ''write behind the directory block'')
         else Inr (overwrite buf1 new_off e))"

definition new_file_inode :: "u32 \<Rightarrow> inode" where
  "new_file_inode ino_id = zero_inode\<lparr>inode_type_and_permissions := 0x81A4, inode_size_low_bits := 0,
     inode_hard_links_count := 1, inode_id := ino_id\<rparr>"

definition fs_ext2_create_file :: "u8 list \<Rightarrow> u8 list \<Rightarrow> ext2 \<Rightarrow> ext2 res" where
  "fs_ext2_create_file path data x =
     and_then (fs_ext2_alloc_inode 0 x) (\<lambda>(ino_id, x1).
     and_then (fs_ext2_write_file (new_file_inode ino_id) data x1) (\<lambda>(written, ino, x2).
     and_then (parent_dir path) (\<lambda>(dir, filename).
     and_then (fs_ext2_resolve_path x2 dir) (\<lambda>parent.
       (if \<not> is_inode_dir parent then Inr x2
        else if x_block_size x2 = 0 then Inl (KFault ''division by zero'')
        else let last_bn = get_block_ptr x2 parent (nb_blocks x2 parent - 1)
             in if last_bn = 0 then Inr x2
                else (case read_blk x2 last_bn of
                        (False, buf) \<Rightarrow> Inr x2
                      | (True, buf) \<Rightarrow>
                          and_then (last_entry buf 0 None) (\<lambda>found.
                            (case (found, filename) of
                               (Some last_off, Some name) \<Rightarrow>
                                  and_then (append_entry buf last_off ino_id name) (\<lambda>buf1.
                                    Inr (snd (write_blk x2 last_bn buf1)))
                             | (None, _) \<Rightarrow> Inl (KFault ''last_entry not initialised'')
                             | (_, None) \<Rightarrow> Inl (KFault ''kstrlen(0)'')))))))))"

end
