(* ===== verification/Ext2Blocks.thy ===== *)
theory Ext2Blocks
  imports Ext2File
begin

text \<open>
  A mounted file system seen as a store of blocks: reading and writing whole blocks obeys the laws of an
  array. The interface is the locale \<open>block_store\<close>; the driver's block routines are an instance.
\<close>

section \<open>The interface\<close>

text \<open>\<open>inv\<close> is what the store keeps, \<open>addr\<close> the addresses it has, \<open>fits\<close> the values that may be stored.\<close>

locale block_store =
  fixes inv :: "'s \<Rightarrow> bool" and addr :: "'s \<Rightarrow> 'k \<Rightarrow> bool" and fits :: "'s \<Rightarrow> 'v \<Rightarrow> bool"
    and load :: "'s \<Rightarrow> 'k \<Rightarrow> 'v" and store :: "'s \<Rightarrow> 'k \<Rightarrow> 'v \<Rightarrow> 's"
  assumes store_inv: "inv s \<Longrightarrow> addr s k \<Longrightarrow> fits s v \<Longrightarrow> inv (store s k v)"
    and store_addr: "inv s \<Longrightarrow> addr s k \<Longrightarrow> fits s v \<Longrightarrow> addr (store s k v) k' = addr s k'"
    and store_fits: "inv s \<Longrightarrow> addr s k \<Longrightarrow> fits s v \<Longrightarrow> fits (store s k v) v' = fits s v'"
    and load_store: "inv s \<Longrightarrow> addr s k \<Longrightarrow> fits s v \<Longrightarrow> addr s k' \<Longrightarrow>
      load (store s k v) k' = (if k' = k then v else load s k')"

fun store_all :: "('s \<Rightarrow> 'k \<Rightarrow> 'v \<Rightarrow> 's) \<Rightarrow> 's \<Rightarrow> ('k \<times> 'v) list \<Rightarrow> 's" where
  "store_all store s [] = s"
| "store_all store s ((k, v) # kvs) = store_all store (store s k v) kvs"

context block_store begin

lemma store_all_result:
  assumes "inv s" "\<forall>(k, v)\<in>set kvs. addr s k \<and> fits s v" "distinct (map fst kvs)" "addr s k'"
  shows "inv (store_all store s kvs) \<and> addr (store_all store s kvs) k'' = addr s k'' \<and>
    load (store_all store s kvs) k' = (case map_of kvs k' of Some v \<Rightarrow> v | None \<Rightarrow> load s k')"
  using assms
proof (induction kvs arbitrary: s)
  case Nil
  then show ?case by simp
next
  case (Cons kv kvs)
  obtain k v where kv: "kv = (k, v)" by (cases kv)
  have a: "addr s k" "fits s v" using Cons.prems(2) kv by auto
  note l = store_inv [OF Cons.prems(1) a] store_addr [OF Cons.prems(1) a] store_fits [OF Cons.prems(1) a]
    load_store [OF Cons.prems(1) a]
  have "\<forall>(k', v')\<in>set kvs. addr (store s k v) k' \<and> fits (store s k v) v'"
    using Cons.prems(2) by (auto simp: l kv)
  with Cons.IH [of "store s k v"] Cons.prems l have
    ih: "inv (store_all store (store s k v) kvs)"
      "addr (store_all store (store s k v) kvs) k'' = addr s k''"
      "load (store_all store (store s k v) kvs) k' =
        (case map_of kvs k' of Some v \<Rightarrow> v | None \<Rightarrow> load (store s k v) k')"
    by auto
  have "k \<notin> fst ` set kvs" using Cons.prems(3) kv by simp
  then have "map_of kvs k = None" by (simp add: map_of_eq_None_iff)
  with ih l(4) [OF Cons.prems(4)] show ?case by (auto simp: kv split: option.splits)
qed

end

section \<open>Mounted file systems\<close>

abbreviation bsz :: "ext2 \<Rightarrow> nat" where "bsz x \<equiv> unat (x_block_size x)"

text \<open>Blocks of 1 to 64 KiB, as ext2 has them.\<close>

definition block_size_ok :: "ext2 \<Rightarrow> bool" where
  "block_size_ok x \<longleftrightarrow> bsz x \<in> {1024, 2048, 4096, 8192, 16384, 32768, 65536}"

definition mounted :: "ext2 \<Rightarrow> bool" where
  "mounted x \<longleftrightarrow> x_sb_read x \<and> x_bgdt_read x \<and> disk_ok (x_disk x) \<and> block_size_ok x \<and>
     length (x_bgdt x) = unat (x_nb_groups x) \<and> x_nb_groups x \<noteq> 0"

definition spb :: "ext2 \<Rightarrow> nat" where "spb x = bsz x div 512"

text \<open>A block that lies on the part of the disk 28-bit addresses reach, all its sectors readable.\<close>

definition blk_ok :: "ext2 \<Rightarrow> u32 \<Rightarrow> bool" where
  "blk_ok x b \<longleftrightarrow> unat (x_lba_root x) + (unat b + 1) * spb x \<le> 2 ^ 28 \<and> unat b * bsz x < 2 ^ 32 \<and>
     run_good (x_disk x) (blk_to_lba x b) (spb x)"

definition blk_bytes :: "ext2 \<Rightarrow> u32 \<Rightarrow> u8 list" where "blk_bytes x b = snd (read_blk x b)"

definition put_blk :: "ext2 \<Rightarrow> u32 \<Rightarrow> u8 list \<Rightarrow> ext2" where "put_blk x b buf = snd (write_blk x b buf)"

lemma block_size_facts:
  assumes "block_size_ok x"
  shows "512 * spb x = bsz x" "unat (blk_sectors x) = spb x" "0 < spb x" "spb x \<le> 128"
    "1024 \<le> bsz x" "bsz x \<le> 65536"
proof -
  have c: "bsz x = 1024 \<or> bsz x = 2048 \<or> bsz x = 4096 \<or> bsz x = 8192 \<or> bsz x = 16384 \<or> bsz x = 32768 \<or> bsz x = 65536"
    using assms by (simp add: block_size_ok_def)
  have "unat (x_block_size x div ATA_SECTOR_SIZE) = spb x" by (simp add: ATA_SECTOR_SIZE_def unat_div spb_def)
  then have u: "unat (blk_sectors x) = spb x mod 256" by (simp add: blk_sectors_def unsigned_ucast_eq take_bit_eq_mod)
  show "512 * spb x = bsz x" "unat (blk_sectors x) = spb x" "0 < spb x" "spb x \<le> 128"
    "1024 \<le> bsz x" "bsz x \<le> 65536"
    unfolding u using c by (auto simp: spb_def)
qed

lemma mountedD:
  assumes "mounted x"
  shows "x_sb_read x" "x_bgdt_read x" "disk_ok (x_disk x)" "block_size_ok x"
    "length (x_bgdt x) = unat (x_nb_groups x)" "x_nb_groups x \<noteq> 0"
  using assms by (simp_all add: mounted_def)

lemma fresh_bytes_length: "length (fresh_bytes x n) = n"
  by (simp add: fresh_bytes_def)

lemma unat_blk_to_lba:
  assumes "block_size_ok x" "blk_ok x b"
  shows "unat (blk_to_lba x b) = unat (x_lba_root x) + unat b * spb x"
    and "run_fits (blk_to_lba x b) (spb x)"
proof -
  note f = block_size_facts [OF assms(1)]
  have b: "unat (x_lba_root x) + (unat b + 1) * spb x \<le> 2 ^ 28" "unat b * bsz x < 2 ^ 32"
    using assms(2) by (simp_all add: blk_ok_def)
  have "unat (b * x_block_size x) = unat b * bsz x" using b(2) by (simp add: unat_word_ariths)
  then have "unat (b * x_block_size x div ATA_SECTOR_SIZE) = unat b * bsz x div 512"
    by (simp add: unat_div ATA_SECTOR_SIZE_def)
  also have "unat b * bsz x = 512 * (unat b * spb x)" using f(1) by (metis mult.left_commute)
  finally have q: "unat (b * x_block_size x div ATA_SECTOR_SIZE) = unat b * spb x" by simp
  have "unat (x_lba_root x) + unat b * spb x < 4294967296" using b(1) by simp
  then show u: "unat (blk_to_lba x b) = unat (x_lba_root x) + unat b * spb x"
    unfolding blk_to_lba_def using q by (subst unat_add_small) simp_all
  show "run_fits (blk_to_lba x b) (spb x)" unfolding run_fits_def u using b(1) by simp
qed

lemma read_blk_ok:
  assumes "mounted x" "blk_ok x b"
  shows "read_blk x b = (True, blk_bytes x b)" and "length (blk_bytes x b) = bsz x"
proof -
  note m = mountedD [OF assms(1)]
  note f = block_size_facts [OF m(4)]
  have g: "run_good (x_disk x) (blk_to_lba x b) (spb x)" using assms(2) by (simp add: blk_ok_def)
  obtain got where got: "read_sectors (x_disk x) (blk_to_lba x b) (spb x) = (True, got)"
    using read_sectors_good [OF unat_blk_to_lba(2) [OF m(4) assms(2)] g] by blast
  have "length got = bsz x" using read_sectors_length [OF m(3) got] f(1) by simp
  then have "read_blk x b = (True, got)"
    using got f(2) by (simp add: read_blk_def read_run_def disk_read_def fresh_bytes_length)
  then show "read_blk x b = (True, blk_bytes x b)" "length (blk_bytes x b) = bsz x"
    using \<open>length got = bsz x\<close> by (simp_all add: blk_bytes_def)
qed

lemma blocks_apart:
  assumes "block_size_ok x" "blk_ok x a" "blk_ok x b" "a \<noteq> b"
  shows "unat (blk_to_lba x a) + spb x \<le> unat (blk_to_lba x b) \<or> unat (blk_to_lba x b) + spb x \<le> unat (blk_to_lba x a)"
proof -
  note u = unat_blk_to_lba(1) [OF assms(1) assms(2)] unat_blk_to_lba(1) [OF assms(1) assms(3)]
  have "unat a \<noteq> unat b" using assms(4) by (simp add: word_unat_eq_iff)
  then consider "unat a + 1 \<le> unat b" | "unat b + 1 \<le> unat a" by linarith
  then show ?thesis
  proof cases
    case 1
    then have "(unat a + 1) * spb x \<le> unat b * spb x" by (intro mult_le_mono1)
    then show ?thesis using u by simp
  next
    case 2
    then have "(unat b + 1) * spb x \<le> unat a * spb x" by (intro mult_le_mono1)
    then show ?thesis using u by simp
  qed
qed

text \<open>A disk that differs only outside a block holds the same block.\<close>

lemma blk_bytes_cong:
  assumes "mounted x" "blk_ok x b" "dk_bad d = dk_bad (x_disk x)"
    and "\<And>l. in_run (blk_to_lba x b) (spb x) l \<Longrightarrow> dk_sector d l = dk_sector (x_disk x) l"
  shows "blk_bytes (x\<lparr>x_disk := d\<rparr>) b = blk_bytes x b"
proof -
  note m = mountedD [OF assms(1)]
  have "read_sectors d (blk_to_lba x b) (spb x) = read_sectors (x_disk x) (blk_to_lba x b) (spb x)"
    using assms(3,4) by (rule read_sectors_cong [OF unat_blk_to_lba(2) [OF m(4) assms(2)]])
  then show ?thesis
    by (simp add: blk_bytes_def read_blk_def read_run_def disk_read_def block_size_facts(2) [OF m(4)]
        blk_to_lba_def blk_sectors_def fresh_bytes_def)
      (simp add: block_size_facts(2) [OF m(4), unfolded blk_sectors_def])
qed

lemma write_blk_ok:
  assumes "mounted x" "blk_ok x b" "length buf = bsz x"
  shows "write_blk x b buf = (True, put_blk x b buf)"
    and "\<exists>d. put_blk x b buf = x\<lparr>x_disk := d\<rparr> \<and> dk_bad d = dk_bad (x_disk x) \<and> disk_ok d \<and>
      (\<forall>l. \<not> in_run (blk_to_lba x b) (spb x) l \<longrightarrow> dk_sector d l = dk_sector (x_disk x) l)"
    and "blk_bytes (put_blk x b buf) b = buf"
proof -
  note m = mountedD [OF assms(1)]
  note f = block_size_facts [OF m(4)]
  have g: "run_good (x_disk x) (blk_to_lba x b) (spb x)" using assms(2) by (simp add: blk_ok_def)
  have len: "length buf = 512 * spb x" using assms(3) f(1) by simp
  from write_sectors_result [OF unat_blk_to_lba(2) [OF m(4) assms(2)] g len m(3)] obtain d where
    d: "write_sectors (x_disk x) (blk_to_lba x b) buf (spb x) = (True, d)" "dk_bad d = dk_bad (x_disk x)" "disk_ok d"
      "\<forall>l. \<not> in_run (blk_to_lba x b) (spb x) l \<longrightarrow> dk_sector d l = dk_sector (x_disk x) l"
      "read_sectors d (blk_to_lba x b) (spb x) = (True, buf)" by blast
  have w: "write_blk x b buf = (True, x\<lparr>x_disk := d\<rparr>)"
    using d(1) f(2) by (simp add: write_blk_def write_run_def disk_write_def)
  then have p: "put_blk x b buf = x\<lparr>x_disk := d\<rparr>" by (simp add: put_blk_def)
  show "write_blk x b buf = (True, put_blk x b buf)" using w p by simp
  show "\<exists>d. put_blk x b buf = x\<lparr>x_disk := d\<rparr> \<and> dk_bad d = dk_bad (x_disk x) \<and> disk_ok d \<and>
      (\<forall>l. \<not> in_run (blk_to_lba x b) (spb x) l \<longrightarrow> dk_sector d l = dk_sector (x_disk x) l)"
    using p d(2,3,4) by blast
  have "blk_to_lba (x\<lparr>x_disk := d\<rparr>) b = blk_to_lba x b" "blk_sectors (x\<lparr>x_disk := d\<rparr>) = blk_sectors x"
    by (simp_all add: blk_to_lba_def blk_sectors_def)
  then show "blk_bytes (put_blk x b buf) b = buf"
    unfolding p using d(5) f(2) assms(3)
    by (simp add: blk_bytes_def read_blk_def read_run_def disk_read_def fresh_bytes_length)
qed

lemma mounted_disk:
  assumes "mounted x" "disk_ok d"
  shows "mounted (x\<lparr>x_disk := d\<rparr>)"
  using assms by (simp add: mounted_def block_size_ok_def)

lemma blk_ok_disk:
  assumes "dk_bad d = dk_bad (x_disk x)"
  shows "blk_ok (x\<lparr>x_disk := d\<rparr>) b = blk_ok x b"
  using assms by (simp add: blk_ok_def spb_def blk_to_lba_def run_good_def)

interpretation blocks: block_store mounted blk_ok "\<lambda>x buf. length buf = bsz x" blk_bytes put_blk
proof unfold_locales
  fix x :: ext2 and k k' :: u32 and v v' :: "u8 list"
  assume a: "mounted x" "blk_ok x k" "length v = bsz x"
  obtain d where d: "put_blk x k v = x\<lparr>x_disk := d\<rparr>" "dk_bad d = dk_bad (x_disk x)" "disk_ok d"
    "\<forall>l. \<not> in_run (blk_to_lba x k) (spb x) l \<longrightarrow> dk_sector d l = dk_sector (x_disk x) l"
    using write_blk_ok(2) [OF a] by blast
  show "mounted (put_blk x k v)" using mounted_disk [OF a(1) d(3)] d(1) by simp
  show "blk_ok (put_blk x k v) k' = blk_ok x k'" using blk_ok_disk [OF d(2)] d(1) by simp
  show "(length v' = bsz (put_blk x k v)) = (length v' = bsz x)" using d(1) by simp
  assume k': "blk_ok x k'"
  show "blk_bytes (put_blk x k v) k' = (if k' = k then v else blk_bytes x k')"
  proof (cases "k' = k")
    case True
    then show ?thesis using write_blk_ok(3) [OF a] by simp
  next
    case False
    have "dk_sector d l = dk_sector (x_disk x) l" if "in_run (blk_to_lba x k') (spb x) l" for l
      using in_run_disjoint [OF blocks_apart [OF mountedD(4) [OF a(1)] k' a(2) False] that] d(4) by blast
    then show ?thesis using False blk_bytes_cong [OF a(1) k' d(2)] d(1) by simp
  qed
qed

end
