(* ===== verification/Ext2Inode.thy ===== *)
theory Ext2Inode
  imports Ext2Blocks
begin

text \<open>
  Inodes on the disk: what \<open>fs_ext2_write_inode\<close> stores, \<open>fs_ext2_read_inode\<close> gives back, and the inodes
  around it keep their contents.
\<close>

section \<open>The inode tables\<close>

abbreviation inode_sz :: "ext2 \<Rightarrow> nat" where "inode_sz x \<equiv> unat (sbx_inode_size (x_sbx x))"
abbreviation ipg :: "ext2 \<Rightarrow> nat" where "ipg x \<equiv> unat (sb_nb_inodes_in_group (x_sb x))"

text \<open>How many blocks a table has, and where the table of a group starts.\<close>

definition table_blocks :: "ext2 \<Rightarrow> nat" where
  "table_blocks x = (ipg x * inode_sz x + bsz x - 1) div bsz x"

definition table_start :: "ext2 \<Rightarrow> nat \<Rightarrow> nat" where
  "table_start x g = unat (dsc_inode_table (x_bgdt x ! g))"

definition inode_tables :: "ext2 \<Rightarrow> bool" where
  "inode_tables x \<longleftrightarrow> inode_sz x \<in> {128, 256, 512, 1024} \<and> 0 < ipg x \<and> ipg x * inode_sz x + bsz x < 2 ^ 32 \<and>
     (\<forall>g<length (x_bgdt x). table_start x g + table_blocks x < 2 ^ 32) \<and>
     (\<forall>g<length (x_bgdt x). \<forall>h<length (x_bgdt x). g \<noteq> h \<longrightarrow>
        table_start x g + table_blocks x \<le> table_start x h \<or> table_start x h + table_blocks x \<le> table_start x g)"

definition inode_group :: "ext2 \<Rightarrow> u32 \<Rightarrow> nat" where "inode_group x i = unat (i - 1) div ipg x"
definition inode_pos :: "ext2 \<Rightarrow> u32 \<Rightarrow> nat" where "inode_pos x i = (unat (i - 1) mod ipg x) * inode_sz x"

definition inode_blk :: "ext2 \<Rightarrow> u32 \<Rightarrow> u32" where
  "inode_blk x i = of_nat (table_start x (inode_group x i) + inode_pos x i div bsz x)"

definition has_inode :: "ext2 \<Rightarrow> u32 \<Rightarrow> bool" where
  "has_inode x i \<longleftrightarrow> inode_group x i < length (x_bgdt x) \<and> blk_ok x (inode_blk x i)"

lemma inode_sz_facts:
  assumes "mounted x" "inode_tables x"
  shows "inode_sz x dvd bsz x" "128 \<le> inode_sz x" "0 < bsz x"
proof -
  have "bsz x = 1024 \<or> bsz x = 2048 \<or> bsz x = 4096 \<or> bsz x = 8192 \<or> bsz x = 16384 \<or> bsz x = 32768 \<or> bsz x = 65536"
    using mountedD(4) [OF assms(1)] by (simp add: block_size_ok_def)
  moreover have "inode_sz x = 128 \<or> inode_sz x = 256 \<or> inode_sz x = 512 \<or> inode_sz x = 1024"
    using assms(2) by (simp add: inode_tables_def)
  ultimately show "inode_sz x dvd bsz x" "128 \<le> inode_sz x" "0 < bsz x" by auto
qed

lemma inode_pos_bound:
  assumes "inode_tables x"
  shows "inode_pos x i + inode_sz x \<le> ipg x * inode_sz x"
proof -
  have "unat (i - 1) mod ipg x + 1 \<le> ipg x" using assms by (simp add: inode_tables_def Suc_leI)
  then have "(unat (i - 1) mod ipg x + 1) * inode_sz x \<le> ipg x * inode_sz x" by (rule mult_le_mono1)
  then show ?thesis by (simp add: inode_pos_def)
qed

lemma inode_pos_block:
  assumes "mounted x" "inode_tables x"
  shows "inode_pos x i div bsz x < table_blocks x"
proof -
  note z = inode_sz_facts [OF assms]
  have "inode_pos x i < ipg x * inode_sz x" using inode_pos_bound [OF assms(2), of i] z(2) by linarith
  then have "inode_pos x i + bsz x \<le> ipg x * inode_sz x + bsz x - 1" by linarith
  then have "(inode_pos x i + bsz x) div bsz x \<le> table_blocks x"
    unfolding table_blocks_def by (rule div_le_mono)
  moreover have "bsz x \<noteq> 0" using z(3) by linarith
  from div_add_self2 [OF this] have "(inode_pos x i + bsz x) div bsz x = inode_pos x i div bsz x + 1" .
  ultimately show ?thesis by linarith
qed

lemma unat_inode_blk:
  assumes "mounted x" "inode_tables x" "has_inode x i"
  shows "unat (inode_blk x i) = table_start x (inode_group x i) + inode_pos x i div bsz x"
proof -
  have "table_start x (inode_group x i) + table_blocks x < 2 ^ 32"
    using assms(2,3) by (simp add: inode_tables_def has_inode_def)
  with inode_pos_block [OF assms(1,2), of i] show ?thesis
    unfolding inode_blk_def by (intro unat_of_nat_small) simp
qed

lemma inode_slot_result:
  assumes "mounted x" "inode_tables x" "has_inode x i"
  shows "inode_slot x i = Inr (inode_blk x i, inode_pos x i mod bsz x)"
proof -
  let ?w = "sb_nb_inodes_in_group (x_sb x)" and ?s = "sbx_inode_size (x_sbx x)"
  let ?pos = "((i - 1) mod ?w) * ucast ?s"
  have nz: "?w \<noteq> 0" "x_block_size x \<noteq> 0"
    using assms(2) inode_sz_facts(3) [OF assms(1,2)] by (auto simp: inode_tables_def)
  have "inode_sz x < 2 ^ 16" using unsigned_less [where 'a = nat, of ?s] by simp
  then have "inode_sz x < 2 ^ 32" by simp
  then have s: "unat (ucast ?s :: u32) = inode_sz x" by (simp add: unsigned_ucast_eq take_bit_nat_eq_self)
  have "ipg x * inode_sz x < 4294967296" using assms(2) by (simp add: inode_tables_def)
  then have "inode_pos x i < 4294967296" using inode_pos_bound [OF assms(2), of i] by linarith
  then have "unat ((i - 1) mod ?w) * unat (ucast ?s :: u32) < 4294967296"
    unfolding s by (simp add: unat_mod inode_pos_def)
  then have "unat ?pos = unat ((i - 1) mod ?w) * unat (ucast ?s :: u32)" by (rule unat_mul_small)
  then have p: "unat ?pos = inode_pos x i" unfolding s by (simp add: unat_mod inode_pos_def)
  have g: "unat ((i - 1) div ?w) = inode_group x i" by (simp add: unat_div inode_group_def)
  have "unat (?pos div x_block_size x) = inode_pos x i div bsz x" by (simp add: unat_div p)
  moreover have "unat (dsc_inode_table (x_bgdt x ! inode_group x i)) + inode_pos x i div bsz x < 4294967296"
    using unat_inode_blk [OF assms] unat_bound32 [of "inode_blk x i"] by (simp add: table_start_def)
  ultimately have "unat (dsc_inode_table (x_bgdt x ! inode_group x i) + ?pos div x_block_size x) = unat (inode_blk x i)"
    using unat_inode_blk [OF assms] by (simp add: unat_add_small table_start_def)
  then have b: "dsc_inode_table (x_bgdt x ! inode_group x i) + ?pos div x_block_size x = inode_blk x i"
    by (rule unat_eq_imp)
  have "unat (?pos mod x_block_size x) = inode_pos x i mod bsz x" by (simp add: unat_mod p)
  moreover have "\<not> length (x_bgdt x) \<le> inode_group x i" using assms(3) by (simp add: has_inode_def)
  ultimately show ?thesis using nz g b by (simp add: inode_slot_def Let_def)
qed

lemma inode_off_fits:
  assumes "mounted x" "inode_tables x"
  shows "inode_pos x i mod bsz x + inode_sz x \<le> bsz x"
proof -
  note z = inode_sz_facts [OF assms]
  obtain q where q: "bsz x = inode_sz x * q" using z(1) by (elim dvdE)
  let ?k = "unat (i - 1) mod ipg x"
  have "inode_pos x i mod bsz x = inode_sz x * (?k mod q)"
    using mult_mod_right [of "inode_sz x" ?k q] unfolding inode_pos_def q by (metis mult.commute)
  moreover have "0 < q" using q z(3) by (cases q) auto
  then have "?k mod q + 1 \<le> q" by (simp add: Suc_leI)
  then have "inode_sz x * (?k mod q + 1) \<le> inode_sz x * q" by (rule mult_le_mono2)
  ultimately show ?thesis using q by simp
qed

text \<open>The bytes of two inodes do not overlap.\<close>

lemma inodes_apart:
  assumes "mounted x" "inode_tables x" "has_inode x i" "has_inode x j" "i \<noteq> j" "inode_blk x i = inode_blk x j"
  shows "inode_pos x i mod bsz x + INODE_BYTES \<le> inode_pos x j mod bsz x \<or>
    inode_pos x j mod bsz x + INODE_BYTES \<le> inode_pos x i mod bsz x"
proof -
  note z = inode_sz_facts [OF assms(1,2)]
  have u: "table_start x (inode_group x i) + inode_pos x i div bsz x =
      table_start x (inode_group x j) + inode_pos x j div bsz x"
    using assms(6) unat_inode_blk [OF assms(1,2,3)] unat_inode_blk [OF assms(1,2,4)] by simp
  have g: "inode_group x i = inode_group x j"
  proof (rule ccontr)
    assume "inode_group x i \<noteq> inode_group x j"
    then have "table_start x (inode_group x i) + table_blocks x \<le> table_start x (inode_group x j) \<or>
        table_start x (inode_group x j) + table_blocks x \<le> table_start x (inode_group x i)"
      using assms(2,3,4) by (simp add: inode_tables_def has_inode_def)
    then show False
      using u inode_pos_block [OF assms(1,2), of i] inode_pos_block [OF assms(1,2), of j] by linarith
  qed
  let ?a = "unat (i - 1) mod ipg x" and ?b = "unat (j - 1) mod ipg x"
  have "unat (i - 1) \<noteq> unat (j - 1)" using assms(5) by (simp add: word_unat_eq_iff [symmetric])
  then have "?a \<noteq> ?b" using g unfolding inode_group_def by (metis div_mult_mod_eq)
  then have "?a + 1 \<le> ?b \<or> ?b + 1 \<le> ?a" by linarith
  then have "(?a + 1) * inode_sz x \<le> ?b * inode_sz x \<or> (?b + 1) * inode_sz x \<le> ?a * inode_sz x"
    using mult_le_mono1 by blast
  then have p: "inode_pos x i + inode_sz x \<le> inode_pos x j \<or> inode_pos x j + inode_sz x \<le> inode_pos x i"
    by (simp add: inode_pos_def add.commute)
  have d: "inode_pos x i div bsz x = inode_pos x j div bsz x" using u g by simp
  have "inode_pos x i = bsz x * (inode_pos x i div bsz x) + inode_pos x i mod bsz x"
    "inode_pos x j = bsz x * (inode_pos x i div bsz x) + inode_pos x j mod bsz x"
    using mult_div_mod_eq [of "bsz x" "inode_pos x i"] mult_div_mod_eq [of "bsz x" "inode_pos x j"]
    unfolding d by simp_all
  then show ?thesis using p z(2) unfolding INODE_BYTES_def by linarith
qed

section \<open>Reading and writing inodes\<close>

lemma read_inode_result:
  assumes "mounted x" "inode_tables x" "has_inode x i"
  shows "fs_ext2_read_inode x i = Inr (decode_inode (blk_bytes x (inode_blk x i)) (inode_pos x i mod bsz x) i)"
proof -
  have b: "blk_ok x (inode_blk x i)" using assms(3) by (simp add: has_inode_def)
  have "\<not> bsz x < inode_pos x i mod bsz x + INODE_BYTES"
    using inode_off_fits [OF assms(1,2), of i] inode_sz_facts(2) [OF assms(1,2)] by (simp add: INODE_BYTES_def)
  then show ?thesis
    using inode_slot_result [OF assms] read_blk_ok [OF assms(1) b] mountedD(1,2) [OF assms(1)]
    by (simp add: fs_ext2_read_inode_def fs_ext2_allread_def)
qed

lemma write_inode_result:
  assumes "mounted x" "inode_tables x" "has_inode x (inode_id ino)" "inode_shape ino"
  shows "fs_ext2_write_inode ino x =
    Inr (True, put_blk x (inode_blk x (inode_id ino))
      (overwrite (blk_bytes x (inode_blk x (inode_id ino))) (inode_pos x (inode_id ino) mod bsz x) (encode_inode ino)))"
proof -
  let ?i = "inode_id ino"
  have b: "blk_ok x (inode_blk x ?i)" using assms(3) by (simp add: has_inode_def)
  have f: "inode_pos x ?i mod bsz x + INODE_BYTES \<le> bsz x"
    using inode_off_fits [OF assms(1,2), of ?i] inode_sz_facts(2) [OF assms(1,2)] by (simp add: INODE_BYTES_def)
  then have "length (overwrite (blk_bytes x (inode_blk x ?i)) (inode_pos x ?i mod bsz x) (encode_inode ino)) = bsz x"
    using read_blk_ok(2) [OF assms(1) b] length_encode_inode [OF assms(4)] by simp
  from write_blk_ok(1) [OF assms(1) b this] show ?thesis
    using inode_slot_result [OF assms(1,2,3)] read_blk_ok [OF assms(1) b] mountedD(1,2) [OF assms(1)] f
    by (simp add: fs_ext2_write_inode_def fs_ext2_allread_def)
qed

lemma decode_inode_cong:
  assumes "\<And>k. k < INODE_BYTES \<Longrightarrow> a ! (i + k) = b ! (j + k)"
  shows "decode_inode a i n = decode_inode b j n"
proof -
  have w: "get32 a (i + k) = get32 b (j + k)" if "k + 4 \<le> 128" for k
    by (rule get_cong(1) [where n = 128]) (use that assms in \<open>simp_all add: INODE_BYTES_def\<close>)
  have h: "get16 a (i + k) = get16 b (j + k)" if "k + 2 \<le> 128" for k
    by (rule get_cong(2) [where n = 128]) (use that assms in \<open>simp_all add: INODE_BYTES_def\<close>)
  have p: "get_bytes a (i + 116) 12 = get_bytes b (j + 116) 12"
    by (rule get_cong(3) [where n = 128]) (use assms in \<open>simp_all add: INODE_BYTES_def\<close>)
  have d: "get32 a (i + (40 + 4 * k)) = get32 b (j + (40 + 4 * k))" if "k < 12" for k
    using w [of "40 + 4 * k"] that by simp
  show ?thesis
    using h [of 0] h [of 2] by (simp add: decode_inode_def w h p d)
qed

lemma write_inode_stored:
  assumes "mounted x" "inode_tables x" "has_inode x (inode_id ino)" "inode_shape ino"
  shows "\<exists>buf. length buf = bsz x \<and>
    fs_ext2_write_inode ino x = Inr (True, put_blk x (inode_blk x (inode_id ino)) buf) \<and>
    fs_ext2_read_inode (put_blk x (inode_blk x (inode_id ino)) buf) (inode_id ino) = Inr ino \<and>
    (\<forall>j. has_inode x j \<and> j \<noteq> inode_id ino \<longrightarrow>
      fs_ext2_read_inode (put_blk x (inode_blk x (inode_id ino)) buf) j = fs_ext2_read_inode x j)"
proof -
  let ?i = "inode_id ino"
  let ?b = "inode_blk x ?i" and ?o = "inode_pos x ?i mod bsz x"
  let ?buf = "overwrite (blk_bytes x ?b) ?o (encode_inode ino)" and ?x = "put_blk x ?b"
  have b: "blk_ok x ?b" using assms(3) by (simp add: has_inode_def)
  note lb = read_blk_ok(2) [OF assms(1) b] and le = length_encode_inode [OF assms(4)]
  have f: "?o + INODE_BYTES \<le> bsz x"
    using inode_off_fits [OF assms(1,2), of ?i] inode_sz_facts(2) [OF assms(1,2)] by (simp add: INODE_BYTES_def)
  then have len: "length ?buf = bsz x" using lb le by simp
  note law = blocks.store_inv [OF assms(1) b len] blocks.store_addr [OF assms(1) b len]
    blocks.load_store [OF assms(1) b len]
  obtain d where d: "?x ?buf = x\<lparr>x_disk := d\<rparr>" using write_blk_ok(2) [OF assms(1) b len] by blast
  have same: "inode_tables (?x ?buf) = inode_tables x" "inode_blk (?x ?buf) = inode_blk x" "inode_pos (?x ?buf) = inode_pos x"
    "inode_group (?x ?buf) = inode_group x" "bsz (?x ?buf) = bsz x" "length (x_bgdt (?x ?buf)) = length (x_bgdt x)"
    unfolding d by (simp_all add: inode_tables_def table_start_def table_blocks_def inode_blk_def inode_pos_def inode_group_def fun_eq_iff)
  have has: "has_inode (?x ?buf) j = has_inode x j" for j
    unfolding has_inode_def same law(2) ..
  have rd: "fs_ext2_read_inode (?x ?buf) j = Inr (decode_inode (blk_bytes (?x ?buf) (inode_blk x j)) (inode_pos x j mod bsz x) j)"
    if "has_inode x j" for j
    using read_inode_result [OF law(1)] assms(2) that by (simp add: same has)
  have "decode_inode ?buf ?o ?i = decode_inode (encode_inode ino) 0 ?i"
    using f lb le by (intro decode_inode_cong) (simp add: nth_overwrite)
  then have own: "fs_ext2_read_inode (?x ?buf) ?i = Inr ino"
    using rd [OF assms(3)] law(3) [OF b] decode_encode_inode [OF assms(4)] by simp
  have "fs_ext2_read_inode (?x ?buf) j = fs_ext2_read_inode x j" if j: "has_inode x j" "j \<noteq> ?i" for j
  proof (cases "inode_blk x j = ?b")
    case True
    have apart: "?o + INODE_BYTES \<le> inode_pos x j mod bsz x \<or> inode_pos x j mod bsz x + INODE_BYTES \<le> ?o"
      using inodes_apart [OF assms(1,2,3) j(1)] j(2) True by metis
    have fj: "inode_pos x j mod bsz x + INODE_BYTES \<le> bsz x"
      using inode_off_fits [OF assms(1,2), of j] inode_sz_facts(2) [OF assms(1,2)] by (simp add: INODE_BYTES_def)
    have "decode_inode ?buf (inode_pos x j mod bsz x) j = decode_inode (blk_bytes x ?b) (inode_pos x j mod bsz x) j"
      using apart fj f lb le by (intro decode_inode_cong) (auto simp: nth_overwrite)
    then show ?thesis
      using rd [OF j(1)] read_inode_result [OF assms(1,2) j(1)] law(3) [OF b] True by simp
  next
    case False
    have "blk_ok x (inode_blk x j)" using j(1) by (simp add: has_inode_def)
    from law(3) [OF this] show ?thesis
      using rd [OF j(1)] read_inode_result [OF assms(1,2) j(1)] False by simp
  qed
  then show ?thesis
    using write_inode_result [OF assms] len own by (intro exI [of _ ?buf]) simp
qed

text \<open>
  An inode that \<open>fs_ext2_write_inode\<close> stores is what \<open>fs_ext2_read_inode\<close> reads back, field for field,
  every other inode reads as before, those that share its block included, and no block changes but the
  one the inode is in.
\<close>

theorem ext2_inode_write_read:
  assumes "mounted x" "inode_tables x" "has_inode x (inode_id ino)" "inode_shape ino"
  shows "\<exists>x'. fs_ext2_write_inode ino x = Inr (True, x') \<and> mounted x' \<and>
    fs_ext2_read_inode x' (inode_id ino) = Inr ino \<and>
    (\<forall>j. has_inode x j \<and> j \<noteq> inode_id ino \<longrightarrow> fs_ext2_read_inode x' j = fs_ext2_read_inode x j) \<and>
    (\<forall>b. blk_ok x b \<and> b \<noteq> inode_blk x (inode_id ino) \<longrightarrow> blk_bytes x' b = blk_bytes x b)"
proof -
  let ?b = "inode_blk x (inode_id ino)"
  have b: "blk_ok x ?b" using assms(3) by (simp add: has_inode_def)
  from write_inode_stored [OF assms] obtain buf where
    buf: "length buf = bsz x" "fs_ext2_write_inode ino x = Inr (True, put_blk x ?b buf)"
      "fs_ext2_read_inode (put_blk x ?b buf) (inode_id ino) = Inr ino"
      "\<forall>j. has_inode x j \<and> j \<noteq> inode_id ino \<longrightarrow> fs_ext2_read_inode (put_blk x ?b buf) j = fs_ext2_read_inode x j"
    by blast
  then show ?thesis
    using blocks.store_inv [OF assms(1) b buf(1)] blocks.load_store [OF assms(1) b buf(1)]
    by (intro exI [of _ "put_blk x ?b buf"]) simp
qed

section \<open>A small file system\<close>

text \<open>One group of 16 inodes in two blocks of 1 KiB from block 5 on.\<close>

definition demo_desc :: group_desc where
  "demo_desc = \<lparr>dsc_block_bitmap = 3, dsc_inode_bitmap = 4, dsc_inode_table = 5,
     dsc_unallocated_blocks = 50, dsc_unallocated_inodes = 5, dsc_directories_count = 1,
     dsc_padding = replicate 14 0\<rparr>"

definition demo_sb :: sb_base where
  "demo_sb = (decode_sb_base (replicate 84 0) 0)\<lparr>sb_inodes_count := 16, sb_blocks_count := 64,
     sb_unallocated_blocks_count := 50, sb_unallocated_inodes_count := 5, sb_nb_blocks_in_group := 8192,
     sb_nb_inodes_in_group := 16, sb_block_nb_of_sb := 1, sb_ext2_signature := 0xEF53\<rparr>"

definition demo_fs :: ext2 where
  "demo_fs = \<lparr>x_disk = \<lparr>dk_sector = (\<lambda>_. replicate 512 0), dk_bad = (\<lambda>_. False)\<rparr>, x_fresh = (\<lambda>_. 0xAA),
     x_sb = demo_sb, x_sbx = (decode_sb_extended (replicate 152 0) 0)\<lparr>sbx_inode_size := 128\<rparr>,
     x_has_extended = True, x_bgdt = [demo_desc], x_sb_read = True, x_bgdt_read = True, x_nb_groups = 1,
     x_block_size = 1024, x_lba_root = 2048\<rparr>"

definition demo_inode :: inode where
  "demo_inode = zero_inode\<lparr>inode_type_and_permissions := 0x81A4, inode_size_low_bits := 2000,
     inode_direct_blk_ptrs := [20, 21, 0, 0, 0, 0, 0, 0, 0, 0, 0, 0], inode_id := 12\<rparr>"

lemma demo_fs_mounted: "mounted demo_fs"
  by (simp add: mounted_def demo_fs_def disk_ok_def block_size_ok_def)

lemma demo_fs_blocks: "unat b < 64 \<Longrightarrow> blk_ok demo_fs b"
  by (simp add: blk_ok_def demo_fs_def spb_def run_good_def)

lemma demo_fs_tables: "inode_tables demo_fs"
  by (simp add: inode_tables_def demo_fs_def demo_sb_def table_start_def table_blocks_def demo_desc_def)

lemma demo_fs_inode: "has_inode demo_fs 12"
  unfolding has_inode_def
  by (intro conjI demo_fs_blocks)
    (simp_all add: inode_group_def inode_blk_def inode_pos_def table_start_def demo_fs_def demo_sb_def demo_desc_def)

lemma demo_inode_shape: "inode_shape demo_inode" "inode_id demo_inode = 12"
  by (simp_all add: inode_shape_def demo_inode_def zero_inode_def)

theorem ext2_inode_write_read_witness:
  "\<exists>x'. fs_ext2_write_inode demo_inode demo_fs = Inr (True, x') \<and> fs_ext2_read_inode x' 12 = Inr demo_inode"
  using ext2_inode_write_read [OF demo_fs_mounted demo_fs_tables, of demo_inode] demo_fs_inode demo_inode_shape
  by auto

end
