(* ===== verification/Ext2Alloc.thy ===== *)
theory Ext2Alloc
  imports Ext2Inode
begin

text \<open>
  Mounting and the block allocator of \<open>kernel/fs/src/ext2.c\<close>: when the descriptor table fits its buffer,
  which bit \<open>fs_ext2_alloc_block\<close> takes, and which block it names.
\<close>

section \<open>Mounting\<close>

lemma sectors_fit: "32 * n < 512 * ((32 * n + 511) div 512) \<longleftrightarrow> n mod 16 \<noteq> (0 :: nat)"
proof -
  define q r where "q = n div 16" and "r = n mod 16"
  have n: "n = 16 * q + r" and r: "r < 16" by (simp_all add: q_def r_def)
  have "(32 * n + 511) div 512 = (512 * q + (32 * r + 511)) div 512" using n by (simp add: add.assoc)
  also have "\<dots> = q + (32 * r + 511) div 512" by simp
  finally have d: "(32 * n + 511) div 512 = q + (32 * r + 511) div 512" .
  show ?thesis
  proof (cases "r = 0")
    case True
    then have "(32 * n + 511) div 512 = q" using d by simp
    moreover have "32 * n = 512 * q" using n True by simp
    moreover have "n mod 16 = 0" using True by (simp add: r_def)
    ultimately show ?thesis by simp
  next
    case False
    have "(32 * r + 511) div 512 = Suc 0" by (rule div_nat_eqI) (use False r in simp_all)
    then have "512 * ((32 * n + 511) div 512) = 512 * q + 512" using d by simp
    moreover have "32 * n < 512 * q + 512" using n r by simp
    ultimately show ?thesis using False by (simp add: r_def)
  qed
qed

text \<open>
  \<open>fs_ext2_read_bgdt\<close> reads whole sectors into a buffer of 32 bytes per group: unless the number of
  groups is a multiple of 16 it writes behind the buffer, and when it is, it reads the descriptors that
  are on the disk.
\<close>

theorem ext2_read_bgdt:
  assumes "x_sb_read x" "disk_ok (x_disk x)" "unat (x_nb_groups x) \<le> 4080"
    and "run_fits (x_lba_root x + 4) (unat (bgdt_sectors x))" "run_good (x_disk x) (x_lba_root x + 4) (unat (bgdt_sectors x))"
    and "x_nb_groups x \<noteq> 0"
  shows "(fs_ext2_read_bgdt x = Inl (KFault ''write behind the BGDT buffer'') \<longleftrightarrow> unat (x_nb_groups x) mod 16 \<noteq> 0) \<and>
    (unat (x_nb_groups x) mod 16 = 0 \<longrightarrow>
      (\<exists>buf. read_sectors (x_disk x) (x_lba_root x + 4) (unat (x_nb_groups x) div 16) = (True, buf) \<and>
        fs_ext2_read_bgdt x = Inr (x\<lparr>x_bgdt := map (\<lambda>g. decode_desc buf (32 * g)) [0..<unat (x_nb_groups x)],
          x_bgdt_read := True\<rparr>)))"
proof -
  let ?n = "unat (x_nb_groups x)"
  have n0: "0 < ?n" using assms(6) by (simp add: unat_gt_0)
  have sz: "unat (bgdt_size x) = 32 * ?n"
    using assms(3) by (simp add: bgdt_size_def DESC_SIZE_def unat_mul_small)
  have e: "bgdt_size x + ATA_SECTOR_SIZE - 1 = bgdt_size x + 511" by (simp add: ATA_SECTOR_SIZE_def)
  have "unat (bgdt_size x + 511) = 32 * ?n + 511"
    using assms(3) sz by (subst unat_add_small) simp_all
  then have "unat (CEIL_DIV (bgdt_size x) ATA_SECTOR_SIZE) = (32 * ?n + 511) div 512"
    unfolding CEIL_DIV_def e by (simp add: unat_div ATA_SECTOR_SIZE_def)
  moreover have "(32 * ?n + 511) div 512 < 256" using assms(3) by simp
  ultimately have sec: "unat (bgdt_sectors x) = (32 * ?n + 511) div 512"
    by (simp add: bgdt_sectors_def unsigned_ucast_eq take_bit_nat_eq_self)
  obtain buf where buf: "read_sectors (x_disk x) (x_lba_root x + 4) (unat (bgdt_sectors x)) = (True, buf)"
    using read_sectors_good [OF assms(4,5)] by blast
  have len: "length buf = 512 * ((32 * ?n + 511) div 512)" using read_sectors_length [OF assms(2) buf] sec by simp
  have fit: "length buf > unat (bgdt_size x) \<longleftrightarrow> ?n mod 16 \<noteq> 0"
    unfolding len sz by (rule sectors_fit)
  show ?thesis
  proof (cases "?n mod 16 = 0")
    case False
    then show ?thesis using fit assms(1) buf by (simp add: fs_ext2_read_bgdt_def disk_read_def)
  next
    case True
    then obtain q where q: "?n = 16 * q" by blast
    then have "unat (bgdt_sectors x) = ?n div 16" using sec by simp
    moreover have "length buf = unat (bgdt_size x)" using len sz q by simp
    ultimately show ?thesis using True fit assms(1) buf
      by (simp add: fs_ext2_read_bgdt_def disk_read_def fresh_bytes_length)
  qed
qed

section \<open>Bitmaps\<close>

definition bm_bit :: "u8 list \<Rightarrow> nat \<Rightarrow> bool" where
  "bm_bit bm k = bit (bm ! (k div 8)) (k mod 8)"

lemma zero_bit_test: "drop_bit k (b :: u8) AND 1 = 0 \<longleftrightarrow> \<not> bit b k"
  by (simp add: and_one_eq bit_iff_odd_drop_bit mod_2_eq_odd)

lemma zero_bit_Some:
  "zero_bit b i n = Some j \<Longrightarrow> i \<le> j \<and> j < i + n \<and> \<not> bit b j \<and> (\<forall>k. i \<le> k \<and> k < j \<longrightarrow> bit b k)"
proof (induction n arbitrary: i)
  case (Suc n)
  show ?case
  proof (cases "bit b i")
    case False
    then show ?thesis using Suc.prems by (auto simp: zero_bit_test)
  next
    case True
    then have "zero_bit b (i + 1) n = Some j" using Suc.prems by (simp add: zero_bit_test)
    from Suc.IH [OF this] show ?thesis using True by (metis Suc_eq_plus1 Suc_leD Suc_le_eq add_Suc_shift nat_less_le)
  qed
qed simp

lemma zero_bit_None:
  "zero_bit b i n = None \<Longrightarrow> i \<le> k \<Longrightarrow> k < i + n \<Longrightarrow> bit b k"
proof (induction n arbitrary: i)
  case (Suc n)
  then show ?case by (cases "k = i") (auto simp: zero_bit_test split: if_splits)
qed simp

lemma bm_bit_pos: "r < 8 \<Longrightarrow> bm_bit bm (i * 8 + r) = bit (bm ! i) r"
  by (simp add: bm_bit_def)

lemma zero_byte_Some:
  "zero_byte bm i n = Some (b, j) \<Longrightarrow> i \<le> b \<and> b < i + n \<and> j < 8 \<and> \<not> bm_bit bm (b * 8 + j) \<and>
    (\<forall>k. i * 8 \<le> k \<and> k < b * 8 + j \<longrightarrow> bm_bit bm k)"
proof (induction n arbitrary: i)
  case (Suc n)
  show ?case
  proof (cases "zero_bit (bm ! i) 0 8")
    case None
    then have "zero_byte bm (i + 1) n = Some (b, j)" using Suc.prems by simp
    note ih = Suc.IH [OF this]
    have "bm_bit bm k" if "i * 8 \<le> k" "k < b * 8 + j" for k
    proof (cases "k < (i + 1) * 8")
      case True
      then have "k div 8 = i" using that(1) by simp
      then show ?thesis using zero_bit_None [OF None, of "k mod 8"] by (simp add: bm_bit_def)
    next
      case False
      then show ?thesis using ih that(2) by simp
    qed
    then show ?thesis using ih by auto
  next
    case (Some j')
    then have e: "b = i" "j' = j" using Suc.prems by simp_all
    have z: "j < 8" "\<not> bit (bm ! i) j" "\<And>k. k < j \<Longrightarrow> bit (bm ! i) k"
      using zero_bit_Some [OF Some] by (simp_all add: e(2))
    have "bm_bit bm k" if k: "i * 8 \<le> k" "k < i * 8 + j" for k
    proof -
      obtain r where r: "k = i * 8 + r" using k(1) le_Suc_ex by blast
      have "r < j" using r k(2) by linarith
      then show ?thesis using bm_bit_pos [of r bm i] z(1) z(3) [of r] unfolding r by simp
    qed
    moreover have "\<not> bm_bit bm (i * 8 + j)"
      using bm_bit_pos [OF z(1), of bm i] z(2) by blast
    ultimately show ?thesis using z(1) unfolding e(1) by auto
  qed
qed simp

lemma zero_byte_None:
  "zero_byte bm i n = None \<Longrightarrow> i * 8 \<le> k \<Longrightarrow> k < (i + n) * 8 \<Longrightarrow> bm_bit bm k"
proof (induction n arbitrary: i)
  case (Suc n)
  have z: "zero_bit (bm ! i) 0 8 = None" "zero_byte bm (i + 1) n = None"
    using Suc.prems(1) by (simp_all split: option.splits)
  show ?case
  proof (cases "k < (i + 1) * 8")
    case True
    then have "k div 8 = i" using Suc.prems(2) by simp
    then show ?thesis using zero_bit_None [OF z(1), of "k mod 8"] by (simp add: bm_bit_def)
  next
    case False
    then show ?thesis using Suc.IH [OF z(2)] Suc.prems(3) by simp
  qed
qed simp

lemma set_bitmap_bit:
  assumes "b < length bm" "j < 8" "k < 8 * length bm"
  shows "bm_bit (set_bitmap bm b j) k \<longleftrightarrow> k = b * 8 + j \<or> bm_bit bm k"
proof (cases "k div 8 = b")
  case True
  have "k mod 8 < 8" by simp
  moreover have "k = b * 8 + j \<longleftrightarrow> k mod 8 = j" using True assms(2) by presburger
  ultimately show ?thesis using True assms(1)
    by (auto simp: bm_bit_def set_bitmap_def bit_simps)
next
  case False
  then have "k \<noteq> b * 8 + j" using assms(2) by auto
  then show ?thesis using False by (simp add: bm_bit_def set_bitmap_def)
qed

section \<open>The metadata behind the boot block\<close>

text \<open>
  The super block copy and the descriptor table are written back to fixed sectors; \<open>meta_end\<close> is the
  first sector behind them.
\<close>

definition meta_end :: "ext2 \<Rightarrow> nat" where
  "meta_end x = unat (x_lba_root x) + max (2 + spb x) (4 + unat (bgdt_sectors x))"

definition meta_ok :: "ext2 \<Rightarrow> bool" where
  "meta_ok x \<longleftrightarrow> meta_end x \<le> 2 ^ 28 \<and> 32 * length (x_bgdt x) \<le> 512 * unat (bgdt_sectors x) \<and>
     (\<forall>d\<in>set (x_bgdt x). length (dsc_padding d) = 14)"

definition data_blk :: "ext2 \<Rightarrow> u32 \<Rightarrow> bool" where
  "data_blk x b \<longleftrightarrow> blk_ok x b \<and> meta_end x \<le> unat (blk_to_lba x b)"

definition meta_written :: "ext2 \<Rightarrow> ext2 \<Rightarrow> bool" where
  "meta_written x x' \<longleftrightarrow> (\<exists>d. x' = x\<lparr>x_disk := d\<rparr> \<and> dk_bad d = dk_bad (x_disk x) \<and> disk_ok d \<and>
     (\<forall>l. meta_end x \<le> unat l \<longrightarrow> dk_sector d l = dk_sector (x_disk x) l))"

lemma length_encode_descs:
  "\<forall>d\<in>set ds. length (dsc_padding d) = 14 \<Longrightarrow> length (concat (map encode_desc ds)) = 32 * length ds"
  by (induction ds) (simp_all add: length_encode_desc)

lemma write_bgdt_meta:
  assumes "mounted x" "meta_ok x"
  shows "meta_written x (fs_ext2_write_bgdt_to_disk x)"
proof -
  let ?n = "unat (bgdt_sectors x)" and ?bytes = "concat (map encode_desc (x_bgdt x))"
  let ?buf = "?bytes @ drop (length ?bytes) (fresh_bytes x (512 * ?n))"
  have fits: "meta_end x \<le> 2 ^ 28" "32 * length (x_bgdt x) \<le> 512 * ?n" "length ?bytes = 32 * length (x_bgdt x)"
    using assms(2) by (simp_all add: meta_ok_def length_encode_descs)
  have "unat (x_lba_root x) + 4 < 4294967296" using fits(1) by (simp add: meta_end_def)
  then have u: "unat (x_lba_root x + 4) = unat (x_lba_root x) + 4" by (simp add: unat_add_small)
  have "run_fits (x_lba_root x + 4) ?n" using fits(1) by (simp add: run_fits_def u meta_end_def)
  moreover have "length ?buf = 512 * ?n" using fits(2,3) by (simp add: fresh_bytes_length)
  ultimately obtain d where d: "snd (write_sectors (x_disk x) (x_lba_root x + 4) ?buf ?n) = d"
    "dk_bad d = dk_bad (x_disk x)" "disk_ok d"
    "\<forall>l. \<not> in_run (x_lba_root x + 4) ?n l \<longrightarrow> dk_sector d l = dk_sector (x_disk x) l"
    using write_sectors_frame [OF _ _ mountedD(3) [OF assms(1)]] by (metis prod.collapse)
  have "fs_ext2_write_bgdt_to_disk x = x\<lparr>x_disk := d\<rparr>"
    using d(1) by (simp add: fs_ext2_write_bgdt_to_disk_def Let_def disk_write_def)
  moreover have "\<not> in_run (x_lba_root x + 4) ?n l" if "meta_end x \<le> unat l" for l
    using that by (auto simp: in_run_def u meta_end_def)
  ultimately show ?thesis using d(2,3,4) by (auto simp: meta_written_def)
qed

lemma write_sb_meta:
  assumes "mounted x" "meta_ok x"
  shows "meta_written x (fs_ext2_write_sb_base_to_disk x)"
proof -
  note m = mountedD [OF assms(1)]
  note f = block_size_facts [OF m(4)]
  let ?lba = "x_lba_root x + 2"
  have fits: "meta_end x \<le> 2 ^ 28" using assms(2) by (simp add: meta_ok_def)
  then have "unat (x_lba_root x) + 2 < 4294967296" by (simp add: meta_end_def)
  then have u: "unat ?lba = unat (x_lba_root x) + 2" by (simp add: unat_add_small)
  have run: "run_fits ?lba (spb x)" using fits by (simp add: run_fits_def u meta_end_def)
  obtain ok got where r: "read_sectors (x_disk x) ?lba (spb x) = (ok, got)" by fastforce
  let ?buf = "got @ drop (length got) (fresh_bytes x (bsz x))"
  have rr: "read_run x ?lba = (ok, ?buf)" using r f(2) by (simp add: read_run_def disk_read_def)
  show ?thesis
  proof (cases ok)
    case False
    then show ?thesis
      using rr m(3) by (auto simp: fs_ext2_write_sb_base_to_disk_def meta_written_def intro: exI [of _ "x_disk x"])
  next
    case True
    let ?new = "overwrite ?buf 0 (encode_sb_base (x_sb x))"
    have "length got = bsz x" using read_sectors_length [OF m(3)] r True f(1) by simp
    then have "length ?new = 512 * spb x" using f(1,5) by (simp add: fresh_bytes_length length_encode_sb_base)
    then obtain d where d: "snd (write_sectors (x_disk x) ?lba ?new (spb x)) = d"
      "dk_bad d = dk_bad (x_disk x)" "disk_ok d"
      "\<forall>l. \<not> in_run ?lba (spb x) l \<longrightarrow> dk_sector d l = dk_sector (x_disk x) l"
      using write_sectors_frame [OF run _ m(3)] by (metis prod.collapse)
    have "fs_ext2_write_sb_base_to_disk x = x\<lparr>x_disk := d\<rparr>"
      using d(1) rr True f(2)
      by (auto simp: fs_ext2_write_sb_base_to_disk_def write_run_def disk_write_def split: prod.splits)
    moreover have "\<not> in_run ?lba (spb x) l" if "meta_end x \<le> unat l" for l
      using that by (auto simp: in_run_def u meta_end_def)
    ultimately show ?thesis using d(2,3,4) by (auto simp: meta_written_def)
  qed
qed

lemma meta_written_keeps:
  assumes "mounted x" "meta_written x x'"
  shows "mounted x'" "meta_ok x' = meta_ok x" "blk_ok x' b = blk_ok x b" "data_blk x' b = data_blk x b"
    "data_blk x b \<Longrightarrow> blk_bytes x' b = blk_bytes x b"
    "x_bgdt x' = x_bgdt x" "x_sb x' = x_sb x" "x_block_size x' = x_block_size x"
proof -
  obtain d where d: "x' = x\<lparr>x_disk := d\<rparr>" "dk_bad d = dk_bad (x_disk x)" "disk_ok d"
    "\<And>l. meta_end x \<le> unat l \<Longrightarrow> dk_sector d l = dk_sector (x_disk x) l"
    using assms(2) unfolding meta_written_def by blast
  show "mounted x'" unfolding d(1) by (rule mounted_disk [OF assms(1) d(3)])
  show "blk_ok x' b = blk_ok x b" unfolding d(1) by (rule blk_ok_disk [OF d(2)])
  then show "data_blk x' b = data_blk x b" "meta_ok x' = meta_ok x"
    unfolding d(1) by (simp_all add: data_blk_def meta_ok_def meta_end_def blk_to_lba_def spb_def bgdt_sectors_def bgdt_size_def)
  show "blk_bytes x' b = blk_bytes x b" if "data_blk x b"
    unfolding d(1)
  proof (rule blk_bytes_cong [OF assms(1) _ d(2)])
    show "blk_ok x b" using that by (simp add: data_blk_def)
    show "dk_sector d l = dk_sector (x_disk x) l" if "in_run (blk_to_lba x b) (spb x) l" for l
      using that \<open>data_blk x b\<close> by (intro d(4)) (simp add: in_run_def data_blk_def)
  qed
qed (use assms(2) in \<open>auto simp: meta_written_def\<close>)

section \<open>Taking a block\<close>

definition block_bitmap :: "ext2 \<Rightarrow> nat \<Rightarrow> u8 list" where
  "block_bitmap x g = blk_bytes x (dsc_block_bitmap (x_bgdt x ! g))"

definition group_has_room :: "ext2 \<Rightarrow> nat \<Rightarrow> bool" where
  "group_has_room x g \<longleftrightarrow> 0 < dsc_unallocated_blocks (x_bgdt x ! g) \<and> (\<exists>k<8 * bsz x. \<not> bm_bit (block_bitmap x g) k)"

definition bitmaps_ok :: "ext2 \<Rightarrow> bool" where
  "bitmaps_ok x \<longleftrightarrow> (\<forall>g<length (x_bgdt x). data_blk x (dsc_block_bitmap (x_bgdt x ! g)))"

text \<open>The block the code names for a bit of a group's bitmap.\<close>

definition named_block :: "ext2 \<Rightarrow> nat \<Rightarrow> nat \<Rightarrow> u32" where
  "named_block x g k = of_nat g * sb_nb_blocks_in_group (x_sb x) + of_nat k"

text \<open>The state after the bit \<open>k\<close> of the group \<open>g\<close> has been taken.\<close>

definition bit_taken :: "ext2 \<Rightarrow> nat \<Rightarrow> nat \<Rightarrow> ext2 \<Rightarrow> bool" where
  "bit_taken x g k x' \<longleftrightarrow> mounted x' \<and> meta_ok x' \<and>
     (\<forall>b. blk_ok x' b = blk_ok x b) \<and>
     (\<forall>j<8 * bsz x. bm_bit (block_bitmap x' g) j \<longleftrightarrow> j = k \<or> bm_bit (block_bitmap x g) j) \<and>
     (\<forall>b. data_blk x b \<and> b \<noteq> dsc_block_bitmap (x_bgdt x ! g) \<longrightarrow> blk_bytes x' b = blk_bytes x b) \<and>
     x_bgdt x' = (x_bgdt x)[g := (x_bgdt x ! g)\<lparr>dsc_unallocated_blocks := dsc_unallocated_blocks (x_bgdt x ! g) - 1\<rparr>] \<and>
     sb_unallocated_blocks_count (x_sb x') = sb_unallocated_blocks_count (x_sb x) - 1"

lemma take_block_keeps:
  assumes "mounted x" "meta_ok x" "g < length (x_bgdt x)"
  shows "mounted (take_block x g)" "meta_ok (take_block x g)" "blk_ok (take_block x g) b = blk_ok x b"
    "data_blk (take_block x g) b = data_blk x b" "blk_bytes (take_block x g) b = blk_bytes x b"
    "x_block_size (take_block x g) = x_block_size x"
proof -
  show "mounted (take_block x g)"
    using assms(1) by (simp add: mounted_def take_block_def block_size_ok_def)
  have m: "meta_end (take_block x g) = meta_end x"
    by (simp add: meta_end_def take_block_def spb_def bgdt_sectors_def bgdt_size_def)
  have "\<forall>d\<in>set (x_bgdt (take_block x g)). length (dsc_padding d) = 14"
    using assms(2,3) by (auto simp: take_block_def meta_ok_def all_set_conv_all_nth nth_list_update)
  then show "meta_ok (take_block x g)"
    using assms(2) m by (simp add: meta_ok_def) (simp add: take_block_def bgdt_sectors_def bgdt_size_def)
  show b: "blk_ok (take_block x g) b = blk_ok x b"
    by (simp add: blk_ok_def take_block_def spb_def blk_to_lba_def run_good_def)
  show "data_blk (take_block x g) b = data_blk x b"
    using b m by (simp add: data_blk_def) (simp add: take_block_def blk_to_lba_def)
  show "blk_bytes (take_block x g) b = blk_bytes x b"
    by (simp add: blk_bytes_def read_blk_def read_run_def take_block_def blk_to_lba_def blk_sectors_def fresh_bytes_def)
  show "x_block_size (take_block x g) = x_block_size x" by (simp add: take_block_def)
qed

lemma put_data_blk:
  assumes "mounted x" "meta_ok x" "blk_ok x b" "length buf = bsz x"
  shows "meta_ok (put_blk x b buf)" "data_blk (put_blk x b buf) b' = data_blk x b'"
    "x_bgdt (put_blk x b buf) = x_bgdt x" "x_sb (put_blk x b buf) = x_sb x"
proof -
  obtain d where d: "put_blk x b buf = x\<lparr>x_disk := d\<rparr>" "dk_bad d = dk_bad (x_disk x)"
    using write_blk_ok(2) [OF assms(1,3,4)] by blast
  show "meta_ok (put_blk x b buf)"
    using assms(2) unfolding d(1) by (simp add: meta_ok_def meta_end_def spb_def bgdt_sectors_def bgdt_size_def)
  show "data_blk (put_blk x b buf) b' = data_blk x b'"
    using blk_ok_disk [OF d(2)] unfolding d(1)
    by (simp add: data_blk_def meta_end_def spb_def bgdt_sectors_def bgdt_size_def blk_to_lba_def)
qed (simp_all add: put_blk_def write_blk_def write_run_def split: prod.splits)

lemma alloc_takes_bit:
  assumes "mounted x" "meta_ok x" "g < length (x_bgdt x)" "data_blk x (dsc_block_bitmap (x_bgdt x ! g))"
    and "b < bsz x" "j < 8" "k = b * 8 + j"
  defines "bn \<equiv> dsc_block_bitmap (x_bgdt x ! g)"
  shows "\<exists>x1. write_blk x bn (set_bitmap (blk_bytes x bn) b j) = (True, x1) \<and>
    bit_taken x g k (fs_ext2_write_sb_base_to_disk (fs_ext2_write_bgdt_to_disk (take_block x1 g)))"
proof -
  have ok: "blk_ok x bn" using assms(4) by (simp add: data_blk_def bn_def)
  have len: "length (set_bitmap (blk_bytes x bn) b j) = bsz x"
    using read_blk_ok(2) [OF assms(1) ok] by (simp add: set_bitmap_def)
  let ?x1 = "put_blk x bn (set_bitmap (blk_bytes x bn) b j)"
  note law = blocks.store_inv [OF assms(1) ok len] blocks.store_addr [OF assms(1) ok len] blocks.load_store [OF assms(1) ok len]
  note p = put_data_blk [OF assms(1,2) ok len]
  have g1: "g < length (x_bgdt ?x1)" using assms(3) p(3) by simp
  let ?x2 = "take_block ?x1 g"
  note t = take_block_keeps [OF law(1) p(1) g1]
  let ?x3 = "fs_ext2_write_bgdt_to_disk ?x2"
  note w3 = meta_written_keeps [OF t(1) write_bgdt_meta [OF t(1,2)]]
  let ?x4 = "fs_ext2_write_sb_base_to_disk ?x3"
  have m3: "meta_ok ?x3" using w3(2) t(2) by simp
  note w4 = meta_written_keeps [OF w3(1) write_sb_meta [OF w3(1) m3]]
  have bytes: "blk_bytes ?x4 b' = blk_bytes ?x1 b'" if "data_blk x b'" for b'
    using w4(5) [of b'] w3(4,5) [of b'] t(4,5) [of b'] p(2) [of b'] that by simp
  have b4: "x_bgdt ?x4 = (x_bgdt x)[g := (x_bgdt x ! g)\<lparr>dsc_unallocated_blocks := dsc_unallocated_blocks (x_bgdt x ! g) - 1\<rparr>]"
    unfolding w4(6) w3(6) using p(3) by (simp add: take_block_def)
  have "dsc_block_bitmap (x_bgdt ?x4 ! g) = bn" unfolding b4 using assms(3) by (simp add: bn_def)
  then have "block_bitmap ?x4 g = set_bitmap (blk_bytes x bn) b j"
    using bytes [OF assms(4), folded bn_def] law(3) [OF ok] by (simp add: block_bitmap_def)
  moreover have "block_bitmap x g = blk_bytes x bn" by (simp add: block_bitmap_def bn_def)
  ultimately have "\<forall>i<8 * bsz x. bm_bit (block_bitmap ?x4 g) i \<longleftrightarrow> i = k \<or> bm_bit (block_bitmap x g) i"
    using set_bitmap_bit [of b "blk_bytes x bn" j] read_blk_ok(2) [OF assms(1) ok] assms(5,6,7) by simp
  moreover have "blk_bytes ?x4 b' = blk_bytes x b'" if "data_blk x b'" "b' \<noteq> bn" for b'
    using bytes [OF that(1)] law(3) [of b'] that by (simp add: data_blk_def)
  moreover have "sb_unallocated_blocks_count (x_sb ?x4) = sb_unallocated_blocks_count (x_sb x) - 1"
    unfolding w4(7) w3(7) using p(4) by (simp add: take_block_def)
  moreover have "blk_ok ?x4 b' = blk_ok x b'" for b' using w4(3) w3(3) t(3) law(2) by simp
  ultimately have "bit_taken x g k ?x4"
    unfolding bit_taken_def using w4(1,2) m3 b4 by (simp add: bn_def)
  then show ?thesis using write_blk_ok(1) [OF assms(1) ok len] by blast
qed

lemma zero_byte_room:
  assumes "mounted x" "blk_ok x bn"
  shows "(\<exists>k<8 * bsz x. \<not> bm_bit (blk_bytes x bn) k) \<longleftrightarrow> zero_byte (blk_bytes x bn) 0 (bsz x) \<noteq> None"
proof
  assume "\<exists>k<8 * bsz x. \<not> bm_bit (blk_bytes x bn) k"
  then show "zero_byte (blk_bytes x bn) 0 (bsz x) \<noteq> None"
    using zero_byte_None [of "blk_bytes x bn" 0 "bsz x"] by fastforce
next
  assume "zero_byte (blk_bytes x bn) 0 (bsz x) \<noteq> None"
  then obtain b j where "zero_byte (blk_bytes x bn) 0 (bsz x) = Some (b, j)" by auto
  from zero_byte_Some [OF this] have "b * 8 + j < 8 * bsz x" "\<not> bm_bit (blk_bytes x bn) (b * 8 + j)" by auto
  then show "\<exists>k<8 * bsz x. \<not> bm_bit (blk_bytes x bn) k" by blast
qed

lemma alloc_block_loop_result:
  assumes "mounted x" "meta_ok x" "bitmaps_ok x" "i + n = length (x_bgdt x)"
  shows "(\<forall>g. i \<le> g \<and> g < length (x_bgdt x) \<longrightarrow> \<not> group_has_room x g) \<and>
      alloc_block_loop x 0 (of_nat i) n = Inr (0, x) \<or>
    (\<exists>g k x'. i \<le> g \<and> g < length (x_bgdt x) \<and> group_has_room x g \<and>
      (\<forall>h. i \<le> h \<and> h < g \<longrightarrow> \<not> group_has_room x h) \<and> k < 8 * bsz x \<and>
      \<not> bm_bit (block_bitmap x g) k \<and> (\<forall>j<k. bm_bit (block_bitmap x g) j) \<and>
      alloc_block_loop x 0 (of_nat i) n = Inr (named_block x g k, x') \<and> bit_taken x g k x')"
  using assms(4)
proof (induction n arbitrary: i)
  case 0
  then show ?case by (intro disjI1) auto
next
  case (Suc n)
  have lt: "i < length (x_bgdt x)" using Suc.prems by simp
  have nb: "length (x_bgdt x) = unat (x_nb_groups x)" using mountedD(5) [OF assms(1)] .
  have "unat (of_nat i :: u32) = i" using lt nb unat_bound32 [of "x_nb_groups x"] by (intro unat_of_nat_small) linarith
  then have grp: "(0 + of_nat i) mod x_nb_groups x = of_nat i" "unat (of_nat i :: u32) = i"
    using lt nb by (simp_all add: word_unat_eq_iff unat_mod)
  let ?bn = "dsc_block_bitmap (x_bgdt x ! i)"
  have data: "data_blk x ?bn" using assms(3) lt by (simp add: bitmaps_ok_def)
  then have ok: "blk_ok x ?bn" by (simp add: data_blk_def)
  note rd = read_blk_ok(1) [OF assms(1) ok]
  show ?case
  proof (cases "group_has_room x i")
    case False
    have skip: "alloc_block_loop x 0 (of_nat i) (Suc n) = alloc_block_loop x 0 (of_nat (i + 1)) n"
    proof (cases "0 < dsc_unallocated_blocks (x_bgdt x ! i)")
      case True
      then have "zero_byte (blk_bytes x ?bn) 0 (bsz x) = None"
        using False zero_byte_room [OF assms(1) ok]
        by (cases "zero_byte (blk_bytes x ?bn) 0 (bsz x)") (simp_all add: group_has_room_def block_bitmap_def)
      then show ?thesis using True grp lt rd by (simp add: Let_def add.commute)
    next
      case False
      then show ?thesis using grp lt by (simp add: Let_def add.commute)
    qed
    have "i + 1 + n = length (x_bgdt x)" using Suc.prems by simp
    show ?thesis
    proof (rule disjE [OF Suc.IH [OF \<open>i + 1 + n = length (x_bgdt x)\<close>]])
      assume a: "(\<forall>g. i + 1 \<le> g \<and> g < length (x_bgdt x) \<longrightarrow> \<not> group_has_room x g) \<and>
        alloc_block_loop x 0 (of_nat (i + 1)) n = Inr (0, x)"
      have "\<not> group_has_room x g" if "i \<le> g \<and> g < length (x_bgdt x)" for g
        using a False that by (cases "g = i") auto
      then show ?thesis unfolding skip using a by blast
    next
      assume "\<exists>g k x'. i + 1 \<le> g \<and> g < length (x_bgdt x) \<and> group_has_room x g \<and>
        (\<forall>h. i + 1 \<le> h \<and> h < g \<longrightarrow> \<not> group_has_room x h) \<and> k < 8 * bsz x \<and>
        \<not> bm_bit (block_bitmap x g) k \<and> (\<forall>j<k. bm_bit (block_bitmap x g) j) \<and>
        alloc_block_loop x 0 (of_nat (i + 1)) n = Inr (named_block x g k, x') \<and> bit_taken x g k x'"
      then obtain g k x' where a: "i + 1 \<le> g" "g < length (x_bgdt x)" "group_has_room x g"
        "\<forall>h. i + 1 \<le> h \<and> h < g \<longrightarrow> \<not> group_has_room x h" and
        b: "k < 8 * bsz x" "\<not> bm_bit (block_bitmap x g) k" "\<forall>j<k. bm_bit (block_bitmap x g) j"
        "alloc_block_loop x 0 (of_nat (i + 1)) n = Inr (named_block x g k, x')" "bit_taken x g k x'" by blast
      have "\<not> group_has_room x h" if "i \<le> h \<and> h < g" for h
        using a(4) False that by (cases "h = i") auto
      then show ?thesis unfolding skip using a(1,2,3) b by (intro disjI2 exI [of _ g] exI [of _ k] exI [of _ x']) simp
    qed
  next
    case True
    then obtain b j where z: "zero_byte (blk_bytes x ?bn) 0 (bsz x) = Some (b, j)"
      using zero_byte_room [OF assms(1) ok] by (auto simp: group_has_room_def block_bitmap_def)
    note zb = zero_byte_Some [OF z]
    let ?k = "b * 8 + j"
    obtain x1 where x1: "write_blk x ?bn (set_bitmap (blk_bytes x ?bn) b j) = (True, x1)"
      "bit_taken x i ?k (fs_ext2_write_sb_base_to_disk (fs_ext2_write_bgdt_to_disk (take_block x1 i)))"
      using alloc_takes_bit [OF assms(1,2) lt data, of b j ?k] zb by auto
    have "0 < dsc_unallocated_blocks (x_bgdt x ! i)" using True by (simp add: group_has_room_def)
    then have "alloc_block_loop x 0 (of_nat i) (Suc n) =
        Inr (named_block x i ?k, fs_ext2_write_sb_base_to_disk (fs_ext2_write_bgdt_to_disk (take_block x1 i)))"
      using grp lt rd z x1(1) by (simp add: Let_def named_block_def)
    moreover have "?k < 8 * bsz x" "\<not> bm_bit (block_bitmap x i) ?k" "\<forall>j'<?k. bm_bit (block_bitmap x i) j'"
      using zb by (auto simp: block_bitmap_def)
    ultimately show ?thesis using True lt x1(2)
      by - (rule disjI2, rule exI [of _ i], rule exI [of _ ?k],
        rule exI [of _ "fs_ext2_write_sb_base_to_disk (fs_ext2_write_bgdt_to_disk (take_block x1 i))"],
        auto simp del: alloc_block_loop.simps)
  qed
qed

lemma alloc_block_result:
  assumes "mounted x" "meta_ok x" "bitmaps_ok x"
  shows "(\<forall>g<length (x_bgdt x). \<not> group_has_room x g) \<and> fs_ext2_alloc_block 0 x = Inr (0, x) \<or>
    (\<exists>g k x'. g < length (x_bgdt x) \<and> group_has_room x g \<and> (\<forall>h<g. \<not> group_has_room x h) \<and> k < 8 * bsz x \<and>
      \<not> bm_bit (block_bitmap x g) k \<and> (\<forall>j<k. bm_bit (block_bitmap x g) j) \<and>
      fs_ext2_alloc_block 0 x = Inr (named_block x g k, x') \<and> bit_taken x g k x')"
  using alloc_block_loop_result [OF assms, of 0 "unat (x_nb_groups x)"] mountedD(5) [OF assms(1)]
  by (simp add: fs_ext2_alloc_block_def)

text \<open>
  C17. \<open>fs_ext2_alloc_block\<close> takes the first clear bit of the first group that has room: it sets that bit
  and no other, counts the group and the super block down by one and leaves every other block behind the
  metadata alone, so a bit is never taken twice. When no group has room it gives 0 and changes nothing.
\<close>

theorem ext2_alloc_block:
  assumes "mounted x" "meta_ok x" "bitmaps_ok x"
  shows "\<exists>bn x'. fs_ext2_alloc_block 0 x = Inr (bn, x') \<and>
    ((\<forall>g<length (x_bgdt x). \<not> group_has_room x g) \<longrightarrow> bn = 0 \<and> x' = x) \<and>
    (\<forall>g<length (x_bgdt x). group_has_room x g \<and> (\<forall>h<g. \<not> group_has_room x h) \<longrightarrow>
      (\<exists>k<8 * bsz x. \<not> bm_bit (block_bitmap x g) k \<and> (\<forall>j<k. bm_bit (block_bitmap x g) j) \<and>
        bn = named_block x g k \<and> bit_taken x g k x'))"
  using alloc_block_result [OF assms]
proof (elim disjE exE conjE)
  assume none: "\<forall>g<length (x_bgdt x). \<not> group_has_room x g" and "fs_ext2_alloc_block 0 x = Inr (0, x)"
  then show ?thesis by (intro exI [of _ 0] exI [of _ x]) simp
next
  fix g k x'
  assume g: "g < length (x_bgdt x)" "group_has_room x g" "\<forall>h<g. \<not> group_has_room x h"
    and k: "k < 8 * bsz x" "\<not> bm_bit (block_bitmap x g) k" "\<forall>j<k. bm_bit (block_bitmap x g) j"
    and res: "fs_ext2_alloc_block 0 x = Inr (named_block x g k, x')" "bit_taken x g k x'"
  have "h = g" if "group_has_room x h" "\<forall>i<h. \<not> group_has_room x i" for h
    using that g(2,3) by (metis linorder_neqE_nat)
  then show ?thesis
    using g k res by (intro exI [of _ "named_block x g k"] exI [of _ x']) blast
qed

text \<open>
  The format numbers the blocks from \<open>sb_block_nb_of_sb\<close> on: that is the block of bit 0 of group 0, and
  it is 1 when blocks have 1 KiB. \<open>block_used\<close> is what the bitmaps say of a block.
\<close>

definition block_used :: "ext2 \<Rightarrow> u32 \<Rightarrow> bool" where
  "block_used x b =
     (let q = unat b - unat (sb_block_nb_of_sb (x_sb x)); bpg = unat (sb_nb_blocks_in_group (x_sb x))
      in bm_bit (block_bitmap x (q div bpg)) (q mod bpg))"

text \<open>
  C18. With blocks of 1 KiB, the size \<open>mkfs.ext2\<close> gives the disk image, the number that
  \<open>fs_ext2_alloc_block\<close> returns is that of the block before the one whose bit it set: a block that was
  already in use.
\<close>

theorem ext2_alloc_block_in_use:
  assumes "mounted x" "meta_ok x" "bitmaps_ok x" "sb_block_nb_of_sb (x_sb x) = 1"
    and "unat (sb_nb_blocks_in_group (x_sb x)) = 8 * bsz x" "length (x_bgdt x) * (8 * bsz x) < 2 ^ 32"
    and "\<forall>g<length (x_bgdt x). bm_bit (block_bitmap x g) 0"
    and "g < length (x_bgdt x)" "group_has_room x g"
  shows "\<exists>bn x'. fs_ext2_alloc_block 0 x = Inr (bn, x') \<and> bn \<noteq> 0 \<and> block_used x bn"
proof -
  let ?bpg = "8 * bsz x"
  from alloc_block_result [OF assms(1,2,3)] assms(8,9) obtain g k x' where
    g: "g < length (x_bgdt x)" "group_has_room x g" and
    k: "k < ?bpg" "\<not> bm_bit (block_bitmap x g) k" "\<forall>j<k. bm_bit (block_bitmap x g) j" and
    res: "fs_ext2_alloc_block 0 x = Inr (named_block x g k, x')" by blast
  have k0: "k \<noteq> 0" using k(2) assms(7) g(1) by metis
  have "(g + 1) * ?bpg \<le> length (x_bgdt x) * ?bpg" using g(1) by (intro mult_le_mono1) simp
  then have bound: "g * ?bpg + k < 4294967296" using assms(6) k(1) by simp
  have "g * ?bpg < 4294967296" using bound by linarith
  moreover have "g \<le> g * ?bpg" using k(1) by (cases ?bpg) simp_all
  moreover have "unat (of_nat g :: u32) = g" by (rule unat_of_nat_small) (use calculation in linarith)
  ultimately have "unat (of_nat g * sb_nb_blocks_in_group (x_sb x)) = g * ?bpg"
    using unat_mul_small [of "of_nat g" "sb_nb_blocks_in_group (x_sb x)"] unfolding assms(5) by simp
  moreover have "k < 4294967296" using bound by linarith
  ultimately have u: "unat (named_block x g k) = g * ?bpg + k"
    using bound unfolding named_block_def by (subst unat_add_small) (simp_all add: unat_of_nat_small)
  obtain r where kr: "k = Suc r" using k0 by (cases k) auto
  have "unat (named_block x g k) - 1 = g * ?bpg + r" using u kr by simp
  moreover have "(g * ?bpg + r) div ?bpg = g" "(g * ?bpg + r) mod ?bpg = r"
    using k(1) kr by simp_all
  moreover have "bm_bit (block_bitmap x g) r" using k(3) kr by simp
  ultimately have "block_used x (named_block x g k)"
    by (simp add: block_used_def Let_def assms(4,5))
  moreover have "named_block x g k \<noteq> 0" using u k0 by auto
  ultimately show ?thesis using res by blast
qed

section \<open>Witnesses\<close>

text \<open>The small file system with the first three bits of its block bitmap set.\<close>

definition demo_alloc_fs :: ext2 where
  "demo_alloc_fs = demo_fs\<lparr>x_disk := \<lparr>dk_sector = (\<lambda>l. if l = 2054 then 7 # replicate 511 0 else replicate 512 0),
     dk_bad = (\<lambda>_. False)\<rparr>\<rparr>"

lemma demo_alloc_mounted: "mounted demo_alloc_fs" "meta_ok demo_alloc_fs"
  by (simp_all add: mounted_def demo_alloc_fs_def demo_fs_def disk_ok_def block_size_ok_def meta_ok_def
      meta_end_def spb_def bgdt_sectors_def bgdt_size_def CEIL_DIV_def DESC_SIZE_def ATA_SECTOR_SIZE_def demo_desc_def)

lemma demo_alloc_bitmaps: "bitmaps_ok demo_alloc_fs"
  by (simp add: bitmaps_ok_def data_blk_def blk_ok_def run_good_def demo_alloc_fs_def demo_fs_def demo_desc_def
      meta_end_def spb_def bgdt_sectors_def bgdt_size_def CEIL_DIV_def DESC_SIZE_def ATA_SECTOR_SIZE_def blk_to_lba_def)

lemma demo_alloc_bytes: "block_bitmap demo_alloc_fs 0 = (7 # replicate 511 0) @ replicate 512 0" "bsz demo_alloc_fs = 1024"
proof -
  have "read_sectors (x_disk demo_alloc_fs) 2054 (Suc (Suc 0)) = (True, (7 # replicate 511 0) @ replicate 512 0)"
    by (simp add: demo_alloc_fs_def lba28_def)
  then have "read_sectors (x_disk demo_alloc_fs) 2054 2 = (True, (7 # replicate 511 0) @ replicate 512 0)"
    by (simp add: eval_nat_numeral)
  moreover have "blk_to_lba demo_alloc_fs 3 = 2054" "unat (blk_sectors demo_alloc_fs) = 2"
    by (simp_all add: blk_to_lba_def blk_sectors_def demo_alloc_fs_def demo_fs_def ATA_SECTOR_SIZE_def)
  moreover show "bsz demo_alloc_fs = 1024" by (simp add: demo_alloc_fs_def demo_fs_def)
  moreover have "dsc_block_bitmap (x_bgdt demo_alloc_fs ! 0) = 3"
    by (simp add: demo_alloc_fs_def demo_fs_def demo_desc_def)
  ultimately show "block_bitmap demo_alloc_fs 0 = (7 # replicate 511 0) @ replicate 512 0"
    by (simp add: block_bitmap_def blk_bytes_def read_blk_def read_run_def disk_read_def fresh_bytes_length)
qed

lemma demo_alloc_room: "group_has_room demo_alloc_fs 0" "bm_bit (block_bitmap demo_alloc_fs 0) 0"
proof -
  have n: "block_bitmap demo_alloc_fs 0 ! 0 = 7"
    by (simp add: demo_alloc_bytes(1))
  then show "bm_bit (block_bitmap demo_alloc_fs 0) 0" by (simp add: bm_bit_def)
  have "\<not> bm_bit (block_bitmap demo_alloc_fs 0) 3" using n by (simp add: bm_bit_def)
  moreover have "0 < dsc_unallocated_blocks (x_bgdt demo_alloc_fs ! 0)"
    by (simp add: demo_alloc_fs_def demo_fs_def demo_desc_def)
  ultimately show "group_has_room demo_alloc_fs 0"
    using demo_alloc_bytes(2) by (auto simp: group_has_room_def intro!: exI [of _ 3])
qed

theorem ext2_read_bgdt_witness:
  "fs_ext2_read_bgdt demo_fs = Inl (KFault ''write behind the BGDT buffer'')"
proof -
  have "x_sb_read demo_fs" "disk_ok (x_disk demo_fs)" "unat (x_nb_groups demo_fs) \<le> 4080" "x_nb_groups demo_fs \<noteq> 0"
    "run_fits (x_lba_root demo_fs + 4) (unat (bgdt_sectors demo_fs))"
    "run_good (x_disk demo_fs) (x_lba_root demo_fs + 4) (unat (bgdt_sectors demo_fs))"
    by (simp_all add: demo_fs_def disk_ok_def run_fits_def run_good_def bgdt_sectors_def bgdt_size_def
        CEIL_DIV_def DESC_SIZE_def ATA_SECTOR_SIZE_def)
  from ext2_read_bgdt [OF this(1,2,3,5,6,4)] show ?thesis by (simp add: demo_fs_def)
qed

theorem ext2_alloc_block_witness:
  "\<exists>k x'. fs_ext2_alloc_block 0 demo_alloc_fs = Inr (named_block demo_alloc_fs 0 k, x') \<and> bit_taken demo_alloc_fs 0 k x'"
  using ext2_alloc_block [OF demo_alloc_mounted demo_alloc_bitmaps] demo_alloc_room(1)
  by (fastforce simp: demo_alloc_fs_def demo_fs_def)

theorem ext2_alloc_block_in_use_witness:
  "\<exists>bn x'. fs_ext2_alloc_block 0 demo_alloc_fs = Inr (bn, x') \<and> block_used demo_alloc_fs bn"
proof -
  have "sb_block_nb_of_sb (x_sb demo_alloc_fs) = 1"
    "unat (sb_nb_blocks_in_group (x_sb demo_alloc_fs)) = 8 * bsz demo_alloc_fs"
    "length (x_bgdt demo_alloc_fs) * (8 * bsz demo_alloc_fs) < 2 ^ 32" "0 < length (x_bgdt demo_alloc_fs)"
    "\<forall>g<length (x_bgdt demo_alloc_fs). bm_bit (block_bitmap demo_alloc_fs g) 0"
    using demo_alloc_room(2) by (simp_all add: demo_alloc_fs_def demo_fs_def demo_sb_def)
  from ext2_alloc_block_in_use [OF demo_alloc_mounted demo_alloc_bitmaps this(1,2,3,5,4) demo_alloc_room(1)]
  show ?thesis by blast
qed

end
