(* ===== verification/Ext2Paths.thy ===== *)
theory Ext2Paths
  imports Ext2Alloc
begin

text \<open>
  Directories and paths: a directory block is parsed back to the entries it encodes, a path is resolved
  component by component, and where \<open>fs_ext2_create_file\<close> puts a file.
\<close>

section \<open>Directory blocks\<close>

text \<open>An entry with the bytes behind its name up to its size, as they stand in a directory block.\<close>

definition entry_fits :: "dir_ent \<times> u8 list \<Rightarrow> bool" where
  "entry_fits ep \<longleftrightarrow> length (entry_name (fst ep)) = unat (entry_name_len (fst ep)) \<and>
     8 + length (entry_name (fst ep)) + length (snd ep) = unat (entry_size (fst ep))"

definition entry_bytes :: "dir_ent \<times> u8 list \<Rightarrow> u8 list" where
  "entry_bytes ep = encode_entry (fst ep) @ snd ep"

definition dir_bytes :: "(dir_ent \<times> u8 list) list \<Rightarrow> u8 list" where
  "dir_bytes eps = concat (map entry_bytes eps)"

lemma entry_bytes_length: "entry_fits ep \<Longrightarrow> length (entry_bytes ep) = unat (entry_size (fst ep))"
  by (simp add: entry_fits_def entry_bytes_def encode_entry_def)

lemma entry_at_encode:
  assumes n: "length (entry_name e) = unat (entry_name_len e)"
  shows "entry_at (pre @ entry_bytes (e, pad) @ post) (length pre) = e"
proof -
  have g: "get_bytes (a # b # zs) 2 m = get_bytes zs 0 m" for a b :: u8 and zs m by (simp add: get_bytes_def)
  have b: "get8 (pre @ xs) (length pre + k) = get8 xs k" for xs k by (simp add: get8_def nth_append)
  have t: "get_bytes (entry_name e @ ys) 0 (unat (entry_name_len e)) = entry_name e" for ys
    using n by (auto simp: get_bytes_def nth_append intro!: nth_equalityI)
  have "get8 (entry_bytes (e, pad) @ post) 6 = entry_name_len e" "get8 (entry_bytes (e, pad) @ post) 7 = entry_type e"
    by (simp_all add: entry_bytes_def encode_entry_def get8_def nth_append put32_def put16_def)
  then show ?thesis
    using t by (cases e)
      (simp add: entry_at_def get_skip b entry_bytes_def encode_entry_def get_put g)
qed

lemma dir_block_bytes:
  assumes "\<forall>ep\<in>set eps. entry_fits ep"
  shows "dir_block (pre @ dir_bytes eps @ tail) (length pre) =
    and_then (dir_block (pre @ dir_bytes eps @ tail) (length pre + length (dir_bytes eps)))
      (\<lambda>es. Inr (map fst eps @ es))"
  using assms
proof (induction eps arbitrary: pre)
  case Nil
  show ?case by (cases "dir_block (pre @ tail) (length pre)") (simp_all add: dir_bytes_def del: dir_block.simps)
next
  case (Cons ep eps)
  obtain e pad where ep: "ep = (e, pad)" by (cases ep)
  have fit: "entry_fits (e, pad)" using Cons.prems ep by simp
  have f: "length (entry_name e) = unat (entry_name_len e)" "8 + length (entry_name e) + length pad = unat (entry_size e)"
    using fit by (simp_all add: entry_fits_def)
  let ?buf = "pre @ entry_bytes (e, pad) @ dir_bytes eps @ tail"
  have d: "pre @ dir_bytes (ep # eps) @ tail = ?buf" by (simp add: dir_bytes_def ep)
  have len: "length (entry_bytes (e, pad)) = unat (entry_size e)" using entry_bytes_length [OF fit] by simp
  have at: "entry_at ?buf (length pre) = e" by (rule entry_at_encode [OF f(1)])
  have step: "dir_block ?buf (length pre) =
      and_then (dir_block ?buf (length pre + unat (entry_size e))) (\<lambda>es. Inr (e # es))"
    by (subst dir_block.simps) (use f len at in \<open>simp add: Let_def\<close>)
  have ih: "dir_block ?buf (length pre + unat (entry_size e)) =
      and_then (dir_block ?buf (length pre + unat (entry_size e) + length (dir_bytes eps))) (\<lambda>es. Inr (map fst eps @ es))"
    using Cons.IH [of "pre @ entry_bytes (e, pad)"] Cons.prems len by (simp del: dir_block.simps)
  have total: "length (dir_bytes (ep # eps)) = unat (entry_size e) + length (dir_bytes eps)"
    using len by (simp add: dir_bytes_def ep)
  show ?case
    unfolding d step ih total
    by (cases "dir_block ?buf (length pre + unat (entry_size e) + length (dir_bytes eps))")
      (simp_all add: ep add.assoc del: dir_block.simps)
qed

text \<open>
  A directory block that holds entries one behind the other, each as long as its size says, is
  listed as exactly those entries, in order. An entry of size 0 is never passed: the listing of a block
  in which one is reached does not end.
\<close>

theorem ext2_dir_block:
  assumes "\<forall>ep\<in>set eps. entry_fits ep"
  shows "dir_block (dir_bytes eps) 0 = Inr (map fst eps) \<and>
    (entry_name_len e = 0 \<and> entry_name e = [] \<and> entry_size e = 0 \<longrightarrow>
      dir_block (dir_bytes eps @ encode_entry e) 0 = Inl KHang)"
proof (intro conjI impI)
  note all = dir_block_bytes [OF assms, of "[]"]
  have "dir_block (dir_bytes eps) (length (dir_bytes eps)) = Inr []" by (subst dir_block.simps) simp
  then show "dir_block (dir_bytes eps) 0 = Inr (map fst eps)"
    using all [of "[]"] by (simp del: dir_block.simps)
  assume e: "entry_name_len e = 0 \<and> entry_name e = [] \<and> entry_size e = 0"
  let ?buf = "dir_bytes eps @ encode_entry e"
  have at: "entry_at ?buf (length (dir_bytes eps)) = e"
    using entry_at_encode [of e "dir_bytes eps" "[]" "[]"] e by (simp add: entry_bytes_def)
  have "length (encode_entry e) = 8" using e by (simp add: encode_entry_def)
  then have "dir_block ?buf (length (dir_bytes eps)) = Inl KHang"
    by (subst dir_block.simps) (use at e in \<open>simp add: Let_def\<close>)
  then show "dir_block ?buf 0 = Inl KHang"
    using all [of "encode_entry e"] by (simp del: dir_block.simps)
qed

section \<open>Resolving a path\<close>

text \<open>The reference: one component after the other, from an inode on.\<close>

fun lookup_names :: "ext2 \<Rightarrow> inode \<Rightarrow> u8 list list \<Rightarrow> inode res" where
  "lookup_names x ino [] = Inr ino"
| "lookup_names x ino (nm # nms) =
     and_then (fs_ext2_list_dir x ino) (\<lambda>entries.
       (case entries of
          None \<Rightarrow> Inr zero_inode
        | Some es \<Rightarrow>
            (if find_entry nm es = 0 then Inr zero_inode
             else and_then (fs_ext2_read_inode x (find_entry nm es)) (\<lambda>next_inode. lookup_names x next_inode nms))))"

definition good_names :: "u8 list list \<Rightarrow> bool" where
  "good_names names \<longleftrightarrow> names \<noteq> [] \<and> (\<forall>n\<in>set names. n \<noteq> [] \<and> SLASH \<notin> set n) \<and>
     length (join_with SLASH names) < 268435454"

lemma split_on_prefix: "d \<notin> set s \<Longrightarrow> split_on d cur (s @ rest) = split_on d (cur @ s) rest"
  by (induction s arbitrary: cur) auto

lemma split_join_names:
  assumes "names \<noteq> []" "\<forall>n\<in>set names. n \<noteq> [] \<and> d \<notin> set n"
  shows "split_on d [] (join_with d names) = names"
  using assms
proof (induction d names rule: join_with.induct)
  case (2 d x)
  then show ?case using split_on_prefix [of d x "[]" "[]"] by simp
next
  case (3 d x y xs)
  then show ?case using split_on_prefix [of d x "[]" "d # join_with d (y # xs)"] by simp
qed simp

lemma find_in_dir_some:
  "fs_ext2_find_in_dir x dir (Some nm) = and_then (fs_ext2_list_dir x dir) (\<lambda>entries.
     Inr (case entries of None \<Rightarrow> 0 | Some es \<Rightarrow> find_entry nm es))"
  by (cases "fs_ext2_list_dir x dir") (auto simp: fs_ext2_find_in_dir_def split: option.splits)

lemma resolve_loop_names:
  assumes "da_ok da" "i + n = length (da_list da)"
  shows "resolve_loop x da (of_nat i) ino n = lookup_names x ino (drop i (da_list da))"
  using assms(2)
proof (induction n arbitrary: i ino)
  case 0
  then show ?case by simp
next
  case (Suc n)
  have lt: "i < length (da_list da)" using Suc.prems by simp
  moreover have "length (da_list da) < 4294967296"
    using da_list_length [OF assms(1)] unat_bound32 [of "da_count da"] by linarith
  ultimately have "unat (of_nat i :: u32) = i" by (intro unat_of_nat_small) linarith
  then have g: "dynarray_get da (of_nat i) = Some (da_list da ! i)" using da_list_get [OF assms(1)] lt by simp
  have dr: "drop i (da_list da) = da_list da ! i # drop (i + 1) (da_list da)"
    using lt by (simp add: Cons_nth_drop_Suc)
  have ih: "resolve_loop x da (of_nat i + 1) ino' n = lookup_names x ino' (drop (i + 1) (da_list da))" for ino'
    using Suc.IH [of "i + 1"] Suc.prems by (simp add: add.commute)
  show ?case
    unfolding dr
    by (cases "fs_ext2_list_dir x ino") (auto simp: g find_in_dir_some ih split: option.splits)
qed

lemma resolve_components:
  assumes "length path < 268435455" "path \<noteq> [SLASH]" "path \<noteq> []"
    and "split_on SLASH [] path = (if hd path = SLASH then [[]] else []) @ names" "names \<noteq> []"
  shows "fs_ext2_resolve_path x path = and_then (fs_ext2_read_inode x 2) (\<lambda>root. lookup_names x root names)"
proof -
  define start :: nat where "start = (if hd path = SLASH then 1 else 0)"
  obtain da where da: "kstrsplit path SLASH = Inr da" "da_ok da" "da_list da = (if hd path = SLASH then [[]] else []) @ names"
    using kstrsplit_split [OF assms(1), of SLASH] assms(4) by (auto simp: da_fit_def)
  have s: "(if path \<noteq> [] \<and> hd path = SLASH then 1 else 0) = (of_nat start :: u32)" "start \<le> 1"
    using assms(3) by (simp_all add: start_def)
  have len: "length (da_list da) = start + length names" "drop start (da_list da) = names"
    using da(3) by (simp_all add: start_def)
  have cnt: "unat (da_count da) = length (da_list da)" using da_list_length [OF da(2)] by simp
  have "unat (of_nat start :: u32) = start" "unat (1 + of_nat start :: u32) = 1 + start"
    using s(2) by (auto simp: start_def)
  then have u: "unat (of_nat start :: u32) = start" "unat (da_count da) - unat (1 + of_nat start :: u32) = length names - 1"
    using len(1) cnt by simp_all
  have loop: "resolve_loop x da (of_nat start) root (length names) = lookup_names x root names" for root
    using resolve_loop_names [OF da(2), of start "length names"] len by simp
  obtain m where m: "length names = Suc m" using assms(5) by (cases names) auto
  have "resolve_loop x da (of_nat start) root (Suc m) =
      and_then (fs_ext2_find_in_dir x root (dynarray_get da (of_nat start))) (\<lambda>next_id.
        (if next_id = 0 then Inr zero_inode
         else and_then (fs_ext2_read_inode x next_id) (\<lambda>next_inode. resolve_loop x da (1 + of_nat start) next_inode
          (unat (da_count da) - unat (1 + of_nat start :: u32)))))" for root
    unfolding u(2) m diff_Suc_1 by (simp only: resolve_loop.simps add.commute [of 1])
  then show ?thesis
    using da(1) assms(2) s(1) m loop
    by (cases "fs_ext2_read_inode x 2") (simp_all add: fs_ext2_resolve_path_def Let_def)
qed

text \<open>
  C19. A path is resolved as its components say: from the root inode on, each is looked up in the
  directory the ones before it led to, and the first that is not there ends the search with the null
  inode. A leading slash changes nothing: a path without one starts at the root too.
\<close>

theorem ext2_resolve_path:
  assumes "good_names names"
  shows "fs_ext2_resolve_path x (SLASH # join_with SLASH names) =
      and_then (fs_ext2_read_inode x 2) (\<lambda>root. lookup_names x root names) \<and>
    fs_ext2_resolve_path x (join_with SLASH names) = fs_ext2_resolve_path x (SLASH # join_with SLASH names)"
proof -
  have n: "names \<noteq> []" "\<forall>n\<in>set names. n \<noteq> [] \<and> SLASH \<notin> set n" "length (join_with SLASH names) < 268435454"
    using assms by (simp_all add: good_names_def)
  note sp = split_join_names [OF n(1,2)]
  obtain nm nms where nn: "names = nm # nms" "nm \<noteq> []" "SLASH \<notin> set nm" using n by (cases names) auto
  then obtain c cs where "join_with SLASH names = c # cs" "c \<noteq> SLASH"
    by (cases nms; cases nm) auto
  then have j: "join_with SLASH names \<noteq> []" "hd (join_with SLASH names) \<noteq> SLASH" "join_with SLASH names \<noteq> [SLASH]"
    by auto
  have "fs_ext2_resolve_path x (SLASH # join_with SLASH names) =
      and_then (fs_ext2_read_inode x 2) (\<lambda>root. lookup_names x root names)"
    using n(3) j sp by (intro resolve_components) (simp_all add: n(1))
  moreover have "fs_ext2_resolve_path x (join_with SLASH names) =
      and_then (fs_ext2_read_inode x 2) (\<lambda>root. lookup_names x root names)"
    using n(3) j sp by (intro resolve_components) (simp_all add: n(1))
  ultimately show ?thesis by simp
qed

section \<open>Where a new file goes\<close>

lemma segment_length: "n \<in> set (split_on d cur s) \<Longrightarrow> length n \<le> length cur + length s"
proof (induction d cur s rule: split_on.induct)
  case (2 d cur c cs)
  then show ?case by (cases "c = d") auto
qed (simp split: if_splits)

lemma parent_dir_absolute:
  assumes "length p < 268435454"
  shows "parent_dir (SLASH # p) = Inr ([SLASH], Some (last ([] # split_on SLASH [] p)))"
proof -
  obtain da where da: "kstrsplit (SLASH # p) SLASH = Inr da" "da_ok da" "da_list da = [] # split_on SLASH [] p"
    using kstrsplit_split [of "SLASH # p" SLASH] assms by (auto simp: da_fit_def)
  obtain fname rest where r: "dynarray_remove_last da = (fname, rest)" by fastforce
  have l: "fname = Some (last (da_list da))" "da_list rest = butlast (da_list da)" "da_ok rest"
    using da_remove_last [OF da(2)] da(3) r by auto
  have cnt: "unat (da_count rest) = length (da_list rest)" using da_list_length [OF l(3)] by simp
  show ?thesis
  proof (cases "split_on SLASH [] p")
    case Nil
    then have "da_count rest = 0" using cnt l(2) da(3) by (simp add: word_unat_eq_iff)
    then show ?thesis using da(1,3) r l(1) by (simp add: parent_dir_def)
  next
    case (Cons a b)
    then have "da_list rest = [] # butlast (a # b)" using l(2) da(3) by simp
    moreover then have "dynarray_get rest 0 = Some []" using da_list_get [OF l(3), of 0] by simp
    moreover have "da_count rest \<noteq> 0" using cnt calculation(1) by auto
    ultimately show ?thesis using da(1,3) r l(1) Cons by (simp add: parent_dir_def)
  qed
qed

text \<open>
  \<open>fs_ext2_create_file\<close> puts every file with an absolute path into the root directory, whatever
  directories the path names: the segment before the leading slash is empty, and an empty first segment
  is taken for the root.
\<close>

theorem ext2_create_in_root:
  assumes "length p < 268435454"
  shows "fs_ext2_create_file (SLASH # p) data x = fs_ext2_create_file (SLASH # last ([] # split_on SLASH [] p)) data x"
proof -
  let ?name = "last ([] # split_on SLASH [] p)"
  have clean: "SLASH \<notin> set cur \<Longrightarrow> \<forall>n\<in>set (split_on SLASH cur s). SLASH \<notin> set n" for cur s
    by (induction SLASH cur s rule: split_on.induct) auto
  have "SLASH \<notin> set ?name" using clean [of "[]" p] by (auto simp: last_in_set split: if_splits)
  then have "last ([] # split_on SLASH [] ?name) = ?name"
    using split_on_prefix [of SLASH ?name "[]" "[]"] by simp
  moreover have "length ?name < 268435454"
  proof -
    have "length n \<le> length p" if "n \<in> set (split_on SLASH [] p)" for n
      using segment_length [OF that] by simp
    then have "split_on SLASH [] p \<noteq> [] \<Longrightarrow> length (last (split_on SLASH [] p)) \<le> length p" by simp
    then show ?thesis using assms by (cases "split_on SLASH [] p = []") auto
  qed
  ultimately have "parent_dir (SLASH # ?name) = parent_dir (SLASH # p)"
    using parent_dir_absolute [OF assms] parent_dir_absolute [of ?name] by simp
  then show ?thesis by (simp only: fs_ext2_create_file_def)
qed

section \<open>Witnesses\<close>

text \<open>The entry \<open>.\<close> of a directory, 12 bytes long.\<close>

definition demo_dot :: "dir_ent \<times> u8 list" where
  "demo_dot = (\<lparr>entry_inode = 2, entry_size = 12, entry_name_len = 1, entry_type = 2, entry_name = [0x2E]\<rparr>, [0, 0, 0])"

definition demo_empty_entry :: dir_ent where
  "demo_empty_entry = \<lparr>entry_inode = 0, entry_size = 0, entry_name_len = 0, entry_type = 0, entry_name = []\<rparr>"

theorem ext2_dir_block_witness:
  "dir_block (dir_bytes [demo_dot]) 0 = Inr [fst demo_dot] \<and>
    dir_block (dir_bytes [demo_dot] @ encode_entry demo_empty_entry) 0 = Inl KHang"
  using ext2_dir_block [of "[demo_dot]" demo_empty_entry]
  by (simp add: entry_fits_def demo_dot_def demo_empty_entry_def del: dir_block.simps)

theorem ext2_resolve_path_witness:
  "fs_ext2_resolve_path demo_fs [0x2F, 0x62, 0x69, 0x6E] =
    and_then (fs_ext2_read_inode demo_fs 2) (\<lambda>root. lookup_names demo_fs root [[0x62, 0x69, 0x6E]])"
  using ext2_resolve_path [of "[[0x62, 0x69, 0x6E]]" demo_fs] by (simp add: good_names_def SLASH_def)

theorem ext2_create_in_root_witness:
  "fs_ext2_create_file [0x2F, 0x61, 0x2F, 0x62] [1] demo_fs = fs_ext2_create_file [0x2F, 0x62] [1] demo_fs"
  using ext2_create_in_root [of "[0x61, 0x2F, 0x62]" "[1]" demo_fs] by (simp add: SLASH_def)

end
