(* ===== verification/Ext2Contents.thy ===== *)
theory Ext2Contents
  imports Ext2Inode
begin

text \<open>
  The contents of a file: \<open>fs_ext2_read_file_contents\<close> gives the bytes of the file's blocks in order, and
  what \<open>fs_ext2_write_file\<close> stores is read back.
\<close>

section \<open>The blocks of a file\<close>

abbreviation file_blk :: "ext2 \<Rightarrow> inode \<Rightarrow> nat \<Rightarrow> u32" where
  "file_blk x ino k \<equiv> get_block_ptr x ino (of_nat k)"

text \<open>Every block from \<open>i\<close> to before \<open>m\<close> is there and readable.\<close>

definition file_blks_ok :: "ext2 \<Rightarrow> inode \<Rightarrow> nat \<Rightarrow> nat \<Rightarrow> bool" where
  "file_blks_ok x ino i m \<longleftrightarrow> (\<forall>k. i \<le> k \<and> k < m \<longrightarrow> file_blk x ino k \<noteq> 0 \<and> blk_ok x (file_blk x ino k))"

definition file_bytes :: "ext2 \<Rightarrow> inode \<Rightarrow> nat \<Rightarrow> nat \<Rightarrow> u8 list" where
  "file_bytes x ino i m = concat (map (\<lambda>k. blk_bytes x (file_blk x ino k)) [i..<m])"

lemma unat_KMIN: "unat (KMIN a b :: u32) = min (unat a) (unat b)"
  by (auto simp: KMIN_def word_less_nat_alt min_def)

lemma unat_sub_le: "(b :: u32) \<le> a \<Longrightarrow> unat (a - b) = unat a - unat b"
  by (simp add: unat_sub word_le_nat_alt)

lemma read_file_loop_result:
  assumes "mounted x" "file_blks_ok x ino i (i + m)" "unat written \<le> unat n" "i + m < 2 ^ 32"
  shows "read_file_loop x ino n (of_nat i) written m = take (unat n - unat written) (file_bytes x ino i (i + m))"
  using assms(2,3,4)
proof (induction m arbitrary: i written)
  case 0
  then show ?case by (simp add: file_bytes_def)
next
  case (Suc m)
  let ?b = "file_blk x ino i" and ?rest = "file_bytes x ino (i + 1) (i + 1 + m)"
  have b: "?b \<noteq> 0" "blk_ok x ?b" using Suc.prems(1) by (simp_all add: file_blks_ok_def)
  have "[i..<i + Suc m] = i # [i + 1..<i + 1 + m]" by (simp add: upt_conv_Cons)
  then have split: "file_bytes x ino i (i + Suc m) = blk_bytes x ?b @ ?rest" by (simp add: file_bytes_def)
  show ?case
  proof (cases "written < n")
    case False
    then have "unat n - unat written = 0" by (simp add: word_less_nat_alt)
    then show ?thesis using False by simp
  next
    case True
    let ?cnt = "KMIN (n - written) (x_block_size x)"
    have lt: "unat written < unat n" using True by (simp add: word_less_nat_alt)
    then have "written \<le> n" by (simp add: word_le_nat_alt)
    then have c: "unat ?cnt = min (unat n - unat written) (bsz x)" by (simp only: unat_KMIN unat_sub_le)
    have "unat written + unat ?cnt < 4294967296" using c lt unat_bound32 [of n] by linarith
    then have w: "unat (written + ?cnt) = unat written + unat ?cnt" by (rule unat_add_small)
    have le: "unat (written + ?cnt) \<le> unat n" using w c lt by linarith
    have ok: "file_blks_ok x ino (i + 1) (i + 1 + m)" using Suc.prems(1) by (simp add: file_blks_ok_def)
    have ih: "read_file_loop x ino n (of_nat i + 1) (written + ?cnt) m = take (unat n - unat (written + ?cnt)) ?rest"
      using Suc.IH [OF ok le] Suc.prems(3) by (simp add: add.commute)
    have len: "length (blk_bytes x ?b) = bsz x" using read_blk_ok(2) [OF assms(1) b(2)] .
    have "read_file_loop x ino n (of_nat i) written (Suc m) =
        take (unat ?cnt) (blk_bytes x ?b) @ take (unat n - unat (written + ?cnt)) ?rest"
      using True b(1) read_blk_ok(1) [OF assms(1) b(2)] ih by (simp add: Let_def)
    also have "\<dots> = take (unat n - unat written) (blk_bytes x ?b @ ?rest)"
      unfolding take_append len w c by (auto simp: min_def len)
    finally show ?thesis using split by simp
  qed
qed

lemma nb_blocks_result:
  assumes "block_size_ok x" "unat (inode_size_low_bits ino) + bsz x \<le> 2 ^ 32"
  shows "unat (nb_blocks x ino) = (unat (inode_size_low_bits ino) + bsz x - 1) div bsz x"
proof -
  note f = block_size_facts [OF assms(1)]
  let ?s = "inode_size_low_bits ino"
  have "x_block_size x \<noteq> 0" using f(5) by auto
  then have bm: "unat (x_block_size x - 1) = bsz x - 1" by (simp add: unat_minus_one)
  have e: "?s + x_block_size x - 1 = ?s + (x_block_size x - 1)" by simp
  have "unat ?s + unat (x_block_size x - 1) < 4294967296" using assms(2) f(5) unfolding bm by simp
  then have "unat (?s + x_block_size x - 1) = unat ?s + (bsz x - 1)" unfolding e by (subst unat_add_small) (simp_all add: bm)
  then show ?thesis using f(5) by (simp add: nb_blocks_def CEIL_DIV_def unat_div)
qed

lemma read_file_result:
  assumes "mounted x" "is_inode_file ino" "file_blks_ok x ino 0 (unat (nb_blocks x ino))"
  shows "fs_ext2_read_file_contents x ino n =
    Inr (of_nat (min (unat n) (unat (nb_blocks x ino) * bsz x)),
         take (unat n) (file_bytes x ino 0 (unat (nb_blocks x ino))))"
proof -
  let ?m = "unat (nb_blocks x ino)"
  have nz: "x_block_size x \<noteq> 0" using block_size_facts(5) [OF mountedD(4) [OF assms(1)]] by auto
  have "read_file_loop x ino n 0 0 ?m = take (unat n) (file_bytes x ino 0 ?m)"
    using read_file_loop_result [OF assms(1), of ino 0 ?m 0 n] assms(3) unat_bound32 [of "nb_blocks x ino"] by simp
  moreover have "length (file_bytes x ino 0 m) = m * bsz x" if "m \<le> ?m" for m
    using that
  proof (induction m)
    case 0
    show ?case by (simp add: file_bytes_def)
  next
    case (Suc m)
    have "blk_ok x (file_blk x ino m)" using assms(3) Suc.prems by (simp add: file_blks_ok_def)
    from read_blk_ok(2) [OF assms(1) this] show ?case using Suc by (simp add: file_bytes_def)
  qed
  ultimately show ?thesis
    using assms(2) nz by (simp add: fs_ext2_read_file_contents_def min.commute)
qed

text \<open>
  C15. Reading a file whose blocks are all there gives the bytes of its blocks in order, as many as were
  asked for as long as there are blocks. The size of the file only says how many blocks there are: the
  bytes behind its end in the last block are handed out too.
\<close>

theorem ext2_read_file:
  assumes "mounted x" "is_inode_file ino" "file_blks_ok x ino 0 (unat (nb_blocks x ino))"
  shows "fs_ext2_read_file_contents x ino n =
    Inr (of_nat (min (unat n) (unat (nb_blocks x ino) * bsz x)),
         take (unat n) (file_bytes x ino 0 (unat (nb_blocks x ino))))"
  using assms by (rule read_file_result)

section \<open>Writing\<close>

lemma get_or_alloc_present:
  "get_block_ptr x ino i \<noteq> 0 \<Longrightarrow> get_or_alloc_block_ptr ino i x = Inr (get_block_ptr x ino i, ino, x)"
  by (auto simp: get_block_ptr_def get_or_alloc_block_ptr_def Let_def split: if_splits)

text \<open>The pointers of a file stay when its indirect block, if it needs one, keeps its bytes.\<close>

definition ptrs_stable :: "ext2 \<Rightarrow> inode \<Rightarrow> nat \<Rightarrow> u32 set \<Rightarrow> bool" where
  "ptrs_stable x ino m written \<longleftrightarrow>
     m \<le> 12 \<or> (blk_ok x (inode_singly_indirect_blk_ptr ino) \<and> inode_singly_indirect_blk_ptr ino \<notin> written)"

lemma get_block_ptr_same:
  assumes "x_block_size x' = x_block_size x" "k < 2 ^ 32"
    and "12 \<le> k \<longrightarrow> blk_bytes x' (inode_singly_indirect_blk_ptr ino) = blk_bytes x (inode_singly_indirect_blk_ptr ino)"
  shows "file_blk x' ino k = file_blk x ino k"
proof -
  have "unat (of_nat k :: u32) = k" using assms(2) by (intro unat_of_nat_small) simp
  then have "(of_nat k :: u32) < 12 \<longleftrightarrow> k < 12" by (simp add: word_less_nat_alt)
  then show ?thesis using assms(1,3) by (simp add: get_block_ptr_def Let_def blk_bytes_def not_less)
qed

text \<open>What the loop stores in the block \<open>k\<close> of the file.\<close>

definition chunk :: "nat \<Rightarrow> u8 list \<Rightarrow> nat \<Rightarrow> u8 list" where
  "chunk b data k = take b (drop (k * b) data)"

definition new_bytes :: "ext2 \<Rightarrow> inode \<Rightarrow> u8 list \<Rightarrow> nat \<Rightarrow> u8 list" where
  "new_bytes x ino data k = overwrite (blk_bytes x (file_blk x ino k)) 0 (chunk (bsz x) data k)"

definition write_list :: "ext2 \<Rightarrow> inode \<Rightarrow> u8 list \<Rightarrow> nat \<Rightarrow> nat \<Rightarrow> (u32 \<times> u8 list) list" where
  "write_list x ino data i m = map (\<lambda>k. (file_blk x ino k, new_bytes x ino data k)) [i..<m]"

lemma length_new_bytes:
  "length (blk_bytes x (file_blk x ino k)) = bsz x \<Longrightarrow> length (new_bytes x ino data k) = bsz x"
  by (simp add: new_bytes_def chunk_def)

lemma put_blk_block_size: "x_block_size (put_blk x b buf) = x_block_size x"
  by (simp add: put_blk_def write_blk_def write_run_def split: prod.splits)

lemma write_file_loop_result:
  assumes "mounted x" "file_blks_ok x ino i m" "inj_on (file_blk x ino) {i..<m}"
    "ptrs_stable x ino m (file_blk x ino ` {i..<m})"
    "i \<le> m" "m = (length data + bsz x - 1) div bsz x" "length data < 2 ^ 32" "m - i < fuel"
    "unat written = min (length data) (i * bsz x)"
  shows "write_file_loop fuel data ino (of_nat i) written x =
    Inr (of_nat (length data), ino, store_all put_blk x (write_list x ino data i m))"
  using assms
proof (induction "m - i" arbitrary: i fuel written x)
  case 0
  then have im: "i = m" by simp
  obtain f where f: "fuel = Suc f" using "0.prems"(8) by (cases fuel) auto
  have b0: "0 < bsz x" using block_size_facts(5) [OF mountedD(4) [OF "0.prems"(1)]] by simp
  have "length data \<le> m * bsz x"
    using "0.prems"(6) b0 dividend_less_div_times [of "bsz x" "length data + bsz x - 1"] by simp
  then have "unat written = length data" using "0.prems"(9) im by simp
  then have "written = of_nat (length data)" using "0.prems"(7) by (metis of_nat_unat ucast_id)
  then show ?case using im by (simp add: f write_list_def)
next
  case (Suc d)
  note pr = Suc.prems
  note len = pr(7)
  obtain f where f: "fuel = Suc f" using pr(8) by (cases fuel) auto
  have im: "i < m" using Suc.hyps(2) by simp
  have b0: "0 < bsz x" using block_size_facts(5) [OF mountedD(4) [OF pr(1)]] by simp
  let ?b = "file_blk x ino i" and ?v = "new_bytes x ino data i"
  let ?x = "put_blk x ?b ?v"
  have ok: "?b \<noteq> 0" "blk_ok x ?b" using pr(2) im by (simp_all add: file_blks_ok_def)
  note rd = read_blk_ok [OF pr(1) ok(2)]
  have lv: "length ?v = bsz x" using rd(2) by (rule length_new_bytes)
  note law = blocks.store_inv [OF pr(1) ok(2) lv] blocks.store_addr [OF pr(1) ok(2) lv] blocks.load_store [OF pr(1) ok(2) lv]
  have ib: "i * bsz x < length data"
  proof (rule ccontr)
    assume "\<not> i * bsz x < length data"
    then have "length data + bsz x - 1 < (i + 1) * bsz x" using b0 by simp
    then have "m < i + 1" unfolding pr(6) using b0 by (simp add: div_less_iff_less_mult)
    then show False using im by simp
  qed
  then have w: "unat written = i * bsz x" using pr(9) by simp
  have L: "unat (of_nat (length data) :: u32) = length data" using len by (intro unat_of_nat_small) simp
  have lt: "written < of_nat (length data)" using ib w L by (simp add: word_less_nat_alt)
  let ?cnt = "KMIN (of_nat (length data) - written) (x_block_size x)"
  have c: "unat ?cnt = min (length data - i * bsz x) (bsz x)"
    using unat_sub_le [OF less_imp_le [OF lt]] by (simp only: unat_KMIN L w)
  have "take (unat ?cnt) (drop (unat written) data) = chunk (bsz x) data i"
    unfolding c w chunk_def by (auto simp: min_def)
  then have wr: "write_blk x ?b (overwrite (blk_bytes x ?b) 0 (take (unat ?cnt) (drop (unat written) data))) = (True, ?x)"
    using write_blk_ok(1) [OF pr(1) ok(2) lv] by (simp add: new_bytes_def)
  have "unat written + unat ?cnt < 4294967296" using c w ib len by simp
  then have w': "unat (written + ?cnt) = min (length data) ((i + 1) * bsz x)"
    using c w ib by (simp add: unat_add_small)
  have others: "blk_bytes ?x b = blk_bytes x b" if "blk_ok x b" "b \<noteq> ?b" for b
    using law(3) [OF that(1)] that(2) by simp
  have m32: "m < 2 ^ 32"
  proof -
    have "length data + bsz x - 1 < length data + bsz x" using b0 by linarith
    also have "\<dots> \<le> (length data + 1) * bsz x" using b0 by (cases "bsz x") simp_all
    finally have "m < length data + 1" unfolding pr(6) by (simp only: div_less_iff_less_mult [OF b0])
    then show ?thesis using len by linarith
  qed
  have ptr: "file_blk ?x ino k = file_blk x ino k" if "k < m" for k
  proof (rule get_block_ptr_same [OF put_blk_block_size])
    show "k < 2 ^ 32" using that m32 by linarith
    show "12 \<le> k \<longrightarrow> blk_bytes ?x (inode_singly_indirect_blk_ptr ino) = blk_bytes x (inode_singly_indirect_blk_ptr ino)"
      using pr(4) that im by (auto simp: ptrs_stable_def intro!: others)
  qed
  have nw: "new_bytes ?x ino data k = new_bytes x ino data k" if "i + 1 \<le> k" "k < m" for k
  proof -
    have "file_blk x ino k \<noteq> ?b" using inj_onD [OF pr(3), of k i] that im by auto
    moreover have "blk_ok x (file_blk x ino k)" using pr(2) that by (simp add: file_blks_ok_def)
    ultimately have "blk_bytes ?x (file_blk x ino k) = blk_bytes x (file_blk x ino k)" by (intro others)
    then show ?thesis
      unfolding new_bytes_def [of ?x ino data k] new_bytes_def [of x ino data k] put_blk_block_size ptr [OF that(2)]
      by (rule arg_cong)
  qed
  have list: "write_list ?x ino data (i + 1) m = write_list x ino data (i + 1) m"
    unfolding write_list_def using ptr nw by (intro map_cong) auto
  have "write_file_loop f data ino (of_nat (i + 1)) (written + ?cnt) ?x =
      Inr (of_nat (length data), ino, store_all put_blk ?x (write_list ?x ino data (i + 1) m))"
  proof (rule Suc.hyps(1))
    show "d = m - (i + 1)" "i + 1 \<le> m" using Suc.hyps(2) im by simp_all
    show "mounted ?x" by (rule law(1))
    show "file_blks_ok ?x ino (i + 1) m" using pr(2) by (auto simp: file_blks_ok_def ptr law(2))
    show "inj_on (file_blk ?x ino) {i + 1..<m}" using pr(3) by (auto simp: inj_on_def ptr)
    show "ptrs_stable ?x ino m (file_blk ?x ino ` {i + 1..<m})"
      using pr(4) by (auto simp: ptrs_stable_def law(2) ptr)
    show "m = (length data + bsz ?x - 1) div bsz ?x" "length data < 2 ^ 32"
      using pr(6) len by (simp_all only: put_blk_block_size)
    show "m - (i + 1) < f" using pr(8) f im by simp
    show "unat (written + ?cnt) = min (length data) ((i + 1) * bsz ?x)" using w' by (simp only: put_blk_block_size)
  qed
  moreover have "write_list x ino data i m = (?b, ?v) # write_list x ino data (i + 1) m"
    using im by (simp add: write_list_def upt_conv_Cons)
  ultimately show ?case
    using lt ok(1) rd(1) wr get_or_alloc_present [OF ok(1)] list by (simp add: f add.commute)
qed

lemma map_of_write_list:
  assumes "inj_on (file_blk x ino) {0..<m}" "k < m"
  shows "map_of (write_list x ino data 0 m) (file_blk x ino k) = Some (new_bytes x ino data k)"
proof (rule map_of_is_SomeI)
  show "distinct (map fst (write_list x ino data 0 m))"
    using assms(1) by (simp add: write_list_def comp_def distinct_map)
  show "(file_blk x ino k, new_bytes x ino data k) \<in> set (write_list x ino data 0 m)"
    using assms(2) by (auto simp: write_list_def)
qed

text \<open>The chunks in their blocks, read in order and cut to the length, are the data.\<close>

lemma chunks_read_back:
  assumes "\<And>k. k < m \<Longrightarrow> length (old k) = b" "0 < b"
  shows "take (length data) (concat (map (\<lambda>k. overwrite (old k) 0 (chunk b data k)) [0..<m])) = take (m * b) data"
  using assms(1)
proof (induction m)
  case 0
  then show ?case by simp
next
  case (Suc m)
  let ?v = "\<lambda>k. overwrite (old k) 0 (chunk b data k)"
  let ?c = "concat (map ?v [0..<m])"
  have ih: "take (length data) ?c = take (m * b) data" using Suc by simp
  have lenv: "length (?v k) = b" if "k < Suc m" for k using Suc.prems [OF that] by (simp add: chunk_def)
  then have "map (length \<circ> ?v) [0..<m] = map (\<lambda>_. b) [0..<m]" by simp
  then have "map length (map ?v [0..<m]) = map (\<lambda>_. b) [0..<m]" by (simp only: map_map)
  then have lenc: "length ?c = m * b" unfolding length_concat by (simp only: sum_list_triv length_upt) simp
  have "take (length data) (?c @ ?v m) = take (m * b) data @ take (length data - m * b) (?v m)"
    unfolding take_append lenc ih ..
  also have "take (length data - m * b) (?v m) = take b (drop (m * b) data)"
    using Suc.prems [of m] by (auto simp: overwrite_def chunk_def min_def)
  also have "take (m * b) data @ take b (drop (m * b) data) = take (Suc m * b) data"
    by (simp add: take_add [symmetric] add.commute)
  finally show ?case by simp
qed

lemma block_count_le:
  assumes "0 < (n :: nat)"
  shows "(l + n - 1) div n \<le> l"
proof -
  have "l + n - 1 < l + n" using assms by linarith
  also have "\<dots> \<le> (l + 1) * n" using assms by (cases n) simp_all
  finally have "(l + n - 1) div n < l + 1" by (simp only: div_less_iff_less_mult [OF assms])
  then show ?thesis by simp
qed

text \<open>The loop stores the chunks of the data into the blocks of the file and changes no other block and no header.\<close>

lemma file_written:
  assumes "mounted x" "m = (length data + bsz x - 1) div bsz x" "length data + bsz x \<le> 2 ^ 32" "blk_ok x b0"
    and "file_blks_ok x ino 0 m" "inj_on (file_blk x ino) {0..<m}" "ptrs_stable x ino m (file_blk x ino ` {0..<m})"
  shows "\<exists>x1. write_file_loop (length data + 13) data ino 0 0 x = Inr (of_nat (length data), ino, x1) \<and> mounted x1 \<and>
    blk_ok x1 = blk_ok x \<and> inode_tables x1 = inode_tables x \<and> inode_blk x1 = inode_blk x \<and> has_inode x1 = has_inode x \<and>
    x_block_size x1 = x_block_size x \<and>
    (\<forall>b. blk_ok x b \<longrightarrow> b \<notin> file_blk x ino ` {0..<m} \<longrightarrow> blk_bytes x1 b = blk_bytes x b) \<and>
    (\<forall>k<m. blk_bytes x1 (file_blk x ino k) = new_bytes x ino data k)"
proof -
  have b0: "0 < bsz x" using block_size_facts(5) [OF mountedD(4) [OF assms(1)]] by simp
  have mlen: "m \<le> length data" unfolding assms(2) by (rule block_count_le [OF b0])
  define x1 where "x1 = store_all put_blk x (write_list x ino data 0 m)"
  have loop: "write_file_loop (length data + 13) data ino 0 0 x = Inr (of_nat (length data), ino, x1)"
    using write_file_loop_result [OF assms(1), of ino 0 m data "length data + 13" 0] assms(2,3,5-7) b0 mlen
    by (simp add: x1_def file_blks_ok_def ptrs_stable_def)
  have okb: "blk_ok x (file_blk x ino k)" if "k < m" for k using assms(5) that by (simp add: file_blks_ok_def)
  have wl: "\<forall>(k, v)\<in>set (write_list x ino data 0 m). blk_ok x k \<and> length v = bsz x"
    using read_blk_ok(2) [OF assms(1) okb] by (auto simp: write_list_def okb intro!: length_new_bytes)
  have dist: "distinct (map fst (write_list x ino data 0 m))"
    using assms(6) by (simp add: write_list_def comp_def distinct_map)
  note res = blocks.store_all_result [OF assms(1) wl dist, folded x1_def]
  have keep: "blk_bytes x1 b = blk_bytes x b" if "blk_ok x b" "b \<notin> file_blk x ino ` {0..<m}" for b
  proof -
    have "map_of (write_list x ino data 0 m) b = None"
      using that(2) by (auto simp: map_of_eq_None_iff write_list_def image_image)
    then show ?thesis using res [OF that(1)] by simp
  qed
  have stored: "blk_bytes x1 (file_blk x ino k) = new_bytes x ino data k" if "k < m" for k
    using res [OF okb [OF that]] map_of_write_list [of x ino m k data] assms(6) that by simp
  have m1: "mounted x1" "blk_ok x1 = blk_ok x" using res [OF assms(4)] by (simp_all add: fun_eq_iff)
  have st: "x_bgdt (store_all put_blk y l) = x_bgdt y \<and> x_sb (store_all put_blk y l) = x_sb y \<and>
      x_sbx (store_all put_blk y l) = x_sbx y \<and> x_block_size (store_all put_blk y l) = x_block_size y" for y l
    by (induction l arbitrary: y)
      (auto simp: put_blk_def write_blk_def write_run_def split: prod.splits)
  have "inode_tables x1 = inode_tables x \<and> inode_blk x1 = inode_blk x \<and> has_inode x1 = has_inode x \<and> x_block_size x1 = x_block_size x"
    unfolding x1_def using st [of x "write_list x ino data 0 m"] m1(2)
    by (auto simp: inode_tables_def table_start_def table_blocks_def inode_blk_def inode_pos_def inode_group_def
        has_inode_def x1_def [symmetric] fun_eq_iff)
  then show ?thesis using loop m1 keep stored by blast
qed

text \<open>A state whose blocks of the file hold these chunks reads as the data.\<close>

lemma file_read_back:
  assumes "mounted x2" "bsz x2 = bsz x" "is_inode_file ino" "inode_size_low_bits ino = of_nat (length data)"
    and "m = (length data + bsz x - 1) div bsz x" "length data + bsz x \<le> 2 ^ 32" "file_blks_ok x2 ino 0 m"
    and "\<forall>k<m. length (old k) = bsz x" "\<forall>k<m. blk_bytes x2 (file_blk x2 ino k) = overwrite (old k) 0 (chunk (bsz x) data k)"
  shows "fs_ext2_read_file_contents x2 ino (of_nat (length data)) = Inr (of_nat (length data), data)"
proof -
  have b0: "0 < bsz x" using block_size_facts(5) [OF mountedD(4) [OF assms(1)]] assms(2) by simp
  have len: "length data < 2 ^ 32" using assms(6) b0 by linarith
  have "unat (nb_blocks x2 ino) = m"
    using nb_blocks_result [OF mountedD(4) [OF assms(1)], of ino] len assms(2,4-6) by (simp add: unat_of_nat_small)
  moreover have "file_bytes x2 ino 0 m = concat (map (\<lambda>k. overwrite (old k) 0 (chunk (bsz x) data k)) [0..<m])"
    unfolding file_bytes_def using assms(9) by (intro arg_cong [where f = concat] map_cong refl) simp
  moreover have "length data \<le> m * bsz x"
    using assms(5) b0 dividend_less_div_times [of "bsz x" "length data + bsz x - 1"] by simp
  ultimately show ?thesis
    using read_file_result [OF assms(1,3), of "of_nat (length data)"] len assms(2,7,8) chunks_read_back [of m old "bsz x" data] b0
    by (simp add: unat_of_nat_small)
qed

text \<open>
  C16. What \<open>fs_ext2_write_file\<close> writes into a file whose blocks are there is read back: after it the file
  has the size and the bytes of the data, the inode on the disk says so, and every block that is neither
  one of the file nor the one of its inode keeps its bytes.
\<close>

theorem ext2_write_read_file:
  assumes "mounted x" "inode_tables x" "has_inode x (inode_id ino)" "inode_shape ino" "is_inode_file ino"
    and "m = (length data + bsz x - 1) div bsz x" "length data + bsz x \<le> 2 ^ 32"
    and "file_blks_ok x ino 0 m" "inj_on (file_blk x ino) {0..<m}"
    and "ptrs_stable x ino m (file_blk x ino ` {0..<m})" "inode_singly_indirect_blk_ptr ino \<noteq> inode_blk x (inode_id ino)"
    and "inode_blk x (inode_id ino) \<notin> file_blk x ino ` {0..<m}"
  shows "\<exists>ino' x'. fs_ext2_write_file ino data x = Inr (of_nat (length data), ino', x') \<and>
    fs_ext2_read_inode x' (inode_id ino) = Inr ino' \<and>
    inode_size_low_bits ino' = of_nat (length data) \<and>
    fs_ext2_read_file_contents x' ino' (of_nat (length data)) = Inr (of_nat (length data), data) \<and>
    (\<forall>b. blk_ok x b \<and> b \<notin> file_blk x ino ` {0..<m} \<and> b \<noteq> inode_blk x (inode_id ino) \<longrightarrow>
      blk_bytes x' b = blk_bytes x b)"
proof -
  define ino' where "ino' = ino\<lparr>inode_size_low_bits := of_nat (length data)\<rparr>"
  have ptr': "get_block_ptr y ino' = get_block_ptr y ino" for y
    by (simp add: ino'_def get_block_ptr_def Let_def fun_eq_iff)
  have id': "inode_id ino' = inode_id ino" "inode_singly_indirect_blk_ptr ino' = inode_singly_indirect_blk_ptr ino"
    "inode_size_low_bits ino' = of_nat (length data)" "is_inode_file ino'" "inode_shape ino'"
    using assms(4,5) by (simp_all add: ino'_def is_inode_file_def inode_shape_def)
  have mlen: "m \<le> length data" "length data < 2 ^ 32"
    using block_size_facts(5) [OF mountedD(4) [OF assms(1)]] block_count_le [of "bsz x" "length data"] assms(6,7) by simp_all
  have bok: "blk_ok x (inode_blk x (inode_id ino))" using assms(3) by (simp add: has_inode_def)
  have "file_blks_ok x ino' 0 m" "inj_on (file_blk x ino') {0..<m}" "ptrs_stable x ino' m (file_blk x ino' ` {0..<m})"
    using assms(8-10) by (simp_all add: ptr' id' file_blks_ok_def ptrs_stable_def)
  from file_written [OF assms(1,6,7) bok this] obtain x1 where
    loop: "write_file_loop (length data + 13) data ino' 0 0 x = Inr (of_nat (length data), ino', x1)"
    and m1: "mounted x1" "blk_ok x1 = blk_ok x" "inode_tables x1 = inode_tables x" "inode_blk x1 = inode_blk x"
      "has_inode x1 = has_inode x" "x_block_size x1 = x_block_size x"
    and keep: "\<And>b. blk_ok x b \<Longrightarrow> b \<notin> file_blk x ino ` {0..<m} \<Longrightarrow> blk_bytes x1 b = blk_bytes x b"
    and stored: "\<And>k. k < m \<Longrightarrow> blk_bytes x1 (file_blk x ino k) = new_bytes x ino' data k" unfolding ptr' by blast
  have "inode_tables x1" "has_inode x1 (inode_id ino')" using assms(2,3) by (simp_all add: m1 id')
  from write_inode_stored [OF m1(1) this id'(5)] obtain buf where
    buf: "length buf = bsz x1" "fs_ext2_write_inode ino' x1 = Inr (True, put_blk x1 (inode_blk x (inode_id ino)) buf)"
      "fs_ext2_read_inode (put_blk x1 (inode_blk x (inode_id ino)) buf) (inode_id ino) = Inr ino'"
    by (auto simp: id' m1)
  define x2 where "x2 = put_blk x1 (inode_blk x (inode_id ino)) buf"
  have ib: "blk_ok x1 (inode_blk x (inode_id ino))" using bok m1(2) by simp
  note law = blocks.store_inv [OF m1(1) ib buf(1), folded x2_def] blocks.store_addr [OF m1(1) ib buf(1), folded x2_def]
    blocks.load_store [OF m1(1) ib buf(1), folded x2_def]
  have bs2: "x_block_size x2 = x_block_size x" by (simp add: x2_def put_blk_block_size m1(6))
  have other: "blk_bytes x2 b = blk_bytes x b"
    if "blk_ok x b" "b \<notin> file_blk x ino ` {0..<m}" "b \<noteq> inode_blk x (inode_id ino)" for b
    using law(3) [of b] that keep m1(2) by simp
  have ptr2: "file_blk x2 ino' k = file_blk x ino k" if "k < m" for k
    unfolding ptr'
  proof (rule get_block_ptr_same [OF bs2])
    show "k < 2 ^ 32" using that mlen by linarith
    show "12 \<le> k \<longrightarrow> blk_bytes x2 (inode_singly_indirect_blk_ptr ino) = blk_bytes x (inode_singly_indirect_blk_ptr ino)"
      using assms(10,11) that by (auto simp: ptrs_stable_def intro!: other)
  qed
  have okb: "blk_ok x (file_blk x ino k)" if "k < m" for k using assms(8) that by (simp add: file_blks_ok_def)
  have each: "blk_bytes x2 (file_blk x2 ino' k) = overwrite (blk_bytes x (file_blk x ino k)) 0 (chunk (bsz x) data k)" if "k < m" for k
  proof -
    have "file_blk x ino k \<noteq> inode_blk x (inode_id ino)"
      using assms(12) that by (metis atLeastLessThan_iff image_eqI zero_le)
    then show ?thesis using law(3) [of "file_blk x ino k"] stored [OF that] okb [OF that] m1(2) ptr2 [OF that] by (simp add: new_bytes_def ptr')
  qed
  have "file_blks_ok x2 ino' 0 m" using assms(8) by (simp add: file_blks_ok_def ptr2 law(2) m1(2))
  then have "fs_ext2_read_file_contents x2 ino' (of_nat (length data)) = Inr (of_nat (length data), data)"
    using file_read_back [OF law(1) _ id'(4,3) assms(6,7), where old = "\<lambda>k. blk_bytes x (file_blk x ino k)"]
      each read_blk_ok(2) [OF assms(1) okb] bs2 by simp
  moreover have "fs_ext2_write_file ino data x = Inr (of_nat (length data), ino', x2)"
    using assms(5) loop buf(2) by (simp add: fs_ext2_write_file_def ino'_def [symmetric] x2_def)
  ultimately show ?thesis using buf(3) other id'(3) by (intro exI [of _ ino'] exI [of _ x2]) (simp add: x2_def [symmetric])
qed

section \<open>Witnesses\<close>

lemma demo_file_blocks:
  "nb_blocks demo_fs demo_inode = 2" "file_blks_ok demo_fs demo_inode 0 2"
  "inj_on (file_blk demo_fs demo_inode) {0..<2}" "file_blk demo_fs demo_inode ` {0..<2} = {20, 21}"
proof -
  have p: "file_blk demo_fs demo_inode 0 = 20" "file_blk demo_fs demo_inode 1 = 21"
    by (simp_all add: get_block_ptr_def demo_inode_def)
  have two: "{0..<2} = {0, 1 :: nat}" by auto
  show "nb_blocks demo_fs demo_inode = 2" by (simp add: nb_blocks_def CEIL_DIV_def demo_inode_def demo_fs_def)
  show "file_blks_ok demo_fs demo_inode 0 2"
    using p demo_fs_blocks by (auto simp: file_blks_ok_def less_2_cases_iff)
  show "inj_on (file_blk demo_fs demo_inode) {0..<2}" "file_blk demo_fs demo_inode ` {0..<2} = {20, 21}"
    unfolding two using p by (auto simp: inj_on_def)
qed

lemma demo_inode_file: "is_inode_file demo_inode"
  by (simp add: is_inode_file_def demo_inode_def FS_EXT2_INODE_FTYPE_FILE_def)

theorem ext2_read_file_witness:
  "\<exists>bytes. fs_ext2_read_file_contents demo_fs demo_inode 2048 = Inr (2048, bytes)"
  using ext2_read_file [OF demo_fs_mounted demo_inode_file, of 2048] demo_file_blocks
  by (simp add: demo_fs_def)

theorem ext2_write_read_file_witness:
  "\<exists>ino' x'. fs_ext2_write_file demo_inode (replicate 1500 7) demo_fs = Inr (1500, ino', x') \<and>
     fs_ext2_read_file_contents x' ino' 1500 = Inr (1500, replicate 1500 7)"
proof -
  have b: "inode_blk demo_fs 12 = 6"
    by (simp add: inode_group_def inode_blk_def inode_pos_def table_start_def demo_fs_def demo_sb_def demo_desc_def)
  have s: "inode_singly_indirect_blk_ptr demo_inode = 0" by (simp add: demo_inode_def zero_inode_def)
  from ext2_write_read_file [OF demo_fs_mounted demo_fs_tables, of demo_inode 2 "replicate 1500 7"]
  show ?thesis
    using demo_fs_inode demo_inode_shape demo_inode_file demo_file_blocks b s
    by (auto simp: ptrs_stable_def demo_fs_def)
qed

end
