(* ===== verification/Ext2Vfs.thy ===== *)
theory Ext2Vfs
  imports Ext2Paths Ext2Contents Fd
begin

text \<open>
  The file system behind the switch, \<open>kernel/fs/src/ext2_vfs.c\<close>: the five functions of the driver record,
  over the mounted file system and the copies of inodes that open nodes point to.
\<close>

section \<open>State\<close>

text \<open>
  \<open>em_inodes\<close> finds the inode copy a node's \<open>fs_specific\<close> points to; \<open>em_next\<close> is the address \<open>kmalloc\<close>
  gives the next one.
\<close>

record ext2_mount =
  em_fs :: ext2
  em_inodes :: "u32 \<rightharpoonup> inode"
  em_next :: u32

definition VFS_NAME_SIZE :: nat where "VFS_NAME_SIZE = 256"

section \<open>The driver\<close>

text \<open>\<open>kstrcpy\<close> copies the path with its NUL into the 256 bytes of the node's name.\<close>

definition ext2_open :: "u8 list \<Rightarrow> ext2_mount \<Rightarrow> (vfs_node option \<times> ext2_mount) res" where
  "ext2_open path m =
     and_then (fs_ext2_resolve_path (em_fs m) path) (\<lambda>ino.
       (if inode_type_and_permissions ino = 0 then Inr (None, m)
        else if length path \<ge> VFS_NAME_SIZE then Inl (KFault ''write behind vfs_node.name'')
        else Inr (Some \<lparr>vn_name = path, vn_size = inode_size_low_bits ino, vn_is_dir = is_inode_dir ino,
                     vn_fs_specific = em_next m, vnode_id = inode_id ino\<rparr>,
                  m\<lparr>em_inodes := (em_inodes m)(em_next m \<mapsto> ino), em_next := em_next m + 1\<rparr>)))"

definition node_inode :: "vfs_node \<Rightarrow> ext2_mount \<Rightarrow> inode res" where
  "node_inode node m =
     (case em_inodes m (vn_fs_specific node) of None \<Rightarrow> Inl (KFault ''fs_specific'') | Some ino \<Rightarrow> Inr ino)"

definition ext2_list :: "vfs_node \<Rightarrow> ext2_mount \<Rightarrow> (dir_ent list option \<times> ext2_mount) res" where
  "ext2_list node m =
     and_then (node_inode node m) (\<lambda>ino.
     and_then (fs_ext2_list_dir (em_fs m) ino) (\<lambda>es. Inr (es, m)))"

definition ext2_read :: "vfs_node \<Rightarrow> u32 \<Rightarrow> ext2_mount \<Rightarrow> (u32 \<times> u8 list \<times> ext2_mount) res" where
  "ext2_read node size_wanted m =
     and_then (node_inode node m) (\<lambda>ino.
     and_then (fs_ext2_read_file_contents (em_fs m) ino size_wanted) (\<lambda>(n, bytes). Inr (n, bytes, m)))"

text \<open>The write updates the inode copy in place.\<close>

definition ext2_write :: "vfs_node \<Rightarrow> u8 list \<Rightarrow> ext2_mount \<Rightarrow> (u32 \<times> ext2_mount) res" where
  "ext2_write node data m =
     and_then (node_inode node m) (\<lambda>ino.
     and_then (fs_ext2_write_file ino data (em_fs m)) (\<lambda>(n, ino1, x1).
       Inr (n, m\<lparr>em_fs := x1, em_inodes := (em_inodes m)(vn_fs_specific node \<mapsto> ino1)\<rparr>)))"

definition ext2_close :: "vfs_node \<Rightarrow> ext2_mount \<Rightarrow> ext2_mount res" where
  "ext2_close node m = Inr (m\<lparr>em_inodes := (em_inodes m)(vn_fs_specific node := None)\<rparr>)"

definition vfs_get_ext2_driver :: "(ext2_mount, dir_ent) vfs_driver" where
  "vfs_get_ext2_driver = \<lparr>drv_open = ext2_open, drv_list = ext2_list, drv_read = ext2_read,
     drv_write = ext2_write, drv_close = ext2_close\<rparr>"

text \<open>\<open>fs_init\<close> of \<open>kernel/fs/mod.h\<close>: mounting and registering the driver.\<close>

definition fs_init :: "ext2_mount \<Rightarrow> (ext2_mount \<times> (ext2_mount, dir_ent) vfs_driver option) res" where
  "fs_init m =
     and_then (fs_ext2_read_superblock (em_fs m)) (\<lambda>x1.
     and_then (fs_ext2_read_bgdt x1) (\<lambda>x2.
       Inr (m\<lparr>em_fs := x2\<rparr>, vfs_register_driver vfs_get_ext2_driver)))"

end
