(* ===== verification/Keyboard.thy ===== *)
theory Keyboard
  imports StartStack
begin

text \<open>
  The keyboard, \<open>kernel/dev/src/kb.c\<close> with the scan codes of \<open>kernel/dev/src/kb_scancode_set2.h\<close>, and
  the line buffer of the console, \<open>kernel/tty/src/stdin.c\<close>: from the scan codes of the interrupts to the
  bytes a blocked reader finds in its buffer.
\<close>

section \<open>Scan codes\<close>

text \<open>The constants \<open>KB_SC_PRESSED_*\<close> and \<open>KB_SC_RELEASED_*\<close>, by the name of the key.\<close>

definition kb_pressed :: "(string \<times> u8) list" where
  "kb_pressed = [
     (''NOTHING'', 0x00), (''ESCAPE'', 0x01), (''ONE'', 0x02), (''TWO'', 0x03), (''THREE'', 0x04),
     (''FOUR'', 0x05), (''FIVE'', 0x06), (''SIX'', 0x07), (''SEVEN'', 0x08), (''EIGHT'', 0x09),
     (''NINE'', 0x0A), (''ZERO'', 0x0B), (''DASH'', 0x0C), (''EQUAL'', 0x0D),
     (''BACKSPACE'', 0x0E), (''TAB'', 0x0F), (''Q'', 0x10), (''W'', 0x11), (''E'', 0x12),
     (''R'', 0x13), (''T'', 0x14), (''Y'', 0x15), (''U'', 0x16), (''I'', 0x17), (''O'', 0x18),
     (''P'', 0x19), (''LEFT_SQ_BRACKETS'', 0x1A), (''RIGHT_SQ_BRACKETS'', 0x1B), (''ENTER'', 0x1C),
     (''LEFT_CTRL'', 0x1D), (''A'', 0x1E), (''S'', 0x1F), (''D'', 0x20), (''F'', 0x21),
     (''G'', 0x22), (''H'', 0x23), (''J'', 0x24), (''K'', 0x25), (''L'', 0x26),
     (''SEMICOLON'', 0x27), (''SINGLE_QUOTE'', 0x28), (''BACK_TICK'', 0x29),
     (''LEFT_SHIFT'', 0x2A), (''BACKSLASH'', 0x2B), (''Z'', 0x2C), (''X'', 0x2D), (''C'', 0x2E),
     (''V'', 0x2F), (''B'', 0x30), (''N'', 0x31), (''M'', 0x32), (''COMMA'', 0x33),
     (''DOT'', 0x34), (''SLASH'', 0x35), (''RIGHT_SHIFT'', 0x36), (''KEYPAD_MULT'', 0x37),
     (''LEFT_ALT'', 0x38), (''SPACE'', 0x39), (''CAPS_LOCK'', 0x3A), (''F1'', 0x3B),
     (''F2'', 0x3C), (''F3'', 0x3D), (''F4'', 0x3E), (''F5'', 0x3F), (''F6'', 0x40),
     (''F7'', 0x41), (''F8'', 0x42), (''F9'', 0x43), (''F10'', 0x44), (''F11'', 0x57),
     (''F12'', 0x58), (''NUMLOCK'', 0x45), (''SCROLL_LOCK'', 0x46), (''KEYPAD_SEVEN'', 0x47),
     (''KEYPAD_EIGHT'', 0x48), (''KEYPAD_NINE'', 0x49), (''KEYPAD_MINUS'', 0x4A),
     (''KEYPAD_FOUR'', 0x4B), (''KEYPAD_FIVE'', 0x4C), (''KEYPAD_SIX'', 0x4D),
     (''KEYPAD_PLUS'', 0x4E), (''KEYPAD_ONE'', 0x4F), (''KEYPAD_TWO'', 0x50),
     (''KEYPAD_THREE'', 0x51), (''KEYPAD_ZERO'', 0x52), (''KEYPAD_DOT'', 0x53)]"

definition kb_released :: "(string \<times> u8) list" where
  "kb_released = [
     (''NOTHING'', 0x80), (''ESCAPE'', 0x81), (''ONE'', 0x82), (''TWO'', 0x83), (''THREE'', 0x84),
     (''FOUR'', 0x85), (''FIVE'', 0x86), (''SIX'', 0x87), (''SEVEN'', 0x88), (''EIGHT'', 0x89),
     (''NINE'', 0x8A), (''ZERO'', 0x8B), (''DASH'', 0x8C), (''EQUAL'', 0x8D),
     (''BACKSPACE'', 0x8E), (''TAB'', 0x8F), (''Q'', 0x90), (''W'', 0x91), (''E'', 0x92),
     (''R'', 0x93), (''T'', 0x94), (''Y'', 0x95), (''U'', 0x96), (''I'', 0x97), (''O'', 0x98),
     (''P'', 0x99), (''LEFT_SQ_BRACKETS'', 0x9A), (''RIGHT_SQ_BRACKETS'', 0x9B), (''ENTER'', 0x9C),
     (''LEFT_CTRL'', 0x9D), (''A'', 0x9E), (''S'', 0x9F), (''D'', 0xA0), (''F'', 0xA1),
     (''G'', 0xA2), (''H'', 0xA3), (''J'', 0xA4), (''K'', 0xA5), (''L'', 0xA6),
     (''SEMICOLON'', 0xA7), (''SINGLE_QUOTE'', 0xA8), (''BACK_TICK'', 0xA9),
     (''LEFT_SHIFT'', 0xAA), (''BACKSLASH'', 0xAB), (''Z'', 0xAC), (''X'', 0xAD), (''C'', 0xAE),
     (''V'', 0xAF), (''B'', 0xB0), (''N'', 0xB1), (''M'', 0xB2), (''COMMA'', 0xB3),
     (''DOT'', 0xB4), (''SLASH'', 0xB5), (''RIGHT_SHIFT'', 0xB6), (''KEYPAD_MULT'', 0xB7),
     (''LEFT_ALT'', 0xB8), (''SPACE'', 0xB9), (''CAPS_LOCK'', 0xBA), (''F1'', 0xBB),
     (''F2'', 0xBC), (''F3'', 0xBD), (''F4'', 0xBE), (''F5'', 0xBF), (''F6'', 0xC0),
     (''F7'', 0xC1), (''F8'', 0xC2), (''F9'', 0xC3), (''F10'', 0xC4), (''F11'', 0xD7),
     (''F12'', 0xD8), (''NUMLOCK'', 0xC5), (''SCROLL_LOCK'', 0xC6), (''KEYPAD_SEVEN'', 0xC7),
     (''KEYPAD_EIGHT'', 0xC8), (''KEYPAD_NINE'', 0xC9), (''KEYPAD_MINUS'', 0xCA),
     (''KEYPAD_FOUR'', 0xCB), (''KEYPAD_FIVE'', 0xCC), (''KEYPAD_SIX'', 0xCD),
     (''KEYPAD_PLUS'', 0xCE), (''KEYPAD_ONE'', 0xCF), (''KEYPAD_TWO'', 0xD0),
     (''KEYPAD_THREE'', 0xD1), (''KEYPAD_ZERO'', 0xD2), (''KEYPAD_DOT'', 0xD3)]"

text \<open>The designated initialisers of \<open>kb_map\<close>: the key and its character.\<close>

definition kb_entries :: "(string \<times> u8) list" where
  "kb_entries = [
     (''ONE'', 0x31), (''TWO'', 0x32), (''THREE'', 0x33), (''FOUR'', 0x34), (''FIVE'', 0x35),
     (''SIX'', 0x36), (''SEVEN'', 0x37), (''EIGHT'', 0x38), (''NINE'', 0x39), (''ZERO'', 0x30),
     (''DASH'', 0x2D), (''EQUAL'', 0x3D), (''BACKSPACE'', 0x08), (''TAB'', 0x09), (''Q'', 0x71),
     (''W'', 0x77), (''E'', 0x65), (''R'', 0x72), (''T'', 0x74), (''Y'', 0x79), (''U'', 0x75),
     (''I'', 0x69), (''O'', 0x6F), (''P'', 0x70), (''LEFT_SQ_BRACKETS'', 0x5B),
     (''RIGHT_SQ_BRACKETS'', 0x5D), (''ENTER'', 0x0A), (''A'', 0x61), (''S'', 0x73), (''D'', 0x64),
     (''F'', 0x66), (''G'', 0x67), (''H'', 0x68), (''J'', 0x6A), (''K'', 0x6B), (''L'', 0x6C),
     (''SEMICOLON'', 0x3B), (''SINGLE_QUOTE'', 0x27), (''BACK_TICK'', 0x60), (''BACKSLASH'', 0x5C),
     (''Z'', 0x7A), (''X'', 0x78), (''C'', 0x63), (''V'', 0x76), (''B'', 0x62), (''N'', 0x6E),
     (''M'', 0x6D), (''COMMA'', 0x2C), (''DOT'', 0x2E), (''SLASH'', 0x2F), (''KEYPAD_MULT'', 0x2A),
     (''SPACE'', 0x20), (''KEYPAD_PLUS'', 0x2B), (''KEYPAD_MINUS'', 0x2D),
     (''KEYPAD_SEVEN'', 0x37), (''KEYPAD_EIGHT'', 0x38), (''KEYPAD_NINE'', 0x39),
     (''KEYPAD_FOUR'', 0x34), (''KEYPAD_FIVE'', 0x35), (''KEYPAD_SIX'', 0x36),
     (''KEYPAD_ONE'', 0x31), (''KEYPAD_TWO'', 0x32), (''KEYPAD_THREE'', 0x33),
     (''KEYPAD_ZERO'', 0x30), (''KEYPAD_DOT'', 0x2E)]"

definition sc_pressed :: "string \<Rightarrow> u8" where "sc_pressed key = the (map_of kb_pressed key)"

text \<open>The array of 128 characters they initialise; an element without an initialiser is 0.\<close>

definition kb_map :: "u8 \<Rightarrow> u8" where
  "kb_map scancode =
     (case map_of (map (\<lambda>(key, c). (sc_pressed key, c)) kb_entries) scancode of Some c \<Rightarrow> c | None \<Rightarrow> 0)"

definition KB_SC_PRESSED_NOTHING :: u8 where "KB_SC_PRESSED_NOTHING = 0x00"
definition KB_SC_PRESSED_BACKSPACE :: u8 where "KB_SC_PRESSED_BACKSPACE = 0x0E"
definition KB_SC_PRESSED_ENTER :: u8 where "KB_SC_PRESSED_ENTER = 0x1C"

section \<open>The line buffer\<close>

text \<open>
  The buffer lies in the kernel half at \<open>stdin_buf\<close>, 0 before \<open>stdin_init\<close>. The echo on the screen is not
  state here. \<open>stdin_init\<close> takes the address \<open>kmalloc\<close> gave.
\<close>

definition STDIN_BUF_MAX :: u32 where "STDIN_BUF_MAX = 512"

definition stdin_init :: "u32 \<Rightarrow> kstate \<Rightarrow> kstate" where
  "stdin_init buf k = k\<lparr>stdin_buf := buf\<rparr>"

definition stdin_wait :: "u32 \<Rightarrow> u32 \<Rightarrow> u32 \<Rightarrow> kstate \<Rightarrow> kstate" where
  "stdin_wait p buf sz k = k\<lparr>waiting_stdin := p, waiting_buf := buf, waiting_buf_size := sz\<rparr>"

definition stdin_put :: "u8 \<Rightarrow> kstate \<Rightarrow> kstate" where
  "stdin_put c k =
     (if stdin_buf k = 0 then k
      else if stdin_buf_len k + 1 \<ge> STDIN_BUF_MAX then k
      else k\<lparr>kbytes := (kbytes k)(stdin_buf k + stdin_buf_len k := c), stdin_buf_len := stdin_buf_len k + 1\<rparr>)"

definition stdin_pop :: "kstate \<Rightarrow> kstate" where
  "stdin_pop k =
     (if stdin_buf k = 0 then k else if stdin_buf_len k = 0 then k
      else k\<lparr>stdin_buf_len := stdin_buf_len k - 1\<rparr>)"

text \<open>The length is passed as a \<open>uint8_t\<close>.\<close>

definition stdin_flush :: "kstate \<Rightarrow> kstate res" where
  "stdin_flush k =
     (if stdin_buf k = 0 \<or> waiting_stdin k = 0 then Inr k
      else case scheduler_wake_stdin (waiting_stdin k) (waiting_buf k) (waiting_buf_size k) (stdin_buf k)
             (ucast (stdin_buf_len k)) k of
        Inl e \<Rightarrow> Inl e
      | Inr k1 \<Rightarrow> Inr (k1\<lparr>stdin_buf_len := 0, waiting_stdin := 0\<rparr>))"

definition kb_handle_interrupt :: "u8 \<Rightarrow> kstate \<Rightarrow> kstate res" where
  "kb_handle_interrupt scancode k =
     (if scancode \<ge> 0x80 then Inr k
      else if scancode = KB_SC_PRESSED_BACKSPACE then Inr (stdin_pop k)
      else if scancode = KB_SC_PRESSED_ENTER then stdin_flush k
      else if scancode = KB_SC_PRESSED_NOTHING then Inr k
      else let c = kb_map scancode in Inr (if c \<noteq> 0 then stdin_put c k else k))"

fun kb_interrupts :: "u8 list \<Rightarrow> kstate \<Rightarrow> kstate res" where
  "kb_interrupts [] k = Inr k"
| "kb_interrupts (sc # scs) k =
     (case kb_handle_interrupt sc k of Inl e \<Rightarrow> Inl e | Inr k1 \<Rightarrow> kb_interrupts scs k1)"

section \<open>Editing a line\<close>

text \<open>What the keys mean: a character is appended while there is room for it, backspace removes the last one.\<close>

definition line_edit :: "u8 list \<Rightarrow> u8 \<Rightarrow> u8 list" where
  "line_edit line sc =
     (if sc \<ge> 0x80 then line
      else if sc = KB_SC_PRESSED_BACKSPACE then butlast line
      else if sc = KB_SC_PRESSED_NOTHING \<or> kb_map sc = 0 then line
      else if length line < 511 then line @ [kb_map sc] else line)"

definition line_at :: "kstate \<Rightarrow> u8 list \<Rightarrow> bool" where
  "line_at k line \<longleftrightarrow> unat (stdin_buf_len k) = length line \<and> length line \<le> 511 \<and>
     (\<forall>i<length line. kbytes k (stdin_buf k + of_nat i) = line ! i)"

lemma stdin_put_line:
  assumes "line_at k line" "stdin_buf k \<noteq> 0"
  shows "line_at (stdin_put c k) (if length line < 511 then line @ [c] else line)"
proof -
  have len: "unat (stdin_buf_len k) = length line" "length line \<le> 511"
    and at: "\<And>i. i < length line \<Longrightarrow> kbytes k (stdin_buf k + of_nat i) = line ! i"
    using assms(1) unfolding line_at_def by blast+
  have u1: "unat (stdin_buf_len k + 1) = length line + 1"
    using len unat_add_small [of "stdin_buf_len k" 1] by simp
  have cond: "stdin_buf_len k + 1 \<ge> STDIN_BUF_MAX \<longleftrightarrow> \<not> length line < 511"
    using u1 by (auto simp: word_le_nat_alt STDIN_BUF_MAX_def)
  have lenw: "stdin_buf_len k = of_nat (length line)"
    by (rule unat_eq_imp) (use len in \<open>simp add: unat_of_nat_small\<close>)
  have neq: "stdin_buf k + of_nat i \<noteq> stdin_buf k + stdin_buf_len k" if "i < length line" for i
  proof
    assume "stdin_buf k + of_nat i = stdin_buf k + stdin_buf_len k"
    then have "unat (of_nat i :: u32) = unat (stdin_buf_len k)" by simp
    then show False using that len unat_of_nat_small [of i] by simp
  qed
  show ?thesis
  proof (cases "length line < 511")
    case True
    have s: "stdin_put c k = k\<lparr>kbytes := (kbytes k)(stdin_buf k + stdin_buf_len k := c),
        stdin_buf_len := stdin_buf_len k + 1\<rparr>"
      using assms(2) cond True by (simp add: stdin_put_def)
    have "((kbytes k)(stdin_buf k + stdin_buf_len k := c)) (stdin_buf k + of_nat i) = (line @ [c]) ! i"
      if "i < length line + 1" for i
      using that at [of i] neq [of i] lenw by (cases "i = length line") (auto simp: nth_append)
    then show ?thesis using True u1 by (simp add: s line_at_def del: fun_upd_apply)
  next
    case False
    then show ?thesis using assms cond by (simp add: stdin_put_def)
  qed
qed

lemma stdin_pop_line:
  assumes "line_at k line" "stdin_buf k \<noteq> 0"
  shows "line_at (stdin_pop k) (butlast line)"
proof (cases "stdin_buf_len k = 0")
  case True
  then show ?thesis using assms by (simp add: stdin_pop_def line_at_def)
next
  case False
  then have "unat (stdin_buf_len k - 1) = unat (stdin_buf_len k) - 1" using unat_minus_one by simp
  then show ?thesis using False assms by (auto simp: stdin_pop_def line_at_def nth_butlast)
qed

lemma kb_interrupt_edits:
  assumes "line_at k line" "stdin_buf k \<noteq> 0" "sc \<noteq> KB_SC_PRESSED_ENTER"
  shows "\<exists>k1. kb_handle_interrupt sc k = Inr k1 \<and> line_at k1 (line_edit line sc) \<and>
    (\<exists>m n. k1 = k\<lparr>kbytes := m, stdin_buf_len := n\<rparr> \<and>
       (\<forall>a. unat (a - stdin_buf k) \<ge> 511 \<longrightarrow> m a = kbytes k a))"
proof -
  have same: "\<exists>m n. k = k\<lparr>kbytes := m, stdin_buf_len := n\<rparr> \<and> (\<forall>a. unat (a - stdin_buf k) \<ge> 511 \<longrightarrow> m a = kbytes k a)"
    by (intro exI [of _ "kbytes k"] exI [of _ "stdin_buf_len k"]) simp
  have put: "\<exists>m n. stdin_put c k = k\<lparr>kbytes := m, stdin_buf_len := n\<rparr> \<and>
      (\<forall>a. unat (a - stdin_buf k) \<ge> 511 \<longrightarrow> m a = kbytes k a)" for c
  proof (cases "stdin_buf_len k + 1 \<ge> STDIN_BUF_MAX")
    case True
    then show ?thesis using same by (simp add: stdin_put_def assms(2))
  next
    case False
    have "unat (stdin_buf_len k) \<le> 511" using assms(1) by (simp add: line_at_def)
    then have "unat (stdin_buf_len k + 1) = unat (stdin_buf_len k) + 1"
      using unat_add_small [of "stdin_buf_len k" 1] by simp
    then have "unat (stdin_buf_len k) < 511" using False by (simp add: word_le_nat_alt STDIN_BUF_MAX_def)
    then have "((kbytes k)(stdin_buf k + stdin_buf_len k := c)) a = kbytes k a" if "unat (a - stdin_buf k) \<ge> 511" for a
      using that by auto
    then show ?thesis using False assms(2)
      by (intro exI [of _ "(kbytes k)(stdin_buf k + stdin_buf_len k := c)"] exI [of _ "stdin_buf_len k + 1"])
         (simp add: stdin_put_def del: fun_upd_apply)
  qed
  have pop: "\<exists>m n. stdin_pop k = k\<lparr>kbytes := m, stdin_buf_len := n\<rparr> \<and>
      (\<forall>a. unat (a - stdin_buf k) \<ge> 511 \<longrightarrow> m a = kbytes k a)"
  proof (cases "stdin_buf_len k = 0")
    case True
    then show ?thesis using same by (simp add: stdin_pop_def assms(2))
  next
    case False
    then show ?thesis using assms(2)
      by (intro exI [of _ "kbytes k"] exI [of _ "stdin_buf_len k - 1"]) (simp add: stdin_pop_def)
  qed
  show ?thesis
    using assms same put pop stdin_put_line [OF assms(1,2)] stdin_pop_line [OF assms(1,2)]
    by (auto simp: kb_handle_interrupt_def line_edit_def Let_def)
qed

lemma kb_interrupts_edit:
  assumes "line_at k line" "stdin_buf k \<noteq> 0" "KB_SC_PRESSED_ENTER \<notin> set scs"
  shows "\<exists>k1 m n. kb_interrupts (scs @ rest) k = kb_interrupts rest k1 \<and> line_at k1 (foldl line_edit line scs) \<and>
    k1 = k\<lparr>kbytes := m, stdin_buf_len := n\<rparr> \<and> (\<forall>a. unat (a - stdin_buf k) \<ge> 511 \<longrightarrow> m a = kbytes k a)"
  using assms
proof (induction scs arbitrary: k line)
  case Nil
  then show ?case
    by (intro exI [of _ k] exI [of _ "kbytes k"] exI [of _ "stdin_buf_len k"]) simp
next
  case (Cons sc scs)
  obtain k1 m n where k1: "kb_handle_interrupt sc k = Inr k1" "line_at k1 (line_edit line sc)"
    "k1 = k\<lparr>kbytes := m, stdin_buf_len := n\<rparr>" "\<forall>a. unat (a - stdin_buf k) \<ge> 511 \<longrightarrow> m a = kbytes k a"
    using kb_interrupt_edits [OF Cons.prems(1,2), of sc] Cons.prems(3) by auto
  have "stdin_buf k1 \<noteq> 0" "KB_SC_PRESSED_ENTER \<notin> set scs" using k1(3) Cons.prems(2,3) by auto
  from Cons.IH [OF k1(2) this] obtain k2 m' n' where
    "kb_interrupts (scs @ rest) k1 = kb_interrupts rest k2" "line_at k2 (foldl line_edit (line_edit line sc) scs)"
    "k2 = k1\<lparr>kbytes := m', stdin_buf_len := n'\<rparr>" "\<forall>a. unat (a - stdin_buf k1) \<ge> 511 \<longrightarrow> m' a = kbytes k1 a"
    by blast
  then show ?case using k1 by (intro exI [of _ k2] exI [of _ m'] exI [of _ n']) simp
qed

section \<open>Delivering a line\<close>

lemma copy_out_user:
  assumes "unat dst + n \<le> 0xC0000000" "0xC0000000 \<le> unat src" "unat src + n \<le> 4294967296"
  shows "\<exists>m. copy_out k pd dst src n = k\<lparr>ubytes := (ubytes k)(pd := m)\<rparr> \<and>
    (\<forall>i<n. m (dst + of_nat i) = kbytes k (src + of_nat i)) \<and>
    (\<forall>a. unat a < unat dst \<or> unat dst + n \<le> unat a \<longrightarrow> m a = ubytes k pd a)"
  using assms
proof (induction n arbitrary: k dst src)
  case 0
  then show ?case by (intro exI [of _ "ubytes k pd"]) simp
next
  case (Suc n)
  have half: "src \<ge> KERNEL_VIRT_BASE" "\<not> dst \<ge> KERNEL_VIRT_BASE"
    using Suc.prems by (simp_all add: word_le_nat_alt KERNEL_VIRT_BASE_def)
  let ?k1 = "k\<lparr>ubytes := (ubytes k)(pd := (ubytes k pd)(dst := kbytes k src))\<rparr>"
  have k1: "vwrite k pd dst (vread k pd src) = ?k1" using half by (simp add: vwrite_def vread_def)
  have d1: "unat (dst + 1) = unat dst + 1" using Suc.prems(1) unat_add_small [of dst 1] by simp
  show ?case
  proof (cases "n = 0")
    case True
    then have c: "copy_out k pd dst src (Suc n) = ?k1" using k1 by simp
    show ?thesis
      by (intro exI [of _ "(ubytes k pd)(dst := kbytes k src)"] conjI) (rule c, use True in auto)
  next
    case False
    then have s1: "unat (src + 1) = unat src + 1" using Suc.prems(3) unat_add_small [of src 1] by simp
    have "unat (dst + 1) + n \<le> 0xC0000000" "0xC0000000 \<le> unat (src + 1)" "unat (src + 1) + n \<le> 4294967296"
      using Suc.prems d1 s1 by simp_all
    from Suc.IH [OF this, of ?k1] obtain m where
      m1: "copy_out ?k1 pd (dst + 1) (src + 1) n = ?k1\<lparr>ubytes := (ubytes ?k1)(pd := m)\<rparr>" and
      m2: "\<forall>i<n. m (dst + 1 + of_nat i) = kbytes ?k1 (src + 1 + of_nat i)" and
      m3: "\<forall>a. unat a < unat (dst + 1) \<or> unat (dst + 1) + n \<le> unat a \<longrightarrow> m a = ubytes ?k1 pd a"
      by blast
    have m: "copy_out ?k1 pd (dst + 1) (src + 1) n = ?k1\<lparr>ubytes := (ubytes ?k1)(pd := m)\<rparr>"
      "\<And>i. i < n \<Longrightarrow> m (dst + 1 + of_nat i) = kbytes k (src + 1 + of_nat i)"
      "\<And>a. unat a < unat dst + 1 \<or> unat dst + 1 + n \<le> unat a \<Longrightarrow> m a = ((ubytes k pd)(dst := kbytes k src)) a"
      using m1 m2 m3 unfolding d1 by auto
    have "m (dst + of_nat i) = kbytes k (src + of_nat i)" if "i < Suc n" for i
      using that m(2) m(3) [of dst] by (cases i) (auto simp: add.assoc)
    moreover have "m a = ubytes k pd a" if "unat a < unat dst \<or> unat dst + Suc n \<le> unat a" for a
      using that m(3) [of a] by auto
    moreover have "copy_out k pd dst src (Suc n) = k\<lparr>ubytes := (ubytes k)(pd := m)\<rparr>"
      using m(1) k1 by simp
    ultimately show ?thesis by blast
  qed
qed

lemma flush_user:
  assumes "stdin_kernel_buf pr \<noteq> 0" "unat (stdin_user_buf pr) + unat (stdin_kernel_buf_len pr) + 1 \<le> 0xC0000000"
    and "0xC0000000 \<le> unat (stdin_kernel_buf pr)"
    and "unat (stdin_kernel_buf pr) + unat (stdin_kernel_buf_len pr) \<le> 4294967296"
    and "sched_flush_proc_bufs p pr k = (pr', k')"
  shows "pr' = pr\<lparr>stdin_kernel_buf_len := 0, stdin_kernel_buf := 0\<rparr> \<and> ptab k' p = Some pr' \<and>
    (\<forall>i<unat (stdin_kernel_buf_len pr). ubytes k' (proc_pd pr) (stdin_user_buf pr + of_nat i) =
       kbytes k (stdin_kernel_buf pr + of_nat i)) \<and>
    ubytes k' (proc_pd pr) (stdin_user_buf pr + stdin_kernel_buf_len pr) = 0"
proof -
  let ?n = "unat (stdin_kernel_buf_len pr)" and ?dst = "stdin_user_buf pr" and ?pd = "proc_pd pr"
  obtain m where m: "copy_out k ?pd ?dst (stdin_kernel_buf pr) ?n = k\<lparr>ubytes := (ubytes k)(?pd := m)\<rparr>"
    "\<forall>i<?n. m (?dst + of_nat i) = kbytes k (stdin_kernel_buf pr + of_nat i)"
    using copy_out_user [of ?dst ?n "stdin_kernel_buf pr" k ?pd] assms(2-4) by auto
  have u: "unat (?dst + stdin_kernel_buf_len pr) = unat ?dst + ?n"
    using assms(2) by (intro unat_add_small) simp
  then have half: "\<not> ?dst + stdin_kernel_buf_len pr \<ge> KERNEL_VIRT_BASE"
    using assms(2) by (simp add: word_le_nat_alt KERNEL_VIRT_BASE_def)
  have "?dst + of_nat i \<noteq> ?dst + stdin_kernel_buf_len pr" if "i < ?n" for i
  proof
    assume "?dst + of_nat i = ?dst + stdin_kernel_buf_len pr"
    then have "unat (of_nat i :: u32) = ?n" by simp
    moreover have "unat (of_nat i :: u32) = i" using that by (intro unat_of_nat_small) (meson less_trans unat_bound32)
    ultimately show False using that by simp
  qed
  then show ?thesis using assms(1,5) m half
    by (auto simp: sched_flush_proc_bufs_def Let_def vwrite_def update_def)
qed

text \<open>A reader is blocked on the console with an empty line buffer.\<close>

definition reader_waits :: "kstate \<Rightarrow> u32 \<Rightarrow> proc \<Rightarrow> bool" where
  "reader_waits k p pr \<longleftrightarrow> waiting_stdin k = p \<and> p \<noteq> 0 \<and> ptab k p = Some pr \<and> stdin_buf_len k = 0 \<and>
     0xC0000000 \<le> unat (stdin_buf k) \<and> unat (stdin_buf k) + 512 \<le> 4294967296 \<and>
     unat (stdin_user_buf pr) + 256 \<le> 0xC0000000"

lemma kb_enter:
  assumes w: "reader_waits k p pr" and scs: "KB_SC_PRESSED_ENTER \<notin> set scs"
  obtains k1 n where "kb_interrupts (scs @ KB_SC_PRESSED_ENTER # rest) k = kb_interrupts rest k1"
    "ptab k1 p = Some (pr\<lparr>stdin_kernel_buf := stdin_buf k, stdin_kernel_buf_len := n, proc_state := READY\<rparr>)"
    "stdin_buf k1 = stdin_buf k" "stdin_buf_len k1 = 0"
    "unat n = length (foldl line_edit [] scs) mod 256" "length (foldl line_edit [] scs) \<le> 511"
    "\<And>i. i < length (foldl line_edit [] scs) \<Longrightarrow> kbytes k1 (stdin_buf k + of_nat i) = foldl line_edit [] scs ! i"
proof -
  let ?line = "foldl line_edit [] scs"
  have "line_at k []" "stdin_buf k \<noteq> 0" using w by (auto simp: reader_waits_def line_at_def)
  from kb_interrupts_edit [OF this scs, of "KB_SC_PRESSED_ENTER # rest"] obtain k1 m n where
    k1: "kb_interrupts (scs @ KB_SC_PRESSED_ENTER # rest) k = kb_interrupts (KB_SC_PRESSED_ENTER # rest) k1"
      "line_at k1 ?line" "k1 = k\<lparr>kbytes := m, stdin_buf_len := n\<rparr>" by blast
  have n: "unat n = length ?line" and ll: "length ?line \<le> 511" using k1(2,3) by (simp_all add: line_at_def)
  have "unat (ucast (ucast n :: u8) :: u32) = unat n mod 256"
    by (simp add: unsigned_ucast_eq take_bit_eq_mod unat_mod)
  moreover have "kb_handle_interrupt KB_SC_PRESSED_ENTER k1 = stdin_flush k1"
    by (simp add: kb_handle_interrupt_def KB_SC_PRESSED_ENTER_def KB_SC_PRESSED_BACKSPACE_def)
  moreover have "stdin_flush k1 = Inr (update k1 p (pr\<lparr>stdin_kernel_buf := stdin_buf k,
      stdin_kernel_buf_len := ucast (ucast n :: u8), proc_state := READY\<rparr>)\<lparr>stdin_buf_len := 0, waiting_stdin := 0\<rparr>)"
    using w k1(3) by (auto simp: stdin_flush_def reader_waits_def scheduler_wake_stdin_def lookup_def)
  ultimately show ?thesis
    using that [of _ "ucast (ucast n :: u8)"] k1 n ll by (auto simp: update_def line_at_def)
qed

text \<open>
  C14. From the keyboard to the reader: whatever keys are pressed and released before Enter, the blocked
  process is made ready, and when it is dispatched its buffer starts with the edited line, cut to its
  length modulo 256, and a NUL. The size the process gave with its buffer has no part in it.
\<close>

theorem keyboard_line_delivered:
  assumes "reader_waits k p pr" and "KB_SC_PRESSED_ENTER \<notin> set scs"
  shows "\<exists>k1 pr1. kb_interrupts (scs @ [KB_SC_PRESSED_ENTER]) k = Inr k1 \<and> ptab k1 p = Some pr1 \<and>
    proc_state pr1 = READY \<and>
    (\<forall>pr2 k2. sched_flush_proc_bufs p pr1 k1 = (pr2, k2) \<longrightarrow>
      (let line = foldl line_edit [] scs; n = length line mod 256
       in (\<forall>i<n. ubytes k2 (proc_pd pr) (stdin_user_buf pr + of_nat i) = line ! i) \<and>
          ubytes k2 (proc_pd pr) (stdin_user_buf pr + of_nat n) = 0))"
proof -
  let ?line = "foldl line_edit [] scs"
  obtain k1 n where k1: "kb_interrupts (scs @ [KB_SC_PRESSED_ENTER]) k = kb_interrupts [] k1"
    "ptab k1 p = Some (pr\<lparr>stdin_kernel_buf := stdin_buf k, stdin_kernel_buf_len := n, proc_state := READY\<rparr>)"
    "unat n = length ?line mod 256" "length ?line \<le> 511"
    "\<And>i. i < length ?line \<Longrightarrow> kbytes k1 (stdin_buf k + of_nat i) = ?line ! i"
    by (rule kb_enter [OF assms, of "[]"]) blast
  let ?pr1 = "pr\<lparr>stdin_kernel_buf := stdin_buf k, stdin_kernel_buf_len := n, proc_state := READY\<rparr>"
  have nb: "unat n < 256" "unat n \<le> length ?line" using k1(3) by simp_all
  have nw: "of_nat (length ?line mod 256) = n" by (simp add: k1(3) [symmetric])
  have w: "stdin_buf k \<noteq> 0" "0xC0000000 \<le> unat (stdin_buf k)" "unat (stdin_buf k) + 512 \<le> 4294967296"
    "unat (stdin_user_buf pr) + 256 \<le> 0xC0000000"
    using assms(1) by (auto simp: reader_waits_def)
  have "let line = ?line; n = length line mod 256
       in (\<forall>i<n. ubytes k2 (proc_pd pr) (stdin_user_buf pr + of_nat i) = line ! i) \<and>
          ubytes k2 (proc_pd pr) (stdin_user_buf pr + of_nat n) = 0"
    if f: "sched_flush_proc_bufs p ?pr1 k1 = (pr2, k2)" for pr2 k2
  proof -
    have r: "(\<forall>i<unat n. ubytes k2 (proc_pd pr) (stdin_user_buf pr + of_nat i) = kbytes k1 (stdin_buf k + of_nat i)) \<and>
      ubytes k2 (proc_pd pr) (stdin_user_buf pr + n) = 0"
      using flush_user [OF _ _ _ _ f] w nb(1) by auto
    then show ?thesis using k1(5) nb(2) unfolding Let_def nw k1(3) by auto
  qed
  then show ?thesis using k1(1,2) by (intro exI [of _ k1] exI [of _ ?pr1]) simp
qed

text \<open>
  The line is handed over as a pointer to the one buffer of the console: a key pressed after Enter,
  before the woken process runs, replaces the first character of the line it is about to read.
\<close>

theorem keyboard_line_overwritten:
  assumes "reader_waits k p pr" and "KB_SC_PRESSED_ENTER \<notin> set scs"
    and "foldl line_edit [] scs \<noteq> []" and "length (foldl line_edit [] scs) < 256"
    and "sc < 0x80" and "sc \<notin> {KB_SC_PRESSED_BACKSPACE, KB_SC_PRESSED_ENTER, KB_SC_PRESSED_NOTHING}" and "kb_map sc \<noteq> 0"
  shows "\<exists>k1 pr1. kb_interrupts (scs @ [KB_SC_PRESSED_ENTER, sc]) k = Inr k1 \<and> ptab k1 p = Some pr1 \<and>
    (\<forall>pr2 k2. sched_flush_proc_bufs p pr1 k1 = (pr2, k2) \<longrightarrow>
      ubytes k2 (proc_pd pr) (stdin_user_buf pr) = kb_map sc)"
proof -
  let ?line = "foldl line_edit [] scs"
  obtain k1 n where k1: "kb_interrupts (scs @ KB_SC_PRESSED_ENTER # [sc]) k = kb_interrupts [sc] k1"
    "ptab k1 p = Some (pr\<lparr>stdin_kernel_buf := stdin_buf k, stdin_kernel_buf_len := n, proc_state := READY\<rparr>)"
    "stdin_buf k1 = stdin_buf k" "stdin_buf_len k1 = 0" "unat n = length ?line mod 256"
    by (rule kb_enter [OF assms(1,2), of "[sc]"]) blast
  let ?pr1 = "pr\<lparr>stdin_kernel_buf := stdin_buf k, stdin_kernel_buf_len := n, proc_state := READY\<rparr>"
  let ?k2 = "k1\<lparr>kbytes := (kbytes k1)(stdin_buf k := kb_map sc), stdin_buf_len := 1\<rparr>"
  have w: "stdin_buf k \<noteq> 0" "0xC0000000 \<le> unat (stdin_buf k)" "unat (stdin_buf k) + 512 \<le> 4294967296"
    "unat (stdin_user_buf pr) + 256 \<le> 0xC0000000"
    using assms(1) by (auto simp: reader_waits_def)
  have n: "0 < unat n" "unat n < 256" using k1(5) assms(3,4) by simp_all
  have one: "\<not> (512 :: u32) \<le> 1" by code_simp
  have "kb_interrupts [sc] k1 = Inr ?k2"
    using assms(5-7) k1(3,4) w(1) one
    by (simp add: kb_handle_interrupt_def Let_def stdin_put_def STDIN_BUF_MAX_def not_le [symmetric])
  moreover have "ubytes k3 (proc_pd pr) (stdin_user_buf pr) = kb_map sc"
    if f: "sched_flush_proc_bufs p ?pr1 ?k2 = (pr2, k3)" for pr2 k3
  proof -
    have "\<forall>i<unat n. ubytes k3 (proc_pd pr) (stdin_user_buf pr + of_nat i) = kbytes ?k2 (stdin_buf k + of_nat i)"
      using flush_user [OF _ _ _ _ f] w n by auto
    from this [rule_format, OF n(1)] show ?thesis by simp
  qed
  ultimately show ?thesis using k1(1,2) by (intro exI [of _ ?k2] exI [of _ ?pr1]) simp
qed

text \<open>
  Every key is released with its pressed scan code plus \<open>0x80\<close>, so that an interrupt for a release
  is told apart by its top bit and changes nothing; no two entries of the map are for the same code.
\<close>

theorem keyboard_codes:
  "map (\<lambda>(key, code). (key, code + 0x80)) kb_pressed = kb_released \<and>
   (\<forall>(key, code)\<in>set kb_released. kb_handle_interrupt code k = Inr k) \<and>
   distinct (map fst kb_pressed) \<and> distinct (map snd kb_pressed) \<and>
   (\<forall>(key, c)\<in>set kb_entries. kb_map (sc_pressed key) = c)"
proof -
  have a: "map (\<lambda>(key, code). (key, code + 0x80)) kb_pressed = kb_released" by code_simp
  have "list_all (\<lambda>(key, code). code \<ge> 0x80) kb_released" by code_simp
  then have b: "\<forall>(key, code)\<in>set kb_released. kb_handle_interrupt code k = Inr k"
    by (auto simp: list_all_iff kb_handle_interrupt_def)
  have c: "distinct (map fst kb_pressed)" "distinct (map snd kb_pressed)" by code_simp+
  have "list_all (\<lambda>(key, c). kb_map (sc_pressed key) = c) kb_entries" by code_simp
  then have "\<forall>(key, c)\<in>set kb_entries. kb_map (sc_pressed key) = c" by (auto simp: list_all_iff)
  then show ?thesis using a b c by blast
qed

definition demo_reader :: kstate where
  "demo_reader = demo_sched\<lparr>ptab := (ptab demo_sched)(0x100 \<mapsto> zero_proc\<lparr>proc_state := BLOCKED,
     stdin_user_buf := 0x7FFFF00, proc_pd := 0xC0001000\<rparr>),
     stdin_buf := 0xC0200000, waiting_stdin := 0x100\<rparr>"

lemma demo_reader_waits: "reader_waits demo_reader 0x100 (zero_proc\<lparr>proc_state := BLOCKED,
     stdin_user_buf := 0x7FFFF00, proc_pd := 0xC0001000\<rparr>)"
  by (simp add: reader_waits_def demo_reader_def) (simp add: demo_sched_def)

text \<open>The keys l, x, backspace, s, each pressed and released.\<close>

definition demo_keys :: "u8 list" where "demo_keys = [0x26, 0xA6, 0x2D, 0xAD, 0x0E, 0x8E, 0x1F, 0x9F]"

lemma demo_keys_line: "foldl line_edit [] demo_keys = [0x6C, 0x73]" "KB_SC_PRESSED_ENTER \<notin> set demo_keys"
proof -
  have m: "kb_map 0x26 = 0x6C" "kb_map 0x2D = 0x78" "kb_map 0x1F = 0x73" by code_simp+
  show "foldl line_edit [] demo_keys = [0x6C, 0x73]"
    by (simp add: demo_keys_def line_edit_def m KB_SC_PRESSED_BACKSPACE_def KB_SC_PRESSED_NOTHING_def)
  show "KB_SC_PRESSED_ENTER \<notin> set demo_keys" by (simp add: demo_keys_def KB_SC_PRESSED_ENTER_def)
qed

theorem keyboard_line_delivered_witness:
  "\<exists>k1 pr1. kb_interrupts (demo_keys @ [KB_SC_PRESSED_ENTER]) demo_reader = Inr k1 \<and> ptab k1 0x100 = Some pr1 \<and>
     (\<forall>pr2 k2. sched_flush_proc_bufs 0x100 pr1 k1 = (pr2, k2) \<longrightarrow>
        ubytes k2 0xC0001000 0x7FFFF00 = 0x6C \<and> ubytes k2 0xC0001000 0x7FFFF01 = 0x73 \<and>
        ubytes k2 0xC0001000 0x7FFFF02 = 0)"
  using keyboard_line_delivered [OF demo_reader_waits demo_keys_line(2)]
  unfolding demo_keys_line(1) by (fastforce simp: Let_def All_less_Suc2 numeral_2_eq_2)

theorem keyboard_line_overwritten_witness:
  "\<exists>k1 pr1. kb_interrupts (demo_keys @ [KB_SC_PRESSED_ENTER, 0x2D]) demo_reader = Inr k1 \<and>
     ptab k1 0x100 = Some pr1 \<and>
     (\<forall>pr2 k2. sched_flush_proc_bufs 0x100 pr1 k1 = (pr2, k2) \<longrightarrow> ubytes k2 0xC0001000 0x7FFFF00 = 0x78)"
proof -
  have sc: "(0x2D :: u8) < 0x80" "(0x2D :: u8) \<notin> {KB_SC_PRESSED_BACKSPACE, KB_SC_PRESSED_ENTER, KB_SC_PRESSED_NOTHING}"
    by (simp_all add: KB_SC_PRESSED_BACKSPACE_def KB_SC_PRESSED_ENTER_def KB_SC_PRESSED_NOTHING_def)
  have m: "kb_map 0x2D = 0x78" by code_simp
  show ?thesis
    using keyboard_line_overwritten [OF demo_reader_waits demo_keys_line(2) _ _ sc(1,2)]
    unfolding demo_keys_line(1) m by simp
qed

theorem keyboard_codes_witness:
  "kb_handle_interrupt 0x9E demo_reader = Inr demo_reader"
  using keyboard_codes [of demo_reader] by (simp add: kb_released_def)

end
