(* ===== verification/Syscall.thy ===== *)
theory Syscall
  imports Elf Ext2Vfs Keyboard Print
begin

text \<open>
  The system calls, \<open>kernel/syscall/src/syscall.c\<close>: one definition per handler and the dispatcher, over
  the kernel state, the table of open files and the mounted file system.
\<close>

section \<open>State and registers\<close>

text \<open>
  \<open>sy_out\<close> is what has been given to the terminal. A handler gets the address \<open>p\<close> of the calling
  process and the address \<open>regs\<close> of its saved registers, words in the order of
  \<open>proc_registers_state\<close>, and returns its status with the state.
\<close>

record sys =
  sy_k :: kstate
  sy_fds :: fd_table
  sy_fs :: ext2_mount
  sy_drv :: "(ext2_mount, dir_ent) vfs_driver option"
  sy_out :: "u8 list"

definition reg :: "sys \<Rightarrow> u32 \<Rightarrow> u32 \<Rightarrow> u32" where
  "reg s regs i = ld32 (kbytes (sy_k s)) (regs + 4 * i)"

definition EBX :: "sys \<Rightarrow> u32 \<Rightarrow> u32" where "EBX s regs = reg s regs 4"
definition EDX :: "sys \<Rightarrow> u32 \<Rightarrow> u32" where "EDX s regs = reg s regs 5"
definition ECX :: "sys \<Rightarrow> u32 \<Rightarrow> u32" where "ECX s regs = reg s regs 6"
definition EAX :: "sys \<Rightarrow> u32 \<Rightarrow> u32" where "EAX s regs = reg s regs 7"

definition set_EAX :: "u32 \<Rightarrow> u32 \<Rightarrow> sys \<Rightarrow> sys" where
  "set_EAX regs v s = s\<lparr>sy_k := (sy_k s)\<lparr>kbytes := st32 (kbytes (sy_k s)) (regs + 4 * 7) v\<rparr>\<rparr>"

definition set_proc :: "u32 \<Rightarrow> proc \<Rightarrow> sys \<Rightarrow> sys" where
  "set_proc p pr s = s\<lparr>sy_k := update (sy_k s) p pr\<rparr>"

text \<open>Memory as the caller sees it: the active address space.\<close>

definition user_mem :: "sys \<Rightarrow> bytes_mem" where "user_mem s = vread (sy_k s) (active_pd (sy_k s))"

fun store_user :: "kstate \<Rightarrow> u32 \<Rightarrow> u32 \<Rightarrow> u8 list \<Rightarrow> kstate" where
  "store_user k pd a [] = k"
| "store_user k pd a (b # bs) = store_user (vwrite k pd a b) pd (a + 1) bs"

definition put_user :: "u32 \<Rightarrow> u8 list \<Rightarrow> sys \<Rightarrow> sys" where
  "put_user a bs s = s\<lparr>sy_k := store_user (sy_k s) (active_pd (sy_k s)) a bs\<rparr>"

section \<open>Console\<close>

text \<open>
  \<open>TTY_WARN\<close> prints the name of the function, \<open>__func__\<close>, before the message; the format has no
  conversion whose argument could be missing.
\<close>

definition nl_str :: "string \<Rightarrow> u8 list" where "nl_str str = map of_char str @ [0x0A]"

definition TTY_WARN :: "string \<Rightarrow> u8 list \<Rightarrow> va list \<Rightarrow> sys \<Rightarrow> sys res" where
  "TTY_WARN func str args s =
     and_then (kvprintf_to (map of_char ''[%s] <warn>: '' @ str) (VaStr (map of_char func) # args)) (\<lambda>es.
       Inr (s\<lparr>sy_out := sy_out s @ map emit_char es\<rparr>))"

definition syscall_write :: "u32 \<Rightarrow> u32 \<Rightarrow> sys \<Rightarrow> (u32 \<times> sys) res" where
  "syscall_write p regs s =
     (if EBX s regs = 0
      then and_then (TTY_WARN ''__syscall_write'' (nl_str ''SYS_WRITE: no string given to put'') [] s) (\<lambda>s1. Inr (1, s1))
      else and_then (string_at (user_mem s) (EBX s regs)) (\<lambda>str. Inr (0, s\<lparr>sy_out := sy_out s @ str\<rparr>)))"

definition syscall_read :: "u32 \<Rightarrow> u32 \<Rightarrow> sys \<Rightarrow> (u32 \<times> sys) res" where
  "syscall_read p regs s =
     and_then (lookup (sy_k s) p) (\<lambda>pr.
       (let k1 = update (sy_k s) p (pr\<lparr>proc_state := BLOCKED, stdin_user_buf := EBX s regs,
                                     stdin_user_buf_size := ECX s regs\<rparr>)
        in Inr (0, s\<lparr>sy_k := stdin_wait p (EBX s regs) (ECX s regs) k1\<rparr>)))"

section \<open>Processes\<close>

definition syscall_exit :: "u32 \<Rightarrow> u32 \<Rightarrow> sys \<Rightarrow> (u32 \<times> sys) res" where
  "syscall_exit p regs s =
     and_then (lookup (sy_k s) p) (\<lambda>pr.
     and_then (scheduler_notify_parent p
         (update (sy_k s) p (pr\<lparr>proc_state := ZOMBIE, exit_code := EBX s regs\<rparr>))) (\<lambda>k1.
       Inr (0, s\<lparr>sy_k := k1\<rparr>)))"

text \<open>\<open>newp\<close> is the address \<open>kmalloc\<close> gives for the new process, \<open>fresh\<close> the bytes of the file buffer.\<close>

definition syscall_exec :: "u32 \<Rightarrow> (nat \<Rightarrow> u8) \<Rightarrow> u32 \<Rightarrow> u32 \<Rightarrow> sys \<Rightarrow> (u32 \<times> sys) res" where
  "syscall_exec newp fresh p regs s =
     and_then (string_at (user_mem s) (EBX s regs)) (\<lambda>path.
     and_then (elf_load (sy_drv s) fresh newp path (ECX s regs) (EDX s regs) (sy_k s) (sy_fs s)) (\<lambda>(pid, k1, fs1).
       Inr (if pid \<noteq> - 1 then 0 else 1, set_EAX regs pid (s\<lparr>sy_k := k1, sy_fs := fs1\<rparr>))))"

definition syscall_kill :: "u32 \<Rightarrow> u32 \<Rightarrow> sys \<Rightarrow> (u32 \<times> sys) res" where
  "syscall_kill p regs s =
     and_then (scheduler_get_proc (sy_k s) (EBX s regs)) (\<lambda>victim.
       (if victim = 0 then Inl (KFault ''p_to_kill'')
        else and_then (lookup (sy_k s) victim) (\<lambda>pr. Inr (0, set_proc victim (pr\<lparr>proc_state := ZOMBIE\<rparr>) s))))"

text \<open>The last path runs off the end of the function; its value is not looked at, the caller is blocked.\<close>

definition syscall_waitpid :: "u32 \<Rightarrow> u32 \<Rightarrow> sys \<Rightarrow> (u32 \<times> sys) res" where
  "syscall_waitpid p regs s =
     (let child_pid = EBX s regs
      in and_then (scheduler_get_proc (sy_k s) child_pid) (\<lambda>child.
           (if child = 0 then Inr (1, set_EAX regs (- 1) s)
            else and_then (lookup (sy_k s) child) (\<lambda>ch.
                 and_then (lookup (sy_k s) p) (\<lambda>pr.
                   (if parent_pid ch \<noteq> proc_id pr then Inr (1, set_EAX regs (- 2) s)
                    else if proc_state ch = ZOMBIE
                    then and_then (scheduler_reap_child child_pid (sy_k s)) (\<lambda>(code, k1).
                           Inr (0, set_EAX regs code (s\<lparr>sy_k := k1\<rparr>)))
                    else Inr (0, set_proc p (pr\<lparr>proc_state := BLOCKED, waiting_for := child_pid\<rparr>) s)))))))"

definition syscall_getpid :: "u32 \<Rightarrow> u32 \<Rightarrow> sys \<Rightarrow> (u32 \<times> sys) res" where
  "syscall_getpid p regs s = and_then (lookup (sy_k s) p) (\<lambda>pr. Inr (0, set_EAX regs (proc_id pr) s))"

section \<open>Files\<close>

definition syscall_open :: "u32 \<Rightarrow> u32 \<Rightarrow> sys \<Rightarrow> (u32 \<times> sys) res" where
  "syscall_open p regs s =
     and_then (string_at (user_mem s) (EBX s regs)) (\<lambda>path.
     and_then (vfs_open (sy_drv s) path (sy_fs s)) (\<lambda>(node, fs1).
       (case node of
          None \<Rightarrow> Inr (1, set_EAX regs (- 1) (s\<lparr>sy_fs := fs1\<rparr>))
        | Some file \<Rightarrow>
            and_then (lookup (sy_k s) p) (\<lambda>pr.
            and_then (proc_alloc_fd (fds pr) file (ucast (ECX s regs)) (sy_fds s)) (\<lambda>(fd, fs', t).
              Inr (0, set_EAX regs fd (set_proc p (pr\<lparr>fds := fs'\<rparr>) (s\<lparr>sy_fs := fs1, sy_fds := t\<rparr>))))))))"

definition syscall_close :: "u32 \<Rightarrow> u32 \<Rightarrow> sys \<Rightarrow> (u32 \<times> sys) res" where
  "syscall_close p regs s =
     (if EBX s regs < 3 then Inr (1, s)
      else and_then (lookup (sy_k s) p) (\<lambda>pr.
           and_then (proc_close_fd (fds pr) (EBX s regs) (sy_fds s)) (\<lambda>(fs', t).
             Inr (0, set_proc p (pr\<lparr>fds := fs'\<rparr>) (s\<lparr>sy_fds := t\<rparr>)))))"

definition syscall_read_file :: "u32 \<Rightarrow> u32 \<Rightarrow> sys \<Rightarrow> (u32 \<times> sys) res" where
  "syscall_read_file p regs s =
     and_then (lookup (sy_k s) p) (\<lambda>pr.
     and_then (proc_fd_read_file (sy_drv s) (fds pr) (EBX s regs) (EDX s regs) (sy_fds s) (sy_fs s))
       (\<lambda>(n, status, bytes, fs1).
          Inr (status, set_EAX regs n (put_user (ECX s regs) bytes (s\<lparr>sy_fs := fs1\<rparr>)))))"

definition syscall_write_file :: "u32 \<Rightarrow> u32 \<Rightarrow> sys \<Rightarrow> (u32 \<times> sys) res" where
  "syscall_write_file p regs s =
     and_then (lookup (sy_k s) p) (\<lambda>pr.
     and_then (proc_fd_write_file (sy_drv s) (fds pr) (EBX s regs)
         (map (\<lambda>i. user_mem s (ECX s regs + of_nat i)) [0..<unat (EDX s regs)]) (sy_fds s) (sy_fs s))
       (\<lambda>(n, status, fs1). Inr (status, set_EAX regs n (s\<lparr>sy_fs := fs1\<rparr>))))"

text \<open>
  \<open>dir_entry\<close>: inode number at 0, size at 4, \<open>is_dir\<close> at 8, the name from 9 on; 265 bytes, padded to 268.
  A name has at most 255 bytes, so the cut at \<open>sizeof (out->name) - 1\<close> never takes effect.
\<close>

definition DIR_ENTRY_SIZE :: u32 where "DIR_ENTRY_SIZE = 268"

definition put_dir_entry :: "u32 \<Rightarrow> dir_ent \<Rightarrow> u32 \<Rightarrow> sys \<Rightarrow> sys" where
  "put_dir_entry out e sz s =
     put_user (out + 4) (put32 sz)
       (put_user (out + 8) [if entry_type e = 2 then 1 else 0]
         (put_user out (put32 (entry_inode e))
           (put_user (out + 9) (take (unat (entry_name_len e)) (entry_name e) @ [0]) s)))"

fun readdir_loop :: "dir_ent list \<Rightarrow> u32 \<Rightarrow> u32 \<Rightarrow> u32 \<Rightarrow> sys \<Rightarrow> (u32 \<times> sys) res" where
  "readdir_loop [] buf max_entries written s = Inr (written, s)"
| "readdir_loop (e # es) buf max_entries written s =
     (if \<not> written < max_entries then Inr (written, s)
      else and_then (fs_ext2_read_inode (em_fs (sy_fs s)) (entry_inode e)) (\<lambda>ino.
             readdir_loop es buf max_entries (written + 1)
               (put_dir_entry (buf + written * DIR_ENTRY_SIZE) e (inode_size_low_bits ino) s)))"

text \<open>A path that is not a directory leaves its node open.\<close>

definition syscall_readdir :: "u32 \<Rightarrow> u32 \<Rightarrow> sys \<Rightarrow> (u32 \<times> sys) res" where
  "syscall_readdir p regs s =
     and_then (string_at (user_mem s) (EBX s regs)) (\<lambda>path.
     and_then (vfs_open (sy_drv s) path (sy_fs s)) (\<lambda>(node, fs1).
       (case node of
          None \<Rightarrow> Inr (1, set_EAX regs (- 1) (s\<lparr>sy_fs := fs1\<rparr>))
        | Some dir \<Rightarrow>
           (if \<not> vn_is_dir dir then Inr (1, set_EAX regs (- 1) (s\<lparr>sy_fs := fs1\<rparr>))
            else and_then (vfs_list (sy_drv s) dir fs1) (\<lambda>(entries, fs2).
              (case entries of
                 None \<Rightarrow> and_then (vfs_close (sy_drv s) dir fs2) (\<lambda>fs3.
                          Inr (1, set_EAX regs (- 1) (s\<lparr>sy_fs := fs3\<rparr>)))
               | Some es \<Rightarrow>
                   and_then (readdir_loop es (ECX s regs) (EDX s regs div DIR_ENTRY_SIZE) 0 (s\<lparr>sy_fs := fs2\<rparr>)) (\<lambda>(written, s1).
                   and_then (vfs_close (sy_drv s1) dir (sy_fs s1)) (\<lambda>fs3.
                     Inr (0, set_EAX regs written (s1\<lparr>sy_fs := fs3\<rparr>))))))))))"

section \<open>Memory\<close>

definition unmap_page :: "paging \<Rightarrow> u32 \<Rightarrow> u32 \<Rightarrow> paging res" where
  "unmap_page pg pd addr =
     (let pde = pg_mem pg (entry_addr pd (drop_bit 22 addr))
      in if pde AND 1 = 0 then Inr pg
         else let pte_at = entry_addr (PHYS_TO_VIRT (pde AND 0xFFFFF000)) (drop_bit 12 addr AND 0x3FF); pte = pg_mem pg pte_at
              in if pte AND 1 = 0 then Inr pg
                 else and_then (fa_free (pg_frames pg) (pte AND 0xFFFFF000)) (\<lambda>fr.
                        Inr (pg\<lparr>pg_frames := fr, pg_mem := (pg_mem pg)(pte_at := 0)\<rparr>)))"

fun unmap_pages :: "paging \<Rightarrow> u32 \<Rightarrow> u32 \<Rightarrow> nat \<Rightarrow> nat \<Rightarrow> paging res" where
  "unmap_pages pg pd vaddr i 0 = Inr pg"
| "unmap_pages pg pd vaddr i (Suc n) =
     and_then (unmap_page pg pd (vaddr + of_nat i * 4096)) (\<lambda>pg1. unmap_pages pg1 pd vaddr (i + 1) n)"

text \<open>Mapping page after page from \<open>base\<close> on, as \<open>sbrk\<close> and \<open>mmap\<close> do.\<close>

fun map_pages :: "paging \<Rightarrow> u32 \<Rightarrow> u32 \<Rightarrow> nat \<Rightarrow> nat \<Rightarrow> paging res" where
  "map_pages pg pd base i 0 = Inr pg"
| "map_pages pg pd base i (Suc n) =
     and_then (map_new_page pg pd (base + of_nat i * 4096)) (\<lambda>(frame, pg1). map_pages pg1 pd base (i + 1) n)"

definition new_break :: "u32 \<Rightarrow> u32 \<Rightarrow> u32" where
  "new_break old_break increment =
     (if sint increment < 0 then if - increment > old_break then 0 else old_break - (- increment)
      else old_break + increment)"

definition page_up :: "u32 \<Rightarrow> u32" where "page_up a = (a + 0xFFF) AND 0xFFFFF000"

definition syscall_sbrk :: "u32 \<Rightarrow> u32 \<Rightarrow> sys \<Rightarrow> (u32 \<times> sys) res" where
  "syscall_sbrk p regs s =
     and_then (lookup (sy_k s) p) (\<lambda>pr.
       (let old_break = program_break pr; nb = new_break old_break (EBX s regs);
            old_page = page_up old_break; new_page = page_up nb
        in and_then
             (if new_page > old_page then map_pages (vmm (sy_k s)) (proc_pd pr) old_page 0 (unat ((new_page - old_page) div 4096))
              else if new_page < old_page
              then unmap_pages (vmm (sy_k s)) (proc_pd pr) new_page 0 (unat ((old_page - new_page) div 4096))
              else Inr (vmm (sy_k s)))
             (\<lambda>pg. Inr (0, set_EAX regs old_break
                (set_proc p (pr\<lparr>program_break := nb\<rparr>) (s\<lparr>sy_k := (sy_k s)\<lparr>vmm := pg\<rparr>\<rparr>))))))"

definition mmap_pages :: "u32 \<Rightarrow> u32" where "mmap_pages sz = drop_bit 12 (sz + 0xFFF)"

definition syscall_mmap :: "u32 \<Rightarrow> u32 \<Rightarrow> sys \<Rightarrow> (u32 \<times> sys) res" where
  "syscall_mmap p regs s =
     and_then (lookup (sy_k s) p) (\<lambda>pr.
       (let pages = mmap_pages (EBX s regs); base = mmap_next pr
        in and_then (map_pages (vmm (sy_k s)) (proc_pd pr) base 0 (unat pages)) (\<lambda>pg.
           and_then (dynarray_add (case mmap_regions pr of None \<Rightarrow> dynarray_new 4 | Some rs \<Rightarrow> rs)
               \<lparr>mr_base = base, mr_len = pages * 4096\<rparr>) (\<lambda>rs.
             Inr (0, set_EAX regs base
               (set_proc p (pr\<lparr>mmap_regions := Some rs, mmap_next := base + pages * 4096\<rparr>)
                  (s\<lparr>sy_k := (sy_k s)\<lparr>vmm := pg\<rparr>\<rparr>)))))))"

fun find_region :: "mmap_region dynarray \<Rightarrow> u32 \<Rightarrow> u32 \<Rightarrow> nat \<Rightarrow> (u32 \<times> mmap_region) option" where
  "find_region rs addr i 0 = None"
| "find_region rs addr i (Suc n) =
     (case dynarray_get rs i of
        Some r \<Rightarrow> if mr_base r = addr then Some (i, r) else find_region rs addr (i + 1) n
      | None \<Rightarrow> find_region rs addr (i + 1) n)"

definition syscall_munmap :: "u32 \<Rightarrow> u32 \<Rightarrow> sys \<Rightarrow> (u32 \<times> sys) res" where
  "syscall_munmap p regs s =
     and_then (lookup (sy_k s) p) (\<lambda>pr.
       (case mmap_regions pr of
          None \<Rightarrow> Inr (1, set_EAX regs (- 1) s)
        | Some rs \<Rightarrow>
           (case find_region rs (EBX s regs) 0 (unat (da_count rs)) of
              None \<Rightarrow> Inr (1, set_EAX regs (- 1) s)
            | Some (i, r) \<Rightarrow>
                and_then (unmap_pages (vmm (sy_k s)) (proc_pd pr) (EBX s regs) 0 (unat (mr_len r div 4096))) (\<lambda>pg.
                  Inr (0, set_EAX regs 0 (set_proc p (pr\<lparr>mmap_regions := Some (dynarray_remove rs i)\<rparr>)
                           (s\<lparr>sy_k := (sy_k s)\<lparr>vmm := pg\<rparr>\<rparr>)))))))"

section \<open>The dispatcher\<close>

definition run_syscall :: "u32 \<Rightarrow> (nat \<Rightarrow> u8) \<Rightarrow> u32 \<Rightarrow> u32 \<Rightarrow> u32 \<Rightarrow> sys \<Rightarrow> (u32 \<times> sys) res" where
  "run_syscall newp fresh num p regs s =
     (if num = 1 then syscall_write p regs s
      else if num = 2 then syscall_read p regs s
      else if num = 3 then syscall_open p regs s
      else if num = 4 then syscall_close p regs s
      else if num = 5 then syscall_read_file p regs s
      else if num = 6 then syscall_write_file p regs s
      else if num = 7 then syscall_exit p regs s
      else if num = 8 then syscall_exec newp fresh p regs s
      else if num = 9 then syscall_kill p regs s
      else if num = 10 then syscall_waitpid p regs s
      else if num = 11 then syscall_readdir p regs s
      else if num = 12 then syscall_sbrk p regs s
      else if num = 13 then syscall_mmap p regs s
      else if num = 14 then syscall_munmap p regs s
      else if num = 15 then syscall_getpid p regs s
      else and_then (TTY_WARN ''syscall_handler'' (nl_str ''unknown syscall: %x'') [VaInt num] s) (\<lambda>s1. Inr (0, s1)))"

text \<open>The result is the stack to go on with, 0 for the one the call came on.\<close>

definition syscall_handler :: "u32 \<Rightarrow> (nat \<Rightarrow> u8) \<Rightarrow> u32 \<Rightarrow> sys \<Rightarrow> (u32 \<times> sys) res" where
  "syscall_handler newp fresh regs s =
     (let p = current_proc (sy_k s)
      in if p = 0 then Inl (KPanic ''had a syscall when no process was running'')
         else and_then (run_syscall newp fresh (EAX s regs) p regs s) (\<lambda>(ret, s1).
              and_then (lookup (sy_k s1) p) (\<lambda>pr.
                (if waiting_state (proc_state pr)
                 then and_then (scheduler_yield regs (sy_k s1)) (\<lambda>(esp, k2). Inr (esp, s1\<lparr>sy_k := k2\<rparr>))
                 else Inr (0, s1)))))"

end
