(* ===== verification/ElfLoad.thy ===== *)
theory ElfLoad
  imports Elf
begin

text \<open>
  What the loader leaves behind: the pages of every loadable segment hold the bytes of the file and
  zeros behind them, the new process has an address space of its own with its stack, and it waits in
  the pool with the entry point in its saved context.
\<close>

section \<open>Pages of frames that are taken\<close>

text \<open>Frames that are taken stay taken and keep their bytes.\<close>

definition keeps_frames :: "kstate \<Rightarrow> kstate \<Rightarrow> bool" where
  "keeps_frames k k' \<longleftrightarrow> (\<forall>f<1048576. f \<notin> free_frames (pg_frames (vmm k)) \<longrightarrow> f \<notin> free_frames (pg_frames (vmm k')) \<and>
     (\<forall>va. kbytes k' (PHYS_TO_VIRT (frame_addr f OR (va AND 0xFFF))) = kbytes k (PHYS_TO_VIRT (frame_addr f OR (va AND 0xFFF)))))"

text \<open>Only the memory changes.\<close>

definition only_memory :: "kstate \<Rightarrow> kstate \<Rightarrow> bool" where
  "only_memory k k' \<longleftrightarrow> k' = k\<lparr>vmm := vmm k', kbytes := kbytes k', ubytes := ubytes k'\<rparr> \<and>
     kernel_pd (vmm k') = kernel_pd (vmm k) \<and> pg_cr3 (vmm k') = pg_cr3 (vmm k)"

lemma keeps_frames_refl [simp]: "keeps_frames k k" by (simp add: keeps_frames_def)

lemma keeps_frames_trans: "keeps_frames k1 k2 \<Longrightarrow> keeps_frames k2 k3 \<Longrightarrow> keeps_frames k1 k3"
  by (simp add: keeps_frames_def)

lemma only_memory_refl [simp]: "only_memory k k" by (simp add: only_memory_def)

lemma only_memory_trans:
  assumes "only_memory k1 k2" "only_memory k2 k3"
  shows "only_memory k1 k3"
proof -
  have a: "k2 = k1\<lparr>vmm := vmm k2, kbytes := kbytes k2, ubytes := ubytes k2\<rparr>"
    and b: "k3 = k2\<lparr>vmm := vmm k3, kbytes := kbytes k3, ubytes := ubytes k3\<rparr>"
    using assms by (simp_all add: only_memory_def)
  have "k2\<lparr>vmm := vmm k3, kbytes := kbytes k3, ubytes := ubytes k3\<rparr> =
      k1\<lparr>vmm := vmm k3, kbytes := kbytes k3, ubytes := ubytes k3\<rparr>"
    by (subst a) simp
  with b have "k3 = k1\<lparr>vmm := vmm k3, kbytes := kbytes k3, ubytes := ubytes k3\<rparr>" by simp
  then show ?thesis using assms by (simp add: only_memory_def)
qed

lemma only_memory_same:
  assumes "only_memory k k'"
  shows "ptab k' = ptab k" "procs k' = procs k" "sched_initialized k' = sched_initialized k"
    "current_proc k' = current_proc k" "active_pd k' = active_pd k" "kernel_pd (vmm k') = kernel_pd (vmm k)"
proof -
  have k': "k' = k\<lparr>vmm := vmm k', kbytes := kbytes k', ubytes := ubytes k'\<rparr>"
    using assms by (simp add: only_memory_def)
  show "ptab k' = ptab k" "procs k' = procs k" "sched_initialized k' = sched_initialized k"
    "current_proc k' = current_proc k" by (subst k', simp)+
  show "active_pd k' = active_pd k" "kernel_pd (vmm k') = kernel_pd (vmm k)"
    using assms by (simp_all add: only_memory_def active_pd_def)
qed

text \<open>One page: mapped and stored.\<close>

lemma load_page_result:
  assumes sp: "spaces (vmm k) D" and d: "d \<in> D" and u: "user_tables (vmm k) d" and low: "unat va < 0xC0000000"
    and r: "map_new_page (vmm k) (PHYS_TO_VIRT (frame_addr d)) va = Inr (frame, pg1)" and len: "length bs = 4096"
    and k': "k' = store_page (PHYS_TO_VIRT (frame_addr d)) frame va bs (k\<lparr>vmm := pg1\<rparr>)"
  shows "spaces (vmm k') D" "user_tables (vmm k') d" "page_at k' d (entry_frame va) bs"
    "v \<noteq> entry_frame va \<Longrightarrow> page_at k d v cs \<Longrightarrow> page_at k' d v cs"
    "v \<noteq> entry_frame va \<Longrightarrow> page_maps (vmm k) d v f \<Longrightarrow> page_maps (vmm k') d v f"
    "keeps_frames k k'" "only_memory k k'"
proof -
  obtain n where n: "frame = frame_addr n" "n \<in> free_frames (pg_frames (vmm k))" "spaces pg1 D" "user_tables pg1 d"
    "page_maps pg1 d (entry_frame va) n"
    "\<And>v f. v \<noteq> entry_frame va \<Longrightarrow> page_maps (vmm k) d v f \<Longrightarrow> page_maps pg1 d v f"
    "free_frames (pg_frames pg1) \<subseteq> free_frames (pg_frames (vmm k)) - {n}"
    "kernel_pd pg1 = kernel_pd (vmm k)" "pg_cr3 pg1 = pg_cr3 (vmm k)"
    by (rule map_new_page_maps [OF sp d u low r]) (rule that; assumption)
  have n20: "n < 1048576" using n(5) by (simp add: page_maps_def)
  have vm: "vmm k' = pg1" by (simp add: k' store_page_def)
  have kb: "kbytes k' (PHYS_TO_VIRT (frame_addr f OR (vb AND 0xFFF))) =
      (if f = n then bs ! unat (vb AND 0xFFF) else kbytes k (PHYS_TO_VIRT (frame_addr f OR (vb AND 0xFFF))))"
    if "f < 1048576" for f vb
    using frame_store [OF n20 that len] by (simp add: k' store_page_def n(1))
  have ub: "ubytes k' (PHYS_TO_VIRT (frame_addr d)) vb =
      (if entry_frame vb = entry_frame va then bs ! unat (vb AND 0xFFF) else ubytes k (PHYS_TO_VIRT (frame_addr d)) vb)" for vb
    using page_store [OF len] by (simp add: k' store_page_def)
  show "spaces (vmm k') D" "user_tables (vmm k') d" using n(3,4) by (simp_all add: vm)
  show "page_at k' d (entry_frame va) bs"
    unfolding page_at_def using n(5) n20 by (intro exI [of _ n]) (simp add: vm kb ub)
  show maps: "page_maps (vmm k') d v f" if "v \<noteq> entry_frame va" "page_maps (vmm k) d v f" for v f
    using n(6) that by (simp add: vm)
  show "page_at k' d v cs" if "v \<noteq> entry_frame va" "page_at k d v cs"
  proof -
    from that(2) obtain f where f: "page_maps (vmm k) d v f"
      "\<And>vb. entry_frame vb = v \<Longrightarrow> kbytes k (PHYS_TO_VIRT (frame_addr f OR (vb AND 0xFFF))) = cs ! unat (vb AND 0xFFF)"
      "\<And>vb. entry_frame vb = v \<Longrightarrow> ubytes k (PHYS_TO_VIRT (frame_addr d)) vb = cs ! unat (vb AND 0xFFF)"
      by (auto simp: page_at_def)
    have "f < 1048576" "f \<noteq> n" using f(1) n(2) by (auto simp: page_maps_def)
    then show ?thesis unfolding page_at_def using maps [OF that(1) f(1)] f(2,3) that(1)
      by (intro exI [of _ f]) (simp add: kb ub)
  qed
  show "keeps_frames k k'" using n(2,7) kb unfolding keeps_frames_def vm by auto
  show "only_memory k k'" using n(8,9) by (simp add: only_memory_def k' store_page_def)
qed

section \<open>One segment\<close>

lemma segment_page_length: "segment_page buf ph off = Inr bs \<Longrightarrow> length bs = 4096"
proof -
  have "unat (KMIN a 4096 :: u32) \<le> 4096" for a
    by (auto simp: KMIN_def word_less_nat_alt)
  then show "segment_page buf ph off = Inr bs \<Longrightarrow> length bs = 4096"
    by (auto simp: segment_page_def Let_def split: if_splits)
qed

lemma entry_frame_step:
  assumes "entry_frame a + j < 1048576"
  shows "entry_frame (a + of_nat j * 4096) = entry_frame a + j"
proof -
  have "unat a + j * 4096 < 4294967296"
    using assms by (simp add: entry_frame_def drop_bit_eq_div unat_div)
  then have "unat (a + of_nat (j * 4096)) = unat a + j * 4096" by (rule unat_add_nat)
  then show ?thesis by (simp add: entry_frame_def drop_bit_eq_div unat_div)
qed

lemma below_kernel: "entry_frame va < 0xC0000 \<longleftrightarrow> unat va < 0xC0000000"
  by (auto simp: entry_frame_def drop_bit_eq_div unat_div)

lemma load_pages_result:
  assumes "spaces (vmm k) D" "d \<in> D" "user_tables (vmm k) d" "entry_frame (elfph_p_vaddr ph) + j + n \<le> 0xC0000"
    and "load_pages buf ph (PHYS_TO_VIRT (frame_addr d)) j n k = Inr k'"
  shows "spaces (vmm k') D \<and> user_tables (vmm k') d \<and> keeps_frames k k' \<and> only_memory k k' \<and>
    (\<forall>i. j \<le> i \<and> i < j + n \<longrightarrow> (\<exists>bs. segment_page buf ph (of_nat i * 4096) = Inr bs \<and>
        page_at k' d (entry_frame (elfph_p_vaddr ph) + i) bs)) \<and>
    (\<forall>v cs. v < entry_frame (elfph_p_vaddr ph) + j \<or> entry_frame (elfph_p_vaddr ph) + j + n \<le> v \<longrightarrow>
        (page_at k d v cs \<longrightarrow> page_at k' d v cs) \<and> (\<forall>f. page_maps (vmm k) d v f \<longrightarrow> page_maps (vmm k') d v f))"
  using assms
proof (induction n arbitrary: j k)
  case 0
  then show ?case by auto
next
  case (Suc n)
  let ?va = "elfph_p_vaddr ph + of_nat j * 4096" and ?ef = "entry_frame (elfph_p_vaddr ph)"
  from Suc.prems(5) obtain frame pg1 bs where
    m: "map_new_page (vmm k) (PHYS_TO_VIRT (frame_addr d)) ?va = Inr (frame, pg1)"
    and b: "segment_page buf ph (of_nat j * 4096) = Inr bs"
    and l: "load_pages buf ph (PHYS_TO_VIRT (frame_addr d)) (j + 1) n
      (store_page (PHYS_TO_VIRT (frame_addr d)) frame ?va bs (k\<lparr>vmm := pg1\<rparr>)) = Inr k'"
    by (auto simp: and_then_Inr)
  let ?k1 = "store_page (PHYS_TO_VIRT (frame_addr d)) frame ?va bs (k\<lparr>vmm := pg1\<rparr>)"
  have ef: "entry_frame ?va = ?ef + j" using Suc.prems(4) by (intro entry_frame_step) simp
  have low: "unat ?va < 0xC0000000" using Suc.prems(4) ef below_kernel [of ?va] by simp
  note one = load_page_result [OF Suc.prems(1,2,3) low m segment_page_length [OF b] refl]
  have ih: "spaces (vmm k') D" "user_tables (vmm k') d" "keeps_frames ?k1 k'" "only_memory ?k1 k'"
    "\<And>i. j + 1 \<le> i \<Longrightarrow> i < j + 1 + n \<Longrightarrow> \<exists>bs. segment_page buf ph (of_nat i * 4096) = Inr bs \<and> page_at k' d (?ef + i) bs"
    "\<And>v cs. v < ?ef + (j + 1) \<or> ?ef + (j + 1) + n \<le> v \<Longrightarrow> page_at ?k1 d v cs \<Longrightarrow> page_at k' d v cs"
    "\<And>v f. v < ?ef + (j + 1) \<or> ?ef + (j + 1) + n \<le> v \<Longrightarrow> page_maps (vmm ?k1) d v f \<Longrightarrow> page_maps (vmm k') d v f"
    using Suc.IH [OF one(1) Suc.prems(2) one(2) _ l] Suc.prems(4) by auto
  have first: "page_at k' d (?ef + j) bs" using ih(6) [of "?ef + j" bs] one(3) by (simp add: ef)
  have "\<exists>bs. segment_page buf ph (of_nat i * 4096) = Inr bs \<and> page_at k' d (?ef + i) bs"
    if "j \<le> i \<and> i < j + Suc n" for i
    using that first b ih(5) [of i] by (cases "i = j") auto
  moreover have "(page_at k d v cs \<longrightarrow> page_at k' d v cs) \<and> (\<forall>f. page_maps (vmm k) d v f \<longrightarrow> page_maps (vmm k') d v f)"
    if "v < ?ef + j \<or> ?ef + j + Suc n \<le> v" for v cs
    using that ih(6) [of v cs] ih(7) [of v] one(4) [of v cs] one(5) [of v] by (auto simp: ef)
  ultimately show ?case
    using ih(1,2) keeps_frames_trans [OF one(6) ih(3)] only_memory_trans [OF one(7) ih(4)] by blast
qed

section \<open>All segments\<close>

text \<open>The loadable segments that a file names, and where they end.\<close>

definition program_header_at :: "u8 list \<Rightarrow> elf_header \<Rightarrow> nat \<Rightarrow> elf_program_header" where
  "program_header_at buf eh i = decode_program_header buf
     (unat (elf_program_header_table_offset eh + of_nat i * ucast (elf_program_header_table_entry_size eh)))"

definition loads :: "u8 list \<Rightarrow> elf_header \<Rightarrow> nat \<Rightarrow> nat \<Rightarrow> elf_program_header list" where
  "loads buf eh i n = filter (\<lambda>ph. elfph_segtype ph = ELFPH_SEGTYPE_LOAD) (map (program_header_at buf eh) [i..<i + n])"

lemma loads_Suc:
  "loads buf eh i (Suc n) = (if elfph_segtype (program_header_at buf eh i) = ELFPH_SEGTYPE_LOAD
     then [program_header_at buf eh i] else []) @ loads buf eh (i + 1) n"
  by (simp add: loads_def upt_conv_Cons del: upt_Suc)

definition segment_range :: "elf_program_header \<Rightarrow> nat set" where
  "segment_range ph = {entry_frame (elfph_p_vaddr ph)..<entry_frame (elfph_p_vaddr ph) + segment_pages ph}"

fun separate :: "elf_program_header list \<Rightarrow> bool" where
  "separate [] \<longleftrightarrow> True"
| "separate (ph # phs) \<longleftrightarrow> (\<forall>q\<in>set phs. segment_range ph \<inter> segment_range q = {}) \<and> separate phs"

definition segment_loaded :: "u8 list \<Rightarrow> elf_program_header \<Rightarrow> kstate \<Rightarrow> nat \<Rightarrow> bool" where
  "segment_loaded buf ph k d \<longleftrightarrow> (\<forall>i < segment_pages ph. \<exists>bs. segment_page buf ph (of_nat i * 4096) = Inr bs \<and>
     page_at k d (entry_frame (elfph_p_vaddr ph) + i) bs)"

lemma load_segments_steps:
  assumes "load_segments buf eh pd i (Suc n) e k = Inr r"
  shows "if elfph_segtype (program_header_at buf eh i) = ELFPH_SEGTYPE_LOAD
     then \<exists>k1. load_pages buf (program_header_at buf eh i) pd 0 (segment_pages (program_header_at buf eh i)) k = Inr k1 \<and>
       load_segments buf eh pd (i + 1) n
         (KMAX (elfph_p_vaddr (program_header_at buf eh i) + elfph_p_memsz (program_header_at buf eh i)) e) k1 = Inr r
     else load_segments buf eh pd (i + 1) n e k = Inr r"
  using assms unfolding load_segments.simps Let_def program_header_at_def [symmetric]
  by (simp only: and_then_Inr split: if_splits) simp_all

lemma load_segments_result:
  assumes "spaces (vmm k) D" "d \<in> D" "user_tables (vmm k) d"
    and "separate (loads buf eh i n)" "\<forall>ph\<in>set (loads buf eh i n). segment_range ph \<subseteq> {..<0xC0000}"
    and "load_segments buf eh (PHYS_TO_VIRT (frame_addr d)) i n e k = Inr (image_end, k')"
  shows "spaces (vmm k') D \<and> user_tables (vmm k') d \<and> keeps_frames k k' \<and> only_memory k k' \<and>
    (\<forall>ph\<in>set (loads buf eh i n). segment_loaded buf ph k' d) \<and>
    image_end = foldl (\<lambda>e ph. KMAX (elfph_p_vaddr ph + elfph_p_memsz ph) e) e (loads buf eh i n) \<and>
    (\<forall>v. v \<notin> \<Union> (segment_range ` set (loads buf eh i n)) \<longrightarrow>
        (\<forall>cs. page_at k d v cs \<longrightarrow> page_at k' d v cs) \<and> (\<forall>f. page_maps (vmm k) d v f \<longrightarrow> page_maps (vmm k') d v f))"
  using assms
proof (induction n arbitrary: i e k)
  case 0
  then show ?case by (simp add: loads_def)
next
  case (Suc n)
  let ?ph = "program_header_at buf eh i" and ?rest = "loads buf eh (i + 1) n"
  let ?ef = "entry_frame (elfph_p_vaddr ?ph)" and ?m = "segment_pages ?ph"
  show ?case
  proof (cases "elfph_segtype ?ph = ELFPH_SEGTYPE_LOAD")
    case False
    then have l: "loads buf eh i (Suc n) = ?rest" by (simp add: loads_Suc)
    have more: "load_segments buf eh (PHYS_TO_VIRT (frame_addr d)) (i + 1) n e k = Inr (image_end, k')"
      using load_segments_steps [OF Suc.prems(6)] False by (simp only: if_False)
    have "separate ?rest" "\<forall>ph\<in>set ?rest. segment_range ph \<subseteq> {..<0xC0000}" using Suc.prems(4,5) unfolding l by simp_all
    then show ?thesis unfolding l by (rule Suc.IH [OF Suc.prems(1-3) _ _ more])
  next
    case True
    then have l: "loads buf eh i (Suc n) = ?ph # ?rest" by (simp add: loads_Suc)
    obtain k1 where k1: "load_pages buf ?ph (PHYS_TO_VIRT (frame_addr d)) 0 ?m k = Inr k1"
      and more: "load_segments buf eh (PHYS_TO_VIRT (frame_addr d)) (i + 1) n
        (KMAX (elfph_p_vaddr ?ph + elfph_p_memsz ?ph) e) k1 = Inr (image_end, k')"
      using load_segments_steps [OF Suc.prems(6)] unfolding if_P [OF True] by blast
    have fits: "?ef + 0 + ?m \<le> 0xC0000 \<or> ?m = 0"
    proof (cases "?m = 0")
      case False
      then have "?ef + ?m - 1 \<in> segment_range ?ph" by (auto simp: segment_range_def)
      then have "?ef + ?m - 1 < 0xC0000" using Suc.prems(5) unfolding l by auto
      then show ?thesis by linarith
    qed simp
    have one: "spaces (vmm k1) D \<and> user_tables (vmm k1) d \<and> keeps_frames k k1 \<and> only_memory k k1 \<and>
        segment_loaded buf ?ph k1 d \<and>
        (\<forall>v. v \<notin> segment_range ?ph \<longrightarrow> (\<forall>cs. page_at k d v cs \<longrightarrow> page_at k1 d v cs) \<and>
           (\<forall>f. page_maps (vmm k) d v f \<longrightarrow> page_maps (vmm k1) d v f))"
    proof (cases "?m = 0")
      case True
      then show ?thesis using k1 Suc.prems(1-3) by (simp add: segment_loaded_def)
    next
      case False
      then have "?ef + 0 + ?m \<le> 0xC0000" using fits by linarith
      from load_pages_result [OF Suc.prems(1-3) this k1] show ?thesis
        by (auto simp: segment_loaded_def segment_range_def not_less not_le)
    qed
    have sep: "separate ?rest" "\<forall>ph\<in>set ?rest. segment_range ph \<subseteq> {..<0xC0000}"
      "\<forall>q\<in>set ?rest. segment_range ?ph \<inter> segment_range q = {}"
      using Suc.prems(4,5) unfolding l by auto
    note ih0 = Suc.IH [OF conjunct1 [OF one] Suc.prems(2) conjunct1 [OF conjunct2 [OF one]] sep(1,2) more]
    have ih: "spaces (vmm k') D" "user_tables (vmm k') d" "keeps_frames k1 k'" "only_memory k1 k'"
      "\<forall>ph\<in>set ?rest. segment_loaded buf ph k' d"
      "image_end = foldl (\<lambda>e ph. KMAX (elfph_p_vaddr ph + elfph_p_memsz ph) e)
         (KMAX (elfph_p_vaddr ?ph + elfph_p_memsz ?ph) e) ?rest"
      "\<And>v cs f. v \<notin> \<Union> (segment_range ` set ?rest) \<Longrightarrow> (page_at k1 d v cs \<longrightarrow> page_at k' d v cs) \<and>
         (page_maps (vmm k1) d v f \<longrightarrow> page_maps (vmm k') d v f)"
      using ih0 by (simp_all only: simp_thms) blast+
    have out: "?ef + j \<notin> \<Union> (segment_range ` set ?rest)" if "j < ?m" for j
    proof -
      have "?ef + j \<in> segment_range ?ph" using that by (simp add: segment_range_def)
      then show ?thesis using sep(3) by blast
    qed
    have "segment_loaded buf ?ph k' d"
      unfolding segment_loaded_def
    proof (intro allI impI)
      fix j assume j: "j < ?m"
      then obtain bs where "segment_page buf ?ph (of_nat j * 4096) = Inr bs" "page_at k1 d (?ef + j) bs"
        using one by (auto simp: segment_loaded_def)
      then show "\<exists>bs. segment_page buf ?ph (of_nat j * 4096) = Inr bs \<and> page_at k' d (?ef + j) bs"
        using ih(7) [OF out [OF j]] by blast
    qed
    moreover have "(\<forall>cs. page_at k d v cs \<longrightarrow> page_at k' d v cs) \<and> (\<forall>f. page_maps (vmm k) d v f \<longrightarrow> page_maps (vmm k') d v f)"
      if "v \<notin> \<Union> (segment_range ` set (?ph # ?rest))" for v
    proof -
      have v: "v \<notin> segment_range ?ph" "v \<notin> \<Union> (segment_range ` set ?rest)" using that by simp_all
      have "(\<forall>cs. page_at k d v cs \<longrightarrow> page_at k1 d v cs) \<and> (\<forall>f. page_maps (vmm k) d v f \<longrightarrow> page_maps (vmm k1) d v f)"
        using one v(1) by simp
      then show ?thesis using ih(7) [OF v(2)] by simp
    qed
    ultimately show ?thesis
      unfolding l using ih(1,2,5,6) keeps_frames_trans [OF _ ih(3)] only_memory_trans [OF _ ih(4)] one by simp
  qed
qed

text \<open>Byte for byte.\<close>

lemma segment_page_byte:
  assumes "segment_page buf ph (of_nat i * 4096) = Inr bs" "i * 4096 + 4096 \<le> 4294967296"
    and "unat (elfph_p_offset ph) + unat (elfph_p_filesz ph) < 4294967296" "x < 4096"
  shows "bs ! x = (if i * 4096 + x < unat (elfph_p_filesz ph) then buf ! (unat (elfph_p_offset ph) + (i * 4096 + x)) else 0)"
proof -
  let ?fs = "elfph_p_filesz ph"
  have u: "unat (of_nat i * 4096 :: u32) = i * 4096"
  proof -
    have "unat (of_nat (i * 4096) :: u32) = i * 4096" by (rule unat_of_nat_small) (use assms(2) in linarith)
    then show ?thesis by simp
  qed
  show ?thesis
  proof (cases "unat ?fs \<le> i * 4096")
    case True
    then have "bs = replicate 4096 0"
      using assms(1) u by (simp add: segment_page_def word_le_nat_alt)
    then show ?thesis using True assms(4) by simp
  next
    case False
    then have diff: "unat (?fs - of_nat i * 4096) = unat ?fs - i * 4096"
      using u by (subst unat_sub) (simp_all add: word_le_nat_alt)
    define c where "c = unat (KMIN (?fs - of_nat i * 4096) 4096)"
    have c: "c = min (unat ?fs - i * 4096) 4096"
      unfolding c_def KMIN_def word_less_nat_alt diff by (auto simp: min_def diff)
    have src: "unat (elfph_p_offset ph + of_nat i * 4096) = unat (elfph_p_offset ph) + i * 4096"
      using assms(3) False u by (subst unat_add_small) simp_all
    have bs: "bs = take c (drop (unat (elfph_p_offset ph) + i * 4096) buf) @ replicate (4096 - c) 0"
      "unat (elfph_p_offset ph) + i * 4096 + c \<le> length buf"
      using assms(1) False u src by (auto simp: segment_page_def c_def Let_def word_le_nat_alt split: if_splits)
    show ?thesis
    proof (cases "x < c")
      case True
      then have "i * 4096 + x < unat ?fs" using c by linarith
      then show ?thesis using True bs by (simp add: nth_append add.assoc)
    next
      case False
      have "\<not> i * 4096 + x < unat ?fs" using False c assms(4) by linarith
      then show ?thesis using False bs assms(4) by (simp add: nth_append)
    qed
  qed
qed

section \<open>The new process\<close>

lemma map_stack_pages:
  "map_stack pg pd i (Suc n) = and_then (map_new_page pg pd (PROC_USER_STACK_TOP_VADDR - (i + 1) * 4096))
     (\<lambda>(frame, pg1). map_stack pg1 pd (i + 1) n)"
  by (auto simp: map_new_page_def and_then_def split: sum.splits)

lemma stack_page:
  assumes "unat i < 4"
  shows "entry_frame (PROC_USER_STACK_TOP_VADDR - (i + 1) * 4096) = 0x7FFF - unat i"
    and "unat (PROC_USER_STACK_TOP_VADDR - (i + 1) * 4096) < 0xC0000000"
proof -
  have "unat i = 0 \<or> unat i = 1 \<or> unat i = 2 \<or> unat i = 3" using assms by arith
  then consider "i = 0" | "i = 1" | "i = 2" | "i = 3" by (auto simp: word_unat_eq_iff)
  then have "entry_frame (PROC_USER_STACK_TOP_VADDR - (i + 1) * 4096) = 0x7FFF - unat i \<and>
      unat (PROC_USER_STACK_TOP_VADDR - (i + 1) * 4096) < 0xC0000000"
    by cases (simp_all add: PROC_USER_STACK_TOP_VADDR_def entry_frame_def drop_bit_eq_div)
  then show "entry_frame (PROC_USER_STACK_TOP_VADDR - (i + 1) * 4096) = 0x7FFF - unat i"
    "unat (PROC_USER_STACK_TOP_VADDR - (i + 1) * 4096) < 0xC0000000" by blast+
qed

lemma map_stack_result:
  assumes "spaces pg D" "d \<in> D" "user_tables pg d" "unat i + n \<le> 4"
    and "map_stack pg (PHYS_TO_VIRT (frame_addr d)) i n = Inr pg'"
  shows "spaces pg' D \<and> user_tables pg' d \<and> free_frames (pg_frames pg') \<subseteq> free_frames (pg_frames pg) \<and>
    kernel_pd pg' = kernel_pd pg \<and> pg_cr3 pg' = pg_cr3 pg \<and>
    (\<forall>v f. v \<ge> 0x8000 - unat i \<longrightarrow> page_maps pg d v f \<longrightarrow> page_maps pg' d v f) \<and>
    (\<forall>v. 0x8000 - (unat i + n) \<le> v \<and> v < 0x8000 - unat i \<longrightarrow> (\<exists>f. page_maps pg' d v f))"
  using assms
proof (induction n arbitrary: i pg)
  case 0
  then show ?case by auto
next
  case (Suc n)
  let ?va = "PROC_USER_STACK_TOP_VADDR - (i + 1) * 4096"
  from Suc.prems(5) obtain frame pg1 where m: "map_new_page pg (PHYS_TO_VIRT (frame_addr d)) ?va = Inr (frame, pg1)"
    and more: "map_stack pg1 (PHYS_TO_VIRT (frame_addr d)) (i + 1) n = Inr pg'"
    unfolding map_stack_pages by (auto simp: and_then_Inr)
  have i: "unat i < 4" using Suc.prems(4) by simp
  obtain f where f: "spaces pg1 D" "user_tables pg1 d" "page_maps pg1 d (entry_frame ?va) f"
    "\<And>v f. v \<noteq> entry_frame ?va \<Longrightarrow> page_maps pg d v f \<Longrightarrow> page_maps pg1 d v f"
    "free_frames (pg_frames pg1) \<subseteq> free_frames (pg_frames pg) - {f}"
    "kernel_pd pg1 = kernel_pd pg" "pg_cr3 pg1 = pg_cr3 pg"
    by (rule map_new_page_maps [OF Suc.prems(1-3) stack_page(2) [OF i] m]) (rule that; assumption)
  have ui: "unat (i + 1) = unat i + 1" using i unat_add_small [of i 1] by simp
  have "unat (i + 1) + n \<le> 4" using Suc.prems(4) ui by simp
  note ih = Suc.IH [OF f(1) Suc.prems(2) f(2) this more, unfolded ui]
  have v0: "page_maps pg' d (0x7FFF - unat i) f" using ih f(3) i unfolding stack_page(1) [OF i] by simp
  have "\<exists>f. page_maps pg' d v f" if "0x8000 - (unat i + Suc n) \<le> v \<and> v < 0x8000 - unat i" for v
    using v0 ih that by (cases "v = 0x7FFF - unat i") auto
  moreover have "page_maps pg' d v g" if "v \<ge> 0x8000 - unat i" "page_maps pg d v g" for v g
    using ih that i f(4) [of v g] unfolding stack_page(1) [OF i] by simp
  ultimately show ?case using ih f(5,6,7) by auto
qed

lemma saved_entry: "ld32 (store_words m ks (regs_words (user_ctx entry))) (ks + 32) = entry"
  by (simp add: regs_words_def user_ctx_def zero_regs_def ld32_def st32_def add.assoc)

lemma proc_create_result:
  assumes sp: "spaces (vmm k) D" and kd: "kd \<in> D" "kernel_pd (vmm k) = PHYS_TO_VIRT (frame_addr kd)"
    and r: "proc_create p entry k = Inr k1"
  obtains pr d s where "d \<notin> D" "lookup k1 p = Inr pr" "proc_pd pr = PHYS_TO_VIRT (frame_addr d)"
    "proc_id pr = pid_counter k" "spaces (vmm k1) (insert d D)" "user_tables (vmm k1) d"
    "\<And>v. 0x7FFC \<le> v \<Longrightarrow> v < 0x8000 \<Longrightarrow> \<exists>f. page_maps (vmm k1) d v f"
    "s < 1048576" "s \<notin> free_frames (pg_frames (vmm k1))"
    "kernel_stack pr = PHYS_TO_VIRT (frame_addr s) + 4096 - REGS_SIZE"
    "ld32 (kbytes k1) (kernel_stack pr + 32) = entry"
    "procs k1 = procs k" "sched_initialized k1 = sched_initialized k"
proof -
  from r obtain pd pg1 ks_phys fr pg2 where c: "paging_create_pd (vmm k) = Inr (pd, pg1)"
    and a: "fa_alloc (pg_frames pg1) = Inr (ks_phys, fr)"
    and m: "map_stack (pg1\<lparr>pg_frames := fr\<rparr>) pd 0 4 = Inr pg2"
    and k1: "vmm k1 = pg2" "procs k1 = procs k" "sched_initialized k1 = sched_initialized k"
      "kbytes k1 = store_words (kbytes k) (PHYS_TO_VIRT ks_phys + 4096 - REGS_SIZE) (regs_words (user_ctx entry))"
      "\<exists>pr. ptab k1 p = Some pr \<and> proc_id pr = pid_counter k \<and> proc_pd pr = pd \<and>
         kernel_stack pr = PHYS_TO_VIRT ks_phys + 4096 - REGS_SIZE"
    unfolding proc_create_def Let_def by (auto simp del: map_stack.simps split: if_splits sum.splits)
  obtain d where d: "d \<notin> D" "pd = PHYS_TO_VIRT (frame_addr d)" "spaces pg1 (insert d D)"
    using paging_create_pd_result [OF sp kd c] by blast
  have u: "user_tables pg1 d"
  proof -
    obtain d' where d': "d' < 1048576" "pd = PHYS_TO_VIRT (frame_addr d')"
      "\<And>t j. t < 1048576 \<Longrightarrow> j < 1024 \<Longrightarrow> pg_mem pg1 (slot t j) =
         (if t = d' then if j < 768 then 0 else pg_mem (vmm k) (slot kd j) else pg_mem (vmm k) (slot t j))"
      using paging_create_pd_slots [OF sp kd c] by metis
    have "d < 1048576" using spacesD(3) [OF d(3)] by blast
    moreover have "frame_addr d = frame_addr d'" using d(2) d'(2) by (simp add: PHYS_TO_VIRT_def)
    ultimately have "d' = d" using d'(1) frame_addr_entry_frame by metis
    then show ?thesis using d'(1,3) by (simp add: user_tables_def)
  qed
  obtain s where s: "s \<in> free_frames (pg_frames pg1)" "ks_phys = frame_addr s" "s < 1048576"
    "free_frames fr = free_frames (pg_frames pg1) - {s}" and sp2: "spaces (pg1\<lparr>pg_frames := fr\<rparr>) (insert d D)"
    using spaces_take_frame [OF d(3) a] .
  have u2: "user_tables (pg1\<lparr>pg_frames := fr\<rparr>) d" using u by (simp add: user_tables_def)
  note st = map_stack_result [OF sp2 insertI1 u2 _ m [unfolded d(2)], simplified]
  from k1(5) obtain pr where pr: "ptab k1 p = Some pr" "proc_id pr = pid_counter k" "proc_pd pr = pd"
    "kernel_stack pr = PHYS_TO_VIRT ks_phys + 4096 - REGS_SIZE" by blast
  show ?thesis
  proof (rule that [of d pr s])
    show "lookup k1 p = Inr pr" using pr(1) by (simp add: lookup_def)
    show "s \<notin> free_frames (pg_frames (vmm k1))" using st s(4) unfolding k1(1) by auto
    show "ld32 (kbytes k1) (kernel_stack pr + 32) = entry" unfolding k1(4) pr(4) by (rule saved_entry)
  qed (use d pr s k1(1,2,3) st in auto)
qed

section \<open>The loader\<close>

definition image_segments :: "u8 list \<Rightarrow> elf_program_header list" where
  "image_segments buf = (let eh = decode_elf_header buf
     in loads buf eh 0 (unat (elf_program_header_table_entry_count eh)))"

text \<open>
  A well-formed program: its segments are on pages of their own, below the user stack, and the part in
  the file does not run over the 32-bit range.
\<close>

definition good_image :: "u8 list \<Rightarrow> bool" where
  "good_image buf \<longleftrightarrow> separate (image_segments buf) \<and>
     (\<forall>ph\<in>set (image_segments buf). segment_range ph \<subseteq> {..<0x7FFC} \<and>
        unat (elfph_p_offset ph) + unat (elfph_p_filesz ph) < 4294967296)"

text \<open>Byte \<open>x\<close> of a segment, and byte \<open>x\<close> of the pages it is loaded to.\<close>

definition segment_byte :: "u8 list \<Rightarrow> elf_program_header \<Rightarrow> nat \<Rightarrow> u8" where
  "segment_byte buf ph x = (if x < unat (elfph_p_filesz ph) then buf ! (unat (elfph_p_offset ph) + x) else 0)"

definition page_byte_addr :: "elf_program_header \<Rightarrow> nat \<Rightarrow> u32" where
  "page_byte_addr ph x = (elfph_p_vaddr ph AND 0xFFFFF000) + of_nat x"

lemma page_byte_split:
  assumes "entry_frame (elfph_p_vaddr ph) + x div 4096 < 1048576"
  shows "entry_frame (page_byte_addr ph x) = entry_frame (elfph_p_vaddr ph) + x div 4096"
    and "unat (page_byte_addr ph x AND 0xFFF) = x mod 4096"
proof -
  let ?n = "entry_frame (elfph_p_vaddr ph)"
  have x: "x = x div 4096 * 4096 + x mod 4096" by simp
  have "(?n + x div 4096) * 4096 + x mod 4096 < 4294967296" using assms by simp
  then have lt: "?n * 4096 + x < 4294967296" using x by (simp add: algebra_simps)
  have "page_byte_addr ph x = of_nat (?n * 4096 + x)"
    unfolding page_byte_addr_def entry_base by (simp add: frame_addr_def)
  then have u: "unat (page_byte_addr ph x) = ?n * 4096 + x" using lt by (simp only: unat_of_nat_small)
  show "entry_frame (page_byte_addr ph x) = ?n + x div 4096"
    by (simp add: entry_frame_def drop_bit_eq_div unat_div u)
  have "unat (take_bit 12 (page_byte_addr ph x)) = x mod 4096"
    by (simp add: unsigned_take_bit_eq u) (simp add: take_bit_eq_mod)
  then show "unat (page_byte_addr ph x AND 0xFFF) = x mod 4096"
    by (simp only: page_offset_mask take_bit_eq_mask)
qed

lemma segment_loaded_byte:
  assumes "segment_loaded buf ph k d" "segment_range ph \<subseteq> {..<0x7FFC}" "x < segment_pages ph * 4096"
    and "unat (elfph_p_offset ph) + unat (elfph_p_filesz ph) < 4294967296"
  shows "\<exists>pa. translate (pg_mem (vmm k)) (frame_addr d) (page_byte_addr ph x) = Some (pa, True) \<and>
    kbytes k (PHYS_TO_VIRT pa) = segment_byte buf ph x \<and>
    ubytes k (PHYS_TO_VIRT (frame_addr d)) (page_byte_addr ph x) = segment_byte buf ph x"
proof -
  let ?i = "x div 4096" and ?n = "entry_frame (elfph_p_vaddr ph)"
  have i: "?i < segment_pages ph" using assms(3) by (simp add: less_mult_imp_div_less)
  then have "?n + ?i \<in> segment_range ph" by (simp add: segment_range_def)
  then have b: "?n + ?i < 0x7FFC" using assms(2) by blast
  then have b20: "?n + ?i < 1048576" by simp
  note sp = page_byte_split [OF b20]
  from assms(1) i obtain bs where bs: "segment_page buf ph (of_nat ?i * 4096) = Inr bs" "page_at k d (?n + ?i) bs"
    by (auto simp: segment_loaded_def)
  have small: "?i * 4096 + 4096 \<le> 4294967296" using b by simp
  have byte: "bs ! (x mod 4096) = segment_byte buf ph x"
    using segment_page_byte [OF bs(1) small assms(4), of "x mod 4096"] by (simp add: segment_byte_def)
  from bs(2) obtain f where "page_maps (vmm k) d (?n + ?i) f"
    "\<And>va. entry_frame va = ?n + ?i \<Longrightarrow> kbytes k (PHYS_TO_VIRT (frame_addr f OR (va AND 0xFFF))) = bs ! unat (va AND 0xFFF)"
    "\<And>va. entry_frame va = ?n + ?i \<Longrightarrow> ubytes k (PHYS_TO_VIRT (frame_addr d)) va = bs ! unat (va AND 0xFFF)"
    by (auto simp: page_at_def)
  then show ?thesis using sp byte
    by (intro exI [of _ "frame_addr f OR (page_byte_addr ph x AND 0xFFF)"]) (simp add: page_maps_def)
qed

lemma elf_load_steps:
  assumes "vfs_open driver path d = Inr (Some file, d1)" "vfs_read driver file (vn_size file) d1 = Inr (n, buf, d2)"
    and "length buf = unat (vn_size file)" "elf_magic (decode_elf_header buf) = ELF_MAGIC"
    and "elf_load driver fresh p path argv_addr envp_addr k d = Inr (r, k', d')"
  shows "\<exists>k1 pr image_end k2 args envs.
     proc_create p (elf_program_entry_offset (decode_elf_header buf)) k = Inr k1 \<and> lookup k1 p = Inr pr \<and>
     load_segments buf (decode_elf_header buf) (proc_pd pr) 0
       (unat (elf_program_header_table_entry_count (decode_elf_header buf))) 0 k1 = Inr (image_end, k2) \<and>
     copy_string_array (vread k2 (active_pd k2)) argv_addr = Inr args \<and>
     copy_string_array (vread k2 (active_pd k2)) envp_addr = Inr envs \<and>
     scheduler_add_proc p (update k2 p (pr\<lparr>program_break := (image_end + 0xFFF) AND 0xFFFFF000, mmap_next := 0x7000000,
        argv := args, env := envs, proc_state := STARTING\<rparr>)) = Inr k' \<and> r = proc_id pr"
  using assms(5) unfolding elf_load_def assms(1,2) and_then_simps prod.case option.case Let_def
  by (auto simp: assms(3,4) and_then_Inr split: if_splits)

text \<open>
  C20. A program whose segments lie on pages of their own below the user stack is loaded as its file
  says: the new process has an address space of its own in which every page of a segment holds the
  bytes of the file and then zeros, readable for user code, the four stack pages are mapped, the saved
  context starts at the entry point, and the process is at the end of the pool, STARTING, with its
  break behind the last segment. Byte \<open>x\<close> of a segment is \<open>x\<close> bytes behind the page that \<open>p_vaddr\<close> lies
  in, so a segment that does not start on a page is loaded too low.
\<close>

theorem elf_load_image:
  assumes "spaces (vmm k) D" and "kd \<in> D" and "kernel_pd (vmm k) = PHYS_TO_VIRT (frame_addr kd)"
    and "da_fit (procs k)" and "length (da_list (procs k)) < 268435456" and "p \<noteq> 0"
    and "vfs_open driver path d = Inr (Some file, d1)" and "vfs_read driver file (vn_size file) d1 = Inr (n, buf, d2)"
    and "length buf = unat (vn_size file)" and "elf_magic (decode_elf_header buf) = ELF_MAGIC" and "good_image buf"
    and "elf_load driver fresh p path argv_addr envp_addr k d = Inr (pid, k', d')"
  shows "\<exists>pr sd. lookup k' p = Inr pr \<and> pid = pid_counter k \<and> proc_id pr = pid \<and> proc_state pr = STARTING \<and>
     proc_pd pr = PHYS_TO_VIRT (frame_addr sd) \<and> sd \<notin> D \<and> spaces (vmm k') (insert sd D) \<and>
     ld32 (kbytes k') (kernel_stack pr + 32) = elf_program_entry_offset (decode_elf_header buf) \<and>
     da_list (procs k') = da_list (procs k) @ [p] \<and>
     program_break pr = (foldl (\<lambda>e ph. KMAX (elfph_p_vaddr ph + elfph_p_memsz ph) e) 0 (image_segments buf) + 0xFFF)
       AND 0xFFFFF000 \<and>
     (\<forall>v. 0x7FFC \<le> v \<and> v < 0x8000 \<longrightarrow> (\<exists>f. page_maps (vmm k') sd v f)) \<and>
     (\<forall>ph\<in>set (image_segments buf). \<forall>x < segment_pages ph * 4096. \<exists>pa.
        translate (pg_mem (vmm k')) (frame_addr sd) (page_byte_addr ph x) = Some (pa, True) \<and>
        kbytes k' (PHYS_TO_VIRT pa) = segment_byte buf ph x \<and>
        ubytes k' (PHYS_TO_VIRT (frame_addr sd)) (page_byte_addr ph x) = segment_byte buf ph x)"
proof -
  let ?eh = "decode_elf_header buf"
  from elf_load_steps [OF assms(7-10,12)] obtain k1 pr image_end k2 args envs where
    c: "proc_create p (elf_program_entry_offset ?eh) k = Inr k1" "lookup k1 p = Inr pr"
    and l: "load_segments buf ?eh (proc_pd pr) 0 (unat (elf_program_header_table_entry_count ?eh)) 0 k1 = Inr (image_end, k2)"
    and add: "scheduler_add_proc p (update k2 p (pr\<lparr>program_break := (image_end + 0xFFF) AND 0xFFFFF000,
        mmap_next := 0x7000000, argv := args, env := envs, proc_state := STARTING\<rparr>)) = Inr k'" and pid: "pid = proc_id pr"
    by blast
  obtain pr0 sd s where n: "sd \<notin> D" "lookup k1 p = Inr pr0" "proc_pd pr0 = PHYS_TO_VIRT (frame_addr sd)"
    "proc_id pr0 = pid_counter k" "spaces (vmm k1) (insert sd D)" "user_tables (vmm k1) sd"
    "\<And>v. 0x7FFC \<le> v \<Longrightarrow> v < 0x8000 \<Longrightarrow> \<exists>f. page_maps (vmm k1) sd v f"
    "s < 1048576" "s \<notin> free_frames (pg_frames (vmm k1))"
    "kernel_stack pr0 = PHYS_TO_VIRT (frame_addr s) + 4096 - REGS_SIZE"
    "ld32 (kbytes k1) (kernel_stack pr0 + 32) = elf_program_entry_offset ?eh"
    "procs k1 = procs k" "sched_initialized k1 = sched_initialized k"
    by (rule proc_create_result [OF assms(1-3) c(1)]) (rule that; assumption)
  have pr: "pr0 = pr" using n(2) c(2) by simp
  have good: "separate (image_segments buf)" "\<forall>ph\<in>set (image_segments buf). segment_range ph \<subseteq> {..<0x7FFC}"
    "\<forall>ph\<in>set (image_segments buf). unat (elfph_p_offset ph) + unat (elfph_p_filesz ph) < 4294967296"
    using assms(11) by (auto simp: good_image_def)
  have below: "\<forall>ph\<in>set (image_segments buf). segment_range ph \<subseteq> {..<0xC0000}" using good(2) by fastforce
  have seg: "loads buf ?eh 0 (unat (elf_program_header_table_entry_count ?eh)) = image_segments buf"
    by (simp add: image_segments_def Let_def)
  note ls = load_segments_result [OF n(5) insertI1 n(6) _ _ l [folded pr, unfolded n(3)], unfolded seg, OF good(1) below]
  let ?pr = "pr\<lparr>program_break := (image_end + 0xFFF) AND 0xFFFFF000, mmap_next := 0x7000000,
      argv := args, env := envs, proc_state := STARTING\<rparr>"
  have om: "only_memory k1 k2" and kf: "keeps_frames k1 k2" using ls by blast+
  have pc: "procs k2 = procs k" using only_memory_same(2) [OF om] n(12) by simp
  obtain da where da: "dynarray_add (procs k) p = Inr da" "da_list da = da_list (procs k) @ [p]"
    using da.add_elems [OF assms(4,5), of p] by blast
  have k': "k' = (update k2 p ?pr)\<lparr>procs := da\<rparr>"
    using add da(1) assms(6) pc by (auto simp: scheduler_add_proc_def update_def split: if_splits)
  have mem: "vmm k' = vmm k2" "kbytes k' = kbytes k2" "ubytes k' = ubytes k2" "da_list (procs k') = da_list (procs k) @ [p]"
    "lookup k' p = Inr ?pr"
    by (simp_all add: k' update_def da(2) lookup_def)
  have ks: "kernel_stack pr + 32 = PHYS_TO_VIRT (frame_addr s OR (4076 AND 0xFFF))"
    using n(10) unfolding pr frame_offset by (simp add: PHYS_TO_VIRT_def REGS_SIZE_def)
  have entry: "ld32 (kbytes k2) (kernel_stack pr + 32) = elf_program_entry_offset ?eh"
  proof -
    have "kbytes k2 b = kbytes k1 b" if "b \<in> touched (kernel_stack pr + 32)" for b
    proof -
      have "b = PHYS_TO_VIRT (frame_addr s OR (4076 AND 0xFFF)) \<or> b = PHYS_TO_VIRT (frame_addr s OR (4077 AND 0xFFF)) \<or>
          b = PHYS_TO_VIRT (frame_addr s OR (4078 AND 0xFFF)) \<or> b = PHYS_TO_VIRT (frame_addr s OR (4079 AND 0xFFF))"
        using that unfolding touched_def ks frame_offset by (auto simp: PHYS_TO_VIRT_def)
      then show ?thesis using kf n(8,9) unfolding keeps_frames_def by blast
    qed
    then show ?thesis using n(11) unfolding pr by (subst ld32_cong) simp_all
  qed
  have pg: "page_at k' sd v cs \<longleftrightarrow> page_at k2 sd v cs" for v cs by (simp add: page_at_def mem)
  have loaded: "segment_loaded buf ph k' sd" if "ph \<in> set (image_segments buf)" for ph
    using ls that by (auto simp: segment_loaded_def pg)
  have stack: "\<exists>f. page_maps (vmm k') sd v f" if "0x7FFC \<le> v" "v < 0x8000" for v
  proof -
    have "v \<notin> \<Union> (segment_range ` set (image_segments buf))" using good(2) that(1) by fastforce
    then show ?thesis using n(7) [OF that] ls unfolding mem(1) by blast
  qed
  have bytes: "\<exists>pa. translate (pg_mem (vmm k')) (frame_addr sd) (page_byte_addr ph x) = Some (pa, True) \<and>
        kbytes k' (PHYS_TO_VIRT pa) = segment_byte buf ph x \<and>
        ubytes k' (PHYS_TO_VIRT (frame_addr sd)) (page_byte_addr ph x) = segment_byte buf ph x"
    if "ph \<in> set (image_segments buf)" "x < segment_pages ph * 4096" for ph x
    using segment_loaded_byte [OF loaded [OF that(1)] _ that(2)] good(2,3) that(1) by blast
  have brk: "image_end = foldl (\<lambda>e ph. KMAX (elfph_p_vaddr ph + elfph_p_memsz ph) e) 0 (image_segments buf)"
    using ls by blast
  have sps: "spaces (vmm k') (insert sd D)" using ls unfolding mem(1) by blast
  show ?thesis
    by (rule exI [of _ ?pr], rule exI [of _ sd])
      (use n(1,3,4) pid pr brk entry mem(2,4,5) sps stack bytes in simp)
qed

section \<open>A small program\<close>

lemma map_stack_total:
  assumes "spaces pg D" "d \<in> D" "user_tables pg d" "unat i + n \<le> 4" "2 * n \<le> card (free_frames (pg_frames pg))"
  shows "\<exists>pg'. map_stack pg (PHYS_TO_VIRT (frame_addr d)) i n = Inr pg' \<and>
    card (free_frames (pg_frames pg)) \<le> card (free_frames (pg_frames pg')) + 2 * n"
  using assms
proof (induction n arbitrary: i pg)
  case (Suc n)
  let ?va = "PROC_USER_STACK_TOP_VADDR - (i + 1) * 4096"
  obtain frame pg1 where m: "map_new_page pg (PHYS_TO_VIRT (frame_addr d)) ?va = Inr (frame, pg1)"
    "card (free_frames (pg_frames pg)) \<le> card (free_frames (pg_frames pg1)) + 2"
    using map_new_page_total [OF Suc.prems(1,2)] Suc.prems(5) by fastforce
  have i: "unat i < 4" using Suc.prems(4) by simp
  obtain f where f: "spaces pg1 D" "user_tables pg1 d"
    by (rule map_new_page_maps [OF Suc.prems(1-3) stack_page(2) [OF i] m(1)])
  have "unat (i + 1) = unat i + 1" using i unat_add_small [of i 1] by simp
  then have "unat (i + 1) + n \<le> 4" using Suc.prems(4) by simp
  from Suc.IH [OF f(1) Suc.prems(2) f(2) this] m(2) Suc.prems(5) obtain pg' where
    "map_stack pg1 (PHYS_TO_VIRT (frame_addr d)) (i + 1) n = Inr pg'"
    "card (free_frames (pg_frames pg1)) \<le> card (free_frames (pg_frames pg')) + 2 * n" by auto
  then show ?case using m unfolding map_stack_pages by auto
qed simp

lemma proc_create_total:
  assumes sp: "spaces (vmm k) D" and kd: "kd \<in> D" "kernel_pd (vmm k) = PHYS_TO_VIRT (frame_addr kd)"
    and "10 \<le> card (free_frames (pg_frames (vmm k)))" "pid_counter k \<noteq> 0"
  shows "\<exists>k1. proc_create p entry k = Inr k1 \<and>
    card (free_frames (pg_frames (vmm k))) \<le> card (free_frames (pg_frames (vmm k1))) + 10"
proof -
  obtain pd_phys fr where a: "fa_alloc (pg_frames (vmm k)) = Inr (pd_phys, fr)"
    using fa_alloc_total [OF sp] assms(4) by fastforce
  have "\<exists>r. paging_create_pd (vmm k) = Inr r" using a spacesD(1) [OF sp] by (simp add: paging_create_pd_def Let_def)
  then obtain pd pg1 where c: "paging_create_pd (vmm k) = Inr (pd, pg1)" by auto
  obtain d0 where d0: "d0 < 1048576" "pd = PHYS_TO_VIRT (frame_addr d0)" "d0 \<in> free_frames (pg_frames (vmm k))"
    "free_frames (pg_frames pg1) = free_frames (pg_frames (vmm k)) - {d0}"
    "\<And>t j. t < 1048576 \<Longrightarrow> j < 1024 \<Longrightarrow> pg_mem pg1 (slot t j) =
         (if t = d0 then if j < 768 then 0 else pg_mem (vmm k) (slot kd j) else pg_mem (vmm k) (slot t j))"
    by (rule paging_create_pd_slots [OF sp kd c]) (rule that; assumption)
  have c1: "card (free_frames (pg_frames pg1)) = card (free_frames (pg_frames (vmm k))) - 1"
    using d0(3,4) free_frames_finite [OF spacesD(2) [OF sp]] by simp
  obtain d where d: "pd = PHYS_TO_VIRT (frame_addr d)" "spaces pg1 (insert d D)"
    using paging_create_pd_result [OF sp kd c] by blast
  have "frame_addr d = frame_addr d0" using d(1) d0(2) by (simp add: PHYS_TO_VIRT_def)
  then have "d = d0" using d0(1) spacesD(3) [OF d(2), of d] frame_addr_entry_frame by (metis insertI1)
  then have u: "user_tables pg1 d" using d0(1,5) by (simp add: user_tables_def)
  have "0 < card (free_frames (pg_frames pg1))" using c1 assms(4) by linarith
  from fa_alloc_total [OF d(2) this] obtain ks_phys fr2 where b: "fa_alloc (pg_frames pg1) = Inr (ks_phys, fr2)"
    "spaces (pg1\<lparr>pg_frames := fr2\<rparr>) (insert d D)" "card (free_frames fr2) = card (free_frames (pg_frames pg1)) - 1" by blast
  have u2: "user_tables (pg1\<lparr>pg_frames := fr2\<rparr>) d" using u by (simp add: user_tables_def)
  have "2 * 4 \<le> card (free_frames (pg_frames (pg1\<lparr>pg_frames := fr2\<rparr>)))" using b(3) c1 assms(4) by simp
  from map_stack_total [OF b(2) insertI1 u2 _ this, of 0] obtain pg2 where
    m: "map_stack (pg1\<lparr>pg_frames := fr2\<rparr>) pd 0 4 = Inr pg2" "card (free_frames fr2) \<le> card (free_frames (pg_frames pg2)) + 8"
    unfolding d(1) by auto
  show ?thesis unfolding proc_create_def using assms(5) c b(1,3) c1 m
    by (simp add: Let_def del: map_stack.simps)
qed

text \<open>An image with one segment of four bytes, on the page at \<open>0x08000\<close>.\<close>

definition demo_image :: "u8 list" where
  "demo_image = put32 ELF_MAGIC @ replicate 20 0 @ put32 0x8000 @ put32 52 @ replicate 10 0 @ put16 32 @ put16 1 @
     replicate 6 0 @ put32 1 @ put32 84 @ put32 0x8000 @ put32 0 @ put32 4 @ put32 4 @ put32 5 @ put32 4096 @
     [0xCD, 0x80, 0xEB, 0xFE]"

definition demo_file :: vfs_node where
  "demo_file = \<lparr>vn_name = [0x2F, 0x61], vn_size = 88, vn_is_dir = False, vn_fs_specific = 0, vnode_id = 12\<rparr>"

definition demo_driver :: "(unit, unit) vfs_driver" where
  "demo_driver = \<lparr>drv_open = (\<lambda>path d. Inr (Some demo_file, d)), drv_list = (\<lambda>node d. Inr (None, d)),
     drv_read = (\<lambda>node sz d. Inr (88, demo_image, d)), drv_write = (\<lambda>node buf d. Inr (0, d)), drv_close = (\<lambda>node d. Inr d)\<rparr>"

definition demo_segment :: elf_program_header where
  "demo_segment = \<lparr>elfph_segtype = 1, elfph_p_offset = 84, elfph_p_vaddr = 0x8000, elfph_p_paddr = 0,
     elfph_p_filesz = 4, elfph_p_memsz = 4, elfph_flags = 5, elfph_req_alignment = 4096\<rparr>"

lemma demo_image_header:
  "length demo_image = 88" "elf_magic (decode_elf_header demo_image) = ELF_MAGIC"
  "unat (elf_program_header_table_entry_count (decode_elf_header demo_image)) = 1"
  "program_header_at demo_image (decode_elf_header demo_image) 0 = demo_segment"
  "unat (elf_program_header_table_offset (decode_elf_header demo_image)) = 52"
  by code_simp+

lemma demo_image_segments: "image_segments demo_image = [demo_segment]"
  by (simp add: image_segments_def Let_def demo_image_header loads_def)
    (simp add: demo_segment_def ELFPH_SEGTYPE_LOAD_def)

lemma demo_image_good: "good_image demo_image"
proof -
  have "segment_range demo_segment = {8..<9}" by (simp add: segment_range_def demo_segment_def segment_pages_def entry_frame_def drop_bit_eq_div)
  then have "segment_range demo_segment \<subseteq> {..<0x7FFC}" by auto
  moreover have "unat (elfph_p_offset demo_segment) + unat (elfph_p_filesz demo_segment) < 4294967296"
    by (simp add: demo_segment_def)
  ultimately show ?thesis by (simp add: good_image_def demo_image_segments)
qed

lemma demo_page: "\<exists>bs. segment_page demo_image demo_segment 0 = Inr bs"
  by (simp add: segment_page_def demo_segment_def Let_def KMIN_def demo_image_header)

lemma demo_elf_load: "\<exists>r. elf_load (Some demo_driver) (\<lambda>i. 0) 0x100 [0x2F, 0x61] 0 0 demo_kernel () = Inr r"
proof -
  let ?eh = "decode_elf_header demo_image"
  obtain k1 where k1: "proc_create 0x100 (elf_program_entry_offset ?eh) demo_kernel = Inr k1"
    "card (free_frames (pg_frames (vmm demo_kernel))) \<le> card (free_frames (pg_frames (vmm k1))) + 10"
    using proc_create_total [OF demo_kernel_spaces(1) _ demo_kernel_spaces(2), of "0x100" "elf_program_entry_offset ?eh"] demo_kernel_spaces(3)
    by (auto simp: demo_kernel_def)
  obtain pr sd where n: "lookup k1 0x100 = Inr pr" "proc_pd pr = PHYS_TO_VIRT (frame_addr sd)"
    "spaces (vmm k1) (insert sd {1})" "procs k1 = procs demo_kernel" "sched_initialized k1 = sched_initialized demo_kernel"
    by (rule proc_create_result [OF demo_kernel_spaces(1) _ demo_kernel_spaces(2) k1(1)]) (use that in auto)
  obtain frame pg1 where m: "map_new_page (vmm k1) (proc_pd pr) 0x8000 = Inr (frame, pg1)"
    using map_new_page_total [OF n(3) insertI1, of "0x8000"] k1(2) demo_kernel_spaces(3) unfolding n(2) by auto
  obtain bs where b: "segment_page demo_image demo_segment 0 = Inr bs" using demo_page by blast
  have seg: "elfph_segtype demo_segment = ELFPH_SEGTYPE_LOAD" "elfph_p_vaddr demo_segment = 0x8000"
    "segment_pages demo_segment = 1"
    by (simp_all add: demo_segment_def ELFPH_SEGTYPE_LOAD_def segment_pages_def drop_bit_eq_div)
  have ph: "decode_program_header demo_image 52 = demo_segment"
    using demo_image_header(4,5) by (simp add: program_header_at_def)
  have "\<exists>e k2. load_segments demo_image ?eh (proc_pd pr) 0 1 0 k1 = Inr (e, k2) \<and> procs k2 = procs k1 \<and>
      sched_initialized k2 = sched_initialized k1"
    using m b by (simp add: demo_image_header ph seg) (simp add: store_page_def)
  then obtain e k2 where l: "load_segments demo_image ?eh (proc_pd pr) 0 1 0 k1 = Inr (e, k2)" "procs k2 = procs k1"
    "sched_initialized k2 = sched_initialized k1" by blast
  obtain da where da: "dynarray_add (procs demo_kernel) 0x100 = Inr da"
    using da.add_elems [OF demo_kernel_spaces(4), of "0x100"] demo_kernel_spaces(5) by auto
  have sz: "unat (vn_size demo_file) = 88" by (simp add: demo_file_def)
  show ?thesis
    unfolding elf_load_def
    using k1(1) n(1) l da n(4,5)
    by (simp add: vfs_open_def vfs_read_def vfs_close_def demo_driver_def sz demo_image_header Let_def copy_string_array_def
        scheduler_add_proc_def update_def del: load_segments.simps) (simp add: demo_kernel_def)
qed

theorem elf_load_image_witness:
  "\<exists>pid k' d' sd. elf_load (Some demo_driver) (\<lambda>i. 0) 0x100 [0x2F, 0x61] 0 0 demo_kernel () = Inr (pid, k', d') \<and> pid = 1 \<and>
     ubytes k' (PHYS_TO_VIRT (frame_addr sd)) 0x8003 = 0xFE"
proof -
  obtain pid k' d' where r: "elf_load (Some demo_driver) (\<lambda>i. 0) 0x100 [0x2F, 0x61] 0 0 demo_kernel () = Inr (pid, k', d')"
    using demo_elf_load by auto
  have o: "vfs_open (Some demo_driver) [0x2F, 0x61] () = Inr (Some demo_file, ())"
    "vfs_read (Some demo_driver) demo_file (vn_size demo_file) () = Inr (88, demo_image, ())"
    "length demo_image = unat (vn_size demo_file)"
    by (simp_all add: vfs_open_def vfs_read_def demo_driver_def demo_image_header demo_file_def)
  have byte: "page_byte_addr demo_segment 3 = 0x8003" "segment_byte demo_image demo_segment 3 = 0xFE" "3 < segment_pages demo_segment * 4096"
    by (simp_all add: page_byte_addr_def demo_segment_def segment_byte_def segment_pages_def drop_bit_eq_div) code_simp
  from elf_load_image [OF demo_kernel_spaces(1) _ demo_kernel_spaces(2,4) _ _ o(1,2,3) demo_image_header(2) demo_image_good r]
  show ?thesis using r byte demo_kernel_spaces(5) by (fastforce simp: demo_image_segments demo_kernel_def)
qed

end
