(* ===== verification/UserMemory.thy ===== *)
theory UserMemory
  imports Syscall ElfLoad
begin

text \<open>
  The memory system calls: what \<open>mmap\<close> maps is mapped to frames of its own, \<open>munmap\<close> gives them back
  and leaves the rest of the space as it was, and \<open>sbrk\<close> keeps every page below the break mapped.
\<close>

section \<open>Mapping a range\<close>

lemma map_pages_result:
  assumes "spaces pg D" "d \<in> D" "user_tables pg d" "entry_frame base + i + n \<le> 0xC0000"
    and "map_pages pg (PHYS_TO_VIRT (frame_addr d)) base i n = Inr pg'"
  shows "spaces pg' D \<and> user_tables pg' d \<and> free_frames (pg_frames pg') \<subseteq> free_frames (pg_frames pg) \<and>
    (\<exists>fs. length fs = n \<and> distinct fs \<and> set fs \<subseteq> free_frames (pg_frames pg) \<and>
       (\<forall>f\<in>set fs. data_frame pg' D f) \<and> (\<forall>j<n. page_maps pg' d (entry_frame base + i + j) (fs ! j))) \<and>
    (\<forall>v f. v < entry_frame base + i \<or> entry_frame base + i + n \<le> v \<longrightarrow> page_maps pg d v f \<longrightarrow> page_maps pg' d v f) \<and>
    (\<forall>e\<in>D. \<forall>va. e \<noteq> d \<and> unat va < 0xC0000000 \<longrightarrow>
       translate (pg_mem pg') (frame_addr e) va = translate (pg_mem pg) (frame_addr e) va) \<and>
    (\<forall>f. f \<notin> free_frames (pg_frames pg) \<longrightarrow> data_frame pg D f \<longrightarrow> data_frame pg' D f)"
  using assms
proof (induction n arbitrary: i pg)
  case 0
  then show ?case by auto
next
  case (Suc n)
  let ?va = "base + of_nat i * 4096" and ?ef = "entry_frame base"
  from Suc.prems(5) obtain frame pg1 where m: "map_new_page pg (PHYS_TO_VIRT (frame_addr d)) ?va = Inr (frame, pg1)"
    and more: "map_pages pg1 (PHYS_TO_VIRT (frame_addr d)) base (i + 1) n = Inr pg'"
    by (auto simp: and_then_Inr)
  have ef: "entry_frame ?va = ?ef + i" using Suc.prems(4) by (intro entry_frame_step) simp
  have low: "unat ?va < 0xC0000000" using Suc.prems(4) ef below_kernel [of ?va] by simp
  obtain f where f: "f \<in> free_frames (pg_frames pg)" "spaces pg1 D" "user_tables pg1 d"
    "page_maps pg1 d (entry_frame ?va) f"
    "\<And>v g. v \<noteq> entry_frame ?va \<Longrightarrow> page_maps pg d v g \<Longrightarrow> page_maps pg1 d v g"
    "free_frames (pg_frames pg1) \<subseteq> free_frames (pg_frames pg) - {f}"
    "\<And>e vb. e \<in> D \<Longrightarrow> e \<noteq> d \<Longrightarrow> unat vb < 0xC0000000 \<Longrightarrow>
       translate (pg_mem pg1) (frame_addr e) vb = translate (pg_mem pg) (frame_addr e) vb"
    "data_frame pg1 D f" "\<And>g. g \<notin> free_frames (pg_frames pg) \<Longrightarrow> data_frame pg D g \<Longrightarrow> data_frame pg1 D g"
    by (rule map_new_page_maps [OF Suc.prems(1-3) low m]) (rule that; assumption)
  have "entry_frame base + (i + 1) + n \<le> 0xC0000" using Suc.prems(4) by simp
  note ih = Suc.IH [OF f(2) Suc.prems(2) f(3) this more]
  have ih': "spaces pg' D" "user_tables pg' d" "free_frames (pg_frames pg') \<subseteq> free_frames (pg_frames pg1)"
    "\<And>v g. v < ?ef + (i + 1) \<or> ?ef + (i + 1) + n \<le> v \<Longrightarrow> page_maps pg1 d v g \<Longrightarrow> page_maps pg' d v g"
    "\<And>e va. e \<in> D \<Longrightarrow> e \<noteq> d \<Longrightarrow> unat va < 0xC0000000 \<Longrightarrow>
       translate (pg_mem pg') (frame_addr e) va = translate (pg_mem pg1) (frame_addr e) va"
    "\<And>g. g \<notin> free_frames (pg_frames pg1) \<Longrightarrow> data_frame pg1 D g \<Longrightarrow> data_frame pg' D g"
    using ih by blast+
  from ih obtain fs where fs: "length fs = n" "distinct fs" "set fs \<subseteq> free_frames (pg_frames pg1)"
    "\<forall>f\<in>set fs. data_frame pg' D f" "\<forall>j<n. page_maps pg' d (?ef + (i + 1) + j) (fs ! j)" by blast
  have f0: "page_maps pg' d (?ef + i) f" using ih'(4) f(4) ef by simp
  have fnew: "f \<notin> free_frames (pg_frames pg1)" using f(6) by blast
  have "\<exists>fs. length fs = Suc n \<and> distinct fs \<and> set fs \<subseteq> free_frames (pg_frames pg) \<and>
      (\<forall>f\<in>set fs. data_frame pg' D f) \<and> (\<forall>j<Suc n. page_maps pg' d (?ef + i + j) (fs ! j))"
    by (rule exI [of _ "f # fs"])
      (use fs f(1,6,8) f0 fnew ih'(6) in \<open>auto simp: less_Suc_eq_0_disj\<close>)
  moreover have "page_maps pg' d v g" if "v < ?ef + i \<or> ?ef + i + Suc n \<le> v" "page_maps pg d v g" for v g
    using that ih'(4) [of v g] f(5) [of v g] by (auto simp: ef)
  moreover have "data_frame pg' D g" if "g \<notin> free_frames (pg_frames pg)" "data_frame pg D g" for g
    using ih'(6) [of g] f(9) [OF that] f(6) that(1) by blast
  ultimately show ?case using ih'(1,2,3,5) f(6,7) by simp blast
qed

section \<open>Unmapping\<close>

lemma word_and_1: "(x :: u32) AND 1 = 0 \<longleftrightarrow> \<not> bit x 0"
  by (simp add: and_one_eq bit_0 even_iff_mod_2_eq_zero)

lemma unmap_page_result:
  assumes sp: "spaces pg D" and d: "d \<in> D" and mp: "page_maps pg d (entry_frame va) f" and df: "data_frame pg D f"
  obtains pg' where "unmap_page pg (PHYS_TO_VIRT (frame_addr d)) va = Inr pg'" "spaces pg' D"
    "free_frames (pg_frames pg') = insert f (free_frames (pg_frames pg))"
    "\<And>vb. entry_frame vb = entry_frame va \<Longrightarrow> translate (pg_mem pg') (frame_addr d) vb = None"
    "\<And>e vb. e \<in> D \<Longrightarrow> entry_frame vb \<noteq> entry_frame va \<or> (e \<noteq> d \<and> unat vb < 0xC0000000) \<Longrightarrow>
       translate (pg_mem pg') (frame_addr e) vb = translate (pg_mem pg) (frame_addr e) vb"
    "\<And>g. data_frame pg D g \<Longrightarrow> data_frame pg' D g" "\<And>e i. e \<in> D \<Longrightarrow> i < 1024 \<Longrightarrow> pg_mem pg' (slot e i) = pg_mem pg (slot e i)"
proof -
  let ?pde = "pg_mem pg (slot d (pd_index va))"
  let ?t = "entry_frame ?pde" and ?j = "pt_index va"
  let ?pte = "pg_mem pg (slot ?t ?j)"
  have tr: "translate (pg_mem pg) (frame_addr d) va = Some (frame_addr f OR (va AND 0xFFF), True)" and f20: "f < 1048576"
    using mp by (simp_all add: page_maps_def)
  then have bits: "bit ?pde 0" "bit ?pte 0" and base: "(?pte AND 0xFFFFF000) OR (va AND 0xFFF) = frame_addr f OR (va AND 0xFFF)"
    by (auto simp: translate_slots Let_def split: if_splits)
  have nz: "?pde \<noteq> 0" using bits(1) by auto
  have pf: "?pte AND 0xFFFFF000 = frame_addr f"
  proof -
    have "frame_addr (entry_frame ?pte) + (va AND 0xFFF) = frame_addr f + (va AND 0xFFF)"
      using base unfolding entry_base frame_offset .
    then show ?thesis unfolding entry_base by simp
  qed
  have t: "?t \<notin> D" "?t < 1048576" using spacesD(6) [OF sp d pd_index_bound nz] by simp_all
  have ok: "fa_ok (pg_frames pg)" by (rule spacesD(2) [OF sp])
  obtain fr where fr: "fa_free (pg_frames pg) (frame_addr f) = Inr fr" "free_frames fr = insert f (free_frames (pg_frames pg))"
    "fa_ok fr" "length (fa_bitmap fr) = length (fa_bitmap (pg_frames pg))"
    using fs.release_law [OF ok, of f] df by (auto simp: data_frame_def frame_addr_def simp del: of_nat_mult)
  let ?pg' = "pg\<lparr>pg_frames := fr, pg_mem := (pg_mem pg)(slot ?t ?j := 0)\<rparr>"
  have same: "pg_mem ?pg' (slot e i) = pg_mem pg (slot e i)" if "e \<in> D" "i < 1024" for e i
    using that t slot_inj [of e ?t i ?j] spacesD(3) [OF sp that(1)] by auto
  have un: "unmap_page pg (PHYS_TO_VIRT (frame_addr d)) va = Inr ?pg'"
    unfolding unmap_page_def pde_slot entry_slot Let_def using bits fr(1) pf by (simp add: word_and_1)
  have sp': "spaces ?pg' D"
  proof (rule spacesI)
    show "paging_initialized ?pg'" "fa_ok (pg_frames ?pg')" using spacesD(1) [OF sp] fr(3) by simp_all
    show "e < 1048576 \<and> e \<notin> free_frames (pg_frames ?pg')" if "e \<in> D" for e
      using that spacesD(3,4) [OF sp that] df by (auto simp: fr(2) data_frame_def)
    show "bit (pg_mem ?pg' (slot e i)) 0 \<and> entry_frame (pg_mem ?pg' (slot e i)) \<notin> D \<and>
        entry_frame (pg_mem ?pg' (slot e i)) \<notin> free_frames (pg_frames ?pg')"
      if "e \<in> D" "i < 1024" "pg_mem ?pg' (slot e i) \<noteq> 0" for e i
      using that(3) spacesD(5,6,7) [OF sp that(1,2)] df that(1,2) unfolding same [OF that(1,2)]
      by (auto simp: fr(2) data_frame_def)
    show "i = j \<and> (e = e' \<or> 768 \<le> i)"
      if "e \<in> D" "e' \<in> D" "i < 1024" "j < 1024" "pg_mem ?pg' (slot e i) \<noteq> 0" "pg_mem ?pg' (slot e' j) \<noteq> 0"
        "entry_frame (pg_mem ?pg' (slot e i)) = entry_frame (pg_mem ?pg' (slot e' j))" for e e' i j
      using that(5-7) spacesD(8) [OF sp that(1-4)] unfolding same [OF that(1,3)] same [OF that(2,4)] by blast
  qed
  have gone: "translate (pg_mem ?pg') (frame_addr d) vb = None" if "entry_frame vb = entry_frame va" for vb
  proof -
    have ix: "pd_index vb = pd_index va" "pt_index vb = pt_index va"
      using that page_split entry_frame_inj by auto
    show ?thesis using same [OF d pd_index_bound, of va] by (simp add: translate_slots ix Let_def)
  qed
  have others: "translate (pg_mem ?pg') (frame_addr e) vb = translate (pg_mem pg) (frame_addr e) vb"
    if e: "e \<in> D" and vb: "entry_frame vb \<noteq> entry_frame va \<or> (e \<noteq> d \<and> unat vb < 0xC0000000)" for e vb
  proof (cases "pg_mem pg (slot e (pd_index vb)) = 0")
    case True
    then show ?thesis using same [OF e pd_index_bound, of vb] by (simp add: translate_slots Let_def)
  next
    case False
    let ?u = "entry_frame (pg_mem pg (slot e (pd_index vb)))"
    have "slot ?u (pt_index vb) \<noteq> slot ?t ?j"
    proof
      assume "slot ?u (pt_index vb) = slot ?t ?j"
      then have eq: "?u = ?t" "pt_index vb = ?j" using slot_inj [of ?u ?t "pt_index vb" ?j] by simp_all
      have h: "pd_index vb = pd_index va \<and> (e = d \<or> 768 \<le> pd_index vb)"
        using spacesD(8) [OF sp e d pd_index_bound pd_index_bound False nz eq(1)] .
      have "entry_frame vb = entry_frame va" using conjunct1 [OF h] eq(2) page_split entry_frame_inj by blast
      moreover have "e = d \<or> \<not> unat vb < 0xC0000000"
        using conjunct2 [OF h] pd_index_half [of vb] by (simp only: not_less [symmetric])
      ultimately show False using vb by blast
    qed
    then show ?thesis using same [OF e pd_index_bound, of vb] by (simp add: translate_slots Let_def)
  qed
  have data: "data_frame ?pg' D g" if "data_frame pg D g" for g
    using that same by (simp add: data_frame_def fr(4) del: fun_upd_apply)
  show ?thesis using that [OF un sp' _ gone others data same] fr(2) by simp
qed

lemma unmap_pages_result:
  assumes "spaces pg D" "d \<in> D" "entry_frame base + i + n \<le> 0xC0000"
    and "length fs = n" "distinct fs" "\<forall>f\<in>set fs. data_frame pg D f \<and> f \<notin> free_frames (pg_frames pg)"
    and "\<forall>j<n. page_maps pg d (entry_frame base + i + j) (fs ! j)"
  shows "\<exists>pg'. unmap_pages pg (PHYS_TO_VIRT (frame_addr d)) base i n = Inr pg' \<and> spaces pg' D \<and>
    free_frames (pg_frames pg') = free_frames (pg_frames pg) \<union> set fs \<and>
    (\<forall>va. entry_frame base + i \<le> entry_frame va \<and> entry_frame va < entry_frame base + i + n \<longrightarrow>
       translate (pg_mem pg') (frame_addr d) va = None) \<and>
    (\<forall>e\<in>D. \<forall>va. entry_frame va < entry_frame base + i \<or> entry_frame base + i + n \<le> entry_frame va \<or>
        (e \<noteq> d \<and> unat va < 0xC0000000) \<longrightarrow>
       translate (pg_mem pg') (frame_addr e) va = translate (pg_mem pg) (frame_addr e) va) \<and>
    (\<forall>e\<in>D. \<forall>k<1024. pg_mem pg' (slot e k) = pg_mem pg (slot e k)) \<and>
    (\<forall>g. data_frame pg D g \<longrightarrow> data_frame pg' D g)"
  using assms
proof (induction n arbitrary: i pg fs)
  case 0
  then show ?case by auto
next
  case (Suc n)
  let ?ef = "entry_frame base" and ?va = "base + of_nat i * 4096"
  obtain f gs where fs: "fs = f # gs" using Suc.prems(4) by (cases fs) auto
  have ef: "entry_frame ?va = ?ef + i" using Suc.prems(3) by (intro entry_frame_step) simp
  have mp: "page_maps pg d (entry_frame ?va) f" using Suc.prems(7) ef fs by (metis add_0_right nth_Cons_0 zero_less_Suc)
  have df: "data_frame pg D f" using Suc.prems(6) fs by simp
  obtain pg1 where u: "unmap_page pg (PHYS_TO_VIRT (frame_addr d)) ?va = Inr pg1" "spaces pg1 D"
    "free_frames (pg_frames pg1) = insert f (free_frames (pg_frames pg))"
    "\<And>vb. entry_frame vb = entry_frame ?va \<Longrightarrow> translate (pg_mem pg1) (frame_addr d) vb = None"
    "\<And>e vb. e \<in> D \<Longrightarrow> entry_frame vb \<noteq> entry_frame ?va \<or> (e \<noteq> d \<and> unat vb < 0xC0000000) \<Longrightarrow>
       translate (pg_mem pg1) (frame_addr e) vb = translate (pg_mem pg) (frame_addr e) vb"
    "\<And>g. data_frame pg D g \<Longrightarrow> data_frame pg1 D g"
    "\<And>e i. e \<in> D \<Longrightarrow> i < 1024 \<Longrightarrow> pg_mem pg1 (slot e i) = pg_mem pg (slot e i)"
    by (rule unmap_page_result [OF Suc.prems(1,2) mp df]) (rule that; assumption)
  have maps: "page_maps pg1 d (?ef + (i + 1) + j) (gs ! j)" if "j < n" for j
  proof -
    have m: "page_maps pg d (?ef + i + Suc j) (gs ! j)" using Suc.prems(7) that fs by (metis Suc_less_eq nth_Cons_Suc)
    have "gs ! j \<noteq> f" using Suc.prems(4,5) fs that by (metis distinct.simps(2) length_Cons nat.inject nth_mem)
    then show ?thesis using m u(3) u(5) [OF Suc.prems(2)] unfolding page_maps_def ef by auto
  qed
  have "?ef + (i + 1) + n \<le> 0xC0000" "length gs = n" "distinct gs"
    "\<forall>g\<in>set gs. data_frame pg1 D g \<and> g \<notin> free_frames (pg_frames pg1)"
    using Suc.prems(3-6) u(3,6) fs by auto
  from Suc.IH [OF u(2) Suc.prems(2) this] maps obtain pg' where
    r: "unmap_pages pg1 (PHYS_TO_VIRT (frame_addr d)) base (i + 1) n = Inr pg'" "spaces pg' D"
      "free_frames (pg_frames pg') = free_frames (pg_frames pg1) \<union> set gs"
      "\<And>va. ?ef + (i + 1) \<le> entry_frame va \<Longrightarrow> entry_frame va < ?ef + (i + 1) + n \<Longrightarrow>
         translate (pg_mem pg') (frame_addr d) va = None"
      "\<And>e va. e \<in> D \<Longrightarrow> entry_frame va < ?ef + (i + 1) \<or> ?ef + (i + 1) + n \<le> entry_frame va \<or>
          (e \<noteq> d \<and> unat va < 0xC0000000) \<Longrightarrow>
         translate (pg_mem pg') (frame_addr e) va = translate (pg_mem pg1) (frame_addr e) va"
      "\<forall>e\<in>D. \<forall>k<1024. pg_mem pg' (slot e k) = pg_mem pg1 (slot e k)"
      "\<forall>g. data_frame pg1 D g \<longrightarrow> data_frame pg' D g"
    by blast
  have "translate (pg_mem pg') (frame_addr d) va = None"
    if "?ef + i \<le> entry_frame va \<and> entry_frame va < ?ef + i + Suc n" for va
  proof (cases "entry_frame va = ?ef + i")
    case True
    then show ?thesis using r(5) [OF Suc.prems(2), of va] u(4) [of va] ef by simp
  next
    case False
    then show ?thesis using r(4) [of va] that by simp
  qed
  moreover have "translate (pg_mem pg') (frame_addr e) va = translate (pg_mem pg) (frame_addr e) va"
    if "e \<in> D" "entry_frame va < ?ef + i \<or> ?ef + i + Suc n \<le> entry_frame va \<or> (e \<noteq> d \<and> unat va < 0xC0000000)" for e va
    using r(5) [OF that(1), of va] u(5) [OF that(1), of va] that(2) unfolding ef by fastforce
  ultimately show ?case using u(1,3,6,7) r(1,2,3,6,7) fs by simp
qed

section \<open>mmap and munmap\<close>

lemma find_region_result:
  assumes "da_fit rs" "unat i \<le> q" "q < length (da_list rs)" "q < unat i + n" "mr_base (da_list rs ! q) = addr"
    and "\<forall>j. unat i \<le> j \<and> j < q \<longrightarrow> mr_base (da_list rs ! j) \<noteq> addr"
  shows "find_region rs addr i n = Some (of_nat q, da_list rs ! q)"
  using assms(2,4,6)
proof (induction n arbitrary: i)
  case (Suc n)
  have L: "length (da_list rs) < 4294967296"
    using da.count_elems [OF assms(1)] unat_bound32 [of "da_count rs"] by linarith
  have g: "dynarray_get rs i = Some (da_list rs ! unat i)"
    using Suc.prems(1) assms(3) by (simp add: da.get_elems [OF assms(1)])
  show ?case
  proof (cases "unat i = q")
    case True
    have "of_nat (unat i) = i" by simp
    then have "i = of_nat q" using True by simp
    then show ?thesis using g True assms(5) by simp
  next
    case False
    then have lt: "unat i < q" using Suc.prems(1) by simp
    then have "unat i + 1 < 4294967296" using assms(3) L by linarith
    then have i1: "unat (i + 1) = unat i + 1" using unat_add_small [of i 1] by simp
    have "mr_base (da_list rs ! unat i) \<noteq> addr" using Suc.prems(3) lt by simp
    moreover have "find_region rs addr (i + 1) n = Some (of_nat q, da_list rs ! q)"
      by (rule Suc.IH) (use i1 lt Suc.prems in auto)
    ultimately show ?thesis using g by simp
  qed
qed simp

text \<open>The regions a process has mapped.\<close>

definition regions :: "proc \<Rightarrow> mmap_region list" where
  "regions pr = (case mmap_regions pr of None \<Rightarrow> [] | Some rs \<Rightarrow> da_list rs)"

definition regions_ok :: "proc \<Rightarrow> bool" where
  "regions_ok pr \<longleftrightarrow> (case mmap_regions pr of None \<Rightarrow> True | Some rs \<Rightarrow> da_fit rs) \<and> length (regions pr) < 268435456"

lemma regions_add:
  assumes "regions_ok pr"
  shows "\<exists>rs. dynarray_add (case mmap_regions pr of None \<Rightarrow> dynarray_new 4 | Some rs \<Rightarrow> rs) r = Inr rs \<and> da_fit rs \<and>
    da_list rs = regions pr @ [r]"
proof -
  have new: "da_fit (dynarray_new 4 :: mmap_region dynarray)" "da_list (dynarray_new 4 :: mmap_region dynarray) = []"
    using dynarray_new_ok [of 4, where 'a = mmap_region] by (simp_all add: da_fit_def dynarray_new_def)
  show ?thesis
  proof (cases "mmap_regions pr")
    case None
    then show ?thesis using da.add_elems [OF new(1), of r] new(2) by (simp add: regions_def)
  next
    case (Some rs)
    then show ?thesis using da.add_elems [of rs r] assms by (simp add: regions_ok_def regions_def)
  qed
qed

lemma reg_set_EAX [simp]: "EAX (set_EAX regs v s) regs = v"
  by (simp add: EAX_def reg_def set_EAX_def)

lemma sys_simps [simp]:
  "sy_k (set_proc p pr s) = update (sy_k s) p pr" "vmm (sy_k (set_EAX regs v s)) = vmm (sy_k s)"
  "vmm (update k p pr) = vmm k" "lookup (update k p pr) p = Inr pr"
  "lookup (sy_k (set_EAX regs v s)) q = lookup (sy_k s) q" "lookup (k\<lparr>vmm := pg\<rparr>) q = lookup k q"
  by (simp_all add: set_proc_def set_EAX_def update_def lookup_def)

lemma mmap_result:
  assumes "lookup (sy_k s) p = Inr pr" "regions_ok pr" "syscall_mmap p regs s = Inr (ret, s1)"
  obtains pg rs where "map_pages (vmm (sy_k s)) (proc_pd pr) (mmap_next pr) 0 (unat (mmap_pages (EBX s regs))) = Inr pg"
    "vmm (sy_k s1) = pg" "ret = 0" "EAX s1 regs = mmap_next pr" "da_fit rs"
    "lookup (sy_k s1) p = Inr (pr\<lparr>mmap_regions := Some rs, mmap_next := mmap_next pr + mmap_pages (EBX s regs) * 4096\<rparr>)"
    "da_list rs = regions pr @ [\<lparr>mr_base = mmap_next pr, mr_len = mmap_pages (EBX s regs) * 4096\<rparr>]"
proof -
  let ?r = "\<lparr>mr_base = mmap_next pr, mr_len = mmap_pages (EBX s regs) * 4096\<rparr>"
  obtain rs where rs: "dynarray_add (case mmap_regions pr of None \<Rightarrow> dynarray_new 4 | Some rs \<Rightarrow> rs) ?r = Inr rs" "da_fit rs"
    "da_list rs = regions pr @ [?r]"
    using regions_add [OF assms(2)] by blast
  from assms(1,3) rs(1) show ?thesis
    unfolding syscall_mmap_def Let_def by (auto simp: and_then_Inr intro!: that [OF _ _ _ _ rs(2) _ rs(3)])
qed

text \<open>A process whose space is well formed.\<close>

definition user_space :: "sys \<Rightarrow> u32 \<Rightarrow> proc \<Rightarrow> nat set \<Rightarrow> nat \<Rightarrow> bool" where
  "user_space s p pr D d \<longleftrightarrow> lookup (sy_k s) p = Inr pr \<and> proc_pd pr = PHYS_TO_VIRT (frame_addr d) \<and> d \<in> D \<and>
     spaces (vmm (sy_k s)) D \<and> user_tables (vmm (sy_k s)) d"

lemma region_pages:
  assumes "entry_frame base + unat pages \<le> 0xC0000"
  shows "unat (pages * 4096 div 4096 :: u32) = unat pages"
proof -
  have "unat pages * 4096 < 4294967296" using assms by simp
  then have "unat (pages * 4096) = unat pages * 4096" using unat_mul_small [of pages 4096] by simp
  then show ?thesis by (simp add: unat_div)
qed

text \<open>
  C21. \<open>mmap\<close> returns the next address of the process and maps every page from there on to a frame of its
  own that was free, for user code; when \<open>munmap\<close> is then called with that address, and no older region of
  the process has it, it succeeds, the frames are free again, no page of the range is mapped and the list of
  regions is what it was. Over both calls every page of the process that was mapped outside the range keeps
  its frame, and the user half of every other process is translated as before. Pages of the process that were
  not mapped are left out for a reason: where \<open>mmap\<close> has to take a frame for a new page table, the rest of
  that table is what the frame held before (\<open>paging_map_stale_table\<close>).
\<close>

theorem sys_mmap_munmap:
  assumes "user_space s p pr D d" and "regions_ok pr" and "length (regions pr) + 1 < 268435456"
    and "n = unat (mmap_pages (EBX s regs))" and "entry_frame (mmap_next pr) + n \<le> 0xC0000"
    and "\<forall>r\<in>set (regions pr). mr_base r \<noteq> mmap_next pr"
    and "syscall_mmap p regs s = Inr (ret, s1)"
    and "sy_k s2 = (sy_k s1)\<lparr>kbytes := m\<rparr>" and "EBX s2 regs2 = mmap_next pr"
  shows "EAX s1 regs = mmap_next pr \<and>
    (\<exists>fs s3 pr3. length fs = n \<and> distinct fs \<and> set fs \<subseteq> free_frames (pg_frames (vmm (sy_k s))) \<and>
       (\<forall>j<n. page_maps (vmm (sy_k s1)) d (entry_frame (mmap_next pr) + j) (fs ! j)) \<and>
       syscall_munmap p regs2 s2 = Inr (0, s3) \<and> EAX s3 regs2 = 0 \<and> user_space s3 p pr3 D d \<and> regions pr3 = regions pr \<and>
       free_frames (pg_frames (vmm (sy_k s3))) = free_frames (pg_frames (vmm (sy_k s1))) \<union> set fs \<and>
       (\<forall>va. entry_frame (mmap_next pr) \<le> entry_frame va \<and> entry_frame va < entry_frame (mmap_next pr) + n \<longrightarrow>
          translate (pg_mem (vmm (sy_k s3))) (frame_addr d) va = None) \<and>
       (\<forall>v f. (v < entry_frame (mmap_next pr) \<or> entry_frame (mmap_next pr) + n \<le> v) \<and>
          page_maps (vmm (sy_k s)) d v f \<longrightarrow> page_maps (vmm (sy_k s3)) d v f) \<and>
       (\<forall>e\<in>D. \<forall>va. e \<noteq> d \<and> unat va < 0xC0000000 \<longrightarrow>
          translate (pg_mem (vmm (sy_k s3))) (frame_addr e) va = translate (pg_mem (vmm (sy_k s))) (frame_addr e) va))"
proof -
  let ?ef = "entry_frame (mmap_next pr)" and ?pages = "mmap_pages (EBX s regs)"
  have us: "lookup (sy_k s) p = Inr pr" "proc_pd pr = PHYS_TO_VIRT (frame_addr d)" "d \<in> D"
    "spaces (vmm (sy_k s)) D" "user_tables (vmm (sy_k s)) d"
    using assms(1) by (simp_all add: user_space_def)
  obtain pg rs where m: "map_pages (vmm (sy_k s)) (PHYS_TO_VIRT (frame_addr d)) (mmap_next pr) 0 n = Inr pg"
    "vmm (sy_k s1) = pg" "EAX s1 regs = mmap_next pr" "da_fit rs"
    "lookup (sy_k s1) p = Inr (pr\<lparr>mmap_regions := Some rs, mmap_next := mmap_next pr + ?pages * 4096\<rparr>)"
    "da_list rs = regions pr @ [\<lparr>mr_base = mmap_next pr, mr_len = ?pages * 4096\<rparr>]"
    by (rule mmap_result [OF us(1) assms(2,7), unfolded us(2) assms(4) [symmetric]]) (rule that; assumption)
  have fit: "?ef + 0 + n \<le> 0xC0000" using assms(5) by simp
  note mr = map_pages_result [OF us(4,3,5) fit m(1)]
  from mr obtain fs where fs: "length fs = n" "distinct fs" "set fs \<subseteq> free_frames (pg_frames (vmm (sy_k s)))"
    "\<forall>f\<in>set fs. data_frame pg D f" "\<forall>j<n. page_maps pg d (?ef + 0 + j) (fs ! j)" by blast
  have mr': "spaces pg D" "user_tables pg d"
    "\<And>v f. v < ?ef \<or> ?ef + n \<le> v \<Longrightarrow> page_maps (vmm (sy_k s)) d v f \<Longrightarrow> page_maps pg d v f"
    "\<And>e va. e \<in> D \<Longrightarrow> e \<noteq> d \<Longrightarrow> unat va < 0xC0000000 \<Longrightarrow>
       translate (pg_mem pg) (frame_addr e) va = translate (pg_mem (vmm (sy_k s))) (frame_addr e) va"
    using mr by auto
  have taken: "\<forall>f\<in>set fs. data_frame pg D f \<and> f \<notin> free_frames (pg_frames pg)"
    using fs(1,4,5) by (auto simp: in_set_conv_nth page_maps_def)
  obtain pg3 where u: "unmap_pages pg (PHYS_TO_VIRT (frame_addr d)) (mmap_next pr) 0 n = Inr pg3" "spaces pg3 D"
    "free_frames (pg_frames pg3) = free_frames (pg_frames pg) \<union> set fs"
    "\<And>va. ?ef + 0 \<le> entry_frame va \<Longrightarrow> entry_frame va < ?ef + 0 + n \<Longrightarrow> translate (pg_mem pg3) (frame_addr d) va = None"
    "\<And>e va. e \<in> D \<Longrightarrow> entry_frame va < ?ef + 0 \<or> ?ef + 0 + n \<le> entry_frame va \<or> (e \<noteq> d \<and> unat va < 0xC0000000) \<Longrightarrow>
       translate (pg_mem pg3) (frame_addr e) va = translate (pg_mem pg) (frame_addr e) va"
    "\<forall>e\<in>D. \<forall>i<1024. pg_mem pg3 (slot e i) = pg_mem pg (slot e i)"
    using unmap_pages_result [OF mr'(1) us(3) fit fs(1,2) taken fs(5)] by (elim exE conjE) (rule that; blast)
  have ut3: "user_tables pg3 d" using mr'(2) u(6) us(3) by (simp add: user_tables_def)
  let ?q = "length (regions pr)"
  have q: "?q < length (da_list rs)" "da_list rs ! ?q = \<lparr>mr_base = mmap_next pr, mr_len = ?pages * 4096\<rparr>"
    using m(6) by simp_all
  have "find_region rs (mmap_next pr) 0 (unat (da_count rs)) = Some (of_nat ?q, da_list rs ! ?q)"
    by (rule find_region_result [OF m(4)])
      (use q assms(6) m(6) da.count_elems [OF m(4)] in \<open>auto simp: nth_append\<close>)
  moreover have "unat (?pages * 4096 div 4096) = n" unfolding assms(4)
    by (rule region_pages [of "mmap_next pr"]) (use assms(4,5) in simp)
  moreover have "lookup (sy_k s2) p = lookup (sy_k s1) p" "vmm (sy_k s2) = pg" using assms(8) m(2) by (simp_all add: lookup_def)
  moreover define pr3 where
    "pr3 = pr\<lparr>mmap_next := mmap_next pr + ?pages * 4096, mmap_regions := Some (dynarray_remove rs (of_nat ?q))\<rparr>"
  moreover define s3 where "s3 = set_EAX regs2 0 (set_proc p pr3 (s2\<lparr>sy_k := (sy_k s2)\<lparr>vmm := pg3\<rparr>\<rparr>))"
  ultimately have mu: "syscall_munmap p regs2 s2 = Inr (0, s3)"
    unfolding syscall_munmap_def using m(5) q(2) u(1) us(2) assms(9) by simp
  have s3: "vmm (sy_k s3) = pg3" "EAX s3 regs2 = 0" "lookup (sy_k s3) p = Inr pr3" "proc_pd pr3 = PHYS_TO_VIRT (frame_addr d)"
    using us(2) by (simp_all add: s3_def pr3_def)
  have "regions pr3 = regions pr"
  proof -
    have "unat (of_nat ?q :: u32) = ?q" using assms(3) by (intro unat_of_nat_small) simp
    then show ?thesis using da.remove_elems [OF m(4), of "of_nat ?q"] m(6) by (simp add: remove_nth_def pr3_def regions_def)
  qed
  moreover have "page_maps pg3 d v f" if "v < ?ef \<or> ?ef + n \<le> v" "page_maps (vmm (sy_k s)) d v f" for v f
  proof -
    have "f \<notin> set fs" using that(2) fs(3) by (auto simp: page_maps_def)
    then show ?thesis using mr'(3) [OF that] u(3) u(5) [OF us(3)] that(1) by (auto simp: page_maps_def)
  qed
  moreover have "user_space s3 p pr3 D d" using s3 us(3) u(2) ut3 by (simp add: user_space_def)
  moreover have "translate (pg_mem pg3) (frame_addr e) va = translate (pg_mem (vmm (sy_k s))) (frame_addr e) va"
    if "e \<in> D" "e \<noteq> d" "unat va < 0xC0000000" for e va
    using u(5) [OF that(1)] mr'(4) [OF that] that(2,3) by simp
  ultimately show ?thesis
    using m(2,3) fs(1,2,3,5) mu s3(1,2) u(3,4) by (intro conjI exI [of _ fs] exI [of _ s3] exI [of _ pr3]) simp_all
qed

lemma map_pages_total:
  assumes "spaces pg D" "d \<in> D" "user_tables pg d" "entry_frame base + i + n \<le> 0xC0000"
    and "2 * n \<le> card (free_frames (pg_frames pg))"
  shows "\<exists>pg'. map_pages pg (PHYS_TO_VIRT (frame_addr d)) base i n = Inr pg'"
  using assms
proof (induction n arbitrary: i pg)
  case (Suc n)
  let ?va = "base + of_nat i * 4096"
  obtain frame pg1 where m: "map_new_page pg (PHYS_TO_VIRT (frame_addr d)) ?va = Inr (frame, pg1)"
    "card (free_frames (pg_frames pg)) \<le> card (free_frames (pg_frames pg1)) + 2"
    using map_new_page_total [OF Suc.prems(1,2)] Suc.prems(5) by fastforce
  have "entry_frame ?va = entry_frame base + i" using Suc.prems(4) by (intro entry_frame_step) simp
  then have low: "unat ?va < 0xC0000000" using Suc.prems(4) below_kernel [of ?va] by simp
  have f: "spaces pg1 D" "user_tables pg1 d"
    by (rule map_new_page_maps [OF Suc.prems(1-3) low m(1)]; assumption)+
  have "entry_frame base + (i + 1) + n \<le> 0xC0000" "2 * n \<le> card (free_frames (pg_frames pg1))"
    using Suc.prems(4,5) m(2) by simp_all
  from Suc.IH [OF f(1) Suc.prems(2) f(2) this] show ?case using m by simp
qed simp

section \<open>A process that maps memory\<close>

definition demo_user :: proc where
  "demo_user = zero_proc\<lparr>proc_id := 1, proc_pd := PHYS_TO_VIRT (frame_addr 1), mmap_next := 0x7000000,
     program_break := 0x9000\<rparr>"

definition demo_regs :: u32 where "demo_regs = 0xC0010000"

text \<open>Its saved registers say \<open>EBX = b\<close>.\<close>

definition demo_sys :: "u32 \<Rightarrow> sys" where
  "demo_sys b = \<lparr>sy_k = demo_kernel\<lparr>ptab := [0x100 \<mapsto> demo_user], current_proc := 0x100,
       kbytes := st32 (\<lambda>a. 0) (demo_regs + 16) b\<rparr>,
     sy_fds = fd_init_table, sy_fs = \<lparr>em_fs = demo_fs, em_inodes = (\<lambda>a. None), em_next = 1\<rparr>,
     sy_drv = None, sy_out = []\<rparr>"

lemma demo_sys_facts:
  "EBX (demo_sys b) demo_regs = b" "user_space (demo_sys b) 0x100 demo_user {1} 1" "vmm (sy_k (demo_sys b)) = vmm demo_kernel"
proof -
  show "EBX (demo_sys b) demo_regs = b" by (simp add: EBX_def reg_def demo_sys_def)
  show v: "vmm (sy_k (demo_sys b)) = vmm demo_kernel" by (simp add: demo_sys_def)
  show "user_space (demo_sys b) 0x100 demo_user {1} 1"
    using demo_kernel_spaces(1) unfolding user_space_def v
    by (simp add: demo_sys_def lookup_def demo_user_def user_tables_def) (simp add: demo_kernel_def)
qed

lemma demo_mmap: "\<exists>s1. syscall_mmap 0x100 demo_regs (demo_sys 5000) = Inr (0, s1)"
proof -
  have base: "entry_frame (0x7000000 :: u32) = 0x7000" by (simp add: entry_frame_def drop_bit_eq_div)
  have pages: "mmap_pages 5000 = 2" by (simp add: mmap_pages_def drop_bit_eq_div)
  have us: "lookup (sy_k (demo_sys 5000)) 0x100 = Inr demo_user" "spaces (vmm demo_kernel) {1}" "user_tables (vmm demo_kernel) 1"
    using demo_sys_facts(2,3) [of 5000] by (simp_all add: user_space_def)
  have pr: "proc_pd demo_user = PHYS_TO_VIRT (frame_addr 1)" "mmap_next demo_user = 0x7000000" "regions_ok demo_user"
    by (simp_all add: demo_user_def regions_ok_def regions_def zero_proc_def)
  obtain pg where "map_pages (vmm demo_kernel) (PHYS_TO_VIRT (frame_addr 1)) 0x7000000 0 2 = Inr pg"
    using map_pages_total [OF us(2) _ us(3), of "0x7000000" 0 2] demo_kernel_spaces(3) base by auto
  moreover obtain rs where "dynarray_add (case mmap_regions demo_user of None \<Rightarrow> dynarray_new 4 | Some rs \<Rightarrow> rs)
      \<lparr>mr_base = 0x7000000, mr_len = 2 * 4096\<rparr> = Inr rs"
    using regions_add [OF pr(3)] by blast
  ultimately show ?thesis
    unfolding syscall_mmap_def by (simp add: us(1) pr(1,2) demo_sys_facts pages Let_def del: map_pages.simps)
qed

theorem sys_mmap_munmap_witness:
  "\<exists>s1 s2 s3. syscall_mmap 0x100 demo_regs (demo_sys 5000) = Inr (0, s1) \<and> EAX s1 demo_regs = 0x7000000 \<and>
     syscall_munmap 0x100 demo_regs s2 = Inr (0, s3) \<and>
     (\<exists>f. page_maps (vmm (sy_k s1)) 1 0x7001 f) \<and> translate (pg_mem (vmm (sy_k s3))) (frame_addr 1) 0x7001234 = None"
proof -
  obtain s1 where s1: "syscall_mmap 0x100 demo_regs (demo_sys 5000) = Inr (0, s1)" using demo_mmap by blast
  define s2 where "s2 = s1\<lparr>sy_k := (sy_k s1)\<lparr>kbytes := st32 (kbytes (sy_k s1)) (demo_regs + 16) 0x7000000\<rparr>\<rparr>"
  have base: "entry_frame (0x7000000 :: u32) = 0x7000" "entry_frame (0x7001234 :: u32) = 0x7001"
    by (simp_all add: entry_frame_def drop_bit_eq_div)
  have pages: "unat (mmap_pages (EBX (demo_sys 5000) demo_regs)) = 2"
    by (simp add: demo_sys_facts mmap_pages_def drop_bit_eq_div)
  have pr: "mmap_next demo_user = 0x7000000" "regions_ok demo_user" "regions demo_user = []"
    by (simp_all add: demo_user_def regions_ok_def regions_def zero_proc_def)
  have s2: "sy_k s2 = (sy_k s1)\<lparr>kbytes := st32 (kbytes (sy_k s1)) (demo_regs + 16) 0x7000000\<rparr>"
    "EBX s2 demo_regs = mmap_next demo_user"
    by (simp_all add: s2_def pr EBX_def reg_def)
  from sys_mmap_munmap [OF demo_sys_facts(2) pr(2) _ pages [symmetric] _ _ s1 s2, unfolded pr(1,3) base]
  obtain fs s3 where r: "EAX s1 demo_regs = 0x7000000" "\<forall>j<2. page_maps (vmm (sy_k s1)) 1 (0x7000 + j) (fs ! j)"
    "syscall_munmap 0x100 demo_regs s2 = Inr (0, s3)"
    "\<forall>va. 0x7000 \<le> entry_frame va \<and> entry_frame va < 0x7000 + 2 \<longrightarrow> translate (pg_mem (vmm (sy_k s3))) (frame_addr 1) va = None"
    by auto
  have "page_maps (vmm (sy_k s1)) 1 0x7001 (fs ! 1)" using r(2) [rule_format, of 1] by simp
  moreover have "translate (pg_mem (vmm (sy_k s3))) (frame_addr 1) 0x7001234 = None" using r(4) base(2) by simp
  ultimately show ?thesis using s1 r(1,3) by blast
qed

section \<open>sbrk\<close>

definition break_page :: "proc \<Rightarrow> nat" where "break_page pr = (unat (program_break pr) + 4095) div 4096"

text \<open>Every page from \<open>lo\<close> up to the break is mapped, to a frame of its own, and none from there to \<open>hi\<close>.\<close>

definition heap_ok :: "sys \<Rightarrow> u32 \<Rightarrow> proc \<Rightarrow> nat set \<Rightarrow> nat \<Rightarrow> nat \<Rightarrow> bool" where
  "heap_ok s p pr D d lo \<longleftrightarrow> user_space s p pr D d \<and> lo \<le> break_page pr \<and> break_page pr \<le> 0xC0000 \<and>
     (\<exists>fs. length fs = break_page pr - lo \<and> distinct fs \<and> (\<forall>f\<in>set fs. data_frame (vmm (sy_k s)) D f) \<and>
        (\<forall>j<length fs. page_maps (vmm (sy_k s)) d (lo + j) (fs ! j)))"

lemma page_up_frame:
  assumes "(unat a + 4095) div 4096 \<le> 0xC0000"
  shows "entry_frame (page_up a) = (unat a + 4095) div 4096" "unat (page_up a) = (unat a + 4095) div 4096 * 4096"
proof -
  have "unat a + 4095 < 4294967296" using assms by linarith
  then have u: "unat (a + 0xFFF) = unat a + 4095" using unat_add_small [of a "0xFFF"] by simp
  let ?n = "(unat a + 4095) div 4096"
  have e: "page_up a = frame_addr ?n" unfolding page_up_def entry_base
    by (simp add: entry_frame_def drop_bit_eq_div unat_div u)
  show "entry_frame (page_up a) = ?n" unfolding e by (rule frame_addr_entry_frame) (use assms in simp)
  have "?n * 4096 < 4294967296" using assms by linarith
  then show "unat (page_up a) = ?n * 4096" unfolding e frame_addr_def by (simp only: unat_of_nat_small)
qed

lemma page_distance:
  assumes "unat (a :: u32) = x * 4096" "unat b = y * 4096" "x \<le> y"
  shows "unat ((b - a) div 4096) = y - x"
proof -
  have "unat (b - a) = y * 4096 - x * 4096" using assms by (simp add: unat_sub word_le_nat_alt)
  then show ?thesis by (simp add: unat_div diff_mult_distrib [symmetric])
qed

text \<open>The three cases of the pages.\<close>

lemma sbrk_pages:
  fixes pr :: proc
  assumes h: "heap_ok s p pr D d lo" and nb: "lo \<le> (unat nb + 4095) div 4096" "(unat nb + 4095) div 4096 \<le> 0xC0000"
    and new: "new_page = page_up nb" and old: "old_page = page_up (program_break pr)"
    and r: "(if new_page > old_page then map_pages (vmm (sy_k s)) (proc_pd pr) old_page 0 (unat ((new_page - old_page) div 4096))
       else if new_page < old_page then unmap_pages (vmm (sy_k s)) (proc_pd pr) new_page 0 (unat ((old_page - new_page) div 4096))
       else Inr (vmm (sy_k s))) = Inr pg"
  shows "spaces pg D \<and> user_tables pg d \<and>
    (\<exists>fs. length fs = (unat nb + 4095) div 4096 - lo \<and> distinct fs \<and> (\<forall>f\<in>set fs. data_frame pg D f) \<and>
        (\<forall>j<length fs. page_maps pg d (lo + j) (fs ! j))) \<and>
    (\<forall>va. (unat nb + 4095) div 4096 \<le> entry_frame va \<and> entry_frame va < break_page pr \<longrightarrow>
        translate (pg_mem pg) (frame_addr d) va = None) \<and>
    (\<forall>e\<in>D. \<forall>va. e \<noteq> d \<and> unat va < 0xC0000000 \<longrightarrow>
        translate (pg_mem pg) (frame_addr e) va = translate (pg_mem (vmm (sy_k s))) (frame_addr e) va)"
proof -
  let ?pg = "vmm (sy_k s)" and ?n = "(unat nb + 4095) div 4096" and ?o = "break_page pr"
  have us: "proc_pd pr = PHYS_TO_VIRT (frame_addr d)" "d \<in> D" "spaces ?pg D" "user_tables ?pg d"
    and bp: "lo \<le> ?o" "?o \<le> 0xC0000"
    using h by (simp_all add: heap_ok_def user_space_def)
  obtain fs where fs: "length fs = ?o - lo" "distinct fs" "\<forall>f\<in>set fs. data_frame ?pg D f"
    "\<forall>j<length fs. page_maps ?pg d (lo + j) (fs ! j)"
    using h unfolding heap_ok_def by blast
  have taken: "\<forall>f\<in>set fs. f \<notin> free_frames (pg_frames ?pg)" using fs(4) by (auto simp: in_set_conv_nth page_maps_def)
  note np = page_up_frame [OF nb(2), folded new]
  note op = page_up_frame [OF bp(2) [unfolded break_page_def], folded old break_page_def]
  consider "?o < ?n" | "?n < ?o" | "?n = ?o" by linarith
  then show ?thesis
  proof cases
    case 1
    then have "new_page > old_page" using np(2) op(2) by (simp add: word_less_nat_alt)
    then have m: "map_pages ?pg (PHYS_TO_VIRT (frame_addr d)) old_page 0 (?n - ?o) = Inr pg"
      using r us(1) page_distance [OF op(2) np(2)] 1 by simp
    have "entry_frame old_page + 0 + (?n - ?o) \<le> 0xC0000" using op(1) 1 nb(2) by simp
    note mr = map_pages_result [OF us(3,2,4) this m, unfolded op(1)]
    from mr obtain gs where gs: "length gs = ?n - ?o" "distinct gs" "set gs \<subseteq> free_frames (pg_frames ?pg)"
      "\<forall>f\<in>set gs. data_frame pg D f" "\<forall>j<?n - ?o. page_maps pg d (?o + 0 + j) (gs ! j)" by blast
    have mr': "\<And>v f. v < ?o \<Longrightarrow> page_maps ?pg d v f \<Longrightarrow> page_maps pg d v f"
      "\<And>f. f \<notin> free_frames (pg_frames ?pg) \<Longrightarrow> data_frame ?pg D f \<Longrightarrow> data_frame pg D f" using mr by auto
    have "\<exists>fs. length fs = ?n - lo \<and> distinct fs \<and> (\<forall>f\<in>set fs. data_frame pg D f) \<and>
        (\<forall>j<length fs. page_maps pg d (lo + j) (fs ! j))"
    proof (rule exI [of _ "fs @ gs"], intro conjI allI impI)
      show "length (fs @ gs) = ?n - lo" using fs(1) gs(1) 1 bp(1) by simp
      show "distinct (fs @ gs)" using fs(2) gs(2,3) taken by auto
      show "\<forall>f\<in>set (fs @ gs). data_frame pg D f" using fs(3) gs(4) taken mr'(2) by auto
      fix j assume j: "j < length (fs @ gs)"
      show "page_maps pg d (lo + j) ((fs @ gs) ! j)"
      proof (cases "j < length fs")
        case True
        then show ?thesis using fs(1,4) mr'(1) [of "lo + j"] by (simp add: nth_append)
      next
        case False
        moreover have "j < length fs + length gs" using j by simp
        ultimately have eq: "lo + j = ?o + 0 + (j - length fs)" "j - length fs < ?n - ?o" using fs(1) gs(1) bp(1) by linarith+
        have "page_maps pg d (?o + 0 + (j - length fs)) (gs ! (j - length fs))" using gs(5) eq(2) by blast
        then show ?thesis unfolding eq(1) nth_append using False by (simp only: if_False)
      qed
    qed
    then show ?thesis using mr 1 by auto
  next
    case 2
    then have lt: "new_page < old_page" using np(2) op(2) by (simp add: word_less_nat_alt)
    then have u: "unmap_pages ?pg (PHYS_TO_VIRT (frame_addr d)) new_page 0 (?o - ?n) = Inr pg"
      using r us(1) page_distance [OF np(2) op(2)] 2 by (simp add: order_less_not_sym)
    let ?hs = "drop (?n - lo) fs"
    have k: "?n - lo \<le> length fs" using fs(1) 2 nb(1) by simp
    have fit: "entry_frame new_page + 0 + (?o - ?n) \<le> 0xC0000" using np(1) 2 bp(2) by simp
    have len: "length ?hs = ?o - ?n" using fs(1) nb(1) 2 by simp
    have maps: "\<forall>j<?o - ?n. page_maps ?pg d (entry_frame new_page + 0 + j) (?hs ! j)"
    proof (intro allI impI)
      fix j assume "j < ?o - ?n"
      then have "(?n - lo) + j < length fs" "lo + ((?n - lo) + j) = ?n + j" using fs(1) nb(1) by simp_all
      then show "page_maps ?pg d (entry_frame new_page + 0 + j) (?hs ! j)"
        using fs(4) k np(1) by (metis add.right_neutral nth_drop)
    qed
    have dist: "distinct ?hs" using fs(2) by simp
    have good: "\<forall>f\<in>set ?hs. data_frame ?pg D f \<and> f \<notin> free_frames (pg_frames ?pg)"
      using fs(3) taken by (meson in_set_dropD)
    have ends: "?n + 0 = ?n" "?n + (?o - ?n) = ?o" using 2 by simp_all
    obtain pg' where pg': "unmap_pages ?pg (PHYS_TO_VIRT (frame_addr d)) new_page 0 (?o - ?n) = Inr pg'" "spaces pg' D"
      "free_frames (pg_frames pg') = free_frames (pg_frames ?pg) \<union> set ?hs"
      "\<And>va. ?n \<le> entry_frame va \<Longrightarrow> entry_frame va < ?o \<Longrightarrow> translate (pg_mem pg') (frame_addr d) va = None"
      "\<And>e va. e \<in> D \<Longrightarrow> entry_frame va < ?n \<or> (e \<noteq> d \<and> unat va < 0xC0000000) \<Longrightarrow>
         translate (pg_mem pg') (frame_addr e) va = translate (pg_mem ?pg) (frame_addr e) va"
      "\<forall>e\<in>D. \<forall>i<1024. pg_mem pg' (slot e i) = pg_mem ?pg (slot e i)" "\<forall>g. data_frame ?pg D g \<longrightarrow> data_frame pg' D g"
      using unmap_pages_result [OF us(3,2) fit len dist good maps, unfolded np(1) ends] by (elim exE conjE) (rule that; blast)
    have pgeq: "pg' = pg" using pg'(1) u by simp
    have keep: "set (take (?n - lo) fs) \<inter> set ?hs = {}" using fs(2) by (metis append_take_drop_id distinct_append)
    have "\<exists>fs. length fs = ?n - lo \<and> distinct fs \<and> (\<forall>f\<in>set fs. data_frame pg D f) \<and>
        (\<forall>j<length fs. page_maps pg d (lo + j) (fs ! j))"
    proof (rule exI [of _ "take (?n - lo) fs"], intro conjI allI impI)
      show "length (take (?n - lo) fs) = ?n - lo" "distinct (take (?n - lo) fs)" using k fs(2) by simp_all
      show "\<forall>f\<in>set (take (?n - lo) fs). data_frame pg D f"
        using fs(3) pg'(7) unfolding pgeq by (meson in_set_takeD)
      fix j assume j: "j < length (take (?n - lo) fs)"
      then have m: "page_maps ?pg d (lo + j) (fs ! j)" using fs(4) by simp
      have "fs ! j \<notin> set ?hs" using keep j k by (metis disjoint_iff nth_mem nth_take length_take min.absorb2)
      then show "page_maps pg d (lo + j) (take (?n - lo) fs ! j)"
        using m j k nb(1) pg'(3) pg'(5) [OF us(2)] unfolding pgeq page_maps_def by auto
    qed
    moreover have "user_tables pg d" using us(2,4) pg'(6) by (simp add: user_tables_def pgeq)
    ultimately show ?thesis using pg'(2,4,5) by (auto simp: pgeq)
  next
    case 3
    then have "new_page = old_page" using np(2) op(2) by (simp add: word_unat_eq_iff)
    then have "pg = ?pg" using r by simp
    then show ?thesis using us fs 3 by (auto intro!: exI [of _ fs])
  qed
qed

text \<open>
  C22. \<open>sbrk\<close> moves the break by the increment, read as a signed number, and returns the old break. A
  heap whose pages up to the break are each mapped to a frame of its own stays so, growing or
  shrinking; the pages that a smaller break gives up are not mapped any more, and no other process
  sees a change in its user half.
\<close>

theorem sys_sbrk_heap:
  assumes "heap_ok s p pr D d lo" and "nb = new_break (program_break pr) (EBX s regs)"
    and "lo \<le> (unat nb + 4095) div 4096" and "(unat nb + 4095) div 4096 \<le> 0xC0000"
    and "syscall_sbrk p regs s = Inr (ret, s1)"
  shows "ret = 0 \<and> EAX s1 regs = program_break pr \<and> heap_ok s1 p (pr\<lparr>program_break := nb\<rparr>) D d lo \<and>
    (\<forall>va. (unat nb + 4095) div 4096 \<le> entry_frame va \<and> entry_frame va < break_page pr \<longrightarrow>
       translate (pg_mem (vmm (sy_k s1))) (frame_addr d) va = None) \<and>
    (\<forall>e\<in>D. \<forall>va. e \<noteq> d \<and> unat va < 0xC0000000 \<longrightarrow>
       translate (pg_mem (vmm (sy_k s1))) (frame_addr e) va = translate (pg_mem (vmm (sy_k s))) (frame_addr e) va)"
proof -
  have us: "lookup (sy_k s) p = Inr pr" "d \<in> D" "proc_pd pr = PHYS_TO_VIRT (frame_addr d)"
    using assms(1) by (simp_all add: heap_ok_def user_space_def)
  from assms(5) us(1) obtain pg where
    r: "(if page_up nb > page_up (program_break pr) then map_pages (vmm (sy_k s)) (proc_pd pr) (page_up (program_break pr)) 0
          (unat ((page_up nb - page_up (program_break pr)) div 4096))
        else if page_up nb < page_up (program_break pr) then unmap_pages (vmm (sy_k s)) (proc_pd pr) (page_up nb) 0
          (unat ((page_up (program_break pr) - page_up nb) div 4096))
        else Inr (vmm (sy_k s))) = Inr pg"
    and s1: "ret = 0" "s1 = set_EAX regs (program_break pr) (set_proc p (pr\<lparr>program_break := nb\<rparr>) (s\<lparr>sy_k := (sy_k s)\<lparr>vmm := pg\<rparr>\<rparr>))"
    unfolding syscall_sbrk_def Let_def assms(2) by (auto simp: and_then_Inr)
  note sb = sbrk_pages [OF assms(1,3,4) refl refl r]
  have st: "vmm (sy_k s1) = pg" "lookup (sy_k s1) p = Inr (pr\<lparr>program_break := nb\<rparr>)" by (simp_all add: s1(2))
  have "heap_ok s1 p (pr\<lparr>program_break := nb\<rparr>) D d lo"
    using sb us(2,3) assms(3,4) by (simp add: heap_ok_def user_space_def st break_page_def)
  then show ?thesis using sb s1 by (simp add: st)
qed

lemma demo_heap: "heap_ok (demo_sys b) 0x100 demo_user {1} 1 9"
  using demo_sys_facts(2) by (simp add: heap_ok_def break_page_def) (simp add: demo_user_def)

theorem sys_sbrk_heap_witness:
  "\<exists>s1. syscall_sbrk 0x100 demo_regs (demo_sys 5000) = Inr (0, s1) \<and> EAX s1 demo_regs = 0x9000 \<and>
     heap_ok s1 0x100 (demo_user\<lparr>program_break := 0xA388\<rparr>) {1} 1 9"
proof -
  have br: "program_break demo_user = 0x9000" by (simp add: demo_user_def)
  have nb: "new_break 0x9000 5000 = 0xA388" by code_simp
  have up: "page_up 0xA388 = 0xB000" "page_up 0x9000 = 0x9000" by code_simp+
  have us: "lookup (sy_k (demo_sys 5000)) 0x100 = Inr demo_user" "spaces (vmm demo_kernel) {1}" "user_tables (vmm demo_kernel) 1"
    "proc_pd demo_user = PHYS_TO_VIRT (frame_addr 1)"
    using demo_sys_facts(2,3) [of 5000] by (simp_all add: user_space_def)
  have e: "entry_frame (0x9000 :: u32) = 9" by (simp add: entry_frame_def drop_bit_eq_div)
  obtain pg where "map_pages (vmm demo_kernel) (PHYS_TO_VIRT (frame_addr 1)) 0x9000 0 2 = Inr pg"
    using map_pages_total [OF us(2) _ us(3), of "0x9000" 0 2] demo_kernel_spaces(3) e by auto
  then have "\<exists>s1. syscall_sbrk 0x100 demo_regs (demo_sys 5000) = Inr (0, s1)"
    unfolding syscall_sbrk_def by (simp add: us(1,4) br nb up demo_sys_facts Let_def del: map_pages.simps)
  then obtain s1 where s1: "syscall_sbrk 0x100 demo_regs (demo_sys 5000) = Inr (0, s1)" by blast
  have nb': "(0xA388 :: u32) = new_break (program_break demo_user) (EBX (demo_sys 5000) demo_regs)"
    by (simp add: br nb demo_sys_facts)
  from sys_sbrk_heap [OF demo_heap nb' _ _ s1] s1 show ?thesis by (simp add: br)
qed

end
