(* ===== verification/UserProcess.thy ===== *)
theory UserProcess
  imports UserMemory
begin

text \<open>
  The system calls on processes: how \<open>waitpid\<close>, \<open>exit\<close> and \<open>kill\<close> play together, and what a program can
  do to the kernel with arguments that nothing checks.
\<close>

section \<open>Looking processes up\<close>

lemma find_pid_update:
  assumes "ptab k q = Some old" "proc_id new = proc_id old"
  shows "find_pid (update k q new) pid ps = find_pid k pid ps"
  using assms by (induction ps) (simp_all add: lookup_def update_def split: option.split)

lemma get_proc_update:
  assumes "lookup k q = Inr old" "proc_id new = proc_id old"
  shows "scheduler_get_proc (update k q new) pid = scheduler_get_proc k pid"
proof -
  have "ptab k q = Some old" using assms(1) by (simp add: lookup_def split: option.splits)
  then show ?thesis using find_pid_update [of k q old new] assms(2)
    by (simp add: scheduler_get_proc_def proc_at_def) (simp add: update_def)
qed

lemma lookup_update: "lookup (update k q new) r = (if r = q then Inr new else lookup k r)"
  by (simp add: lookup_def update_def)

lemma lookup_ptab: "lookup k q = Inr r \<longleftrightarrow> ptab k q = Some r"
  by (simp add: lookup_def split: option.splits)

lemma set_proc_simps [simp]:
  "kbytes (sy_k (set_proc q r s)) = kbytes (sy_k s)" "procs (sy_k (set_proc q r s)) = procs (sy_k s)"
  "procs (update k q r) = procs k" "kbytes (update k q r) = kbytes k"
  by (simp_all add: set_proc_def update_def)

lemma notify_parent_waiting:
  assumes "lookup k c = Inr ch" "parent_pid ch \<noteq> 0" "scheduler_get_proc k (parent_pid ch) = Inr p" "p \<noteq> 0"
    and "lookup k p = Inr pr" "proc_state pr = BLOCKED" "waiting_for pr = proc_id ch"
  shows "scheduler_notify_parent c k = Inr (update k p (pr\<lparr>proc_state := READY, waiting_for := 0\<rparr>))"
  using assms unfolding scheduler_notify_parent_def lookup_ptab by (simp add: lookup_ptab [THEN iffD2] Let_def)

section \<open>Waiting for a child\<close>

text \<open>\<open>p\<close> is blocked until its child \<open>c\<close> ends.\<close>

definition waits_for :: "sys \<Rightarrow> u32 \<Rightarrow> proc \<Rightarrow> u32 \<Rightarrow> proc \<Rightarrow> bool" where
  "waits_for s p pr c ch \<longleftrightarrow> p \<noteq> 0 \<and> p \<noteq> c \<and> lookup (sy_k s) p = Inr pr \<and> lookup (sy_k s) c = Inr ch \<and>
     proc_id pr \<noteq> 0 \<and> parent_pid ch = proc_id pr \<and> scheduler_get_proc (sy_k s) (proc_id pr) = Inr p \<and>
     proc_state pr = BLOCKED \<and> waiting_for pr = proc_id ch"

lemma waitpid_blocks:
  assumes "scheduler_get_proc (sy_k s) (EBX s regs) = Inr c" "c \<noteq> 0" "p \<noteq> 0" "p \<noteq> c"
    and "lookup (sy_k s) p = Inr pr" "lookup (sy_k s) c = Inr ch" "proc_id ch = EBX s regs"
    and "proc_id pr \<noteq> 0" "parent_pid ch = proc_id pr" "proc_state ch \<noteq> ZOMBIE"
    and "scheduler_get_proc (sy_k s) (proc_id pr) = Inr p"
  shows "\<exists>s1. syscall_waitpid p regs s = Inr (0, s1) \<and> EAX s1 regs = EAX s regs \<and>
     waits_for s1 p (pr\<lparr>proc_state := BLOCKED, waiting_for := EBX s regs\<rparr>) c ch"
proof -
  let ?pr = "pr\<lparr>proc_state := BLOCKED, waiting_for := EBX s regs\<rparr>"
  have "syscall_waitpid p regs s = Inr (0, set_proc p ?pr s)"
    using assms by (simp add: syscall_waitpid_def Let_def)
  moreover have "waits_for (set_proc p ?pr s) p ?pr c ch"
    using assms get_proc_update [OF assms(5), of ?pr] by (simp add: waits_for_def lookup_update)
  moreover have "EAX (set_proc p ?pr s) regs = EAX s regs" by (simp add: EAX_def reg_def)
  ultimately show ?thesis by blast
qed

lemma exit_wakes:
  assumes "waits_for s p pr c ch"
  shows "\<exists>s1. syscall_exit c regs s = Inr (0, s1) \<and> lookup (sy_k s1) p = Inr (pr\<lparr>proc_state := READY, waiting_for := 0\<rparr>) \<and>
    lookup (sy_k s1) c = Inr (ch\<lparr>proc_state := ZOMBIE, exit_code := EBX s regs\<rparr>) \<and>
    kbytes (sy_k s1) = kbytes (sy_k s) \<and> procs (sy_k s1) = procs (sy_k s)"
proof -
  let ?ch = "ch\<lparr>proc_state := ZOMBIE, exit_code := EBX s regs\<rparr>"
  let ?k = "update (sy_k s) c ?ch"
  have w: "p \<noteq> 0" "p \<noteq> c" "lookup (sy_k s) p = Inr pr" "lookup (sy_k s) c = Inr ch" "proc_id pr \<noteq> 0"
    "parent_pid ch = proc_id pr" "scheduler_get_proc (sy_k s) (proc_id pr) = Inr p" "proc_state pr = BLOCKED"
    "waiting_for pr = proc_id ch"
    using assms by (simp_all add: waits_for_def)
  have "scheduler_notify_parent c ?k = Inr (update ?k p (pr\<lparr>proc_state := READY, waiting_for := 0\<rparr>))"
    by (rule notify_parent_waiting [where ch = ?ch])
      (use w get_proc_update [OF w(4), of ?ch] in \<open>simp_all add: lookup_update\<close>)
  then show ?thesis using w(2,4) by (simp add: syscall_exit_def lookup_update)
qed

lemma kill_leaves_parent:
  assumes "waits_for s p pr c ch" "scheduler_get_proc (sy_k s) (EBX s regs) = Inr c" "c \<noteq> 0"
  shows "\<exists>s1. syscall_kill q regs s = Inr (0, s1) \<and> lookup (sy_k s1) p = Inr pr \<and>
    lookup (sy_k s1) c = Inr (ch\<lparr>proc_state := ZOMBIE\<rparr>)"
  using assms by (simp add: syscall_kill_def waits_for_def Let_def set_proc_def lookup_update)

text \<open>
  C23. \<open>waitpid\<close> on a running child blocks the caller and leaves \<open>EAX\<close>, its return value, at the number of
  the call. When the child exits, the parent is made ready again, with the same saved registers, so it
  gets that number back and not the exit code, and the child stays in the pool as a zombie: a second
  \<open>waitpid\<close> is needed. When the child is killed instead, nothing wakes the parent.
\<close>

theorem sys_wait_exit:
  assumes "scheduler_get_proc (sy_k s) (EBX s regs) = Inr c" and "c \<noteq> 0" and "p \<noteq> 0" and "p \<noteq> c"
    and "lookup (sy_k s) p = Inr pr" and "lookup (sy_k s) c = Inr ch" and "proc_id ch = EBX s regs"
    and "proc_id pr \<noteq> 0" and "parent_pid ch = proc_id pr" and "proc_state ch \<noteq> ZOMBIE"
    and "scheduler_get_proc (sy_k s) (proc_id pr) = Inr p"
  shows "\<exists>s1 pr1. syscall_waitpid p regs s = Inr (0, s1) \<and> EAX s1 regs = EAX s regs \<and> waits_for s1 p pr1 c ch \<and>
    (\<forall>s2 pr2 ch2 regs2. waits_for s2 p pr2 c ch2 \<longrightarrow>
       (\<exists>s3. syscall_exit c regs2 s2 = Inr (0, s3) \<and> EAX s3 regs = EAX s2 regs \<and>
          lookup (sy_k s3) p = Inr (pr2\<lparr>proc_state := READY, waiting_for := 0\<rparr>) \<and>
          lookup (sy_k s3) c = Inr (ch2\<lparr>proc_state := ZOMBIE, exit_code := EBX s2 regs2\<rparr>) \<and>
          procs (sy_k s3) = procs (sy_k s2))) \<and>
    (\<forall>s2 pr2 ch2 q regs2. waits_for s2 p pr2 c ch2 \<and> scheduler_get_proc (sy_k s2) (EBX s2 regs2) = Inr c \<longrightarrow>
       (\<exists>s3. syscall_kill q regs2 s2 = Inr (0, s3) \<and> lookup (sy_k s3) p = Inr pr2 \<and> proc_state pr2 = BLOCKED \<and>
          lookup (sy_k s3) c = Inr (ch2\<lparr>proc_state := ZOMBIE\<rparr>)))"
proof -
  have "\<exists>s3. syscall_exit c regs2 s2 = Inr (0, s3) \<and> EAX s3 regs = EAX s2 regs \<and>
          lookup (sy_k s3) p = Inr (pr2\<lparr>proc_state := READY, waiting_for := 0\<rparr>) \<and>
          lookup (sy_k s3) c = Inr (ch2\<lparr>proc_state := ZOMBIE, exit_code := EBX s2 regs2\<rparr>) \<and>
          procs (sy_k s3) = procs (sy_k s2)" if "waits_for s2 p pr2 c ch2" for s2 pr2 ch2 regs2
    using exit_wakes [OF that, of regs2] by (auto simp: EAX_def reg_def)
  moreover have "\<exists>s3. syscall_kill q regs2 s2 = Inr (0, s3) \<and> lookup (sy_k s3) p = Inr pr2 \<and> proc_state pr2 = BLOCKED \<and>
          lookup (sy_k s3) c = Inr (ch2\<lparr>proc_state := ZOMBIE\<rparr>)"
    if "waits_for s2 p pr2 c ch2" "scheduler_get_proc (sy_k s2) (EBX s2 regs2) = Inr c" for s2 pr2 ch2 q regs2
    using kill_leaves_parent [OF that assms(2), of q] that(1) by (auto simp: waits_for_def)
  ultimately show ?thesis using waitpid_blocks [OF assms] by blast
qed

text \<open>A shell, process 1, with a child, process 2.\<close>

definition demo_family :: "u32 \<Rightarrow> sys" where
  "demo_family b = (demo_sys b)\<lparr>sy_k := (sy_k (demo_sys b))\<lparr>
     ptab := [0x100 \<mapsto> demo_user, 0x200 \<mapsto> zero_proc\<lparr>proc_id := 2, parent_pid := 1, proc_state := READY\<rparr>],
     procs := \<lparr>da_data = [Some 0x100, Some 0x200], da_count = 2, da_capacity = 2\<rparr>\<rparr>\<rparr>"

lemma demo_family_facts:
  "EBX (demo_family b) demo_regs = b" "lookup (sy_k (demo_family b)) 0x100 = Inr demo_user"
  "lookup (sy_k (demo_family b)) 0x200 = Inr (zero_proc\<lparr>proc_id := 2, parent_pid := 1, proc_state := READY\<rparr>)"
  "proc_id demo_user = 1" "length (fds demo_user) = MAX_FDS" "\<forall>i<16. fds demo_user ! i = None"
  "current_proc (sy_k (demo_family b)) = 0x100"
  using demo_sys_facts(1) [of b]
  by (simp_all add: demo_family_def EBX_def reg_def lookup_def demo_user_def zero_proc_def MAX_FDS_def nth_replicate demo_sys_def)

lemma demo_family_pids:
  "scheduler_get_proc (sy_k (demo_family b)) 1 = Inr 0x100" "scheduler_get_proc (sy_k (demo_family b)) 2 = Inr 0x200"
  "scheduler_get_proc (sy_k (demo_family b)) 7 = Inr 0"
proof -
  have "unat (da_count (procs (sy_k (demo_family b)))) = 2" by (simp add: demo_family_def)
  then have c: "[0..<unat (da_count (procs (sy_k (demo_family b))))] = [0, 1]" using upt_conv_Cons [of 0 2] upt_conv_Cons [of 1 2] by simp
  have at: "proc_at (sy_k (demo_family b)) 0 = 0x100" "proc_at (sy_k (demo_family b)) 1 = 0x200"
    by (simp_all add: proc_at_def dynarray_get_def demo_family_def word_le_nat_alt)
  have pt: "ptab (sy_k (demo_family b)) 0x100 = Some demo_user"
    "ptab (sy_k (demo_family b)) 0x200 = Some (zero_proc\<lparr>proc_id := 2, parent_pid := 1, proc_state := READY\<rparr>)"
    by (simp_all add: demo_family_def)
  show "scheduler_get_proc (sy_k (demo_family b)) 1 = Inr 0x100" "scheduler_get_proc (sy_k (demo_family b)) 2 = Inr 0x200"
    "scheduler_get_proc (sy_k (demo_family b)) 7 = Inr 0"
    using demo_family_facts(4) by (simp_all add: scheduler_get_proc_def c at pt lookup_def)
qed

theorem sys_wait_exit_witness:
  "\<exists>s1 s3. syscall_waitpid 0x100 demo_regs (demo_family 2) = Inr (0, s1) \<and> syscall_exit 0x200 demo_regs s1 = Inr (0, s3) \<and>
     EAX s3 demo_regs = EAX (demo_family 2) demo_regs"
proof -
  let ?ch = "zero_proc\<lparr>proc_id := 2, parent_pid := 1, proc_state := READY\<rparr>"
  have g: "scheduler_get_proc (sy_k (demo_family 2)) (EBX (demo_family 2) demo_regs) = Inr 0x200"
    "scheduler_get_proc (sy_k (demo_family 2)) (proc_id demo_user) = Inr 0x100"
    by (simp_all add: demo_family_facts demo_family_pids)
  from sys_wait_exit [OF g(1) _ _ _ demo_family_facts(2,3) _ _ _ _ g(2)] obtain s1 pr1 where
    s1: "syscall_waitpid 0x100 demo_regs (demo_family 2) = Inr (0, s1)" "EAX s1 demo_regs = EAX (demo_family 2) demo_regs"
      "waits_for s1 0x100 pr1 0x200 ?ch"
    and ex: "\<And>s2 pr2 ch2 regs2. waits_for s2 0x100 pr2 0x200 ch2 \<Longrightarrow>
       \<exists>s3. syscall_exit 0x200 regs2 s2 = Inr (0, s3) \<and> EAX s3 demo_regs = EAX s2 demo_regs"
    by (simp add: demo_family_facts) meson
  from ex [OF s1(3), of demo_regs] s1(1,2) show ?thesis by auto
qed

section \<open>Arguments that nothing checks\<close>

text \<open>What the dispatcher prints for a number it does not know.\<close>

definition unknown_syscall_msg :: "u32 \<Rightarrow> u8 list" where
  "unknown_syscall_msg num =
     map of_char ''[syscall_handler] <warn>: unknown syscall: '' @ map emit_char (emit_x num) @ [0x0A]"

lemma unknown_syscall_warn:
  "TTY_WARN ''syscall_handler'' (nl_str ''unknown syscall: %x'') [VaInt num] s =
     Inr (s\<lparr>sy_out := sy_out s @ unknown_syscall_msg num\<rparr>)"
proof -
  have f: "map of_char ''[%s] <warn>: '' @ nl_str ''unknown syscall: %x'' =
      [0x5B :: u8] @ 0x25 # 0x73 # map of_char ''] <warn>: unknown syscall: '' @ 0x25 # 0x78 # 0x0A # []"
    by code_simp
  have v: "verbatim [0x5B]" "verbatim (map of_char ''] <warn>: unknown syscall: '')" by code_simp+
  have m: "map of_char ''[syscall_handler] <warn>: unknown syscall: '' =
      [0x5B :: u8] @ map of_char ''syscall_handler'' @ map of_char ''] <warn>: unknown syscall: ''" by code_simp
  show ?thesis unfolding TTY_WARN_def f kvprintf_verbatim [OF v(1)] kvprintf_pieces(2) kvprintf_verbatim [OF v(2)] kvprintf_pieces(3,1)
    unfolding unknown_syscall_msg_def m by simp
qed

text \<open>
  C24. With the calls \<open>close\<close> and \<open>kill\<close> a program brings the kernel down: closing a descriptor from 3 on
  that is not open follows a null pointer, one from 16 on reads behind the array, and killing a process
  that does not exist writes through a null pointer. A call with an unknown number prints a warning on the
  terminal, changes nothing else and returns to the program.
\<close>

theorem sys_user_faults:
  assumes "current_proc (sy_k s) = p" and "p \<noteq> 0" and "lookup (sy_k s) p = Inr pr" and "length (fds pr) = MAX_FDS"
  shows "(EAX s regs = 4 \<and> 3 \<le> EBX s regs \<and> unat (EBX s regs) < MAX_FDS \<and> fds pr ! unat (EBX s regs) = None \<longrightarrow>
       syscall_handler newp fresh regs s = Inl (KFault ''fds[fd]->global_fd'')) \<and>
    (EAX s regs = 4 \<and> MAX_FDS \<le> unat (EBX s regs) \<longrightarrow>
       syscall_handler newp fresh regs s = Inl (KFault ''fds index'')) \<and>
    (EAX s regs = 9 \<and> scheduler_get_proc (sy_k s) (EBX s regs) = Inr 0 \<longrightarrow>
       syscall_handler newp fresh regs s = Inl (KFault ''p_to_kill'')) \<and>
    ((EAX s regs = 0 \<or> 15 < EAX s regs) \<and> \<not> waiting_state (proc_state pr) \<longrightarrow>
       syscall_handler newp fresh regs s = Inr (0, s\<lparr>sy_out := sy_out s @ unknown_syscall_msg (EAX s regs)\<rparr>))"
proof (intro conjI impI)
  have h: "syscall_handler newp fresh regs s =
      and_then (run_syscall newp fresh (EAX s regs) p regs s) (\<lambda>(ret, s1). and_then (lookup (sy_k s1) p) (\<lambda>pr.
        (if waiting_state (proc_state pr)
         then and_then (scheduler_yield regs (sy_k s1)) (\<lambda>(esp, k2). Inr (esp, s1\<lparr>sy_k := k2\<rparr>)) else Inr (0, s1))))"
    using assms(1,2) by (simp add: syscall_handler_def Let_def)
  show "syscall_handler newp fresh regs s = Inl (KFault ''fds[fd]->global_fd'')"
    if "EAX s regs = 4 \<and> 3 \<le> EBX s regs \<and> unat (EBX s regs) < MAX_FDS \<and> fds pr ! unat (EBX s regs) = None"
    using that assms(3,4) by (simp add: h run_syscall_def syscall_close_def proc_close_fd_def proc_fd_def not_less [symmetric])
  show "syscall_handler newp fresh regs s = Inl (KFault ''fds index'')" if "EAX s regs = 4 \<and> MAX_FDS \<le> unat (EBX s regs)"
  proof -
    have "\<not> EBX s regs < 3" using that by (simp add: word_less_nat_alt MAX_FDS_def)
    then show ?thesis using that assms(3,4) by (simp add: h run_syscall_def syscall_close_def proc_close_fd_def proc_fd_def)
  qed
  show "syscall_handler newp fresh regs s = Inl (KFault ''p_to_kill'')"
    if "EAX s regs = 9 \<and> scheduler_get_proc (sy_k s) (EBX s regs) = Inr 0"
    using that by (simp add: h run_syscall_def syscall_kill_def Let_def)
  show "syscall_handler newp fresh regs s = Inr (0, s\<lparr>sy_out := sy_out s @ unknown_syscall_msg (EAX s regs)\<rparr>)"
    if "(EAX s regs = 0 \<or> 15 < EAX s regs) \<and> \<not> waiting_state (proc_state pr)"
  proof -
    have "EAX s regs \<noteq> n" if "n \<noteq> 0" "n \<le> 15" for n using that \<open>(EAX s regs = 0 \<or> 15 < EAX s regs) \<and> _\<close> by auto
    then have "run_syscall newp fresh (EAX s regs) p regs s = Inr (0, s\<lparr>sy_out := sy_out s @ unknown_syscall_msg (EAX s regs)\<rparr>)"
      by (simp add: run_syscall_def unknown_syscall_warn)
    then show ?thesis using that assms(3) by (simp add: h)
  qed
qed

theorem sys_user_faults_witness:
  "\<exists>s. current_proc (sy_k s) = 0x100 \<and> EAX s demo_regs = 9 \<and> syscall_handler 0x300 (\<lambda>i. 0) demo_regs s = Inl (KFault ''p_to_kill'')"
proof -
  let ?s = "set_EAX demo_regs 9 (demo_family 7)"
  have l: "lookup (sy_k ?s) 0x100 = Inr demo_user" by (simp add: demo_family_facts)
  have b: "EBX ?s demo_regs = 7"
    using demo_family_facts(1) [of 7] by (simp add: EBX_def reg_def set_EAX_def ld32_def st32_def demo_regs_def)
  have c: "current_proc (sy_k ?s) = 0x100" using demo_family_facts(7) by (simp add: set_EAX_def)
  have g: "scheduler_get_proc (sy_k ?s) 7 = Inr 0"
  proof -
    have "find_pid (k\<lparr>kbytes := m\<rparr>) pid ps = find_pid k pid ps" for k m pid ps
      by (induction ps) (simp_all add: lookup_def split: option.split)
    then show ?thesis using demo_family_pids(3) [of 7] by (simp add: set_EAX_def scheduler_get_proc_def proc_at_def)
  qed
  from sys_user_faults [OF c _ l demo_family_facts(5), of demo_regs "0x300" "\<lambda>i. 0"] show ?thesis
    using c b g by (intro exI [of _ ?s]) simp
qed

end
