(* ===== verification/Ata.thy ===== *)
theory Ata
  imports Disk
begin

text \<open>
  The disk driver, \<open>kernel/dev/src/ata.c\<close>, over the port instructions of \<open>kernel/hw/src/io.h\<close>. What
  answers at the ports is not code of the kernel: it is the argument \<open>bus\<close> of the routines. That it is a
  drive is the hypothesis \<open>ata_device\<close>: it answers as the protocol of the ATA standard for transfers by
  the processor has it, which \<open>ata_dev\<close> and its operations spell out, and it may do anything where the
  standard leaves it open: the error register has any value as long as there is no error to report, the
  drive above all busy, and registers that are written while the drive is busy or waits for data have any
  effect. Under it the driver transfers a front part of the sectors it is asked for, and all of them when it
  returns success. That it implements \<open>disk_read\<close> and \<open>disk_write\<close> exactly, on which the file system is
  built, needs more than the standard says, because the driver reads the error register while the drive is
  busy, and takes what it finds for an error; and because it sends the command to flush without waiting for
  the drive. Messages on the serial line are left out; reading the error register for them is not.
\<close>

section \<open>Ports\<close>

record 'd io_bus =
  bus_inb :: "u16 \<Rightarrow> 'd \<Rightarrow> u8 \<times> 'd"
  bus_inw :: "u16 \<Rightarrow> 'd \<Rightarrow> u16 \<times> 'd"
  bus_outb :: "u16 \<Rightarrow> u8 \<Rightarrow> 'd \<Rightarrow> 'd"
  bus_outw :: "u16 \<Rightarrow> u16 \<Rightarrow> 'd \<Rightarrow> 'd"

definition ATA_DATA :: u16 where "ATA_DATA = 0x1F0"
definition ATA_ERROR :: u16 where "ATA_ERROR = 0x1F1"
definition ATA_SECTOR_COUNT :: u16 where "ATA_SECTOR_COUNT = 0x1F2"
definition ATA_LBA_LOW :: u16 where "ATA_LBA_LOW = 0x1F3"
definition ATA_LBA_MID :: u16 where "ATA_LBA_MID = 0x1F4"
definition ATA_LBA_HIGH :: u16 where "ATA_LBA_HIGH = 0x1F5"
definition ATA_DRIVE_HEAD :: u16 where "ATA_DRIVE_HEAD = 0x1F6"
definition ATA_STATUS :: u16 where "ATA_STATUS = 0x1F7"
definition ATA_COMMAND :: u16 where "ATA_COMMAND = 0x1F7"

lemmas ata_ports = ATA_DATA_def ATA_ERROR_def ATA_SECTOR_COUNT_def ATA_LBA_LOW_def ATA_LBA_MID_def
  ATA_LBA_HIGH_def ATA_DRIVE_HEAD_def ATA_STATUS_def ATA_COMMAND_def

definition ATA_WAIT_TIMEOUT :: nat where "ATA_WAIT_TIMEOUT = 100000"

section \<open>The driver\<close>

text \<open>The two waiting loops: \<open>timeout\<close> is the value of the counter before it is decremented.\<close>

fun wait_bsy :: "'d io_bus \<Rightarrow> nat \<Rightarrow> 'd \<Rightarrow> bool \<times> 'd" where
  "wait_bsy bus 0 d = (False, d)"
| "wait_bsy bus (Suc timeout) d =
     (let (st, d1) = bus_inb bus ATA_STATUS d
      in if st AND 0x80 = 0 then (True, d1)
         else let (er, d2) = bus_inb bus ATA_ERROR d1
              in if er \<noteq> 0 \<or> timeout = 0 then (False, d2) else wait_bsy bus timeout d2)"

fun wait_drq :: "'d io_bus \<Rightarrow> nat \<Rightarrow> 'd \<Rightarrow> bool \<times> 'd" where
  "wait_drq bus 0 d = (False, d)"
| "wait_drq bus (Suc timeout) d =
     (let (st, d1) = bus_inb bus ATA_STATUS d
      in if st AND 0x08 \<noteq> 0 then (True, d1)
         else let (er, d2) = bus_inb bus ATA_ERROR d1
              in if er \<noteq> 0 \<or> timeout = 0 then (False, d2) else wait_drq bus timeout d2)"

definition ata_wait_bsy :: "'d io_bus \<Rightarrow> 'd \<Rightarrow> bool \<times> 'd" where
  "ata_wait_bsy bus = wait_bsy bus ATA_WAIT_TIMEOUT"

definition ata_wait_drq :: "'d io_bus \<Rightarrow> 'd \<Rightarrow> bool \<times> 'd" where
  "ata_wait_drq bus = wait_drq bus ATA_WAIT_TIMEOUT"

definition ata_get_error :: "'d io_bus \<Rightarrow> 'd \<Rightarrow> u8 \<times> 'd" where
  "ata_get_error bus = bus_inb bus ATA_ERROR"

text \<open>Words of the data port that go to the buffer one after the other, and the other way round.\<close>

fun read_words :: "'d io_bus \<Rightarrow> nat \<Rightarrow> 'd \<Rightarrow> u16 list \<times> 'd" where
  "read_words bus 0 d = ([], d)"
| "read_words bus (Suc n) d =
     (let (w, d1) = bus_inw bus ATA_DATA d; (ws, d2) = read_words bus n d1 in (w # ws, d2))"


text \<open>A buffer is its address, looked at for being null, and its words; 0 is the result of success here.\<close>

definition ata_identify :: "'d io_bus \<Rightarrow> u32 \<Rightarrow> 'd \<Rightarrow> u32 \<times> u16 list \<times> 'd" where
  "ata_identify bus buf d =
     (if buf = 0 then (- 1, [], d)
      else (case ata_wait_bsy bus d of
              (False, d1) \<Rightarrow> (- 1, [], d1)
            | (True, d1) \<Rightarrow>
                (case ata_wait_drq bus (bus_outb bus ATA_COMMAND 0xEC (bus_outb bus ATA_DRIVE_HEAD 0xE0 d1)) of
                   (False, d2) \<Rightarrow> (- 1, [], snd (ata_get_error bus d2))
                 | (True, d2) \<Rightarrow> (case read_words bus 256 d2 of (ws, d3) \<Rightarrow> (0, ws, d3)))))"

text \<open>The task file: the number of sectors, the 28 bits of the address, the drive, and the command.\<close>

definition ata_task :: "'d io_bus \<Rightarrow> u32 \<Rightarrow> u8 \<Rightarrow> u8 \<Rightarrow> 'd \<Rightarrow> 'd" where
  "ata_task bus lba count cmd d =
     (let d1 = bus_outb bus ATA_SECTOR_COUNT count d;
          d2 = bus_outb bus ATA_LBA_LOW (ucast lba) d1;
          d3 = bus_outb bus ATA_LBA_MID (ucast (drop_bit 8 lba)) d2;
          d4 = bus_outb bus ATA_LBA_HIGH (ucast (drop_bit 16 lba)) d3;
          d5 = bus_outb bus ATA_DRIVE_HEAD (ucast (0xE0 OR (drop_bit 24 lba AND 0xF))) d4
      in bus_outb bus ATA_COMMAND cmd d5)"

fun read_loop :: "'d io_bus \<Rightarrow> nat \<Rightarrow> 'd \<Rightarrow> bool \<times> u16 list \<times> 'd" where
  "read_loop bus 0 d = (True, [], d)"
| "read_loop bus (Suc n) d =
     (case ata_wait_drq bus d of
        (False, d1) \<Rightarrow> (False, [], snd (ata_get_error bus d1))
      | (True, d1) \<Rightarrow>
          (let (ws, d2) = read_words bus 256 d1; (ok, rest, d3) = read_loop bus n d2 in (ok, ws @ rest, d3)))"

definition ata_read :: "'d io_bus \<Rightarrow> u32 \<Rightarrow> u8 \<Rightarrow> u32 \<Rightarrow> 'd \<Rightarrow> bool \<times> u16 list \<times> 'd" where
  "ata_read bus lba sectors_count buf d =
     (if buf = 0 then (False, [], d)
      else (case ata_wait_bsy bus d of
              (False, d1) \<Rightarrow> (False, [], d1)
            | (True, d1) \<Rightarrow> read_loop bus (unat sectors_count) (ata_task bus lba sectors_count 0x20 d1)))"



section \<open>The protocol of the drive\<close>

text \<open>
  A sector as 256 words, the low byte first.
\<close>

fun words_of :: "u8 list \<Rightarrow> u16 list" where
  "words_of (a # b # bs) = (ucast a OR push_bit 8 (ucast b)) # words_of bs"
| "words_of _ = []"

definition bytes_of :: "u16 list \<Rightarrow> u8 list" where
  "bytes_of ws = concat (map (\<lambda>w. [ucast w, ucast (drop_bit 8 w)]) ws)"

text \<open>
  What the standard says of a drive. After a command, and after every sector that has been transferred, it
  is busy: for as many readings of the status register as \<open>ad_delays\<close> has for this phase. Then it asks for
  the transfer of the next sector, or has an error when it cannot find it. (This one takes no command while
  it is busy; of the drives below that is not assumed.)
\<close>

datatype ata_cmd = NoCmd | Reading | Writing

record ata_dev =
  ad_disk :: disk
  ad_ident :: "u16 list"
  ad_count :: u8
  ad_low :: u8
  ad_mid :: u8
  ad_high :: u8
  ad_head :: u8
  ad_error :: u8
  ad_cmd :: ata_cmd
  ad_lba :: u32
  ad_left :: nat
  ad_in :: "u16 list"
  ad_out :: "u16 list"
  ad_busy :: nat
  ad_delays :: "nat \<Rightarrow> nat"
  ad_phase :: nat

definition dev_delay :: "ata_dev \<Rightarrow> ata_dev" where
  "dev_delay s = s\<lparr>ad_busy := ad_delays s (ad_phase s), ad_phase := ad_phase s + 1\<rparr>"

definition dev_seek :: "ata_dev \<Rightarrow> ata_dev" where
  "dev_seek s =
     (if ad_left s = 0 then s\<lparr>ad_cmd := NoCmd, ad_in := []\<rparr>
      else if dk_bad (ad_disk s) (ad_lba s) then s\<lparr>ad_cmd := NoCmd, ad_in := [], ad_error := 0x10\<rparr>
      else s\<lparr>ad_in := (if ad_cmd s = Reading then words_of (dk_sector (ad_disk s) (ad_lba s)) else []), ad_out := []\<rparr>)"

definition dev_next :: "ata_dev \<Rightarrow> ata_dev" where
  "dev_next s = dev_delay (dev_seek (s\<lparr>ad_lba := lba28 (ad_lba s + 1), ad_left := ad_left s - 1\<rparr>))"

definition task_lba :: "ata_dev \<Rightarrow> u32" where
  "task_lba s = ucast (ad_low s) OR push_bit 8 (ucast (ad_mid s)) OR push_bit 16 (ucast (ad_high s)) OR
     push_bit 24 (ucast (ad_head s AND 0xF))"

definition task_count :: "ata_dev \<Rightarrow> nat" where
  "task_count s = (if ad_count s = 0 then 256 else unat (ad_count s))"

definition dev_command :: "u8 \<Rightarrow> ata_dev \<Rightarrow> ata_dev" where
  "dev_command c s =
     (let s1 = s\<lparr>ad_error := 0, ad_in := [], ad_out := [], ad_lba := task_lba s, ad_left := task_count s\<rparr>
      in if ad_busy s > 0 then s
         else if c = 0x20 then dev_delay (dev_seek (s1\<lparr>ad_cmd := Reading\<rparr>))
         else if c = 0x30 then dev_delay (dev_seek (s1\<lparr>ad_cmd := Writing\<rparr>))
         else if c = 0xEC then dev_delay (s1\<lparr>ad_cmd := Reading, ad_left := 1, ad_in := ad_ident s\<rparr>)
         else dev_delay (s1\<lparr>ad_cmd := NoCmd\<rparr>))"

definition dev_drq :: "ata_dev \<Rightarrow> bool" where
  "dev_drq s \<longleftrightarrow> ad_cmd s = Writing \<or> ad_cmd s = Reading \<and> ad_in s \<noteq> []"

definition dev_inb :: "u16 \<Rightarrow> ata_dev \<Rightarrow> u8 \<times> ata_dev" where
  "dev_inb p s =
     (if p = ATA_STATUS then
        (if ad_busy s > 0 then (0x80, s\<lparr>ad_busy := ad_busy s - 1\<rparr>)
         else (0x40 OR (if dev_drq s then 0x08 else 0) OR (if ad_error s \<noteq> 0 then 0x01 else 0), s))
      else if p = ATA_ERROR then (if ad_busy s > 0 then 0 else ad_error s, s)
      else (0, s))"

definition dev_inw :: "u16 \<Rightarrow> ata_dev \<Rightarrow> u16 \<times> ata_dev" where
  "dev_inw p s =
     (if p = ATA_DATA then
        (case ad_in s of
           [] \<Rightarrow> (0, s)
         | w # ws \<Rightarrow> (w, if ws = [] then dev_next (s\<lparr>ad_in := []\<rparr>) else s\<lparr>ad_in := ws\<rparr>))
      else (0, s))"

definition dev_outb :: "u16 \<Rightarrow> u8 \<Rightarrow> ata_dev \<Rightarrow> ata_dev" where
  "dev_outb p v s =
     (if p = ATA_SECTOR_COUNT then s\<lparr>ad_count := v\<rparr>
      else if p = ATA_LBA_LOW then s\<lparr>ad_low := v\<rparr>
      else if p = ATA_LBA_MID then s\<lparr>ad_mid := v\<rparr>
      else if p = ATA_LBA_HIGH then s\<lparr>ad_high := v\<rparr>
      else if p = ATA_DRIVE_HEAD then s\<lparr>ad_head := v\<rparr>
      else if p = ATA_COMMAND then dev_command v s
      else s)"

definition store_sector :: "ata_dev \<Rightarrow> u16 list \<Rightarrow> ata_dev" where
  "store_sector s ws =
     s\<lparr>ad_disk := (ad_disk s)\<lparr>dk_sector := (dk_sector (ad_disk s))(ad_lba s := bytes_of ws)\<rparr>\<rparr>"

definition dev_outw :: "u16 \<Rightarrow> u16 \<Rightarrow> ata_dev \<Rightarrow> ata_dev" where
  "dev_outw p w s =
     (if p = ATA_DATA \<and> ad_cmd s = Writing then
        (if length (ad_out s) = 255 then dev_next (store_sector (s\<lparr>ad_out := []\<rparr>) (ad_out s @ [w]))
         else s\<lparr>ad_out := ad_out s @ [w]\<rparr>)
      else s)"

definition dev_bus :: "ata_dev io_bus" where
  "dev_bus = \<lparr>bus_inb = dev_inb, bus_inw = dev_inw, bus_outb = dev_outb, bus_outw = dev_outw\<rparr>"

lemma dev_bus_simps [simp]:
  "bus_inb dev_bus = dev_inb" "bus_inw dev_bus = dev_inw" "bus_outb dev_bus = dev_outb" "bus_outw dev_bus = dev_outw"
  by (simp_all add: dev_bus_def)

text \<open>
  What is at the ports is a drive. The status register has the busy bit, and the bit that asks for data when the
  drive is not busy; as it prepares a sector that bit is clear. The error register is valid when there is an error and
  the drive is not busy. Data is transferred when the drive asks for it, and the other registers are written when it
  is neither busy nor asks for data. Nothing is said of any other access, and of no other port.
\<close>

definition ata_device :: "'d io_bus \<Rightarrow> ('d \<Rightarrow> ata_dev) \<Rightarrow> bool" where
  "ata_device bus dev \<longleftrightarrow>
     (\<forall>d. dev (snd (bus_inb bus ATA_STATUS d)) = snd (dev_inb ATA_STATUS (dev d)) \<and>
        fst (bus_inb bus ATA_STATUS d) AND 0x88 = fst (dev_inb ATA_STATUS (dev d)) AND 0x88) \<and>
     (\<forall>d. dev (snd (bus_inb bus ATA_ERROR d)) = dev d \<and>
        (ad_busy (dev d) = 0 \<and> ad_error (dev d) \<noteq> 0 \<longrightarrow> fst (bus_inb bus ATA_ERROR d) = ad_error (dev d))) \<and>
     (\<forall>d. ad_busy (dev d) = 0 \<and> dev_drq (dev d) \<longrightarrow>
        map_prod id dev (bus_inw bus ATA_DATA d) = dev_inw ATA_DATA (dev d) \<and>
        (\<forall>w. dev (bus_outw bus ATA_DATA w d) = dev_outw ATA_DATA w (dev d))) \<and>
     (\<forall>p v d. ad_busy (dev d) = 0 \<and> \<not> dev_drq (dev d) \<longrightarrow> dev (bus_outb bus p v d) = dev_outb p v (dev d))"




section \<open>The driver and the protocol\<close>

lemma status_bits:
  "(0x40 OR (if a then 0x08 else 0) OR (if b then 0x01 else 0) :: u8) AND 0x88 = (if a then 0x08 else 0)"
  by simp

lemma dev_status:
  "dev_inb ATA_STATUS s = (if ad_busy s > 0 then (0x80, s\<lparr>ad_busy := ad_busy s - 1\<rparr>)
     else (0x40 OR (if dev_drq s then 0x08 else 0) OR (if ad_error s \<noteq> 0 then 0x01 else 0), s))"
  "dev_inb ATA_ERROR s = (if ad_busy s > 0 then 0 else ad_error s, s)"
  by (simp_all add: dev_inb_def ata_ports)

lemma masked_bit:
  "(x :: u8) AND 0x88 = y AND 0x88 \<Longrightarrow> x AND 0x80 = y AND 0x80"
  "(x :: u8) AND 0x88 = y AND 0x88 \<Longrightarrow> x AND 0x08 = y AND 0x08"
proof -
  have m: "x AND 0x80 = (x AND 0x88) AND 0x80" "x AND 0x08 = (x AND 0x88) AND 0x08" for x :: u8
    by (simp_all add: and.assoc)
  show "x AND 0x88 = y AND 0x88 \<Longrightarrow> x AND 0x80 = y AND 0x80" "x AND 0x88 = y AND 0x88 \<Longrightarrow> x AND 0x08 = y AND 0x08"
    by (simp_all only: m [of x] m [of y])
qed

lemma busy_zero: "ad_busy s = 0 \<Longrightarrow> s\<lparr>ad_busy := 0\<rparr> = s"
  by (cases s) simp


lemma dev_drq_busy [simp]: "dev_drq (s\<lparr>ad_busy := n\<rparr>) = dev_drq s"
  by (simp add: dev_drq_def)

lemma status_read:
  assumes "ata_device bus dev" "bus_inb bus ATA_STATUS d = (st, d1)"
  shows "st AND 0x80 = 0 \<longleftrightarrow> ad_busy (dev d) = 0"
    and "st AND 0x08 \<noteq> 0 \<longleftrightarrow> ad_busy (dev d) = 0 \<and> dev_drq (dev d)"
    and "dev d1 = (dev d)\<lparr>ad_busy := ad_busy (dev d) - 1\<rparr>"
proof -
  have r: "dev d1 = snd (dev_inb ATA_STATUS (dev d))" "st AND 0x88 = fst (dev_inb ATA_STATUS (dev d)) AND 0x88"
    using assms unfolding ata_device_def by (metis fst_conv snd_conv)+
  show "dev d1 = (dev d)\<lparr>ad_busy := ad_busy (dev d) - 1\<rparr>" using r(1) by (auto simp: dev_status)
  show "st AND 0x80 = 0 \<longleftrightarrow> ad_busy (dev d) = 0" "st AND 0x08 \<noteq> 0 \<longleftrightarrow> ad_busy (dev d) = 0 \<and> dev_drq (dev d)"
    unfolding masked_bit [OF r(2)] by (simp_all add: dev_status)
qed










section \<open>Words and bytes\<close>

lemma bytes_of_simps [simp]:
  "bytes_of [] = []"
  "bytes_of (w # ws) = ucast w # ucast (drop_bit 8 w) # bytes_of ws"
  "bytes_of (us @ vs) = bytes_of us @ bytes_of vs"
  "length (bytes_of ws) = 2 * length ws"
  by (simp_all add: bytes_of_def) (induction ws; simp)










section \<open>Transfers\<close>


lemma dev_delay_simps [simp]:
  "ad_disk (dev_delay s) = ad_disk s" "ad_error (dev_delay s) = ad_error s" "ad_cmd (dev_delay s) = ad_cmd s"
  "ad_in (dev_delay s) = ad_in s" "ad_out (dev_delay s) = ad_out s" "ad_lba (dev_delay s) = ad_lba s"
  "ad_left (dev_delay s) = ad_left s" "ad_delays (dev_delay s) = ad_delays s"
  "ad_busy (dev_delay s) = ad_delays s (ad_phase s)" "dev_drq (dev_delay s) = dev_drq s"
  by (simp_all add: dev_delay_def dev_drq_def)

lemma dev_seek_simps [simp]:
  "ad_disk (dev_seek s) = ad_disk s" "ad_lba (dev_seek s) = ad_lba s" "ad_left (dev_seek s) = ad_left s"
  "ad_delays (dev_seek s) = ad_delays s" "ad_phase (dev_seek s) = ad_phase s"
  by (simp_all add: dev_seek_def)








section \<open>The driver implements the disk\<close>








text \<open>
  What the conditions exclude. A drive that is busy and shows anything but 0 in its error register makes the driver give
  up at once: it takes that for an error.
\<close>

lemma busy_error_gives_up:
  assumes "ata_device bus dev" "ad_busy (dev d) > 0" "buf \<noteq> 0"
    and "\<And>x. fst (bus_inb bus ATA_ERROR x) \<noteq> 0"
  shows "\<exists>d'. ata_read bus lba count buf d = (False, [], d')"
proof -
  obtain st d1 where st: "bus_inb bus ATA_STATUS d = (st, d1)" by (cases "bus_inb bus ATA_STATUS d")
  obtain er d2 where er: "bus_inb bus ATA_ERROR d1 = (er, d2)" by (cases "bus_inb bus ATA_ERROR d1")
  have "st AND 0x80 \<noteq> 0" "er \<noteq> 0" using status_read(1) [OF assms(1) st] assms(2,4) er by (simp, metis fst_conv)
  then have "wait_bsy bus (Suc n) d = (False, d2)" for n using st er by simp
  moreover have "ATA_WAIT_TIMEOUT = Suc 99999" by (simp add: ATA_WAIT_TIMEOUT_def)
  ultimately have "ata_wait_bsy bus d = (False, d2)" unfolding ata_wait_bsy_def by metis
  then show ?thesis using assms(3) by (simp add: ata_read_def)
qed







end
