(* ===== verification/Interrupt.thy ===== *)
theory Interrupt
  imports UserProcess Ata Print
begin

text \<open>
  Interrupts: the controllers and the timer as \<open>kernel/hw/mod.h\<close> and \<open>kernel/hw/src/pit.c\<close> program them, the table of
  \<open>kernel/hw/src/idt.c\<close> with its dispatcher and the handler of page faults, and the task state segment of
  \<open>kernel/proc/src/tss.c\<close>. What answers at the ports is the argument \<open>bus\<close>, as for the disk; what the processor reads
  in a gate or in a segment descriptor is the layout of its manual.
\<close>

section \<open>The interrupt controllers and the timer\<close>

definition HW_PIC_MASTER :: u16 where "HW_PIC_MASTER = 0x20"
definition HW_PIC_SLAVE :: u16 where "HW_PIC_SLAVE = 0xA0"
definition HW_PIC_EOI :: u8 where "HW_PIC_EOI = 0x20"
definition PIC_INT_OFFSET :: u32 where "PIC_INT_OFFSET = 32"

fun out_all :: "'d io_bus \<Rightarrow> (u16 \<times> u8) list \<Rightarrow> 'd \<Rightarrow> 'd" where
  "out_all bus [] d = d"
| "out_all bus ((p, v) # ws) d = out_all bus ws (bus_outb bus p v d)"

definition hw_irq_init :: "'d io_bus \<Rightarrow> 'd \<Rightarrow> 'd" where
  "hw_irq_init bus = out_all bus
     [(HW_PIC_MASTER, 0x11), (HW_PIC_MASTER + 1, 0x20), (HW_PIC_MASTER + 1, 0x04), (HW_PIC_MASTER + 1, 0x01),
      (HW_PIC_SLAVE, 0x11), (HW_PIC_SLAVE + 1, 0x28), (HW_PIC_SLAVE + 1, 0x02), (HW_PIC_SLAVE + 1, 0x01),
      (HW_PIC_MASTER + 1, 0x00), (HW_PIC_SLAVE + 1, 0x00)]"

definition hw_irq_eoi :: "'d io_bus \<Rightarrow> u8 \<Rightarrow> 'd \<Rightarrow> 'd" where
  "hw_irq_eoi bus irq d =
     bus_outb bus HW_PIC_MASTER HW_PIC_EOI (if irq \<ge> 8 then bus_outb bus HW_PIC_SLAVE HW_PIC_EOI d else d)"

definition HW_PIT_BASE_FREQ :: u32 where "HW_PIT_BASE_FREQ = 1193182"
definition HW_PIT_CMD_PORT :: u16 where "HW_PIT_CMD_PORT = 0x43"
definition HW_PIT_DATA_PORT :: u16 where "HW_PIT_DATA_PORT = 0x40"

text \<open>A frequency of 0 divides by zero.\<close>

definition hw_timer_init :: "'d io_bus \<Rightarrow> u32 \<Rightarrow> 'd \<Rightarrow> 'd res" where
  "hw_timer_init bus freq_hz d =
     (if freq_hz = 0 then Inl (KFault ''division by freq_hz'')
      else let divisor = HW_PIT_BASE_FREQ div freq_hz
           in Inr (out_all bus [(HW_PIT_CMD_PORT, 0x36), (HW_PIT_DATA_PORT, ucast (divisor AND 0xFF)),
                                (HW_PIT_DATA_PORT, ucast (drop_bit 8 divisor AND 0xFF))] d))"

section \<open>The interrupt table\<close>

record idt_entry =
  low_handler_addr :: u16
  segment_selector :: u16
  idt_zero :: u8
  type_attr :: u8
  high_handler_addr :: u16

definition IDT_TAB_SIZE :: nat where "IDT_TAB_SIZE = 256"

definition idt_set_entry :: "nat \<Rightarrow> u32 \<Rightarrow> idt_entry list \<Rightarrow> idt_entry list" where
  "idt_set_entry num isr_wrapper idt =
     idt[num := \<lparr>low_handler_addr = ucast (isr_wrapper AND 0xFFFF), segment_selector = 0x08, idt_zero = 0,
                 type_attr = 0x8E, high_handler_addr = ucast (drop_bit 16 isr_wrapper)\<rparr>]"

definition idt_set_user_entry :: "nat \<Rightarrow> u32 \<Rightarrow> idt_entry list \<Rightarrow> idt_entry list" where
  "idt_set_user_entry num isr_wrapper idt =
     (let idt1 = idt_set_entry num isr_wrapper idt in idt1[num := (idt1 ! num)\<lparr>type_attr := 0xEE\<rparr>])"

fun set_entries :: "nat \<Rightarrow> u32 list \<Rightarrow> idt_entry list \<Rightarrow> idt_entry list" where
  "set_entries i [] idt = idt"
| "set_entries i (h # hs) idt = set_entries (i + 1) hs (idt_set_entry i h idt)"

text \<open>The addresses of the stubs are parameters; the result is the table and the limit and base loaded for it.\<close>

definition idt_init :: "u32 list \<Rightarrow> u32 \<Rightarrow> u32 \<Rightarrow> idt_entry list \<Rightarrow> idt_entry list \<times> u16 \<times> u32" where
  "idt_init handlers isr_syscall_stub idt_addr idt =
     (idt_set_user_entry 128 isr_syscall_stub (set_entries 0 (take 48 handlers) idt), of_nat (8 * IDT_TAB_SIZE - 1), idt_addr)"

section \<open>Handlers\<close>

text \<open>The words the processor pushed lie behind the eight registers that the stub pushed.\<close>

definition page_fault_handler :: "u32 \<Rightarrow> kstate \<Rightarrow> (u32 \<times> kstate) res" where
  "page_fault_handler regs k =
     (if ld32 (kbytes k) (regs + 36) AND 0x3 = 3 \<and> current_proc k \<noteq> 0
      then and_then (lookup k (current_proc k)) (\<lambda>pr.
           and_then (scheduler_notify_parent (current_proc k)
               (update k (current_proc k) (pr\<lparr>proc_state := ZOMBIE, exit_code := 139\<rparr>))) (\<lambda>k1.
             scheduler_on_segfault regs k1))
      else Inl (KPanic ''PAGE_FAULT''))"

definition IO_KEYBOARD_DATA_PORT :: u16 where "IO_KEYBOARD_DATA_PORT = 0x60"

definition HW_IRQ_TIMER :: u32 where "HW_IRQ_TIMER = 32"
definition HW_IRQ_KEYBOARD :: u32 where "HW_IRQ_KEYBOARD = 33"

text \<open>The interrupts of devices that are acknowledged and nothing else.\<close>

definition quiet_irqs :: "u32 list" where
  "quiet_irqs = [HW_IRQ_TIMER, 35, 36, 37, 38, 39, 40, 44, 45, 46, 47]"

record 'd machine =
  mc_k :: kstate
  mc_dev :: 'd
  mc_out :: "emit list"

text \<open>The message for an interrupt nobody expects: \<open>INT_PIC: unknown exception or not handled: %d\<close> and a newline.\<close>

definition unknown_irq_msg :: "u8 list" where
  "unknown_irq_msg = map of_char ''INT_PIC: unknown exception or not handled: %d'' @ [0x0A]"

definition irq_action :: "'d io_bus \<Rightarrow> u32 \<Rightarrow> 'd machine \<Rightarrow> 'd machine res" where
  "irq_action bus num mc =
     (if num = HW_IRQ_KEYBOARD
      then let (scancode, d) = bus_inb bus IO_KEYBOARD_DATA_PORT (mc_dev mc)
           in and_then (kb_handle_interrupt scancode (mc_k mc)) (\<lambda>k. Inr (mc\<lparr>mc_k := k, mc_dev := d\<rparr>))
      else if num \<in> set quiet_irqs then Inr mc
      else and_then (kvprintf_to unknown_irq_msg [VaInt num]) (\<lambda>es. Inr (mc\<lparr>mc_out := mc_out mc @ es\<rparr>)))"

definition isr_handler :: "'d io_bus \<Rightarrow> u32 \<Rightarrow> 'd machine \<Rightarrow> 'd machine res" where
  "isr_handler bus num mc =
     (if sint num < 32 then Inl (KPanic ''Interrupt'')
      else and_then (irq_action bus num mc) (\<lambda>mc1.
             Inr (mc1\<lparr>mc_dev := hw_irq_eoi bus (ucast (num - PIC_INT_OFFSET)) (mc_dev mc1)\<rparr>)))"

text \<open>The timer's stub calls \<open>scheduler\<close>, which acknowledges the interrupt after it has chosen.\<close>

definition timer_interrupt :: "'d io_bus \<Rightarrow> u32 \<Rightarrow> 'd machine \<Rightarrow> (u32 \<times> 'd machine) res" where
  "timer_interrupt bus regs mc =
     and_then (scheduler regs (mc_k mc)) (\<lambda>(esp, k). Inr (esp, mc\<lparr>mc_k := k, mc_dev := hw_irq_eoi bus 0 (mc_dev mc)\<rparr>))"

section \<open>The task state segment\<close>

text \<open>The descriptor that \<open>tss_install\<close> writes, a TSS of \<open>sizeof(tss_t)\<close> = 104 bytes at \<open>base\<close>.\<close>

definition TSS_SIZE :: u32 where "TSS_SIZE = 104"

definition tss_descriptor :: "u32 \<Rightarrow> u64" where
  "tss_descriptor base =
     (let limit = TSS_SIZE - 1
      in ucast (limit AND 0xFFFF) OR push_bit 16 (ucast (base AND 0xFFFFFF)) OR push_bit 40 0x89 OR
         push_bit 48 (ucast (drop_bit 16 limit AND 0xF)) OR push_bit 56 (ucast (drop_bit 24 base AND 0xFF)))"

definition tss_install :: "bool \<Rightarrow> u32 \<Rightarrow> u64 list \<Rightarrow> u64 list res" where
  "tss_install tss_initialized tss gdt =
     (if \<not> tss_initialized then Inl (KPanic ''TSS_NOT_INITIALIZED'')
      else if length gdt \<le> 5 then Inl (KFault ''gdt[5]'')
      else Inr (gdt[5 := tss_descriptor tss]))"

text \<open>\<open>esp0\<close> is a field of the kernel state; the result has \<open>ss0\<close>, \<open>iomap_base\<close> and \<open>tss_initialized\<close> beside it.\<close>

definition tss_init :: "kstate \<Rightarrow> kstate \<times> u32 \<times> u16 \<times> bool" where
  "tss_init k = (k\<lparr>tss_esp0 := PHYS_TO_VIRT 0x9FF00\<rparr>, 0x10, ucast TSS_SIZE, True)"

section \<open>A program that faults\<close>

text \<open>The state after \<open>scheduler_notify_parent\<close>: a parent that waits for the process is ready again.\<close>

definition parent_waits :: "kstate \<Rightarrow> proc \<Rightarrow> u32 \<Rightarrow> proc \<Rightarrow> bool" where
  "parent_waits k ch q pa \<longleftrightarrow> parent_pid ch \<noteq> 0 \<and> q \<noteq> 0 \<and> scheduler_get_proc k (parent_pid ch) = Inr q \<and> ptab k q = Some pa \<and>
     proc_state pa = BLOCKED \<and> waiting_for pa = proc_id ch"

definition notified :: "kstate \<Rightarrow> proc \<Rightarrow> kstate" where
  "notified k ch =
     (case scheduler_get_proc k (parent_pid ch) of
        Inl e \<Rightarrow> k
      | Inr q \<Rightarrow> (case ptab k q of None \<Rightarrow> k
         | Some pa \<Rightarrow> if parent_waits k ch q pa then update k q (pa\<lparr>proc_state := READY, waiting_for := 0\<rparr>) else k))"

text \<open>In a pool whose pointers lead to processes, looking one up does not fail.\<close>

lemma find_pid_total:
  assumes "\<forall>p\<in>set ps. p \<noteq> 0 \<longrightarrow> ptab k p \<noteq> None"
  shows "\<exists>q. find_pid k pid ps = Inr q \<and> (q \<noteq> 0 \<longrightarrow> ptab k q \<noteq> None)"
  using assms
proof (induction ps)
  case (Cons p ps)
  then show ?case by (cases "p = 0"; cases "ptab k p") (auto simp: lookup_def)
qed simp

lemma get_proc_total:
  assumes "pool_ok k"
  shows "\<exists>q. scheduler_get_proc k pid = Inr q \<and> (q \<noteq> 0 \<longrightarrow> ptab k q \<noteq> None)"
  unfolding scheduler_get_proc_def
proof (rule find_pid_total, intro ballI impI)
  fix p assume p: "p \<in> set (map (\<lambda>i. proc_at k (of_nat i)) [0..<unat (da_count (procs k))])" "p \<noteq> 0"
  then obtain i where i: "i < unat (da_count (procs k))" "p = proc_at k (of_nat i)" by auto
  have fit: "da_fit (procs k)" using assms by (simp add: pool_ok_def)
  have "i < 4294967296" using i(1) unat_bound32 [of "da_count (procs k)"] by linarith
  then have "p \<in> set (da_list (procs k))"
    using i da.get_elems [OF fit, of "of_nat i"] da.count_elems [OF fit] by (simp add: proc_at_def unat_of_nat_small)
  then show "ptab k p \<noteq> None" using assms by (simp add: pool_ok_def)
qed

lemma notify_notified:
  assumes "pool_ok k" "lookup k c = Inr ch"
  shows "scheduler_notify_parent c k = Inr (notified k ch)"
proof -
  obtain q where "scheduler_get_proc k (parent_pid ch) = Inr q" "q \<noteq> 0 \<longrightarrow> ptab k q \<noteq> None"
    using get_proc_total [OF assms(1)] by blast
  then show ?thesis using assms(2)
    by (auto simp: scheduler_notify_parent_def notified_def parent_waits_def lookup_def split: option.splits)
qed

lemma notified_cases:
  obtains "notified k ch = k" "\<forall>q pa. \<not> parent_waits k ch q pa"
  | q pa where "parent_waits k ch q pa" "notified k ch = update k q (pa\<lparr>proc_state := READY, waiting_for := 0\<rparr>)"
proof (cases "\<exists>q pa. parent_waits k ch q pa")
  case True
  then obtain q pa where p: "parent_waits k ch q pa" by blast
  then have "notified k ch = update k q (pa\<lparr>proc_state := READY, waiting_for := 0\<rparr>)"
    by (auto simp: notified_def parent_waits_def)
  then show ?thesis using that(2) p by blast
next
  case False
  then have "notified k ch = k" by (simp add: notified_def split: option.splits sum.splits)
  then show ?thesis using that(1) False by blast
qed

lemma notified_simps [simp]:
  "procs (notified k ch) = procs k" "procs_head (notified k ch) = procs_head k" "vmm (notified k ch) = vmm k"
  "kbytes (notified k ch) = kbytes k" "ubytes (notified k ch) = ubytes k" "idle_proc (notified k ch) = idle_proc k"
  "current_proc (notified k ch) = current_proc k"
  by (cases rule: notified_cases [of k ch], simp_all add: update_def)+

lemma notified_lookup:
  "lookup (notified k ch) q =
     (case lookup k q of Inl e \<Rightarrow> Inl e
      | Inr pa \<Rightarrow> Inr (if parent_waits k ch q pa then pa\<lparr>proc_state := READY, waiting_for := 0\<rparr> else pa))"
  by (cases rule: notified_cases [of k ch]) (auto simp: update_def lookup_def parent_waits_def split: option.splits)

lemma notified_again: "notified (notified k ch) ch = notified k ch"
proof (cases rule: notified_cases [of k ch])
  case (2 q pa)
  then have q: "lookup k q = Inr pa" "scheduler_get_proc k (parent_pid ch) = Inr q" by (auto simp: parent_waits_def lookup_def)
  have "scheduler_get_proc (notified k ch) (parent_pid ch) = Inr q"
    unfolding 2(2) using get_proc_update [OF q(1)] q(2) by simp
  then show ?thesis unfolding notified_def [of "notified k ch"] Let_def
    by (simp add: 2(2) update_def parent_waits_def)
qed simp

lemma pool_ok_update: "pool_ok k \<Longrightarrow> pool_ok (update k q pr)"
  by (auto simp: pool_ok_def update_def)

lemma pool_ok_notified: "pool_ok k \<Longrightarrow> pool_ok (notified k ch)"
  by (cases rule: notified_cases [of k ch]) (auto intro: pool_ok_update)

lemma runnable_head [simp]: "runnable (k\<lparr>current_proc := c, procs_head := h\<rparr>) q = runnable k q"
  by (simp add: runnable_def)

lemma on_segfault_result:
  assumes "pool_ok k" "da_list (procs k) \<noteq> []" "paging_initialized (vmm k)" "lookup k (idle_proc k) = Inr idle"
    and "lookup k (current_proc k) = Inr ch"
  shows "\<exists>esp k'. scheduler_on_segfault regs k = Inr (esp, k') \<and> ptab k' = ptab (notified k ch) \<and> procs k' = procs k \<and>
    kbytes k' = kbytes k \<and> ubytes k' = ubytes k \<and> vmm k' = (vmm k)\<lparr>pg_cr3 := pg_cr3 (vmm k')\<rparr> \<and>
    (if \<forall>q\<in>set (da_list (procs k)). \<not> runnable (notified k ch) q
     then current_proc k' = 0 \<and> (\<exists>idle'. lookup k' (idle_proc k) = Inr idle' \<and> esp = kernel_stack idle' \<and> pg_cr3 (vmm k') = VIRT_TO_PHYS (proc_pd idle'))
     else \<exists>n pn. current_proc k' = n \<and> n \<in> set (da_list (procs k)) \<and> runnable k' n \<and> lookup k' n = Inr pn \<and>
       esp = kernel_stack pn \<and> pg_cr3 (vmm k') = VIRT_TO_PHYS (proc_pd pn))"
proof -
  let ?k1 = "notified k ch" and ?L = "da_list (procs k)"
  let ?kp = "?k1\<lparr>current_proc := 0, procs_head := procs_head ?k1 mod da_count (procs ?k1)\<rparr>"
  have c: "unat (da_count (procs k)) = length ?L" by (rule pool_count [OF assms(1)])
  then have nz: "da_count (procs k) \<noteq> 0" using assms(2) by (auto simp: unat_eq_zero [symmetric] simp del: unat_eq_zero)
  have ok: "pool_ok ?kp" using pool_ok_notified [OF assms(1), of ch] by (simp add: pool_ok_def)
  have hd: "unat (procs_head ?kp) < length (da_list (procs ?kp))" using assms(2) c by (simp add: unat_mod)
  have ne: "da_list (procs ?kp) \<noteq> []" using assms(2) by simp
  obtain p head' where pk: "pick_next_ready_proc ?kp = Inr (p, ?kp\<lparr>procs_head := head'\<rparr>)"
    and found: "if \<forall>q\<in>set (da_list (procs ?kp)). \<not> runnable ?kp q then p = 0
     else \<exists>d. 1 \<le> d \<and> d \<le> length (da_list (procs ?kp)) \<and> p = nth_from ?kp (procs_head ?kp) d \<and> p \<noteq> 0 \<and> runnable ?kp p \<and>
        unat head' = (unat (procs_head ?kp) + d) mod length (da_list (procs ?kp)) \<and>
        (\<forall>e. 1 \<le> e \<and> e < d \<longrightarrow> \<not> runnable ?kp (nth_from ?kp (procs_head ?kp) e))"
    using pick_next_result [OF ok ne hd] by blast
  have mem: "nth_from ?kp (procs_head ?kp) d \<in> set ?L" for d using nth_from_mem [OF ne] by simp
  let ?k2 = "?kp\<lparr>procs_head := head'\<rparr>"
  have step: "scheduler_on_segfault regs k =
     (if p = 0 then switch_to_idle ?k2 else case switch_to p ?k2 of Inl e \<Rightarrow> Inl e | Inr (pr, k3) \<Rightarrow> Inr (kernel_stack pr, k3))"
    using nz pk notify_notified [OF assms(1,5)] by (simp add: scheduler_on_segfault_def)
  show ?thesis
  proof (cases "\<forall>q\<in>set ?L. \<not> runnable ?k1 q")
    case True
    then have "p = 0" using found by simp
    moreover obtain idle' where "lookup ?k1 (idle_proc k) = Inr idle'" using assms(4) by (simp add: notified_lookup)
    ultimately show ?thesis using step True assms(3)
      by (auto simp: switch_to_idle_def lookup_def paging_switch_def split: option.splits)
  next
    case False
    then have p: "p \<noteq> 0" "runnable ?k1 p" "p \<in> set ?L"
      using found mem by (auto split: if_splits)
    then obtain pn where "ptab ?k1 p = Some pn" by (auto simp: runnable_def split: option.splits)
    then show ?thesis using step False p assms(3)
      by (auto simp: switch_to_def lookup_def paging_switch_def runnable_def)
  qed
qed

text \<open>
  C34. A page fault in user mode ends the process that runs, with exit code 139, and nothing else: a parent that waits for
  it is ready again, every other process and all of memory are as they were, and the processor goes on with another
  process of the pool that does not wait, or with the idle loop when there is none. The process that is gone on with is
  not started: its argument block and its pending input are left to a later switch.
\<close>

theorem segfault_contained:
  assumes "pool_ok k" "current_proc k = c" "c \<noteq> 0" "c \<in> set (da_list (procs k))" "lookup k c = Inr pr"
    and "ld32 (kbytes k) (regs + 36) AND 0x3 = 3" "paging_initialized (vmm k)" "lookup k (idle_proc k) = Inr idle"
  shows "\<exists>esp k'. page_fault_handler regs k = Inr (esp, k') \<and> lookup k' c = Inr (pr\<lparr>proc_state := ZOMBIE, exit_code := 139\<rparr>) \<and>
    (\<forall>q pa. q \<noteq> c \<longrightarrow> lookup k q = Inr pa \<longrightarrow> lookup k' q =
       Inr (if parent_pid pr \<noteq> 0 \<and> q \<noteq> 0 \<and> scheduler_get_proc k (parent_pid pr) = Inr q \<and> proc_state pa = BLOCKED \<and> waiting_for pa = proc_id pr
            then pa\<lparr>proc_state := READY, waiting_for := 0\<rparr> else pa)) \<and>
    procs k' = procs k \<and> kbytes k' = kbytes k \<and> ubytes k' = ubytes k \<and> vmm k' = (vmm k)\<lparr>pg_cr3 := pg_cr3 (vmm k')\<rparr> \<and>
    (if \<forall>q\<in>set (da_list (procs k)). \<not> runnable k' q
     then current_proc k' = 0 \<and> (\<exists>idle'. lookup k' (idle_proc k) = Inr idle' \<and> esp = kernel_stack idle' \<and>
       pg_cr3 (vmm k') = VIRT_TO_PHYS (proc_pd idle'))
     else \<exists>n pn. current_proc k' = n \<and> n \<in> set (da_list (procs k)) \<and> n \<noteq> c \<and> runnable k' n \<and> lookup k' n = Inr pn \<and>
       esp = kernel_stack pn \<and> pg_cr3 (vmm k') = VIRT_TO_PHYS (proc_pd pn))"
proof -
  let ?ch = "pr\<lparr>proc_state := ZOMBIE, exit_code := 139\<rparr>"
  let ?k0 = "update k c ?ch"
  let ?k1 = "notified ?k0 ?ch"
  have k0: "lookup ?k0 c = Inr ?ch" by (simp add: lookup_update)
  have no: "\<not> parent_waits k2 ?ch c ?ch" for k2 by (simp add: parent_waits_def)
  have k1: "lookup ?k1 c = Inr ?ch" using k0 no by (simp add: notified_lookup)
  have simps: "procs ?k0 = procs k" "vmm ?k0 = vmm k" "current_proc ?k0 = c" "idle_proc ?k0 = idle_proc k" "kbytes ?k0 = kbytes k"
    "ubytes ?k0 = ubytes k" using assms(2) by (simp_all add: update_def)
  have "\<exists>x. lookup ?k0 (idle_proc k) = Inr x" using assms(8) by (cases "idle_proc k = c") (simp_all add: lookup_update)
  then obtain idle1 where i1: "lookup ?k1 (idle_proc ?k1) = Inr idle1" using simps(4) by (auto simp: notified_lookup)
  have ok: "pool_ok ?k1" by (rule pool_ok_notified [OF pool_ok_update [OF assms(1)]])
  have ne: "da_list (procs ?k1) \<noteq> []" using assms(4) simps(1) by auto
  have cur: "lookup ?k1 (current_proc ?k1) = Inr ?ch" "paging_initialized (vmm ?k1)" using k1 simps(2,3) assms(7) by simp_all
  obtain esp k' where r: "scheduler_on_segfault regs ?k1 = Inr (esp, k')" "ptab k' = ptab ?k1" "procs k' = procs k"
    "kbytes k' = kbytes k" "ubytes k' = ubytes k" "vmm k' = (vmm k)\<lparr>pg_cr3 := pg_cr3 (vmm k')\<rparr>"
    "if \<forall>q\<in>set (da_list (procs k)). \<not> runnable ?k1 q
     then current_proc k' = 0 \<and> (\<exists>idle'. lookup k' (idle_proc k) = Inr idle' \<and> esp = kernel_stack idle' \<and> pg_cr3 (vmm k') = VIRT_TO_PHYS (proc_pd idle'))
     else \<exists>n pn. current_proc k' = n \<and> n \<in> set (da_list (procs k)) \<and> runnable k' n \<and> lookup k' n = Inr pn \<and>
       esp = kernel_stack pn \<and> pg_cr3 (vmm k') = VIRT_TO_PHYS (proc_pd pn)"
    using on_segfault_result [OF ok ne cur(2) i1 cur(1), of regs] unfolding notified_again notified_simps simps by blast
  have same: "lookup k' q = lookup ?k1 q" "runnable k' q = runnable ?k1 q" for q
    using r(2) by (simp_all add: lookup_def runnable_def)
  have e: "page_fault_handler regs k = Inr (esp, k')"
    using assms(2,3,5,6) notify_notified [OF pool_ok_update [OF assms(1)] k0] r(1) by (simp add: page_fault_handler_def)
  have c: "lookup k' c = Inr ?ch" "\<not> runnable k' c"
    using k1 same(1) [of c] by (auto simp: lookup_def runnable_def waiting_state_def split: option.splits)
  have g: "scheduler_get_proc ?k0 pid = scheduler_get_proc k pid" for pid using get_proc_update [OF assms(5), of ?ch] by simp
  have others: "lookup k' q =
       Inr (if parent_pid pr \<noteq> 0 \<and> q \<noteq> 0 \<and> scheduler_get_proc k (parent_pid pr) = Inr q \<and> proc_state pa = BLOCKED \<and> waiting_for pa = proc_id pr
            then pa\<lparr>proc_state := READY, waiting_for := 0\<rparr> else pa)" if q: "q \<noteq> c" "lookup k q = Inr pa" for q pa
  proof -
    have q0: "lookup ?k0 q = Inr pa" using q by (simp add: lookup_update)
    then have pt: "ptab ?k0 q = Some pa" by (simp only: lookup_ptab)
    have "parent_waits ?k0 ?ch q pa \<longleftrightarrow> parent_pid pr \<noteq> 0 \<and> q \<noteq> 0 \<and> scheduler_get_proc k (parent_pid pr) = Inr q \<and>
        proc_state pa = BLOCKED \<and> waiting_for pa = proc_id pr" using pt by (auto simp: parent_waits_def g)
    then show ?thesis unfolding same notified_lookup q0 by simp
  qed
  have last: "if \<forall>q\<in>set (da_list (procs k)). \<not> runnable k' q
     then current_proc k' = 0 \<and> (\<exists>idle'. lookup k' (idle_proc k) = Inr idle' \<and> esp = kernel_stack idle' \<and>
       pg_cr3 (vmm k') = VIRT_TO_PHYS (proc_pd idle'))
     else \<exists>n pn. current_proc k' = n \<and> n \<in> set (da_list (procs k)) \<and> n \<noteq> c \<and> runnable k' n \<and> lookup k' n = Inr pn \<and>
       esp = kernel_stack pn \<and> pg_cr3 (vmm k') = VIRT_TO_PHYS (proc_pd pn)"
  proof (cases "\<forall>q\<in>set (da_list (procs k)). \<not> runnable k' q")
    case True
    then show ?thesis using r(7) unfolding same by simp
  next
    case False
    then show ?thesis using r(7) c(2) unfolding same by (simp only: if_False) blast
  qed
  show ?thesis by (intro exI [of _ esp] exI [of _ k'] conjI allI impI) (rule e c(1) others r(3-6) last | assumption)+
qed

text \<open>Process 2 faults while process 1 waits for it.\<close>

definition demo_fault :: kstate where
  "demo_fault = demo_sched\<lparr>ptab := [0x100 \<mapsto> zero_proc\<lparr>proc_id := 1, proc_state := BLOCKED, waiting_for := 2\<rparr>,
       0x200 \<mapsto> zero_proc\<lparr>proc_id := 2, parent_pid := 1, proc_state := READY\<rparr>, 0x300 \<mapsto> zero_proc],
     current_proc := 0x200, idle_proc := 0x300, kbytes := st32 (\<lambda>a. 0) 0x1024 0x1B\<rparr>"

theorem segfault_contained_witness:
  "\<exists>esp k'. page_fault_handler 0x1000 demo_fault = Inr (esp, k') \<and>
    lookup k' 0x200 = Inr (zero_proc\<lparr>proc_id := 2, parent_pid := 1, proc_state := ZOMBIE, exit_code := 139\<rparr>) \<and>
    lookup k' 0x100 = Inr (zero_proc\<lparr>proc_id := 1, proc_state := READY, waiting_for := 0\<rparr>)"
proof -
  have l: "da_list (procs demo_fault) = [0x100, 0x200]" using demo_sched_pool(2) by (simp add: demo_fault_def)
  have p: "pool_ok demo_fault" using demo_sched_pool l by (simp add: pool_ok_def demo_fault_def)
  have pr: "lookup demo_fault 0x200 = Inr (zero_proc\<lparr>proc_id := 2, parent_pid := 1, proc_state := READY\<rparr>)"
    and pa: "lookup demo_fault 0x100 = Inr (zero_proc\<lparr>proc_id := 1, proc_state := BLOCKED, waiting_for := 2\<rparr>)"
    by (simp_all add: demo_fault_def lookup_def)
  have g: "scheduler_get_proc demo_fault 1 = Inr 0x100" by code_simp
  have pre: "current_proc demo_fault = 0x200" "(0x200 :: u32) \<noteq> 0" "0x200 \<in> set (da_list (procs demo_fault))" unfolding l
    by (simp_all add: demo_fault_def)
  have post: "ld32 (kbytes demo_fault) (0x1000 + 36) AND 0x3 = 3" "paging_initialized (vmm demo_fault)"
    "lookup demo_fault (idle_proc demo_fault) = Inr zero_proc"
    by (simp_all add: demo_fault_def lookup_def) (simp_all add: demo_sched_def demo_paging_def)
  obtain esp k' where e: "page_fault_handler 0x1000 demo_fault = Inr (esp, k')"
    "lookup k' 0x200 = Inr (zero_proc\<lparr>proc_id := 2, parent_pid := 1, proc_state := ZOMBIE, exit_code := 139\<rparr>)"
    "\<forall>q pa. q \<noteq> 0x200 \<longrightarrow> lookup demo_fault q = Inr pa \<longrightarrow> lookup k' q = Inr (if q \<noteq> 0 \<and>
       scheduler_get_proc demo_fault 1 = Inr q \<and> proc_state pa = BLOCKED \<and> waiting_for pa = 2 then pa\<lparr>proc_state := READY, waiting_for := 0\<rparr> else pa)"
    using segfault_contained [OF p pre pr post] by auto
  show ?thesis using e(1,2) e(3) [rule_format, OF _ pa] g by auto
qed

section \<open>Gates\<close>

text \<open>
  What the processor reads in the eight bytes of a gate: nothing when it is not present, otherwise the address of the
  handler, the code segment, the least privileged ring that may raise it and the type, 14 for an interrupt gate.
\<close>

definition gate_bytes :: "idt_entry \<Rightarrow> u8 list" where
  "gate_bytes e = put16 (low_handler_addr e) @ put16 (segment_selector e) @ [idt_zero e, type_attr e] @ put16 (high_handler_addr e)"

definition cpu_gate :: "u8 list \<Rightarrow> (u32 \<times> u16 \<times> nat \<times> nat) option" where
  "cpu_gate bs =
     (let attr = bs ! 5
      in if bit attr 7
         then Some (ucast (get16 bs 0) OR push_bit 16 (ucast (get16 bs 6)), get16 bs 2, unat (drop_bit 5 attr AND 0x3), unat (attr AND 0x1F))
         else None)"

definition idt_bytes :: "idt_entry list \<Rightarrow> u8 list" where "idt_bytes idt = concat (map gate_bytes idt)"

definition no_entry :: idt_entry where
  "no_entry = \<lparr>low_handler_addr = 0, segment_selector = 0, idt_zero = 0, type_attr = 0, high_handler_addr = 0\<rparr>"

lemma length_gate [simp]: "length (gate_bytes e) = 8"
  by (simp add: gate_bytes_def)

lemma table_entry: "n < length idt \<Longrightarrow> take 8 (drop (8 * n) (idt_bytes idt)) = gate_bytes (idt ! n)"
proof (induction idt arbitrary: n)
  case (Cons e idt)
  show ?case
  proof (cases n)
    case (Suc m)
    then have "take 8 (drop (8 * m) (idt_bytes idt)) = gate_bytes (idt ! m)" using Cons by simp
    moreover have "drop (8 * Suc m) (gate_bytes e @ idt_bytes idt) = drop (8 * m) (idt_bytes idt)" by simp
    ultimately show ?thesis using Suc by (simp add: idt_bytes_def)
  qed (simp add: idt_bytes_def)
qed simp

lemma length_idt_bytes [simp]: "length (idt_bytes idt) = 8 * length idt"
  by (induction idt) (simp_all add: idt_bytes_def)

lemma halves: "ucast (ucast (a AND 0xFFFF) :: u16) OR push_bit 16 (ucast (ucast (drop_bit 16 a) :: u16)) = (a :: u32)"
proof -
  have "(0xFFFF :: u32) = mask 16" by (simp add: mask_eq_exp_minus_1)
  note m = this
  show ?thesis unfolding m by (rule bit_word_eqI) (auto simp: bit_simps)
qed

lemma gate_read:
  "cpu_gate (gate_bytes \<lparr>low_handler_addr = ucast (a AND 0xFFFF), segment_selector = 0x08, idt_zero = 0, type_attr = t,
     high_handler_addr = ucast (drop_bit 16 a)\<rparr>) =
   (if bit t 7 then Some (a, 8, unat (drop_bit 5 t AND 0x3), unat (t AND 0x1F)) else None)"
proof -
  have "of_le16 8 0 = 8" "of_le16 (of_nat 8) 0 = 8" by (simp_all add: of_le16_def)
  then show ?thesis by (simp add: cpu_gate_def gate_bytes_def put16_def get16_def halves)
qed

lemma set_entries_length [simp]: "length (set_entries i hs idt) = length idt"
  by (induction hs arbitrary: i idt) (simp_all add: idt_set_entry_def)

lemma set_entries_nth:
  "n < length idt \<Longrightarrow> set_entries i hs idt ! n = (if i \<le> n \<and> n < i + length hs then idt_set_entry n (hs ! (n - i)) idt ! n else idt ! n)"
proof (induction hs arbitrary: i idt)
  case (Cons h hs)
  then have l: "n < length (idt_set_entry i h idt)" by (simp add: idt_set_entry_def)
  show ?case unfolding set_entries.simps Cons.IH [OF l]
    using Cons.prems by (auto simp: idt_set_entry_def nth_list_update less_Suc_eq_le nth_Cons' Suc_diff_le)
next
  case Nil
  then show ?case by auto
qed

text \<open>
  The interrupt table holds an interrupt gate in the kernel's code segment for each of the 48 exceptions and device
  interrupts and for the system call, with the address of its stub; user code can raise only vector 128, the system
  call, and the other vectors are absent. The limit is that of 256 entries.
\<close>

theorem idt_gates:
  assumes "length handlers = 48"
  shows "\<exists>idt limit. idt_init handlers stub idt_addr (replicate IDT_TAB_SIZE no_entry) = (idt, limit, idt_addr) \<and>
    length (idt_bytes idt) = unat limit + 1 \<and>
    (\<forall>n<256. cpu_gate (take 8 (drop (8 * n) (idt_bytes idt))) =
       (if n < 48 then Some (handlers ! n, 8, 0, 14) else if n = 128 then Some (stub, 8, 3, 14) else None))"
proof -
  let ?t = "set_entries 0 handlers (replicate IDT_TAB_SIZE no_entry)"
  let ?idt = "idt_set_user_entry 128 stub ?t"
  have l: "length ?t = 256" "length ?idt = 256" by (simp_all add: IDT_TAB_SIZE_def idt_set_user_entry_def idt_set_entry_def Let_def)
  have t: "?t ! n = (if n < 48 then idt_set_entry n (handlers ! n) (replicate 256 no_entry) ! n else no_entry)" if "n < 256" for n
    using that assms set_entries_nth [of n "replicate IDT_TAB_SIZE no_entry" 0 handlers] by (simp add: IDT_TAB_SIZE_def)
  have g: "cpu_gate (gate_bytes (?idt ! n)) =
      (if n < 48 then Some (handlers ! n, 8, 0, 14) else if n = 128 then Some (stub, 8, 3, 14) else None)" if n: "n < 256" for n
  proof -
    consider "n = 128" | "n < 48" | "n \<noteq> 128" "\<not> n < 48" by linarith
    then show ?thesis
    proof cases
      case 1
      then show ?thesis using l(1) by (simp add: idt_set_user_entry_def idt_set_entry_def Let_def gate_read)
    next
      case 2
      then have "?idt ! n = ?t ! n" by (simp add: idt_set_user_entry_def idt_set_entry_def Let_def)
      then show ?thesis using 2 t [OF n] by (simp add: idt_set_entry_def gate_read)
    next
      case 3
      then have "?idt ! n = no_entry" using t [OF n] by (simp add: idt_set_user_entry_def idt_set_entry_def Let_def)
      then show ?thesis using 3 by (simp add: no_entry_def cpu_gate_def gate_bytes_def put16_def)
    qed
  qed
  have "cpu_gate (take 8 (drop (8 * n) (idt_bytes ?idt))) =
      (if n < 48 then Some (handlers ! n, 8, 0, 14) else if n = 128 then Some (stub, 8, 3, 14) else None)" if "n < 256" for n
    using g [OF that] table_entry [of n ?idt] that l(2) by simp
  moreover have "idt_init handlers stub idt_addr (replicate IDT_TAB_SIZE no_entry) = (?idt, 2047, idt_addr)"
    using assms by (simp add: idt_init_def IDT_TAB_SIZE_def)
  ultimately show ?thesis using l(2) by (intro exI [of _ ?idt] exI [of _ 2047]) simp
qed

theorem idt_gates_witness:
  "\<exists>idt limit. idt_init (map (\<lambda>i. 0xC0100000 + 16 * of_nat i) [0..<48]) 0xC0101000 0xC0200000 (replicate IDT_TAB_SIZE no_entry) =
     (idt, limit, 0xC0200000) \<and> cpu_gate (take 8 (drop (8 * 14) (idt_bytes idt))) = Some (0xC01000E0, 8, 0, 14)"
proof -
  let ?hs = "map (\<lambda>i. 0xC0100000 + 16 * of_nat i) [0..<48] :: u32 list"
  have "length ?hs = 48" by simp
  from idt_gates [OF this, of "0xC0101000" "0xC0200000"] obtain idt limit where
    r: "idt_init ?hs 0xC0101000 0xC0200000 (replicate IDT_TAB_SIZE no_entry) = (idt, limit, 0xC0200000)"
    "\<forall>n<256. cpu_gate (take 8 (drop (8 * n) (idt_bytes idt))) =
       (if n < 48 then Some (?hs ! n, 8, 0, 14) else if n = 128 then Some (0xC0101000, 8, 3, 14) else None)" by blast
  have "cpu_gate (take 8 (drop (8 * 14) (idt_bytes idt))) = Some (?hs ! 14, 8, 0, 14)" using r(2) [rule_format, of 14] by (simp del: nth_map)
  then show ?thesis using r(1) by (intro exI [of _ idt] exI [of _ limit]) simp
qed

section \<open>The descriptor of the task state segment\<close>

text \<open>Base, limit and access byte as the processor reads them in a segment descriptor.\<close>

definition seg_base :: "u64 \<Rightarrow> u32" where
  "seg_base d = ucast (drop_bit 16 d AND 0xFFFFFF) OR push_bit 24 (ucast (drop_bit 56 d))"

definition seg_limit :: "u64 \<Rightarrow> u32" where
  "seg_limit d = ucast (d AND 0xFFFF) OR push_bit 16 (ucast (drop_bit 48 d AND 0xF))"

definition seg_access :: "u64 \<Rightarrow> u8" where "seg_access d = ucast (drop_bit 40 d)"

lemma seg_fields:
  fixes a :: u32 and x y :: u8
  defines "d \<equiv> ucast x OR push_bit 16 (ucast (a AND mask 24)) OR push_bit 40 (ucast y) OR push_bit 56 (ucast (drop_bit 24 a AND mask 8))"
  shows "seg_base d = a" "seg_limit d = ucast x" "seg_access d = y"
proof -
  have m: "(0xFFFFFF :: u64) = mask 24" "(0xFFFF :: u64) = mask 16" "(0xF :: u64) = mask 4" by (simp_all add: mask_eq_exp_minus_1)
  show "seg_base d = a" unfolding seg_base_def d_def m
    by (rule bit_word_eqI) (auto simp: bit_simps dest: bit_imp_le_length)
  show "seg_limit d = ucast x" unfolding seg_limit_def d_def m
    by (rule bit_word_eqI) (auto simp: bit_simps dest: bit_imp_le_length)
  show "seg_access d = y" unfolding seg_access_def d_def
    by (rule bit_word_eqI) (auto simp: bit_simps dest: bit_imp_le_length)
qed

lemma tss_descriptor_read: "seg_base (tss_descriptor a) = a" "seg_limit (tss_descriptor a) = 103" "seg_access (tss_descriptor a) = 0x89"
proof -
  have m: "(0xFFFFFF :: u32) = mask 24" "(0xFF :: u32) = mask 8" by (simp_all add: mask_eq_exp_minus_1)
  have d: "tss_descriptor a = ucast (103 :: u8) OR push_bit 16 (ucast (a AND mask 24)) OR push_bit 40 (ucast (0x89 :: u8)) OR
      push_bit 56 (ucast (drop_bit 24 a AND mask 8))"
    unfolding m [symmetric] by (simp add: tss_descriptor_def TSS_SIZE_def)
  show "seg_base (tss_descriptor a) = a" "seg_limit (tss_descriptor a) = 103" "seg_access (tss_descriptor a) = 0x89"
    unfolding d seg_fields by simp_all
qed

section \<open>The controllers\<close>

text \<open>
  An 8259A as its manual describes it: the initialisation words it still expects after the first one, the vector its
  requests start at, the cascade word, the mask and the requests in service. A word at the command port with bit 4 set
  starts the initialisation; otherwise, with bit 3 clear, it is a command, of which the kernel sends the non-specific end
  of interrupt: the request in service with the highest priority is done.
\<close>

record pic =
  pic_step :: nat
  pic_icw1 :: u8
  pic_base :: u8
  pic_link :: u8
  pic_mode :: u8
  pic_mask :: u8
  pic_isr :: u8

fun lowest_bit :: "u8 \<Rightarrow> nat \<Rightarrow> nat \<Rightarrow> nat" where
  "lowest_bit w i 0 = i"
| "lowest_bit w i (Suc n) = (if bit w i then i else lowest_bit w (i + 1) n)"

definition pic_command :: "u8 \<Rightarrow> pic \<Rightarrow> pic" where
  "pic_command v c =
     (if bit v 4 then c\<lparr>pic_step := 2, pic_icw1 := v, pic_mask := 0\<rparr>
      else if \<not> bit v 3 \<and> v AND 0xE0 = 0x20 then c\<lparr>pic_isr := unset_bit (lowest_bit (pic_isr c) 0 8) (pic_isr c)\<rparr>
      else c)"

definition pic_data :: "u8 \<Rightarrow> pic \<Rightarrow> pic" where
  "pic_data v c =
     (let last = (if bit (pic_icw1 c) 0 then 4 else 0)
      in if pic_step c = 2 then c\<lparr>pic_base := v AND 0xF8, pic_step := (if bit (pic_icw1 c) 1 then last else 3)\<rparr>
         else if pic_step c = 3 then c\<lparr>pic_link := v, pic_step := last\<rparr>
         else if pic_step c = 4 then c\<lparr>pic_mode := v, pic_step := 0\<rparr>
         else c\<lparr>pic_mask := v\<rparr>)"

text \<open>The two chips at their ports: what the kernel relies on when it writes to the bus.\<close>

definition has_pics :: "'d io_bus \<Rightarrow> ('d \<Rightarrow> pic \<times> pic) \<Rightarrow> bool" where
  "has_pics bus view \<longleftrightarrow>
     (\<forall>p v d. view (bus_outb bus p v d) =
        (let (m, s) = view d
         in if p = 0x20 then (pic_command v m, s) else if p = 0x21 then (pic_data v m, s)
            else if p = 0xA0 then (m, pic_command v s) else if p = 0xA1 then (m, pic_data v s) else (m, s))) \<and>
     (\<forall>d. view (snd (bus_inb bus 0x60 d)) = view d)"

text \<open>
  The vector a request arrives at, when it gets through, and the chips once the processor has taken it: the slave's
  requests come through line 2 of the master. The end of interrupt is the processor's, bit 1 of the mode is clear.
\<close>

definition pic_ready :: "pic \<Rightarrow> bool" where "pic_ready c \<longleftrightarrow> pic_step c = 0 \<and> bit (pic_mode c) 0 \<and> \<not> bit (pic_mode c) 1"

definition irq_vector :: "pic \<times> pic \<Rightarrow> nat \<Rightarrow> u32 option" where
  "irq_vector ms irq =
     (let (m, s) = ms
      in if irq < 8
         then if pic_ready m \<and> \<not> bit (pic_mask m) irq then Some (ucast (pic_base m) + of_nat irq) else None
         else if pic_ready m \<and> pic_ready s \<and> bit (pic_link m) 2 \<and> pic_link s = 2 \<and> \<not> bit (pic_mask m) 2 \<and> \<not> bit (pic_mask s) (irq - 8)
         then Some (ucast (pic_base s) + of_nat (irq - 8)) else None)"

definition irq_taken :: "nat \<Rightarrow> pic \<times> pic \<Rightarrow> pic \<times> pic" where
  "irq_taken irq ms =
     (let (m, s) = ms
      in if irq < 8 then (m\<lparr>pic_isr := set_bit irq (pic_isr m)\<rparr>, s)
         else (m\<lparr>pic_isr := set_bit 2 (pic_isr m)\<rparr>, s\<lparr>pic_isr := set_bit (irq - 8) (pic_isr s)\<rparr>))"

definition pics_set_up :: "pic \<times> pic \<Rightarrow> bool" where
  "pics_set_up ms \<longleftrightarrow> (case ms of (m, s) \<Rightarrow> pic_ready m \<and> pic_ready s \<and> pic_base m = 32 \<and> pic_base s = 40 \<and> bit (pic_link m) 2 \<and>
     pic_link s = 2 \<and> pic_mask m = 0 \<and> pic_mask s = 0)"

lemma irq_init_pics:
  assumes "has_pics bus view" "view d = (m, s)"
  shows "pics_set_up (view (hw_irq_init bus d)) \<and> pic_isr (fst (view (hw_irq_init bus d))) = pic_isr m \<and>
    pic_isr (snd (view (hw_irq_init bus d))) = pic_isr s"
proof -
  have w: "view (bus_outb bus p v e) =
        (let (m, s) = view e
         in if p = 0x20 then (pic_command v m, s) else if p = 0x21 then (pic_data v m, s)
            else if p = 0xA0 then (m, pic_command v s) else if p = 0xA1 then (m, pic_data v s) else (m, s))" for p v e
    using assms(1) by (simp add: has_pics_def)
  have b: "bit (0x11 :: u8) 4" "bit (0x11 :: u8) 0" "\<not> bit (0x11 :: u8) 1" "bit (1 :: u8) 0" "\<not> bit (1 :: u8) 1" "bit (4 :: u8) 2"
    by (simp_all add: bit_iff_odd)
  have "view (hw_irq_init bus d) =
      (m\<lparr>pic_step := 0, pic_icw1 := 0x11, pic_base := 0x20, pic_link := 0x04, pic_mode := 0x01, pic_mask := 0\<rparr>,
       s\<lparr>pic_step := 0, pic_icw1 := 0x11, pic_base := 0x28, pic_link := 0x02, pic_mode := 0x01, pic_mask := 0\<rparr>)"
    by (simp add: hw_irq_init_def HW_PIC_MASTER_def HW_PIC_SLAVE_def w assms(2) pic_command_def pic_data_def b)
  then show ?thesis using b by (simp add: pics_set_up_def pic_ready_def)
qed

lemma lowest_single:
  assumes "i < 8"
  shows "unset_bit (lowest_bit (set_bit i (0 :: u8)) 0 8) (set_bit i 0) = (0 :: u8)"
proof -
  have lb: "lowest_bit (w :: u8) k n = i" if "\<forall>j. bit w j \<longleftrightarrow> j = i" "k \<le> i" "i < k + n" for w k n
    using that(2,3)
  proof (induction n arbitrary: k)
    case (Suc n)
    then show ?case using that(1) by (cases "k = i") auto
  qed simp
  have one: "bit (set_bit i (0 :: u8)) j \<longleftrightarrow> j = i" for j using assms by (auto simp: bit_simps)
  have "lowest_bit (set_bit i (0 :: u8)) 0 8 = i" by (rule lb) (use one assms in simp_all)
  then show ?thesis by (intro bit_word_eqI) (auto simp: bit_simps)
qed

text \<open>The end of the interrupt that was taken leaves no request in service, on either chip.\<close>

lemma eoi_done:
  assumes "has_pics bus view" "view d = irq_taken irq (m, s)" "pic_isr m = 0" "pic_isr s = 0" "irq < 16"
  shows "view (hw_irq_eoi bus (of_nat irq) d) = (m, s)"
proof -
  have w: "view (bus_outb bus p v e) =
        (let (m, s) = view e
         in if p = 0x20 then (pic_command v m, s) else if p = 0x21 then (pic_data v m, s)
            else if p = 0xA0 then (m, pic_command v s) else if p = 0xA1 then (m, pic_data v s) else (m, s))" for p v e
    using assms(1) by (simp add: has_pics_def)
  have b: "\<not> bit (0x20 :: u8) 4" "\<not> bit (0x20 :: u8) 3" by (simp_all add: bit_iff_odd)
  have c: "pic_command 0x20 (c\<lparr>pic_isr := set_bit i (pic_isr c)\<rparr>) = c" if "pic_isr c = 0" "i < 8" for c i
    using lowest_single [OF that(2)] that(1) b by (simp add: pic_command_def)
  have i: "8 \<le> (of_nat irq :: u8) \<longleftrightarrow> 8 \<le> irq" using assms(5) by (simp add: word_le_nat_alt unat_of_nat8_small)
  show ?thesis
  proof (cases "irq < 8")
    case True
    then show ?thesis using i c [OF assms(3) True]
      by (simp add: hw_irq_eoi_def HW_PIC_MASTER_def HW_PIC_SLAVE_def HW_PIC_EOI_def w assms(2) irq_taken_def)
  next
    case False
    then have "irq - 8 < 8" using assms(5) by simp
    then show ?thesis using False i c [OF assms(4), of "irq - 8"] c [OF assms(3), of 2]
      by (simp add: hw_irq_eoi_def HW_PIC_MASTER_def HW_PIC_SLAVE_def HW_PIC_EOI_def w assms(2) irq_taken_def)
  qed
qed

lemma irq_vectors:
  assumes "pics_set_up ms" "irq < 16"
  shows "irq_vector ms irq = Some (32 + of_nat irq)"
proof (cases ms)
  case (Pair m s)
  then show ?thesis using assms
    by (cases "irq < 8") (simp_all add: irq_vector_def pics_set_up_def of_nat_diff)
qed

lemma unknown_irq_output: "\<exists>es. kvprintf_to unknown_irq_msg [VaInt n] = Inr es"
  by (simp add: unknown_irq_msg_def)

lemma irq_action_result:
  assumes "has_pics bus view"
  shows "case irq_action bus num mc of
      Inl e \<Rightarrow> num = 33 \<and> kb_handle_interrupt (fst (bus_inb bus 0x60 (mc_dev mc))) (mc_k mc) = Inl e
    | Inr mc' \<Rightarrow> view (mc_dev mc') = view (mc_dev mc) \<and>
       (if num = 33 then kb_handle_interrupt (fst (bus_inb bus 0x60 (mc_dev mc))) (mc_k mc) = Inr (mc_k mc') else mc_k mc' = mc_k mc)"
proof (cases "num = 33")
  case True
  have v: "view (snd (bus_inb bus 0x60 (mc_dev mc))) = view (mc_dev mc)" using assms by (simp add: has_pics_def)
  obtain sc d where i: "bus_inb bus 0x60 (mc_dev mc) = (sc, d)" by (cases "bus_inb bus 0x60 (mc_dev mc)")
  then have "view d = view (mc_dev mc)" using v by simp
  then show ?thesis using True i
    by (cases "kb_handle_interrupt sc (mc_k mc)") (simp_all add: irq_action_def HW_IRQ_KEYBOARD_def IO_KEYBOARD_DATA_PORT_def)
next
  case False
  obtain es where "kvprintf_to unknown_irq_msg [VaInt num] = Inr es" using unknown_irq_output by blast
  then show ?thesis using False by (simp add: irq_action_def HW_IRQ_KEYBOARD_def)
qed

text \<open>
  C35. After \<open>hw_irq_init\<close> request \<open>n\<close> of the two controllers arrives at vector 32 + n, and its handler does what belongs
  to the device, scheduling for the timer and reading a key for the keyboard, and leaves no request in service: the
  controllers are as they were set up, ready for the next one.
\<close>

theorem interrupts_acknowledged:
  assumes "has_pics bus view" "view d = (m, s)" "pic_isr m = 0" "pic_isr s = 0" "irq < 16"
  shows "irq_vector (view (hw_irq_init bus d)) irq = Some (32 + of_nat irq) \<and>
    (\<forall>mc. view (mc_dev mc) = irq_taken irq (view (hw_irq_init bus d)) \<longrightarrow>
      (\<forall>regs. case timer_interrupt bus regs mc of Inl e \<Rightarrow> scheduler regs (mc_k mc) = Inl e
        | Inr (esp, mc') \<Rightarrow> scheduler regs (mc_k mc) = Inr (esp, mc_k mc') \<and>
            (irq = 0 \<longrightarrow> view (mc_dev mc') = view (hw_irq_init bus d))) \<and>
      (case isr_handler bus (32 + of_nat irq) mc of
         Inl e \<Rightarrow> irq = 1 \<and> kb_handle_interrupt (fst (bus_inb bus 0x60 (mc_dev mc))) (mc_k mc) = Inl e
       | Inr mc' \<Rightarrow> view (mc_dev mc') = view (hw_irq_init bus d) \<and>
           (if irq = 1 then kb_handle_interrupt (fst (bus_inb bus 0x60 (mc_dev mc))) (mc_k mc) = Inr (mc_k mc')
            else mc_k mc' = mc_k mc)))"
proof -
  obtain m1 s1 where v: "view (hw_irq_init bus d) = (m1, s1)" by (cases "view (hw_irq_init bus d)")
  have up: "pics_set_up (m1, s1)" "pic_isr m1 = 0" "pic_isr s1 = 0"
    using irq_init_pics [OF assms(1,2)] assms(3,4) v by simp_all
  have eoi: "view (hw_irq_eoi bus (of_nat irq) e) = (m1, s1)" if "view e = irq_taken irq (m1, s1)" for e
    by (rule eoi_done [OF assms(1) that up(2,3) assms(5)])
  have num: "\<not> sint (32 + of_nat irq :: u32) < 32" "(32 + of_nat irq = (33 :: u32)) \<longleftrightarrow> irq = 1"
    "ucast (32 + of_nat irq - PIC_INT_OFFSET :: u32) = (of_nat irq :: u8)"
  proof -
    have "irq \<in> {0..<16}" using assms(5) by simp
    then have c: "irq \<in> set [0..<16]" by simp
    show "\<not> sint (32 + of_nat irq :: u32) < 32" "(32 + of_nat irq = (33 :: u32)) \<longleftrightarrow> irq = 1"
      "ucast (32 + of_nat irq - PIC_INT_OFFSET :: u32) = (of_nat irq :: u8)"
      using c by (auto simp: upt_conv_Cons PIC_INT_OFFSET_def)
  qed
  have timer: "case timer_interrupt bus regs mc of Inl e \<Rightarrow> scheduler regs (mc_k mc) = Inl e
        | Inr (esp, mc') \<Rightarrow> scheduler regs (mc_k mc) = Inr (esp, mc_k mc') \<and> (irq = 0 \<longrightarrow> view (mc_dev mc') = (m1, s1))"
    if "view (mc_dev mc) = irq_taken irq (m1, s1)" for mc regs
    using eoi [OF that] by (cases "scheduler regs (mc_k mc)") (auto simp: timer_interrupt_def split: prod.splits)
  have isr: "case isr_handler bus (32 + of_nat irq) mc of
         Inl e \<Rightarrow> irq = 1 \<and> kb_handle_interrupt (fst (bus_inb bus 0x60 (mc_dev mc))) (mc_k mc) = Inl e
       | Inr mc' \<Rightarrow> view (mc_dev mc') = (m1, s1) \<and>
           (if irq = 1 then kb_handle_interrupt (fst (bus_inb bus 0x60 (mc_dev mc))) (mc_k mc) = Inr (mc_k mc')
            else mc_k mc' = mc_k mc)" if t: "view (mc_dev mc) = irq_taken irq (m1, s1)" for mc
    using irq_action_result [OF assms(1), of "32 + of_nat irq" mc] eoi t
    by (cases "irq_action bus (32 + of_nat irq) mc") (simp_all add: isr_handler_def num)
  show ?thesis unfolding v using irq_vectors [OF up(1) assms(5)] timer isr by blast
qed

text \<open>A bus with nothing but the two chips and a keyboard on it.\<close>

definition pic_bus :: "(pic \<times> pic) io_bus" where
  "pic_bus = \<lparr>bus_inb = (\<lambda>p d. (0x1E, d)), bus_inw = (\<lambda>p d. (0, d)),
     bus_outb = (\<lambda>p v (m, s). if p = 0x20 then (pic_command v m, s) else if p = 0x21 then (pic_data v m, s)
            else if p = 0xA0 then (m, pic_command v s) else if p = 0xA1 then (m, pic_data v s) else (m, s)),
     bus_outw = (\<lambda>p v d. d)\<rparr>"

definition reset_pic :: pic where
  "reset_pic = \<lparr>pic_step = 0, pic_icw1 = 0, pic_base = 0, pic_link = 0, pic_mode = 0, pic_mask = 0xFF, pic_isr = 0\<rparr>"

theorem interrupts_acknowledged_witness:
  "irq_vector (hw_irq_init pic_bus (reset_pic, reset_pic)) 14 = Some 46 \<and>
   (case isr_handler pic_bus 46 \<lparr>mc_k = demo_fault, mc_dev = irq_taken 14 (hw_irq_init pic_bus (reset_pic, reset_pic)), mc_out = []\<rparr> of
      Inl e \<Rightarrow> False | Inr mc' \<Rightarrow> mc_dev mc' = hw_irq_init pic_bus (reset_pic, reset_pic))"
proof -
  have b: "has_pics pic_bus id" by (simp add: has_pics_def pic_bus_def split: prod.splits)
  let ?mc = "\<lparr>mc_k = demo_fault, mc_dev = irq_taken 14 (hw_irq_init pic_bus (reset_pic, reset_pic)), mc_out = []\<rparr>"
  have z: "pic_isr reset_pic = 0" by (simp add: reset_pic_def)
  have v: "id (reset_pic, reset_pic) = (reset_pic, reset_pic)" by simp
  have irq: "(14 :: nat) < 16" by simp
  note main = interrupts_acknowledged [OF b v z z irq]
  have r: "irq_vector (hw_irq_init pic_bus (reset_pic, reset_pic)) 14 = Some 46" using main [THEN conjunct1] by simp
  have dev: "id (mc_dev ?mc) = irq_taken 14 (id (hw_irq_init pic_bus (reset_pic, reset_pic)))" by simp
  from main [THEN conjunct2, rule_format, OF dev, THEN conjunct2]
  show ?thesis using r by (cases "isr_handler pic_bus (32 + of_nat 14) ?mc") simp_all
qed

text \<open>
  The timer, an 8254: after the command word for channel 0, low byte then high byte, two bytes at its data port are the
  number the clock of 1193182 Hz is divided by. For the frequencies that fit, what \<open>hw_timer_init\<close> writes is that number.
\<close>

lemma timer_divisor:
  assumes "19 \<le> freq"
  shows "\<exists>lo hi. hw_timer_init bus freq d = Inr (out_all bus [(0x43, 0x36), (0x40, lo), (0x40, hi)] d) \<and>
    unat lo + 256 * unat hi = 1193182 div unat freq"
proof -
  let ?q = "HW_PIT_BASE_FREQ div freq"
  have u: "unat ?q = 1193182 div unat freq" by (simp add: unat_div HW_PIT_BASE_FREQ_def)
  have "1193182 div unat freq \<le> 1193182 div 19" using assms by (intro div_le_mono2) (simp_all add: word_le_nat_alt)
  then have q: "unat ?q < 65536" using u by simp
  have m: "(0xFF :: u32) = mask 8" by (simp add: mask_eq_exp_minus_1)
  have "unat (ucast (?q AND 0xFF) :: u8) = unat ?q mod 256"
    unfolding m take_bit_eq_mask [symmetric] by (simp add: unsigned_ucast_eq unsigned_take_bit_eq take_bit_eq_mod unat_mod)
  moreover have "unat (ucast (drop_bit 8 ?q AND 0xFF) :: u8) = unat ?q div 256"
    unfolding m take_bit_eq_mask [symmetric] using q
    by (simp add: unsigned_ucast_eq unsigned_take_bit_eq take_bit_eq_mod unat_mod unat_div unat_drop_bit_eq drop_bit_eq_div)
  ultimately show ?thesis using assms u
    by (intro exI [of _ "ucast (?q AND 0xFF)"] exI [of _ "ucast (drop_bit 8 ?q AND 0xFF)"])
      (auto simp: hw_timer_init_def Let_def HW_PIT_CMD_PORT_def HW_PIT_DATA_PORT_def word_le_nat_alt)
qed

end
