(* ===== verification/Tty.thy ===== *)
theory Tty
  imports Paging Print Font
begin

text \<open>
  The terminal, \<open>kernel/tty/src/tty.c\<close>, and the frame buffer it draws into, \<open>kernel/dev/src/vesa.c\<close>: a
  grid of characters with a cursor, which scrolls, and the pixels that are painted from it when it is
  flushed. The frame buffer is the pixels from \<open>VESA_VIRT_BASE\<close> on that \<open>vesa_init\<close> maps; a store behind
  them is a page fault of the kernel.
\<close>

section \<open>The frame buffer\<close>

definition VESA_WIDTH :: nat where "VESA_WIDTH = 1024"
definition VESA_HEIGHT :: nat where "VESA_HEIGHT = 768"
definition VESA_COLOR_CHANNELS :: nat where "VESA_COLOR_CHANNELS = 4"
definition VESA_VIRT_BASE :: u32 where "VESA_VIRT_BASE = 0xe0000000"

record vesa =
  vesa_framebuffer :: "u32 \<Rightarrow> u32"
  vesa_pitch :: u16

text \<open>A loop that counts up, from \<open>i\<close> on, \<open>n\<close> times.\<close>

fun for_loop :: "nat \<Rightarrow> nat \<Rightarrow> (nat \<Rightarrow> 's \<Rightarrow> 's res) \<Rightarrow> 's \<Rightarrow> 's res" where
  "for_loop i 0 f s = Inr s"
| "for_loop i (Suc n) f s = and_then (f i s) (for_loop (i + 1) n f)"

text \<open>
  \<open>vesa_init\<close>: the address of the frame buffer and the length of its lines in bytes are what the boot
  loader left at 0x600 and 0x7e10.
\<close>

definition vesa_init :: "u32 \<Rightarrow> u16 \<Rightarrow> paging \<Rightarrow> vesa \<Rightarrow> (paging \<times> vesa) res" where
  "vesa_init fb_phys pitch_bytes pg v =
     and_then
       (for_loop 0 (VESA_WIDTH * VESA_HEIGHT * VESA_COLOR_CHANNELS div 4096)
         (\<lambda>i pg. paging_map pg (kernel_pd pg) (fb_phys + of_nat (4096 * i)) (VESA_VIRT_BASE + of_nat (4096 * i))
            PAGING_PD_ENTRY_FLAGS_KERNEL_ONLY) pg)
       (\<lambda>pg1. Inr (pg1, v\<lparr>vesa_pitch := pitch_bytes div 4\<rparr>))"

definition vesa_set_pixel :: "u32 \<Rightarrow> u32 \<Rightarrow> u32 \<Rightarrow> vesa \<Rightarrow> vesa res" where
  "vesa_set_pixel x y color v =
     (let i = y * ucast (vesa_pitch v) + x
      in if unat i < VESA_WIDTH * VESA_HEIGHT
         then Inr (v\<lparr>vesa_framebuffer := (vesa_framebuffer v)(i := color)\<rparr>)
         else Inl (KFault ''store behind the frame buffer''))"

definition vesa_clear :: "u32 \<Rightarrow> vesa \<Rightarrow> vesa res" where
  "vesa_clear color =
     for_loop 0 VESA_HEIGHT (\<lambda>y. for_loop 0 VESA_WIDTH (\<lambda>x. vesa_set_pixel (of_nat x) (of_nat y) color))"

section \<open>The terminal\<close>

definition TTY_CHAR_WIDTH :: nat where "TTY_CHAR_WIDTH = 8"
definition TTY_CHAR_HEIGHT :: nat where "TTY_CHAR_HEIGHT = 16"
definition tty_cols :: nat where "tty_cols = VESA_WIDTH div TTY_CHAR_WIDTH"
definition tty_rows :: nat where "tty_rows = VESA_HEIGHT div TTY_CHAR_HEIGHT"
definition TTY_BACKBUFFER_SIZE :: nat where "TTY_BACKBUFFER_SIZE = tty_cols * tty_rows"

lemma tty_sizes: "tty_cols = 128" "tty_rows = 48" "TTY_BACKBUFFER_SIZE = 6144" "VESA_WIDTH * VESA_HEIGHT = 786432"
  by (simp_all add: tty_cols_def tty_rows_def TTY_BACKBUFFER_SIZE_def VESA_WIDTH_def VESA_HEIGHT_def
      TTY_CHAR_WIDTH_def TTY_CHAR_HEIGHT_def)

record tty_char =
  tc_c :: u8
  tc_fg :: u32
  tc_bg :: u32

record tty =
  tty_backbuffer :: "tty_char list"
  tty_cursor_x :: nat
  tty_cursor_y :: nat
  tty_fg :: u32
  tty_bg :: u32
  tty_vesa :: vesa

definition zero_char :: tty_char where "zero_char = \<lparr>tc_c = 0, tc_fg = 0, tc_bg = 0\<rparr>"

definition set_pixel :: "nat \<Rightarrow> nat \<Rightarrow> u32 \<Rightarrow> tty \<Rightarrow> tty res" where
  "set_pixel x y color t =
     and_then (vesa_set_pixel (of_nat x) (of_nat y) color (tty_vesa t)) (\<lambda>v. Inr (t\<lparr>tty_vesa := v\<rparr>))"

text \<open>
  A row of a glyph. \<open>char\<close> is signed: from 0x80 on the address lies before the font.
\<close>

definition glyph_row :: "u8 \<Rightarrow> nat \<Rightarrow> u8 res" where
  "glyph_row c row =
     (let i = 6 + sint c * 16 + int row
      in if 0 \<le> i \<and> i < int default8x16_psf_len then Inr (default8x16_psf ! nat i)
         else Inl (KFault ''read outside the font''))"

definition tty_flush_char :: "tty_char \<Rightarrow> nat \<Rightarrow> nat \<Rightarrow> tty \<Rightarrow> tty res" where
  "tty_flush_char tc px py =
     for_loop 0 TTY_CHAR_HEIGHT (\<lambda>row. for_loop 0 TTY_CHAR_WIDTH (\<lambda>col t.
       and_then (glyph_row (tc_c tc) row) (\<lambda>bits.
         set_pixel (px + col) (py + row) (if bits AND drop_bit col 0x80 \<noteq> 0 then tc_fg tc else tc_bg tc) t)))"

definition tty_flush_cell :: "nat \<Rightarrow> tty \<Rightarrow> tty res" where
  "tty_flush_cell i t =
     (let tc = tty_backbuffer t ! i; px = i mod tty_cols * TTY_CHAR_WIDTH; py = i div tty_cols * TTY_CHAR_HEIGHT
      in if i \<ge> TTY_BACKBUFFER_SIZE then Inl (KFault ''tty_backbuffer index'')
         else if tc_c tc = 0
         then for_loop 0 TTY_CHAR_HEIGHT (\<lambda>row. for_loop 0 TTY_CHAR_WIDTH (\<lambda>col t.
                set_pixel (px + col) (py + row) (tty_bg t) t)) t
         else tty_flush_char tc px py t)"

definition tty_flush_line :: "nat \<Rightarrow> tty \<Rightarrow> tty res" where
  "tty_flush_line line = for_loop (line * tty_cols) tty_cols tty_flush_cell"

definition tty_flush :: "tty \<Rightarrow> tty res" where
  "tty_flush = for_loop 0 TTY_BACKBUFFER_SIZE tty_flush_cell"

definition tty_flush_current_line :: "tty \<Rightarrow> tty res" where
  "tty_flush_current_line t = tty_flush_line (tty_cursor_y t) t"

definition tty_flush_from :: "nat \<Rightarrow> tty \<Rightarrow> tty res" where
  "tty_flush_from from_line t = for_loop from_line (tty_cursor_y t + 1 - from_line) tty_flush_line t"

text \<open>\<open>kmemcpy\<close> copies upwards, so the rows move although source and destination overlap.\<close>

definition tty_scroll :: "tty \<Rightarrow> tty res" where
  "tty_scroll t =
     tty_flush (t\<lparr>tty_backbuffer := drop tty_cols (tty_backbuffer t) @ replicate tty_cols zero_char,
                 tty_cursor_y := tty_rows - 1\<rparr>)"

definition tty_newline :: "tty \<Rightarrow> tty res" where
  "tty_newline t =
     and_then (tty_flush_line (tty_cursor_y t) (t\<lparr>tty_cursor_x := 0\<rparr>)) (\<lambda>t1.
       (let t2 = t1\<lparr>tty_cursor_y := tty_cursor_y t1 + 1\<rparr>
        in if tty_cursor_y t2 \<ge> tty_rows then tty_scroll t2 else Inr t2))"

definition cursor_index :: "tty \<Rightarrow> nat" where
  "cursor_index t = tty_cursor_y t * tty_cols + tty_cursor_x t"

definition put_cell :: "u8 \<Rightarrow> tty \<Rightarrow> tty" where
  "put_cell c t = t\<lparr>tty_backbuffer :=
     (tty_backbuffer t)[cursor_index t := \<lparr>tc_c = c, tc_fg = tty_fg t, tc_bg = tty_bg t\<rparr>]\<rparr>"

definition tty_putchar :: "u8 \<Rightarrow> tty \<Rightarrow> tty res" where
  "tty_putchar c t =
     (if c = 0x0C then tty_flush t
      else if c = 0x0A then tty_newline t
      else if cursor_index t \<ge> TTY_BACKBUFFER_SIZE then Inl (KFault ''tty_backbuffer index'')
      else let t1 = (put_cell c t)\<lparr>tty_cursor_x := tty_cursor_x t + 1\<rparr>
           in if tty_cursor_x t1 \<ge> tty_cols
              then let t2 = t1\<lparr>tty_cursor_x := 0, tty_cursor_y := tty_cursor_y t1 + 1\<rparr>
                   in if tty_cursor_y t2 \<ge> tty_rows then tty_scroll t2 else Inr t2
              else Inr t1)"

definition tty_backspace :: "tty \<Rightarrow> tty res" where
  "tty_backspace t =
     (if tty_cursor_x t = 0 \<and> tty_cursor_y t = 0 then Inr t
      else let t1 = (if tty_cursor_x t = 0 then t\<lparr>tty_cursor_y := tty_cursor_y t - 1, tty_cursor_x := tty_cols - 1\<rparr>
                     else t\<lparr>tty_cursor_x := tty_cursor_x t - 1\<rparr>);
               i = cursor_index t1
           in tty_flush_cell i (t1\<lparr>tty_backbuffer := (tty_backbuffer t1)[i := (tty_backbuffer t1 ! i)\<lparr>tc_c := 0\<rparr>]\<rparr>))"

fun tty_puts :: "u8 list \<Rightarrow> tty \<Rightarrow> tty res" where
  "tty_puts [] t = Inr t"
| "tty_puts (c # s) t = and_then (tty_putchar c t) (tty_puts s)"

fun tty_emits :: "emit list \<Rightarrow> tty \<Rightarrow> tty res" where
  "tty_emits [] t = Inr t"
| "tty_emits (Putchar c # es) t = and_then (tty_putchar c t) (tty_emits es)"
| "tty_emits (Newline # es) t = and_then (tty_newline t) (tty_emits es)"

definition tty_vprintf :: "u8 list \<Rightarrow> va list \<Rightarrow> tty \<Rightarrow> tty res" where
  "tty_vprintf s args t = and_then (kvprintf_to s args) (\<lambda>es. tty_emits es t)"

definition tty_printf :: "u8 list \<Rightarrow> va list \<Rightarrow> tty \<Rightarrow> tty res" where
  "tty_printf = tty_vprintf"

text \<open>What the system call \<open>write\<close> and the log do with a string, and the echo of a key.\<close>

definition tty_write :: "u8 list \<Rightarrow> tty \<Rightarrow> tty res" where
  "tty_write str t = and_then (tty_puts str t) (tty_flush_from (tty_cursor_y t))"

definition tty_log_sink :: "u8 list \<Rightarrow> tty \<Rightarrow> tty res" where
  "tty_log_sink str t = and_then (tty_puts str t) tty_flush"

definition tty_echo :: "u8 \<Rightarrow> tty \<Rightarrow> tty res" where
  "tty_echo c t = and_then (tty_putchar c t) tty_flush_current_line"

definition tty_init :: "tty \<Rightarrow> tty" where
  "tty_init t = t\<lparr>tty_cursor_x := 0, tty_cursor_y := 0, tty_backbuffer := replicate TTY_BACKBUFFER_SIZE zero_char\<rparr>"

definition tty_clear :: "tty \<Rightarrow> tty res" where
  "tty_clear t =
     and_then (vesa_clear (tty_bg t) (tty_vesa t)) (\<lambda>v. Inr ((tty_init t)\<lparr>tty_vesa := v\<rparr>))"

definition tty_set_fg :: "u32 \<Rightarrow> tty \<Rightarrow> tty" where "tty_set_fg color t = t\<lparr>tty_fg := color\<rparr>"
definition tty_set_bg :: "u32 \<Rightarrow> tty \<Rightarrow> tty" where "tty_set_bg color t = t\<lparr>tty_bg := color\<rparr>"

section \<open>What is painted\<close>

text \<open>
  The pixel with index \<open>n\<close> of the frame buffer lies in line \<open>n div 1024\<close> and column \<open>n mod 1024\<close>; this is
  its cell, the row of cells that is in, and the colour that the text gives it.
\<close>

definition cell_of :: "nat \<Rightarrow> nat" where
  "cell_of n = n div 1024 div 16 * 128 + n mod 1024 div 8"

text \<open>
  What a cell shows of the font: the glyph of its character two lines higher than the font has it, its first two lines cut
  off, and in the last two lines of the cell the first two of the next glyph.
\<close>

definition font_bits :: "u8 \<Rightarrow> nat \<Rightarrow> u8" where
  "font_bits c row = (if row < 14 then psf_row c (row + 2) else psf_row (c + 1) (row - 14))"

definition shade :: "tty \<Rightarrow> nat \<Rightarrow> u32" where
  "shade t n =
     (let tc = tty_backbuffer t ! cell_of n
      in if tc_c tc = 0 then tty_bg t
         else if font_bits (tc_c tc) (n div 1024 mod 16) AND drop_bit (n mod 8) 0x80 \<noteq> 0 then tc_fg tc else tc_bg tc)"

definition paint :: "nat set \<Rightarrow> tty \<Rightarrow> tty" where
  "paint D t = t\<lparr>tty_vesa := (tty_vesa t)\<lparr>vesa_framebuffer :=
     (\<lambda>p. if unat p \<in> D then shade t (unat p) else vesa_framebuffer (tty_vesa t) p)\<rparr>\<rparr>"

text \<open>The terminal is in order: its grid has its size, the cursor is in it, and it holds ASCII only.\<close>

definition tty_ok :: "tty \<Rightarrow> bool" where
  "tty_ok t \<longleftrightarrow> length (tty_backbuffer t) = TTY_BACKBUFFER_SIZE \<and> tty_cursor_x t < tty_cols \<and> tty_cursor_y t < tty_rows \<and>
     (\<forall>tc\<in>set (tty_backbuffer t). unat (tc_c tc) < 128) \<and> vesa_pitch (tty_vesa t) = 1024"

text \<open>Only the grid and the pitch matter for painting.\<close>

definition grid_ok :: "tty \<Rightarrow> bool" where
  "grid_ok t \<longleftrightarrow> length (tty_backbuffer t) = TTY_BACKBUFFER_SIZE \<and>
     (\<forall>tc\<in>set (tty_backbuffer t). unat (tc_c tc) < 128) \<and> vesa_pitch (tty_vesa t) = 1024"

lemma tty_ok_grid: "tty_ok t \<longleftrightarrow> grid_ok t \<and> tty_cursor_x t < tty_cols \<and> tty_cursor_y t < tty_rows"
  by (auto simp: tty_ok_def grid_ok_def)

lemma shade_vesa [simp]: "shade (t\<lparr>tty_vesa := v\<rparr>) n = shade t n"
  by (simp add: shade_def Let_def)

lemma paint_simps [simp]:
  "tty_backbuffer (paint D t) = tty_backbuffer t" "tty_cursor_x (paint D t) = tty_cursor_x t"
  "tty_cursor_y (paint D t) = tty_cursor_y t" "tty_fg (paint D t) = tty_fg t" "tty_bg (paint D t) = tty_bg t"
  "vesa_pitch (tty_vesa (paint D t)) = vesa_pitch (tty_vesa t)"
  "vesa_framebuffer (tty_vesa (paint D t)) p =
     (if unat p \<in> D then shade t (unat p) else vesa_framebuffer (tty_vesa t) p)"
  "shade (paint D t) n = shade t n" "grid_ok (paint D t) = grid_ok t" "tty_ok (paint D t) = tty_ok t"
  by (simp_all add: paint_def grid_ok_def tty_ok_def)

lemma paint_paint: "paint D (paint E t) = paint (D \<union> E) t"
  by (cases t) (auto simp: paint_def fun_eq_iff shade_def Let_def)

lemma paint_empty: "paint {} t = t"
  by (simp add: paint_def)

text \<open>A loop each turn of which does its part of one change does all of it.\<close>

lemma for_loop_parts:
  assumes "\<And>j s. i \<le> j \<Longrightarrow> j < i + n \<Longrightarrow> Q s \<Longrightarrow> f j s = Inr (P (A j) s)"
    and "\<And>D s. Q s \<Longrightarrow> Q (P D s)" "\<And>D E s. P D (P E s) = P (D \<union> E) s" "\<And>s. P {} s = s" "Q s"
  shows "for_loop i n f s = Inr (P (\<Union>j\<in>{i..<i + n}. A j) s)"
  using assms(1,5)
proof (induction n arbitrary: i s)
  case 0
  then show ?case by (simp add: assms(4))
next
  case (Suc n)
  have "f i s = Inr (P (A i) s)" using Suc.prems by simp
  moreover have "for_loop (i + 1) n f (P (A i) s) = Inr (P (\<Union>j\<in>{i + 1..<i + 1 + n}. A j) (P (A i) s))"
    using Suc.prems by (intro Suc.IH assms(2)) auto
  moreover have "(\<Union>j\<in>{i + 1..<i + 1 + n}. A j) \<union> A i = (\<Union>j\<in>{i..<i + Suc n}. A j)"
  proof -
    have "{i..<i + Suc n} = insert i {i + 1..<i + 1 + n}" by auto
    then show ?thesis by auto
  qed
  ultimately show ?case by (simp add: assms(3))
qed

lemmas for_loop_paint = for_loop_parts [where P = paint and Q = grid_ok, OF _ _ paint_paint paint_empty, simplified]

lemma set_pixel_paint:
  assumes "grid_ok t" "x < 1024" "y < 768" "color = shade t (y * 1024 + x)"
  shows "set_pixel x y color t = Inr (paint {y * 1024 + x} t)"
proof -
  have y: "unat (of_nat y * 1024 :: u32) = y * 1024"
    using assms(3) by (subst unat_mul_small) (simp_all add: unat_of_nat_small)
  have "unat (of_nat y * 1024 + of_nat x :: u32) = y * 1024 + x"
    using assms(2,3) y by (subst unat_add_nat) simp_all
  moreover have "y * 1024 + x < 786432" using assms(2,3) by linarith
  moreover have "p = of_nat y * 1024 + of_nat x \<longleftrightarrow> unat p = y * 1024 + x" for p :: u32
    using calculation(1) by (metis word_unat_eq_iff)
  ultimately show ?thesis using assms(1,4)
    by (auto simp: set_pixel_def vesa_set_pixel_def grid_ok_def tty_sizes paint_def Let_def fun_eq_iff)
qed

lemma glyph_row_ascii:
  assumes "unat c < 128" "row < 16"
  shows "glyph_row c row = Inr (font_bits c row)"
proof -
  have "int (unat c) < 128" using assms(1) by linarith
  then have "- 128 \<le> uint c" "uint c < 128" using uint_ge_0 [of c] by (linarith, simp)
  then have "sint c = int (unat c)" unfolding sint_uint by (simp add: signed_take_bit_int_eq_self)
  moreover define k where "k = unat c"
  ultimately have k: "sint c = int k" "unat c = k" "k < 128" using assms(1) by simp_all
  have "unat (c + 1) = k + 1" using k(2,3) by (simp add: unat_word_ariths)
  then have "font_bits c row = default8x16_psf ! (6 + k * 16 + row)"
    using assms(2) by (simp add: font_bits_def psf_row_def k(2) algebra_simps)
  then show ?thesis using k assms(2) by (simp add: glyph_row_def Let_def default8x16_psf_len_def nat_add_distrib nat_mult_distrib)
qed

definition cell_pixel :: "nat \<Rightarrow> nat \<Rightarrow> nat \<Rightarrow> nat" where
  "cell_pixel i row col = (i div 128 * 16 + row) * 1024 + (i mod 128 * 8 + col)"

lemma pixel_split: "x < 1024 \<Longrightarrow> (y * 1024 + x) div 1024 = y \<and> (y * 1024 + x) mod 1024 = (x :: nat)"
  by simp

lemma cell_pixel_parts:
  assumes "i < 6144" "row < 16" "col < 8"
  shows "i div 128 * 16 + row < 768" "i mod 128 * 8 + col < 1024" "cell_of (cell_pixel i row col) = i"
    "cell_pixel i row col div 1024 mod 16 = row" "cell_pixel i row col mod 8 = col"
proof -
  let ?y = "i div 128 * 16 + row" and ?x = "i mod 128 * 8 + col"
  have x: "?x < 1024" using assms(3) mod_less_divisor [of 128 i] by linarith
  have "i div 128 < 48" using assms(1) by (simp add: less_mult_imp_div_less)
  then show "?y < 768" using assms(2) by linarith
  show "?x < 1024" by (rule x)
  have d: "cell_pixel i row col div 1024 = ?y" "cell_pixel i row col mod 1024 = ?x"
    unfolding cell_pixel_def using pixel_split [OF x, of ?y] by auto
  have "?y div 16 = i div 128" "?x div 8 = i mod 128" using assms(2,3) by simp_all
  then show "cell_of (cell_pixel i row col) = i" unfolding cell_of_def d by simp
  show "cell_pixel i row col div 1024 mod 16 = row" unfolding d using assms(2) by simp
  have "cell_pixel i row col = ((i div 128 * 16 + row) * 128 + i mod 128) * 8 + col"
    by (simp add: cell_pixel_def algebra_simps)
  then show "cell_pixel i row col mod 8 = col" using assms(3) by (simp only: mod_mult_self3 mod_less)
qed

lemma cell_pixel_of:
  assumes "n < 786432"
  shows "cell_of n < 6144" "n = cell_pixel (cell_of n) (n div 1024 mod 16) (n mod 8)"
proof -
  let ?i = "cell_of n"
  have x: "n mod 1024 div 8 < 128" using mod_less_divisor [of 1024 n] by linarith
  have y: "n div 1024 div 16 < 48" using assms by linarith
  show "?i < 6144" unfolding cell_of_def using x y by linarith
  have "?i div 128 = n div 1024 div 16" "?i mod 128 = n mod 1024 div 8" using x by (simp_all add: cell_of_def)
  then have e: "cell_pixel ?i (n div 1024 mod 16) (n mod 8) =
      (n div 1024 div 16 * 16 + n div 1024 mod 16) * 1024 + (n mod 1024 div 8 * 8 + n mod 8)"
    by (simp add: cell_pixel_def)
  have "n mod 8 = n mod 1024 mod 8" by (simp add: mod_mod_cancel)
  then have "n mod 1024 div 8 * 8 + n mod 8 = n mod 1024" by presburger
  moreover have "n div 1024 div 16 * 16 + n div 1024 mod 16 = n div 1024" by presburger
  ultimately show "n = cell_pixel ?i (n div 1024 mod 16) (n mod 8)" unfolding e by simp
qed

lemma pixel_bound: "y < 768 \<Longrightarrow> x < 1024 \<Longrightarrow> y * 1024 + x < (786432 :: nat)"
  by linarith

definition cell_pixels :: "nat \<Rightarrow> nat set" where
  "cell_pixels i = {n. n < 786432 \<and> cell_of n = i}"

lemma cell_pixels_parts:
  assumes "i < 6144"
  shows "(\<Union>row\<in>{0..<0 + 16}. \<Union>col\<in>{0..<0 + 8}. {cell_pixel i row col}) = cell_pixels i"
proof (intro subset_antisym subsetI)
  fix n
  assume "n \<in> (\<Union>row\<in>{0..<0 + 16}. \<Union>col\<in>{0..<0 + 8}. {cell_pixel i row col})"
  then obtain row col where rc: "row < 16" "col < 8" "n = cell_pixel i row col" by auto
  note c = cell_pixel_parts [OF assms rc(1,2)]
  have "n < 786432" unfolding rc(3) cell_pixel_def using c(1,2) by (rule pixel_bound)
  then show "n \<in> cell_pixels i" using c(3) rc(3) by (simp add: cell_pixels_def)
next
  fix n
  assume "n \<in> cell_pixels i"
  then have n: "n < 786432" "cell_of n = i" by (simp_all add: cell_pixels_def)
  have "n = cell_pixel i (n div 1024 mod 16) (n mod 8)" using cell_pixel_of(2) [OF n(1)] n(2) by simp
  then show "n \<in> (\<Union>row\<in>{0..<0 + 16}. \<Union>col\<in>{0..<0 + 8}. {cell_pixel i row col})"
    by (intro UN_I [of "n div 1024 mod 16"] UN_I [of "n mod 8"]) simp_all
qed

text \<open>The two loops over the pixels of a cell, whatever way the colour is come by.\<close>

lemma cell_loops:
  assumes "grid_ok t" "i < 6144"
    and "\<And>row col s. row < 16 \<Longrightarrow> col < 8 \<Longrightarrow> grid_ok s \<Longrightarrow> tty_backbuffer s = tty_backbuffer t \<Longrightarrow> tty_bg s = tty_bg t \<Longrightarrow>
      f row col s = set_pixel (i mod 128 * 8 + col) (i div 128 * 16 + row) (shade s (cell_pixel i row col)) s"
  shows "for_loop 0 16 (\<lambda>row. for_loop 0 8 (f row)) t = Inr (paint (cell_pixels i) t)"
proof -
  let ?Q = "\<lambda>s. grid_ok s \<and> tty_backbuffer s = tty_backbuffer t \<and> tty_bg s = tty_bg t"
  note parts = for_loop_parts [where P = paint and Q = ?Q, OF _ _ paint_paint paint_empty]
  have pix: "f row col s = Inr (paint {cell_pixel i row col} s)" if "row < 16" "col < 8" "?Q s" for row col s
  proof -
    note c = cell_pixel_parts(1,2) [OF assms(2) that(1,2)]
    have "f row col s = set_pixel (i mod 128 * 8 + col) (i div 128 * 16 + row) (shade s (cell_pixel i row col)) s"
      using that assms(3) by simp
    also have "\<dots> = Inr (paint {cell_pixel i row col} s)"
      using set_pixel_paint [OF _ c(2) c(1), of s "shade s (cell_pixel i row col)"] that(3) by (simp add: cell_pixel_def)
    finally show ?thesis .
  qed
  have "for_loop 0 8 (f row) s = Inr (paint (\<Union>col\<in>{0..<0 + 8}. {cell_pixel i row col}) s)"
    if "row < 16" "?Q s" for row s
    by (rule parts) (use that pix in auto)
  then have "for_loop 0 16 (\<lambda>row. for_loop 0 8 (f row)) t =
      Inr (paint (\<Union>row\<in>{0..<0 + 16}. \<Union>col\<in>{0..<0 + 8}. {cell_pixel i row col}) t)"
    by (rule parts) (use assms(1) in auto)
  then show ?thesis by (simp only: cell_pixels_parts [OF assms(2)])
qed

lemma tty_flush_cell_paint:
  assumes "grid_ok t" "i < 6144"
  shows "tty_flush_cell i t = Inr (paint (cell_pixels i) t)"
proof -
  let ?tc = "tty_backbuffer t ! i"
  have "?tc \<in> set (tty_backbuffer t)" using assms by (simp add: grid_ok_def tty_sizes)
  then have ascii: "unat (tc_c ?tc) < 128" using assms(1) by (simp add: grid_ok_def)
  show ?thesis
  proof (cases "tc_c ?tc = 0")
    case True
    have "for_loop 0 16 (\<lambda>row. for_loop 0 8 (\<lambda>col s. set_pixel (i mod 128 * 8 + col) (i div 128 * 16 + row) (tty_bg s) s)) t
        = Inr (paint (cell_pixels i) t)"
      by (rule cell_loops [OF assms]) (simp add: shade_def cell_pixel_parts(3) [OF assms(2)] True)
    then show ?thesis using True assms(2)
      by (simp add: tty_flush_cell_def Let_def tty_sizes TTY_CHAR_WIDTH_def TTY_CHAR_HEIGHT_def)
  next
    case False
    have "for_loop 0 16 (\<lambda>row. for_loop 0 8 (\<lambda>col s. and_then (glyph_row (tc_c ?tc) row) (\<lambda>bits.
          set_pixel (i mod 128 * 8 + col) (i div 128 * 16 + row)
            (if bits AND drop_bit col 0x80 \<noteq> 0 then tc_fg ?tc else tc_bg ?tc) s))) t
        = Inr (paint (cell_pixels i) t)"
      by (rule cell_loops [OF assms])
        (simp add: shade_def cell_pixel_parts(3-5) [OF assms(2)] False glyph_row_ascii [OF ascii] Let_def)
    then show ?thesis using False assms(2)
      by (simp add: tty_flush_cell_def tty_flush_char_def Let_def tty_sizes TTY_CHAR_WIDTH_def TTY_CHAR_HEIGHT_def)
  qed
qed

definition line_pixels :: "nat \<Rightarrow> nat set" where
  "line_pixels l = {n. n < 786432 \<and> n div 16384 = l}"

definition all_pixels :: "nat set" where "all_pixels = {n. n < 786432}"

lemma cell_of_line: "cell_of n div 128 = n div 16384"
proof -
  have "n mod 1024 div 8 < 128" using mod_less_divisor [of 1024 n] by linarith
  then have "cell_of n div 128 = n div 1024 div 16" by (simp add: cell_of_def)
  also have "\<dots> = n div 16384" by (simp add: div_mult2_eq [symmetric])
  finally show ?thesis .
qed

lemma cells_of_line:
  assumes "l < 48"
  shows "(\<Union>i\<in>{l * 128..<l * 128 + 128}. cell_pixels i) = line_pixels l"
proof -
  have d: "c div 128 = l \<longleftrightarrow> l * 128 \<le> c \<and> c < l * 128 + 128" for c :: nat
    using div_times_less_eq_dividend [of c 128] dividend_less_div_times [of 128 c]
    by (auto intro!: div_nat_eqI)
  show ?thesis by (auto simp: cell_pixels_def line_pixels_def d simp flip: cell_of_line)
qed

lemma tty_flush_line_paint:
  assumes "grid_ok t" "l < 48"
  shows "tty_flush_line l t = Inr (paint (line_pixels l) t)"
proof -
  have "for_loop (l * 128) 128 tty_flush_cell t = Inr (paint (\<Union>i\<in>{l * 128..<l * 128 + 128}. cell_pixels i) t)"
    by (rule for_loop_paint) (use assms tty_flush_cell_paint in auto)
  then show ?thesis by (simp add: tty_flush_line_def tty_sizes cells_of_line [OF assms(2)])
qed

lemma tty_flush_paint:
  assumes "grid_ok t"
  shows "tty_flush t = Inr (paint all_pixels t)"
proof -
  have "for_loop 0 6144 tty_flush_cell t = Inr (paint (\<Union>i\<in>{0..<0 + 6144}. cell_pixels i) t)"
    by (rule for_loop_paint) (use assms tty_flush_cell_paint in auto)
  moreover have "(\<Union>i\<in>{0..<0 + 6144}. cell_pixels i) = all_pixels"
    using cell_pixel_of(1) by (auto simp: cell_pixels_def all_pixels_def)
  ultimately show ?thesis by (simp add: tty_flush_def tty_sizes)
qed

lemma tty_flush_from_paint:
  assumes "grid_ok t" "tty_cursor_y t < 48"
  shows "tty_flush_from l t = Inr (paint (\<Union>i\<in>{l..tty_cursor_y t}. line_pixels i) t)"
proof -
  have "for_loop l (tty_cursor_y t + 1 - l) tty_flush_line t =
      Inr (paint (\<Union>i\<in>{l..<l + (tty_cursor_y t + 1 - l)}. line_pixels i) t)"
    by (rule for_loop_paint) (use assms tty_flush_line_paint in auto)
  moreover have "{l..<l + (tty_cursor_y t + 1 - l)} = {l..tty_cursor_y t}" by auto
  ultimately show ?thesis by (simp add: tty_flush_from_def)
qed

section \<open>The screen shows the text\<close>

text \<open>Every pixel outside the rows \<open>R\<close> of cells has the colour that the text gives it.\<close>

definition shown_but :: "nat set \<Rightarrow> tty \<Rightarrow> bool" where
  "shown_but R t \<longleftrightarrow>
     (\<forall>n<VESA_WIDTH * VESA_HEIGHT. n div 16384 \<notin> R \<longrightarrow> vesa_framebuffer (tty_vesa t) (of_nat n) = shade t n)"

lemma shown_butI: "(\<And>n. n < 786432 \<Longrightarrow> n div 16384 \<notin> R \<Longrightarrow> vesa_framebuffer (tty_vesa t) (of_nat n) = shade t n) \<Longrightarrow> shown_but R t"
  by (simp add: shown_but_def tty_sizes)

lemma shown_butD: "shown_but R t \<Longrightarrow> n < 786432 \<Longrightarrow> n div 16384 \<notin> R \<Longrightarrow> vesa_framebuffer (tty_vesa t) (of_nat n) = shade t n"
  by (simp add: shown_but_def tty_sizes)

lemma shown_but_mono: "shown_but R t \<Longrightarrow> R \<subseteq> S \<Longrightarrow> shown_but S t"
  by (auto simp: shown_but_def)

lemma shown_but_all: "shown_but R (paint all_pixels t)"
  by (rule shown_butI) (simp add: unat_of_nat_small all_pixels_def)

lemma shown_but_paint: "shown_but R t \<Longrightarrow> shown_but R (paint D t)"
  by (rule shown_butI) (simp add: unat_of_nat_small shown_butD)

lemma shown_but_lines:
  assumes "shown_but R t"
  shows "shown_but (R - L) (paint (\<Union>l\<in>L. line_pixels l) t)"
  by (rule shown_butI) (use shown_butD [OF assms] in \<open>auto simp: unat_of_nat_small line_pixels_def\<close>)

lemma shown_but_line: "shown_but R t \<Longrightarrow> shown_but (R - {l}) (paint (line_pixels l) t)"
  using shown_but_lines [of R t "{l}"] by simp

lemma shade_cursor [simp]:
  "shade (t\<lparr>tty_cursor_x := x\<rparr>) n = shade t n" "shade (t\<lparr>tty_cursor_y := y\<rparr>) n = shade t n"
  by (simp_all add: shade_def Let_def)

lemma shown_but_cursor [simp]:
  "shown_but R (t\<lparr>tty_cursor_x := x\<rparr>) = shown_but R t" "shown_but R (t\<lparr>tty_cursor_y := y\<rparr>) = shown_but R t"
  by (simp_all add: shown_but_def)

lemma shown_but_cell:
  assumes "shown_but R t" "tty_cursor_x t < 128"
  shows "shown_but (insert (tty_cursor_y t) R)
    (t\<lparr>tty_backbuffer := (tty_backbuffer t)[cursor_index t := tc]\<rparr>)"
proof (rule shown_butI)
  fix n :: nat
  assume n: "n < 786432" "n div 16384 \<notin> insert (tty_cursor_y t) R"
  have "cursor_index t div 128 = tty_cursor_y t" using assms(2) by (simp add: cursor_index_def tty_sizes)
  then have "cell_of n \<noteq> cursor_index t" using n(2) cell_of_line [of n] by auto
  then show "vesa_framebuffer (tty_vesa (t\<lparr>tty_backbuffer := (tty_backbuffer t)[cursor_index t := tc]\<rparr>)) (of_nat n) =
      shade (t\<lparr>tty_backbuffer := (tty_backbuffer t)[cursor_index t := tc]\<rparr>) n"
    using shown_butD [OF assms(1) n(1)] n(2) by (simp add: shade_def Let_def)
qed

section \<open>Operations on a terminal in order\<close>

text \<open>The grid after scrolling, before it is painted.\<close>

definition scrolled :: "tty \<Rightarrow> tty" where
  "scrolled t = t\<lparr>tty_backbuffer := drop tty_cols (tty_backbuffer t) @ replicate tty_cols zero_char,
                 tty_cursor_y := tty_rows - 1\<rparr>"

lemma grid_ok_cursor [simp]:
  "grid_ok (t\<lparr>tty_cursor_x := x\<rparr>) = grid_ok t" "grid_ok (t\<lparr>tty_cursor_y := y\<rparr>) = grid_ok t"
  by (simp_all add: grid_ok_def)

lemma grid_ok_scrolled: "grid_ok t \<Longrightarrow> grid_ok (scrolled t)"
  by (auto simp: grid_ok_def scrolled_def zero_char_def tty_sizes dest: in_set_dropD)

lemma grid_ok_update: "grid_ok t \<Longrightarrow> unat (tc_c tc) < 128 \<Longrightarrow> grid_ok (t\<lparr>tty_backbuffer := (tty_backbuffer t)[i := tc]\<rparr>)"
  by (auto simp: grid_ok_def dest: set_update_subset_insert [THEN subsetD])

lemma tty_scroll_result: "grid_ok t \<Longrightarrow> tty_scroll t = Inr (paint all_pixels (scrolled t))"
  unfolding tty_scroll_def scrolled_def [symmetric] by (rule tty_flush_paint) (rule grid_ok_scrolled)

lemma scrolled_simps [simp]: "tty_cursor_x (scrolled t) = tty_cursor_x t" "tty_cursor_y (scrolled t) = 47"
  by (simp_all add: scrolled_def tty_sizes)

text \<open>The next line: one down, or scrolled when the cursor is in the last one.\<close>

definition next_line :: "tty \<Rightarrow> tty" where
  "next_line t = (let t1 = t\<lparr>tty_cursor_x := 0, tty_cursor_y := tty_cursor_y t + 1\<rparr>
     in if tty_cursor_y t1 \<ge> tty_rows then paint all_pixels (scrolled t1) else t1)"

lemma next_line_ok: "tty_ok t \<Longrightarrow> tty_ok (next_line t)"
  by (auto simp: next_line_def tty_ok_grid grid_ok_scrolled tty_sizes Let_def)

lemma next_line_shown:
  assumes "shown_but R t" "R \<subseteq> {start..}"
  shows "shown_but R (next_line t)"
  using assms(1) by (auto simp: next_line_def Let_def shown_but_all)

lemma tty_newline_result:
  assumes "tty_ok t"
  shows "tty_newline t = Inr (next_line (paint (line_pixels (tty_cursor_y t)) t))"
proof -
  have e: "paint D (t\<lparr>tty_cursor_x := 0\<rparr>) = (paint D t)\<lparr>tty_cursor_x := 0\<rparr>" for D
    by (simp add: paint_def cong: if_cong)
  show ?thesis using assms tty_flush_line_paint [of "t\<lparr>tty_cursor_x := 0\<rparr>" "tty_cursor_y t"]
    by (simp add: tty_newline_def next_line_def tty_ok_grid tty_sizes e Let_def tty_scroll_result)
qed

lemma tty_putchar_result:
  assumes "tty_ok t" "unat c < 128"
  shows "tty_putchar c t = Inr
    (if c = 0x0C then paint all_pixels t
     else if c = 0x0A then next_line (paint (line_pixels (tty_cursor_y t)) t)
     else if tty_cursor_x t < 127 then (put_cell c t)\<lparr>tty_cursor_x := tty_cursor_x t + 1\<rparr>
     else next_line (put_cell c t))"
proof -
  have g: "grid_ok (put_cell c t)" unfolding put_cell_def
    by (rule grid_ok_update) (use assms in \<open>simp_all add: tty_ok_grid\<close>)
  have i: "cursor_index t < 6144" using assms(1) by (simp add: tty_ok_def cursor_index_def tty_sizes)
  have p: "tty_cursor_x (put_cell c t) = tty_cursor_x t" "tty_cursor_y (put_cell c t) = tty_cursor_y t"
    by (simp_all add: put_cell_def)
  show ?thesis using assms(1) i g
    by (simp add: tty_putchar_def tty_newline_result tty_flush_paint tty_ok_grid next_line_def p tty_sizes
        tty_scroll_result Let_def)
qed

text \<open>
  While a string is written that started in line \<open>start\<close>, only the lines from there to the cursor are
  out of date.
\<close>

definition writing_from :: "nat \<Rightarrow> tty \<Rightarrow> bool" where
  "writing_from start t \<longleftrightarrow> tty_ok t \<and> start \<le> tty_cursor_y t \<and> shown_but {start..tty_cursor_y t} t"

lemma next_line_writing:
  assumes "writing_from start t"
  shows "writing_from start (next_line t)"
proof (cases "tty_cursor_y t + 1 < 48")
  case True
  then have n: "next_line t = t\<lparr>tty_cursor_x := 0, tty_cursor_y := tty_cursor_y t + 1\<rparr>"
    by (simp add: next_line_def tty_sizes Let_def)
  show ?thesis using assms next_line_ok [of t] unfolding writing_from_def n
    by (auto intro: shown_but_mono)
next
  case False
  then show ?thesis using assms next_line_ok [of t]
    by (auto simp: writing_from_def next_line_def tty_sizes Let_def tty_ok_def shown_but_all)
qed

lemma put_cell_writing:
  assumes "writing_from start t" "unat c < 128"
  shows "writing_from start (put_cell c t)"
proof -
  have "tty_ok (put_cell c t)"
    using assms grid_ok_update [of t "\<lparr>tc_c = c, tc_fg = tty_fg t, tc_bg = tty_bg t\<rparr>" "cursor_index t"]
    by (simp add: writing_from_def tty_ok_grid put_cell_def)
  moreover have "shown_but (insert (tty_cursor_y t) {start..tty_cursor_y t}) (put_cell c t)"
    unfolding put_cell_def by (rule shown_but_cell) (use assms in \<open>simp_all add: writing_from_def tty_ok_def tty_sizes\<close>)
  moreover have "insert (tty_cursor_y t) {start..tty_cursor_y t} = {start..tty_cursor_y t}"
    using assms(1) by (auto simp: writing_from_def)
  ultimately show ?thesis using assms(1) by (simp add: writing_from_def put_cell_def)
qed

lemma paint_writing: "writing_from start t \<Longrightarrow> writing_from start (paint D t)"
  by (simp add: writing_from_def shown_but_paint)

lemma tty_putchar_writing:
  assumes "writing_from start t" "unat c < 128"
  shows "\<exists>t'. tty_putchar c t = Inr t' \<and> writing_from start t'"
proof -
  have ok: "tty_ok t" using assms(1) by (simp add: writing_from_def)
  have w: "writing_from start (put_cell c t)" by (rule put_cell_writing [OF assms])
  have "writing_from start ((put_cell c t)\<lparr>tty_cursor_x := tty_cursor_x t + 1\<rparr>)" if "tty_cursor_x t < 127"
    using w that by (simp add: writing_from_def tty_ok_def tty_sizes)
  then show ?thesis using tty_putchar_result [OF ok assms(2)] w assms(1)
    by (auto intro: next_line_writing paint_writing)
qed

lemma tty_puts_writing:
  assumes "writing_from start t" "\<forall>c\<in>set s. unat c < 128"
  shows "\<exists>t'. tty_puts s t = Inr t' \<and> writing_from start t'"
  using assms
proof (induction s arbitrary: t)
  case (Cons c s)
  from Cons.prems obtain t1 where "tty_putchar c t = Inr t1" "writing_from start t1"
    using tty_putchar_writing by (metis list.set_intros(1))
  then show ?case using Cons by simp
qed simp

text \<open>
  C26. A string of ASCII characters that the system call \<open>write\<close> puts on the terminal is on the screen when it returns, on
  a frame buffer with 1024 pixels per line: if the screen was in step with the grid before, it is so afterwards, however
  often the terminal has scrolled and without painting more lines than from the old cursor to the new one. In step means
  that every cell without a character has the background of the terminal, and every other cell the glyph of its character
  in its colours, two lines higher than the font has it and with the top of the next glyph at its bottom.
\<close>

theorem tty_write_shown:
  assumes "tty_ok t" "shown_but {} t" "\<forall>c\<in>set str. unat c < 128"
  shows "\<exists>t'. tty_write str t = Inr t' \<and> tty_ok t' \<and> shown_but {} t'"
proof -
  have "writing_from (tty_cursor_y t) t"
    using assms(1,2) by (auto simp: writing_from_def intro: shown_but_mono)
  from tty_puts_writing [OF this assms(3)] obtain t1 where
    t1: "tty_puts str t = Inr t1" "writing_from (tty_cursor_y t) t1" by blast
  let ?L = "{tty_cursor_y t..tty_cursor_y t1}"
  have ok: "tty_ok t1" using t1(2) by (simp add: writing_from_def)
  have "shown_but (?L - ?L) (paint (\<Union>l\<in>?L. line_pixels l) t1)"
    using t1(2) by (intro shown_but_lines) (simp add: writing_from_def)
  moreover have "tty_flush_from (tty_cursor_y t) t1 = Inr (paint (\<Union>l\<in>?L. line_pixels l) t1)"
    using ok by (intro tty_flush_from_paint) (simp_all add: tty_ok_grid tty_sizes)
  ultimately show ?thesis using t1(1) ok by (simp add: tty_write_def)
qed

text \<open>A terminal as it is after start: nothing written, the screen black.\<close>

definition demo_tty :: tty where
  "demo_tty = tty_init \<lparr>tty_backbuffer = [], tty_cursor_x = 5, tty_cursor_y = 7, tty_fg = 0x00FFFFFF, tty_bg = 0,
     tty_vesa = \<lparr>vesa_framebuffer = (\<lambda>p. 0), vesa_pitch = 1024\<rparr>\<rparr>"

lemma demo_tty_ok: "tty_ok demo_tty"
  by (simp add: demo_tty_def tty_init_def tty_ok_def tty_sizes zero_char_def)

lemma cell_of_bound: "n < 786432 \<Longrightarrow> cell_of n < 6144"
  by (rule cell_pixel_of(1))

lemma demo_tty_shown: "shown_but {} demo_tty"
  by (rule shown_butI)
    (simp add: demo_tty_def tty_init_def shade_def tty_sizes zero_char_def cell_of_bound Let_def)

lemma tty_write_shown_witness:
  "\<exists>t'. tty_write [0x68, 0x69, 0x0A] demo_tty = Inr t' \<and> tty_ok t' \<and> shown_but {} t'"
  by (rule tty_write_shown [OF demo_tty_ok demo_tty_shown]) simp

section \<open>Every call keeps the terminal in order\<close>

datatype tty_call = Put u8 | Line | Back | Write "u8 list" | Log "u8 list" | Echo u8 | Flush | Clear | Foreground u32 | Background u32

fun do_call :: "tty_call \<Rightarrow> tty \<Rightarrow> tty res" where
  "do_call (Put c) t = tty_putchar c t"
| "do_call Line t = tty_newline t"
| "do_call Back t = tty_backspace t"
| "do_call (Write s) t = tty_write s t"
| "do_call (Log s) t = tty_log_sink s t"
| "do_call (Echo c) t = tty_echo c t"
| "do_call Flush t = tty_flush t"
| "do_call Clear t = tty_clear t"
| "do_call (Foreground c) t = Inr (tty_set_fg c t)"
| "do_call (Background c) t = Inr (tty_set_bg c t)"

fun tty_calls :: "tty_call list \<Rightarrow> tty \<Rightarrow> tty res" where
  "tty_calls [] t = Inr t"
| "tty_calls (c # cs) t = and_then (do_call c t) (tty_calls cs)"

text \<open>The characters a call is given.\<close>

fun call_chars :: "tty_call \<Rightarrow> u8 set" where
  "call_chars (Put c) = {c}"
| "call_chars (Echo c) = {c}"
| "call_chars (Write s) = set s"
| "call_chars (Log s) = set s"
| "call_chars _ = {}"

lemma tty_ok_paint: "tty_ok t \<Longrightarrow> grid_ok t"
  by (simp add: tty_ok_grid)

lemma tty_putchar_ok:
  assumes "tty_ok t" "unat c < 128"
  shows "\<exists>t'. tty_putchar c t = Inr t' \<and> tty_ok t'"
proof -
  have p: "tty_ok (put_cell c t)"
    using assms grid_ok_update [of t "\<lparr>tc_c = c, tc_fg = tty_fg t, tc_bg = tty_bg t\<rparr>" "cursor_index t"]
    by (simp add: tty_ok_grid put_cell_def)
  then have "tty_ok ((put_cell c t)\<lparr>tty_cursor_x := tty_cursor_x t + 1\<rparr>)" if "tty_cursor_x t < 127"
    using that by (simp add: tty_ok_def tty_sizes)
  then show ?thesis using tty_putchar_result [OF assms] p assms(1) by (auto intro: next_line_ok)
qed

lemma tty_puts_ok:
  assumes "tty_ok t" "\<forall>c\<in>set s. unat c < 128"
  shows "\<exists>t'. tty_puts s t = Inr t' \<and> tty_ok t'"
  using assms
proof (induction s arbitrary: t)
  case (Cons c s)
  from Cons.prems obtain t1 where "tty_putchar c t = Inr t1" "tty_ok t1"
    using tty_putchar_ok by (metis list.set_intros(1))
  then show ?case using Cons by simp
qed simp

lemma tty_backspace_ok:
  assumes "tty_ok t"
  shows "\<exists>t'. tty_backspace t = Inr t' \<and> tty_ok t'"
proof (cases "tty_cursor_x t = 0 \<and> tty_cursor_y t = 0")
  case True
  then show ?thesis using assms by (simp add: tty_backspace_def)
next
  case False
  define t1 where "t1 = (if tty_cursor_x t = 0 then t\<lparr>tty_cursor_y := tty_cursor_y t - 1, tty_cursor_x := tty_cols - 1\<rparr>
                     else t\<lparr>tty_cursor_x := tty_cursor_x t - 1\<rparr>)"
  let ?i = "cursor_index t1"
  let ?t2 = "t1\<lparr>tty_backbuffer := (tty_backbuffer t1)[?i := (tty_backbuffer t1 ! ?i)\<lparr>tc_c := 0\<rparr>]\<rparr>"
  have ok1: "tty_ok t1" using assms False unfolding t1_def by (auto simp: tty_ok_def tty_sizes)
  then have i: "?i < 6144" by (simp add: tty_ok_def cursor_index_def tty_sizes)
  have g: "grid_ok ?t2" using ok1 by (intro grid_ok_update) (simp_all add: tty_ok_grid)
  then have "tty_ok ?t2" using ok1 by (simp add: tty_ok_grid)
  moreover have "tty_backspace t = tty_flush_cell ?i ?t2"
    using False unfolding tty_backspace_def t1_def Let_def by (simp only: if_False)
  ultimately show ?thesis using tty_flush_cell_paint [OF g i] by simp
qed

definition fill :: "u32 \<Rightarrow> nat set \<Rightarrow> vesa \<Rightarrow> vesa" where
  "fill color D v = v\<lparr>vesa_framebuffer := (\<lambda>p. if unat p \<in> D then color else vesa_framebuffer v p)\<rparr>"

lemma fill_fill: "fill c D (fill c E v) = fill c (D \<union> E) v" and fill_empty: "fill c {} v = v"
  and fill_pitch [simp]: "vesa_pitch (fill c D v) = vesa_pitch v"
  by (auto simp: fill_def fun_eq_iff)

lemma vesa_clear_result:
  assumes "vesa_pitch v = 1024"
  shows "\<exists>D. vesa_clear color v = Inr (fill color D v)"
proof -
  let ?Q = "\<lambda>v. vesa_pitch v = 1024"
  note parts = for_loop_parts [where P = "fill color" and Q = ?Q, OF _ _ fill_fill fill_empty]
  have pix: "vesa_set_pixel (of_nat x) (of_nat y) color v = Inr (fill color {y * 1024 + x} v)"
    if "x < 1024" "y < 768" "?Q v" for x y v
  proof -
    let ?t = "\<lparr>tty_backbuffer = replicate 6144 zero_char, tty_cursor_x = 0, tty_cursor_y = 0, tty_fg = 0, tty_bg = color, tty_vesa = v\<rparr>"
    have "grid_ok ?t" using that by (simp add: grid_ok_def tty_sizes zero_char_def)
    moreover have "shade ?t n = color" if "n < 786432" for n
      using cell_of_bound [OF that] by (simp add: shade_def zero_char_def Let_def)
    moreover have "y * 1024 + x < 786432" using that(1,2) by linarith
    ultimately have "set_pixel x y color ?t = Inr (paint {y * 1024 + x} ?t)" using that by (intro set_pixel_paint) simp_all
    moreover have "paint {y * 1024 + x} ?t = ?t\<lparr>tty_vesa := fill color {y * 1024 + x} v\<rparr>"
      using \<open>y * 1024 + x < 786432\<close> \<open>\<And>n. n < 786432 \<Longrightarrow> shade ?t n = color\<close> by (simp add: paint_def fill_def cong: if_cong)
    ultimately show ?thesis by (cases "vesa_set_pixel (of_nat x) (of_nat y) color v") (simp_all add: set_pixel_def)
  qed
  have "for_loop 0 1024 (\<lambda>x. vesa_set_pixel (of_nat x) (of_nat y) color) v =
      Inr (fill color (\<Union>x\<in>{0..<0 + 1024}. {y * 1024 + x}) v)" if "y < 768" "?Q v" for y v
    by (rule parts) (use that pix in auto)
  then have "for_loop 0 768 (\<lambda>y. for_loop 0 1024 (\<lambda>x. vesa_set_pixel (of_nat x) (of_nat y) color)) v =
      Inr (fill color (\<Union>y\<in>{0..<0 + 768}. \<Union>x\<in>{0..<0 + 1024}. {y * 1024 + x}) v)"
    by (rule parts) (use assms in auto)
  then show ?thesis by (auto simp: vesa_clear_def VESA_HEIGHT_def VESA_WIDTH_def)
qed

lemma tty_clear_ok:
  assumes "tty_ok t"
  shows "\<exists>t'. tty_clear t = Inr t' \<and> tty_ok t'"
  using assms vesa_clear_result [of "tty_vesa t" "tty_bg t"]
  by (auto simp: tty_clear_def tty_init_def tty_ok_def tty_sizes zero_char_def)

lemma do_call_ok:
  assumes "tty_ok t" "\<forall>c\<in>call_chars k. unat c < 128"
  shows "\<exists>t'. do_call k t = Inr t' \<and> tty_ok t'"
proof -
  have fl: "\<exists>t'. tty_flush s = Inr t' \<and> tty_ok t'" "\<exists>t'. tty_flush_from l s = Inr t' \<and> tty_ok t'"
    "\<exists>t'. tty_flush_current_line s = Inr t' \<and> tty_ok t'" if "tty_ok s" for s l
    using that tty_flush_paint [of s] tty_flush_from_paint [of s l] tty_flush_line_paint [of s "tty_cursor_y s"]
    by (simp_all add: tty_ok_grid tty_sizes tty_flush_current_line_def)
  have seq: "\<exists>t'. and_then r f = Inr t' \<and> tty_ok t'"
    if "\<exists>t1. r = Inr t1 \<and> tty_ok t1" "\<And>t1. tty_ok t1 \<Longrightarrow> \<exists>t'. f t1 = Inr t' \<and> tty_ok t'" for r and f :: "tty \<Rightarrow> tty res"
    using that by auto
  show ?thesis
    using assms
    by (cases k)
      (auto intro!: seq fl tty_putchar_ok tty_puts_ok tty_backspace_ok tty_clear_ok next_line_ok
        simp: tty_newline_result tty_write_def tty_log_sink_def tty_echo_def tty_set_fg_def tty_set_bg_def, auto simp: tty_ok_def)
qed

text \<open>
  C27. From \<open>tty_init\<close> on no sequence of calls of the terminal faults, as long as the characters are ASCII
  and a line of the frame buffer has 1024 pixels: the cursor stays in the grid, the grid keeps its size,
  and every access to the grid, the font and the frame buffer is inside it.
\<close>

theorem tty_calls_safe:
  assumes "vesa_pitch (tty_vesa t) = 1024" "\<forall>k\<in>set ks. \<forall>c\<in>call_chars k. unat c < 128"
  shows "\<exists>t'. tty_calls ks (tty_init t) = Inr t' \<and> tty_ok t'"
proof -
  have "\<exists>t'. tty_calls ks s = Inr t' \<and> tty_ok t'" if "tty_ok s" for s
    using that assms(2)
  proof (induction ks arbitrary: s)
    case (Cons k ks)
    then obtain s1 where "do_call k s = Inr s1" "tty_ok s1" using do_call_ok [of s k] by auto
    then show ?case using Cons by simp
  qed simp
  moreover have "tty_ok (tty_init t)" using assms(1) by (simp add: tty_init_def tty_ok_def tty_sizes zero_char_def)
  ultimately show ?thesis by blast
qed

lemma tty_calls_safe_witness:
  "\<exists>t'. tty_calls [Write [0x6B, 0x61, 0x0A], Echo 0x6B, Back, Background 0x5E516E, Clear, Put 0x0C]
     (tty_init (demo_tty\<lparr>tty_cursor_x := 900\<rparr>)) = Inr t' \<and> tty_ok t'"
  by (rule tty_calls_safe) (simp_all add: demo_tty_def tty_init_def)

section \<open>A window on a roll of paper\<close>

text \<open>
  What a terminal promises: characters are typed on an endless roll, line under line of 128, and the grid
  is the window of 48 lines that ends with the lowest line reached.
\<close>

record paper =
  pp_cell :: "nat \<Rightarrow> nat \<Rightarrow> tty_char"
  pp_row :: nat
  pp_col :: nat
  pp_top :: nat

definition line_feed :: "paper \<Rightarrow> paper" where
  "line_feed p = p\<lparr>pp_col := 0, pp_row := pp_row p + 1, pp_top := max (pp_top p) (pp_row p + 1 - 47)\<rparr>"

definition type_char :: "u32 \<Rightarrow> u32 \<Rightarrow> u8 \<Rightarrow> paper \<Rightarrow> paper" where
  "type_char fg bg c p =
     (if c = 0x0C then p
      else if c = 0x0A then line_feed p
      else let p1 = p\<lparr>pp_cell := (pp_cell p)(pp_row p := (pp_cell p (pp_row p))(pp_col p := \<lparr>tc_c = c, tc_fg = fg, tc_bg = bg\<rparr>))\<rparr>
           in if pp_col p + 1 < 128 then p1\<lparr>pp_col := pp_col p + 1\<rparr> else line_feed p1)"

definition type_string :: "u32 \<Rightarrow> u32 \<Rightarrow> u8 list \<Rightarrow> paper \<Rightarrow> paper" where
  "type_string fg bg s p = fold (type_char fg bg) s p"

definition window_on :: "tty \<Rightarrow> paper \<Rightarrow> bool" where
  "window_on t p \<longleftrightarrow> tty_cursor_x t = pp_col p \<and> pp_top p + tty_cursor_y t = pp_row p \<and>
     (\<forall>r<tty_rows. \<forall>c<tty_cols. tty_backbuffer t ! (r * tty_cols + c) = pp_cell p (pp_top p + r) c) \<and>
     (\<forall>r\<ge>pp_top p + tty_rows. \<forall>c. pp_cell p r c = zero_char)"

lemma window_on_paint [simp]: "window_on (paint D t) p = window_on t p"
  by (simp add: window_on_def)

lemma window_next_line:
  assumes "tty_ok t" "window_on t p"
  shows "window_on (next_line t) (line_feed p)"
proof (cases "tty_cursor_y t + 1 < 48")
  case True
  then have n: "next_line t = t\<lparr>tty_cursor_x := 0, tty_cursor_y := tty_cursor_y t + 1\<rparr>"
    by (simp add: next_line_def tty_sizes Let_def)
  have "max (pp_top p) (pp_row p + 1 - 47) = pp_top p" using True assms(2) by (auto simp: window_on_def)
  then show ?thesis using assms(2) unfolding n by (auto simp: window_on_def line_feed_def)
next
  case False
  then have y: "tty_cursor_y t = 47" using assms(1) by (simp add: tty_ok_def tty_sizes)
  have row: "pp_top p + 47 = pp_row p" using assms(2) y by (simp add: window_on_def)
  let ?bb = "tty_backbuffer t"
  have len: "length ?bb = 6144" using assms(1) by (simp add: tty_ok_def tty_sizes)
  have cells: "?bb ! (r * 128 + c) = pp_cell p (pp_top p + r) c" if "r < 48" "c < 128" for r c
    using assms(2) that by (simp add: window_on_def tty_sizes)
  have below: "pp_cell p r c = zero_char" if "r \<ge> pp_top p + 48" for r c
    using assms(2) that by (simp add: window_on_def tty_sizes)
  have "(drop 128 ?bb @ replicate 128 zero_char) ! (r * 128 + c) = pp_cell p (pp_top p + 1 + r) c"
    if "r < 48" "c < 128" for r c
  proof (cases "r < 47")
    case True
    then have "r * 128 + c < 6016" using that by linarith
    moreover have "128 + (r * 128 + c) = Suc r * 128 + c" by simp
    ultimately show ?thesis using cells [of "Suc r" c] that True len by (simp add: nth_append add.assoc)
  next
    case False
    then have "r = 47" using that by simp
    then show ?thesis using len that below [of "48 + pp_top p" c] by (simp add: nth_append)
  qed
  moreover have "max (pp_top p) (pp_row p + 1 - 47) = pp_top p + 1" using row by simp
  ultimately show ?thesis using y row below
    by (simp add: next_line_def window_on_def line_feed_def tty_sizes scrolled_def Let_def)
qed

lemma window_put_cell:
  assumes "tty_ok t" "window_on t p"
  shows "window_on (put_cell c t) (p\<lparr>pp_cell := (pp_cell p)(pp_row p :=
    (pp_cell p (pp_row p))(pp_col p := \<lparr>tc_c = c, tc_fg = tty_fg t, tc_bg = tty_bg t\<rparr>))\<rparr>)"
proof -
  have b: "tty_cursor_x t < 128" "tty_cursor_y t < 48" "length (tty_backbuffer t) = 6144"
    using assms(1) by (simp_all add: tty_ok_def tty_sizes)
  have "r * 128 + k = tty_cursor_y t * 128 + tty_cursor_x t \<longleftrightarrow> r = tty_cursor_y t \<and> k = tty_cursor_x t"
    if "k < 128" for r k
  proof
    assume e: "r * 128 + k = tty_cursor_y t * 128 + tty_cursor_x t"
    have "(r * 128 + k) div 128 = r" "(tty_cursor_y t * 128 + tty_cursor_x t) div 128 = tty_cursor_y t"
      using that b(1) by simp_all
    then show "r = tty_cursor_y t \<and> k = tty_cursor_x t" using e by simp
  qed simp
  then show ?thesis using assms(2) b
    by (auto simp: window_on_def put_cell_def cursor_index_def tty_sizes nth_list_update)
qed

lemma window_putchar:
  assumes "tty_ok t" "window_on t p" "unat c < 128"
  shows "\<exists>t'. tty_putchar c t = Inr t' \<and> tty_ok t' \<and> tty_fg t' = tty_fg t \<and> tty_bg t' = tty_bg t \<and>
    window_on t' (type_char (tty_fg t) (tty_bg t) c p)"
proof -
  obtain t' where t': "tty_putchar c t = Inr t'" "tty_ok t'" using tty_putchar_ok [OF assms(1,3)] by blast
  have x: "tty_cursor_x t = pp_col p" "tty_cursor_x t < 128"
    using assms(1,2) by (simp_all add: window_on_def tty_ok_def tty_sizes)
  have col: "tty_fg (next_line s) = tty_fg s" "tty_bg (next_line s) = tty_bg s" for s
    by (simp_all add: next_line_def scrolled_def Let_def)
  have "tty_ok (put_cell c t)"
    using assms(1,3) grid_ok_update [of t "\<lparr>tc_c = c, tc_fg = tty_fg t, tc_bg = tty_bg t\<rparr>" "cursor_index t"]
    by (simp add: tty_ok_grid put_cell_def)
  note nl = window_next_line [OF this window_put_cell [OF assms(1,2)]]
  let ?p = "p\<lparr>pp_cell := (pp_cell p)(pp_row p := (pp_cell p (pp_row p))(pp_col p := \<lparr>tc_c = c, tc_fg = tty_fg t, tc_bg = tty_bg t\<rparr>))\<rparr>"
  note put = window_put_cell [OF assms(1,2), of c]
  have pc: "tty_fg (put_cell c t) = tty_fg t" "tty_bg (put_cell c t) = tty_bg t" by (simp_all add: put_cell_def)
  consider "c = 0x0C" | "c = 0x0A" | "c \<noteq> 0x0C" "c \<noteq> 0x0A" "pp_col p < 127" | "c \<noteq> 0x0C" "c \<noteq> 0x0A" "pp_col p = 127"
    using x by linarith
  then have "window_on t' (type_char (tty_fg t) (tty_bg t) c p) \<and> tty_fg t' = tty_fg t \<and> tty_bg t' = tty_bg t"
  proof cases
    case 1
    then show ?thesis using t'(1) tty_putchar_result [OF assms(1,3)] assms(2) by (auto simp: type_char_def)
  next
    case 2
    then show ?thesis using t'(1) tty_putchar_result [OF assms(1,3)] assms(1,2)
      by (auto simp: type_char_def col window_next_line)
  next
    case 3
    then have "t' = (put_cell c t)\<lparr>tty_cursor_x := tty_cursor_x t + 1\<rparr>"
      using t'(1) tty_putchar_result [OF assms(1,3)] x by simp
    moreover have "window_on ((put_cell c t)\<lparr>tty_cursor_x := tty_cursor_x t + 1\<rparr>) (?p\<lparr>pp_col := pp_col p + 1\<rparr>)"
      using put x by (simp add: window_on_def)
    ultimately show ?thesis using 3 pc by (simp add: type_char_def Let_def)
  next
    case 4
    then have "t' = next_line (put_cell c t)" using t'(1) tty_putchar_result [OF assms(1,3)] x by simp
    then show ?thesis using nl 4 pc col by (simp add: type_char_def Let_def)
  qed
  then show ?thesis using t' by simp
qed

lemma tty_puts_window:
  assumes "tty_ok t" "window_on t p" "\<forall>c\<in>set s. unat c < 128"
  shows "\<exists>t'. tty_puts s t = Inr t' \<and> tty_ok t' \<and> tty_fg t' = tty_fg t \<and> tty_bg t' = tty_bg t \<and>
    window_on t' (type_string (tty_fg t) (tty_bg t) s p)"
  using assms
proof (induction s arbitrary: t p)
  case Nil
  then show ?case by (simp add: type_string_def)
next
  case (Cons c s)
  from window_putchar [OF Cons.prems(1,2), of c] Cons.prems obtain t1 where
    "tty_putchar c t = Inr t1" "tty_ok t1" "tty_fg t1 = tty_fg t" "tty_bg t1 = tty_bg t"
    "window_on t1 (type_char (tty_fg t) (tty_bg t) c p)" by auto
  with Cons.IH [of t1 "type_char (tty_fg t) (tty_bg t) c p"] Cons.prems(3) show ?case by (simp add: type_string_def)
qed

text \<open>
  C28. The terminal refines a window on a roll of paper: after a string has been put out, the grid shows the
  lines that typing the string on the roll leaves in the window, with lines wrapped after 128 characters,
  cleared when they come into view, and the cursor where the typing stopped.
\<close>

theorem tty_puts_refines_paper:
  assumes "tty_ok t" "window_on t p" "\<forall>c\<in>set s. unat c < 128"
  shows "\<exists>t'. tty_puts s t = Inr t' \<and> tty_ok t' \<and> window_on t' (type_string (tty_fg t) (tty_bg t) s p)"
  using tty_puts_window [OF assms] by blast

definition blank_paper :: paper where
  "blank_paper = \<lparr>pp_cell = (\<lambda>r c. zero_char), pp_row = 0, pp_col = 0, pp_top = 0\<rparr>"

lemma demo_tty_window: "window_on demo_tty blank_paper"
proof -
  have "r * 128 + c < 6144" if "r < 48" "c < 128" for r c :: nat using that by linarith
  then show ?thesis by (simp add: window_on_def demo_tty_def tty_init_def blank_paper_def tty_sizes)
qed

lemma tty_puts_refines_paper_witness:
  "\<exists>t'. tty_puts [0x6B, 0x0A, 0x61] demo_tty = Inr t' \<and> tty_ok t' \<and>
     window_on t' (type_string 0x00FFFFFF 0 [0x6B, 0x0A, 0x61] blank_paper) \<and>
     tc_c (tty_backbuffer t' ! 128) = 0x61"
proof -
  have f: "tty_fg demo_tty = 0x00FFFFFF" "tty_bg demo_tty = 0" by (simp_all add: demo_tty_def tty_init_def)
  have "\<forall>c\<in>set [0x6B, 0x0A, 0x61 :: u8]. unat c < 128" by simp
  from tty_puts_refines_paper [OF demo_tty_ok demo_tty_window this] obtain t' where
    t': "tty_puts [0x6B, 0x0A, 0x61] demo_tty = Inr t'" "tty_ok t'"
      "window_on t' (type_string 0x00FFFFFF 0 [0x6B, 0x0A, 0x61] blank_paper)" unfolding f by blast
  have cells: "\<forall>r<48. \<forall>c<128. tty_backbuffer t' ! (r * 128 + c) =
      pp_cell (type_string 0x00FFFFFF 0 [0x6B, 0x0A, 0x61] blank_paper)
        (pp_top (type_string 0x00FFFFFF 0 [0x6B, 0x0A, 0x61] blank_paper) + r) c"
    using t'(3) by (simp add: window_on_def tty_sizes)
  have "tc_c (tty_backbuffer t' ! 128) = 0x61"
    using cells [rule_format, of 1 0]
    by (simp add: type_string_def type_char_def line_feed_def blank_paper_def)
  with t' show ?thesis by blast
qed

section \<open>What the screen misses\<close>

lemma for_loop_fails: "f i s = Inl e \<Longrightarrow> 0 < n \<Longrightarrow> for_loop i n f s = Inl e"
  by (cases n) simp_all

lemma sint_negative:
  assumes "128 \<le> unat (e :: u8)"
  shows "sint e < 0"
proof (rule ccontr)
  assume "\<not> sint e < 0"
  then obtain k where k: "sint e = int k" by (metis nonneg_int_cases not_less)
  have k128: "k < 128" using sint_lt [of e] k by simp
  then have "uint e = int k" unfolding uint_sint k by (simp add: take_bit_int_eq_self)
  then have "int (unat e) = int k" by simp
  then show False using assms k128 by linarith
qed

text \<open>
  A key typed in the last column is not drawn: its cell is set and the cursor wraps, and the line that
  is painted is the one the cursor is in then. And a character from 0x80 on makes the terminal read in
  front of the font, as \<open>char\<close> is signed.
\<close>

theorem tty_not_drawn:
  assumes "tty_ok t" "tty_cursor_x t = 127" "tty_cursor_y t < 47" "c \<noteq> 0x0A" "c \<noteq> 0x0C" "unat c < 128" "128 \<le> unat e"
  shows "(\<exists>t'. tty_echo c t = Inr t' \<and> tc_c (tty_backbuffer t' ! cursor_index t) = c \<and>
      (\<forall>p. unat p \<in> cell_pixels (cursor_index t) \<longrightarrow> vesa_framebuffer (tty_vesa t') p = vesa_framebuffer (tty_vesa t) p)) \<and>
    tty_flush_cell (cursor_index t) (put_cell e t) = Inl (KFault ''read outside the font'')"
proof
  let ?t1 = "(put_cell c t)\<lparr>tty_cursor_x := 0, tty_cursor_y := tty_cursor_y t + 1\<rparr>"
  have p: "tty_cursor_y (put_cell c t) = tty_cursor_y t" "vesa_framebuffer (tty_vesa (put_cell c t)) = vesa_framebuffer (tty_vesa t)"
    by (simp_all add: put_cell_def)
  have "tty_ok (put_cell c t)"
    using assms(1,6) grid_ok_update [of t "\<lparr>tc_c = c, tc_fg = tty_fg t, tc_bg = tty_bg t\<rparr>" "cursor_index t"]
    by (simp add: tty_ok_grid put_cell_def)
  then have g: "grid_ok ?t1" by (simp add: tty_ok_grid)
  have i: "cursor_index t = tty_cursor_y t * 128 + 127" "cursor_index t < 6144"
    using assms(2,3) by (simp_all add: cursor_index_def tty_sizes)
  have "tty_putchar c t = Inr ?t1"
    using tty_putchar_result [OF assms(1,6)] assms(2-5) by (simp add: next_line_def tty_sizes p Let_def)
  moreover have "tty_flush_line (tty_cursor_y t + 1) ?t1 = Inr (paint (line_pixels (tty_cursor_y t + 1)) ?t1)"
    using tty_flush_line_paint [OF g, of "tty_cursor_y t + 1"] assms(3) by simp
  ultimately have e: "tty_echo c t = Inr (paint (line_pixels (tty_cursor_y t + 1)) ?t1)"
    by (simp add: tty_echo_def tty_flush_current_line_def)
  have "n \<notin> line_pixels (tty_cursor_y t + 1)" if "n \<in> cell_pixels (cursor_index t)" for n
    using that i(1) cell_of_line [of n] by (auto simp: cell_pixels_def line_pixels_def)
  moreover have "tc_c (tty_backbuffer (put_cell c t) ! cursor_index t) = c"
    using i(2) assms(1) by (simp add: put_cell_def tty_ok_def tty_sizes)
  ultimately show "\<exists>t'. tty_echo c t = Inr t' \<and> tc_c (tty_backbuffer t' ! cursor_index t) = c \<and>
      (\<forall>p. unat p \<in> cell_pixels (cursor_index t) \<longrightarrow> vesa_framebuffer (tty_vesa t') p = vesa_framebuffer (tty_vesa t) p)"
    using e p by auto
next
  have i: "cursor_index t < 6144" using assms(2,3) by (simp add: cursor_index_def tty_sizes)
  have tc: "tc_c (tty_backbuffer (put_cell e t) ! cursor_index t) = e"
    using i assms(1) by (simp add: put_cell_def tty_ok_def tty_sizes)
  have "sint e < 0" by (rule sint_negative [OF assms(7)])
  then have f: "glyph_row e 0 = Inl (KFault ''read outside the font'')" by (simp add: glyph_row_def Let_def)
  have "e \<noteq> 0" using assms(7) by auto
  then show "tty_flush_cell (cursor_index t) (put_cell e t) = Inl (KFault ''read outside the font'')"
    using i by (simp add: tty_flush_cell_def Let_def tty_sizes tc tty_flush_char_def TTY_CHAR_HEIGHT_def TTY_CHAR_WIDTH_def
        f for_loop_fails)
qed

lemma tty_not_drawn_witness:
  "(\<exists>t'. tty_echo 0x61 (demo_tty\<lparr>tty_cursor_x := 127\<rparr>) = Inr t' \<and> tc_c (tty_backbuffer t' ! 127) = 0x61) \<and>
   tty_flush_cell 127 (put_cell 0xE9 (demo_tty\<lparr>tty_cursor_x := 127\<rparr>)) = Inl (KFault ''read outside the font'')"
proof -
  have ok: "tty_ok (demo_tty\<lparr>tty_cursor_x := 127\<rparr>)" using demo_tty_ok by (simp add: tty_ok_def tty_sizes)
  have y: "tty_cursor_y (demo_tty\<lparr>tty_cursor_x := 127\<rparr>) < 47" by (simp add: demo_tty_def tty_init_def)
  have i: "cursor_index (demo_tty\<lparr>tty_cursor_x := 127\<rparr>) = 127" by (simp add: cursor_index_def demo_tty_def tty_init_def)
  from tty_not_drawn [OF ok _ y, of "0x61" "0xE9"] show ?thesis unfolding i by auto
qed

end
