(* ===== verification/Umem.thy ===== *)
theory Umem
  imports Syscall HeapRun
begin

text \<open>
  The allocator of user programs, \<open>user_fs/lib/mem.h\<close>: free lists by size class in an arena that grows with
  \<open>sbrk\<close>, one list of larger blocks, and \<open>mmap\<close> for what is larger still. The memory is that of the
  process; its break and its next mapping are the fields the kernel keeps for it, changed as
  \<open>syscall_sbrk\<close> and \<open>syscall_mmap\<close> change them.
\<close>

section \<open>State\<close>

definition MEM_ALIGN :: u32 where "MEM_ALIGN = 16"
definition MEM_MMAP_THRESHOLD :: u32 where "MEM_MMAP_THRESHOLD = 64 * 1024"
definition MEM_NUM_CLASSES :: nat where "MEM_NUM_CLASSES = 10"
definition MEM_FREE :: u32 where "MEM_FREE = 0x1"
definition MEM_USED :: u32 where "MEM_USED = 0x2"
definition MEM_MMAP :: u32 where "MEM_MMAP = 0x4"
definition MEM_HEADER :: u32 where "MEM_HEADER = 16"

text \<open>The fields of \<open>mem_block\<close> by their offset.\<close>

definition blk_size :: "bytes_mem \<Rightarrow> u32 \<Rightarrow> u32" where "blk_size m b = ld32 m b"
definition blk_flags :: "bytes_mem \<Rightarrow> u32 \<Rightarrow> u32" where "blk_flags m b = ld32 m (b + 4)"
definition blk_next :: "bytes_mem \<Rightarrow> u32 \<Rightarrow> u32" where "blk_next m b = ld32 m (b + 8)"
definition set_size :: "u32 \<Rightarrow> u32 \<Rightarrow> bytes_mem \<Rightarrow> bytes_mem" where "set_size b v m = st32 m b v"
definition set_flags :: "u32 \<Rightarrow> u32 \<Rightarrow> bytes_mem \<Rightarrow> bytes_mem" where "set_flags b v m = st32 m (b + 4) v"
definition set_next :: "u32 \<Rightarrow> u32 \<Rightarrow> bytes_mem \<Rightarrow> bytes_mem" where "set_next b v m = st32 m (b + 8) v"

record uheap =
  um :: bytes_mem
  mem_free_lists :: "u32 list"
  mem_large_free :: u32
  u_break :: u32
  u_mmap :: u32

text \<open>What the kernel answers: the old break, and the address of the next mapping.\<close>

definition mem_sbrk :: "u32 \<Rightarrow> uheap \<Rightarrow> u32 \<times> uheap" where
  "mem_sbrk increment u = (u_break u, u\<lparr>u_break := new_break (u_break u) increment\<rparr>)"

definition mem_mmap :: "u32 \<Rightarrow> uheap \<Rightarrow> u32 \<times> uheap" where
  "mem_mmap sz u = (u_mmap u, u\<lparr>u_mmap := u_mmap u + mmap_pages sz * 4096\<rparr>)"

text \<open>Pages unmapped are never mapped again: nothing is left to be said of them.\<close>

definition mem_munmap :: "u32 \<Rightarrow> u32 \<Rightarrow> uheap \<Rightarrow> uheap" where
  "mem_munmap addr sz u = u"

text \<open>They are what the system calls leave in the process and in \<open>eax\<close>.\<close>

lemma mem_sbrk_syscall:
  assumes "lookup (sy_k s) p = Inr pr" "program_break pr = u_break u" "syscall_sbrk p regs s = Inr (r, s')"
  shows "\<exists>pg. s' = set_EAX regs (fst (mem_sbrk (EBX s regs) u))
    (set_proc p (pr\<lparr>program_break := u_break (snd (mem_sbrk (EBX s regs) u))\<rparr>) (s\<lparr>sy_k := (sy_k s)\<lparr>vmm := pg\<rparr>\<rparr>))"
  using assms by (auto simp: syscall_sbrk_def mem_sbrk_def and_then_def Let_def split: sum.splits if_splits)

lemma mem_mmap_syscall:
  assumes "lookup (sy_k s) p = Inr pr" "mmap_next pr = u_mmap u" "syscall_mmap p regs s = Inr (r, s')"
  shows "\<exists>pg rs. s' = set_EAX regs (fst (mem_mmap (EBX s regs) u))
    (set_proc p (pr\<lparr>mmap_regions := Some rs, mmap_next := u_mmap (snd (mem_mmap (EBX s regs) u))\<rparr>)
      (s\<lparr>sy_k := (sy_k s)\<lparr>vmm := pg\<rparr>\<rparr>))"
  using assms by (auto simp: syscall_mmap_def mem_mmap_def and_then_def Let_def split: sum.splits)

section \<open>Operations\<close>

definition mem_block_size_for_class :: "nat \<Rightarrow> u32" where
  "mem_block_size_for_class ci = push_bit ci MEM_ALIGN"

text \<open>\<open>None\<close> is the -1 of a large block.\<close>

fun class_loop :: "u32 \<Rightarrow> u32 \<Rightarrow> nat \<Rightarrow> nat \<Rightarrow> nat option" where
  "class_loop bs sz i 0 = None"
| "class_loop bs sz i (Suc n) = (if bs \<ge> sz then Some i else class_loop (push_bit 1 bs) sz (i + 1) n)"

definition mem_class_index :: "u32 \<Rightarrow> nat option" where
  "mem_class_index sz = class_loop MEM_ALIGN sz 0 MEM_NUM_CLASSES"

fun carve :: "nat \<Rightarrow> u32 \<Rightarrow> u32 \<Rightarrow> nat \<Rightarrow> nat \<Rightarrow> uheap \<Rightarrow> uheap" where
  "carve ci bs base i 0 u = u"
| "carve ci bs base i (Suc n) u =
     (let b = base + of_nat i * bs;
          m = set_next b (mem_free_lists u ! ci) (set_flags b MEM_FREE (set_size b bs (um u)))
      in carve ci bs base (i + 1) n (u\<lparr>um := m, mem_free_lists := (mem_free_lists u)[ci := b]\<rparr>))"

definition mem_arena_extend_small :: "nat \<Rightarrow> uheap \<Rightarrow> uheap" where
  "mem_arena_extend_small ci u =
     (let bs = mem_block_size_for_class ci; (base, u1) = mem_sbrk (bs * 8) u
      in if base = 0xFFFFFFFF then u1 else carve ci bs base 0 8 u1)"

definition mem_alloc_small :: "nat \<Rightarrow> uheap \<Rightarrow> u32 \<times> uheap" where
  "mem_alloc_small ci u =
     (let u1 = (if mem_free_lists u ! ci = 0 then mem_arena_extend_small ci u else u);
          b = mem_free_lists u1 ! ci
      in if b = 0 then (0, u1)
         else (b + MEM_HEADER, u1\<lparr>mem_free_lists := (mem_free_lists u1)[ci := blk_next (um u1) b],
                                 um := set_flags b MEM_USED (um u1)\<rparr>))"

text \<open>
  The walk over the large blocks: \<open>prev\<close> is the block before \<open>b\<close>, 0 at the head. A list that runs into a
  circle is never left.
\<close>

partial_function (option) large_find :: "bytes_mem \<Rightarrow> u32 \<Rightarrow> u32 \<Rightarrow> u32 \<Rightarrow> (u32 \<times> u32) option" where
  "large_find m need prev b =
     (if b = 0 then Some (prev, 0)
      else if blk_size m b \<ge> need then Some (prev, b)
      else large_find m need b (blk_next m b))"

definition mem_alloc_large :: "u32 \<Rightarrow> uheap \<Rightarrow> (u32 \<times> uheap) res" where
  "mem_alloc_large need u =
     (case large_find (um u) need 0 (mem_large_free u) of
        None \<Rightarrow> Inl KHang
      | Some (prev, b) \<Rightarrow>
          (if b \<noteq> 0
           then (let nxt = blk_next (um u) b;
                     u1 = (if prev = 0 then u\<lparr>mem_large_free := nxt\<rparr> else u\<lparr>um := set_next prev nxt (um u)\<rparr>)
                 in Inr (b + MEM_HEADER, u1\<lparr>um := set_flags b MEM_USED (um u1)\<rparr>))
           else (let (base, u1) = mem_sbrk need u
                 in if base = 0xFFFFFFFF then Inr (0, u1)
                    else Inr (base + MEM_HEADER, u1\<lparr>um := set_flags base MEM_USED (set_size base need (um u1))\<rparr>))))"

definition malloc :: "u32 \<Rightarrow> uheap \<Rightarrow> (u32 \<times> uheap) res" where
  "malloc sz u =
     (let total = (if sz = 0 then 1 else sz) + MEM_HEADER
      in if total \<ge> MEM_MMAP_THRESHOLD
         then (let (base, u1) = mem_mmap total u
               in if base = 0 then Inr (0, u1)
                  else Inr (base + MEM_HEADER, u1\<lparr>um := set_flags base MEM_MMAP (set_size base total (um u1))\<rparr>))
         else (case mem_class_index total of
                 Some ci \<Rightarrow> Inr (mem_alloc_small ci u)
               | None \<Rightarrow> mem_alloc_large total u))"

definition ufree :: "u32 \<Rightarrow> uheap \<Rightarrow> uheap" where
  "ufree p u =
     (if p = 0 then u
      else let b = p - MEM_HEADER
           in if blk_flags (um u) b AND MEM_MMAP \<noteq> 0 then mem_munmap b (blk_size (um u) b) u
              else let u1 = u\<lparr>um := set_flags b MEM_FREE (um u)\<rparr>
                   in case mem_class_index (blk_size (um u1) b) of
                        Some ci \<Rightarrow> u1\<lparr>um := set_next b (mem_free_lists u1 ! ci) (um u1),
                                     mem_free_lists := (mem_free_lists u1)[ci := b]\<rparr>
                      | None \<Rightarrow> u1\<lparr>um := set_next b (mem_large_free u1) (um u1), mem_large_free := b\<rparr>)"

definition calloc :: "u32 \<Rightarrow> u32 \<Rightarrow> uheap \<Rightarrow> (u32 \<times> uheap) res" where
  "calloc cnt sz u =
     (let bytes = cnt * sz
      in and_then (malloc bytes u) (\<lambda>(p, u1).
           if p = 0 then Inr (0, u1) else Inr (p, u1\<lparr>um := kmemset (um u1) p 0 (unat bytes)\<rparr>)))"

definition urealloc :: "u32 \<Rightarrow> u32 \<Rightarrow> uheap \<Rightarrow> (u32 \<times> uheap) res" where
  "urealloc p sz u =
     (if p = 0 then malloc sz u
      else if sz = 0 then Inr (0, ufree p u)
      else let old_usable = blk_size (um u) (p - MEM_HEADER) - MEM_HEADER
           in if old_usable \<ge> sz then Inr (p, u)
              else and_then (malloc sz u) (\<lambda>(np, u1).
                     if np = 0 then Inr (0, u1)
                     else Inr (np, ufree p (u1\<lparr>um := kmemcpy (um u1) np p (unat old_usable)\<rparr>))))"

section \<open>Blocks\<close>

text \<open>
  The free lists partition, with the blocks in use, the blocks that have been cut from the arena or mapped.
  Who has a block:
\<close>

datatype owner = Small nat | Large | Live

fun mchain :: "bytes_mem \<Rightarrow> u32 \<Rightarrow> u32 list \<Rightarrow> bool" where
  "mchain m p [] \<longleftrightarrow> p = 0"
| "mchain m p (x # xs) \<longleftrightarrow> p = x \<and> x \<noteq> 0 \<and> mchain m (blk_next m x) xs"

definition span :: "u32 \<Rightarrow> nat \<Rightarrow> u32 set" where
  "span b n = {a. unat b \<le> unat a \<and> unat a < unat b + n}"

definition bsize :: "uheap \<Rightarrow> u32 \<Rightarrow> nat" where "bsize u b = unat (blk_size (um u) b)"

definition mmap_start :: nat where "mmap_start = 0x7000000"

definition apart :: "uheap \<Rightarrow> u32 \<Rightarrow> u32 \<Rightarrow> bool" where
  "apart u b c \<longleftrightarrow> unat b + bsize u b \<le> unat c \<or> unat c + bsize u c \<le> unat b"

definition owned_ok :: "uheap \<Rightarrow> owner \<Rightarrow> u32 \<Rightarrow> bool" where
  "owned_ok u k b \<longleftrightarrow>
     (case k of
        Small ci \<Rightarrow> ci < 10 \<and> bsize u b = 16 * 2 ^ ci
      | Large \<Rightarrow> 8192 < bsize u b
      | Live \<Rightarrow> blk_flags (um u) b = MEM_MMAP \<or>
          blk_flags (um u) b = MEM_USED \<and> ((\<exists>ci<10. bsize u b = 16 * 2 ^ ci) \<or> 8192 < bsize u b))"

text \<open>\<open>start\<close> is the break at the start, \<open>used\<close> the end of the part of the arena that is cut up.\<close>

definition in_place :: "nat \<Rightarrow> nat \<Rightarrow> uheap \<Rightarrow> u32 \<Rightarrow> bool" where
  "in_place start used u b \<longleftrightarrow> 16 \<le> bsize u b \<and>
     (start \<le> unat b \<and> unat b + bsize u b \<le> used \<or> mmap_start \<le> unat b \<and> unat b + bsize u b \<le> unat (u_mmap u))"

definition listed :: "uheap \<Rightarrow> u32 \<Rightarrow> u32 set \<Rightarrow> bool" where
  "listed u p S \<longleftrightarrow> (\<exists>xs. mchain (um u) p xs \<and> distinct xs \<and> set xs = S)"

definition uinv :: "nat \<Rightarrow> nat \<Rightarrow> uheap \<Rightarrow> u32 set \<Rightarrow> (u32 \<Rightarrow> owner) \<Rightarrow> bool" where
  "uinv start used u B own \<longleftrightarrow>
     length (mem_free_lists u) = 10 \<and> 0 < start \<and> start \<le> used \<and> used \<le> unat (u_break u) \<and>
     unat (u_break u) \<le> mmap_start \<and> mmap_start \<le> unat (u_mmap u) \<and>
     (\<forall>b\<in>B. in_place start used u b \<and> owned_ok u (own b) b) \<and>
     (\<forall>b\<in>B. \<forall>c\<in>B. b \<noteq> c \<longrightarrow> apart u b c) \<and>
     (\<forall>ci<10. listed u (mem_free_lists u ! ci) {b\<in>B. own b = Small ci}) \<and>
     listed u (mem_large_free u) {b\<in>B. own b = Large}"

section \<open>Headers\<close>

lemma span_fits: "unat b + n \<le> 4294967296 \<Longrightarrow> i < n \<Longrightarrow> b + of_nat i \<in> span b n"
  by (simp add: span_def unat_add_nat)

lemma word_in_span:
  assumes "unat b + n \<le> 4294967296" "k + 4 \<le> n"
  shows "touched (b + of_nat k) \<subseteq> span b n"
proof
  fix a assume a: "a \<in> touched (b + of_nat k)"
  have u: "unat (b + of_nat k) = unat b + k" using assms by (intro unat_add_nat) linarith
  then have "unat b + k \<le> unat a \<and> unat a \<le> unat b + k + 3"
    using touched_range [of "b + of_nat k" a] a assms by simp
  then show "a \<in> span b n" using assms(2) by (simp add: span_def)
qed

lemma header_cong:
  assumes "unat b + 12 \<le> 4294967296" "\<And>a. a \<in> span b 12 \<Longrightarrow> m' a = m a"
  shows "blk_size m' b = blk_size m b" "blk_flags m' b = blk_flags m b" "blk_next m' b = blk_next m b"
proof -
  have t: "touched b \<subseteq> span b 12" "touched (b + 4) \<subseteq> span b 12" "touched (b + 8) \<subseteq> span b 12"
    using word_in_span [OF assms(1), of 0] word_in_span [OF assms(1), of 4] word_in_span [OF assms(1), of 8] by simp_all
  show "blk_size m' b = blk_size m b" unfolding blk_size_def by (rule ld32_cong) (use assms(2) t(1) in blast)
  show "blk_flags m' b = blk_flags m b" unfolding blk_flags_def by (rule ld32_cong) (use assms(2) t(2) in blast)
  show "blk_next m' b = blk_next m b" unfolding blk_next_def by (rule ld32_cong) (use assms(2) t(3) in blast)
qed

lemma set_outside:
  assumes "unat b + 12 \<le> 4294967296" "a \<notin> span b 12"
  shows "set_size b v m a = m a" "set_flags b v m a = m a" "set_next b v m a = m a"
  using assms(2) word_in_span [OF assms(1), of 0] word_in_span [OF assms(1), of 4] word_in_span [OF assms(1), of 8]
  by (auto simp: set_size_def set_flags_def set_next_def intro!: st32_other)

lemma ld32_st32_apart:
  assumes "unat a + 3 < 4294967296" "unat c + 3 < 4294967296" "unat a + 3 < unat c \<or> unat c + 3 < unat a"
  shows "ld32 (st32 m a v) c = ld32 m c"
proof (rule ld32_cong)
  fix b assume "b \<in> touched c"
  then have "b \<notin> touched a" using assms by (auto simp: touched_range)
  then show "st32 m a v b = m b" by (rule st32_other)
qed

lemma header_fields:
  assumes "unat b + 12 \<le> 4294967296"
  shows "blk_size (set_size b v m) b = v" "blk_size (set_flags b v m) b = blk_size m b" "blk_size (set_next b v m) b = blk_size m b"
    "blk_flags (set_size b v m) b = blk_flags m b" "blk_flags (set_flags b v m) b = v" "blk_flags (set_next b v m) b = blk_flags m b"
    "blk_next (set_size b v m) b = blk_next m b" "blk_next (set_flags b v m) b = blk_next m b" "blk_next (set_next b v m) b = v"
proof -
  have u: "unat (b + 4) = unat b + 4" "unat (b + 8) = unat b + 8"
    using unat_add_nat [of b 4] unat_add_nat [of b 8] assms by simp_all
  show "blk_size (set_size b v m) b = v" "blk_flags (set_flags b v m) b = v" "blk_next (set_next b v m) b = v"
    by (simp_all add: blk_size_def set_size_def blk_flags_def set_flags_def blk_next_def set_next_def)
  show "blk_size (set_flags b v m) b = blk_size m b" "blk_size (set_next b v m) b = blk_size m b"
    "blk_flags (set_size b v m) b = blk_flags m b" "blk_flags (set_next b v m) b = blk_flags m b"
    "blk_next (set_size b v m) b = blk_next m b" "blk_next (set_flags b v m) b = blk_next m b"
    unfolding blk_size_def set_size_def blk_flags_def set_flags_def blk_next_def set_next_def
    using u assms by (simp_all add: ld32_st32_apart)
qed

lemma mchain_cong:
  assumes "\<And>x. x \<in> set xs \<Longrightarrow> blk_next m' x = blk_next m x"
  shows "mchain m' p xs = mchain m p xs"
  using assms by (induction xs arbitrary: p) simp_all

lemma listed_cong:
  assumes "\<And>x. x \<in> S \<Longrightarrow> blk_next (um u') x = blk_next (um u) x"
  shows "listed u' p S = listed u p S"
proof -
  have "mchain (um u') p xs = mchain (um u) p xs" if "set xs = S" for xs
    by (rule mchain_cong) (use assms that in auto)
  then show ?thesis unfolding listed_def by blast
qed

lemma in_place_bound: "in_place start used u b \<Longrightarrow> used \<le> mmap_start \<Longrightarrow> unat b + bsize u b \<le> 4294967296 \<and> 16 \<le> bsize u b"
  by (auto simp: in_place_def mmap_start_def intro: order_trans less_imp_le [OF unat_bound32])

lemma uinv_block:
  assumes "uinv start used u B own" "b \<in> B"
  shows "unat b + bsize u b \<le> 4294967296" "16 \<le> bsize u b" "unat b + 12 \<le> 4294967296" "b \<noteq> 0"
proof -
  have p: "in_place start used u b" "used \<le> mmap_start" "0 < start" using assms by (auto simp: uinv_def)
  from in_place_bound [OF p(1,2)] show "unat b + bsize u b \<le> 4294967296" "16 \<le> bsize u b" by blast+
  then show "unat b + 12 \<le> 4294967296" by linarith
  show "b \<noteq> 0" using p by (auto simp: in_place_def mmap_start_def)
qed

lemma uinv_apart:
  assumes "uinv start used u B own" "b \<in> B" "c \<in> B" "b \<noteq> c"
  shows "apart u b c"
  using assms by (simp add: uinv_def)

lemma span_apart:
  assumes "uinv start used u B own" "b \<in> B" "c \<in> B" "b \<noteq> c" "a \<in> span b (bsize u b)"
  shows "a \<notin> span c (bsize u c)"
  using uinv_apart [OF assms(1-4)] assms(5) by (auto simp: apart_def span_def)

definition payload :: "uheap \<Rightarrow> u32 \<Rightarrow> u32 set" where
  "payload u b = {a. unat b + 16 \<le> unat a \<and> unat a < unat b + bsize u b}"

lemma payload_header:
  assumes "uinv start used u B own" "b \<in> B" "c \<in> B" "a \<in> payload u c"
  shows "a \<notin> span b 12"
proof (cases "b = c")
  case True
  then show ?thesis using assms(4) by (auto simp: payload_def span_def)
next
  case False
  then show ?thesis using uinv_apart [OF assms(1-3)] uinv_block(2) [OF assms(1,2)] assms(4)
    by (auto simp: payload_def span_def apart_def)
qed

lemma other_header:
  assumes "uinv start used u B own" "b \<in> B" "c \<in> B" "b \<noteq> c" "a \<in> span c 12"
  shows "a \<notin> span b 12"
  using uinv_apart [OF assms(1-4)] uinv_block(2) [OF assms(1,2)] uinv_block(2) [OF assms(1,3)] assms(5)
  by (auto simp: span_def apart_def)

text \<open>In front of the arena there is no block.\<close>

lemma in_front:
  assumes "uinv start used u B own" "b \<in> B" "unat a < start"
  shows "a \<notin> span b n" "a \<notin> payload u b"
proof -
  have "in_place start used u b" "start \<le> mmap_start" using assms(1,2) by (auto simp: uinv_def)
  then have "start \<le> unat b" by (auto simp: in_place_def)
  then show "a \<notin> span b n" "a \<notin> payload u b" using assms(3) by (auto simp: span_def payload_def)
qed

text \<open>And none above the mappings.\<close>

lemma above_all:
  assumes "uinv start used u B own" "b \<in> B" "unat (u_mmap u) \<le> unat a"
  shows "a \<notin> span b 12" "a \<notin> payload u b"
proof -
  have "in_place start used u b" "used \<le> unat (u_mmap u)" using assms(1,2) by (auto simp: uinv_def)
  then have "unat b + bsize u b \<le> unat a" "16 \<le> bsize u b" using assms(3) by (auto simp: in_place_def)
  then show "a \<notin> span b 12" "a \<notin> payload u b" by (auto simp: span_def payload_def)
qed

text \<open>A step that writes to the header of the block \<open>b\<close> only, and leaves its size.\<close>

definition touches_header :: "u32 \<Rightarrow> uheap \<Rightarrow> uheap \<Rightarrow> bool" where
  "touches_header b u u' \<longleftrightarrow> (\<forall>a. a \<notin> span b 12 \<longrightarrow> um u' a = um u a) \<and> bsize u' b = bsize u b \<and>
     u_break u' = u_break u \<and> u_mmap u' = u_mmap u \<and> length (mem_free_lists u') = length (mem_free_lists u)"

lemma touches_headerD:
  assumes "touches_header b u u'" "uinv start used u B own" "b \<in> B"
  shows "c \<in> B \<Longrightarrow> bsize u' c = bsize u c"
    and "c \<in> B \<Longrightarrow> c \<noteq> b \<Longrightarrow> blk_flags (um u') c = blk_flags (um u) c \<and> blk_next (um u') c = blk_next (um u) c"
    and "c \<in> B \<Longrightarrow> a \<in> payload u c \<Longrightarrow> um u' a = um u a"
    and "unat a < start \<or> unat (u_mmap u) \<le> unat a \<Longrightarrow> um u' a = um u a"
proof -
  show "unat a < start \<or> unat (u_mmap u) \<le> unat a \<Longrightarrow> um u' a = um u a"
    using in_front(1) [OF assms(2,3)] above_all(1) [OF assms(2,3)] assms(1) by (auto simp: touches_header_def)
  have same: "blk_size (um u') c = blk_size (um u) c \<and> blk_flags (um u') c = blk_flags (um u) c \<and>
      blk_next (um u') c = blk_next (um u) c" if "c \<in> B" "c \<noteq> b" for c
    using header_cong [OF uinv_block(3) [OF assms(2) that(1)], of "um u'" "um u"]
      other_header [OF assms(2,3) that(1)] that(2) assms(1) by (auto simp: touches_header_def)
  show "c \<in> B \<Longrightarrow> bsize u' c = bsize u c"
    using same [of c] assms(1) by (cases "c = b") (auto simp: touches_header_def bsize_def)
  show "c \<in> B \<Longrightarrow> c \<noteq> b \<Longrightarrow> blk_flags (um u') c = blk_flags (um u) c \<and> blk_next (um u') c = blk_next (um u) c"
    using same by blast
  show "c \<in> B \<Longrightarrow> a \<in> payload u c \<Longrightarrow> um u' a = um u a"
    using payload_header [OF assms(2,3)] assms(1) by (auto simp: touches_header_def)
qed

text \<open>The block changes hands: it goes to \<open>k\<close>, and the lists are those of the new owners.\<close>

lemma uinv_change:
  assumes "uinv start used u B own" "touches_header b u u'" "b \<in> B" "owned_ok u' k b"
    and "\<And>ci. ci < 10 \<Longrightarrow> listed u' (mem_free_lists u' ! ci) {c\<in>B. (own(b := k)) c = Small ci}"
    and "listed u' (mem_large_free u') {c\<in>B. (own(b := k)) c = Large}"
  shows "uinv start used u' B (own(b := k))"
proof -
  note t = touches_headerD [OF assms(2,1,3)]
  have "owned_ok u' ((own(b := k)) c) c" if "c \<in> B" for c
    using that assms(1,4) t(1,2) [OF that] by (cases "c = b") (auto simp: uinv_def owned_ok_def split: owner.splits)
  moreover have "in_place start used u' c" if "c \<in> B" for c
    using that assms(1,2) t(1) [OF that] by (simp add: uinv_def in_place_def touches_header_def)
  moreover have "apart u' c d" if "c \<in> B" "d \<in> B" "c \<noteq> d" for c d
    using uinv_apart [OF assms(1) that] t(1) that by (simp add: apart_def)
  ultimately show ?thesis using assms(1,2,5,6) by (simp add: uinv_def touches_header_def)
qed

text \<open>A list that the block is neither in nor gets in stays as it is.\<close>

lemma listed_same:
  assumes "uinv start used u B own" "touches_header b u u'" "b \<in> B" "listed u p {c\<in>B. P c}" "\<not> P b"
    and "\<And>c. c \<noteq> b \<Longrightarrow> P' c = P c" "\<not> P' b"
  shows "listed u' p {c\<in>B. P' c}"
proof -
  have "P' = P" using assms(5-7) by (auto simp: fun_eq_iff) metis+
  then have "listed u' p {c\<in>B. P' c} = listed u p {c\<in>B. P' c}"
    using assms(5) by (intro listed_cong) (auto intro!: touches_headerD(2) [OF assms(2,1,3), THEN conjunct2])
  then show ?thesis using assms(4) \<open>P' = P\<close> by simp
qed

text \<open>Putting a block at the head of a list, and taking it from there.\<close>

lemma listed_push:
  assumes "uinv start used u B own" "touches_header b u u'" "b \<in> B" "listed u p {c\<in>B. P c}" "\<not> P b"
    and "\<And>c. c \<noteq> b \<Longrightarrow> P' c = P c" "P' b" "blk_next (um u') b = p"
  shows "listed u' b {c\<in>B. P' c}"
proof -
  obtain xs where xs: "mchain (um u) p xs" "distinct xs" "set xs = {c\<in>B. P c}" using assms(4) by (auto simp: listed_def)
  have n: "b \<notin> set xs" using xs(3) assms(5) by simp
  have "mchain (um u') p xs = mchain (um u) p xs"
    using xs(3) n by (intro mchain_cong) (auto intro!: touches_headerD(2) [OF assms(2,1,3), THEN conjunct2])
  then have "mchain (um u') b (b # xs)" using xs(1) assms(8) uinv_block(4) [OF assms(1,3)] by simp
  moreover have "P' c \<longleftrightarrow> c = b \<or> P c" for c using assms(6,7) by (cases "c = b") auto
  then have "set (b # xs) = {c\<in>B. P' c}" using xs(3) assms(3) by auto
  moreover have "distinct (b # xs)" using xs(2) n by simp
  ultimately show ?thesis unfolding listed_def by blast
qed

lemma listed_head: "listed u b S \<Longrightarrow> b \<noteq> 0 \<Longrightarrow> b \<in> S"
proof -
  assume "listed u b S" "b \<noteq> 0"
  then obtain xs where "mchain (um u) b xs" "set xs = S" by (auto simp: listed_def)
  then show "b \<in> S" using \<open>b \<noteq> 0\<close> by (cases xs) auto
qed

lemma listed_pop:
  assumes "uinv start used u B own" "touches_header b u u'" "listed u b {c\<in>B. P c}" "b \<noteq> 0"
    and "\<And>c. c \<noteq> b \<Longrightarrow> P' c = P c" "\<not> P' b"
  shows "b \<in> B \<and> P b \<and> listed u' (blk_next (um u) b) {c\<in>B. P' c}"
proof -
  obtain xs where xs: "mchain (um u) b xs" "distinct xs" "set xs = {c\<in>B. P c}" using assms(3) by (auto simp: listed_def)
  then obtain ys where ys: "xs = b # ys" using assms(4) by (cases xs) auto
  then have b: "b \<in> B" "P b" using xs(3) by auto
  have "mchain (um u') (blk_next (um u) b) ys = mchain (um u) (blk_next (um u) b) ys"
    using xs ys by (intro mchain_cong) (auto intro!: touches_headerD(2) [OF assms(2,1) b(1), THEN conjunct2])
  moreover have "P' c \<longleftrightarrow> c \<noteq> b \<and> P c" for c using assms(5,6) by (cases "c = b") auto
  then have "set ys = {c\<in>B. P' c}" using xs(2,3) unfolding ys by auto
  ultimately show ?thesis using b xs(1,2) unfolding ys by (auto simp: listed_def)
qed

section \<open>The steps of the allocator\<close>

lemma mem_class_index_cases:
  "mem_class_index sz = (if sz \<le> 16 then Some 0 else if sz \<le> 32 then Some 1 else if sz \<le> 64 then Some 2
     else if sz \<le> 128 then Some 3 else if sz \<le> 256 then Some 4 else if sz \<le> 512 then Some 5
     else if sz \<le> 1024 then Some 6 else if sz \<le> 2048 then Some 7 else if sz \<le> 4096 then Some 8
     else if sz \<le> 8192 then Some 9 else None)"
  by (simp add: mem_class_index_def MEM_NUM_CLASSES_def MEM_ALIGN_def eval_nat_numeral)

lemma class_sizes:
  assumes "ci < 10"
  shows "unat (mem_block_size_for_class ci) = 16 * 2 ^ ci" "16 * 2 ^ ci \<le> (8192 :: nat)"
    "unat sz = 16 * 2 ^ ci \<Longrightarrow> mem_class_index sz = Some ci"
proof -
  consider "ci = 0" | "ci = 1" | "ci = 2" | "ci = 3" | "ci = 4" | "ci = 5" | "ci = 6" | "ci = 7" | "ci = 8" | "ci = 9"
    using assms by (auto simp: eval_nat_numeral less_Suc_eq)
  then have "unat (mem_block_size_for_class ci) = 16 * 2 ^ ci \<and> 16 * 2 ^ ci \<le> (8192 :: nat) \<and>
    (unat sz = 16 * 2 ^ ci \<longrightarrow> mem_class_index sz = Some ci)"
    by cases (simp_all add: mem_block_size_for_class_def MEM_ALIGN_def mem_class_index_cases word_le_nat_alt)
  then show "unat (mem_block_size_for_class ci) = 16 * 2 ^ ci" "16 * 2 ^ ci \<le> (8192 :: nat)"
    "unat sz = 16 * 2 ^ ci \<Longrightarrow> mem_class_index sz = Some ci" by blast+
qed

lemma class_fits:
  assumes "mem_class_index sz = Some ci"
  shows "ci < 10 \<and> unat sz \<le> 16 * 2 ^ ci"
  using assms by (auto simp: mem_class_index_cases word_le_nat_alt split: if_splits)

lemma class_none: "mem_class_index sz = None \<longleftrightarrow> 8192 < unat sz"
  by (auto simp: mem_class_index_cases word_le_nat_alt)

lemma pop_small:
  assumes "uinv start used u B own" "ci < 10" "mem_free_lists u ! ci = b" "b \<noteq> 0"
    and "u' = u\<lparr>mem_free_lists := (mem_free_lists u)[ci := blk_next (um u) b], um := set_flags b MEM_USED (um u)\<rparr>"
  shows "b \<in> B \<and> own b = Small ci \<and> touches_header b u u' \<and> uinv start used u' B (own(b := Live))"
proof -
  have l: "listed u b {c\<in>B. own c = Small ci}" using assms(1-3) by (auto simp: uinv_def)
  then have bB: "b \<in> B" "own b = Small ci" using listed_head [OF l assms(4)] by simp_all
  note h = header_fields [OF uinv_block(3) [OF assms(1) bB(1)], of _ "um u"]
  have t: "touches_header b u u'"
    using set_outside [OF uinv_block(3) [OF assms(1) bB(1)]] h by (simp add: assms(5) touches_header_def bsize_def)
  have "owned_ok u (Small ci) b" using assms(1) bB by (force simp: uinv_def)
  then have o: "owned_ok u' Live b" using h assms(2) by (auto simp: assms(5) owned_ok_def bsize_def)
  have len: "length (mem_free_lists u) = 10" using assms(1) by (simp add: uinv_def)
  have "uinv start used u' B (own(b := Live))"
  proof (rule uinv_change [OF assms(1) t bB(1) o])
    fix cj :: nat assume cj: "cj < 10"
    then have lj: "listed u (mem_free_lists u ! cj) {c\<in>B. own c = Small cj}" using assms(1) by (simp add: uinv_def)
    show "listed u' (mem_free_lists u' ! cj) {c\<in>B. (own(b := Live)) c = Small cj}"
    proof (cases "cj = ci")
      case True
      then show ?thesis using listed_pop [OF assms(1) t l assms(4), of "\<lambda>c. (own(b := Live)) c = Small ci"] len assms(2)
        by (simp add: assms(5))
    next
      case False
      then show ?thesis using listed_same [OF assms(1) t bB(1) lj, of "\<lambda>c. (own(b := Live)) c = Small cj"] bB(2)
        by (simp add: assms(5))
    qed
  next
    have ll: "listed u (mem_large_free u) {c\<in>B. own c = Large}" using assms(1) by (simp add: uinv_def)
    show "listed u' (mem_large_free u') {c\<in>B. (own(b := Live)) c = Large}"
      using listed_same [OF assms(1) t bB(1) ll, of "\<lambda>c. (own(b := Live)) c = Large"] bB(2) by (simp add: assms(5))
  qed
  then show ?thesis using bB t by simp
qed

lemma push_small:
  assumes "uinv start used u B own" "b \<in> B" "own b = Live" "ci < 10" "bsize u b = 16 * 2 ^ ci"
    and "u' = u\<lparr>um := set_next b (mem_free_lists u ! ci) (set_flags b MEM_FREE (um u)), mem_free_lists := (mem_free_lists u)[ci := b]\<rparr>"
  shows "touches_header b u u' \<and> uinv start used u' B (own(b := Small ci))"
proof -
  note h = header_fields [OF uinv_block(3) [OF assms(1,2)]]
  have t: "touches_header b u u'"
    using set_outside [OF uinv_block(3) [OF assms(1,2)]] h by (simp add: assms(6) touches_header_def bsize_def)
  have o: "owned_ok u' (Small ci) b" using h assms(4,5) by (simp add: assms(6) owned_ok_def bsize_def)
  have len: "length (mem_free_lists u) = 10" using assms(1) by (simp add: uinv_def)
  have "uinv start used u' B (own(b := Small ci))"
  proof (rule uinv_change [OF assms(1) t assms(2) o])
    fix cj :: nat assume cj: "cj < 10"
    then have lj: "listed u (mem_free_lists u ! cj) {c\<in>B. own c = Small cj}" using assms(1) by (simp add: uinv_def)
    show "listed u' (mem_free_lists u' ! cj) {c\<in>B. (own(b := Small ci)) c = Small cj}"
    proof (cases "cj = ci")
      case True
      then show ?thesis using listed_push [OF assms(1) t assms(2) lj, of "\<lambda>c. (own(b := Small ci)) c = Small ci"] len assms(3,4) h
        by (simp add: assms(6))
    next
      case False
      then show ?thesis using listed_same [OF assms(1) t assms(2) lj, of "\<lambda>c. (own(b := Small ci)) c = Small cj"] assms(3)
        by (simp add: assms(6))
    qed
  next
    have ll: "listed u (mem_large_free u) {c\<in>B. own c = Large}" using assms(1) by (simp add: uinv_def)
    show "listed u' (mem_large_free u') {c\<in>B. (own(b := Small ci)) c = Large}"
      using listed_same [OF assms(1) t assms(2) ll, of "\<lambda>c. (own(b := Small ci)) c = Large"] assms(3) by (simp add: assms(6))
  qed
  then show ?thesis using t by simp
qed

lemma push_large:
  assumes "uinv start used u B own" "b \<in> B" "own b = Live" "8192 < bsize u b"
    and "u' = u\<lparr>um := set_next b (mem_large_free u) (set_flags b MEM_FREE (um u)), mem_large_free := b\<rparr>"
  shows "touches_header b u u' \<and> uinv start used u' B (own(b := Large))"
proof -
  note h = header_fields [OF uinv_block(3) [OF assms(1,2)]]
  have t: "touches_header b u u'"
    using set_outside [OF uinv_block(3) [OF assms(1,2)]] h by (simp add: assms(5) touches_header_def bsize_def)
  have o: "owned_ok u' Large b" using h assms(4) by (simp add: assms(5) owned_ok_def bsize_def)
  have "uinv start used u' B (own(b := Large))"
  proof (rule uinv_change [OF assms(1) t assms(2) o])
    fix cj :: nat assume cj: "cj < 10"
    then have lj: "listed u (mem_free_lists u ! cj) {c\<in>B. own c = Small cj}" using assms(1) by (simp add: uinv_def)
    show "listed u' (mem_free_lists u' ! cj) {c\<in>B. (own(b := Large)) c = Small cj}"
      using listed_same [OF assms(1) t assms(2) lj, of "\<lambda>c. (own(b := Large)) c = Small cj"] assms(3) by (simp add: assms(5))
  next
    have ll: "listed u (mem_large_free u) {c\<in>B. own c = Large}" using assms(1) by (simp add: uinv_def)
    show "listed u' (mem_large_free u') {c\<in>B. (own(b := Large)) c = Large}"
      using listed_push [OF assms(1) t assms(2) ll, of "\<lambda>c. (own(b := Large)) c = Large"] assms(3) h by (simp add: assms(5))
  qed
  then show ?thesis using t by simp
qed

text \<open>The walk over the large blocks finds the first that is large enough, or comes to the end.\<close>

lemma large_find_chain:
  assumes "mchain m p xs"
  shows "(\<exists>q. large_find m need prev p = Some (q, 0)) \<or>
    (\<exists>us b ys. xs = us @ b # ys \<and> need \<le> blk_size m b \<and>
      large_find m need prev p = Some (if us = [] then prev else last us, b))"
  using assms
proof (induction xs arbitrary: p prev)
  case Nil
  then show ?case by (subst large_find.simps) simp
next
  case (Cons x xs)
  then have p: "p = x" "x \<noteq> 0" and c: "mchain m (blk_next m x) xs" by simp_all
  show ?case
  proof (cases "blk_size m x \<ge> need")
    case True
    then have "large_find m need prev p = Some (prev, x)" using p by (subst large_find.simps) simp
    then show ?thesis using True by (intro disjI2 exI [of _ "[]"]) simp
  next
    case False
    then have e: "large_find m need prev p = large_find m need x (blk_next m x)"
      using p by (subst large_find.simps) simp
    from Cons.IH [OF c, of x] consider q where "large_find m need prev p = Some (q, 0)"
      | us b ys where "xs = us @ b # ys" "need \<le> blk_size m b"
        "large_find m need prev p = Some (if us = [] then x else last us, b)"
      unfolding e by blast
    then show ?thesis
    proof cases
      case 2
      then show ?thesis by (intro disjI2 exI [of _ "x # us"] exI [of _ b] exI [of _ ys]) simp
    qed blast
  qed
qed

lemma mchain_unlink:
  assumes "mchain m p (us @ b # ys)" "us \<noteq> []" "distinct (us @ b # ys)"
    and "blk_next m' (last us) = blk_next m b" "\<And>x. x \<in> set (us @ ys) \<Longrightarrow> x \<noteq> last us \<Longrightarrow> blk_next m' x = blk_next m x"
  shows "mchain m' p (us @ ys)"
  using assms
proof (induction us arbitrary: p)
  case (Cons x us)
  show ?case
  proof (cases "us = []")
    case True
    have "mchain m' (blk_next m b) ys = mchain m (blk_next m b) ys"
      using Cons.prems(3,5) True by (intro mchain_cong) auto
    then show ?thesis using Cons.prems True by simp
  next
    case False
    have "x \<noteq> last us" using Cons.prems(3) False by auto
    then have "blk_next m' x = blk_next m x" using Cons.prems(5) [of x] False by simp
    moreover have "mchain m' (blk_next m x) (us @ ys)"
      using Cons.prems False by (intro Cons.IH) auto
    ultimately show ?thesis using Cons.prems(1) by simp
  qed
qed simp

lemma mchain_at: "mchain m p (us @ b # ys) \<Longrightarrow> mchain m (blk_next m b) ys \<and> b \<noteq> 0"
  by (induction us arbitrary: p) auto

text \<open>Writing one field of a header leaves the other fields, the other headers and the payloads.\<close>

lemma field_writes:
  assumes "uinv start used u B own" "b \<in> B" "c \<in> B"
  shows "blk_size (set_flags b v m) c = blk_size m c" "blk_next (set_flags b v m) c = blk_next m c"
    "c \<noteq> b \<Longrightarrow> blk_flags (set_flags b v m) c = blk_flags m c"
    "blk_size (set_next b v m) c = blk_size m c" "blk_flags (set_next b v m) c = blk_flags m c"
    "c \<noteq> b \<Longrightarrow> blk_next (set_next b v m) c = blk_next m c"
    "a \<in> payload u c \<Longrightarrow> set_flags b v m a = m a" "a \<in> payload u c \<Longrightarrow> set_next b v m a = m a"
proof -
  note b = uinv_block(3) [OF assms(1,2)] and c = uinv_block(3) [OF assms(1,3)]
  have o: "m' a = m a" if "c \<noteq> b" "a \<in> span c 12" "m' = set_flags b v m \<or> m' = set_next b v m" for a m'
    using other_header [OF assms(1,2,3) _ that(2)] that set_outside [OF b] by auto
  have cf: "blk_size m' c = blk_size m c \<and> blk_flags m' c = blk_flags m c \<and> blk_next m' c = blk_next m c"
    if "c \<noteq> b" "m' = set_flags b v m \<or> m' = set_next b v m" for m'
    using header_cong [OF c, of m' m] o [OF that(1) _ that(2)] by blast
  show "blk_size (set_flags b v m) c = blk_size m c" "blk_next (set_flags b v m) c = blk_next m c"
    "c \<noteq> b \<Longrightarrow> blk_flags (set_flags b v m) c = blk_flags m c"
    "blk_size (set_next b v m) c = blk_size m c" "blk_flags (set_next b v m) c = blk_flags m c"
    "c \<noteq> b \<Longrightarrow> blk_next (set_next b v m) c = blk_next m c"
    using cf [of "set_flags b v m"] cf [of "set_next b v m"] header_fields [OF b, of v m] by (cases "c = b"; simp)+
  show "a \<in> payload u c \<Longrightarrow> set_flags b v m a = m a" "a \<in> payload u c \<Longrightarrow> set_next b v m a = m a"
    using payload_header [OF assms] set_outside [OF b] by auto
qed

lemma pop_large:
  assumes "uinv start used u B own" "mchain (um u) (mem_large_free u) (us @ b # ys)" "distinct (us @ b # ys)"
    and "set (us @ b # ys) = {c\<in>B. own c = Large}"
    and "u1 = (if us = [] then u\<lparr>mem_large_free := blk_next (um u) b\<rparr> else u\<lparr>um := set_next (last us) (blk_next (um u) b) (um u)\<rparr>)"
    and "u' = u1\<lparr>um := set_flags b MEM_USED (um u1)\<rparr>"
  shows "b \<in> B \<and> own b = Large \<and> uinv start used u' B (own(b := Live)) \<and>
    (\<forall>a. unat a < start \<or> unat (u_mmap u') \<le> unat a \<longrightarrow> um u' a = um u a) \<and> u_mmap u' = u_mmap u \<and>
    (\<forall>c\<in>B. bsize u' c = bsize u c \<and> (\<forall>a\<in>payload u c. um u' a = um u a))"
proof -
  have bB: "b \<in> B" "own b = Large" using assms(4) by auto
  have usB: "last us \<in> B \<and> own (last us) = Large" if "us \<noteq> []"
    using assms(4) last_in_set [OF that] by auto
  note fb = field_writes [OF assms(1) bB(1)]
  have f1: "blk_size (um u1) c = blk_size (um u) c \<and> blk_flags (um u1) c = blk_flags (um u) c \<and>
      (us = [] \<or> c \<noteq> last us \<longrightarrow> blk_next (um u1) c = blk_next (um u) c) \<and> (\<forall>a\<in>payload u c. um u1 a = um u a)" if "c \<in> B" for c
  proof (cases "us = []")
    case True
    then show ?thesis by (simp add: assms(5))
  next
    case False
    then show ?thesis using field_writes(4-6,8) [OF assms(1) _ that, of "last us"] usB by (simp add: assms(5))
  qed
  have f: "blk_size (um u') c = blk_size (um u) c" "c \<noteq> b \<Longrightarrow> blk_flags (um u') c = blk_flags (um u) c"
    "us = [] \<or> c \<noteq> last us \<Longrightarrow> blk_next (um u') c = blk_next (um u) c" "a \<in> payload u c \<Longrightarrow> um u' a = um u a" if "c \<in> B" for c a
    using f1 [OF that] fb(1-3,7) [OF that] by (simp_all add: assms(6))
  have sz: "bsize u' c = bsize u c" if "c \<in> B" for c using f(1) [OF that] by (simp add: bsize_def)
  have fl: "blk_flags (um u') b = MEM_USED" using header_fields(5) [OF uinv_block(3) [OF assms(1) bB(1)]] by (simp add: assms(6))
  have same: "u_break u' = u_break u" "u_mmap u' = u_mmap u" "mem_free_lists u' = mem_free_lists u"
    by (simp_all add: assms(5,6))
  have "in_place start used u' c \<and> owned_ok u' ((own(b := Live)) c) c" if "c \<in> B" for c
  proof -
    have "in_place start used u c" "owned_ok u (own c) c" using assms(1) that by (auto simp: uinv_def)
    then show ?thesis using sz [OF that] f(2) [OF that] fl bB(2) same
      by (cases "c = b") (auto simp: in_place_def owned_ok_def split: owner.splits)
  qed
  moreover have "apart u' c d" if "c \<in> B" "d \<in> B" "c \<noteq> d" for c d
    using uinv_apart [OF assms(1) that] sz that by (simp add: apart_def)
  moreover have "listed u' (mem_free_lists u' ! ci) {c\<in>B. (own(b := Live)) c = Small ci}" if "ci < 10" for ci
  proof -
    have e: "{c\<in>B. (own(b := Live)) c = Small ci} = {c\<in>B. own c = Small ci}" using bB(2) by auto
    have "listed u (mem_free_lists u ! ci) {c\<in>B. own c = Small ci}" using assms(1) that by (simp add: uinv_def)
    moreover have "listed u' (mem_free_lists u ! ci) {c\<in>B. own c = Small ci} = listed u (mem_free_lists u ! ci) {c\<in>B. own c = Small ci}"
      by (rule listed_cong) (use f(3) usB in force)
    ultimately show ?thesis unfolding e same by simp
  qed
  moreover have "listed u' (mem_large_free u') {c\<in>B. (own(b := Live)) c = Large}"
  proof -
    have ysB: "y \<in> B" if "y \<in> set (us @ ys)" for y using that assms(4) by auto
    have "mchain (um u') (mem_large_free u') (us @ ys)"
    proof (cases "us = []")
      case True
      have "mchain (um u') (blk_next (um u) b) ys = mchain (um u) (blk_next (um u) b) ys"
        using True by (intro mchain_cong f(3)) (simp_all add: ysB)
      then show ?thesis using mchain_at [OF assms(2)] True by (simp add: assms(5,6))
    next
      case False
      have "last us \<noteq> b" using assms(3) False last_in_set [OF False] by auto
      then have "blk_next (um u') (last us) = blk_next (um u) b"
        using header_fields(9) [OF uinv_block(3) [OF assms(1)], of "last us"] usB [OF False] fb(2) False
        by (simp add: assms(5,6))
      then have "mchain (um u') (mem_large_free u) (us @ ys)"
        using f(3) ysB by (intro mchain_unlink [OF assms(2) False assms(3)]) auto
      then show ?thesis using False by (simp add: assms(5,6))
    qed
    moreover have "set (us @ ys) = {c\<in>B. (own(b := Live)) c = Large}" using assms(3,4) by auto
    moreover have "distinct (us @ ys)" using assms(3) by simp
    ultimately show ?thesis unfolding listed_def by blast
  qed
  ultimately have "uinv start used u' B (own(b := Live))" using assms(1) same by (simp add: uinv_def)
  moreover have "um u' a = um u a" if "unat a < start \<or> unat (u_mmap u') \<le> unat a" for a
  proof -
    have out: "a \<notin> span c 12" if "c \<in> B" for c
      using in_front(1) [OF assms(1) that] above_all(1) [OF assms(1) that] \<open>unat a < start \<or> unat (u_mmap u') \<le> unat a\<close> same(2) by auto
    have "um u1 a = um u a"
      using set_outside(3) [OF uinv_block(3) [OF assms(1)] out, of "last us"] usB by (simp add: assms(5))
    then show ?thesis using set_outside(2) [OF uinv_block(3) [OF assms(1) bB(1)] out [OF bB(1)]] by (simp add: assms(6))
  qed
  ultimately show ?thesis using bB sz f(4) same(2) by blast
qed

section \<open>New blocks\<close>

lemma uinv_strict:
  assumes "uinv start used u B own" "b \<in> B"
  shows "unat b + bsize u b < 4294967296" "unat (b + 16) = unat b + 16" "b + 16 \<noteq> 0"
proof -
  have "unat b + bsize u b \<le> used \<or> unat b + bsize u b \<le> unat (u_mmap u)" "used \<le> unat (u_break u)"
    using assms by (auto simp: uinv_def in_place_def)
  then show l: "unat b + bsize u b < 4294967296" using unat_bound32 [of "u_break u"] unat_bound32 [of "u_mmap u"] by linarith
  then show "unat (b + 16) = unat b + 16" using uinv_block(2) [OF assms] unat_add_nat [of b 16] by simp
  then show "b + 16 \<noteq> 0" by auto
qed

lemma add_block:
  assumes "uinv start used u B own" "16 \<le> n" "unat base + n < 4294967296"
    and "used \<le> unat base \<and> unat base + n \<le> used' \<or>
         unat (u_mmap u) \<le> unat base \<and> unat base + n \<le> unat (u_mmap u') \<and> used' = used"
    and "used \<le> used'" "used' \<le> unat (u_break u')" "unat (u_break u') \<le> mmap_start" "u_mmap u \<le> u_mmap u'"
    and "\<And>a. a \<notin> span base 12 \<Longrightarrow> um u' a = um u a" "bsize u' base = n" "length (mem_free_lists u') = 10"
    and "owned_ok u' k base"
    and "\<And>ci. ci < 10 \<Longrightarrow> (\<And>c. c \<in> B \<Longrightarrow> blk_next (um u') c = blk_next (um u) c) \<Longrightarrow> base \<notin> B \<Longrightarrow>
      listed u' (mem_free_lists u' ! ci) {c\<in>insert base B. (own(base := k)) c = Small ci}"
    and "(\<And>c. c \<in> B \<Longrightarrow> blk_next (um u') c = blk_next (um u) c) \<Longrightarrow> base \<notin> B \<Longrightarrow>
      listed u' (mem_large_free u') {c\<in>insert base B. (own(base := k)) c = Large}"
  shows "base \<notin> B \<and> uinv start used' u' (insert base B) (own(base := k)) \<and> u_mmap u \<le> u_mmap u' \<and>
    (\<forall>a. unat a < start \<or> unat (u_mmap u') \<le> unat a \<longrightarrow> um u' a = um u a) \<and>
    (\<forall>c\<in>B. bsize u' c = bsize u c \<and> (\<forall>a\<in>payload u c. um u' a = um u a))"
proof -
  have u: "used \<le> unat (u_break u)" "unat (u_break u) \<le> mmap_start" "mmap_start \<le> unat (u_mmap u)" "start \<le> used" "0 < start"
    using assms(1) by (simp_all add: uinv_def)
  have mm: "unat (u_mmap u) \<le> unat (u_mmap u')" using assms(8) by (simp add: word_le_nat_alt)
  have sep: "unat c + bsize u c \<le> unat base \<or> unat base + n \<le> unat c" if "c \<in> B" for c
  proof -
    have "in_place start used u c" using assms(1) that by (simp add: uinv_def)
    then show ?thesis using assms(4,6,7) u by (auto simp: in_place_def)
  qed
  have out: "a \<notin> span base 12" if "c \<in> B" "unat c \<le> unat a" "unat a < unat c + bsize u c" for c a
    using sep [OF that(1)] that(2,3) assms(2) by (auto simp: span_def)
  have nb: "base \<notin> B" using sep [of base] uinv_block(2) [OF assms(1), of base] assms(2) by fastforce
  have hdr: "blk_size (um u') c = blk_size (um u) c \<and> blk_flags (um u') c = blk_flags (um u) c \<and> blk_next (um u') c = blk_next (um u) c"
    if "c \<in> B" for c
    using header_cong [OF uinv_block(3) [OF assms(1) that], of "um u'" "um u"] uinv_block(2) [OF assms(1) that]
      out [OF that] assms(9) by (force simp: span_def)
  have sz: "bsize u' c = bsize u c" if "c \<in> B" for c using hdr [OF that] by (simp add: bsize_def)
  have pay: "um u' a = um u a" if "c \<in> B" "a \<in> payload u c" for c a
    using out [OF that(1)] that(2) assms(9) by (force simp: payload_def)
  have ne: "c \<noteq> base" if "c \<in> B" for c using that nb by auto
  have "in_place start used' u' c \<and> owned_ok u' ((own(base := k)) c) c" if "c \<in> B" for c
  proof -
    have "in_place start used u c" "owned_ok u (own c) c" using assms(1) that by (auto simp: uinv_def)
    then show ?thesis using sz [OF that] hdr [OF that] ne [OF that] assms(5) mm
      by (auto simp: in_place_def owned_ok_def split: owner.splits)
  qed
  moreover have "in_place start used' u' base" using assms(2,4,10) u by (auto simp: in_place_def)
  moreover have "apart u' c d" if "c \<in> insert base B" "d \<in> insert base B" "c \<noteq> d" for c d
  proof -
    have b: "apart u' base e \<and> apart u' e base" if "e \<in> B" for e
      using sep [OF that] sz [OF that] assms(10) by (auto simp: apart_def)
    show ?thesis using that b uinv_apart [OF assms(1), of c d] sz by (cases "c = base"; cases "d = base") (auto simp: apart_def)
  qed
  moreover have "mmap_start \<le> unat (u_mmap u')" using u(3) mm by linarith
  moreover have "start \<le> used'" using u(4) assms(5) by linarith
  ultimately have "uinv start used' u' (insert base B) (own(base := k))"
    using assms(6,7,11,12,13,14) hdr nb u(5) by (simp add: uinv_def)
  moreover have "um u' a = um u a" if "unat a < start \<or> unat (u_mmap u') \<le> unat a" for a
  proof (rule assms(9))
    have "start \<le> unat base" "unat base + n \<le> unat (u_mmap u')" using assms(4,6,7) u mm by linarith+
    then show "a \<notin> span base 12" using that assms(2) by (auto simp: span_def)
  qed
  ultimately show ?thesis using nb sz pay assms(8) by blast
qed

text \<open>
  What every step keeps: the memory in front of the arena and above the mappings, and of the blocks in use their size and
  contents.
\<close>

definition keeps :: "nat \<Rightarrow> uheap \<Rightarrow> u32 set \<Rightarrow> (u32 \<Rightarrow> owner) \<Rightarrow> uheap \<Rightarrow> u32 set \<Rightarrow> (u32 \<Rightarrow> owner) \<Rightarrow> bool" where
  "keeps start u B own u' B' own' \<longleftrightarrow> u_mmap u \<le> u_mmap u' \<and>
     (\<forall>a. unat a < start \<or> unat (u_mmap u') \<le> unat a \<longrightarrow> um u' a = um u a) \<and> (\<forall>c\<in>B. own c = Live \<longrightarrow>
     c \<in> B' \<and> own' c = Live \<and> bsize u' c = bsize u c \<and> (\<forall>a\<in>payload u c. um u' a = um u a))"

lemma keeps_refl: "keeps start u B own u B own"
  by (simp add: keeps_def)

lemma keeps_trans: "keeps start u B own u1 B1 own1 \<Longrightarrow> keeps start u1 B1 own1 u2 B2 own2 \<Longrightarrow> keeps start u B own u2 B2 own2"
proof -
  assume 1: "keeps start u B own u1 B1 own1" and 2: "keeps start u1 B1 own1 u2 B2 own2"
  show "keeps start u B own u2 B2 own2"
    unfolding keeps_def
  proof (intro conjI allI ballI impI)
    show "u_mmap u \<le> u_mmap u2" using 1 2 by (auto simp: keeps_def)
    fix a :: u32 assume a: "unat a < start \<or> unat (u_mmap u2) \<le> unat a"
    have "unat (u_mmap u1) \<le> unat (u_mmap u2)" using 2 by (simp add: keeps_def word_le_nat_alt)
    then have "unat a < start \<or> unat (u_mmap u1) \<le> unat a" using a by auto
    then have "um u1 a = um u a" using 1 unfolding keeps_def by blast
    moreover have "um u2 a = um u1 a" using 2 a unfolding keeps_def by blast
    ultimately show "um u2 a = um u a" by simp
  next
    fix c assume c: "c \<in> B" "own c = Live"
    from 1 c have c1: "c \<in> B1" "own1 c = Live" "bsize u1 c = bsize u c" "\<forall>a\<in>payload u c. um u1 a = um u a"
      by (auto simp: keeps_def)
    moreover from 2 c1 have "c \<in> B2" "own2 c = Live" "bsize u2 c = bsize u1 c" "\<forall>a\<in>payload u1 c. um u2 a = um u1 a"
      by (auto simp: keeps_def)
    moreover have "payload u1 c = payload u c" using c1(3) by (simp add: payload_def)
    ultimately have "c \<in> B2 \<and> own2 c = Live \<and> bsize u2 c = bsize u c \<and> (\<forall>a\<in>payload u c. um u2 a = um u a)" by simp
    then show "c \<in> B2" "own2 c = Live" "bsize u2 c = bsize u c" "\<And>a. a \<in> payload u c \<Longrightarrow> um u2 a = um u a" by simp_all
  qed
qed

lemma listed_insert:
  assumes "listed u p {c\<in>B. P c}" "\<And>c. c \<in> B \<Longrightarrow> blk_next (um u') c = blk_next (um u) c" "base \<notin> B"
    and "\<And>c. c \<in> B \<Longrightarrow> P' c = P c"
  shows "\<not> P' base \<Longrightarrow> listed u' p {c\<in>insert base B. P' c}"
    and "P' base \<Longrightarrow> blk_next (um u') base = p \<Longrightarrow> base \<noteq> 0 \<Longrightarrow> listed u' base {c\<in>insert base B. P' c}"
proof -
  have l: "listed u' p {c\<in>B. P c}" using assms(1) listed_cong [of "{c\<in>B. P c}" u' u p] assms(2) by auto
  show "listed u' p {c\<in>insert base B. P' c}" if "\<not> P' base"
  proof -
    have "{c\<in>insert base B. P' c} = {c\<in>B. P c}" using that assms(4) by auto
    then show ?thesis using l by simp
  qed
  show "listed u' base {c\<in>insert base B. P' c}" if "P' base" "blk_next (um u') base = p" "base \<noteq> 0"
  proof -
    obtain xs where xs: "mchain (um u') p xs" "distinct xs" "set xs = {c\<in>B. P c}" using l by (auto simp: listed_def)
    have "set (base # xs) = {c\<in>insert base B. P' c}" using xs(3) that(1) assms(4) by auto
    moreover have "distinct (base # xs)" using xs(2,3) assms(3) by auto
    moreover have "mchain (um u') base (base # xs)" using xs(1) that by simp
    ultimately show ?thesis unfolding listed_def by blast
  qed
qed

text \<open>Carving a chunk into blocks of one class, each put at the head of its list.\<close>

lemma carve_ok:
  assumes "uinv start used u B own" "ci < 10" "bs = mem_block_size_for_class ci"
    and "used = unat base + i * unat bs" "used + n * unat bs \<le> unat (u_break u)"
  shows "\<exists>B' own'. uinv start (used + n * unat bs) (carve ci bs base i n u) B' own' \<and>
    keeps start u B own (carve ci bs base i n u) B' own' \<and> u_break (carve ci bs base i n u) = u_break u \<and>
    (0 < n \<longrightarrow> mem_free_lists (carve ci bs base i n u) ! ci \<noteq> 0) \<and>
    (\<forall>c\<in>B' - B. own' c \<noteq> Live) \<and> (\<forall>c\<in>B. own' c = own c)"
  using assms(1,4,5)
proof (induction n arbitrary: i u B own used)
  case 0
  then show ?case using keeps_refl by (auto intro!: exI [of _ B] exI [of _ own])
next
  case (Suc n)
  let ?b = "base + of_nat i * bs"
  let ?m = "set_next ?b (mem_free_lists u ! ci) (set_flags ?b MEM_FREE (set_size ?b bs (um u)))"
  let ?u1 = "u\<lparr>um := ?m, mem_free_lists := (mem_free_lists u)[ci := ?b]\<rparr>"
  have bs: "unat bs = 16 * 2 ^ ci" "16 \<le> unat bs" "unat bs \<le> 8192"
    using class_sizes(1,2) [OF assms(2)] by (simp_all add: assms(3))
  have brk: "used + unat bs \<le> unat (u_break u)" using Suc.prems(3) by simp
  then have lt: "unat base + i * unat bs < 4294967296" using Suc.prems(2) unat_bound32 [of "u_break u"] bs(2) by linarith
  have ub: "unat ?b = used"
  proof -
    have "i * unat bs < 4294967296" using lt by linarith
    moreover have "i * 1 \<le> i * unat bs" using bs(2) by (intro mult_le_mono2) linarith
    ultimately have "i < 4294967296" by linarith
    then have "unat (of_nat i :: u32) = i" by (rule unat_of_nat_small)
    then have "unat (of_nat i * bs) = i * unat bs"
      using \<open>i * unat bs < 4294967296\<close> unat_mul_small [of "of_nat i" bs] by simp
    then show ?thesis using lt Suc.prems(2) by (subst unat_add_small) simp_all
  qed
  have u0: "0 < start" "start \<le> used" "length (mem_free_lists u) = 10" "unat (u_break u) \<le> mmap_start"
    using Suc.prems(1) by (simp_all add: uinv_def)
  have b12: "unat ?b + 12 \<le> 4294967296" using ub brk unat_bound32 [of "u_break u"] bs(2) by linarith
  note h = header_fields [OF b12]
  have b0: "?b \<noteq> 0" using ub u0(1,2) by auto
  have "?b \<notin> B \<and> uinv start (used + unat bs) ?u1 (insert ?b B) (own(?b := Small ci)) \<and> u_mmap u \<le> u_mmap ?u1 \<and>
    (\<forall>a. unat a < start \<or> unat (u_mmap ?u1) \<le> unat a \<longrightarrow> um ?u1 a = um u a) \<and>
    (\<forall>c\<in>B. bsize ?u1 c = bsize u c \<and> (\<forall>a\<in>payload u c. um ?u1 a = um u a))"
  proof (rule add_block [OF Suc.prems(1) bs(2)])
    show "unat ?b + unat bs < 4294967296" using ub brk unat_bound32 [of "u_break u"] by linarith
    show "used \<le> unat ?b \<and> unat ?b + unat bs \<le> used + unat bs \<or>
         unat (u_mmap u) \<le> unat ?b \<and> unat ?b + unat bs \<le> unat (u_mmap ?u1) \<and> used + unat bs = used"
      using ub by simp
    show "um ?u1 a = um u a" if "a \<notin> span ?b 12" for a using set_outside [OF b12 that] by simp
    show "bsize ?u1 ?b = unat bs" using h by (simp add: bsize_def)
    show "owned_ok ?u1 (Small ci) ?b" using h bs(1) assms(2) by (simp add: owned_ok_def bsize_def)
  next
    fix cj :: nat
    assume cj: "cj < 10" and nx: "\<And>c. c \<in> B \<Longrightarrow> blk_next (um ?u1) c = blk_next (um u) c" and nb: "?b \<notin> B"
    have lj: "listed u (mem_free_lists u ! cj) {c\<in>B. own c = Small cj}" using Suc.prems(1) cj by (simp add: uinv_def)
    have same: "((own(?b := Small ci)) c = Small cj) = (own c = Small cj)" if "c \<in> B" for c using that nb by auto
    show "listed ?u1 (mem_free_lists ?u1 ! cj) {c\<in>insert ?b B. (own(?b := Small ci)) c = Small cj}"
    proof (cases "cj = ci")
      case True
      then show ?thesis using listed_insert(2) [OF lj nx nb same] b0 h u0(3) assms(2) by simp
    next
      case False
      then show ?thesis using listed_insert(1) [OF lj nx nb same] by simp
    qed
  next
    assume nx: "\<And>c. c \<in> B \<Longrightarrow> blk_next (um ?u1) c = blk_next (um u) c" and nb: "?b \<notin> B"
    have ll: "listed u (mem_large_free u) {c\<in>B. own c = Large}" using Suc.prems(1) by (simp add: uinv_def)
    have same: "((own(?b := Small ci)) c = Large) = (own c = Large)" if "c \<in> B" for c using that nb by auto
    show "listed ?u1 (mem_large_free ?u1) {c\<in>insert ?b B. (own(?b := Small ci)) c = Large}"
      using listed_insert(1) [OF ll nx nb same] by simp
  qed (use brk u0 in simp_all)
  then have s1: "?b \<notin> B" "uinv start (used + unat bs) ?u1 (insert ?b B) (own(?b := Small ci))"
    "keeps start u B own ?u1 (insert ?b B) (own(?b := Small ci))" by (auto simp: keeps_def)
  have c: "carve ci bs base i (Suc n) u = carve ci bs base (i + 1) n ?u1" by (simp add: Let_def)
  have "used + unat bs = unat base + (i + 1) * unat bs" "used + unat bs + n * unat bs \<le> unat (u_break ?u1)"
    using Suc.prems(2,3) by simp_all
  from Suc.IH [OF s1(2) this] obtain B' own' where
    "uinv start (used + unat bs + n * unat bs) (carve ci bs base (i + 1) n ?u1) B' own'"
    "keeps start ?u1 (insert ?b B) (own(?b := Small ci)) (carve ci bs base (i + 1) n ?u1) B' own'"
    "u_break (carve ci bs base (i + 1) n ?u1) = u_break ?u1"
    "0 < n \<longrightarrow> mem_free_lists (carve ci bs base (i + 1) n ?u1) ! ci \<noteq> 0"
    "\<forall>c\<in>B' - insert ?b B. own' c \<noteq> Live" "\<forall>c\<in>insert ?b B. own' c = (own(?b := Small ci)) c" by blast
  moreover have "n = 0 \<Longrightarrow> mem_free_lists (carve ci bs base (i + 1) n ?u1) ! ci \<noteq> 0" using b0 u0(3) assms(2) by simp
  moreover have "used + unat bs + n * unat bs = used + Suc n * unat bs" by simp
  moreover have "\<forall>c\<in>B' - B. own' c \<noteq> Live" using calculation(5,6) by (metis DiffD1 DiffD2 DiffI fun_upd_same insertI1 insertE owner.distinct(3))
  moreover have "\<forall>c\<in>B. own' c = own c" using calculation(6) s1(1) by auto
  ultimately show ?case unfolding c using keeps_trans [OF s1(3)]
    by (intro exI [of _ B'] exI [of _ own']) auto
qed

section \<open>Allocating and freeing\<close>

text \<open>
  A request leaves room when its header does not overflow the size, the arena stays below the mappings and
  the mappings below the end of the address space; none of this is checked by the code.
\<close>

definition umem_room :: "u32 \<Rightarrow> uheap \<Rightarrow> bool" where
  "umem_room sz u \<longleftrightarrow> (let n = max 1 (unat sz) + 16 in
     n < 4294967296 \<and> (if n < 65536 then unat (u_break u) + 65536 \<le> mmap_start
                        else unat (u_mmap u) + n + 4096 < 4294967296))"

text \<open>The invariant between calls: the whole arena is cut up.\<close>

abbreviation uheap_ok :: "nat \<Rightarrow> uheap \<Rightarrow> u32 set \<Rightarrow> (u32 \<Rightarrow> owner) \<Rightarrow> bool" where
  "uheap_ok start u B own \<equiv> uinv start (unat (u_break u)) u B own"

text \<open>A block that was not in use is in use afterwards.\<close>

definition takes :: "nat \<Rightarrow> uheap \<Rightarrow> u32 set \<Rightarrow> (u32 \<Rightarrow> owner) \<Rightarrow> u32 \<Rightarrow> nat \<Rightarrow> uheap \<Rightarrow> u32 set \<Rightarrow> (u32 \<Rightarrow> owner) \<Rightarrow> bool" where
  "takes start u B own b n u' B' own' \<longleftrightarrow> b \<in> B' \<and> own' b = Live \<and> (b \<in> B \<longrightarrow> own b \<noteq> Live) \<and> n \<le> bsize u' b \<and>
     keeps start u B own u' B' own'"

lemma new_break_up:
  assumes "unat inc < 2147483648" "unat brk + unat inc < 4294967296"
  shows "new_break brk inc = brk + inc" "unat (new_break brk inc) = unat brk + unat inc"
proof -
  have "int (unat inc) < 2147483648" using assms(1) by linarith
  then have "- 2147483648 \<le> uint inc" "uint inc < 2147483648" using uint_ge_0 [of inc] by (linarith, simp)
  then have "sint inc = uint inc" unfolding sint_uint by (simp add: signed_take_bit_int_eq_self)
  then show n: "new_break brk inc = brk + inc" by (simp add: new_break_def)
  show "unat (new_break brk inc) = unat brk + unat inc" unfolding n by (rule unat_add_small [OF assms(2)])
qed

lemma break_simps [simp]:
  "bsize (u\<lparr>u_break := brk\<rparr>) b = bsize u b" "owned_ok (u\<lparr>u_break := brk\<rparr>) k b = owned_ok u k b"
  "in_place start used (u\<lparr>u_break := brk\<rparr>) b = in_place start used u b" "apart (u\<lparr>u_break := brk\<rparr>) b c = apart u b c"
  "listed (u\<lparr>u_break := brk\<rparr>) p S = listed u p S"
  by (cases k; simp add: bsize_def owned_ok_def in_place_def apart_def listed_def)+

lemma uinv_more_break:
  assumes "uinv start used u B own" "unat (u_break u) \<le> unat brk" "unat brk \<le> mmap_start"
  shows "uinv start used (u\<lparr>u_break := brk\<rparr>) B own"
  using assms by (simp add: uinv_def)

lemma keeps_own: "keeps start u B own (u\<lparr>u_break := brk\<rparr>) B own"
  by (simp add: keeps_def bsize_def)

lemma keeps_change:
  assumes "uinv start used u B own" "touches_header b u u'" "b \<in> B" "own b \<noteq> Live"
  shows "keeps start u B own u' B (own(b := k))"
  using assms(2-4) touches_headerD(1,3,4) [OF assms(2,1,3)] by (auto simp: keeps_def touches_header_def)

lemma take_small:
  assumes "uinv start used u B own" "ci < 10" "mem_free_lists u ! ci = b" "b \<noteq> 0" "used = unat (u_break u)"
    and "u' = u\<lparr>mem_free_lists := (mem_free_lists u)[ci := blk_next (um u) b], um := set_flags b MEM_USED (um u)\<rparr>"
  shows "uheap_ok start u' B (own(b := Live)) \<and> takes start u B own b (16 * 2 ^ ci) u' B (own(b := Live))"
proof -
  note p = pop_small [OF assms(1-4,6)]
  have o: "own b \<noteq> Live" using p by simp
  have "owned_ok u (own b) b" using p assms(1) by (auto simp: uinv_def)
  then have "bsize u' b = 16 * 2 ^ ci" using p touches_headerD(1) [of b u u' start used B own b] assms(1) by (simp add: owned_ok_def)
  moreover have "u_break u' = u_break u" by (simp add: assms(6))
  ultimately show ?thesis
    using p o keeps_change [OF assms(1), of b u' Live] assms(5) by (simp add: takes_def)
qed

lemma mem_alloc_small_ok:
  assumes "uheap_ok start u B own" "ci < 10" "unat (u_break u) + 65536 \<le> mmap_start"
  shows "\<exists>b u' B' own'. mem_alloc_small ci u = (b + 16, u') \<and> uheap_ok start u' B' own' \<and>
    takes start u B own b (16 * 2 ^ ci) u' B' own'"
proof -
  let ?bs = "mem_block_size_for_class ci"
  define u1 where "u1 = (if mem_free_lists u ! ci = 0 then mem_arena_extend_small ci u else u)"
  have "\<exists>B1 own1. uheap_ok start u1 B1 own1 \<and> keeps start u B own u1 B1 own1 \<and> mem_free_lists u1 ! ci \<noteq> 0 \<and>
    (\<forall>c\<in>B1 - B. own1 c \<noteq> Live) \<and> (\<forall>c\<in>B. own1 c = own c)"
  proof (cases "mem_free_lists u ! ci = 0")
    case False
    then show ?thesis using assms(1) keeps_refl [of start u B own] unfolding u1_def by auto
  next
    case True
    have bs: "unat ?bs = 16 * 2 ^ ci" "16 * 2 ^ ci \<le> (8192 :: nat)" using class_sizes(1,2) [OF assms(2)] by simp_all
    have bs8: "unat (?bs * 8) = 8 * unat ?bs" using bs by (subst unat_mul_small) simp_all
    let ?brk = "u_break u + ?bs * 8"
    have le: "unat (?bs * 8) \<le> 65536" using bs bs8 by linarith
    have ms: "mmap_start = 117440512" by (simp add: mmap_start_def)
    have nb: "new_break (u_break u) (?bs * 8) = ?brk" "unat ?brk = unat (u_break u) + 8 * unat ?bs"
      using new_break_up [of "?bs * 8" "u_break u"] le assms(3) bs8 ms by simp_all
    have ext: "mem_arena_extend_small ci u = carve ci ?bs (u_break u) 0 8 (u\<lparr>u_break := ?brk\<rparr>)"
    proof -
      have "u_break u \<noteq> 0xFFFFFFFF" using assms(3) ms by auto
      then show ?thesis by (simp add: mem_arena_extend_small_def mem_sbrk_def nb(1) Let_def)
    qed
    have "uinv start (unat (u_break u)) (u\<lparr>u_break := ?brk\<rparr>) B own"
      using nb(2) le bs8 assms(3) by (intro uinv_more_break [OF assms(1)]) simp_all
    from carve_ok [OF this assms(2) refl, of "u_break u" 0 8] nb(2) obtain B1 own1 where c:
      "uinv start (unat (u_break u) + 8 * unat ?bs) (carve ci ?bs (u_break u) 0 8 (u\<lparr>u_break := ?brk\<rparr>)) B1 own1"
      "keeps start (u\<lparr>u_break := ?brk\<rparr>) B own (carve ci ?bs (u_break u) 0 8 (u\<lparr>u_break := ?brk\<rparr>)) B1 own1"
      "u_break (carve ci ?bs (u_break u) 0 8 (u\<lparr>u_break := ?brk\<rparr>)) = ?brk"
      "mem_free_lists (carve ci ?bs (u_break u) 0 8 (u\<lparr>u_break := ?brk\<rparr>)) ! ci \<noteq> 0"
      "\<forall>c\<in>B1 - B. own1 c \<noteq> Live" "\<forall>c\<in>B. own1 c = own c" by auto
    have u1: "u1 = carve ci ?bs (u_break u) 0 8 (u\<lparr>u_break := ?brk\<rparr>)" using True ext by (simp add: u1_def)
    have "keeps start u B own u1 B1 own1" unfolding u1 by (rule keeps_trans [OF keeps_own c(2)])
    moreover have "uheap_ok start u1 B1 own1" unfolding u1 c(3) using c(1) nb(2) by simp
    ultimately show ?thesis using c(4-6) unfolding u1 by blast
  qed
  then obtain B1 own1 where u1: "uheap_ok start u1 B1 own1" "keeps start u B own u1 B1 own1" "mem_free_lists u1 ! ci \<noteq> 0"
    "\<forall>c\<in>B1 - B. own1 c \<noteq> Live" "\<forall>c\<in>B. own1 c = own c" by blast
  let ?b = "mem_free_lists u1 ! ci"
  let ?u' = "u1\<lparr>mem_free_lists := (mem_free_lists u1)[ci := blk_next (um u1) ?b], um := set_flags ?b MEM_USED (um u1)\<rparr>"
  have t: "uheap_ok start ?u' B1 (own1(?b := Live))" "takes start u1 B1 own1 ?b (16 * 2 ^ ci) ?u' B1 (own1(?b := Live))"
    using take_small [OF u1(1) assms(2) refl u1(3) refl refl] by blast+
  have "takes start u B own ?b (16 * 2 ^ ci) ?u' B1 (own1(?b := Live))"
    using t(2) keeps_trans [OF u1(2)] u1(5) by (auto simp: takes_def)
  moreover have "mem_alloc_small ci u = (?b + 16, ?u')"
    unfolding mem_alloc_small_def Let_def u1_def [symmetric] using u1(3) by (simp add: MEM_HEADER_def)
  ultimately show ?thesis using t(1) by blast
qed

text \<open>A block cut off behind the arena or mapped, in use from the start.\<close>

lemma fresh_block:
  assumes "uheap_ok start u B own" "16 \<le> unat n" "unat base + unat n < 4294967296" "fl = MEM_USED \<and> 8192 < unat n \<or> fl = MEM_MMAP"
    and "u1 = u\<lparr>u_break := brk, u_mmap := mm\<rparr>"
    and "base = u_break u \<and> unat brk = unat base + unat n \<and> unat brk \<le> mmap_start \<and> mm = u_mmap u \<or>
         base = u_mmap u \<and> unat base + unat n \<le> unat mm \<and> brk = u_break u"
    and "u' = u1\<lparr>um := set_flags base fl (set_size base n (um u1))\<rparr>"
  shows "uheap_ok start u' (insert base B) (own(base := Live)) \<and> takes start u B own base (unat n) u' (insert base B) (own(base := Live))"
proof -
  have u0: "0 < start" "length (mem_free_lists u) = 10" "unat (u_break u) \<le> mmap_start" "mmap_start \<le> unat (u_mmap u)"
    using assms(1) by (simp_all add: uinv_def)
  have b12: "unat base + 12 \<le> 4294967296" using assms(2,3) by linarith
  note h = header_fields [OF b12]
  have m: "unat (u_break u) \<le> unat brk" "unat brk \<le> mmap_start" "u_mmap u \<le> mm"
    using assms(2,6) u0 by (auto simp: word_le_nat_alt)
  have "base \<notin> B \<and> uinv start (unat brk) u' (insert base B) (own(base := Live)) \<and> u_mmap u \<le> u_mmap u' \<and>
    (\<forall>a. unat a < start \<or> unat (u_mmap u') \<le> unat a \<longrightarrow> um u' a = um u a) \<and>
    (\<forall>c\<in>B. bsize u' c = bsize u c \<and> (\<forall>a\<in>payload u c. um u' a = um u a))"
  proof (rule add_block [OF assms(1,2,3)])
    show "unat (u_break u) \<le> unat base \<and> unat base + unat n \<le> unat brk \<or>
         unat (u_mmap u) \<le> unat base \<and> unat base + unat n \<le> unat (u_mmap u') \<and> unat brk = unat (u_break u)"
      using assms(6) by (auto simp: assms(5,7))
    show "um u' a = um u a" if "a \<notin> span base 12" for a using set_outside [OF b12 that] by (simp add: assms(5,7))
    show "bsize u' base = unat n" using h by (simp add: bsize_def assms(5,7))
    show "owned_ok u' Live base" using h assms(4) by (auto simp: owned_ok_def bsize_def assms(5,7))
  next
    fix cj :: nat
    assume cj: "cj < 10" and nx: "\<And>c. c \<in> B \<Longrightarrow> blk_next (um u') c = blk_next (um u) c" and nb: "base \<notin> B"
    have lj: "listed u (mem_free_lists u ! cj) {c\<in>B. own c = Small cj}" using assms(1) cj by (simp add: uinv_def)
    have same: "((own(base := Live)) c = Small cj) = (own c = Small cj)" if "c \<in> B" for c using that nb by auto
    show "listed u' (mem_free_lists u' ! cj) {c\<in>insert base B. (own(base := Live)) c = Small cj}"
      using listed_insert(1) [OF lj nx nb same] by (simp add: assms(5,7))
  next
    assume nx: "\<And>c. c \<in> B \<Longrightarrow> blk_next (um u') c = blk_next (um u) c" and nb: "base \<notin> B"
    have ll: "listed u (mem_large_free u) {c\<in>B. own c = Large}" using assms(1) by (simp add: uinv_def)
    have same: "((own(base := Live)) c = Large) = (own c = Large)" if "c \<in> B" for c using that nb by auto
    show "listed u' (mem_large_free u') {c\<in>insert base B. (own(base := Live)) c = Large}"
      using listed_insert(1) [OF ll nx nb same] by (simp add: assms(5,7))
  qed (use m u0 in \<open>simp_all add: assms(5,7)\<close>)
  moreover have "bsize u' base = unat n" using h by (simp add: bsize_def assms(5,7))
  moreover have "u_break u' = brk" by (simp add: assms(5,7))
  ultimately show ?thesis by (auto simp: takes_def keeps_def)
qed

lemma mem_alloc_large_ok:
  assumes "uheap_ok start u B own" "8192 < unat need" "unat need < 65536" "unat (u_break u) + 65536 \<le> mmap_start"
  shows "\<exists>b u' B' own'. mem_alloc_large need u = Inr (b + 16, u') \<and> uheap_ok start u' B' own' \<and>
    takes start u B own b (unat need) u' B' own'"
proof -
  have "listed u (mem_large_free u) {c\<in>B. own c = Large}" using assms(1) by (simp add: uinv_def)
  then obtain xs where xs: "mchain (um u) (mem_large_free u) xs" "distinct xs" "set xs = {c\<in>B. own c = Large}"
    by (auto simp: listed_def)
  from large_find_chain [OF xs(1), of need 0] consider q where "large_find (um u) need 0 (mem_large_free u) = Some (q, 0)"
    | us b ys where "xs = us @ b # ys" "need \<le> blk_size (um u) b"
      "large_find (um u) need 0 (mem_large_free u) = Some (if us = [] then 0 else last us, b)" by blast
  then show ?thesis
  proof cases
    case 1
    let ?brk = "u_break u + need"
    have ms: "mmap_start = 117440512" by (simp add: mmap_start_def)
    have nb: "new_break (u_break u) need = ?brk" "unat ?brk = unat (u_break u) + unat need"
      using new_break_up [of need "u_break u"] assms(3,4) ms by simp_all
    have "u_break u \<noteq> 0xFFFFFFFF" using assms(4) ms by auto
    moreover have "u\<lparr>u_break := ?brk, u_mmap := u_mmap u\<rparr> = u\<lparr>u_break := ?brk\<rparr>" by simp
    ultimately have "mem_alloc_large need u = Inr (u_break u + 16, (u\<lparr>u_break := ?brk, u_mmap := u_mmap u\<rparr>)\<lparr>um :=
        set_flags (u_break u) MEM_USED (set_size (u_break u) need (um (u\<lparr>u_break := ?brk, u_mmap := u_mmap u\<rparr>)))\<rparr>)"
      using 1 by (simp add: mem_alloc_large_def mem_sbrk_def nb(1) MEM_HEADER_def)
    moreover have "uheap_ok start ((u\<lparr>u_break := ?brk, u_mmap := u_mmap u\<rparr>)\<lparr>um :=
        set_flags (u_break u) MEM_USED (set_size (u_break u) need (um (u\<lparr>u_break := ?brk, u_mmap := u_mmap u\<rparr>)))\<rparr>)
        (insert (u_break u) B) (own(u_break u := Live)) \<and>
      takes start u B own (u_break u) (unat need) ((u\<lparr>u_break := ?brk, u_mmap := u_mmap u\<rparr>)\<lparr>um :=
        set_flags (u_break u) MEM_USED (set_size (u_break u) need (um (u\<lparr>u_break := ?brk, u_mmap := u_mmap u\<rparr>)))\<rparr>)
        (insert (u_break u) B) (own(u_break u := Live))"
      by (rule fresh_block [OF assms(1) _ _ _ refl _ refl]) (use assms(2-4) nb(2) ms in auto)
    ultimately show ?thesis by blast
  next
    case 2
    let ?u1 = "if us = [] then u\<lparr>mem_large_free := blk_next (um u) b\<rparr> else u\<lparr>um := set_next (last us) (blk_next (um u) b) (um u)\<rparr>"
    let ?u' = "?u1\<lparr>um := set_flags b MEM_USED (um ?u1)\<rparr>"
    note p = pop_large [OF assms(1) xs(1) [unfolded 2(1)] xs(2) [unfolded 2(1)] xs(3) [unfolded 2(1)] refl refl]
    have bB: "b \<in> B" "own b = Large" using p by blast+
    have nz: "b \<noteq> 0" by (rule uinv_block(4) [OF assms(1) bB(1)])
    have lz: "last us \<noteq> 0" if "us \<noteq> []"
      using xs(3) last_in_set [OF that] uinv_block(4) [OF assms(1), of "last us"] by (auto simp: 2(1))
    have "mem_alloc_large need u = Inr (b + 16, ?u')"
      using 2(3) nz lz by (cases "us = []") (simp_all add: mem_alloc_large_def MEM_HEADER_def)
    moreover have "u_break ?u' = u_break u" by simp
    moreover have "takes start u B own b (unat need) ?u' B (own(b := Live))"
      using p 2(2) by (auto simp: takes_def keeps_def bsize_def word_le_nat_alt)
    ultimately show ?thesis using p by metis
  qed
qed

lemma mmap_pages_enough:
  assumes "unat n + 4095 < 4294967296" "unat mm + unat n + 4096 < 4294967296"
  shows "unat mm + unat n \<le> unat (mm + mmap_pages n * 4096)"
proof -
  have "unat (n + 0xFFF) = unat n + 4095" using assms(1) unat_add_small [of n "0xFFF"] by simp
  then have p: "unat (mmap_pages n) = (unat n + 4095) div 4096"
    by (simp add: mmap_pages_def unsigned_drop_bit_eq drop_bit_eq_div unat_div)
  have d: "unat n \<le> (unat n + 4095) div 4096 * 4096" "(unat n + 4095) div 4096 * 4096 \<le> unat n + 4095" by linarith+
  have "unat (mmap_pages n * 4096) = unat (mmap_pages n) * 4096"
    using d(2) assms p by (subst unat_mul_small) simp_all
  then show ?thesis using d assms(2) p by (subst unat_add_small) simp_all
qed

lemma malloc_ok:
  assumes "uheap_ok start u B own" "umem_room sz u"
  shows "\<exists>b u' B' own'. malloc sz u = Inr (b + 16, u') \<and> uheap_ok start u' B' own' \<and>
    takes start u B own b (unat sz + 16) u' B' own'"
proof -
  define need where "need = (if sz = 0 then 1 else sz) + MEM_HEADER"
  have "unat (if sz = 0 then 1 else sz) = max 1 (unat sz)" by (auto simp: max_def unat_gt_0 Suc_le_eq)
  then have n: "unat need = max 1 (unat sz) + 16"
    using assms(2) unfolding need_def MEM_HEADER_def by (subst unat_add_small) (simp_all add: umem_room_def Let_def)
  have rm: "if unat need < 65536 then unat (u_break u) + 65536 \<le> mmap_start
      else unat (u_mmap u) + unat need + 4096 < 4294967296"
    using assms(2) unfolding umem_room_def Let_def n by blast
  have weaken: "takes start u B own b (unat sz + 16) u' B' own'" if "takes start u B own b k u' B' own'" "unat need \<le> k" for b k u' B' own'
  proof -
    have "unat sz \<le> max 1 (unat sz)" by simp
    then have "unat sz + 16 \<le> k" using that(2) n by linarith
    then show ?thesis using that(1) by (simp add: takes_def)
  qed
  have thr: "need \<ge> MEM_MMAP_THRESHOLD \<longleftrightarrow> 65536 \<le> unat need" by (simp add: MEM_MMAP_THRESHOLD_def word_le_nat_alt)
  show ?thesis
  proof (cases "65536 \<le> unat need")
    case True
    let ?mm = "u_mmap u + mmap_pages need * 4096"
    have room: "unat (u_mmap u) + unat need + 4096 < 4294967296" using rm True by simp
    have mm: "unat (u_mmap u) + unat need \<le> unat ?mm" using room by (intro mmap_pages_enough) linarith+
    have "u_mmap u \<noteq> 0" using assms(1) by (auto simp: uinv_def mmap_start_def)
    moreover have "u\<lparr>u_break := u_break u, u_mmap := ?mm\<rparr> = u\<lparr>u_mmap := ?mm\<rparr>" by simp
    ultimately have "malloc sz u = Inr (u_mmap u + 16, (u\<lparr>u_break := u_break u, u_mmap := ?mm\<rparr>)\<lparr>um :=
        set_flags (u_mmap u) MEM_MMAP (set_size (u_mmap u) need (um (u\<lparr>u_break := u_break u, u_mmap := ?mm\<rparr>)))\<rparr>)"
      using True thr unfolding malloc_def need_def [symmetric] Let_def mem_mmap_def by (simp add: MEM_HEADER_def)
    moreover have "uheap_ok start ((u\<lparr>u_break := u_break u, u_mmap := ?mm\<rparr>)\<lparr>um :=
        set_flags (u_mmap u) MEM_MMAP (set_size (u_mmap u) need (um (u\<lparr>u_break := u_break u, u_mmap := ?mm\<rparr>)))\<rparr>)
        (insert (u_mmap u) B) (own(u_mmap u := Live)) \<and>
      takes start u B own (u_mmap u) (unat need) ((u\<lparr>u_break := u_break u, u_mmap := ?mm\<rparr>)\<lparr>um :=
        set_flags (u_mmap u) MEM_MMAP (set_size (u_mmap u) need (um (u\<lparr>u_break := u_break u, u_mmap := ?mm\<rparr>)))\<rparr>)
        (insert (u_mmap u) B) (own(u_mmap u := Live))"
      by (rule fresh_block [OF assms(1) _ _ _ refl _ refl]) (use True mm room in auto)
    ultimately show ?thesis using weaken by blast
  next
    case False
    then have brk: "unat (u_break u) + 65536 \<le> mmap_start" using rm by simp
    have m: "malloc sz u = (case mem_class_index need of Some ci \<Rightarrow> Inr (mem_alloc_small ci u) | None \<Rightarrow> mem_alloc_large need u)"
      using False thr unfolding malloc_def need_def [symmetric] Let_def by simp
    show ?thesis
    proof (cases "mem_class_index need")
      case None
      then have "8192 < unat need" by (simp add: class_none)
      then show ?thesis using mem_alloc_large_ok [OF assms(1) _ _ brk, of need] False weaken m None by fastforce
    next
      case (Some ci)
      then have ci: "ci < 10" "unat need \<le> 16 * 2 ^ ci" using class_fits [OF Some] by simp_all
      from mem_alloc_small_ok [OF assms(1) ci(1) brk] obtain b u' B' own' where
        "mem_alloc_small ci u = (b + 16, u')" "uheap_ok start u' B' own'" "takes start u B own b (16 * 2 ^ ci) u' B' own'" by blast
      moreover from this have "malloc sz u = Inr (b + 16, u')" using m Some by simp
      ultimately show ?thesis using weaken [OF _ ci(2)] by blast
    qed
  qed
qed

lemma ufree_ok:
  assumes "uheap_ok start u B own" "b \<in> B" "own b = Live"
  shows "\<exists>B' own'. uheap_ok start (ufree (b + 16) u) B' own' \<and> keeps start u (B - {b}) own (ufree (b + 16) u) B' own'"
proof -
  have o: "owned_ok u Live b" using assms by (auto simp: uinv_def)
  note h = header_fields [OF uinv_block(3) [OF assms(1,2)]]
  have p: "b + 16 \<noteq> 0" "b + 16 - MEM_HEADER = b" using uinv_strict(3) [OF assms(1,2)] by (simp_all add: MEM_HEADER_def)
  show ?thesis
  proof (cases "blk_flags (um u) b = MEM_MMAP")
    case True
    have f: "ufree (b + 16) u = u" using p True by (simp add: ufree_def Let_def mem_munmap_def MEM_MMAP_def)
    have "listed u q {c\<in>B - {b}. own c = k}" if "k \<noteq> Live" "listed u q {c\<in>B. own c = k}" for q k
    proof -
      have "{c\<in>B - {b}. own c = k} = {c\<in>B. own c = k}" using that(1) assms(3) by auto
      then show ?thesis using that(2) by simp
    qed
    then have "uheap_ok start u (B - {b}) own" using assms(1) by (simp add: uinv_def)
    then show ?thesis unfolding f using keeps_refl by blast
  next
    case False
    then have fl: "blk_flags (um u) b = MEM_USED" and cls: "(\<exists>ci<10. bsize u b = 16 * 2 ^ ci) \<or> 8192 < bsize u b"
      using o by (auto simp: owned_ok_def)
    have nm: "MEM_USED AND MEM_MMAP = 0" by (simp add: MEM_USED_def MEM_MMAP_def)
    have f: "ufree (b + 16) u = (case mem_class_index (blk_size (um u) b) of
        Some ci \<Rightarrow> u\<lparr>um := set_next b (mem_free_lists u ! ci) (set_flags b MEM_FREE (um u)), mem_free_lists := (mem_free_lists u)[ci := b]\<rparr>
      | None \<Rightarrow> u\<lparr>um := set_next b (mem_large_free u) (set_flags b MEM_FREE (um u)), mem_large_free := b\<rparr>)"
      using p(1) fl nm h unfolding ufree_def Let_def p(2) by (simp split: option.split)
    have keep: "keeps start u (B - {b}) own u' B (own(b := k))" if "touches_header b u u'" for u' k
      using that touches_headerD(1,3,4) [OF that assms(1,2)] by (auto simp: keeps_def touches_header_def)
    from cls consider ci where "ci < 10" "bsize u b = 16 * 2 ^ ci" | "8192 < bsize u b" by blast
    then show ?thesis
    proof cases
      case 1
      then have c: "mem_class_index (blk_size (um u) b) = Some ci" using class_sizes(3) [OF 1(1)] by (simp add: bsize_def)
      note push = push_small [OF assms(1-3) 1 refl]
      then show ?thesis unfolding f c option.case using keep by (intro exI [of _ B] exI [of _ "own(b := Small ci)"]) simp
    next
      case 2
      then have c: "mem_class_index (blk_size (um u) b) = None" by (simp add: class_none bsize_def)
      note push = push_large [OF assms(1-3) 2 refl]
      then show ?thesis unfolding f c option.case using keep by (intro exI [of _ B] exI [of _ "own(b := Large)"]) simp
    qed
  qed
qed

section \<open>\<open>calloc\<close> and \<open>realloc\<close>\<close>

lemma payload_at:
  assumes "uinv start used u B own" "b \<in> B" "n + 16 \<le> bsize u b" "i < n"
  shows "b + 16 + of_nat i \<in> payload u b" "unat (b + 16 + of_nat i) = unat b + 16 + i"
proof -
  note s = uinv_strict [OF assms(1,2)]
  show u: "unat (b + 16 + of_nat i) = unat b + 16 + i"
    using s assms(3,4) unat_add_nat [of "b + 16" i] by simp
  show "b + 16 + of_nat i \<in> payload u b" unfolding payload_def using u assms(3,4) by simp
qed

lemma uinv_store:
  assumes "uinv start used u B own" "b \<in> B" "\<And>a. a \<notin> payload u b \<Longrightarrow> m a = um u a"
  shows "uinv start used (u\<lparr>um := m\<rparr>) B own" "c \<in> B \<Longrightarrow> bsize (u\<lparr>um := m\<rparr>) c = bsize u c"
proof -
  let ?u' = "u\<lparr>um := m\<rparr>"
  have hd: "blk_size (um ?u') c = blk_size (um u) c \<and> blk_flags (um ?u') c = blk_flags (um u) c \<and> blk_next (um ?u') c = blk_next (um u) c"
    if "c \<in> B" for c
  proof -
    have e: "um ?u' x = um u x" if "x \<in> span c 12" for x
      using payload_header [OF assms(1) \<open>c \<in> B\<close> assms(2)] assms(3) [of x] that by auto
    show ?thesis using header_cong [OF uinv_block(3) [OF assms(1) that], of "um ?u'" "um u"] e by blast
  qed
  then have sz: "bsize ?u' c = bsize u c" if "c \<in> B" for c using that by (simp add: bsize_def)
  then show "c \<in> B \<Longrightarrow> bsize ?u' c = bsize u c" .
  have ls: "listed ?u' p {c\<in>B. P c} = listed u p {c\<in>B. P c}" for p P
    by (rule listed_cong) (use hd in auto)
  have ow: "owned_ok ?u' (own c) c \<longleftrightarrow> owned_ok u (own c) c" "in_place start used ?u' c \<longleftrightarrow> in_place start used u c" if "c \<in> B" for c
    using hd [OF that] sz [OF that] by (auto simp: owned_ok_def in_place_def split: owner.splits)
  have ap: "apart ?u' c d = apart u c d" if "c \<in> B" "d \<in> B" for c d using sz that by (simp add: apart_def)
  have f: "u_break ?u' = u_break u" "u_mmap ?u' = u_mmap u" "mem_free_lists ?u' = mem_free_lists u" "mem_large_free ?u' = mem_large_free u"
    by simp_all
  show "uinv start used ?u' B own"
    using assms(1) unfolding uinv_def f ls using ow ap by (metis (no_types, lifting))
qed

lemma payload_cong: "bsize u' b = bsize u b \<Longrightarrow> payload u' b = payload u b"
  by (simp add: payload_def)

text \<open>Writing to one block leaves what the others hold.\<close>

lemma store_keeps:
  assumes "uinv start used u B own" "b \<in> B" "\<And>a. a \<notin> payload u b \<Longrightarrow> m a = um u a"
  shows "keeps start u (B - {b}) own (u\<lparr>um := m\<rparr>) B own"
proof -
  have "m a = um u a" if "c \<in> B" "c \<noteq> b" "a \<in> payload u c" for a c
  proof (rule assms(3))
    show "a \<notin> payload u b" using uinv_apart [OF assms(1) that(1) assms(2) that(2)] that(3) by (auto simp: payload_def apart_def)
  qed
  moreover have "bsize (u\<lparr>um := m\<rparr>) c = bsize u c" if "c \<in> B" for c by (rule uinv_store(2) [OF assms that])
  moreover have "m a = um u a" if "unat a < start \<or> unat (u_mmap u) \<le> unat a" for a
    using that assms(3) in_front(2) [OF assms(1,2)] above_all(2) [OF assms(1,2)] by blast
  ultimately show ?thesis unfolding keeps_def by auto
qed

lemma payload_inj:
  assumes "uinv start used u B own" "b \<in> B" "n + 16 \<le> bsize u b" "i < n" "j < n" "b + 16 + of_nat i = b + 16 + of_nat j"
  shows "i = j"
proof -
  have "unat b + 16 + i = unat b + 16 + j"
    unfolding payload_at(2) [OF assms(1-4), symmetric] payload_at(2) [OF assms(1-3,5), symmetric] by (rule arg_cong [OF assms(6)])
  then show ?thesis by simp
qed

lemma kmemset_other:
  "(\<And>i. i < n \<Longrightarrow> a \<noteq> d + of_nat i) \<Longrightarrow> kmemset m d v n a = m a"
proof (induction n arbitrary: m d)
  case (Suc n)
  have "kmemset (m(d := v)) (d + 1) v n a = (m(d := v)) a"
  proof (rule Suc.IH)
    fix i assume "i < n"
    then show "a \<noteq> d + 1 + of_nat i" using Suc.prems [of "Suc i"] by (simp add: algebra_simps)
  qed
  then show ?case using Suc.prems [of 0] by simp
qed simp

lemma kmemset_sets:
  "i < n \<Longrightarrow> kmemset m d v n (d + of_nat i) = v"
proof (induction n arbitrary: m d i)
  case (Suc n)
  show ?case
  proof (cases i)
    case 0
    have "kmemset (m(d := v)) (d + 1) v n d = v"
    proof (cases "\<exists>j<n. d = d + 1 + of_nat j")
      case True
      then obtain j where j: "j < n" "d = d + 1 + of_nat j" by blast
      have "kmemset (m(d := v)) (d + 1) v n (d + 1 + of_nat j) = v" by (rule Suc.IH [OF j(1)])
      then show ?thesis unfolding j(2) [symmetric] .
    next
      case False
      then have "kmemset (m(d := v)) (d + 1) v n d = (m(d := v)) d" by (intro kmemset_other) blast
      then show ?thesis by simp
    qed
    then show ?thesis using 0 by simp
  next
    case (Suc i')
    have "kmemset (m(d := v)) (d + 1) v n (d + 1 + of_nat i') = v" by (rule Suc.IH) (use Suc.prems Suc in simp)
    then show ?thesis unfolding Suc by (simp only: kmemset.simps of_nat_Suc add.assoc)
  qed
qed simp

lemma takes_then:
  assumes "takes start u B own b n u1 B1 own1" "keeps start u1 (B1 - {b}) own1 u2 B2 own2" "b \<in> B2" "own2 b = Live" "bsize u2 b = bsize u1 b"
  shows "takes start u B own b n u2 B2 own2"
proof -
  have t: "b \<in> B \<Longrightarrow> own b \<noteq> Live" "n \<le> bsize u1 b" "keeps start u B own u1 B1 own1" using assms(1) by (auto simp: takes_def)
  have "keeps start u B own u2 B2 own2"
    unfolding keeps_def
  proof (intro conjI allI ballI impI)
    show "u_mmap u \<le> u_mmap u2" using t(3) assms(2) by (auto simp: keeps_def)
    fix a :: u32 assume a: "unat a < start \<or> unat (u_mmap u2) \<le> unat a"
    have "unat (u_mmap u1) \<le> unat (u_mmap u2)" using assms(2) by (simp add: keeps_def word_le_nat_alt)
    then have "unat a < start \<or> unat (u_mmap u1) \<le> unat a" using a by auto
    then have "um u1 a = um u a" using t(3) unfolding keeps_def by blast
    moreover have "um u2 a = um u1 a" using assms(2) a unfolding keeps_def by blast
    ultimately show "um u2 a = um u a" by simp
  next
    fix c assume c: "c \<in> B" "own c = Live"
    then have 1: "c \<in> B1 - {b}" "own1 c = Live" "bsize u1 c = bsize u c" "\<forall>a\<in>payload u c. um u1 a = um u a"
      using t(1,3) by (auto simp: keeps_def)
    then have "c \<in> B2 \<and> own2 c = Live \<and> bsize u2 c = bsize u1 c \<and> (\<forall>a\<in>payload u1 c. um u2 a = um u1 a)"
      using assms(2) unfolding keeps_def by blast
    then have "c \<in> B2 \<and> own2 c = Live \<and> bsize u2 c = bsize u c \<and> (\<forall>a\<in>payload u c. um u2 a = um u a)"
      using 1(3,4) payload_cong [OF 1(3)] by simp
    then show "c \<in> B2" "own2 c = Live" "bsize u2 c = bsize u c" "\<And>a. a \<in> payload u c \<Longrightarrow> um u2 a = um u a" by simp_all
  qed
  then show ?thesis using t(1,2) assms(3-5) by (simp add: takes_def)
qed

lemma release_keeps:
  assumes "takes start u (B - {b}) own c n u1 B1 own1" "keeps start u1 (B1 - {b}) own1 u2 B2 own2"
    and "c \<in> B2" "own2 c = Live" "bsize u2 c = bsize u1 c"
  shows "takes start u (B - {b}) own c n u2 B2 own2"
proof -
  have "keeps start u (B - {b}) own u1 (B1 - {b}) own1" using assms(1) by (auto simp: takes_def keeps_def)
  from keeps_trans [OF this assms(2)] show ?thesis using assms(1,3-5) by (simp add: takes_def)
qed

lemma calloc_ok:
  assumes "uheap_ok start u B own" "umem_room (cnt * sz) u"
  shows "\<exists>b u' B' own'. calloc cnt sz u = Inr (b + 16, u') \<and> uheap_ok start u' B' own' \<and>
    takes start u B own b (unat (cnt * sz) + 16) u' B' own' \<and> (\<forall>i<unat (cnt * sz). um u' (b + 16 + of_nat i) = 0)"
proof -
  let ?n = "unat (cnt * sz)"
  from malloc_ok [OF assms] obtain b u1 B1 own1 where
    m: "malloc (cnt * sz) u = Inr (b + 16, u1)" "uheap_ok start u1 B1 own1" "takes start u B own b (?n + 16) u1 B1 own1" by blast
  have b: "b \<in> B1" "own1 b = Live" "?n + 16 \<le> bsize u1 b" using m(3) by (auto simp: takes_def)
  let ?m = "kmemset (um u1) (b + 16) 0 ?n" and ?u' = "u1\<lparr>um := kmemset (um u1) (b + 16) 0 ?n\<rparr>"
  have out: "?m a = um u1 a" if "a \<notin> payload u1 b" for a
    by (rule kmemset_other) (use payload_at(1) [OF m(2) b(1,3)] that in auto)
  have "keeps start u1 (B1 - {b}) own1 ?u' B1 own1" by (rule store_keeps [OF m(2) b(1) out])
  moreover have "bsize ?u' b = bsize u1 b" by (rule uinv_store(2) [OF m(2) b(1) out b(1)])
  ultimately have "takes start u B own b (?n + 16) ?u' B1 own1" using takes_then [OF m(3)] b(1,2) by blast
  moreover have "uinv start (unat (u_break u1)) ?u' B1 own1" by (rule uinv_store(1) [OF m(2) b(1) out])
  then have "uheap_ok start ?u' B1 own1" by simp
  moreover have "calloc cnt sz u = Inr (b + 16, ?u')"
    unfolding calloc_def Let_def m(1) using uinv_strict(3) [OF m(2) b(1)] by simp
  moreover have "\<forall>i<?n. um ?u' (b + 16 + of_nat i) = 0" by (simp add: kmemset_sets)
  ultimately show ?thesis by blast
qed

lemma realloc_ok:
  assumes "uheap_ok start u B own" "umem_room sz u" "b \<in> B" "own b = Live" "sz \<noteq> 0"
  shows "\<exists>c u' B' own'. urealloc (b + 16) sz u = Inr (c + 16, u') \<and> uheap_ok start u' B' own' \<and>
    takes start u (B - {b}) own c (unat sz + 16) u' B' own' \<and>
    (\<forall>i. i + 16 < bsize u b \<longrightarrow> i < unat sz \<longrightarrow> um u' (c + 16 + of_nat i) = um u (b + 16 + of_nat i))"
proof -
  have p: "b + 16 \<noteq> 0" "b + 16 - MEM_HEADER = b" using uinv_strict(3) [OF assms(1,3)] by (simp_all add: MEM_HEADER_def)
  let ?old = "blk_size (um u) b - MEM_HEADER"
  have "(16 :: u32) \<le> blk_size (um u) b" using uinv_block(2) [OF assms(1,3)] by (simp add: bsize_def word_le_nat_alt)
  then have old: "unat ?old + 16 = bsize u b"
    using uinv_block(2) [OF assms(1,3)] by (simp add: MEM_HEADER_def unat_sub bsize_def)
  show ?thesis
  proof (cases "?old \<ge> sz")
    case True
    then have "unat sz + 16 \<le> bsize u b" using old by (simp add: word_le_nat_alt)
    then have "takes start u (B - {b}) own b (unat sz + 16) u B own" using assms(3,4) by (auto simp: takes_def keeps_def)
    moreover have "urealloc (b + 16) sz u = Inr (b + 16, u)"
      using p assms(5) True unfolding urealloc_def Let_def p(2) by simp
    ultimately show ?thesis using assms(1) by blast
  next
    case False
    then have less: "bsize u b < unat sz + 16" using old by (simp add: word_le_nat_alt)
    from malloc_ok [OF assms(1,2)] obtain c u1 B1 own1 where
      m: "malloc sz u = Inr (c + 16, u1)" "uheap_ok start u1 B1 own1" "takes start u B own c (unat sz + 16) u1 B1 own1" by blast
    have c: "c \<in> B1" "own1 c = Live" "unat sz + 16 \<le> bsize u1 c" "c \<noteq> b" using m(3) assms(3,4) by (auto simp: takes_def)
    have b: "b \<in> B1" "own1 b = Live" "bsize u1 b = bsize u b" "\<forall>a\<in>payload u b. um u1 a = um u a"
      using m(3) assms(3,4) by (auto simp: takes_def keeps_def)
    have oc: "unat ?old + 16 \<le> bsize u1 c" "unat ?old + 16 \<le> bsize u1 b" using c(3) less old b(3) by linarith+
    let ?m = "kmemcpy (um u1) (c + 16) (b + 16) (unat ?old)"
    let ?u2 = "u1\<lparr>um := ?m\<rparr>"
    have out: "?m a = um u1 a" if "a \<notin> payload u1 c" for a
      by (rule kmemcpy_other) (use payload_at(1) [OF m(2) c(1) oc(1)] that in auto)
    have i2: "uheap_ok start ?u2 B1 own1" using uinv_store(1) [OF m(2) c(1) out] by simp
    have sz2: "bsize ?u2 d = bsize u1 d" if "d \<in> B1" for d by (rule uinv_store(2) [OF m(2) c(1) out that])
    have copied: "?m (c + 16 + of_nat i) = um u (b + 16 + of_nat i)" if "i < unat ?old" for i
    proof -
      have "?m (c + 16 + of_nat i) = um u1 (b + 16 + of_nat i)"
      proof (rule kmemcpy_copies [OF _ _ that])
        fix j k assume j: "j < unat ?old" "k < unat ?old"
        have "unat c + bsize u1 c \<le> unat b \<or> unat b + bsize u1 b \<le> unat c"
          using uinv_apart [OF m(2) c(1) b(1) c(4)] by (auto simp: apart_def)
        then have "unat (c + 16 + of_nat j) \<noteq> unat (b + 16 + of_nat k)"
          using payload_at(2) [OF m(2) c(1) oc(1) j(1)] payload_at(2) [OF m(2) b(1) oc(2) j(2)] j oc by linarith
        then show "c + 16 + of_nat j \<noteq> b + 16 + of_nat k" by metis
      qed (rule payload_inj [OF m(2) c(1) oc(1)])
      also have "\<dots> = um u (b + 16 + of_nat i)"
        using b(4) payload_at(1) [OF assms(1,3) _ that] old by simp
      finally show ?thesis .
    qed
    from ufree_ok [OF i2 b(1,2)] obtain B' own' where
      f: "uheap_ok start (ufree (b + 16) ?u2) B' own'" "keeps start ?u2 (B1 - {b}) own1 (ufree (b + 16) ?u2) B' own'" by blast
    have st: "takes start u (B - {b}) own c (unat sz + 16) u1 B1 own1" using m(3) by (auto simp: takes_def keeps_def)
    have t2: "takes start u (B - {b}) own c (unat sz + 16) ?u2 B1 own1"
      using takes_then [OF st store_keeps [OF m(2) c(1) out] c(1,2) sz2 [OF c(1)]] .
    have live: "c \<in> B'" "own' c = Live" "bsize (ufree (b + 16) ?u2) c = bsize ?u2 c"
      "\<forall>a\<in>payload ?u2 c. um (ufree (b + 16) ?u2) a = um ?u2 a"
      using f(2) c(1,2,4) by (auto simp: keeps_def)
    have t3: "takes start u (B - {b}) own c (unat sz + 16) (ufree (b + 16) ?u2) B' own'"
      using t2 f(2) live(1-3) by (rule release_keeps)
    have "um (ufree (b + 16) ?u2) (c + 16 + of_nat i) = um u (b + 16 + of_nat i)" if "i + 16 < bsize u b" for i
    proof -
      have "i < unat ?old" using that old by linarith
      moreover have "c + 16 + of_nat i \<in> payload ?u2 c"
        unfolding payload_cong [OF sz2 [OF c(1)]] by (rule payload_at(1) [OF m(2) c(1) oc(1) calculation])
      ultimately show ?thesis using live(4) copied by simp
    qed
    moreover have "urealloc (b + 16) sz u = Inr (c + 16, ufree (b + 16) ?u2)"
      using p assms(5) False m(1) uinv_strict(3) [OF m(2) c(1)] unfolding urealloc_def Let_def p(2) by simp
    ultimately show ?thesis using f(1) t3 by blast
  qed
qed

section \<open>Runs of a program\<close>

text \<open>
  A program that allocates, frees what it has and stores into it. \<open>L\<close> has the size asked for of every
  pointer in use, \<open>lo\<close> is the break at the start.
\<close>

inductive umem_run :: "nat \<Rightarrow> uheap \<Rightarrow> (u32 \<Rightarrow> nat option) \<Rightarrow> bool" for lo where
  start: "lo = unat (u_break u) \<Longrightarrow> mem_free_lists u = replicate 10 0 \<Longrightarrow> mem_large_free u = 0 \<Longrightarrow> 0 < u_break u \<Longrightarrow>
    unat (u_break u) \<le> mmap_start \<Longrightarrow> unat (u_mmap u) = mmap_start \<Longrightarrow> umem_run lo u Map.empty"
| alloc: "umem_run lo u L \<Longrightarrow> umem_room sz u \<Longrightarrow> malloc sz u = Inr (p, u') \<Longrightarrow> umem_run lo u' (L(p \<mapsto> unat sz))"
| release: "umem_run lo u L \<Longrightarrow> L p = Some n \<Longrightarrow> umem_run lo (ufree p u) (L(p := None))"
| resize: "umem_run lo u L \<Longrightarrow> L p = Some n \<Longrightarrow> umem_room sz u \<Longrightarrow> sz \<noteq> 0 \<Longrightarrow> urealloc p sz u = Inr (q, u') \<Longrightarrow>
    umem_run lo u' ((L(p := None))(q \<mapsto> unat sz))"
| cleared: "umem_run lo u L \<Longrightarrow> umem_room (cnt * sz) u \<Longrightarrow> calloc cnt sz u = Inr (p, u') \<Longrightarrow>
    umem_run lo u' (L(p \<mapsto> unat (cnt * sz)))"
| store: "umem_run lo u L \<Longrightarrow> L p = Some n \<Longrightarrow> i < n \<Longrightarrow> umem_run lo (u\<lparr>um := (um u)(p + of_nat i := v)\<rparr>) L"

definition held :: "uheap \<Rightarrow> u32 set \<Rightarrow> (u32 \<Rightarrow> owner) \<Rightarrow> (u32 \<Rightarrow> nat option) \<Rightarrow> bool" where
  "held u B own L \<longleftrightarrow> (\<forall>p n. L p = Some n \<longrightarrow> (\<exists>b\<in>B. own b = Live \<and> p = b + 16 \<and> n + 16 \<le> bsize u b))"

lemma held_keeps:
  assumes "held u B own L" "keeps start u B own u' B' own'"
  shows "held u' B' own' L"
  using assms unfolding held_def keeps_def by (metis (no_types, lifting))

lemma held_takes:
  assumes "held u B own L" "takes start u B own b (n + 16) u' B' own'"
  shows "held u' B' own' (L(b + 16 \<mapsto> n))"
  using held_keeps [OF assms(1), of start u' B' own'] assms(2) by (auto simp: held_def takes_def)

lemma umem_run_inv:
  assumes "umem_run lo u L"
  shows "\<exists>B own. uheap_ok lo u B own \<and> held u B own L"
  using assms
proof induction
  case (start u)
  have "uheap_ok lo u {} (\<lambda>b. Live)"
    using start by (auto simp: uinv_def listed_def word_less_nat_alt intro: exI [of _ "[]"])
  then show ?case by (force simp: held_def)
next
  case (alloc u L sz p u')
  then obtain B own where "uheap_ok lo u B own" "held u B own L" by blast
  moreover from malloc_ok [OF this(1) alloc.hyps(2)] alloc.hyps(3) obtain b B' own' where
    "p = b + 16" "uheap_ok lo u' B' own'" "takes lo u B own b (unat sz + 16) u' B' own'" by auto
  moreover from calculation have "held u' B' own' (L(p \<mapsto> unat sz))" using held_takes by blast
  ultimately show ?case by blast
next
  case (release u L p n)
  then obtain B own where i: "uheap_ok lo u B own" "held u B own L" by blast
  then obtain b where b: "b \<in> B" "own b = Live" "p = b + 16" using release.hyps(2) by (auto simp: held_def)
  from ufree_ok [OF i(1) b(1,2)] obtain B' own' where
    "uheap_ok lo (ufree p u) B' own'" "keeps lo u (B - {b}) own (ufree p u) B' own'" unfolding b(3) by blast
  moreover have "held u (B - {b}) own (L(p := None))" using i(2) b(3) by (fastforce simp: held_def)
  ultimately show ?case using held_keeps by blast
next
  case (resize u L p n sz q u')
  then obtain B own where i: "uheap_ok lo u B own" "held u B own L" by blast
  then obtain b where b: "b \<in> B" "own b = Live" "p = b + 16" using resize.hyps(2) by (auto simp: held_def)
  from realloc_ok [OF i(1) resize.hyps(3) b(1,2) resize.hyps(4)] resize.hyps(5) obtain c B' own' where
    r: "q = c + 16" "uheap_ok lo u' B' own'" "takes lo u (B - {b}) own c (unat sz + 16) u' B' own'" unfolding b(3) by auto
  have "held u (B - {b}) own (L(p := None))" using i(2) b(3) by (fastforce simp: held_def)
  from held_takes [OF this r(3)] show ?case using r(1,2) by blast
next
  case (cleared u L cnt sz p u')
  then obtain B own where i: "uheap_ok lo u B own" "held u B own L" by blast
  from calloc_ok [OF i(1) cleared.hyps(2)] cleared.hyps(3) obtain b B' own' where
    "p = b + 16" "uheap_ok lo u' B' own'" "takes lo u B own b (unat (cnt * sz) + 16) u' B' own'" by auto
  then show ?case using held_takes [OF i(2)] by blast
next
  case (store u L p n i v)
  then obtain B own where i: "uheap_ok lo u B own" "held u B own L" by blast
  then obtain b where b: "b \<in> B" "p = b + 16" "n + 16 \<le> bsize u b" using store.hyps(2) by (auto simp: held_def)
  have a: "p + of_nat i \<in> payload u b" using payload_at(1) [OF i(1) b(1,3) store.hyps(3)] by (simp add: b(2))
  have m: "((um u)(p + of_nat i := v)) x = um u x" if "x \<notin> payload u b" for x using a that by auto
  have "held (u\<lparr>um := (um u)(p + of_nat i := v)\<rparr>) B own L"
    using i(2) uinv_store(2) [OF i(1) b(1) m] by (fastforce simp: held_def)
  moreover have "uinv lo (unat (u_break u)) (u\<lparr>um := (um u)(p + of_nat i := v)\<rparr>) B own" by (rule uinv_store(1) [OF i(1) b(1) m])
  moreover have "u_break (u\<lparr>um := (um u)(p + of_nat i := v)\<rparr>) = u_break u" by simp
  ultimately show ?case by metis
qed

lemma held_contents:
  assumes "uheap_ok start u B own" "held u B own L" "keeps start u B own u' B' own'" "L q = Some k" "i < k"
  shows "um u' (q + of_nat i) = um u (q + of_nat i)"
proof -
  obtain b where b: "b \<in> B" "own b = Live" "q = b + 16" "k + 16 \<le> bsize u b" using assms(2,4) by (auto simp: held_def)
  have "q + of_nat i \<in> payload u b" using payload_at(1) [OF assms(1) b(1,4) assms(5)] by (simp add: b(3))
  then show ?thesis using assms(3) b(1,2) by (auto simp: keeps_def)
qed

text \<open>What another part of the program can rely on.\<close>

definition kept :: "nat \<Rightarrow> (u32 \<Rightarrow> nat option) \<Rightarrow> bytes_mem \<Rightarrow> bytes_mem \<Rightarrow> bool" where
  "kept lo L m m' \<longleftrightarrow> (\<forall>a. unat a < lo \<longrightarrow> m' a = m a) \<and>
     (\<forall>q k i. L q = Some k \<longrightarrow> i < k \<longrightarrow> m' (q + of_nat i) = m (q + of_nat i))"

lemma kept_trans: "kept lo L m m1 \<Longrightarrow> kept lo L m1 m2 \<Longrightarrow> kept lo L m m2"
  by (simp add: kept_def)

lemma kept_sub: "kept lo L m m' \<Longrightarrow> (\<And>q k. L' q = Some k \<Longrightarrow> \<exists>k'\<ge>k. L q = Some k') \<Longrightarrow> kept lo L' m m'"
  unfolding kept_def by (meson order_less_le_trans)

lemma keeps_kept:
  assumes "uheap_ok start u B own" "held u B own L" "keeps start u B own u' B' own'"
  shows "kept start L (um u) (um u')"
  using held_contents [OF assms] assms(3) by (auto simp: kept_def keeps_def)

lemma umem_run_ranges:
  assumes "umem_run lo u L" "L p = Some n"
  shows "unat p + n < 4294967296" "lo \<le> unat p" "L q = Some k \<Longrightarrow> p \<noteq> q \<Longrightarrow> unat p + n \<le> unat q \<or> unat q + k \<le> unat p"
proof -
  obtain B own where i: "uheap_ok lo u B own" "held u B own L" using umem_run_inv [OF assms(1)] by blast
  obtain b where b: "b \<in> B" "p = b + 16" "n + 16 \<le> bsize u b" using i(2) assms(2) by (auto simp: held_def)
  note s = uinv_strict [OF i(1) b(1)]
  show "unat p + n < 4294967296" using s b(2,3) by simp
  have "in_place lo (unat (u_break u)) u b" "lo \<le> mmap_start" using i(1) b(1) by (auto simp: uinv_def)
  then have "lo \<le> unat b" by (auto simp: in_place_def)
  then show "lo \<le> unat p" using s(2) b(2) by simp
  show "unat p + n \<le> unat q \<or> unat q + k \<le> unat p" if q: "L q = Some k" "p \<noteq> q"
  proof -
    obtain c where c: "c \<in> B" "q = c + 16" "k + 16 \<le> bsize u c" using i(2) q(1) by (auto simp: held_def)
    have "apart u b c" using uinv_apart [OF i(1) b(1) c(1)] q(2) b(2) c(2) by auto
    then show ?thesis using s uinv_strict [OF i(1) c(1)] b(2,3) c(2,3) by (auto simp: apart_def)
  qed
qed

lemma umem_run_not_null: "umem_run lo u L \<Longrightarrow> L p = Some n \<Longrightarrow> p \<noteq> 0"
  using umem_run_inv [of lo u L] uinv_strict(3) by (fastforce simp: held_def)

lemma carve_break: "u_break (carve ci bs base i n u) = u_break u"
  by (induction n arbitrary: i u) (simp_all add: Let_def)

lemma sbrk_break:
  assumes "unat inc \<le> 65536" "unat (u_break u) + 65536 \<le> mmap_start"
  shows "unat (u_break (snd (mem_sbrk inc u))) \<le> unat (u_break u) + 65536"
proof -
  have "unat (u_break u) + unat inc < 4294967296" using assms by (simp add: mmap_start_def)
  then show ?thesis using new_break_up(2) [of inc "u_break u"] assms(1) by (simp add: mem_sbrk_def)
qed

lemma small_break:
  assumes "ci < 10" "unat (u_break u) + 65536 \<le> mmap_start"
  shows "unat (u_break (snd (mem_alloc_small ci u))) \<le> unat (u_break u) + 65536"
proof -
  have "unat (mem_block_size_for_class ci) \<le> 8192" using class_sizes(1,2) [OF assms(1)] by simp
  then have "unat (mem_block_size_for_class ci * 8) \<le> 65536" using unat_mul_small [of "mem_block_size_for_class ci" 8] by simp
  from sbrk_break [OF this assms(2)] have "unat (u_break (mem_arena_extend_small ci u)) \<le> unat (u_break u) + 65536"
    by (auto simp: mem_arena_extend_small_def Let_def carve_break mem_sbrk_def)
  then show ?thesis by (simp add: mem_alloc_small_def Let_def)
qed

lemma large_break:
  assumes "mem_alloc_large need u = Inr (r, u')" "unat need \<le> 65536" "unat (u_break u) + 65536 \<le> mmap_start"
  shows "unat (u_break u') \<le> unat (u_break u) + 65536"
  using assms(1) sbrk_break [OF assms(2,3)]
  by (auto simp: mem_alloc_large_def Let_def mem_sbrk_def split: option.splits if_splits)

lemma malloc_break:
  assumes "malloc sz u = Inr (r, u')" "umem_room sz u"
  shows "unat (u_break u') \<le> unat (u_break u) + 65536"
proof -
  define need where "need = (if sz = 0 then 1 else sz) + MEM_HEADER"
  have "unat (if sz = 0 then 1 else sz) = max 1 (unat sz)" by (auto simp: max_def unat_gt_0 Suc_le_eq)
  then have n: "unat need = max 1 (unat sz) + 16"
    using assms(2) unfolding need_def MEM_HEADER_def by (subst unat_add_small) (simp_all add: umem_room_def Let_def)
  show ?thesis
  proof (cases "need \<ge> MEM_MMAP_THRESHOLD")
    case True
    then show ?thesis using assms(1) by (auto simp: malloc_def need_def [symmetric] Let_def mem_mmap_def split: if_splits)
  next
    case False
    then have lt: "unat need < 65536" by (simp add: MEM_MMAP_THRESHOLD_def word_le_nat_alt)
    then have room: "unat (u_break u) + 65536 \<le> mmap_start" using assms(2) n by (simp add: umem_room_def Let_def)
    show ?thesis
    proof (cases "mem_class_index need")
      case None
      then show ?thesis using assms(1) False large_break [of need u r u'] lt room
        by (simp add: malloc_def need_def [symmetric] Let_def)
    next
      case (Some ci)
      then have "ci < 10" using class_fits by blast
      then show ?thesis using small_break [OF _ room, of ci] assms(1) False Some
        by (auto simp: malloc_def need_def [symmetric] Let_def)
    qed
  qed
qed

text \<open>Only a request that is mapped moves the next mapping.\<close>

lemma carve_mmap: "u_mmap (carve ci bs base i n u) = u_mmap u"
  by (induction n arbitrary: i u) (simp_all add: Let_def)

lemma malloc_mmap:
  assumes "malloc sz u = Inr (r, u')" "umem_room sz u" "unat sz + 16 < 65536"
  shows "u_mmap u' = u_mmap u"
proof -
  define need where "need = (if sz = 0 then 1 else sz) + MEM_HEADER"
  have "unat (if sz = 0 then 1 else sz) = max 1 (unat sz)" by (auto simp: max_def unat_gt_0 Suc_le_eq)
  then have "unat need = max 1 (unat sz) + 16"
    using assms(2) unfolding need_def MEM_HEADER_def by (subst unat_add_small) (simp_all add: umem_room_def Let_def)
  then have "\<not> need \<ge> MEM_MMAP_THRESHOLD" using assms(3) by (simp add: MEM_MMAP_THRESHOLD_def word_le_nat_alt)
  then have m: "Inr (r, u') = (case mem_class_index need of Some ci \<Rightarrow> Inr (mem_alloc_small ci u) | None \<Rightarrow> mem_alloc_large need u)"
    using assms(1) unfolding malloc_def need_def [symmetric] Let_def by simp
  have ext: "u_mmap (mem_arena_extend_small ci u) = u_mmap u" for ci
    by (simp add: mem_arena_extend_small_def mem_sbrk_def carve_mmap Let_def)
  have "u_mmap (snd (mem_alloc_small ci u)) = u_mmap u" for ci by (simp add: mem_alloc_small_def ext Let_def)
  moreover have "u_mmap u' = u_mmap u" if "mem_alloc_large need u = Inr (r, u')"
    using that by (auto simp: mem_alloc_large_def mem_sbrk_def Let_def split: option.splits if_splits)
  ultimately show ?thesis using m by (auto split: option.splits) (metis snd_conv)
qed

lemma ufree_mmap: "u_mmap (ufree p u) = u_mmap u"
  by (simp add: ufree_def Let_def mem_munmap_def split: option.split)

lemma umem_run_below:
  assumes "umem_run lo u L" "L p = Some n"
  shows "unat p + n \<le> unat (u_mmap u)"
proof -
  obtain B own where i: "uheap_ok lo u B own" "held u B own L" using umem_run_inv [OF assms(1)] by blast
  obtain b where b: "b \<in> B" "p = b + 16" "n + 16 \<le> bsize u b" using i(2) assms(2) by (auto simp: held_def)
  have "in_place lo (unat (u_break u)) u b" "unat (u_break u) \<le> unat (u_mmap u)" using i(1) b(1) by (auto simp: uinv_def)
  then show ?thesis using uinv_strict(2) [OF i(1) b(1)] b(2,3) by (auto simp: in_place_def)
qed

lemma malloc_run:
  assumes "umem_run lo u L" "umem_room sz u"
  shows "\<exists>r u'. malloc sz u = Inr (r, u') \<and> r \<noteq> 0 \<and> L r = None \<and> umem_run lo u' (L(r \<mapsto> unat sz)) \<and>
    kept lo L (um u) (um u') \<and> unat (u_break u') \<le> unat (u_break u) + 65536 \<and>
    (unat sz + 16 < 65536 \<longrightarrow> u_mmap u' = u_mmap u) \<and> (\<forall>a. unat (u_mmap u') \<le> unat a \<longrightarrow> um u' a = um u a)"
proof -
  obtain B own where i: "uheap_ok lo u B own" "held u B own L" using umem_run_inv [OF assms(1)] by blast
  from malloc_ok [OF i(1) assms(2)] obtain b u' B' own' where
    m: "malloc sz u = Inr (b + 16, u')" "uheap_ok lo u' B' own'" "takes lo u B own b (unat sz + 16) u' B' own'" by blast
  have k: "keeps lo u B own u' B' own'" "b \<in> B'" "b \<in> B \<longrightarrow> own b \<noteq> Live" using m(3) by (auto simp: takes_def)
  have "\<forall>a. unat (u_mmap u') \<le> unat a \<longrightarrow> um u' a = um u a" using k(1) by (simp add: keeps_def)
  moreover have "L (b + 16) = None"
  proof (rule ccontr)
    assume "L (b + 16) \<noteq> None"
    then obtain c where "c \<in> B" "own c = Live" "b + 16 = c + 16" using i(2) unfolding held_def by blast
    then show False using k(3) by simp
  qed
  moreover have "b + 16 \<noteq> 0" by (rule uinv_strict(3) [OF m(2) k(2)])
  ultimately show ?thesis
    using m(1) umem_run.alloc [OF assms m(1)] keeps_kept [OF i k(1)] malloc_break [OF m(1) assms(2)]
      malloc_mmap [OF m(1) assms(2)] by blast
qed

lemma free_run:
  assumes "umem_run lo u L" "L p = Some n"
  shows "umem_run lo (ufree p u) (L(p := None)) \<and> kept lo (L(p := None)) (um u) (um (ufree p u)) \<and> u_break (ufree p u) = u_break u"
proof -
  obtain B own where i: "uheap_ok lo u B own" "held u B own L" using umem_run_inv [OF assms(1)] by blast
  obtain c where c: "c \<in> B" "own c = Live" "p = c + 16" using i(2) assms(2) by (auto simp: held_def)
  from ufree_ok [OF i(1) c(1,2)] obtain B2 own2 where k: "keeps lo u (B - {c}) own (ufree p u) B2 own2" unfolding c(3) by blast
  have "um (ufree p u) (q + of_nat j) = um u (q + of_nat j)" if q: "(L(p := None)) q = Some k'" "j < k'" for q k' j
  proof -
    have q': "L q = Some k'" "q \<noteq> p" using q(1) by (auto split: if_splits)
    obtain d where d: "d \<in> B" "own d = Live" "q = d + 16" "k' + 16 \<le> bsize u d" using i(2) q'(1) by (auto simp: held_def)
    have "q + of_nat j \<in> payload u d" using payload_at(1) [OF i(1) d(1,4) q(2)] by (simp add: d(3))
    then show ?thesis using k d(1,2,3) c(3) q'(2) by (auto simp: keeps_def)
  qed
  moreover have "u_break (ufree p u) = u_break u" by (simp add: ufree_def Let_def mem_munmap_def split: option.split)
  ultimately show ?thesis using umem_run.release [OF assms] k by (simp add: kept_def keeps_def)
qed

text \<open>Storing into what is held.\<close>

lemma copy_run:
  assumes "umem_run lo u L" "L p = Some n" "i + k \<le> n"
  shows "umem_run lo (u\<lparr>um := kmemcpy (um u) (p + of_nat i) s k\<rparr>) L"
  using assms(1,3)
proof (induction k arbitrary: u i s)
  case (Suc k)
  have "umem_run lo (u\<lparr>um := (um u)(p + of_nat i := um u s)\<rparr>) L"
    using umem_run.store [of lo u L p n i "um u s"] Suc.prems assms(2) by simp
  from Suc.IH [OF this, of "Suc i" "s + 1"] Suc.prems(2) show ?case
    by (simp add: fun_upd_def algebra_simps)
qed simp

definition udemo_heap :: uheap where
  "udemo_heap = \<lparr>um = (\<lambda>_. 0), mem_free_lists = replicate 10 0, mem_large_free = 0, u_break = 0x8000, u_mmap = 0x7000000\<rparr>"

lemma udemo_start: "umem_run 0x8000 udemo_heap Map.empty"
  by (rule umem_run.start) (simp_all add: udemo_heap_def mmap_start_def)

definition udemo_map :: "uheap \<Rightarrow> uheap" where
  "udemo_map u = u\<lparr>um := set_flags (u_mmap u) MEM_MMAP (set_size (u_mmap u) 65552 (um u)), u_mmap := u_mmap u + 69632\<rparr>"

lemma malloc_map: "u_mmap u \<noteq> 0 \<Longrightarrow> malloc 65536 u = Inr (u_mmap u + 16, udemo_map u)"
  by (simp add: malloc_def Let_def MEM_HEADER_def MEM_MMAP_THRESHOLD_def mem_mmap_def mmap_pages_def udemo_map_def)

lemma udemo_run:
  "umem_run 0x8000 (udemo_map udemo_heap) [0x7000010 \<mapsto> 65536]"
  "umem_run 0x8000 (udemo_map (udemo_map udemo_heap)) [0x7000010 \<mapsto> 65536, 0x7011010 \<mapsto> 65536]"
proof -
  have "umem_run 0x8000 (udemo_map udemo_heap) (Map.empty(0x7000010 \<mapsto> unat (65536 :: u32)))"
    by (rule umem_run.alloc [OF udemo_start]) (simp_all add: umem_room_def udemo_heap_def malloc_map)
  then show 1: "umem_run 0x8000 (udemo_map udemo_heap) [0x7000010 \<mapsto> 65536]" by simp
  have "umem_run 0x8000 (udemo_map (udemo_map udemo_heap)) ([0x7000010 \<mapsto> 65536](0x7011010 \<mapsto> unat (65536 :: u32)))"
    by (rule umem_run.alloc [OF 1]) (simp_all add: umem_room_def udemo_map_def udemo_heap_def malloc_map)
  then show "umem_run 0x8000 (udemo_map (udemo_map udemo_heap)) [0x7000010 \<mapsto> 65536, 0x7011010 \<mapsto> 65536]" by simp
qed

text \<open>
  C29. At every point of a run in which every request leaves room, the bytes of two allocations in use are apart, and no
  pointer in use is null. That there is room is a condition of the run: a request whose header overflows its size, or for
  which the arena or the mappings come to the end of their part of the address space, is not checked by the code.
\<close>

theorem umem_live_disjoint:
  assumes "umem_run lo u L" "L p = Some n" "L q = Some k" "p \<noteq> q"
  shows "(unat p + n \<le> unat q \<or> unat q + k \<le> unat p) \<and> p \<noteq> 0 \<and> lo \<le> unat p \<and> unat p + n < 2 ^ 32"
  using umem_run_ranges [OF assms(1,2)] umem_run_ranges(3) [OF assms(1-4)] umem_run_not_null [OF assms(1,2)] by simp

text \<open>Two small requests, one that is mapped, and a release in between.\<close>

theorem umem_live_disjoint_witness:
  "\<exists>p q r u1 u2 u3. malloc 5 udemo_heap = Inr (p, u1) \<and> malloc 100 u1 = Inr (q, u2) \<and> malloc 100000 (ufree p u2) = Inr (r, u3) \<and>
    (unat q + 100 \<le> unat r \<or> unat r + 100000 \<le> unat q) \<and> q \<noteq> 0 \<and> 0x8000 \<le> unat q"
proof -
  have r1: "umem_room 5 udemo_heap" by (simp add: umem_room_def udemo_heap_def mmap_start_def)
  from malloc_run [OF udemo_start r1] obtain p u1 where m1: "malloc 5 udemo_heap = Inr (p, u1)"
    "umem_run 0x8000 u1 [p \<mapsto> 5]" "unat (u_break u1) \<le> unat (u_break udemo_heap) + 65536" "u_mmap u1 = u_mmap udemo_heap" by auto
  then have r2: "umem_room 100 u1" by (simp add: umem_room_def udemo_heap_def mmap_start_def)
  from malloc_run [OF m1(2) r2] obtain q u2 where m2: "malloc 100 u1 = Inr (q, u2)"
    "umem_run 0x8000 u2 [p \<mapsto> 5, q \<mapsto> 100]" "[p \<mapsto> 5 :: nat] q = None" "u_mmap u2 = u_mmap u1" by auto
  then have ne: "q \<noteq> p" by (auto split: if_splits)
  have f: "umem_run 0x8000 (ufree p u2) ([p \<mapsto> 5, q \<mapsto> 100](p := None))" by (rule umem_run.release [OF m2(2)]) (use ne in simp)
  have "[p \<mapsto> 5, q \<mapsto> 100](p := None) = [q \<mapsto> 100 :: nat]" using ne by auto
  note f2 = f [unfolded this]
  have "u_mmap (ufree p u2) = u_mmap u2" by (simp add: ufree_mmap)
  then have r3: "umem_room 100000 (ufree p u2)" using m2(4) m1(4) by (simp add: umem_room_def udemo_heap_def)
  from malloc_run [OF f2 r3] obtain r u3 where m3: "malloc 100000 (ufree p u2) = Inr (r, u3)"
    "umem_run 0x8000 u3 [q \<mapsto> 100, r \<mapsto> 100000]" "[q \<mapsto> 100 :: nat] r = None" by auto
  then have "q \<noteq> r" by (auto split: if_splits)
  with umem_live_disjoint [OF m3(2), of q 100 r 100000] m1(1) m2(1) m3(1) show ?thesis by auto
qed

text \<open>
  C30. As long as there is room \<open>malloc\<close> returns a pointer that is not in use, and neither it nor \<open>free\<close>
  of a pointer in use changes a byte of another allocation or in front of the arena.
\<close>

theorem umem_malloc_free:
  assumes "umem_run lo u L" "umem_room sz u" "L p = Some n"
  shows "(\<exists>r u'. malloc sz u = Inr (r, u') \<and> r \<noteq> 0 \<and> L r = None \<and> kept lo L (um u) (um u')) \<and>
    kept lo (L(p := None)) (um u) (um (ufree p u))"
  using malloc_run [OF assms(1,2)] free_run [OF assms(1,3)] by blast

theorem umem_malloc_free_witness:
  "\<exists>r u'. malloc 5 (udemo_map udemo_heap) = Inr (r, u') \<and> r \<noteq> 0x7000010 \<and> um u' 0x7000015 = um (udemo_map udemo_heap) 0x7000015 \<and>
    um u' 0x7FFF = um (udemo_map udemo_heap) 0x7FFF"
proof -
  have "umem_room 5 (udemo_map udemo_heap)" by (simp add: umem_room_def udemo_map_def udemo_heap_def mmap_start_def)
  then obtain r u' where r: "malloc 5 (udemo_map udemo_heap) = Inr (r, u')" "[0x7000010 \<mapsto> 65536 :: nat] r = None"
    and k: "kept 0x8000 [0x7000010 \<mapsto> 65536] (um (udemo_map udemo_heap)) (um u')"
    using umem_malloc_free [OF udemo_run(1), of 5 "0x7000010" 65536] by auto
  from k have "\<forall>i<65536. um u' (0x7000010 + of_nat i) = um (udemo_map udemo_heap) (0x7000010 + of_nat i)"
    by (simp add: kept_def)
  from this [rule_format, of 5] k r show ?thesis by (auto simp: kept_def split: if_splits)
qed

text \<open>
  C31. As long as there is room \<open>realloc\<close> returns a pointer that holds what the old one held, up to the
  smaller of the two sizes, and changes no other allocation.
\<close>

theorem umem_realloc:
  assumes "umem_run lo u L" "umem_room sz u" "L p = Some n" "sz \<noteq> 0"
  shows "\<exists>r u'. urealloc p sz u = Inr (r, u') \<and> r \<noteq> 0 \<and> (r = p \<or> L r = None) \<and>
    (\<forall>i<min n (unat sz). um u' (r + of_nat i) = um u (p + of_nat i)) \<and>
    (\<forall>q k i. L q = Some k \<longrightarrow> q \<noteq> p \<longrightarrow> i < k \<longrightarrow> um u' (q + of_nat i) = um u (q + of_nat i))"
proof -
  obtain B own where i: "uheap_ok lo u B own" "held u B own L" using umem_run_inv [OF assms(1)] by blast
  obtain b where b: "b \<in> B" "own b = Live" "p = b + 16" "n + 16 \<le> bsize u b" using i(2) assms(3) by (auto simp: held_def)
  from realloc_ok [OF i(1) assms(2) b(1,2) assms(4)] obtain c u' B' own' where
    r: "urealloc p sz u = Inr (c + 16, u')" "uheap_ok lo u' B' own'" "takes lo u (B - {b}) own c (unat sz + 16) u' B' own'"
    "\<forall>i. i + 16 < bsize u b \<longrightarrow> i < unat sz \<longrightarrow> um u' (c + 16 + of_nat i) = um u (p + of_nat i)" unfolding b(3) by blast
  have c: "c \<in> B'" "c \<in> B - {b} \<longrightarrow> own c \<noteq> Live" "keeps lo u (B - {b}) own u' B' own'" using r(3) by (auto simp: takes_def)
  have h: "held u (B - {b}) own (L(p := None))" using i(2) b(3) by (fastforce simp: held_def)
  have "L (c + 16) = None" if "c + 16 \<noteq> p"
  proof (rule ccontr)
    assume "L (c + 16) \<noteq> None"
    then obtain d where "d \<in> B" "own d = Live" "c + 16 = d + 16" using i(2) unfolding held_def by blast
    then show False using c(2) that b(3) by auto
  qed
  moreover have "um u' (c + 16 + of_nat i) = um u (p + of_nat i)" if "i < min n (unat sz)" for i
    using r(4) that b(4) by auto
  moreover have "um u' (q + of_nat j) = um u (q + of_nat j)" if q: "L q = Some k" "q \<noteq> p" "j < k" for q k j
  proof -
    obtain d where d: "d \<in> B" "own d = Live" "q = d + 16" "k + 16 \<le> bsize u d" using i(2) q(1) by (auto simp: held_def)
    have "q + of_nat j \<in> payload u d" using payload_at(1) [OF i(1) d(1,4) q(3)] by (simp add: d(3))
    then show ?thesis using c(3) d(1-3) q(2) b(3) by (auto simp: keeps_def)
  qed
  ultimately show ?thesis using r(1) uinv_strict(3) [OF r(2) c(1)] by blast
qed

theorem umem_realloc_witness:
  "\<exists>r u'. urealloc 0x7000010 100000 (udemo_map udemo_heap) = Inr (r, u') \<and> r \<noteq> 0 \<and> um u' (r + 7) = um (udemo_map udemo_heap) 0x7000017"
proof -
  have "umem_room 100000 (udemo_map udemo_heap)" by (simp add: umem_room_def udemo_map_def udemo_heap_def)
  then obtain r u' where r: "urealloc 0x7000010 100000 (udemo_map udemo_heap) = Inr (r, u')" "r \<noteq> 0"
    "\<forall>i<min 65536 (unat (100000 :: u32)). um u' (r + of_nat i) = um (udemo_map udemo_heap) (0x7000010 + of_nat i)"
    using umem_realloc [OF udemo_run(1), of 100000 "0x7000010" 65536] by auto
  from r(3) [rule_format, of 7] r(1,2) show ?thesis by auto
qed

end
