(* ===== verification/Ustring.thy ===== *)
theory Ustring
  imports Umem Kstring Print
begin

text \<open>
  \<open>user_fs/lib/string.h\<close> over the memory of the program: the routines that walk strings, the ones that
  hand out strings of their own (\<open>itoa\<close>, \<open>itoa_hex\<close>, \<open>strdup\<close>) and the tokeniser with the pointer it
  keeps between calls. What is proved rests on the runs of the allocator.
\<close>

section \<open>Operations\<close>

text \<open>A loop that never ends.\<close>

definition ran :: "'a option \<Rightarrow> 'a res" where
  "ran r = (case r of None \<Rightarrow> Inl KHang | Some v \<Rightarrow> Inr v)"

lemma ran_Some [simp]: "ran (Some v) = Inr v" by (simp add: ran_def)

definition ustrlen :: "bytes_mem \<Rightarrow> u32 \<Rightarrow> u32 option" where
  "ustrlen m str = strlen_loop m str 0"

definition ustrcpy :: "bytes_mem \<Rightarrow> u32 \<Rightarrow> u32 \<Rightarrow> bytes_mem option" where
  "ustrcpy m dst src = kstrcpy m dst src"

definition ustrcmp :: "bytes_mem \<Rightarrow> u32 \<Rightarrow> u32 \<Rightarrow> u32 option" where
  "ustrcmp m s1 s2 = kstrcmp m s1 s2"

definition ustrcat :: "bytes_mem \<Rightarrow> u32 \<Rightarrow> u32 \<Rightarrow> bytes_mem option" where
  "ustrcat m dst src = Option.bind (strlen_loop m dst 0) (\<lambda>n. kstrcpy m (dst + n) src)"

text \<open>The digits are written from the end of the buffer, then the string is moved to its front.\<close>

function dec_loop :: "u32 \<Rightarrow> u32 \<Rightarrow> u32 \<Rightarrow> bytes_mem \<Rightarrow> u32 \<times> bytes_mem" where
  "dec_loop buf num i m =
     (if num = 0 then (i, m)
      else dec_loop buf (num div 10) (i - 1) (m(buf + (i - 1) := 0x30 + ucast (num mod 10))))"
  by pat_completeness auto
termination
proof (relation "measure (\<lambda>(buf, num, i, m). unat num)")
  fix buf num i :: u32 and m :: bytes_mem
  assume "num \<noteq> 0"
  then have "0 < unat num" by (simp add: unat_gt_0)
  then have "unat num div 10 < unat num" by simp
  then show "((buf, num div 10, i - 1, m(buf + (i - 1) := 0x30 + ucast (num mod 10))), buf, num, i, m)
    \<in> measure (\<lambda>(buf, num, i, m). unat num)" by (simp add: unat_div)
qed simp

declare dec_loop.simps [simp del]

partial_function (option) move_front :: "u32 \<Rightarrow> u32 \<Rightarrow> u32 \<Rightarrow> bytes_mem \<Rightarrow> bytes_mem option" where
  "move_front buf i j m =
     (if m (buf + i) \<noteq> 0 then move_front buf (i + 1) (j + 1) (m(buf + j := m (buf + i)))
      else Some (m(buf + j := 0)))"

definition itoa :: "u32 \<Rightarrow> uheap \<Rightarrow> (u32 \<times> uheap) res" where
  "itoa n u =
     and_then (malloc 12 u) (\<lambda>(buf, u1).
       if buf = 0 then Inr (0, u1)
       else let neg = sint n < 0; num = (if neg then 0 - n else n);
                m = (um u1)(buf + 11 := 0);
                (i, m) = (if num = 0 then (10, m(buf + 10 := 0x30)) else (11, m));
                (i, m) = dec_loop buf num i m;
                (i, m) = (if neg then (i - 1, m(buf + (i - 1) := 0x2D)) else (i, m))
            in and_then (ran (move_front buf i 0 m)) (\<lambda>m. Inr (buf, u1\<lparr>um := m\<rparr>)))"

function hex_loop_u :: "u32 \<Rightarrow> u32 \<Rightarrow> u32 \<Rightarrow> bytes_mem \<Rightarrow> u32 \<times> bytes_mem" where
  "hex_loop_u buf n i m =
     (let i = i - 1; m = m(buf + i := hex_digit (unat (n AND 0xF))); n = drop_bit 4 n
      in if n = 0 then (i, m) else hex_loop_u buf n i m)"
  by pat_completeness auto
termination
proof (relation "measure (\<lambda>(buf, n, i, m). unat n)")
  fix buf n i x y :: u32 and m z :: bytes_mem
  assume x: "x = i - 1" and y: "y = drop_bit 4 n" and "y \<noteq> 0"
  then have "unat y \<noteq> 0" by (metis unat_eq_zero)
  then have "unat n div 16 \<noteq> 0" by (simp add: y unat_drop_bit_eq drop_bit_eq_div unat_div)
  then have "unat n div 16 < unat n" by simp
  then show "((buf, y, x, z), buf, n, i, m) \<in> measure (\<lambda>(buf, n, i, m). unat n)"
    by (simp add: y unat_drop_bit_eq drop_bit_eq_div unat_div)
qed simp

declare hex_loop_u.simps [simp del]

definition itoa_hex :: "u32 \<Rightarrow> uheap \<Rightarrow> (u32 \<times> uheap) res" where
  "itoa_hex n u =
     and_then (malloc 9 u) (\<lambda>(buf, u1).
       if buf = 0 then Inr (0, u1)
       else let (i, m) = hex_loop_u buf n 8 ((um u1)(buf + 8 := 0))
            in and_then (ran (move_front buf i 0 m)) (\<lambda>m. Inr (buf, u1\<lparr>um := m\<rparr>)))"

definition strdup :: "u32 \<Rightarrow> uheap \<Rightarrow> (u32 \<times> uheap) res" where
  "strdup str u =
     (if str = 0 then Inr (0, u)
      else and_then (ran (ustrlen (um u) str)) (\<lambda>n.
           let len = n + 1
           in and_then (malloc len u) (\<lambda>(buf, u1).
                if buf \<noteq> 0 then Inr (buf, u1\<lparr>um := kmemcpy (um u1) buf str (unat len)\<rparr>) else Inr (buf, u1))))"

partial_function (option) is_delim :: "bytes_mem \<Rightarrow> u8 \<Rightarrow> u32 \<Rightarrow> bool option" where
  "is_delim m c delim =
     (if m delim \<noteq> 0 then if m delim = c then Some True else is_delim m c (delim + 1) else Some False)"

partial_function (option) skip_delims :: "bytes_mem \<Rightarrow> u32 \<Rightarrow> u32 \<Rightarrow> u32 option" where
  "skip_delims m delim str =
     (if m str = 0 then Some str
      else Option.bind (is_delim m (m str) delim) (\<lambda>d. if d then skip_delims m delim (str + 1) else Some str))"

partial_function (option) token_end :: "bytes_mem \<Rightarrow> u32 \<Rightarrow> u32 \<Rightarrow> u32 option" where
  "token_end m delim str =
     (if m str = 0 then Some str
      else Option.bind (is_delim m (m str) delim) (\<lambda>d. if \<not> d then token_end m delim (str + 1) else Some str))"

text \<open>The token, the pointer kept for the next call, and the memory.\<close>

definition strtok :: "u32 \<Rightarrow> u32 \<Rightarrow> u32 \<Rightarrow> bytes_mem \<Rightarrow> (u32 \<times> u32 \<times> bytes_mem) option" where
  "strtok str0 delim save m =
     (let str = (if str0 = 0 then save else str0)
      in if str = 0 then Some (0, save, m)
         else Option.bind (skip_delims m delim str) (\<lambda>token.
              if m token = 0 then Some (0, 0, m)
              else Option.bind (token_end m delim token) (\<lambda>e.
                   if m e = 0 then Some (token, 0, m) else Some (token, e + 1, m(e := 0)))))"

partial_function (option) strsplit_steps :: "u32 \<Rightarrow> u32 \<Rightarrow> u32 \<Rightarrow> u32 \<Rightarrow> u32 \<Rightarrow> u32 \<Rightarrow> uheap \<Rightarrow> (u32 \<times> u32 \<times> uheap) res option" where
  "strsplit_steps copy parts sep i p save u =
     (if p = 0 then Some (Inr (i, save, ufree copy u))
      else case strdup p u of
             Inl e \<Rightarrow> Some (Inl e)
           | Inr (q, u1) \<Rightarrow>
               (let u2 = u1\<lparr>um := st32 (um u1) (parts + 4 * i) q\<rparr>
                in if q = 0 then Some (Inr (0xFFFFFFFF, save, ufree copy u2))
                   else Option.bind (strtok 0 sep save (um u2)) (\<lambda>(p', save', m').
                        strsplit_steps copy parts sep (i + 1) p' save' (u2\<lparr>um := m'\<rparr>))))"

definition strsplit :: "u32 \<Rightarrow> u32 \<Rightarrow> u32 \<Rightarrow> u32 \<Rightarrow> uheap \<Rightarrow> (u32 \<times> u32 \<times> uheap) res" where
  "strsplit s parts sep save u =
     and_then (strdup s u) (\<lambda>(copy, u1).
       if copy = 0 then Inr (0xFFFFFFFF, save, u1)
       else and_then (ran (strtok copy sep save (um u1))) (\<lambda>(p, save', m').
            and_then (ran (strsplit_steps copy parts sep 0 p save' (u1\<lparr>um := m'\<rparr>))) id))"

declare is_delim.simps [code] skip_delims.simps [code] token_end.simps [code] move_front.simps [code] strsplit_steps.simps [code]

section \<open>Buffers\<close>

text \<open>Any change of the bytes that are held is a run of stores.\<close>

lemma store_run:
  assumes "umem_run lo u L" "L p = Some n" "\<forall>a. (\<forall>i<n. a \<noteq> p + of_nat i) \<longrightarrow> m' a = um u a"
  shows "umem_run lo (u\<lparr>um := m'\<rparr>) L"
proof -
  define part where "part k = (\<lambda>a. if \<exists>i<k. a = p + of_nat i then m' a else um u a)" for k :: nat
  have "umem_run lo (u\<lparr>um := part k\<rparr>) L" if "k \<le> n" for k
    using that
  proof (induction k)
    case 0
    then show ?case using assms(1) by (simp add: part_def)
  next
    case (Suc k)
    have "part (Suc k) = (part k)(p + of_nat k := m' (p + of_nat k))"
      by (rule ext) (auto simp: part_def less_Suc_eq)
    then show ?case using umem_run.store [of lo "u\<lparr>um := part k\<rparr>" L p n k "m' (p + of_nat k)"] Suc assms(2)
      by (simp add: fun_upd_def)
  qed
  moreover have "part n = m'" using assms(3) by (force simp: part_def)
  ultimately show ?thesis by force
qed

lemma store_kept:
  assumes "umem_run lo u L" "L p = Some n" "\<forall>a. (\<forall>i<n. a \<noteq> p + of_nat i) \<longrightarrow> m' a = um u a"
  shows "kept lo (L(p := None)) (um u) m'"
  unfolding kept_def
proof (intro conjI allI impI)
  note r = umem_run_ranges [OF assms(1,2)]
  have p: "unat (p + of_nat i) = unat p + i" if "i < n" for i using r(1) that by (intro unat_add_nat) linarith
  fix a :: u32 assume a: "unat a < lo"
  have "a \<noteq> p + of_nat i" if "i < n" for i
    using p [OF that] r(2) a by (metis leD le_add1 order_trans)
  then show "m' a = um u a" using assms(3) by blast
next
  note r = umem_run_ranges [OF assms(1,2)]
  have p: "unat (p + of_nat i) = unat p + i" if "i < n" for i using r(1) that by (intro unat_add_nat) linarith
  fix q k i assume q: "(L(p := None)) q = Some k" "i < k"
  then have h: "L q = Some k" "p \<noteq> q" by (auto split: if_splits)
  have u: "unat (q + of_nat i) = unat q + i" using umem_run_ranges(1) [OF assms(1) h(1)] q(2) by (intro unat_add_nat) linarith
  have "q + of_nat i \<noteq> p + of_nat j" if "j < n" for j
  proof -
    have "unat q + i \<noteq> unat p + j" using r(3) [OF h] q(2) that by linarith
    then show ?thesis using u p [OF that] by metis
  qed
  then show "m' (q + of_nat i) = um u (q + of_nat i)" using assms(3) by blast
qed

text \<open>\<open>patch m buf l\<close> has the bytes \<open>l\<close> from \<open>buf\<close> on.\<close>

definition patch :: "bytes_mem \<Rightarrow> u32 \<Rightarrow> u8 list \<Rightarrow> bytes_mem" where
  "patch m buf l = (\<lambda>a. if unat buf \<le> unat a \<and> unat a < unat buf + length l then l ! (unat a - unat buf) else m a)"

lemma patch_at:
  assumes "unat buf + length l \<le> 4294967296" "i < length l"
  shows "patch m buf l (buf + of_nat i) = l ! i"
proof -
  have "unat (buf + of_nat i) = unat buf + i" using assms by (intro unat_add_nat) linarith
  then show ?thesis using assms(2) by (simp add: patch_def)
qed

lemma patch_upd:
  assumes "unat buf + length l \<le> 4294967296" "i < length l"
  shows "(patch m buf l)(buf + of_nat i := v) = patch m buf (l[i := v])"
proof
  fix a
  have u: "unat (buf + of_nat i) = unat buf + i" using assms by (intro unat_add_nat) linarith
  show "((patch m buf l)(buf + of_nat i := v)) a = patch m buf (l[i := v]) a"
  proof (cases "a = buf + of_nat i")
    case True
    then show ?thesis using u assms(2) by (simp add: patch_def)
  next
    case False
    then have "unat a \<noteq> unat buf + i" using u unat_eq_imp by metis
    then show ?thesis using False by (auto simp: patch_def)
  qed
qed

lemma patch_self:
  assumes "unat buf + n \<le> 4294967296"
  shows "patch m buf (map (\<lambda>i. m (buf + of_nat i)) [0..<n]) = m"
proof
  fix a
  have "buf + of_nat (unat a - unat buf) = a" if "unat buf \<le> unat a"
    using that by (simp add: of_nat_diff)
  then show "patch m buf (map (\<lambda>i. m (buf + of_nat i)) [0..<n]) a = m a"
    by (auto simp: patch_def)
qed

lemma patch_outside: "(\<forall>i<length l. a \<noteq> buf + of_nat i) \<Longrightarrow> patch m buf l a = m a"
proof -
  assume out: "\<forall>i<length l. a \<noteq> buf + of_nat i"
  have "buf + of_nat (unat a - unat buf) = a" if "unat buf \<le> unat a"
    using that by (simp add: of_nat_diff)
  then have "\<not> (unat buf \<le> unat a \<and> unat a < unat buf + length l)"
    using out [rule_format, of "unat a - unat buf"] by (metis less_diff_conv2 add.commute)
  then show ?thesis unfolding patch_def by (rule if_not_P)
qed

lemma patch_cstring:
  assumes "unat buf + length (s @ 0 # r) \<le> 4294967296" "0 \<notin> set s"
  shows "cstring (patch m buf (s @ 0 # r)) buf s"
proof -
  have "patch m buf (s @ 0 # r) (buf + of_nat i) = (s @ 0 # r) ! i" if "i \<le> length s" for i
    by (rule patch_at [OF assms(1)]) (use that in simp)
  then show ?thesis using assms by (simp add: cstring_def nth_append)
qed

section \<open>Numbers\<close>

lemma dec_digit: "0x30 + ucast (num mod 10 :: u32) = (of_nat (48 + unat num mod 10) :: u8)"
proof -
  have "ucast (num mod 10) = (of_nat (unat (num mod 10)) :: u8)" by simp
  also have "unat (num mod 10) = unat num mod 10" by (simp add: unat_mod)
  finally show ?thesis by simp
qed

lemma dec_loop_digits:
  assumes "num \<noteq> 0" "length (dec_digits (unat num)) \<le> i" "i \<le> length l" "unat buf + length l \<le> 4294967296"
  shows "dec_loop buf num (of_nat i) (patch m buf l) =
    (of_nat (i - length (dec_digits (unat num))),
     patch m buf (take (i - length (dec_digits (unat num))) l @ dec_digits (unat num) @ drop i l))"
  using assms
proof (induction "unat num" arbitrary: num i l rule: less_induct)
  case less
  let ?d = "of_nat (48 + unat num mod 10) :: u8" and ?l = "l[i - 1 := of_nat (48 + unat num mod 10)]"
  have i: "0 < i" using less.prems(2) by (subst (asm) dec_digits.simps) (auto split: if_splits)
  then have im: "of_nat i - 1 = (of_nat (i - 1) :: u32)" by (simp add: of_nat_diff)
  have dl: "drop (i - 1) ?l = ?d # drop i l"
    using i less.prems(3) by (simp add: Cons_nth_drop_Suc [symmetric])
  have up: "(patch m buf l)(buf + of_nat (i - 1) := ?d) = patch m buf ?l"
    by (rule patch_upd) (use less.prems(3,4) i in auto)
  have st: "dec_loop buf num (of_nat i) (patch m buf l) = dec_loop buf (num div 10) (of_nat (i - 1)) (patch m buf ?l)"
    using less.prems(1) by (subst dec_loop.simps) (simp only: dec_digit im up if_False)
  have ud: "unat (num div 10) = unat num div 10" by (simp add: unat_div)
  show ?case
  proof (cases "unat num < 10")
    case True
    then have "num div 10 = 0" using ud by (metis div_less unat_0 unat_eq_imp)
    then have e: "dec_loop buf num (of_nat i) (patch m buf l) = (of_nat (i - 1), patch m buf ?l)"
      unfolding st by (subst dec_loop.simps) simp
    have ds: "dec_digits (unat num) = [?d]" using True by (subst dec_digits.simps) simp
    have "?l = take (i - 1) l @ ?d # drop i l"
      using dl append_take_drop_id [of "i - 1" ?l] by (metis nat_less_le take_update_cancel order_refl)
    then show ?thesis unfolding e ds by simp
  next
    case False
    let ?k = "length (dec_digits (unat (num div 10)))"
    have ds: "dec_digits (unat num) = dec_digits (unat (num div 10)) @ [?d]" using False ud by (subst dec_digits.simps) simp
    have nz: "num div 10 \<noteq> 0" using False ud by (metis div_greater_zero_iff not_less unat_0 zero_less_numeral less_irrefl)
    have lt: "unat (num div 10) < unat num" using False ud by simp
    have len: "?k \<le> i - 1" using less.prems(2) unfolding ds by simp
    have e: "dec_loop buf num (of_nat i) (patch m buf l) =
        (of_nat (i - 1 - ?k), patch m buf (take (i - 1 - ?k) ?l @ dec_digits (unat (num div 10)) @ drop (i - 1) ?l))"
      unfolding st using less.hyps [OF lt nz len, of ?l] less.prems(3,4) by simp
    have "take (i - 1 - ?k) ?l = take (i - Suc ?k) l" by simp
    then show ?thesis unfolding e dl ds by simp
  qed
qed

lemma move_front_moves:
  assumes "unat buf + length (pre @ junk @ s @ 0 # r) \<le> 4294967296" "0 \<notin> set s"
  shows "\<exists>r'. move_front buf (of_nat (length (pre @ junk))) (of_nat (length pre)) (patch m buf (pre @ junk @ s @ 0 # r)) =
      Some (patch m buf (pre @ s @ 0 # r')) \<and> length (pre @ s @ 0 # r') = length (pre @ junk @ s @ 0 # r)"
  using assms
proof (induction s arbitrary: pre junk)
  case Nil
  let ?l = "pre @ junk @ 0 # r"
  have at: "patch m buf ?l (buf + of_nat (length (pre @ junk))) = 0"
    using patch_at [of buf ?l "length (pre @ junk)" m] Nil.prems(1) by (simp add: nth_append)
  have "(patch m buf ?l)(buf + of_nat (length pre) := 0) = patch m buf (?l[length pre := 0])"
    by (rule patch_upd) (use Nil.prems in auto)
  moreover have "?l[length pre := 0] = pre @ 0 # tl (junk @ 0 # r)"
    by (cases junk) (simp_all add: list_update_append)
  moreover have "length (pre @ 0 # tl (junk @ 0 # r)) = length ?l" by simp
  ultimately show ?case using at by (subst move_front.simps) (auto intro: exI [of _ "tl (junk @ 0 # r)"])
next
  case (Cons c s)
  let ?l = "pre @ junk @ (c # s) @ 0 # r" and ?junk = "if junk = [] then [] else tl junk @ [c]"
  have at: "patch m buf ?l (buf + of_nat (length (pre @ junk))) = c"
    using patch_at [of buf ?l "length (pre @ junk)" m] Cons.prems(1) by (simp add: nth_append)
  have "(patch m buf ?l)(buf + of_nat (length pre) := c) = patch m buf (?l[length pre := c])"
    by (rule patch_upd) (use Cons.prems in auto)
  moreover have "?l[length pre := c] = (pre @ [c]) @ ?junk @ s @ 0 # r"
    by (cases junk) (simp_all add: list_update_append)
  moreover have "of_nat (length (pre @ junk)) + 1 = (of_nat (length ((pre @ [c]) @ ?junk)) :: u32)"
    by (cases junk) simp_all
  moreover have "of_nat (length pre) + 1 = (of_nat (length (pre @ [c])) :: u32)" by simp
  moreover have "unat buf + length ((pre @ [c]) @ ?junk @ s @ 0 # r) \<le> 4294967296"
    using Cons.prems(1) by (cases junk) simp_all
  note IH = Cons.IH [OF this] 
  ultimately show ?case using at Cons.prems(2) IH
    by (subst move_front.simps) (cases junk, simp_all add: add.commute)
qed

fun hex_digits :: "nat \<Rightarrow> u8 list" where
  "hex_digits n = (if n < 16 then [hex_digit n] else hex_digits (n div 16) @ [hex_digit (n mod 16)])"

declare hex_digits.simps [simp del]

lemma hex_nibble: "unat (n AND 0xF :: u32) = unat n mod 16" "unat (drop_bit 4 n) = unat n div 16"
  using nibble_value [of 0 n] by (simp_all add: unat_drop_bit_eq drop_bit_eq_div unat_div)

lemma hex_loop_digits:
  assumes "length (hex_digits (unat n)) \<le> i" "i \<le> length l" "unat buf + length l \<le> 4294967296"
  shows "hex_loop_u buf n (of_nat i) (patch m buf l) =
    (of_nat (i - length (hex_digits (unat n))),
     patch m buf (take (i - length (hex_digits (unat n))) l @ hex_digits (unat n) @ drop i l))"
  using assms
proof (induction "unat n" arbitrary: n i l rule: less_induct)
  case less
  let ?d = "hex_digit (unat n mod 16)" and ?l = "l[i - 1 := hex_digit (unat n mod 16)]"
  have i: "0 < i" using less.prems(1) by (subst (asm) hex_digits.simps) (auto split: if_splits)
  then have im: "of_nat i - 1 = (of_nat (i - 1) :: u32)" by (simp add: of_nat_diff)
  have dl: "drop (i - 1) ?l = ?d # drop i l"
    using i less.prems(2) by (simp add: Cons_nth_drop_Suc [symmetric])
  have up: "(patch m buf l)(buf + of_nat (i - 1) := ?d) = patch m buf ?l"
    by (rule patch_upd) (use less.prems(2,3) i in auto)
  have st: "hex_loop_u buf n (of_nat i) (patch m buf l) =
      (if drop_bit 4 n = 0 then (of_nat (i - 1), patch m buf ?l) else hex_loop_u buf (drop_bit 4 n) (of_nat (i - 1)) (patch m buf ?l))"
    by (subst hex_loop_u.simps) (simp only: Let_def im hex_nibble(1) up)
  show ?case
  proof (cases "unat n < 16")
    case True
    then have "unat (drop_bit 4 n) = 0" by (simp add: hex_nibble)
    then have z: "drop_bit 4 n = 0" by (metis unat_eq_zero)
    have ds: "hex_digits (unat n) = [?d]" using True by (subst hex_digits.simps) simp
    have "?l = take (i - 1) l @ ?d # drop i l"
      using dl append_take_drop_id [of "i - 1" ?l] by (metis take_update_cancel order_refl)
    then show ?thesis unfolding st ds using z by simp
  next
    case False
    let ?k = "length (hex_digits (unat (drop_bit 4 n)))"
    have ud: "unat (drop_bit 4 n) = unat n div 16" by (simp add: hex_nibble)
    have ds: "hex_digits (unat n) = hex_digits (unat (drop_bit 4 n)) @ [?d]" using False ud by (subst hex_digits.simps) simp
    have lt: "unat (drop_bit 4 n) < unat n" using False unfolding ud by simp
    have "unat (drop_bit 4 n) \<noteq> 0" using False unfolding ud by simp
    then have nz: "drop_bit 4 n \<noteq> 0" by (metis unat_0)
    have len: "?k \<le> i - 1" using less.prems(1) unfolding ds by simp
    have e: "hex_loop_u buf n (of_nat i) (patch m buf l) =
        (of_nat (i - 1 - ?k), patch m buf (take (i - 1 - ?k) ?l @ hex_digits (unat (drop_bit 4 n)) @ drop (i - 1) ?l))"
      unfolding st using less.hyps [OF lt len, of ?l] less.prems(2,3) nz by simp
    have "take (i - 1 - ?k) ?l = take (i - Suc ?k) l" by simp
    then show ?thesis unfolding e dl ds by simp
  qed
qed

lemma dec_digits_bound: "0 < k \<Longrightarrow> n < 10 ^ k \<Longrightarrow> length (dec_digits n) \<le> k"
proof (induction k arbitrary: n)
  case (Suc k)
  show ?case
  proof (cases "n < 10")
    case True
    then show ?thesis by (subst dec_digits.simps) simp
  next
    case False
    have "n div 10 < 10 ^ k" using Suc.prems(2) by (simp add: less_mult_imp_div_less)
    moreover have "0 < k" using False Suc.prems(2) by (cases k) simp_all
    ultimately show ?thesis using Suc.IH False by (subst dec_digits.simps) simp
  qed
qed simp

lemma hex_digits_bound: "0 < k \<Longrightarrow> n < 16 ^ k \<Longrightarrow> length (hex_digits n) \<le> k"
proof (induction k arbitrary: n)
  case (Suc k)
  show ?case
  proof (cases "n < 16")
    case True
    then show ?thesis by (subst hex_digits.simps) simp
  next
    case False
    have "n div 16 < 16 ^ k" using Suc.prems(2) by (simp add: less_mult_imp_div_less)
    moreover have "0 < k" using False Suc.prems(2) by (cases k) simp_all
    ultimately show ?thesis using Suc.IH False by (subst hex_digits.simps) simp
  qed
qed simp

lemma dec_char: "k < 10 \<Longrightarrow> unat (of_nat (48 + k) :: u8) = 48 + k"
  by (rule unat_of_nat8_small) simp

lemma dec_digits_chars: "c \<in> set (dec_digits n) \<Longrightarrow> 48 \<le> unat c \<and> unat c < 58"
proof (induction n rule: dec_digits.induct)
  case (1 n)
  show ?case
  proof (cases "n < 10")
    case True
    then show ?thesis using 1(2) dec_char [of n] by (subst (asm) dec_digits.simps) simp
  next
    case False
    then have "c \<in> set (dec_digits (n div 10)) \<or> c = of_nat (48 + n mod 10)"
      using 1(2) by (subst (asm) dec_digits.simps) auto
    then show ?thesis using 1(1) [OF False] dec_char [of "n mod 10"] by auto
  qed
qed

definition dec_value :: "u8 list \<Rightarrow> nat" where
  "dec_value s = foldl (\<lambda>acc c. acc * 10 + (unat c - 48)) 0 s"

lemma dec_value_digits: "dec_value (dec_digits n) = n"
proof (induction n rule: dec_digits.induct)
  case (1 n)
  show ?case
  proof (cases "n < 10")
    case True
    then show ?thesis using dec_char [of n] by (subst dec_digits.simps) (simp add: dec_value_def)
  next
    case False
    then show ?thesis using 1 [OF False] dec_char [of "n mod 10"] by (subst dec_digits.simps) (simp add: dec_value_def)
  qed
qed

text \<open>The string of a signed number, and the number of such a string.\<close>

definition dec_string :: "u32 \<Rightarrow> u8 list" where
  "dec_string n = (if sint n < 0 then 0x2D # dec_digits (unat (- n)) else dec_digits (unat n))"

definition int_value :: "u8 list \<Rightarrow> int" where
  "int_value s = (if s \<noteq> [] \<and> hd s = 0x2D then - int (dec_value (tl s)) else int (dec_value s))"

lemma dec_digits_head: "dec_digits n \<noteq> [] \<and> hd (dec_digits n) \<noteq> 0x2D"
proof -
  have ne: "dec_digits n \<noteq> []" by (subst dec_digits.simps) simp
  then have "48 \<le> unat (hd (dec_digits n))" using dec_digits_chars hd_in_set by blast
  then show ?thesis using ne by auto
qed

lemma sint_cases: "sint n = (if sint n < 0 then uint n - 4294967296 else uint (n :: u32))"
proof -
  have "take_bit 32 (uint n) = uint n" by (rule take_bit_int_eq_self) (use uint_bounded [of n] in simp_all)
  then have "sint n = (if bit (uint n) 31 then uint n - 4294967296 else uint n)"
    by (simp add: sint_uint signed_take_bit_eq_take_bit_minus)
  then show ?thesis using uint_bounded [of n] by (auto split: if_splits)
qed

lemma dec_string_value: "int_value (dec_string n) = sint n"
proof (cases "sint n < 0")
  case True
  then have s: "sint n = uint n - 4294967296" using sint_cases [of n] by simp
  have "0 \<le> uint n" "uint n < 4294967296" using uint_bounded [of n] by simp_all
  moreover have "uint n \<noteq> 0" using True by (auto simp: sint_uint)
  ultimately have "uint (- n) = 2 ^ 32 - uint n" by (simp add: uint_word_ariths zmod_zminus1_eq_if)
  then have "int (unat (- n)) = - sint n" using s by simp
  then show ?thesis using True by (simp add: int_value_def dec_string_def dec_value_digits)
next
  case False
  then have "sint n = int (unat n)" using sint_cases [of n] by simp
  then show ?thesis using False dec_digits_head [of "unat n"] by (simp add: int_value_def dec_string_def dec_value_digits)
qed

section \<open>Strings of their own\<close>

text \<open>Filling a block that has just been handed out.\<close>

lemma fill_block:
  assumes "umem_run lo u L" "umem_room sz u" "malloc sz u = Inr (buf, u1)" "length l = unat sz"
  shows "umem_run lo (u1\<lparr>um := patch (um u1) buf l\<rparr>) (L(buf \<mapsto> unat sz)) \<and> kept lo L (um u) (patch (um u1) buf l) \<and>
    unat buf + unat sz < 4294967296 \<and> lo \<le> unat buf \<and> unat (u_break u1) \<le> unat (u_break u) + 65536 \<and> buf \<noteq> 0 \<and> L buf = None"
proof -
  have m: "buf \<noteq> 0" "L buf = None" "umem_run lo u1 (L(buf \<mapsto> unat sz))" "kept lo L (um u) (um u1)"
    "unat (u_break u1) \<le> unat (u_break u) + 65536"
    using malloc_run [OF assms(1,2)] assms(3) by auto
  have hb: "(L(buf \<mapsto> unat sz)) buf = Some (unat sz)" by simp
  note r = umem_run_ranges [OF m(3) hb]
  have out: "\<forall>a. (\<forall>i<unat sz. a \<noteq> buf + of_nat i) \<longrightarrow> patch (um u1) buf l a = um u1 a"
    using patch_outside [of l _ buf "um u1"] assms(4) by simp
  have e: "(L(buf \<mapsto> unat sz))(buf := None) = L" using m(2) by auto
  have "kept lo L (um u1) (patch (um u1) buf l)" using store_kept [OF m(3) hb out] unfolding e .
  then show ?thesis using store_run [OF m(3) hb out] kept_trans [OF m(4)] r(1,2) m(1,2,5) by blast
qed

lemma block_bytes:
  assumes "unat buf + n < 4294967296"
  obtains l where "length l = n" "m = patch m buf l"
  using patch_self [of buf n m] assms by (metis less_imp_le length_map length_upt minus_nat.diff_0)

lemma patch_patch: "length l = length l' \<Longrightarrow> patch (patch m buf l) buf l' = patch m buf l'"
  by (rule ext) (simp add: patch_def)

lemma moved_to_front:
  assumes "length l = n" "unat buf + n < 4294967296" "drop i l = s @ [0]" "0 \<notin> set s" "i \<le> n"
  shows "\<exists>r. move_front buf (of_nat i) 0 (patch m buf l) = Some (patch m buf (s @ 0 # r)) \<and> length (s @ 0 # r) = n"
proof -
  have l: "l = [] @ take i l @ s @ 0 # []" using assms(3) append_take_drop_id [of i l] by simp
  have "unat buf + length ([] @ take i l @ s @ 0 # []) \<le> 4294967296" using assms(1,2) by (simp only: l [symmetric])
  from move_front_moves [OF this assms(4), of m]
  obtain r where "move_front buf (of_nat (length (take i l))) 0 (patch m buf l) = Some (patch m buf (s @ 0 # r))"
    "length (s @ 0 # r) = length l" unfolding l [symmetric] by auto
  then show ?thesis using assms(1,5) by auto
qed

lemma itoa_steps:
  assumes "malloc 12 u = Inr (buf, u1)" "buf \<noteq> 0" "num = (if sint n < 0 then - n else n)" "m0 = (um u1)(buf + 11 := 0)"
    and "(case (if num = 0 then (10, m0(buf + 10 := 0x30)) else (11, m0)) of (i, m) \<Rightarrow> dec_loop buf num i m) = (i1, m1)"
    and "(if sint n < 0 then (i1 - 1, m1(buf + (i1 - 1) := 0x2D)) else (i1, m1)) = (i2, m2)" "move_front buf i2 0 m2 = Some m3"
  shows "itoa n u = Inr (buf, u1\<lparr>um := m3\<rparr>)"
  using assms by (simp add: itoa_def Let_def split: if_splits)

lemma itoa_result:
  assumes "umem_run lo u L" "umem_room 12 u"
  shows "\<exists>p u'. itoa n u = Inr (p, u') \<and> umem_run lo u' (L(p \<mapsto> 12)) \<and> L p = None \<and> kept lo L (um u) (um u') \<and>
    cstring (um u') p (dec_string n) \<and> unat (u_break u') \<le> unat (u_break u) + 65536"
proof -
  obtain buf u1 where m: "malloc 12 u = Inr (buf, u1)" using malloc_run [OF assms] by blast
  have fb: "umem_run lo (u1\<lparr>um := patch (um u1) buf l\<rparr>) (L(buf \<mapsto> 12)) \<and> kept lo L (um u) (patch (um u1) buf l) \<and>
    unat buf + 12 < 4294967296 \<and> unat (u_break u1) \<le> unat (u_break u) + 65536 \<and> buf \<noteq> 0 \<and> L buf = None" if "length l = 12" for l
    using fill_block [OF assms m, of l] that by simp
  have b: "unat buf + 12 < 4294967296" "buf \<noteq> 0" using fb [of "replicate 12 0"] by simp_all
  obtain l where l: "length l = 12" "um u1 = patch (um u1) buf l" using block_bytes [OF b(1)] .
  define num where "num = (if sint n < 0 then - n else n)"
  define ds where "ds = dec_digits (unat num)"
  have dl: "length ds \<le> 10" "0 < length ds"
    unfolding ds_def using dec_digits_bound [of 10 "unat num"] unat_bound32 [of num] dec_digits_head [of "unat num"] by simp_all
  have ends: "(um u1)(buf + 11 := 0) = patch (um u1) buf (l[11 := 0])"
    using patch_upd [of buf l 11 "um u1" 0] l b(1) by simp
  let ?l0 = "l[11 := 0]" and ?l1 = "take (11 - length ds) (l[11 := 0]) @ ds @ [0]"
  have l0: "length ?l0 = 12" "drop 11 ?l0 = [0]" using l(1) Cons_nth_drop_Suc [of 11 "l[11 := 0]"] by simp_all
  have digits: "(case (if num = 0 then (10, (patch (um u1) buf ?l0)(buf + 10 := 0x30)) else (11, patch (um u1) buf ?l0)) of
      (i, m) \<Rightarrow> dec_loop buf num i m) = (of_nat (11 - length ds), patch (um u1) buf ?l1)"
  proof (cases "num = 0")
    case True
    then have d: "ds = [0x30]" unfolding ds_def by (subst dec_digits.simps) simp
    have "(patch (um u1) buf ?l0)(buf + 10 := 0x30) = patch (um u1) buf (?l0[10 := 0x30])"
      using patch_upd [of buf ?l0 10 "um u1" "0x30"] l0(1) b(1) by simp
    moreover have "?l0[10 := 0x30] = take 10 ?l0 @ 0x30 # drop 11 ?l0"
      using l0(1) by (simp add: upd_conv_take_nth_drop)
    ultimately show ?thesis using True l0(2) d by (subst dec_loop.simps) simp
  next
    case False
    have "dec_loop buf num (of_nat 11) (patch (um u1) buf ?l0) =
        (of_nat (11 - length ds), patch (um u1) buf (take (11 - length ds) ?l0 @ ds @ drop 11 ?l0))"
      unfolding ds_def by (rule dec_loop_digits [OF False]) (use dl(1) l0(1) b(1) in \<open>simp_all add: ds_def\<close>)
    then show ?thesis using False l0(2) by simp
  qed
  have l1: "length ?l1 = 12" "drop (11 - length ds) ?l1 = ds @ [0]" using l0(1) dl by simp_all
  let ?i = "if sint n < 0 then 10 - length ds else 11 - length ds"
  let ?l2 = "if sint n < 0 then ?l1[10 - length ds := 0x2D] else ?l1"
  have signed: "(if sint n < 0 then ((of_nat (11 - length ds) :: u32) - 1, (patch (um u1) buf ?l1)(buf + (of_nat (11 - length ds) - 1) := 0x2D))
      else (of_nat (11 - length ds), patch (um u1) buf ?l1)) = (of_nat ?i, patch (um u1) buf ?l2)"
  proof (cases "sint n < 0")
    case True
    have i: "of_nat (11 - length ds) - 1 = (of_nat (10 - length ds) :: u32)" using dl by (simp add: of_nat_diff)
    have "(patch (um u1) buf ?l1)(buf + of_nat (10 - length ds) := 0x2D) = patch (um u1) buf (?l1[10 - length ds := 0x2D])"
      by (rule patch_upd) (use l1(1) b(1) dl in simp_all)
    then show ?thesis using True i by simp
  qed simp
  have "drop ?i ?l2 = dec_string n @ [0]"
  proof (cases "sint n < 0")
    case True
    have lt: "10 - length ds < length ?l1" using l1(1) by linarith
    then have "drop (10 - length ds) (?l1[10 - length ds := 0x2D]) = 0x2D # drop (Suc (10 - length ds)) ?l1"
      by (metis (no_types, lifting) Cons_nth_drop_Suc drop_update_cancel length_list_update lessI nth_list_update_eq)
    then have "drop ?i ?l2 = 0x2D # drop (Suc (10 - length ds)) ?l1" using True by (simp only: if_True)
    moreover have s: "Suc (10 - length ds) = 11 - length ds" using dl by simp
    ultimately have e: "drop ?i ?l2 = 0x2D # ds @ [0]" by (simp only: s l1(2))
    have d: "dec_string n = 0x2D # ds" using True by (simp add: dec_string_def ds_def num_def)
    show ?thesis by (simp only: e d append_Cons)
  next
    case False
    then show ?thesis using l1(2) by (simp add: dec_string_def ds_def num_def)
  qed
  moreover have "0 \<notin> set (dec_string n)"
    using dec_digits_chars [of 0] by (auto simp: dec_string_def)
  moreover have "length ?l2 = 12" using l1(1) by simp
  moreover have "?i \<le> 12" by (auto intro: le_trans [OF diff_le_self])
  ultimately obtain r where r: "move_front buf (of_nat ?i) 0 (patch (um u1) buf ?l2) = Some (patch (um u1) buf (dec_string n @ 0 # r))"
    "length (dec_string n @ 0 # r) = 12" using moved_to_front [of ?l2 12 buf ?i "dec_string n" "um u1"] b(1) by blast
  have "itoa n u = Inr (buf, u1\<lparr>um := patch (um u1) buf (dec_string n @ 0 # r)\<rparr>)"
    by (rule itoa_steps [OF m b(2) num_def ends [symmetric] digits signed r(1)])
  moreover have "cstring (patch (um u1) buf (dec_string n @ 0 # r)) buf (dec_string n)"
    by (rule patch_cstring) (use r(2) b(1) \<open>0 \<notin> set (dec_string n)\<close> in simp_all)
  ultimately show ?thesis using fb [OF r(2)] by simp
qed

lemma hex_digits_chars: "c \<in> set (hex_digits n) \<Longrightarrow> c \<noteq> 0"
proof (induction n rule: hex_digits.induct)
  case (1 n)
  have d: "hex_digit k \<noteq> 0" if "k < 16" for k
  proof
    assume "hex_digit k = 0"
    then have "unat (hex_digit k) = 0" by simp
    then show False using that by (simp add: hex_digit_def unat_of_nat8_small del: of_nat_add split: if_splits)
  qed
  show ?case
  proof (cases "n < 16")
    case True
    then show ?thesis using 1(2) d by (subst (asm) hex_digits.simps) simp
  next
    case False
    then have "c \<in> set (hex_digits (n div 16)) \<or> c = hex_digit (n mod 16)"
      using 1(2) by (subst (asm) hex_digits.simps) auto
    then show ?thesis using 1(1) [OF False] d [of "n mod 16"] by auto
  qed
qed

definition hex_value_of :: "u8 list \<Rightarrow> nat" where
  "hex_value_of s = foldl (\<lambda>acc c. acc * 16 + hex_value c) 0 s"

lemma hex_value_of_digits: "hex_value_of (hex_digits n) = n"
proof (induction n rule: hex_digits.induct)
  case (1 n)
  show ?case
  proof (cases "n < 16")
    case True
    then show ?thesis by (subst hex_digits.simps) (simp add: hex_value_of_def hex_value_digit)
  next
    case False
    then show ?thesis using 1 [OF False] by (subst hex_digits.simps) (simp add: hex_value_of_def hex_value_digit)
  qed
qed

lemma itoa_hex_result:
  assumes "umem_run lo u L" "umem_room 9 u"
  shows "\<exists>p u'. itoa_hex n u = Inr (p, u') \<and> umem_run lo u' (L(p \<mapsto> 9)) \<and> L p = None \<and> kept lo L (um u) (um u') \<and>
    cstring (um u') p (hex_digits (unat n)) \<and> unat (u_break u') \<le> unat (u_break u) + 65536"
proof -
  obtain buf u1 where m: "malloc 9 u = Inr (buf, u1)" using malloc_run [OF assms] by blast
  have fb: "umem_run lo (u1\<lparr>um := patch (um u1) buf l\<rparr>) (L(buf \<mapsto> 9)) \<and> kept lo L (um u) (patch (um u1) buf l) \<and>
    unat buf + 9 < 4294967296 \<and> unat (u_break u1) \<le> unat (u_break u) + 65536 \<and> buf \<noteq> 0 \<and> L buf = None" if "length l = 9" for l
    using fill_block [OF assms m, of l] that by simp
  have b: "unat buf + 9 < 4294967296" "buf \<noteq> 0" using fb [of "replicate 9 0"] by simp_all
  obtain l where l: "length l = 9" "um u1 = patch (um u1) buf l" using block_bytes [OF b(1)] .
  let ?ds = "hex_digits (unat n)" and ?l0 = "l[8 := 0]"
  have dl: "length ?ds \<le> 8" using hex_digits_bound [of 8 "unat n"] unat_bound32 [of n] by simp
  have ends: "(um u1)(buf + 8 := 0) = patch (um u1) buf ?l0"
    using patch_upd [of buf l 8 "um u1" 0] l b(1) by simp
  have l0: "length ?l0 = 9" "drop 8 ?l0 = [0]" using l(1) Cons_nth_drop_Suc [of 8 "l[8 := 0]"] by simp_all
  let ?l1 = "take (8 - length ?ds) ?l0 @ ?ds @ [0]"
  have digits: "hex_loop_u buf n 8 (patch (um u1) buf ?l0) = (of_nat (8 - length ?ds), patch (um u1) buf ?l1)"
    using hex_loop_digits [of n 8 ?l0 buf "um u1"] dl l0 b(1) by simp
  have "length ?l1 = 9" "drop (8 - length ?ds) ?l1 = ?ds @ [0]" "0 \<notin> set ?ds"
    using l0(1) dl hex_digits_chars by auto
  moreover have "8 - length ?ds \<le> 9" by (rule le_trans [OF diff_le_self]) simp
  ultimately obtain r where r: "move_front buf (of_nat (8 - length ?ds)) 0 (patch (um u1) buf ?l1) = Some (patch (um u1) buf (?ds @ 0 # r))"
    "length (?ds @ 0 # r) = 9" using moved_to_front [of ?l1 9 buf "8 - length ?ds" ?ds "um u1"] b(1) by auto
  have "itoa_hex n u = Inr (buf, u1\<lparr>um := patch (um u1) buf (?ds @ 0 # r)\<rparr>)"
    by (simp only: itoa_hex_def m and_then_simps b(2) if_False ends digits prod.case Let_def r(1) ran_Some)
  moreover have "cstring (patch (um u1) buf (?ds @ 0 # r)) buf ?ds"
    by (rule patch_cstring) (use r(2) b(1) \<open>0 \<notin> set ?ds\<close> in simp_all)
  ultimately show ?thesis using fb [OF r(2)] by simp
qed

text \<open>
  A string that can be read: its bytes and its NUL lie in front of the arena or in an allocation.
\<close>

definition readable :: "nat \<Rightarrow> (u32 \<Rightarrow> nat option) \<Rightarrow> u32 \<Rightarrow> nat \<Rightarrow> bool" where
  "readable lo L p n \<longleftrightarrow> unat p + n \<le> lo \<or> (\<exists>q k i. L q = Some k \<and> p = q + of_nat i \<and> i + n \<le> k)"

lemma kept_read:
  assumes "kept lo L m m'" "readable lo L p n" "i < n" "lo < 4294967296"
  shows "m' (p + of_nat i) = m (p + of_nat i)"
proof -
  consider "unat p + n \<le> lo" | q k j where "L q = Some k" "p = q + of_nat j" "j + n \<le> k"
    using assms(2) by (auto simp: readable_def)
  then show ?thesis
  proof cases
    case 1
    then have "unat (p + of_nat i) = unat p + i" using assms(3,4) by (intro unat_add_nat) linarith
    then show ?thesis using assms(1,3) 1 by (simp add: kept_def)
  next
    case 2
    then show ?thesis using assms(1,3) by (simp add: kept_def add.assoc flip: of_nat_add)
  qed
qed

lemma kept_cstring:
  assumes "kept lo L m m'" "readable lo L p (length s + 1)" "cstring m p s" "lo < 4294967296"
  shows "cstring m' p s"
  using kept_read [OF assms(1,2) _ assms(4)] assms(3) by (simp add: cstring_def)

lemma umem_run_lo: "umem_run lo u L \<Longrightarrow> lo < 4294967296"
  using umem_run_inv [of lo u L] by (auto simp: uinv_def mmap_start_def)

lemma readable_apart:
  assumes "umem_run lo u L" "L q = Some k" "readable lo (L(q := None)) p n" "i < n" "j < k"
  shows "p + of_nat i \<noteq> q + of_nat j"
proof -
  note r = umem_run_ranges [OF assms(1,2)]
  have uq: "unat (q + of_nat j) = unat q + j" using r(1) assms(5) by (intro unat_add_nat) linarith
  consider "unat p + n \<le> lo" | q' k' o' where "L q' = Some k'" "q' \<noteq> q" "p = q' + of_nat o'" "o' + n \<le> k'"
    using assms(3) by (auto simp: readable_def split: if_splits)
  then have "unat (p + of_nat i) \<noteq> unat (q + of_nat j)"
  proof cases
    case 1
    then have "unat (p + of_nat i) = unat p + i" using umem_run_lo [OF assms(1)] assms(4) by (intro unat_add_nat) linarith
    then show ?thesis using uq r(2) 1 assms(4) by linarith
  next
    case 2
    have "unat (q' + of_nat (o' + i)) = unat q' + (o' + i)"
      using umem_run_ranges(1) [OF assms(1) 2(1)] 2(4) assms(4) by (intro unat_add_nat) linarith
    moreover have "unat q + k \<le> unat q' \<or> unat q' + k' \<le> unat q" by (rule r(3) [OF 2(1)]) (use 2(2) in simp)
    moreover have e: "p + of_nat i = q' + of_nat (o' + i)" by (simp add: 2(3) add.assoc)
    ultimately show ?thesis unfolding e uq using 2(4) assms(4,5) by linarith
  qed
  then show ?thesis by metis
qed

text \<open>Copying into a buffer from outside of it.\<close>

lemma kmemcpy_patch:
  assumes "unat b + length l \<le> 4294967296" "k + n \<le> length l" "\<And>i j. i < n \<Longrightarrow> j < length l \<Longrightarrow> src + of_nat i \<noteq> b + of_nat j"
  shows "kmemcpy (patch m b l) (b + of_nat k) src n =
    patch m b (take k l @ map (\<lambda>i. m (src + of_nat i)) [0..<n] @ drop (k + n) l)"
  using assms
proof (induction n arbitrary: k src l)
  case (Suc n)
  have out: "patch m b l src = m src" by (rule patch_outside) (use Suc.prems(3) [of 0] in simp)
  have up: "(patch m b l)(b + of_nat k := m src) = patch m b (l[k := m src])" by (rule patch_upd) (use Suc.prems in auto)
  have next_src: "src + 1 + of_nat i \<noteq> b + of_nat j" if "i < n" "j < length (l[k := m src])" for i j
    using Suc.prems(3) [of "Suc i" j] that by (simp add: add.assoc)
  have "kmemcpy (patch m b l) (b + of_nat k) src (Suc n) =
      kmemcpy (patch m b (l[k := m src])) (b + of_nat (Suc k)) (src + 1) n"
    by (simp add: out up algebra_simps)
  also have "\<dots> = patch m b (take (Suc k) (l[k := m src]) @ map (\<lambda>i. m (src + 1 + of_nat i)) [0..<n] @ drop (Suc k + n) (l[k := m src]))"
    by (rule Suc.IH) (use Suc.prems(1,2) next_src in simp_all)
  also have "take (Suc k) (l[k := m src]) = take k l @ [m src]" using Suc.prems(2) by (simp add: take_Suc_conv_app_nth)
  also have "map (\<lambda>i. m (src + 1 + of_nat i)) [0..<n] = map (\<lambda>i. m (src + of_nat i)) [1..<Suc n]"
    unfolding One_nat_def map_Suc_upt [symmetric] by (simp add: o_def add.assoc)
  also have "(take k l @ [m src]) @ map (\<lambda>i. m (src + of_nat i)) [1..<Suc n] @ drop (Suc k + n) (l[k := m src]) =
      take k l @ map (\<lambda>i. m (src + of_nat i)) [0..<Suc n] @ drop (k + Suc n) l"
    by (subst (2) upt_conv_Cons) simp_all
  finally show ?case .
qed simp

lemma cstring_bytes: "cstring m p s \<Longrightarrow> map (\<lambda>i. m (p + of_nat i)) [0..<length s] = s"
  by (rule nth_equalityI) (simp_all add: cstring_def)

lemma cstring_bytes_nul: "cstring m p s \<Longrightarrow> map (\<lambda>i. m (p + of_nat i)) [0..<length s + 1] = s @ [0]"
  using cstring_bytes [of m p s] by (simp add: cstring_def)

lemma strdup_result:
  assumes "umem_run lo u L" "umem_room (of_nat (length s + 1)) u" "cstring (um u) p s" "readable lo L p (length s + 1)" "p \<noteq> 0"
    and "length s + 1 < 4294967296"
  shows "\<exists>q u'. strdup p u = Inr (q, u') \<and> q \<noteq> 0 \<and> umem_run lo u' (L(q \<mapsto> length s + 1)) \<and> L q = None \<and> kept lo L (um u) (um u') \<and>
    cstring (um u') q s \<and> unat (u_break u') \<le> unat (u_break u) + 65536"
proof -
  let ?n = "length s + 1" and ?l = "s @ [0]"
  have n: "unat (of_nat ?n :: u32) = ?n" by (rule unat_of_nat_small [OF assms(6)])
  from malloc_run [OF assms(1,2)] obtain q u1 where m: "malloc (of_nat ?n) u = Inr (q, u1)" "q \<noteq> 0" "L q = None"
    "umem_run lo u1 (L(q \<mapsto> ?n))" "kept lo L (um u) (um u1)" "unat (u_break u1) \<le> unat (u_break u) + 65536"
    unfolding n by blast
  have hq: "(L(q \<mapsto> ?n)) q = Some ?n" by simp
  have q: "unat q + ?n < 4294967296" using umem_run_ranges(1) [OF m(4) hq] .
  have e: "(L(q \<mapsto> ?n))(q := None) = L" using m(3) by auto
  have ap: "p + of_nat i \<noteq> q + of_nat j" if "i < ?n" "j < ?n" for i j
    by (rule readable_apart [OF m(4) hq _ that]) (unfold e, rule assms(4))
  have src: "cstring (um u1) p s" by (rule kept_cstring [OF m(5) assms(4,3) umem_run_lo [OF assms(1)]])
  obtain l where l: "length l = ?n" "um u1 = patch (um u1) q l" using block_bytes [OF q] .
  have "kmemcpy (patch (um u1) q l) (q + of_nat 0) p ?n =
      patch (um u1) q (take 0 l @ map (\<lambda>i. um u1 (p + of_nat i)) [0..<?n] @ drop (0 + ?n) l)"
    by (rule kmemcpy_patch) (use q l(1) ap in simp_all)
  then have pt: "kmemcpy (um u1) q p ?n = patch (um u1) q ?l"
    unfolding l(2) [symmetric] using l(1) cstring_bytes_nul [OF src] by simp
  have fl: "length ?l = unat (of_nat ?n :: u32)" using n by simp
  have f: "umem_run lo (u1\<lparr>um := patch (um u1) q ?l\<rparr>) (L(q \<mapsto> ?n))" "kept lo L (um u) (patch (um u1) q ?l)"
    using fill_block [OF assms(1,2) m(1) fl] unfolding n by blast+
  have "ustrlen (um u) p = Some (of_nat (length s))" using kstrlen_cstring [OF assms(3)] by (simp add: ustrlen_def kstrlen_def)
  moreover have "of_nat (length s) + 1 = (of_nat ?n :: u32)" by simp
  ultimately have "strdup p u = Inr (q, u1\<lparr>um := patch (um u1) q ?l\<rparr>)"
    using assms(5) m(2)
    by (simp only: strdup_def Let_def ran_Some and_then_simps if_False if_True m(1) n pt prod.case not_False_eq_True)
  moreover have "cstring (patch (um u1) q ?l) q s"
    by (rule patch_cstring) (use q assms(3) in \<open>auto simp: cstring_def\<close>)
  ultimately show ?thesis using f m(2,3,6) by simp
qed

section \<open>Tokens\<close>

function toks :: "u8 set \<Rightarrow> u8 list \<Rightarrow> u8 list list" where
  "toks D s = (case dropWhile (\<lambda>c. c \<in> D) s of [] \<Rightarrow> []
     | c # cs \<Rightarrow> takeWhile (\<lambda>c. c \<notin> D) (c # cs) # toks D (dropWhile (\<lambda>c. c \<notin> D) (c # cs)))"
  by pat_completeness auto
termination
proof (relation "measure (\<lambda>(D, s). length s)")
  fix D s c and cs :: "u8 list"
  assume d: "dropWhile (\<lambda>c. c \<in> D) s = c # cs"
  then have "c \<notin> D" by (metis dropWhile_eq_Cons_conv)
  then have "length (dropWhile (\<lambda>c. c \<notin> D) (c # cs)) \<le> length cs" by (simp add: length_dropWhile_le)
  also have "length (c # cs) \<le> length s" unfolding d [symmetric] by (rule length_dropWhile_le)
  then have "length cs < length s" by simp
  finally show "((D, dropWhile (\<lambda>c. c \<notin> D) (c # cs)), D, s) \<in> measure (\<lambda>(D, s). length s)" by simp
qed simp

declare toks.simps [simp del]

lemma is_delim_result:
  "cstring m d ds \<Longrightarrow> is_delim m c d = Some (c \<in> set ds)"
proof (induction ds arbitrary: d)
  case Nil
  then show ?case by (subst is_delim.simps) (simp add: cstring_Nil)
next
  case (Cons x ds)
  then have x: "m d = x" "x \<noteq> 0" "cstring m (d + 1) ds" by (simp_all add: cstring_Cons)
  show ?case using x(1,2) Cons.IH [OF x(3)] by (subst is_delim.simps) auto
qed

lemma skip_delims_result:
  assumes "cstring m d ds"
  shows "cstring m p s \<Longrightarrow> skip_delims m d p = Some (p + of_nat (length (takeWhile (\<lambda>c. c \<in> set ds) s)))"
proof (induction s arbitrary: p)
  case Nil
  then show ?case by (subst skip_delims.simps) (simp add: cstring_Nil)
next
  case (Cons x s)
  then have x: "m p = x" "x \<noteq> 0" "cstring m (p + 1) s" by (simp_all add: cstring_Cons)
  show ?case using x(1,2) Cons.IH [OF x(3)] by (subst skip_delims.simps) (simp add: is_delim_result [OF assms] add.assoc)
qed

lemma token_end_result:
  assumes "cstring m d ds"
  shows "cstring m p s \<Longrightarrow> token_end m d p = Some (p + of_nat (length (takeWhile (\<lambda>c. c \<notin> set ds) s)))"
proof (induction s arbitrary: p)
  case Nil
  then show ?case by (subst token_end.simps) (simp add: cstring_Nil)
next
  case (Cons x s)
  then have x: "m p = x" "x \<noteq> 0" "cstring m (p + 1) s" by (simp_all add: cstring_Cons)
  show ?case using x(1,2) Cons.IH [OF x(3)] by (subst token_end.simps) (simp add: is_delim_result [OF assms] add.assoc)
qed

lemma cstring_append:
  "cstring m p (s @ t) \<Longrightarrow> cstring m (p + of_nat (length s)) t"
  by (induction s arbitrary: p) (simp_all add: cstring_Cons flip: add.assoc)

lemma cstring_front:
  "cstring m p (s @ t) \<Longrightarrow> m (p + of_nat (length s)) = (if t = [] then 0 else hd t)"
proof -
  assume "cstring m p (s @ t)"
  from cstring_append [OF this] show ?thesis by (cases t) (simp_all add: cstring_Nil cstring_Cons)
qed

text \<open>
  What the tokeniser keeps: \<open>save\<close> points into the block of \<open>n\<close> bytes at \<open>c\<close> and the string there has the
  tokens \<open>ts\<close>, or it is 0 and no token is left.
\<close>

definition tok_state :: "u8 set \<Rightarrow> u32 \<Rightarrow> nat \<Rightarrow> bytes_mem \<Rightarrow> u32 \<Rightarrow> u8 list list \<Rightarrow> bool" where
  "tok_state D c n m save ts \<longleftrightarrow> save = 0 \<and> ts = [] \<or>
     (\<exists>s i. save = c + of_nat i \<and> i + length s + 1 \<le> n \<and> cstring m save s \<and> ts = toks D s)"

definition tok_at :: "u32 \<Rightarrow> nat \<Rightarrow> bytes_mem \<Rightarrow> u32 \<Rightarrow> u8 list \<Rightarrow> bool" where
  "tok_at c n m p t \<longleftrightarrow> (\<exists>i. p = c + of_nat i \<and> i + length t + 1 \<le> n \<and> cstring m p t)"

text \<open>The current token \<open>p\<close> of the rest \<open>ts\<close>.\<close>

definition splitting :: "u8 set \<Rightarrow> u32 \<Rightarrow> nat \<Rightarrow> bytes_mem \<Rightarrow> u32 \<Rightarrow> u32 \<Rightarrow> u8 list list \<Rightarrow> bool" where
  "splitting D c n m p save ts \<longleftrightarrow>
     (case ts of [] \<Rightarrow> p = 0 | t # ts' \<Rightarrow> p \<noteq> 0 \<and> tok_at c n m p t \<and> tok_state D c n m save ts')"

lemma strtok_result:
  assumes "tok_state (set ds) c n m save ts" "cstring m d ds" "c \<noteq> 0" "unat c + n < 4294967296"
  shows "\<exists>p save' m'. strtok 0 d save m = Some (p, save', m') \<and> (\<forall>a. (\<forall>i<n. a \<noteq> c + of_nat i) \<longrightarrow> m' a = m a) \<and>
    splitting (set ds) c n m' p save' ts"
proof (cases "save = 0")
  case True
  have "s = [] \<Longrightarrow> toks D s = []" for D s by (subst toks.simps) simp
  moreover have "c + of_nat i \<noteq> 0" if "i < n" for i
  proof -
    have "unat (c + of_nat i) = unat c + i" using assms(4) that by (intro unat_add_nat) linarith
    then show ?thesis using assms(3) by (metis add_eq_0_iff_both_eq_0 unat_0 unat_eq_zero)
  qed
  ultimately have "ts = []" using assms(1) True by (fastforce simp: tok_state_def)
  then show ?thesis using True by (simp add: strtok_def splitting_def)
next
  case False
  then obtain s i where s: "save = c + of_nat i" "i + length s + 1 \<le> n" "cstring m save s" "ts = toks (set ds) s"
    using assms(1) by (auto simp: tok_state_def)
  let ?P = "\<lambda>c. c \<in> set ds" and ?Q = "\<lambda>c. c \<notin> set ds"
  define s1 where "s1 = dropWhile ?P s"
  define k where "k = length (takeWhile ?P s)"
  have sk: "skip_delims m d save = Some (save + of_nat k)" using skip_delims_result [OF assms(2) s(3)] by (simp add: k_def)
  have split: "s = takeWhile ?P s @ s1" by (simp add: s1_def)
  have c1: "cstring m (save + of_nat k) s1" using cstring_append [of m save "takeWhile ?P s" s1] s(3) split by (simp add: k_def)
  have len: "k + length s1 = length s" using arg_cong [OF split, of length] by (simp add: k_def)
  have at: "save + of_nat k = c + of_nat (i + k)" using s(1) by (simp add: add.assoc)
  show ?thesis
  proof (cases s1)
    case Nil
    then have d: "dropWhile ?P s = []" by (simp only: s1_def)
    have "ts = []" unfolding s(4) by (subst toks.simps) (simp only: d list.case)
    moreover have "m (save + of_nat k) = 0" using c1 Nil by (simp add: cstring_Nil)
    ultimately show ?thesis using False sk by (simp add: strtok_def splitting_def)
  next
    case (Cons x xs)
    define t where "t = takeWhile ?Q s1"
    define r where "r = dropWhile ?Q s1"
    have s1: "s1 = t @ r" by (simp add: t_def r_def)
    have d: "dropWhile ?P s = x # xs" using Cons by (simp only: s1_def)
    have ts: "ts = t # toks (set ds) r"
      unfolding s(4) t_def r_def Cons by (subst toks.simps) (simp only: d list.case)
    have nz: "m (save + of_nat k) \<noteq> 0" using c1 Cons by (simp add: cstring_Cons)
    let ?p = "save + of_nat k" and ?e = "save + of_nat k + of_nat (length t)"
    have te: "token_end m d ?p = Some ?e" using token_end_result [OF assms(2) c1] by (simp add: t_def)
    have er: "m ?e = (if r = [] then 0 else hd r)" using cstring_front [of m ?p t r] c1 s1 by simp
    have r0: "0 \<notin> set r" "0 \<notin> set t" using c1 s1 by (auto simp: cstring_def)
    have lt: "length t + length r = length s1" using s1 by simp
    have p0: "?p \<noteq> 0"
    proof -
      have "unat (c + of_nat (i + k)) = unat c + (i + k)" using assms(4) s(2) len by (intro unat_add_nat) linarith
      then show ?thesis unfolding at using assms(3) by (metis add_eq_0_iff_both_eq_0 unat_0 unat_eq_zero)
    qed
    show ?thesis
    proof (cases "r = []")
      case True
      have "tok_at c n m ?p t" unfolding tok_at_def using at s(2) len lt c1 s1 True by (intro exI [of _ "i + k"]) simp
      moreover have "tok_state (set ds) c n m 0 (toks (set ds) r)" using True by (subst toks.simps) (simp add: tok_state_def)
      moreover have "strtok 0 d save m = Some (?p, 0, m)" using False sk nz te er True by (simp add: strtok_def)
      ultimately show ?thesis using ts p0 by (simp add: splitting_def)
    next
      case rne: False
      then obtain y ys where r: "r = y # ys" by (cases r) auto
      let ?m = "m(?e := 0)"
      have ea: "?e = c + of_nat (i + k + length t)" using at by (simp add: add.assoc)
      have ilt: "i + k + length t < n" using s(2) len lt r by simp
      have inj: "c + of_nat j \<noteq> ?e" if "j < n" "j \<noteq> i + k + length t" for j
      proof -
        have "unat (c + of_nat j) = unat c + j" "unat ?e = unat c + (i + k + length t)"
          unfolding ea using assms(4) that ilt by (intro unat_add_nat; linarith)+
        then have "unat (c + of_nat j) \<noteq> unat ?e" using that(2) by linarith
        then show ?thesis by metis
      qed
      have pj: "?p + of_nat j = c + of_nat (i + k + j)" for j using at by (simp add: add.assoc)
      have ct: "cstring ?m ?p t"
      proof -
        have "?m (?p + of_nat j) = t ! j" if "j < length t" for j
        proof -
          have "?p + of_nat j \<noteq> ?e" unfolding pj [of j] by (rule inj) (use that ilt in auto)
          moreover have "m (?p + of_nat j) = t ! j" using c1 s1 that by (auto simp: cstring_def nth_append)
          ultimately show ?thesis by simp
        qed
        then show ?thesis using r0 c1 s1 by (auto simp: cstring_def)
      qed
      have "tok_at c n ?m ?p t" unfolding tok_at_def by (intro exI [of _ "i + k"] conjI at ct) (use ilt in linarith)
      moreover have "cstring ?m (?e + 1) ys"
      proof -
        have "cstring m (?e + 1) ys" using cstring_append [of m ?p "t @ [y]" ys] c1 s1 r by (simp add: algebra_simps)
        moreover have "?m (?e + 1 + of_nat j) = m (?e + 1 + of_nat j)" if "j \<le> length ys" for j
        proof -
          have "?e + 1 + of_nat j = c + of_nat (i + k + length t + 1 + j)" unfolding ea by (simp add: add.assoc)
          moreover have "c + of_nat (i + k + length t + 1 + j) \<noteq> ?e" by (rule inj) (use that s(2) len lt r in simp_all)
          ultimately show ?thesis by simp
        qed
        ultimately show ?thesis by (simp add: cstring_def)
      qed
      moreover have "?e + 1 = c + of_nat (i + k + length t + 1)" unfolding ea by (simp add: add.assoc)
      moreover have "i + k + length t + 1 + length ys + 1 \<le> n" using s(2) len lt r by simp
      moreover have "toks (set ds) r = toks (set ds) ys"
      proof -
        have "y \<in> set ds" using r unfolding r_def by (metis dropWhile_eq_Cons_conv)
        then show ?thesis unfolding r by (subst (1 2) toks.simps) simp
      qed
      ultimately have "tok_state (set ds) c n ?m (?e + 1) (toks (set ds) r)" unfolding tok_state_def by metis
      moreover have "strtok 0 d save m = Some (?p, ?e + 1, ?m)"
      proof -
        have "m ?e \<noteq> 0" using er r r0 by auto
        then show ?thesis using False sk nz te by (simp add: strtok_def)
      qed
      moreover have "?m a = m a" if "\<forall>j<n. a \<noteq> c + of_nat j" for a using that ilt ea by auto
      ultimately show ?thesis using ts p0 \<open>tok_at c n ?m ?p t\<close> by (intro exI conjI) (auto simp: splitting_def)
    qed
  qed
qed

section \<open>Splitting\<close>

lemma word_slot: "p + 4 * of_nat i + of_nat j = (p + of_nat (4 * i + j) :: u32)"
  by (simp add: add.assoc)

lemma touched_slot: "touched (p + 4 * of_nat i) = {p + of_nat (4 * i + j) | j. j < 4}"
proof -
  have "touched (p + 4 * of_nat i) = (\<lambda>j :: nat. p + 4 * of_nat i + of_nat j) ` {0, 1, 2, 3}" by (simp add: touched_def)
  also have "{0, 1, 2, 3} = {j :: nat. j < 4}" by auto
  finally have "touched (p + 4 * of_nat i) = {p + 4 * of_nat i + of_nat j | j. j < 4}" by (simp only: image_Collect)
  then show ?thesis by (simp only: word_slot)
qed

lemma kept_word:
  assumes "kept lo L m m'" "L p = Some k" "4 * i + 4 \<le> k"
  shows "ld32 m' (p + 4 * of_nat i) = ld32 m (p + 4 * of_nat i)"
  by (rule ld32_cong) (use assms in \<open>auto simp: touched_slot kept_def simp del: of_nat_add of_nat_mult\<close>)

lemma slots_apart:
  assumes "unat p + k < 4294967296" "4 * i + 4 \<le> k" "4 * j + 4 \<le> k" "i \<noteq> j"
  shows "ld32 (st32 m (p + 4 * of_nat i) v) (p + 4 * of_nat j) = ld32 m (p + 4 * of_nat j)"
proof -
  have u: "unat (p + 4 * of_nat x) = unat p + 4 * x" if "4 * x + 4 \<le> k" for x
    using unat_add_nat [of p "4 * x"] that assms(1) by simp
  show ?thesis using u [OF assms(2)] u [OF assms(3)] assms by (intro ld32_st32_apart) linarith+
qed

lemma kept_tok_at:
  assumes "kept lo L m m'" "L c = Some n" "tok_at c n m p t"
  shows "tok_at c n m' p t"
proof -
  obtain i where i: "p = c + of_nat i" "i + length t + 1 \<le> n" "cstring m p t" using assms(3) by (auto simp: tok_at_def)
  have "m' (p + of_nat j) = m (p + of_nat j)" if "j \<le> length t" for j
    using assms(1,2) i(2) that by (auto simp: kept_def i(1) add.assoc simp flip: of_nat_add)
  then show ?thesis using i by (auto simp: tok_at_def cstring_def)
qed

lemma kept_tok_state:
  assumes "kept lo L m m'" "L c = Some n" "tok_state D c n m save ts"
  shows "tok_state D c n m' save ts"
proof -
  have "tok_at c n m' p s" if "tok_at c n m p s" for p s by (rule kept_tok_at [OF assms(1,2) that])
  then show ?thesis using assms(3) unfolding tok_state_def tok_at_def by metis
qed

lemma readable_block: "L q = Some k \<Longrightarrow> n \<le> k \<Longrightarrow> readable lo L q n"
  unfolding readable_def by (intro disjI2 exI [of _ q] exI [of _ k] exI [of _ 0]) simp

lemma tok_at_readable: "tok_at c n m p t \<Longrightarrow> L c = Some n \<Longrightarrow> readable lo L p (length t + 1) \<and> length t + 1 \<le> n \<and> cstring m p t"
  by (auto simp: tok_at_def readable_def)

lemma token_room:
  assumes "length t + 1 \<le> n" "n \<le> 65000" "unat (u_break u) + 65536 \<le> mmap_start"
  shows "umem_room (of_nat (length t + 1)) u"
proof -
  have "unat (of_nat (length t + 1) :: u32) = length t + 1" by (rule unat_of_nat_small) (use assms(1,2) in linarith)
  then show ?thesis using assms by (simp add: umem_room_def)
qed

lemma strsplit_steps_step:
  assumes "umem_run lo u L" "L c = Some n" "L parts = Some k" "c \<noteq> parts" "4 * i + 4 \<le> k" "n \<le> 65000"
    and "splitting (set ds) c n (um u) p save (t # ts)" "cstring (um u) sep ds" "unat sep + length ds + 1 \<le> lo"
    and "unat (u_break u) + 65536 \<le> mmap_start"
  shows "\<exists>q p' save' u'. strsplit_steps c parts sep (of_nat i) p save u = strsplit_steps c parts sep (of_nat (i + 1)) p' save' u' \<and>
    umem_run lo u' (L(q \<mapsto> length t + 1)) \<and> L q = None \<and> splitting (set ds) c n (um u') p' save' ts \<and>
    ld32 (um u') (parts + 4 * of_nat i) = q \<and> cstring (um u') q t \<and>
    (\<forall>j<i. ld32 (um u') (parts + 4 * of_nat j) = ld32 (um u) (parts + 4 * of_nat j)) \<and>
    kept lo (L(c := None, parts := None)) (um u) (um u') \<and> unat (u_break u') \<le> unat (u_break u) + 65536"
proof -
  have p: "p \<noteq> 0" "tok_at c n (um u) p t" "tok_state (set ds) c n (um u) save ts" using assms(7) by (simp_all add: splitting_def)
  note pt = tok_at_readable [of c n "um u" p t L lo, OF p(2) assms(2)]
  have lt: "length t + 1 \<le> n" using pt by simp
  obtain q u1 where q: "strdup p u = Inr (q, u1)" "q \<noteq> 0" "umem_run lo u1 (L(q \<mapsto> length t + 1))" "L q = None" "kept lo L (um u) (um u1)"
    "cstring (um u1) q t" "unat (u_break u1) \<le> unat (u_break u) + 65536"
    using strdup_result [OF assms(1) token_room [OF lt assms(6,10)] _ _ p(1), of] pt lt assms(6) by auto
  let ?L = "L(q \<mapsto> length t + 1)" and ?m2 = "st32 (um u1) (parts + 4 * of_nat i) q"
  have h: "?L c = Some n" "?L parts = Some k" "?L q = Some (length t + 1)" "c \<noteq> q" "parts \<noteq> q" using assms(2,3) q(4) by auto
  have "\<forall>a. (\<forall>j<k. a \<noteq> parts + of_nat j) \<longrightarrow> ?m2 a = um u1 a"
  proof (intro allI impI st32_other)
    fix a assume that: "\<forall>j<k. a \<noteq> parts + of_nat j"
    show "a \<notin> touched (parts + 4 * of_nat i)"
    proof
      assume "a \<in> touched (parts + 4 * of_nat i)"
      then obtain j where "j < 4" "a = parts + of_nat (4 * i + j)" unfolding touched_slot by blast
      then show False using that [rule_format, of "4 * i + j"] assms(5) by simp
    qed
  qed
  note st = store_run [OF q(3) h(2) this] store_kept [OF q(3) h(2) this]
  let ?u2 = "u1\<lparr>um := ?m2\<rparr>"
  have ts2: "tok_state (set ds) c n ?m2 save ts"
    by (rule kept_tok_state [OF st(2) _ kept_tok_state [OF q(5) assms(2) p(3)]]) (use h(4) assms(2,4) in auto)
  have static: "readable lo L' sep (length ds + 1)" for L' using assms(9) by (simp add: readable_def)
  note lo = umem_run_lo [OF assms(1)]
  have sep2: "cstring ?m2 sep ds"
    by (rule kept_cstring [OF st(2) static kept_cstring [OF q(5) static assms(8) lo] lo])
  have cn: "c \<noteq> 0" "unat c + n < 4294967296"
    using umem_run_not_null [OF assms(1,2)] umem_run_ranges(1) [OF assms(1,2)] by simp_all
  obtain p' save' m' where k: "strtok 0 sep save ?m2 = Some (p', save', m')" "\<forall>a. (\<forall>i<n. a \<noteq> c + of_nat i) \<longrightarrow> m' a = ?m2 a"
    "splitting (set ds) c n m' p' save' ts"
    using strtok_result [OF ts2 sep2 cn] by blast
  let ?u3 = "?u2\<lparr>um := m'\<rparr>"
  have "\<forall>a. (\<forall>j<n. a \<noteq> c + of_nat j) \<longrightarrow> m' a = um ?u2 a" using k(2) by simp
  note tk = store_run [OF st(1) h(1) this] store_kept [OF st(1) h(1) this]
  have slots: "ld32 m' (parts + 4 * of_nat j) = ld32 ?m2 (parts + 4 * of_nat j)" if "j \<le> i" for j
    using kept_word [OF tk(2), of parts k j] h(2) assms(4,5) that by simp
  have earlier: "ld32 m' (parts + 4 * of_nat j) = ld32 (um u) (parts + 4 * of_nat j)" if "j < i" for j
  proof -
    have "ld32 ?m2 (parts + 4 * of_nat j) = ld32 (um u1) (parts + 4 * of_nat j)"
      by (rule slots_apart [of parts k]) (use umem_run_ranges(1) [OF assms(1,3)] assms(5) that in linarith)+
    moreover have "ld32 (um u1) (parts + 4 * of_nat j) = ld32 (um u) (parts + 4 * of_nat j)"
      using kept_word [OF q(5) assms(3), of j] assms(5) that by simp
    ultimately show ?thesis using slots that by simp
  qed
  have k1: "kept lo (L(c := None, parts := None)) (um u) (um u1)" by (rule kept_sub [OF q(5)]) (auto split: if_splits)
  have k2: "kept lo (L(c := None, parts := None)) (um u1) ?m2"
    by (rule kept_sub [OF st(2)]) (use h q(4) in \<open>auto split: if_splits\<close>)
  have k3: "kept lo (L(c := None, parts := None)) ?m2 m'"
  proof -
    have "kept lo (L(c := None, parts := None)) (um ?u2) m'"
      by (rule kept_sub [OF tk(2)]) (use h q(4) in \<open>auto split: if_splits\<close>)
    then show ?thesis by simp
  qed
  have "cstring ?m2 q t" by (rule kept_cstring [OF st(2) _ q(6) lo]) (rule readable_block [where k = "length t + 1"], use h in simp_all)
  then have "cstring (um ?u2) q t" by simp
  then have "cstring m' q t" by (rule kept_cstring [OF tk(2) _ _ lo, rotated])
      (rule readable_block [where k = "length t + 1"], use h in simp_all)
  moreover have "strsplit_steps c parts sep (of_nat i) p save u = strsplit_steps c parts sep (of_nat (i + 1)) p' save' ?u3"
    using p(1) q(1,2) k(1) by (subst strsplit_steps.simps) (simp add: Let_def add.commute)
  moreover have "ld32 m' (parts + 4 * of_nat i) = q" using slots [of i] by simp
  moreover have "u_break ?u3 = u_break u1" "um ?u3 = m'" by simp_all
  ultimately have "strsplit_steps c parts sep (of_nat i) p save u = strsplit_steps c parts sep (of_nat (i + 1)) p' save' ?u3 \<and>
    umem_run lo ?u3 (L(q \<mapsto> length t + 1)) \<and> L q = None \<and> splitting (set ds) c n (um ?u3) p' save' ts \<and>
    ld32 (um ?u3) (parts + 4 * of_nat i) = q \<and> cstring (um ?u3) q t \<and>
    (\<forall>j<i. ld32 (um ?u3) (parts + 4 * of_nat j) = ld32 (um u) (parts + 4 * of_nat j)) \<and>
    kept lo (L(c := None, parts := None)) (um u) (um ?u3) \<and> unat (u_break ?u3) \<le> unat (u_break u) + 65536"
    using tk(1) q(4,7) k(3) earlier kept_trans [OF k1 kept_trans [OF k2 k3]] by metis
  then show ?thesis by blast
qed

lemma strsplit_steps_result:
  assumes "umem_run lo u L" "L c = Some n" "L parts = Some k" "c \<noteq> parts" "4 * (i + length ts) \<le> k" "n \<le> 65000"
    and "splitting (set ds) c n (um u) p save ts" "cstring (um u) sep ds" "unat sep + length ds + 1 \<le> lo"
    and "unat (u_break u) + 65536 * length ts \<le> mmap_start"
  shows "\<exists>qs save' u' L'. strsplit_steps c parts sep (of_nat i) p save u = Some (Inr (of_nat (i + length ts), save', u')) \<and>
    umem_run lo u' L' \<and> length qs = length ts \<and> distinct qs \<and> (\<forall>a m. a \<noteq> c \<longrightarrow> L a = Some m \<longrightarrow> L' a = Some m) \<and>
    (\<forall>j<length ts. L (qs ! j) = None \<and> L' (qs ! j) = Some (length (ts ! j) + 1) \<and>
      ld32 (um u') (parts + 4 * of_nat (i + j)) = qs ! j \<and> cstring (um u') (qs ! j) (ts ! j)) \<and>
    (\<forall>j<i. ld32 (um u') (parts + 4 * of_nat j) = ld32 (um u) (parts + 4 * of_nat j)) \<and>
    kept lo (L(c := None, parts := None)) (um u) (um u')"
  using assms
proof (induction ts arbitrary: i p save u L)
  case Nil
  have p: "p = 0" using Nil.prems(7) by (simp add: splitting_def)
  note fr = free_run [OF Nil.prems(1,2)]
  have e: "strsplit_steps c parts sep (of_nat i) p save u = Some (Inr (of_nat i, save, ufree c u))"
    unfolding p by (subst strsplit_steps.simps) simp
  have fk: "kept lo (L(c := None)) (um u) (um (ufree c u))" using fr by blast
  have w: "ld32 (um (ufree c u)) (parts + 4 * of_nat j) = ld32 (um u) (parts + 4 * of_nat j)" if "j < i" for j
    using kept_word [OF fk, of parts k j] Nil.prems(3,4,5) that by simp
  have "kept lo (L(c := None, parts := None)) (um u) (um (ufree c u))" by (rule kept_sub [OF fk]) (auto split: if_splits)
  moreover have "umem_run lo (ufree c u) (L(c := None))" using fr by blast
  moreover have "\<forall>a m. a \<noteq> c \<longrightarrow> L a = Some m \<longrightarrow> (L(c := None)) a = Some m" by simp
  ultimately show ?case unfolding e using w
    by (intro exI [of _ "[]"] exI [of _ save] exI [of _ "ufree c u"] exI [of _ "L(c := None)"] conjI) (assumption | simp)+
next
  case (Cons t ts)
  have k: "4 * i + 4 \<le> k" "4 * (Suc i + length ts) \<le> k" "unat (u_break u) + 65536 \<le> mmap_start"
    "unat (u_break u) + 65536 + 65536 * length ts \<le> mmap_start"
    using Cons.prems(5,10) by simp_all
  obtain q p' save' u1 where s: "strsplit_steps c parts sep (of_nat i) p save u = strsplit_steps c parts sep (of_nat (i + 1)) p' save' u1"
    "umem_run lo u1 (L(q \<mapsto> length t + 1))" "L q = None" "splitting (set ds) c n (um u1) p' save' ts"
    "ld32 (um u1) (parts + 4 * of_nat i) = q" "cstring (um u1) q t"
    "\<forall>j<i. ld32 (um u1) (parts + 4 * of_nat j) = ld32 (um u) (parts + 4 * of_nat j)"
    "kept lo (L(c := None, parts := None)) (um u) (um u1)" "unat (u_break u1) \<le> unat (u_break u) + 65536"
    using strsplit_steps_step [OF Cons.prems(1-4) k(1) Cons.prems(6-9) k(3)] by blast
  let ?L = "L(q \<mapsto> length t + 1)"
  have h: "?L c = Some n" "?L parts = Some k" "?L q = Some (length t + 1)" "c \<noteq> q" "parts \<noteq> q" using Cons.prems(2,3) s(3) by auto
  note lo = umem_run_lo [OF Cons.prems(1)]
  have sep: "cstring (um u1) sep ds"
    by (rule kept_cstring [OF s(8) _ Cons.prems(8) lo]) (use Cons.prems(9) in \<open>simp add: readable_def\<close>)
  have br: "unat (u_break u1) + 65536 * length ts \<le> mmap_start" using s(9) k(4) by linarith
  from Cons.IH [OF s(2) h(1,2) Cons.prems(4) k(2) Cons.prems(6) s(4) sep Cons.prems(9) br]
  obtain qs save2 u' L' where r: "strsplit_steps c parts sep (of_nat (Suc i)) p' save' u1 = Some (Inr (of_nat (Suc i + length ts), save2, u'))"
    "umem_run lo u' L'" "length qs = length ts" "distinct qs" "\<forall>a m. a \<noteq> c \<longrightarrow> ?L a = Some m \<longrightarrow> L' a = Some m"
    "\<forall>j<length ts. ?L (qs ! j) = None \<and> L' (qs ! j) = Some (length (ts ! j) + 1) \<and>
      ld32 (um u') (parts + 4 * of_nat (Suc i + j)) = qs ! j \<and> cstring (um u') (qs ! j) (ts ! j)"
    "\<forall>j<Suc i. ld32 (um u') (parts + 4 * of_nat j) = ld32 (um u1) (parts + 4 * of_nat j)"
    "kept lo (?L(c := None, parts := None)) (um u1) (um u')" by blast
  have "q \<notin> set qs"
  proof
    assume "q \<in> set qs"
    then obtain j where "j < length ts" "qs ! j = q" unfolding in_set_conv_nth r(3) by blast
    then show False using r(6) by auto
  qed
  then have d: "distinct (q # qs)" using r(4) by simp
  have qt: "cstring (um u') q t"
    by (rule kept_cstring [OF r(8) _ s(6) lo])
      (rule readable_block [where k = "length t + 1"], use h in simp_all)
  have all: "L ((q # qs) ! j) = None \<and> L' ((q # qs) ! j) = Some (length ((t # ts) ! j) + 1) \<and>
      ld32 (um u') (parts + 4 * of_nat (i + j)) = (q # qs) ! j \<and> cstring (um u') ((q # qs) ! j) ((t # ts) ! j)"
    if "j < length (t # ts)" for j
  proof (cases j)
    case 0
    have "L' q = Some (length t + 1)" using r(5) h(3,4) by metis
    then show ?thesis using 0 s(3,5) r(7) qt by simp
  next
    case (Suc j')
    then have j': "j' < length ts" using that by simp
    have "L (qs ! j') = None" using r(6) j' by (metis (no_types, lifting) fun_upd_apply option.distinct(1))
    then show ?thesis using r(6) j' by (simp add: Suc)
  qed
  have old: "L' a = Some m" if "a \<noteq> c" "L a = Some m" for a m
    using r(5) that s(3) by (metis fun_upd_other option.distinct(1))
  have kk: "kept lo (L(c := None, parts := None)) (um u) (um u')"
    by (rule kept_trans [OF s(8) kept_sub [OF r(8)]]) (use s(3) in \<open>auto split: if_splits\<close>)
  have words: "ld32 (um u') (parts + 4 * of_nat j) = ld32 (um u) (parts + 4 * of_nat j)" if "j < i" for j
    using r(7) s(7) that by simp
  have e: "strsplit_steps c parts sep (of_nat i) p save u = Some (Inr (of_nat (i + length (t # ts)), save2, u'))"
    using s(1) r(1) by simp
  have "length (q # qs) = length (t # ts)" using r(3) by simp
  with e r(2) d old all words kk show ?case by blast
qed

text \<open>
  C32. \<open>strsplit\<close> hands out its own copy of every token of the string, in order and in allocations of their
  own, and leaves everything else that is held as it was.
\<close>

theorem strsplit_tokens:
  assumes "umem_run lo u L" "cstring (um u) s str" "readable lo L s (length str + 1)" "s \<noteq> 0" "length str < 65000"
    and "L parts = Some k" "4 * length (toks (set ds) str) \<le> k" "cstring (um u) sep ds" "unat sep + length ds + 1 \<le> lo"
    and "unat (u_break u) + 65536 * (length (toks (set ds) str) + 1) \<le> mmap_start"
  shows "\<exists>qs save' u' L'. strsplit s parts sep save u = Inr (of_nat (length (toks (set ds) str)), save', u') \<and>
    umem_run lo u' L' \<and> (\<forall>a m. L a = Some m \<longrightarrow> L' a = Some m) \<and> length qs = length (toks (set ds) str) \<and> distinct qs \<and>
    (\<forall>j<length qs. L (qs ! j) = None \<and> ld32 (um u') (parts + 4 * of_nat j) = qs ! j \<and>
      cstring (um u') (qs ! j) (toks (set ds) str ! j) \<and> L' (qs ! j) = Some (length (toks (set ds) str ! j) + 1)) \<and>
    kept lo (L(parts := None)) (um u) (um u')"
proof -
  let ?ts = "toks (set ds) str" and ?n = "length str + 1"
  have room: "unat (u_break u) + 65536 \<le> mmap_start" "unat (u_break u) + 65536 + 65536 * length ?ts \<le> mmap_start"
    using assms(10) by simp_all
  have n: "?n \<le> 65000" "?n < 4294967296" using assms(5) by simp_all
  obtain c u1 where c: "strdup s u = Inr (c, u1)" "c \<noteq> 0" "umem_run lo u1 (L(c \<mapsto> ?n))" "L c = None" "kept lo L (um u) (um u1)"
    "cstring (um u1) c str" "unat (u_break u1) \<le> unat (u_break u) + 65536"
    using strdup_result [OF assms(1) token_room [OF _ n(1) room(1)] assms(2-4) n(2)] by auto
  let ?L = "L(c \<mapsto> ?n)"
  have h: "?L c = Some ?n" "?L parts = Some k" "c \<noteq> parts" using assms(6) c(4) by auto
  note lo = umem_run_lo [OF assms(1)]
  have sep: "cstring (um u1) sep ds"
    by (rule kept_cstring [OF c(5) _ assms(8) lo]) (use assms(9) in \<open>simp add: readable_def\<close>)
  have "tok_state (set ds) c ?n (um u1) c ?ts" unfolding tok_state_def using c(6) by (intro disjI2 exI [of _ str] exI [of _ 0]) simp
  moreover have "unat c + ?n < 4294967296" using umem_run_ranges(1) [OF c(3) h(1)] .
  ultimately obtain p save1 m where k: "strtok 0 sep c (um u1) = Some (p, save1, m)"
    "\<forall>a. (\<forall>i<?n. a \<noteq> c + of_nat i) \<longrightarrow> m a = um u1 a" "splitting (set ds) c ?n m p save1 ?ts"
    using strtok_result [OF _ sep c(2)] by blast
  have "strtok c sep save (um u1) = Some (p, save1, m)" using k(1) c(2) by (simp add: strtok_def)
  note st = store_run [OF c(3) h(1) k(2)] store_kept [OF c(3) h(1) k(2)]
  have sepm: "cstring m sep ds"
    by (rule kept_cstring [OF st(2) _ sep lo]) (use assms(9) in \<open>simp add: readable_def\<close>)
  have b: "unat (u_break u1) + 65536 * length ?ts \<le> mmap_start" using c(7) room(2) by linarith
  have a0: "4 * (0 + length ?ts) \<le> k" using assms(7) by simp
  have spl: "splitting (set ds) c ?n (um (u1\<lparr>um := m\<rparr>)) p save1 ?ts" using k(3) by simp
  have sepu: "cstring (um (u1\<lparr>um := m\<rparr>)) sep ds" using sepm by simp
  have bu: "unat (u_break (u1\<lparr>um := m\<rparr>)) + 65536 * length ?ts \<le> mmap_start" using b by simp
  obtain qs save' u' L' where r: "strsplit_steps c parts sep (of_nat 0) p save1 (u1\<lparr>um := m\<rparr>) = Some (Inr (of_nat (0 + length ?ts), save', u'))"
    "umem_run lo u' L'" "length qs = length ?ts" "distinct qs" "\<forall>a m. a \<noteq> c \<longrightarrow> ?L a = Some m \<longrightarrow> L' a = Some m"
    "\<forall>j<length ?ts. ?L (qs ! j) = None \<and> L' (qs ! j) = Some (length (?ts ! j) + 1) \<and>
      ld32 (um u') (parts + 4 * of_nat (0 + j)) = qs ! j \<and> cstring (um u') (qs ! j) (?ts ! j)"
    "kept lo (?L(c := None, parts := None)) (um (u1\<lparr>um := m\<rparr>)) (um u')"
    using strsplit_steps_result [OF st(1) h(1,2,3) a0 n(1) spl sepu assms(9) bu] by blast
  have e: "strsplit s parts sep save u = Inr (of_nat (length ?ts), save', u')"
    using c(1,2) \<open>strtok c sep save (um u1) = _\<close> r(1) by (simp add: strsplit_def)
  have old: "L' a = Some m" if "L a = Some m" for a m using r(5) that c(4) by (metis fun_upd_other option.distinct(1))
  have e1: "?L(c := None, parts := None) = L(parts := None)" and e2: "?L(c := None) = L" using c(4) by auto
  have "kept lo L (um u) m" using kept_trans [OF c(5)] st(2) unfolding e2 by blast
  then have "kept lo (L(parts := None)) (um u) m" by (rule kept_sub) (auto split: if_splits)
  then have kk: "kept lo (L(parts := None)) (um u) (um u')" using kept_trans r(7) unfolding e1 by fastforce
  have "L (qs ! j) = None \<and> ld32 (um u') (parts + 4 * of_nat j) = qs ! j \<and>
      cstring (um u') (qs ! j) (?ts ! j) \<and> L' (qs ! j) = Some (length (?ts ! j) + 1)" if "j < length qs" for j
    using r(3,6) that by (auto split: if_splits)
  with e r(2,3,4) old kk show ?thesis by blast
qed

text \<open>A program with the strings \<open>/a/b\<close> and \<open>/\<close> in its image and one large allocation.\<close>

definition udemo_text :: uheap where
  "udemo_text = udemo_heap\<lparr>um := patch (patch (\<lambda>_. 0) 0x1000 [0x2F, 0x61, 0x2F, 0x62, 0]) 0x1100 [0x2F, 0]\<rparr>"

lemma udemo_text_run: "umem_run 0x8000 (udemo_map udemo_text) [0x7000010 \<mapsto> 65536]"
proof -
  have "umem_run 0x8000 udemo_text Map.empty"
    by (rule umem_run.start) (simp_all add: udemo_text_def udemo_heap_def mmap_start_def)
  from umem_run.alloc [OF this, of 65536 "0x7000010" "udemo_map udemo_text"]
  show ?thesis by (simp add: umem_room_def udemo_text_def udemo_heap_def malloc_map)
qed

lemma udemo_text_strings:
  "cstring (um (udemo_map udemo_text)) 0x1000 [0x2F, 0x61, 0x2F, 0x62]" "cstring (um (udemo_map udemo_text)) 0x1100 [0x2F]"
proof -
  note r = umem_run_ranges [OF udemo_text_run]
  have "um (udemo_map udemo_text) a = um udemo_text a" if "unat a < 0x8000" for a
  proof -
    have "a \<notin> span 0x7000000 12" using that by (simp add: span_def)
    then show ?thesis using set_outside [of "0x7000000" a] by (simp add: udemo_map_def udemo_text_def udemo_heap_def)
  qed
  then show "cstring (um (udemo_map udemo_text)) 0x1000 [0x2F, 0x61, 0x2F, 0x62]" "cstring (um (udemo_map udemo_text)) 0x1100 [0x2F]"
    by (simp_all add: cstring_Cons cstring_Nil udemo_text_def patch_def)
qed

theorem strsplit_tokens_witness:
  "\<exists>qs save' u'. strsplit 0x1000 0x7000010 0x1100 0 (udemo_map udemo_text) = Inr (2, save', u') \<and> length qs = 2 \<and>
    ld32 (um u') 0x7000010 = qs ! 0 \<and> cstring (um u') (qs ! 0) [0x61] \<and> cstring (um u') (qs ! 1) [0x62]"
proof -
  have t: "toks (set [0x2F]) [0x2F, 0x61, 0x2F, 0x62] = [[0x61], [0x62]]" by (simp add: toks.simps)
  let ?u = "udemo_map udemo_text" and ?L = "[0x7000010 \<mapsto> 65536 :: nat]" and ?s = "[0x2F, 0x61, 0x2F, 0x62] :: u8 list"
  have b: "u_break ?u = 0x8000" by (simp add: udemo_map_def udemo_text_def udemo_heap_def)
  have pre: "readable 0x8000 ?L 0x1000 (length ?s + 1)" "(0x1000 :: u32) \<noteq> 0" "length ?s < 65000" "?L 0x7000010 = Some 65536"
    "4 * length (toks (set [0x2F]) ?s) \<le> 65536" "cstring (um ?u) 0x1100 [0x2F]" "unat (0x1100 :: u32) + length [0x2F :: u8] + 1 \<le> 0x8000"
    "unat (u_break ?u) + 65536 * (length (toks (set [0x2F]) ?s) + 1) \<le> mmap_start"
    unfolding t b using udemo_text_strings(2) by (simp_all add: readable_def mmap_start_def)
  from strsplit_tokens [OF udemo_text_run udemo_text_strings(1) pre, of 0]
  obtain qs save' u' where r: "strsplit 0x1000 0x7000010 0x1100 0 ?u = Inr (of_nat (length [[0x61], [0x62] :: u8 list]), save', u')"
    "length qs = length [[0x61], [0x62] :: u8 list]"
    "\<forall>j<length qs. ld32 (um u') (0x7000010 + 4 * of_nat j) = qs ! j \<and> cstring (um u') (qs ! j) ([[0x61], [0x62]] ! j)"
    unfolding t by blast
  from r(3) [rule_format, of 0] r(3) [rule_format, of 1] r(1,2) show ?thesis by (intro exI conjI) auto
qed

text \<open>
  \<open>itoa\<close> and \<open>itoa_hex\<close> hand out strings that read back as the number, the smallest one included.
\<close>

theorem itoa_roundtrip:
  assumes "umem_run lo u L" "umem_room 12 u"
  shows "(\<exists>p u' s. itoa n u = Inr (p, u') \<and> umem_run lo u' (L(p \<mapsto> 12)) \<and> kept lo L (um u) (um u') \<and>
      cstring (um u') p s \<and> int_value s = sint n) \<and>
    (\<exists>p u' s. itoa_hex n u = Inr (p, u') \<and> umem_run lo u' (L(p \<mapsto> 9)) \<and> kept lo L (um u) (um u') \<and>
      cstring (um u') p s \<and> hex_value_of s = unat n)"
proof -
  have "umem_room 9 u" using assms(2) by (simp add: umem_room_def)
  from itoa_hex_result [OF assms(1) this, of n] itoa_result [OF assms, of n] show ?thesis
    using dec_string_value [of n] hex_value_of_digits [of "unat n"] by blast
qed

theorem itoa_roundtrip_witness:
  "\<exists>p u' s. itoa 0x80000000 udemo_heap = Inr (p, u') \<and> cstring (um u') p s \<and> int_value s = - 2147483648"
proof -
  have "umem_room 12 udemo_heap" by (simp add: umem_room_def udemo_heap_def mmap_start_def)
  from itoa_roundtrip [OF udemo_start this, of "0x80000000"] show ?thesis by auto
qed

end
