(* ===== verification/Ustdlib.thy ===== *)
theory Ustdlib
  imports Ustring
begin

text \<open>
  The environment of a program, \<open>getenv\<close> and \<open>setenv\<close> of \<open>user_fs/lib/stdlib.h\<close>: an array of pointers to
  strings \<open>name=value\<close> that a null pointer ends. It is shown to be a map from names to values.
\<close>

section \<open>Operations\<close>

text \<open>The loop that compares an entry with a name, until they differ or the name ends.\<close>

partial_function (option) match_len :: "bytes_mem \<Rightarrow> u32 \<Rightarrow> u32 \<Rightarrow> u32 \<Rightarrow> u32 \<Rightarrow> u32 option" where
  "match_len m p name nlen j =
     (if j < nlen \<and> m (p + j) = m (name + j) then match_len m p name nlen (j + 1) else Some j)"

partial_function (option) getenv_loop :: "bytes_mem \<Rightarrow> u32 \<Rightarrow> u32 \<Rightarrow> u32 \<Rightarrow> u32 \<Rightarrow> u32 option" where
  "getenv_loop m envp name nlen i =
     (let p = ld32 m (envp + 4 * i)
      in if p = 0 then Some 0
         else Option.bind (match_len m p name nlen 0) (\<lambda>j.
              if j = nlen \<and> m (p + j) = 0x3D then Some (p + j + 1) else getenv_loop m envp name nlen (i + 1)))"

definition getenv :: "bytes_mem \<Rightarrow> u32 \<Rightarrow> u32 \<Rightarrow> u32 option" where
  "getenv m envp name = Option.bind (ustrlen m name) (\<lambda>nlen. getenv_loop m envp name nlen 0)"

text \<open>The number of entries and the last one that has the name, -1 when none has it.\<close>

partial_function (option) scan_env :: "bytes_mem \<Rightarrow> u32 \<Rightarrow> u32 \<Rightarrow> u32 \<Rightarrow> u32 \<Rightarrow> u32 \<Rightarrow> (u32 \<times> u32) option" where
  "scan_env m envp name nlen i replace =
     (let p = ld32 m (envp + 4 * i)
      in if p = 0 then Some (i, replace)
         else Option.bind (match_len m p name nlen 0) (\<lambda>j.
              scan_env m envp name nlen (i + 1) (if j = nlen \<and> m (p + j) = 0x3D then i else replace)))"

fun copy_env :: "bytes_mem \<Rightarrow> u32 \<Rightarrow> u32 \<Rightarrow> u32 \<Rightarrow> u32 \<Rightarrow> u32 \<Rightarrow> nat \<Rightarrow> u32 \<times> bytes_mem" where
  "copy_env m envp newenv replace i w 0 = (w, m)"
| "copy_env m envp newenv replace i w (Suc n) =
     (if i \<noteq> replace then copy_env (st32 m (newenv + 4 * w) (ld32 m (envp + 4 * i))) envp newenv replace (i + 1) (w + 1) n
      else copy_env m envp newenv replace (i + 1) w n)"

text \<open>The result, the new value of \<open>environ\<close>, and the heap.\<close>

definition fill_entry :: "bytes_mem \<Rightarrow> u32 \<Rightarrow> u32 \<Rightarrow> u32 \<Rightarrow> u32 \<Rightarrow> u32 \<Rightarrow> bytes_mem" where
  "fill_entry m entry name nlen value vlen =
     (let m = kmemcpy m entry name (unat nlen);
          m = m(entry + nlen := 0x3D);
          m = kmemcpy m (entry + (nlen + 1)) value (unat vlen)
      in m(entry + (nlen + 1 + vlen) := 0))"

definition setenv :: "u32 \<Rightarrow> u32 \<Rightarrow> u32 \<Rightarrow> uheap \<Rightarrow> (u32 \<times> u32 \<times> uheap) res" where
  "setenv name value envp u =
     and_then (ran (ustrlen (um u) name)) (\<lambda>nlen. and_then (ran (ustrlen (um u) value)) (\<lambda>vlen.
     and_then (malloc (nlen + 1 + vlen + 1) u) (\<lambda>(entry, u1).
       if entry = 0 then Inr (0xFFFFFFFF, envp, u1)
       else let u2 = u1\<lparr>um := fill_entry (um u1) entry name nlen value vlen\<rparr>
            in and_then (ran (scan_env (um u2) envp name nlen 0 0xFFFFFFFF)) (\<lambda>(cnt, replace).
               let newcnt = (if 0 \<le> sint replace then cnt else cnt + 1)
               in and_then (malloc ((newcnt + 1) * 4) u2) (\<lambda>(newenv, u3).
                    if newenv = 0 then Inr (0xFFFFFFFF, envp, ufree entry u3)
                    else let (w, m) = copy_env (um u3) envp newenv replace 0 0 (unat cnt);
                             m = st32 m (newenv + 4 * w) entry;
                             m = st32 m (newenv + 4 * (w + 1)) 0
                         in Inr (0, newenv, u3\<lparr>um := m\<rparr>))))))"

declare match_len.simps [code] getenv_loop.simps [code] scan_env.simps [code]

section \<open>Entries\<close>

definition has_name :: "u8 list \<Rightarrow> u8 list \<Rightarrow> bool" where
  "has_name nm e \<longleftrightarrow> take (length nm + 1) e = nm @ [0x3D]"

definition env_get :: "u8 list list \<Rightarrow> u8 list \<Rightarrow> u8 list option" where
  "env_get es nm = map_option (drop (length nm + 1)) (find (has_name nm) es)"

text \<open>No name has two entries.\<close>

definition names_once :: "u8 list list \<Rightarrow> bool" where
  "names_once es \<longleftrightarrow> (\<forall>i<length es. \<forall>j<length es. \<forall>nm. 0x3D \<notin> set nm \<longrightarrow> has_name nm (es ! i) \<longrightarrow> has_name nm (es ! j) \<longrightarrow> i = j)"

lemma has_name_split: "has_name nm e \<longleftrightarrow> (\<exists>v. e = nm @ 0x3D # v)"
proof
  assume h: "has_name nm e"
  have "e = take (length nm + 1) e @ drop (length nm + 1) e" by (rule append_take_drop_id [symmetric])
  then have "e = (nm @ [0x3D]) @ drop (length nm + 1) e" unfolding h [unfolded has_name_def] .
  then have "e = nm @ 0x3D # drop (length nm + 1) e" by simp
  then show "\<exists>v. e = nm @ 0x3D # v" by blast
qed (auto simp: has_name_def)

lemma has_name_same:
  assumes "has_name nm e" "has_name nm' e" "0x3D \<notin> set nm" "0x3D \<notin> set nm'"
  shows "nm = nm'"
proof -
  have t: "takeWhile (\<lambda>c. c \<noteq> 0x3D) (n @ 0x3D # v) = n" if "0x3D \<notin> set n" for n v :: "u8 list"
    using that by (simp add: takeWhile_append)
  obtain v v' where "e = nm @ 0x3D # v" "e = nm' @ 0x3D # v'" using assms(1,2) unfolding has_name_split by blast
  then show ?thesis using t [OF assms(3), of v] t [OF assms(4), of v'] by simp
qed

text \<open>The comparison of an entry with a name.\<close>

lemma match_len_result:
  assumes "cstring m p e" "cstring m name nm" "j \<le> length nm" "take j e = take j nm" "j \<le> length e"
  shows "\<exists>k. match_len m p name (of_nat (length nm)) (of_nat j) = Some (of_nat k) \<and> k \<le> length nm \<and>
    (k = length nm \<longleftrightarrow> take (length nm) e = nm)"
  using assms(3-5)
proof (induction "length nm - j" arbitrary: j)
  case 0
  then have "j = length nm" by simp
  then show ?case using 0 by (subst match_len.simps) auto
next
  case (Suc d)
  then have j: "j < length nm" by simp
  have n: "length nm < 4294967296" "length e < 4294967296" using assms(1,2) by (simp_all add: cstring_def)
  have lt: "of_nat j < (of_nat (length nm) :: u32)" using j n(1) by (simp add: word_less_nat_alt unat_of_nat_small)
  have pe: "m (p + of_nat j) = (e @ [0]) ! j" "m (name + of_nat j) = nm ! j"
    using assms(1,2) Suc.prems(3) j by (auto simp: cstring_def nth_append)
  have nz: "nm ! j \<noteq> 0" using assms(2) j by (metis cstring_def nth_mem)
  show ?case
  proof (cases "j < length e \<and> e ! j = nm ! j")
    case True
    have "take (Suc j) e = take (Suc j) nm" using True Suc.prems(2) j by (simp add: take_Suc_conv_app_nth)
    then have "\<exists>k. match_len m p name (of_nat (length nm)) (of_nat (Suc j)) = Some (of_nat k) \<and> k \<le> length nm \<and>
        (k = length nm \<longleftrightarrow> take (length nm) e = nm)" using Suc.hyps True j by (intro Suc.hyps(1)) simp_all
    then show ?thesis using True lt pe by (subst match_len.simps) (simp add: nth_append add.commute)
  next
    case False
    have "match_len m p name (of_nat (length nm)) (of_nat j) = Some (of_nat j)"
      using False pe nz Suc.prems(3) by (subst match_len.simps) (auto simp: nth_append)
    moreover have "take (length nm) e \<noteq> nm"
      using False j by (metis length_take min_less_iff_conj nth_take)
    ultimately show ?thesis using j by (intro exI [of _ j]) auto
  qed
qed

lemma match_test:
  assumes "cstring m p e" "cstring m name nm"
  obtains j where "match_len m p name (of_nat (length nm)) 0 = Some j"
    "(j = of_nat (length nm) \<and> m (p + j) = 0x3D) \<longleftrightarrow> has_name nm e"
    "j = of_nat (length nm) \<Longrightarrow> has_name nm e \<Longrightarrow> p + j = p + of_nat (length nm)"
proof -
  obtain k where k: "match_len m p name (of_nat (length nm)) (of_nat 0) = Some (of_nat k)" "k \<le> length nm"
    "k = length nm \<longleftrightarrow> take (length nm) e = nm" using match_len_result [OF assms, of 0] by auto
  have n: "length nm < 4294967296" using assms(2) by (simp add: cstring_def)
  have kn: "of_nat k = (of_nat (length nm) :: u32) \<longleftrightarrow> k = length nm"
    using k(2) n by (metis le_less_trans unat_of_nat_small)
  have "k = length nm \<and> m (p + of_nat k) = 0x3D \<longleftrightarrow> has_name nm e"
  proof (cases "take (length nm) e = nm")
    case True
    then have le: "length nm \<le> length e" by (metis length_take min.cobounded2 min.commute)
    then have "m (p + of_nat (length nm)) = (e @ [0]) ! length nm"
      using assms(1) by (auto simp: cstring_def nth_append)
    moreover have "has_name nm e \<longleftrightarrow> length nm < length e \<and> e ! length nm = 0x3D"
      using True by (cases "length nm < length e") (auto simp: has_name_def take_Suc_conv_app_nth)
    ultimately show ?thesis using True k(3) le by (auto simp: nth_append)
  next
    case False
    then have "\<not> has_name nm e" by (auto simp: has_name_split)
    then show ?thesis using False k(3) by blast
  qed
  then show ?thesis using that [of "of_nat k"] k(1) kn by auto
qed

section \<open>The environment in memory\<close>

lemma readable_mono: "readable lo L p n \<Longrightarrow> (\<And>a k. L a = Some k \<Longrightarrow> L' a = Some k) \<Longrightarrow> readable lo L' p n"
  unfolding readable_def by blast

lemma kept_slot:
  assumes "kept lo L m m'" "readable lo L p n" "4 * i + 4 \<le> n" "lo < 4294967296"
  shows "ld32 m' (p + 4 * of_nat i) = ld32 m (p + 4 * of_nat i)"
proof (rule ld32_cong)
  fix b assume "b \<in> touched (p + 4 * of_nat i)"
  then obtain j where "j < 4" "b = p + of_nat (4 * i + j)" unfolding touched_slot by blast
  then show "m' b = m b" using kept_read [OF assms(1,2) _ assms(4), of "4 * i + j"] assms(3) by simp
qed

definition env_at :: "nat \<Rightarrow> (u32 \<Rightarrow> nat option) \<Rightarrow> bytes_mem \<Rightarrow> u32 \<Rightarrow> u32 list \<Rightarrow> u8 list list \<Rightarrow> bool" where
  "env_at lo L m envp ps es \<longleftrightarrow> length ps = length es \<and> readable lo L envp (4 * (length es + 1)) \<and>
     (\<forall>i<length es. ps ! i \<noteq> 0 \<and> ld32 m (envp + 4 * of_nat i) = ps ! i \<and> cstring m (ps ! i) (es ! i) \<and>
       readable lo L (ps ! i) (length (es ! i) + 1)) \<and> ld32 m (envp + 4 * of_nat (length es)) = 0"

lemma env_at_kept:
  assumes "env_at lo L m envp ps es" "kept lo L m m'" "lo < 4294967296"
  shows "env_at lo L m' envp ps es"
proof -
  have e: "length ps = length es" "readable lo L envp (4 * (length es + 1))"
    and p: "\<And>i. i < length es \<Longrightarrow> ps ! i \<noteq> 0 \<and> ld32 m (envp + 4 * of_nat i) = ps ! i \<and> cstring m (ps ! i) (es ! i) \<and>
       readable lo L (ps ! i) (length (es ! i) + 1)"
    and z: "ld32 m (envp + 4 * of_nat (length es)) = 0"
    using assms(1) unfolding env_at_def by blast+
  have w: "ld32 m' (envp + 4 * of_nat i) = ld32 m (envp + 4 * of_nat i)" if "i \<le> length es" for i
    by (rule kept_slot [OF assms(2) e(2) _ assms(3)]) (use that in simp)
  have "cstring m' (ps ! i) (es ! i)" if "i < length es" for i
    using kept_cstring [OF assms(2) _ _ assms(3)] p [OF that] by blast
  then show ?thesis unfolding env_at_def using e p z w by auto
qed

lemma env_at_mono: "env_at lo L m envp ps es \<Longrightarrow> (\<And>a k. L a = Some k \<Longrightarrow> L' a = Some k) \<Longrightarrow> env_at lo L' m envp ps es"
  unfolding env_at_def using readable_mono [of lo L _ _ L'] by blast

lemma env_entry:
  assumes "env_at lo L m envp ps es" "cstring m name nm" "i < length es"
  obtains j where "ld32 m (envp + 4 * of_nat i) = ps ! i" "ps ! i \<noteq> 0" "match_len m (ps ! i) name (of_nat (length nm)) 0 = Some j"
    "(j = of_nat (length nm) \<and> m (ps ! i + j) = 0x3D) \<longleftrightarrow> has_name nm (es ! i)" "cstring m (ps ! i) (es ! i)"
proof -
  have e: "ps ! i \<noteq> 0" "ld32 m (envp + 4 * of_nat i) = ps ! i" "cstring m (ps ! i) (es ! i)"
    using assms(1,3) unfolding env_at_def by blast+
  from match_test [OF e(3) assms(2)] that [OF e(2,1) _ _ e(3)] show ?thesis by metis
qed

lemma find_drop: "i < length xs \<Longrightarrow> find P (drop i xs) = (if P (xs ! i) then Some (xs ! i) else find P (drop (Suc i) xs))"
  by (simp add: Cons_nth_drop_Suc [symmetric])

lemma getenv_loop_result:
  assumes "env_at lo L m envp ps es" "cstring m name nm" "i \<le> length es"
  shows "\<exists>q. getenv_loop m envp name (of_nat (length nm)) (of_nat i) = Some q \<and>
    (case find (has_name nm) (drop i es) of None \<Rightarrow> q = 0
     | Some e \<Rightarrow> (\<exists>k<length es. es ! k = e \<and> q = ps ! k + of_nat (length nm) + 1 \<and> cstring m q (drop (length nm + 1) e)))"
  using assms(3)
proof (induction "length es - i" arbitrary: i)
  case 0
  then have "i = length es" by simp
  then show ?case using assms(1) by (subst getenv_loop.simps) (simp add: env_at_def)
next
  case (Suc d)
  then have i: "i < length es" by simp
  from env_entry [OF assms(1,2) i] obtain j where e: "ld32 m (envp + 4 * of_nat i) = ps ! i" "ps ! i \<noteq> 0"
    "match_len m (ps ! i) name (of_nat (length nm)) 0 = Some j"
    "(j = of_nat (length nm) \<and> m (ps ! i + j) = 0x3D) \<longleftrightarrow> has_name nm (es ! i)" "cstring m (ps ! i) (es ! i)" by blast
  show ?case
  proof (cases "has_name nm (es ! i)")
    case True
    then obtain v where v: "es ! i = nm @ 0x3D # v" by (auto simp: has_name_split)
    have "cstring m (ps ! i + of_nat (length (nm @ [0x3D]))) v"
      by (rule cstring_append) (use e(5) v in simp)
    then have "cstring m (ps ! i + of_nat (length nm) + 1) (drop (length nm + 1) (es ! i))" using v by (simp add: algebra_simps)
    moreover have "j = of_nat (length nm)" "m (ps ! i + of_nat (length nm)) = 0x3D" using e(4) True by auto
    then have "getenv_loop m envp name (of_nat (length nm)) (of_nat i) = Some (ps ! i + of_nat (length nm) + 1)"
      using e(1-3) by (subst getenv_loop.simps) (simp add: Let_def)
    moreover have "find (has_name nm) (drop i es) = Some (es ! i)" using True i by (simp add: find_drop)
    ultimately show ?thesis using i by auto
  next
    case False
    have eq: "getenv_loop m envp name (of_nat (length nm)) (of_nat i) = getenv_loop m envp name (of_nat (length nm)) (of_nat (Suc i))"
    proof -
      have ne: "\<not> (j = of_nat (length nm) \<and> m (ps ! i + j) = 0x3D)" using e(4) False by blast
      have "of_nat i + 1 = (of_nat (Suc i) :: u32)" by simp
      then show ?thesis using e(2) by (subst getenv_loop.simps) (simp only: Let_def e(1,3) bind.bind_lunit if_False ne)
    qed
    have fd: "find (has_name nm) (drop i es) = find (has_name nm) (drop (Suc i) es)" using False i by (simp add: find_drop)
    show ?thesis unfolding eq fd by (rule Suc.hyps(1)) (use Suc.hyps(2) i in simp_all)
  qed
qed

lemma getenv_result:
  assumes "env_at lo L m envp ps es" "cstring m name nm"
  shows "\<exists>q. getenv m envp name = Some q \<and> (case env_get es nm of None \<Rightarrow> q = 0 | Some v \<Rightarrow> cstring m q v)"
proof -
  have "ustrlen m name = Some (of_nat (length nm))" using kstrlen_cstring [OF assms(2)] by (simp add: ustrlen_def kstrlen_def)
  moreover obtain q where "getenv_loop m envp name (of_nat (length nm)) (of_nat 0) = Some q"
    "case find (has_name nm) (drop 0 es) of None \<Rightarrow> q = 0
     | Some e \<Rightarrow> (\<exists>k<length es. es ! k = e \<and> q = ps ! k + of_nat (length nm) + 1 \<and> cstring m q (drop (length nm + 1) e))"
    using getenv_loop_result [OF assms, of 0] by blast
  ultimately show ?thesis by (cases "find (has_name nm) es") (auto simp: getenv_def env_get_def)
qed

text \<open>The last entry that has the name.\<close>

definition last_with :: "u8 list \<Rightarrow> u8 list list \<Rightarrow> nat \<Rightarrow> u32" where
  "last_with nm es n = foldl (\<lambda>r i. if has_name nm (es ! i) then of_nat i else r) 0xFFFFFFFF [0..<n]"

lemma last_with_Suc: "last_with nm es (Suc n) = (if has_name nm (es ! n) then of_nat n else last_with nm es n)"
  by (simp add: last_with_def)

lemma last_with_cases:
  "last_with nm es n = 0xFFFFFFFF \<and> (\<forall>i<n. \<not> has_name nm (es ! i)) \<or> (\<exists>k<n. last_with nm es n = of_nat k \<and> has_name nm (es ! k))"
proof (induction n)
  case 0
  then show ?case by (simp add: last_with_def)
next
  case (Suc n)
  then show ?case by (auto simp: last_with_Suc less_Suc_eq)
qed

lemma scan_env_result:
  assumes "env_at lo L m envp ps es" "cstring m name nm" "i \<le> length es"
  shows "scan_env m envp name (of_nat (length nm)) (of_nat i) (last_with nm es i) =
    Some (of_nat (length es), last_with nm es (length es))"
  using assms(3)
proof (induction "length es - i" arbitrary: i)
  case 0
  then have "i = length es" by simp
  then show ?case using assms(1) by (subst scan_env.simps) (simp add: env_at_def)
next
  case (Suc d)
  then have i: "i < length es" by simp
  from env_entry [OF assms(1,2) i] obtain j where e: "ld32 m (envp + 4 * of_nat i) = ps ! i" "ps ! i \<noteq> 0"
    "match_len m (ps ! i) name (of_nat (length nm)) 0 = Some j"
    "(j = of_nat (length nm) \<and> m (ps ! i + j) = 0x3D) \<longleftrightarrow> has_name nm (es ! i)" by blast
  have "scan_env m envp name (of_nat (length nm)) (of_nat i) (last_with nm es i) =
      scan_env m envp name (of_nat (length nm)) (of_nat (Suc i)) (last_with nm es (Suc i))"
    unfolding last_with_Suc e(4) [symmetric] using e(1-3) by (subst scan_env.simps) (simp add: Let_def add.commute)
  also have "\<dots> = Some (of_nat (length es), last_with nm es (length es))"
    by (rule Suc.hyps(1)) (use Suc.hyps(2) i in simp_all)
  finally show ?case .
qed

section \<open>Setting a variable\<close>

lemma fill_entry_result:
  assumes "unat entry + (length nm + length v + 2) < 4294967296" "cstring m name nm" "cstring m value v"
    and "\<And>i j. i < length nm \<Longrightarrow> j < length nm + length v + 2 \<Longrightarrow> name + of_nat i \<noteq> entry + of_nat j"
    and "\<And>i j. i < length v \<Longrightarrow> j < length nm + length v + 2 \<Longrightarrow> value + of_nat i \<noteq> entry + of_nat j"
  shows "fill_entry m entry name (of_nat (length nm)) value (of_nat (length v)) = patch m entry (nm @ 0x3D # v @ [0])"
proof -
  let ?N = "length nm + length v + 2"
  obtain l where l: "length l = ?N" "m = patch m entry l" using block_bytes [OF assms(1)] .
  have n: "length nm < 4294967296" "length v < 4294967296" using assms(1) by linarith+
  have b: "unat entry + length l \<le> 4294967296" using l(1) assms(1) by simp
  let ?l1 = "nm @ drop (length nm) l" and ?l2 = "nm @ 0x3D # drop (length nm + 1) l"
  let ?l3 = "nm @ 0x3D # v @ drop (length nm + 1 + length v) l"
  have s1: "kmemcpy m entry name (length nm) = patch m entry ?l1"
  proof -
    have "kmemcpy (patch m entry l) (entry + of_nat 0) name (length nm) =
        patch m entry (take 0 l @ map (\<lambda>i. m (name + of_nat i)) [0..<length nm] @ drop (0 + length nm) l)"
      by (rule kmemcpy_patch) (use b l(1) assms(4) in simp_all)
    then show ?thesis unfolding l(2) [symmetric] by (simp add: cstring_bytes [OF assms(2)])
  qed
  have s2: "(patch m entry ?l1)(entry + of_nat (length nm) := 0x3D) = patch m entry ?l2"
  proof -
    have "(patch m entry ?l1)(entry + of_nat (length nm) := 0x3D) = patch m entry (?l1[length nm := 0x3D])"
      by (rule patch_upd) (use b l(1) in simp_all)
    moreover have "drop (length nm) l = l ! length nm # drop (length nm + 1) l"
      using l(1) by (simp add: Cons_nth_drop_Suc)
    ultimately show ?thesis by (simp add: list_update_append)
  qed
  have s3: "kmemcpy (patch m entry ?l2) (entry + of_nat (length nm + 1)) value (length v) = patch m entry ?l3"
  proof -
    have "kmemcpy (patch m entry ?l2) (entry + of_nat (length nm + 1)) value (length v) =
        patch m entry (take (length nm + 1) ?l2 @ map (\<lambda>i. m (value + of_nat i)) [0..<length v] @ drop (length nm + 1 + length v) ?l2)"
      by (rule kmemcpy_patch) (use b l(1) assms(5) in simp_all)
    then show ?thesis by (simp add: cstring_bytes [OF assms(3)] add.commute)
  qed
  have s4: "(patch m entry ?l3)(entry + of_nat (length nm + 1 + length v) := 0) = patch m entry (nm @ 0x3D # v @ [0])"
  proof -
    have "(patch m entry ?l3)(entry + of_nat (length nm + 1 + length v) := 0) = patch m entry (?l3[length nm + 1 + length v := 0])"
      by (rule patch_upd) (use b l(1) in simp_all)
    moreover have "drop (length nm + 1 + length v) l = [l ! (length nm + 1 + length v)]"
      using l(1) Cons_nth_drop_Suc [of "length nm + 1 + length v" l] by simp
    ultimately show ?thesis by (simp add: list_update_append)
  qed
  have e: "of_nat (length nm) + 1 = (of_nat (length nm + 1) :: u32)" "of_nat (length nm + 1) + of_nat (length v) = (of_nat (length nm + 1 + length v) :: u32)"
    by simp_all
  show ?thesis
    unfolding fill_entry_def Let_def e using n by (simp only: unat_of_nat_small s1 s2 s3 s4)
qed

text \<open>
  The stack of the process lies above everything it has mapped: there the kernel puts the environment of a program at
  its start (\<open>StartStack\<close>). It is one more block whose bytes can be read, and that the allocator keeps.
\<close>

definition stack_above :: "uheap \<Rightarrow> (u32 \<Rightarrow> nat option) \<Rightarrow> u32 \<Rightarrow> nat \<Rightarrow> bool" where
  "stack_above u L stk k \<longleftrightarrow> unat (u_mmap u) \<le> unat stk \<and> unat stk + k < 4294967296 \<and> L stk = None"

lemma kept_stack:
  assumes "kept lo L m m'" "\<forall>a. unat stk \<le> unat a \<longrightarrow> m' a = m a" "unat stk + k < 4294967296"
  shows "kept lo (L(stk \<mapsto> k)) m m'"
proof -
  have "m' (stk + of_nat i) = m (stk + of_nat i)" if "i < k" for i
  proof -
    have "unat (stk + of_nat i) = unat stk + i" using assms(3) that by (intro unat_add_nat) linarith
    then show ?thesis using assms(2) by simp
  qed
  then show ?thesis using assms(1) by (simp add: kept_def)
qed

lemma block_below_stack:
  assumes "umem_run lo u L" "stack_above u L stk k" "L q = Some n" "j < n"
  shows "unat (q + of_nat j) < unat stk"
proof -
  have "unat (q + of_nat j) = unat q + j" using umem_run_ranges(1) [OF assms(1,3)] assms(4) by (intro unat_add_nat) linarith
  then show ?thesis using umem_run_below [OF assms(1,3)] assms(2,4) by (simp add: stack_above_def)
qed

lemma readable_apart_stack:
  assumes "umem_run lo u L" "stack_above u L stk k" "L q = Some n" "readable lo ((L(stk \<mapsto> k))(q := None)) p h" "i < h" "j < n"
  shows "p + of_nat i \<noteq> q + of_nat j"
proof (cases "readable lo (L(q := None)) p h")
  case True
  then show ?thesis by (rule readable_apart [OF assms(1,3) _ assms(5,6)])
next
  case False
  then obtain o' where o': "p = stk + of_nat o'" "o' + h \<le> k" using assms(4) by (auto simp: readable_def split: if_splits)
  have "unat (stk + of_nat (o' + i)) = unat stk + (o' + i)"
    using assms(2,5) o'(2) by (intro unat_add_nat) (simp add: stack_above_def)
  then have "unat stk \<le> unat (p + of_nat i)" by (simp add: o'(1) add.assoc)
  then show ?thesis using block_below_stack [OF assms(1-3,6)] by auto
qed

lemma store_kept_stack:
  assumes "umem_run lo u L" "stack_above u L stk k" "L q = Some n" "\<forall>a. (\<forall>i<n. a \<noteq> q + of_nat i) \<longrightarrow> m' a = um u a"
  shows "kept lo ((L(stk \<mapsto> k))(q := None)) (um u) m'"
proof -
  have "q \<noteq> stk" using assms(2,3) by (auto simp: stack_above_def)
  then have e: "(L(stk \<mapsto> k))(q := None) = (L(q := None))(stk \<mapsto> k)" by (rule fun_upd_twist [symmetric])
  have "m' a = um u a" if "unat stk \<le> unat a" for a
    using assms(4) that block_below_stack [OF assms(1-3)] by (metis leD)
  then show ?thesis unfolding e using kept_stack [OF store_kept [OF assms(1,3,4)]] assms(2) by (simp add: stack_above_def)
qed

text \<open>A small request keeps the stack, and does not move the mappings towards it.\<close>

lemma malloc_run_stack:
  assumes "umem_run lo u L" "umem_room sz u" "stack_above u L stk k" "0 < unat sz" "unat sz + 16 < 65536"
  shows "\<exists>r u'. malloc sz u = Inr (r, u') \<and> r \<noteq> 0 \<and> r \<noteq> stk \<and> L r = None \<and> umem_run lo u' (L(r \<mapsto> unat sz)) \<and>
    kept lo (L(stk \<mapsto> k)) (um u) (um u') \<and> unat (u_break u') \<le> unat (u_break u) + 65536 \<and> stack_above u' (L(r \<mapsto> unat sz)) stk k"
proof -
  from malloc_run [OF assms(1,2)] assms(5) obtain r u' where
    m: "malloc sz u = Inr (r, u')" "r \<noteq> 0" "L r = None" "umem_run lo u' (L(r \<mapsto> unat sz))" "kept lo L (um u) (um u')"
      "unat (u_break u') \<le> unat (u_break u) + 65536" "u_mmap u' = u_mmap u" "\<forall>a. unat (u_mmap u') \<le> unat a \<longrightarrow> um u' a = um u a"
    by blast
  have "(L(r \<mapsto> unat sz)) r = Some (unat sz)" by simp
  from umem_run_below [OF m(4) this] have ne: "r \<noteq> stk" using assms(3,4) m(7) by (auto simp: stack_above_def)
  moreover have "kept lo (L(stk \<mapsto> k)) (um u) (um u')"
    by (rule kept_stack [OF m(5)]) (use m(7,8) assms(3) in \<open>auto simp: stack_above_def\<close>)
  ultimately show ?thesis using m assms(3) by (auto simp: stack_above_def)
qed

lemma slot_outside:
  assumes "umem_run lo u L" "stack_above u L stk h" "L q = Some k" "readable lo ((L(stk \<mapsto> h))(q := None)) p n" "4 * i + 4 \<le> n" "4 * j + 4 \<le> k"
  shows "ld32 (st32 m (q + 4 * of_nat j) v) (p + 4 * of_nat i) = ld32 m (p + 4 * of_nat i)"
proof (rule ld32_cong)
  fix b assume "b \<in> touched (p + 4 * of_nat i)"
  then obtain x where x: "x < 4" "b = p + of_nat (4 * i + x)" unfolding touched_slot by blast
  show "st32 m (q + 4 * of_nat j) v b = m b"
  proof (rule st32_other)
    show "b \<notin> touched (q + 4 * of_nat j)"
    proof
      assume "b \<in> touched (q + 4 * of_nat j)"
      then obtain y where y: "y < 4" "b = q + of_nat (4 * j + y)" unfolding touched_slot by blast
      have "p + of_nat (4 * i + x) \<noteq> q + of_nat (4 * j + y)"
        by (rule readable_apart_stack [OF assms(1-4)]) (use x(1) y(1) assms(5,6) in simp_all)
      then show False using x(2) y(2) by simp
    qed
  qed
qed

lemma st32_outside:
  assumes "4 * j + 4 \<le> k" "\<forall>i<k. a \<noteq> q + of_nat i"
  shows "st32 m (q + 4 * of_nat j) v a = m a"
proof (rule st32_other)
  show "a \<notin> touched (q + 4 * of_nat j)"
  proof
    assume "a \<in> touched (q + 4 * of_nat j)"
    then obtain x where "x < 4" "a = q + of_nat (4 * j + x)" unfolding touched_slot by blast
    then show False using assms(2) [rule_format, of "4 * j + x"] assms(1) by simp
  qed
qed

definition others :: "u32 \<Rightarrow> nat \<Rightarrow> nat \<Rightarrow> nat list" where
  "others r i n = filter (\<lambda>j. of_nat j \<noteq> r) [i..<i + n]"

lemma others_Suc: "others r i (Suc n) = (if of_nat i \<noteq> r then [i] else []) @ others r (Suc i) n"
  by (simp add: others_def upt_conv_Cons del: upt_Suc)

lemma others_less: "j \<in> set (others r i n) \<Longrightarrow> j < i + n"
  by (auto simp: others_def)

lemma copy_env_result:
  assumes "\<And>m v j w. j < i + n \<Longrightarrow> 4 * w + 4 \<le> k \<Longrightarrow> ld32 (st32 m (q + 4 * of_nat w) v) (p + 4 * of_nat j) = ld32 m (p + 4 * of_nat j)"
    and "unat q + k < 4294967296" "4 * (w + length (others r i n)) \<le> k"
  shows "\<exists>m'. copy_env m p q r (of_nat i) (of_nat w) n = (of_nat (w + length (others r i n)), m') \<and>
    (\<forall>j<length (others r i n). ld32 m' (q + 4 * of_nat (w + j)) = ld32 m (p + 4 * of_nat (others r i n ! j))) \<and>
    (\<forall>j<w. ld32 m' (q + 4 * of_nat j) = ld32 m (q + 4 * of_nat j)) \<and> (\<forall>a. (\<forall>j<k. a \<noteq> q + of_nat j) \<longrightarrow> m' a = m a)"
  using assms(1,3)
proof (induction n arbitrary: i w m)
  case 0
  then show ?case by (simp add: others_def)
next
  case (Suc n)
  have sep: "ld32 (st32 m (q + 4 * of_nat w) v) (p + 4 * of_nat j) = ld32 m (p + 4 * of_nat j)" if "j < Suc i + n" "4 * w + 4 \<le> k" for m v j w
    using Suc.prems(1) that by simp
  have c: "1 + of_nat i = (of_nat (Suc i) :: u32)" "1 + of_nat w = (of_nat (Suc w) :: u32)" by simp_all
  show ?case
  proof (cases "of_nat i = r")
    case True
    then have o: "others r i (Suc n) = others r (Suc i) n" by (simp add: others_Suc)
    have st: "copy_env m p q r (of_nat i) (of_nat w) (Suc n) = copy_env m p q r (of_nat (Suc i)) (of_nat w) n"
      using True by (simp add: add.commute)
    show ?thesis unfolding o st
      by (rule Suc.IH [where i = "Suc i" and w = w and m = m, OF sep]) (use Suc.prems(2) o in simp_all)
  next
    case False
    then have o: "others r i (Suc n) = i # others r (Suc i) n" by (simp add: others_Suc)
    let ?m = "st32 m (q + 4 * of_nat w) (ld32 m (p + 4 * of_nat i))"
    have w: "4 * w + 4 \<le> k" "4 * (Suc w + length (others r (Suc i) n)) \<le> k" using Suc.prems(2) unfolding o by simp_all
    obtain m' where r: "copy_env ?m p q r (of_nat (Suc i)) (of_nat (Suc w)) n = (of_nat (Suc w + length (others r (Suc i) n)), m')"
      "\<forall>j<length (others r (Suc i) n). ld32 m' (q + 4 * of_nat (Suc w + j)) = ld32 ?m (p + 4 * of_nat (others r (Suc i) n ! j))"
      "\<forall>j<Suc w. ld32 m' (q + 4 * of_nat j) = ld32 ?m (q + 4 * of_nat j)" "\<forall>a. (\<forall>j<k. a \<noteq> q + of_nat j) \<longrightarrow> m' a = ?m a"
      using Suc.IH [OF sep w(2), of ?m] by blast
    have step: "copy_env m p q r (of_nat i) (of_nat w) (Suc n) = (of_nat (w + length (others r i (Suc n))), m')"
      using r(1) False unfolding o by (simp add: add.commute [of _ 1] c del: of_nat_Suc)
    have "ld32 m' (q + 4 * of_nat (w + j)) = ld32 m (p + 4 * of_nat (others r i (Suc n) ! j))" if "j < length (others r i (Suc n))" for j
    proof (cases j)
      case 0
      then show ?thesis using r(3) unfolding o by simp
    next
      case (Suc j')
      then have j': "j' < length (others r (Suc i) n)" using that unfolding o by simp
      have "others r (Suc i) n ! j' < Suc i + n" by (rule others_less [OF nth_mem [OF j']])
      then show ?thesis using r(2) j' sep w(1) unfolding o by (simp add: Suc)
    qed
    moreover have "ld32 m' (q + 4 * of_nat j) = ld32 m (q + 4 * of_nat j)" if "j < w" for j
      using r(3) that slots_apart [OF assms(2) w(1), of j] w(1) by simp
    moreover have "m' a = m a" if "\<forall>j<k. a \<noteq> q + of_nat j" for a
      using r(4) that st32_outside [OF w(1) that] by simp
    ultimately show ?thesis using step by blast
  qed
qed

text \<open>Looking up a name among the entries that stay.\<close>

lemma find_filtered:
  "(\<And>x. x \<in> set xs \<Longrightarrow> \<not> Q x \<Longrightarrow> \<not> P (f x)) \<Longrightarrow> find P (map f (filter Q xs)) = find P (map f xs)"
  by (induction xs) auto

lemma find_append: "find P (xs @ ys) = (case find P xs of None \<Rightarrow> find P ys | Some x \<Rightarrow> Some x)"
  by (induction xs) auto

definition env_set :: "u8 list list \<Rightarrow> u8 list \<Rightarrow> u8 list \<Rightarrow> u8 list list" where
  "env_set es nm v = map ((!) es) (others (last_with nm es (length es)) 0 (length es)) @ [nm @ 0x3D # v]"

lemma env_set_nth:
  assumes "i < length (env_set es nm v)"
  shows "i < length (others (last_with nm es (length es)) 0 (length es)) \<and>
      env_set es nm v ! i = es ! (others (last_with nm es (length es)) 0 (length es) ! i) \<or>
    i = length (others (last_with nm es (length es)) 0 (length es)) \<and> env_set es nm v ! i = nm @ 0x3D # v"
  using assms by (auto simp: env_set_def nth_append less_Suc_eq)

lemma removed_entry:
  assumes "j < length es" "of_nat j = last_with nm es (length es)" "length es < 4294967295"
  shows "has_name nm (es ! j)"
proof -
  have u: "unat (of_nat i :: u32) = i" if "i < length es" for i by (rule unat_of_nat_small) (use that assms(3) in linarith)
  from last_with_cases [of nm es "length es"] show ?thesis
  proof
    assume "last_with nm es (length es) = 0xFFFFFFFF \<and> (\<forall>i<length es. \<not> has_name nm (es ! i))"
    then have "unat (of_nat j :: u32) = 4294967295" using assms(2) by simp
    then show ?thesis using u [OF assms(1)] assms(1,3) by simp
  next
    assume "\<exists>k<length es. last_with nm es (length es) = of_nat k \<and> has_name nm (es ! k)"
    then obtain k where k: "k < length es" "of_nat j = (of_nat k :: u32)" "has_name nm (es ! k)" using assms(2) by auto
    then have "j = k" using u [OF assms(1)] u [OF k(1)] by metis
    then show ?thesis using k(3) by simp
  qed
qed

lemma kept_entry:
  assumes "names_once es" "j \<in> set (others (last_with nm es (length es)) 0 (length es))" "0x3D \<notin> set nm" "length es < 4294967295"
  shows "\<not> has_name nm (es ! j)"
proof
  assume h: "has_name nm (es ! j)"
  have j: "j < length es" "of_nat j \<noteq> last_with nm es (length es)" using assms(2) by (auto simp: others_def)
  from last_with_cases [of nm es "length es"] j(1) h obtain k where
    k: "k < length es" "last_with nm es (length es) = of_nat k" "has_name nm (es ! k)" by blast
  then have "j = k" using assms(1,3) j(1) h unfolding names_once_def by blast
  then show False using j(2) k(2) by simp
qed

lemma env_set_get:
  assumes "names_once es" "0x3D \<notin> set nm" "0x3D \<notin> set nm'" "length es < 4294967295"
  shows "env_get (env_set es nm v) nm' = (if nm' = nm then Some v else env_get es nm')"
proof (cases "nm' = nm")
  case True
  let ?o = "others (last_with nm es (length es)) 0 (length es)"
  have "find (has_name nm) (map ((!) es) ?o) = None"
    using kept_entry [OF assms(1) _ assms(2,4)] by (auto simp: find_None_iff)
  moreover have "has_name nm (nm @ 0x3D # v)" by (simp add: has_name_def)
  ultimately show ?thesis using True by (simp add: env_get_def env_set_def find_append)
next
  case False
  let ?r = "last_with nm es (length es)"
  have "find (has_name nm') (map ((!) es) (others ?r 0 (length es))) = find (has_name nm') (map ((!) es) [0..<length es])"
    unfolding others_def add_0
  proof (rule find_filtered)
    fix j assume j: "j \<in> set [0..<length es]" "\<not> of_nat j \<noteq> ?r"
    then have "has_name nm (es ! j)" using removed_entry [of j es nm] assms(4) by simp
    then show "\<not> has_name nm' (es ! j)" using has_name_same [OF _ _ assms(2,3)] False by metis
  qed
  moreover have "\<not> has_name nm' (nm @ 0x3D # v)" using has_name_same [OF _ _ assms(3,2)] False by (auto simp: has_name_split)
  ultimately show ?thesis using False by (simp add: env_get_def env_set_def find_append map_nth split: option.split)
qed

lemma env_set_once:
  assumes "names_once es" "0x3D \<notin> set nm" "length es < 4294967295"
  shows "names_once (env_set es nm v)"
  unfolding names_once_def
proof (intro allI impI)
  let ?o = "others (last_with nm es (length es)) 0 (length es)"
  fix i j n
  assume ij: "i < length (env_set es nm v)" "j < length (env_set es nm v)" "0x3D \<notin> set n"
    "has_name n (env_set es nm v ! i)" "has_name n (env_set es nm v ! j)"
  have new: "n = nm" if "has_name n (nm @ 0x3D # v)"
    using has_name_same [OF that _ ij(3) assms(2)] by (auto simp: has_name_split)
  have old: "\<not> has_name nm (es ! (?o ! k))" if "k < length ?o" for k
    by (rule kept_entry [OF assms(1) nth_mem [OF that] assms(2,3)])
  have dis: "distinct ?o" by (simp add: others_def)
  have ob: "?o ! k < length es" if "k < length ?o" for k using others_less [OF nth_mem [OF that]] by simp
  show "i = j"
    using env_set_nth [OF ij(1)] env_set_nth [OF ij(2)]
  proof (elim disjE conjE)
    assume a: "i < length ?o" "env_set es nm v ! i = es ! (?o ! i)" "j < length ?o" "env_set es nm v ! j = es ! (?o ! j)"
    then have "?o ! i = ?o ! j" using assms(1) ij(3-5) ob unfolding names_once_def by metis
    then show ?thesis using dis a(1,3) by (simp add: nth_eq_iff_index_eq)
  qed (use new old ij(4,5) in metis)+
qed

lemma others_count:
  assumes "length es < 4294967295" "n \<le> length es"
  shows "length (others (last_with nm es n) 0 n) = (if last_with nm es n = 0xFFFFFFFF then n else n - 1)"
proof -
  have u: "unat (of_nat i :: u32) = i" if "i < n" for i by (rule unat_of_nat_small) (use that assms in linarith)
  from last_with_cases [of nm es n] show ?thesis
  proof
    assume a: "last_with nm es n = 0xFFFFFFFF \<and> (\<forall>i<n. \<not> has_name nm (es ! i))"
    have "of_nat j \<noteq> (0xFFFFFFFF :: u32)" if "j < n" for j
    proof
      assume "of_nat j = (0xFFFFFFFF :: u32)"
      then have "unat (of_nat j :: u32) = 4294967295" by simp
      then show False using u [OF that] that assms by simp
    qed
    then have "others (last_with nm es n) 0 n = [0..<n]" using a by (simp add: others_def)
    then show ?thesis using a by simp
  next
    assume "\<exists>k<n. last_with nm es n = of_nat k \<and> has_name nm (es ! k)"
    then obtain k where k: "k < n" "last_with nm es n = of_nat k" by blast
    have "of_nat j = (of_nat k :: u32) \<longleftrightarrow> j = k" if "j < n" for j using u [OF that] u [OF k(1)] by metis
    then have "filter (\<lambda>j. of_nat j \<noteq> (of_nat k :: u32)) [0..<n] = filter (\<lambda>j. j \<noteq> k) [0..<n]" by (intro filter_cong) auto
    moreover have "set (filter (\<lambda>j. j \<noteq> k) [0..<n]) = {0..<n} - {k}" by auto
    then have "length (filter (\<lambda>j. j \<noteq> k) [0..<n]) = n - 1"
      using k(1) distinct_card [of "filter (\<lambda>j. j \<noteq> k) [0..<n]"] by simp
    moreover have "of_nat k \<noteq> (0xFFFFFFFF :: u32)"
    proof
      assume "of_nat k = (0xFFFFFFFF :: u32)"
      then have "unat (of_nat k :: u32) = 4294967295" by simp
      then show False using u [OF k(1)] k(1) assms by simp
    qed
    ultimately show ?thesis using k(2) by (simp add: others_def)
  qed
qed

lemma replace_sign:
  assumes "length es < 2147483648" "n \<le> length es"
  shows "0 \<le> sint (last_with nm es n) \<longleftrightarrow> last_with nm es n \<noteq> 0xFFFFFFFF"
  using last_with_cases [of nm es n]
proof
  assume "\<exists>k<n. last_with nm es n = of_nat k \<and> has_name nm (es ! k)"
  then obtain k where k: "k < n" "last_with nm es n = of_nat k" by blast
  have u: "unat (of_nat k :: u32) = k" by (rule unat_of_nat_small) (use k(1) assms in linarith)
  have "of_nat k \<noteq> (0xFFFFFFFF :: u32)"
  proof
    assume "of_nat k = (0xFFFFFFFF :: u32)"
    then have "unat (of_nat k :: u32) = 4294967295" by simp
    then show False using u k(1) assms by simp
  qed
  moreover have "0 \<le> sint (of_nat k :: u32)"
  proof -
    have "uint (of_nat k :: u32) = int k" using u by (metis uint_nat)
    moreover have "- 2147483648 \<le> sint (of_nat k :: u32)" using sint_greater_eq [of "of_nat k :: u32"] by simp
    ultimately show ?thesis using sint_cases [of "of_nat k"] k(1) assms by (simp split: if_splits)
  qed
  ultimately show ?thesis using k(2) by simp
qed simp

lemma new_count:
  assumes "length es < 2147483648"
  shows "(if 0 \<le> sint (last_with nm es (length es)) then of_nat (length es) else of_nat (length es) + 1) =
    (of_nat (length (others (last_with nm es (length es)) 0 (length es)) + 1) :: u32)"
proof -
  let ?N = "length es"
  have n: "?N < 4294967295" using assms by simp
  note c = others_count [OF n, of ?N nm] replace_sign [OF assms, of ?N nm]
  show ?thesis
  proof (cases "last_with nm es ?N = 0xFFFFFFFF")
    case False
    then have "0 < ?N" using last_with_cases [of nm es ?N] by auto
    then show ?thesis using False c by (simp add: of_nat_diff)
  qed (use c in simp)
qed

lemma env_set_length: "length (env_set es nm v) = length (others (last_with nm es (length es)) 0 (length es)) + 1"
  by (simp add: env_set_def)

lemma build_env:
  fixes es :: "u8 list list" and nm v :: "u8 list"
  defines "js \<equiv> others (last_with nm es (length es)) 0 (length es)"
  assumes "umem_run lo u L" "stack_above u L stk h" "L q = Some (4 * (length js + 2))" "env_at lo ((L(stk \<mapsto> h))(q := None)) (um u) p ps es"
    and "cstring (um u) entry (nm @ 0x3D # v)" "readable lo ((L(stk \<mapsto> h))(q := None)) entry (length (nm @ 0x3D # v) + 1)" "entry \<noteq> 0"
  shows "\<exists>m m'. copy_env (um u) p q (last_with nm es (length es)) 0 0 (length es) = (of_nat (length js), m) \<and>
    m' = st32 (st32 m (q + 4 * of_nat (length js)) entry) (q + 4 * (of_nat (length js) + 1)) 0 \<and>
    umem_run lo (u\<lparr>um := m'\<rparr>) L \<and> kept lo ((L(stk \<mapsto> h))(q := None)) (um u) m' \<and> env_at lo (L(stk \<mapsto> h)) m' q (map ((!) ps) js @ [entry]) (env_set es nm v)"
proof -
  let ?k = "4 * (length js + 2)" and ?n = "length js"
  note r = umem_run_ranges(1) [OF assms(2,4)] and lo = umem_run_lo [OF assms(2)]
  have old: "length ps = length es" "readable lo ((L(stk \<mapsto> h))(q := None)) p (4 * (length es + 1))"
    "\<And>i. i < length es \<Longrightarrow> ps ! i \<noteq> 0 \<and> ld32 (um u) (p + 4 * of_nat i) = ps ! i \<and> cstring (um u) (ps ! i) (es ! i) \<and>
      readable lo ((L(stk \<mapsto> h))(q := None)) (ps ! i) (length (es ! i) + 1)"
    using assms(5) unfolding env_at_def by blast+
  have sep: "ld32 (st32 m (q + 4 * of_nat w) x) (p + 4 * of_nat j) = ld32 m (p + 4 * of_nat j)"
    if "j < 0 + length es" "4 * w + 4 \<le> ?k" for m x j w
    by (rule slot_outside [OF assms(2-4) old(2) _ that(2)]) (use that(1) in simp)
  have room: "4 * (0 + length (others (last_with nm es (length es)) 0 (length es))) \<le> ?k" by (simp add: js_def)
  obtain m where m: "copy_env (um u) p q (last_with nm es (length es)) (of_nat 0) (of_nat 0) (length es) = (of_nat ?n, m)"
    "\<forall>j<?n. ld32 m (q + 4 * of_nat j) = ld32 (um u) (p + 4 * of_nat (js ! j))" "\<forall>a. (\<forall>j<?k. a \<noteq> q + of_nat j) \<longrightarrow> m a = um u a"
    using copy_env_result [OF sep r room, of "um u"] unfolding js_def by auto
  define m1 where "m1 = st32 m (q + 4 * of_nat ?n) entry"
  define m' where "m' = st32 m1 (q + 4 * of_nat (Suc ?n)) 0"
  have out: "\<forall>a. (\<forall>j<?k. a \<noteq> q + of_nat j) \<longrightarrow> m' a = um u a"
    using m(3) st32_outside [of ?n ?k] st32_outside [of "Suc ?n" ?k] by (simp add: m'_def m1_def)
  note st = store_run [OF assms(2,4) out] store_kept_stack [OF assms(2-4) out]
  have ne: "q \<noteq> stk" using assms(3,4) by (auto simp: stack_above_def)
  have w1: "ld32 m' (q + 4 * of_nat j) = ld32 m1 (q + 4 * of_nat j)" if "j \<le> ?n" for j
    unfolding m'_def by (rule slots_apart [OF r]) (use that in simp_all)
  have w2: "ld32 m1 (q + 4 * of_nat j) = ld32 m (q + 4 * of_nat j)" if "j < ?n" for j
    unfolding m1_def by (rule slots_apart [OF r]) (use that in simp_all)
  have words: "ld32 m' (q + 4 * of_nat j) = ld32 (um u) (p + 4 * of_nat (js ! j))" if "j < ?n" for j
    using w1 [of j] w2 [of j] m(2) that by simp
  have last: "ld32 m' (q + 4 * of_nat ?n) = entry" using w1 [of ?n] by (simp add: m1_def)
  have str: "cstring m' c s \<and> readable lo (L(stk \<mapsto> h)) c (length s + 1)"
    if "cstring (um u) c s" "readable lo ((L(stk \<mapsto> h))(q := None)) c (length s + 1)" for c s
  proof
    show "cstring m' c s" by (rule kept_cstring [OF st(2) that(2,1) lo])
    show "readable lo (L(stk \<mapsto> h)) c (length s + 1)" by (rule readable_mono [OF that(2)]) (simp split: if_splits)
  qed
  have len: "length (env_set es nm v) = Suc ?n" by (simp add: env_set_length js_def)
  have "(map ((!) ps) js @ [entry]) ! i \<noteq> 0 \<and> ld32 m' (q + 4 * of_nat i) = (map ((!) ps) js @ [entry]) ! i \<and>
      cstring m' ((map ((!) ps) js @ [entry]) ! i) (env_set es nm v ! i) \<and>
      readable lo (L(stk \<mapsto> h)) ((map ((!) ps) js @ [entry]) ! i) (length (env_set es nm v ! i) + 1)" if "i < Suc ?n" for i
  proof (cases "i = ?n")
    case True
    have "env_set es nm v ! ?n = nm @ 0x3D # v" by (simp add: env_set_def js_def [symmetric] nth_append)
    then show ?thesis using True last assms(8) str [OF assms(6,7)] by (simp add: nth_append)
  next
    case False
    then have i: "i < ?n" using that by simp
    have e: "env_set es nm v ! i = es ! (js ! i)" using i by (simp add: env_set_def js_def [symmetric] nth_append)
    have b: "js ! i < length es" using others_less [OF nth_mem [OF i [unfolded js_def]]] by (simp add: js_def)
    show ?thesis using old(3) [OF b] words [OF i] str i by (simp add: e nth_append)
  qed
  moreover have "readable lo (L(stk \<mapsto> h)) q (4 * (Suc ?n + 1))" by (rule readable_block [of _ q ?k]) (use assms(4) ne in simp_all)
  ultimately have "env_at lo (L(stk \<mapsto> h)) m' q (map ((!) ps) js @ [entry]) (env_set es nm v)"
    unfolding env_at_def len by (simp add: m'_def)
  moreover have "m' = st32 (st32 m (q + 4 * of_nat ?n) entry) (q + 4 * (of_nat ?n + 1)) 0"
    by (simp add: m'_def m1_def add.commute)
  ultimately show ?thesis using m(1) st by auto
qed

lemma setenv_entry:
  fixes nm v :: "u8 list"
  defines "n \<equiv> length nm + length v + 2"
  assumes "umem_run lo u L" "stack_above u L stk k" "env_at lo (L(stk \<mapsto> k)) (um u) envp ps es"
    and "cstring (um u) name nm" "cstring (um u) value v"
    and "readable lo (L(stk \<mapsto> k)) name (length nm + 1)" "readable lo (L(stk \<mapsto> k)) value (length v + 1)"
    and "n \<le> 65000" "unat (u_break u) + 65536 \<le> mmap_start"
  shows "\<exists>entry u1 u2. malloc (of_nat (length nm) + 1 + of_nat (length v) + 1) u = Inr (entry, u1) \<and> entry \<noteq> 0 \<and> entry \<noteq> stk \<and>
    L entry = None \<and> u2 = u1\<lparr>um := fill_entry (um u1) entry name (of_nat (length nm)) value (of_nat (length v))\<rparr> \<and>
    umem_run lo u2 (L(entry \<mapsto> n)) \<and> stack_above u2 (L(entry \<mapsto> n)) stk k \<and> kept lo (L(stk \<mapsto> k)) (um u) (um u2) \<and>
    env_at lo (L(stk \<mapsto> k)) (um u2) envp ps es \<and> cstring (um u2) name nm \<and> cstring (um u2) entry (nm @ 0x3D # v) \<and>
    unat (u_break u2) \<le> unat (u_break u) + 65536"
proof -
  let ?l = "nm @ 0x3D # v @ [0]" and ?M = "L(stk \<mapsto> k)"
  have n: "unat (of_nat n :: u32) = n" by (rule unat_of_nat_small) (use assms(9) in linarith)
  have room: "umem_room (of_nat n) u" using assms(9,10) n by (simp add: umem_room_def)
  have sz: "of_nat (length nm) + 1 + of_nat (length v) + 1 = (of_nat n :: u32)" by (simp add: n_def)
  have pos: "0 < unat (of_nat n :: u32)" "unat (of_nat n :: u32) + 16 < 65536" unfolding n using assms(9) by (simp_all add: n_def)
  obtain entry u1 where m: "malloc (of_nat n) u = Inr (entry, u1)" "entry \<noteq> 0" "entry \<noteq> stk" "L entry = None"
    "umem_run lo u1 (L(entry \<mapsto> n))" "kept lo ?M (um u) (um u1)" "unat (u_break u1) \<le> unat (u_break u) + 65536"
    "stack_above u1 (L(entry \<mapsto> n)) stk k"
    using malloc_run_stack [OF assms(2) room assms(3) pos] unfolding n by blast
  note lo = umem_run_lo [OF assms(2)]
  have h: "(L(entry \<mapsto> n)) entry = Some n" by simp
  have e: "((L(entry \<mapsto> n))(stk \<mapsto> k))(entry := None) = ?M" using m(3,4) by auto
  have len: "length ?l = n" by (simp add: n_def)
  have out: "\<forall>a. (\<forall>i<n. a \<noteq> entry + of_nat i) \<longrightarrow> patch (um u1) entry ?l a = um u1 a"
    using patch_outside [of ?l _ entry "um u1"] unfolding len by blast
  have f: "umem_run lo (u1\<lparr>um := patch (um u1) entry ?l\<rparr>) (L(entry \<mapsto> n))" by (rule store_run [OF m(5) h out])
  have k2: "kept lo ?M (um u) (patch (um u1) entry ?l)"
    by (rule kept_trans [OF m(6) store_kept_stack [OF m(5,8) h out, unfolded e]])
  have below: "unat entry + n < 4294967296" by (rule umem_run_ranges(1) [OF m(5) h])
  have ap: "q + of_nat i \<noteq> entry + of_nat j" if "readable lo ?M q (w + 1)" "i < w" "j < n" for q i j w
    by (rule readable_apart_stack [OF m(5,8) h, unfolded e, OF that(1) _ that(3)]) (use that(2) in simp)
  have fe: "fill_entry (um u1) entry name (of_nat (length nm)) value (of_nat (length v)) = patch (um u1) entry ?l"
  proof (rule fill_entry_result)
    show "unat entry + (length nm + length v + 2) < 4294967296" using below by (simp add: n_def)
    show "cstring (um u1) name nm" by (rule kept_cstring [OF m(6) assms(7,5) lo])
    show "cstring (um u1) value v" by (rule kept_cstring [OF m(6) assms(8,6) lo])
  qed (use ap [OF assms(7)] ap [OF assms(8)] in \<open>simp_all add: n_def\<close>)
  have nz: "0 \<notin> set (nm @ 0x3D # v)" using assms(5,6) by (auto simp: cstring_def)
  have "cstring (patch (um u1) entry ((nm @ 0x3D # v) @ [0])) entry (nm @ 0x3D # v)"
    by (rule patch_cstring) (use nz below in \<open>simp_all add: n_def\<close>)
  moreover have "env_at lo ?M (patch (um u1) entry ?l) envp ps es" by (rule env_at_kept [OF assms(4) k2 lo])
  moreover have "cstring (patch (um u1) entry ?l) name nm" by (rule kept_cstring [OF k2 assms(7,5) lo])
  moreover have "stack_above (u1\<lparr>um := patch (um u1) entry ?l\<rparr>) (L(entry \<mapsto> n)) stk k" using m(8) by (simp add: stack_above_def)
  ultimately show ?thesis using m(1-4,7) f k2 fe unfolding sz
    by (intro exI [of _ entry] exI [of _ u1] exI [of _ "u1\<lparr>um := patch (um u1) entry ?l\<rparr>"]) simp
qed

text \<open>
  C33. \<open>setenv\<close> replaces the entry of the name or adds one, in an array of its own: it answers 0, the map that the
  environment stands for is updated at the name and nowhere else, and \<open>getenv\<close> reads that map from then on. The
  environment and the arguments lie in the image, in allocations or on the stack above the mappings, where the kernel puts
  the environment a program starts with. No name has two entries, the sizes stay below those that are mapped, and there is
  room for two allocations. Without the first condition it fails: of two entries with the name only the last is left out.
\<close>

theorem getenv_setenv:
  assumes "umem_run lo u L" "stack_above u L stk k" "env_at lo (L(stk \<mapsto> k)) (um u) envp ps es" "names_once es"
    and "cstring (um u) name nm" "cstring (um u) value v"
    and "readable lo (L(stk \<mapsto> k)) name (length nm + 1)" "readable lo (L(stk \<mapsto> k)) value (length v + 1)" "0x3D \<notin> set nm"
    and "length nm + length v + 2 \<le> 65000" "4 * (length es + 2) \<le> 65000" "unat (u_break u) + 2 * 65536 \<le> mmap_start"
  shows "\<exists>envp' u' L' ps' es'. setenv name value envp u = Inr (0, envp', u') \<and> umem_run lo u' L' \<and> stack_above u' L' stk k \<and>
    (\<forall>a n. L a = Some n \<longrightarrow> L' a = Some n) \<and> kept lo (L(stk \<mapsto> k)) (um u) (um u') \<and>
    env_at lo (L'(stk \<mapsto> k)) (um u') envp' ps' es' \<and> names_once es' \<and>
    (\<forall>nm'. 0x3D \<notin> set nm' \<longrightarrow> env_get es' nm' = (if nm' = nm then Some v else env_get es nm')) \<and>
    (\<forall>name' nm'. cstring (um u) name' nm' \<longrightarrow> readable lo (L(stk \<mapsto> k)) name' (length nm' + 1) \<longrightarrow> 0x3D \<notin> set nm' \<longrightarrow>
      (\<exists>p. getenv (um u') envp' name' = Some p \<and>
        (case if nm' = nm then Some v else env_get es nm' of None \<Rightarrow> p = 0 | Some w \<Rightarrow> cstring (um u') p w)))"
proof -
  let ?n = "length nm + length v + 2" and ?r = "last_with nm es (length es)" and ?M = "L(stk \<mapsto> k)"
  let ?js = "others ?r 0 (length es)" and ?N = "length es"
  note lo = umem_run_lo [OF assms(1)]
  have b1: "unat (u_break u) + 65536 \<le> mmap_start" using assms(12) by linarith
  obtain entry u1 u2 where a: "malloc (of_nat (length nm) + 1 + of_nat (length v) + 1) u = Inr (entry, u1)" "entry \<noteq> 0" "entry \<noteq> stk"
    "L entry = None" "u2 = u1\<lparr>um := fill_entry (um u1) entry name (of_nat (length nm)) value (of_nat (length v))\<rparr>"
    "umem_run lo u2 (L(entry \<mapsto> ?n))" "stack_above u2 (L(entry \<mapsto> ?n)) stk k" "kept lo ?M (um u) (um u2)"
    "env_at lo ?M (um u2) envp ps es" "cstring (um u2) name nm" "cstring (um u2) entry (nm @ 0x3D # v)"
    "unat (u_break u2) \<le> unat (u_break u) + 65536"
    using setenv_entry [OF assms(1-3,5-8,10) b1] by blast
  have small: "?N < 4294967295" "?N < 2147483648" using assms(11) by simp_all
  have scan: "scan_env (um u2) envp name (of_nat (length nm)) 0 0xFFFFFFFF = Some (of_nat ?N, ?r)"
    using scan_env_result [OF a(9,10), of 0] by (simp add: last_with_def)
  define newcnt where "newcnt = (if 0 \<le> sint ?r then of_nat ?N else of_nat ?N + 1 :: u32)"
  have cnt: "newcnt = of_nat (length ?js + 1)" unfolding newcnt_def by (rule new_count [OF small(2)])
  have jl: "length ?js \<le> ?N" by (simp add: others_def) (metis diff_zero length_filter_le length_upt)
  have sz: "(newcnt + 1) * 4 = of_nat (4 * (length ?js + 2))" unfolding cnt by (simp add: algebra_simps)
  have un: "unat (of_nat (4 * (length ?js + 2)) :: u32) = 4 * (length ?js + 2)"
    by (rule unat_of_nat_small [OF order_le_less_trans [of _ 65000]]) (use jl assms(11) in simp_all)
  have rm: "max 1 (4 * (length ?js + 2)) + 16 < 65536" "unat (u_break u2) + 65536 \<le> mmap_start"
    using jl assms(11,12) a(12) by simp_all
  then have room: "umem_room ((newcnt + 1) * 4) u2" unfolding sz umem_room_def un Let_def by simp
  have pos: "0 < unat ((newcnt + 1) * 4)" "unat ((newcnt + 1) * 4) + 16 < 65536" unfolding sz un using rm(1) by simp_all
  let ?L2 = "L(entry \<mapsto> ?n)"
  let ?M2 = "?L2(stk \<mapsto> k)"
  obtain q u3 where m: "malloc ((newcnt + 1) * 4) u2 = Inr (q, u3)" "q \<noteq> 0" "q \<noteq> stk" "?L2 q = None"
    "umem_run lo u3 (?L2(q \<mapsto> 4 * (length ?js + 2)))" "kept lo ?M2 (um u2) (um u3)"
    "stack_above u3 (?L2(q \<mapsto> 4 * (length ?js + 2))) stk k"
    using malloc_run_stack [OF a(6) room a(7) pos] unfolding sz un by blast
  let ?L3 = "?L2(q \<mapsto> 4 * (length ?js + 2))"
  have e3: "(?L3(stk \<mapsto> k))(q := None) = ?M2" using m(3,4) by (auto simp: fun_eq_iff)
  have up: "?L2 x = Some w" if "L x = Some w" for x w using that a(4) by auto
  have upM: "?M2 x = Some w" if "?M x = Some w" for x w using that a(4) by (auto split: if_splits)
  have env3: "env_at lo ?M2 (um u3) envp ps es" by (rule env_at_kept [OF env_at_mono [OF a(9) upM] m(6) lo])
  have re: "readable lo ?M2 entry (length (nm @ 0x3D # v) + 1)" by (rule readable_block [where k = ?n]) (use a(3) in simp_all)
  have cs: "cstring (um u3) entry (nm @ 0x3D # v)" by (rule kept_cstring [OF m(6) re a(11) lo])
  have h: "?L3 q = Some (4 * (length ?js + 2))" by simp
  obtain mm m' where b: "copy_env (um u3) envp q ?r 0 0 ?N = (of_nat (length ?js), mm)"
    "m' = st32 (st32 mm (q + 4 * of_nat (length ?js)) entry) (q + 4 * (of_nat (length ?js) + 1)) 0"
    "umem_run lo (u3\<lparr>um := m'\<rparr>) ?L3" "kept lo ?M2 (um u3) m'"
    "env_at lo (?L3(stk \<mapsto> k)) m' q (map ((!) ps) ?js @ [entry]) (env_set es nm v)"
    using build_env [OF m(5,7) h, unfolded e3, OF env3 cs re a(2)] by blast
  have uN: "unat (of_nat ?N :: u32) = ?N" by (rule unat_of_nat_small) (use small in linarith)
  have len: "ustrlen (um u) name = Some (of_nat (length nm))" "ustrlen (um u) value = Some (of_nat (length v))"
    using kstrlen_cstring [OF assms(5)] kstrlen_cstring [OF assms(6)] by (simp_all add: ustrlen_def kstrlen_def)
  have e: "setenv name value envp u = Inr (0, q, u3\<lparr>um := m'\<rparr>)"
    using a(2) m(2) scan b(1)
    by (simp only: setenv_def len a(1) ran_Some and_then_simps prod.case if_False a(5) [symmetric] Let_def newcnt_def [symmetric]
        m(1) uN b(2))
  have "kept lo ?M (um u) m'"
    using kept_trans [OF a(8)] kept_sub [OF kept_trans [OF m(6) b(4)], of ?M] upM by blast
  then have kp: "kept lo ?M (um u) (um (u3\<lparr>um := m'\<rparr>))" by simp
  have l: "\<forall>x w. L x = Some w \<longrightarrow> ?L3 x = Some w" using up m(4) by auto
  have n: "\<forall>nm'. 0x3D \<notin> set nm' \<longrightarrow> env_get (env_set es nm v) nm' = (if nm' = nm then Some v else env_get es nm')"
    using env_set_get [OF assms(4,9) _ small(1)] by blast
  have at: "env_at lo (?L3(stk \<mapsto> k)) (um (u3\<lparr>um := m'\<rparr>)) q (map ((!) ps) ?js @ [entry]) (env_set es nm v)" using b(5) by simp
  have st: "stack_above (u3\<lparr>um := m'\<rparr>) ?L3 stk k" using m(7) by (simp add: stack_above_def)
  have g: "\<forall>name' nm'. cstring (um u) name' nm' \<longrightarrow> readable lo ?M name' (length nm' + 1) \<longrightarrow> 0x3D \<notin> set nm' \<longrightarrow>
      (\<exists>p. getenv (um (u3\<lparr>um := m'\<rparr>)) q name' = Some p \<and>
        (case if nm' = nm then Some v else env_get es nm' of None \<Rightarrow> p = 0 | Some w \<Rightarrow> cstring (um (u3\<lparr>um := m'\<rparr>)) p w))"
  proof (intro allI impI)
    fix name' nm' assume h: "cstring (um u) name' nm'" "readable lo ?M name' (length nm' + 1)" "0x3D \<notin> set nm'"
    from getenv_result [OF at kept_cstring [OF kp h(2,1) lo]] n h(3)
    show "\<exists>p. getenv (um (u3\<lparr>um := m'\<rparr>)) q name' = Some p \<and>
        (case if nm' = nm then Some v else env_get es nm' of None \<Rightarrow> p = 0 | Some w \<Rightarrow> cstring (um (u3\<lparr>um := m'\<rparr>)) p w)" by simp
  qed
  show ?thesis by (intro exI conjI) (rule e b(3) st l kp at env_set_once [OF assms(4,9) small(1)] n g)+
qed

text \<open>
  A program with \<open>PATH=/\<close> in the environment it was started with, on its stack of four pages below \<open>0x8000000\<close>, and the
  strings \<open>PATH\<close> and \<open>/b\<close> in its image.
\<close>

definition udemo_env :: uheap where
  "udemo_env = udemo_heap\<lparr>um := patch (patch (patch (\<lambda>_. 0) 0x7FFFFF0 [0xF8, 0xFF, 0xFF, 0x07, 0, 0, 0, 0])
     0x7FFFFF8 [0x50, 0x41, 0x54, 0x48, 0x3D, 0x2F, 0]) 0x1200 [0x50, 0x41, 0x54, 0x48, 0, 0x2F, 0x62, 0]\<rparr>"

lemma udemo_env_run: "umem_run 0x8000 udemo_env Map.empty" "stack_above udemo_env Map.empty 0x7FFC000 0x4000"
  by (rule umem_run.start) (simp_all add: udemo_env_def udemo_heap_def mmap_start_def stack_above_def)

lemma udemo_env_strings:
  "cstring (um udemo_env) 0x7FFFFF8 [0x50, 0x41, 0x54, 0x48, 0x3D, 0x2F]" "cstring (um udemo_env) 0x1200 [0x50, 0x41, 0x54, 0x48]"
  "cstring (um udemo_env) 0x1205 [0x2F, 0x62]"
  by (simp_all add: cstring_Cons cstring_Nil udemo_env_def patch_def)

lemma udemo_stack: "o' + n \<le> 0x4000 \<Longrightarrow> readable 0x8000 [0x7FFC000 \<mapsto> 0x4000] (0x7FFC000 + of_nat o') n"
  unfolding readable_def by (intro disjI2 exI [of _ "0x7FFC000"] exI [of _ "0x4000"] exI [of _ o']) simp

lemma udemo_env_at:
  "env_at 0x8000 [0x7FFC000 \<mapsto> 0x4000] (um udemo_env) 0x7FFFFF0 [0x7FFFFF8] [[0x50, 0x41, 0x54, 0x48, 0x3D, 0x2F]]"
proof -
  have "ld32 (um udemo_env) 0x7FFFFF0 = 0x7FFFFF8" "ld32 (um udemo_env) 0x7FFFFF4 = 0"
    by (simp_all add: udemo_env_def ld32_def patch_def of_le32_def)
  then show ?thesis using udemo_env_strings(1) udemo_stack [of "0x3FF0" 8]
    udemo_stack [of "0x3FF8" "length [0x50, 0x41, 0x54, 0x48, 0x3D, 0x2F :: u8] + 1"] by (simp add: env_at_def)
qed

theorem getenv_setenv_witness:
  "\<exists>envp' u' p. setenv 0x1200 0x1205 0x7FFFFF0 udemo_env = Inr (0, envp', u') \<and>
    getenv (um u') envp' 0x1200 = Some p \<and> cstring (um u') p [0x2F, 0x62]"
proof -
  let ?nm = "[0x50, 0x41, 0x54, 0x48] :: u8 list" and ?v = "[0x2F, 0x62] :: u8 list" and ?e = "[0x50, 0x41, 0x54, 0x48, 0x3D, 0x2F] :: u8 list"
  let ?M = "[0x7FFC000 \<mapsto> 0x4000] :: u32 \<Rightarrow> nat option"
  have pre: "readable 0x8000 ?M 0x1200 (length ?nm + 1)" "readable 0x8000 ?M 0x1205 (length ?v + 1)" "0x3D \<notin> set ?nm"
    "length ?nm + length ?v + 2 \<le> 65000" "4 * (length [?e] + 2) \<le> 65000" "unat (u_break udemo_env) + 2 * 65536 \<le> mmap_start"
    by (simp_all add: readable_def mmap_start_def udemo_env_def udemo_heap_def)
  have once: "names_once [?e]" by (simp add: names_once_def)
  obtain envp' u' where r: "setenv 0x1200 0x1205 0x7FFFFF0 udemo_env = Inr (0, envp', u')"
    "\<forall>name' nm'. cstring (um udemo_env) name' nm' \<longrightarrow> readable 0x8000 ?M name' (length nm' + 1) \<longrightarrow> 0x3D \<notin> set nm' \<longrightarrow>
      (\<exists>p. getenv (um u') envp' name' = Some p \<and>
        (case if nm' = ?nm then Some ?v else env_get [?e] nm' of None \<Rightarrow> p = 0 | Some w \<Rightarrow> cstring (um u') p w))"
    using getenv_setenv [OF udemo_env_run udemo_env_at once udemo_env_strings(2,3) pre] by blast
  show ?thesis using r(1) r(2) [rule_format, OF udemo_env_strings(2) pre(1,3)] by auto
qed

end
