(* ===== verification/Ustdio.thy ===== *)
theory Ustdio
  imports Ustring
begin

text \<open>
  Formatted output of user programs, \<open>vsnprintf\<close> and \<open>printf\<close> of \<open>user_fs/lib/stdio.h\<close>, over the memory of the
  program: numbers are formatted into allocations of their own that are freed again, and \<open>printf\<close> tries larger and larger
  buffers. What is printed is proved against the rendering of the format.
\<close>

section \<open>Operations\<close>

text \<open>\<open>while (*s && i < size - 1) buf[i++] = *s++\<close>.\<close>

partial_function (option) copy_arg :: "u32 \<Rightarrow> u32 \<Rightarrow> u32 \<Rightarrow> u32 \<Rightarrow> bytes_mem \<Rightarrow> (u32 \<times> bytes_mem) option" where
  "copy_arg buf sz s i m =
     (if m s \<noteq> 0 \<and> i < sz - 1 then copy_arg buf sz (s + 1) (i + 1) (m(buf + i := m s)) else Some (i, m))"

definition put_string :: "u32 \<Rightarrow> u32 \<Rightarrow> u32 \<Rightarrow> u32 \<Rightarrow> uheap \<Rightarrow> (u32 \<times> uheap) res" where
  "put_string buf sz s i u = and_then (ran (copy_arg buf sz s i (um u))) (\<lambda>(i, m). Inr (i, u\<lparr>um := m\<rparr>))"

text \<open>A conversion that formats into a string of its own; without memory for it nothing is written.\<close>

definition put_number :: "(u32 \<Rightarrow> uheap \<Rightarrow> (u32 \<times> uheap) res) \<Rightarrow> u32 \<Rightarrow> u32 \<Rightarrow> u32 \<Rightarrow> u32 \<Rightarrow> uheap \<Rightarrow> (u32 \<times> uheap) res" where
  "put_number conv buf sz a i u =
     and_then (conv a u) (\<lambda>(s, u1).
       if s = 0 then Inr (i, u1)
       else and_then (put_string buf sz s i u1) (\<lambda>(i, u2). Inr (i, ufree s u2)))"

text \<open>What a conversion character does with its argument.\<close>

definition put_arg :: "u8 \<Rightarrow> u32 \<Rightarrow> u32 \<Rightarrow> u32 \<Rightarrow> u32 \<Rightarrow> uheap \<Rightarrow> (u32 \<times> uheap) res" where
  "put_arg c buf sz a i u =
     (if c = 0x73 then put_string buf sz a i u
      else if c = 0x64 then put_number itoa buf sz a i u
      else if c = 0x78 then put_number itoa_hex buf sz a i u
      else Inr (i + 1, u\<lparr>um := (um u)(buf + i := ucast a)\<rparr>))"

definition takes_arg :: "u8 \<Rightarrow> bool" where
  "takes_arg c \<longleftrightarrow> c = 0x73 \<or> c = 0x64 \<or> c = 0x78 \<or> c = 0x63"

text \<open>The arguments are 32-bit words; a missing one is undefined.\<close>

partial_function (option) fmt_loop :: "u32 \<Rightarrow> u32 \<Rightarrow> u32 \<Rightarrow> u32 \<Rightarrow> u32 list \<Rightarrow> uheap \<Rightarrow> (u32 \<times> uheap) res option" where
  "fmt_loop buf sz fmt i args u =
     (if um u fmt \<noteq> 0 \<and> i < sz - 1
      then if um u fmt = 0x25
           then let c = um u (fmt + 1)
                in if takes_arg c
                   then case args of
                          [] \<Rightarrow> Some (Inl (KFault ''va_arg''))
                        | a # args' \<Rightarrow>
                            (case put_arg c buf sz a i u of
                               Inl e \<Rightarrow> Some (Inl e)
                             | Inr (i', u') \<Rightarrow> fmt_loop buf sz (fmt + 2) i' args' u')
                   else fmt_loop buf sz (fmt + 2) i args u
           else fmt_loop buf sz (fmt + 1) (i + 1) args (u\<lparr>um := (um u)(buf + i := um u fmt)\<rparr>)
      else Some (Inr (i, u)))"

definition vsnprintf :: "u32 \<Rightarrow> u32 \<Rightarrow> u32 \<Rightarrow> u32 list \<Rightarrow> uheap \<Rightarrow> (u32 \<times> uheap) res" where
  "vsnprintf buf sz fmt args u =
     and_then (and_then (ran (fmt_loop buf sz fmt 0 args u)) id) (\<lambda>(i, u1). Inr (i, u1\<lparr>um := (um u1)(buf + i := 0)\<rparr>))"

definition snprintf :: "u32 \<Rightarrow> u32 \<Rightarrow> u32 \<Rightarrow> u32 list \<Rightarrow> uheap \<Rightarrow> (u32 \<times> uheap) res" where
  "snprintf = vsnprintf"

text \<open>The result of \<open>printf\<close> is what it writes to the terminal.\<close>

fun printf_attempts :: "nat \<Rightarrow> u32 \<Rightarrow> u32 \<Rightarrow> u32 list \<Rightarrow> uheap \<Rightarrow> (u8 list \<times> uheap) res" where
  "printf_attempts 0 sz fmt args u = Inr ([], u)"
| "printf_attempts (Suc k) sz fmt args u =
     and_then (malloc sz u) (\<lambda>(buf, u1).
       if buf = 0 then Inr ([], u1)
       else and_then (vsnprintf buf sz fmt args u1) (\<lambda>(n, u2).
            if n < sz - 1 then and_then (string_at (um u2) buf) (\<lambda>s. Inr (s, ufree buf u2))
            else printf_attempts k (sz * 4) fmt args (ufree buf u2)))"

definition printf :: "u32 \<Rightarrow> u32 list \<Rightarrow> uheap \<Rightarrow> (u8 list \<times> uheap) res" where
  "printf fmt args u = printf_attempts 4 256 fmt args u"

declare copy_arg.simps [code] fmt_loop.simps [code]

section \<open>The rendering of a format\<close>

datatype parg = PStr "u8 list" | PInt u32

fun conversion :: "u8 \<Rightarrow> parg \<Rightarrow> u8 list option" where
  "conversion c (PStr s) = (if c = 0x73 then Some s else None)"
| "conversion c (PInt n) =
     (if c = 0x64 then Some (dec_string n) else if c = 0x78 then Some (hex_digits (unat n)) else if c = 0x63 then Some [ucast n] else None)"

text \<open>None for a format that ends in \<open>%\<close> and for a missing or wrong argument.\<close>

fun render :: "u8 list \<Rightarrow> parg list \<Rightarrow> u8 list option" where
  "render [] as = Some []"
| "render [c] as = (if c = 0x25 then None else Some [c])"
| "render (c # d # fs) as =
     (if c = 0x25
      then if takes_arg d
           then (case as of [] \<Rightarrow> None
                 | a # as' \<Rightarrow> Option.bind (conversion d a) (\<lambda>s. map_option (\<lambda>r. s @ r) (render fs as')))
           else render fs as
      else map_option (\<lambda>r. c # r) (render (d # fs) as))"

section \<open>Writing into the buffer\<close>

definition buf_has :: "bytes_mem \<Rightarrow> u32 \<Rightarrow> u8 list \<Rightarrow> bool" where
  "buf_has m buf bs \<longleftrightarrow> (\<forall>j<length bs. m (buf + of_nat j) = bs ! j)"

lemma buf_has_add:
  assumes "buf_has m buf pre" "length pre < k" "unat buf + k < 4294967296"
  shows "buf_has (m(buf + of_nat (length pre) := c)) buf (pre @ [c])"
proof -
  have "buf + of_nat j \<noteq> buf + of_nat (length pre)" if "j < length pre" for j
  proof
    assume "buf + of_nat j = buf + of_nat (length pre)"
    moreover have "unat (buf + of_nat j) = unat buf + j" "unat (buf + of_nat (length pre)) = unat buf + length pre"
      by (intro unat_add_nat; use assms(2,3) that in linarith)+
    ultimately show False using that by simp
  qed
  then show ?thesis using assms(1) by (auto simp: buf_has_def nth_append less_Suc_eq)
qed

lemma size_pred: "0 < unat sz \<Longrightarrow> unat (sz - 1 :: u32) = unat sz - 1"
  using unat_sub [of 1 sz] by (simp add: word_le_nat_alt)

lemma pre_len: "n \<le> unat (sz :: u32) - 1 \<Longrightarrow> unat (of_nat n :: u32) = n"
  by (rule unat_of_nat_small) (use unat_bound32 [of sz] in linarith)

lemma copy_arg_result:
  assumes "cstring m s str" "buf_has m buf pre" "length pre \<le> unat sz - 1" "0 < unat sz" "unat sz \<le> k" "unat buf + k < 4294967296"
    and "\<forall>j<length str + 1. \<forall>i<k. s + of_nat j \<noteq> buf + of_nat i"
  shows "\<exists>m'. copy_arg buf sz s (of_nat (length pre)) m = Some (of_nat (length (take (unat sz - 1) (pre @ str))), m') \<and>
    buf_has m' buf (take (unat sz - 1) (pre @ str)) \<and> (\<forall>a. (\<forall>i<k. a \<noteq> buf + of_nat i) \<longrightarrow> m' a = m a)"
  using assms(1-3,7)
proof (induction str arbitrary: m s pre)
  case Nil
  then show ?case by (subst copy_arg.simps) (simp add: cstring_Nil)
next
  case (Cons c str)
  have sz: "unat (sz - 1) = unat sz - 1" using assms(4) by (rule size_pred)
  have lt: "of_nat (length pre) < sz - 1 \<longleftrightarrow> length pre < unat sz - 1"
    using sz pre_len [OF Cons.prems(3)] by (simp add: word_less_nat_alt)
  have c: "m s = c" "c \<noteq> 0" "cstring m (s + 1) str" using Cons.prems(1) by (simp_all add: cstring_Cons)
  show ?case
  proof (cases "length pre < unat sz - 1")
    case False
    then show ?thesis using Cons.prems(2,3) lt by (subst copy_arg.simps) simp
  next
    case True
    let ?m = "m(buf + of_nat (length pre) := c)"
    have k: "length pre < k" using True assms(5) by linarith
    have out: "s + 1 + of_nat j \<noteq> buf + of_nat (length pre)" if "j < length str + 1" for j
      using Cons.prems(4) [rule_format, of "Suc j" "length pre"] that k by (simp add: add.assoc)
    have cs: "cstring ?m (s + 1) str" using c(3) out by (simp add: cstring_def)
    have sep: "\<forall>j<length str + 1. \<forall>i<k. s + 1 + of_nat j \<noteq> buf + of_nat i"
      using Cons.prems(4) by (auto simp: add.assoc simp flip: of_nat_Suc)
    have le: "length (pre @ [c]) \<le> unat sz - 1" using True by simp
    obtain m' where r: "copy_arg buf sz (s + 1) (of_nat (length (pre @ [c]))) ?m = Some (of_nat (length (take (unat sz - 1) ((pre @ [c]) @ str))), m')"
      "buf_has m' buf (take (unat sz - 1) ((pre @ [c]) @ str))" "\<forall>a. (\<forall>i<k. a \<noteq> buf + of_nat i) \<longrightarrow> m' a = ?m a"
      using Cons.IH [OF cs buf_has_add [OF Cons.prems(2) k assms(6)] le sep] by blast
    have "copy_arg buf sz s (of_nat (length pre)) m = copy_arg buf sz (s + 1) (of_nat (length (pre @ [c]))) ?m"
      using c(1,2) True lt by (subst copy_arg.simps) (simp add: add.commute)
    then show ?thesis using r k by auto
  qed
qed

text \<open>
  After a step the buffer holds \<open>w\<close>, everything else that is held is as it was, and the break has moved by at most \<open>d\<close>.
\<close>

definition written :: "nat \<Rightarrow> (u32 \<Rightarrow> nat option) \<Rightarrow> u32 \<Rightarrow> uheap \<Rightarrow> nat \<Rightarrow> u8 list \<Rightarrow> uheap \<Rightarrow> bool" where
  "written lo L buf u d w u' \<longleftrightarrow> umem_run lo u' L \<and> kept lo (L(buf := None)) (um u) (um u') \<and> buf_has (um u') buf w \<and>
     unat (u_break u') \<le> unat (u_break u) + d"

text \<open>The buffer is an allocation of \<open>k\<close> bytes, and the size fits it.\<close>

definition sized :: "(u32 \<Rightarrow> nat option) \<Rightarrow> u32 \<Rightarrow> u32 \<Rightarrow> bool" where
  "sized L buf sz \<longleftrightarrow> 0 < unat sz \<and> (\<exists>k. L buf = Some k \<and> unat sz \<le> k)"

lemma written_then:
  assumes "written lo L buf u d w u1" "written lo L buf u1 e w' u2"
  shows "written lo L buf u (d + e) w' u2"
  using assms kept_trans [of lo "L(buf := None)"] by (fastforce simp: written_def)

lemma kept_buf:
  assumes "kept lo L m m'" "sized L buf sz" "length w \<le> unat sz - 1" "buf_has m buf w"
  shows "buf_has m' buf w"
proof -
  obtain k where k: "L buf = Some k" "unat sz \<le> k" using assms(2) by (auto simp: sized_def)
  have "m' (buf + of_nat j) = m (buf + of_nat j)" if "j < length w" for j
  proof -
    have "j < k" using that k(2) assms(3) by linarith
    then show ?thesis using assms(1) k(1) by (simp add: kept_def)
  qed
  then show ?thesis using assms(4) by (simp add: buf_has_def)
qed

lemma put_string_result:
  assumes "umem_run lo u L" "sized L buf sz" "cstring (um u) s str" "readable lo (L(buf := None)) s (length str + 1)"
    and "buf_has (um u) buf pre" "length pre \<le> unat sz - 1"
  shows "\<exists>u'. put_string buf sz s (of_nat (length pre)) u = Inr (of_nat (length (take (unat sz - 1) (pre @ str))), u') \<and>
    written lo L buf u 0 (take (unat sz - 1) (pre @ str)) u'"
proof -
  obtain k where k: "L buf = Some k" "unat sz \<le> k" "0 < unat sz" using assms(2) by (auto simp: sized_def)
  note r = umem_run_ranges(1) [OF assms(1) k(1)]
  have sep: "\<forall>j<length str + 1. \<forall>i<k. s + of_nat j \<noteq> buf + of_nat i"
    using readable_apart [OF assms(1) k(1) assms(4)] by blast
  obtain m' where m: "copy_arg buf sz s (of_nat (length pre)) (um u) = Some (of_nat (length (take (unat sz - 1) (pre @ str))), m')"
    "buf_has m' buf (take (unat sz - 1) (pre @ str))" "\<forall>a. (\<forall>i<k. a \<noteq> buf + of_nat i) \<longrightarrow> m' a = um u a"
    using copy_arg_result [OF assms(3,5,6) k(3,2) r sep] by blast
  show ?thesis using store_run [OF assms(1) k(1) m(3)] store_kept [OF assms(1) k(1) m(3)] m(1,2)
    by (simp add: put_string_def written_def)
qed

lemma put_number_result:
  assumes "umem_run lo u L" "sized L buf sz" "buf_has (um u) buf pre" "length pre \<le> unat sz - 1"
    and "conv a u = Inr (s, u1)" "umem_run lo u1 (L(s \<mapsto> n))" "L s = None" "kept lo L (um u) (um u1)" "cstring (um u1) s str"
    and "unat (u_break u1) \<le> unat (u_break u) + 65536" "length str + 1 \<le> n"
  shows "\<exists>u'. put_number conv buf sz a (of_nat (length pre)) u = Inr (of_nat (length (take (unat sz - 1) (pre @ str))), u') \<and>
    written lo L buf u 65536 (take (unat sz - 1) (pre @ str)) u'"
proof -
  let ?w = "take (unat sz - 1) (pre @ str)" and ?L = "L(s \<mapsto> n)"
  obtain k where k: "L buf = Some k" using assms(2) by (auto simp: sized_def)
  then have ne: "s \<noteq> buf" using assms(7) by auto
  have s0: "s \<noteq> 0" using umem_run_not_null [OF assms(6), of s n] by simp
  have sz: "sized ?L buf sz" using assms(2) ne by (simp add: sized_def)
  have rd: "readable lo (?L(buf := None)) s (length str + 1)" by (rule readable_block [where k = n]) (use ne assms(11) in simp_all)
  have pre1: "buf_has (um u1) buf pre" by (rule kept_buf [OF assms(8,2,4,3)])
  obtain u2 where p: "put_string buf sz s (of_nat (length pre)) u1 = Inr (of_nat (length ?w), u2)" "written lo ?L buf u1 0 ?w u2"
    using put_string_result [OF assms(6) sz assms(9) rd pre1 assms(4)] by blast
  have w: "umem_run lo u2 ?L" "kept lo (?L(buf := None)) (um u1) (um u2)" "buf_has (um u2) buf ?w" "unat (u_break u2) \<le> unat (u_break u1)"
    using p(2) by (simp_all add: written_def)
  have e: "?L(s := None) = L" using assms(7) by auto
  have hs: "?L s = Some n" by simp
  have f: "umem_run lo (ufree s u2) L" "kept lo L (um u2) (um (ufree s u2))" "u_break (ufree s u2) = u_break u2"
    using free_run [OF w(1) hs] unfolding e by simp_all
  have b: "buf_has (um (ufree s u2)) buf ?w" by (rule kept_buf [OF f(2) assms(2) _ w(3)]) simp
  have sub: "kept lo (L(buf := None)) x y" if "kept lo L' x y" "\<And>q j. (L(buf := None)) q = Some j \<Longrightarrow> L' q = Some j" for x y L'
    by (rule kept_sub [OF that(1)]) (use that(2) in blast)
  have "kept lo (L(buf := None)) (um u) (um (ufree s u2))"
    by (rule kept_trans [OF sub [OF assms(8)] kept_trans [OF sub [OF w(2)] sub [OF f(2)]]])
      (use assms(7) in \<open>auto split: if_splits\<close>)
  then show ?thesis using assms(5,10) s0 p(1) f b w(4) by (simp add: put_number_def written_def)
qed

definition arg_ok :: "nat \<Rightarrow> (u32 \<Rightarrow> nat option) \<Rightarrow> bytes_mem \<Rightarrow> u32 \<Rightarrow> parg \<Rightarrow> bool" where
  "arg_ok lo L m a p \<longleftrightarrow> (case p of PStr s \<Rightarrow> cstring m a s \<and> readable lo L a (length s + 1) | PInt n \<Rightarrow> a = n)"

lemma arg_ok_kept: "arg_ok lo L m a p \<Longrightarrow> kept lo L m m' \<Longrightarrow> lo < 4294967296 \<Longrightarrow> arg_ok lo L m' a p"
  using kept_cstring [of lo L m m' a] by (cases p) (auto simp: arg_ok_def)

lemma dec_string_length: "length (dec_string n) \<le> 11"
  using dec_digits_bound [of 10 "unat n"] dec_digits_bound [of 10 "unat (- n)"] unat_bound32 [of n] unat_bound32 [of "- n"]
  by (simp add: dec_string_def)

lemma small_room: "unat (u_break u) + 65536 \<le> mmap_start \<Longrightarrow> umem_room 12 u \<and> umem_room 9 u"
  by (simp add: umem_room_def)

lemma put_byte:
  assumes "umem_run lo u L" "sized L buf sz" "buf_has (um u) buf pre" "length pre < unat sz"
  shows "written lo L buf u 0 (pre @ [c]) (u\<lparr>um := (um u)(buf + of_nat (length pre) := c)\<rparr>)"
proof -
  obtain k where k: "L buf = Some k" "unat sz \<le> k" using assms(2) by (auto simp: sized_def)
  have lt: "length pre < k" using assms(4) k(2) by linarith
  let ?m = "(um u)(buf + of_nat (length pre) := c)"
  have out: "\<forall>x. (\<forall>i<k. x \<noteq> buf + of_nat i) \<longrightarrow> ?m x = um u x" using lt by auto
  show ?thesis
    using store_run [of lo u L buf k ?m, OF assms(1) k(1) out] store_kept [of lo u L buf k ?m, OF assms(1) k(1) out]
      buf_has_add [OF assms(3) lt umem_run_ranges(1) [OF assms(1) k(1)]] by (simp add: written_def)
qed

lemma put_arg_result:
  assumes "umem_run lo u L" "sized L buf sz" "buf_has (um u) buf pre" "length pre < unat sz - 1"
    and "arg_ok lo (L(buf := None)) (um u) a p" "conversion c p = Some str" "unat (u_break u) + 65536 \<le> mmap_start"
  shows "\<exists>u'. put_arg c buf sz a (of_nat (length pre)) u = Inr (of_nat (length (take (unat sz - 1) (pre @ str))), u') \<and>
    written lo L buf u 65536 (take (unat sz - 1) (pre @ str)) u'"
proof (cases p)
  case (PStr s)
  then have c: "c = 0x73" "str = s" using assms(6) by (simp_all split: if_splits)
  show ?thesis using put_string_result [OF assms(1,2) _ _ assms(3), of a s] assms(4,5) PStr c
    by (fastforce simp: put_arg_def arg_ok_def written_def)
next
  case (PInt n)
  then have a: "a = n" using assms(5) by (simp add: arg_ok_def)
  note room = small_room [OF assms(7)]
  have le: "length pre \<le> unat sz - 1" using assms(4) by simp
  consider "c = 0x64" "str = dec_string n" | "c = 0x78" "str = hex_digits (unat n)" | "c = 0x63" "str = [ucast n]"
    using assms(6) PInt by (auto split: if_splits)
  then show ?thesis
  proof cases
    case 1
    from itoa_result [OF assms(1) room [THEN conjunct1], of n] obtain s u1 where
      i: "itoa n u = Inr (s, u1)" "umem_run lo u1 (L(s \<mapsto> 12))" "L s = None" "kept lo L (um u) (um u1)" "cstring (um u1) s (dec_string n)"
      "unat (u_break u1) \<le> unat (u_break u) + 65536" by blast
    have "length (dec_string n) + 1 \<le> 12" using dec_string_length [of n] by simp
    from put_number_result [of lo u L buf sz pre itoa n s u1 12 "dec_string n", OF assms(1-3) le i this]
    show ?thesis using 1 a by (simp add: put_arg_def)
  next
    case 2
    from itoa_hex_result [OF assms(1) room [THEN conjunct2], of n] obtain s u1 where
      i: "itoa_hex n u = Inr (s, u1)" "umem_run lo u1 (L(s \<mapsto> 9))" "L s = None" "kept lo L (um u) (um u1)"
      "cstring (um u1) s (hex_digits (unat n))" "unat (u_break u1) \<le> unat (u_break u) + 65536" by blast
    have "length (hex_digits (unat n)) + 1 \<le> 9" using hex_digits_bound [of 8 "unat n"] unat_bound32 [of n] by simp
    from put_number_result [of lo u L buf sz pre itoa_hex n s u1 9 "hex_digits (unat n)", OF assms(1-3) le i this]
    show ?thesis using 2 a by (simp add: put_arg_def)
  next
    case 3
    let ?m = "(um u)(buf + of_nat (length pre) := ucast n)"
    have w: "take (unat sz - 1) (pre @ str) = pre @ [ucast n]" using assms(4) 3 by simp
    have ne: "(0x63 :: u8) \<noteq> 0x73" "(0x63 :: u8) \<noteq> 0x64" "(0x63 :: u8) \<noteq> 0x78" by simp_all
    have e: "put_arg c buf sz a (of_nat (length pre)) u = Inr (of_nat (length (pre @ [ucast n])), u\<lparr>um := ?m\<rparr>)"
      unfolding put_arg_def 3(1) a using ne by (simp only: if_False) simp
    have "written lo L buf u 65536 (pre @ [ucast n]) (u\<lparr>um := ?m\<rparr>)"
      using put_byte [OF assms(1-3), of "ucast n"] assms(4) by (simp add: written_def)
    then show ?thesis using e unfolding w by blast
  qed
qed

section \<open>The loop over the format\<close>

text \<open>What the loop finds at a position of the format: the rest of it, the arguments that are left and the buffer.\<close>

definition fmt_ready :: "nat \<Rightarrow> (u32 \<Rightarrow> nat option) \<Rightarrow> u32 \<Rightarrow> u32 \<Rightarrow> uheap \<Rightarrow> u32 \<Rightarrow> u8 list \<Rightarrow> u32 list \<Rightarrow> parg list \<Rightarrow> u8 list \<Rightarrow> bool" where
  "fmt_ready lo L buf sz u fmt fs args as pre \<longleftrightarrow> umem_run lo u L \<and> cstring (um u) fmt fs \<and>
     readable lo (L(buf := None)) fmt (length fs + 1) \<and> list_all2 (arg_ok lo (L(buf := None)) (um u)) args as \<and>
     buf_has (um u) buf pre \<and> length pre \<le> unat sz - 1"

lemma readable_suffix:
  assumes "readable lo L p (n + k)" "lo < 4294967296"
  shows "readable lo L (p + of_nat n) k"
proof -
  from assms(1) consider "unat p + (n + k) \<le> lo" | q j i where "L q = Some j" "p = q + of_nat i" "i + (n + k) \<le> j"
    by (auto simp: readable_def)
  then show ?thesis
  proof cases
    case 1
    then have "unat (p + of_nat n) = unat p + n" using assms(2) by (intro unat_add_nat) linarith
    then show ?thesis using 1 by (simp add: readable_def)
  next
    case 2
    then have "p + of_nat n = q + of_nat (i + n)" "(i + n) + k \<le> j" by simp_all
    then show ?thesis using 2(1) unfolding readable_def by blast
  qed
qed

lemma fmt_ready_next:
  assumes "fmt_ready lo L buf sz u fmt (fs1 @ fs2) args as pre" "written lo L buf u d w u1" "length w \<le> unat sz - 1"
    and "length args = length as"
  shows "fmt_ready lo L buf sz u1 (fmt + of_nat (length fs1)) fs2 (drop n args) (drop n as) w"
proof -
  have f: "umem_run lo u L" "cstring (um u) fmt (fs1 @ fs2)" "readable lo (L(buf := None)) fmt (length (fs1 @ fs2) + 1)"
    "list_all2 (arg_ok lo (L(buf := None)) (um u)) args as" using assms(1) by (simp_all add: fmt_ready_def)
  have w: "umem_run lo u1 L" "kept lo (L(buf := None)) (um u) (um u1)" "buf_has (um u1) buf w" using assms(2) by (simp_all add: written_def)
  note lo = umem_run_lo [OF f(1)]
  have "cstring (um u1) (fmt + of_nat (length fs1)) fs2" by (rule cstring_append [OF kept_cstring [OF w(2) f(3,2) lo]])
  moreover have "readable lo (L(buf := None)) (fmt + of_nat (length fs1)) (length fs2 + 1)"
    by (rule readable_suffix [OF _ lo]) (use f(3) in simp)
  moreover have "list_all2 (arg_ok lo (L(buf := None)) (um u1)) args as"
    by (rule list_all2_mono [OF f(4)]) (rule arg_ok_kept [OF _ w(2) lo])
  then have "list_all2 (arg_ok lo (L(buf := None)) (um u1)) (drop n args) (drop n as)" by (rule list_all2_dropI)
  ultimately show ?thesis using w assms(3) by (simp add: fmt_ready_def)
qed

lemma fmt_more: "length pre \<le> unat (sz :: u32) - 1 \<Longrightarrow> 0 < unat sz \<Longrightarrow> of_nat (length pre) < sz - 1 \<longleftrightarrow> length pre < unat sz - 1"
  using size_pred [of sz] pre_len [of "length pre" sz] by (simp add: word_less_nat_alt)

lemma fmt_loop_stops:
  assumes "fmt_ready lo L buf sz u fmt fs args as pre" "0 < unat sz" "fs = [] \<or> length pre = unat sz - 1"
  shows "fmt_loop buf sz fmt (of_nat (length pre)) args u = Some (Inr (of_nat (length pre), u))" "written lo L buf u d pre u"
proof -
  have "um u fmt = 0" if "fs = []" using assms(1) that by (simp add: fmt_ready_def cstring_Nil)
  then show "fmt_loop buf sz fmt (of_nat (length pre)) args u = Some (Inr (of_nat (length pre), u))"
    using assms fmt_more [of pre sz] by (subst fmt_loop.simps) (auto simp: fmt_ready_def)
  show "written lo L buf u d pre u" using assms(1) by (simp add: written_def fmt_ready_def kept_def)
qed

lemma plain_step:
  assumes "fmt_ready lo L buf sz u fmt (c # fs) args as pre" "sized L buf sz" "c \<noteq> 0x25" "length pre < unat sz - 1"
  shows "\<exists>u1. fmt_loop buf sz fmt (of_nat (length pre)) args u = fmt_loop buf sz (fmt + 1) (of_nat (length (pre @ [c]))) args u1 \<and>
    written lo L buf u 0 (pre @ [c]) u1"
proof -
  have f: "umem_run lo u L" "um u fmt = c" "c \<noteq> 0" "buf_has (um u) buf pre" "length pre \<le> unat sz - 1"
    using assms(1) by (simp_all add: fmt_ready_def cstring_Cons)
  have "of_nat (length pre) < sz - 1" using fmt_more [OF f(5)] assms(2,4) by (simp add: sized_def)
  then have "fmt_loop buf sz fmt (of_nat (length pre)) args u = fmt_loop buf sz (fmt + 1) (of_nat (length (pre @ [c]))) args
      (u\<lparr>um := (um u)(buf + of_nat (length pre) := c)\<rparr>)"
    using f(2,3) assms(3) by (subst fmt_loop.simps) (simp add: add.commute)
  moreover have "length pre < unat sz" using assms(4) by simp
  ultimately show ?thesis using put_byte [OF f(1) assms(2) f(4)] by blast
qed

lemma conversion_step:
  assumes "fmt_ready lo L buf sz u fmt (0x25 # d # fs) (a # args) (p # as) pre" "sized L buf sz" "takes_arg d" "conversion d p = Some str"
    and "length pre < unat sz - 1" "unat (u_break u) + 65536 \<le> mmap_start"
  shows "\<exists>u1. fmt_loop buf sz fmt (of_nat (length pre)) (a # args) u =
      fmt_loop buf sz (fmt + 2) (of_nat (length (take (unat sz - 1) (pre @ str)))) args u1 \<and>
    written lo L buf u 65536 (take (unat sz - 1) (pre @ str)) u1"
proof -
  have f: "umem_run lo u L" "um u fmt = 0x25" "um u (fmt + 1) = d" "buf_has (um u) buf pre" "length pre \<le> unat sz - 1"
    "arg_ok lo (L(buf := None)) (um u) a p"
    using assms(1) by (simp_all add: fmt_ready_def cstring_Cons)
  have more: "of_nat (length pre) < sz - 1" using fmt_more [OF f(5)] assms(2,5) by (simp add: sized_def)
  obtain u1 where r: "put_arg d buf sz a (of_nat (length pre)) u = Inr (of_nat (length (take (unat sz - 1) (pre @ str))), u1)"
    "written lo L buf u 65536 (take (unat sz - 1) (pre @ str)) u1"
    using put_arg_result [OF f(1) assms(2) f(4) assms(5) f(6) assms(4,6)] by blast
  have "fmt_loop buf sz fmt (of_nat (length pre)) (a # args) u =
      fmt_loop buf sz (fmt + 2) (of_nat (length (take (unat sz - 1) (pre @ str)))) args u1"
    using f(2,3) more assms(3) r(1) by (subst fmt_loop.simps) (simp add: Let_def del: length_take length_append take_append)
  then show ?thesis using r(2) by blast
qed

lemma skip_step:
  assumes "fmt_ready lo L buf sz u fmt (0x25 # d # fs) args as pre" "0 < unat sz" "\<not> takes_arg d" "length pre < unat sz - 1"
  shows "fmt_loop buf sz fmt (of_nat (length pre)) args u = fmt_loop buf sz (fmt + 2) (of_nat (length pre)) args u"
proof -
  have f: "um u fmt = 0x25" "um u (fmt + 1) = d" "length pre \<le> unat sz - 1"
    using assms(1) by (simp_all add: fmt_ready_def cstring_Cons)
  have "of_nat (length pre) < sz - 1" using fmt_more [OF f(3)] assms(2,4) by simp
  then show ?thesis using f assms(3) by (subst fmt_loop.simps) (simp add: Let_def)
qed

lemma take_again: "take n (take n xs @ ys) = take n (xs @ ys)"
  by (cases "n \<le> length xs") simp_all

lemma written_after:
  assumes "written lo L buf u d w u1" "written lo L buf u1 (65536 * n) w' u2" "d + 65536 * n \<le> 65536 * k"
  shows "written lo L buf u (65536 * k) w' u2"
  using written_then [OF assms(1,2)] assms(3) by (auto simp: written_def)

lemma fmt_loop_result:
  assumes "render fs as = Some out" "fmt_ready lo L buf sz u fmt fs args as pre" "sized L buf sz"
    and "unat (u_break u) + 65536 * length fs \<le> mmap_start"
  shows "\<exists>u'. fmt_loop buf sz fmt (of_nat (length pre)) args u = Some (Inr (of_nat (length (take (unat sz - 1) (pre @ out))), u')) \<and>
    written lo L buf u (65536 * length fs) (take (unat sz - 1) (pre @ out)) u'"
  using assms(1,2,4)
proof (induction fs as arbitrary: out u fmt args pre rule: render.induct)
  case (1 as)
  have sz: "0 < unat sz" using assms(3) by (simp add: sized_def)
  have w: "take (unat sz - 1) (pre @ out) = pre" using 1 by (simp add: fmt_ready_def)
  show ?case unfolding w using fmt_loop_stops [OF 1(2) sz] by blast
next
  case (2 c as)
  have sz: "0 < unat sz" using assms(3) by (simp add: sized_def)
  have o: "c \<noteq> 0x25" "out = [c]" using 2(1) by (simp_all split: if_splits)
  show ?case
  proof (cases "length pre < unat sz - 1")
    case False
    then have "length pre = unat sz - 1" "take (unat sz - 1) (pre @ out) = pre" using 2(2) by (simp_all add: fmt_ready_def)
    then show ?thesis using fmt_loop_stops [OF 2(2) sz] by metis
  next
    case True
    obtain u1 where s: "fmt_loop buf sz fmt (of_nat (length pre)) args u = fmt_loop buf sz (fmt + 1) (of_nat (length (pre @ [c]))) args u1"
      "written lo L buf u 0 (pre @ [c]) u1" using plain_step [OF 2(2) assms(3) o(1) True] by blast
    have l: "length args = length as" "length (pre @ [c]) \<le> unat sz - 1" using 2(2) True by (auto simp: fmt_ready_def dest: list_all2_lengthD)
    have "fmt_ready lo L buf sz u (fmt) ([c] @ []) args as pre" using 2(2) by simp
    from fmt_ready_next [OF this s(2) l(2,1), of 0] have r: "fmt_ready lo L buf sz u1 (fmt + 1) [] args as (pre @ [c])" by simp
    have w: "take (unat sz - 1) (pre @ out) = pre @ [c]" using True o(2) by simp
    show ?thesis unfolding w s(1) using fmt_loop_stops(1) [OF r sz] s(2) by (auto simp: written_def)
  qed
next
  case (3 c d fs as)
  have sz: "0 < unat sz" using assms(3) by (simp add: sized_def)
  have len: "length args = length as" using 3(5) by (auto simp: fmt_ready_def dest: list_all2_lengthD)
  show ?case
  proof (cases "length pre < unat sz - 1")
    case False
    then have "length pre = unat sz - 1" "take (unat sz - 1) (pre @ out) = pre" using 3(5) by (simp_all add: fmt_ready_def)
    then show ?thesis using fmt_loop_stops [OF 3(5) sz] by metis
  next
    case room: True
    consider (plain) "c \<noteq> 0x25" | (conv) "c = 0x25" "takes_arg d" | (other) "c = 0x25" "\<not> takes_arg d" by blast
    then show ?thesis
    proof cases
      case plain
      then obtain out' where out: "render (d # fs) as = Some out'" "out = c # out'" using 3(4) by auto
      obtain u1 where s: "fmt_loop buf sz fmt (of_nat (length pre)) args u = fmt_loop buf sz (fmt + 1) (of_nat (length (pre @ [c]))) args u1"
        "written lo L buf u 0 (pre @ [c]) u1" using plain_step [OF 3(5) assms(3) plain room] by blast
      have l: "length (pre @ [c]) \<le> unat sz - 1" using room by simp
      have "fmt_ready lo L buf sz u (fmt) ([c] @ (d # fs)) args as pre" using 3(5) by simp
      from fmt_ready_next [OF this s(2) l len, of 0] have r: "fmt_ready lo L buf sz u1 (fmt + 1) (d # fs) args as (pre @ [c])" by simp
      have b: "unat (u_break u1) + 65536 * length (d # fs) \<le> mmap_start" using 3(6) s(2) by (simp add: written_def)
      have w: "(pre @ [c]) @ out' = pre @ out" using out(2) by simp
      obtain u' where e: "fmt_loop buf sz (fmt + 1) (of_nat (length (pre @ [c]))) args u1 = Some (Inr (of_nat (length (take (unat sz - 1) (pre @ out))), u'))"
        and wr: "written lo L buf u1 (65536 * length (d # fs)) (take (unat sz - 1) (pre @ out)) u'"
        using 3(3) [OF plain out(1) r b] unfolding w by blast
      have "written lo L buf u (65536 * length (c # d # fs)) (take (unat sz - 1) (pre @ out)) u'"
        by (rule written_after [OF s(2) wr]) simp
      then show ?thesis unfolding s(1) using e by blast
    next
      case conv
      then obtain p as' str out' where out: "as = p # as'" "conversion d p = Some str" "render fs as' = Some out'" "out = str @ out'"
        using 3(4) by (auto split: list.splits bind_splits)
      then obtain a args' where args: "args = a # args'" using len by (cases args) auto
      have b0: "unat (u_break u) + 65536 \<le> mmap_start" using 3(6) by simp
      let ?w = "take (unat sz - 1) (pre @ str)"
      obtain u1 where s: "fmt_loop buf sz fmt (of_nat (length pre)) args u = fmt_loop buf sz (fmt + 2) (of_nat (length ?w)) args' u1"
        "written lo L buf u 65536 ?w u1" using conversion_step [OF 3(5) [unfolded conv(1) args out(1)] assms(3) conv(2) out(2) room b0] args by blast
      have l: "length ?w \<le> unat sz - 1" by simp
      have "fmt_ready lo L buf sz u fmt ([0x25, d] @ fs) args as pre" using 3(5) conv(1) by simp
      from fmt_ready_next [OF this s(2) l len, of 1]
      have r: "fmt_ready lo L buf sz u1 (fmt + 2) fs args' as' ?w" by (simp add: args out(1) del: take_append length_take)
      have b: "unat (u_break u1) + 65536 * length fs \<le> mmap_start" using 3(6) s(2) by (simp add: written_def)
      have w: "take (unat sz - 1) (?w @ out') = take (unat sz - 1) (pre @ out)" unfolding take_again out(4) by simp
      obtain u' where e: "fmt_loop buf sz (fmt + 2) (of_nat (length ?w)) args' u1 = Some (Inr (of_nat (length (take (unat sz - 1) (pre @ out))), u'))"
        and wr: "written lo L buf u1 (65536 * length fs) (take (unat sz - 1) (pre @ out)) u'"
        using 3(1) [OF conv out(1,2) out(3) r b] unfolding w by blast
      have "written lo L buf u (65536 * length (c # d # fs)) (take (unat sz - 1) (pre @ out)) u'"
        by (rule written_after [OF s(2) wr]) simp
      then show ?thesis unfolding s(1) using e by blast
    next
      case other
      have out: "render fs as = Some out" using 3(4) other by simp
      have s: "fmt_loop buf sz fmt (of_nat (length pre)) args u = fmt_loop buf sz (fmt + 2) (of_nat (length pre)) args u"
        by (rule skip_step [OF 3(5) [unfolded other(1)] sz other(2) room])
      have z: "written lo L buf u 0 pre u" using 3(5) by (simp add: written_def fmt_ready_def kept_def)
      have l: "length pre \<le> unat sz - 1" using room by simp
      have "fmt_ready lo L buf sz u fmt ([0x25, d] @ fs) args as pre" using 3(5) other(1) by simp
      from fmt_ready_next [OF this z l len, of 0] have r: "fmt_ready lo L buf sz u (fmt + 2) fs args as pre" by simp
      have b: "unat (u_break u) + 65536 * length fs \<le> mmap_start" using 3(6) by simp
      obtain u' where e: "fmt_loop buf sz (fmt + 2) (of_nat (length pre)) args u = Some (Inr (of_nat (length (take (unat sz - 1) (pre @ out))), u'))"
        and wr: "written lo L buf u (65536 * length fs) (take (unat sz - 1) (pre @ out)) u'"
        using 3(2) [OF other out r b] by blast
      have "written lo L buf u (65536 * length (c # d # fs)) (take (unat sz - 1) (pre @ out)) u'"
        by (rule written_after [OF z wr]) simp
      then show ?thesis unfolding s using e by blast
    qed
  qed
qed

section \<open>vsnprintf and printf\<close>

lemma vsnprintf_result:
  assumes "render fs as = Some out" "umem_run lo u L" "sized L buf sz" "cstring (um u) fmt fs"
    and "readable lo (L(buf := None)) fmt (length fs + 1)" "list_all2 (arg_ok lo (L(buf := None)) (um u)) args as"
    and "unat (u_break u) + 65536 * length fs \<le> mmap_start"
  shows "\<exists>u'. vsnprintf buf sz fmt args u = Inr (of_nat (length (take (unat sz - 1) out)), u') \<and>
    written lo L buf u (65536 * length fs) (take (unat sz - 1) out @ [0]) u'"
proof -
  let ?w = "take (unat sz - 1) out"
  have rdy: "fmt_ready lo L buf sz u fmt fs args as []" using assms(2,4-6) by (simp add: fmt_ready_def buf_has_def)
  obtain u1 where f: "fmt_loop buf sz fmt 0 args u = Some (Inr (of_nat (length ?w), u1))" "written lo L buf u (65536 * length fs) ?w u1"
    using fmt_loop_result [OF assms(1) rdy assms(3,7)] by auto
  have "umem_run lo u1 L" "buf_has (um u1) buf ?w" "length ?w < unat sz" using f(2) assms(3) by (auto simp: written_def sized_def)
  then have "written lo L buf u1 (65536 * 0) (?w @ [0]) (u1\<lparr>um := (um u1)(buf + of_nat (length ?w) := 0)\<rparr>)"
    using put_byte [OF _ assms(3), of lo u1 ?w 0] by simp
  from written_after [OF f(2) this, of "length fs"] show ?thesis using f(1) by (simp add: vsnprintf_def)
qed

lemma printed_string:
  assumes "buf_has m buf (out @ [0])" "0 \<notin> set out" "length out < 4294967296"
  shows "string_at m buf = Inr out"
proof -
  have "m (buf + of_nat j) = (out @ [0]) ! j" if "j \<le> length out" for j using assms(1) that by (simp add: buf_has_def)
  then have c: "cstring m buf out" using assms(2,3) by (auto simp: cstring_def nth_append)
  show ?thesis using kstrlen_cstring [OF c] cstring_bytes [OF c] assms(3) by (simp add: string_at_def unat_of_nat_small)
qed

lemma printf_attempts_result:
  assumes "render fs as = Some out" "0 \<notin> set out" "umem_run lo u L" "cstring (um u) fmt fs" "readable lo L fmt (length fs + 1)"
    and "list_all2 (arg_ok lo L (um u)) args as" "0 < unat sz" "unat sz * 4 ^ k \<le> 65536"
    and "unat (u_break u) + 65536 * (k * (length fs + 1)) \<le> mmap_start"
  shows "\<exists>u'. printf_attempts k sz fmt args u = Inr (if \<exists>j<k. length out < unat sz * 4 ^ j - 1 then out else [], u') \<and>
    umem_run lo u' L \<and> kept lo L (um u) (um u')"
  using assms(3-9)
proof (induction k arbitrary: sz u)
  case 0
  then show ?case by (simp add: kept_def)
next
  case (Suc k)
  have s4: "unat sz * 4 \<le> unat sz * 4 ^ Suc k" by simp
  then have s: "unat sz \<le> 16384" using Suc.prems(6) by linarith
  have b: "unat (u_break u) + (65536 + 65536 * length fs + 65536 * (k * (length fs + 1))) \<le> mmap_start"
    using Suc.prems(7) by (simp add: algebra_simps)
  then have room: "umem_room sz u" using s by (simp add: umem_room_def)
  obtain buf u1 where m: "malloc sz u = Inr (buf, u1)" "buf \<noteq> 0" "L buf = None" "umem_run lo u1 (L(buf \<mapsto> unat sz))"
    "kept lo L (um u) (um u1)" "unat (u_break u1) \<le> unat (u_break u) + 65536"
    using malloc_run [OF Suc.prems(1) room] by blast
  let ?L = "L(buf \<mapsto> unat sz)"
  note lo = umem_run_lo [OF Suc.prems(1)]
  have e: "?L(buf := None) = L" using m(3) by auto
  have szd: "sized ?L buf sz" using Suc.prems(5) by (simp add: sized_def)
  have args1: "list_all2 (arg_ok lo L (um u1)) args as"
    by (rule list_all2_mono [OF Suc.prems(4)]) (rule arg_ok_kept [OF _ m(5) lo])
  have fmt1: "cstring (um u1) fmt fs" by (rule kept_cstring [OF m(5) Suc.prems(3,2) lo])
  have b1: "unat (u_break u1) + 65536 * length fs \<le> mmap_start" using b m(6) by linarith
  let ?w = "take (unat sz - 1) out"
  obtain u2 where v: "vsnprintf buf sz fmt args u1 = Inr (of_nat (length ?w), u2)"
    "written lo ?L buf u1 (65536 * length fs) (?w @ [0]) u2"
    using vsnprintf_result [OF assms(1) m(4) szd fmt1 _ _ b1, unfolded e, OF Suc.prems(3) args1] by blast
  have w: "umem_run lo u2 ?L" "kept lo L (um u1) (um u2)" "buf_has (um u2) buf (?w @ [0])"
    "unat (u_break u2) \<le> unat (u_break u1) + 65536 * length fs" using v(2) unfolding written_def e by simp_all
  have hb: "?L buf = Some (unat sz)" by simp
  have f: "umem_run lo (ufree buf u2) L" "kept lo L (um u2) (um (ufree buf u2))" "u_break (ufree buf u2) = u_break u2"
    using free_run [OF w(1) hb] unfolding e by simp_all
  have kk: "kept lo L (um u) (um (ufree buf u2))" by (rule kept_trans [OF kept_trans [OF m(5) w(2)] f(2)])
  have fits: "of_nat (length ?w) < sz - 1 \<longleftrightarrow> length out < unat sz - 1"
    using fmt_more [of ?w sz] Suc.prems(5) by (auto simp: min_def)
  show ?case
  proof (cases "length out < unat sz - 1")
    case True
    have l: "length out < 4294967296" using True unat_bound32 [of sz] by linarith
    have "buf_has (um u2) buf (out @ [0])" using w(3) True by simp
    from printed_string [OF this assms(2) l]
    have "printf_attempts (Suc k) sz fmt args u = Inr (out, ufree buf u2)" using m(1,2) v(1) fits True by simp
    moreover have "\<exists>j<Suc k. length out < unat sz * 4 ^ j - 1" using True by (intro exI [of _ 0]) simp
    ultimately show ?thesis using f(1) kk by simp
  next
    case False
    have u4: "unat (sz * 4) = unat sz * 4" using s unat_mul_small [of sz 4] by simp
    have p: "cstring (um (ufree buf u2)) fmt fs" "list_all2 (arg_ok lo L (um (ufree buf u2))) args as"
      using kept_cstring [OF kk Suc.prems(3,2) lo] list_all2_mono [OF Suc.prems(4)] arg_ok_kept [OF _ kk lo] by blast+
    have q: "0 < unat (sz * 4)" "unat (sz * 4) * 4 ^ k \<le> 65536" unfolding u4 using Suc.prems(5,6) by simp_all
    have bb: "unat (u_break (ufree buf u2)) + 65536 * (k * (length fs + 1)) \<le> mmap_start"
      unfolding f(3) using b m(6) w(4) by linarith
    obtain u' where r: "printf_attempts k (sz * 4) fmt args (ufree buf u2) =
        Inr (if \<exists>j<k. length out < unat (sz * 4) * 4 ^ j - 1 then out else [], u')"
      "umem_run lo u' L" "kept lo L (um (ufree buf u2)) (um u')"
      using Suc.IH [OF f(1) p(1) Suc.prems(3) p(2) q bb] by blast
    have "(\<exists>j<Suc k. length out < unat sz * 4 ^ j - 1) \<longleftrightarrow> (\<exists>j<k. length out < unat (sz * 4) * 4 ^ j - 1)"
    proof -
      have "unat (sz * 4) * 4 ^ j = unat sz * 4 ^ Suc j" for j unfolding u4 by simp
      then show ?thesis using False by (simp add: Ex_less_Suc2 del: power_Suc)
    qed
    then show ?thesis using m(1,2) v(1) fits False r kept_trans [OF kk r(3)] by simp
  qed
qed

text \<open>
  C36. \<open>printf\<close> writes the rendering of its format and arguments when that has at most 16382 characters and nothing at
  all otherwise, whatever the sizes of the numbers and strings in it; every buffer it took is freed again and what the
  program holds is untouched.
\<close>

theorem printf_writes:
  assumes "render fs as = Some out" "0 \<notin> set out" "umem_run lo u L" "cstring (um u) fmt fs" "readable lo L fmt (length fs + 1)"
    and "list_all2 (arg_ok lo L (um u)) args as" "unat (u_break u) + 65536 * (4 * (length fs + 1)) \<le> mmap_start"
  shows "\<exists>u'. printf fmt args u = Inr (if length out < 16383 then out else [], u') \<and> umem_run lo u' L \<and> kept lo L (um u) (um u')"
proof -
  have "(\<exists>j<4. length out < unat (256 :: u32) * 4 ^ j - 1) \<longleftrightarrow> length out < 16383"
  proof
    assume "\<exists>j<4. length out < unat (256 :: u32) * 4 ^ j - 1"
    then obtain j where j: "j < (4 :: nat)" "length out < 256 * 4 ^ j - 1" by auto
    have "(4 :: nat) ^ j \<le> 4 ^ 3" using j(1) by (intro power_increasing) simp_all
    then show "length out < 16383" using j(2) by simp
  qed (auto intro: exI [of _ 3])
  then show ?thesis using printf_attempts_result [OF assms(1-6), of 256 4] assms(7) by (simp add: printf_def)
qed

text \<open>A program that prints with the format \<open>\%s=\%d\<close>.\<close>

definition udemo_fmt :: uheap where
  "udemo_fmt = udemo_heap\<lparr>um := patch (patch (\<lambda>_. 0) 0x1000 [0x25, 0x73, 0x3D, 0x25, 0x64, 0]) 0x1100 [0x6E, 0]\<rparr>"

theorem printf_writes_witness: "\<exists>u'. printf 0x1000 [0x1100, 42] udemo_fmt = Inr ([0x6E, 0x3D, 0x34, 0x32], u')"
proof -
  let ?f = "[0x25, 0x73, 0x3D, 0x25, 0x64] :: u8 list"
  have run: "umem_run 0x8000 udemo_fmt Map.empty"
    by (rule umem_run.start) (simp_all add: udemo_fmt_def udemo_heap_def mmap_start_def)
  have "dec_string 42 = [0x34, 0x32]" by (simp add: dec_string_def dec_digits.simps)
  then have r: "render ?f [PStr [0x6E], PInt 42] = Some [0x6E, 0x3D, 0x34, 0x32]" by (simp add: takes_arg_def)
  have c: "cstring (um udemo_fmt) 0x1000 ?f" "cstring (um udemo_fmt) 0x1100 [0x6E]"
    by (simp_all add: cstring_Cons cstring_Nil udemo_fmt_def patch_def)
  have a: "list_all2 (arg_ok 0x8000 Map.empty (um udemo_fmt)) [0x1100, 42] [PStr [0x6E], PInt 42]"
    using c(2) by (simp add: arg_ok_def readable_def)
  have rd: "readable 0x8000 Map.empty 0x1000 (length ?f + 1)" by (simp add: readable_def)
  have b: "unat (u_break udemo_fmt) + 65536 * (4 * (length ?f + 1)) \<le> mmap_start" by (simp add: udemo_fmt_def udemo_heap_def mmap_start_def)
  from printf_writes [OF r _ run c(1) rd a b] show ?thesis by auto
qed

end
