(* ===== verification/Usyscall.thy ===== *)
theory Usyscall
  imports UserProcess
begin

text \<open>
  The user side of the system calls, \<open>user_fs/sys/syscalls.h\<close>, and the wrappers of \<open>user_fs/lib/stdio.h\<close> and
  \<open>user_fs/lib/stdlib.h\<close>: which registers they load before \<open>int $0x80\<close> and where they find the result. They are checked
  against the dispatcher of the kernel.
\<close>

section \<open>Calls\<close>

text \<open>The registers at the interrupt; what an asm statement does not set is what it was.\<close>

record int80 =
  i_eax :: u32
  i_ebx :: u32
  i_ecx :: u32
  i_edx :: u32

definition sys_nums :: "(string \<times> u32) list" where
  "sys_nums = [(''WRITE'', 1), (''READ'', 2), (''OPEN'', 3), (''CLOSE'', 4), (''READFILE'', 5), (''WRITEFILE'', 6), (''EXIT'', 7),
     (''EXEC'', 8), (''KILL'', 9), (''WAITPID'', 10), (''READDIR'', 11), (''SBRK'', 12), (''MMAP'', 13), (''MUNMAP'', 14), (''GETPID'', 15)]"

definition num :: "string \<Rightarrow> u32" where "num n = the (map_of sys_nums n)"

definition SYS_WRITE :: "u32 \<Rightarrow> int80 \<Rightarrow> int80" where "SYS_WRITE str r = r\<lparr>i_eax := num ''WRITE'', i_ebx := str\<rparr>"

definition SYS_READ :: "u32 \<Rightarrow> u32 \<Rightarrow> int80 \<Rightarrow> int80" where
  "SYS_READ buf_addr buf_size r = r\<lparr>i_eax := num ''READ'', i_ebx := buf_addr, i_ecx := buf_size\<rparr>"

definition SYS_OPEN :: "u32 \<Rightarrow> u32 \<Rightarrow> int80 \<Rightarrow> int80" where
  "SYS_OPEN file_path flags r = r\<lparr>i_eax := num ''OPEN'', i_ebx := file_path, i_ecx := flags\<rparr>"

definition SYS_CLOSE :: "u32 \<Rightarrow> int80 \<Rightarrow> int80" where "SYS_CLOSE fd r = r\<lparr>i_eax := num ''CLOSE'', i_ebx := fd\<rparr>"

definition SYS_READ_FILE :: "u32 \<Rightarrow> u32 \<Rightarrow> u32 \<Rightarrow> int80 \<Rightarrow> int80" where
  "SYS_READ_FILE fd buf buf_len r = r\<lparr>i_eax := num ''READFILE'', i_ebx := fd, i_ecx := buf, i_edx := buf_len\<rparr>"

definition SYS_WRITE_FILE :: "u32 \<Rightarrow> u32 \<Rightarrow> u32 \<Rightarrow> int80 \<Rightarrow> int80" where
  "SYS_WRITE_FILE fd buf buf_len r = r\<lparr>i_eax := num ''WRITEFILE'', i_ebx := fd, i_ecx := buf, i_edx := buf_len\<rparr>"

definition SYS_EXIT :: "u32 \<Rightarrow> int80 \<Rightarrow> int80" where "SYS_EXIT excode r = r\<lparr>i_eax := num ''EXIT'', i_ebx := excode\<rparr>"

definition SYS_EXEC :: "u32 \<Rightarrow> u32 \<Rightarrow> u32 \<Rightarrow> int80 \<Rightarrow> int80" where
  "SYS_EXEC path args envp r = r\<lparr>i_eax := num ''EXEC'', i_ebx := path, i_ecx := args, i_edx := envp\<rparr>"

definition SYS_KILL :: "u32 \<Rightarrow> int80 \<Rightarrow> int80" where "SYS_KILL pid r = r\<lparr>i_eax := num ''KILL'', i_ebx := pid\<rparr>"

definition SYS_WAITPID :: "u32 \<Rightarrow> int80 \<Rightarrow> int80" where "SYS_WAITPID pid r = r\<lparr>i_eax := num ''WAITPID'', i_ebx := pid\<rparr>"

definition SYS_READDIR :: "u32 \<Rightarrow> u32 \<Rightarrow> u32 \<Rightarrow> int80 \<Rightarrow> int80" where
  "SYS_READDIR path buf buf_len r = r\<lparr>i_eax := num ''READDIR'', i_ebx := path, i_ecx := buf, i_edx := buf_len\<rparr>"

definition SYS_SBRK :: "u32 \<Rightarrow> int80 \<Rightarrow> int80" where "SYS_SBRK increment r = r\<lparr>i_eax := num ''SBRK'', i_ebx := increment\<rparr>"

definition SYS_MMAP :: "u32 \<Rightarrow> int80 \<Rightarrow> int80" where "SYS_MMAP sz r = r\<lparr>i_eax := num ''MMAP'', i_ebx := sz\<rparr>"

definition SYS_MUNMAP :: "u32 \<Rightarrow> u32 \<Rightarrow> int80 \<Rightarrow> int80" where
  "SYS_MUNMAP addr sz r = r\<lparr>i_eax := num ''MUNMAP'', i_ebx := addr, i_ecx := sz\<rparr>"

definition SYS_GETPID :: "int80 \<Rightarrow> int80" where "SYS_GETPID r = r\<lparr>i_eax := num ''GETPID''\<rparr>"

section \<open>The kernel's view\<close>

text \<open>The stub of the interrupt saves the registers where the handlers read them.\<close>

definition saved :: "sys \<Rightarrow> u32 \<Rightarrow> int80 \<Rightarrow> bool" where
  "saved s regs r \<longleftrightarrow> EAX s regs = i_eax r \<and> EBX s regs = i_ebx r \<and> ECX s regs = i_ecx r \<and> EDX s regs = i_edx r"

text \<open>The system call a program makes: the handler runs on the saved registers, with the number from \<open>EAX\<close>.\<close>

definition int80_call :: "u32 \<Rightarrow> (nat \<Rightarrow> u8) \<Rightarrow> u32 \<Rightarrow> u32 \<Rightarrow> sys \<Rightarrow> (u32 \<times> sys) res" where
  "int80_call newp fresh p regs s = run_syscall newp fresh (EAX s regs) p regs s"

text \<open>
  User space and the kernel agree on the system calls: each macro reaches the handler of its name, with the
  arguments in the registers from which that handler takes them.
\<close>

theorem syscalls_agree:
  "(saved s regs (SYS_WRITE a r) \<longrightarrow> int80_call newp fresh p regs s = syscall_write p regs s \<and> EBX s regs = a) \<and>
   (saved s regs (SYS_READ a b r) \<longrightarrow> int80_call newp fresh p regs s = syscall_read p regs s \<and> EBX s regs = a \<and> ECX s regs = b) \<and>
   (saved s regs (SYS_OPEN a b r) \<longrightarrow> int80_call newp fresh p regs s = syscall_open p regs s \<and> EBX s regs = a \<and> ECX s regs = b) \<and>
   (saved s regs (SYS_CLOSE a r) \<longrightarrow> int80_call newp fresh p regs s = syscall_close p regs s \<and> EBX s regs = a) \<and>
   (saved s regs (SYS_READ_FILE a b c r) \<longrightarrow> int80_call newp fresh p regs s = syscall_read_file p regs s \<and>
      EBX s regs = a \<and> ECX s regs = b \<and> EDX s regs = c) \<and>
   (saved s regs (SYS_WRITE_FILE a b c r) \<longrightarrow> int80_call newp fresh p regs s = syscall_write_file p regs s \<and>
      EBX s regs = a \<and> ECX s regs = b \<and> EDX s regs = c) \<and>
   (saved s regs (SYS_EXIT a r) \<longrightarrow> int80_call newp fresh p regs s = syscall_exit p regs s \<and> EBX s regs = a) \<and>
   (saved s regs (SYS_EXEC a b c r) \<longrightarrow> int80_call newp fresh p regs s = syscall_exec newp fresh p regs s \<and>
      EBX s regs = a \<and> ECX s regs = b \<and> EDX s regs = c) \<and>
   (saved s regs (SYS_KILL a r) \<longrightarrow> int80_call newp fresh p regs s = syscall_kill p regs s \<and> EBX s regs = a) \<and>
   (saved s regs (SYS_WAITPID a r) \<longrightarrow> int80_call newp fresh p regs s = syscall_waitpid p regs s \<and> EBX s regs = a) \<and>
   (saved s regs (SYS_READDIR a b c r) \<longrightarrow> int80_call newp fresh p regs s = syscall_readdir p regs s \<and>
      EBX s regs = a \<and> ECX s regs = b \<and> EDX s regs = c) \<and>
   (saved s regs (SYS_SBRK a r) \<longrightarrow> int80_call newp fresh p regs s = syscall_sbrk p regs s \<and> EBX s regs = a) \<and>
   (saved s regs (SYS_MMAP a r) \<longrightarrow> int80_call newp fresh p regs s = syscall_mmap p regs s \<and> EBX s regs = a) \<and>
   (saved s regs (SYS_MUNMAP a b r) \<longrightarrow> int80_call newp fresh p regs s = syscall_munmap p regs s \<and> EBX s regs = a \<and> ECX s regs = b) \<and>
   (saved s regs (SYS_GETPID r) \<longrightarrow> int80_call newp fresh p regs s = syscall_getpid p regs s)"
proof -
  note d = saved_def int80_call_def run_syscall_def num_def sys_nums_def
  show ?thesis
    unfolding SYS_WRITE_def SYS_READ_def SYS_OPEN_def SYS_CLOSE_def SYS_READ_FILE_def SYS_WRITE_FILE_def SYS_EXIT_def SYS_EXEC_def
      SYS_KILL_def SYS_WAITPID_def SYS_READDIR_def SYS_SBRK_def SYS_MMAP_def SYS_MUNMAP_def SYS_GETPID_def
    by (intro conjI) (simp_all add: d)
qed

text \<open>A program that asks for its process number.\<close>

definition demo_pid :: sys where
  "demo_pid = (demo_sys 0)\<lparr>sy_k := (sy_k (demo_sys 0))\<lparr>kbytes := st32 (kbytes (sy_k (demo_sys 0))) (demo_regs + 28) 15\<rparr>\<rparr>"

theorem syscalls_agree_witness: "int80_call newp fresh 0x100 demo_regs demo_pid = Inr (0, set_EAX demo_regs 1 demo_pid)"
proof -
  let ?r = "\<lparr>i_eax = 15, i_ebx = EBX demo_pid demo_regs, i_ecx = ECX demo_pid demo_regs, i_edx = EDX demo_pid demo_regs\<rparr>"
  have "EAX demo_pid demo_regs = 15" by (simp add: EAX_def reg_def demo_pid_def)
  then have "saved demo_pid demo_regs (SYS_GETPID ?r)" by (simp add: saved_def SYS_GETPID_def num_def sys_nums_def)
  then have "int80_call newp fresh 0x100 demo_regs demo_pid = syscall_getpid 0x100 demo_regs demo_pid"
    using syscalls_agree [of demo_pid demo_regs _ ?r newp fresh "0x100"] by blast
  moreover have "lookup (sy_k demo_pid) 0x100 = Inr demo_user" by (simp add: demo_pid_def demo_sys_def lookup_def)
  ultimately show ?thesis by (simp add: syscall_getpid_def demo_user_def)
qed

end
