(* ===== verification/Udir.thy ===== *)
theory Udir
  imports Ustdio Usyscall
begin

text \<open>
  \<open>readdir\<close> of \<open>user_fs/lib/stdio.h\<close>: the array that is doubled until the directory fits. The system call is the argument
  \<open>raw\<close>: what it answers and leaves in memory. That it fills the buffer with as many entries as fit is what the loop
  relies on; the loop is then shown to end with all of them, however many there are, while there is memory.
\<close>

section \<open>Operations\<close>

type_synonym raw_readdir = "u32 \<Rightarrow> u32 \<Rightarrow> u32 \<Rightarrow> uheap \<Rightarrow> u32 \<times> uheap"

text \<open>The result is the array and the number that \<open>count_out\<close> gets, which all callers pass.\<close>

partial_function (option) readdir_grow :: "raw_readdir \<Rightarrow> u32 \<Rightarrow> u32 \<Rightarrow> u32 \<Rightarrow> uheap \<Rightarrow> (u32 \<times> u32 \<times> uheap) res option" where
  "readdir_grow raw path entries cap u =
     (let (n, u1) = raw path entries (cap * DIR_ENTRY_SIZE) u
      in if sint n < 0 then Some (Inr (0, 0, ufree entries u1))
         else if n < cap then Some (Inr (entries, n, u1))
         else case urealloc entries (cap * 2 * DIR_ENTRY_SIZE) u1 of
                Inl e \<Rightarrow> Some (Inl e)
              | Inr (ne, u2) \<Rightarrow>
                  if ne = 0 then Some (Inr (0, 0, ufree entries u2)) else readdir_grow raw path ne (cap * 2) u2)"

definition readdir :: "raw_readdir \<Rightarrow> u32 \<Rightarrow> uheap \<Rightarrow> (u32 \<times> u32 \<times> uheap) res" where
  "readdir raw path u =
     and_then (malloc (16 * DIR_ENTRY_SIZE) u) (\<lambda>(entries, u1).
       if entries = 0 then Inr (0, 0, u1) else and_then (ran (readdir_grow raw path entries 16 u1)) id)"

declare readdir_grow.simps [code]

section \<open>What the kernel answers\<close>

text \<open>The bytes of a \<open>dir_entry\<close> before the rest of its name field: number, size, kind, name and its NUL.\<close>

definition dirent_bytes :: "dir_ent \<Rightarrow> u32 \<Rightarrow> u8 list" where
  "dirent_bytes e sz = put32 (entry_inode e) @ put32 sz @ [if entry_type e = 2 then 1 else 0] @
     take (unat (entry_name_len e)) (entry_name e) @ [0]"

lemma dirent_length: "length (dirent_bytes e sz) \<le> 265"
proof -
  have "unat (entry_name_len e) \<le> 255" using unat_bound8 [of "entry_name_len e"] by linarith
  then show ?thesis by (auto simp: dirent_bytes_def min_def)
qed

lemma store_user_half:
  "unat a + length bs \<le> 0xC0000000 \<Longrightarrow> store_user k pd a bs = k\<lparr>ubytes := (ubytes k)(pd := patch (ubytes k pd) a bs)\<rparr>"
proof (induction bs arbitrary: k a)
  case Nil
  have "patch (ubytes k pd) a [] = ubytes k pd" by (auto simp: patch_def fun_eq_iff)
  then show ?case by simp
next
  case (Cons b bs)
  have a: "\<not> a \<ge> KERNEL_VIRT_BASE" using Cons.prems by (simp add: word_le_nat_alt KERNEL_VIRT_BASE_def)
  have a1: "unat (a + 1) = unat a + 1" using Cons.prems unat_add_small [of a 1] by simp
  have "patch (m(a := b)) (a + 1) bs = patch m a (b # bs)" for m :: bytes_mem
  proof
    fix x
    consider "unat x < unat a" | "x = a" | "unat a < unat x" by (metis linorder_neqE_nat word_unat_eq_iff)
    then show "patch (m(a := b)) (a + 1) bs x = patch m a (b # bs) x"
    proof cases
      case 1
      then have "x \<noteq> a" by auto
      then show ?thesis using 1 by (simp add: patch_def a1)
    next
      case 2
      then show ?thesis by (simp add: patch_def a1)
    next
      case 3
      then obtain d where d: "unat x = Suc (unat a + d)" using less_imp_Suc_add by blast
      have "x \<noteq> a" using 3 by auto
      then show ?thesis using d by (simp add: patch_def a1)
    qed
  qed
  note one = this
  let ?k = "k\<lparr>ubytes := (ubytes k)(pd := (ubytes k pd)(a := b))\<rparr>"
  have "store_user ?k pd (a + 1) bs = ?k\<lparr>ubytes := (ubytes ?k)(pd := patch (ubytes ?k pd) (a + 1) bs)\<rparr>"
    by (rule Cons.IH) (use Cons.prems a1 in simp)
  moreover have "store_user k pd a (b # bs) = store_user ?k pd (a + 1) bs" using a by (simp add: vwrite_def)
  moreover have "patch (ubytes ?k pd) (a + 1) bs = patch (ubytes k pd) a (b # bs)" using one by simp
  moreover have "?k\<lparr>ubytes := (ubytes ?k)(pd := m)\<rparr> = k\<lparr>ubytes := (ubytes k)(pd := m)\<rparr>" for m by simp
  ultimately show ?case by (simp only:)
qed

text \<open>Storing in the user half changes what the program sees there and nothing else.\<close>

definition wrote :: "u32 \<Rightarrow> nat \<Rightarrow> sys \<Rightarrow> sys \<Rightarrow> bool" where
  "wrote a n s s' \<longleftrightarrow> (\<forall>x<KERNEL_VIRT_BASE. unat x < unat a \<or> unat a + n \<le> unat x \<longrightarrow> user_mem s' x = user_mem s x) \<and>
     active_pd (sy_k s') = active_pd (sy_k s) \<and> sy_fs s' = sy_fs s \<and> sy_drv s' = sy_drv s \<and> kbytes (sy_k s') = kbytes (sy_k s)"

lemma put_user_wrote:
  assumes "unat a + length bs \<le> 0xC0000000"
  shows "wrote a (length bs) s (put_user a bs s)" "buf_has (user_mem (put_user a bs s)) a bs"
proof -
  let ?pd = "active_pd (sy_k s)"
  have e: "user_mem (put_user a bs s) x = patch (ubytes (sy_k s) ?pd) a bs x" if "x < KERNEL_VIRT_BASE" for x
    using that [folded not_le] store_user_half [OF assms] by (simp add: user_mem_def put_user_def vread_def active_pd_def)
  then show "wrote a (length bs) s (put_user a bs s)"
    using store_user_half [OF assms, of "sy_k s" ?pd]
    by (auto simp: wrote_def put_user_def active_pd_def user_mem_def vread_def patch_def linorder_not_le)
  have "a + of_nat j < KERNEL_VIRT_BASE" if "j < length bs" for j
  proof -
    have "unat (a + of_nat j) = unat a + j" using assms that by (intro unat_add_nat) linarith
    then show ?thesis using assms that by (simp add: word_less_nat_alt KERNEL_VIRT_BASE_def)
  qed
  then show "buf_has (user_mem (put_user a bs s)) a bs" using e patch_at [of a bs] assms by (simp add: buf_has_def)
qed

lemma wrote_kept:
  assumes "wrote a n s s'" "buf_has (user_mem s) p bs" "unat p + length bs \<le> 0xC0000000"
    and "unat p + length bs \<le> unat a \<or> unat a + n \<le> unat p"
  shows "buf_has (user_mem s') p bs"
  unfolding buf_has_def
proof (intro allI impI)
  fix j assume j: "j < length bs"
  have "unat (p + of_nat j) = unat p + j" using assms(3) j by (intro unat_add_nat) linarith
  then have "p + of_nat j < KERNEL_VIRT_BASE" "unat (p + of_nat j) < unat a \<or> unat a + n \<le> unat (p + of_nat j)"
    using assms(3,4) j by (auto simp: word_less_nat_alt KERNEL_VIRT_BASE_def)
  then have "user_mem s' (p + of_nat j) = user_mem s (p + of_nat j)" using assms(1) unfolding wrote_def by blast
  then show "user_mem s' (p + of_nat j) = bs ! j" using assms(2) j unfolding buf_has_def by simp
qed

lemma wrote_trans: "wrote a n s s1 \<Longrightarrow> wrote b m s1 s2 \<Longrightarrow> unat c \<le> unat a \<Longrightarrow> unat c \<le> unat b \<Longrightarrow> unat a + n \<le> unat c + k \<Longrightarrow>
    unat b + m \<le> unat c + k \<Longrightarrow> wrote c k s s2"
  by (auto simp: wrote_def)

lemma buf_has_join: "buf_has m a xs \<Longrightarrow> buf_has m (a + of_nat (length xs)) ys \<Longrightarrow> buf_has m a (xs @ ys)"
  unfolding buf_has_def
proof (intro allI impI)
  fix j assume h: "\<forall>j<length xs. m (a + of_nat j) = xs ! j" "\<forall>j<length ys. m (a + of_nat (length xs) + of_nat j) = ys ! j" "j < length (xs @ ys)"
  show "m (a + of_nat j) = (xs @ ys) ! j"
  proof (cases "j < length xs")
    case False
    then have "a + of_nat j = a + of_nat (length xs) + of_nat (j - length xs)" by (simp add: of_nat_diff)
    then show ?thesis using h(2) [rule_format, of "j - length xs"] h(3) False by (simp add: nth_append)
  qed (use h(1) in \<open>simp add: nth_append\<close>)
qed

lemma put_dir_entry_wrote:
  assumes "unat out + 268 \<le> 0xC0000000"
  shows "wrote out 268 s (put_dir_entry out e sz s)" "buf_has (user_mem (put_dir_entry out e sz s)) out (dirent_bytes e sz)"
proof -
  define name where "name = take (unat (entry_name_len e)) (entry_name e) @ [0]"
  define kind :: "u8 list" where "kind = [if entry_type e = 2 then 1 else 0]"
  have n: "length name \<le> 256" using dirent_length [of e sz] by (simp add: dirent_bytes_def name_def)
  have u: "unat (out + 4) = unat out + 4" "unat (out + 8) = unat out + 8" "unat (out + 9) = unat out + 9"
    using assms by (simp_all add: unat_add_small)
  define s1 where "s1 = put_user (out + 9) name s"
  define s2 where "s2 = put_user out (put32 (entry_inode e)) s1"
  define s3 where "s3 = put_user (out + 8) kind s2"
  define s4 where "s4 = put_user (out + 4) (put32 sz) s3"
  have s4: "put_dir_entry out e sz s = s4" by (simp add: put_dir_entry_def s1_def s2_def s3_def s4_def name_def kind_def)
  have k: "length kind = 1" by (simp add: kind_def)
  note w1 = put_user_wrote [of "out + 9" name s, folded s1_def] and w2 = put_user_wrote [of out "put32 (entry_inode e)" s1, folded s2_def]
  note w3 = put_user_wrote [of "out + 8" kind s2, folded s3_def] and w4 = put_user_wrote [of "out + 4" "put32 sz" s3, folded s4_def]
  have v1: "wrote (out + 9) (length name) s s1" "buf_has (user_mem s1) (out + 9) name" using w1 u n assms by simp_all
  have v2: "wrote out 4 s1 s2" "buf_has (user_mem s2) out (put32 (entry_inode e))" using w2 assms by simp_all
  have v3: "wrote (out + 8) 1 s2 s3" "buf_has (user_mem s3) (out + 8) kind" using w3 u k assms by simp_all
  have v4: "wrote (out + 4) 4 s3 s4" "buf_has (user_mem s4) (out + 4) (put32 sz)" using w4 u assms by simp_all
  have "wrote out 268 s s2" by (rule wrote_trans [OF v1(1) v2(1)]) (use u n in simp_all)
  then have "wrote out 268 s s3" by (rule wrote_trans [OF _ v3(1)]) (use u in simp_all)
  then show "wrote out 268 s (put_dir_entry out e sz s)" unfolding s4 by (rule wrote_trans [OF _ v4(1)]) (use u in simp_all)
  have nm: "buf_has (user_mem s4) (out + 9) name"
    by (rule wrote_kept [OF v4(1) wrote_kept [OF v3(1) wrote_kept [OF v2(1) v1(2)]]]) (use u n assms in simp_all)
  have ino: "buf_has (user_mem s4) out (put32 (entry_inode e))"
    by (rule wrote_kept [OF v4(1) wrote_kept [OF v3(1) v2(2)]]) (use u assms in simp_all)
  have kd: "buf_has (user_mem s4) (out + 8) kind" by (rule wrote_kept [OF v4(1) v3(2)]) (use u k assms in simp_all)
  have a: "out + 4 + of_nat (length (put32 sz)) = out + 8" "out + 8 + of_nat (length kind) = out + 9"
    "out + of_nat (length (put32 (entry_inode e))) = out + 4" by (simp_all add: k)
  have "buf_has (user_mem s4) (out + 8) (kind @ name)" by (rule buf_has_join [OF kd]) (simp only: a nm)
  then have "buf_has (user_mem s4) (out + 4) (put32 sz @ kind @ name)" by (intro buf_has_join [OF v4(2)]) (simp only: a)
  then have "buf_has (user_mem s4) out (put32 (entry_inode e) @ put32 sz @ kind @ name)" by (intro buf_has_join [OF ino]) (simp only: a)
  then show "buf_has (user_mem (put_dir_entry out e sz s)) out (dirent_bytes e sz)"
    unfolding s4 by (simp add: dirent_bytes_def name_def kind_def)
qed

lemma readdir_loop_fills:
  assumes "\<forall>e\<in>set es. \<exists>ino. fs_ext2_read_inode (em_fs (sy_fs s)) (entry_inode e) = Inr ino \<and> inode_size_low_bits ino = size_of e"
    and "w \<le> unat max_entries" "unat buf + 268 * unat max_entries \<le> 0xC0000000"
  shows "\<exists>s'. readdir_loop es buf max_entries (of_nat w) s = Inr (of_nat (min (w + length es) (unat max_entries)), s') \<and>
    wrote (buf + of_nat (268 * w)) (268 * (unat max_entries - w)) s s' \<and>
    (\<forall>i<length es. w + i < unat max_entries \<longrightarrow>
       buf_has (user_mem s') (buf + of_nat (268 * (w + i))) (dirent_bytes (es ! i) (size_of (es ! i))))"
  using assms(1,2)
proof (induction es arbitrary: w s)
  case Nil
  then show ?case by (intro exI [of _ s]) (simp add: wrote_def min_def)
next
  case (Cons e es)
  have wb: "w < 4294967296" using Cons.prems(2) unat_bound32 [of max_entries] by linarith
  have wu: "unat (of_nat w :: u32) = w" by (rule unat_of_nat_small [OF wb])
  show ?case
  proof (cases "w < unat max_entries")
    case False
    then show ?thesis using Cons.prems(2) wu
      by (intro exI [of _ s]) (auto simp: word_less_nat_alt wrote_def)
  next
    case True
    obtain ino where ino: "fs_ext2_read_inode (em_fs (sy_fs s)) (entry_inode e) = Inr ino" "inode_size_low_bits ino = size_of e"
      using Cons.prems(1) by auto
    let ?out = "buf + of_nat (268 * w)"
    have o: "buf + of_nat w * DIR_ENTRY_SIZE = ?out" by (simp add: DIR_ENTRY_SIZE_def)
    have at: "unat (buf + of_nat (268 * j)) = unat buf + 268 * j" if "j \<le> unat max_entries" for j
      using assms(3) that by (intro unat_add_nat) linarith
    define s1 where "s1 = put_dir_entry ?out e (size_of e) s"
    have "268 * w + 268 \<le> 268 * unat max_entries" using True by simp
    then have fits: "unat ?out + 268 \<le> 0xC0000000" using at [of w] True assms(3) by simp
    note p = put_dir_entry_wrote [OF fits, where s = s and e = e and sz = "size_of e", folded s1_def]
    have fs1: "sy_fs s1 = sy_fs s" using p(1) by (simp add: wrote_def)
    have i1: "\<forall>e\<in>set es. \<exists>ino. fs_ext2_read_inode (em_fs (sy_fs s1)) (entry_inode e) = Inr ino \<and> inode_size_low_bits ino = size_of e"
      using Cons.prems(1) unfolding fs1 by simp
    have w1: "w + 1 \<le> unat max_entries" using True by simp
    from Cons.IH [OF i1 w1] obtain s' where
      r: "readdir_loop es buf max_entries (of_nat (w + 1)) s1 = Inr (of_nat (min (w + 1 + length es) (unat max_entries)), s')"
      "wrote (buf + of_nat (268 * (w + 1))) (268 * (unat max_entries - (w + 1))) s1 s'"
      "\<forall>i<length es. w + 1 + i < unat max_entries \<longrightarrow>
         buf_has (user_mem s') (buf + of_nat (268 * (w + 1 + i))) (dirent_bytes (es ! i) (size_of (es ! i)))" by blast
    have "of_nat w < max_entries" using True wu by (simp add: word_less_nat_alt)
    then have l: "readdir_loop (e # es) buf max_entries (of_nat w) s = readdir_loop es buf max_entries (of_nat (w + 1)) s1"
      using ino o by (simp add: s1_def add.commute)
    have wr: "wrote ?out (268 * (unat max_entries - w)) s s'"
      by (rule wrote_trans [OF p(1) r(2)]) (use at [of w] at [of "w + 1"] True in \<open>simp_all add: right_diff_distrib'\<close>)
    have b0: "buf_has (user_mem s') ?out (dirent_bytes e (size_of e))"
      by (rule wrote_kept [OF r(2) p(2)]) (use at [of w] at [of "w + 1"] True fits dirent_length [of e "size_of e"] in simp_all)
    have "buf_has (user_mem s') (buf + of_nat (268 * (w + i))) (dirent_bytes ((e # es) ! i) (size_of ((e # es) ! i)))"
      if "i < length (e # es)" "w + i < unat max_entries" for i
    proof (cases i)
      case 0
      then show ?thesis using b0 by simp
    next
      case (Suc j)
      then show ?thesis using r(3) [rule_format, of j] that by simp
    qed
    then show ?thesis using l r(1) wr by (intro exI [of _ s']) (simp add: add.commute)
  qed
qed

text \<open>The handler, for a directory that can be opened and read and a buffer in the user half.\<close>

lemma syscall_readdir_fills:
  assumes "string_at (user_mem s) (EBX s regs) = Inr path" "vfs_open (sy_drv s) path (sy_fs s) = Inr (Some dir, fs1)" "vn_is_dir dir"
    and "vfs_list (sy_drv s) dir fs1 = Inr (Some es, fs2)" "vfs_close (sy_drv s) dir fs2 = Inr fs3"
    and "\<forall>e\<in>set es. \<exists>ino. fs_ext2_read_inode (em_fs fs2) (entry_inode e) = Inr ino \<and> inode_size_low_bits ino = size_of e"
    and "unat (ECX s regs) + unat (EDX s regs) \<le> 0xC0000000"
  shows "\<exists>s'. syscall_readdir p regs s = Inr (0, s') \<and> EAX s' regs = of_nat (min (length es) (unat (EDX s regs) div 268)) \<and>
    (\<forall>i<min (length es) (unat (EDX s regs) div 268).
       \<exists>s1. buf_has (user_mem s1) (ECX s regs + of_nat (268 * i)) (dirent_bytes (es ! i) (size_of (es ! i))) \<and>
         wrote (ECX s regs) (unat (EDX s regs)) (s\<lparr>sy_fs := fs2\<rparr>) s1 \<and> s' = set_EAX regs (EAX s' regs) (s1\<lparr>sy_fs := fs3\<rparr>))"
proof -
  let ?buf = "ECX s regs" and ?max = "EDX s regs div DIR_ENTRY_SIZE" and ?s = "s\<lparr>sy_fs := fs2\<rparr>"
  have m: "unat ?max = unat (EDX s regs) div 268" by (simp add: DIR_ENTRY_SIZE_def unat_div_distrib)
  have b: "unat ?buf + 268 * unat ?max \<le> 0xC0000000" using assms(7) unfolding m
    by (meson add_le_cancel_left le_trans times_div_less_eq_dividend)
  obtain s1 where r: "readdir_loop es ?buf ?max (of_nat 0) ?s = Inr (of_nat (min (0 + length es) (unat ?max)), s1)"
    "wrote (?buf + of_nat (268 * 0)) (268 * (unat ?max - 0)) ?s s1"
    "\<forall>i<length es. 0 + i < unat ?max \<longrightarrow> buf_has (user_mem s1) (?buf + of_nat (268 * (0 + i))) (dirent_bytes (es ! i) (size_of (es ! i)))"
    using readdir_loop_fills [of es ?s size_of 0 ?max ?buf] assms(6) b by auto
  have w: "wrote ?buf (unat (EDX s regs)) ?s s1" using r(2) unfolding m by (auto simp: wrote_def dest: order_trans [OF times_div_less_eq_dividend])
  then have f: "sy_fs s1 = fs2" "sy_drv s1 = sy_drv s" by (simp_all add: wrote_def)
  let ?s' = "set_EAX regs (of_nat (min (length es) (unat (EDX s regs) div 268))) (s1\<lparr>sy_fs := fs3\<rparr>)"
  have "syscall_readdir p regs s = Inr (0, ?s')"
    using assms(1-5) r(1) [unfolded m] f by (simp add: syscall_readdir_def)
  then show ?thesis using r(3) w unfolding m by (intro exI [of _ ?s']) auto
qed

section \<open>What the system call promises\<close>

text \<open>
  A listing is the bytes of its entries, None for a path that cannot be listed. The system call fills what it is given
  with the first of them and touches nothing else.
\<close>

definition fills :: "raw_readdir \<Rightarrow> u32 \<Rightarrow> u8 list list \<Rightarrow> bool" where
  "fills raw path es \<longleftrightarrow> (\<forall>buf len u. unat buf + unat len \<le> 0xC0000000 \<longrightarrow>
     (\<exists>m. raw path buf len u = (of_nat (min (length es) (unat len div 268)), u\<lparr>um := m\<rparr>) \<and>
       (\<forall>a. (\<forall>i<unat len. a \<noteq> buf + of_nat i) \<longrightarrow> m a = um u a) \<and>
       (\<forall>i<min (length es) (unat len div 268). buf_has m (buf + of_nat (268 * i)) (es ! i))))"

definition lists_dir :: "raw_readdir \<Rightarrow> u32 \<Rightarrow> u8 list list option \<Rightarrow> bool" where
  "lists_dir raw path d \<longleftrightarrow>
     (case d of None \<Rightarrow> \<forall>buf len u. raw path buf len u = (- 1, u) | Some es \<Rightarrow> fills raw path es)"

section \<open>How much an allocation takes\<close>

lemma small_mmap: "u_mmap (snd (mem_alloc_small ci u)) = u_mmap u"
  by (auto simp: mem_alloc_small_def mem_arena_extend_small_def Let_def carve_mmap mem_sbrk_def)

lemma large_mmap: "mem_alloc_large need u = Inr (r, u') \<Longrightarrow> u_mmap u' = u_mmap u"
  by (auto simp: mem_alloc_large_def Let_def mem_sbrk_def split: option.splits if_splits)

lemma mmap_pages_most: "unat n + 4095 < 4294967296 \<Longrightarrow> unat (mmap_pages n * 4096) \<le> unat n + 4095"
proof -
  assume a: "unat n + 4095 < 4294967296"
  have "unat (n + 0xFFF) = unat n + 4095" using a unat_add_small [of n "0xFFF"] by simp
  then have p: "unat (mmap_pages n) = (unat n + 4095) div 4096"
    by (simp add: mmap_pages_def unsigned_drop_bit_eq drop_bit_eq_div unat_div)
  have "(unat n + 4095) div 4096 * 4096 \<le> unat n + 4095" by simp
  then show ?thesis using p a by (subst unat_mul_small) simp_all
qed

lemma malloc_mmap_most:
  assumes "malloc sz u = Inr (r, u')" "umem_room sz u" "0 < unat sz"
  shows "unat (u_mmap u') \<le> unat (u_mmap u) + (unat sz + 4111)"
proof -
  define need where "need = (if sz = 0 then 1 else sz) + MEM_HEADER"
  have n: "unat need = unat sz + 16"
    using assms(2,3) unfolding need_def MEM_HEADER_def by (subst unat_add_small) (auto simp: umem_room_def Let_def)
  show ?thesis
  proof (cases "need \<ge> MEM_MMAP_THRESHOLD")
    case True
    then have "65536 \<le> unat need" by (simp add: MEM_MMAP_THRESHOLD_def word_le_nat_alt)
    then have room: "unat (u_mmap u) + unat need + 4096 < 4294967296" using assms(2,3) n by (simp add: umem_room_def Let_def)
    then have p: "unat (mmap_pages need * 4096) \<le> unat need + 4095" by (intro mmap_pages_most) linarith
    then have "unat (u_mmap u + mmap_pages need * 4096) \<le> unat (u_mmap u) + (unat need + 4095)"
      using room by (subst unat_add_small) simp_all
    then show ?thesis using assms(1) True n
      by (auto simp: malloc_def need_def [symmetric] Let_def mem_mmap_def split: if_splits)
  next
    case False
    then have "u_mmap u' = u_mmap u" using assms(1) small_mmap large_mmap
      by (auto simp: malloc_def need_def [symmetric] Let_def split: option.splits) (metis snd_conv)
    then show ?thesis by simp
  qed
qed

definition dir_room :: "nat \<Rightarrow> nat \<Rightarrow> uheap \<Rightarrow> bool" where
  "dir_room n k u \<longleftrightarrow> unat (u_break u) + 65536 * k \<le> mmap_start \<and> unat (u_mmap u) + n + 8192 * k \<le> 0xC0000000"

lemma dir_room_malloc: "dir_room n (Suc k) u \<Longrightarrow> unat sz \<le> n \<Longrightarrow> umem_room sz u"
  by (auto simp: dir_room_def umem_room_def Let_def max_def)

lemma room_after:
  assumes "dir_room (unat sz + n) (Suc k) u" "unat (u_break u') \<le> unat (u_break u) + 65536"
    and "unat (u_mmap u') \<le> unat (u_mmap u) + (unat sz + 4111)"
  shows "dir_room n k u'"
  using assms by (simp add: dir_room_def)

lemma realloc_run:
  assumes "umem_run lo u L" "L p = Some k" "umem_room sz u" "sz \<noteq> 0"
  shows "\<exists>r u'. urealloc p sz u = Inr (r, u') \<and> r \<noteq> 0 \<and> (L(p := None)) r = None \<and> umem_run lo u' ((L(p := None))(r \<mapsto> unat sz)) \<and>
    kept lo (L(p := None)) (um u) (um u') \<and> unat (u_break u') \<le> unat (u_break u) + 65536 \<and>
    unat (u_mmap u') \<le> unat (u_mmap u) + (unat sz + 4111)"
proof -
  obtain B own where i: "uheap_ok lo u B own" "held u B own L" using umem_run_inv [OF assms(1)] by blast
  obtain b where b: "b \<in> B" "own b = Live" "p = b + 16" "k + 16 \<le> bsize u b" using i(2) assms(2) by (auto simp: held_def)
  from realloc_ok [OF i(1) assms(3) b(1,2) assms(4)] obtain c u' B' own' where
    r: "urealloc p sz u = Inr (c + 16, u')" "uheap_ok lo u' B' own'" "takes lo u (B - {b}) own c (unat sz + 16) u' B' own'"
    unfolding b(3) by blast
  have c: "c \<in> B'" "c \<in> B - {b} \<longrightarrow> own c \<noteq> Live" "keeps lo u (B - {b}) own u' B' own'" using r(3) by (auto simp: takes_def)
  have none: "(L(p := None)) (c + 16) = None"
  proof (rule ccontr)
    assume "(L(p := None)) (c + 16) \<noteq> None"
    then obtain d where "d \<in> B" "own d = Live" "c + 16 = d + 16" "c + 16 \<noteq> p"
      using i(2) unfolding held_def by (metis fun_upd_apply option.exhaust)
    then show False using c(2) b(3) by auto
  qed
  have "um u' (q + of_nat j) = um u (q + of_nat j)" if q: "(L(p := None)) q = Some n" "j < n" for q n j
  proof -
    have q': "L q = Some n" "q \<noteq> p" using q(1) by (auto split: if_splits)
    obtain d where d: "d \<in> B" "own d = Live" "q = d + 16" "n + 16 \<le> bsize u d" using i(2) q'(1) by (auto simp: held_def)
    have "q + of_nat j \<in> payload u d" using payload_at(1) [OF i(1) d(1,4) q(2)] by (simp add: d(3))
    then show ?thesis using c(3) d(1-3) q'(2) b(3) by (auto simp: keeps_def)
  qed
  moreover have "\<forall>a. unat a < lo \<longrightarrow> um u' a = um u a" using c(3) by (simp add: keeps_def)
  ultimately have kept: "kept lo (L(p := None)) (um u) (um u')" unfolding kept_def by blast
  have pos: "0 < unat sz" using assms(4) by (simp add: unat_gt_0)
  have grow: "unat (u_break u') \<le> unat (u_break u) + 65536 \<and> unat (u_mmap u') \<le> unat (u_mmap u) + (unat sz + 4111)"
  proof -
    have p0: "p \<noteq> 0" by (rule umem_run_not_null [OF assms(1,2)])
    show ?thesis
    proof (cases "blk_size (um u) (p - MEM_HEADER) - MEM_HEADER \<ge> sz")
      case True
      then have "u' = u" using r(1) p0 assms(4) by (auto simp: urealloc_def Let_def)
      then show ?thesis by simp
    next
      case False
      then obtain np u1 where m: "malloc sz u = Inr (np, u1)"
        "u' = u1 \<or> u' = ufree p (u1\<lparr>um := kmemcpy (um u1) np p (unat (blk_size (um u) (p - MEM_HEADER) - MEM_HEADER))\<rparr>)"
        using r(1) p0 assms(4) by (auto simp: urealloc_def Let_def and_then_def split: sum.splits if_splits)
      have "u_break (ufree p v) = u_break v" for v by (simp add: ufree_def Let_def mem_munmap_def split: option.split)
      then show ?thesis using m(2) malloc_break [OF m(1) assms(3)] malloc_mmap_most [OF m(1) assms(3) pos] by (auto simp: ufree_mmap)
    qed
  qed
  show ?thesis using r(1) none kept grow umem_run.resize [OF assms(1,2,3,4) r(1)] uinv_strict(3) [OF r(2) c(1)] by blast
qed

section \<open>The loop\<close>

lemma umem_run_user:
  assumes "umem_run lo u L" "L p = Some n" "unat (u_mmap u) \<le> 0xC0000000"
  shows "unat p + n \<le> 0xC0000000"
proof -
  obtain B own where i: "uheap_ok lo u B own" "held u B own L" using umem_run_inv [OF assms(1)] by blast
  obtain b where b: "b \<in> B" "p = b + 16" "n + 16 \<le> bsize u b" using i(2) assms(2) by (auto simp: held_def)
  have "in_place lo (unat (u_break u)) u b" "unat (u_break u) \<le> mmap_start" using i(1) b(1) by (auto simp: uinv_def)
  then have "unat b + bsize u b \<le> 0xC0000000" using assms(3) by (auto simp: in_place_def mmap_start_def)
  then show ?thesis using uinv_strict [OF i(1) b(1)] b(2,3) by simp
qed

lemma dir_room_mono: "dir_room n k u \<Longrightarrow> n' \<le> n \<Longrightarrow> dir_room n' k u"
  by (simp add: dir_room_def)

definition dir_filled :: "nat \<Rightarrow> (u32 \<Rightarrow> nat option) \<Rightarrow> uheap \<Rightarrow> u8 list list \<Rightarrow> u32 \<Rightarrow> uheap \<Rightarrow> bool" where
  "dir_filled lo L u es p u' \<longleftrightarrow> p \<noteq> 0 \<and> L p = None \<and> (\<exists>n\<ge>268 * length es. umem_run lo u' (L(p \<mapsto> n))) \<and> kept lo L (um u) (um u') \<and>
     (\<forall>i<length es. buf_has (um u') (p + of_nat (268 * i)) (es ! i))"

lemma fills_run:
  assumes "fills raw path es" "umem_run lo u (L(p \<mapsto> unat cap * 268))" "L p = None" "unat (u_mmap u) \<le> 0xC0000000"
  shows "\<exists>m. raw path p (cap * DIR_ENTRY_SIZE) u = (of_nat (min (length es) (unat cap)), u\<lparr>um := m\<rparr>) \<and>
    umem_run lo (u\<lparr>um := m\<rparr>) (L(p \<mapsto> unat cap * 268)) \<and> kept lo L (um u) m \<and>
    (\<forall>i<min (length es) (unat cap). buf_has m (p + of_nat (268 * i)) (es ! i))"
proof -
  have h: "(L(p \<mapsto> unat cap * 268)) p = Some (unat cap * 268)" by simp
  have r: "unat p + unat cap * 268 \<le> 0xC0000000" by (rule umem_run_user [OF assms(2) h assms(4)])
  then have c: "unat (cap * DIR_ENTRY_SIZE) = unat cap * 268" unfolding DIR_ENTRY_SIZE_def by (subst unat_mul_small) simp_all
  obtain m where m: "raw path p (cap * DIR_ENTRY_SIZE) u = (of_nat (min (length es) (unat cap)), u\<lparr>um := m\<rparr>)"
    "\<forall>a. (\<forall>i<unat cap * 268. a \<noteq> p + of_nat i) \<longrightarrow> m a = um u a"
    "\<forall>i<min (length es) (unat cap). buf_has m (p + of_nat (268 * i)) (es ! i)"
    using assms(1) r c unfolding fills_def by (metis nonzero_mult_div_cancel_right zero_neq_numeral)
  have "L(p \<mapsto> unat cap * 268, p := None) = L" using assms(3) by auto
  then have "kept lo L (um u) m" using store_kept [OF assms(2) h m(2)] by metis
  then show ?thesis using m(1,3) store_run [OF assms(2) h m(2)] by blast
qed

lemma readdir_grow_result:
  assumes "fills raw path es" "umem_run lo u (L(p \<mapsto> unat cap * 268))" "L p = None" "0 < unat cap"
    and "length es < unat cap * 2 ^ k" "dir_room (536 * unat cap * (2 ^ k - 1)) k u"
  shows "\<exists>q u'. readdir_grow raw path p cap u = Some (Inr (q, of_nat (length es), u')) \<and> dir_filled lo L u es q u'"
  using assms(2-6)
proof (induction k arbitrary: p cap u)
  note step = fills_run [OF assms(1)]
  have small: "unat cap * 268 < 4294967296" if "umem_run lo u (L(p \<mapsto> unat cap * 268))" for u p and cap :: u32
    using umem_run_ranges(1) [OF that, of p "unat cap * 268"] by simp
  have pos: "\<not> sint (of_nat n :: u32) < 0" if "n \<le> unat cap" "unat cap * 268 < 4294967296" for n and cap :: u32
  proof -
    have "n < 2147483648" using that by linarith
    then have "uint (of_nat n :: u32) = int n" "int n < 2147483648" by (simp_all add: unsigned_of_nat take_bit_nat_eq_self)
    then have "sint (of_nat n :: u32) = int n" unfolding sint_uint by (simp add: signed_take_bit_int_eq_self)
    then show ?thesis by simp
  qed
  have found: "\<exists>q u'. readdir_grow raw path p cap u = Some (Inr (q, of_nat (length es), u')) \<and> dir_filled lo L u es q u'"
    if a: "umem_run lo u (L(p \<mapsto> unat cap * 268))" "L p = None" "unat (u_mmap u) \<le> 0xC0000000" "length es < unat cap"
    for p u and cap :: u32
  proof -
    obtain m where m: "raw path p (cap * DIR_ENTRY_SIZE) u = (of_nat (length es), u\<lparr>um := m\<rparr>)"
      "umem_run lo (u\<lparr>um := m\<rparr>) (L(p \<mapsto> unat cap * 268))" "kept lo L (um u) m"
      "\<forall>i<length es. buf_has m (p + of_nat (268 * i)) (es ! i)" using step [OF a(1-3)] a(4) by (auto simp: min_def)
    have "of_nat (length es) < cap" using a(4) small [OF a(1)] by (simp add: word_less_nat_alt unat_of_nat_small)
    then have "readdir_grow raw path p cap u = Some (Inr (p, of_nat (length es), u\<lparr>um := m\<rparr>))"
      using m(1) pos [of "length es" cap] a(4) small [OF a(1)] by (subst readdir_grow.simps) simp
    moreover have "p \<noteq> 0" by (rule umem_run_not_null [OF a(1)]) simp
    ultimately show ?thesis using m(2-4) a(2,4) unfolding dir_filled_def by (auto intro!: exI [of _ "unat cap * 268"])
  qed
  {
    case 0
    then have "length es < unat cap" "unat (u_mmap u) \<le> 0xC0000000" by (simp_all add: dir_room_def)
    then show ?case by (intro found [OF 0(1,2)])
  next
    case (Suc k)
    have mm: "unat (u_mmap u) \<le> 0xC0000000" using Suc.prems(5) by (simp add: dir_room_def)
    show ?case
    proof (cases "length es < unat cap")
      case True
      then show ?thesis by (rule found [OF Suc.prems(1,2) mm])
    next
      case False
      obtain m where m: "raw path p (cap * DIR_ENTRY_SIZE) u = (cap, u\<lparr>um := m\<rparr>)"
        "umem_run lo (u\<lparr>um := m\<rparr>) (L(p \<mapsto> unat cap * 268))" "kept lo L (um u) m"
        using step [OF Suc.prems(1,2) mm] False by (auto simp: min_def)
      have s: "\<not> sint cap < 0" using pos [of "unat cap" cap] small [OF Suc.prems(1)] by simp
      define n where "n = 536 * unat (cap * 2) * (2 ^ k - 1)"
      have n2: "536 * unat cap * (2 ^ Suc k - 1) = 536 * unat cap + 536 * (2 * unat cap) * (2 ^ k - 1)" by (simp add: algebra_simps)
      have big: "536 * unat cap < 4294967296" using Suc.prems(5) unfolding n2 dir_room_def by linarith
      have c2: "unat (cap * 2) = 2 * unat cap" "unat (cap * 2 * DIR_ENTRY_SIZE) = 536 * unat cap"
        using big unfolding DIR_ENTRY_SIZE_def by (simp_all add: unat_mul_small)
      have room: "dir_room (unat (cap * 2 * DIR_ENTRY_SIZE) + n) (Suc k) (u\<lparr>um := m\<rparr>)"
        using Suc.prems(5) unfolding n_def c2 n2 dir_room_def by simp
      have nz: "cap * 2 * DIR_ENTRY_SIZE \<noteq> 0" using c2(2) Suc.prems(3) by auto
      obtain q u1 where r: "urealloc p (cap * 2 * DIR_ENTRY_SIZE) (u\<lparr>um := m\<rparr>) = Inr (q, u1)" "q \<noteq> 0" "L q = None"
        "umem_run lo u1 (L(q \<mapsto> 536 * unat cap))" "kept lo L m (um u1)" "unat (u_break u1) \<le> unat (u_break u) + 65536"
        "unat (u_mmap u1) \<le> unat (u_mmap u) + (536 * unat cap + 4111)"
      proof -
        have e: "L(p \<mapsto> unat cap * 268, p := None) = L" using Suc.prems(2) by auto
        show thesis
          using realloc_run [OF m(2) _ dir_room_malloc [OF room] nz, of p] that unfolding e c2(2) by auto
      qed
      have rm: "dir_room n k u1" by (rule room_after [OF room]) (use r(6,7) c2(2) in simp_all)
      have run: "umem_run lo u1 (L(q \<mapsto> unat (cap * 2) * 268))" using r(4) c2(1) by (simp add: mult.commute)
      have len: "length es < unat (cap * 2) * 2 ^ k" using Suc.prems(4) c2(1) by (simp add: mult.assoc)
      have p2: "0 < unat (cap * 2)" using c2(1) Suc.prems(3) by simp
      obtain q' u' where g: "readdir_grow raw path q (cap * 2) u1 = Some (Inr (q', of_nat (length es), u'))" "dir_filled lo L u1 es q' u'"
        using Suc.IH [OF run r(3) p2 len rm [unfolded n_def]] by blast
      have "readdir_grow raw path p cap u = readdir_grow raw path q (cap * 2) u1"
        using m(1) s r(1,2) by (subst readdir_grow.simps) simp
      moreover have "dir_filled lo L u es q' u'"
        using g(2) kept_trans [OF kept_trans [OF m(3) r(5)]] unfolding dir_filled_def by blast
      ultimately show ?thesis using g(1) by auto
    qed
  }
qed

text \<open>
  C39. \<open>readdir\<close> gives an array with every entry of the directory and their number, however often it has to grow for that;
  for a path that cannot be listed it gives a null pointer and frees the array. Nothing else the program holds changes.
\<close>

theorem readdir_all:
  assumes "lists_dir raw path d" "umem_run lo u L" "\<forall>es. d = Some es \<longrightarrow> length es < 16 * 2 ^ k"
    and "unat (u_break u) + 65536 * (k + 1) \<le> mmap_start" "unat (u_mmap u) + 8576 * 2 ^ k + 8192 * (k + 1) \<le> 0xC0000000"
  shows "\<exists>p n u'. readdir raw path u = Inr (p, n, u') \<and>
    (case d of None \<Rightarrow> p = 0 \<and> n = 0 \<and> umem_run lo u' L \<and> kept lo L (um u) (um u')
     | Some es \<Rightarrow> n = of_nat (length es) \<and> p \<noteq> 0 \<and> L p = None \<and> (\<exists>j\<ge>268 * length es. umem_run lo u' (L(p \<mapsto> j))) \<and>
         kept lo L (um u) (um u') \<and> (\<forall>i<length es. buf_has (um u') (p + of_nat (268 * i)) (es ! i)))"
proof -
  have sz: "16 * DIR_ENTRY_SIZE = 4288" "unat (16 * DIR_ENTRY_SIZE) = 4288" by (simp_all add: DIR_ENTRY_SIZE_def)
  have pk: "(1 :: nat) \<le> 2 ^ k" by simp
  have n: "4288 + 8576 * (2 ^ k - 1) \<le> (8576 * 2 ^ k :: nat)" using pk by (simp only: right_diff_distrib')
  have room: "dir_room (unat (16 * DIR_ENTRY_SIZE) + 8576 * (2 ^ k - 1)) (Suc k) u"
    using assms(4,5) n unfolding dir_room_def sz(2) by simp
  have ur: "umem_room (16 * DIR_ENTRY_SIZE) u" by (rule dir_room_malloc [OF room le_add1])
  obtain p u1 where m: "malloc (16 * DIR_ENTRY_SIZE) u = Inr (p, u1)" "p \<noteq> 0" "L p = None" "umem_run lo u1 (L(p \<mapsto> 4288))"
    "kept lo L (um u) (um u1)" "unat (u_break u1) \<le> unat (u_break u) + 65536"
    using malloc_run [OF assms(2) ur] unfolding sz(2) by blast
  have mm: "unat (u_mmap u1) \<le> unat (u_mmap u) + (unat (16 * DIR_ENTRY_SIZE) + 4111)"
    by (rule malloc_mmap_most [OF m(1) ur]) (simp add: sz)
  have e: "L(p \<mapsto> 4288, p := None) = L" using m(3) by auto
  have rm: "dir_room (536 * unat (16 :: u32) * (2 ^ k - 1)) k u1" using room_after [OF room m(6) mm] by simp
  have run: "umem_run lo u1 (L(p \<mapsto> unat (16 :: u32) * 268))" using m(4) by simp
  show ?thesis
  proof (cases d)
    case None
    then have "readdir_grow raw path p 16 u1 = Some (Inr (0, 0, ufree p u1))"
      using assms(1) by (subst readdir_grow.simps) (simp add: lists_dir_def)
    then have "readdir raw path u = Inr (0, 0, ufree p u1)" using m(1,2) by (simp add: readdir_def)
    moreover have "umem_run lo (ufree p u1) L" "kept lo L (um u1) (um (ufree p u1))" using free_run [OF m(4), of p] e by simp_all
    ultimately show ?thesis using None kept_trans [OF m(5)] by simp
  next
    case (Some es)
    then have f: "fills raw path es" "length es < unat (16 :: u32) * 2 ^ k" using assms(1,3) by (simp_all add: lists_dir_def)
    obtain q u' where g: "readdir_grow raw path p 16 u1 = Some (Inr (q, of_nat (length es), u'))" "dir_filled lo L u1 es q u'"
      using readdir_grow_result [OF f(1) run m(3) _ f(2) rm] by auto
    then have "readdir raw path u = Inr (q, of_nat (length es), u')" using m(1,2) by (simp add: readdir_def)
    moreover have "dir_filled lo L u es q u'" using g(2) kept_trans [OF m(5)] unfolding dir_filled_def by blast
    ultimately show ?thesis using Some unfolding dir_filled_def by simp
  qed
qed

text \<open>A directory of two entries, in a fresh program.\<close>

definition two_entries :: raw_readdir where
  "two_entries path buf len u =
     (let n = unat len div 268
      in (of_nat (min 2 n), u\<lparr>um := (if n = 0 then um u else if n = 1 then patch (um u) buf [7] else patch (patch (um u) buf [7]) (buf + 268) [9])\<rparr>))"

lemma two_entries_fills: "fills two_entries path [[7], [9]]"
  unfolding fills_def
proof (intro allI impI)
  fix buf len :: u32 and u :: uheap
  assume b: "unat buf + unat len \<le> 0xC0000000"
  have far: "unat (buf + 268) = unat buf + 268" if "268 \<le> unat len" using b that by (subst unat_add_small) simp_all
  have one: "patch m a [v] = m(a := v)" for m a and v :: u8 by (auto simp: patch_def fun_eq_iff word_unat_eq_iff)
  have out: "(m(buf := v)) a = m a" if "\<forall>i<unat len. a \<noteq> buf + of_nat i" "268 \<le> unat len" for m a and v :: u8
    using that(1) [rule_format, of 0] that(2) by auto
  have out2: "a \<noteq> buf + 268" if "\<forall>i<unat len. a \<noteq> buf + of_nat i" "536 \<le> unat len" for a
    using that(1) [rule_format, of 268] that(2) by auto
  define n where "n = unat len div 268"
  consider "n = 0" | "n = 1" | "2 \<le> n" by linarith
  then show "\<exists>m. two_entries path buf len u = (of_nat (min (length [[7], [9]]) (unat len div 268)), u\<lparr>um := m\<rparr>) \<and>
       (\<forall>a. (\<forall>i<unat len. a \<noteq> buf + of_nat i) \<longrightarrow> m a = um u a) \<and>
       (\<forall>i<min (length [[7], [9]]) (unat len div 268). buf_has m (buf + of_nat (268 * i)) ([[7], [9]] ! i))"
    unfolding n_def [symmetric]
  proof cases
    case 1
    then show "\<exists>m. two_entries path buf len u = (of_nat (min (length [[7], [9]]) n), u\<lparr>um := m\<rparr>) \<and>
       (\<forall>a. (\<forall>i<unat len. a \<noteq> buf + of_nat i) \<longrightarrow> m a = um u a) \<and>
       (\<forall>i<min (length [[7], [9]]) n. buf_has m (buf + of_nat (268 * i)) ([[7], [9]] ! i))"
      by (intro exI [of _ "um u"]) (simp add: two_entries_def n_def)
  next
    case 2
    then have "268 \<le> unat len" by (simp add: n_def)
    then show "\<exists>m. two_entries path buf len u = (of_nat (min (length [[7], [9]]) n), u\<lparr>um := m\<rparr>) \<and>
       (\<forall>a. (\<forall>i<unat len. a \<noteq> buf + of_nat i) \<longrightarrow> m a = um u a) \<and>
       (\<forall>i<min (length [[7], [9]]) n. buf_has m (buf + of_nat (268 * i)) ([[7], [9]] ! i))"
      using 2 out by (intro exI [of _ "(um u)(buf := 7)"]) (auto simp: two_entries_def n_def [symmetric] one buf_has_def)
  next
    case 3
    then have l: "536 \<le> unat len" by (simp add: n_def)
    then have "buf + 268 \<noteq> buf" by simp
    then show "\<exists>m. two_entries path buf len u = (of_nat (min (length [[7], [9]]) n), u\<lparr>um := m\<rparr>) \<and>
       (\<forall>a. (\<forall>i<unat len. a \<noteq> buf + of_nat i) \<longrightarrow> m a = um u a) \<and>
       (\<forall>i<min (length [[7], [9]]) n. buf_has m (buf + of_nat (268 * i)) ([[7], [9]] ! i))"
      using 3 out out2 l by (intro exI [of _ "(um u)(buf := 7, buf + 268 := 9)"])
        (auto simp: two_entries_def n_def [symmetric] one buf_has_def less_Suc_eq numeral_2_eq_2)
  qed
qed

theorem readdir_all_witness:
  "\<exists>p u'. readdir two_entries 0x1000 udemo_heap = Inr (p, 2, u') \<and> um u' p = 7 \<and> um u' (p + 268) = 9"
proof -
  have d: "lists_dir two_entries 0x1000 (Some [[7], [9]])" using two_entries_fills by (simp add: lists_dir_def)
  obtain p u' where r: "readdir two_entries 0x1000 udemo_heap = Inr (p, of_nat (length [[7 :: u8], [9]]), u')"
    "\<forall>i<length [[7 :: u8], [9]]. buf_has (um u') (p + of_nat (268 * i)) ([[7], [9]] ! i)"
    using readdir_all [OF d udemo_start, of 0] by (auto simp: udemo_heap_def mmap_start_def)
  show ?thesis using r(1) r(2) [rule_format, of 0] r(2) [rule_format, of 1] by (auto simp: buf_has_def)
qed

end
