(* ===== verification/Kai.thy ===== *)
theory Kai
  imports Ustring
begin

text \<open>
  The shell, \<open>user_fs/src/kai.c\<close>: how a line becomes a command, and how \<open>cd\<close> turns a path into a canonical one. Its
  strings are values here: what splitting, copying and the environment do in memory is proved in \<open>Ustring\<close> and
  \<open>Ustdlib\<close>. The path that \<open>cd\<close> stores is shown to lead to the directory that the typed path leads to.
\<close>

section \<open>Operations\<close>

definition KAI_TOKENS_MAX :: nat where "KAI_TOKENS_MAX = 31"
definition WD_MAX_LEN :: nat where "WD_MAX_LEN = 512"

definition DOT :: "u8 list" where "DOT = [0x2E]"
definition DOTDOT :: "u8 list" where "DOTDOT = [0x2E, 0x2E]"

text \<open>
  \<open>strsplit\<close> into an array of 31 pointers: it stores behind the array when there are more tokens, and gives none when it
  cannot copy one (\<open>ok\<close> says whether there was memory for all of them).
\<close>

definition split_path :: "bool \<Rightarrow> u8 list \<Rightarrow> u8 list list res" where
  "split_path ok s =
     (if KAI_TOKENS_MAX < length (toks {0x2F} s) then Inl (KFault ''strsplit'') else Inr (if ok then toks {0x2F} s else []))"

fun push_components :: "u8 list list \<Rightarrow> u8 list list \<Rightarrow> u8 list list" where
  "push_components cmps [] = cmps"
| "push_components cmps (t # ts) =
     push_components
       (if t = DOT then cmps
        else if t = DOTDOT then (if 0 < length cmps then butlast cmps else cmps)
        else if length cmps < KAI_TOKENS_MAX then cmps @ [t] else cmps) ts"

text \<open>A store of bytes at a position of the output buffer.\<close>

definition put_out :: "u8 list \<Rightarrow> nat \<Rightarrow> u8 list \<Rightarrow> u8 list res" where
  "put_out out used bs = (if used + length bs \<le> length out then Inr (overwrite out used bs) else Inl (KFault ''out''))"

fun write_components :: "nat \<Rightarrow> u8 list list \<Rightarrow> u8 list \<Rightarrow> nat \<Rightarrow> u8 list res" where
  "write_components i [] out used = Inr out"
| "write_components i (c # cs) out used =
     (if used + 1 + length c < WD_MAX_LEN
      then and_then (if i > 0 then put_out out used [0x2F] else Inr out) (\<lambda>out.
             let used = (if i > 0 then used + 1 else used)
             in and_then (put_out out used (c @ [0])) (\<lambda>out. write_components (i + 1) cs out (used + length c)))
      else write_components (i + 1) cs out used)"

text \<open>
  \<open>__builtin_cd__resolve\<close>: \<open>pwd\<close> is what the environment says, and the flags say which of its allocations succeeded: the
  array of components, that of the base, its copies, that of the target, its copies.
\<close>

definition cd_resolve :: "bool \<Rightarrow> bool \<Rightarrow> bool \<Rightarrow> bool \<Rightarrow> bool \<Rightarrow> u8 list option \<Rightarrow> u8 list \<Rightarrow> u8 list \<Rightarrow> u8 list res" where
  "cd_resolve comp_ok base_ok base_copies tc_ok tc_copies pwd target out =
     (if \<not> comp_ok then put_out out 0 [0]
      else and_then (if (target @ [0]) ! 0 \<noteq> 0x2F \<and> base_ok
                     then split_path base_copies (case pwd of None \<Rightarrow> [0x2F] | Some p \<Rightarrow> p) else Inr []) (\<lambda>cmps.
           and_then (if tc_ok then and_then (split_path tc_copies target) (\<lambda>tc. Inr (push_components cmps tc)) else Inr cmps) (\<lambda>cmps.
           and_then (put_out out 0 [0x2F]) (\<lambda>out.
           and_then (write_components 0 cmps out 1) (\<lambda>out.
             if cmps = [] then put_out out 0 [0x2F, 0] else Inr out)))))"

text \<open>
  The state of the shell: the map that its environment stands for, and the static buffer \<open>wd\<close>. What it does is a list of
  events. \<open>readdir\<close> tells whether listing a path succeeds, and \<open>exec\<close> what the system call answers.
\<close>

definition c_string :: "u8 list \<Rightarrow> u8 list" where "c_string buf = takeWhile (\<lambda>c. c \<noteq> 0) buf"

definition ascii :: "string \<Rightarrow> u8 list" where "ascii s = map of_char s"

definition PWD :: "u8 list" where "PWD = ascii ''PWD''"
definition HOME :: "u8 list" where "HOME = ascii ''HOME''"

type_synonym kai_env = "u8 list \<Rightarrow> u8 list option"

record kai =
  kai_env :: kai_env
  kai_wd :: "u8 list"

datatype kai_event = Printed "u8 list" | Exec "u8 list" "u8 list list" | Waitpid int

definition cd_not_found :: "u8 list \<Rightarrow> u8 list" where
  "cd_not_found display = ascii ''cd: '' @ [0x27] @ display @ [0x27] @ ascii '' is not a directory or not found'' @ [0x0A]"

text \<open>\<open>__builtin_cd\<close>, where there is memory for everything; the result says whether it succeeded.\<close>

definition builtin_cd :: "(u8 list \<Rightarrow> bool) \<Rightarrow> u8 list list \<Rightarrow> kai \<Rightarrow> (bool \<times> kai_event list \<times> kai) res" where
  "builtin_cd readdir args k =
     (let no_arg = (length args < 2 \<or> args ! 1 = []);
          ev = (if no_arg then [Printed (ascii ''kai: cd: cd with no args, defaulting to $HOME'' @ [0x0A])] else []);
          target = (if no_arg then kai_env k HOME else Some (args ! 1))
      in case target of
           None \<Rightarrow> Inr (False, ev @ [Printed (ascii ''kai: cd: error: no $HOME env var is set'' @ [0x0A])], k)
         | Some t \<Rightarrow>
             and_then (cd_resolve True True True True True (kai_env k PWD) t (kai_wd k)) (\<lambda>wd.
               if readdir (c_string wd) then Inr (True, ev, k\<lparr>kai_env := (kai_env k)(PWD \<mapsto> c_string wd), kai_wd := wd\<rparr>)
               else Inr (False, ev @ [Printed (cd_not_found t)], k\<lparr>kai_wd := wd\<rparr>)))"

datatype kai_cmd = CMD_EMPTY | CMD_BUILTIN | CMD_OTHER

definition shown_wd :: "kai \<Rightarrow> u8 list" where
  "shown_wd k = (case kai_env k PWD of None \<Rightarrow> c_string (kai_wd k) | Some pwd \<Rightarrow> pwd)"

text \<open>\<open>__process_builtin\<close>; None is the process ending in \<open>exit(0)\<close>.\<close>

definition process_builtin :: "(u8 list \<Rightarrow> bool) \<Rightarrow> u8 list list \<Rightarrow> kai \<Rightarrow> (kai_cmd \<times> kai_event list \<times> kai) option res" where
  "process_builtin readdir args k =
     (if args = [] \<or> hd args = [] then Inr (Some (CMD_EMPTY, [], k))
      else if hd args = ascii ''cd'' then and_then (builtin_cd readdir args k) (\<lambda>(ok, ev, k). Inr (Some (CMD_BUILTIN, ev, k)))
      else if hd args = ascii ''pwd'' then
        Inr (Some (CMD_BUILTIN, [Printed (ascii ''Working directory: '' @ shown_wd k @ [0x0A])], k))
      else if hd args = ascii ''exit'' then Inr None
      else Inr (Some (CMD_OTHER, [], k)))"

definition not_found :: "u8 list \<Rightarrow> u8 list \<Rightarrow> u8 list" where
  "not_found bin bin_path = ascii ''command '' @ [0x27] @ bin @ [0x27] @ ascii '' not found in '' @ [0x27] @ bin_path @ [0x27] @
     ascii '' (default path)'' @ [0x0A]"

text \<open>
  A turn of the loop in \<open>main\<close>: the prompt, the line that \<open>read\<close> gives, its words (at most 31), and the command. \<open>main\<close>
  before the loop is \<open>kai_start\<close>, with whatever \<open>malloc\<close> left in the buffer.
\<close>

definition kai_turn :: "(u8 list \<Rightarrow> bool) \<Rightarrow> (u8 list \<Rightarrow> u8 list list \<Rightarrow> int) \<Rightarrow> u8 list \<Rightarrow> kai \<Rightarrow> (kai_event list \<times> kai option) res" where
  "kai_turn readdir exec input k =
     (let prompt = [Printed (ascii ''(kai) '' @ shown_wd k @ ascii '' > ''), Printed [0x0A]];
          parts = take KAI_TOKENS_MAX (toks {0x20} input)
      in and_then (process_builtin readdir parts k) (\<lambda>r.
           case r of None \<Rightarrow> Inr (prompt, None)
           | Some (cmd_type, ev, k) \<Rightarrow>
               Inr (prompt @ ev @
                 (case cmd_type of
                    CMD_OTHER \<Rightarrow>
                      (let bin = hd parts; bin_path = ascii ''/bin/'' @ bin; ret = exec bin_path (bin_path # tl parts)
                       in [Exec bin_path (bin_path # tl parts)] @
                          (if ret \<ge> 0 then [Waitpid ret] else [Printed (not_found bin bin_path)]))
                  | CMD_EMPTY \<Rightarrow> [Printed [0x0A]]
                  | CMD_BUILTIN \<Rightarrow> []), Some k)))"

definition kai_start :: "kai_env \<Rightarrow> u8 list \<Rightarrow> kai" where
  "kai_start ev junk =
     \<lparr>kai_env = ev(PWD \<mapsto> ascii ''/user'', HOME \<mapsto> ascii ''/user''), kai_wd = overwrite junk 0 (ascii ''/user'' @ [0])\<rparr>"

text \<open>A session: a turn for each line, until the shell exits.\<close>

fun kai_session :: "(u8 list \<Rightarrow> bool) \<Rightarrow> (u8 list \<Rightarrow> u8 list list \<Rightarrow> int) \<Rightarrow> u8 list list \<Rightarrow> kai \<Rightarrow> (kai_event list \<times> kai option) res" where
  "kai_session readdir exec [] k = Inr ([], Some k)"
| "kai_session readdir exec (l # ls) k =
     and_then (kai_turn readdir exec l k) (\<lambda>(ev, r).
       case r of None \<Rightarrow> Inr (ev, None)
       | Some k \<Rightarrow> and_then (kai_session readdir exec ls k) (\<lambda>(ev', r). Inr (ev @ ev', r)))"

section \<open>Canonical paths\<close>

text \<open>A path of names: none of them is empty, has a slash or a NUL, or is one of the two dots.\<close>

definition name_ok :: "u8 list \<Rightarrow> bool" where
  "name_ok c \<longleftrightarrow> c \<noteq> [] \<and> 0x2F \<notin> set c \<and> 0 \<notin> set c"

definition plain :: "u8 list \<Rightarrow> bool" where "plain c \<longleftrightarrow> name_ok c \<and> c \<noteq> DOT \<and> c \<noteq> DOTDOT"

definition abs_path :: "u8 list list \<Rightarrow> u8 list" where
  "abs_path cs = (if cs = [] then [0x2F] else concat (map (\<lambda>c. 0x2F # c) cs))"

lemma toks_slash: "toks {0x2F} (0x2F # s) = toks {0x2F} s"
  by (subst (1 2) toks.simps) simp

lemma takeWhile_stops: "x \<notin> set c \<Longrightarrow> takeWhile (\<lambda>d. d \<noteq> x) (c @ x # r) = c" "x \<notin> set c \<Longrightarrow> dropWhile (\<lambda>d. d \<noteq> x) (c @ x # r) = x # r"
  by (induction c) auto

lemma takeWhile_all: "x \<notin> set c \<Longrightarrow> takeWhile (\<lambda>d. d \<noteq> x) c = c" "x \<notin> set c \<Longrightarrow> dropWhile (\<lambda>d. d \<noteq> x) c = []"
  by (induction c) auto

lemma toks_name:
  assumes "name_ok c"
  shows "toks {0x2F} (c @ 0x2F # r) = c # toks {0x2F} r" "toks {0x2F} c = [c]"
proof -
  obtain a as where c: "c = a # as" "a \<noteq> 0x2F" "0x2F \<notin> set c" using assms by (cases c) (auto simp: name_ok_def)
  have "toks {0x2F} (c @ 0x2F # r) = takeWhile (\<lambda>d. d \<noteq> 0x2F) (c @ 0x2F # r) # toks {0x2F} (dropWhile (\<lambda>d. d \<noteq> 0x2F) (c @ 0x2F # r))"
    using c by (subst toks.simps) simp
  then show "toks {0x2F} (c @ 0x2F # r) = c # toks {0x2F} r" by (simp only: takeWhile_stops [OF c(3)] toks_slash)
  have "toks {0x2F} c = takeWhile (\<lambda>d. d \<noteq> 0x2F) c # toks {0x2F} (dropWhile (\<lambda>d. d \<noteq> 0x2F) c)"
    using c by (subst toks.simps) simp
  then show "toks {0x2F} c = [c]" by (simp only: takeWhile_all [OF c(3)]) (simp add: toks.simps)
qed

lemma toks_abs_path:
  assumes "\<forall>c\<in>set cs. name_ok c"
  shows "toks {0x2F} (abs_path cs) = cs"
proof -
  have "toks {0x2F} (concat (map (\<lambda>c. 0x2F # c) cs)) = cs"
    using assms
  proof (induction cs)
    case (Cons c cs)
    then have c: "name_ok c" and IH: "toks {0x2F} (concat (map (\<lambda>c. 0x2F # c) cs)) = cs" by simp_all
    show ?case
    proof (cases cs)
      case Nil
      then show ?thesis using toks_name(2) [OF c] by (simp add: toks_slash)
    next
      case (Cons d ds)
      then show ?thesis using toks_name(1) [OF c, of "d @ concat (map (\<lambda>c. 0x2F # c) ds)"] IH by (simp add: toks_slash)
    qed
  qed (simp add: toks.simps)
  then show ?thesis by (auto simp: abs_path_def toks.simps)
qed

lemma toks_names: "0 \<notin> set s \<Longrightarrow> \<forall>c\<in>set (toks {0x2F} s). name_ok c"
proof (induction "{0x2F :: u8}" s rule: toks.induct)
  case (1 s)
  show ?case
  proof (cases "dropWhile (\<lambda>c. c \<in> {0x2F}) s")
    case Nil
    then have "toks {0x2F} s = []" by (simp only: toks.simps [of _ s] list.case)
    then show ?thesis by simp
  next
    case (Cons a as)
    have sub: "set (a # as) \<subseteq> set s" unfolding Cons [symmetric] by (auto dest: set_dropWhileD)
    have a: "a \<noteq> 0x2F" using Cons by (metis dropWhile_eq_Cons_conv singletonI)
    have "0 \<notin> set (dropWhile (\<lambda>c. c \<notin> {0x2F}) (a # as))" using sub 1(2) by (auto dest: set_dropWhileD)
    then have "\<forall>c\<in>set (toks {0x2F} (dropWhile (\<lambda>c. c \<notin> {0x2F}) (a # as))). name_ok c" by (rule 1(1) [OF Cons])
    moreover have "name_ok (takeWhile (\<lambda>c. c \<notin> {0x2F}) (a # as))"
      using a sub 1(2) by (auto simp: name_ok_def dest: set_takeWhileD)
    moreover have "toks {0x2F} s = takeWhile (\<lambda>c. c \<notin> {0x2F}) (a # as) # toks {0x2F} (dropWhile (\<lambda>c. c \<notin> {0x2F}) (a # as))"
      by (simp only: toks.simps [of _ s] Cons list.case)
    ultimately show ?thesis by simp
  qed
qed

section \<open>Following a path\<close>

text \<open>Following names from a directory: \<open>lk d n\<close> is what directory \<open>d\<close> has under the name \<open>n\<close>.\<close>

fun walk :: "('d \<Rightarrow> u8 list \<Rightarrow> 'd option) \<Rightarrow> 'd \<Rightarrow> u8 list list \<Rightarrow> 'd option" where
  "walk lk d [] = Some d"
| "walk lk d (t # ts) = Option.bind (lk d t) (\<lambda>e. walk lk e ts)"

text \<open>What the dots mean in a directory tree: itself, and the directory it was reached from.\<close>

definition dots :: "('d \<Rightarrow> u8 list \<Rightarrow> 'd option) \<Rightarrow> 'd \<Rightarrow> bool" where
  "dots lk root \<longleftrightarrow> (\<forall>d e. lk d DOT = Some e \<longrightarrow> e = d) \<and> (\<forall>e. lk root DOTDOT = Some e \<longrightarrow> e = root) \<and>
     (\<forall>d n e p. plain n \<longrightarrow> lk d n = Some e \<longrightarrow> lk e DOTDOT = Some p \<longrightarrow> p = d)"

lemma walk_append: "walk lk d (xs @ ys) = Option.bind (walk lk d xs) (\<lambda>e. walk lk e ys)"
  by (induction xs arbitrary: d) (auto split: bind_splits)

lemma DOTDOT_DOT: "DOTDOT \<noteq> DOT" by (simp add: DOT_def DOTDOT_def)

lemma push_components_walk:
  assumes "dots lk root"
  shows "length cmps + length ts \<le> KAI_TOKENS_MAX \<Longrightarrow> \<forall>c\<in>set cmps. plain c \<Longrightarrow> \<forall>c\<in>set ts. name_ok c \<Longrightarrow>
    (\<forall>c\<in>set (push_components cmps ts). plain c) \<and>
    (walk lk root cmps = Some d \<longrightarrow> walk lk d ts = Some e \<longrightarrow> walk lk root (push_components cmps ts) = Some e)"
proof (induction ts arbitrary: cmps d)
  case Nil
  then show ?case by simp
next
  case (Cons t ts)
  consider (dot) "t = DOT" | (up) "t = DOTDOT" | (down) "plain t" using Cons.prems(3) by (auto simp: plain_def)
  then show ?case
  proof cases
    case dot
    have "walk lk d (t # ts) = Some e \<longrightarrow> walk lk d ts = Some e" using assms dot by (auto simp: dots_def split: bind_splits)
    then show ?thesis using Cons.IH [of cmps d] Cons.prems dot by auto
  next
    case up
    show ?thesis
    proof (cases cmps rule: rev_cases)
      case Nil
      have "walk lk root cmps = Some d \<longrightarrow> walk lk d (t # ts) = Some e \<longrightarrow> d = root \<and> walk lk root ts = Some e"
        using assms up Nil by (auto simp: dots_def split: bind_splits)
      then show ?thesis using Cons.IH [of "[]" root] Cons.prems up Nil DOTDOT_DOT by auto
    next
      case (snoc cs n)
      have n: "plain n" using Cons.prems(2) snoc by simp
      have p: "walk lk root cs = Some p \<and> walk lk p ts = Some e"
        if w: "walk lk root cmps = Some d" "walk lk d (t # ts) = Some e" "walk lk root cs = Some p" for p
      proof -
        have "lk p n = Some d" using w(1,3) snoc by (auto simp: walk_append split: bind_splits)
        moreover obtain x where x: "lk d DOTDOT = Some x" "walk lk x ts = Some e" using w(2) up by (auto split: bind_splits)
        ultimately have "x = p" using assms n unfolding dots_def by blast
        then show ?thesis using w(3) x(2) by simp
      qed
      have "\<exists>p. walk lk root cs = Some p" if "walk lk root cmps = Some d" using that snoc by (auto simp: walk_append split: bind_splits)
      then show ?thesis using Cons.IH [of cs] Cons.prems up snoc p DOTDOT_DOT by auto
    qed
  next
    case down
    then have t: "t \<noteq> DOT" "t \<noteq> DOTDOT" by (simp_all add: plain_def)
    have "walk lk root (cmps @ [t]) = Some d'" if "walk lk root cmps = Some d" "lk d t = Some d'" for d'
      using that by (simp add: walk_append)
    then show ?thesis using Cons.IH [of "cmps @ [t]"] Cons.prems down t by (auto simp: KAI_TOKENS_MAX_def split: bind_splits)
  qed
qed

section \<open>Writing the path\<close>

lemma overwrite_end: "overwrite (w @ r) (length w) bs = w @ bs @ drop (length bs) r"
  by (simp add: overwrite_def)

lemma write_more:
  assumes "0 < i" "length (w @ r) = WD_MAX_LEN" "length w + length (concat (map (\<lambda>c. 0x2F # c) cs)) < WD_MAX_LEN"
  shows "\<exists>r'. write_components i cs (w @ r) (length w) = Inr ((w @ concat (map (\<lambda>c. 0x2F # c) cs)) @ r') \<and>
    length ((w @ concat (map (\<lambda>c. 0x2F # c) cs)) @ r') = WD_MAX_LEN \<and> (if cs = [] then r' = r else \<exists>x. r' = 0 # x)"
  using assms
proof (induction cs arbitrary: i w r)
  case Nil
  then show ?case by simp
next
  case (Cons c cs)
  have len: "length w + 1 + length c < WD_MAX_LEN" using Cons.prems(3) by simp
  have r: "length c + 2 \<le> length r" using len Cons.prems(2) by simp
  let ?w = "w @ 0x2F # c" and ?r = "0 # drop (length c + 2) r"
  have "put_out (w @ r) (length w) [0x2F] = Inr ((w @ [0x2F]) @ drop 1 r)"
    using r by (simp add: put_out_def overwrite_end)
  moreover have "put_out ((w @ [0x2F]) @ drop 1 r) (length (w @ [0x2F])) (c @ [0]) = Inr (?w @ ?r)"
    using r by (simp only: put_out_def overwrite_end) simp
  ultimately have st: "write_components i (c # cs) (w @ r) (length w) = write_components (i + 1) cs (?w @ ?r) (length ?w)"
    using len Cons.prems(1) by (simp add: Let_def)
  have "length (?w @ ?r) = WD_MAX_LEN" using r Cons.prems(2) by simp
  moreover have "length ?w + length (concat (map (\<lambda>c. 0x2F # c) cs)) < WD_MAX_LEN" using Cons.prems(3) by simp
  ultimately obtain r' where "write_components (i + 1) cs (?w @ ?r) (length ?w) = Inr ((?w @ concat (map (\<lambda>c. 0x2F # c) cs)) @ r')"
    "length ((?w @ concat (map (\<lambda>c. 0x2F # c) cs)) @ r') = WD_MAX_LEN" "if cs = [] then r' = ?r else \<exists>x. r' = 0 # x"
    using Cons.IH [of "i + 1" ?w ?r] by auto
  then show ?case unfolding st by (auto split: if_splits)
qed

lemma write_path:
  assumes "length out = WD_MAX_LEN" "length (abs_path cs) + 1 < WD_MAX_LEN" "\<forall>c\<in>set cs. name_ok c"
  shows "\<exists>out'. and_then (put_out out 0 [0x2F]) (\<lambda>out. and_then (write_components 0 cs out 1) (\<lambda>out.
      if cs = [] then put_out out 0 [0x2F, 0] else Inr out)) = Inr out' \<and> length out' = WD_MAX_LEN \<and> c_string out' = abs_path cs"
proof -
  have o: "put_out out 0 [0x2F] = Inr ([0x2F] @ drop 1 out)" using assms(1) by (simp add: put_out_def overwrite_def WD_MAX_LEN_def)
  show ?thesis
  proof (cases cs)
    case Nil
    have "put_out ([0x2F] @ drop 1 out) 0 [0x2F, 0] = Inr (0x2F # 0 # drop (Suc (Suc 0)) out)"
      using assms(1) by (simp add: put_out_def overwrite_def WD_MAX_LEN_def)
    then show ?thesis using Nil o assms(1) by (simp add: c_string_def abs_path_def WD_MAX_LEN_def)
  next
    case (Cons c ds)
    let ?w = "0x2F # c" and ?r = "0 # drop (length c + 2) out"
    have len: "length c + 2 < WD_MAX_LEN" using assms(2) Cons by (simp add: abs_path_def)
    have "put_out ([0x2F] @ drop 1 out) (length [0x2F :: u8]) (c @ [0]) = Inr (?w @ ?r)"
      using assms(1) len by (simp only: put_out_def overwrite_end) simp
    then have st: "write_components 0 cs ([0x2F] @ drop 1 out) 1 = write_components 1 ds (?w @ ?r) (length ?w)"
      using Cons len by (simp add: Let_def)
    have "length (?w @ ?r) = WD_MAX_LEN" using len assms(1) by simp
    moreover have "length ?w + length (concat (map (\<lambda>c. 0x2F # c) ds)) < WD_MAX_LEN" using assms(2) Cons by (simp add: abs_path_def)
    ultimately obtain r' where r: "write_components 1 ds (?w @ ?r) (length ?w) = Inr ((?w @ concat (map (\<lambda>c. 0x2F # c) ds)) @ r')"
      "length ((?w @ concat (map (\<lambda>c. 0x2F # c) ds)) @ r') = WD_MAX_LEN" "\<exists>x. r' = 0 # x"
      using write_more [of 1 ?w ?r ds] by (auto split: if_splits)
    have a: "?w @ concat (map (\<lambda>c. 0x2F # c) ds) = abs_path cs" using Cons by (simp add: abs_path_def)
    have "0 \<notin> set (abs_path cs)" using assms(3) by (auto simp: abs_path_def name_ok_def)
    then have "c_string (abs_path cs @ r') = abs_path cs" using r(3) takeWhile_stops(1) [of 0 "abs_path cs"] by (auto simp: c_string_def)
    then show ?thesis using o st r(1,2) Cons unfolding a by simp
  qed
qed

lemma toks_total:
  "length (concat (map (\<lambda>c. 0x2F # c) (toks {0x2F} s))) \<le> length s + (if s \<noteq> [] \<and> hd s \<noteq> 0x2F then 1 else 0)"
proof (induction "{0x2F :: u8}" s rule: toks.induct)
  case (1 s)
  show ?case
  proof (cases "dropWhile (\<lambda>c. c \<in> {0x2F}) s")
    case Nil
    then have "toks {0x2F} s = []" by (simp only: toks.simps [of _ s] list.case)
    then show ?thesis by simp
  next
    case (Cons a as)
    let ?t = "takeWhile (\<lambda>c. c \<notin> {0x2F}) (a # as)" and ?r = "dropWhile (\<lambda>c. c \<notin> {0x2F}) (a # as)"
    have tk: "toks {0x2F} s = ?t # toks {0x2F} ?r" by (simp only: toks.simps [of _ s] Cons list.case)
    have nh: "\<not> (?r \<noteq> [] \<and> hd ?r \<noteq> 0x2F)" using hd_dropWhile [of "\<lambda>c. c \<notin> {0x2F}" "a # as"] by auto
    have r: "length (concat (map (\<lambda>c. 0x2F # c) (toks {0x2F} ?r))) \<le> length ?r"
      using 1 [OF Cons] by (simp only: nh if_False add_0_right)
    have "length ?t + length ?r = length (a # as)" by (metis length_append takeWhile_dropWhile_id)
    moreover have "length (takeWhile (\<lambda>c. c \<in> {0x2F}) s) + length (a # as) = length s"
      by (metis Cons length_append takeWhile_dropWhile_id)
    moreover have "0 < length (takeWhile (\<lambda>c. c \<in> {0x2F}) s) \<or> (s \<noteq> [] \<and> hd s \<noteq> 0x2F)" using Cons by (cases s) auto
    moreover have "length (concat (map (\<lambda>c. 0x2F # c) (toks {0x2F} s))) =
        1 + length ?t + length (concat (map (\<lambda>c. 0x2F # c) (toks {0x2F} ?r)))"
      unfolding tk by (simp del: takeWhile.simps dropWhile.simps)
    moreover have "(if s \<noteq> [] \<and> hd s \<noteq> 0x2F then 1 else 0 :: nat) = 1 \<or> \<not> (s \<noteq> [] \<and> hd s \<noteq> 0x2F)" by (cases "s \<noteq> [] \<and> hd s \<noteq> 0x2F") (simp_all only: if_True simp_thms)
    ultimately show ?thesis using r by linarith
  qed
qed

lemma push_components_total:
  "length (concat (map (\<lambda>c. 0x2F # c) (push_components cmps ts))) \<le>
     length (concat (map (\<lambda>c. 0x2F # c) cmps)) + length (concat (map (\<lambda>c. 0x2F # c) ts))"
proof (induction ts arbitrary: cmps)
  case (Cons t ts)
  let ?n = "\<lambda>cs. length (concat (map (\<lambda>c :: u8 list. 0x2F # c) cs))"
  have "?n (butlast cmps) \<le> ?n cmps" by (cases cmps rule: rev_cases) simp_all
  moreover have "?n (push_components x ts) \<le> ?n x + ?n ts" for x by (rule Cons.IH)
  from this [of cmps] this [of "butlast cmps"] this [of "cmps @ [t]"]
  show ?case using calculation by auto
qed simp

text \<open>
  C38. \<open>cd\<close> with a path stores a canonical one when that is a directory, and otherwise leaves the environment as it was:
  an absolute path without empty components and dots, from which the next \<open>cd\<close> starts, and which leads to the directory
  that the typed path leads to from the working directory, in any tree in which the dots mean what they should. The working
  directory and the path together have at most 31 components and fewer than 509 characters: beyond that the arrays of
  \<open>cd\<close> overflow, and components that do not fit its buffer are left out, so that \<open>cd\<close> goes elsewhere.
\<close>

theorem cd_same_directory:
  assumes "0 \<notin> set target" "target \<noteq> []" "kai_env k PWD = Some pwd" "0 \<notin> set pwd" "length (kai_wd k) = WD_MAX_LEN"
    and "\<forall>c\<in>set (toks {0x2F} pwd). plain c" "length (toks {0x2F} pwd) + length (toks {0x2F} target) \<le> KAI_TOKENS_MAX"
    and "length pwd + length target + 3 < WD_MAX_LEN"
  shows "\<exists>path cs wd'. builtin_cd readdir [cmd, target] k =
      Inr (readdir path, if readdir path then [] else [Printed (cd_not_found target)],
           k\<lparr>kai_env := (if readdir path then (kai_env k)(PWD \<mapsto> path) else kai_env k), kai_wd := wd'\<rparr>) \<and>
    path = abs_path cs \<and> toks {0x2F} path = cs \<and> (\<forall>c\<in>set cs. plain c) \<and> length wd' = WD_MAX_LEN \<and>
    (\<forall>(lk :: 'd \<Rightarrow> u8 list \<Rightarrow> 'd option) root d e. dots lk root \<longrightarrow>
       walk lk root (if hd target = 0x2F then [] else toks {0x2F} pwd) = Some d \<longrightarrow> walk lk d (toks {0x2F} target) = Some e \<longrightarrow>
       walk lk root (toks {0x2F} path) = Some e)"
proof -
  let ?base = "if hd target = 0x2F then [] else toks {0x2F} pwd" and ?ts = "toks {0x2F} target"
  let ?cs = "push_components ?base ?ts"
  have hd: "(target @ [0]) ! 0 = hd target" using assms(2) by (cases target) simp_all
  have names: "\<forall>c\<in>set ?ts. name_ok c" by (rule toks_names [OF assms(1)])
  have base: "length ?base + length ?ts \<le> KAI_TOKENS_MAX" "\<forall>c\<in>set ?base. plain c" using assms(6,7) by auto
  note steps = push_components_walk [OF _ base names]
  have pl: "\<forall>c\<in>set ?cs. plain c" using steps [of "\<lambda>d n. None" "()"] by (simp add: dots_def)
  then have ok: "\<forall>c\<in>set ?cs. name_ok c" by (simp add: plain_def)
  have "length (concat (map (\<lambda>c. 0x2F # c) ?cs)) \<le> (length pwd + 1) + (length target + 1)"
    using push_components_total [of ?base ?ts] toks_total [of pwd] toks_total [of target] by (auto split: if_splits)
  then have "length (abs_path ?cs) + 1 < WD_MAX_LEN" using assms(8) by (simp add: abs_path_def WD_MAX_LEN_def)
  then obtain out where o: "and_then (put_out (kai_wd k) 0 [0x2F]) (\<lambda>out. and_then (write_components 0 ?cs out 1) (\<lambda>out.
      if ?cs = [] then put_out out 0 [0x2F, 0] else Inr out)) = Inr out" "length out = WD_MAX_LEN" "c_string out = abs_path ?cs"
    using write_path [OF assms(5) _ ok] by blast
  have split: "split_path True s = Inr (toks {0x2F} s)" if "length (toks {0x2F} s) \<le> KAI_TOKENS_MAX" for s
    using that by (simp add: split_path_def)
  have "cd_resolve True True True True True (Some pwd) target (kai_wd k) = Inr out"
    using o(1) split [of pwd] split [of target] assms(7) hd by (simp add: cd_resolve_def split: if_splits)
  then have b: "builtin_cd readdir [cmd, target] k =
      Inr (readdir (abs_path ?cs), if readdir (abs_path ?cs) then [] else [Printed (cd_not_found target)],
           k\<lparr>kai_env := (if readdir (abs_path ?cs) then (kai_env k)(PWD \<mapsto> abs_path ?cs) else kai_env k), kai_wd := out\<rparr>)"
    using assms(2,3) o(3) by (simp add: builtin_cd_def Let_def)
  have t: "toks {0x2F} (abs_path ?cs) = ?cs" by (rule toks_abs_path [OF ok])
  have w: "walk lk root (toks {0x2F} (abs_path ?cs)) = Some e"
    if "dots lk root" "walk lk root ?base = Some d" "walk lk d ?ts = Some e" for lk :: "'d \<Rightarrow> u8 list \<Rightarrow> 'd option" and root d e
    using steps [OF that(1), of d e] that(2,3) unfolding t by simp
  show ?thesis using b t pl o(2) w by blast
qed

text \<open>\<open>cd .././/bin\<close> in \<open>/user\<close>.\<close>

definition kai_demo :: kai where
  "kai_demo = \<lparr>kai_env = [PWD \<mapsto> [0x2F, 0x75]], kai_wd = replicate 512 0\<rparr>"

theorem cd_same_directory_witness:
  "\<exists>wd'. builtin_cd (\<lambda>p. True) [[], [0x2E, 0x2E, 0x2F, 0x2E, 0x2F, 0x2F, 0x62]] kai_demo =
    Inr (True, [], kai_demo\<lparr>kai_env := [PWD \<mapsto> [0x2F, 0x62]], kai_wd := wd'\<rparr>)"
proof -
  let ?t = "[0x2E, 0x2E, 0x2F, 0x2E, 0x2F, 0x2F, 0x62] :: u8 list" and ?p = "[0x2F, 0x75] :: u8 list"
  have tp: "toks {0x2F} ?p = [[0x75]]" by (simp add: toks.simps)
  have tt: "toks {0x2F} ?t = [DOTDOT, DOT, [0x62]]" by (simp add: toks.simps DOT_def DOTDOT_def)
  define lk :: "nat \<Rightarrow> u8 list \<Rightarrow> nat option" where
    "lk d n = (if n = DOT then Some d else if n = DOTDOT then Some 0 else if d = 0 \<and> n = [0x75] then Some 1
       else if d = 0 \<and> n = [0x62] then Some 2 else None)" for d n
  have dots: "dots lk 0" using DOTDOT_DOT by (auto simp: dots_def lk_def plain_def split: if_splits)
  have pre: "0 \<notin> set ?t" "?t \<noteq> []" "kai_env kai_demo PWD = Some ?p" "0 \<notin> set ?p" "length (kai_wd kai_demo) = WD_MAX_LEN"
    "\<forall>c\<in>set (toks {0x2F} ?p). plain c" "length (toks {0x2F} ?p) + length (toks {0x2F} ?t) \<le> KAI_TOKENS_MAX"
    "length ?p + length ?t + 3 < WD_MAX_LEN"
    unfolding tp tt by (simp_all add: kai_demo_def WD_MAX_LEN_def KAI_TOKENS_MAX_def plain_def name_ok_def DOT_def DOTDOT_def)
  have "\<exists>path cs wd'. builtin_cd (\<lambda>p. True) [[], ?t] kai_demo =
      Inr (True, if True then [] else [Printed (cd_not_found ?t)],
        kai_demo\<lparr>kai_env := (if True then (kai_env kai_demo)(PWD \<mapsto> path) else kai_env kai_demo), kai_wd := wd'\<rparr>) \<and>
    path = abs_path cs \<and> toks {0x2F} path = cs \<and> (\<forall>c\<in>set cs. plain c) \<and> length wd' = WD_MAX_LEN \<and>
    (\<forall>(lk :: nat \<Rightarrow> u8 list \<Rightarrow> nat option) root d e. dots lk root \<longrightarrow>
       walk lk root (if hd ?t = 0x2F then [] else toks {0x2F} ?p) = Some d \<longrightarrow> walk lk d (toks {0x2F} ?t) = Some e \<longrightarrow>
       walk lk root (toks {0x2F} path) = Some e)"
    by (rule cd_same_directory [OF pre])
  then obtain path cs wd' where r: "builtin_cd (\<lambda>p. True) [[], ?t] kai_demo =
      Inr (True, if True then [] else [Printed (cd_not_found ?t)],
        kai_demo\<lparr>kai_env := (if True then (kai_env kai_demo)(PWD \<mapsto> path) else kai_env kai_demo), kai_wd := wd'\<rparr>)"
    "path = abs_path cs" "toks {0x2F} path = cs" "\<forall>c\<in>set cs. plain c"
    and q: "\<And>(lk :: nat \<Rightarrow> u8 list \<Rightarrow> nat option) root d e. dots lk root \<Longrightarrow>
       walk lk root (if hd ?t = 0x2F then [] else toks {0x2F} ?p) = Some d \<Longrightarrow> walk lk d (toks {0x2F} ?t) = Some e \<Longrightarrow>
       walk lk root (toks {0x2F} path) = Some e" by blast
  have hd: "(if hd ?t = 0x2F then [] else toks {0x2F} ?p) = [[0x75]]" unfolding tp by simp
  have "walk lk 0 [[0x75]] = Some 1" "walk lk 1 [DOTDOT, DOT, [0x62]] = Some 2"
    using DOTDOT_DOT by (simp_all add: lk_def DOT_def DOTDOT_def)
  then have w: "walk lk 0 cs = Some 2" using q [OF dots, unfolded hd tt r(3)] by blast
  have none: "lk x n = None" if "plain n" "x \<noteq> 0" for x n using that by (simp add: lk_def plain_def)
  obtain c rest where cs: "cs = c # rest" using w by (cases cs) simp_all
  obtain x where x: "lk 0 c = Some x" "walk lk x rest = Some 2" using w cs by (auto split: bind_splits)
  have c: "x \<noteq> 0" "x = 2 \<longrightarrow> c = [0x62]" using x(1) r(4) cs by (auto simp: lk_def plain_def split: if_splits)
  have "rest = []" using x(2) none [OF _ c(1)] r(4) cs by (cases rest) simp_all
  then have "cs = [[0x62]]" using x(2) c(2) cs by simp
  then have "path = [0x2F, 0x62]" using r(2) by (simp add: abs_path_def)
  then have "builtin_cd (\<lambda>p. True) [[], ?t] kai_demo = Inr (True, [], kai_demo\<lparr>kai_env := [PWD \<mapsto> [0x2F, 0x62]], kai_wd := wd'\<rparr>)"
    using r(1) by (simp add: kai_demo_def)
  then show ?thesis by blast
qed

section \<open>Sessions\<close>

text \<open>What \<open>$PWD\<close> holds: an absolute path of names that are neither of the dots, at most 31 of them.\<close>

definition canonical :: "u8 list \<Rightarrow> bool" where
  "canonical p \<longleftrightarrow> p \<noteq> [] \<and> hd p = 0x2F \<and> 0 \<notin> set p \<and> (\<forall>c\<in>set (toks {0x2F} p). plain c) \<and> length (toks {0x2F} p) \<le> KAI_TOKENS_MAX"

definition wd_ok :: "u8 list \<Rightarrow> bool" where
  "wd_ok wd \<longleftrightarrow> length wd = WD_MAX_LEN \<and> 0 \<in> set wd \<and> canonical (c_string wd)"

definition kai_ok :: "(u8 list \<Rightarrow> bool) \<Rightarrow> kai \<Rightarrow> bool" where
  "kai_ok readdir k \<longleftrightarrow> wd_ok (kai_wd k) \<and>
     (\<exists>p. kai_env k PWD = Some p \<and> canonical p \<and> (readdir p \<or> p = ascii ''/user'')) \<and>
     (\<exists>h. kai_env k HOME = Some h \<and> canonical h)"

lemma toks_Nil [simp]: "toks D [] = []" by (subst toks.simps) simp

lemma toks_append_slash: "toks {0x2F} (w @ 0x2F # r) = toks {0x2F} w @ toks {0x2F} r"
proof (induction "{0x2F :: u8}" w rule: toks.induct)
  case (1 w)
  show ?case
  proof (cases "dropWhile (\<lambda>c. c \<in> {0x2F}) w")
    case Nil
    then have "toks {0x2F} w = []" by (simp only: toks.simps [of _ w] list.case)
    moreover have "dropWhile (\<lambda>c. c \<in> {0x2F}) (w @ 0x2F # r) = dropWhile (\<lambda>c. c \<in> {0x2F}) r"
      using Nil by (simp add: dropWhile_append)
    ultimately show ?thesis by (subst (1 3) toks.simps) simp
  next
    case (Cons a as)
    let ?t = "takeWhile (\<lambda>c. c \<notin> {0x2F})" and ?d = "dropWhile (\<lambda>c. c \<notin> {0x2F})"
    have "\<not> (\<forall>x\<in>set w. x = 0x2F)" using Cons by (metis dropWhile_eq_Nil_conv list.distinct(1) singletonI)
    then have e: "dropWhile (\<lambda>c. c \<in> {0x2F}) (w @ 0x2F # r) = a # as @ 0x2F # r" using Cons by (auto simp: dropWhile_append)
    have tw: "toks {0x2F} w = ?t (a # as) # toks {0x2F} (?d (a # as))" by (simp only: toks.simps [of _ w] Cons list.case)
    have ta: "toks {0x2F} (w @ 0x2F # r) = ?t (a # as @ 0x2F # r) # toks {0x2F} (?d (a # as @ 0x2F # r))"
      by (simp only: toks.simps [of _ "w @ 0x2F # r"] e list.case)
    show ?thesis
    proof (cases "0x2F \<in> set (a # as)")
      case True
      have "?t ((a # as) @ 0x2F # r) = ?t (a # as)" by (rule takeWhile_append1 [OF True]) simp
      moreover have "?d ((a # as) @ 0x2F # r) = ?d (a # as) @ 0x2F # r" by (rule dropWhile_append1 [OF True]) simp
      ultimately show ?thesis using 1 [OF Cons] unfolding ta tw by (simp only: append_Cons)
    next
      case False
      have "?t ((a # as) @ 0x2F # r) = a # as" "?d ((a # as) @ 0x2F # r) = 0x2F # r" "?t (a # as) = a # as" "?d (a # as) = []"
        using takeWhile_stops [OF False, of r] takeWhile_all [OF False] by (simp_all only: singleton_iff)
      then show ?thesis unfolding ta tw by (simp only: append_Cons append_Nil toks_slash toks_Nil)
    qed
  qed
qed

lemma toks_sub: "\<forall>t\<in>set (toks D s). t \<noteq> [] \<and> set t \<subseteq> set s"
proof (induction D s rule: toks.induct)
  case (1 D s)
  show ?case
  proof (cases "dropWhile (\<lambda>c. c \<in> D) s")
    case Nil
    then have "toks D s = []" by (simp only: toks.simps [of _ s] list.case)
    then show ?thesis by simp
  next
    case (Cons a as)
    have sub: "set (a # as) \<subseteq> set s" unfolding Cons [symmetric] by (auto dest: set_dropWhileD)
    have a: "a \<notin> D" using Cons by (metis dropWhile_eq_Cons_conv)
    have "\<forall>t\<in>set (toks D (dropWhile (\<lambda>c. c \<notin> D) (a # as))). t \<noteq> [] \<and> set t \<subseteq> set s"
      using 1 [OF Cons] sub by (fastforce dest: set_dropWhileD)
    moreover have "takeWhile (\<lambda>c. c \<notin> D) (a # as) \<noteq> [] \<and> set (takeWhile (\<lambda>c. c \<notin> D) (a # as)) \<subseteq> set s"
      using a sub by (auto dest: set_takeWhileD)
    moreover have "toks D s = takeWhile (\<lambda>c. c \<notin> D) (a # as) # toks D (dropWhile (\<lambda>c. c \<notin> D) (a # as))"
      by (simp only: toks.simps [of _ s] Cons list.case)
    ultimately show ?thesis by simp
  qed
qed

lemma push_components_bound:
  "length cmps \<le> KAI_TOKENS_MAX \<Longrightarrow> \<forall>c\<in>set cmps. plain c \<Longrightarrow> \<forall>c\<in>set ts. name_ok c \<Longrightarrow>
     length (push_components cmps ts) \<le> KAI_TOKENS_MAX \<and> (\<forall>c\<in>set (push_components cmps ts). plain c)"
proof (induction ts arbitrary: cmps)
  case (Cons t ts)
  consider (dot) "t = DOT" | (up) "t = DOTDOT" | (down) "plain t" using Cons.prems(3) by (auto simp: plain_def)
  then show ?case
  proof cases
    case dot
    then show ?thesis using Cons.IH [OF Cons.prems(1,2)] Cons.prems(3) by simp
  next
    case up
    have "length (butlast cmps) \<le> KAI_TOKENS_MAX" "\<forall>c\<in>set (butlast cmps). plain c"
      using Cons.prems(1,2) by (simp_all add: le_trans [OF diff_le_self]) (meson in_set_butlastD)
    then show ?thesis using Cons.IH [of "butlast cmps"] Cons.IH [OF Cons.prems(1,2)] Cons.prems(3) up DOTDOT_DOT by auto
  next
    case down
    then have t: "t \<noteq> DOT" "t \<noteq> DOTDOT" by (simp_all add: plain_def)
    show ?thesis
    proof (cases "length cmps < KAI_TOKENS_MAX")
      case True
      then show ?thesis using Cons.IH [of "cmps @ [t]"] Cons.prems(2,3) down t by simp
    next
      case False
      then show ?thesis using Cons.IH [OF Cons.prems(1,2)] Cons.prems(3) t by simp
    qed
  qed
qed simp

lemma canonical_toks: "canonical w \<Longrightarrow> toks {0x2F} (w @ 0x2F # c) = toks {0x2F} w @ toks {0x2F} c"
  by (rule toks_append_slash)

text \<open>Each component that fits leaves a path and its NUL; a buffer in which none fitted keeps the path it had.\<close>

lemma write_components_ok:
  assumes "length (w @ r) = WD_MAX_LEN" "length w < WD_MAX_LEN" "canonical w" "length (toks {0x2F} w) + length cs \<le> KAI_TOKENS_MAX"
    and "\<forall>c\<in>set cs. plain c" "i = 0 \<longrightarrow> w = [0x2F]" "(\<exists>x. r = 0 # x) \<or> wd_ok (w @ r)"
  shows "\<exists>out. write_components i cs (w @ r) (length w) = Inr out \<and> wd_ok out"
  using assms
proof (induction cs arbitrary: i w r)
  case Nil
  have "wd_ok (w @ r)" if "r = 0 # x" for x
  proof -
    have "0 \<notin> set w" using Nil.prems(3) by (simp add: canonical_def)
    then show ?thesis using that Nil.prems(1,3) takeWhile_stops(1) [of 0 w x] by (simp add: wd_ok_def c_string_def)
  qed
  then show ?case using Nil.prems(7) by auto
next
  case (Cons c cs)
  show ?case
  proof (cases "length w + 1 + length c < WD_MAX_LEN")
    case True
    let ?u = "if i > 0 then w @ [0x2F] else w"
    let ?w = "?u @ c"
    define out where "out = (if i > 0 then (w @ [0x2F]) @ drop 1 r else w @ r)"
    have out: "out = ?u @ drop (length ?u - length w) r" by (simp add: out_def)
    have len: "length ?u + length c < WD_MAX_LEN" "length out = WD_MAX_LEN" using True Cons.prems(1) by (auto simp: out_def)
    have u: "(if i > 0 then put_out (w @ r) (length w) [0x2F] else Inr (w @ r)) = Inr out"
      using True Cons.prems(1) by (simp add: put_out_def overwrite_end out_def)
    have "put_out out (length ?u) (c @ [0]) = Inr (?w @ 0 # drop (length c + 1) (drop (length ?u - length w) r))"
      using len unfolding put_out_def by (simp add: out overwrite_end del: if_split) 
    moreover define r' where "r' = drop (length c + 1) (drop (length ?u - length w) r)"
    ultimately have p: "put_out out (length ?u) (c @ [0]) = Inr (?w @ 0 # r')" by simp
    have l': "length (?w @ 0 # r') = WD_MAX_LEN" using len Cons.prems(1) True by (auto simp: r'_def)
    have st: "write_components i (c # cs) (w @ r) (length w) = write_components (i + 1) cs (?w @ 0 # r') (length ?w)"
      using True u p by (simp add: Let_def split: if_splits)
    have c: "plain c" "name_ok c" using Cons.prems(5) by (simp_all add: plain_def)
    have tk: "toks {0x2F} ?w = toks {0x2F} w @ [c]"
      using Cons.prems(6) toks_append_slash [of w c] toks_name(2) [OF c(2)] toks_slash [of c] toks_slash [of "[]"] by auto
    have "canonical ?w" using Cons.prems(3,4,6) c unfolding canonical_def tk by (auto simp: name_ok_def)
    moreover have "length (toks {0x2F} ?w) + length cs \<le> KAI_TOKENS_MAX" using Cons.prems(4) unfolding tk by simp
    moreover have "length ?w < WD_MAX_LEN" using len by simp
    ultimately show ?thesis unfolding st by (intro Cons.IH [OF l']) (use Cons.prems(5) in simp_all)
  next
    case False
    have "\<exists>out. write_components (i + 1) cs (w @ r) (length w) = Inr out \<and> wd_ok out"
      by (rule Cons.IH) (use Cons.prems in simp_all)
    then show ?thesis using False by simp
  qed
qed

lemma cd_resolve_ok:
  assumes "wd_ok wd" "canonical pwd" "t \<noteq> []" "0 \<notin> set t" "length (toks {0x2F} t) \<le> KAI_TOKENS_MAX"
  shows "\<exists>out. cd_resolve True True True True True (Some pwd) t wd = Inr out \<and> wd_ok out"
proof -
  let ?base = "if (t @ [0]) ! 0 \<noteq> 0x2F then toks {0x2F} pwd else []"
  let ?cs = "push_components ?base (toks {0x2F} t)"
  have split: "split_path True s = Inr (toks {0x2F} s)" if "length (toks {0x2F} s) \<le> KAI_TOKENS_MAX" for s
    using that by (simp add: split_path_def)
  have cs: "length ?cs \<le> KAI_TOKENS_MAX \<and> (\<forall>c\<in>set ?cs. plain c)"
    using assms(2) toks_names [OF assms(4)] by (intro push_components_bound) (auto simp: canonical_def)
  obtain wr where w: "wd = 0x2F # wr" "length wr = 511"
    using assms(1) by (cases wd) (auto simp: wd_ok_def canonical_def c_string_def WD_MAX_LEN_def split: if_splits)
  have root: "canonical [0x2F]" "toks {0x2F} [0x2F] = []" using toks_slash [of "[]"] by (simp_all add: canonical_def)
  obtain out where o: "write_components 0 ?cs wd 1 = Inr out" "wd_ok out"
    using write_components_ok [of "[0x2F]" wr ?cs 0] assms(1) w root cs by (auto simp: WD_MAX_LEN_def)
  have p: "put_out wd 0 [0x2F] = Inr wd" using w by (simp add: put_out_def overwrite_def)
  have s: "(if (t @ [0]) ! 0 \<noteq> 0x2F \<and> True then split_path True pwd else Inr []) = Inr ?base"
    using split [of pwd] assms(2) by (simp add: canonical_def)
  have e: "cd_resolve True True True True True (Some pwd) t wd = (if ?cs = [] then put_out out 0 [0x2F, 0] else Inr out)"
    unfolding cd_resolve_def using split [OF assms(5)] p o(1) by (simp only: s option.case and_then_simps not_True_eq_False if_False if_True)
  have "wd_ok ([0x2F, 0] @ drop 2 out)" if "length out = WD_MAX_LEN"
    using that root by (simp add: wd_ok_def c_string_def WD_MAX_LEN_def)
  then have "\<exists>out'. put_out out 0 [0x2F, 0] = Inr out' \<and> wd_ok out'" 
    using o(2) by (simp add: put_out_def overwrite_def wd_ok_def WD_MAX_LEN_def numeral_2_eq_2)
  then show ?thesis using o(2) unfolding e by auto
qed

lemma builtin_cd_ok:
  assumes "kai_ok readdir k" "args \<noteq> []" "\<forall>a\<in>set args. a \<noteq> [] \<and> 0 \<notin> set a \<and> length (toks {0x2F} a) \<le> KAI_TOKENS_MAX"
  shows "\<exists>ok ev k'. builtin_cd readdir args k = Inr (ok, ev, k') \<and> kai_ok readdir k' \<and> (\<forall>p a. Exec p a \<notin> set ev)"
proof -
  obtain p h where k: "wd_ok (kai_wd k)" "kai_env k PWD = Some p" "canonical p" "kai_env k HOME = Some h" "canonical h"
    using assms(1) by (auto simp: kai_ok_def)
  define t where "t = (if length args < 2 \<or> args ! 1 = [] then h else args ! 1)"
  have t: "t \<noteq> []" "0 \<notin> set t" "length (toks {0x2F} t) \<le> KAI_TOKENS_MAX"
    using k(5) assms(3) by (auto simp: t_def canonical_def)
  obtain out where o: "cd_resolve True True True True True (Some p) t (kai_wd k) = Inr out" "wd_ok out"
    using cd_resolve_ok [OF k(1,3) t] by blast
  have tg: "(if length args < 2 \<or> args ! 1 = [] then kai_env k HOME else Some (args ! 1)) = Some t"
    by (simp add: t_def k(4))
  have ne: "HOME \<noteq> PWD" by (simp add: HOME_def PWD_def ascii_def)
  have ok: "kai_ok readdir (k\<lparr>kai_wd := out\<rparr>)" using assms(1) o(2) by (auto simp: kai_ok_def)
  have "canonical (c_string out)" using o(2) by (simp add: wd_ok_def)
  then have "kai_ok readdir (k\<lparr>kai_env := (kai_env k)(PWD \<mapsto> c_string out), kai_wd := out\<rparr>)" if "readdir (c_string out)"
    using that o(2) k(4,5) ne by (simp add: kai_ok_def)
  then show ?thesis using ok unfolding builtin_cd_def Let_def tg option.case k(2) o(1) and_then_simps by auto
qed

lemma process_builtin_ok:
  assumes "kai_ok readdir k" "\<forall>a\<in>set args. a \<noteq> [] \<and> 0 \<notin> set a \<and> length (toks {0x2F} a) \<le> KAI_TOKENS_MAX"
  shows "\<exists>r. process_builtin readdir args k = Inr r \<and>
    (case r of None \<Rightarrow> True
     | Some (c, ev, k') \<Rightarrow> kai_ok readdir k' \<and> (\<forall>p a. Exec p a \<notin> set ev) \<and> (c = CMD_OTHER \<longrightarrow> args \<noteq> []))"
  using assms builtin_cd_ok [OF assms(1), of args] unfolding process_builtin_def by auto

definition runs_in_bin :: "kai_event list \<Rightarrow> bool" where
  "runs_in_bin ev \<longleftrightarrow> (\<forall>p a. Exec p a \<in> set ev \<longrightarrow> (\<exists>c args. p = ascii ''/bin/'' @ c \<and> c \<noteq> [] \<and> a = p # args))"

definition line_ok :: "u8 list \<Rightarrow> bool" where
  "line_ok l \<longleftrightarrow> 0 \<notin> set l \<and> (\<forall>w\<in>set (toks {0x20} l). length (toks {0x2F} w) \<le> KAI_TOKENS_MAX)"

lemma kai_turn_ok:
  assumes "kai_ok readdir k" "line_ok l"
  shows "\<exists>ev r. kai_turn readdir exec l k = Inr (ev, r) \<and> runs_in_bin ev \<and> (\<forall>k'. r = Some k' \<longrightarrow> kai_ok readdir k')"
proof -
  let ?parts = "take KAI_TOKENS_MAX (toks {0x20} l)"
  have parts: "\<forall>a\<in>set ?parts. a \<noteq> [] \<and> 0 \<notin> set a \<and> length (toks {0x2F} a) \<le> KAI_TOKENS_MAX"
    using assms(2) toks_sub [of "{0x20}" l] by (fastforce simp: line_ok_def dest: in_set_takeD)
  obtain r where r: "process_builtin readdir ?parts k = Inr r"
    "case r of None \<Rightarrow> True
     | Some (c, ev, k') \<Rightarrow> kai_ok readdir k' \<and> (\<forall>p a. Exec p a \<notin> set ev) \<and> (c = CMD_OTHER \<longrightarrow> ?parts \<noteq> [])"
    using process_builtin_ok [OF assms(1) parts] by blast
  have "?parts \<noteq> [] \<Longrightarrow> hd ?parts \<noteq> []" using parts by (meson hd_in_set)
  then show ?thesis using r(2) unfolding kai_turn_def Let_def r(1) and_then_simps
    by (cases r) (auto simp: runs_in_bin_def split: kai_cmd.splits)
qed

lemma kai_start_ok:
  assumes "length junk = WD_MAX_LEN"
  shows "kai_ok readdir (kai_start ev junk)"
proof -
  let ?u = "[0x2F, 0x75, 0x73, 0x65, 0x72] :: u8 list"
  have a: "ascii ''/user'' = ?u" by (simp add: ascii_def)
  have "toks {0x2F} ?u = [[0x75, 0x73, 0x65, 0x72]]" by (simp add: toks.simps)
  then have "canonical ?u" by (simp add: canonical_def plain_def name_ok_def DOT_def DOTDOT_def KAI_TOKENS_MAX_def)
  moreover have "c_string (kai_wd (kai_start ev junk)) = ?u" "length (kai_wd (kai_start ev junk)) = WD_MAX_LEN"
    using assms by (simp_all add: kai_start_def a overwrite_def c_string_def WD_MAX_LEN_def)
  moreover have "0 \<in> set (kai_wd (kai_start ev junk))" by (simp add: kai_start_def a overwrite_def)
  moreover have "HOME \<noteq> PWD" by (simp add: HOME_def PWD_def ascii_def)
  ultimately show ?thesis unfolding kai_ok_def wd_ok_def by (simp add: a kai_start_def)
qed

lemma kai_session_from:
  "kai_ok readdir k \<Longrightarrow> \<forall>l\<in>set ls. line_ok l \<Longrightarrow>
    \<exists>ev r. kai_session readdir exec ls k = Inr (ev, r) \<and> runs_in_bin ev \<and> (\<forall>k'. r = Some k' \<longrightarrow> kai_ok readdir k')"
proof (induction ls arbitrary: k)
  case Nil
  then show ?case by (simp add: runs_in_bin_def)
next
  case (Cons l ls)
  obtain ev r where t: "kai_turn readdir exec l k = Inr (ev, r)" "runs_in_bin ev" "\<forall>k'. r = Some k' \<longrightarrow> kai_ok readdir k'"
    using kai_turn_ok [OF Cons.prems(1)] Cons.prems(2) by (meson list.set_intros(1))
  show ?case
  proof (cases r)
    case None
    then show ?thesis using t by simp
  next
    case (Some k')
    then obtain ev' r' where s: "kai_session readdir exec ls k' = Inr (ev', r')" "runs_in_bin ev'" "\<forall>k'. r' = Some k' \<longrightarrow> kai_ok readdir k'"
      using Cons.IH [of k'] t(3) Cons.prems(2) by auto
    have "runs_in_bin (ev @ ev')" using t(2) s(2) unfolding runs_in_bin_def by (metis Un_iff set_append)
    then show ?thesis using t(1) s Some by simp
  qed
qed

text \<open>
  C37. A session never stores outside the shell's arrays when no word of a line has more than 31 path components. Whatever the
  lines, \<open>$PWD\<close> is then an absolute path free of the dots that \<open>readdir\<close> could list (or still the first one), and what
  was executed is the program of the command's name in \<open>/bin\<close>, which is also its first argument.
\<close>

theorem kai_session_pwd:
  assumes "length junk = WD_MAX_LEN" "\<forall>l\<in>set ls. line_ok l"
  shows "\<exists>ev r. kai_session readdir exec ls (kai_start env0 junk) = Inr (ev, r) \<and>
    (\<forall>p a. Exec p a \<in> set ev \<longrightarrow> (\<exists>c args. p = ascii ''/bin/'' @ c \<and> c \<noteq> [] \<and> a = p # args)) \<and>
    (\<forall>k. r = Some k \<longrightarrow> (\<exists>p. kai_env k PWD = Some p \<and> canonical p \<and> (readdir p \<or> p = ascii ''/user'')))"
  using kai_session_from [OF kai_start_ok [OF assms(1)] assms(2), of readdir exec] unfolding kai_ok_def runs_in_bin_def by blast

text \<open>The line \<open>cd ..\<close> and then \<open>ls\<close>, over a tree in which only \<open>/\<close> can be listed.\<close>

theorem kai_session_pwd_witness:
  "\<exists>ev k. kai_session (\<lambda>p. p = [0x2F]) (\<lambda>p a. 7) [ascii ''cd ..'', ascii ''ls''] (kai_start Map.empty (replicate 512 1)) = Inr (ev, Some k) \<and>
    kai_env k PWD = Some [0x2F] \<and> canonical [0x2F] \<and> ev =
      [Printed (ascii ''(kai) /user > ''), Printed [0x0A], Printed (ascii ''(kai) / > ''), Printed [0x0A],
       Exec (ascii ''/bin/ls'') [ascii ''/bin/ls''], Waitpid 7]"
proof -
  let ?ls = "[ascii ''cd ..'', ascii ''ls'']" and ?start = "kai_start Map.empty (replicate 512 1)"
  have words: "toks {0x20} (ascii ''cd ..'') = [ascii ''cd'', DOTDOT]" "toks {0x20} (ascii ''ls'') = [ascii ''ls'']"
    by (simp_all add: ascii_def DOTDOT_def toks.simps)
  have names: "toks {0x2F} (ascii ''cd'') = [ascii ''cd'']" "toks {0x2F} DOTDOT = [DOTDOT]" "toks {0x2F} (ascii ''ls'') = [ascii ''ls'']"
    "toks {0x2F} (ascii ''/user'') = [ascii ''user'']"
    by (simp_all add: ascii_def DOTDOT_def toks.simps)
  have chars: "0 \<notin> set (ascii ''cd ..'')" "0 \<notin> set (ascii ''ls'')" by (simp_all add: ascii_def)
  have lines: "\<forall>l\<in>set ?ls. line_ok l" using chars by (simp add: line_ok_def words names KAI_TOKENS_MAX_def)
  have "\<exists>ev r. kai_session (\<lambda>p. p = [0x2F]) (\<lambda>p a. 7) ?ls ?start = Inr (ev, r) \<and>
    (\<forall>p a. Exec p a \<in> set ev \<longrightarrow> (\<exists>c args. p = ascii ''/bin/'' @ c \<and> c \<noteq> [] \<and> a = p # args)) \<and>
    (\<forall>k. r = Some k \<longrightarrow> (\<exists>p. kai_env k PWD = Some p \<and> canonical p \<and> (p = [0x2F] \<or> p = ascii ''/user'')))"
    by (rule kai_session_pwd [OF _ lines]) (simp add: WD_MAX_LEN_def)
  then obtain ev r where s: "kai_session (\<lambda>p. p = [0x2F]) (\<lambda>p a. 7) ?ls ?start = Inr (ev, r)"
    "\<forall>k. r = Some k \<longrightarrow> (\<exists>p. kai_env k PWD = Some p \<and> canonical p \<and> (p = [0x2F] \<or> p = ascii ''/user''))" by blast
  define wd where "wd = overwrite (kai_wd ?start) 0 [0x2F, 0]"
  have len: "length (kai_wd ?start) = 512" by (simp add: kai_start_def ascii_def overwrite_def)
  have "cd_resolve True True True True True (Some (ascii ''/user'')) DOTDOT (kai_wd ?start) = Inr wd"
    using len names DOTDOT_DOT unfolding cd_resolve_def split_path_def
    by (simp add: KAI_TOKENS_MAX_def put_out_def overwrite_def wd_def DOTDOT_def)
  moreover have "c_string wd = [0x2F]" by (simp add: wd_def c_string_def overwrite_def)
  moreover have ne: "PWD \<noteq> HOME" "ascii ''ls'' \<noteq> ascii ''cd''" "ascii ''ls'' \<noteq> ascii ''pwd''" "ascii ''ls'' \<noteq> ascii ''exit''"
     "ascii ''cd'' \<noteq> []" "ascii ''ls'' \<noteq> []" "DOTDOT \<noteq> []" by (simp_all add: ascii_def HOME_def PWD_def DOTDOT_def)
  moreover have "kai_env ?start PWD = Some (ascii ''/user'')" using ne(1) by (simp add: kai_start_def)
  ultimately have "builtin_cd (\<lambda>p. p = [0x2F]) [ascii ''cd'', DOTDOT] ?start =
      Inr (True, [], ?start\<lparr>kai_env := (kai_env ?start)(PWD \<mapsto> [0x2F]), kai_wd := wd\<rparr>)"
    by (simp add: builtin_cd_def)
  then have "kai_turn (\<lambda>p. p = [0x2F]) (\<lambda>p a. 7) (ascii ''cd ..'') ?start =
      Inr ([Printed (ascii ''(kai) /user > ''), Printed [0x0A]], Some (?start\<lparr>kai_env := (kai_env ?start)(PWD \<mapsto> [0x2F]), kai_wd := wd\<rparr>))"
    using ne by (simp add: kai_turn_def words KAI_TOKENS_MAX_def process_builtin_def) (simp add: kai_start_def shown_wd_def ascii_def)
  moreover have "kai_turn (\<lambda>p. p = [0x2F]) (\<lambda>p a. 7) (ascii ''ls'') (?start\<lparr>kai_env := (kai_env ?start)(PWD \<mapsto> [0x2F]), kai_wd := wd\<rparr>) =
      Inr ([Printed (ascii ''(kai) / > ''), Printed [0x0A], Exec (ascii ''/bin/ls'') [ascii ''/bin/ls''], Waitpid 7],
        Some (?start\<lparr>kai_env := (kai_env ?start)(PWD \<mapsto> [0x2F]), kai_wd := wd\<rparr>))"
    using ne by (simp add: kai_turn_def words KAI_TOKENS_MAX_def process_builtin_def) (simp add: shown_wd_def ascii_def Let_def)
  ultimately show ?thesis using s by auto
qed

end
