(* ===== verification/Uutils.thy ===== *)
theory Uutils
  imports Kai
begin

text \<open>
  The programs in \<open>user_fs/src/utils\<close> and the first process, \<open>user_fs/src/genkan.c\<close>: how \<open>ls\<close> lays out names, what
  \<open>cat\<close> opens and prints, what \<open>genkan\<close> starts. Strings are values, what the library calls answer is given.
\<close>

section \<open>\<open>ls\<close>\<close>

definition LS_MAX_LINE_LEN :: nat where "LS_MAX_LINE_LEN = 40"

fun ls_loop :: "u8 list list \<Rightarrow> nat \<Rightarrow> u8 list" where
  "ls_loop [] line_len = []"
| "ls_loop (name # names) line_len =
     (let name_len = length name;
          sep = (if line_len = 0 then 0 else 1);
          full = (line_len + sep + name_len > LS_MAX_LINE_LEN);
          line_len = (if full then 0 else line_len);
          sep = (if full then 0 else sep)
      in (if full then [0x0A] else []) @ (if sep \<noteq> 0 then [0x20, 0x20] else []) @ name @ ls_loop names (line_len + sep + name_len))"

text \<open>
  \<open>main\<close>: the arguments after the name of the program, \<open>$PWD\<close>, and the names that \<open>readdir\<close> gives. The result is the
  exit code and what was written.
\<close>

definition ls_main :: "u8 list list \<Rightarrow> u8 list option \<Rightarrow> (u8 list \<Rightarrow> u8 list list option) \<Rightarrow> int \<times> u8 list" where
  "ls_main args pwd readdir =
     (case (case args of a # _ \<Rightarrow> Some a | [] \<Rightarrow> pwd) of
        None \<Rightarrow> (- 1, ascii ''ls: error: no path given, and $PWD environment variable could not be read'' @ [0x0A])
      | Some path \<Rightarrow>
          (case readdir path of
             None \<Rightarrow> (1, ascii ''ls: readdir failed'' @ [0x0A])
           | Some names \<Rightarrow> (0, ls_loop names 0 @ [0x0A])))"

text \<open>The layout: rows of names, two spaces between them, filled up to 40 columns in which a gap counts as one.\<close>

definition row_width :: "u8 list list \<Rightarrow> nat" where
  "row_width row = sum_list (map length row) + (length row - 1)"

fun row_text :: "u8 list list \<Rightarrow> u8 list" where
  "row_text [] = []"
| "row_text [name] = name"
| "row_text (name # names) = name @ [0x20, 0x20] @ row_text names"

fun ls_rows :: "u8 list list \<Rightarrow> u8 list list \<Rightarrow> u8 list list list" where
  "ls_rows row [] = [row]"
| "ls_rows row (name # names) =
     (if row_width (row @ [name]) \<le> LS_MAX_LINE_LEN then ls_rows (row @ [name]) names else row # ls_rows [name] names)"

lemma row_text_snoc: "row_text (row @ [name]) = (if row = [] then name else row_text row @ [0x20, 0x20] @ name)"
  by (induction row rule: row_text.induct) auto

lemma row_width_snoc: "row_width (row @ [name]) = row_width row + (if row = [] then 0 else 1) + length name"
  by (cases row) (simp_all add: row_width_def)

lemma row_width_0: "\<forall>n\<in>set row. n \<noteq> [] \<Longrightarrow> row_width row = 0 \<longleftrightarrow> row = []"
  by (cases row) (simp_all add: row_width_def)

lemma ls_rows_not_Nil: "ls_rows row names \<noteq> []"
  by (induction names arbitrary: row) simp_all

lemma ls_loop_rows:
  "\<forall>n\<in>set (row @ names). n \<noteq> [] \<Longrightarrow>
     row_text row @ ls_loop names (row_width row) @ [0x0A] = concat (map (\<lambda>r. row_text r @ [0x0A]) (ls_rows row names))"
proof (induction names arbitrary: row)
  case (Cons name names)
  have z: "row_width row = 0 \<longleftrightarrow> row = []" by (rule row_width_0) (use Cons.prems in simp)
  show ?case
  proof (cases "row_width (row @ [name]) \<le> LS_MAX_LINE_LEN")
    case True
    then have "ls_loop (name # names) (row_width row) =
        (if row = [] then [] else [0x20, 0x20]) @ name @ ls_loop names (row_width (row @ [name]))"
      using z by (simp add: row_width_snoc Let_def)
    then show ?thesis using Cons.IH [of "row @ [name]"] Cons.prems True by (simp add: row_text_snoc split: if_splits)
  next
    case False
    then have "ls_loop (name # names) (row_width row) = [0x0A] @ name @ ls_loop names (row_width [name])"
      using z by (simp add: row_width_snoc Let_def) (simp add: row_width_def)
    then show ?thesis using Cons.IH [of "[name]"] Cons.prems False by simp
  qed
qed simp

lemma ls_rows_names: "concat (ls_rows row names) = row @ names"
  by (induction names arbitrary: row) simp_all

lemma ls_rows_width: "row_width row \<le> LS_MAX_LINE_LEN \<or> length row = 1 \<Longrightarrow>
    \<forall>r\<in>set (ls_rows row names). row_width r \<le> LS_MAX_LINE_LEN \<or> length r = 1"
proof (induction names arbitrary: row)
  case (Cons name names)
  then show ?case using Cons.IH [of "row @ [name]"] Cons.IH [of "[name]"] by simp
qed simp

text \<open>
  \<open>ls\<close> writes every name of the directory, once and in order, in lines of at most 40 columns unless a single name is
  longer, when each gap of two spaces counts as one column.
\<close>

theorem ls_lines:
  assumes "readdir path = Some names" "\<forall>n\<in>set names. n \<noteq> []"
  shows "\<exists>rows. ls_main (path # args) pwd readdir = (0, concat (map (\<lambda>r. row_text r @ [0x0A]) rows)) \<and> concat rows = names \<and>
    (\<forall>r\<in>set rows. row_width r \<le> LS_MAX_LINE_LEN \<or> length r = 1)"
proof (intro exI conjI)
  show "ls_main (path # args) pwd readdir = (0, concat (map (\<lambda>r. row_text r @ [0x0A]) (ls_rows [] names)))"
    using ls_loop_rows [of "[]" names] assms by (simp add: ls_main_def row_width_def)
  show "concat (ls_rows [] names) = names" by (simp add: ls_rows_names)
  show "\<forall>r\<in>set (ls_rows [] names). row_width r \<le> LS_MAX_LINE_LEN \<or> length r = 1"
    by (rule ls_rows_width) (simp add: row_width_def LS_MAX_LINE_LEN_def)
qed

theorem ls_lines_witness:
  "\<exists>rows. ls_main [[0x2F]] None (\<lambda>p. Some [[0x61], [0x62]]) = (0, concat (map (\<lambda>r. row_text r @ [0x0A]) rows)) \<and> concat rows = [[0x61], [0x62]]"
  using ls_lines [of "\<lambda>p. Some [[0x61], [0x62]]" "[0x2F]" "[[0x61], [0x62]]" "[]" None] by auto

section \<open>\<open>cat\<close>\<close>

definition CAT_FILE_BUF_MAX_LEN :: nat where "CAT_FILE_BUF_MAX_LEN = 1024"

definition get_full_path :: "u8 list \<Rightarrow> u8 list option \<Rightarrow> u8 list" where
  "get_full_path file_path wd =
     (let wd = (case wd of None \<Rightarrow> [0x2F] | Some wd \<Rightarrow> wd)
      in (if wd \<noteq> [] \<and> last wd \<noteq> 0x2F then wd @ [0x2F] else wd) @ file_path)"

datatype util_event = Shown "u8 list" | Opened "u8 list" int | ReadFile int | Closed int | Executed "u8 list" | Awaited int

text \<open>
  \<open>main\<close> of \<open>cat\<close>: the flags say whether its two allocations succeed, \<open>buf\<close> is what \<open>malloc\<close> gives, \<open>open\<close> answers
  with a descriptor, and \<open>readf\<close> with the bytes it stores. A buffer without a NUL is printed past its end.
\<close>

definition cat_main :: "bool \<Rightarrow> bool \<Rightarrow> u8 list list \<Rightarrow> u8 list option \<Rightarrow> (u8 list \<Rightarrow> int) \<Rightarrow> (int \<Rightarrow> nat \<Rightarrow> u8 list) \<Rightarrow> u8 list \<Rightarrow>
    (int \<times> util_event list) res" where
  "cat_main path_ok buf_ok args pwd open readf buf =
     (case args of
        [] \<Rightarrow> Inr (1, [Shown (ascii ''cat: no file input given'' @ [0x0A])])
      | file_path # _ \<Rightarrow>
          (let absolute = ((file_path @ [0]) ! 0 = 0x2F); full_path = (if absolute then file_path else get_full_path file_path pwd)
           in if \<not> absolute \<and> \<not> path_ok
              then Inr (1, [Shown (ascii ''cat: failed to concatenate working directory and given path: malloc failed'' @ [0x0A])])
              else let fd = open full_path
                   in if fd < 0
                      then Inr (1, [Opened full_path fd, Shown (ascii ''cat: failed to open '' @ [0x27] @ full_path @ [0x27, 0x0A])])
                      else if \<not> buf_ok
                      then Inr (1, [Opened full_path fd, Shown (ascii ''cat: failed to allocate memory for reading file'' @ [0x0A]), Closed fd])
                      else let file_buf = overwrite buf 0 (readf fd CAT_FILE_BUF_MAX_LEN)
                           in if 0 \<notin> set file_buf then Inl (KFault ''file_buf'')
                              else Inr (0, [Opened full_path fd, ReadFile fd, Shown (c_string file_buf @ [0x0A]), Closed fd])))"

lemma cat_closes:
  "cat_main path_ok buf_ok args pwd open readf buf = Inr (code, ev) \<Longrightarrow> Opened path fd \<in> set ev \<Longrightarrow> fd \<ge> 0 \<Longrightarrow> Closed fd \<in> set ev"
  by (auto simp: cat_main_def Let_def split: list.splits if_splits)

lemma cat_reads_file:
  assumes "readf (open path) CAT_FILE_BUF_MAX_LEN = bs" "path \<noteq> []" "hd path = 0x2F" "open path \<ge> 0"
    and "length bs < length buf" "buf ! length bs = 0" "0 \<notin> set bs"
  shows "cat_main path_ok True (path # args) pwd open readf buf =
    Inr (0, [Opened path (open path), ReadFile (open path), Shown (bs @ [0x0A]), Closed (open path)])"
proof -
  have "(path @ [0]) ! 0 = 0x2F" using assms(2,3) by (cases path) simp_all
  moreover have "overwrite buf 0 bs = bs @ 0 # drop (length bs + 1) buf"
    using assms(5,6) by (simp add: overwrite_def flip: Cons_nth_drop_Suc)
  moreover have "c_string (bs @ 0 # r) = bs" for r using assms(7) takeWhile_stops(1) [of 0 bs] by (simp add: c_string_def)
  ultimately show ?thesis using assms(1,4) by (simp add: cat_main_def Let_def)
qed

text \<open>Nothing puts a NUL behind what was read: bytes that \<open>malloc\<close> left in the buffer are printed too.\<close>

lemma cat_prints_rest:
  "cat_main True True [[0x2F, 0x66]] None (\<lambda>p. 3) (\<lambda>fd n. [0x61]) [0x78, 0x79, 0x7A, 0] =
     Inr (0, [Opened [0x2F, 0x66] 3, ReadFile 3, Shown [0x61, 0x79, 0x7A, 0x0A], Closed 3])"
  by (simp add: cat_main_def overwrite_def c_string_def)

section \<open>\<open>genkan\<close>\<close>

text \<open>
  \<open>main\<close>: it returns when it is not the first process, else it idles in the end (the Boolean).
\<close>

definition genkan_main :: "int \<Rightarrow> (u8 list \<Rightarrow> int) \<Rightarrow> util_event list \<times> bool" where
  "genkan_main pid exec =
     (if pid \<noteq> 1 then ([Shown (ascii ''genkan: error: already running'' @ [0x0A])], False)
      else let kai_pid = exec (ascii ''/bin/kai'')
           in ([Shown ([0x0A, 0x0A] @ ascii '' ==== ==== ==== ==== ==== ==== ==== ===='' @ [0x0A, 0x0A]),
                Shown (ascii ''*** genkan: starting up...'' @ [0x0A, 0x0A]), Executed (ascii ''/bin/kai'')] @
               (if kai_pid < 0 then [Shown (ascii ''*** shell could not be started! genkan will idle'' @ [0x0A, 0x0A])] else []) @
               [Awaited kai_pid, Shown (ascii ''*** genkan: shell was killed or exited. genkan will now idle'' @ [0x0A])], True))"

text \<open>It waits for the shell it started; when none started it waits for the process of the failed call's number.\<close>

lemma genkan_waits: "pid = 1 \<Longrightarrow> Awaited (exec (ascii ''/bin/kai'')) \<in> set (fst (genkan_main pid exec))"
  by (simp add: genkan_main_def Let_def)

end
