(* ===== verification/Spec2Isabelle.thy ===== *)
theory Spec2Isabelle
  imports HeapRun Boot StartStack Print Vga Interrupt Tty Ustdlib Ustdio Usyscall Udir Kai Uutils
begin

text \<open>
  kaku is a kernel for 32-bit x86 machines with a small user space, written in C. This library models the kernel under
  \<open>src/kernel/\<close> and the user library under \<open>src/user_fs/\<close>, and proves what makes each part correct.

  \<^bold>\<open>The program and how its parts interact.\<close> The kernel runs in the upper gigabyte: its entry code maps the first 12
  MiB of physical memory at \<open>0xC0000000\<close>, \<open>mm_init\<close> then the memory up to the end of the usable region, and everything
  the kernel allocates comes from a heap of 4 MiB (\<open>mm/src/heap.c\<close>) or from a bitmap of 4 KiB frames
  (\<open>mm/src/frame.c\<close>). Address spaces are page directories in such frames (\<open>mm/src/paging.c\<close>). Growable arrays
  (\<open>lib/src/dynarray.h\<close>) hold the pool of processes, the table of open files, the mapped regions of a process and the
  entries of a listed directory. A process (\<open>proc/src/proc.c\<close>) is created idle or by the ELF loader (\<open>elf/src/elf.c\<close>),
  which reads the file through the virtual file system switch (\<open>fs/src/vfs.c\<close>, \<open>fs/src/fd.c\<close>) from an ext2 volume
  (\<open>fs/src/ext2.c\<close>) on an ATA disk (\<open>dev/src/ata.c\<close>). The scheduler (\<open>proc/src/sched.c\<close>) goes round the pool; system
  calls (\<open>syscall/src/syscall.c\<close>) and the keyboard (\<open>dev/src/kb.c\<close>, \<open>tty/src/stdin.c\<close>) block and wake its processes.
  Output goes to a terminal (\<open>tty/src/tty.c\<close>) that paints glyphs of a font into a frame buffer (\<open>dev/src/vesa.c\<close>).
  User programs are linked with an allocator on top of \<open>sbrk\<close> and \<open>mmap\<close> (\<open>user_fs/lib/mem.h\<close>), string routines
  (\<open>user_fs/lib/string.h\<close>) and an environment (\<open>user_fs/lib/stdlib.h\<close>).

  \<^bold>\<open>Theories and sources.\<close>
  \<^item> \<open>KPrelude\<close>: \<open>lib/src/core.h\<close>, \<open>lib/src/math.h\<close>, the types of \<open>stdint.h\<close>, memory as a function from addresses to
    bytes.
  \<^item> \<open>Buddy\<close> (abstract), \<open>Heap\<close> (code), \<open>HeapCorrect\<close> (refinement), \<open>HeapRun\<close> (callers): \<open>mm/src/heap.c\<close>, \<open>krealloc\<close> of
    \<open>lib/src/mem.h\<close>. \<open>kheap_init\<close>, \<open>kheap_alloc\<close>, \<open>kheap_free\<close> and their loops work on a record with the free lists
    and the bytes; the abstract value is a partition of the region into blocks. The library's interface is the locale
    \<open>allocator\<close>.
  \<^item> \<open>Frame\<close>: \<open>mm/src/frame.c\<close>, \<open>mm/src/mem.c\<close>. The bitmap is read as a set of free frames; locale \<open>frame_source\<close>.
  \<^item> \<open>Paging\<close>, \<open>Pages\<close>: \<open>mm/src/paging.c\<close>. The page walk of the processor is a definition of its own against which the
    tables are checked. \<open>Boot\<close>: \<open>mm_init\<close> of \<open>mm/mod.h\<close>, which starts heap, frames and paging.
  \<^item> \<open>Dynarray\<close>, \<open>Kstring\<close>, \<open>Print\<close>: \<open>lib/src/dynarray.h\<close> (locale \<open>sequence\<close>), \<open>lib/src/string.h\<close>, \<open>lib/src/print.h\<close>.
  \<^item> \<open>Proc\<close>, \<open>Sched\<close>, \<open>StartStack\<close>: \<open>proc/src/proc.c\<close>, \<open>proc/src/sched.c\<close>, \<open>user_fs/src/_start.c\<close>. The record \<open>kstate\<close>
    holds what the C files share in static variables.
  \<^item> \<open>Fd\<close>: \<open>fs/src/vfs.c\<close>, \<open>fs/src/fd.c\<close>, the descriptors of \<open>proc/src/proc.c\<close>.
  \<^item> \<open>Keyboard\<close>: \<open>dev/src/kb.c\<close>, \<open>tty/src/stdin.c\<close>.
  \<^item> \<open>Disk\<close> (contract) and \<open>Ata\<close> (driver): \<open>dev/src/ata.c\<close>.
  \<^item> \<open>Ext2Data\<close>, \<open>Ext2\<close>, \<open>Ext2File\<close> (code), \<open>Ext2Blocks\<close>, \<open>Ext2Inode\<close>, \<open>Ext2Contents\<close>, \<open>Ext2Alloc\<close>, \<open>Ext2Paths\<close>
    (proofs), \<open>Ext2Vfs\<close>: \<open>fs/src/ext2.c\<close> and the headers beside it, \<open>fs/src/ext2_vfs.c\<close>; locale \<open>block_store\<close>.
  \<^item> \<open>Elf\<close>, \<open>ElfLoad\<close>: \<open>elf/src/elf.c\<close>.
  \<^item> \<open>Syscall\<close>, \<open>UserMemory\<close>, \<open>UserProcess\<close>: \<open>syscall/src/syscall.c\<close>, a definition per handler and the dispatcher.
  \<^item> \<open>Font\<close>, \<open>Tty\<close>: \<open>tty/src/fonts/default8x16.c\<close>, \<open>tty/src/tty.c\<close>, \<open>dev/src/vesa.c\<close>.
  \<^item> \<open>Interrupt\<close>: \<open>hw/mod.h\<close> (interrupt controllers), \<open>hw/src/idt.c\<close>, \<open>hw/src/pit.c\<close>, \<open>proc/src/tss.c\<close>.
  \<^item> \<open>Vga\<close>: \<open>dev/src/vga.c\<close>, the text screen that the terminal has replaced.
  \<^item> \<open>Umem\<close>, \<open>Ustring\<close>, \<open>Ustdlib\<close>: \<open>user_fs/lib/mem.h\<close>, \<open>user_fs/lib/string.h\<close>, \<open>getenv\<close> and \<open>setenv\<close> of
    \<open>user_fs/lib/stdlib.h\<close>.
  \<^item> \<open>Usyscall\<close>, \<open>Ustdio\<close>, \<open>Udir\<close>: the macros of \<open>user_fs/sys/syscalls.h\<close>; \<open>vsnprintf\<close> and \<open>printf\<close>, \<open>readdir\<close> of
    \<open>user_fs/lib/stdio.h\<close>. \<open>Udir\<close> also has what the kernel's handler leaves in the program's buffer.
  \<^item> \<open>Kai\<close>, \<open>Uutils\<close>: the shell \<open>user_fs/src/kai.c\<close>; \<open>user_fs/src/utils/ls.c\<close>, \<open>user_fs/src/utils/cat.c\<close>,
    \<open>user_fs/src/genkan.c\<close>. These take strings as values: the library theories prove what the calls do to memory.

  \<^bold>\<open>What the lemmas show.\<close> The heap refines a partition into buddies: live allocations never overlap, freeing always
  returns, and a heap of which everything was freed is one block again. Frames are conserved and handed out first fit.
  What \<open>paging_map\<close> writes is what the processor's walk reads; pages whose table was there before and the user half of
  other spaces are untouched, and what a new table, which is not cleared, does to the pages beside is stated. Arrays
  refine lists; splitting and joining paths are inverse. The scheduler picks the first ready process behind its head
  and within one round every process that stays ready. The block of arguments on a new stack is read back by the
  program's entry code. Reference counts of open files are exact. A typed line reaches the blocked reader. A written
  file is read back, the block allocator takes the lowest clear bit, paths resolve as the tree of entries says. The
  loader leaves the image the ELF file describes; \<open>mmap\<close>, \<open>munmap\<close> and \<open>sbrk\<close> keep the space mapped as they say. The
  driver of the disk transfers a front part of what it is asked for on every drive of the ATA standard, and implements
  an array of sectors on drives that also keep quiet while they are busy. The terminal refines a paper of lines, and
  the pixels are those of its cells, with the glyphs two lines too high. The allocator of user programs hands out
  disjoint blocks and keeps what is held; tokens, decimal and hexadecimal digits and the environment are what they
  should be in memory. The start of memory management leaves a state in which the invariants of heap, frames and page
  tables hold together, and apart from each other but for the frame in which the heap ends, which becomes the
  directory. Device interrupts arrive at their vectors and are acknowledged, user code can raise only the system call,
  and a fault in user mode ends that process alone. \<open>printf\<close> writes the rendering of its format and frees what it
  took, \<open>readdir\<close> gives the whole directory, and the shell's \<open>cd\<close> leads where the typed path leads.

  \<^bold>\<open>Conventions.\<close> A routine takes the static variables it uses as a record and returns it updated. How it can end
  instead is a value of \<open>kerr\<close>: \<open>KPanic\<close> is a call of \<open>kernel_panic\<close>, \<open>KHang\<close> a loop that never ends, \<open>KFault\<close> an
  access that C leaves undefined or the processor refuses. Integers keep their width (\<open>u8\<close> to \<open>u64\<close> are words) and
  wrap as in C; a signed \<open>int\<close> is a \<open>u32\<close> read with \<open>sint\<close>. Memory is little-endian. Buffers that a routine allocates,
  fills and frees are values (lists of bytes) where no other code sees their address; where nothing is known of fresh
  memory its contents are a parameter (\<open>x_fresh\<close> of the file system, the argument \<open>fresh\<close> elsewhere), and addresses
  that \<open>kmalloc\<close> picks for objects that are only passed around are parameters. User memory is reached through the page
  directory of the process (\<open>ubytes\<close>). Copying an inode with struct assignment reads four bytes behind the 128 the
  disk holds, which the code overwrites at once; the model leaves them out. Messages to the log and the serial line
  are left out; the warnings that system calls print on the terminal are not.

  \<^bold>\<open>Loops, bounds and fuel.\<close> A loop that need not end is \<open>partial_function (option)\<close> with \<open>None\<close> for not returning
  (walking free lists, strings and environments); for those, theorems state that it returns. Other loops are
  structural or have a measure: \<open>dir_block\<close> goes on by at least eight bytes, \<open>merge_loop\<close> and \<open>split_loop\<close> by an
  order. Counted loops take the number of rounds: \<open>write_file_loop\<close> gets one round per byte and thirteen more, which
  is enough since each round writes a byte or skips one of thirteen block pointers; \<open>zero_bit\<close> and \<open>zero_byte\<close> have as
  many steps as a byte has bits and a bitmap has bytes; \<open>printf_attempts\<close> has the four attempts of \<open>printf\<close>; the
  driver's waiting loops have the \<open>ATA_WAIT_TIMEOUT\<close> of the code, 100000.

  \<^bold>\<open>What is assumed of the world outside.\<close> \<open>Ata\<close> takes the ports as a parameter and states as \<open>ata_device\<close> what the
  ATA standard says of a drive, leaving open what it leaves open; \<open>quiet\<close> and \<open>ignores_commands\<close> are what the driver
  relies on beyond it. A drive of the model shows that all of them can hold, and a second one, which is not quiet,
  that the first can hold without the others. The rest of the kernel sees the disk through \<open>disk_read\<close> and
  \<open>disk_write\<close>. The interrupt controllers, the interrupt table as the processor reads it and the cursor registers of
  the display are definitions from the manuals of the devices. In \<open>Udir\<close> the system call is a parameter of which
  \<open>lists_dir\<close> says what the kernel's handler is shown to do; in \<open>Kai\<close> and \<open>Uutils\<close> what the library answers is one,
  and there is memory for the small allocations whose failure the code does not handle. Where the allocator of user
  programs is used, a hypothesis says that there is room for what is allocated. The processor's page walk, its
  interrupt frame and the identity of the direct map are definitions of the model.

  \<^bold>\<open>Not modelled.\<close> The order of the calls in \<open>kernel.c\<close> after \<open>mm_init\<close>; the log, the serial line and the panic
  screen, which only produce output; the headers \<open>mod.h\<close> where they only rename functions; the assembly files (boot,
  stubs of interrupts, the idle loop), which are not C.
  That nothing but the heap uses the memory of the heap is taken for granted. On the real machine
  \<open>kheap_init\<close> puts it over the stack the kernel runs on and over the memory of the video card, which are no part of
  the model.
\<close>

end
